(* ===== verification/TUS_Prelude.thy ===== *)
theory TUS_Prelude
  imports Main "HOL-Library.Word"
begin

text \<open>
  Shared vocabulary of the development: the machine integer types of the kernel, the
  error numbers of \<^verbatim>\<open>kernel/core/errno.h\<close>, the generic search loop
  \<open>scan\<close> (every allocator of the kernel is a linear search for the first suitable
  index), byte arrays as functions with bulk copies, byte images of integers, and the \<open>bitmap\<close> interface that
  the frame allocator, the swap-slot allocator and the filesystem allocators implement.
\<close>

unbundle bit_operations_syntax

type_synonym u8 = "8 word"
type_synonym u16 = "16 word"
type_synonym u32 = "32 word"
type_synonym u64 = "64 word"

text \<open>A C array whose length is fixed by its declaration: only the indices below that
  length are meaningful, and every access of the model is proved or checked to be there.\<close>

type_synonym bytes_array = "nat \<Rightarrow> u8"

named_theorems bitmap_simps \<open>laws of the bitmap operations\<close>
named_theorems array_simps \<open>bulk copies into and out of byte arrays\<close>

section \<open>Error numbers\<close>

abbreviation (input) EPERM :: int where "EPERM \<equiv> 1"
abbreviation (input) ENOENT :: int where "ENOENT \<equiv> 2"
abbreviation (input) EIO :: int where "EIO \<equiv> 5"
abbreviation (input) EBADF :: int where "EBADF \<equiv> 9"
abbreviation (input) EAGAIN :: int where "EAGAIN \<equiv> 11"
abbreviation (input) ENOMEM :: int where "ENOMEM \<equiv> 12"
abbreviation (input) EACCES :: int where "EACCES \<equiv> 13"
abbreviation (input) EEXIST :: int where "EEXIST \<equiv> 17"
abbreviation (input) ENOTDIR :: int where "ENOTDIR \<equiv> 20"
abbreviation (input) EISDIR :: int where "EISDIR \<equiv> 21"
abbreviation (input) EINVAL :: int where "EINVAL \<equiv> 22"
abbreviation (input) EMFILE :: int where "EMFILE \<equiv> 24"
abbreviation (input) ENOTTY :: int where "ENOTTY \<equiv> 25"
abbreviation (input) ESPIPE :: int where "ESPIPE \<equiv> 29"
abbreviation (input) EPIPE :: int where "EPIPE \<equiv> 32"
abbreviation (input) ENAMETOOLONG :: int where "ENAMETOOLONG \<equiv> 36"
abbreviation (input) ENOTEMPTY :: int where "ENOTEMPTY \<equiv> 39"
abbreviation (input) EDESTADDRREQ :: int where "EDESTADDRREQ \<equiv> 89"
abbreviation (input) EPROTONOSUPPORT :: int where "EPROTONOSUPPORT \<equiv> 93"
abbreviation (input) EOPNOTSUPP :: int where "EOPNOTSUPP \<equiv> 95"
abbreviation (input) EAFNOSUPPORT :: int where "EAFNOSUPPORT \<equiv> 97"
abbreviation (input) EADDRINUSE :: int where "EADDRINUSE \<equiv> 98"
abbreviation (input) ENETDOWN :: int where "ENETDOWN \<equiv> 100"
abbreviation (input) ECONNRESET :: int where "ECONNRESET \<equiv> 104"
abbreviation (input) EISCONN :: int where "EISCONN \<equiv> 106"
abbreviation (input) ENOTCONN :: int where "ENOTCONN \<equiv> 107"
abbreviation (input) ETIMEDOUT :: int where "ETIMEDOUT \<equiv> 110"
abbreviation (input) ECONNREFUSED :: int where "ECONNREFUSED \<equiv> 111"
abbreviation (input) EHOSTUNREACH :: int where "EHOSTUNREACH \<equiv> 113"

section \<open>Linear search\<close>

text \<open>\<^verbatim>\<open>for (i = lo; i < hi; i++) if (p(i)) return i;\<close>\<close>

function scan :: "(nat \<Rightarrow> bool) \<Rightarrow> nat \<Rightarrow> nat \<Rightarrow> nat option" where
  "scan p lo hi =
     (if lo < hi then (if p lo then Some lo else scan p (Suc lo) hi) else None)"
  by pat_completeness auto
termination
  by (relation "measure (\<lambda>(p, lo, hi). hi - lo)") auto

declare scan.simps [simp del]

lemma scan_Some_iff:
  "scan p lo hi = Some i \<longleftrightarrow> lo \<le> i \<and> i < hi \<and> p i \<and> (\<forall>j. lo \<le> j \<and> j < i \<longrightarrow> \<not> p j)"
proof (induction p lo hi rule: scan.induct)
  case (1 p lo hi)
  show ?case
  proof (cases "lo < hi \<and> \<not> p lo")
    case True
    then have "scan p lo hi = scan p (Suc lo) hi"
      by (simp add: scan.simps [of p lo hi])
    moreover have "(Suc lo \<le> i \<and> i < hi \<and> p i \<and> (\<forall>j. Suc lo \<le> j \<and> j < i \<longrightarrow> \<not> p j)) \<longleftrightarrow>
        (lo \<le> i \<and> i < hi \<and> p i \<and> (\<forall>j. lo \<le> j \<and> j < i \<longrightarrow> \<not> p j))"
      using True by (metis Suc_le_eq Suc_leD le_neq_implies_less)
    ultimately show ?thesis using "1.IH" True by simp
  next
    case False
    then show ?thesis
      by (auto simp: scan.simps [of p lo hi] not_less_iff_gr_or_eq)
  qed
qed

lemma scan_None_iff: "scan p lo hi = None \<longleftrightarrow> (\<forall>i. lo \<le> i \<and> i < hi \<longrightarrow> \<not> p i)"
proof (induction p lo hi rule: scan.induct)
  case (1 p lo hi)
  show ?case
  proof (cases "lo < hi \<and> \<not> p lo")
    case True
    then show ?thesis
      using "1.IH" by (simp add: scan.simps [of p lo hi]) (metis Suc_le_eq le_neq_implies_less Suc_leD)
  next
    case False
    then show ?thesis by (auto simp: scan.simps [of p lo hi])
  qed
qed

lemmas scan_SomeD = scan_Some_iff [THEN iffD1]

lemma scan_cong_bound:
  assumes "\<And>i. lo \<le> i \<Longrightarrow> i < hi \<Longrightarrow> p i = q i"
  shows "scan p lo hi = scan q lo hi"
proof (cases "scan p lo hi")
  case None
  then show ?thesis using assms by (metis scan_None_iff)
next
  case (Some i)
  then have "scan q lo hi = Some i"
    using assms by (auto simp: scan_Some_iff)
  with Some show ?thesis by simp
qed

section \<open>Byte arrays and bulk copies\<close>

text \<open>\<^verbatim>\<open>memcpy(a + off, src, |src|)\<close> and the bytes a \<^verbatim>\<open>memcpy\<close> reads out of an array.\<close>

definition array_put :: "nat \<Rightarrow> 'a list \<Rightarrow> (nat \<Rightarrow> 'a) \<Rightarrow> nat \<Rightarrow> 'a" where
  "array_put off xs a = (\<lambda>i. if off \<le> i \<and> i < off + length xs then xs ! (i - off) else a i)"

definition array_get :: "nat \<Rightarrow> nat \<Rightarrow> (nat \<Rightarrow> 'a) \<Rightarrow> 'a list" where
  "array_get off n a = map (\<lambda>i. a (off + i)) [0..<n]"

lemma length_array_get [simp, array_simps]: "length (array_get off n a) = n"
  by (simp add: array_get_def)

lemma nth_array_get [simp, array_simps]: "i < n \<Longrightarrow> array_get off n a ! i = a (off + i)"
  by (simp add: array_get_def)

lemma array_put_Nil [simp, array_simps]: "array_put off [] a = a"
  by (rule ext) (auto simp: array_put_def)

lemma array_put_out [array_simps]: "i < off \<or> off + length xs \<le> i \<Longrightarrow> array_put off xs a i = a i"
  by (auto simp: array_put_def)

lemma array_put_in [array_simps]: "i < length xs \<Longrightarrow> array_put off xs a (off + i) = xs ! i"
  by (simp add: array_put_def)

lemma array_get_put_same [simp, array_simps]: "array_get off (length xs) (array_put off xs a) = xs"
  by (rule nth_equalityI) (auto simp: array_put_def)

lemma array_get_put_disjoint [array_simps]:
  "off' + n \<le> off \<or> off + length xs \<le> off' \<Longrightarrow>
   array_get off' n (array_put off xs a) = array_get off' n a"
  by (rule nth_equalityI) (auto simp: array_put_def)

lemma array_get_add: "array_get off (m + n) a = array_get off m a @ array_get (off + m) n a"
  by (rule nth_equalityI) (auto simp: nth_append)

text \<open>The same copy on a list: the buffer keeps its length when the copy fits.\<close>

definition splice :: "nat \<Rightarrow> 'a list \<Rightarrow> 'a list \<Rightarrow> 'a list" where
  "splice off xs buf = take off buf @ xs @ drop (off + length xs) buf"

definition slice :: "nat \<Rightarrow> nat \<Rightarrow> 'a list \<Rightarrow> 'a list" where
  "slice off n buf = take n (drop off buf)"

lemma length_splice [simp]:
  "off + length xs \<le> length buf \<Longrightarrow> length (splice off xs buf) = length buf"
  by (simp add: splice_def)

lemma length_slice [simp]: "off + n \<le> length buf \<Longrightarrow> length (slice off n buf) = n"
  by (simp add: slice_def)

lemma slice_splice_same [simp]:
  "off + length xs \<le> length buf \<Longrightarrow> slice off (length xs) (splice off xs buf) = xs"
  by (simp add: slice_def splice_def)

lemma nth_splice:
  "off + length xs \<le> length buf \<Longrightarrow> i < length buf \<Longrightarrow>
   splice off xs buf ! i = (if off \<le> i \<and> i < off + length xs then xs ! (i - off) else buf ! i)"
  by (auto simp: splice_def nth_append min_def)

lemma nth_slice: "off + n \<le> length buf \<Longrightarrow> i < n \<Longrightarrow> slice off n buf ! i = buf ! (off + i)"
  by (simp add: slice_def)

lemma slice_splice_disjoint:
  assumes "off + length xs \<le> length buf" "off' + n \<le> length buf"
    and "off' + n \<le> off \<or> off + length xs \<le> off'"
  shows "slice off' n (splice off xs buf) = slice off' n buf"
  using assms by (intro nth_equalityI) (auto simp: nth_slice nth_splice)

section \<open>Bitmaps\<close>

text \<open>
  One bit per object, set means in use. Three parts of the kernel carry a private copy of
  these operations (\<^verbatim>\<open>frame_*\<close> in \<^verbatim>\<open>mm/pmm.c\<close>, \<^verbatim>\<open>bitmap_*\<close> in \<^verbatim>\<open>mm/swap.c\<close>, \<^verbatim>\<open>bit_*\<close> in
  \<^verbatim>\<open>fs/wrf.c\<close>); what the allocators above them rely on is this interface.
\<close>

locale bitmap =
  fixes bm_used :: "bytes_array \<Rightarrow> nat \<Rightarrow> bool"
    and bm_mark :: "bytes_array \<Rightarrow> nat \<Rightarrow> bytes_array"
    and bm_release :: "bytes_array \<Rightarrow> nat \<Rightarrow> bytes_array"
  assumes used_mark: "bm_used (bm_mark b i) j \<longleftrightarrow> i = j \<or> bm_used b j"
    and used_release: "bm_used (bm_release b i) j \<longleftrightarrow> i \<noteq> j \<and> bm_used b j"
begin

lemma release_mark_same: "\<not> bm_used b i \<Longrightarrow> bm_used (bm_release (bm_mark b i) i) = bm_used b"
  by (auto simp: used_mark used_release fun_eq_iff)

lemma used_set_mark:
  "i < n \<Longrightarrow> {j. j < n \<and> bm_used (bm_mark b i) j} = insert i {j. j < n \<and> bm_used b j}"
  by (auto simp: used_mark)

lemma used_set_release:
  "{j. j < n \<and> bm_used (bm_release b i) j} = {j. j < n \<and> bm_used b j} - {i}"
  by (auto simp: used_release)

lemma used_fold_mark:
  "bm_used (fold (\<lambda>i b. bm_mark b i) is b) j \<longleftrightarrow> j \<in> set is \<or> bm_used b j"
  by (induction "is" arbitrary: b) (auto simp: used_mark)

lemma used_fold_release:
  "bm_used (fold (\<lambda>i b. bm_release b i) is b) j \<longleftrightarrow> j \<notin> set is \<and> bm_used b j"
  by (induction "is" arbitrary: b) (auto simp: used_release)

text \<open>First fit: the index found was free, everything below it was taken, and marking it
  changes nothing else.\<close>

lemma first_fit:
  assumes "scan (\<lambda>i. \<not> bm_used b i) lo hi = Some i"
  shows "lo \<le> i" and "i < hi" and "\<not> bm_used b i" and "\<And>j. lo \<le> j \<Longrightarrow> j < i \<Longrightarrow> bm_used b j"
    and "{j. j < hi \<and> bm_used (bm_mark b i) j} = insert i {j. j < hi \<and> bm_used b j}"
  using scan_SomeD [OF assms] by (auto simp: used_set_mark)

end

text \<open>The bit arithmetic the three copies share: bit \<open>i mod 8\<close> of byte \<open>i div 8\<close>.\<close>

lemma byte_bit_mask [bitmap_simps]:
  "((x :: u8) AND 2 ^ k = 0) \<longleftrightarrow> \<not> bit x k"
  by (simp add: and_exp_eq_0_iff_not_bit)

lemma byte_bit_set [bitmap_simps]:
  "k < 8 \<Longrightarrow> bit ((x :: u8) OR 2 ^ k) m \<longleftrightarrow> m = k \<or> bit x m"
  by (auto simp: bit_simps)

lemma byte_bit_clear [bitmap_simps]:
  "k < 8 \<Longrightarrow> bit ((x :: u8) AND NOT (2 ^ k)) m \<longleftrightarrow> m \<noteq> k \<and> bit x m"
  by (auto simp: bit_simps dest: bit_imp_le_length)

lemma div_mod_8_eq: "(i :: nat) div 8 = j div 8 \<Longrightarrow> i mod 8 = j mod 8 \<Longrightarrow> i = j"
  by (metis mod_div_decomp)

text \<open>Small values are not negative as signed words.\<close>

lemma sint_small: "i < 2 ^ 31 \<Longrightarrow> sint (of_nat i :: u32) = int i"
  by (simp add: signed_of_nat signed_take_bit_int_eq_self)

section \<open>Little-endian images of integers\<close>

definition le32 :: "u32 \<Rightarrow> u8 list" where
  "le32 w = [ucast w, ucast (drop_bit 8 w), ucast (drop_bit 16 w), ucast (drop_bit 24 w)]"

definition get_le32 :: "u8 list \<Rightarrow> u32" where
  "get_le32 p = ucast (p ! 0) OR push_bit 8 (ucast (p ! 1)) OR push_bit 16 (ucast (p ! 2)) OR
     push_bit 24 (ucast (p ! 3))"

definition le64 :: "u64 \<Rightarrow> u8 list" where
  "le64 w = le32 (ucast w) @ le32 (ucast (drop_bit 32 w))"

definition get_le64 :: "u8 list \<Rightarrow> u64" where
  "get_le64 p = ucast (get_le32 p) OR push_bit 32 (ucast (get_le32 (drop 4 p)))"

lemma length_le32 [simp]: "length (le32 w) = 4"
  by (simp add: le32_def)

lemma length_le64 [simp]: "length (le64 w) = 8"
  by (simp add: le64_def)

lemma get_le32_le32 [simp]: "get_le32 (le32 w @ r) = w"
proof (rule bit_word_eqI)
  fix n assume "n < LENGTH(32)"
  then show "bit (get_le32 (le32 w @ r)) n \<longleftrightarrow> bit w n"
    by (cases "n < 8"; cases "n < 16"; cases "n < 24") (auto simp: get_le32_def le32_def bit_simps)
qed

lemma le32_get_le32: "length p = 4 \<Longrightarrow> le32 (get_le32 p) = p"
proof -
  assume "length p = 4"
  then obtain a b c d where p: "p = [a, b, c, d]"
    by (auto simp: length_Suc_conv numeral_eq_Suc)
  have "ucast (get_le32 p) = a" "ucast (drop_bit 8 (get_le32 p)) = b"
    "ucast (drop_bit 16 (get_le32 p)) = c" "ucast (drop_bit 24 (get_le32 p)) = d"
    by (rule bit_word_eqI; auto simp: p get_le32_def bit_simps dest: bit_imp_le_length)+
  then show ?thesis by (simp add: le32_def p)
qed

lemma get_le64_le64 [simp]: "get_le64 (le64 w @ r) = w"
proof (rule bit_word_eqI)
  fix n assume "n < LENGTH(64)"
  then show "bit (get_le64 (le64 w @ r)) n \<longleftrightarrow> bit w n"
    by (cases "n < 32") (auto simp: get_le64_def le64_def bit_simps)
qed

lemma get_le32_exact [simp]: "get_le32 (le32 w) = w"
  using get_le32_le32 [of w "[]"] by simp

lemma get_le64_exact [simp]: "get_le64 (le64 w) = w"
  using get_le64_le64 [of w "[]"] by simp

lemma le64_get_le64: "length p = 8 \<Longrightarrow> le64 (get_le64 p) = p"
proof -
  assume len: "length p = 8"
  have lo: "ucast (get_le64 p) = get_le32 p"
    by (rule bit_word_eqI) (auto simp: get_le64_def bit_simps)
  have hi: "ucast (drop_bit 32 (get_le64 p)) = get_le32 (drop 4 p)"
    by (rule bit_word_eqI) (auto simp: get_le64_def bit_simps dest: bit_imp_le_length)
  have "get_le32 p = get_le32 (take 4 p)" using len by (simp add: get_le32_def)
  then show ?thesis
    using le32_get_le32 [of "take 4 p"] le32_get_le32 [of "drop 4 p"] len by (simp add: le64_def lo hi)
qed

lemma le32_get_le32_at: "k + 4 \<le> length p \<Longrightarrow> le32 (get_le32 (drop k p)) = take 4 (drop k p)"
proof -
  assume len: "k + 4 \<le> length p"
  then have "get_le32 (drop k p) = get_le32 (take 4 (drop k p))" by (simp add: get_le32_def)
  then show ?thesis using le32_get_le32 [of "take 4 (drop k p)"] len by simp
qed

lemma le64_get_le64_at: "k + 8 \<le> length p \<Longrightarrow> le64 (get_le64 (drop k p)) = take 8 (drop k p)"
proof -
  assume len: "k + 8 \<le> length p"
  then have "get_le64 (drop k p) = get_le64 (take 8 (drop k p))" by (simp add: get_le64_def get_le32_def add.commute)
  then show ?thesis using le64_get_le64 [of "take 8 (drop k p)"] len by simp
qed

end
