(* ===== verification/Pmm.thy ===== *)
theory Pmm
  imports TUS_Prelude
begin

text \<open>
  The physical frame allocator, \<^verbatim>\<open>kernel/mm/pmm.c\<close>: one bit per 4 KiB frame in a static
  bitmap, a count of the usable frames the boot protocol reported, a count of the frames
  handed out and a search hint. Frame numbers and addresses are natural numbers; the
  places where 64-bit arithmetic can wrap write the reduction out.
\<close>

section \<open>State and operations\<close>

abbreviation (input) FRAME_SIZE :: nat where "FRAME_SIZE \<equiv> 4096"
abbreviation (input) MAX_FRAMES :: nat where "MAX_FRAMES \<equiv> 1048576"
abbreviation (input) LIMINE_MEMMAP_USABLE :: nat where "LIMINE_MEMMAP_USABLE \<equiv> 0"

record memmap_entry =
  me_base :: nat
  me_length :: nat
  me_type :: nat

record pmm =
  pm_bitmap :: bytes_array
  pm_total_frames :: nat
  pm_allocated_frames :: nat
  pm_hhdm_offset :: nat
  pm_last_hint :: nat

definition frame_is_free :: "bytes_array \<Rightarrow> nat \<Rightarrow> bool" where
  "frame_is_free bm frame \<longleftrightarrow> bm (frame div 8) AND push_bit (frame mod 8) 1 = 0"

definition frame_set_used :: "bytes_array \<Rightarrow> nat \<Rightarrow> bytes_array" where
  "frame_set_used bm frame = bm(frame div 8 := bm (frame div 8) OR push_bit (frame mod 8) 1)"

definition frame_set_free :: "bytes_array \<Rightarrow> nat \<Rightarrow> bytes_array" where
  "frame_set_free bm frame =
     bm(frame div 8 := bm (frame div 8) AND NOT (push_bit (frame mod 8) 1))"

text \<open>\<^verbatim>\<open>i << FRAME_SHIFT\<close> on a 64-bit value.\<close>

definition frame_addr :: "nat \<Rightarrow> nat" where
  "frame_addr i = (i * FRAME_SIZE) mod 2 ^ 64"

text \<open>The two loops of \<^verbatim>\<open>pmm_init\<close>: the body that frees one frame, and the body over one
  entry of the memory map.\<close>

definition pmm_mark_usable :: "nat \<Rightarrow> pmm \<Rightarrow> pmm" where
  "pmm_mark_usable frame s =
     s\<lparr>pm_bitmap := frame_set_free (pm_bitmap s) frame,
       pm_total_frames := pm_total_frames s + 1\<rparr>"

definition pmm_add_entry :: "memmap_entry \<Rightarrow> pmm \<Rightarrow> pmm" where
  "pmm_add_entry e st =
     (if me_type e \<noteq> LIMINE_MEMMAP_USABLE then st
      else let start = ((me_base e + FRAME_SIZE - 1) mod 2 ^ 64) div FRAME_SIZE;
               end0 = ((me_base e + me_length e) mod 2 ^ 64) div FRAME_SIZE;
               end = (if end0 > MAX_FRAMES then MAX_FRAMES else end0)
           in fold pmm_mark_usable [start..<end] st)"

definition pmm_init :: "memmap_entry list option \<Rightarrow> nat \<Rightarrow> pmm \<Rightarrow> pmm" where
  "pmm_init memmap hhdm st =
     (let st1 = st\<lparr>pm_hhdm_offset := hhdm, pm_bitmap := (\<lambda>_. 0xFF),
                   pm_total_frames := 0, pm_allocated_frames := 0\<rparr>
      in case memmap of
           None \<Rightarrow> st1
         | Some es \<Rightarrow> (fold pmm_add_entry es st1)\<lparr>pm_last_hint := 0\<rparr>)"

definition pmm_take_frame :: "nat \<Rightarrow> pmm \<Rightarrow> nat \<times> pmm" where
  "pmm_take_frame i st =
     (frame_addr i,
      st\<lparr>pm_bitmap := frame_set_used (pm_bitmap st) i,
         pm_allocated_frames := (pm_allocated_frames st + 1) mod 2 ^ 64,
         pm_last_hint := i + 1\<rparr>)"

text \<open>\<^verbatim>\<open>pmm_alloc_frame\<close>: a first-fit scan from the hint, then from frame 0 up to the hint;
  address 0 reports failure.\<close>

definition pmm_alloc_frame :: "pmm \<Rightarrow> nat \<times> pmm" where
  "pmm_alloc_frame st =
     (case scan (frame_is_free (pm_bitmap st)) (pm_last_hint st) (pm_total_frames st) of
        Some i \<Rightarrow> pmm_take_frame i st
      | None \<Rightarrow>
          (case scan (frame_is_free (pm_bitmap st)) 0 (min (pm_last_hint st) (pm_total_frames st)) of
             Some i \<Rightarrow> pmm_take_frame i st
           | None \<Rightarrow> (0, st)))"

text \<open>\<^verbatim>\<open>i + count <= g_total_frames\<close> holds for \<open>i = 0\<close> or ends the loop at once, so the
  bound of the scan is the number of start positions that fit.\<close>

definition pmm_alloc_frames :: "nat \<Rightarrow> pmm \<Rightarrow> nat \<times> pmm" where
  "pmm_alloc_frames count st =
     (if count = 0 then (0, st)
      else case scan (\<lambda>i. \<forall>j<count. frame_is_free (pm_bitmap st) (i + j)) 0
                  (pm_total_frames st + 1 - count) of
             Some i \<Rightarrow>
               (frame_addr i,
                st\<lparr>pm_bitmap := fold (\<lambda>k bm. frame_set_used bm k) [i..<i + count] (pm_bitmap st),
                   pm_allocated_frames := (pm_allocated_frames st + count) mod 2 ^ 64,
                   pm_last_hint := i + count\<rparr>)
           | None \<Rightarrow> (0, st))"

definition pmm_free_frame :: "nat \<Rightarrow> pmm \<Rightarrow> pmm" where
  "pmm_free_frame phys st =
     (let frame = phys div FRAME_SIZE
      in if frame \<ge> pm_total_frames st then st
         else if frame_is_free (pm_bitmap st) frame then st
         else st\<lparr>pm_bitmap := frame_set_free (pm_bitmap st) frame,
                 pm_allocated_frames := (pm_allocated_frames st + 2 ^ 64 - 1) mod 2 ^ 64\<rparr>)"

definition pmm_free_frames :: "nat \<Rightarrow> nat \<Rightarrow> pmm \<Rightarrow> pmm" where
  "pmm_free_frames phys count st =
     fold (\<lambda>i s. pmm_free_frame ((phys + i * FRAME_SIZE) mod 2 ^ 64) s) [0..<count] st"

definition pmm_phys_to_virt :: "nat \<Rightarrow> pmm \<Rightarrow> nat" where
  "pmm_phys_to_virt phys st = (phys + pm_hhdm_offset st) mod 2 ^ 64"

definition pmm_get_stats :: "pmm \<Rightarrow> nat \<times> nat" where
  "pmm_get_stats st =
     (pm_total_frames st, (pm_total_frames st + 2 ^ 64 - pm_allocated_frames st) mod 2 ^ 64)"

section \<open>The bitmap interface\<close>

abbreviation frame_used :: "bytes_array \<Rightarrow> nat \<Rightarrow> bool" where
  "frame_used bm i \<equiv> \<not> frame_is_free bm i"

lemma frame_is_free_bit: "frame_is_free bm i \<longleftrightarrow> \<not> bit (bm (i div 8)) (i mod 8)"
  by (simp add: frame_is_free_def bitmap_simps)

interpretation frames: bitmap frame_used frame_set_used frame_set_free
  by unfold_locales
    (auto simp: frame_is_free_bit frame_set_used_def frame_set_free_def bitmap_simps dest: div_mod_8_eq)

lemma frame_is_free_set_used [simp, bitmap_simps]:
  "frame_is_free (frame_set_used bm i) j \<longleftrightarrow> i \<noteq> j \<and> frame_is_free bm j"
  using frames.used_mark [of bm i j] by blast

lemma frame_is_free_set_free [simp, bitmap_simps]:
  "frame_is_free (frame_set_free bm i) j \<longleftrightarrow> i = j \<or> frame_is_free bm j"
  using frames.used_release [of bm i j] by blast

lemma frame_is_free_fold_used [simp, bitmap_simps]:
  "frame_is_free (fold (\<lambda>k bm. frame_set_used bm k) ks bm) j \<longleftrightarrow> j \<notin> set ks \<and> frame_is_free bm j"
  using frames.used_fold_mark [of ks bm j] by blast

lemma frame_addr_exact [simp]: "i \<le> MAX_FRAMES \<Longrightarrow> frame_addr i = i * FRAME_SIZE"
  by (simp add: frame_addr_def)

section \<open>Initialisation\<close>

text \<open>The frames one memory-map entry contributes, and those of a whole map.\<close>

definition entry_frames :: "memmap_entry \<Rightarrow> nat set" where
  "entry_frames e =
     (if me_type e \<noteq> LIMINE_MEMMAP_USABLE then {}
      else {((me_base e + FRAME_SIZE - 1) mod 2 ^ 64) div FRAME_SIZE ..<
            min MAX_FRAMES (((me_base e + me_length e) mod 2 ^ 64) div FRAME_SIZE)})"

definition map_frames :: "memmap_entry list \<Rightarrow> nat set" where
  "map_frames es = (\<Union>e \<in> set es. entry_frames e)"

fun disjoint_entries :: "memmap_entry list \<Rightarrow> bool" where
  "disjoint_entries [] = True"
| "disjoint_entries (e # es) = (entry_frames e \<inter> map_frames es = {} \<and> disjoint_entries es)"

lemma finite_entry_frames [simp]: "finite (entry_frames e)"
  by (simp add: entry_frames_def)

lemma finite_map_frames [simp]: "finite (map_frames es)"
  by (simp add: map_frames_def)

lemma map_frames_bound: "map_frames es \<subseteq> {..<MAX_FRAMES}"
  by (auto simp: map_frames_def entry_frames_def split: if_splits)

lemma free_fold:
  "frame_is_free (pm_bitmap (fold pmm_mark_usable fs st)) j \<longleftrightarrow>
     j \<in> set fs \<or> frame_is_free (pm_bitmap st) j"
  "pm_total_frames (fold pmm_mark_usable fs st) = pm_total_frames st + length fs"
  "pm_allocated_frames (fold pmm_mark_usable fs st) = pm_allocated_frames st"
  by (induction fs arbitrary: st) (auto simp: pmm_mark_usable_def)

lemma pmm_add_entry_free:
  "frame_is_free (pm_bitmap (pmm_add_entry e st)) j \<longleftrightarrow>
   j \<in> entry_frames e \<or> frame_is_free (pm_bitmap st) j"
  by (auto simp: pmm_add_entry_def entry_frames_def Let_def free_fold min_def)

lemma pmm_add_entry_total:
  "pm_total_frames (pmm_add_entry e st) = pm_total_frames st + card (entry_frames e)"
  by (auto simp: pmm_add_entry_def entry_frames_def Let_def free_fold min_def)

lemma pmm_add_entry_rest [simp]:
  "pm_allocated_frames (pmm_add_entry e st) = pm_allocated_frames st"
  by (auto simp: pmm_add_entry_def Let_def free_fold)

lemma pmm_add_entries:
  "frame_is_free (pm_bitmap (fold pmm_add_entry es st)) j \<longleftrightarrow>
     j \<in> map_frames es \<or> frame_is_free (pm_bitmap st) j"
  "pm_allocated_frames (fold pmm_add_entry es st) = pm_allocated_frames st"
  "disjoint_entries es \<Longrightarrow>
     pm_total_frames (fold pmm_add_entry es st) = pm_total_frames st + card (map_frames es)"
proof (induction es arbitrary: st)
  case Nil
  { case 1 show ?case by (simp add: map_frames_def) }
  { case 2 show ?case by simp }
  { case 3 show ?case by (simp add: map_frames_def) }
next
  case (Cons e es)
  have mf: "map_frames (e # es) = entry_frames e \<union> map_frames es"
    by (simp add: map_frames_def)
  { case 1 show ?case by (auto simp: Cons.IH(1) pmm_add_entry_free mf) }
  { case 2 show ?case by (simp add: Cons.IH(2)) }
  { case 3 then show ?case
      by (simp add: Cons.IH(3) pmm_add_entry_total mf card_Un_disjoint) }
qed

lemma all_ones_used: "\<not> frame_is_free (\<lambda>_. 0xFF) j"
proof -
  have "bit (0xFF :: u8) k" if "k < 8" for k
    using that by (auto simp: less_Suc_eq numeral_eq_Suc)
  then show ?thesis by (simp add: frame_is_free_bit)
qed

lemma pmm_init_free:
  "frame_is_free (pm_bitmap (pmm_init (Some es) hhdm st)) j \<longleftrightarrow> j \<in> map_frames es"
  by (simp add: pmm_init_def Let_def pmm_add_entries all_ones_used)

lemma pmm_init_counts:
  "pm_allocated_frames (pmm_init (Some es) hhdm st) = 0"
  "pm_last_hint (pmm_init (Some es) hhdm st) = 0"
  "disjoint_entries es \<Longrightarrow> pm_total_frames (pmm_init (Some es) hhdm st) = card (map_frames es)"
  by (simp_all add: pmm_init_def Let_def pmm_add_entries)

lemma card_map_frames_bound: "card (map_frames es) \<le> MAX_FRAMES"
  using card_mono [OF _ map_frames_bound [of es]] by simp

section \<open>Allocation and release\<close>

lemma pmm_alloc_frame_cases:
  obtains (found) i where "pmm_alloc_frame st = pmm_take_frame i st"
      and "i < pm_total_frames st" and "frame_is_free (pm_bitmap st) i"
  | (full) "pmm_alloc_frame st = (0, st)"
      and "\<And>i. i < pm_total_frames st \<Longrightarrow> \<not> frame_is_free (pm_bitmap st) i"
proof (cases "scan (frame_is_free (pm_bitmap st)) (pm_last_hint st) (pm_total_frames st)")
  case (Some i)
  with found [of i] show ?thesis
    by (auto simp: pmm_alloc_frame_def dest: scan_SomeD)
next
  case None1: None
  show ?thesis
  proof (cases "scan (frame_is_free (pm_bitmap st)) 0 (min (pm_last_hint st) (pm_total_frames st))")
    case (Some i)
    with None1 found [of i] show ?thesis
      by (auto simp: pmm_alloc_frame_def dest: scan_SomeD)
  next
    case None
    have "\<not> frame_is_free (pm_bitmap st) i" if "i < pm_total_frames st" for i
      using None1 None that by (cases "i < pm_last_hint st") (auto simp: scan_None_iff)
    with None None1 full show ?thesis by (simp add: pmm_alloc_frame_def)
  qed
qed

lemma pmm_alloc_frames_cases:
  assumes "count \<noteq> 0"
  obtains (found) i where
      "pmm_alloc_frames count st =
        (frame_addr i,
         st\<lparr>pm_bitmap := fold (\<lambda>k bm. frame_set_used bm k) [i..<i + count] (pm_bitmap st),
            pm_allocated_frames := (pm_allocated_frames st + count) mod 2 ^ 64,
            pm_last_hint := i + count\<rparr>)"
      and "i + count \<le> pm_total_frames st"
      and "\<forall>k \<in> {i..<i + count}. frame_is_free (pm_bitmap st) k"
      and "\<forall>i' < i. \<exists>k \<in> {i'..<i' + count}. \<not> frame_is_free (pm_bitmap st) k"
  | (full) "pmm_alloc_frames count st = (0, st)"
      and "\<forall>i. i + count \<le> pm_total_frames st \<longrightarrow>
             (\<exists>k \<in> {i..<i + count}. \<not> frame_is_free (pm_bitmap st) k)"
proof (cases "scan (\<lambda>i. \<forall>j<count. frame_is_free (pm_bitmap st) (i + j)) 0
                  (pm_total_frames st + 1 - count)")
  case (Some i)
  have run: "(\<forall>j<count. frame_is_free (pm_bitmap st) (i + j)) \<longleftrightarrow>
      (\<forall>k \<in> {i..<i + count}. frame_is_free (pm_bitmap st) k)" for i
    by (auto simp: le_iff_add)
  show ?thesis
    using scan_SomeD [OF Some] assms Some
    by (intro found [of i]) (auto simp: pmm_alloc_frames_def run)
next
  case None
  have "\<exists>k \<in> {i..<i + count}. \<not> frame_is_free (pm_bitmap st) k"
    if "i + count \<le> pm_total_frames st" for i
  proof -
    from that have "i < pm_total_frames st + 1 - count" by simp
    with None obtain j where "j < count" "\<not> frame_is_free (pm_bitmap st) (i + j)"
      by (auto simp: scan_None_iff)
    then show ?thesis by (intro bexI [of _ "i + j"]) auto
  qed
  with assms None show ?thesis by (intro full) (auto simp: pmm_alloc_frames_def)
qed


section \<open>Ownership of frames over a whole run\<close>

text \<open>
  Any sequence of calls the kernel makes: frames are allocated singly or in contiguous
  runs, and a frame is released by whoever holds it. The second component is the set of
  frames currently held by clients.
\<close>

inductive pmm_run :: "memmap_entry list \<Rightarrow> pmm \<Rightarrow> nat set \<Rightarrow> bool" for es where
  boot: "pmm_run es (pmm_init (Some es) hhdm st) {}"
| alloc: "pmm_run es s held \<Longrightarrow> pmm_alloc_frame s = (a, s') \<Longrightarrow> a \<noteq> 0 \<Longrightarrow>
    pmm_run es s' (insert (a div FRAME_SIZE) held)"
| alloc_fails: "pmm_run es s held \<Longrightarrow> pmm_alloc_frame s = (0, s') \<Longrightarrow> pmm_run es s' held"
| alloc_run: "pmm_run es s held \<Longrightarrow> pmm_alloc_frames n s = (a, s') \<Longrightarrow> a \<noteq> 0 \<Longrightarrow>
    pmm_run es s' (held \<union> {a div FRAME_SIZE ..< a div FRAME_SIZE + n})"
| alloc_run_fails: "pmm_run es s held \<Longrightarrow> pmm_alloc_frames n s = (0, s') \<Longrightarrow> pmm_run es s' held"
| free: "pmm_run es s held \<Longrightarrow> f \<in> held \<Longrightarrow>
    pmm_run es (pmm_free_frame (f * FRAME_SIZE) s) (held - {f})"

text \<open>What the boot protocol promises of the map: usable regions do not overlap and do not
  contain frame 0 (whose address the allocator uses to report failure).\<close>

definition boot_map_ok :: "memmap_entry list \<Rightarrow> bool" where
  "boot_map_ok es \<longleftrightarrow> disjoint_entries es \<and> 0 \<notin> map_frames es"

definition pmm_inv :: "memmap_entry list \<Rightarrow> pmm \<Rightarrow> nat set \<Rightarrow> bool" where
  "pmm_inv es s held \<longleftrightarrow>
     pm_total_frames s = card (map_frames es) \<and>
     held \<subseteq> map_frames es \<inter> {..<pm_total_frames s} \<and>
     pm_allocated_frames s = card held \<and>
     (\<forall>f. frame_is_free (pm_bitmap s) f \<longleftrightarrow> f \<in> map_frames es - held)"

lemma pmm_inv_total: "pmm_inv es s held \<Longrightarrow> pm_total_frames s \<le> MAX_FRAMES"
  using card_map_frames_bound by (simp add: pmm_inv_def)

lemma pmm_inv_finite: "pmm_inv es s held \<Longrightarrow> finite held"
  using finite_subset [OF _ finite_map_frames] by (auto simp: pmm_inv_def)

lemma pmm_inv_card:
  assumes "pmm_inv es s held"
  shows "card held \<le> MAX_FRAMES"
proof -
  from assms have "held \<subseteq> map_frames es" by (auto simp: pmm_inv_def)
  then have "card held \<le> card (map_frames es)" by (simp add: card_mono)
  with card_map_frames_bound [of es] show ?thesis by linarith
qed

lemma pmm_inv_init:
  "boot_map_ok es \<Longrightarrow> pmm_inv es (pmm_init (Some es) hhdm st) {}"
  by (auto simp: pmm_inv_def boot_map_ok_def pmm_init_free pmm_init_counts)

lemma pmm_inv_take:
  assumes inv: "pmm_inv es s held" and "frame_is_free (pm_bitmap s) i" and "i < pm_total_frames s"
  shows "pmm_inv es (snd (pmm_take_frame i s)) (insert i held)"
    and "fst (pmm_take_frame i s) = i * FRAME_SIZE" and "i \<in> map_frames es - held"
proof -
  from inv assms(2) show i: "i \<in> map_frames es - held" by (simp add: pmm_inv_def)
  from pmm_inv_total [OF inv] assms(3) show "fst (pmm_take_frame i s) = i * FRAME_SIZE"
    by (simp add: pmm_take_frame_def)
  have "card (insert i held) = Suc (card held)" using i pmm_inv_finite [OF inv] by simp
  then show "pmm_inv es (snd (pmm_take_frame i s)) (insert i held)"
    using inv i assms(3) pmm_inv_card [OF inv] by (auto simp: pmm_inv_def pmm_take_frame_def)
qed

lemma pmm_inv_alloc:
  assumes inv: "pmm_inv es s held" and eq: "pmm_alloc_frame s = (a, s')" and ok: "boot_map_ok es"
  shows "a = 0 \<and> s' = s \<and> {f \<in> map_frames es. f < pm_total_frames s} \<subseteq> held \<or>
         (\<exists>i. a = i * FRAME_SIZE \<and> i \<noteq> 0 \<and> i < pm_total_frames s \<and> i \<in> map_frames es - held \<and>
              pmm_inv es s' (insert i held))"
proof (cases rule: pmm_alloc_frame_cases [of s])
  case (found i)
  note t = pmm_inv_take [OF inv found(3,2)]
  have "i \<noteq> 0" using t(3) ok unfolding boot_map_ok_def by (metis DiffD1)
  with t eq found show ?thesis by (cases "pmm_take_frame i s") auto
next
  case full
  with inv eq show ?thesis by (auto simp: pmm_inv_def)
qed

lemma pmm_inv_alloc_run:
  assumes inv: "pmm_inv es s held" and eq: "pmm_alloc_frames n s = (a, s')" and ok: "boot_map_ok es"
  shows "a = 0 \<and> s' = s \<or>
         (\<exists>i. a = i * FRAME_SIZE \<and> i \<noteq> 0 \<and> i + n \<le> pm_total_frames s \<and>
              {i..<i + n} \<subseteq> map_frames es - held \<and> pmm_inv es s' (held \<union> {i..<i + n}))"
proof (cases "n = 0")
  case True
  with eq show ?thesis by (simp add: pmm_alloc_frames_def)
next
  case False
  then show ?thesis
  proof (cases rule: pmm_alloc_frames_cases [OF False, of s, case_names found full])
    case (found i)
    have free: "{i..<i + n} \<subseteq> map_frames es - held"
      using found(3) inv by (auto simp: pmm_inv_def)
    with False have "i \<in> map_frames es" by (simp add: subset_iff)
    with ok have "i \<noteq> 0" unfolding boot_map_ok_def by metis
    moreover have "a = i * FRAME_SIZE"
      using found(1,2) eq pmm_inv_total [OF inv] by simp
    moreover have "pmm_inv es s' (held \<union> {i..<i + n})"
    proof -
      have d: "held \<inter> {i..<i + n} = {}" using free by auto
      have "card (held \<union> {i..<i + n}) = card held + n"
        using d pmm_inv_finite [OF inv] by (simp add: card_Un_disjoint)
      moreover have "card held + n \<le> MAX_FRAMES + MAX_FRAMES"
        using pmm_inv_card [OF inv] found(2) pmm_inv_total [OF inv] by simp
      ultimately show ?thesis
        using inv free found eq by (auto simp: pmm_inv_def)
    qed
    ultimately show ?thesis using free found(2) by blast
  next
    case full
    with eq show ?thesis by simp
  qed
qed

lemma pmm_inv_free:
  assumes inv: "pmm_inv es s held" and f: "f \<in> held"
  shows "pmm_inv es (pmm_free_frame (f * FRAME_SIZE) s) (held - {f})"
proof -
  have fin: "finite held" using inv by (rule pmm_inv_finite)
  with f have pos: "0 < card held" using card_gt_0_iff by blast
  have "card held < 2 ^ 64" using pmm_inv_card [OF inv] by simp
  with pos have "(card held + 2 ^ 64 - 1) mod 2 ^ 64 = card held - 1"
    by (metis (no_types, lifting) Nat.add_diff_assoc2 Suc_pred diff_less less_imp_diff_less
        mod_add_self2 mod_less One_nat_def Suc_leI)
  with inv f fin show ?thesis
    by (auto simp: pmm_inv_def pmm_free_frame_def Let_def card_Diff_singleton)
qed

lemma pmm_run_inv: "pmm_run es s held \<Longrightarrow> boot_map_ok es \<Longrightarrow> pmm_inv es s held"
proof (induction rule: pmm_run.induct)
  case (boot hhdm st)
  then show ?case by (rule pmm_inv_init)
next
  case (alloc s held a s')
  then show ?case using pmm_inv_alloc [of es s held a s'] by auto
next
  case (alloc_fails s held s')
  then show ?case using pmm_inv_alloc [of es s held 0 s'] by auto
next
  case (alloc_run s held n a s')
  then show ?case using pmm_inv_alloc_run [of es s held n a s'] by auto
next
  case (alloc_run_fails s held n s')
  then show ?case using pmm_inv_alloc_run [of es s held n 0 s'] by auto
next
  case (free s held f)
  then show ?case by (simp add: pmm_inv_free)
qed


section \<open>Properties\<close>

text \<open>C1. In every reachable state of the allocator, \<^verbatim>\<open>pmm_alloc_frame\<close> either returns 0, leaves the
  state alone and every usable frame below the frame count is held already, or returns the
  4 KiB aligned address of a usable frame that nobody holds.\<close>

theorem pmm_alloc_frame_exclusive:
  assumes "pmm_run es s held" and "boot_map_ok es" and "pmm_alloc_frame s = (a, s')"
  shows "if a = 0 then s' = s \<and> (\<forall>f. f \<in> map_frames es \<longrightarrow> f < pm_total_frames s \<longrightarrow> f \<in> held)
         else a mod FRAME_SIZE = 0 \<and> a div FRAME_SIZE \<in> map_frames es \<and>
              a div FRAME_SIZE \<notin> held \<and> a div FRAME_SIZE < pm_total_frames s"
  using pmm_inv_alloc [OF pmm_run_inv [OF assms(1,2)] assms(3,2)] by auto

text \<open>A boot map with one usable region, frames 1 to 3.\<close>

definition sample_map :: "memmap_entry list" where
  "sample_map = [\<lparr>me_base = 0, me_length = 4096, me_type = 1\<rparr>,
                 \<lparr>me_base = 4096, me_length = 12288, me_type = 0\<rparr>]"

definition sample_pmm :: pmm where
  "sample_pmm = pmm_init (Some sample_map) 0
     \<lparr>pm_bitmap = (\<lambda>_. 0), pm_total_frames = 0, pm_allocated_frames = 0, pm_hhdm_offset = 0,
      pm_last_hint = 0\<rparr>"

lemma sample_map_frames: "map_frames sample_map = {1, 2, 3}"
  by (auto simp: map_frames_def sample_map_def entry_frames_def)

lemma sample_map_ok: "boot_map_ok sample_map"
  by (auto simp: boot_map_ok_def sample_map_frames)
    (auto simp: sample_map_def map_frames_def entry_frames_def)

lemma sample_pmm_run: "pmm_run sample_map sample_pmm {}"
  unfolding sample_pmm_def by (rule pmm_run.boot)

lemma sample_pmm_total: "pm_total_frames sample_pmm = 3"
  using sample_map_ok
  by (simp add: sample_pmm_def pmm_init_counts boot_map_ok_def sample_map_frames)

lemma sample_pmm_free: "frame_is_free (pm_bitmap sample_pmm) f \<longleftrightarrow> f \<in> {1, 2, 3}"
  by (simp add: sample_pmm_def pmm_init_free sample_map_frames)

lemma sample_pmm_hint: "pm_last_hint sample_pmm = 0"
  by (simp add: sample_pmm_def pmm_init_counts)

lemmas sample_pmm_eval = sample_pmm_free sample_pmm_hint sample_pmm_total

lemma sample_pmm_alloc: "fst (pmm_alloc_frame sample_pmm) = 4096"
  by (simp add: pmm_alloc_frame_def sample_pmm_eval scan.simps pmm_take_frame_def)

theorem pmm_alloc_frame_exclusive_witness:
  "fst (pmm_alloc_frame sample_pmm) = 4096 \<and> 1 \<in> map_frames sample_map \<and>
   1 < pm_total_frames sample_pmm"
  using pmm_alloc_frame_exclusive [OF sample_pmm_run sample_map_ok surjective_pairing]
  by (simp add: sample_pmm_alloc)

text \<open>\<^verbatim>\<open>pmm_alloc_frames\<close> is a first-fit allocator of contiguous runs: on success the run lies
  below the frame count, consists of usable frames nobody holds, no lower run of that length
  was free, and afterwards exactly these frames have become used; it returns 0 only when the
  requested length is 0 or no run of that length is free, and then changes nothing.\<close>

theorem pmm_alloc_frames_first_fit:
  assumes "pmm_run es s held" and "boot_map_ok es" and "pmm_alloc_frames n s = (a, s')"
  shows "if a = 0 then s' = s \<and>
           (n = 0 \<or> (\<forall>i. i + n \<le> pm_total_frames s \<longrightarrow> \<not> {i..<i + n} \<subseteq> map_frames es - held))
         else a mod FRAME_SIZE = 0 \<and>
           (let i = a div FRAME_SIZE in
              i + n \<le> pm_total_frames s \<and> {i..<i + n} \<subseteq> map_frames es - held \<and>
              (\<forall>i' < i. \<not> {i'..<i' + n} \<subseteq> map_frames es - held) \<and>
              (\<forall>f. frame_is_free (pm_bitmap s') f \<longleftrightarrow>
                   frame_is_free (pm_bitmap s) f \<and> f \<notin> {i..<i + n}))"
proof (cases "n = 0")
  case True
  with assms(3) show ?thesis by (simp add: pmm_alloc_frames_def)
next
  case False
  have inv: "pmm_inv es s held" using assms(1,2) by (rule pmm_run_inv)
  then have free: "frame_is_free (pm_bitmap s) f \<longleftrightarrow> f \<in> map_frames es - held" for f
    by (simp add: pmm_inv_def)
  from False show ?thesis
  proof (cases rule: pmm_alloc_frames_cases [OF False, of s, case_names found full])
    case (found i)
    have "i \<in> map_frames es" using found(3) False by (simp add: free)
    then have "i \<noteq> 0" using assms(2) unfolding boot_map_ok_def by metis
    moreover have a: "a = i * FRAME_SIZE" using found(1,2) assms(3) pmm_inv_total [OF inv] by simp
    moreover have "{i..<i + n} \<subseteq> map_frames es - held" using found(3) free by blast
    moreover have "\<not> {i'..<i' + n} \<subseteq> map_frames es - held" if "i' < i" for i'
      using found(4) free that by blast
    moreover have "frame_is_free (pm_bitmap s') f \<longleftrightarrow>
        frame_is_free (pm_bitmap s) f \<and> f \<notin> {i..<i + n}" for f
      using found(1) assms(3) by auto
    ultimately show ?thesis using found(2) by (simp add: Let_def)
  next
    case full
    moreover have "\<not> {i..<i + n} \<subseteq> map_frames es - held" if "i + n \<le> pm_total_frames s" for i
      using full(2) free that by blast
    ultimately show ?thesis using assms(3) by simp
  qed
qed

lemma sample_pmm_alloc_run: "fst (pmm_alloc_frames 2 sample_pmm) = 4096"
  by (simp add: pmm_alloc_frames_def sample_pmm_eval scan.simps All_less_Suc numeral_2_eq_2)

theorem pmm_alloc_frames_first_fit_witness:
  "fst (pmm_alloc_frames 2 sample_pmm) = 4096 \<and> {1..<1 + 2} \<subseteq> map_frames sample_map"
  using pmm_alloc_frames_first_fit [OF sample_pmm_run sample_map_ok surjective_pairing, of 2]
  by (simp add: sample_pmm_alloc_run Let_def)

text \<open>\<^verbatim>\<open>pmm_free_frame\<close> undoes \<^verbatim>\<open>pmm_alloc_frame\<close>: releasing the address just obtained gives back
  the same free frames and the same count, and a second release of it is ignored.\<close>

theorem pmm_free_alloc_roundtrip:
  assumes "pmm_run es s held" and "boot_map_ok es" and "pmm_alloc_frame s = (a, s')" and "a \<noteq> 0"
  shows "frame_is_free (pm_bitmap (pmm_free_frame a s')) = frame_is_free (pm_bitmap s) \<and>
         pmm_get_stats (pmm_free_frame a s') = pmm_get_stats s \<and>
         pmm_free_frame a (pmm_free_frame a s') = pmm_free_frame a s'"
proof -
  have inv: "pmm_inv es s held" using assms(1,2) by (rule pmm_run_inv)
  from pmm_inv_alloc [OF inv assms(3,2)] assms(4) obtain i where
    i: "a = i * FRAME_SIZE" "i \<in> map_frames es - held" "i < pm_total_frames s"
      "pmm_inv es s' (insert i held)" by auto
  have inv': "pmm_inv es (pmm_free_frame a s') held"
    using pmm_inv_free [OF i(4), of i] i(1,2) by simp
  have "frame_is_free (pm_bitmap (pmm_free_frame a s')) = frame_is_free (pm_bitmap s)"
    using inv inv' by (auto simp: pmm_inv_def fun_eq_iff)
  moreover have "pmm_get_stats (pmm_free_frame a s') = pmm_get_stats s"
    using inv inv' by (simp add: pmm_inv_def pmm_get_stats_def)
  moreover have "pmm_free_frame a (pmm_free_frame a s') = pmm_free_frame a s'"
  proof -
    have "frame_is_free (pm_bitmap (pmm_free_frame a s')) (a div FRAME_SIZE)"
      using inv' i by (simp add: pmm_inv_def)
    then show ?thesis by (simp add: pmm_free_frame_def [of a "pmm_free_frame a s'"] Let_def)
  qed
  ultimately show ?thesis by blast
qed

theorem pmm_free_alloc_roundtrip_witness:
  "pmm_get_stats (pmm_free_frame 4096 (snd (pmm_alloc_frame sample_pmm))) = pmm_get_stats sample_pmm"
  using pmm_free_alloc_roundtrip [OF sample_pmm_run sample_map_ok surjective_pairing]
  by (simp add: sample_pmm_alloc)

text \<open>The frame count bounds the search, and it counts usable frames, not frame numbers: since
  frame 0 is never usable, the highest usable frame is out of its reach and is never handed
  out, in any run.\<close>

theorem pmm_top_frame_never_allocated:
  assumes "pmm_run es s held" and "boot_map_ok es"
  shows "Max (map_frames es) \<notin> held"
proof
  assume m: "Max (map_frames es) \<in> held"
  have inv: "pmm_inv es s held" using assms by (rule pmm_run_inv)
  with m have "Max (map_frames es) < card (map_frames es)" by (auto simp: pmm_inv_def)
  moreover have "map_frames es \<subseteq> {1..Max (map_frames es)}"
  proof
    fix f assume f: "f \<in> map_frames es"
    then have "f \<noteq> 0" using assms(2) unfolding boot_map_ok_def by metis
    with f show "f \<in> {1..Max (map_frames es)}" by (simp add: Suc_leI)
  qed
  then have "card (map_frames es) \<le> Max (map_frames es)"
    using card_mono [of "{1..Max (map_frames es)}"] by simp
  ultimately show False by simp
qed

theorem pmm_top_frame_never_allocated_witness:
  "Max (map_frames sample_map) = 3 \<and> 3 \<in> map_frames sample_map \<and> (3::nat) \<notin> {}"
  using pmm_top_frame_never_allocated [OF sample_pmm_run sample_map_ok]
  by (simp add: sample_map_frames)

end
