(* ===== verification/Vmm.thy ===== *)
theory Vmm
  imports Pmm "HOL-Library.Monad_Syntax"
begin

text \<open>
  The virtual memory manager, \<^verbatim>\<open>kernel/mm/vmm.c\<close>: 4-level page tables in physical memory, walked and extended
  by the kernel. Physical memory is a map from 8-byte aligned addresses to 64-bit words, reached in the source
  through the direct map (\<^verbatim>\<open>pmm_phys_to_virt\<close>); a pointer to an entry is the physical address of the entry.
  Instructions that only flush the TLB have no counterpart.
\<close>

section \<open>State\<close>

abbreviation (input) VMM_PRESENT :: u64 where "VMM_PRESENT \<equiv> 1"
abbreviation (input) VMM_WRITE :: u64 where "VMM_WRITE \<equiv> 2"
abbreviation (input) VMM_USER :: u64 where "VMM_USER \<equiv> 4"
abbreviation (input) VMM_NOCACHE :: u64 where "VMM_NOCACHE \<equiv> 0x10"
abbreviation (input) PTE_PS :: u64 where "PTE_PS \<equiv> 0x80"
abbreviation (input) VMM_NX :: u64 where "VMM_NX \<equiv> 0x8000000000000000"
abbreviation (input) PTE_ADDR_MASK :: u64 where "PTE_ADDR_MASK \<equiv> 0x000FFFFFFFFFF000"
abbreviation (input) SPLIT_FLAGS_MASK :: u64 where "SPLIT_FLAGS_MASK \<equiv> 0xF7F"
abbreviation (input) KERNEL_HALF_BASE :: u64 where "KERNEL_HALF_BASE \<equiv> 0xFFFF800000000000"
abbreviation (input) VMM_MMIO_BASE :: u64 where "VMM_MMIO_BASE \<equiv> 0xFFFFFFFF8C000000"
abbreviation (input) VMM_MMIO_SIZE :: u64 where "VMM_MMIO_SIZE \<equiv> 0x1000000"
abbreviation (input) PAGE_SIZE :: u64 where "PAGE_SIZE \<equiv> 0x1000"

type_synonym pmem = "u64 \<Rightarrow> u64"

record vmm =
  g_pmm :: pmm
  pmem :: pmem
  g_cr3 :: u64
  g_root_cr3 :: u64
  g_mmio_next :: u64

definition alloc_frame :: "'a vmm_scheme \<Rightarrow> u64 \<times> 'a vmm_scheme" where
  "alloc_frame s = (case pmm_alloc_frame (g_pmm s) of (a, p) \<Rightarrow> (of_nat a, s\<lparr>g_pmm := p\<rparr>))"

definition free_frame :: "u64 \<Rightarrow> 'a vmm_scheme \<Rightarrow> 'a vmm_scheme" where
  "free_frame phys s = s\<lparr>g_pmm := pmm_free_frame (unat phys) (g_pmm s)\<rparr>"

text \<open>\<^verbatim>\<open>table[idx]\<close> for a table at a physical address, and stores through a pointer to an entry.\<close>

definition cell :: "u64 \<Rightarrow> nat \<Rightarrow> u64" where
  "cell t i = t + 8 * of_nat i"

definition store :: "u64 \<Rightarrow> u64 \<Rightarrow> 'a vmm_scheme \<Rightarrow> 'a vmm_scheme" where
  "store a v s = s\<lparr>pmem := (pmem s)(a := v)\<rparr>"

text \<open>\<^verbatim>\<open>memset\<close> and \<^verbatim>\<open>memcpy\<close> of a whole frame.\<close>

definition page_no :: "u64 \<Rightarrow> nat" where
  "page_no a = unat a div 4096"

definition zero_frame :: "u64 \<Rightarrow> 'a vmm_scheme \<Rightarrow> 'a vmm_scheme" where
  "zero_frame t s = s\<lparr>pmem := (\<lambda>a. if page_no a = page_no t then 0 else pmem s a)\<rparr>"

definition copy_frame :: "u64 \<Rightarrow> u64 \<Rightarrow> 'a vmm_scheme \<Rightarrow> 'a vmm_scheme" where
  "copy_frame dst src s = s\<lparr>pmem := (\<lambda>a. if page_no a = page_no dst then pmem s (src + (a - dst)) else pmem s a)\<rparr>"

section \<open>Walking the tables\<close>

definition table_fetch :: "'a vmm_scheme \<Rightarrow> u64 \<Rightarrow> bool \<Rightarrow> u64 \<times> 'a vmm_scheme" where
  "table_fetch s entry allocate =
     (if pmem s entry AND VMM_PRESENT \<noteq> 0 then (pmem s entry AND PTE_ADDR_MASK, s)
      else if \<not> allocate then (0, s)
      else
        (case alloc_frame s of (phys, s1) \<Rightarrow>
           if phys = 0 then (0, s1)
           else (phys, store entry (phys OR VMM_PRESENT OR VMM_WRITE OR VMM_USER) (zero_frame phys s1))))"

text \<open>The three blocks of \<^verbatim>\<open>walk_pt\<close> that replace a large page: a new table whose entries are \<open>step\<close> bytes apart.
  The flag says whether a page was split; \<open>None\<close> is the early return of a null pointer.\<close>

definition split_entry :: "'a vmm_scheme \<Rightarrow> u64 \<Rightarrow> u64 \<Rightarrow> u64 \<Rightarrow> bool option \<times> 'a vmm_scheme" where
  "split_entry s entry step extra =
     (if pmem s entry AND PTE_PS = 0 then (Some False, s)
      else
        (let base = pmem s entry AND PTE_ADDR_MASK;
             flags_l = (pmem s entry AND SPLIT_FLAGS_MASK) OR extra
         in case alloc_frame s of (new_phys, s1) \<Rightarrow>
              if new_phys = 0 then (None, s1)
              else
                (let s2 = zero_frame new_phys s1;
                     s3 = fold (\<lambda>i. store (cell new_phys i) ((base + of_nat i * step) OR flags_l)) [0..<512] s2
                 in (Some True, store entry (new_phys OR (pmem s3 entry AND 0xFFF)) s3))))"

definition clear_nx :: "u64 \<Rightarrow> 'a vmm_scheme \<Rightarrow> 'a vmm_scheme" where
  "clear_nx entry s = store entry (pmem s entry AND NOT VMM_NX) s"

definition set_user :: "u64 \<Rightarrow> 'a vmm_scheme \<Rightarrow> 'a vmm_scheme" where
  "set_user entry s = store entry (pmem s entry OR VMM_USER) s"

definition idx :: "nat \<Rightarrow> u64 \<Rightarrow> nat" where
  "idx shift virt = unat (drop_bit shift virt AND 0x1FF)"

text \<open>The result is the address of the leaf entry and whether a large page was split.\<close>

definition walk_pt :: "'a vmm_scheme \<Rightarrow> u64 \<Rightarrow> u64 \<Rightarrow> bool \<Rightarrow> bool \<Rightarrow> (u64 \<times> bool) option \<times> 'a vmm_scheme" where
  "walk_pt s cr3 virt allocate user =
     (let e4 = cell cr3 (idx 39 virt) in
      case split_entry s e4 0x40000000 0 of (None, s1) \<Rightarrow> (None, s1) | (Some sp4, s1) \<Rightarrow>
      case table_fetch s1 e4 allocate of (pdpt, s2) \<Rightarrow>
      if pdpt = 0 then (None, s2) else
      let e3 = cell pdpt (idx 30 virt) in
      case split_entry s2 e3 0x200000 PTE_PS of (None, s3) \<Rightarrow> (None, s3) | (Some sp3, s3) \<Rightarrow>
      case table_fetch s3 e3 allocate of (pd, s4) \<Rightarrow>
      if pd = 0 then (None, s4) else
      let e2 = cell pd (idx 21 virt) in
      case split_entry s4 e2 0x1000 0 of (None, s5) \<Rightarrow> (None, s5) | (Some sp2, s5) \<Rightarrow>
      case table_fetch s5 e2 allocate of (pt, s6) \<Rightarrow>
      if pt = 0 then (None, s6) else
      let s7 = clear_nx e2 (clear_nx e3 (clear_nx e4 s6));
          s8 = (if user then set_user e2 (set_user e3 (set_user e4 s7)) else s7)
      in (Some (cell pt (idx 12 virt), sp4 \<or> sp3 \<or> sp2), s8))"

section \<open>Operations\<close>

text \<open>\<open>cr3\<close> is the value the control register has at boot.\<close>

definition vmm_init :: "u64 \<Rightarrow> 'a vmm_scheme \<Rightarrow> 'a vmm_scheme" where
  "vmm_init cr3 s = s\<lparr>g_cr3 := cr3, g_root_cr3 := cr3\<rparr>"

definition vmm_space_clone :: "'a vmm_scheme \<Rightarrow> u64 \<times> 'a vmm_scheme" where
  "vmm_space_clone s =
     (case alloc_frame s of (phys, s1) \<Rightarrow>
        if phys = 0 then (0, s1)
        else (phys, fold (\<lambda>i s. store (cell phys i) (pmem s (cell (g_root_cr3 s) i)) s) [256..<512] (zero_frame phys s1)))"

definition vmm_space_switch :: "u64 \<Rightarrow> 'a vmm_scheme \<Rightarrow> 'a vmm_scheme" where
  "vmm_space_switch cr3 s = (if cr3 = g_cr3 s then s else s\<lparr>g_cr3 := cr3\<rparr>)"

definition vmm_map_page_in :: "'a vmm_scheme \<Rightarrow> u64 \<Rightarrow> u64 \<Rightarrow> u64 \<Rightarrow> u64 \<Rightarrow> int \<times> 'a vmm_scheme" where
  "vmm_map_page_in s cr3 virt phys flags =
     (if virt AND (PAGE_SIZE - 1) \<noteq> 0 \<or> phys AND (PAGE_SIZE - 1) \<noteq> 0 then (- 1, s)
      else
        (case walk_pt s cr3 virt True (flags AND VMM_USER \<noteq> 0) of
           (None, s1) \<Rightarrow> (- 1, s1)
         | (Some (pte, split), s1) \<Rightarrow> (0, store pte ((phys AND PTE_ADDR_MASK) OR flags OR VMM_PRESENT) s1)))"

definition space_for :: "'a vmm_scheme \<Rightarrow> u64 \<Rightarrow> u64" where
  "space_for s virt = (if virt \<ge> KERNEL_HALF_BASE then g_root_cr3 s else g_cr3 s)"

definition vmm_map_page :: "'a vmm_scheme \<Rightarrow> u64 \<Rightarrow> u64 \<Rightarrow> u64 \<Rightarrow> int \<times> 'a vmm_scheme" where
  "vmm_map_page s virt phys flags = vmm_map_page_in s (space_for s virt) virt phys flags"

text \<open>The loop over the pages of a region. The offset is a natural number: it stays below \<^verbatim>\<open>bytes + PAGE_SIZE\<close>, so the
  64-bit counter wraps only for a size in the last page of the address space.\<close>

function map_region_loop :: "'a vmm_scheme \<Rightarrow> u64 \<Rightarrow> u64 \<Rightarrow> nat \<Rightarrow> u64 \<Rightarrow> nat \<Rightarrow> int \<times> 'a vmm_scheme" where
  "map_region_loop s virt phys bytes flags off =
     (if off < bytes then
        (case vmm_map_page s (virt + of_nat off) (phys + of_nat off) flags of (rc, s1) \<Rightarrow>
           if rc \<noteq> 0 then (- 1, s1) else map_region_loop s1 virt phys bytes flags (off + 4096))
      else (0, s))"
  by pat_completeness auto
termination
  by (relation "measure (\<lambda>(s, virt, phys, bytes, flags, off). bytes - off)") auto

definition vmm_map_region :: "'a vmm_scheme \<Rightarrow> u64 \<Rightarrow> u64 \<Rightarrow> u64 \<Rightarrow> u64 \<Rightarrow> int \<times> 'a vmm_scheme" where
  "vmm_map_region s virt phys bytes flags = map_region_loop s virt phys (unat bytes) flags 0"

definition vmm_map_mmio :: "'a vmm_scheme \<Rightarrow> u64 \<Rightarrow> u64 \<Rightarrow> u64 option \<times> 'a vmm_scheme" where
  "vmm_map_mmio s phys bytes =
     (if bytes = 0 then (None, s)
      else
        (let page_off = phys AND (PAGE_SIZE - 1);
             base = phys - page_off;
             span = (bytes + page_off + PAGE_SIZE - 1) AND NOT (PAGE_SIZE - 1)
         in if g_mmio_next s + span > VMM_MMIO_BASE + VMM_MMIO_SIZE then (None, s)
            else
              (let virt = g_mmio_next s
               in case vmm_map_region s virt base span (VMM_PRESENT OR VMM_WRITE OR VMM_NOCACHE) of (rc, s1) \<Rightarrow>
                    if rc \<noteq> 0 then (None, s1)
                    else (Some (virt + page_off), s1\<lparr>g_mmio_next := g_mmio_next s1 + span\<rparr>))))"

definition vmm_unmap_page_in :: "'a vmm_scheme \<Rightarrow> u64 \<Rightarrow> u64 \<Rightarrow> 'a vmm_scheme" where
  "vmm_unmap_page_in s cr3 virt =
     (case walk_pt s cr3 virt False False of
        (None, s1) \<Rightarrow> s1
      | (Some (pte, split), s1) \<Rightarrow> store pte 0 s1)"

definition vmm_unmap_page :: "'a vmm_scheme \<Rightarrow> u64 \<Rightarrow> 'a vmm_scheme" where
  "vmm_unmap_page s virt = vmm_unmap_page_in s (space_for s virt) virt"

definition vmm_translate_in :: "'a vmm_scheme \<Rightarrow> u64 \<Rightarrow> u64 \<Rightarrow> u64 \<times> 'a vmm_scheme" where
  "vmm_translate_in s cr3 virt =
     (case walk_pt s cr3 virt False False of
        (None, s1) \<Rightarrow> (0, s1)
      | (Some (pte, split), s1) \<Rightarrow>
          if pmem s1 pte AND VMM_PRESENT = 0 then (0, s1)
          else ((pmem s1 pte AND PTE_ADDR_MASK) OR (virt AND (PAGE_SIZE - 1)), s1))"

definition vmm_translate :: "'a vmm_scheme \<Rightarrow> u64 \<Rightarrow> u64 \<times> 'a vmm_scheme" where
  "vmm_translate s virt = vmm_translate_in s (g_cr3 s) virt"

definition vmm_reserve_tables :: "u64 \<Rightarrow> u64 \<Rightarrow> 'a vmm_scheme \<Rightarrow> 'a vmm_scheme" where
  "vmm_reserve_tables virt bytes s =
     (let first = unat (virt AND NOT (PAGE_SIZE - 1));
          last = unat ((virt + bytes + PAGE_SIZE - 1) AND NOT (PAGE_SIZE - 1))
      in fold (\<lambda>k s. snd (walk_pt s (g_root_cr3 s) (of_nat (first + 4096 * k)) True False)) [0..<(last - first) div 4096] s)"

definition vmm_pte :: "'a vmm_scheme \<Rightarrow> u64 \<Rightarrow> u64 \<times> 'a vmm_scheme" where
  "vmm_pte s virt =
     (case walk_pt s (g_cr3 s) virt False False of
        (None, s1) \<Rightarrow> (0, s1) | (Some (pte, split), s1) \<Rightarrow> (pmem s1 pte, s1))"

definition vmm_walk_pte :: "'a vmm_scheme \<Rightarrow> u64 \<Rightarrow> u64 \<Rightarrow> bool \<Rightarrow> u64 option \<times> 'a vmm_scheme" where
  "vmm_walk_pte s cr3 virt allocate = (case walk_pt s cr3 virt allocate False of (r, s1) \<Rightarrow> (map_option fst r, s1))"

section \<open>Inspecting upper levels\<close>

definition vmm_level_nx :: "'a vmm_scheme \<Rightarrow> u64 \<Rightarrow> u64" where
  "vmm_level_nx s virt =
     (let e4 = pmem s (cell (g_cr3 s) (idx 39 virt)) in
      if e4 AND VMM_PRESENT = 0 then e4 AND VMM_NX
      else
        let e3 = pmem s (cell (e4 AND PTE_ADDR_MASK) (idx 30 virt)) in
        if e3 AND VMM_PRESENT = 0 then (e4 AND VMM_NX) OR (e3 AND VMM_NX)
        else
          let e2 = pmem s (cell (e3 AND PTE_ADDR_MASK) (idx 21 virt)) in
          (e4 AND VMM_NX) OR (e3 AND VMM_NX) OR (e2 AND VMM_NX))"

definition vmm_level_entry :: "'a vmm_scheme \<Rightarrow> u64 \<Rightarrow> int \<Rightarrow> u64" where
  "vmm_level_entry s virt level =
     (let e4 = pmem s (cell (g_cr3 s) (idx 39 virt)) in
      if level = 3 then e4
      else if e4 AND VMM_PRESENT = 0 then 0
      else
        let e3 = pmem s (cell (e4 AND PTE_ADDR_MASK) (idx 30 virt)) in
        if level = 2 then e3
        else if e3 AND VMM_PRESENT = 0 then 0
        else
          let e2 = pmem s (cell (e3 AND PTE_ADDR_MASK) (idx 21 virt)) in
          if level = 1 then e2 else 0)"

section \<open>Copying an address space\<close>

text \<open>The innermost loop of \<^verbatim>\<open>vmm_space_fork\<close>: one page table. \<open>False\<close> is the early return of 0.\<close>

fun fork_pt :: "'a vmm_scheme \<Rightarrow> u64 \<Rightarrow> u64 \<Rightarrow> u64 \<Rightarrow> nat list \<Rightarrow> bool \<times> 'a vmm_scheme" where
  "fork_pt s new_cr3 pt hi [] = (True, s)"
| "fork_pt s new_cr3 pt hi (i1 # is) =
     (let e = pmem s (cell pt i1) in
      if e AND VMM_PRESENT = 0 then fork_pt s new_cr3 pt hi is
      else
        (case alloc_frame s of (new_phys, s1) \<Rightarrow>
           if new_phys = 0 then (False, s1)
           else
             (case vmm_map_page_in (copy_frame new_phys (e AND PTE_ADDR_MASK) s1) new_cr3
                     (hi OR push_bit 12 (of_nat i1)) new_phys (e AND 0xFFF) of (rc, s2) \<Rightarrow>
                if rc \<noteq> 0 then (False, s2) else fork_pt s2 new_cr3 pt hi is)))"

definition table_skip :: "u64 \<Rightarrow> bool" where
  "table_skip e \<longleftrightarrow> e AND VMM_PRESENT = 0 \<or> e AND PTE_PS \<noteq> 0"

fun fork_pd :: "'a vmm_scheme \<Rightarrow> u64 \<Rightarrow> u64 \<Rightarrow> u64 \<Rightarrow> nat list \<Rightarrow> bool \<times> 'a vmm_scheme" where
  "fork_pd s new_cr3 pd hi [] = (True, s)"
| "fork_pd s new_cr3 pd hi (i2 # is) =
     (let e = pmem s (cell pd i2) in
      if table_skip e then fork_pd s new_cr3 pd hi is
      else
        (case fork_pt s new_cr3 (e AND PTE_ADDR_MASK) (hi OR push_bit 21 (of_nat i2)) [0..<512] of (ok, s1) \<Rightarrow>
           if ok then fork_pd s1 new_cr3 pd hi is else (False, s1)))"

fun fork_pdpt :: "'a vmm_scheme \<Rightarrow> u64 \<Rightarrow> u64 \<Rightarrow> u64 \<Rightarrow> nat list \<Rightarrow> bool \<times> 'a vmm_scheme" where
  "fork_pdpt s new_cr3 pdpt hi [] = (True, s)"
| "fork_pdpt s new_cr3 pdpt hi (i3 # is) =
     (let e = pmem s (cell pdpt i3) in
      if table_skip e then fork_pdpt s new_cr3 pdpt hi is
      else
        (case fork_pd s new_cr3 (e AND PTE_ADDR_MASK) (hi OR push_bit 30 (of_nat i3)) [0..<512] of (ok, s1) \<Rightarrow>
           if ok then fork_pdpt s1 new_cr3 pdpt hi is else (False, s1)))"

fun fork_pml4 :: "'a vmm_scheme \<Rightarrow> u64 \<Rightarrow> u64 \<Rightarrow> nat list \<Rightarrow> bool \<times> 'a vmm_scheme" where
  "fork_pml4 s new_cr3 src [] = (True, s)"
| "fork_pml4 s new_cr3 src (i4 # is) =
     (let e = pmem s (cell src i4) in
      if table_skip e then fork_pml4 s new_cr3 src is
      else
        (case fork_pdpt s new_cr3 (e AND PTE_ADDR_MASK) (push_bit 39 (of_nat i4)) [0..<512] of (ok, s1) \<Rightarrow>
           if ok then fork_pml4 s1 new_cr3 src is else (False, s1)))"

definition vmm_space_fork :: "'a vmm_scheme \<Rightarrow> u64 \<Rightarrow> u64 \<times> 'a vmm_scheme" where
  "vmm_space_fork s src_cr3 =
     (case vmm_space_clone s of (new_cr3, s1) \<Rightarrow>
        if new_cr3 = 0 then (0, s1)
        else (case fork_pml4 s1 new_cr3 src_cr3 [0..<256] of (ok, s2) \<Rightarrow> if ok then (new_cr3, s2) else (0, s2)))"

end
