(* ===== verification/Vmm_Space.thy ===== *)
theory Vmm_Space
  imports Vmm "HOL-Library.Sublist"
begin

text \<open>
  What the page tables mean. \<open>mmu\<close> is the hardware's walk: it follows the indices of a virtual address through
  the tables, stops at a large page and yields the terminal entry with its level. \<open>tab\<close> names the table reached
  by a prefix of the indices. \<open>spaces_ok\<close> is the invariant of a family of address spaces: every table is a frame the
  allocator considers in use and is reached by one path only, and two spaces share tables only in the kernel
  half. The lemmas describe the three kinds of store the kernel makes: a new table, a change of flags, and a
  leaf entry.
\<close>

section \<open>Words\<close>

definition aligned :: "u64 \<Rightarrow> bool" where
  "aligned t \<longleftrightarrow> 4096 dvd unat t"

lemma low_bits: "(x :: u64) AND 0xFFF = take_bit 12 x"
proof -
  have "(0xFFF :: u64) = mask 12" by (simp add: mask_eq_exp_minus_1)
  then show ?thesis by (simp add: take_bit_eq_mask)
qed

lemma aligned_and: "aligned t \<longleftrightarrow> t AND 0xFFF = 0"
proof -
  have "t AND 0xFFF = 0 \<longleftrightarrow> unat (take_bit 12 t) = 0" by (simp add: low_bits unat_eq_zero)
  also have "\<dots> \<longleftrightarrow> unat t mod 4096 = 0" by (simp add: take_bit_eq_mod unat_mod)
  finally show ?thesis by (simp add: aligned_def dvd_eq_mod_eq_0)
qed

lemma aligned_mask [simp]: "aligned (e AND PTE_ADDR_MASK)"
  by (simp add: aligned_and and.assoc)

lemma aligned_bound: "aligned t \<Longrightarrow> unat t + 4096 \<le> 2 ^ 64"
proof -
  assume "aligned t"
  then obtain k where k: "unat t = 4096 * k" by (auto simp: aligned_def)
  have "unat t < 2 ^ 64" using unsigned_less [of t] by simp
  with k show ?thesis by simp
qed

lemma unat_cell: "aligned t \<Longrightarrow> i < 512 \<Longrightarrow> unat (cell t i) = unat t + 8 * i"
proof -
  assume a: "aligned t" "i < 512"
  have "unat (8 * of_nat i :: u64) = 8 * i" using a(2) by (simp add: unat_word_ariths unat_of_nat)
  then show ?thesis using aligned_bound [OF a(1)] a(2) by (simp add: cell_def unat_word_ariths)
qed

lemma page_no_cell [simp]: "aligned t \<Longrightarrow> i < 512 \<Longrightarrow> page_no (cell t i) = page_no t"
  by (auto simp: page_no_def unat_cell aligned_def)

lemma page_no_inj: "aligned t \<Longrightarrow> aligned u \<Longrightarrow> page_no t = page_no u \<Longrightarrow> t = u"
  by (simp add: page_no_def aligned_def word_unat_eq_iff dvd_div_eq_iff)

lemma cell_eq_iff:
  assumes "aligned t" "aligned u" "i < 512" "j < 512"
  shows "cell t i = cell u j \<longleftrightarrow> t = u \<and> i = j"
proof
  assume eq: "cell t i = cell u j"
  then have "page_no t = page_no u" using assms page_no_cell by metis
  then have "t = u" using assms page_no_inj by blast
  moreover from this have "8 * i = 8 * j" using eq assms unat_cell by (metis add_left_cancel)
  ultimately show "t = u \<and> i = j" by simp
qed simp

lemma idx_less [simp]: "idx n v < 512"
proof -
  have "drop_bit n v AND 0x1FF \<le> 0x1FF" by (rule word_and_le1)
  then show ?thesis by (simp add: idx_def word_le_nat_alt)
qed

section \<open>The hardware's walk\<close>

definition ptr_ok :: "u64 \<Rightarrow> bool" where
  "ptr_ok e \<longleftrightarrow> e AND VMM_PRESENT \<noteq> 0 \<and> e AND PTE_PS = 0"

fun tab :: "pmem \<Rightarrow> u64 \<Rightarrow> nat list \<Rightarrow> u64 option" where
  "tab m t [] = Some t"
| "tab m t (i # is) = (if ptr_ok (m (cell t i)) then tab m (m (cell t i) AND PTE_ADDR_MASK) is else None)"

fun mmu :: "pmem \<Rightarrow> u64 \<Rightarrow> nat list \<Rightarrow> (nat \<times> u64) option" where
  "mmu m t [] = None"
| "mmu m t [i] = (if m (cell t i) AND VMM_PRESENT = 0 then None else Some (0, m (cell t i)))"
| "mmu m t (i # j # is) =
     (if m (cell t i) AND VMM_PRESENT = 0 then None
      else if m (cell t i) AND PTE_PS \<noteq> 0 then Some (Suc (length is), m (cell t i))
      else mmu m (m (cell t i) AND PTE_ADDR_MASK) (j # is))"

lemma mmu_step:
  "q \<noteq> [] \<Longrightarrow> mmu m t (i # q) =
     (if m (cell t i) AND VMM_PRESENT = 0 then None
      else if m (cell t i) AND PTE_PS \<noteq> 0 then Some (length q, m (cell t i))
      else mmu m (m (cell t i) AND PTE_ADDR_MASK) q)"
  by (cases q) simp_all

definition vpath :: "u64 \<Rightarrow> nat list" where
  "vpath v = [idx 39 v, idx 30 v, idx 21 v, idx 12 v]"

definition idxs :: "nat list \<Rightarrow> bool" where
  "idxs p \<longleftrightarrow> (\<forall>i \<in> set p. i < 512)"

lemma idxs_simps [simp]: "idxs []" "idxs (i # p) \<longleftrightarrow> i < 512 \<and> idxs p" "idxs (p @ q) \<longleftrightarrow> idxs p \<and> idxs q" "idxs (vpath v)"
  by (auto simp: idxs_def vpath_def)

lemma tab_append: "tab m t (p @ q) = (case tab m t p of None \<Rightarrow> None | Some u \<Rightarrow> tab m u q)"
  by (induction p arbitrary: t) auto

lemma tab_aligned: "tab m t p = Some u \<Longrightarrow> aligned t \<Longrightarrow> aligned u"
  by (induction p arbitrary: t) (auto split: if_splits)

section \<open>Families of address spaces\<close>

definition busy :: "'a vmm_scheme \<Rightarrow> u64 \<Rightarrow> bool" where
  "busy s t \<longleftrightarrow> \<not> frame_is_free (pm_bitmap (g_pmm s)) (page_no t)"

definition kernel_path :: "nat list \<Rightarrow> bool" where
  "kernel_path p \<longleftrightarrow> p \<noteq> [] \<and> 256 \<le> hd p"

definition spaces_ok :: "'a vmm_scheme \<Rightarrow> u64 set \<Rightarrow> bool" where
  "spaces_ok s R \<longleftrightarrow> pm_total_frames (g_pmm s) \<le> MAX_FRAMES \<and>
     (\<forall>r \<in> R. aligned r \<and>
        (\<forall>p t. idxs p \<longrightarrow> length p \<le> 3 \<longrightarrow> tab (pmem s) r p = Some t \<longrightarrow> t \<noteq> 0 \<and> busy s t) \<and>
        (\<forall>r' \<in> R. \<forall>p q t. idxs p \<longrightarrow> idxs q \<longrightarrow> length p \<le> 3 \<longrightarrow> length q \<le> 3 \<longrightarrow>
           tab (pmem s) r p = Some t \<longrightarrow> tab (pmem s) r' q = Some t \<longrightarrow> p = q \<and> (r = r' \<or> kernel_path p)))"

lemma spaces_okD:
  assumes "spaces_ok s R" "r \<in> R"
  shows "pm_total_frames (g_pmm s) \<le> MAX_FRAMES" "aligned r"
    "idxs p \<Longrightarrow> length p \<le> 3 \<Longrightarrow> tab (pmem s) r p = Some t \<Longrightarrow> t \<noteq> 0 \<and> busy s t \<and> aligned t"
    "r' \<in> R \<Longrightarrow> idxs p \<Longrightarrow> idxs q \<Longrightarrow> length p \<le> 3 \<Longrightarrow> length q \<le> 3 \<Longrightarrow>
       tab (pmem s) r p = Some t \<Longrightarrow> tab (pmem s) r' q = Some t \<Longrightarrow> p = q \<and> (r = r' \<or> kernel_path p)"
proof -
  show "aligned r" using assms by (simp add: spaces_ok_def)
  then show "idxs p \<Longrightarrow> length p \<le> 3 \<Longrightarrow> tab (pmem s) r p = Some t \<Longrightarrow> t \<noteq> 0 \<and> busy s t \<and> aligned t"
    using assms tab_aligned unfolding spaces_ok_def by blast
qed (use assms in \<open>unfold spaces_ok_def; blast\<close>)+

text \<open>Two memories that agree on the entries a walk reads give the same walk.\<close>

lemma walk_agree:
  assumes "\<And>acc b j rest. q = acc @ j # rest \<Longrightarrow> tab m t acc = Some b \<Longrightarrow> m' (cell b j) = m (cell b j)"
  shows "tab m' t q = tab m t q" "mmu m' t q = mmu m t q"
proof -
  have "tab m' t q = tab m t q \<and> mmu m' t q = mmu m t q"
    using assms
  proof (induction q arbitrary: t)
    case (Cons i q)
    have e: "m' (cell t i) = m (cell t i)" using Cons.prems [of "[]" i q t] by simp
    have IH: "tab m' (m (cell t i) AND PTE_ADDR_MASK) q = tab m (m (cell t i) AND PTE_ADDR_MASK) q \<and>
        mmu m' (m (cell t i) AND PTE_ADDR_MASK) q = mmu m (m (cell t i) AND PTE_ADDR_MASK) q" if "ptr_ok (m (cell t i))"
      using that by (intro Cons.IH) (auto intro: Cons.prems [of "i # _"])
    then show ?case using e by (cases "q = []") (auto simp: mmu_step ptr_ok_def)
  qed simp
  then show "tab m' t q = tab m t q" "mmu m' t q = mmu m t q" by blast+
qed

text \<open>A store into one entry is seen only through that entry.\<close>

lemma store_frame:
  assumes ok: "spaces_ok s R" and r: "r \<in> R" "r' \<in> R" and p: "idxs p" "length p \<le> 3" "tab (pmem s) r p = Some t" "i < 512"
    and q: "idxs q" "length q \<le> 4" and miss: "prefix (p @ [i]) q \<Longrightarrow> tab (pmem s) r' p \<noteq> Some t"
  shows "tab ((pmem s)(cell t i := e)) r' q = tab (pmem s) r' q"
    and "mmu ((pmem s)(cell t i := e)) r' q = mmu (pmem s) r' q"
proof -
  have "((pmem s)(cell t i := e)) (cell b j) = pmem s (cell b j)"
    if acc: "q = acc @ j # rest" "tab (pmem s) r' acc = Some b" for acc b j rest
  proof -
    have len: "idxs acc" "length acc \<le> 3" "j < 512" using acc(1) q by auto
    have al: "aligned t" "aligned b"
      using spaces_okD(3) [OF ok r(1) p(1,2,3)] spaces_okD(3) [OF ok r(2) len(1,2) acc(2)] by simp_all
    have "\<not> (b = t \<and> j = i)"
    proof
      assume bt: "b = t \<and> j = i"
      then have "p = acc" using spaces_okD(4) [OF ok r(1) r(2) p(1) len(1) p(2) len(2) p(3)] acc(2) by simp
      then show False using acc miss bt by (auto simp: prefix_def)
    qed
    then show ?thesis using cell_eq_iff [of b t j i] al len p(4) by auto
  qed
  then show "tab ((pmem s)(cell t i := e)) r' q = tab (pmem s) r' q" "mmu ((pmem s)(cell t i := e)) r' q = mmu (pmem s) r' q"
    by (intro walk_agree; blast)+
qed

text \<open>Changing the flags of an entry that points to a table.\<close>

definition same_mmu :: "'a vmm_scheme \<Rightarrow> 'b vmm_scheme \<Rightarrow> u64 set \<Rightarrow> bool" where
  "same_mmu s s' R \<longleftrightarrow> (\<forall>r \<in> R. \<forall>q. idxs q \<longrightarrow> length q = 4 \<longrightarrow> mmu (pmem s') r q = mmu (pmem s) r q)"

lemma flags_walk:
  assumes "ptr_ok (m c)" "ptr_ok e" "e AND PTE_ADDR_MASK = m c AND PTE_ADDR_MASK"
  shows "tab (m(c := e)) t q = tab m t q"
    and "(\<And>acc b j. q = acc @ [j] \<Longrightarrow> tab m t acc = Some b \<Longrightarrow> cell b j \<noteq> c) \<Longrightarrow> mmu (m(c := e)) t q = mmu m t q"
proof -
  define m' where "m' = m(c := e)"
  have e: "ptr_ok (m' x) = ptr_ok (m x)" "ptr_ok (m x) \<Longrightarrow> m' x AND PTE_ADDR_MASK = m x AND PTE_ADDR_MASK"
    "x \<noteq> c \<Longrightarrow> m' x = m x" for x using assms by (auto simp: m'_def)
  have "tab m' t q = tab m t q" by (induction q arbitrary: t) (auto simp: e)
  then show "tab (m(c := e)) t q = tab m t q" by (simp add: m'_def)
  have P: "m' x AND VMM_PRESENT = 0 \<longleftrightarrow> m x AND VMM_PRESENT = 0" "m' x AND PTE_PS \<noteq> 0 \<longleftrightarrow> m x AND PTE_PS \<noteq> 0"
    "m x AND PTE_PS \<noteq> 0 \<Longrightarrow> m' x = m x" for x
    using assms(1,2) by (auto simp: m'_def ptr_ok_def)
  show "mmu (m(c := e)) t q = mmu m t q" if "\<And>acc b j. q = acc @ [j] \<Longrightarrow> tab m t acc = Some b \<Longrightarrow> cell b j \<noteq> c"
    unfolding m'_def [symmetric] using that
  proof (induction q arbitrary: t)
    case (Cons i q)
    show ?case
    proof (cases "q = []")
      case True
      then have "m' (cell t i) = m (cell t i)" using Cons.prems [of "[]" i t] e(3) by simp
      with True show ?thesis by simp
    next
      case False
      show ?thesis
      proof (cases "ptr_ok (m (cell t i))")
        case True
        have "mmu m' (m (cell t i) AND PTE_ADDR_MASK) q = mmu m (m (cell t i) AND PTE_ADDR_MASK) q"
        proof (rule Cons.IH)
          fix acc b j assume "q = acc @ [j]" "tab m (m (cell t i) AND PTE_ADDR_MASK) acc = Some b"
          then show "cell b j \<noteq> c" using True Cons.prems [of "i # acc" j b] by simp
        qed
        then show ?thesis using True e(1,2) [of "cell t i"] by (auto simp: mmu_step [OF False] ptr_ok_def)
      next
        case False': False
        then show ?thesis using P by (auto simp: mmu_step [OF False] ptr_ok_def)
      qed
    qed
  qed simp
qed

section \<open>Growing the tables\<close>

text \<open>A page that holds one of the tables, and a step that changes tables without changing any translation.\<close>

definition table_page :: "'a vmm_scheme \<Rightarrow> u64 set \<Rightarrow> u64 \<Rightarrow> bool" where
  "table_page s R a \<longleftrightarrow> (\<exists>r \<in> R. \<exists>q t. idxs q \<and> length q \<le> 3 \<and> tab (pmem s) r q = Some t \<and> page_no t = page_no a)"

definition extends :: "'a vmm_scheme \<Rightarrow> 'b vmm_scheme \<Rightarrow> u64 set \<Rightarrow> bool" where
  "extends s s' R \<longleftrightarrow> spaces_ok s' R \<and> same_mmu s s' R \<and> g_cr3 s' = g_cr3 s \<and> g_root_cr3 s' = g_root_cr3 s \<and>
     (\<forall>a. busy s a \<longrightarrow> busy s' a) \<and>
     (\<forall>r \<in> R. \<forall>q t. idxs q \<longrightarrow> length q \<le> 3 \<longrightarrow> tab (pmem s) r q = Some t \<longrightarrow> tab (pmem s') r q = Some t) \<and>
     (\<forall>r \<in> R. \<forall>q i t. idxs q \<longrightarrow> length q \<le> 2 \<longrightarrow> i < 512 \<longrightarrow> tab (pmem s') r q = Some t \<longrightarrow> pmem s' (cell t i) AND PTE_PS \<noteq> 0 \<longrightarrow>
        tab (pmem s) r q = Some t \<and> pmem s (cell t i) AND PTE_PS \<noteq> 0) \<and>
     (\<forall>a. busy s a \<longrightarrow> \<not> table_page s R a \<longrightarrow> \<not> table_page s' R a \<and> pmem s' a = pmem s a)"

lemma extendsD:
  assumes "extends s s' R"
  shows "spaces_ok s' R" "same_mmu s s' R" "g_cr3 s' = g_cr3 s" "g_root_cr3 s' = g_root_cr3 s"
    "busy s a \<Longrightarrow> busy s' a"
    "r \<in> R \<Longrightarrow> idxs q \<Longrightarrow> length q \<le> 3 \<Longrightarrow> tab (pmem s) r q = Some t \<Longrightarrow> tab (pmem s') r q = Some t"
    "r \<in> R \<Longrightarrow> idxs q \<Longrightarrow> length q \<le> 2 \<Longrightarrow> i < 512 \<Longrightarrow> tab (pmem s') r q = Some t \<Longrightarrow> pmem s' (cell t i) AND PTE_PS \<noteq> 0 \<Longrightarrow>
       tab (pmem s) r q = Some t \<and> pmem s (cell t i) AND PTE_PS \<noteq> 0"
    "busy s a \<Longrightarrow> \<not> table_page s R a \<Longrightarrow> \<not> table_page s' R a \<and> pmem s' a = pmem s a"
  using assms unfolding extends_def by blast+

lemma extends_refl: "spaces_ok s R \<Longrightarrow> extends s s R"
  by (simp add: extends_def same_mmu_def)

lemma same_mmu_trans: "same_mmu s s1 R \<Longrightarrow> same_mmu s1 s2 R \<Longrightarrow> same_mmu s s2 R"
  by (simp add: same_mmu_def)

lemma extends_trans:
  assumes "extends s s1 R" "extends s1 s2 R"
  shows "extends s s2 R"
proof -
  note 1 = extendsD [OF assms(1)] and 2 = extendsD [OF assms(2)]
  show ?thesis
    unfolding extends_def using 2(1) same_mmu_trans [OF 1(2) 2(2)] 1(3,4) 2(3,4)
    by (auto intro: 2(5,6) 1(5,6) dest: 1(7) 2(7) 1(8) 2(8) simp: 1(5,8) 2(8))
qed


lemma extends_tabI:
  assumes ok: "spaces_ok s R" and total: "pm_total_frames (g_pmm s') = pm_total_frames (g_pmm s)"
    and b: "\<And>a. busy s a \<Longrightarrow> busy s' a"
    and t: "\<And>r q. r \<in> R \<Longrightarrow> idxs q \<Longrightarrow> length q \<le> 3 \<Longrightarrow> tab (pmem s') r q = tab (pmem s) r q"
  shows "spaces_ok s' R" "table_page s' R a = table_page s R a"
proof -
  show "spaces_ok s' R"
    unfolding spaces_ok_def using spaces_okD [OF ok] t total b ok [unfolded spaces_ok_def] by (simp; blast)
  show "table_page s' R a = table_page s R a" by (simp add: table_page_def t cong: conj_cong bex_cong)
qed

lemma table_page_cell:
  "r \<in> R \<Longrightarrow> idxs p \<Longrightarrow> length p \<le> 3 \<Longrightarrow> tab (pmem s) r p = Some t \<Longrightarrow> aligned t \<Longrightarrow> i < 512 \<Longrightarrow> table_page s R (cell t i)"
  unfolding table_page_def using page_no_cell by metis

lemma extends_flags:
  assumes ok: "spaces_ok s R" and r: "r \<in> R" and p: "idxs p" "length p \<le> 2" "tab (pmem s) r p = Some t" "i < 512"
    and e: "ptr_ok (pmem s (cell t i))" "ptr_ok e" "e AND PTE_ADDR_MASK = pmem s (cell t i) AND PTE_ADDR_MASK"
  shows "extends s (store (cell t i) e s) R"
proof -
  define s' where "s' = store (cell t i) e s"
  have m: "pmem s' = (pmem s)(cell t i := e)" "g_pmm s' = g_pmm s" "g_cr3 s' = g_cr3 s" "g_root_cr3 s' = g_root_cr3 s"
    by (simp_all add: s'_def store_def)
  have tabs: "tab (pmem s') r' q = tab (pmem s) r' q" for r' q unfolding m using e by (rule flags_walk(1))
  have b: "busy s' a = busy s a" for a by (simp add: busy_def m)
  note I = extends_tabI [OF ok, of s'] 
  have at: "aligned t" using spaces_okD(3) [OF ok r p(1) _ p(3)] p(2) by simp
  have "mmu (pmem s') r' q = mmu (pmem s) r' q" if q: "r' \<in> R" "idxs q" "length q = 4" for r' q
    unfolding m
  proof (rule flags_walk(2) [where m = "pmem s" and c = "cell t i", OF e])
    fix acc b j assume a: "q = acc @ [j]" "tab (pmem s) r' acc = Some b"
    show "cell b j \<noteq> cell t i"
    proof
      assume "cell b j = cell t i"
      then have "b = t" using a q at p spaces_okD(3) [OF ok q(1) _ _ a(2)] cell_eq_iff [of b t j i] by simp
      then show False using spaces_okD(4) [OF ok q(1) r, of acc p b] a q p by simp
    qed
  qed
  then have "same_mmu s s' R" by (simp add: same_mmu_def)
  moreover have "pmem s' a = pmem s a" if "\<not> table_page s R a" for a
    using that table_page_cell [OF r p(1) _ p(3) at p(4)] p(2) by (auto simp: m)
  moreover have "pmem s (cell u j) AND PTE_PS \<noteq> 0" if "pmem s' (cell u j) AND PTE_PS \<noteq> 0" for u j
    using that e(2) by (auto simp: m ptr_ok_def split: if_splits)
  ultimately have "extends s s' R"
    unfolding extends_def using I m(2-4) b tabs by auto
  then show ?thesis by (simp add: s'_def)
qed


section \<open>Allocating a table\<close>

lemma mask_frame: "aligned t \<Longrightarrow> unat t < 2 ^ 52 \<Longrightarrow> t AND PTE_ADDR_MASK = t"
proof -
  assume a: "aligned t" "unat t < 2 ^ 52"
  have low: "\<not> bit t n" if "n < 12" for n
  proof -
    have "take_bit 12 t = 0" using a(1) by (simp add: aligned_and low_bits)
    then have "\<not> bit (take_bit 12 t) n" by simp
    then show ?thesis using that by (simp add: bit_take_bit_iff)
  qed
  have high: "\<not> bit t n" if "n \<ge> 52" for n
  proof -
    have "take_bit 52 t = t" using a(2) by (simp add: word_unat_eq_iff take_bit_eq_mod unat_mod)
    then have "bit t n = bit (take_bit 52 t) n" by simp
    then show ?thesis using that by (simp add: bit_take_bit_iff)
  qed
  have m: "(PTE_ADDR_MASK :: u64) = push_bit 12 (mask 40)" by (simp add: mask_eq_exp_minus_1)
  have "bit (t AND push_bit 12 (mask 40)) n = bit t n" if "n < LENGTH(64)" for n
    using that low [of n] high [of n] by (cases "n < 12"; cases "n \<ge> 52") (auto simp: bit_simps)
  then show ?thesis unfolding m by (rule bit_word_eqI)
qed

lemma alloc_frame_spec:
  assumes "alloc_frame s = (z, s')" "pm_total_frames (g_pmm s) \<le> MAX_FRAMES"
  shows "pmem s' = pmem s" "g_cr3 s' = g_cr3 s" "g_root_cr3 s' = g_root_cr3 s" "g_mmio_next s' = g_mmio_next s"
    "pm_total_frames (g_pmm s') = pm_total_frames (g_pmm s)" "busy s a \<Longrightarrow> busy s' a"
    "z \<noteq> 0 \<Longrightarrow> aligned z \<and> z AND PTE_ADDR_MASK = z \<and> \<not> busy s z \<and> busy s' z"
proof -
  obtain b p where p: "pmm_alloc_frame (g_pmm s) = (b, p)" "z = of_nat b" "s' = s\<lparr>g_pmm := p\<rparr>"
    using assms(1) by (auto simp: alloc_frame_def split: prod.splits)
  then show "pmem s' = pmem s" "g_cr3 s' = g_cr3 s" "g_root_cr3 s' = g_root_cr3 s" "g_mmio_next s' = g_mmio_next s" by simp_all
  have "pm_total_frames p = pm_total_frames (g_pmm s) \<and>
      (\<forall>f. \<not> frame_is_free (pm_bitmap (g_pmm s)) f \<longrightarrow> \<not> frame_is_free (pm_bitmap p) f) \<and>
      (b = 0 \<or> (\<exists>i < MAX_FRAMES. b = i * FRAME_SIZE \<and> frame_is_free (pm_bitmap (g_pmm s)) i \<and> \<not> frame_is_free (pm_bitmap p) i))"
  proof (cases rule: pmm_alloc_frame_cases [of "g_pmm s"])
    case (found i)
    then show ?thesis using p(1) assms(2) by (auto simp: pmm_take_frame_def)
  next
    case full
    then show ?thesis using p(1) by auto
  qed
  then have f: "pm_total_frames p = pm_total_frames (g_pmm s)"
      "\<And>f. \<not> frame_is_free (pm_bitmap (g_pmm s)) f \<Longrightarrow> \<not> frame_is_free (pm_bitmap p) f"
      "b = 0 \<or> (\<exists>i < MAX_FRAMES. b = i * FRAME_SIZE \<and> frame_is_free (pm_bitmap (g_pmm s)) i \<and> \<not> frame_is_free (pm_bitmap p) i)"
    by blast+
  show "pm_total_frames (g_pmm s') = pm_total_frames (g_pmm s)" "busy s a \<Longrightarrow> busy s' a"
    using f(1,2) p(3) by (simp_all add: busy_def)
  show "aligned z \<and> z AND PTE_ADDR_MASK = z \<and> \<not> busy s z \<and> busy s' z" if z0: "z \<noteq> 0"
  proof -
    obtain i where i: "i < MAX_FRAMES" "b = i * FRAME_SIZE" "frame_is_free (pm_bitmap (g_pmm s)) i" "\<not> frame_is_free (pm_bitmap p) i"
      using f(3) z0 p(2) by (cases "b = 0") auto
    then have u: "unat z = i * 4096" using p(2) by (simp add: unat_of_nat del: of_nat_mult)
    then have "aligned z" "page_no z = i" by (simp_all add: aligned_def page_no_def)
    then show ?thesis using mask_frame [of z] u i p(3) by (simp add: busy_def)
  qed
qed


text \<open>Enough memory: frame 0, whose address reads as a failure, is in use, and at least \<open>n\<close> frames are free.\<close>

definition free_frames :: "pmm \<Rightarrow> nat set" where
  "free_frames p = {i. i < pm_total_frames p \<and> frame_is_free (pm_bitmap p) i}"

definition room :: "'a vmm_scheme \<Rightarrow> nat \<Rightarrow> bool" where
  "room s n \<longleftrightarrow> 0 \<notin> free_frames (g_pmm s) \<and> n \<le> card (free_frames (g_pmm s))"

lemma room_mono: "room s n \<Longrightarrow> m \<le> n \<Longrightarrow> room s m"
  by (simp add: room_def)

lemma alloc_room:
  assumes "alloc_frame s = (z, s')" "pm_total_frames (g_pmm s) \<le> MAX_FRAMES" "room s (Suc n)"
  shows "z \<noteq> 0 \<and> room s' n"
proof (cases rule: pmm_alloc_frame_cases [of "g_pmm s"])
  case (found i)
  have i: "i \<in> free_frames (g_pmm s)" "i < MAX_FRAMES" "i \<noteq> 0"
    using found assms(2,3) by (auto simp: free_frames_def room_def intro: gr0I)
  have s': "z = of_nat (i * 4096)" "s' = s\<lparr>g_pmm := snd (pmm_take_frame i (g_pmm s))\<rparr>"
    using assms(1) found(1) i(2) by (auto simp: alloc_frame_def pmm_take_frame_def)
  have "free_frames (g_pmm s') = free_frames (g_pmm s) - {i}"
    by (auto simp: s' free_frames_def pmm_take_frame_def)
  moreover have "finite (free_frames (g_pmm s))" by (simp add: free_frames_def)
  ultimately have "card (free_frames (g_pmm s')) = card (free_frames (g_pmm s)) - 1" "0 \<notin> free_frames (g_pmm s')"
    using i assms(3) by (simp_all add: room_def)
  then have "room s' n" using assms(3) unfolding room_def by linarith
  moreover have "unat z = i * 4096" using i(2) s'(1) by (simp add: unat_of_nat del: of_nat_mult)
  ultimately show ?thesis using i(3) by auto
next
  case full
  then have "free_frames (g_pmm s) = {}" by (auto simp: free_frames_def)
  then show ?thesis using assms(3) by (simp add: room_def)
qed

lemma table_page_busy: "spaces_ok s R \<Longrightarrow> table_page s R a \<Longrightarrow> busy s a"
  unfolding table_page_def using spaces_okD(3) [of s R] by (metis busy_def)

text \<open>Writing to a frame that is not in use.\<close>

lemma extends_page:
  assumes ok: "spaces_ok s R" and z: "\<not> busy s z"
    and s': "\<And>a. page_no a \<noteq> page_no z \<Longrightarrow> pmem s' a = pmem s a" "pm_total_frames (g_pmm s') = pm_total_frames (g_pmm s)"
      "\<And>a. busy s a \<Longrightarrow> busy s' a" "g_cr3 s' = g_cr3 s" "g_root_cr3 s' = g_root_cr3 s"
  shows "extends s s' R" "\<not> table_page s' R z"
proof -
  have off: "page_no x \<noteq> page_no z" if "busy s x" for x using that z by (auto simp: busy_def)
  have cells: "pmem s' (cell u j) = pmem s (cell u j)"
    if "r \<in> R" "idxs q" "length q \<le> 3" "tab (pmem s) r q = Some u" "j < 512" for r q u j
    using spaces_okD(3) [OF ok that(1-4)] off [of u] that(5) by (simp add: s'(1))
  have tabs: "tab (pmem s') r q = tab (pmem s) r q" "mmu (pmem s') r q = mmu (pmem s) r q"
    if "r \<in> R" "idxs q" "length q \<le> 4" for r q
    by (rule walk_agree; rule cells [OF that(1)]; use that in auto)+
  note I = extends_tabI [OF ok s'(2,3) tabs(1)]
  show "extends s s' R"
    unfolding extends_def same_mmu_def using I tabs cells s' off by auto
  show "\<not> table_page s' R z" using I(2) table_page_busy [OF ok] z by auto
qed

lemma extends_zero:
  assumes ok: "spaces_ok s R" and al: "alloc_frame s = (z, s1)" "z \<noteq> 0"
  shows "extends s (zero_frame z s1) R" "\<not> table_page (zero_frame z s1) R z"
proof -
  have tot: "pm_total_frames (g_pmm s) \<le> MAX_FRAMES" using ok by (simp add: spaces_ok_def)
  note a = alloc_frame_spec [OF al(1) tot]
  have "\<not> busy s z" using a(7) al(2) by simp
  note G = extends_page [OF ok this, of "zero_frame z s1"]
  show "extends s (zero_frame z s1) R" "\<not> table_page (zero_frame z s1) R z"
    using a by - (rule G; simp add: zero_frame_def busy_def)+
qed

lemma mmu_append: "tab m t p = Some u \<Longrightarrow> q \<noteq> [] \<Longrightarrow> mmu m t (p @ q) = mmu m u q"
proof (induction p arbitrary: t)
  case (Cons i p)
  then have "mmu m (m (cell t i) AND PTE_ADDR_MASK) (p @ q) = mmu m u q" "ptr_ok (m (cell t i))" by (auto split: if_splits)
  then show ?case using Cons.prems(2) by (simp add: mmu_step ptr_ok_def)
qed simp


text \<open>Linking a zeroed frame into an entry that was not present.\<close>

lemma link_walk:
  assumes ok: "spaces_ok s R" and r: "r \<in> R" "r' \<in> R" and p: "idxs p" "length p \<le> 2" "tab (pmem s) r p = Some t" "i < 512"
    and e: "pmem s (cell t i) AND VMM_PRESENT = 0" "ptr_ok e" "e AND PTE_ADDR_MASK = z"
    and z: "\<not> table_page s R z" "\<And>a. page_no a = page_no z \<Longrightarrow> pmem s a = 0" "aligned z"
    and q: "idxs q"
  shows "length q \<le> 3 \<Longrightarrow> tab ((pmem s)(cell t i := e)) r' q = Some x \<longleftrightarrow>
           tab (pmem s) r' q = Some x \<or> q = p @ [i] \<and> tab (pmem s) r' p = Some t \<and> x = z"
    and "length q = 4 \<Longrightarrow> mmu ((pmem s)(cell t i := e)) r' q = mmu (pmem s) r' q"
proof -
  define m' where "m' = (pmem s)(cell t i := e)"
  have p3: "length p \<le> 3" using p(2) by simp
  have at: "aligned t" using spaces_okD(3) [OF ok r(1) p(1) p3 p(3)] by simp
  have tz: "page_no t \<noteq> page_no z" using z(1) r p p3 unfolding table_page_def by blast
  have zero: "m' (cell z j) = 0" if "j < 512" for j
    using that z cell_eq_iff [of z t j i] at p(4) tz by (auto simp: m'_def)
  note sf = store_frame [OF ok r p(1) p3 p(3,4), where e = e, folded m'_def]
  have pp: "tab m' r' p = tab (pmem s) r' p" using p p3 by (intro sf) (auto dest: prefix_length_le)
  have "(length q \<le> 3 \<longrightarrow> (tab m' r' q = Some x \<longleftrightarrow> tab (pmem s) r' q = Some x \<or> q = p @ [i] \<and> tab (pmem s) r' p = Some t \<and> x = z)) \<and>
        (length q = 4 \<longrightarrow> mmu m' r' q = mmu (pmem s) r' q)"
  proof (cases "prefix (p @ [i]) q \<and> tab (pmem s) r' p = Some t")
    case False
    then have "length q \<le> 4 \<Longrightarrow> tab m' r' q = tab (pmem s) r' q" "length q \<le> 4 \<Longrightarrow> mmu m' r' q = mmu (pmem s) r' q"
      using q by (auto intro!: sf)
    then show ?thesis using False by (auto simp: prefix_def)
  next
    case True
    then obtain w where w: "q = p @ i # w" and t: "tab (pmem s) r' p = Some t" by (auto simp: prefix_def)
    have e': "m' (cell t i) = e" by (simp add: m'_def)
    have "tab m' r' q = (if w = [] then Some z else None)"
      using w t pp e' e(2,3) zero q by (cases w) (auto simp: tab_append ptr_ok_def)
    moreover have "tab (pmem s) r' q = None" using w t e(1) by (simp add: tab_append ptr_ok_def)
    moreover have "mmu m' r' q = mmu (pmem s) r' q" if "w \<noteq> []"
    proof -
      have "mmu m' r' q = mmu m' z w" using w t pp e' e(2,3) that by (simp add: mmu_append mmu_step ptr_ok_def)
      also have "\<dots> = None" using that zero q w by (cases w; cases "tl w") (auto simp: mmu_step)
      also have "mmu (pmem s) r' q = None" using w t e(1) that by (simp add: mmu_append mmu_step)
      finally show ?thesis ..
    qed
    ultimately show ?thesis using w t p(2) by auto
  qed
  then show "length q \<le> 3 \<Longrightarrow> tab ((pmem s)(cell t i := e)) r' q = Some x \<longleftrightarrow>
           tab (pmem s) r' q = Some x \<or> q = p @ [i] \<and> tab (pmem s) r' p = Some t \<and> x = z"
    "length q = 4 \<Longrightarrow> mmu ((pmem s)(cell t i := e)) r' q = mmu (pmem s) r' q"
    by (simp_all add: m'_def)
qed


lemma extends_link:
  assumes g: "extends s0 s R" "\<not> busy s0 z" and r: "r \<in> R" and p: "idxs p" "length p \<le> 2" "tab (pmem s) r p = Some t" "i < 512"
    and e: "pmem s (cell t i) AND VMM_PRESENT = 0" "ptr_ok e" "e AND PTE_ADDR_MASK = z"
    and z: "\<not> table_page s R z" "\<And>a. page_no a = page_no z \<Longrightarrow> pmem s a = 0" "aligned z" "z \<noteq> 0" "busy s z"
  shows "extends s0 (store (cell t i) e s) R" "tab (pmem (store (cell t i) e s)) r (p @ [i]) = Some z"
proof -
  note ok = extendsD(1) [OF g(1)]
  define s' where "s' = store (cell t i) e s"
  have m: "pmem s' = (pmem s)(cell t i := e)" "g_pmm s' = g_pmm s" "g_cr3 s' = g_cr3 s" "g_root_cr3 s' = g_root_cr3 s"
    by (simp_all add: s'_def store_def)
  have b: "busy s' a = busy s a" for a by (simp add: busy_def m)
  note W = link_walk [OF ok r _ p e z(1-3), folded m(1)]
  have p3: "length p \<le> 3" using p(2) by simp
  have at: "aligned t" using spaces_okD(3) [OF ok r p(1) p3 p(3)] by simp
  have new: "tab (pmem s) r' q \<noteq> Some z" if "r' \<in> R" "idxs q" "length q \<le> 3" for r' q
    using z(1) that unfolding table_page_def by blast
  have sok: "spaces_ok s' R"
    unfolding spaces_ok_def
  proof (intro conjI ballI allI impI, goal_cases)
    case 1 show ?case using ok m by (simp add: spaces_ok_def)
  next
    case (2 r1) then show ?case using spaces_okD(2) [OF ok] by simp
  next
    case (3 r1 p1 t1) then show ?case using W(1) [of r1 p1 t1] spaces_okD(3) [OF ok, of r1 p1 t1] z by auto
  next
    case (4 r1 p1 t1) then show ?case using W(1) [of r1 p1 t1] spaces_okD(3) [OF ok, of r1 p1 t1] z b by auto
  next
    case (5 r1 r2 p1 p2 t1)
    then show ?case using W(1) [of r1 p1 t1] W(1) [of r2 p2 t1] spaces_okD(4) [OF ok, of r1 r2 p1 p2 t1] new by auto
  next
    case (6 r1 r2 p1 p2 t1)
    then show ?case
      using W(1) [of r1 p1 t1] W(1) [of r2 p2 t1] spaces_okD(4) [OF ok, of r1 r2 p1 p2 t1] new
        spaces_okD(4) [OF ok, of r1 r2 p p t] p(1) p3 by (auto simp: kernel_path_def)
  qed
  have tp: "table_page s R a \<or> page_no a = page_no z" if "table_page s' R a" for a
  proof -
    obtain r1 q u where q: "r1 \<in> R" "idxs q" "length q \<le> 3" "tab (pmem s') r1 q = Some u" "page_no u = page_no a"
      using \<open>table_page s' R a\<close> unfolding table_page_def by blast
    then show ?thesis using W(1) [of r1 q u] unfolding table_page_def by auto
  qed
  have data: "\<not> table_page s' R a \<and> pmem s' a = pmem s0 a" if "busy s0 a" "\<not> table_page s0 R a" for a
  proof -
    have a: "\<not> table_page s R a" "pmem s a = pmem s0 a" using extendsD(8) [OF g(1) that] by simp_all
    moreover have "page_no a \<noteq> page_no z" using that(1) g(2) by (auto simp: busy_def)
    moreover have "a \<noteq> cell t i" using table_page_cell [OF r p(1) p3 p(3) at p(4)] a(1) by auto
    ultimately show ?thesis using tp m by auto
  qed
  have ps: "tab (pmem s) r1 q = Some u \<and> pmem s (cell u j) AND PTE_PS \<noteq> 0"
    if q: "r1 \<in> R" "idxs q" "length q \<le> 2" "j < 512" "tab (pmem s') r1 q = Some u" "pmem s' (cell u j) AND PTE_PS \<noteq> 0" for r1 q u j
  proof -
    have "cell u j \<noteq> cell t i" using q(6) e(2) by (auto simp: m ptr_ok_def)
    then have c: "pmem s (cell u j) AND PTE_PS \<noteq> 0" using q(6) by (simp add: m)
    then have "u \<noteq> z" using z(2,3) q(4) by auto
    then show ?thesis using c W(1) [of r1 q u] q by simp
  qed
  have "extends s0 s' R"
    unfolding extends_def
  proof (intro conjI ballI allI impI, goal_cases)
    case 2 show ?case using extendsD(2) [OF g(1)] W(2) by (auto simp: same_mmu_def)
  next
    case (6 r1 q u) then show ?case using W(1) [of r1 q u] extendsD(6) [OF g(1)] by simp
  next
    case (7 r1 q j u) then show ?case using ps extendsD(7) [OF g(1)] by blast
  next
    case (8 r1 q j u) then show ?case using ps extendsD(7) [OF g(1)] by blast
  qed (use sok extendsD(3-5) [OF g(1)] m b data in auto)
  then show "extends s0 (store (cell t i) e s) R" by (simp add: s'_def)
  show "tab (pmem (store (cell t i) e s)) r (p @ [i]) = Some z"
    using W(1) [of r "p @ [i]" z] r p by (simp add: s'_def)
qed

end
