(* ===== verification/Vmm_Walk.thy ===== *)
theory Vmm_Walk
  imports Vmm_Space
begin

text \<open>
  \<^verbatim>\<open>walk_pt\<close> and the operations built on it, against the hardware's walk: the walk extends the tables without changing
  any translation, the operations on one page change exactly the translation they name.
\<close>

section \<open>The walk\<close>

lemma spaces_ok_total: "spaces_ok s R \<Longrightarrow> pm_total_frames (g_pmm s) \<le> MAX_FRAMES"
  by (simp add: spaces_ok_def)

lemma extends_alloc:
  assumes ok: "spaces_ok s R" and al: "alloc_frame s = (z, s')"
  shows "extends s s' R"
proof -
  note a = alloc_frame_spec [OF al spaces_ok_total [OF ok]]
  note I = extends_tabI [OF ok a(5,6), unfolded a(1), OF _ refl]
  show ?thesis unfolding extends_def same_mmu_def using I a by auto
qed

lemma table_entry_flags:
  assumes "aligned z" "z AND PTE_ADDR_MASK = z"
  shows "ptr_ok (z OR VMM_PRESENT OR VMM_WRITE OR VMM_USER)" "(z OR VMM_PRESENT OR VMM_WRITE OR VMM_USER) AND PTE_ADDR_MASK = z"
proof -
  have "z AND 1 = 0" "z AND 0x80 = 0"
    using arg_cong [OF assms(2), of "\<lambda>x. x AND 1"] arg_cong [OF assms(2), of "\<lambda>x. x AND 0x80"] by (simp_all add: and.assoc)
  then show "ptr_ok (z OR VMM_PRESENT OR VMM_WRITE OR VMM_USER)" by (simp add: ptr_ok_def word_ao_dist)
  show "(z OR VMM_PRESENT OR VMM_WRITE OR VMM_USER) AND PTE_ADDR_MASK = z" using assms(2) by (simp add: word_ao_dist)
qed

lemma table_fetch_extends:
  assumes ok: "spaces_ok s R" and r: "r \<in> R" and p: "idxs p" "length p \<le> 2" "tab (pmem s) r p = Some t" "i < 512"
    and ps: "pmem s (cell t i) AND PTE_PS = 0" and f: "table_fetch s (cell t i) allocate = (u, s')"
  shows "extends s s' R" "u \<noteq> 0 \<Longrightarrow> tab (pmem s') r (p @ [i]) = Some u"
    "\<not> allocate \<Longrightarrow> s' = s \<and> (u = 0 \<longrightarrow> tab (pmem s) r (p @ [i]) = None)" "allocate \<Longrightarrow> room s (Suc n) \<Longrightarrow> u \<noteq> 0 \<and> room s' n"
proof -
  have p3: "length p \<le> 3" using p(2) by simp
  have link: "tab (pmem s) r (p @ [i]) = (if ptr_ok (pmem s (cell t i)) then Some (pmem s (cell t i) AND PTE_ADDR_MASK) else None)"
    using p(3) by (simp add: tab_append)
  have "extends s s' R \<and> (u \<noteq> 0 \<longrightarrow> tab (pmem s') r (p @ [i]) = Some u) \<and>
    (\<not> allocate \<longrightarrow> s' = s \<and> (u = 0 \<longrightarrow> tab (pmem s) r (p @ [i]) = None)) \<and> (allocate \<longrightarrow> room s (Suc n) \<longrightarrow> u \<noteq> 0 \<and> room s' n)"
  proof (cases "pmem s (cell t i) AND VMM_PRESENT \<noteq> 0")
    case True
    then have l: "tab (pmem s) r (p @ [i]) = Some u" "s' = s" using ps f link by (auto simp: ptr_ok_def table_fetch_def)
    then have "u \<noteq> 0" using spaces_okD(3) [OF ok r, of "p @ [i]" u] p by simp
    then show ?thesis using l ok extends_refl room_mono [of s "Suc n" n] by simp
  next
    case absent: False
    then have none: "tab (pmem s) r (p @ [i]) = None" using link by (simp add: ptr_ok_def)
    show ?thesis
    proof (cases allocate)
      case False
      then show ?thesis using absent none f ok extends_refl by (simp add: table_fetch_def)
    next
      case True
      obtain z s1 where al: "alloc_frame s = (z, s1)" by (cases "alloc_frame s")
      note rm = alloc_room [OF al spaces_ok_total [OF ok], of n]
      show ?thesis
      proof (cases "z = 0")
        case True
        then show ?thesis using absent \<open>allocate\<close> rm f al extends_alloc [OF ok al] by (auto simp: table_fetch_def)
      next
        case False
        note a = alloc_frame_spec [OF al spaces_ok_total [OF ok]]
        note a7 = a(7) [OF False, THEN conjunct1] a(7) [OF False, THEN conjunct2]
        define s2 where "s2 = zero_frame z s1"
        have g: "extends s s2 R" "\<not> table_page s2 R z" unfolding s2_def by (rule extends_zero [OF ok al False])+
        have m: "pmem s2 a = (if page_no a = page_no z then 0 else pmem s a)" "busy s2 a = busy s1 a" for a
          by (simp_all add: s2_def zero_frame_def a busy_def)
        have t: "aligned t" "busy s t" using spaces_okD(3) [OF ok r p(1) p3 p(3)] by simp_all
        then have tz: "page_no t \<noteq> page_no z" using a7 by (auto simp: busy_def)
        have p2: "tab (pmem s2) r p = Some t" using extendsD(6) [OF g(1) r p(1) p3 p(3)] .
        note e = table_entry_flags [OF a7(1) a7(2) [THEN conjunct1]]
        have c: "pmem s2 (cell t i) = pmem s (cell t i)" using t tz p(4) by (simp add: m)
        note L = extends_link [OF g(1) _ r p(1,2) p2 p(4) _ e g(2) _ a7(1) False]
        have c': "pmem s2 (cell t i) AND VMM_PRESENT = 0" using c absent by simp
        have "u = z" "s' = store (cell t i) (z OR VMM_PRESENT OR VMM_WRITE OR VMM_USER) s2"
          using absent True f al False by (auto simp: table_fetch_def s2_def)
        then show ?thesis using L c' a7 True m rm by (auto simp: room_def s2_def store_def zero_frame_def)
      qed
    qed
  qed
  then show "extends s s' R" "u \<noteq> 0 \<Longrightarrow> tab (pmem s') r (p @ [i]) = Some u"
    "\<not> allocate \<Longrightarrow> s' = s \<and> (u = 0 \<longrightarrow> tab (pmem s) r (p @ [i]) = None)" "allocate \<Longrightarrow> room s (Suc n) \<Longrightarrow> u \<noteq> 0 \<and> room s' n" by blast+
qed


lemma split_entry_small: "pmem s e AND PTE_PS = 0 \<Longrightarrow> split_entry s e st x = (Some False, s)"
  by (simp add: split_entry_def)

text \<open>No large page on the way to an address.\<close>

definition small :: "'a vmm_scheme \<Rightarrow> u64 \<Rightarrow> u64 \<Rightarrow> bool" where
  "small s r v \<longleftrightarrow> (\<forall>q i w t. take 3 (vpath v) = q @ i # w \<longrightarrow> tab (pmem s) r q = Some t \<longrightarrow> pmem s (cell t i) AND PTE_PS = 0)"

lemma small_extends: "small s r v \<Longrightarrow> extends s s' R \<Longrightarrow> r \<in> R \<Longrightarrow> small s' r v"
  unfolding small_def
proof (intro allI impI)
  fix q i w t
  assume s: "\<forall>q i w t. take 3 (vpath v) = q @ i # w \<longrightarrow> tab (pmem s) r q = Some t \<longrightarrow> pmem s (cell t i) AND PTE_PS = 0"
    and g: "extends s s' R" "r \<in> R" and q: "take 3 (vpath v) = q @ i # w" "tab (pmem s') r q = Some t"
  have "idxs (take 3 (vpath v))" by (simp add: vpath_def)
  then have "idxs q" "i < 512" unfolding q(1) by simp_all
  moreover have "length q \<le> 2" using arg_cong [OF q(1), of length] by (simp add: vpath_def)
  ultimately show "pmem s' (cell t i) AND PTE_PS = 0" using extendsD(7) [OF g, of q i t] q s by blast
qed

lemma smallD:
  assumes "small s r v"
  shows "pmem s (cell r (idx 39 v)) AND PTE_PS = 0"
    "tab (pmem s) r [idx 39 v] = Some t \<Longrightarrow> pmem s (cell t (idx 30 v)) AND PTE_PS = 0"
    "tab (pmem s) r [idx 39 v, idx 30 v] = Some t \<Longrightarrow> pmem s (cell t (idx 21 v)) AND PTE_PS = 0"
  using assms [unfolded small_def, rule_format, of "[]"] assms [unfolded small_def, rule_format, of "[idx 39 v]"]
    assms [unfolded small_def, rule_format, of "[idx 39 v, idx 30 v]"] by (simp_all add: vpath_def)

text \<open>Changing NX and U/S on an entry of an upper level.\<close>

lemma flag_bits:
  "(x AND NOT VMM_NX) AND VMM_PRESENT = x AND VMM_PRESENT" "(x AND NOT VMM_NX) AND PTE_PS = x AND PTE_PS"
  "(x AND NOT VMM_NX) AND PTE_ADDR_MASK = x AND PTE_ADDR_MASK" "(x OR VMM_USER) AND PTE_PS = x AND PTE_PS"
  "(x OR VMM_USER) AND VMM_PRESENT = x AND VMM_PRESENT" "(x OR VMM_USER) AND PTE_ADDR_MASK = x AND PTE_ADDR_MASK"
  for x :: u64
  by (simp_all add: and.assoc word_ao_dist)

lemma extends_entry:
  assumes ok: "spaces_ok s R" and r: "r \<in> R" and p: "idxs (p @ [i])" "length p \<le> 2" "tab (pmem s) r p = Some t"
    and u: "tab (pmem s) r (p @ [i]) = Some u"
  shows "extends s (clear_nx (cell t i) s) R" "extends s (set_user (cell t i) s) R"
proof -
  have e: "ptr_ok (pmem s (cell t i))" using u p(3) by (simp add: tab_append split: if_splits)
  show "extends s (clear_nx (cell t i) s) R" "extends s (set_user (cell t i) s) R"
    unfolding clear_nx_def set_user_def using e p
    by (intro extends_flags [OF ok r _ p(2,3)]; simp add: ptr_ok_def flag_bits [simplified])+
qed


lemma tab_prefix: "tab m r (p @ q) = Some u \<Longrightarrow> \<exists>t. tab m r p = Some t \<and> tab m t q = Some u"
  by (auto simp: tab_append split: option.splits)

lemma extends_upper:
  assumes ok: "spaces_ok s R" and r: "r \<in> R" and i: "idxs [a, b, c]"
    and t: "tab (pmem s) r [a] = Some t1" "tab (pmem s) r [a, b] = Some t2" "tab (pmem s) r [a, b, c] = Some t3"
  defines "s' \<equiv> clear_nx (cell t2 c) (clear_nx (cell t1 b) (clear_nx (cell r a) s))"
  shows "extends s s' R" "extends s (set_user (cell t2 c) (set_user (cell t1 b) (set_user (cell r a) s'))) R"
proof -
  have step: "extends s (clear_nx (cell r a) s1) R \<and> extends s (set_user (cell r a) s1) R \<and>
      extends s (clear_nx (cell t1 b) s1) R \<and> extends s (set_user (cell t1 b) s1) R \<and>
      extends s (clear_nx (cell t2 c) s1) R \<and> extends s (set_user (cell t2 c) s1) R" if g: "extends s s1 R" for s1
  proof -
    have t': "tab (pmem s1) r [a] = Some t1" "tab (pmem s1) r [a, b] = Some t2" "tab (pmem s1) r [a, b, c] = Some t3"
      using t i by (auto intro!: extendsD(6) [OF g r] simp del: tab.simps)
    note e = extends_entry [OF extendsD(1) [OF g] r]
    have "extends s1 (clear_nx (cell r a) s1) R" "extends s1 (set_user (cell r a) s1) R"
      "extends s1 (clear_nx (cell t1 b) s1) R" "extends s1 (set_user (cell t1 b) s1) R"
      "extends s1 (clear_nx (cell t2 c) s1) R" "extends s1 (set_user (cell t2 c) s1) R"
      using e [of "[]" a r t1] e [of "[a]" b t1 t2] e [of "[a, b]" c t2 t3] i t' by (simp_all del: tab.simps(2))
    then show ?thesis using extends_trans [OF g] by blast
  qed
  show 1: "extends s s' R" unfolding s'_def using step extends_refl [OF ok] by blast
  then show "extends s (set_user (cell t2 c) (set_user (cell t1 b) (set_user (cell r a) s'))) R" using step by blast
qed

lemma walk_pt_extends:
  assumes ok: "spaces_ok s R" and r: "r \<in> R" and sm: "small s r v" and w: "walk_pt s r v allocate user = (res, s')"
  shows "extends s s' R"
    and "res = Some (pte, split) \<Longrightarrow> \<exists>pt. tab (pmem s') r (take 3 (vpath v)) = Some pt \<and> pte = cell pt (idx 12 v)"
    and "res = None \<Longrightarrow> \<not> allocate \<Longrightarrow> s' = s \<and> tab (pmem s) r (take 3 (vpath v)) = None"
    and "allocate \<Longrightarrow> room s (Suc (Suc (Suc n))) \<Longrightarrow> res \<noteq> None \<and> room s' n"
proof -
  let ?a = "idx 39 v" and ?b = "idx 30 v" and ?c = "idx 21 v"
  have p: "take 3 (vpath v) = [?a, ?b, ?c]" by (simp add: vpath_def)
  note [simp del] = tab.simps(2)
  have step: "extends s0 s2 R \<and> extends s1 s2 R \<and> small s2 r v \<and> (u \<noteq> 0 \<longrightarrow> tab (pmem s2) r (q @ [i]) = Some u) \<and>
      (\<not> allocate \<longrightarrow> s2 = s1 \<and> (u = 0 \<longrightarrow> tab (pmem s1) r (q @ [i]) = None)) \<and>
      (allocate \<longrightarrow> (\<forall>n. room s1 (Suc n) \<longrightarrow> u \<noteq> 0 \<and> room s2 n))"
    if "extends s0 s1 R" "small s1 r v" "table_fetch s1 (cell t i) allocate = (u, s2)" "tab (pmem s1) r q = Some t" 
       "take 3 (vpath v) = q @ i # x" for s0 s1 s2 q i t u x
  proof -
    have "idxs (take 3 (vpath v))" "length (take 3 (vpath v)) = 3" by (simp_all add: vpath_def)
    then have q: "idxs q" "i < 512" "length q \<le> 2" using that(5) by simp_all
    have "pmem s1 (cell t i) AND PTE_PS = 0" using that by (auto simp: small_def)
    note F = table_fetch_extends [OF extendsD(1) [OF that(1)] r q(1,3) that(4) q(2) this that(3)]
    show ?thesis using F extends_trans [OF that(1) F(1)] small_extends [OF that(2) F(1) r] by blast
  qed
  obtain u1 s1 where f1: "table_fetch s (cell r ?a) allocate = (u1, s1)" by (cases "table_fetch s (cell r ?a) allocate")
  note 1 = step [OF extends_refl [OF ok] sm f1, of "[]"]
  obtain u2 s2 where f2: "table_fetch s1 (cell u1 ?b) allocate = (u2, s2)" by (cases "table_fetch s1 (cell u1 ?b) allocate")
  note 2 = step [of s s1, OF _ _ f2, of "[?a]"]
  obtain u3 s3 where f3: "table_fetch s2 (cell u2 ?c) allocate = (u3, s3)" by (cases "table_fetch s2 (cell u2 ?c) allocate")
  note 3 = step [of s s2, OF _ _ f3, of "[?a, ?b]"]
  have up: "tab m r [?a, ?b, ?c] = None" if "tab m r [?a, ?b] = None \<or> tab m r [?a] = None" for m
    using that tab_append [of m r "[?a]" "[?b, ?c]"] tab_append [of m r "[?a, ?b]" "[?c]"] by auto
  have "extends s s' R \<and> (res = Some (pte, split) \<longrightarrow> (\<exists>pt. tab (pmem s') r [?a, ?b, ?c] = Some pt \<and> pte = cell pt (idx 12 v))) \<and>
    (res = None \<longrightarrow> \<not> allocate \<longrightarrow> s' = s \<and> tab (pmem s) r [?a, ?b, ?c] = None) \<and> (allocate \<longrightarrow> room s (Suc (Suc (Suc n))) \<longrightarrow> res \<noteq> None \<and> room s' n)"
  proof (cases "u1 = 0")
    case True
    then have "res = None" "s' = s1" using w f1 smallD(1) [OF sm] by (simp_all add: walk_pt_def split_entry_small)
    then show ?thesis using 1 True up p by auto
  next
    case u1: False
    then have 1: "extends s s1 R" "small s1 r v" "tab (pmem s1) r [?a] = Some u1" "\<not> allocate \<Longrightarrow> s1 = s"
      "allocate \<Longrightarrow> room s (Suc (Suc (Suc n))) \<Longrightarrow> room s1 (Suc (Suc n))" using 1 p by simp_all
    note 2 = 2 [OF 1(1-3)]
    show ?thesis
    proof (cases "u2 = 0")
      case True
      then have "res = None" "s' = s2"
        using w f1 f2 u1 smallD(1) [OF sm] smallD(2) [OF 1(2,3)] by (simp_all add: walk_pt_def split_entry_small)
      then show ?thesis using 1 2 True up p by auto
    next
      case u2: False
      then have 2: "extends s s2 R" "small s2 r v" "tab (pmem s2) r [?a, ?b] = Some u2" "\<not> allocate \<Longrightarrow> s2 = s1" "extends s1 s2 R"
        "allocate \<Longrightarrow> room s (Suc (Suc (Suc n))) \<Longrightarrow> room s2 (Suc n)" using 2 p 1(5) by simp_all
      note 3 = 3 [OF 2(1-3)]
      note W = f1 f2 f3 smallD(1) [OF sm] smallD(2) [OF 1(2,3)] smallD(3) [OF 2(2,3)]
      show ?thesis
      proof (cases "u3 = 0")
        case True
        then have "res = None" "s' = s3" using w W u1 u2 by (simp_all add: walk_pt_def split_entry_small)
        then show ?thesis using 1(4) 2(4,6) 3 True p by auto
      next
        case False
        then have 3: "extends s s3 R" "extends s2 s3 R" "tab (pmem s3) r [?a, ?b, ?c] = Some u3"
          "allocate \<Longrightarrow> room s (Suc (Suc (Suc n))) \<Longrightarrow> room s3 n" using 3 p 2(6) by simp_all
        have t: "tab (pmem s3) r [?a] = Some u1" "tab (pmem s3) r [?a, ?b] = Some u2"
          using extendsD(6) [OF 3(2) r, OF _ _ extendsD(6) [OF 2(5) r _ _ 1(3)]] extendsD(6) [OF 3(2) r _ _ 2(3)] by simp_all
        note U = extends_upper [OF extendsD(1) [OF 3(1)] r _ t 3(3)]
        have g: "extends s3 s' R" and res: "res = Some (cell u3 (idx 12 v), False)"
          using w W u1 u2 False U by (auto simp: walk_pt_def split_entry_small Let_def split: if_splits)
        have [simp]: "g_pmm (clear_nx e t) = g_pmm t" "g_pmm (set_user e t) = g_pmm t" for e and t :: "'a vmm_scheme"
          by (simp_all add: clear_nx_def set_user_def store_def)
        have pm: "g_pmm s' = g_pmm s3" using w W u1 u2 False by (auto simp: walk_pt_def split_entry_small Let_def)
        have "tab (pmem s') r [?a, ?b, ?c] = Some u3" using extendsD(6) [OF g r _ _ 3(3)] by simp
        then show ?thesis using extends_trans [OF 3(1) g] res 3(4) pm by (simp add: room_def)
      qed
    qed
  qed
  then show "extends s s' R"
    "res = Some (pte, split) \<Longrightarrow> \<exists>pt. tab (pmem s') r (take 3 (vpath v)) = Some pt \<and> pte = cell pt (idx 12 v)"
    "res = None \<Longrightarrow> \<not> allocate \<Longrightarrow> s' = s \<and> tab (pmem s) r (take 3 (vpath v)) = None" "allocate \<Longrightarrow> room s (Suc (Suc (Suc n))) \<Longrightarrow> res \<noteq> None \<and> room s' n"
    unfolding p by blast+
qed


section \<open>Leaf entries\<close>

definition leaf :: "u64 \<Rightarrow> (nat \<times> u64) option" where
  "leaf e = (if e AND VMM_PRESENT = 0 then None else Some (0, e))"

lemma leaf_store:
  fixes e :: u64
  assumes ok: "spaces_ok s R" and r: "r \<in> R" and p: "idxs p" "length p = 3" "tab (pmem s) r p = Some t" "i < 512"
  defines "s' \<equiv> store (cell t i) e s"
  shows "spaces_ok s' R"
    and "r' \<in> R \<Longrightarrow> idxs q \<Longrightarrow> length q = 4 \<Longrightarrow>
           mmu (pmem s') r' q = (if q = p @ [i] \<and> tab (pmem s) r' p = Some t then leaf e else mmu (pmem s) r' q)"
    and "r' \<in> R \<Longrightarrow> idxs q \<Longrightarrow> length q \<le> 3 \<Longrightarrow> tab (pmem s') r' q = tab (pmem s) r' q"
    and "table_page s' R a = table_page s R a" "\<not> table_page s R a \<Longrightarrow> pmem s' a = pmem s a"
proof -
  have m: "pmem s' = (pmem s)(cell t i := e)" "g_pmm s' = g_pmm s"
    by (simp_all add: s'_def store_def)
  have b: "busy s' a = busy s a" for a by (simp add: busy_def m)
  have p3: "length p \<le> 3" using p(2) by simp
  note sf = store_frame [OF ok r _ p(1) p3 p(3,4), where e = e, folded m(1)]
  have tabs: "tab (pmem s') r' q = tab (pmem s) r' q" if "r' \<in> R" "idxs q" "length q \<le> 3" for r' q
    by (rule sf(1)) (use that p(2) in \<open>auto dest: prefix_length_le\<close>)
  then show "r' \<in> R \<Longrightarrow> idxs q \<Longrightarrow> length q \<le> 3 \<Longrightarrow> tab (pmem s') r' q = tab (pmem s) r' q" .
  note I = extends_tabI [OF ok, of s', unfolded m(2) b, OF refl _ tabs]
  show "spaces_ok s' R" "table_page s' R a = table_page s R a" using I by simp_all
  have at: "aligned t" using spaces_okD(3) [OF ok r p(1) p3 p(3)] by simp
  show "pmem s' a = pmem s a" if "\<not> table_page s R a"
    using that table_page_cell [OF r p(1) p3 p(3) at p(4)] by (auto simp: m)
  show "mmu (pmem s') r' q = (if q = p @ [i] \<and> tab (pmem s) r' p = Some t then leaf e else mmu (pmem s) r' q)"
    if q: "r' \<in> R" "idxs q" "length q = 4"
  proof (cases "q = p @ [i] \<and> tab (pmem s) r' p = Some t")
    case True
    then have "tab (pmem s') r' p = Some t" using tabs [OF q(1) p(1) p3] by simp
    then have "mmu (pmem s') r' q = mmu (pmem s') t [i]" using True by (simp add: mmu_append)
    then show ?thesis using True by (simp add: m leaf_def)
  next
    case False
    have "mmu (pmem s') r' q = mmu (pmem s) r' q"
    proof (rule sf(2) [OF q(1,2)])
      assume "prefix (p @ [i]) q"
      then have "q = p @ [i]" using q(3) p(2) by (auto simp: prefix_def)
      then show "tab (pmem s) r' p \<noteq> Some t" using False by simp
    qed (use q in simp)
    then show ?thesis using False by auto
  qed
qed

lemma small_store:
  assumes ok: "spaces_ok s R" and r: "r \<in> R" "r' \<in> R" and t: "tab (pmem s) r (take 3 (vpath w)) = Some t" and sm: "small s r' v"
  shows "small (store (cell t (idx 12 w)) e s) r' v"
  unfolding small_def
proof (intro allI impI)
  fix q i x u
  assume q: "take 3 (vpath v) = q @ i # x" "tab (pmem (store (cell t (idx 12 w)) e s)) r' q = Some u"
  have w: "idxs (take 3 (vpath w))" "length (take 3 (vpath w)) = 3" by (simp_all add: vpath_def)
  have "idxs (q @ i # x)" "length (q @ i # x) = 3" unfolding q(1) [symmetric] by (simp_all add: vpath_def)
  then have l: "idxs q" "i < 512" "length q \<le> 2" by simp_all
  have u: "tab (pmem s) r' q = Some u"
    using leaf_store(3) [OF ok r(1) w t idx_less r(2) l(1)] q(2) l(3) by simp
  have "u \<noteq> t" using spaces_okD(4) [OF ok r(2,1) l(1) w(1) _ _ u] t l(3) w(2) by auto
  moreover have "aligned u" "aligned t"
    using spaces_okD(3) [OF ok r(2) l(1) _ u] spaces_okD(3) [OF ok r(1) w(1) _ t] l(3) w(2) by simp_all
  ultimately have "pmem (store (cell t (idx 12 w)) e s) (cell u i) = pmem s (cell u i)"
    using cell_eq_iff [of u t i "idx 12 w"] l(2) by (simp add: store_def)
  then show "pmem (store (cell t (idx 12 w)) e s) (cell u i) AND PTE_PS = 0" using sm q(1) u unfolding small_def by metis
qed

lemma mmu_leaf: "tab (pmem s) r (take 3 (vpath v)) = Some pt \<Longrightarrow> mmu (pmem s) r (vpath v) = leaf (pmem s (cell pt (idx 12 v)))"
proof -
  assume t: "tab (pmem s) r (take 3 (vpath v)) = Some pt"
  have "vpath v = take 3 (vpath v) @ [idx 12 v]" by (simp add: vpath_def)
  then have "mmu (pmem s) r (vpath v) = mmu (pmem s) pt [idx 12 v]" using mmu_append [OF t, of "[idx 12 v]"] by simp
  then show ?thesis by (simp add: leaf_def)
qed

lemma mmu_no_table: "small s r v \<Longrightarrow> tab (pmem s) r (take 3 (vpath v)) = None \<Longrightarrow> mmu (pmem s) r (vpath v) = None"
  using smallD [of s r v] by (auto simp: vpath_def mmu_step ptr_ok_def numeral_eq_Suc split: if_splits)

end
