(* ===== verification/Vmm_Props.thy ===== *)
theory Vmm_Props
  imports Vmm_Walk
begin

text \<open>
  The contract of the address-space operations. An address space is the function \<open>space\<close> from virtual addresses to the
  level and entry the hardware finds; the operations on one page change it at that page only.
\<close>

section \<open>Address spaces as functions\<close>

definition space :: "'a vmm_scheme \<Rightarrow> u64 \<Rightarrow> u64 \<Rightarrow> (nat \<times> u64) option" where
  "space s r v = mmu (pmem s) r (vpath v)"

definition same_page :: "u64 \<Rightarrow> u64 \<Rightarrow> bool" where
  "same_page v w \<longleftrightarrow> vpath v = vpath w"

definition user_half :: "u64 \<Rightarrow> bool" where
  "user_half v \<longleftrightarrow> idx 39 v < 256"

lemma length_vpath [simp]: "length (vpath v) = 4"
  by (simp add: vpath_def)

lemma vpath_split: "vpath v = take 3 (vpath v) @ [idx 12 v]"
  by (simp add: vpath_def)

lemma idxs_take_vpath [simp]: "idxs (take 3 (vpath v))" "length (take 3 (vpath v)) = 3"
  by (simp_all add: vpath_def)

lemma space_extends: "extends s s' R \<Longrightarrow> r \<in> R \<Longrightarrow> space s' r v = space s r v"
  using extendsD(2) [of s s' R] by (simp add: space_def same_mmu_def)

text \<open>Storing a leaf entry for one address.\<close>

lemma space_store:
  assumes ok: "spaces_ok s R" and r: "r \<in> R" and t: "tab (pmem s) r (take 3 (vpath v)) = Some pt"
  shows "spaces_ok (store (cell pt (idx 12 v)) e s) R"
    and "space (store (cell pt (idx 12 v)) e s) r w = (if same_page w v then leaf e else space s r w)"
    and "r' \<in> R \<Longrightarrow> r' \<noteq> r \<Longrightarrow> user_half w \<Longrightarrow> space (store (cell pt (idx 12 v)) e s) r' w = space s r' w"
proof -
  note L = leaf_store [OF ok r _ _ t, where i = "idx 12 v" and e = e, simplified]
  show "spaces_ok (store (cell pt (idx 12 v)) e s) R" by (rule L(1))
  show "space (store (cell pt (idx 12 v)) e s) r w = (if same_page w v then leaf e else space s r w)"
    using L(2) [where r' = r and q = "vpath w"] r t vpath_split [of v] by (simp add: space_def same_page_def)
  show "space (store (cell pt (idx 12 v)) e s) r' w = space s r' w" if w: "r' \<in> R" "r' \<noteq> r" "user_half w"
  proof -
    have "\<not> (vpath w = take 3 (vpath v) @ [idx 12 v] \<and> tab (pmem s) r' (take 3 (vpath v)) = Some pt)"
      using spaces_okD(4) [OF ok w(1) r, of "take 3 (vpath v)" "take 3 (vpath v)" pt] t w
      by (auto simp: kernel_path_def user_half_def vpath_def)
    then show ?thesis using L(2) [where r' = r' and q = "vpath w"] w(1) by (auto simp: space_def)
  qed
qed

section \<open>Giving a frame back\<close>

lemma busy_free: "busy s a \<Longrightarrow> page_no a \<noteq> page_no f \<Longrightarrow> busy (free_frame f s) a"
  by (auto simp: free_frame_def busy_def pmm_free_frame_def page_no_def Let_def)

lemma free_frame_simps [simp]:
  "pmem (free_frame f s) = pmem s" "pm_total_frames (g_pmm (free_frame f s)) = pm_total_frames (g_pmm s)"
  by (simp_all add: free_frame_def pmm_free_frame_def Let_def)

lemma room_free: "page_no f \<noteq> 0 \<Longrightarrow> room s n \<Longrightarrow> room (free_frame f s) n"
proof -
  assume f: "page_no f \<noteq> 0" and r: "room s n"
  let ?A = "free_frames (g_pmm s)" and ?B = "free_frames (g_pmm (free_frame f s))"
  have "?A \<subseteq> ?B" "?B \<subseteq> insert (page_no f) ?A"
    by (auto simp: free_frames_def free_frame_def pmm_free_frame_def page_no_def Let_def split: if_splits)
  moreover have "finite ?B" by (simp add: free_frames_def)
  ultimately have "card ?A \<le> card ?B" "0 \<notin> ?A \<longrightarrow> 0 \<notin> ?B" using f by (auto intro: card_mono)
  then show ?thesis using r by (auto simp: room_def)
qed

section \<open>A small machine\<close>

text \<open>Sixteen frames, three of them in use; the second is the root table, with no entry that points to a table, the third holds data.\<close>

definition sample_pool :: pmm where
  "sample_pool = \<lparr>pm_bitmap = (\<lambda>i. if i = 0 then 7 else 0), pm_total_frames = 16, pm_allocated_frames = 3, pm_hhdm_offset = 0, pm_last_hint = 3\<rparr>"

definition sample_vmm :: vmm where
  "sample_vmm = \<lparr>g_pmm = sample_pool, pmem = (\<lambda>_. 0), g_cr3 = 4096, g_root_cr3 = 4096, g_mmio_next = VMM_MMIO_BASE\<rparr>"

lemma sample_pool_free: "frame_is_free (pm_bitmap sample_pool) i \<longleftrightarrow> i \<ge> 3"
proof -
  have "bit (7 :: 8 word) n \<longleftrightarrow> n < 3" for n
    using bit_mask_iff [of 3 n, where 'a = "8 word"] by (auto simp: mask_eq_exp_minus_1)
  then have "frame_is_free (pm_bitmap sample_pool) i \<longleftrightarrow> \<not> (i div 8 = 0 \<and> i mod 8 < 3)"
    by (simp add: frame_is_free_bit sample_pool_def)
  then show ?thesis by auto
qed

lemma sample_pool_total [simp]: "pm_total_frames sample_pool = 16"
  by (simp add: sample_pool_def)

lemma tab_flat: "(\<And>j. j < 512 \<Longrightarrow> \<not> ptr_ok (m (cell r j))) \<Longrightarrow> idxs p \<Longrightarrow> tab m r p = (if p = [] then Some r else None)"
  by (cases p) auto

lemma sample_ok:
  assumes "g_pmm s = sample_pool" "\<And>j. j < 512 \<Longrightarrow> \<not> ptr_ok (pmem s (cell 4096 j))"
  shows "spaces_ok s {4096}"
proof -
  have "page_no 4096 = 1" by (simp add: page_no_def)
  then show ?thesis using assms tab_flat [of "pmem s" 4096, OF assms(2)]
    by (auto simp: spaces_ok_def aligned_def busy_def sample_pool_free split: if_splits)
qed

lemma sample_room: "g_pmm s = sample_pool \<Longrightarrow> n \<le> 13 \<Longrightarrow> room s n"
proof -
  assume n: "n \<le> 13" and "g_pmm s = sample_pool"
  then have f: "free_frames (g_pmm s) = {3..<16}" by (auto simp: free_frames_def sample_pool_free)
  show ?thesis using n unfolding room_def f by simp
qed

lemma sample_vmm_ok: "spaces_ok sample_vmm {4096}" "small sample_vmm r v" "n \<le> 13 \<Longrightarrow> room sample_vmm n" "space sample_vmm r v = None"
  by (auto intro!: sample_ok sample_room simp: sample_vmm_def ptr_ok_def small_def space_def vpath_def)

section \<open>Mapping\<close>

lemma leaf_present [simp]: "leaf (x OR y OR VMM_PRESENT) = Some (0, x OR y OR VMM_PRESENT)" "leaf 0 = None"
  by (simp_all add: leaf_def word_ao_dist)

lemma map_page_in_spec:
  assumes ok: "spaces_ok s R" and r: "r \<in> R" and sm: "small s r virt"
    and m: "vmm_map_page_in s r virt phys flags = (rc, s')"
  obtains (fail) "rc = - 1" "extends s s' R" "virt AND 0xFFF = 0 \<Longrightarrow> phys AND 0xFFF = 0 \<Longrightarrow> \<not> room s 3"
  | (mapped) s1 pt where "rc = 0" "extends s s1 R" "tab (pmem s1) r (take 3 (vpath virt)) = Some pt" 
      "s' = store (cell pt (idx 12 virt)) ((phys AND PTE_ADDR_MASK) OR flags OR VMM_PRESENT) s1"
      "virt AND 0xFFF = 0" "phys AND 0xFFF = 0" "\<And>n. room s (Suc (Suc (Suc n))) \<Longrightarrow> room s' n"
proof (cases "virt AND (PAGE_SIZE - 1) \<noteq> 0 \<or> phys AND (PAGE_SIZE - 1) \<noteq> 0")
  case True
  then show thesis using m fail extends_refl [OF ok] by (simp add: vmm_map_page_in_def)
next
  case False
  obtain res s1 where w: "walk_pt s r virt True (flags AND VMM_USER \<noteq> 0) = (res, s1)"
    by (cases "walk_pt s r virt True (flags AND VMM_USER \<noteq> 0)")
  note W = walk_pt_extends [OF ok r sm w]
  show thesis
  proof (cases res)
    case None
    then show thesis using m False w fail W(1,4) by (auto simp: vmm_map_page_in_def numeral_eq_Suc)
  next
    case (Some x)
    then obtain pt where "tab (pmem s1) r (take 3 (vpath virt)) = Some pt" "fst x = cell pt (idx 12 virt)"
      using W(2) [of "fst x" "snd x"] by auto
    then show thesis using m False w mapped W(1,4) Some by (cases x) (auto simp: vmm_map_page_in_def store_def room_def)
  qed
qed

lemma map_page_in_space:
  assumes "spaces_ok s R" "r \<in> R" "small s r virt" "vmm_map_page_in s r virt phys flags = (rc, s')"
  shows "spaces_ok s' R"
    and "rc = 0 \<Longrightarrow> space s' r v = (if same_page v virt then Some (0, (phys AND PTE_ADDR_MASK) OR flags OR VMM_PRESENT) else space s r v)"
    and "rc = 0 \<Longrightarrow> r' \<in> R \<Longrightarrow> r' \<noteq> r \<Longrightarrow> user_half v \<Longrightarrow> space s' r' v = space s r' v"
    and "rc \<noteq> 0 \<Longrightarrow> r' \<in> R \<Longrightarrow> space s' r' v = space s r' v" and "rc = 0 \<or> rc = - 1"
    and "virt AND 0xFFF = 0 \<Longrightarrow> phys AND 0xFFF = 0 \<Longrightarrow> room s 3 \<Longrightarrow> rc = 0"
    and "r' \<in> R \<Longrightarrow> small s r' v \<Longrightarrow> small s' r' v"
    and "g_cr3 s' = g_cr3 s" "g_root_cr3 s' = g_root_cr3 s" "rc = 0 \<Longrightarrow> room s (Suc (Suc (Suc n))) \<Longrightarrow> room s' n"
proof -
  have "spaces_ok s' R \<and> (rc = 0 \<longrightarrow> space s' r v = (if same_page v virt then Some (0, (phys AND PTE_ADDR_MASK) OR flags OR VMM_PRESENT) else space s r v)) \<and>
    (rc = 0 \<longrightarrow> r' \<in> R \<longrightarrow> r' \<noteq> r \<longrightarrow> user_half v \<longrightarrow> space s' r' v = space s r' v) \<and>
    (rc \<noteq> 0 \<longrightarrow> r' \<in> R \<longrightarrow> space s' r' v = space s r' v) \<and> (rc = 0 \<or> rc = - 1) \<and>
    (virt AND 0xFFF = 0 \<longrightarrow> phys AND 0xFFF = 0 \<longrightarrow> room s 3 \<longrightarrow> rc = 0) \<and> (r' \<in> R \<longrightarrow> small s r' v \<longrightarrow> small s' r' v) \<and>
    g_cr3 s' = g_cr3 s \<and> g_root_cr3 s' = g_root_cr3 s \<and> (rc = 0 \<longrightarrow> room s (Suc (Suc (Suc n))) \<longrightarrow> room s' n)" for v r'
  proof (cases rule: map_page_in_spec [OF assms])
    case 1
    then show ?thesis using space_extends [OF 1(2)] extendsD(1,3,4) [OF 1(2)] small_extends [OF _ 1(2)] by auto
  next
    case (2 s1 pt)
    note S = space_store [OF extendsD(1) [OF 2(2)] assms(2) 2(3), where e = "(phys AND PTE_ADDR_MASK) OR flags OR VMM_PRESENT", folded 2(4)]
    note M = small_store [OF extendsD(1) [OF 2(2)] assms(2) _ 2(3), where e = "(phys AND PTE_ADDR_MASK) OR flags OR VMM_PRESENT", folded 2(4)]
    have "g_cr3 s' = g_cr3 s" "g_root_cr3 s' = g_root_cr3 s" using extendsD(3,4) [OF 2(2)] by (simp_all add: 2(4) store_def)
    then show ?thesis using S M small_extends [OF _ 2(2)] space_extends [OF 2(2)] assms(2) 2(7) by (simp add: 2(1))
  qed
  note all = this
  show "spaces_ok s' R" "rc = 0 \<or> rc = - 1" "virt AND 0xFFF = 0 \<Longrightarrow> phys AND 0xFFF = 0 \<Longrightarrow> room s 3 \<Longrightarrow> rc = 0"
    "g_cr3 s' = g_cr3 s" "g_root_cr3 s' = g_root_cr3 s" "rc = 0 \<Longrightarrow> room s (Suc (Suc (Suc n))) \<Longrightarrow> room s' n" using all by blast+
  show "rc = 0 \<Longrightarrow> space s' r v = (if same_page v virt then Some (0, (phys AND PTE_ADDR_MASK) OR flags OR VMM_PRESENT) else space s r v)"
    "rc = 0 \<Longrightarrow> r' \<in> R \<Longrightarrow> r' \<noteq> r \<Longrightarrow> user_half v \<Longrightarrow> space s' r' v = space s r' v"
    "rc \<noteq> 0 \<Longrightarrow> r' \<in> R \<Longrightarrow> space s' r' v = space s r' v" "r' \<in> R \<Longrightarrow> small s r' v \<Longrightarrow> small s' r' v"
    using all [of v r'] by simp_all
qed

lemma map_page_in_data:
  assumes "spaces_ok s R" "r \<in> R" "small s r virt" "vmm_map_page_in s r virt phys flags = (rc, s')" "busy s a" "\<not> table_page s R a"
  shows "busy s' a" "\<not> table_page s' R a" "pmem s' a = pmem s a"
proof -
  have "busy s' a \<and> \<not> table_page s' R a \<and> pmem s' a = pmem s a"
  proof (cases rule: map_page_in_spec [OF assms(1-4)])
    case 1
    then show ?thesis using extendsD(5,8) [OF 1(2) assms(5)] assms(6) by simp
  next
    case (2 s1 pt)
    note L = leaf_store(4,5) [OF extendsD(1) [OF 2(2)] assms(2) idxs_take_vpath 2(3) idx_less [of 12 virt],
      where e = "(phys AND PTE_ADDR_MASK) OR flags OR VMM_PRESENT", folded 2(4)]
    have "busy s' a = busy s1 a" by (simp add: 2(4) store_def busy_def)
    then show ?thesis using extendsD(5,8) [OF 2(2) assms(5)] assms(6) L by simp
  qed
  then show "busy s' a" "\<not> table_page s' R a" "pmem s' a = pmem s a" by blast+
qed

text \<open>C3. Mapping a page. On success the page has the requested entry, every other page of the space keeps its translation, and so
  does the user half of every other address space; on failure no translation changes. The invariant of the tables
  holds in both cases, and the call succeeds for page-aligned addresses when three frames are free.\<close>

theorem vmm_map_page_in_updates:
  assumes "spaces_ok s R" "r \<in> R" "small s r virt" "vmm_map_page_in s r virt phys flags = (rc, s')"
  shows "spaces_ok s' R \<and>
    (if rc = 0 then
       (\<forall>v. space s' r v = (if same_page v virt then Some (0, (phys AND PTE_ADDR_MASK) OR flags OR VMM_PRESENT) else space s r v)) \<and>
       (\<forall>r' v. r' \<in> R \<and> r' \<noteq> r \<and> user_half v \<longrightarrow> space s' r' v = space s r' v)
     else rc = - 1 \<and> (\<forall>r' v. r' \<in> R \<longrightarrow> space s' r' v = space s r' v)) \<and>
    (virt AND 0xFFF = 0 \<and> phys AND 0xFFF = 0 \<and> room s 3 \<longrightarrow> rc = 0)"
  using map_page_in_space [OF assms] by auto

definition sample_map_call :: "int \<times> vmm" where
  "sample_map_call = vmm_map_page_in sample_vmm 4096 0x400000 0x2000 7"

lemma sample_pages: "same_page 0x400000 0x400000" "\<not> same_page 0x401000 0x400000"
  by (simp_all add: same_page_def vpath_def idx_def)

theorem vmm_map_page_in_updates_witness:
  "spaces_ok (snd sample_map_call) {4096} \<and> fst sample_map_call = 0 \<and>
   space (snd sample_map_call) 4096 0x400000 = Some (0, 0x2007) \<and> space (snd sample_map_call) 4096 0x401000 = None"
proof -
  have c: "vmm_map_page_in sample_vmm 4096 0x400000 0x2000 7 = (fst sample_map_call, snd sample_map_call)"
    by (simp add: sample_map_call_def)
  show ?thesis
    using vmm_map_page_in_updates [OF sample_vmm_ok(1) _ sample_vmm_ok(2) c] sample_vmm_ok(3,4) sample_pages by simp
qed

lemma sample_mapped:
  "spaces_ok (snd sample_map_call) {4096}" "small (snd sample_map_call) 4096 v"
  "space (snd sample_map_call) 4096 v = (if same_page v 0x400000 then Some (0, 0x2007) else None)"
  "n \<le> 10 \<Longrightarrow> room (snd sample_map_call) n" "g_root_cr3 (snd sample_map_call) = 4096"
  "busy (snd sample_map_call) 0x2000" "\<not> table_page (snd sample_map_call) {4096} 0x2000"
proof -
  have c: "vmm_map_page_in sample_vmm 4096 0x400000 0x2000 7 = (fst sample_map_call, snd sample_map_call)"
    by (simp add: sample_map_call_def)
  note M = map_page_in_space [OF sample_vmm_ok(1) _ sample_vmm_ok(2) c]
  show "spaces_ok (snd sample_map_call) {4096}" "small (snd sample_map_call) 4096 v"
    "space (snd sample_map_call) 4096 v = (if same_page v 0x400000 then Some (0, 0x2007) else None)"
    using M sample_vmm_ok(2-4) by simp_all
  show "n \<le> 10 \<Longrightarrow> room (snd sample_map_call) n" using M(6,10) sample_vmm_ok(3) by simp
  show "g_root_cr3 (snd sample_map_call) = 4096" using M(9) by (simp add: sample_vmm_def)
  have "idxs p \<Longrightarrow> tab (pmem sample_vmm) 4096 p = (if p = [] then Some 4096 else None)" for p
    by (rule tab_flat) (simp_all add: sample_vmm_def ptr_ok_def)
  then have "busy sample_vmm 0x2000" "\<not> table_page sample_vmm {4096} 0x2000"
    by (auto simp: busy_def sample_vmm_def sample_pool_free page_no_def table_page_def)
  then show "busy (snd sample_map_call) 0x2000" "\<not> table_page (snd sample_map_call) {4096} 0x2000"
    using map_page_in_data [OF sample_vmm_ok(1) _ sample_vmm_ok(2) c] by simp_all
qed

text \<open>Unmapping a page removes its translation and no other.\<close>

theorem vmm_unmap_page_in_removes:
  assumes "spaces_ok s R" "r \<in> R" "small s r virt"
  shows "spaces_ok (vmm_unmap_page_in s r virt) R \<and>
    (\<forall>v. space (vmm_unmap_page_in s r virt) r v = (if same_page v virt then None else space s r v)) \<and>
    (\<forall>r' v. r' \<in> R \<and> r' \<noteq> r \<and> user_half v \<longrightarrow> space (vmm_unmap_page_in s r virt) r' v = space s r' v)"
proof -
  obtain res s1 where w: "walk_pt s r virt False False = (res, s1)" by (cases "walk_pt s r virt False False")
  note W = walk_pt_extends [OF assms w]
  show ?thesis
  proof (cases res)
    case None
    then have "space s r virt = None" "vmm_unmap_page_in s r virt = s"
      using W(3) w mmu_no_table [OF assms(3)] by (simp_all add: space_def vmm_unmap_page_in_def)
    then show ?thesis using assms(1) by (simp add: space_def same_page_def)
  next
    case (Some x)
    then obtain pt where pt: "tab (pmem s1) r (take 3 (vpath virt)) = Some pt" "fst x = cell pt (idx 12 virt)"
      using W(2) [of "fst x" "snd x"] by auto
    then have u: "vmm_unmap_page_in s r virt = store (cell pt (idx 12 virt)) 0 s1"
      using Some w by (cases x) (simp add: vmm_unmap_page_in_def)
    show ?thesis
      using space_store [OF extendsD(1) [OF W(1)] assms(2) pt(1), where e = 0] space_extends [OF W(1)] assms(2) unfolding u by simp
  qed
qed

theorem vmm_unmap_page_in_removes_witness:
  "space (snd sample_map_call) 4096 0x400000 = Some (0, 0x2007) \<and> space (vmm_unmap_page_in (snd sample_map_call) 4096 0x400000) 4096 0x400000 = None"
  using vmm_unmap_page_in_removes [OF sample_mapped(1) _ sample_mapped(2), of "0x400000"] sample_mapped(3) sample_pages by simp

text \<open>Translating an address gives the frame of the hardware's walk with the offset of the address, 0 when there is
  no mapping; the walk itself changes no translation.\<close>

theorem vmm_translate_in_refines:
  assumes "spaces_ok s R" "r \<in> R" "small s r virt" "vmm_translate_in s r virt = (phys, s')"
  shows "phys = (case space s r virt of None \<Rightarrow> 0 | Some (level, e) \<Rightarrow> (e AND PTE_ADDR_MASK) OR (virt AND 0xFFF)) \<and>
    spaces_ok s' R \<and> (\<forall>r' v. r' \<in> R \<longrightarrow> space s' r' v = space s r' v)"
proof -
  obtain res s1 where w: "walk_pt s r virt False False = (res, s1)" by (cases "walk_pt s r virt False False")
  note W = walk_pt_extends [OF assms(1-3) w]
  show ?thesis
  proof (cases res)
    case None
    then have "space s r virt = None" "phys = 0" "s' = s"
      using W(3) w assms(4) mmu_no_table [OF assms(3)] by (simp_all add: space_def vmm_translate_in_def)
    then show ?thesis using assms(1) by simp
  next
    case (Some x)
    then obtain pt where pt: "tab (pmem s1) r (take 3 (vpath virt)) = Some pt" "fst x = cell pt (idx 12 virt)"
      using W(2) [of "fst x" "snd x"] by auto
    have l: "space s r virt = leaf (pmem s1 (cell pt (idx 12 virt)))" "s' = s1"
      using mmu_leaf [OF pt(1)] space_extends [OF W(1) assms(2)] assms(4) Some w
      by (cases x; simp add: space_def vmm_translate_in_def split: if_splits)+
    then show ?thesis
      using assms(4) Some w pt(2) extendsD(1) [OF W(1)] space_extends [OF W(1)]
      by (cases x) (simp add: vmm_translate_in_def leaf_def split: if_splits)
  qed
qed


lemma sample_same_page: "same_page 0x400123 0x400000"
  by (simp add: same_page_def vpath_def idx_def)

theorem vmm_translate_in_refines_witness:
  "fst (vmm_translate_in (snd sample_map_call) 4096 0x400123) = 0x2123 \<and> fst (vmm_translate_in (snd sample_map_call) 4096 0x401000) = 0"
proof -
  note T = vmm_translate_in_refines [OF sample_mapped(1) _ sample_mapped(2) prod.collapse [symmetric]]
  show ?thesis using T [of "0x400123"] T [of "0x401000"] sample_mapped(3) sample_pages sample_same_page by simp
qed

section \<open>Splitting a large page\<close>

lemma fill_loop:
  assumes "aligned z" "set xs \<subseteq> {..<512}"
  shows "\<exists>m. fold (\<lambda>i. store (cell z i) (g i)) xs s = s\<lparr>pmem := m\<rparr> \<and> (\<forall>a. page_no a \<noteq> page_no z \<longrightarrow> m a = pmem s a)"
  using assms(2)
proof (induction xs arbitrary: s)
  case Nil
  show ?case by (rule exI [of _ "pmem s"]) simp
next
  case (Cons i xs)
  define m1 where "m1 = (pmem s)(cell z i := g i)"
  have "store (cell z i) (g i) s = s\<lparr>pmem := m1\<rparr>" by (simp add: store_def m1_def)
  moreover obtain m where "fold (\<lambda>i. store (cell z i) (g i)) xs (s\<lparr>pmem := m1\<rparr>) = s\<lparr>pmem := m1\<rparr>\<lparr>pmem := m\<rparr>"
      "\<forall>a. page_no a \<noteq> page_no z \<longrightarrow> m a = m1 a"
    using Cons.IH [of "s\<lparr>pmem := m1\<rparr>"] Cons.prems by auto
  moreover have "m1 a = pmem s a" if "page_no a \<noteq> page_no z" for a
    using that assms(1) Cons.prems by (auto simp: m1_def)
  ultimately show ?case by (intro exI [of _ m]) simp
qed

lemma split_entry_spec:
  assumes ok: "spaces_ok s R" and e: "pmem s entry AND PTE_PS \<noteq> 0" "busy s entry" and sp: "split_entry s entry step extra = (Some b, s')"
  obtains z s3 where "z \<noteq> 0" "aligned z" "z AND PTE_ADDR_MASK = z" "\<not> busy s z" "extends s s3 R" "s' = store entry (z OR (pmem s entry AND 0xFFF)) s3"
proof -
  define g where "g i = ((pmem s entry AND PTE_ADDR_MASK) + of_nat i * step) OR ((pmem s entry AND SPLIT_FLAGS_MASK) OR extra)" for i
  obtain z s1 where al: "alloc_frame s = (z, s1)" by (cases "alloc_frame s")
  note a = alloc_frame_spec [OF al spaces_ok_total [OF ok]]
  define s3 where "s3 = fold (\<lambda>i. store (cell z i) (g i)) [0..<512] (zero_frame z s1)"
  have z0: "z \<noteq> 0" and s': "s' = store entry (z OR (pmem s3 entry AND 0xFFF)) s3"
    using sp e(1) al unfolding split_entry_def s3_def g_def by (auto simp: Let_def simp del: upt_rec_numeral split: if_splits)
  have z: "aligned z" "z AND PTE_ADDR_MASK = z" "\<not> busy s z" using a(7) z0 by simp_all
  have "set [0..<512] \<subseteq> {..<512 :: nat}" unfolding set_upt by auto
  then obtain m where m: "s3 = (zero_frame z s1)\<lparr>pmem := m\<rparr>" "\<forall>a. page_no a \<noteq> page_no z \<longrightarrow> m a = pmem (zero_frame z s1) a"
    using fill_loop [OF z(1)] unfolding s3_def by blast
  have "extends s s3 R"
    by (rule extends_page [OF ok z(3)]; use m a in \<open>auto simp: zero_frame_def busy_def\<close>)
  moreover have "page_no entry \<noteq> page_no z" using e(2) z(3) by (auto simp: busy_def)
  then have "pmem s3 entry = pmem s entry" using m a(1) by (simp add: zero_frame_def)
  ultimately show thesis using that z z0 s' by simp
qed

text \<open>Splitting a large page keeps the page-size bit in the entry that is made to point to the new table: the hardware
  still finds a large page there, now at the physical address of the page table.\<close>

theorem split_entry_stays_large:
  assumes ok: "spaces_ok s R" and r: "r \<in> R" and p: "idxs (p @ [i])" "length p \<le> 2" "tab (pmem s) r p = Some t"
    and e: "pmem s (cell t i) AND VMM_PRESENT \<noteq> 0" "pmem s (cell t i) AND PTE_PS \<noteq> 0"
    and sp: "split_entry s (cell t i) step extra = (Some b, s')"
  shows "\<exists>z. \<not> busy s z \<and> (\<forall>w. length (p @ i # w) = 4 \<longrightarrow> mmu (pmem s') r (p @ i # w) = Some (length w, z OR (pmem s (cell t i) AND 0xFFF)))"
proof -
  have p': "idxs p" "i < 512" "length p \<le> 3" using p by simp_all
  have t: "aligned t" "busy s t" using spaces_okD(3) [OF ok r p'(1,3) p(3)] by simp_all
  then have "busy s (cell t i)" using p'(2) by (simp add: busy_def)
  then obtain z s3 where z: "z \<noteq> 0" "aligned z" "z AND PTE_ADDR_MASK = z" "\<not> busy s z" "extends s s3 R"
      "s' = store (cell t i) (z OR (pmem s (cell t i) AND 0xFFF)) s3"
    using split_entry_spec [OF ok e(2) _ sp] by metis
  let ?e = "z OR (pmem s (cell t i) AND 0xFFF)"
  have "tab (pmem s3) r p = Some t" using extendsD(6) [OF z(5) r p'(1,3) p(3)] .
  then have t': "tab (pmem s') r p = Some t"
    using store_frame(1) [OF extendsD(1) [OF z(5)] r r p'(1,3) _ p'(2) p'(1), of t ?e] p'(3) by (auto simp: z(6) store_def dest: prefix_length_le)
  have "?e AND VMM_PRESENT \<noteq> 0" "?e AND PTE_PS \<noteq> 0"
    using e by (simp_all add: word_ao_dist and.assoc or_eq_0_iff)
  moreover have "pmem s' (cell t i) = ?e" by (simp add: z(6) store_def)
  ultimately have "mmu (pmem s') r (p @ i # w) = Some (length w, ?e)" if "length (p @ i # w) = 4" for w
    using that p(2) mmu_append [OF t', of "i # w"] by (cases "w = []") (simp_all add: mmu_step)
  then show ?thesis using z(4) by blast
qed

definition sample_large :: vmm where
  "sample_large = sample_vmm\<lparr>pmem := (\<lambda>_. 0)(4096 := 0x200083)\<rparr>"

lemma sample_large_split: "\<exists>s'. split_entry sample_large (cell 4096 0) 0x40000000 0 = (Some True, s')"
proof -
  obtain z s1 where al: "alloc_frame sample_large = (z, s1)" by (cases "alloc_frame sample_large")
  have "room sample_large 3" by (rule sample_room) (simp_all add: sample_large_def sample_vmm_def)
  then have "room sample_large (Suc 2)" by simp
  then have "z \<noteq> 0" using alloc_room [OF al, of 2] by (simp add: sample_large_def sample_vmm_def)
  moreover have "pmem sample_large (cell 4096 0) AND PTE_PS \<noteq> 0" by (simp add: sample_large_def cell_def)
  ultimately show ?thesis unfolding split_entry_def Let_def al by (simp only: if_False prod.case) blast
qed

theorem split_entry_stays_large_witness:
  "\<exists>s' z. split_entry sample_large (cell 4096 0) 0x40000000 0 = (Some True, s') \<and> \<not> busy sample_large z \<and>
     mmu (pmem s') 4096 [0, 1, 2, 3] = Some (3, z OR 0x83)"
proof -
  obtain s' where s': "split_entry sample_large (cell 4096 0) 0x40000000 0 = (Some True, s')" using sample_large_split by blast
  have ok: "spaces_ok sample_large {4096}"
    by (rule sample_ok) (auto simp: sample_large_def sample_vmm_def ptr_ok_def)
  have "\<exists>z. \<not> busy sample_large z \<and> (\<forall>w. length ([] @ 0 # w) = 4 \<longrightarrow> mmu (pmem s') 4096 ([] @ 0 # w) = Some (length w, z OR (pmem sample_large (cell 4096 0) AND 0xFFF)))"
    by (rule split_entry_stays_large [OF ok, where t = 4096 and b = True, OF _ _ _ _ _ _ s'])
      (simp_all add: sample_large_def cell_def)
  then obtain z where z: "\<not> busy sample_large z" "\<And>w. length ([] @ 0 # w) = 4 \<Longrightarrow>
      mmu (pmem s') 4096 ([] @ 0 # w) = Some (length w, z OR (pmem sample_large (cell 4096 0) AND 0xFFF))" by blast
  have "mmu (pmem s') 4096 [0, 1, 2, 3] = Some (3, z OR 0x83)" using z(2) [of "[1, 2, 3]"] by (simp add: sample_large_def cell_def)
  then show ?thesis using s' z(1) by blast
qed

section \<open>Cloning\<close>

lemma clone_loop:
  assumes z: "aligned z" "aligned root" "z \<noteq> root" and xs: "distinct xs" "set xs \<subseteq> {..<512}"
  defines "f \<equiv> \<lambda>i s. store (cell z i) (pmem s (cell root i)) s"
  shows "\<exists>m. fold f xs s = s\<lparr>pmem := m\<rparr> \<and> (\<forall>j < 512. m (cell z j) = (if j \<in> set xs then pmem s (cell root j) else pmem s (cell z j))) \<and>
    (\<forall>a. page_no a \<noteq> page_no z \<longrightarrow> m a = pmem s a)"
  using xs
proof (induction xs arbitrary: s)
  case Nil
  show ?case by (rule exI [of _ "pmem s"]) simp
next
  case (Cons i xs)
  define m1 where "m1 = (pmem s)(cell z i := pmem s (cell root i))"
  have "f i s = s\<lparr>pmem := m1\<rparr>" by (simp add: f_def store_def m1_def)
  moreover obtain m where m: "fold f xs (s\<lparr>pmem := m1\<rparr>) = s\<lparr>pmem := m1\<rparr>\<lparr>pmem := m\<rparr>"
      "\<forall>j < 512. m (cell z j) = (if j \<in> set xs then m1 (cell root j) else m1 (cell z j))"
      "\<forall>a. page_no a \<noteq> page_no z \<longrightarrow> m a = m1 a"
    using Cons.IH [of "s\<lparr>pmem := m1\<rparr>"] Cons.prems by auto
  moreover have "m1 (cell root j) = pmem s (cell root j)" "m1 (cell z j) = (if j = i then pmem s (cell root j) else pmem s (cell z j))"
    if "j < 512" for j
    using cell_eq_iff [of root z j i] cell_eq_iff [of z z j i] z that Cons.prems(2) by (simp_all add: m1_def)
  moreover have "m1 a = pmem s a" if "page_no a \<noteq> page_no z" for a
    using that z(1) Cons.prems(2) by (auto simp: m1_def)
  ultimately show ?case using Cons.prems(1) by (intro exI [of _ m]) auto
qed


lemma clone_spec:
  assumes ok: "spaces_ok s R" and r: "g_root_cr3 s \<in> R" and c: "vmm_space_clone s = (z, s')" "z \<noteq> 0"
  shows "extends s s' R" "\<not> busy s z" "busy s' z" "aligned z"
    and "\<not> table_page s' R z" "j < 512 \<Longrightarrow> pmem s' (cell z j) = (if j < 256 then 0 else pmem s' (cell (g_root_cr3 s) j))"
proof -
  define xs :: "nat list" where "xs = [256..<512]"
  have xs: "distinct xs" "set xs = {256..<512}" "set xs \<subseteq> {..<512}"
    unfolding xs_def set_upt by (rule distinct_upt, rule refl, fastforce)
  obtain s1 where al: "alloc_frame s = (z, s1)" and s': "s' = fold (\<lambda>i s. store (cell z i) (pmem s (cell (g_root_cr3 s) i)) s) xs (zero_frame z s1)"
    using c unfolding vmm_space_clone_def xs_def [symmetric] by (auto split: prod.splits if_splits)
  note a = alloc_frame_spec [OF al spaces_ok_total [OF ok]]
  have zz: "aligned z" "\<not> busy s z" "busy s1 z" using a(7) c(2) by simp_all
  then show "aligned z" "\<not> busy s z" by simp_all
  have root: "aligned (g_root_cr3 s)" "busy s (g_root_cr3 s)" using spaces_okD(2) [OF ok r] spaces_okD(3) [OF ok r, of "[]"] by simp_all
  then have ne: "z \<noteq> g_root_cr3 s" "page_no (g_root_cr3 s) \<noteq> page_no z" using zz by (auto simp: busy_def)
  have loop: "fold (\<lambda>i s. store (cell z i) (pmem s (cell (g_root_cr3 s) i)) s) ys t = fold (\<lambda>i s'. store (cell z i) (pmem s' (cell (g_root_cr3 s) i)) s') ys t"
    if "g_root_cr3 t = g_root_cr3 s" for ys t using that by (induction ys arbitrary: t) (simp_all add: store_def)
  have "g_root_cr3 (zero_frame z s1) = g_root_cr3 s" by (simp add: zero_frame_def a)
  note s'' = s' [unfolded loop [OF this]]
  obtain m where m: "s' = (zero_frame z s1)\<lparr>pmem := m\<rparr>"
      "\<forall>j < 512. m (cell z j) = (if j \<in> set xs then pmem (zero_frame z s1) (cell (g_root_cr3 s) j) else pmem (zero_frame z s1) (cell z j))"
      "\<forall>a. page_no a \<noteq> page_no z \<longrightarrow> m a = pmem (zero_frame z s1) a"
    using clone_loop [OF zz(1) root(1) ne(1) xs(1,3), where s = "zero_frame z s1"] unfolding s'' by blast
  have off: "pmem s' a = pmem s a" if "page_no a \<noteq> page_no z" for a using m that a by (simp add: zero_frame_def)
  show "extends s s' R" "\<not> table_page s' R z"
    by (rule extends_page [OF ok zz(2) off]; use m(1) a in \<open>auto simp: zero_frame_def busy_def\<close>)+
  show "busy s' z" using m(1) zz(3) by (simp add: busy_def zero_frame_def)
  show "j < 512 \<Longrightarrow> pmem s' (cell z j) = (if j < 256 then 0 else pmem s' (cell (g_root_cr3 s) j))"
    using m zz(1) root(1) ne xs(2) by (simp add: zero_frame_def)
qed

text \<open>What a new root reads: the tables of the kernel half of the old one.\<close>

lemma clone_walk:
  assumes "\<And>j. j < 512 \<Longrightarrow> m (cell z j) = (if j < 256 then 0 else m (cell root j))" and "idxs p"
  shows "tab m z p = (if p = [] then Some z else if kernel_path p then tab m root p else None)"
    and "p \<noteq> [] \<Longrightarrow> mmu m z p = (if kernel_path p then mmu m root p else None)"
proof -
  show "tab m z p = (if p = [] then Some z else if kernel_path p then tab m root p else None)"
    using assms by (cases p) (auto simp: kernel_path_def ptr_ok_def)
  show "mmu m z p = (if kernel_path p then mmu m root p else None)" if "p \<noteq> []"
    using assms that by (cases p; cases "tl p") (auto simp: kernel_path_def mmu_step)
qed

lemma clone_ok:
  assumes ok: "spaces_ok s R" and r: "root \<in> R" and z: "\<not> table_page s R z" "busy s z" "aligned z" "z \<noteq> 0"
    and m: "\<And>j. j < 512 \<Longrightarrow> pmem s (cell z j) = (if j < 256 then 0 else pmem s (cell root j))"
  shows "spaces_ok s (insert z R)"
proof -
  note T = clone_walk(1) [of "pmem s" z root, OF m]
  have new: "tab (pmem s) r' q \<noteq> Some z" if "r' \<in> R" "idxs q" "length q \<le> 3" for r' q
    using z(1) that unfolding table_page_def by blast
  have old: "\<exists>r' \<in> R. tab (pmem s) r' p = Some t \<and> (r' = r1 \<or> kernel_path p)"
    if "r1 \<in> insert z R" "idxs p" "length p \<le> 3" "tab (pmem s) r1 p = Some t" "t \<noteq> z" for r1 p t
    using that T [of p] r by (cases "r1 \<in> R") (auto split: if_splits)
  have src: "if t = z then r1 = z \<and> p = [] else \<exists>r' \<in> R. tab (pmem s) r' p = Some t \<and> (r' = r1 \<or> kernel_path p)"
    if "r1 \<in> insert z R" "idxs p" "length p \<le> 3" "tab (pmem s) r1 p = Some t" for r1 p t
    using that old new r T [of p] by (auto split: if_splits)
  have fresh: "t \<noteq> 0 \<and> busy s t" if "r1 \<in> insert z R" "idxs p" "length p \<le> 3" "tab (pmem s) r1 p = Some t" for r1 p t
    using src [OF that] spaces_okD(3) [OF ok _ that(2,3)] z(2,4) by (auto split: if_splits)
  have uniq: "p = q \<and> (r1 = r2 \<or> kernel_path p)"
    if "r1 \<in> insert z R" "idxs p" "length p \<le> 3" "tab (pmem s) r1 p = Some t"
       "r2 \<in> insert z R" "idxs q" "length q \<le> 3" "tab (pmem s) r2 q = Some t" for r1 r2 p q t
    using src [OF that(1-4)] src [OF that(5-8)] spaces_okD(4) [OF ok] that by (metis (no_types, lifting))
  show ?thesis
    unfolding spaces_ok_def using spaces_ok_total [OF ok] spaces_okD(2) [OF ok] z(3) fresh uniq by (auto 0 0)
qed


text \<open>A new address space has an empty user half and the kernel half of the root space, shared by reference; no
  translation of an existing space changes, and the family with the new space is again well formed.\<close>

theorem vmm_space_clone_shares:
  assumes "spaces_ok s R" "g_root_cr3 s \<in> R" "vmm_space_clone s = (z, s')" "z \<noteq> 0"
  shows "spaces_ok s' (insert z R) \<and> z \<notin> R \<and>
    (\<forall>v. space s' z v = (if user_half v then None else space s (g_root_cr3 s) v)) \<and>
    (\<forall>r v. r \<in> R \<longrightarrow> space s' r v = space s r v)"
proof -
  note c = clone_spec [OF assms]
  have zR: "z \<notin> R" using spaces_okD(3) [OF assms(1), of z "[]" z] c(2) by auto
  have "space s' z v = (if user_half v then None else space s' (g_root_cr3 s) v)" for v
    using clone_walk(2) [of "pmem s'" z "g_root_cr3 s" "vpath v", OF c(6)]
    by (auto simp: space_def user_half_def kernel_path_def vpath_def)
  then show ?thesis
    using clone_ok [OF extendsD(1) [OF c(1)] assms(2) c(5,3,4) assms(4) c(6)] zR space_extends [OF c(1)] assms(2) by simp
qed


definition sample_kernel_call :: "int \<times> vmm" where
  "sample_kernel_call = vmm_map_page_in sample_vmm 4096 0xFFFF800000000000 0x2000 3"

lemma clone_nonzero: "spaces_ok s R \<Longrightarrow> room s (Suc n) \<Longrightarrow> fst (vmm_space_clone s) \<noteq> 0"
  using alloc_room [of s, OF prod.collapse [symmetric] spaces_ok_total]
  by (auto simp: vmm_space_clone_def split: prod.splits simp del: upt_rec_numeral)

lemma sample_kernel:
  "spaces_ok (snd sample_kernel_call) {4096}" "g_root_cr3 (snd sample_kernel_call) = 4096" "n \<le> 10 \<Longrightarrow> room (snd sample_kernel_call) n"
  "space (snd sample_kernel_call) 4096 0xFFFF800000000000 = Some (0, 0x2003)" "small (snd sample_kernel_call) 4096 v"
proof -
  have c: "vmm_map_page_in sample_vmm 4096 0xFFFF800000000000 0x2000 3 = (fst sample_kernel_call, snd sample_kernel_call)"
    by (simp add: sample_kernel_call_def)
  note M = map_page_in_space [OF sample_vmm_ok(1) _ sample_vmm_ok(2) c]
  show "spaces_ok (snd sample_kernel_call) {4096}" "g_root_cr3 (snd sample_kernel_call) = 4096"
    "space (snd sample_kernel_call) 4096 0xFFFF800000000000 = Some (0, 0x2003)" "small (snd sample_kernel_call) 4096 v"
    using M(1,2,6,7,9) sample_vmm_ok(2,3) by (simp_all add: sample_vmm_def same_page_def)
  show "n \<le> 10 \<Longrightarrow> room (snd sample_kernel_call) n" using M(6,10) sample_vmm_ok(3) by simp
qed

theorem vmm_space_clone_shares_witness:
  "fst (vmm_space_clone (snd sample_kernel_call)) \<noteq> 0 \<and>
   space (snd (vmm_space_clone (snd sample_kernel_call))) (fst (vmm_space_clone (snd sample_kernel_call))) 0xFFFF800000000000 = Some (0, 0x2003) \<and>
   space (snd (vmm_space_clone (snd sample_kernel_call))) (fst (vmm_space_clone (snd sample_kernel_call))) 0x400000 = None"
proof -
  note k = sample_kernel
  have n: "fst (vmm_space_clone (snd sample_kernel_call)) \<noteq> 0" by (rule clone_nonzero [OF k(1) k(3) [of "Suc 0"]]) simp
  have "user_half 0x400000" "\<not> user_half 0xFFFF800000000000" by (simp_all add: user_half_def idx_def)
  then show ?thesis using vmm_space_clone_shares [OF k(1) _ prod.collapse [symmetric] n] k(2,4) n by simp
qed

end
