(* ===== verification/Kmalloc.thy ===== *)
theory Kmalloc
  imports Vmm_Props
begin

text \<open>
  The kernel heap, \<^verbatim>\<open>kernel/mm/kmalloc.c\<close>: a first-fit allocator over pages that are mapped on demand at
  \<^verbatim>\<open>VMM_KHEAP_BASE\<close>, with whole pages for large blocks. Block headers live in virtual memory: every access goes
  through the page tables, and an access to an unmapped address is a page fault, \<open>None\<close>.
\<close>

section \<open>Virtual memory as the kernel sees it\<close>

text \<open>The address the hardware computes in the current space, and accesses of 8 bytes.\<close>

definition kaddr :: "'a vmm_scheme \<Rightarrow> u64 \<Rightarrow> u64 option" where
  "kaddr s v = (case space s (g_cr3 s) v of
     None \<Rightarrow> None
   | Some (level, e) \<Rightarrow> Some ((e AND PTE_ADDR_MASK AND NOT (mask (12 + 9 * level))) + (v AND mask (12 + 9 * level))))"

definition kload :: "'a vmm_scheme \<Rightarrow> u64 \<Rightarrow> u64 option" where
  "kload s v = map_option (pmem s) (kaddr s v)"

definition kstore :: "u64 \<Rightarrow> u64 \<Rightarrow> 'a vmm_scheme \<Rightarrow> 'a vmm_scheme option" where
  "kstore v x s = map_option (\<lambda>a. store a x s) (kaddr s v)"

section \<open>State\<close>

abbreviation (input) VMM_KHEAP_BASE :: u64 where "VMM_KHEAP_BASE \<equiv> 0xFFFFFFFF81000000"
abbreviation (input) VMM_KHEAP_SIZE :: u64 where "VMM_KHEAP_SIZE \<equiv> 0x4000000"
abbreviation (input) KM_ALIGN :: u64 where "KM_ALIGN \<equiv> 16"
abbreviation (input) HEADER_SIZE :: u64 where "HEADER_SIZE \<equiv> 24"
abbreviation (input) LARGE_FREE_MAX :: nat where "LARGE_FREE_MAX \<equiv> 256"

record large_free =
  lf_va :: u64
  lf_pages :: u64

text \<open>\<open>g_large_free\<close> is the part of the table that is in use, its length \<^verbatim>\<open>g_large_free_n\<close>.\<close>

record kheap = vmm +
  g_free :: u64
  g_arena_next :: u64
  g_arena_bytes :: u64
  g_large_free :: "large_free list"

text \<open>\<^verbatim>\<open>struct block\<close>: the addresses of its fields.\<close>

abbreviation (input) b_size :: "u64 \<Rightarrow> u64" where "b_size b \<equiv> b"
abbreviation (input) b_pages :: "u64 \<Rightarrow> u64" where "b_pages b \<equiv> b + 8"
abbreviation (input) b_next :: "u64 \<Rightarrow> u64" where "b_next b \<equiv> b + 16"

section \<open>Address ranges of large blocks\<close>

definition arena_fits :: "u64 \<Rightarrow> u64 \<Rightarrow> bool" where
  "arena_fits va pages \<longleftrightarrow> (va - VMM_KHEAP_BASE) + pages * PAGE_SIZE \<le> VMM_KHEAP_SIZE"

text \<open>The loop of \<^verbatim>\<open>large_free_add\<close>: \<open>None\<close> when no entry is adjacent.\<close>

fun large_free_merge :: "u64 \<Rightarrow> u64 \<Rightarrow> large_free list \<Rightarrow> large_free list option" where
  "large_free_merge va pages [] = None"
| "large_free_merge va pages (e # es) =
     (if lf_va e + lf_pages e * PAGE_SIZE = va then Some (e\<lparr>lf_pages := lf_pages e + pages\<rparr> # es)
      else if va + pages * PAGE_SIZE = lf_va e then Some (e\<lparr>lf_va := va, lf_pages := lf_pages e + pages\<rparr> # es)
      else map_option ((#) e) (large_free_merge va pages es))"

definition large_free_add :: "u64 \<Rightarrow> u64 \<Rightarrow> 'a kheap_scheme \<Rightarrow> 'a kheap_scheme" where
  "large_free_add va pages s =
     (case large_free_merge va pages (g_large_free s) of
        Some es \<Rightarrow> s\<lparr>g_large_free := es\<rparr>
      | None \<Rightarrow>
          if length (g_large_free s) < LARGE_FREE_MAX then s\<lparr>g_large_free := g_large_free s @ [\<lparr>lf_va = va, lf_pages = pages\<rparr>]\<rparr>
          else s)"

definition large_free_take :: "u64 \<Rightarrow> 'a kheap_scheme \<Rightarrow> u64 \<times> 'a kheap_scheme" where
  "large_free_take pages s =
     (case scan (\<lambda>i. \<not> lf_pages (g_large_free s ! i) < pages) 0 (length (g_large_free s)) of
        None \<Rightarrow> (0, s)
      | Some i \<Rightarrow>
          let e = g_large_free s ! i in
          if lf_pages e = pages then (lf_va e, s\<lparr>g_large_free := butlast ((g_large_free s)[i := last (g_large_free s)])\<rparr>)
          else (lf_va e, s\<lparr>g_large_free := (g_large_free s)[i := \<lparr>lf_va = lf_va e + pages * PAGE_SIZE, lf_pages = lf_pages e - pages\<rparr>]\<rparr>))"

definition align_up :: "u64 \<Rightarrow> u64" where
  "align_up n = (n + KM_ALIGN - 1) AND NOT (KM_ALIGN - 1)"

definition kmalloc_init :: "'a kheap_scheme \<Rightarrow> 'a kheap_scheme" where
  "kmalloc_init s = vmm_reserve_tables VMM_KHEAP_BASE VMM_KHEAP_SIZE (s\<lparr>g_free := 0, g_arena_next := VMM_KHEAP_BASE, g_arena_bytes := 0\<rparr>)"

section \<open>Growing the arena\<close>

definition heap_grow_page :: "'a kheap_scheme \<Rightarrow> 'a kheap_scheme option" where
  "heap_grow_page s =
     (if \<not> arena_fits (g_arena_next s) 1 then Some s
      else
        (case alloc_frame s of (phys, s) \<Rightarrow>
           if phys = 0 then Some s
           else do {
             let s = snd (vmm_map_page s (g_arena_next s) phys VMM_WRITE);
             let b = g_arena_next s;
             s \<leftarrow> kstore (b_size b) (PAGE_SIZE - HEADER_SIZE) s;
             s \<leftarrow> kstore (b_pages b) 0 s;
             s \<leftarrow> kstore (b_next b) (g_free s) s;
             Some (s\<lparr>g_free := b, g_arena_next := g_arena_next s + PAGE_SIZE, g_arena_bytes := g_arena_bytes s + PAGE_SIZE\<rparr>)
           }))"

function heap_grow :: "u64 \<Rightarrow> 'a kheap_scheme \<Rightarrow> 'a kheap_scheme option" where
  "heap_grow payload s =
     (if payload > 0 then do {
        s \<leftarrow> heap_grow_page s;
        heap_grow (payload - (if payload > PAGE_SIZE then PAGE_SIZE else payload)) s
      }
      else Some s)"
  by pat_completeness auto

termination
proof (relation "measure (\<lambda>(payload, s). unat payload)")
  fix payload :: u64
  assume "0 < payload"
  then show "((payload - (if PAGE_SIZE < payload then PAGE_SIZE else payload), s'), payload, s) \<in> measure (\<lambda>(payload, s). unat payload)" for s s' :: "'a kheap_scheme"
    by (auto simp: word_less_nat_alt unat_sub_if')
qed simp

text \<open>The loops of the two large cases: map \<open>i\<close> pages from \<open>va\<close> on; \<open>False\<close> is the early return.\<close>

fun map_pages :: "u64 \<Rightarrow> nat list \<Rightarrow> 'a vmm_scheme \<Rightarrow> bool \<times> 'a vmm_scheme" where
  "map_pages va [] s = (True, s)"
| "map_pages va (i # is) s =
     (case alloc_frame s of (phys, s) \<Rightarrow>
        if phys = 0 then (False, s)
        else map_pages va is (snd (vmm_map_page s (va + of_nat i * PAGE_SIZE) phys VMM_WRITE)))"

definition put_header :: "u64 \<Rightarrow> u64 \<Rightarrow> u64 \<Rightarrow> u64 \<Rightarrow> 'a vmm_scheme \<Rightarrow> 'a vmm_scheme option" where
  "put_header b sz pages nxt s = do {
     s \<leftarrow> kstore (b_size b) sz s;
     s \<leftarrow> kstore (b_pages b) pages s;
     kstore (b_next b) nxt s
   }"

definition kmalloc_large :: "u64 \<Rightarrow> 'a kheap_scheme \<Rightarrow> (u64 \<times> 'a kheap_scheme) option" where
  "kmalloc_large sz s =
     (let pages = (sz + HEADER_SIZE + PAGE_SIZE - 1) div PAGE_SIZE in
      case large_free_take pages s of (reused, s) \<Rightarrow>
      if reused \<noteq> 0 then
        (case map_pages reused [0..<unat pages] s of (ok, s) \<Rightarrow>
           if \<not> ok then Some (0, large_free_add reused pages s)
           else do { s \<leftarrow> put_header reused sz pages 0 s; Some (reused + HEADER_SIZE, s) })
      else if \<not> arena_fits (g_arena_next s) pages then Some (0, s)
      else
        (let b = g_arena_next s in
         case map_pages b [0..<unat pages] s of (ok, s) \<Rightarrow>
           if \<not> ok then Some (0, s)
           else do {
             s \<leftarrow> put_header b sz pages 0 s;
             Some (b + HEADER_SIZE, s\<lparr>g_arena_next := g_arena_next s + pages * PAGE_SIZE, g_arena_bytes := g_arena_bytes s + pages * PAGE_SIZE\<rparr>)
           }))"

section \<open>The free list\<close>

text \<open>\<^verbatim>\<open>struct block **link\<close> points to the list head or to the \<^verbatim>\<open>next\<close> field of a block.\<close>

datatype blk_link = Head | Next u64

fun get_link :: "'a kheap_scheme \<Rightarrow> blk_link \<Rightarrow> u64 option" where
  "get_link s Head = Some (g_free s)"
| "get_link s (Next b) = kload s (b_next b)"

fun set_link :: "blk_link \<Rightarrow> u64 \<Rightarrow> 'a kheap_scheme \<Rightarrow> 'a kheap_scheme option" where
  "set_link Head x s = Some (s\<lparr>g_free := x\<rparr>)"
| "set_link (Next b) x s = kstore (b_next b) x s"

text \<open>First fit: the link to the first block of at least \<open>sz\<close> bytes, \<open>None\<close> at the end of the list.\<close>

partial_function (option) find_fit :: "'a kheap_scheme \<Rightarrow> u64 \<Rightarrow> blk_link \<Rightarrow> (blk_link \<times> u64) option option" where
  "find_fit s sz l = do {
     b \<leftarrow> get_link s l;
     if b = 0 then Some None
     else do {
       n \<leftarrow> kload s (b_size b);
       if n \<ge> sz then Some (Some (l, b)) else find_fit s sz (Next b)
     }
   }"

definition take_block :: "blk_link \<Rightarrow> u64 \<Rightarrow> u64 \<Rightarrow> 'a kheap_scheme \<Rightarrow> (u64 \<times> 'a kheap_scheme) option" where
  "take_block l b sz s = do {
     n \<leftarrow> kload s (b_size b);
     s \<leftarrow> (if n \<ge> sz + HEADER_SIZE + KM_ALIGN then do {
         let rest = b + HEADER_SIZE + sz;
         s \<leftarrow> kstore (b_size rest) (n - sz - HEADER_SIZE) s;
         s \<leftarrow> kstore (b_pages rest) 0 s;
         nxt \<leftarrow> kload s (b_next b);
         s \<leftarrow> kstore (b_next rest) nxt s;
         s \<leftarrow> set_link l rest s;
         s \<leftarrow> kstore (b_size b) sz s;
         kstore (b_pages b) 0 s
       } else do {
         nxt \<leftarrow> kload s (b_next b);
         s \<leftarrow> set_link l nxt s;
         kstore (b_pages b) 0 s
       });
     Some (b + HEADER_SIZE, s)
   }"

partial_function (option) kmalloc_locked :: "u64 \<Rightarrow> 'a kheap_scheme \<Rightarrow> (u64 \<times> 'a kheap_scheme) option" where
  "kmalloc_locked sz0 s =
     (let sz = align_up (if sz0 = 0 then KM_ALIGN else sz0) in
      if sz > PAGE_SIZE - HEADER_SIZE then kmalloc_large sz s
      else do {
        r \<leftarrow> find_fit s sz Head;
        case r of
          Some (l, b) \<Rightarrow> take_block l b sz s
        | None \<Rightarrow> do {
            s' \<leftarrow> heap_grow sz s;
            if g_arena_bytes s' = g_arena_bytes s then Some (0, s') else kmalloc_locked sz s'
          }
      })"

definition kmalloc :: "u64 \<Rightarrow> 'a kheap_scheme \<Rightarrow> (u64 \<times> 'a kheap_scheme) option" where
  "kmalloc sz s = kmalloc_locked sz s"

section \<open>Release\<close>

fun unmap_pages :: "u64 \<Rightarrow> nat list \<Rightarrow> 'a vmm_scheme \<Rightarrow> 'a vmm_scheme" where
  "unmap_pages virt [] s = s"
| "unmap_pages virt (i # is) s =
     (case vmm_translate s (virt + of_nat i * PAGE_SIZE) of (phys, s) \<Rightarrow>
        unmap_pages virt is
          (if phys \<noteq> 0 then free_frame phys (vmm_unmap_page s (virt + of_nat i * PAGE_SIZE)) else s))"

text \<open>The link behind the last block with a smaller address that the walk meets.\<close>

partial_function (option) find_place :: "'a kheap_scheme \<Rightarrow> u64 \<Rightarrow> blk_link \<Rightarrow> blk_link option" where
  "find_place s b l = do {
     x \<leftarrow> get_link s l;
     if x \<noteq> 0 \<and> x < b then find_place s b (Next x) else Some l
   }"

definition merge_next :: "u64 \<Rightarrow> 'a vmm_scheme \<Rightarrow> 'a vmm_scheme option" where
  "merge_next b s = do {
     nxt \<leftarrow> kload s (b_next b);
     if nxt = 0 then Some s
     else do {
       n \<leftarrow> kload s (b_size b);
       if b + HEADER_SIZE + n \<noteq> nxt then Some s
       else do {
         m \<leftarrow> kload s (b_size nxt);
         s \<leftarrow> kstore (b_size b) (n + (HEADER_SIZE + m)) s;
         nn \<leftarrow> kload s (b_next nxt);
         kstore (b_next b) nn s
       }
     }
   }"

definition merge_prev :: "blk_link \<Rightarrow> u64 \<Rightarrow> 'a vmm_scheme \<Rightarrow> 'a vmm_scheme option" where
  "merge_prev l b s =
     (case l of
        Head \<Rightarrow> Some s
      | Next prev \<Rightarrow> do {
          n \<leftarrow> kload s (b_size prev);
          if prev + HEADER_SIZE + n \<noteq> b then Some s
          else do {
            m \<leftarrow> kload s (b_size b);
            s \<leftarrow> kstore (b_size prev) (n + (HEADER_SIZE + m)) s;
            nn \<leftarrow> kload s (b_next b);
            kstore (b_next prev) nn s
          }
        })"

definition kfree_locked :: "u64 \<Rightarrow> 'a kheap_scheme \<Rightarrow> 'a kheap_scheme option" where
  "kfree_locked ptr s = do {
     let b = ptr - HEADER_SIZE;
     pages \<leftarrow> kload s (b_pages b);
     if pages > 0 then Some (large_free_add b pages (unmap_pages b [0..<unat pages] s))
     else do {
       l \<leftarrow> find_place s b Head;
       s \<leftarrow> kstore (b_pages b) 0 s;
       nxt \<leftarrow> get_link s l;
       s \<leftarrow> kstore (b_next b) nxt s;
       s \<leftarrow> set_link l b s;
       s \<leftarrow> merge_next b s;
       merge_prev l b s
     }
   }"

definition kfree :: "u64 \<Rightarrow> 'a kheap_scheme \<Rightarrow> 'a kheap_scheme option" where
  "kfree ptr s = (if ptr = 0 then Some s else kfree_locked ptr s)"

text \<open>\<^verbatim>\<open>memcpy\<close> of a payload, whose size is a multiple of 8.\<close>

fun copy_words :: "u64 \<Rightarrow> u64 \<Rightarrow> nat list \<Rightarrow> 'a vmm_scheme \<Rightarrow> 'a vmm_scheme option" where
  "copy_words dst src [] s = Some s"
| "copy_words dst src (i # is) s = do {
     x \<leftarrow> kload s (src + 8 * of_nat i);
     s \<leftarrow> kstore (dst + 8 * of_nat i) x s;
     copy_words dst src is s
   }"

definition krealloc :: "u64 \<Rightarrow> u64 \<Rightarrow> 'a kheap_scheme \<Rightarrow> (u64 \<times> 'a kheap_scheme) option" where
  "krealloc ptr sz0 s =
     (if ptr = 0 then kmalloc sz0 s
      else do {
        let sz = align_up sz0;
        n \<leftarrow> kload s (b_size (ptr - HEADER_SIZE));
        if sz \<le> n then Some (ptr, s)
        else do {
          (fresh, s) \<leftarrow> kmalloc_locked sz s;
          if fresh = 0 then Some (0, s)
          else do {
            n \<leftarrow> kload s (b_size (ptr - HEADER_SIZE));
            s \<leftarrow> copy_words fresh ptr [0..<unat n div 8] s;
            s \<leftarrow> kfree_locked ptr s;
            Some (fresh, s)
          }
        }
      })"

definition kmalloc_arena_bytes :: "'a kheap_scheme \<Rightarrow> u64" where
  "kmalloc_arena_bytes s = g_arena_bytes s"

end
