(* ===== verification/Kpages.thy ===== *)
theory Kpages
  imports Kmalloc
begin

text \<open>
  The memory below the kernel heap: pages that are mapped and unmapped one at a time in the region of the heap. \<open>kpages_ok\<close>
  is the invariant of the region: its tables exist and are shared with the current space, every mapped page has a frame
  of its own that is in use and holds no table. Under it the region behaves like an array of words in which pages appear and
  disappear, and the loops over pages follow from the contract of one step, the locale \<open>page_step\<close>.
\<close>

section \<open>Addresses of the heap\<close>

definition heap_va :: "u64 \<Rightarrow> bool" where
  "heap_va v \<longleftrightarrow> 0xFFFFFFFF81000000 \<le> unat v \<and> unat v < 0xFFFFFFFF85000000"

lemma unat_take_bit: "unat (take_bit n (v :: u64)) = unat v mod 2 ^ n"
  unfolding unsigned_take_bit_eq by (rule take_bit_eq_mod)

lemma unat_low: "unat (v AND 0xFFF :: u64) = unat v mod 4096"
  using unat_take_bit [of 12 v] by (simp add: low_bits)

lemma idx_nat: "idx n v = unat v div 2 ^ n mod 512"
proof -
  have "drop_bit n v AND 0x1FF = take_bit 9 (drop_bit n v)"
    unfolding take_bit_eq_mask by (simp add: mask_eq_exp_minus_1)
  then have "idx n v = unat (drop_bit n v) mod 2 ^ 9" unfolding idx_def by (simp only: unat_take_bit)
  also have "unat (drop_bit n v) = unat v div 2 ^ n" using take_bit_nat_eq_self [OF unsigned_less [of v]] unfolding unsigned_drop_bit_eq by (simp add: drop_bit_eq_div)
  finally show ?thesis by simp
qed

lemma mod_512: "(0xFFFFFFFF81000 + x) mod 512 = (x :: nat) mod 512" "(0x7FFFFFFFC08 + x) mod 512 = (8 + x) mod 512"
proof -
  have "(x + 0x7FFFFFFFC08 * 512) mod 512 = x mod 512" "((8 + x) + 0x3FFFFFFFE * 512) mod 512 = (8 + x) mod 512" by (rule mod_mult_self1)+
  then show "(0xFFFFFFFF81000 + x) mod 512 = x mod 512" "(0x7FFFFFFFC08 + x) mod 512 = (8 + x) mod 512" by (simp_all add: ac_simps)
qed

lemma vpath_heap:
  assumes "heap_va v"
  shows "vpath v = [511, 510, 8 + (page_no v - 0xFFFFFFFF81000) div 512, page_no v mod 512]"
proof -
  define k where "k = page_no v - 0xFFFFFFFF81000"
  have b: "0xFFFFFFFF81000 \<le> page_no v" "page_no v < 0xFFFFFFFF85000" using assms by (auto simp: heap_va_def page_no_def)
  then have p: "page_no v = 0xFFFFFFFF81000 + k" "k < 16384" by (simp_all add: k_def)
  have i: "idx (12 + n) v = page_no v div 2 ^ n mod 512" for n
    by (simp add: idx_nat page_no_def div_mult2_eq power_add)
  have d: "page_no v div 2 ^ 27 = 0x1FFFFFF" "page_no v div 2 ^ 18 = 0x3FFFFFFFE" using b by simp_all
  have "(0xFFFFFFFF81000 + k) div 512 = 0x7FFFFFFFC08 + k div 512" by simp
  then have "page_no v div 2 ^ 9 = 0x7FFFFFFFC08 + k div 512" by (simp add: p(1))
  moreover have "(0x7FFFFFFFC08 + k div 512) mod 512 = 8 + k div 512" unfolding mod_512 using p(2) by simp
  ultimately show ?thesis
    using i [of 27] i [of 18] i [of 9] i [of 0] d by (simp add: vpath_def k_def)
qed

lemma same_page_heap:
  assumes "heap_va v" "heap_va w"
  shows "same_page v w \<longleftrightarrow> page_no v = page_no w"
proof
  have b: "0xFFFFFFFF81000 \<le> page_no v" "0xFFFFFFFF81000 \<le> page_no w" using assms by (auto simp: heap_va_def page_no_def)
  assume "same_page v w"
  then have eq: "(page_no v - 0xFFFFFFFF81000) div 512 = (page_no w - 0xFFFFFFFF81000) div 512" "page_no v mod 512 = page_no w mod 512"
    by (simp_all add: same_page_def vpath_heap assms)
  have "(page_no v - 0xFFFFFFFF81000) mod 512 = (page_no w - 0xFFFFFFFF81000) mod 512"
    using eq(2) b mod_512(1) by (metis le_add_diff_inverse)
  then show "page_no v = page_no w" using eq(1) b by (metis div_mult_mod_eq eq_diff_iff)
qed (simp add: same_page_def vpath_heap assms)

lemma addr_eq: "page_no v = page_no w \<Longrightarrow> v AND 0xFFF = w AND 0xFFF \<Longrightarrow> v = w"
proof -
  assume p: "page_no v = page_no w" and "v AND 0xFFF = w AND 0xFFF"
  then have "unat v mod 4096 = unat w mod 4096" by (metis unat_low)
  then show "v = w" using p unfolding page_no_def by (metis div_mult_mod_eq word_unat_eq_iff)
qed

text \<open>An address inside a frame.\<close>

lemma frame_addr:
  assumes "aligned f"
  shows "unat (f + (v AND 0xFFF)) = unat f + unat v mod 4096" "page_no (f + (v AND 0xFFF)) = page_no f"
proof -
  have "unat f + unat v mod 4096 < 2 ^ 64"
    using aligned_bound [OF assms] mod_less_divisor [of 4096 "unat v"] by linarith
  then show u: "unat (f + (v AND 0xFFF)) = unat f + unat v mod 4096" by (simp add: unat_word_ariths unat_low)
  show "page_no (f + (v AND 0xFFF)) = page_no f" using assms by (auto simp: page_no_def u aligned_def)
qed

section \<open>The invariant of the region\<close>

definition frame_of :: "'a vmm_scheme \<Rightarrow> u64 \<Rightarrow> u64 option" where
  "frame_of s v = map_option (\<lambda>(l, e). e AND PTE_ADDR_MASK) (space s (g_root_cr3 s) v)"

definition kpages_ok :: "u64 set \<Rightarrow> 'a vmm_scheme \<Rightarrow> bool" where
  "kpages_ok R s \<longleftrightarrow> spaces_ok s R \<and> g_root_cr3 s \<in> R \<and> g_cr3 s \<in> R \<and>
     (\<forall>v. heap_va v \<longrightarrow> small s (g_root_cr3 s) v \<and> small s (g_cr3 s) v \<and>
        (\<exists>pt. tab (pmem s) (g_root_cr3 s) (take 3 (vpath v)) = Some pt \<and> tab (pmem s) (g_cr3 s) (take 3 (vpath v)) = Some pt)) \<and>
     (\<forall>v f. heap_va v \<longrightarrow> frame_of s v = Some f \<longrightarrow> busy s f \<and> \<not> table_page s R f) \<and>
     (\<forall>v w f. heap_va v \<longrightarrow> heap_va w \<longrightarrow> frame_of s v = Some f \<longrightarrow> frame_of s w = Some f \<longrightarrow> page_no v = page_no w)"

lemma kpages_okD:
  assumes "kpages_ok R s"
  shows "spaces_ok s R" "g_root_cr3 s \<in> R" "g_cr3 s \<in> R" 
    "heap_va v \<Longrightarrow> small s (g_root_cr3 s) v" "heap_va v \<Longrightarrow> small s (g_cr3 s) v"
    "heap_va v \<Longrightarrow> \<exists>pt. tab (pmem s) (g_root_cr3 s) (take 3 (vpath v)) = Some pt \<and> tab (pmem s) (g_cr3 s) (take 3 (vpath v)) = Some pt"
    "heap_va v \<Longrightarrow> frame_of s v = Some f \<Longrightarrow> busy s f \<and> \<not> table_page s R f"
    "heap_va v \<Longrightarrow> heap_va w \<Longrightarrow> frame_of s v = Some f \<Longrightarrow> frame_of s w = Some f \<Longrightarrow> page_no v = page_no w"
  using assms unfolding kpages_ok_def by blast+

lemma frame_of_leaf:
  assumes "tab (pmem s) (g_root_cr3 s) (take 3 (vpath v)) = Some pt"
  shows "frame_of s v = (if pmem s (cell pt (idx 12 v)) AND VMM_PRESENT = 0 then None else Some (pmem s (cell pt (idx 12 v)) AND PTE_ADDR_MASK))"
  using mmu_leaf [OF assms] by (simp add: frame_of_def space_def leaf_def)

lemma kaddr_frame:
  assumes "kpages_ok R s" "heap_va v"
  shows "kaddr s v = map_option (\<lambda>f. f + (v AND 0xFFF)) (frame_of s v)"
proof -
  obtain pt where pt: "tab (pmem s) (g_root_cr3 s) (take 3 (vpath v)) = Some pt" "tab (pmem s) (g_cr3 s) (take 3 (vpath v)) = Some pt"
    using kpages_okD(6) [OF assms] by blast
  have m: "mask 12 = (0xFFF :: u64)" by (simp add: mask_eq_exp_minus_1)
  show ?thesis using mmu_leaf [OF pt(2)]
    by (simp add: frame_of_leaf [OF pt(1)] kaddr_def space_def leaf_def m and.assoc)
qed

lemma frame_aligned: "frame_of s v = Some f \<Longrightarrow> aligned f"
  by (auto simp: frame_of_def)

lemma frame_of_page: "heap_va v \<Longrightarrow> heap_va w \<Longrightarrow> page_no v = page_no w \<Longrightarrow> frame_of s v = frame_of s w"
  using same_page_heap [of v w] by (simp add: frame_of_def space_def same_page_def)

lemma kload_frame:
  assumes "kpages_ok R s" "heap_va v"
  shows "kload s v = map_option (\<lambda>f. pmem s (f + (v AND 0xFFF))) (frame_of s v)"
  by (simp add: kload_def kaddr_frame [OF assms] option.map_comp comp_def)

text \<open>Two states with the same frames and the same words in them look the same.\<close>

lemma kload_cong:
  assumes "kpages_ok R s" "kpages_ok R s'" "heap_va v" "frame_of s' v = frame_of s v"
    and "\<And>f. frame_of s v = Some f \<Longrightarrow> pmem s' (f + (v AND 0xFFF)) = pmem s (f + (v AND 0xFFF))"
  shows "kload s' v = kload s v"
  using assms by (cases "frame_of s v") (simp_all add: kload_frame [of R])

text \<open>Stores to words of a mapped page.\<close>

lemma data_store:
  assumes ok: "spaces_ok s R" and a: "\<not> table_page s R a"
  shows "spaces_ok (store a x s) R" "table_page (store a x s) R b = table_page s R b" "busy (store a x s) b = busy s b"
    and "r \<in> R \<Longrightarrow> idxs q \<Longrightarrow> length q \<le> 3 \<Longrightarrow> tab (pmem (store a x s)) r q = tab (pmem s) r q"
    and "r \<in> R \<Longrightarrow> space (store a x s) r v = space s r v" "r \<in> R \<Longrightarrow> small (store a x s) r v = small s r v"
proof -
  let ?s = "store a x s"
  have cells: "pmem ?s (cell u j) = pmem s (cell u j)"
    if "r \<in> R" "idxs q" "length q \<le> 3" "tab (pmem s) r q = Some u" "j < 512" for r q u j
  proof -
    have "table_page s R (cell u j)" using table_page_cell [OF that(1-4) _ that(5)] spaces_okD(3) [OF ok that(1-4)] by blast
    then show ?thesis using a by (auto simp: store_def)
  qed
  have tabs: "tab (pmem ?s) r q = tab (pmem s) r q" "mmu (pmem ?s) r q = mmu (pmem s) r q"
    if "r \<in> R" "idxs q" "length q \<le> 4" for r q
    by (rule walk_agree; rule cells [OF that(1)]; use that in auto)+
  show "busy ?s b = busy s b" for b by (simp add: busy_def store_def)
  then show "spaces_ok ?s R" "table_page ?s R b = table_page s R b"
    using extends_tabI [OF ok, of ?s] tabs(1) by (simp_all add: store_def)
  show "r \<in> R \<Longrightarrow> idxs q \<Longrightarrow> length q \<le> 3 \<Longrightarrow> tab (pmem ?s) r q = tab (pmem s) r q" using tabs(1) by simp
  show "r \<in> R \<Longrightarrow> space ?s r v = space s r v" using tabs(2) by (simp add: space_def)
  show "small ?s r v = small s r v" if r: "r \<in> R"
  proof -
    have "pmem ?s (cell t i) = pmem s (cell t i) \<and> tab (pmem ?s) r q = tab (pmem s) r q"
      if q: "take 3 (vpath v) = q @ i # w" "tab (pmem s) r q = Some t \<or> tab (pmem ?s) r q = Some t" for q i w t
    proof -
      have "idxs (q @ i # w)" "length (q @ i # w) = 3" unfolding q(1) [symmetric] by simp_all
      then have l: "idxs q" "i < 512" "length q \<le> 3" by simp_all
      moreover have "tab (pmem ?s) r q = tab (pmem s) r q" using tabs(1) [OF r] l by simp
      ultimately show ?thesis using cells [OF r l(1,3) _ l(2)] q(2) by auto
    qed
    then show ?thesis unfolding small_def by metis
  qed
qed

lemma kpages_cong:
  assumes ok: "kpages_ok R s" and ok': "spaces_ok s' R" and r: "g_root_cr3 s' = g_root_cr3 s" "g_cr3 s' = g_cr3 s"
    and t: "\<And>r v pt. heap_va v \<Longrightarrow> r \<in> R \<Longrightarrow> tab (pmem s) r (take 3 (vpath v)) = Some pt \<Longrightarrow> tab (pmem s') r (take 3 (vpath v)) = Some pt"
    and sm: "\<And>r v. r \<in> R \<Longrightarrow> small s r v \<Longrightarrow> small s' r v"
    and f: "\<And>v f. heap_va v \<Longrightarrow> frame_of s' v = Some f \<Longrightarrow> busy s' f \<and> \<not> table_page s' R f"
    and inj: "\<And>v w f. heap_va v \<Longrightarrow> heap_va w \<Longrightarrow> frame_of s' v = Some f \<Longrightarrow> frame_of s' w = Some f \<Longrightarrow> page_no v = page_no w"
  shows "kpages_ok R s'"
proof -
  have T: "\<exists>pt. tab (pmem s') (g_root_cr3 s) (take 3 (vpath v)) = Some pt \<and> tab (pmem s') (g_cr3 s) (take 3 (vpath v)) = Some pt" if "heap_va v" for v
    using kpages_okD(6) [OF ok that] t [OF that kpages_okD(2) [OF ok]] t [OF that kpages_okD(3) [OF ok]] by blast
  have S: "heap_va v \<Longrightarrow> small s' (g_root_cr3 s) v" "heap_va v \<Longrightarrow> small s' (g_cr3 s) v" for v
    using sm kpages_okD(2-5) [OF ok] by simp_all
  have F: "heap_va v \<Longrightarrow> frame_of s' v = Some f \<Longrightarrow> busy s' f" "heap_va v \<Longrightarrow> frame_of s' v = Some f \<Longrightarrow> \<not> table_page s' R f" for v f
    using f [of v f] by simp_all
  show ?thesis
    unfolding kpages_ok_def r
    by (intro conjI allI impI; (rule ok' kpages_okD(2,3) [OF ok] S T F inj; assumption)?)
qed

lemma kpages_frames:
  assumes ok: "kpages_ok R s" and ok': "spaces_ok s' R" and r: "g_root_cr3 s' = g_root_cr3 s" "g_cr3 s' = g_cr3 s"
    and t: "\<And>r q pt. r \<in> R \<Longrightarrow> idxs q \<Longrightarrow> length q \<le> 3 \<Longrightarrow> tab (pmem s) r q = Some pt \<Longrightarrow> tab (pmem s') r q = Some pt"
    and sm: "\<And>r v. r \<in> R \<Longrightarrow> small s r v \<Longrightarrow> small s' r v"
    and f: "\<And>v. frame_of s' v = frame_of s v"
    and b: "\<And>f. busy s f \<Longrightarrow> \<not> table_page s R f \<Longrightarrow> busy s' f \<and> \<not> table_page s' R f"
  shows "kpages_ok R s'"
proof (rule kpages_cong [OF ok ok' r _ sm])
  show "tab (pmem s') r (take 3 (vpath v)) = Some pt" if "r \<in> R" "tab (pmem s) r (take 3 (vpath v)) = Some pt" for r v pt
    by (rule t [OF that(1) _ _ that(2)]) simp_all
  show "busy s' f \<and> \<not> table_page s' R f" if "heap_va v" "frame_of s' v = Some f" for v f
    using b kpages_okD(7) [OF ok that(1)] that(2) unfolding f by blast
  show "page_no v = page_no w" if "heap_va v" "heap_va w" "frame_of s' v = Some f" "frame_of s' w = Some f" for v w f
    using kpages_okD(8) [OF ok that(1,2)] that(3,4) unfolding f by blast
qed

lemma kpages_store:
  assumes ok: "kpages_ok R s" and v: "heap_va v" "kload s v \<noteq> None"
  obtains s' where "kstore v x s = Some s'" "kpages_ok R s'" "\<exists>m. s' = s\<lparr>pmem := m\<rparr>"
    "\<And>w. heap_va w \<Longrightarrow> kload s' w = (if w = v then Some x else kload s w)"
proof -
  obtain f where f: "frame_of s v = Some f" using v(2) kload_frame [OF ok v(1)] by auto
  define a where "a = f + (v AND 0xFFF)"
  define s' where "s' = store a x s"
  have k: "kstore v x s = Some s'" using kaddr_frame [OF ok v(1)] f by (simp add: kstore_def a_def s'_def)
  have pa: "page_no a = page_no f" unfolding a_def by (rule frame_addr(2) [OF frame_aligned [OF f]])
  have na: "\<not> table_page s R a" using kpages_okD(7) [OF ok v(1) f] pa by (simp add: table_page_def)
  note D = data_store [OF kpages_okD(1) [OF ok] na, where x = x, folded s'_def]
  have fields: "g_root_cr3 s' = g_root_cr3 s" "g_cr3 s' = g_cr3 s" by (simp_all add: s'_def store_def)
  have F: "frame_of s' w = frame_of s w" for w using D(5) [OF kpages_okD(2) [OF ok]] by (simp add: frame_of_def fields)
  have ok': "kpages_ok R s'"
    by (rule kpages_frames [OF ok D(1) fields _ _ F]) (use D(2,3,4,6) in auto)
  have L: "kload s' w = (if w = v then Some x else kload s w)" if w: "heap_va w" for w
  proof (cases "frame_of s w")
    case None
    then show ?thesis using f kload_frame [OF ok w] kload_frame [OF ok' w] by (auto simp: F)
  next
    case (Some g)
    have "w = v" if eq: "g + (w AND 0xFFF) = a"
    proof -
      have pg: "page_no g = page_no f" using frame_addr(2) [OF frame_aligned [OF Some], of w] pa eq by simp
      then have "g = f" using frame_aligned [OF Some] frame_aligned [OF f] page_no_inj by blast
      then have "w AND 0xFFF = v AND 0xFFF" "page_no w = page_no v" using eq Some kpages_okD(8) [OF ok w v(1) _ f] by (simp_all add: a_def)
      then show ?thesis using addr_eq by blast
    qed
    moreover have "pmem s' b = (if b = a then x else pmem s b)" for b by (simp add: s'_def store_def)
    ultimately show ?thesis
      using f Some kload_frame [OF ok w] kload_frame [OF ok' w] by (auto simp: F a_def)
  qed
  show thesis by (rule that [OF k ok' _ L]) (auto simp: s'_def store_def)
qed

section \<open>Operations that change memory and frames only\<close>

definition rest :: "'a vmm_scheme \<Rightarrow> 'a vmm_scheme" where
  "rest s = s\<lparr>pmem := (\<lambda>_. 0), g_pmm := undefined\<rparr>"

lemma rest_store [simp]:
  "rest (store a x s) = rest s" "rest (zero_frame t s) = rest s" "rest (free_frame t s) = rest s" "rest (clear_nx e s) = rest s" "rest (set_user e s) = rest s"
  "rest (s\<lparr>pmem := m\<rparr>) = rest s" "rest (s\<lparr>g_pmm := p\<rparr>) = rest s"
  by (simp_all add: rest_def store_def zero_frame_def free_frame_def clear_nx_def set_user_def)

lemma rest_alloc: "alloc_frame s = (z, s') \<Longrightarrow> rest s' = rest s"
  by (auto simp: alloc_frame_def split: prod.splits)

lemma rest_fetch: "table_fetch s e al = (u, s') \<Longrightarrow> rest s' = rest s"
  by (auto simp: table_fetch_def dest: rest_alloc split: if_splits prod.splits)

lemma rest_fold: "rest (fold (\<lambda>i. store (f i) (g i)) xs s) = rest s"
  by (induction xs arbitrary: s) simp_all

lemma rest_split: "split_entry s e st x = (res, s') \<Longrightarrow> rest s' = rest s"
  by (auto simp: split_entry_def Let_def rest_fold dest: rest_alloc split: if_splits prod.splits simp del: upt_rec_numeral)

lemma rest_walk: "walk_pt s r v al user = (res, s') \<Longrightarrow> rest s' = rest s"
  unfolding walk_pt_def Let_def
  by (auto dest!: rest_fetch rest_split split: if_splits prod.splits option.splits)

lemma rest_ops:
  "rest (snd (vmm_map_page s v z fl)) = rest s" "vmm_translate s v = (x, s') \<Longrightarrow> rest s' = rest s" "rest (vmm_unmap_page s v) = rest s"
  by (auto simp: vmm_map_page_def vmm_map_page_in_def vmm_translate_def vmm_translate_in_def vmm_unmap_page_def vmm_unmap_page_in_def
    dest!: rest_walk split: prod.splits option.splits if_splits)

section \<open>Mapping and unmapping one page\<close>

lemma kpages_extends:
  assumes ok: "kpages_ok R s" and e: "extends s s1 R"
  shows "kpages_ok R s1" "heap_va v \<Longrightarrow> kload s1 v = kload s v" "frame_of s1 v = frame_of s v"
proof -
  note E = extendsD [OF e]
  have F: "frame_of s1 w = frame_of s w" for w using space_extends [OF e kpages_okD(2) [OF ok]] E(4) by (simp add: frame_of_def)
  then show "frame_of s1 v = frame_of s v" .
  show ok1: "kpages_ok R s1"
    by (rule kpages_frames [OF ok E(1,4,3) _ _ F]) (use E(5,6,8) small_extends [OF _ e] in blast)+
  show "kload s1 v = kload s v" if v: "heap_va v"
  proof (rule kload_cong [OF ok ok1 v F])
    fix f assume f: "frame_of s v = Some f"
    have "page_no (f + (v AND 0xFFF)) = page_no f" by (rule frame_addr(2) [OF frame_aligned [OF f]])
    then show "pmem s1 (f + (v AND 0xFFF)) = pmem s (f + (v AND 0xFFF))"
      using E(8) kpages_okD(7) [OF ok v f] by (simp add: busy_def table_page_def)
  qed
qed

text \<open>A new leaf entry for one page of the region.\<close>

lemma kpages_leaf:
  assumes ok: "kpages_ok R s" and p: "heap_va p" and pt: "tab (pmem s) (g_root_cr3 s) (take 3 (vpath p)) = Some pt"
    and e: "e AND VMM_PRESENT \<noteq> 0 \<Longrightarrow> busy s (e AND PTE_ADDR_MASK) \<and> \<not> table_page s R (e AND PTE_ADDR_MASK) \<and>
      (\<forall>w. heap_va w \<longrightarrow> page_no w \<noteq> page_no p \<longrightarrow> frame_of s w \<noteq> Some (e AND PTE_ADDR_MASK))"
  defines "s' \<equiv> store (cell pt (idx 12 p)) e s"
  shows "kpages_ok R s'" "heap_va v \<Longrightarrow> page_no v \<noteq> page_no p \<Longrightarrow> kload s' v = kload s v"
    "heap_va v \<Longrightarrow> frame_of s' v = (if page_no v = page_no p then (if e AND VMM_PRESENT = 0 then None else Some (e AND PTE_ADDR_MASK)) else frame_of s v)"
    "table_page s' R a = table_page s R a"
proof -
  note r = kpages_okD(2) [OF ok]
  note L = leaf_store [OF kpages_okD(1) [OF ok] r idxs_take_vpath pt idx_less [of 12 p], where e = e, folded s'_def]
  note S = space_store [OF kpages_okD(1) [OF ok] r pt, where e = e, folded s'_def]
  have fields: "g_root_cr3 s' = g_root_cr3 s" "g_cr3 s' = g_cr3 s" by (simp_all add: s'_def store_def)
  have B: "busy s' a = busy s a" for a by (simp add: s'_def store_def busy_def)
  have F: "frame_of s' w = (if page_no w = page_no p then (if e AND VMM_PRESENT = 0 then None else Some (e AND PTE_ADDR_MASK)) else frame_of s w)"
    if "heap_va w" for w
    using S(2) [of w] same_page_heap [OF that p] by (simp add: frame_of_def fields leaf_def)
  then show "heap_va v \<Longrightarrow> frame_of s' v = (if page_no v = page_no p then (if e AND VMM_PRESENT = 0 then None else Some (e AND PTE_ADDR_MASK)) else frame_of s v)" .
  show T: "table_page s' R a = table_page s R a" for a by (rule L(4))
  show ok': "kpages_ok R s'"
  proof (rule kpages_cong [OF ok L(1) fields])
    show "tab (pmem s') r (take 3 (vpath v)) = Some t" if "r \<in> R" "tab (pmem s) r (take 3 (vpath v)) = Some t" for r v t
      using L(3) [OF that(1)] that(2) by simp
    show "small s' r v" if "r \<in> R" "small s r v" for r v
      unfolding s'_def by (rule small_store [OF kpages_okD(1) [OF ok] r that(1) pt that(2)])
    show "busy s' f \<and> \<not> table_page s' R f" if "heap_va v" "frame_of s' v = Some f" for v f
      using that e kpages_okD(7) [OF ok that(1)] by (auto simp: F B T split: if_splits)
    show "page_no v = page_no w" if "heap_va v" "heap_va w" "frame_of s' v = Some f" "frame_of s' w = Some f" for v w f
      using that e kpages_okD(8) [OF ok that(1,2)] by (auto simp: F split: if_splits)
  qed
  show "kload s' v = kload s v" if v: "heap_va v" "page_no v \<noteq> page_no p"
  proof (rule kload_cong [OF ok ok' v(1)])
    show "frame_of s' v = frame_of s v" using v by (simp add: F)
    fix f assume f: "frame_of s v = Some f"
    have "page_no (f + (v AND 0xFFF)) = page_no f" by (rule frame_addr(2) [OF frame_aligned [OF f]])
    then show "pmem s' (f + (v AND 0xFFF)) = pmem s (f + (v AND 0xFFF))"
      using L(5) kpages_okD(7) [OF ok v(1) f] by (simp add: table_page_def)
  qed
qed

text \<open>A walk over tables that exist succeeds.\<close>

lemma walk_present:
  assumes ok: "spaces_ok s R" and r: "r \<in> R" and sm: "small s r v" and t: "tab (pmem s) r (take 3 (vpath v)) = Some pt"
    and w: "walk_pt s r v al user = (res, s')"
  shows "res = Some (cell pt (idx 12 v), False)" "g_pmm s' = g_pmm s"
proof -
  let ?a = "idx 39 v" and ?b = "idx 30 v" and ?c = "idx 21 v"
  have p: "take 3 (vpath v) = [?a] @ [?b] @ [?c]" by (simp add: vpath_def)
  obtain t1 t2 where T: "tab (pmem s) r [?a] = Some t1" "tab (pmem s) t1 [?b] = Some t2" "tab (pmem s) t2 [?c] = Some pt"
    using t unfolding p tab_append by (auto split: option.splits)
  then have T2: "tab (pmem s) r [?a, ?b] = Some t2" using tab_append [of "pmem s" r "[?a]" "[?b]"] by simp
  have n: "t1 \<noteq> 0" "t2 \<noteq> 0" "pt \<noteq> 0"
    using spaces_okD(3) [OF ok r _ _ T(1)] spaces_okD(3) [OF ok r _ _ T2] spaces_okD(3) [OF ok r _ _ t] by simp_all
  have f: "table_fetch s e al = (pmem s e AND PTE_ADDR_MASK, s)" if "ptr_ok (pmem s e)" for e
    using that by (simp add: table_fetch_def ptr_ok_def)
  have [simp]: "g_pmm (clear_nx e u) = g_pmm u" "g_pmm (set_user e u) = g_pmm u" for e and u :: "'a vmm_scheme"
    by (simp_all add: clear_nx_def set_user_def store_def)
  have q: "ptr_ok (pmem s (cell r ?a))" "pmem s (cell r ?a) AND PTE_ADDR_MASK = t1" "ptr_ok (pmem s (cell t1 ?b))" "pmem s (cell t1 ?b) AND PTE_ADDR_MASK = t2"
    "ptr_ok (pmem s (cell t2 ?c))" "pmem s (cell t2 ?c) AND PTE_ADDR_MASK = pt" using T by (simp_all split: if_splits)
  then have "pmem s (cell r ?a) AND PTE_PS = 0" "pmem s (cell t1 ?b) AND PTE_PS = 0" "pmem s (cell t2 ?c) AND PTE_PS = 0"
    by (simp_all add: ptr_ok_def)
  then show "res = Some (cell pt (idx 12 v), False)" "g_pmm s' = g_pmm s"
    using w n q by (auto simp: walk_pt_def split_entry_small f Let_def)
qed

text \<open>What one step on page \<open>p\<close> of the region keeps: the invariant, and every word of the other pages.\<close>

definition page_frame :: "u64 set \<Rightarrow> nat set \<Rightarrow> 'a vmm_scheme \<Rightarrow> 'a vmm_scheme \<Rightarrow> bool" where
  "page_frame R P s s' \<longleftrightarrow> kpages_ok R s' \<and> rest s' = rest s \<and> (\<forall>v. heap_va v \<longrightarrow> page_no v \<notin> P \<longrightarrow> kload s' v = kload s v)"

lemma page_frame_trans: "page_frame R P s s1 \<Longrightarrow> page_frame R Q s1 s2 \<Longrightarrow> page_frame R (P \<union> Q) s s2"
  by (simp add: page_frame_def)

lemma page_frame_extends: "kpages_ok R s \<Longrightarrow> extends s s1 R \<Longrightarrow> rest s1 = rest s \<Longrightarrow> page_frame R P s s1"
  using kpages_extends [of R s s1] by (simp add: page_frame_def)

lemma heap_kernel_half: "heap_va v \<Longrightarrow> space_for s v = g_root_cr3 s"
  by (simp add: heap_va_def space_for_def word_le_nat_alt)

lemma map_page_step:
  assumes ok: "kpages_ok R s" and p: "heap_va p" "aligned p" and al: "alloc_frame s = (z, s1)" "z \<noteq> 0"
  defines "s' \<equiv> snd (vmm_map_page s1 p z VMM_WRITE)"
  shows "page_frame R {page_no p} s s'" "heap_va v \<Longrightarrow> page_no v = page_no p \<Longrightarrow> kload s' v \<noteq> None" "g_pmm s' = g_pmm s1"
proof -
  note A = alloc_frame_spec [OF al(1) spaces_ok_total [OF kpages_okD(1) [OF ok]]]
  have z: "aligned z" "z AND PTE_ADDR_MASK = z" "\<not> busy s z" "busy s1 z" using A(7) al(2) by blast+
  have e1: "extends s s1 R" by (rule extends_alloc [OF kpages_okD(1) [OF ok] al(1)])
  have ok1: "kpages_ok R s1" by (rule kpages_extends(1) [OF ok e1])
  obtain pt where pt: "tab (pmem s1) (g_root_cr3 s1) (take 3 (vpath p)) = Some pt" using kpages_okD(6) [OF ok1 p(1)] by blast
  obtain res s2 where w: "walk_pt s1 (g_root_cr3 s1) p True False = (res, s2)" by (cases "walk_pt s1 (g_root_cr3 s1) p True False")
  note W = walk_present [OF kpages_okD(1,2) [OF ok1] kpages_okD(4) [OF ok1 p(1)] pt w]
  have e2: "extends s1 s2 R" by (rule walk_pt_extends(1) [OF kpages_okD(1,2) [OF ok1] kpages_okD(4) [OF ok1 p(1)] w])
  have ok2: "kpages_ok R s2" by (rule kpages_extends(1) [OF ok1 e2])
  have pt2: "tab (pmem s2) (g_root_cr3 s2) (take 3 (vpath p)) = Some pt"
    using extendsD(6) [OF e2 kpages_okD(2) [OF ok1] _ _ pt] extendsD(4) [OF e2] by simp
  define e where "e = (z AND PTE_ADDR_MASK) OR VMM_WRITE OR VMM_PRESENT"
  have s': "s' = store (cell pt (idx 12 p)) e s2"
    using w W(1) p(2) z(1) unfolding s'_def vmm_map_page_def heap_kernel_half [OF p(1)] vmm_map_page_in_def e_def
    by (simp add: aligned_and)
  have e: "e AND PTE_ADDR_MASK = z" "e AND VMM_PRESENT \<noteq> 0" using z(2) by (simp_all add: e_def word_ao_dist and.assoc)
  have "table_page s1 R z = table_page s R z" by (simp add: table_page_def A(1))
  then have nt: "\<not> table_page s1 R z" using z(3) table_page_busy [OF kpages_okD(1) [OF ok]] by blast
  have new: "busy s2 z" "\<not> table_page s2 R z" using extendsD(5,8) [OF e2 z(4)] nt by simp_all
  have fresh: "frame_of s2 w \<noteq> Some z" if "heap_va w" for w
    using kpages_okD(7) [OF ok that, of z] z(3) kpages_extends(3) [OF ok e1] kpages_extends(3) [OF ok1 e2] by auto
  note K = kpages_leaf [OF ok2 p(1) pt2, of e, folded s', unfolded e(1)]
  have K': "kpages_ok R s'" "heap_va v \<Longrightarrow> page_no v \<noteq> page_no p \<Longrightarrow> kload s' v = kload s2 v"
     "heap_va v \<Longrightarrow> page_no v = page_no p \<Longrightarrow> frame_of s' v = Some z" for v
    using K new fresh e(2) by auto
  show "page_frame R {page_no p} s s'"
    using K' kpages_extends(2) [OF ok e1] kpages_extends(2) [OF ok1 e2] rest_alloc [OF al(1)]
    by (simp add: page_frame_def s'_def rest_ops)
  show "kload s' v \<noteq> None" if "heap_va v" "page_no v = page_no p"
    using kload_frame [OF K'(1) that(1)] K'(3) [OF that] by simp
  show "g_pmm s' = g_pmm s1" using W(2) by (simp add: s' store_def)
qed

lemma spaces_ok_free:
  assumes ok: "spaces_ok s R" and f: "\<not> table_page s R f"
  shows "spaces_ok (free_frame f s) R"
proof -
  have "busy (free_frame f s) t" if "r \<in> R" "idxs q" "length q \<le> 3" "tab (pmem s) r q = Some t" for r q t
    using busy_free [of s t f] spaces_okD(3) [OF ok that] f that unfolding table_page_def by metis
  then show ?thesis
    unfolding spaces_ok_def free_frame_simps using spaces_ok_total [OF ok] spaces_okD(2-4) [OF ok] by blast
qed

lemma free_frame_step:
  assumes ok: "kpages_ok R s" and f: "\<not> table_page s R f" "\<And>v g. heap_va v \<Longrightarrow> frame_of s v = Some g \<Longrightarrow> page_no g \<noteq> page_no f"
  shows "page_frame R {} s (free_frame f s)"
proof -
  have fields: "g_root_cr3 (free_frame f s) = g_root_cr3 s" "g_cr3 (free_frame f s) = g_cr3 s" by (simp_all add: free_frame_def)
  have F: "frame_of (free_frame f s) v = frame_of s v" for v by (simp add: frame_of_def space_def fields)
  have ok': "kpages_ok R (free_frame f s)"
  proof (rule kpages_cong [OF ok spaces_ok_free [OF kpages_okD(1) [OF ok] f(1)] fields])
    show "busy (free_frame f s) g \<and> \<not> table_page (free_frame f s) R g" if "heap_va v" "frame_of (free_frame f s) v = Some g" for v g
      using busy_free [of s g f] kpages_okD(7) [OF ok that(1)] f(2) that by (auto simp: F table_page_def)
    show "page_no v = page_no w" if "heap_va v" "heap_va w" "frame_of (free_frame f s) v = Some g" "frame_of (free_frame f s) w = Some g" for v w g
      using kpages_okD(8) [OF ok that(1,2)] that(3,4) unfolding F by blast
  qed (simp_all add: small_def)
  then show ?thesis using kload_cong [OF ok ok' _ F] by (simp add: page_frame_def)
qed

text \<open>One turn of the loop that releases the pages of a large block.\<close>

lemma unmap_page_step:
  assumes ok: "kpages_ok R s" and p: "heap_va p" "aligned p" and tr: "vmm_translate s p = (phys, s1)"
  shows "page_frame R {page_no p} s (if phys \<noteq> 0 then free_frame phys (vmm_unmap_page s1 p) else s1)"
proof -
  obtain pt where pt: "tab (pmem s) (g_root_cr3 s) (take 3 (vpath p)) = Some pt" "tab (pmem s) (g_cr3 s) (take 3 (vpath p)) = Some pt"
    using kpages_okD(6) [OF ok p(1)] by blast
  obtain r1 t1 where w1: "walk_pt s (g_cr3 s) p False False = (r1, t1)" by (cases "walk_pt s (g_cr3 s) p False False")
  note W1 = walk_present [OF kpages_okD(1,3) [OF ok] kpages_okD(5) [OF ok p(1)] pt(2) w1]
  have "extends s t1 R" by (rule walk_pt_extends(1) [OF kpages_okD(1,3) [OF ok] kpages_okD(5) [OF ok p(1)] w1])
  moreover have "t1 = s1" using tr W1(1) w1 by (simp add: vmm_translate_def vmm_translate_in_def split: if_splits)
  ultimately have e1: "extends s s1 R" by simp
  have ok1: "kpages_ok R s1" by (rule kpages_extends(1) [OF ok e1])
  have pt1: "tab (pmem s1) (g_root_cr3 s1) (take 3 (vpath p)) = Some pt"
    using extendsD(6) [OF e1 kpages_okD(2) [OF ok] _ _ pt(1)] extendsD(4) [OF e1] by simp
  have ph: "phys = (case frame_of s1 p of None \<Rightarrow> 0 | Some f \<Rightarrow> f)"
    using tr W1(1) w1 p(2) \<open>t1 = s1\<close> by (auto simp: vmm_translate_def vmm_translate_in_def frame_of_leaf [OF pt1] aligned_and)
  obtain r2 s2 where w2: "walk_pt s1 (g_root_cr3 s1) p False False = (r2, s2)" by (cases "walk_pt s1 (g_root_cr3 s1) p False False")
  note W2 = walk_present [OF kpages_okD(1,2) [OF ok1] kpages_okD(4) [OF ok1 p(1)] pt1 w2]
  have e2: "extends s1 s2 R" by (rule walk_pt_extends(1) [OF kpages_okD(1,2) [OF ok1] kpages_okD(4) [OF ok1 p(1)] w2])
  have ok2: "kpages_ok R s2" by (rule kpages_extends(1) [OF ok1 e2])
  have pt2: "tab (pmem s2) (g_root_cr3 s2) (take 3 (vpath p)) = Some pt"
    using extendsD(6) [OF e2 kpages_okD(2) [OF ok1] _ _ pt1] extendsD(4) [OF e2] by simp
  define s3 where "s3 = store (cell pt (idx 12 p)) 0 s2"
  have u: "vmm_unmap_page s1 p = s3"
    using w2 W2(1) by (simp add: vmm_unmap_page_def heap_kernel_half [OF p(1)] vmm_unmap_page_in_def s3_def)
  note K = kpages_leaf [OF ok2 p(1) pt2, of 0, folded s3_def, simplified]
  have f12: "page_frame R {page_no p} s s3"
    using K(1,2) kpages_extends(2) [OF ok e1] kpages_extends(2) [OF ok1 e2] rest_ops(2) [OF tr] rest_walk [OF w2]
    by (simp add: page_frame_def s3_def)
  show ?thesis
  proof (cases "phys = 0")
    case True
    then show ?thesis using page_frame_extends [OF ok e1] rest_ops(2) [OF tr] by simp
  next
    case False
    then have fr: "frame_of s1 p = Some phys" using ph by (simp split: option.splits)
    then have fr2: "frame_of s2 p = Some phys" using kpages_extends(3) [OF ok1 e2] by simp
    have nt: "\<not> table_page s3 R phys" unfolding K(4) using kpages_okD(7) [OF ok2 p(1) fr2] by blast
    have "page_no g \<noteq> page_no phys" if "heap_va v" "frame_of s3 v = Some g" for v g
    proof
      assume eq: "page_no g = page_no phys"
      have "frame_of s2 v = Some g" "page_no v \<noteq> page_no p" using that K(3) [OF that(1)] by (auto split: if_splits)
      then show False using page_no_inj [OF _ _ eq] frame_aligned fr2 kpages_okD(8) [OF ok2 that(1) p(1)] by metis
    qed
    then show ?thesis using page_frame_trans [OF f12 free_frame_step [OF K(1) nt]] False u by simp
  qed
qed

section \<open>Loops over pages\<close>

text \<open>The contract of a step on one page: it respects a frame relation that composes, and when it succeeds every word of the
  page satisfies \<open>post\<close>. A loop that stops at the first failure then touches the pages of its range only.\<close>

fun page_loop :: "(u64 \<Rightarrow> 's \<Rightarrow> bool \<times> 's) \<Rightarrow> u64 \<Rightarrow> nat list \<Rightarrow> 's \<Rightarrow> bool \<times> 's" where
  "page_loop step va [] s = (True, s)"
| "page_loop step va (i # is) s = (case step (va + of_nat i * PAGE_SIZE) s of (ok, s) \<Rightarrow> if ok then page_loop step va is s else (False, s))"

locale page_step =
  fixes inv :: "'s \<Rightarrow> bool"
    and frame :: "nat set \<Rightarrow> 's \<Rightarrow> 's \<Rightarrow> bool"
    and word_at :: "'s \<Rightarrow> u64 \<Rightarrow> u64 option"
    and region :: "u64 \<Rightarrow> bool"
    and step :: "u64 \<Rightarrow> 's \<Rightarrow> bool \<times> 's"
    and post :: "u64 option \<Rightarrow> bool"
  assumes frame_refl: "inv s \<Longrightarrow> frame {} s s"
    and frame_inv: "frame P s s' \<Longrightarrow> inv s'"
    and frame_trans: "frame P s s1 \<Longrightarrow> frame Q s1 s2 \<Longrightarrow> frame (P \<union> Q) s s2"
    and frame_mono: "frame P s s' \<Longrightarrow> P \<subseteq> Q \<Longrightarrow> frame Q s s'"
    and frame_word: "frame P s s' \<Longrightarrow> region v \<Longrightarrow> page_no v \<notin> P \<Longrightarrow> word_at s' v = word_at s v"
    and step_frame: "inv s \<Longrightarrow> region p \<Longrightarrow> aligned p \<Longrightarrow> step p s = (ok, s') \<Longrightarrow> frame {page_no p} s s'"
    and step_post: "inv s \<Longrightarrow> region p \<Longrightarrow> aligned p \<Longrightarrow> step p s = (True, s') \<Longrightarrow> region v \<Longrightarrow> page_no v = page_no p \<Longrightarrow> post (word_at s' v)"
begin

lemma loop_pages:
  assumes "inv s" "\<And>i. i \<in> set is \<Longrightarrow> region (va + of_nat i * PAGE_SIZE) \<and> aligned (va + of_nat i * PAGE_SIZE)"
    "page_loop step va is s = (ok, s')"
  shows "frame ((\<lambda>i. page_no (va + of_nat i * PAGE_SIZE)) ` set is) s s'"
    and "ok \<Longrightarrow> i \<in> set is \<Longrightarrow> region v \<Longrightarrow> page_no v = page_no (va + of_nat i * PAGE_SIZE) \<Longrightarrow> post (word_at s' v)"
proof -
  let ?p = "\<lambda>i. va + of_nat i * PAGE_SIZE"
  have "frame (page_no ` ?p ` set is) s s' \<and>
    (ok \<longrightarrow> (\<forall>i v. i \<in> set is \<longrightarrow> region v \<longrightarrow> page_no v = page_no (?p i) \<longrightarrow> post (word_at s' v)))"
    using assms
  proof (induction "is" arbitrary: s)
    case Nil
    then show ?case by (simp add: frame_refl)
  next
    case (Cons i "is")
    obtain ok1 s1 where st: "step (?p i) s = (ok1, s1)" by (cases "step (?p i) s")
    have p: "region (?p i)" "aligned (?p i)" using Cons.prems(2) [of i] by simp_all
    have f1: "frame {page_no (?p i)} s s1" by (rule step_frame [OF Cons.prems(1) p st])
    show ?case
    proof (cases ok1)
      case False
      then have "s' = s1" "\<not> ok" using Cons.prems(3) st by simp_all
      then show ?thesis
        using frame_mono [OF f1] by simp
    next
      case True
      then have l: "page_loop step va is s1 = (ok, s')" using Cons.prems(3) st by simp
      have IH: "frame (page_no ` ?p ` set is) s1 s'"
        "ok \<longrightarrow> (\<forall>i v. i \<in> set is \<longrightarrow> region v \<longrightarrow> page_no v = page_no (?p i) \<longrightarrow> post (word_at s' v))"
        using Cons.IH [OF frame_inv [OF f1] _ l] Cons.prems(2) by simp_all
      have "post (word_at s' v)" if "ok" "region v" "page_no v = page_no (?p i)" for v
        using IH that step_post [OF Cons.prems(1) p] st True frame_word [OF IH(1) that(2)] by (cases "page_no v \<in> page_no ` ?p ` set is") auto
      then show ?thesis using frame_trans [OF f1 IH(1)] IH(2) by auto
    qed
  qed
  then show "frame ((\<lambda>i. page_no (?p i)) ` set is) s s'"
    "ok \<Longrightarrow> i \<in> set is \<Longrightarrow> region v \<Longrightarrow> page_no v = page_no (?p i) \<Longrightarrow> post (word_at s' v)"
    by (auto simp: image_image)
qed

end

definition map_one :: "u64 \<Rightarrow> 'a vmm_scheme \<Rightarrow> bool \<times> 'a vmm_scheme" where
  "map_one p s = (case alloc_frame s of (phys, s) \<Rightarrow> if phys = 0 then (False, s) else (True, snd (vmm_map_page s p phys VMM_WRITE)))"

definition unmap_one :: "u64 \<Rightarrow> 'a vmm_scheme \<Rightarrow> bool \<times> 'a vmm_scheme" where
  "unmap_one p s = (case vmm_translate s p of (phys, s) \<Rightarrow> (True, if phys \<noteq> 0 then free_frame phys (vmm_unmap_page s p) else s))"

lemma map_pages_loop: "map_pages va is s = page_loop map_one va is s"
  by (induction "is" arbitrary: s) (simp_all add: map_one_def split: prod.split)

lemma unmap_pages_loop: "page_loop unmap_one va is s = (True, unmap_pages va is s)"
  by (induction "is" arbitrary: s) (simp_all add: unmap_one_def split: prod.split)

lemma page_frame_refl: "kpages_ok R s \<Longrightarrow> page_frame R P s s"
  by (simp add: page_frame_def)

lemma page_frame_mono: "page_frame R P s s' \<Longrightarrow> P \<subseteq> Q \<Longrightarrow> page_frame R Q s s'"
  by (auto simp: page_frame_def)

lemma map_one_frame:
  assumes "kpages_ok R s" "heap_va p" "aligned p" "map_one p s = (ok, s')"
  shows "page_frame R {page_no p} s s'"
proof -
  obtain z s1 where al: "alloc_frame s = (z, s1)" by (cases "alloc_frame s")
  show ?thesis
  proof (cases "z = 0")
    case True
    then show ?thesis
      using al assms(4) page_frame_extends [OF assms(1) extends_alloc [OF kpages_okD(1) [OF assms(1)] al] rest_alloc [OF al]]
      by (simp add: map_one_def)
  next
    case False
    then show ?thesis using al assms(4) map_page_step(1) [OF assms(1-3) al] by (auto simp: map_one_def)
  qed
qed

lemma map_one_mapped:
  "kpages_ok R s \<Longrightarrow> heap_va p \<Longrightarrow> aligned p \<Longrightarrow> map_one p s = (True, s') \<Longrightarrow> heap_va v \<Longrightarrow> page_no v = page_no p \<Longrightarrow> kload s' v \<noteq> None"
  using map_page_step(2) [of R s p] by (auto simp: map_one_def split: prod.splits if_splits)

interpretation mapping: page_step "kpages_ok R" "page_frame R" kload heap_va map_one "\<lambda>x. x \<noteq> None" for R
proof (unfold_locales, goal_cases)
  case 3
  then show ?case by (rule page_frame_trans)
next
  case 4
  then show ?case by (rule page_frame_mono)
next
  case 6
  then show ?case by (rule map_one_frame)
next
  case 7
  then show ?case by (rule map_one_mapped)
qed (simp_all add: page_frame_def)

interpretation releasing: page_step "kpages_ok R" "page_frame R" kload heap_va unmap_one "\<lambda>x. True" for R
proof (unfold_locales, goal_cases)
  case 3
  then show ?case by (rule page_frame_trans)
next
  case 4
  then show ?case by (rule page_frame_mono)
next
  case (6 s p ok s')
  obtain phys s1 where tr: "vmm_translate s p = (phys, s1)" by (cases "vmm_translate s p")
  show ?case using 6(4) unmap_page_step [OF 6(1-3) tr] tr by (auto simp: unmap_one_def)
qed (simp_all add: page_frame_def)

text \<open>The range of pages of a block.\<close>

lemma page_range:
  assumes "aligned va" "unat va + 4096 * n \<le> 0xFFFFFFFF85000000" "0xFFFFFFFF81000000 \<le> unat va" "i < n"
  shows "heap_va (va + of_nat i * PAGE_SIZE)" "aligned (va + of_nat i * PAGE_SIZE)" "page_no (va + of_nat i * PAGE_SIZE) = page_no va + i"
proof -
  have b: "unat va + 4096 * i < 0xFFFFFFFF85000000" using assms(2,4) by simp
  then have "unat (of_nat i * PAGE_SIZE :: u64) = 4096 * i" by (simp add: unat_word_ariths unat_of_nat)
  then have u: "unat (va + of_nat i * PAGE_SIZE) = unat va + 4096 * i" using b by (simp add: unat_word_ariths)
  show "heap_va (va + of_nat i * PAGE_SIZE)" "aligned (va + of_nat i * PAGE_SIZE)" "page_no (va + of_nat i * PAGE_SIZE) = page_no va + i"
    using assms b by (auto simp: heap_va_def aligned_def page_no_def u)
qed

lemma map_pages_spec:
  assumes ok: "kpages_ok R s" and va: "aligned va" "unat va + 4096 * n \<le> 0xFFFFFFFF85000000" "0xFFFFFFFF81000000 \<le> unat va"
    and m: "map_pages va [0..<n] s = (b, s')"
  shows "page_frame R {page_no va..<page_no va + n} s s'" "b \<Longrightarrow> page_no va \<le> page_no v \<Longrightarrow> page_no v < page_no va + n \<Longrightarrow> kload s' v \<noteq> None"
proof -
  note r = page_range [OF va]
  have "heap_va (va + of_nat i * PAGE_SIZE) \<and> aligned (va + of_nat i * PAGE_SIZE)" if "i \<in> set [0..<n]" for i using r that by simp
  note L = mapping.loop_pages [OF ok this m [unfolded map_pages_loop]]
  have "(\<lambda>i. page_no (va + of_nat i * PAGE_SIZE)) ` set [0..<n] = (\<lambda>i. page_no va + i) ` {0..<n}" using r(3) by simp
  also have "\<dots> = {page_no va..<page_no va + n}" by (simp add: image_add_atLeastLessThan add.commute)
  finally show "page_frame R {page_no va..<page_no va + n} s s'" using L(1) by simp
  show "kload s' v \<noteq> None" if "b" "page_no va \<le> page_no v" "page_no v < page_no va + n"
  proof -
    have i: "page_no v - page_no va \<in> set [0..<n]" "page_no v = page_no (va + of_nat (page_no v - page_no va) * PAGE_SIZE)"
      using r(3) [of "page_no v - page_no va"] that by (simp_all only: set_upt atLeastLessThan_iff) auto
    have "heap_va v" using that(2,3) va unfolding heap_va_def page_no_def aligned_def by auto
    then show ?thesis using L(2) [OF _ that(1) i(1) _ i(2)] by simp
  qed
qed

lemma unmap_pages_spec:
  assumes ok: "kpages_ok R s" and va: "aligned va" "unat va + 4096 * n \<le> 0xFFFFFFFF85000000" "0xFFFFFFFF81000000 \<le> unat va"
  shows "page_frame R {page_no va..<page_no va + n} s (unmap_pages va [0..<n] s)"
proof -
  note r = page_range [OF va]
  have "heap_va (va + of_nat i * PAGE_SIZE) \<and> aligned (va + of_nat i * PAGE_SIZE)" if "i \<in> set [0..<n]" for i using r that by simp
  note L = releasing.loop_pages(1) [OF ok this unmap_pages_loop]
  have "(\<lambda>i. page_no (va + of_nat i * PAGE_SIZE)) ` set [0..<n] = (\<lambda>i. page_no va + i) ` {0..<n}" using r(3) by simp
  also have "\<dots> = {page_no va..<page_no va + n}" by (simp add: image_add_atLeastLessThan add.commute)
  finally show ?thesis using L [of "[0..<n]"] by simp
qed

lemma map_pages_room:
  assumes "kpages_ok R s" "\<And>i. i \<in> set is \<Longrightarrow> heap_va (va + of_nat i * PAGE_SIZE) \<and> aligned (va + of_nat i * PAGE_SIZE)"
    "room s (length is + n)"
  shows "fst (map_pages va is s) \<and> room (snd (map_pages va is s)) n"
  using assms
proof (induction "is" arbitrary: s)
  case (Cons i "is")
  obtain z s1 where al: "alloc_frame s = (z, s1)" by (cases "alloc_frame s")
  have z: "z \<noteq> 0" "room s1 (length is + n)" using alloc_room [OF al spaces_ok_total [OF kpages_okD(1) [OF Cons.prems(1)]]] Cons.prems(3) by simp_all
  note M = map_page_step [OF Cons.prems(1) _ _ al z(1)]
  show ?case using Cons.IH M(1,3) Cons.prems(2) z al by (simp add: page_frame_def room_def)
qed simp

end
