(* ===== verification/Kheap_Layout.thy ===== *)
theory Kheap_Layout
  imports Kmalloc
begin

text \<open>
  The layout of the kernel heap, as a property of the words of its region alone: blocks with their headers, the chain of
  free blocks, the address ranges of released large blocks, no two of which overlap. The operations of the
  allocator are a few rearrangements of it: relinking, splitting a block, joining two neighbours, adding and removing blocks
  and ranges.
\<close>

section \<open>Spans of addresses\<close>

type_synonym hmem = "u64 \<Rightarrow> u64 option"
type_synonym span = "nat \<times> nat"

abbreviation (input) HEAP_LO :: nat where "HEAP_LO \<equiv> 0xFFFFFFFF81000000"
abbreviation (input) HEAP_HI :: nat where "HEAP_HI \<equiv> 0xFFFFFFFF85000000"

definition inspan :: "nat \<Rightarrow> span \<Rightarrow> bool" where
  "inspan a x \<longleftrightarrow> fst x \<le> a \<and> a < fst x + snd x"

definition apart :: "span \<Rightarrow> span \<Rightarrow> bool" where
  "apart x y \<longleftrightarrow> fst x + snd x \<le> fst y \<or> fst y + snd y \<le> fst x"

lemma apart_sym: "apart x y \<Longrightarrow> apart y x"
  by (auto simp: apart_def)

lemma apart_inspan: "apart x y \<Longrightarrow> inspan a x \<Longrightarrow> \<not> inspan a y"
  by (auto simp: apart_def inspan_def)

section \<open>Blocks\<close>

definition val :: "hmem \<Rightarrow> u64 \<Rightarrow> u64" where
  "val f v = (case f v of Some x \<Rightarrow> x | None \<Rightarrow> 0)"

lemma val_upd [simp]: "val (f(v \<mapsto> x)) w = (if w = v then x else val f w)"
  by (simp add: val_def)

lemma val_Some: "f v \<noteq> None \<Longrightarrow> f v = Some (val f v)"
  by (auto simp: val_def)

definition bspan :: "hmem \<Rightarrow> u64 \<Rightarrow> span" where
  "bspan f b = (unat b, if val f (b_pages b) = 0 then 24 + unat (val f (b_size b)) else 4096 * unat (val f (b_pages b)))"

definition hspan :: "large_free \<Rightarrow> span" where
  "hspan h = (unat (lf_va h), 4096 * unat (lf_pages h))"

definition blk :: "hmem \<Rightarrow> nat \<Rightarrow> u64 \<Rightarrow> bool" where
  "blk f nx b \<longleftrightarrow> HEAP_LO \<le> unat b \<and> unat b + snd (bspan f b) \<le> nx \<and> 8 dvd unat b \<and> 8 dvd unat (val f (b_size b)) \<and>
     (\<forall>v. inspan (unat v) (bspan f b) \<longrightarrow> f v \<noteq> None) \<and>
     (val f (b_pages b) \<noteq> 0 \<longrightarrow> aligned b \<and> 24 + unat (val f (b_size b)) \<le> 4096 * unat (val f (b_pages b)))"

lemma blk_span: "blk f nx b \<Longrightarrow> 24 + unat (val f (b_size b)) \<le> snd (bspan f b)"
  by (auto simp: blk_def bspan_def)

lemma blk_header:
  assumes "blk f nx b" "nx \<le> HEAP_HI"
  shows "unat (b + 8) = unat b + 8" "unat (b + 16) = unat b + 16" "unat (b + 24) = unat b + 24"
    "inspan (unat b) (bspan f b)" "inspan (unat (b + 8)) (bspan f b)" "inspan (unat (b + 16)) (bspan f b)"
    "f b = Some (val f b)" "f (b + 8) = Some (val f (b + 8))" "f (b + 16) = Some (val f (b + 16))"
proof -
  have s: "24 \<le> snd (bspan f b)" "fst (bspan f b) = unat b" using blk_span [OF assms(1)] by (simp_all add: bspan_def)
  then have "unat b + 24 \<le> HEAP_HI" using assms by (auto simp: blk_def)
  then show u: "unat (b + 8) = unat b + 8" "unat (b + 16) = unat b + 16" "unat (b + 24) = unat b + 24" by (simp_all add: unat_word_ariths)
  show i: "inspan (unat b) (bspan f b)" "inspan (unat (b + 8)) (bspan f b)" "inspan (unat (b + 16)) (bspan f b)"
    unfolding u using s by (simp_all add: inspan_def)
  show "f b = Some (val f b)" "f (b + 8) = Some (val f (b + 8))" "f (b + 16) = Some (val f (b + 16))"
    using i assms(1) val_Some unfolding blk_def by metis+
qed

text \<open>A block depends on the words of its span only, and moves into a larger arena.\<close>

lemma blk_agree:
  assumes b: "blk f nx b" "nx \<le> HEAP_HI" "nx \<le> nx'" and g: "\<And>v. inspan (unat v) (bspan f b) \<Longrightarrow> g v = f v"
  shows "bspan g b = bspan f b" "blk g nx' b" "val g b = val f b" "val g (b + 8) = val f (b + 8)"
proof -
  note h = blk_header [OF b(1,2)]
  have v: "val g b = val f b" "val g (b + 8) = val f (b + 8)" using g [OF h(4)] g [OF h(5)] by (simp_all add: val_def)
  then show s: "bspan g b = bspan f b" by (simp add: bspan_def)
  show "val g b = val f b" "val g (b + 8) = val f (b + 8)" using v by simp_all
  show "blk g nx' b" using b g unfolding blk_def s v by auto
qed

section \<open>Families of blocks and ranges\<close>

definition hole :: "nat \<Rightarrow> large_free \<Rightarrow> bool" where
  "hole nx h \<longleftrightarrow> HEAP_LO \<le> unat (lf_va h) \<and> aligned (lf_va h) \<and> lf_pages h \<noteq> 0 \<and> unat (lf_va h) + 4096 * unat (lf_pages h) \<le> nx"

definition blocks :: "hmem \<Rightarrow> nat \<Rightarrow> large_free list \<Rightarrow> u64 set \<Rightarrow> bool" where
  "blocks f nx hs B \<longleftrightarrow> HEAP_LO \<le> nx \<and> nx \<le> HEAP_HI \<and> 4096 dvd nx \<and> (\<forall>b \<in> B. blk f nx b) \<and>
     (\<forall>b \<in> B. \<forall>c \<in> B. b \<noteq> c \<longrightarrow> apart (bspan f b) (bspan f c)) \<and>
     (\<forall>h \<in> set hs. hole nx h) \<and> sorted_wrt (\<lambda>h k. apart (hspan h) (hspan k)) hs \<and>
     (\<forall>h \<in> set hs. \<forall>b \<in> B. apart (hspan h) (bspan f b))"

lemma blocksD:
  assumes "blocks f nx hs B"
  shows "HEAP_LO \<le> nx" "nx \<le> HEAP_HI" "4096 dvd nx" "b \<in> B \<Longrightarrow> blk f nx b"
    "b \<in> B \<Longrightarrow> c \<in> B \<Longrightarrow> b \<noteq> c \<Longrightarrow> apart (bspan f b) (bspan f c)"
    "h \<in> set hs \<Longrightarrow> hole nx h" "sorted_wrt (\<lambda>h k. apart (hspan h) (hspan k)) hs" "h \<in> set hs \<Longrightarrow> b \<in> B \<Longrightarrow> apart (hspan h) (bspan f b)"
  using assms unfolding blocks_def by blast+

lemma blocks_agree:
  assumes B: "blocks f nx hs B" and nx: "nx \<le> nx'" "nx' \<le> HEAP_HI" "4096 dvd nx'"
    and g: "\<And>b v. b \<in> B \<Longrightarrow> inspan (unat v) (bspan f b) \<Longrightarrow> g v = f v"
  shows "blocks g nx' hs B" "b \<in> B \<Longrightarrow> bspan g b = bspan f b"
proof -
  have A: "bspan g b = bspan f b \<and> blk g nx' b" if b: "b \<in> B" for b
    using blk_agree [OF blocksD(4) [OF B b] blocksD(2) [OF B] nx(1) g [OF b]] by blast
  then show "b \<in> B \<Longrightarrow> bspan g b = bspan f b" by blast
  have h: "hole nx' h" if "h \<in> set hs" for h using blocksD(6) [OF B that] nx(1) by (auto simp: hole_def)
  show "blocks g nx' hs B"
    unfolding blocks_def using nx blocksD(1,5,7,8) [OF B] A h by simp
qed

lemma blocks_subset: "blocks f nx hs B \<Longrightarrow> C \<subseteq> B \<Longrightarrow> blocks f nx hs C"
  unfolding blocks_def by blast

lemma blocks_insert:
  assumes "blocks f nx hs B" "blk f nx b" "\<And>c. c \<in> B \<Longrightarrow> apart (bspan f b) (bspan f c)" "\<And>h. h \<in> set hs \<Longrightarrow> apart (hspan h) (bspan f b)"
  shows "blocks f nx hs (insert b B)"
  unfolding blocks_def
proof (intro conjI ballI impI)
  fix c d assume c: "c \<in> insert b B" "d \<in> insert b B" "c \<noteq> d"
  then show "apart (bspan f c) (bspan f d)"
    using assms(3) apart_sym blocksD(5) [OF assms(1), of c d] by blast
qed (use assms(2,4) blocksD [OF assms(1)] in auto)

text \<open>Writing inside the span of one block leaves the other blocks alone.\<close>

lemma blocks_write:
  assumes B: "blocks f nx hs B" and b: "b \<in> B" and g: "\<And>v. \<not> inspan (unat v) (bspan f b) \<Longrightarrow> g v = f v"
  shows "blocks g nx hs (B - {b})" "c \<in> B \<Longrightarrow> c \<noteq> b \<Longrightarrow> bspan g c = bspan f c"
    "c \<in> B \<Longrightarrow> c \<noteq> b \<Longrightarrow> val g c = val f c \<and> val g (c + 8) = val f (c + 8) \<and> g (c + 16) = f (c + 16)"
    "c \<in> B \<Longrightarrow> c \<noteq> b \<Longrightarrow> inspan (unat v) (bspan f c) \<Longrightarrow> g v = f v"
proof -
  have a: "g v = f v" if "c \<in> B" "c \<noteq> b" "inspan (unat v) (bspan f c)" for c v
    using apart_inspan [OF blocksD(5) [OF B that(1) b that(2)] that(3)] g by blast
  then show "c \<in> B \<Longrightarrow> c \<noteq> b \<Longrightarrow> inspan (unat v) (bspan f c) \<Longrightarrow> g v = f v" .
  have "blocks f nx hs (B - {b})" by (rule blocks_subset [OF B]) auto
  note A = blocks_agree [OF this order_refl blocksD(2,3) [OF B], of g]
  show "blocks g nx hs (B - {b})" "c \<in> B \<Longrightarrow> c \<noteq> b \<Longrightarrow> bspan g c = bspan f c" using A a by auto
  assume c: "c \<in> B" "c \<noteq> b"
  note h = blk_header [OF blocksD(4) [OF B c(1)] blocksD(2) [OF B]]
  show "val g c = val f c \<and> val g (c + 8) = val f (c + 8) \<and> g (c + 16) = f (c + 16)"
    using a [OF c h(4)] a [OF c h(5)] a [OF c h(6)] by (simp add: val_def)
qed

text \<open>Replacing a block by one that lies inside its span.\<close>

lemma blocks_replace:
  assumes B: "blocks f nx hs B" and b: "b \<in> B" and g: "\<And>v. \<not> inspan (unat v) (bspan f b) \<Longrightarrow> g v = f v"
    and n: "blk g nx b" "snd (bspan g b) \<le> snd (bspan f b)"
  shows "blocks g nx hs B"
proof -
  note W = blocks_write [OF B b g]
  have "apart (bspan g b) (bspan g c)" if "c \<in> B - {b}" for c
    using blocksD(5) [OF B b, of c] that W(2) [of c] n(2) by (auto simp: apart_def bspan_def)
  moreover have "apart (hspan h) (bspan g b)" if "h \<in> set hs" for h
    using blocksD(8) [OF B that b] n(2) by (auto simp: apart_def bspan_def)
  ultimately have "blocks g nx hs (insert b (B - {b}))" by (intro blocks_insert W(1) n(1)) simp_all
  then show ?thesis using b by (simp add: insert_absorb)
qed

lemma blocks_next:
  assumes B: "blocks f nx hs B" and p: "p \<in> B"
  shows "blocks (f(b_next p \<mapsto> x)) nx hs B" "c \<in> B \<Longrightarrow> bspan (f(b_next p \<mapsto> x)) c = bspan f c"
    "c \<in> B \<Longrightarrow> val (f(b_next p \<mapsto> x)) c = val f c \<and> val (f(b_next p \<mapsto> x)) (c + 8) = val f (c + 8)"
proof -
  let ?g = "f(b_next p \<mapsto> x)"
  note h = blk_header [OF blocksD(4) [OF B p] blocksD(2) [OF B]]
  have g: "?g v = f v" if "\<not> inspan (unat v) (bspan f p)" for v using that h(6) by auto
  have n: "p \<noteq> p + 16" "p + 8 \<noteq> p + 16" by simp_all
  then have s: "val ?g p = val f p" "val ?g (p + 8) = val f (p + 8)" "bspan ?g p = bspan f p" by (simp_all add: bspan_def)
  have k: "blk ?g nx p" using blocksD(4) [OF B p] unfolding blk_def s by auto
  show "blocks ?g nx hs B" by (rule blocks_replace [where g = ?g, OF B p g k]) (use s(3) in simp_all)
  note W = blocks_write [where g = ?g, OF B p g]
  show "c \<in> B \<Longrightarrow> bspan ?g c = bspan f c" using W(2) s(3) by (cases "c = p") auto
  show "c \<in> B \<Longrightarrow> val ?g c = val f c \<and> val ?g (c + 8) = val f (c + 8)" using W(3) s(1,2) by (cases "c = p") auto
qed

text \<open>Splitting a block: the remainder gets a header of its own.\<close>

lemma blocks_split:
  fixes sz n :: u64
  assumes B: "blocks f nx hs B" and b: "b \<in> B" "val f (b_pages b) = 0" and sz: "8 dvd unat sz" "unat sz + 24 \<le> unat (val f b)"
  defines "r \<equiv> b + HEADER_SIZE + sz"
  defines "g \<equiv> f(r \<mapsto> val f b - sz - HEADER_SIZE, r + 8 \<mapsto> 0, r + 16 \<mapsto> n, b \<mapsto> sz)"
  shows "blocks g nx hs (insert r B)" "r \<notin> B" "unat r = unat b + 24 + unat sz" "val g b = sz" "val g (b + 8) = 0" "val g (r + 8) = 0" "g (r + 16) = Some n"
    "c \<in> B \<Longrightarrow> c \<noteq> b \<Longrightarrow> bspan g c = bspan f c \<and> val g (c + 8) = val f (c + 8) \<and> g (c + 16) = f (c + 16)" "g (b + 16) = f (b + 16)"
    "\<not> inspan (unat v) (bspan f b) \<Longrightarrow> g v = f v"
proof -
  note hi = blocksD(2) [OF B] and bb = blocksD(4) [OF B b(1)]
  note h = blk_header [OF bb hi]
  have sp: "bspan f b = (unat b, 24 + unat (val f b))" using b(2) by (simp add: bspan_def)
  have lim: "unat b + 24 + unat (val f b) \<le> HEAP_HI" "HEAP_LO \<le> unat b" "8 dvd unat b" "8 dvd unat (val f b)"
    using bb hi by (auto simp: blk_def sp)
  have m: "\<And>v. inspan (unat v) (bspan f b) \<Longrightarrow> f v \<noteq> None" using bb by (simp add: blk_def)
  show ur: "unat r = unat b + 24 + unat sz" using lim sz(2) by (simp add: r_def unat_word_ariths)
  have ur': "unat (r + 8) = unat r + 8" "unat (r + 16) = unat r + 16" using lim sz(2) ur by (simp_all add: unat_word_ariths)
  have us: "unat (val f b - sz - HEADER_SIZE) = unat (val f b) - unat sz - 24" using sz(2) by (simp add: unat_sub_if')
  have ne: "b + 8 \<noteq> b" "r \<noteq> b" "r \<noteq> b + 8" "r \<noteq> b + 16" "r + 8 \<noteq> b" "r + 8 \<noteq> b + 8" "r + 8 \<noteq> b + 16" "r + 16 \<noteq> b" "r + 16 \<noteq> b + 8" "r + 16 \<noteq> b + 16"
    "b + 16 \<noteq> b"
    by (simp_all add: word_unat_eq_iff ur ur' h(1,2))
  show "val g b = sz" "val g (b + 8) = 0" "val g (r + 8) = 0" "g (r + 16) = Some n" "g (b + 16) = f (b + 16)"
    using ne b(2) by (simp_all add: g_def)
  have rs: "bspan g r = (unat r, unat (val f b) - unat sz)" using ne us sz(2) by (simp add: bspan_def g_def)
  have bs: "bspan g b = (unat b, 24 + unat sz)" using ne b(2) by (simp add: bspan_def g_def)
  have in_b: "inspan a (bspan f b)" if "inspan a (bspan g r) \<or> inspan a (bspan g b)" for a
    using that sz(2) ur by (auto simp: inspan_def rs bs sp)
  have out: "g v = f v" if "\<not> inspan (unat v) (bspan f b)" for v
  proof -
    have "inspan (unat r) (bspan f b)" "inspan (unat (r + 8)) (bspan f b)" "inspan (unat (r + 16)) (bspan f b)"
      unfolding ur' sp using ur sz(2) by (simp_all add: inspan_def)
    then show ?thesis using that h(4) by (auto simp: g_def)
  qed
  then show "\<not> inspan (unat v) (bspan f b) \<Longrightarrow> g v = f v" .
  have gm: "g v \<noteq> None" if "inspan (unat v) (bspan f b)" for v using m [OF that] by (simp add: g_def)
  have kb: "blk g nx b" using bb sz ne b(2) gm in_b unfolding blk_def bs by (auto simp: g_def sp)
  have kr: "blk g nx r"
    using bb ur us sz lim(3,4) gm in_b ne unfolding blk_def rs by (auto simp: g_def sp intro!: dvd_diff_nat)
  have B': "blocks g nx hs B" by (rule blocks_replace [OF B b(1) out kb]) (use bs sp sz(2) in simp_all)
  show nr: "r \<notin> B"
  proof
    assume r: "r \<in> B"
    note hr = blk_header [OF blocksD(4) [OF B r] hi]
    have "inspan (unat r) (bspan f b)" using in_b [of "unat r"] ur sz(2) by (simp add: rs inspan_def)
    then show False using apart_inspan [OF blocksD(5) [OF B r b(1) ne(2)] hr(4)] by blast
  qed
  note W = blocks_write [OF B b(1) out]
  show W': "bspan g c = bspan f c \<and> val g (c + 8) = val f (c + 8) \<and> g (c + 16) = f (c + 16)" if "c \<in> B" "c \<noteq> b" for c
    using W(2,3) that by blast
  have sub: "fst (bspan f b) \<le> fst (bspan g r)" "fst (bspan g r) + snd (bspan g r) \<le> fst (bspan f b) + snd (bspan f b)"
    using ur sz(2) by (simp_all add: rs sp)
  have "apart (bspan g r) (bspan g c)" if "c \<in> B" for c
  proof (cases "c = b")
    case True
    then show ?thesis using ur by (simp add: rs bs apart_def)
  next
    case False
    then show ?thesis using blocksD(5) [OF B b(1) that] W' [OF that] sub by (auto simp: apart_def)
  qed
  moreover have "apart (hspan h) (bspan g r)" if "h \<in> set hs" for h
    using blocksD(8) [OF B that b(1)] sub by (auto simp: apart_def)
  ultimately show "blocks g nx hs (insert r B)" by (intro blocks_insert B' kr)
qed

text \<open>Joining a block with its neighbour.\<close>

lemma apart_union:
  assumes "apart x (a, m)" "apart x (a + m, n)" "snd x > 0"
  shows "apart x (a, m + n)"
  using assms by (auto simp: apart_def)

lemma blocks_join:
  fixes n :: u64
  assumes B: "blocks f nx hs B" and b: "b \<in> B" "val f (b_pages b) = 0" and c: "c \<in> B" "val f (b_pages c) = 0"
    and adj: "b + HEADER_SIZE + val f b = c"
  defines "g \<equiv> f(b \<mapsto> val f b + (HEADER_SIZE + val f c), b + 16 \<mapsto> n)"
  shows "blocks g nx hs (B - {c})" "b \<noteq> c" "val g (b + 8) = 0"
    "d \<in> B \<Longrightarrow> d \<noteq> b \<Longrightarrow> bspan g d = bspan f d \<and> val g (d + 8) = val f (d + 8) \<and> g (d + 16) = f (d + 16)"
    "d \<in> B \<Longrightarrow> d \<noteq> b \<Longrightarrow> inspan (unat v) (bspan f d) \<Longrightarrow> g v = f v"
proof -
  note hi = blocksD(2) [OF B] and bb = blocksD(4) [OF B b(1)] and cc = blocksD(4) [OF B c(1)]
  note h = blk_header [OF bb hi] and hc = blk_header [OF cc hi]
  have sb: "bspan f b = (unat b, 24 + unat (val f b))" and sc: "bspan f c = (unat c, 24 + unat (val f c))" using b(2) c(2) by (simp_all add: bspan_def)
  have lb: "unat b + 24 + unat (val f b) \<le> HEAP_HI" "8 dvd unat b" "8 dvd unat (val f b)" using bb hi by (auto simp: blk_def sb)
  have uc: "unat c = unat b + 24 + unat (val f b)" using adj lb(1) by (auto simp: unat_word_ariths)
  then show ne: "b \<noteq> c" by auto
  have lc: "unat c + 24 + unat (val f c) \<le> nx" "8 dvd unat (val f c)" using cc hi by (auto simp: blk_def sc)
  have us: "unat (val f b + (HEADER_SIZE + val f c)) = unat (val f b) + 24 + unat (val f c)" using lc uc hi by (simp add: unat_word_ariths)
  have out: "g v = f v" if "\<not> inspan (unat v) (bspan f b)" for v using that h(4,6) by (auto simp: g_def)
  show gb: "val g (b + 8) = 0" using b(2) by (simp add: g_def)
  have gs: "bspan g b = (unat b, (24 + unat (val f b)) + (24 + unat (val f c)))" using us gb by (simp add: bspan_def g_def)
  note W = blocks_write [OF B b(1) out]
  show W': "bspan g d = bspan f d \<and> val g (d + 8) = val f (d + 8) \<and> g (d + 16) = f (d + 16)" if "d \<in> B" "d \<noteq> b" for d using W(2,3) that by blast
  show "d \<in> B \<Longrightarrow> d \<noteq> b \<Longrightarrow> inspan (unat v) (bspan f d) \<Longrightarrow> g v = f v" by (rule W(4))
  have gm: "g v \<noteq> None" if "inspan (unat v) (bspan g b)" for v
  proof -
    have "inspan (unat v) (bspan f b) \<or> inspan (unat v) (bspan f c)" using that uc unfolding gs sb sc inspan_def by auto
    then show ?thesis using bb cc unfolding blk_def g_def by auto
  qed
  have kb: "blk g nx b"
    using bb lb lc uc us gb gm unfolding blk_def gs by (auto simp: g_def)
  have u: "apart x (bspan g b)" if "apart x (bspan f b)" "apart x (bspan f c)" "snd x > 0" for x
    using apart_union [of x "unat b" "24 + unat (val f b)" "24 + unat (val f c)"] that uc by (simp add: gs sb sc add.assoc)
  have "apart (bspan g b) (bspan g d)" if d: "d \<in> B - {b} - {c}" for d
  proof -
    have "snd (bspan f d) > 0" using blk_span [OF blocksD(4) [OF B]] d by (metis DiffD1 add_gr_0 less_le_trans zero_less_numeral)
    then have "apart (bspan f d) (bspan g b)" using u blocksD(5) [OF B _ b(1), of d] blocksD(5) [OF B _ c(1), of d] d by auto
    then show ?thesis using apart_sym W' d by auto
  qed
  moreover have "apart (hspan h) (bspan g b)" if "h \<in> set hs" for h
    using u blocksD(8) [OF B that] b(1) c(1) blocksD(6) [OF B that] by (auto simp: hole_def hspan_def unat_gt_0)
  moreover have "blocks g nx hs (B - {b} - {c})" by (rule blocks_subset [OF W(1)]) auto
  ultimately have "blocks g nx hs (insert b (B - {b} - {c}))" by (intro blocks_insert kb)
  moreover have "insert b (B - {b} - {c}) = B - {c}" using b(1) ne by auto
  ultimately show "blocks g nx hs (B - {c})" by simp
qed

section \<open>The free list\<close>

fun chain :: "hmem \<Rightarrow> u64 \<Rightarrow> u64 list \<Rightarrow> bool" where
  "chain f a [] \<longleftrightarrow> a = 0"
| "chain f a (b # F) \<longleftrightarrow> a = b \<and> b \<noteq> 0 \<and> (\<exists>n. f (b_next b) = Some n \<and> chain f n F)"

lemma free_chain_cong: "(\<And>b. b \<in> set F \<Longrightarrow> g (b_next b) = f (b_next b)) \<Longrightarrow> chain g a F = chain f a F"
  by (induction F arbitrary: a) auto

fun lget :: "hmem \<times> u64 \<Rightarrow> blk_link \<Rightarrow> u64 option" where
  "lget (f, fr) Head = Some fr"
| "lget (f, fr) (Next b) = f (b_next b)"

fun lset :: "blk_link \<Rightarrow> u64 \<Rightarrow> hmem \<times> u64 \<Rightarrow> hmem \<times> u64" where
  "lset Head x (f, fr) = (f, x)"
| "lset (Next b) x (f, fr) = (f(b_next b \<mapsto> x), fr)"

definition lnk :: "u64 list \<Rightarrow> blk_link" where
  "lnk F = (if F = [] then Head else Next (last F))"

lemma chain_lget: "chain f fr (F @ G) \<Longrightarrow> \<exists>x. lget (f, fr) (lnk F) = Some x \<and> chain f x G"
proof (induction F arbitrary: fr)
  case (Cons b F)
  then obtain n where n: "f (b_next b) = Some n" "chain f n (F @ G)" by auto
  then show ?case using Cons.IH [OF n(2)] by (cases F) (auto simp: lnk_def)
qed (simp add: lnk_def)

lemma chain_lset:
  assumes "chain f fr (F @ G)" "distinct F" "chain f x H" "set H \<inter> set F = {}"
  shows "chain (fst (lset (lnk F) x (f, fr))) (snd (lset (lnk F) x (f, fr))) (F @ H)"
proof (cases F rule: rev_cases)
  case Nil
  then show ?thesis using assms by (simp add: lnk_def)
next
  case (snoc E p)
  let ?g = "f(b_next p \<mapsto> x)"
  have "?g (b_next b) = f (b_next b)" if "b \<in> set H" for b using that assms(4) snoc by auto
  then have "chain ?g x H" using assms(3) free_chain_cong [of H ?g f x] by blast
  moreover have "chain f a (E @ p # G) \<Longrightarrow> p \<notin> set E \<Longrightarrow> chain ?g x H \<Longrightarrow> chain ?g a (E @ p # H)" for a
    by (induction E arbitrary: a) auto
  ultimately show ?thesis using assms(1,2) snoc by (simp add: lnk_def)
qed

definition layout :: "hmem \<Rightarrow> u64 \<Rightarrow> nat \<Rightarrow> large_free list \<Rightarrow> u64 list \<Rightarrow> u64 set \<Rightarrow> bool" where
  "layout f fr nx hs F L \<longleftrightarrow> blocks f nx hs (set F \<union> L) \<and> chain f fr F \<and> distinct F \<and> set F \<inter> L = {} \<and> (\<forall>b \<in> set F. val f (b_pages b) = 0)"

lemma layoutD:
  assumes "layout f fr nx hs F L"
  shows "blocks f nx hs (set F \<union> L)" "chain f fr F" "distinct F" "set F \<inter> L = {}" "b \<in> set F \<Longrightarrow> val f (b_pages b) = 0"
  using assms by (auto simp: layout_def)

text \<open>The live blocks a step leaves alone.\<close>

definition untouched :: "hmem \<Rightarrow> hmem \<Rightarrow> u64 set \<Rightarrow> bool" where
  "untouched f g L \<longleftrightarrow> (\<forall>c \<in> L. \<forall>v. inspan (unat v) (bspan f c) \<longrightarrow> g v = f v)"

lemma untouched_trans:
  assumes "untouched f g L" "untouched g h L" "\<And>c. c \<in> L \<Longrightarrow> bspan g c = bspan f c"
  shows "untouched f h L"
  using assms unfolding untouched_def by metis

lemma untouched_span:
  assumes "blocks f nx hs B" "L \<subseteq> B" "untouched f g L" "c \<in> L"
  shows "bspan g c = bspan f c" "val g c = val f c"
  using blk_agree(1,3) [OF blocksD(4) [OF assms(1)] blocksD(2) [OF assms(1)] order_refl, of c g] assms(2-4) by (auto simp: untouched_def)

text \<open>Storing into a link of the list.\<close>

lemma blocks_lset:
  fixes x fr :: u64
  assumes B: "blocks f nx hs B" and F: "set F \<subseteq> B"
  defines "g \<equiv> fst (lset (lnk F) x (f, fr))"
  shows "blocks g nx hs B" "c \<in> B \<Longrightarrow> bspan g c = bspan f c" "c \<in> B \<Longrightarrow> val g c = val f c \<and> val g (c + 8) = val f (c + 8)"
    "c \<in> B - set F \<Longrightarrow> inspan (unat v) (bspan f c) \<Longrightarrow> g v = f v"
    "\<And>v. (\<And>p. p \<in> set F \<Longrightarrow> v \<noteq> p + 16) \<Longrightarrow> g v = f v"
proof -
  have g: "g = (if F = [] then f else f(b_next (last F) \<mapsto> x))" by (simp add: g_def lnk_def)
  have p: "F \<noteq> [] \<Longrightarrow> last F \<in> B" using F by auto
  note N = blocks_next [OF B p]
  show "blocks g nx hs B" "c \<in> B \<Longrightarrow> bspan g c = bspan f c" "c \<in> B \<Longrightarrow> val g c = val f c \<and> val g (c + 8) = val f (c + 8)"
    using B N by (simp_all add: g)
  show "\<And>v. (\<And>p. p \<in> set F \<Longrightarrow> v \<noteq> p + 16) \<Longrightarrow> g v = f v" by (auto simp: g)
  assume c: "c \<in> B - set F" and v: "inspan (unat v) (bspan f c)"
  show "g v = f v"
  proof (cases "F = []")
    case False
    then have "c \<noteq> last F" using c by auto
    moreover note h = blk_header(6) [OF blocksD(4) [OF B p [OF False]] blocksD(2) [OF B]]
    ultimately have "v \<noteq> b_next (last F)" using apart_inspan [OF blocksD(5) [OF B _ p [OF False]] v] c by auto
    then show ?thesis using False by (simp add: g)
  qed (simp add: g)
qed

lemma layout_take:
  assumes l: "layout f fr nx hs (F @ b # G) L"
  defines "g \<equiv> fst (lset (lnk F) (val f (b_next b)) (f, fr))" and "fr' \<equiv> snd (lset (lnk F) (val f (b_next b)) (f, fr))"
  shows "layout g fr' nx hs (F @ G) (insert b L)" "untouched f g L" "c \<in> insert b L \<Longrightarrow> bspan g c = bspan f c" "val g b = val f b"
    "g (b_pages b) = Some 0"
proof -
  note D = layoutD [OF l]
  obtain n where n: "f (b_next b) = Some n" "chain f n G" using chain_lget [of f fr F "b # G"] D(2) by auto
  then have vn: "val f (b_next b) = n" by (simp add: val_def)
  note S = blocks_lset [OF D(1), of F, where fr = fr and x = n, folded g_def [unfolded vn]]
  have ch: "chain g fr' (F @ G)"
    unfolding g_def fr'_def vn by (rule chain_lset [OF _ _ n(2)]) (use D(2,3) in \<open>auto intro: D(2)\<close>)
  have eq: "set (F @ G) \<union> insert b L = set (F @ b # G) \<union> L" by auto
  have z: "val g (c + 8) = 0" if "c \<in> set (F @ b # G)" for c using S(3) [of c] D(5) [OF that] that by auto
  show "layout g fr' nx hs (F @ G) (insert b L)"
    unfolding layout_def eq using S(1) ch D(3,4) z by auto
  show "untouched f g L" unfolding untouched_def using S(4) D(4) by auto
  show "c \<in> insert b L \<Longrightarrow> bspan g c = bspan f c" "val g b = val f b" using S(2,3) by auto
  have "g (b + 8) = f (b + 8)"
  proof (rule S(4) [of b])
    show "inspan (unat (b + 8)) (bspan f b)" using blk_header(5) [OF blocksD(4) [OF D(1)] blocksD(2) [OF D(1)], of b] by simp
  qed (use D(3) in auto)
  moreover have "f (b + 8) = Some 0" using blk_header(8) [OF blocksD(4) [OF D(1)] blocksD(2) [OF D(1)], of b] D(5) [of b] by simp
  ultimately show "g (b_pages b) = Some 0" by simp
qed

text \<open>Splitting a free block and taking its first part.\<close>

lemma layout_split:
  fixes sz :: u64
  assumes l: "layout f fr nx hs (F @ b # G) L" and sz: "8 dvd unat sz" "unat sz + 24 \<le> unat (val f b)"
  defines "r \<equiv> b + HEADER_SIZE + sz"
  defines "f1 \<equiv> f(r \<mapsto> val f b - sz - HEADER_SIZE, r + 8 \<mapsto> 0, r + 16 \<mapsto> val f (b_next b), b \<mapsto> sz)"
  defines "g \<equiv> fst (lset (lnk F) r (f1, fr))" and "fr' \<equiv> snd (lset (lnk F) r (f1, fr))"
  shows "layout g fr' nx hs (F @ r # G) (insert b L)" "untouched f g L" "c \<in> L \<Longrightarrow> bspan g c = bspan f c" "val g b = sz" "g (b_pages b) = Some 0"
    "r \<noteq> b + 16" "r + 8 \<noteq> b + 16" "p \<in> set F \<Longrightarrow> p + 16 \<noteq> b"
proof -
  note D = layoutD [OF l]
  let ?B = "set (F @ b # G) \<union> L"
  have b: "b \<in> ?B" "val f (b + 8) = 0" using D(5) by auto
  obtain n where n: "f (b_next b) = Some n" "chain f n G" using chain_lget [of f fr F "b # G"] D(2) by auto
  then have vn: "val f (b_next b) = n" by (simp add: val_def)
  note S = blocks_split(1) [where n = n, OF D(1) b sz, folded r_def, folded f1_def [unfolded vn]] blocks_split(2,3) [OF D(1) b sz, folded r_def]
    blocks_split(4-10) [where n = n, OF D(1) b sz, folded r_def, folded f1_def [unfolded vn]]
  have f1n: "f1 (c + 16) = f (c + 16)" if "c \<in> ?B" for c using S(8) [OF that] S(9) by (cases "c = b") auto
  have ch1: "chain f1 fr (F @ b # G)" using D(2) free_chain_cong [of "F @ b # G" f1 f fr] f1n by (metis UnCI)
  have "chain f1 n G" using n(2) free_chain_cong [of G f1 f n] f1n by simp
  moreover have "r \<noteq> 0" using S(3) by (auto simp: word_unat_eq_iff)
  ultimately have chr: "chain f1 r (r # G)" using S(7) by simp
  note Q = blocks_lset [OF S(1), of F, where fr = fr and x = r, folded g_def]
  have ch: "chain g fr' (F @ r # G)"
    unfolding g_def fr'_def by (rule chain_lset [OF ch1 _ chr]) (use D(3) S(2) in auto)
  have F: "set F \<subseteq> insert r ?B" by auto
  have z: "val g (c + 8) = 0" if "c \<in> insert r (set (F @ b # G))" for c
  proof (cases "c = r \<or> c = b")
    case True
    then show ?thesis using Q(3) [OF F, of c] S(5,6) b(1) by auto
  next
    case False
    then show ?thesis using Q(3) [OF F, of c] S(8) [of c] D(5) [of c] that by auto
  qed
  have eq: "set (F @ r # G) \<union> insert b L = insert r ?B" by auto
  show "layout g fr' nx hs (F @ r # G) (insert b L)"
    unfolding layout_def eq using Q(1) [OF F] ch D(3,4) S(2) z by auto
  have nb: "c \<noteq> b" if "c \<in> L" for c using that D(4) by auto
  have u1: "untouched f f1 L" unfolding untouched_def
    using blocks_write(4) [where g = f1, OF D(1) b(1) S(10)] nb by auto
  moreover have "untouched f1 g L" unfolding untouched_def using Q(4) [OF F] D(4) S(2) by auto
  moreover have s1: "bspan f1 c = bspan f c" if "c \<in> L" for c using S(8) that nb by auto
  ultimately show "untouched f g L" by (rule untouched_trans)
  show "c \<in> L \<Longrightarrow> bspan g c = bspan f c" using Q(2) [OF F] s1 by auto
  have gb: "val g b = val f1 b" "bspan g b = bspan f1 b" using Q(2,3) [OF F] b(1) by auto
  show "val g b = sz" using gb S(4) by simp
  note hi = blocksD(2) [OF D(1)]
  note h = blk_header [OF blocksD(4) [OF D(1) b(1)] hi] and hg = blk_header [OF blocksD(4) [OF Q(1) [OF F]] hi, of b]
  show "g (b_pages b) = Some 0" using hg(8) z [of b] b(1) by simp
  show "r \<noteq> b + 16" "r + 8 \<noteq> b + 16"
    using S(3) h(2) blk_header(1) [OF blocksD(4) [OF S(1)] hi, of r] by (auto simp: word_unat_eq_iff)
  show "p + 16 \<noteq> b" if "p \<in> set F"
  proof -
    have pb: "p \<in> ?B" "b \<noteq> p" using that D(3) by auto
    show ?thesis
      using apart_inspan [OF blocksD(5) [OF D(1) b(1) pb] h(4)] blk_header(6) [OF blocksD(4) [OF D(1) pb(1)] hi] by auto
  qed
qed

text \<open>Putting a live block into the list.\<close>

lemma layout_insert:
  assumes l: "layout f fr nx hs (F @ G) L" and b: "b \<in> L" "val f (b_pages b) = 0" and x: "lget (f, fr) (lnk F) = Some x"
  defines "f1 \<equiv> f(b_next b \<mapsto> x)"
  defines "g \<equiv> fst (lset (lnk F) b (f1, fr))" and "fr' \<equiv> snd (lset (lnk F) b (f1, fr))"
  shows "layout g fr' nx hs (F @ b # G) (L - {b})" "untouched f g (L - {b})" "c \<in> set (F @ G) \<union> L \<Longrightarrow> bspan g c = bspan f c"
proof -
  note D = layoutD [OF l]
  let ?B = "set (F @ G) \<union> L"
  have bB: "b \<in> ?B" "b \<notin> set (F @ G)" using b(1) D(4) by auto
  have cx: "chain f x G" using chain_lget [OF D(2)] x by auto
  note N = blocks_next [OF D(1) bB(1), where x = x, folded f1_def]
  have n: "f1 (c + 16) = f (c + 16)" if "c \<noteq> b" for c using that by (simp add: f1_def)
  have ch1: "chain f1 fr (F @ G)" using D(2) free_chain_cong [of "F @ G" f1 f fr] n bB(2) by metis
  have "chain f1 x G" using cx free_chain_cong [of G f1 f x] n bB(2) by (metis UnCI set_append)
  moreover have "b \<noteq> 0" using blocksD(4) [OF D(1) bB(1)] by (auto simp: blk_def)
  ultimately have chb: "chain f1 b (b # G)" by (simp add: f1_def)
  have F: "set F \<subseteq> ?B" by auto
  note Q = blocks_lset [OF N(1) F, where fr = fr and x = b, folded g_def]
  have ch: "chain g fr' (F @ b # G)"
    unfolding g_def fr'_def by (rule chain_lset [OF ch1 _ chb]) (use D(3) bB(2) in auto)
  have v: "val g (c + 8) = val f (c + 8)" if "c \<in> ?B" for c using Q(3) [OF that] N(3) [OF that] by simp
  have eq: "set (F @ b # G) \<union> (L - {b}) = ?B" using b(1) by auto
  have "val g (c + 8) = 0" if "c \<in> set (F @ b # G)" for c using v [of c] D(5) [of c] b that by auto
  then show "layout g fr' nx hs (F @ b # G) (L - {b})"
    unfolding layout_def eq using Q(1) ch D(3,4) bB(2) by auto
  show "c \<in> ?B \<Longrightarrow> bspan g c = bspan f c" using Q(2) N(2) by simp
  have "f1 v = f v" if "\<not> inspan (unat v) (bspan f b)" for v
    using blk_header(6) [OF blocksD(4) [OF D(1) bB(1)] blocksD(2) [OF D(1)]] that by (auto simp: f1_def)
  then have "untouched f f1 (L - {b})" unfolding untouched_def using blocks_write(4) [where g = f1, OF D(1) bB(1)] by auto
  moreover have "untouched f1 g (L - {b})" unfolding untouched_def using Q(4) D(4) by auto
  ultimately show "untouched f g (L - {b})" by (rule untouched_trans) (use N(2) in auto)
qed

text \<open>Joining two neighbours of the list.\<close>

lemma layout_join:
  fixes n :: u64
  assumes l: "layout f fr nx hs (F @ b # c # G) L" and adj: "b + HEADER_SIZE + val f b = c"
  defines "g \<equiv> f(b \<mapsto> val f b + (HEADER_SIZE + val f c), b_next b \<mapsto> val f (b_next c))"
  shows "layout g fr nx hs (F @ b # G) L" "untouched f g L" "d \<in> L \<Longrightarrow> bspan g d = bspan f d"
proof -
  note D = layoutD [OF l]
  let ?B = "set (F @ b # c # G) \<union> L"
  have b: "b \<in> ?B" "val f (b + 8) = 0" and c: "c \<in> ?B" "val f (c + 8) = 0" using D(5) by auto
  note J = blocks_join(1) [where n = "val f (b_next c)", OF D(1) b c adj, folded g_def] blocks_join(2) [OF D(1) b c adj]
    blocks_join(3-5) [where n = "val f (b_next c)", OF D(1) b c adj, folded g_def]
  have gn: "g (d + 16) = f (d + 16)" if "d \<in> ?B" "d \<noteq> b" for d using J(4) that by blast
  obtain m where m: "f (b_next b) = Some c" "f (b_next c) = Some m" "chain f m G"
    using chain_lget [of f fr F "b # c # G"] D(2) by auto
  then have gb: "g (b_next b) = Some m" by (simp add: g_def val_def)
  have dj: "b \<notin> set G" "b \<notin> set F" using D(3) by auto
  have cG: "chain g m G" using m(3) free_chain_cong [of G g f m] gn dj by (metis UnCI list.set_intros(2) set_append)
  have "chain g a (E @ b # G)" if "chain f a (E @ b # c # G)" "\<And>e. e \<in> set E \<Longrightarrow> g (b_next e) = f (b_next e)" for a E
    using that gb cG by (induction E arbitrary: a) auto
  then have ch: "chain g fr (F @ b # G)" using D(2) dj gn by (metis UnCI set_append)
  have eq: "set (F @ b # G) \<union> L = ?B - {c}" using D(3,4) J(2) by auto
  have "val g (d + 8) = 0" if "d \<in> set (F @ b # G)" for d using J(3) J(4) [of d] D(5) [of d] that by (cases "d = b") auto
  then show "layout g fr nx hs (F @ b # G) L"
    unfolding layout_def eq using J(1) ch D(3,4) by auto
  show "untouched f g L" unfolding untouched_def using J(5) D(4) by auto
  show "d \<in> L \<Longrightarrow> bspan g d = bspan f d" using J(4) [of d] D(4) by auto
qed

section \<open>Address ranges\<close>

lemma blocks_holes:
  assumes "blocks f nx hs B" "\<And>h. h \<in> set hs' \<Longrightarrow> hole nx h" "sorted_wrt (\<lambda>h k. apart (hspan h) (hspan k)) hs'"
    "\<And>h b. h \<in> set hs' \<Longrightarrow> b \<in> B \<Longrightarrow> apart (hspan h) (bspan f b)"
  shows "blocks f nx hs' B"
  using assms blocksD(1-5) [OF assms(1)] unfolding blocks_def by blast

lemma apart_nth:
  "sorted_wrt (\<lambda>h k. apart (hspan h) (hspan k)) hs \<longleftrightarrow>
     (\<forall>i j. i < length hs \<longrightarrow> j < length hs \<longrightarrow> i \<noteq> j \<longrightarrow> apart (hspan (hs ! i)) (hspan (hs ! j)))"
proof -
  have "\<forall>i j. i < j \<longrightarrow> j < length hs \<longrightarrow> apart (hspan (hs ! i)) (hspan (hs ! j)) \<Longrightarrow> i < length hs \<Longrightarrow> j < length hs \<Longrightarrow> i \<noteq> j \<Longrightarrow>
      apart (hspan (hs ! i)) (hspan (hs ! j))" for i j
    using apart_sym by (cases "i < j") auto
  then show ?thesis unfolding sorted_wrt_iff_nth_less by auto
qed

lemma hole_span:
  assumes "hole nx h" "nx \<le> HEAP_HI"
  shows "snd (hspan h) > 0" "unat (lf_va h + lf_pages h * PAGE_SIZE) = unat (lf_va h) + 4096 * unat (lf_pages h)"
proof -
  show "snd (hspan h) > 0" using assms by (auto simp: hole_def hspan_def unat_gt_0)
  have b: "unat (lf_va h) + 4096 * unat (lf_pages h) < 2 ^ 64" using assms by (auto simp: hole_def)
  then have "unat (lf_pages h * PAGE_SIZE) = 4096 * unat (lf_pages h)" by (simp add: unat_word_ariths mult.commute)
  then show "unat (lf_va h + lf_pages h * PAGE_SIZE) = unat (lf_va h) + 4096 * unat (lf_pages h)" using b by (simp add: unat_word_ariths)
qed

text \<open>Two adjacent ranges make one.\<close>

lemma hole_join:
  assumes h: "hole nx h" "hole nx k" "nx \<le> HEAP_HI" and adj: "lf_va h + lf_pages h * PAGE_SIZE = lf_va k"
  defines "j \<equiv> \<lparr>lf_va = lf_va h, lf_pages = lf_pages h + lf_pages k\<rparr>"
  shows "hole nx j" "snd x > 0 \<Longrightarrow> apart x (hspan h) \<Longrightarrow> apart x (hspan k) \<Longrightarrow> apart x (hspan j)"
proof -
  have a: "unat (lf_va k) = unat (lf_va h) + 4096 * unat (lf_pages h)" using hole_span(2) [OF h(1,3)] adj by simp
  have k: "unat (lf_va k) + 4096 * unat (lf_pages k) \<le> nx" "unat (lf_pages h) > 0" using h(1,2) by (auto simp: hole_def unat_gt_0)
  have p: "unat (lf_pages h + lf_pages k) = unat (lf_pages h) + unat (lf_pages k)" using a k h(3) by (simp add: unat_word_ariths)
  have "lf_pages h + lf_pages k \<noteq> 0" using p k(2) by (metis add_is_0 not_gr_zero unat_0)
  then show "hole nx j" using h(1) k a p by (simp add: hole_def j_def)
  show "snd x > 0 \<Longrightarrow> apart x (hspan h) \<Longrightarrow> apart x (hspan k) \<Longrightarrow> apart x (hspan j)"
    using apart_union [of x "unat (lf_va h)" "4096 * unat (lf_pages h)" "4096 * unat (lf_pages k)"] a p
    by (simp add: hspan_def j_def distrib_left)
qed

lemma large_free_merge_spec:
  assumes "large_free_merge va pages hs = Some hs'" "\<And>h. h \<in> set hs \<Longrightarrow> hole nx h" "sorted_wrt (\<lambda>h k. apart (hspan h) (hspan k)) hs"
    and n: "hole nx n" "lf_va n = va" "lf_pages n = pages" "nx \<le> HEAP_HI" and "\<And>h. h \<in> set hs \<Longrightarrow> apart (hspan h) (hspan n)"
  shows "(\<forall>h \<in> set hs'. hole nx h) \<and> sorted_wrt (\<lambda>h k. apart (hspan h) (hspan k)) hs' \<and> length hs' = length hs \<and>
    (\<forall>x. snd x > 0 \<longrightarrow> (\<forall>h \<in> set hs. apart x (hspan h)) \<longrightarrow> apart x (hspan n) \<longrightarrow> (\<forall>h \<in> set hs'. apart x (hspan h)))"
  using assms(1-3,8)
proof (induction hs arbitrary: hs')
  case (Cons e es)
  have e: "hole nx e" "apart (hspan e) (hspan n)" using Cons.prems by simp_all
  define j where "j = (if lf_va e + lf_pages e * PAGE_SIZE = va then e\<lparr>lf_pages := lf_pages e + pages\<rparr> else e\<lparr>lf_va := va, lf_pages := lf_pages e + pages\<rparr>)"
  have merged: ?case if c: "lf_va e + lf_pages e * PAGE_SIZE = va \<or> va + pages * PAGE_SIZE = lf_va e"
  proof -
    have hs': "hs' = j # es" using Cons.prems(1) c by (auto simp: j_def)
    have "j = \<lparr>lf_va = lf_va e, lf_pages = lf_pages e + lf_pages n\<rparr> \<and> lf_va e + lf_pages e * PAGE_SIZE = lf_va n \<or>
        j = \<lparr>lf_va = lf_va n, lf_pages = lf_pages n + lf_pages e\<rparr> \<and> lf_va n + lf_pages n * PAGE_SIZE = lf_va e"
      using c n(2,3) by (auto simp: j_def add.commute)
    then have J: "hole nx j" "\<And>x. snd x > 0 \<Longrightarrow> apart x (hspan e) \<Longrightarrow> apart x (hspan n) \<Longrightarrow> apart x (hspan j)"
      using hole_join [OF e(1) n(1,4)] hole_join [OF n(1) e(1) n(4)] by auto
    have "apart (hspan j) (hspan k)" if "k \<in> set es" for k
    proof -
      have "apart (hspan k) (hspan j)"
        using J(2) [OF hole_span(1) [OF _ n(4)], of k] Cons.prems(2,3,4) that apart_sym by auto
      then show ?thesis by (rule apart_sym)
    qed
    then show ?thesis using hs' J Cons.prems(2,3) by auto
  qed
  show ?case
  proof (cases "lf_va e + lf_pages e * PAGE_SIZE = va \<or> va + pages * PAGE_SIZE = lf_va e")
    case False
    then obtain es' where es': "large_free_merge va pages es = Some es'" "hs' = e # es'" using Cons.prems(1) by auto
    have "(\<forall>h \<in> set es'. hole nx h) \<and> sorted_wrt (\<lambda>h k. apart (hspan h) (hspan k)) es' \<and> length es' = length es \<and>
      (\<forall>x. snd x > 0 \<longrightarrow> (\<forall>h \<in> set es. apart x (hspan h)) \<longrightarrow> apart x (hspan n) \<longrightarrow> (\<forall>h \<in> set es'. apart x (hspan h)))"
      by (rule Cons.IH [OF es'(1)]) (use Cons.prems(2-4) in simp_all)
    then have IH: "\<forall>h \<in> set es'. hole nx h" "sorted_wrt (\<lambda>h k. apart (hspan h) (hspan k)) es'" "length es' = length es"
      "\<And>x. snd x > 0 \<Longrightarrow> (\<forall>h \<in> set es. apart x (hspan h)) \<Longrightarrow> apart x (hspan n) \<Longrightarrow> (\<forall>h \<in> set es'. apart x (hspan h))"
      by blast+
    have A: "\<forall>h \<in> set es'. apart (hspan e) (hspan h)"
      using IH(4) [OF hole_span(1) [OF e(1) n(4)]] Cons.prems(3) e(2) by simp
    have X: "\<forall>h \<in> set hs'. apart x (hspan h)" if x: "snd x > 0" "\<forall>h \<in> set (e # es). apart x (hspan h)" "apart x (hspan n)" for x
      using IH(4) [OF x(1) _ x(3)] x(2) es'(2) by simp
    have "\<forall>h \<in> set hs'. hole nx h" "sorted_wrt (\<lambda>h k. apart (hspan h) (hspan k)) hs'" "length hs' = length (e # es)"
      using A IH(1-3) e(1) es'(2) by simp_all
    then show ?thesis using X by blast
  qed (rule merged)
qed simp

lemma large_free_add_blocks:
  assumes B: "blocks f nx (g_large_free s) B" and n: "hole nx \<lparr>lf_va = va, lf_pages = pages\<rparr>"
    and a: "\<And>h. h \<in> set (g_large_free s) \<Longrightarrow> apart (hspan h) (hspan \<lparr>lf_va = va, lf_pages = pages\<rparr>)"
      "\<And>b. b \<in> B \<Longrightarrow> apart (hspan \<lparr>lf_va = va, lf_pages = pages\<rparr>) (bspan f b)"
  shows "blocks f nx (g_large_free (large_free_add va pages s)) B"
    "length (g_large_free s) \<le> 256 \<Longrightarrow> length (g_large_free (large_free_add va pages s)) \<le> 256"
proof -
  let ?n = "\<lparr>lf_va = va, lf_pages = pages\<rparr>"
  have *: "blocks f nx (g_large_free (large_free_add va pages s)) B \<and> (length (g_large_free s) \<le> 256 \<longrightarrow> length (g_large_free (large_free_add va pages s)) \<le> 256)"
  proof (cases "large_free_merge va pages (g_large_free s)")
    case None
    have "blocks f nx (g_large_free s @ [?n]) B"
      by (rule blocks_holes [OF B]) (use blocksD(6-8) [OF B] n a in \<open>auto simp: sorted_wrt_append\<close>)
    then show ?thesis using None B by (auto simp: large_free_add_def)
  next
    case (Some hs')
    note M = large_free_merge_spec [OF Some blocksD(6,7) [OF B] n _ _ blocksD(2) [OF B] a(1), simplified]
    have "apart (hspan h) (bspan f b)" if "h \<in> set hs'" "b \<in> B" for h b
    proof -
      have "snd (bspan f b) > 0" using blk_span [OF blocksD(4) [OF B that(2)]] by simp
      then have "apart (bspan f b) (hspan h)" using M that blocksD(8) [OF B _ that(2)] a(2) [OF that(2)] apart_sym by (metis prod.collapse)
      then show ?thesis by (rule apart_sym)
    qed
    then have "blocks f nx hs' B" using blocks_holes [OF B] M by blast
    then show ?thesis using Some M by (simp add: large_free_add_def)
  qed
  then show "blocks f nx (g_large_free (large_free_add va pages s)) B"
    "length (g_large_free s) \<le> 256 \<Longrightarrow> length (g_large_free (large_free_add va pages s)) \<le> 256" by blast+
qed

lemma hole_cut:
  assumes e: "hole nx e" "nx \<le> HEAP_HI" and p: "pages \<noteq> 0" "unat pages \<le> unat (lf_pages e)"
  defines "n \<equiv> \<lparr>lf_va = lf_va e, lf_pages = pages\<rparr>" and "r \<equiv> \<lparr>lf_va = lf_va e + pages * PAGE_SIZE, lf_pages = lf_pages e - pages\<rparr>"
  shows "hole nx n" "apart x (hspan e) \<Longrightarrow> apart x (hspan n)"
    "pages \<noteq> lf_pages e \<Longrightarrow> hole nx r \<and> apart (hspan r) (hspan n) \<and> (\<forall>x. apart x (hspan e) \<longrightarrow> apart x (hspan r))"
proof -
  show n: "hole nx n" using e p by (auto simp: hole_def n_def)
  show "apart x (hspan e) \<Longrightarrow> apart x (hspan n)" using p(2) by (auto simp: apart_def hspan_def n_def)
  assume ne: "pages \<noteq> lf_pages e"
  have u: "unat (lf_va e + pages * PAGE_SIZE) = unat (lf_va e) + 4096 * unat pages" using hole_span(2) [OF n e(2)] by (simp add: n_def)
  have v: "unat (lf_pages e - pages) = unat (lf_pages e) - unat pages" using p(2) by (simp add: unat_sub_if')
  have lt: "unat pages < unat (lf_pages e)" using p(2) ne by (metis le_neq_implies_less word_unat_eq_iff)
  have al: "aligned (lf_va e + pages * PAGE_SIZE)" using e(1) u by (auto simp: aligned_def hole_def)
  have "hole nx r" using e(1) u v lt ne al by (auto simp: hole_def r_def)
  moreover have "apart (hspan r) (hspan n)" using u by (simp add: apart_def hspan_def r_def n_def)
  moreover have "apart x (hspan r)" if "apart x (hspan e)" for x using that u v lt by (auto simp: apart_def hspan_def r_def)
  ultimately show "hole nx r \<and> apart (hspan r) (hspan n) \<and> (\<forall>x. apart x (hspan e) \<longrightarrow> apart x (hspan r))" by blast
qed

text \<open>A family of ranges that picks elements of another one by an injection.\<close>

lemma apart_pick:
  assumes "sorted_wrt (\<lambda>h k. apart (hspan h) (hspan k)) hs" "inj_on \<sigma> {..<length hs'}"
    "\<And>k. k < length hs' \<Longrightarrow> \<sigma> k < length hs \<and> hs' ! k = hs ! \<sigma> k"
  shows "sorted_wrt (\<lambda>h k. apart (hspan h) (hspan k)) hs'" "set hs' \<subseteq> set hs"
proof -
  have "apart (hspan (hs' ! i)) (hspan (hs' ! j))" if "i < length hs'" "j < length hs'" "i \<noteq> j" for i j
    using assms(1) [unfolded apart_nth] assms(3) [OF that(1)] assms(3) [OF that(2)] inj_onD [OF assms(2), of i j] that by auto
  then show "sorted_wrt (\<lambda>h k. apart (hspan h) (hspan k)) hs'" unfolding apart_nth by blast
  show "set hs' \<subseteq> set hs" using assms(3) by (auto simp: in_set_conv_nth) (metis nth_mem)
qed

lemma blocks_drop_hole:
  assumes B: "blocks f nx hs B" and i: "i < length hs"
  defines "hs' \<equiv> butlast (hs[i := last hs])"
  shows "blocks f nx hs' B" "h \<in> set hs' \<Longrightarrow> apart (hspan h) (hspan (hs ! i))"
proof -
  define \<sigma> where "\<sigma> k = (if k = i then length hs - 1 else k)" for k
  have l: "length hs' = length hs - 1" by (simp add: hs'_def)
  have ls: "last hs = hs ! (length hs - 1)" using i by (intro last_conv_nth) auto
  have nth: "\<sigma> k < length hs \<and> hs' ! k = hs ! \<sigma> k \<and> \<sigma> k \<noteq> i" if "k < length hs'" for k
    using that i l by (auto simp: hs'_def \<sigma>_def nth_butlast ls nth_list_update)
  have "inj_on \<sigma> {..<length hs'}" by (auto simp: inj_on_def \<sigma>_def l)
  note P = apart_pick [OF blocksD(7) [OF B] this conjI [OF conjunct1 [OF nth] conjunct1 [OF conjunct2 [OF nth]]]]
  show "blocks f nx hs' B" by (rule blocks_holes [OF B]) (use P blocksD(6,8) [OF B] in auto)
  assume "h \<in> set hs'"
  then obtain k where k: "k < length hs'" "h = hs' ! k" by (auto simp: in_set_conv_nth)
  then show "apart (hspan h) (hspan (hs ! i))" using nth [OF k(1)] blocksD(7) [OF B, unfolded apart_nth] i by auto
qed

lemma blocks_cut_hole:
  assumes B: "blocks f nx hs B" and i: "i < length hs"
    and r: "hole nx r" "\<And>x. apart x (hspan (hs ! i)) \<Longrightarrow> apart x (hspan r)"
  shows "blocks f nx (hs[i := r]) B" "h \<in> set (hs[i := r]) \<Longrightarrow> h = r \<or> apart (hspan h) (hspan (hs ! i))"
proof -
  have a: "apart (hspan (hs ! k)) (hspan r)" if "k < length hs" "k \<noteq> i" for k
    using r(2) blocksD(7) [OF B, unfolded apart_nth] i that by blast
  have s: "sorted_wrt (\<lambda>h k. apart (hspan h) (hspan k)) (hs[i := r])"
    unfolding apart_nth
  proof (intro allI impI)
    fix j k assume "j < length (hs[i := r])" "k < length (hs[i := r])" "j \<noteq> k"
    then show "apart (hspan (hs[i := r] ! j)) (hspan (hs[i := r] ! k))"
      using blocksD(7) [OF B, unfolded apart_nth] a apart_sym [OF a] by (cases "j = i"; cases "k = i") auto
  qed
  have sub: "set (hs[i := r]) \<subseteq> insert r (set hs)" by (rule set_update_subset_insert)
  have "apart (hspan r) (bspan f b)" if "b \<in> B" for b
    using apart_sym [OF r(2)] blocksD(8) [OF B nth_mem [OF i] that] apart_sym by blast
  then show "blocks f nx (hs[i := r]) B" using sub blocksD(6,8) [OF B] r(1) s by (intro blocks_holes [OF B]) auto
  assume "h \<in> set (hs[i := r])"
  then obtain k where k: "k < length hs" "h = hs[i := r] ! k" by (auto simp: in_set_conv_nth)
  then show "h = r \<or> apart (hspan h) (hspan (hs ! i))"
    using blocksD(7) [OF B, unfolded apart_nth] i by (cases "k = i") auto
qed

lemma large_free_take_blocks:
  assumes B: "blocks f nx (g_large_free s) B" and p: "pages \<noteq> 0" and t: "large_free_take pages s = (va, s')"
  defines "n \<equiv> \<lparr>lf_va = va, lf_pages = pages\<rparr>"
  obtains (none) "va = 0" "s' = s" "\<And>h. h \<in> set (g_large_free s) \<Longrightarrow> lf_pages h < pages"
  | (found) hs' where "va \<noteq> 0" "s' = s\<lparr>g_large_free := hs'\<rparr>" "blocks f nx hs' B" "length hs' \<le> length (g_large_free s)" "hole nx n"
      "\<And>h. h \<in> set hs' \<Longrightarrow> apart (hspan h) (hspan n)" "\<And>b. b \<in> B \<Longrightarrow> apart (hspan n) (bspan f b)"
proof (cases "scan (\<lambda>i. \<not> lf_pages (g_large_free s ! i) < pages) 0 (length (g_large_free s))")
  case None
  then have "lf_pages h < pages" if "h \<in> set (g_large_free s)" for h using that by (auto simp: scan_None_iff in_set_conv_nth)
  then show thesis using none None t by (simp add: large_free_take_def)
next
  case (Some i)
  let ?hs = "g_large_free s"
  define e where "e = ?hs ! i"
  have i: "i < length ?hs" "\<not> lf_pages e < pages" using scan_SomeD [OF Some] by (simp_all add: e_def)
  have e: "hole nx e" using blocksD(6) [OF B] i by (simp add: e_def)
  have pe: "unat pages \<le> unat (lf_pages e)" using i(2) by (simp add: word_less_nat_alt)
  have va: "va = lf_va e" using t Some by (auto simp: large_free_take_def e_def Let_def split: if_splits)
  have va0: "va \<noteq> 0" using e by (auto simp: va hole_def)
  note C = hole_cut [OF e blocksD(2) [OF B] p pe, folded va, folded n_def]
  have nb: "apart (hspan n) (bspan f b)" if "b \<in> B" for b
    using apart_sym [OF C(2) [OF apart_sym]] blocksD(8) [OF B nth_mem [OF i(1)] that] by (simp add: e_def)
  show thesis
  proof (cases "lf_pages e = pages")
    case True
    note D = blocks_drop_hole [OF B i(1), folded e_def]
    show thesis
      by (rule found [OF va0 _ D(1) _ C(1) C(2) [OF D(2)] nb]) (use t Some True in \<open>auto simp: large_free_take_def e_def\<close>)
  next
    case False
    define r where "r = \<lparr>lf_va = va + pages * PAGE_SIZE, lf_pages = lf_pages e - pages\<rparr>"
    have R: "hole nx r" "apart (hspan r) (hspan n)" "\<And>x. apart x (hspan (?hs ! i)) \<Longrightarrow> apart x (hspan r)"
      using C(3) False by (auto simp: r_def e_def)
    note D = blocks_cut_hole [OF B i(1) R(1,3), folded e_def]
    have a: "apart (hspan h) (hspan n)" if "h \<in> set (?hs[i := r])" for h using D(2) [OF _ that] R(2) C(2) by blast
    show thesis
      by (rule found [OF va0 _ D(1) _ C(1) a nb]) (use t Some False va in \<open>auto simp: large_free_take_def e_def r_def Let_def\<close>)
  qed
qed

section \<open>New blocks\<close>

lemma layout_frame:
  assumes l: "layout f fr nx hs F L" and nx: "nx \<le> nx'" "nx' \<le> HEAP_HI" "4096 dvd nx'"
    and g: "\<And>v. \<not> inspan (unat v) X \<Longrightarrow> g v = f v" and X: "\<And>b. b \<in> set F \<union> L \<Longrightarrow> apart X (bspan f b)"
  shows "layout g fr nx' hs F L" "untouched f g L" "b \<in> set F \<union> L \<Longrightarrow> bspan g b = bspan f b"
proof -
  note D = layoutD [OF l]
  have a: "g v = f v" if "b \<in> set F \<union> L" "inspan (unat v) (bspan f b)" for b v
    using g apart_inspan [OF apart_sym [OF X [OF that(1)]] that(2)] by blast
  note A = blocks_agree [OF D(1) nx a]
  have h: "val g (b + 8) = val f (b + 8) \<and> g (b + 16) = f (b + 16)" if "b \<in> set F \<union> L" for b
  proof -
    note h = blk_header [OF blocksD(4) [OF D(1) that] blocksD(2) [OF D(1)]]
    show ?thesis using a [OF that h(5)] a [OF that h(6)] by (simp add: val_def)
  qed
  have "chain g fr F" using D(2) free_chain_cong [of F g f fr] h by auto
  then show "layout g fr nx' hs F L" using A(1) D(3-5) h by (auto simp: layout_def)
  show "untouched f g L" using a by (auto simp: untouched_def)
  show "b \<in> set F \<union> L \<Longrightarrow> bspan g b = bspan f b" by (rule A(2))
qed

lemma fresh_blk:
  fixes b sz pages x :: u64
  assumes b: "aligned b" "HEAP_LO \<le> unat b" "unat b + 4096 * n \<le> nx" "nx \<le> HEAP_HI" "n > 0"
    and m: "\<forall>v. inspan (unat v) (unat b, 4096 * n) \<longrightarrow> g v \<noteq> None"
    and sz: "8 dvd unat sz" "24 + unat sz \<le> 4096 * n" "pages = 0 \<and> 24 + unat sz = 4096 * n \<or> unat pages = n"
  defines "h \<equiv> g(b \<mapsto> sz, b + 8 \<mapsto> pages, b + 16 \<mapsto> x)"
  shows "bspan h b = (unat b, 4096 * n)" "blk h nx b" "h (b + 16) = Some x" "val h b = sz" "val h (b + 8) = pages"
    "\<not> inspan (unat v) (unat b, 4096 * n) \<Longrightarrow> h v = g v" "g b \<noteq> None" "g (b + 8) \<noteq> None" "g (b + 16) \<noteq> None"
proof -
  have u: "unat (b + 8) = unat b + 8" "unat (b + 16) = unat b + 16" using b(3-5) by (simp_all add: unat_word_ariths)
  show v: "h (b + 16) = Some x" "val h b = sz" "val h (b + 8) = pages" by (simp_all add: h_def)
  have i: "inspan (unat b) (unat b, 4096 * n)" "inspan (unat (b + 8)) (unat b, 4096 * n)" "inspan (unat (b + 16)) (unat b, 4096 * n)"
    using b(5) by (simp_all add: inspan_def u)
  show "g b \<noteq> None" "g (b + 8) \<noteq> None" "g (b + 16) \<noteq> None" using m i by blast+
  show "\<not> inspan (unat v) (unat b, 4096 * n) \<Longrightarrow> h v = g v" using i by (auto simp: h_def)
  show s: "bspan h b = (unat b, 4096 * n)" using v sz(3) b(5) by (auto simp: bspan_def)
  have "h v \<noteq> None" if "inspan (unat v) (unat b, 4096 * n)" for v using m that by (simp add: h_def)
  moreover have "8 dvd unat b" using b(1) dvd_trans [of 8 4096 "unat b"] by (auto simp: aligned_def)
  ultimately show "blk h nx b" using b sz v unfolding blk_def s by auto
qed

lemma layout_add_live:
  assumes l: "layout f fr nx hs F L" and b: "blk f nx b" "\<And>c. c \<in> set F \<union> L \<Longrightarrow> apart (bspan f b) (bspan f c)" "\<And>h. h \<in> set hs \<Longrightarrow> apart (hspan h) (bspan f b)"
  shows "layout f fr nx hs F (insert b L)" "b \<notin> set F \<union> L"
proof -
  note D = layoutD [OF l]
  have hi: "nx \<le> HEAP_HI" by (rule blocksD(2) [OF D(1)])
  show n: "b \<notin> set F \<union> L"
    using b(2) [of b] apart_inspan [OF _ blk_header(4) [OF b(1) hi]] blk_header(4) [OF b(1) hi] by blast
  have "set F \<union> insert b L = insert b (set F \<union> L)" by simp
  then show "layout f fr nx hs F (insert b L)"
    using blocks_insert [OF D(1) b] D(2-5) n by (simp add: layout_def)
qed

lemma layout_push:
  assumes l: "layout f fr nx hs F L" and b: "blk f nx b" "\<And>c. c \<in> set F \<union> L \<Longrightarrow> apart (bspan f b) (bspan f c)" "\<And>h. h \<in> set hs \<Longrightarrow> apart (hspan h) (bspan f b)"
    and n: "f (b_next b) = Some fr" "val f (b_pages b) = 0"
  shows "layout f b nx hs (b # F) L"
proof -
  have "layout f fr nx hs F (insert b L)" "b \<notin> set F \<union> L" using layout_add_live [OF l b] by blast+
  moreover have "b \<noteq> 0" using b(1) by (auto simp: blk_def)
  ultimately show ?thesis using n by (auto simp: layout_def)
qed

section \<open>Payloads and removal\<close>

lemma layout_payload:
  assumes l: "layout f fr nx hs F L" and c: "c \<in> L" and v: "unat c + 24 \<le> unat v" "unat v < unat c + 24 + unat (val f c)"
  shows "layout (f(v \<mapsto> x)) fr nx hs F L" "untouched f (f(v \<mapsto> x)) (L - {c})" "b \<in> set F \<union> L \<Longrightarrow> bspan (f(v \<mapsto> x)) b = bspan f b"
    "b \<in> L \<Longrightarrow> val (f(v \<mapsto> x)) b = val f b" "f v \<noteq> None"
proof -
  let ?g = "f(v \<mapsto> x)"
  note D = layoutD [OF l]
  have cB: "c \<in> set F \<union> L" "c \<notin> set F" using c D(4) by auto
  note k = blocksD(4) [OF D(1) cB(1)]
  note h = blk_header [OF k blocksD(2) [OF D(1)]]
  have iv: "inspan (unat v) (bspan f c)" using v blk_span [OF k] by (simp add: inspan_def bspan_def)
  then show "f v \<noteq> None" using k by (simp add: blk_def)
  have ne: "v \<noteq> c" "v \<noteq> c + 8" using v(1) h(1) by auto
  then have e: "val ?g c = val f c" "val ?g (c + 8) = val f (c + 8)" "bspan ?g c = bspan f c" by (simp_all add: bspan_def)
  have out: "?g w = f w" if "\<not> inspan (unat w) (bspan f c)" for w using that iv by auto
  have kc: "blk ?g nx c" using k unfolding blk_def e by auto
  have B: "blocks ?g nx hs (set F \<union> L)" by (rule blocks_replace [where g = ?g, OF D(1) cB(1) out kc]) (use e in simp_all)
  note W = blocks_write [where g = ?g, OF D(1) cB(1) out]
  have n: "?g (b + 16) = f (b + 16) \<and> val ?g (b + 8) = val f (b + 8)" if "b \<in> set F" for b
  proof -
    have "b \<noteq> c" using that cB(2) by blast
    then show ?thesis using W(3) [of b] that by blast
  qed
  have "chain ?g fr F" using D(2) free_chain_cong [of F ?g f fr] n by blast
  then show "layout ?g fr nx hs F L" using B D(3-5) n by (auto simp: layout_def)
  show "untouched f ?g (L - {c})" unfolding untouched_def using W(4) by blast
  show "b \<in> set F \<union> L \<Longrightarrow> bspan ?g b = bspan f b" using W(2) e(3) by (cases "b = c") auto
  show "b \<in> L \<Longrightarrow> val ?g b = val f b" using W(3) [of b] e(1) by (cases "b = c") auto
qed

lemma layout_forget:
  assumes "layout f fr nx hs F L" "M \<subseteq> L"
  shows "layout f fr nx hs F M"
  using blocks_subset [OF layoutD(1) [OF assms(1)], of "set F \<union> M"] assms by (auto simp: layout_def)

end
