(* ===== verification/Kmalloc_Inv.thy ===== *)
theory Kmalloc_Inv
  imports Kpages Kheap_Layout
begin

text \<open>
  The invariant of the kernel heap: the pages of its region are sound and its words have the layout of \<open>Kheap_Layout\<close>,
  for a set of live blocks. Each operation of the allocator runs without a fault, keeps the invariant for the
  set of live blocks it leaves, and does not touch the words of the other live blocks.
\<close>

section \<open>The words of the region\<close>

definition heapmem :: "'a vmm_scheme \<Rightarrow> hmem" where
  "heapmem s v = (if heap_va v then kload s v else None)"

lemma kpages_fields:
  assumes "pmem s' = pmem s" "g_pmm s' = g_pmm s" "g_cr3 s' = g_cr3 s" "g_root_cr3 s' = g_root_cr3 s"
  shows "kpages_ok R s' = kpages_ok R s" "heapmem s' = heapmem s" "room s' n = room s n"
proof -
  show "kpages_ok R s' = kpages_ok R s"
    unfolding kpages_ok_def spaces_ok_def small_def frame_of_def space_def busy_def table_page_def assms ..
  show "heapmem s' = heapmem s" by (rule ext) (simp add: heapmem_def kload_def kaddr_def space_def assms)
  show "room s' n = room s n" by (simp add: room_def assms)
qed

lemma kheap_update [simp]:
  "kpages_ok R (s\<lparr>g_free := a\<rparr>) = kpages_ok R s" "kpages_ok R (s\<lparr>g_arena_next := b\<rparr>) = kpages_ok R s"
  "kpages_ok R (s\<lparr>g_arena_bytes := c\<rparr>) = kpages_ok R s" "kpages_ok R (s\<lparr>g_large_free := d\<rparr>) = kpages_ok R s"
  "heapmem (s\<lparr>g_free := a\<rparr>) = heapmem s" "heapmem (s\<lparr>g_arena_next := b\<rparr>) = heapmem s"
  "heapmem (s\<lparr>g_arena_bytes := c\<rparr>) = heapmem s" "heapmem (s\<lparr>g_large_free := d\<rparr>) = heapmem s"
  "room (s\<lparr>g_free := a\<rparr>) n = room s n" "room (s\<lparr>g_arena_next := b\<rparr>) n = room s n"
  "room (s\<lparr>g_arena_bytes := c\<rparr>) n = room s n" "room (s\<lparr>g_large_free := d\<rparr>) n = room s n"
  by (rule kpages_fields; simp)+

lemma rest_fields:
  fixes s s' :: "'a kheap_scheme"
  assumes "rest s' = rest s"
  shows "g_free s' = g_free s" "g_arena_next s' = g_arena_next s" "g_arena_bytes s' = g_arena_bytes s" "g_large_free s' = g_large_free s"
proof -
  have "g_free (rest s') = g_free (rest s)" "g_arena_next (rest s') = g_arena_next (rest s)"
    "g_arena_bytes (rest s') = g_arena_bytes (rest s)" "g_large_free (rest s') = g_large_free (rest s)" using assms by simp_all
  then show "g_free s' = g_free s" "g_arena_next s' = g_arena_next s" "g_arena_bytes s' = g_arena_bytes s" "g_large_free s' = g_large_free s"
    by (simp_all add: rest_def)
qed

lemma kstore_rest: "kstore v x s = Some s' \<Longrightarrow> rest s' = rest s"
  by (auto simp: kstore_def)

text \<open>\<open>kat R s0 (f, fr) s\<close>: \<open>s\<close> is \<open>s0\<close> with the words \<open>f\<close> in the region and the list head \<open>fr\<close>.\<close>

definition kat :: "u64 set \<Rightarrow> 'a kheap_scheme \<Rightarrow> hmem \<times> u64 \<Rightarrow> 'a kheap_scheme \<Rightarrow> bool" where
  "kat R s0 m s \<longleftrightarrow> kpages_ok R s \<and> m = (heapmem s, g_free s) \<and> g_arena_next s = g_arena_next s0 \<and>
     g_arena_bytes s = g_arena_bytes s0 \<and> g_large_free s = g_large_free s0 \<and> g_pmm s = g_pmm s0"

lemma kat_refl: "kpages_ok R s \<Longrightarrow> kat R s (heapmem s, g_free s) s"
  by (simp add: kat_def)

lemma kat_load: "kat R s0 (f, fr) s \<Longrightarrow> f v = Some x \<Longrightarrow> kload s v = Some x"
  by (auto simp: kat_def heapmem_def split: if_splits)

lemma kat_store:
  assumes "kat R s0 (f, fr) s" "f v \<noteq> None"
  shows "\<exists>s'. kstore v x s = Some s' \<and> kat R s0 (f(v \<mapsto> x), fr) s'"
proof -
  have v: "heap_va v" "kload s v \<noteq> None" and ok: "kpages_ok R s" using assms by (auto simp: kat_def heapmem_def split: if_splits)
  obtain s' m where s': "kstore v x s = Some s'" "kpages_ok R s'" "s' = s\<lparr>pmem := m\<rparr>"
    "\<And>w. heap_va w \<Longrightarrow> kload s' w = (if w = v then Some x else kload s w)"
    using kpages_store [OF ok v] by metis
  have "heapmem s' = (heapmem s)(v \<mapsto> x)" using s'(4) v(1) by (auto simp: heapmem_def)
  then show ?thesis using s' assms(1) by (auto simp: kat_def)
qed

lemma kat_get: "kat R s0 (f, fr) s \<Longrightarrow> lget (f, fr) l = Some x \<Longrightarrow> get_link s l = Some x"
  by (cases l) (auto simp: kat_def heapmem_def split: if_splits)

lemma kat_set:
  assumes "kat R s0 (f, fr) s" "lget (f, fr) l \<noteq> None"
  shows "\<exists>s'. set_link l x s = Some s' \<and> kat R s0 (lset l x (f, fr)) s'"
  using assms kat_store [OF assms(1)] by (cases l) (auto simp: kat_def)

lemma page_frame_heapmem:
  fixes s s' :: "'a kheap_scheme"
  assumes "page_frame R P s s'"
  shows "kpages_ok R s'" "page_no v \<notin> P \<Longrightarrow> heapmem s' v = heapmem s v"
    "g_free s' = g_free s" "g_arena_next s' = g_arena_next s" "g_arena_bytes s' = g_arena_bytes s" "g_large_free s' = g_large_free s"
  using assms rest_fields [of s' s] by (simp_all add: page_frame_def heapmem_def)

section \<open>The invariant\<close>

definition kinv :: "u64 set \<Rightarrow> 'a kheap_scheme \<Rightarrow> u64 list \<Rightarrow> u64 set \<Rightarrow> bool" where
  "kinv R s F L \<longleftrightarrow> kpages_ok R s \<and> g_arena_bytes s = g_arena_next s - VMM_KHEAP_BASE \<and> length (g_large_free s) \<le> LARGE_FREE_MAX \<and>
     layout (heapmem s) (g_free s) (unat (g_arena_next s)) (g_large_free s) F L"

definition heap_inv :: "u64 set \<Rightarrow> 'a kheap_scheme \<Rightarrow> u64 set \<Rightarrow> bool" where
  "heap_inv R s L \<longleftrightarrow> (\<exists>F. kinv R s F L)"

lemma kinvD:
  assumes "kinv R s F L"
  shows "kpages_ok R s" "layout (heapmem s) (g_free s) (unat (g_arena_next s)) (g_large_free s) F L"
    "blocks (heapmem s) (unat (g_arena_next s)) (g_large_free s) (set F \<union> L)" "kat R s (heapmem s, g_free s) s" "chain (heapmem s) (g_free s) F"
  using assms by (auto simp: kinv_def layout_def kat_refl)

lemma kinv_kat:
  assumes "kinv R s F L" "kat R s (f, fr) s'" "layout f fr (unat (g_arena_next s)) (g_large_free s) F' L'"
  shows "kinv R s' F' L'"
  using assms by (simp add: kinv_def kat_def)

lemma kinv_untouched:
  assumes "kinv R s F L" "untouched (heapmem s) g L" "c \<in> L"
  shows "bspan g c = bspan (heapmem s) c" "val g c = val (heapmem s) c"
  using untouched_span [OF kinvD(3) [OF assms(1)] _ assms(2,3)] by auto

section \<open>Walking the free list\<close>

lemma lnk_snoc: "lnk (F @ [b]) = Next b"
  by (simp add: lnk_def)

lemma find_fit_spec:
  assumes "kat R s0 (f, fr) s" "chain f fr (F @ G)" "\<And>b. b \<in> set G \<Longrightarrow> f b = Some (val f b)"
  shows "(find_fit s sz (lnk F) = Some None \<and> (\<forall>b \<in> set G. val f b < sz)) \<or>
    (\<exists>E b H. F @ G = E @ b # H \<and> sz \<le> val f b \<and> find_fit s sz (lnk F) = Some (Some (lnk E, b)))"
  using assms(2,3)
proof (induction G arbitrary: F)
  case Nil
  then have "get_link s (lnk F) = Some 0" using chain_lget [OF Nil(1)] kat_get [OF assms(1)] by auto
  then show ?case by (simp add: find_fit.simps)
next
  case (Cons b G)
  have g: "get_link s (lnk F) = Some b" "b \<noteq> 0" using chain_lget [OF Cons.prems(1)] kat_get [OF assms(1)] by auto
  have n: "kload s b = Some (val f b)" by (rule kat_load [OF assms(1) Cons.prems(2)]) simp
  show ?case
  proof (cases "sz \<le> val f b")
    case True
    then have "find_fit s sz (lnk F) = Some (Some (lnk F, b))" using g n by (subst find_fit.simps) simp
    then show ?thesis using True by blast
  next
    case False
    then have "find_fit s sz (lnk F) = find_fit s sz (lnk (F @ [b]))" using g n by (subst find_fit.simps) (simp add: lnk_snoc)
    moreover have "(find_fit s sz (lnk (F @ [b])) = Some None \<and> (\<forall>b \<in> set G. val f b < sz)) \<or>
      (\<exists>E c H. (F @ [b]) @ G = E @ c # H \<and> sz \<le> val f c \<and> find_fit s sz (lnk (F @ [b])) = Some (Some (lnk E, c)))"
      by (rule Cons.IH) (use Cons.prems in simp_all)
    ultimately show ?thesis using False by (simp add: not_le)
  qed
qed

lemma find_place_spec:
  assumes "kat R s0 (f, fr) s" "chain f fr (F @ G)"
  shows "\<exists>E H. F @ G = E @ H \<and> find_place s b (lnk F) = Some (lnk E)"
  using assms(2)
proof (induction G arbitrary: F)
  case Nil
  then have "get_link s (lnk F) = Some 0" using chain_lget [OF Nil(1)] kat_get [OF assms(1)] by auto
  then show ?case by (subst find_place.simps) auto
next
  case (Cons c G)
  have g: "get_link s (lnk F) = Some c" "c \<noteq> 0" using chain_lget [OF Cons.prems(1)] kat_get [OF assms(1)] by auto
  show ?case
  proof (cases "c < b")
    case False
    then show ?thesis using g by (subst find_place.simps) auto
  next
    case True
    then have "find_place s b (lnk F) = find_place s b (lnk (F @ [c]))" using g by (subst find_place.simps) (simp add: lnk_snoc)
    then show ?thesis using Cons.IH [of "F @ [c]"] Cons.prems by simp
  qed
qed

section \<open>Taking a block\<close>

lemma lset_upd:
  assumes "\<And>p. l = Next p \<Longrightarrow> p + 16 \<noteq> b"
  shows "(fst (lset l x (f, fr)))(b \<mapsto> y) = fst (lset l x (f(b \<mapsto> y), fr))" "snd (lset l x (f(b \<mapsto> y), fr)) = snd (lset l x (f, fr))"
  using assms by (cases l; simp; intro fun_upd_twist; simp)+

lemma take_whole:
  assumes inv: "kinv R s (F @ b # G) L" and small: "\<not> sz + HEADER_SIZE + KM_ALIGN \<le> val (heapmem s) b"
  shows "\<exists>s'. take_block (lnk F) b sz s = Some (b + HEADER_SIZE, s') \<and> kinv R s' (F @ G) (insert b L) \<and>
    untouched (heapmem s) (heapmem s') L \<and> val (heapmem s') b = val (heapmem s) b \<and> g_pmm s' = g_pmm s"
proof -
  let ?f = "heapmem s" and ?fr = "g_free s"
  note I = kinvD [OF inv]
  note h = blk_header [OF blocksD(4) [OF I(3)] blocksD(2) [OF I(3)], of b, simplified]
  define n where "n = val ?f (b_next b)"
  define g where "g = lset (lnk F) n (?f, ?fr)"
  note T = layout_take [OF I(2), folded n_def, folded g_def]
  have l: "lget (?f, ?fr) (lnk F) \<noteq> None" using chain_lget [OF I(5)] by auto
  obtain s1 where s1: "set_link (lnk F) n s = Some s1" "kat R s g s1" using kat_set [OF I(4) l] by (auto simp: g_def)
  then have k1: "kat R s (fst g, snd g) s1" by simp
  obtain s2 where s2: "kstore (b_pages b) 0 s1 = Some s2" "kat R s ((fst g)(b_pages b \<mapsto> 0), snd g) s2"
    using kat_store [OF k1, of "b_pages b"] T(5) by auto
  have "(fst g)(b_pages b \<mapsto> 0) = fst g" using T(5) by (simp add: fun_upd_idem)
  then have k2: "kat R s (fst g, snd g) s2" using s2(2) by simp
  have "take_block (lnk F) b sz s = Some (b + HEADER_SIZE, s2)"
    using s1(1) s2(1) kat_load [OF I(4) h(7)] kat_load [OF I(4) h(9)] small by (simp add: take_block_def n_def)
  moreover have "kinv R s2 (F @ G) (insert b L)" using kinv_kat [OF inv k2] T(1) by simp
  moreover have "heapmem s2 = fst g" "g_pmm s2 = g_pmm s" using k2 by (simp_all add: kat_def)
  ultimately show ?thesis using T(2,4) by auto
qed

lemma take_part:
  assumes inv: "kinv R s (F @ b # G) L" and sz: "8 dvd unat sz" "unat sz \<le> 4072" and fits: "sz + HEADER_SIZE + KM_ALIGN \<le> val (heapmem s) b"
  shows "\<exists>s' r. take_block (lnk F) b sz s = Some (b + HEADER_SIZE, s') \<and> kinv R s' (F @ r # G) (insert b L) \<and>
    untouched (heapmem s) (heapmem s') L \<and> val (heapmem s') b = sz \<and> g_pmm s' = g_pmm s"
proof -
  let ?f = "heapmem s" and ?fr = "g_free s"
  note I = kinvD [OF inv]
  have bB: "b \<in> set (F @ b # G) \<union> L" by simp
  note kb = blocksD(4) [OF I(3) bB] and h = blk_header [OF blocksD(4) [OF I(3) bB] blocksD(2) [OF I(3)]]
  define n r where "n = val ?f (b_next b)" and "r = b + HEADER_SIZE + sz"
  define q where "q = val ?f b - sz - HEADER_SIZE"
  have le: "unat sz + 40 \<le> unat (val ?f b)" using fits sz(2) by (simp add: word_le_nat_alt unat_word_ariths)
  have pz: "val ?f (b + 8) = 0" using layoutD(5) [OF I(2), of b] by simp
  define f3 where "f3 = ?f(r \<mapsto> q, r + 8 \<mapsto> 0, r + 16 \<mapsto> n)"
  define g where "g = lset (lnk F) r (f3(b \<mapsto> sz), ?fr)"
  have "unat sz + 24 \<le> unat (val ?f b)" using le by simp
  note T = layout_split [OF I(2) sz(1) this, folded r_def q_def n_def, folded f3_def, folded g_def]
    and S = blocks_split(3) [OF I(3) bB pz sz(1) this, folded r_def]
  have hi: "unat b + 24 + unat (val ?f b) \<le> HEAP_HI" using kb blocksD(2) [OF I(3)] pz by (auto simp: blk_def bspan_def)
  have ur: "unat (r + 8) = unat r + 8" "unat (r + 16) = unat r + 16" using S hi le by (simp_all add: unat_word_ariths)
  have m: "?f r \<noteq> None" "?f (r + 8) \<noteq> None" "?f (r + 16) \<noteq> None"
    using kb le S ur pz unfolding blk_def by (auto simp: inspan_def bspan_def)
  obtain s1 where s1: "kstore r q s = Some s1" "kat R s (?f(r \<mapsto> q), ?fr) s1" using kat_store [OF I(4) m(1)] by blast
  obtain s2 where s2: "kstore (r + 8) 0 s1 = Some s2" "kat R s (?f(r \<mapsto> q, r + 8 \<mapsto> 0), ?fr) s2"
    using kat_store [OF s1(2), of "r + 8"] m(2) by auto
  have ld: "kload s2 (b + 16) = Some n" by (rule kat_load [OF s2(2)]) (use T(6,7) h(9) in \<open>auto simp: n_def\<close>)
  obtain s3 where s3: "kstore (r + 16) n s2 = Some s3" "kat R s (f3, ?fr) s3"
    using kat_store [OF s2(2), of "r + 16"] m(3) by (auto simp: f3_def)
  have l: "lget (f3, ?fr) (lnk F) \<noteq> None" using chain_lget [OF I(5)] by (cases "lnk F") (auto simp: f3_def)
  obtain s4 where s4: "set_link (lnk F) r s3 = Some s4" "kat R s (lset (lnk F) r (f3, ?fr)) s4" using kat_set [OF s3(2) l] by blast
  have ne: "lnk F = Next p \<Longrightarrow> p + 16 \<noteq> b" for p using T(8) [of p] by (auto simp: lnk_def split: if_splits)
  let ?g = "fst (lset (lnk F) r (f3, ?fr))"
  have "kat R s (?g, snd g) s4" using s4(2) lset_upd(2) [OF ne] by (simp add: g_def)
  moreover have "?g b \<noteq> None" using h(7) by (cases "lnk F") (auto simp: f3_def)
  ultimately obtain s5 where s5: "kstore b sz s4 = Some s5" "kat R s (?g(b \<mapsto> sz), snd g) s5" using kat_store by blast
  then have k5: "kat R s (fst g, snd g) s5" using lset_upd(1) [OF ne] by (simp add: g_def)
  obtain s6 where s6: "kstore (b + 8) 0 s5 = Some s6" "kat R s ((fst g)(b + 8 \<mapsto> 0), snd g) s6"
    using kat_store [OF k5, of "b + 8"] T(5) by auto
  have "(fst g)(b + 8 \<mapsto> 0) = fst g" using T(5) by (simp add: fun_upd_idem)
  then have k6: "kat R s (fst g, snd g) s6" using s6(2) by simp
  have "take_block (lnk F) b sz s = Some (b + HEADER_SIZE, s6)"
    using s1(1) s2(1) ld s3(1) s4(1) s5(1) s6(1) kat_load [OF I(4) h(7)] fits by (simp add: take_block_def Let_def r_def q_def)
  moreover have "kinv R s6 (F @ r # G) (insert b L)" using kinv_kat [OF inv k6] T(1) by simp
  moreover have "heapmem s6 = fst g" "g_pmm s6 = g_pmm s" using k6 by (simp_all add: kat_def)
  ultimately show ?thesis using T(2,4) by auto
qed

lemma take_block_spec:
  assumes inv: "kinv R s (F @ b # G) L" and sz: "8 dvd unat sz" "unat sz \<le> 4072" "sz \<le> val (heapmem s) b"
  shows "\<exists>s'. take_block (lnk F) b sz s = Some (b + HEADER_SIZE, s') \<and> heap_inv R s' (insert b L) \<and>
    untouched (heapmem s) (heapmem s') L \<and> sz \<le> val (heapmem s') b \<and> b \<notin> L \<and> HEAP_LO \<le> unat b"
proof -
  note I = kinvD [OF inv]
  have "b \<notin> L" using layoutD(4) [OF I(2)] by auto
  moreover have "HEAP_LO \<le> unat b" using blocksD(4) [OF I(3), of b] by (simp add: blk_def)
  ultimately show ?thesis
    using take_whole [OF inv, of sz] take_part [OF inv sz(1,2)] sz(3) unfolding heap_inv_def by (metis order_refl)
qed

section \<open>Growing the arena\<close>

lemma arenaD:
  assumes "kinv R s F L"
  shows "aligned (g_arena_next s)" "HEAP_LO \<le> unat (g_arena_next s)" "unat (g_arena_next s) \<le> HEAP_HI"
    "g_arena_bytes s = g_arena_next s - VMM_KHEAP_BASE"
  using blocksD(1-3) [OF kinvD(3) [OF assms]] assms by (simp_all add: aligned_def kinv_def)

lemma arena_fits_nat:
  assumes "HEAP_LO \<le> unat va" "unat va \<le> HEAP_HI" "4096 * unat pages < 2 ^ 64 - 2 ^ 26"
  shows "arena_fits va pages \<longleftrightarrow> unat va + 4096 * unat pages \<le> HEAP_HI"
proof -
  have d: "unat (va - VMM_KHEAP_BASE) = unat va - HEAP_LO" using assms(1) by (simp add: unat_sub_if')
  have "unat (pages * PAGE_SIZE) = 4096 * unat pages" using assms(3) by (simp add: unat_word_ariths)
  then have "unat ((va - VMM_KHEAP_BASE) + pages * PAGE_SIZE) = unat va - HEAP_LO + 4096 * unat pages"
    using assms by (simp add: unat_word_ariths(1) d)
  then show ?thesis using assms(1) by (auto simp: arena_fits_def word_le_nat_alt)
qed

lemma put_header_spec:
  assumes k: "kat R s0 (g, fr) s" and m: "g b \<noteq> None" "g (b + 8) \<noteq> None" "g (b + 16) \<noteq> None"
  shows "\<exists>s'. put_header b sz pages x s = Some s' \<and> kat R s0 (g(b \<mapsto> sz, b + 8 \<mapsto> pages, b + 16 \<mapsto> x), fr) s'"
proof -
  obtain s1 where s1: "kstore b sz s = Some s1" "kat R s0 (g(b \<mapsto> sz), fr) s1" using kat_store [OF k m(1)] by blast
  obtain s2 where s2: "kstore (b + 8) pages s1 = Some s2" "kat R s0 (g(b \<mapsto> sz, b + 8 \<mapsto> pages), fr) s2"
    using kat_store [OF s1(2), of "b + 8"] m(2) by auto
  obtain s3 where s3: "kstore (b + 16) x s2 = Some s3" "kat R s0 (g(b \<mapsto> sz, b + 8 \<mapsto> pages, b + 16 \<mapsto> x), fr) s3"
    using kat_store [OF s2(2), of "b + 16"] m(3) by auto
  show ?thesis using s1(1) s2(1) s3 by (simp add: put_header_def)
qed

lemma span_pages: "aligned va \<Longrightarrow> page_no v \<in> {page_no va..<page_no va + n} \<longleftrightarrow> inspan (unat v) (unat va, 4096 * n)"
  by (auto simp: page_no_def aligned_def inspan_def)

lemma kinv_same:
  fixes s s' :: "'a kheap_scheme"
  assumes "kinv R s F L" "page_frame R {} s s'"
  shows "kinv R s' F L" "heapmem s' = heapmem s"
proof -
  note P = page_frame_heapmem [OF assms(2)]
  show "heapmem s' = heapmem s" using P(2) by auto
  then show "kinv R s' F L" using assms(1) P by (simp add: kinv_def)
qed

text \<open>Pages from \<open>va\<close> on were mapped or unmapped, outside all blocks.\<close>

lemma kinv_pages:
  fixes s s' :: "'a kheap_scheme"
  assumes inv: "kinv R s F L" and pf: "page_frame R {page_no va..<page_no va + n} s s'" and va: "aligned va"
    and X: "\<And>b. b \<in> set F \<union> L \<Longrightarrow> apart (unat va, 4096 * n) (bspan (heapmem s) b)"
  shows "kinv R s' F L" "untouched (heapmem s) (heapmem s') L"
    "\<not> inspan (unat v) (unat va, 4096 * n) \<Longrightarrow> heapmem s' v = heapmem s v" "b \<in> set F \<union> L \<Longrightarrow> bspan (heapmem s') b = bspan (heapmem s) b"
proof -
  note P = page_frame_heapmem [OF pf] and I = kinvD [OF inv]
  show g: "\<not> inspan (unat v) (unat va, 4096 * n) \<Longrightarrow> heapmem s' v = heapmem s v" for v
    using P(2) span_pages [OF va, of v n] by blast
  note L = layout_frame [OF I(2) order_refl blocksD(2,3) [OF I(3)] g X]
  show "kinv R s' F L" using inv P L(1) by (simp add: kinv_def)
  show "untouched (heapmem s) (heapmem s') L" "b \<in> set F \<union> L \<Longrightarrow> bspan (heapmem s') b = bspan (heapmem s) b" using L(2,3) by blast+
qed

text \<open>A header at the start of pages that were just mapped.\<close>

lemma fresh_header:
  fixes s s1 :: "'a kheap_scheme"
  assumes inv: "kinv R s F L" and n: "n > 0" and b: "aligned b" "HEAP_LO \<le> unat b" "unat b + 4096 * n \<le> nx"
    and nx: "unat (g_arena_next s) \<le> nx" "nx \<le> HEAP_HI" "4096 dvd nx"
    and X: "\<And>c. c \<in> set F \<union> L \<Longrightarrow> apart (unat b, 4096 * n) (bspan (heapmem s) c)" "\<And>h. h \<in> set (g_large_free s) \<Longrightarrow> apart (hspan h) (unat b, 4096 * n)"
    and pf: "page_frame R {page_no b..<page_no b + n} s s1"
    and m: "\<And>v. inspan (unat v) (unat b, 4096 * n) \<Longrightarrow> kload s1 v \<noteq> None"
    and sz: "8 dvd unat sz" "24 + unat sz \<le> 4096 * n" "pages = 0 \<and> 24 + unat sz = 4096 * n \<or> unat pages = n"
  obtains s2 f where "put_header b sz pages x s1 = Some s2" "kat R s1 (f, g_free s) s2" "layout f (g_free s) nx (g_large_free s) F L"
    "untouched (heapmem s) f L" "blk f nx b" "\<And>c. c \<in> set F \<union> L \<Longrightarrow> apart (bspan f b) (bspan f c)"
    "\<And>h. h \<in> set (g_large_free s) \<Longrightarrow> apart (hspan h) (bspan f b)" "f (b + 16) = Some x" "val f b = sz" "val f (b + 8) = pages"
proof -
  note I = kinvD [OF inv] and P = page_frame_heapmem [OF pf]
  let ?X = "(unat b, 4096 * n)"
  have m1: "\<forall>v. inspan (unat v) ?X \<longrightarrow> heapmem s1 v \<noteq> None"
    using m b nx by (auto simp: heapmem_def heap_va_def inspan_def)
  define f where "f = (heapmem s1)(b \<mapsto> sz, b + 8 \<mapsto> pages, b + 16 \<mapsto> x)"
  note B = fresh_blk(1-6) [OF b nx(2) n(1) m1 sz, where x = x, folded f_def] fresh_blk(7-9) [OF b nx(2) n(1) m1 sz]
  obtain s2 where s2: "put_header b sz pages x s1 = Some s2" "kat R s1 (f, g_free s1) s2"
    using put_header_spec [OF kat_refl [OF P(1)] B(7,8,9), of sz pages x] unfolding f_def by blast
  have g: "f v = heapmem s v" if "\<not> inspan (unat v) ?X" for v
    using B(6) [OF that] P(2) that span_pages [OF b(1), of v n] by simp
  note LF = layout_frame [OF I(2) nx, of ?X f]
  have S: "bspan f c = bspan (heapmem s) c" if "c \<in> set F \<union> L" for c using LF(3) [OF g X(1) that] by blast
  show thesis
  proof (rule that)
    show "put_header b sz pages x s1 = Some s2" "blk f nx b" "f (b + 16) = Some x" "val f b = sz" "val f (b + 8) = pages" using s2 B by blast+
    show "kat R s1 (f, g_free s) s2" using s2(2) P(3) by simp
    show "layout f (g_free s) nx (g_large_free s) F L" "untouched (heapmem s) f L" using LF(1,2) g X(1) by blast+
    show "apart (bspan f b) (bspan f c)" if "c \<in> set F \<union> L" for c using X(1) S that B(1) by simp
    show "apart (hspan h) (bspan f b)" if "h \<in> set (g_large_free s)" for h using X(2) that B(1) by simp
  qed
qed

text \<open>The end of the arena lies behind every block and every range.\<close>

lemma end_apart:
  assumes "kinv R s F L"
  shows "c \<in> set F \<union> L \<Longrightarrow> apart (unat (g_arena_next s), k) (bspan (heapmem s) c)"
    "h \<in> set (g_large_free s) \<Longrightarrow> apart (hspan h) (unat (g_arena_next s), k)"
proof -
  note B = kinvD(3) [OF assms]
  show "c \<in> set F \<union> L \<Longrightarrow> apart (unat (g_arena_next s), k) (bspan (heapmem s) c)"
    using blocksD(4) [OF B, of c] by (auto simp: apart_def blk_def bspan_def)
  show "h \<in> set (g_large_free s) \<Longrightarrow> apart (hspan h) (unat (g_arena_next s), k)"
    using blocksD(6) [OF B, of h] by (auto simp: apart_def hole_def hspan_def)
qed

lemma heap_grow_page_spec:
  fixes s :: "'a kheap_scheme"
  assumes inv: "kinv R s F L"
  obtains (same) s' where "heap_grow_page s = Some s'" "kinv R s' F L" "heapmem s' = heapmem s" "g_arena_bytes s' = g_arena_bytes s"
      "\<not> (arena_fits (g_arena_next s) 1 \<and> room s 1)"
  | (grown) s' b where "heap_grow_page s = Some s'" "kinv R s' (b # F) L" "untouched (heapmem s) (heapmem s') L"
      "val (heapmem s') b = 4072" "g_arena_bytes s' \<noteq> g_arena_bytes s"
      "unat (g_arena_next s') = unat (g_arena_next s) + 4096" "\<And>m. room s (Suc m) \<Longrightarrow> room s' m"
proof (cases "arena_fits (g_arena_next s) 1")
  case False
  then show thesis using same inv by (simp add: heap_grow_page_def)
next
  case fits: True
  note I = kinvD [OF inv] and A = arenaD [OF inv]
  let ?b = "g_arena_next s"
  obtain z s1 where al: "alloc_frame s = (z, s1)" by (cases "alloc_frame s")
  show thesis
  proof (cases "z = 0")
    case True
    have pf: "page_frame R {} s s1" by (rule page_frame_extends [OF I(1) extends_alloc [OF kpages_okD(1) [OF I(1)] al] rest_alloc [OF al]])
    have "\<not> room s 1" using alloc_room [OF al spaces_ok_total [OF kpages_okD(1) [OF I(1)]], of 0] True by auto
    then show thesis
      using same kinv_same [OF inv pf] True al fits page_frame_heapmem(5) [OF pf] by (simp add: heap_grow_page_def)
  next
    case False
    have hi: "unat ?b + 4096 * 1 \<le> HEAP_HI" using arena_fits_nat [OF A(2,3), of 1] fits by simp
    have hb: "heap_va ?b" using hi A(2) by (simp add: heap_va_def)
    define s2 where "s2 = snd (vmm_map_page s1 ?b z VMM_WRITE)"
    note M = map_page_step [OF I(1) hb A(1) al False, folded s2_def]
    have pf: "page_frame R {page_no ?b..<page_no ?b + 1} s s2" using M(1) by simp
    have m: "kload s2 v \<noteq> None" if "inspan (unat v) (unat ?b, 4096 * 1)" for v
    proof -
      have "page_no v = page_no ?b" using span_pages [OF A(1), of v 1] that by auto
      moreover have "heap_va v" using that hi A(2) by (auto simp: heap_va_def inspan_def)
      ultimately show ?thesis using M(2) by blast
    qed
    have d: "4096 dvd unat ?b + 4096 * 1" "unat ?b \<le> unat ?b + 4096 * 1" using A(1) by (simp_all add: aligned_def)
    obtain s3 f where s3: "put_header ?b 4072 0 (g_free s) s2 = Some s3" "kat R s2 (f, g_free s) s3"
      "layout f (g_free s) (unat ?b + 4096 * 1) (g_large_free s) F L" "untouched (heapmem s) f L" "blk f (unat ?b + 4096 * 1) ?b"
      "\<And>c. c \<in> set F \<union> L \<Longrightarrow> apart (bspan f ?b) (bspan f c)" "\<And>h. h \<in> set (g_large_free s) \<Longrightarrow> apart (hspan h) (bspan f ?b)"
      "f (?b + 16) = Some (g_free s)" "val f ?b = 4072" "val f (?b + 8) = 0"
      using fresh_header [OF inv _ A(1,2) order_refl d(2) hi d(1) end_apart [OF inv] pf m, of 4072 0 "g_free s"] by auto
    have lay: "layout f ?b (unat ?b + 4096) (g_large_free s) (?b # F) L"
      using layout_push [OF s3(3,5-7,8,10)] by simp
    note P = page_frame_heapmem [OF pf]
    define s4 where "s4 = s3\<lparr>g_free := ?b, g_arena_next := ?b + PAGE_SIZE, g_arena_bytes := g_arena_bytes s + PAGE_SIZE\<rparr>"
    have k: "kpages_ok R s3" "heapmem s3 = f" "g_large_free s3 = g_large_free s" "g_arena_next s3 = ?b" "g_arena_bytes s3 = g_arena_bytes s"
      using s3(2) P by (auto simp: kat_def)
    have b1: "g_arena_next s1 = ?b" by (rule rest_fields(2) [OF rest_alloc [OF al]])
    obtain t u where tu: "kstore ?b 4072 s2 = Some t" "kstore (?b + 8) 0 t = Some u" "kstore (?b + 16) (g_free s) u = Some s3"
      using s3(1) by (auto simp: put_header_def split: bind_splits)
    have "g_free u = g_free s" using rest_fields(1) [OF kstore_rest [OF tu(2)]] rest_fields(1) [OF kstore_rest [OF tu(1)]] P(3) by simp
    then have "heap_grow_page s = Some s4"
      using tu fits al False k(4,5) P(3,4) b1 by (simp add: heap_grow_page_def Let_def s2_def [symmetric] s4_def)
    moreover have u: "unat (?b + PAGE_SIZE) = unat ?b + 4096" using hi by (simp add: unat_word_ariths)
    then have "kinv R s4 (?b # F) L" using lay k A(4) inv by (simp add: kinv_def s4_def)
    moreover have "g_arena_bytes s4 \<noteq> g_arena_bytes s" by (simp add: s4_def)
    moreover have "room s4 m" if "room s (Suc m)" for m
      using alloc_room [OF al spaces_ok_total [OF kpages_okD(1) [OF I(1)]] that] M(3) s3(2) by (simp add: s4_def kat_def room_def)
    ultimately show thesis using grown s3(4,9) k(2) u by (simp add: s4_def)
  qed
qed

section \<open>Large blocks\<close>

text \<open>The contract of an allocation: no block that is live is touched, and a pointer that is not null is that of a new block of
  at least the requested size.\<close>

definition alloc_result :: "u64 set \<Rightarrow> 'a kheap_scheme \<Rightarrow> u64 set \<Rightarrow> u64 \<Rightarrow> u64 \<Rightarrow> 'a kheap_scheme \<Rightarrow> bool" where
  "alloc_result R s L sz p s' \<longleftrightarrow> untouched (heapmem s) (heapmem s') L \<and>
     (if p = 0 then heap_inv R s' L
      else p - HEADER_SIZE \<notin> L \<and> heap_inv R s' (insert (p - HEADER_SIZE) L) \<and> sz \<le> val (heapmem s') (p - HEADER_SIZE))"

text \<open>How an allocation of \<open>n\<close> pages gets on: with so many free frames and so much of the region left it does not fail, and it uses no more than that.\<close>

definition progress :: "nat \<Rightarrow> 'a kheap_scheme \<Rightarrow> u64 \<Rightarrow> 'a kheap_scheme \<Rightarrow> bool" where
  "progress n s p s' \<longleftrightarrow> (\<forall>m. room s (n + m) \<longrightarrow> unat (g_arena_next s) + 4096 * n \<le> HEAP_HI \<longrightarrow>
     p \<noteq> 0 \<and> room s' m \<and> unat (g_arena_next s') \<le> unat (g_arena_next s) + 4096 * n)"

lemma put_header_same:
  fixes s s' :: "'a kheap_scheme"
  assumes "put_header b sz pages nxt s = Some s'"
  shows "room s' m = room s m" "g_arena_next s' = g_arena_next s"
proof -
  show "room s' m = room s m" using assms by (auto simp: put_header_def kstore_def store_def room_def split: bind_splits)
  have "rest s' = rest s" using assms by (auto simp: put_header_def kstore_def split: bind_splits)
  then show "g_arena_next s' = g_arena_next s" by (rule rest_fields(2))
qed

lemma payload_nonzero: "HEAP_LO \<le> unat b \<Longrightarrow> unat b \<le> HEAP_HI \<Longrightarrow> b + HEADER_SIZE \<noteq> 0"
  by (auto simp: word_unat_eq_iff unat_word_ariths)

lemma kinv_live:
  assumes "kpages_ok R s" "heapmem s = f" "g_free s = fr" "unat (g_arena_next s) = nx" "g_large_free s = hs" "g_arena_bytes s = g_arena_next s - VMM_KHEAP_BASE"
    "length hs \<le> LARGE_FREE_MAX" "layout f fr nx hs F L" "blk f nx b" "\<And>c. c \<in> set F \<union> L \<Longrightarrow> apart (bspan f b) (bspan f c)"
    "\<And>h. h \<in> set hs \<Longrightarrow> apart (hspan h) (bspan f b)"
  shows "kinv R s F (insert b L)"
  using layout_add_live(1) [OF assms(8-11)] assms(1-7) by (auto simp: kinv_def)

lemma pages_nat:
  fixes sz :: u64
  assumes "unat sz \<le> 2 ^ 63"
  shows "unat ((sz + HEADER_SIZE + PAGE_SIZE - 1) div PAGE_SIZE) = (unat sz + 4119) div 4096"
proof -
  have "unat (sz + HEADER_SIZE + PAGE_SIZE - 1) = unat (sz + 4119)" by (simp add: add.commute)
  also have "\<dots> = unat sz + 4119" using assms by (simp add: unat_word_ariths)
  finally show ?thesis by (simp add: unat_div)
qed

lemma large_fresh:
  fixes s :: "'a kheap_scheme"
  assumes inv: "kinv R s F L" and n: "unat pages = n" "n > 0" and fits: "unat (g_arena_next s) + 4096 * n \<le> HEAP_HI"
    and sz: "8 dvd unat sz" "24 + unat sz \<le> 4096 * n" and mp: "map_pages (g_arena_next s) [0..<n] s = (ok, s1)"
  defines "b \<equiv> g_arena_next s"
  shows "\<not> ok \<Longrightarrow> alloc_result R s L sz 0 s1"
    "ok \<Longrightarrow> \<exists>s2. put_header b sz pages 0 s1 = Some s2 \<and>
       alloc_result R s L sz (b + HEADER_SIZE) (s2\<lparr>g_arena_next := g_arena_next s2 + pages * PAGE_SIZE, g_arena_bytes := g_arena_bytes s2 + pages * PAGE_SIZE\<rparr>)"
proof -
  note A = arenaD [OF inv] and I = kinvD [OF inv]
  note M = map_pages_spec [OF I(1) A(1) fits A(2) mp]
  show "alloc_result R s L sz 0 s1" if "\<not> ok"
    using kinv_pages(1,2) [OF inv M(1) A(1) end_apart(1) [OF inv]] by (auto simp: alloc_result_def heap_inv_def)
  assume ok
  have m: "kload s1 v \<noteq> None" if "inspan (unat v) (unat b, 4096 * n)" for v
    using M(2) [OF \<open>ok\<close>, of v] that span_pages [OF A(1), of v n] by (simp add: b_def)
  let ?nx = "unat b + 4096 * n"
  have d: "4096 dvd ?nx" "unat b \<le> ?nx" using A(1) by (simp_all add: aligned_def b_def)
  obtain s2 f where s2: "put_header b sz pages 0 s1 = Some s2" "kat R s1 (f, g_free s) s2" "layout f (g_free s) ?nx (g_large_free s) F L"
    "untouched (heapmem s) f L" "blk f ?nx b" "\<And>c. c \<in> set F \<union> L \<Longrightarrow> apart (bspan f b) (bspan f c)"
    "\<And>h. h \<in> set (g_large_free s) \<Longrightarrow> apart (hspan h) (bspan f b)" "val f b = sz"
    using fresh_header [OF inv n(2) A(1,2) order_refl d(2) [unfolded b_def] fits d(1) [unfolded b_def] end_apart [OF inv] M(1) m [unfolded b_def] sz(1,2) disjI2 [OF n(1)], of 0]
    unfolding b_def by metis
  let ?s = "s2\<lparr>g_arena_next := g_arena_next s2 + pages * PAGE_SIZE, g_arena_bytes := g_arena_bytes s2 + pages * PAGE_SIZE\<rparr>"
  note P = page_frame_heapmem [OF M(1)]
  have k: "kpages_ok R s2" "heapmem s2 = f" "g_free s2 = g_free s" "g_large_free s2 = g_large_free s" "g_arena_next s2 = b" "g_arena_bytes s2 = g_arena_bytes s"
    using s2(2) P by (auto simp: kat_def b_def)
  have u: "unat (b + pages * PAGE_SIZE) = ?nx"
  proof -
    have "unat (pages * PAGE_SIZE) = 4096 * n" using fits n(1) by (simp add: unat_word_ariths)
    then show ?thesis using fits by (simp add: unat_word_ariths(1) b_def)
  qed
  have "kinv R ?s F (insert b L)"
    by (rule kinv_live [OF _ _ _ _ _ _ _ s2(3,5-7)]) (use k u A(4) inv in \<open>simp_all add: kinv_def b_def\<close>)
  moreover have "b \<notin> L" using layout_add_live(2) [OF s2(3,5-7)] by blast
  moreover have "b + HEADER_SIZE \<noteq> 0" using A by (intro payload_nonzero) (simp_all add: b_def)
  ultimately have "alloc_result R s L sz (b + HEADER_SIZE) ?s" using s2(4,8) k(2) by (auto simp: alloc_result_def heap_inv_def)
  then show "\<exists>s2. put_header b sz pages 0 s1 = Some s2 \<and>
       alloc_result R s L sz (b + HEADER_SIZE) (s2\<lparr>g_arena_next := g_arena_next s2 + pages * PAGE_SIZE, g_arena_bytes := g_arena_bytes s2 + pages * PAGE_SIZE\<rparr>)"
    using s2(1) by blast
qed

lemma large_free_add_fields [simp]:
  "heapmem (large_free_add va pages s) = heapmem s" "kpages_ok R (large_free_add va pages s) = kpages_ok R s"
  "g_free (large_free_add va pages s) = g_free s" "g_arena_next (large_free_add va pages s) = g_arena_next s"
  "g_arena_bytes (large_free_add va pages s) = g_arena_bytes s"
  by (simp_all add: large_free_add_def split: option.splits)

text \<open>A range that belongs to nobody goes back to the table.\<close>

lemma kinv_add_range:
  assumes inv: "kinv R s F L" and n: "hole (unat (g_arena_next s)) \<lparr>lf_va = va, lf_pages = pages\<rparr>"
    "\<And>h. h \<in> set (g_large_free s) \<Longrightarrow> apart (hspan h) (hspan \<lparr>lf_va = va, lf_pages = pages\<rparr>)"
    "\<And>b. b \<in> set F \<union> L \<Longrightarrow> apart (hspan \<lparr>lf_va = va, lf_pages = pages\<rparr>) (bspan (heapmem s) b)"
  shows "kinv R (large_free_add va pages s) F L"
  using large_free_add_blocks [OF kinvD(3) [OF inv] n] inv by (simp add: kinv_def layout_def)

lemma large_reuse:
  fixes s :: "'a kheap_scheme"
  assumes inv: "kinv R s F L" and n: "unat pages = n" "n > 0" and h: "hole (unat (g_arena_next s)) \<lparr>lf_va = va, lf_pages = pages\<rparr>"
    and X: "\<And>h. h \<in> set (g_large_free s) \<Longrightarrow> apart (hspan h) (hspan \<lparr>lf_va = va, lf_pages = pages\<rparr>)"
      "\<And>b. b \<in> set F \<union> L \<Longrightarrow> apart (hspan \<lparr>lf_va = va, lf_pages = pages\<rparr>) (bspan (heapmem s) b)"
    and sz: "8 dvd unat sz" "24 + unat sz \<le> 4096 * n" and mp: "map_pages va [0..<n] s = (ok, s1)"
  shows "\<not> ok \<Longrightarrow> alloc_result R s L sz 0 (large_free_add va pages s1)"
    "ok \<Longrightarrow> \<exists>s2. put_header va sz pages 0 s1 = Some s2 \<and> alloc_result R s L sz (va + HEADER_SIZE) s2"
proof -
  note A = arenaD [OF inv] and I = kinvD [OF inv]
  have va: "aligned va" "HEAP_LO \<le> unat va" "unat va + 4096 * n \<le> unat (g_arena_next s)" using h n(1) by (auto simp: hole_def)
  have sp: "hspan \<lparr>lf_va = va, lf_pages = pages\<rparr> = (unat va, 4096 * n)" by (simp add: hspan_def n(1))
  have hi: "unat va + 4096 * n \<le> HEAP_HI" using va(3) A(3) by simp
  note M = map_pages_spec [OF I(1) va(1) hi va(2) mp]
  note P = page_frame_heapmem [OF M(1)]
  note K = kinv_pages [OF inv M(1) va(1) X(2) [unfolded sp]]
  show "alloc_result R s L sz 0 (large_free_add va pages s1)" if "\<not> ok"
  proof -
    have "kinv R (large_free_add va pages s1) F L"
      by (rule kinv_add_range [OF K(1)]) (use h X K(4) in \<open>simp_all add: P\<close>)
    then show ?thesis using K(2) by (auto simp: alloc_result_def heap_inv_def)
  qed
  assume ok
  have m: "kload s1 v \<noteq> None" if "inspan (unat v) (unat va, 4096 * n)" for v
    using M(2) [OF \<open>ok\<close>, of v] that span_pages [OF va(1), of v n] by simp
  have d: "4096 dvd unat (g_arena_next s)" using A(1) by (simp add: aligned_def)
  obtain s2 f where s2: "put_header va sz pages 0 s1 = Some s2" "kat R s1 (f, g_free s) s2" "layout f (g_free s) (unat (g_arena_next s)) (g_large_free s) F L"
    "untouched (heapmem s) f L" "blk f (unat (g_arena_next s)) va" "\<And>c. c \<in> set F \<union> L \<Longrightarrow> apart (bspan f va) (bspan f c)"
    "\<And>h. h \<in> set (g_large_free s) \<Longrightarrow> apart (hspan h) (bspan f va)" "val f va = sz"
    using fresh_header [OF inv n(2) va order_refl A(3) d X(2,1) [unfolded sp] M(1) m sz(1,2) disjI2 [OF n(1)], of 0] by metis
  have k: "kpages_ok R s2" "heapmem s2 = f" "g_free s2 = g_free s" "g_large_free s2 = g_large_free s" "g_arena_next s2 = g_arena_next s" "g_arena_bytes s2 = g_arena_bytes s"
    using s2(2) P by (auto simp: kat_def)
  have "kinv R s2 F (insert va L)"
    by (rule kinv_live [OF _ _ _ _ _ _ _ s2(3,5-7)]) (use k A(4) inv in \<open>simp_all add: kinv_def\<close>)
  moreover have "va \<notin> L" using layout_add_live(2) [OF s2(3,5-7)] by blast
  moreover have "va + HEADER_SIZE \<noteq> 0" using va hi by (intro payload_nonzero) simp_all
  ultimately show "\<exists>s2. put_header va sz pages 0 s1 = Some s2 \<and> alloc_result R s L sz (va + HEADER_SIZE) s2"
    using s2(1,4,8) k(2) by (auto simp: alloc_result_def heap_inv_def)
qed

lemma kmalloc_large_spec:
  fixes s :: "'a kheap_scheme"
  assumes inv: "kinv R s F L" and sz: "8 dvd unat sz" "unat sz \<le> 2 ^ 63"
  defines "n \<equiv> (unat sz + 4119) div 4096"
  shows "\<exists>p s'. kmalloc_large sz s = Some (p, s') \<and> alloc_result R s L sz p s' \<and> progress n s p s'"
proof -
  define pages where "pages = (sz + HEADER_SIZE + PAGE_SIZE - 1) div PAGE_SIZE"
  have pn: "unat pages = n" "n > 0" and szn: "24 + unat sz \<le> 4096 * n" using pages_nat [OF sz(2)] by (simp_all add: pages_def n_def)
  have p0: "pages \<noteq> 0" using pn by auto
  have lim: "4096 * unat pages < 2 ^ 64 - 2 ^ 26" using sz(2) by (simp add: pn(1) n_def)
  note A = arenaD [OF inv] and I = kinvD [OF inv]
  have rm: "ok \<and> room t' m" if "kpages_ok R t" "room t (n + m)" "aligned va" "unat va + 4096 * n \<le> HEAP_HI" "HEAP_LO \<le> unat va" "map_pages va [0..<n] t = (ok, t')"
    for va ok m and t t' :: "'a kheap_scheme"
    using map_pages_room [OF that(1), of "[0..<n]" va m] page_range [OF that(3-5)] that(2,6) by simp
  obtain re s1 where t: "large_free_take pages s = (re, s1)" by (cases "large_free_take pages s")
  note U = kmalloc_large_def [of sz s, folded pages_def, unfolded Let_def t prod.case pn(1)]
  show ?thesis
  proof (cases rule: large_free_take_blocks [OF I(3) p0 t])
    case 1
    show ?thesis
    proof (cases "unat (g_arena_next s) + 4096 * n \<le> HEAP_HI")
      case False
      then have "\<not> arena_fits (g_arena_next s) pages" using arena_fits_nat [OF A(2,3) lim] pn by simp
      then have "kmalloc_large sz s = Some (0, s)" using U 1 by simp
      moreover have "alloc_result R s L sz 0 s" using inv by (auto simp: alloc_result_def heap_inv_def untouched_def)
      moreover have "progress n s 0 s" using False by (simp add: progress_def)
      ultimately show ?thesis by blast
    next
      case True
      then have fits: "arena_fits (g_arena_next s) pages" using arena_fits_nat [OF A(2,3) lim] pn by simp
      obtain ok s2 where mp: "map_pages (g_arena_next s) [0..<n] s = (ok, s2)" by (cases "map_pages (g_arena_next s) [0..<n] s")
      note F = large_fresh [OF inv pn True sz(1) szn mp]
      show ?thesis
      proof (cases ok)
        case False
        then have "kmalloc_large sz s = Some (0, s2)" using U 1 fits mp by simp
        moreover have "progress n s 0 s2" using False rm [OF I(1) _ A(1) True A(2) mp] unfolding progress_def by blast
        ultimately show ?thesis using F(1) False by blast
      next
        case ok: True
        then obtain s3 where s3: "put_header (g_arena_next s) sz pages 0 s2 = Some s3"
          "alloc_result R s L sz (g_arena_next s + HEADER_SIZE) (s3\<lparr>g_arena_next := g_arena_next s3 + pages * PAGE_SIZE, g_arena_bytes := g_arena_bytes s3 + pages * PAGE_SIZE\<rparr>)"
          using F(2) by blast
        let ?s = "s3\<lparr>g_arena_next := g_arena_next s3 + pages * PAGE_SIZE, g_arena_bytes := g_arena_bytes s3 + pages * PAGE_SIZE\<rparr>"
        have "g_arena_next s2 = g_arena_next s" by (rule page_frame_heapmem(4) [OF map_pages_spec(1) [OF I(1) A(1) True A(2) mp]])
        moreover have "unat (g_arena_next s + pages * PAGE_SIZE) = unat (g_arena_next s) + 4096 * n" using True pn(1) by (simp add: unat_word_ariths)
        moreover have "g_arena_next s + HEADER_SIZE \<noteq> 0" by (rule payload_nonzero [OF A(2,3)])
        ultimately have "progress n s (g_arena_next s + HEADER_SIZE) ?s"
          using put_header_same [OF s3(1)] rm [OF I(1) _ A(1) True A(2) mp] by (simp add: progress_def)
        then show ?thesis using U 1 fits mp ok s3 by simp
      qed
    qed
  next
    case (2 hs')
    have inv1: "kinv R s1 F L" using 2(2-4) inv by (simp add: kinv_def layout_def)
    have s1: "heapmem s1 = heapmem s" "g_arena_next s1 = g_arena_next s" "g_large_free s1 = hs'" "room s1 m = room s m" for m using 2(2) by simp_all
    have res: "alloc_result R s1 L sz p t = alloc_result R s L sz p t" for p t by (simp add: alloc_result_def s1(1))
    obtain ok s2 where mp: "map_pages re [0..<n] s1 = (ok, s2)" by (cases "map_pages re [0..<n] s1")
    have hn: "hole (unat (g_arena_next s1)) \<lparr>lf_va = re, lf_pages = pages\<rparr>" using 2(5) s1(2) by simp
    have re: "aligned re" "HEAP_LO \<le> unat re" "unat re + 4096 * n \<le> HEAP_HI" using 2(5) pn(1) A(3) by (auto simp: hole_def)
    note Q = large_reuse [OF inv1 pn hn _ _ sz(1) szn mp, unfolded s1 res, OF 2(6,7)]
    show ?thesis
    proof (cases ok)
      case False
      then have "kmalloc_large sz s = Some (0, large_free_add re pages s2)" using U 2(1) mp by simp
      moreover have "progress n s 0 (large_free_add re pages s2)" using False rm [OF kinvD(1) [OF inv1] _ re(1,3,2) mp] s1(4) unfolding progress_def by blast
      ultimately show ?thesis using Q(1) False by blast
    next
      case True
      then obtain s3 where s3: "put_header re sz pages 0 s2 = Some s3" "alloc_result R s L sz (re + HEADER_SIZE) s3" using Q(2) by blast
      have "g_arena_next s2 = g_arena_next s"
        using page_frame_heapmem(4) [OF map_pages_spec(1) [OF kinvD(1) [OF inv1] re(1,3,2) mp]] s1(2) by simp
      moreover have "re + HEADER_SIZE \<noteq> 0" by (rule payload_nonzero) (use re in simp_all)
      ultimately have "progress n s (re + HEADER_SIZE) s3"
        using put_header_same [OF s3(1)] rm [OF kinvD(1) [OF inv1] _ re(1,3,2) mp] s1(4) by (simp add: progress_def)
      then show ?thesis using U 2(1) mp True s3 by simp
    qed
  qed
qed

section \<open>Release\<close>

lemma merge_next_spec:
  fixes s :: "'a kheap_scheme"
  assumes inv: "kinv R s (F @ b # G) L"
  shows "\<exists>s' H. merge_next b s = Some s' \<and> kinv R s' (F @ b # H) L \<and> untouched (heapmem s) (heapmem s') L \<and>
    (\<forall>c \<in> L. bspan (heapmem s') c = bspan (heapmem s) c)"
proof -
  let ?f = "heapmem s"
  note I = kinvD [OF inv]
  note h = blk_header [OF blocksD(4) [OF I(3)] blocksD(2) [OF I(3)], of b, simplified]
  have stay: ?thesis if "merge_next b s = Some s" using that inv by (auto simp: untouched_def)
  obtain x where x: "?f (b + 16) = Some x" "chain ?f x G" using chain_lget [OF I(5)] by auto
  note ld = kat_load [OF I(4)]
  show ?thesis
  proof (cases G)
    case Nil
    then show ?thesis using ld [OF x(1)] x(2) by (intro stay) (simp add: merge_next_def)
  next
    case (Cons c H)
    then have xc: "x = c" "c \<noteq> 0" using x(2) by auto
    have cB: "c \<in> set (F @ b # G) \<union> L" using Cons by simp
    note hc = blk_header [OF blocksD(4) [OF I(3) cB] blocksD(2) [OF I(3)]]
    show ?thesis
    proof (cases "b + HEADER_SIZE + val ?f b = c")
      case False
      then show ?thesis using ld [OF x(1)] ld [OF h(7)] xc by (intro stay) (simp add: merge_next_def)
    next
      case adj: True
      define q where "q = val ?f b + (HEADER_SIZE + val ?f c)"
      define g where "g = ?f(b \<mapsto> q, b + 16 \<mapsto> val ?f (c + 16))"
      note J = layout_join [OF I(2) [unfolded Cons] adj, folded q_def, folded g_def]
      obtain s1 where s1: "kstore b q s = Some s1" "kat R s (?f(b \<mapsto> q), g_free s) s1" using kat_store [OF I(4), of b] h(7) by auto
      have "c + 16 \<noteq> b"
      proof
        assume e: "c + 16 = b"
        then have "inspan (unat b) (bspan ?f c)" using hc(6) by simp
        moreover have "b \<noteq> c" using e by auto
        ultimately show False using apart_inspan [OF blocksD(5) [OF I(3), of b c] h(4)] cB by simp
      qed
      then have l2: "kload s1 (c + 16) = Some (val ?f (c + 16))" using kat_load [OF s1(2)] hc(9) by simp
      obtain s2 where s2: "kstore (b + 16) (val ?f (c + 16)) s1 = Some s2" "kat R s (g, g_free s) s2"
        using kat_store [OF s1(2), of "b + 16"] h(9) by (auto simp: g_def)
      have "merge_next b s = Some s2"
        using ld [OF x(1)] ld [OF h(7)] ld [OF hc(7)] xc adj s1(1) s2(1) l2 by (simp add: merge_next_def q_def)
      moreover have "heapmem s2 = g" using s2(2) by (simp add: kat_def)
      ultimately show ?thesis using kinv_kat [OF inv s2(2) J(1)] J(2,3) by auto
    qed
  qed
qed

lemma merge_prev_next:
  assumes "kload s (p + 16) = Some b" "b \<noteq> 0"
  shows "merge_prev (Next p) b s = merge_next p s"
  using assms by (simp add: merge_prev_def merge_next_def)

lemma merge_prev_spec:
  fixes s :: "'a kheap_scheme"
  assumes inv: "kinv R s (F @ b # G) L"
  shows "\<exists>s' H. merge_prev (lnk F) b s = Some s' \<and> kinv R s' H L \<and> untouched (heapmem s) (heapmem s') L"
proof (cases F rule: rev_cases)
  case Nil
  then show ?thesis using inv by (auto simp: lnk_def merge_prev_def untouched_def)
next
  case (snoc E p)
  note I = kinvD [OF inv]
  have inv': "kinv R s (E @ p # b # G) L" using inv snoc by simp
  obtain x where x: "heapmem s (p + 16) = Some b" "b \<noteq> 0"
    using chain_lget [of "heapmem s" "g_free s" E "p # b # G"] I(5) snoc by auto
  have "merge_prev (lnk F) b s = merge_next p s"
    using merge_prev_next [OF kat_load [OF I(4) x(1)] x(2)] snoc by (simp add: lnk_def)
  then show ?thesis using merge_next_spec [OF inv'] by metis
qed

lemma kfree_small:
  fixes s :: "'a kheap_scheme"
  assumes inv: "kinv R s F L" and b: "b \<in> L" "val (heapmem s) (b_pages b) = 0"
  shows "\<exists>s'. kfree_locked (b + HEADER_SIZE) s = Some s' \<and> heap_inv R s' (L - {b}) \<and> untouched (heapmem s) (heapmem s') (L - {b})"
proof -
  let ?f = "heapmem s" and ?fr = "g_free s"
  note I = kinvD [OF inv]
  note h = blk_header [OF blocksD(4) [OF I(3)] blocksD(2) [OF I(3)], of b]
  have h: "?f (b + 8) = Some 0" "?f (b + 16) \<noteq> None" using h(8,9) b by simp_all
  obtain E H where EH: "F = E @ H" "find_place s b Head = Some (lnk E)" using find_place_spec [OF I(4), of "[]" F b] I(5) by (auto simp: lnk_def)
  obtain s1 where s1: "kstore (b + 8) 0 s = Some s1" "kat R s (?f(b + 8 \<mapsto> 0), ?fr) s1" using kat_store [OF I(4), of "b + 8"] h(1) by auto
  have "?f(b + 8 \<mapsto> 0) = ?f" using h(1) by (simp add: fun_upd_idem)
  then have k1: "kat R s (?f, ?fr) s1" using s1(2) by simp
  obtain x where x: "lget (?f, ?fr) (lnk E) = Some x" using chain_lget [of ?f ?fr E H] I(5) EH(1) by auto
  define f1 where "f1 = ?f(b + 16 \<mapsto> x)"
  obtain s2 where s2: "kstore (b + 16) x s1 = Some s2" "kat R s (f1, ?fr) s2" using kat_store [OF k1 h(2)] by (auto simp: f1_def)
  define g where "g = lset (lnk E) b (f1, ?fr)"
  note N = layout_insert [OF I(2) [unfolded EH(1)] b x, folded f1_def, folded g_def]
  have l: "lget (f1, ?fr) (lnk E) \<noteq> None" using x by (cases "lnk E") (auto simp: f1_def)
  obtain s3 where s3: "set_link (lnk E) b s2 = Some s3" "kat R s g s3" using kat_set [OF s2(2) l] by (auto simp: g_def)
  have m3: "heapmem s3 = fst g" using s3(2) by (simp add: kat_def)
  have inv3: "kinv R s3 (E @ b # H) (L - {b})" using kinv_kat [OF inv _ N(1), of s3] s3(2) by simp
  obtain s4 G where s4: "merge_next b s3 = Some s4" "kinv R s4 (E @ b # G) (L - {b})" "untouched (heapmem s3) (heapmem s4) (L - {b})"
    "\<forall>c \<in> L - {b}. bspan (heapmem s4) c = bspan (heapmem s3) c"
    using merge_next_spec [OF inv3] by blast
  obtain s5 G' where s5: "merge_prev (lnk E) b s4 = Some s5" "kinv R s5 G' (L - {b})" "untouched (heapmem s4) (heapmem s5) (L - {b})"
    using merge_prev_spec [OF s4(2)] by blast
  have "kfree_locked (b + HEADER_SIZE) s = Some s5"
    using kat_load [OF I(4) h(1)] EH(2) s1(1) kat_get [OF k1 x] s2(1) s3(1) s4(1) s5(1) by (simp add: kfree_locked_def Let_def)
  moreover have "untouched ?f (heapmem s5) (L - {b})"
  proof (rule untouched_trans [OF _ untouched_trans [OF s4(3) s5(3)]])
    show "untouched ?f (heapmem s3) (L - {b})" using N(2) m3 by simp
    show "c \<in> L - {b} \<Longrightarrow> bspan (heapmem s4) c = bspan (heapmem s3) c" for c using s4(4) by blast
    show "c \<in> L - {b} \<Longrightarrow> bspan (heapmem s3) c = bspan ?f c" for c using N(3) [of c] m3 by simp
  qed
  ultimately show ?thesis using s5(2) by (auto simp: heap_inv_def)
qed

lemma kfree_large:
  fixes s :: "'a kheap_scheme"
  assumes inv: "kinv R s F L" and b: "b \<in> L" "val (heapmem s) (b_pages b) \<noteq> 0"
  shows "\<exists>s'. kfree_locked (b + HEADER_SIZE) s = Some s' \<and> heap_inv R s' (L - {b}) \<and> untouched (heapmem s) (heapmem s') (L - {b})"
proof -
  let ?f = "heapmem s"
  note I = kinvD [OF inv] and A = arenaD [OF inv]
  have bB: "b \<in> set F \<union> L" "b \<notin> set F" using b(1) layoutD(4) [OF I(2)] by auto
  note k = blocksD(4) [OF I(3) bB(1)]
  define pages n where "pages = val ?f (b + 8)" and "n = unat (val ?f (b + 8))"
  have sp: "bspan ?f b = (unat b, 4096 * n)" using b(2) by (simp add: bspan_def n_def)
  have va: "aligned b" "HEAP_LO \<le> unat b" "unat b + 4096 * n \<le> unat (g_arena_next s)" using k b(2) unfolding blk_def sp by auto
  have hs: "hspan \<lparr>lf_va = b, lf_pages = pages\<rparr> = (unat b, 4096 * n)" by (simp add: hspan_def pages_def n_def)
  have inv1: "kinv R s F (L - {b})" using inv layout_forget [OF I(2), of "L - {b}"] by (auto simp: kinv_def)
  have hi: "unat b + 4096 * n \<le> HEAP_HI" using va(3) A(3) by simp
  note U = unmap_pages_spec [OF I(1) va(1) hi va(2)]
  have X: "apart (unat b, 4096 * n) (bspan ?f c)" if "c \<in> set F \<union> (L - {b})" for c
    using blocksD(5) [OF I(3) bB(1), of c] that bB(2) by (auto simp: sp)
  note K = kinv_pages [OF inv1 U va(1) X] and P = page_frame_heapmem [OF U]
  have "kinv R (large_free_add b pages (unmap_pages b [0..<n] s)) F (L - {b})"
  proof (rule kinv_add_range [OF K(1)])
    show "hole (unat (g_arena_next (unmap_pages b [0..<n] s))) \<lparr>lf_va = b, lf_pages = pages\<rparr>"
      unfolding P hole_def using va b(2) by (simp add: pages_def n_def)
    show "apart (hspan h) (hspan \<lparr>lf_va = b, lf_pages = pages\<rparr>)" if "h \<in> set (g_large_free (unmap_pages b [0..<n] s))" for h
      using blocksD(8) [OF I(3) _ bB(1)] that by (simp add: P hs sp)
    show "apart (hspan \<lparr>lf_va = b, lf_pages = pages\<rparr>) (bspan (heapmem (unmap_pages b [0..<n] s)) c)" if "c \<in> set F \<union> (L - {b})" for c
    proof -
      have "bspan (heapmem (unmap_pages b [0..<n] s)) c = bspan ?f c" by (rule K(4) [OF _ that])
      then show ?thesis using X [OF that] by (simp add: hs)
    qed
  qed
  moreover have "kfree_locked (b + HEADER_SIZE) s = Some (large_free_add b pages (unmap_pages b [0..<n] s))"
    using kat_load [OF I(4) blk_header(8) [OF k blocksD(2) [OF I(3)]]] b(2) by (simp add: kfree_locked_def Let_def pages_def n_def word_neq_0_conv)
  ultimately show ?thesis using K(2) by (auto simp: heap_inv_def)
qed

lemma kfree_spec:
  assumes "heap_inv R s L" "b \<in> L"
  shows "\<exists>s'. kfree_locked (b + HEADER_SIZE) s = Some s' \<and> heap_inv R s' (L - {b}) \<and> untouched (heapmem s) (heapmem s') (L - {b})"
  using assms kfree_small kfree_large unfolding heap_inv_def by (metis (no_types))

end
