(* ===== verification/Kmalloc_Props.thy ===== *)
theory Kmalloc_Props
  imports Kmalloc_Inv
begin

text \<open>
  What the kernel heap promises its clients: it behaves like a map from pointers to the words of disjoint blocks. Allocation adds
  a block of at least the requested size, release removes one, reallocation keeps the words of the old block, and none of
  them, nor a store by a client into its own block, changes the words of another block.
\<close>

section \<open>Sizes\<close>

lemma align_up_nat:
  assumes "unat n \<le> 2 ^ 63"
  shows "unat (align_up n) = (unat n + 15) div 16 * 16"
proof -
  let ?x = "n + 15"
  have u: "unat ?x = unat n + 15" using assms by (simp add: unat_word_ariths)
  have m: "NOT 15 = (NOT (mask 4) :: u64)" by (simp add: mask_eq_exp_minus_1)
  have "?x AND NOT (mask 4) = push_bit 4 (drop_bit 4 ?x)"
    by (rule bit_word_eqI) (auto simp: bit_simps dest: bit_imp_le_length)
  then have "(?x AND NOT (mask 4)) + take_bit 4 ?x = ?x" by (simp only: bits_ident)
  moreover have "align_up n = (?x AND NOT (mask 4))" unfolding align_up_def m [symmetric] by (simp add: add.commute)
  ultimately have "align_up n = ?x - take_bit 4 ?x" by (simp only: eq_diff_eq)
  moreover have t: "unat (take_bit 4 ?x) = unat ?x mod 16" using unat_take_bit [of 4 ?x] by simp
  ultimately have "unat (align_up n) = unat ?x - unat ?x mod 16" by (simp add: unat_sub_if' del: take_bit_add)
  then show ?thesis by (simp add: u minus_mod_eq_div_mult)
qed

definition block_size :: "u64 \<Rightarrow> u64" where
  "block_size sz = align_up (if sz = 0 then KM_ALIGN else sz)"

lemma block_size:
  assumes "unat sz \<le> 2 ^ 63"
  shows "unat (block_size sz) \<le> 2 ^ 63" "8 dvd unat (block_size sz)" "unat sz \<le> unat (block_size sz)" "block_size sz \<noteq> 0"
    "block_size (block_size sz) = block_size sz" "unat (block_size sz) = (max 1 (unat sz) + 15) div 16 * 16"
proof -
  have u: "unat (block_size sz) = (max 1 (unat sz) + 15) div 16 * 16"
  proof (cases "sz = 0")
    case False
    then have "1 \<le> unat sz" by (simp add: Suc_le_eq unat_gt_0)
    then show ?thesis using align_up_nat [OF assms] False by (simp add: block_size_def max_def)
  qed (use align_up_nat [of 16] in \<open>simp add: block_size_def\<close>)
  then show "unat (block_size sz) = (max 1 (unat sz) + 15) div 16 * 16" .
  show le: "unat (block_size sz) \<le> 2 ^ 63" using u assms by auto
  show "8 dvd unat (block_size sz)" unfolding u by (metis dvd_mult dvd_refl dvd_trans mult_numeral_1_right numeral_eq_one_iff dvd_triv_left num_double numeral_times_numeral)
  show "unat sz \<le> unat (block_size sz)" using u by auto
  show n: "block_size sz \<noteq> 0" using u by (auto simp: unat_gt_0 dest!: arg_cong [of _ _ unat])
  have "unat (block_size (block_size sz)) = unat (block_size sz)"
    using align_up_nat [OF le] n u unfolding block_size_def [of "block_size sz"] by simp
  then show "block_size (block_size sz) = block_size sz" by (simp add: word_unat_eq_iff)
qed

section \<open>Allocation\<close>

declare heap_grow.simps [simp del]

lemma heap_grow_one:
  fixes s :: "'a kheap_scheme"
  shows "0 < sz \<Longrightarrow> unat sz \<le> 4072 \<Longrightarrow> heap_grow sz s = heap_grow_page s"
proof -
  assume sz: "0 < sz" "unat sz \<le> 4072"
  have z: "heap_grow 0 t = Some t" for t :: "'a kheap_scheme" by (subst heap_grow.simps) simp
  have "\<not> PAGE_SIZE < sz" using sz(2) by (simp add: word_less_nat_alt)
  then show ?thesis using sz(1) by (subst heap_grow.simps) (cases "heap_grow_page s"; simp add: z)
qed

lemma kmalloc_unfold:
  "kmalloc_locked sz0 s =
     (if block_size sz0 > 4072 then kmalloc_large (block_size sz0) s
      else do {
        r \<leftarrow> find_fit s (block_size sz0) Head;
        case r of
          Some (l, b) \<Rightarrow> take_block l b (block_size sz0) s
        | None \<Rightarrow> do {
            s' \<leftarrow> heap_grow (block_size sz0) s;
            if g_arena_bytes s' = g_arena_bytes s then Some (0, s') else kmalloc_locked (block_size sz0) s'
          }
      })"
proof -
  have "PAGE_SIZE - HEADER_SIZE = (4072 :: u64)" by simp
  then show ?thesis by (subst kmalloc_locked.simps) (simp only: block_size_def Let_def)
qed

lemma take_block_same:
  fixes s s' :: "'a kheap_scheme"
  assumes "take_block l b sz s = Some (p, s')"
  shows "room s' m = room s m" "g_arena_next s' = g_arena_next s"
proof -
  have st: "g_pmm t' = g_pmm t \<and> g_arena_next t' = g_arena_next t" if "kstore v x t = Some t'" for v x and t t' :: "'a kheap_scheme"
    using that rest_fields(2) [OF kstore_rest [OF that]] by (auto simp: kstore_def store_def)
  have sl: "g_pmm t' = g_pmm t \<and> g_arena_next t' = g_arena_next t" if "set_link k x t = Some t'" for k x and t t' :: "'a kheap_scheme"
    using that st by (cases k) auto
  have "g_pmm s' = g_pmm s \<and> g_arena_next s' = g_arena_next s"
    using assms by (auto simp: take_block_def Let_def dest!: st sl split: bind_splits if_splits)
  then show "room s' m = room s m" "g_arena_next s' = g_arena_next s" by (simp_all add: room_def)
qed

lemma alloc_taken:
  assumes "kinv R s (F @ b # G) L" "8 dvd unat sz" "unat sz \<le> 4072" "sz \<le> val (heapmem s) b"
  shows "\<exists>s'. take_block (lnk F) b sz s = Some (b + HEADER_SIZE, s') \<and> alloc_result R s L sz (b + HEADER_SIZE) s' \<and> b + HEADER_SIZE \<noteq> 0"
proof -
  obtain s' where s': "take_block (lnk F) b sz s = Some (b + HEADER_SIZE, s')" "heap_inv R s' (insert b L)" "untouched (heapmem s) (heapmem s') L"
    "sz \<le> val (heapmem s') b" "b \<notin> L" "HEAP_LO \<le> unat b"
    using take_block_spec [OF assms] by blast
  have "blk (heapmem s) (unat (g_arena_next s)) b" using blocksD(4) [OF kinvD(3) [OF assms(1)], of b] by simp
  then have "unat b \<le> HEAP_HI" using blocksD(2) [OF kinvD(3) [OF assms(1)]] by (auto simp: blk_def)
  then show ?thesis using s' payload_nonzero by (auto simp: alloc_result_def)
qed

lemma kmalloc_small:
  fixes s :: "'a kheap_scheme"
  assumes inv: "kinv R s F L" and sz: "unat sz0 \<le> 2 ^ 63" "\<not> block_size sz0 > 4072"
  shows "\<exists>p s'. kmalloc_locked sz0 s = Some (p, s') \<and> alloc_result R s L (block_size sz0) p s' \<and>
    progress 1 s p s'"
proof -
  let ?sz = "block_size sz0"
  note B = block_size [OF sz(1)] and I = kinvD [OF inv] and A = arenaD [OF inv]
  have le: "unat ?sz \<le> 4072" using sz(2) by (simp add: word_less_nat_alt)
  have fits: "arena_fits (g_arena_next s) 1 \<longleftrightarrow> unat (g_arena_next s) + 4096 \<le> HEAP_HI" using arena_fits_nat [OF A(2,3), of 1] by simp
  have hd: "heapmem t b = Some (val (heapmem t) b)" if "kinv R t E L" "b \<in> set E" for b E and t :: "'a kheap_scheme"
    using blk_header(7) [OF blocksD(4) [OF kinvD(3) [OF that(1)]] blocksD(2) [OF kinvD(3) [OF that(1)]]] that(2) by simp
  have head: "Head = lnk []" by (simp add: lnk_def)
  consider (none) "find_fit s ?sz Head = Some None" | (fit) E b H where "F = E @ b # H" "?sz \<le> val (heapmem s) b" "find_fit s ?sz Head = Some (Some (lnk E, b))"
    using find_fit_spec [OF I(4), of "[]" F ?sz] I(5) hd [OF inv] unfolding head by auto
  then show ?thesis
  proof cases
    case fit
    obtain s' where s': "take_block (lnk E) b ?sz s = Some (b + HEADER_SIZE, s')" "alloc_result R s L ?sz (b + HEADER_SIZE) s'" "b + HEADER_SIZE \<noteq> 0"
      using alloc_taken [OF inv [unfolded fit(1)] B(2) le fit(2)] by blast
    moreover have "progress 1 s (b + HEADER_SIZE) s'" using take_block_same [OF s'(1)] s'(3) by (auto simp: progress_def room_def)
    ultimately show ?thesis using fit(3) sz(2) by (subst kmalloc_unfold) simp
  next
    case none
    have g: "heap_grow ?sz s = heap_grow_page s" by (rule heap_grow_one) (use B(4) le in \<open>simp_all add: word_neq_0_conv\<close>)
    show ?thesis
    proof (cases rule: heap_grow_page_spec [OF inv])
      case (1 s')
      have "kmalloc_locked sz0 s = Some (0, s')" using none g 1 sz(2) by (subst kmalloc_unfold) simp
      moreover have "alloc_result R s L ?sz 0 s'" using 1(2,3) by (auto simp: alloc_result_def heap_inv_def untouched_def)
      moreover have "progress 1 s 0 s'" using 1(5) fits by (auto simp: progress_def room_def)
      ultimately show ?thesis by blast
    next
      case (2 s' b)
      have "kmalloc_locked sz0 s = kmalloc_locked ?sz s'" using none g 2 sz(2) by (subst kmalloc_unfold) simp
      moreover have "find_fit s' ?sz Head = Some (Some (Head, b))"
      proof -
        have "get_link s' Head = Some b" "b \<noteq> 0" using kinvD(5) [OF 2(2)] by auto
        moreover have "kload s' b = Some 4072" using kat_load [OF kinvD(4) [OF 2(2)] hd [OF 2(2)], of b] 2(4) by simp
        ultimately show ?thesis using sz(2) by (subst find_fit.simps) (simp add: not_less)
      qed
      ultimately have u: "kmalloc_locked sz0 s = take_block (lnk []) b ?sz s'"
        using sz(2) kmalloc_unfold [of ?sz s'] B(5) head by simp
      have "kinv R s' ([] @ b # F) L" "?sz \<le> val (heapmem s') b" using 2(2,4) sz(2) by (simp_all add: not_less)
      then obtain s'' where s'': "take_block (lnk []) b ?sz s' = Some (b + HEADER_SIZE, s'')" "alloc_result R s' L ?sz (b + HEADER_SIZE) s''" "b + HEADER_SIZE \<noteq> 0"
        using alloc_taken [OF _ B(2) le] by blast
      have "untouched (heapmem s) (heapmem s'') L"
        by (rule untouched_trans [OF 2(3)]) (use s''(2) kinv_untouched(1) [OF inv 2(3)] in \<open>auto simp: alloc_result_def\<close>)
      moreover have "progress 1 s (b + HEADER_SIZE) s''" using take_block_same [OF s''(1)] s''(3) 2(6,7) by (simp add: progress_def)
      ultimately show ?thesis using u s'' by (auto simp: alloc_result_def)
    qed
  qed
qed

text \<open>The number of pages a request needs.\<close>

definition pages_for :: "u64 \<Rightarrow> nat" where
  "pages_for sz = (unat (block_size sz) + 4119) div 4096"

lemma kmalloc_spec:
  assumes inv: "heap_inv R s L" and sz: "unat sz \<le> 2 ^ 63"
  shows "\<exists>p s'. kmalloc_locked sz s = Some (p, s') \<and> alloc_result R s L (block_size sz) p s' \<and>
    progress (pages_for sz) s p s'"
proof -
  obtain F where F: "kinv R s F L" using inv by (auto simp: heap_inv_def)
  note B = block_size [OF sz]
  show ?thesis
  proof (cases "block_size sz > 4072")
    case True
    then have "kmalloc_locked sz s = kmalloc_large (block_size sz) s" by (subst kmalloc_unfold) simp
    then show ?thesis using kmalloc_large_spec [OF F B(2,1)] by (auto simp: pages_for_def)
  next
    case False
    have "pages_for sz = 1" using False B(4) by (simp add: pages_for_def word_less_nat_alt unat_gt_0 [symmetric])
    then show ?thesis using kmalloc_small [OF F sz False] by auto
  qed
qed

section \<open>Stores into a payload\<close>

lemma payload_store:
  assumes inv: "heap_inv R s L" and c: "c \<in> L" and v: "unat c + 24 \<le> unat v" "unat v < unat c + 24 + unat (val (heapmem s) c)"
  shows "\<exists>s'. kstore v x s = Some s' \<and> heap_inv R s' L \<and> heapmem s' = (heapmem s)(v \<mapsto> x) \<and> untouched (heapmem s) (heapmem s') (L - {c}) \<and>
    (\<forall>b \<in> L. val (heapmem s') b = val (heapmem s) b)"
proof -
  obtain F where F: "kinv R s F L" using inv by (auto simp: heap_inv_def)
  note I = kinvD [OF F]
  note P = layout_payload [OF I(2) c v]
  obtain s' where s': "kstore v x s = Some s'" "kat R s ((heapmem s)(v \<mapsto> x), g_free s) s'" using kat_store [OF I(4) P(5)] by blast
  have "heapmem s' = (heapmem s)(v \<mapsto> x)" using s'(2) by (simp add: kat_def)
  moreover have "heap_inv R s' L" using kinv_kat [OF F s'(2) P(1)] by (auto simp: heap_inv_def)
  ultimately show ?thesis using s'(1) P(2,4) by auto
qed

text \<open>Block \<open>b\<close> has \<open>k\<close> words of payload; the address of word \<open>i\<close>.\<close>

definition words_of :: "hmem \<Rightarrow> u64 \<Rightarrow> nat" where
  "words_of f b = unat (val f b) div 8"

lemma live_word:
  assumes "heap_inv R s L" "c \<in> L" "i < words_of (heapmem s) c"
  shows "unat (c + HEADER_SIZE + 8 * of_nat i) = unat c + 24 + 8 * i" "unat c + 24 + 8 * i < unat c + 24 + unat (val (heapmem s) c)"
    "inspan (unat (c + HEADER_SIZE + 8 * of_nat i)) (bspan (heapmem s) c)"
    "heapmem s (c + HEADER_SIZE + 8 * of_nat i) = Some (val (heapmem s) (c + HEADER_SIZE + 8 * of_nat i))"
proof -
  obtain F where F: "kinv R s F L" using assms(1) by (auto simp: heap_inv_def)
  note B = kinvD(3) [OF F]
  have k: "blk (heapmem s) (unat (g_arena_next s)) c" using blocksD(4) [OF B] assms(2) by blast
  have sp: "24 + unat (val (heapmem s) c) \<le> snd (bspan (heapmem s) c)" "fst (bspan (heapmem s) c) = unat c"
    using blk_span [OF k] by (simp_all add: bspan_def)
  have i: "8 * i < unat (val (heapmem s) c)" using assms(3) by (simp add: words_of_def)
  then show "unat c + 24 + 8 * i < unat c + 24 + unat (val (heapmem s) c)" by simp
  have lim: "unat c + 24 + unat (val (heapmem s) c) \<le> HEAP_HI" using k sp(1) blocksD(2) [OF B] by (auto simp: blk_def)
  then have "8 * i < 2 ^ 64" using i by simp
  then have "unat (8 * of_nat i :: u64) = 8 * i" by (simp add: unat_word_ariths unat_of_nat)
  then show u: "unat (c + HEADER_SIZE + 8 * of_nat i) = unat c + 24 + 8 * i" using lim i by (simp add: unat_word_ariths)
  show s: "inspan (unat (c + HEADER_SIZE + 8 * of_nat i)) (bspan (heapmem s) c)" using sp i by (simp add: inspan_def u)
  then show "heapmem s (c + HEADER_SIZE + 8 * of_nat i) = Some (val (heapmem s) (c + HEADER_SIZE + 8 * of_nat i))"
    using k val_Some unfolding blk_def by metis
qed

definition contents :: "hmem \<Rightarrow> u64 \<Rightarrow> u64 list" where
  "contents f b = map (\<lambda>i. val f (b + HEADER_SIZE + 8 * of_nat i)) [0..<words_of f b]"

lemma contents_untouched:
  assumes "heap_inv R s L" "untouched (heapmem s) g L" "c \<in> L"
  shows "contents g c = contents (heapmem s) c" "val g c = val (heapmem s) c"
proof -
  obtain F where F: "kinv R s F L" using assms(1) by (auto simp: heap_inv_def)
  show v: "val g c = val (heapmem s) c" by (rule kinv_untouched(2) [OF F assms(2,3)])
  have "val g (c + HEADER_SIZE + 8 * of_nat i) = val (heapmem s) (c + HEADER_SIZE + 8 * of_nat i)" if "i < words_of (heapmem s) c" for i
    using live_word(3) [OF assms(1,3) that] assms(2,3) by (simp add: untouched_def val_def)
  then show "contents g c = contents (heapmem s) c" by (simp add: contents_def words_of_def v)
qed

section \<open>Reallocation\<close>

lemma copy_words_spec:
  assumes "heap_inv R s L" "b \<in> L" "c \<in> L" "b \<noteq> c" "distinct is"
    and "\<And>i. i \<in> set is \<Longrightarrow> i < words_of (heapmem s) b \<and> i < words_of (heapmem s) c"
  shows "\<exists>s'. copy_words (c + HEADER_SIZE) (b + HEADER_SIZE) is s = Some s' \<and> heap_inv R s' L \<and> untouched (heapmem s) (heapmem s') (L - {c}) \<and>
    val (heapmem s') c = val (heapmem s) c \<and>
    (\<forall>i \<in> set is. heapmem s' (c + HEADER_SIZE + 8 * of_nat i) = heapmem s (b + HEADER_SIZE + 8 * of_nat i)) \<and>
    (\<forall>v. (\<forall>i \<in> set is. v \<noteq> c + HEADER_SIZE + 8 * of_nat i) \<longrightarrow> heapmem s' v = heapmem s v)"
  using assms
proof (induction "is" arbitrary: s)
  case Nil
  then show ?case by (simp add: untouched_def)
next
  case (Cons i "is")
  let ?v = "\<lambda>b i. b + HEADER_SIZE + 8 * of_nat i :: u64"
  have i: "i < words_of (heapmem s) b" "i < words_of (heapmem s) c" using Cons.prems(6) [of i] by simp_all
  note wb = live_word [OF Cons.prems(1,2) i(1)] and wc = live_word [OF Cons.prems(1,3) i(2)]
  define x where "x = val (heapmem s) (?v b i)"
  have ld: "kload s (?v b i) = Some x" using wb(4) by (auto simp: heapmem_def x_def split: if_splits)
  obtain s1 where s1: "kstore (?v c i) x s = Some s1" "heap_inv R s1 L" "heapmem s1 = (heapmem s)(?v c i \<mapsto> x)"
    "untouched (heapmem s) (heapmem s1) (L - {c})" "\<forall>d \<in> L. val (heapmem s1) d = val (heapmem s) d"
    using payload_store [OF Cons.prems(1,3), of "?v c i" x] wc(1,2) by auto
  have words: "words_of (heapmem s1) d = words_of (heapmem s) d" if "d \<in> L" for d using s1(5) that by (simp add: words_of_def)
  have bnd: "j < words_of (heapmem s1) b \<and> j < words_of (heapmem s1) c" if "j \<in> set is" for j
    using Cons.prems(2,3) Cons.prems(6) [of j] that words by simp
  obtain s2 where s2: "copy_words (c + HEADER_SIZE) (b + HEADER_SIZE) is s1 = Some s2" "heap_inv R s2 L" "untouched (heapmem s1) (heapmem s2) (L - {c})"
    "val (heapmem s2) c = val (heapmem s1) c" "\<forall>i \<in> set is. heapmem s2 (?v c i) = heapmem s1 (?v b i)"
    "\<And>v. (\<forall>i \<in> set is. v \<noteq> ?v c i) \<Longrightarrow> heapmem s2 v = heapmem s1 v"
    using Cons.IH [OF s1(2) Cons.prems(2-4) _ bnd] Cons.prems(5) by auto
  have b1: "heapmem s1 (?v b j) = heapmem s (?v b j)" if "j < words_of (heapmem s) b" for j
    using live_word(3) [OF Cons.prems(1,2) that] s1(4) Cons.prems(2,4) by (auto simp: untouched_def)
  have ne: "?v c i \<noteq> ?v c j" if "j \<in> set is" for j
    using live_word(1) [OF Cons.prems(1,3), of j] wc(1) Cons.prems(5) Cons.prems(6) [of j] that by auto
  have "heapmem s2 (?v c i) = Some x" using s2(6) [of "?v c i"] ne s1(3) by simp
  then have "\<forall>j \<in> set (i # is). heapmem s2 (?v c j) = heapmem s (?v b j)"
    using s2(5) b1 Cons.prems(6) wb(4) by (auto simp: x_def)
  moreover obtain F where F: "kinv R s F L" using Cons.prems(1) by (auto simp: heap_inv_def)
  have "untouched (heapmem s) (heapmem s2) (L - {c})"
    by (rule untouched_trans [OF s1(4) s2(3)]) (use untouched_span(1) [OF kinvD(3) [OF F] _ s1(4)] in auto)
  moreover have "heapmem s2 v = heapmem s v" if "\<forall>j \<in> set (i # is). v \<noteq> ?v c j" for v
    using s2(6) [of v] that s1(3) by simp
  ultimately show ?case using s1(1,5) s2(1,2,4) ld Cons.prems(3) by (auto simp: add.assoc)
qed

lemma live_block:
  assumes "heap_inv R s L" "b \<in> L"
  shows "b + HEADER_SIZE \<noteq> 0" "8 * words_of (heapmem s) b = unat (val (heapmem s) b)" "kload s b = Some (val (heapmem s) b)"
proof -
  obtain F where F: "kinv R s F L" using assms(1) by (auto simp: heap_inv_def)
  note B = kinvD(3) [OF F]
  have k: "blk (heapmem s) (unat (g_arena_next s)) b" using blocksD(4) [OF B] assms(2) by blast
  have "HEAP_LO \<le> unat b" "unat b \<le> HEAP_HI" using k blocksD(2) [OF B] by (auto simp: blk_def)
  then show "b + HEADER_SIZE \<noteq> 0" by (rule payload_nonzero)
  show "8 * words_of (heapmem s) b = unat (val (heapmem s) b)" using k by (simp add: words_of_def blk_def)
  show "kload s b = Some (val (heapmem s) b)" by (rule kat_load [OF kinvD(4) [OF F] blk_header(7) [OF k blocksD(2) [OF B]]])
qed

lemma untouched_mono: "untouched f g L \<Longrightarrow> M \<subseteq> L \<Longrightarrow> untouched f g M"
  by (auto simp: untouched_def)

lemma heap_untouched_trans:
  assumes "heap_inv R s L" "untouched (heapmem s) g L" "untouched g h L"
  shows "untouched (heapmem s) h L"
proof -
  obtain F where F: "kinv R s F L" using assms(1) by (auto simp: heap_inv_def)
  show ?thesis using kinv_untouched(1) [OF F assms(2)] by (rule untouched_trans [OF assms(2,3)])
qed

lemma heap_inv_subset: "heap_inv R s L \<Longrightarrow> M \<subseteq> L \<Longrightarrow> heap_inv R s M"
  unfolding heap_inv_def kinv_def using layout_forget by blast

lemma krealloc_move:
  assumes inv: "heap_inv R s L" and b: "b \<in> L" and sz: "unat sz \<le> 2 ^ 63" and grow: "\<not> align_up sz \<le> val (heapmem s) b"
  shows "\<exists>p s'. krealloc (b + HEADER_SIZE) sz s = Some (p, s') \<and>
    (if p = 0 then heap_inv R s' L \<and> untouched (heapmem s) (heapmem s') L
     else p - HEADER_SIZE \<notin> L \<and> heap_inv R s' (insert (p - HEADER_SIZE) (L - {b})) \<and> untouched (heapmem s) (heapmem s') (L - {b}) \<and>
       align_up sz \<le> val (heapmem s') (p - HEADER_SIZE) \<and>
       take (words_of (heapmem s) b) (contents (heapmem s') (p - HEADER_SIZE)) = contents (heapmem s) b)"
proof -
  let ?sz = "align_up sz" and ?f = "heapmem s" and ?v = "\<lambda>b i. b + HEADER_SIZE + 8 * of_nat i :: u64"
  have u: "unat ?sz \<le> 2 ^ 63" using align_up_nat [OF sz] sz by auto
  have bs: "?sz \<le> block_size ?sz" using block_size(3) [OF u] by (simp add: word_le_nat_alt)
  note lb = live_block [OF inv b]
  obtain p s1 where p: "kmalloc_locked ?sz s = Some (p, s1)" "alloc_result R s L (block_size ?sz) p s1" using kmalloc_spec [OF inv u] by blast
  have start: "krealloc (b + HEADER_SIZE) sz s = (if p = 0 then Some (0, s1) else do {
      n \<leftarrow> kload s1 b; s \<leftarrow> copy_words p (b + HEADER_SIZE) [0..<unat n div 8] s1; s \<leftarrow> kfree_locked (b + HEADER_SIZE) s; Some (p, s) })"
    using lb(1,3) grow p(1) by (simp add: krealloc_def Let_def)
  show ?thesis
  proof (cases "p = 0")
    case True
    then show ?thesis using start p(2) by (auto simp: alloc_result_def)
  next
    case False
    define c where "c = p - HEADER_SIZE"
    have pc: "p = c + HEADER_SIZE" by (simp add: c_def)
    have c: "c \<notin> L" "heap_inv R s1 (insert c L)" "block_size ?sz \<le> val (heapmem s1) c" "untouched ?f (heapmem s1) L"
      using p(2) False by (auto simp: alloc_result_def c_def)
    have bc: "b \<noteq> c" using b c(1) by auto
    note vb = contents_untouched [OF inv c(4) b]
    have wb: "words_of (heapmem s1) b = words_of ?f b" by (simp add: words_of_def vb(2))
    have "unat (val ?f b) \<le> unat (val (heapmem s1) c)" using grow bs c(3) by (simp add: word_le_nat_alt)
    then have wc: "words_of ?f b \<le> words_of (heapmem s1) c" by (simp add: words_of_def div_le_mono)
    obtain s2 where s2: "copy_words (c + HEADER_SIZE) (b + HEADER_SIZE) [0..<words_of ?f b] s1 = Some s2" "heap_inv R s2 (insert c L)"
      "untouched (heapmem s1) (heapmem s2) (insert c L - {c})" "val (heapmem s2) c = val (heapmem s1) c"
      "\<forall>i \<in> set [0..<words_of ?f b]. heapmem s2 (?v c i) = heapmem s1 (?v b i)"
      using copy_words_spec [OF c(2) _ _ bc, of "[0..<words_of ?f b]"] b wb wc by auto
    obtain s3 where s3: "kfree_locked (b + HEADER_SIZE) s2 = Some s3" "heap_inv R s3 (insert c L - {b})" "untouched (heapmem s2) (heapmem s3) (insert c L - {b})"
      using kfree_spec [OF s2(2), of b] b by blast
    have "kload s1 b = Some (val ?f b)" using live_block(3) [OF c(2), of b] b vb(2) by simp
    then have run: "krealloc (b + HEADER_SIZE) sz s = Some (p, s3)" using start False s2(1) s3(1) by (simp add: pc words_of_def)
    have eq: "insert c L - {b} = insert c (L - {b})" using bc by auto
    have cv: "val (heapmem s3) c = val (heapmem s1) c" "contents (heapmem s3) c = contents (heapmem s2) c"
      using contents_untouched [OF heap_inv_subset [OF s2(2)] s3(3), of c] bc s2(4) by auto
    have "val (heapmem s2) (?v c i) = val ?f (?v b i)" if "i < words_of ?f b" for i
    proof -
      have "heapmem s1 (?v b i) = ?f (?v b i)" using live_word(3) [OF inv b that] c(4) b by (auto simp: untouched_def)
      then show ?thesis using s2(5) that by (simp add: val_def)
    qed
    then have cont: "take (words_of ?f b) (contents (heapmem s3) c) = contents ?f b"
      unfolding cv(2) using wc s2(4) by (intro nth_equalityI) (simp_all add: contents_def words_of_def)
    have unt: "untouched ?f (heapmem s3) (L - {b})"
    proof (rule heap_untouched_trans)
      show "heap_inv R s (L - {b})" by (rule heap_inv_subset [OF inv]) blast
      show "untouched ?f (heapmem s1) (L - {b})" by (rule untouched_mono [OF c(4)]) blast
      show "untouched (heapmem s1) (heapmem s3) (L - {b})"
      proof (rule heap_untouched_trans)
        show "heap_inv R s1 (L - {b})" by (rule heap_inv_subset [OF c(2)]) blast
        show "untouched (heapmem s1) (heapmem s2) (L - {b})" by (rule untouched_mono [OF s2(3)]) (use c(1) in blast)
        show "untouched (heapmem s2) (heapmem s3) (L - {b})" by (rule untouched_mono [OF s3(3)]) blast
      qed
    qed
    show ?thesis using run False c(1) s3(2) unt cont cv(1) bs c(3) eq by (auto simp: c_def)
  qed
qed

section \<open>The contract\<close>

text \<open>The heap its clients see: the words behind each pointer that was handed out.\<close>

type_synonym aheap = "u64 \<rightharpoonup> u64 list"

definition heap_abs :: "u64 set \<Rightarrow> 'a kheap_scheme \<Rightarrow> aheap \<Rightarrow> bool" where
  "heap_abs R s A \<longleftrightarrow> (\<exists>L. heap_inv R s L \<and> A = (\<lambda>p. if p - HEADER_SIZE \<in> L then Some (contents (heapmem s) (p - HEADER_SIZE)) else None))"

datatype heap_op = Malloc u64 | Free u64 | Realloc u64 u64 | Put u64 nat u64

fun run_heap_op :: "heap_op \<Rightarrow> 'a kheap_scheme \<Rightarrow> (u64 \<times> 'a kheap_scheme) option" where
  "run_heap_op (Malloc sz) s = kmalloc sz s"
| "run_heap_op (Free p) s = map_option (Pair 0) (kfree p s)"
| "run_heap_op (Realloc p sz) s = krealloc p sz s"
| "run_heap_op (Put p i x) s = map_option (Pair 0) (kstore (p + 8 * of_nat i) x s)"

text \<open>What a client may do: sizes up to \<open>2^63\<close>, pointers it was given and that it has not released, words inside a block.\<close>

fun heap_op_ok :: "aheap \<Rightarrow> heap_op \<Rightarrow> bool" where
  "heap_op_ok A (Malloc sz) \<longleftrightarrow> unat sz \<le> 2 ^ 63"
| "heap_op_ok A (Free p) \<longleftrightarrow> p = 0 \<or> p \<in> dom A"
| "heap_op_ok A (Realloc p sz) \<longleftrightarrow> unat sz \<le> 2 ^ 63 \<and> (p = 0 \<or> p \<in> dom A)"
| "heap_op_ok A (Put p i x) \<longleftrightarrow> (case A p of None \<Rightarrow> False | Some ws \<Rightarrow> i < length ws)"

inductive heap_spec :: "aheap \<Rightarrow> heap_op \<Rightarrow> u64 \<Rightarrow> aheap \<Rightarrow> bool" where
  malloc_fails: "heap_spec A (Malloc sz) 0 A"
| malloc_new: "p \<noteq> 0 \<Longrightarrow> A p = None \<Longrightarrow> unat sz \<le> 8 * length ws \<Longrightarrow> heap_spec A (Malloc sz) p (A(p \<mapsto> ws))"
| free_null: "heap_spec A (Free 0) 0 A"
| free_block: "A p = Some ws \<Longrightarrow> heap_spec A (Free p) 0 (A(p := None))"
| realloc_null: "heap_spec A (Malloc sz) p A' \<Longrightarrow> heap_spec A (Realloc 0 sz) p A'"
| realloc_fails: "A p = Some ws \<Longrightarrow> heap_spec A (Realloc p sz) 0 A"
| realloc_stays: "A p = Some ws \<Longrightarrow> unat sz \<le> 8 * length ws \<Longrightarrow> heap_spec A (Realloc p sz) p A"
| realloc_moves: "A p = Some ws \<Longrightarrow> q \<noteq> 0 \<Longrightarrow> A q = None \<Longrightarrow> unat sz \<le> 8 * length vs \<Longrightarrow> take (length ws) vs = ws \<Longrightarrow>
    heap_spec A (Realloc p sz) q ((A(p := None))(q \<mapsto> vs))"
| put_word: "A p = Some ws \<Longrightarrow> i < length ws \<Longrightarrow> heap_spec A (Put p i x) 0 (A(p \<mapsto> ws[i := x]))"

definition absmap :: "hmem \<Rightarrow> u64 set \<Rightarrow> aheap" where
  "absmap f L p = (if p - HEADER_SIZE \<in> L then Some (contents f (p - HEADER_SIZE)) else None)"

lemma heap_abs_iff: "heap_abs R s A \<longleftrightarrow> (\<exists>L. heap_inv R s L \<and> A = absmap (heapmem s) L)"
  by (simp add: heap_abs_def absmap_def [abs_def])

lemma absmap_null: "heap_inv R s L \<Longrightarrow> absmap (heapmem s) L 0 = None"
  using live_block(1) [of R s L "0 - HEADER_SIZE"] by (auto simp: absmap_def)

lemma absmap_untouched: "heap_inv R s L \<Longrightarrow> untouched (heapmem s) g L \<Longrightarrow> absmap g L = absmap (heapmem s) L"
  using contents_untouched(1) [of R s L g] by (auto simp: absmap_def)

lemma absmap_insert: "b \<notin> L \<Longrightarrow> absmap f (insert b L) = (absmap f L)(b + HEADER_SIZE \<mapsto> contents f b)"
  by (rule ext) (auto simp: absmap_def diff_eq_eq)

lemma absmap_remove: "absmap f (L - {b}) = (absmap f L)(b + HEADER_SIZE := None)"
  by (rule ext) (auto simp: absmap_def diff_eq_eq)

lemma malloc_refines:
  assumes "heap_inv R s L" "unat sz \<le> 2 ^ 63"
  shows "\<exists>p s' A'. kmalloc sz s = Some (p, s') \<and> heap_spec (absmap (heapmem s) L) (Malloc sz) p A' \<and> heap_abs R s' A' \<and>
    progress (pages_for sz) s p s'"
proof -
  obtain p s' where p: "kmalloc_locked sz s = Some (p, s')" "alloc_result R s L (block_size sz) p s'"
    and np: "progress (pages_for sz) s p s'" using kmalloc_spec [OF assms] by blast
  have u: "untouched (heapmem s) (heapmem s') L" using p(2) by (simp add: alloc_result_def)
  note eq = absmap_untouched [OF assms(1) u]
  show ?thesis
  proof (cases "p = 0")
    case True
    then have "heap_inv R s' L" using p(2) by (simp add: alloc_result_def)
    then have "heap_abs R s' (absmap (heapmem s) L)" using eq by (auto simp: heap_abs_iff)
    then show ?thesis using p(1) True np malloc_fails by (auto simp: kmalloc_def)
  next
    case False
    define c where "c = p - HEADER_SIZE"
    have c: "c \<notin> L" "heap_inv R s' (insert c L)" "block_size sz \<le> val (heapmem s') c" "p = c + HEADER_SIZE"
      using p(2) False by (auto simp: alloc_result_def c_def)
    have "8 * length (contents (heapmem s') c) = unat (val (heapmem s') c)" using live_block(2) [OF c(2), of c] by (simp add: contents_def)
    then have "unat sz \<le> 8 * length (contents (heapmem s') c)" using c(3) block_size(3) [OF assms(2)] by (simp add: word_le_nat_alt)
    moreover have "absmap (heapmem s) L p = None" using c(1) by (simp add: absmap_def c_def)
    ultimately have "heap_spec (absmap (heapmem s) L) (Malloc sz) p ((absmap (heapmem s) L)(p \<mapsto> contents (heapmem s') c))"
      using False by (intro malloc_new)
    moreover have "heap_abs R s' ((absmap (heapmem s) L)(p \<mapsto> contents (heapmem s') c))"
      using c absmap_insert [OF c(1), of "heapmem s'"] eq by (auto simp: heap_abs_iff)
    ultimately show ?thesis using p(1) np by (auto simp: kmalloc_def)
  qed
qed

lemma free_refines:
  assumes "heap_inv R s L" "b \<in> L"
  shows "\<exists>s'. kfree (b + HEADER_SIZE) s = Some s' \<and> heap_abs R s' ((absmap (heapmem s) L)(b + HEADER_SIZE := None))"
proof -
  obtain s' where s': "kfree_locked (b + HEADER_SIZE) s = Some s'" "heap_inv R s' (L - {b})" "untouched (heapmem s) (heapmem s') (L - {b})"
    using kfree_spec [OF assms] by blast
  have "absmap (heapmem s') (L - {b}) = (absmap (heapmem s) L)(b + HEADER_SIZE := None)"
    using absmap_untouched [OF heap_inv_subset [OF assms(1)] s'(3)] absmap_remove by (metis Diff_subset)
  then show ?thesis using s'(1,2) live_block(1) [OF assms] by (auto simp: kfree_def heap_abs_iff)
qed

lemma put_refines:
  assumes inv: "heap_inv R s L" and b: "b \<in> L" and i: "i < words_of (heapmem s) b"
  shows "\<exists>s'. kstore (b + HEADER_SIZE + 8 * of_nat i) x s = Some s' \<and>
    heap_abs R s' ((absmap (heapmem s) L)(b + HEADER_SIZE \<mapsto> (contents (heapmem s) b)[i := x]))"
proof -
  let ?v = "\<lambda>j. b + HEADER_SIZE + 8 * of_nat j :: u64"
  note w = live_word [OF inv b]
  obtain s' where s': "kstore (?v i) x s = Some s'" "heap_inv R s' L" "heapmem s' = (heapmem s)(?v i \<mapsto> x)" "untouched (heapmem s) (heapmem s') (L - {b})"
    "\<forall>c \<in> L. val (heapmem s') c = val (heapmem s) c"
    using payload_store [OF inv b, of "?v i" x] w(1,2) [OF i] by auto
  have n: "words_of (heapmem s') b = words_of (heapmem s) b" using s'(5) b by (simp add: words_of_def)
  have "?v j = ?v i \<longleftrightarrow> j = i" if "j < words_of (heapmem s) b" for j using w(1) [OF that] w(1) [OF i] by (metis add_left_cancel mult_left_cancel zero_neq_numeral)
  then have c: "contents (heapmem s') b = (contents (heapmem s) b)[i := x]"
    unfolding contents_def n using i by (intro nth_equalityI) (auto simp: s'(3) nth_list_update)
  have "absmap (heapmem s') (L - {b}) = absmap (heapmem s) (L - {b})"
    by (rule absmap_untouched [OF heap_inv_subset [OF inv] s'(4)]) blast
  then have "absmap (heapmem s') (insert b (L - {b})) = (absmap (heapmem s) L)(b + HEADER_SIZE \<mapsto> (contents (heapmem s) b)[i := x])"
    by (subst absmap_insert) (simp_all add: c absmap_remove)
  moreover have "insert b (L - {b}) = L" using b by blast
  ultimately show ?thesis using s'(1,2) by (auto simp: heap_abs_iff)
qed

lemma realloc_refines:
  assumes inv: "heap_inv R s L" and b: "b \<in> L" and sz: "unat sz \<le> 2 ^ 63"
  shows "\<exists>q s' A'. krealloc (b + HEADER_SIZE) sz s = Some (q, s') \<and> heap_spec (absmap (heapmem s) L) (Realloc (b + HEADER_SIZE) sz) q A' \<and> heap_abs R s' A'"
proof -
  let ?A = "absmap (heapmem s) L" and ?p = "b + HEADER_SIZE" and ?ws = "contents (heapmem s) b"
  have Ap: "?A ?p = Some ?ws" using b by (simp add: absmap_def)
  note lb = live_block [OF inv b]
  have as: "unat sz \<le> unat (align_up sz)" using align_up_nat [OF sz] by simp
  have len: "8 * length (contents (heapmem t) c) = unat (val (heapmem t) c)" if "heap_inv R t M" "c \<in> M" for c M and t :: "'a kheap_scheme"
    using live_block(2) [OF that] by (simp add: contents_def)
  show ?thesis
  proof (cases "align_up sz \<le> val (heapmem s) b")
    case True
    then have "unat sz \<le> 8 * length ?ws" using len [OF inv b] as by (simp add: word_le_nat_alt)
    moreover have "krealloc ?p sz s = Some (?p, s)" using lb(1,3) True by (simp add: krealloc_def Let_def)
    ultimately show ?thesis using realloc_stays [where A = ?A and p = ?p, OF Ap] inv by (auto simp: heap_abs_iff)
  next
    case False
    obtain q s' where q: "krealloc ?p sz s = Some (q, s')"
      "if q = 0 then heap_inv R s' L \<and> untouched (heapmem s) (heapmem s') L
       else q - HEADER_SIZE \<notin> L \<and> heap_inv R s' (insert (q - HEADER_SIZE) (L - {b})) \<and> untouched (heapmem s) (heapmem s') (L - {b}) \<and>
         align_up sz \<le> val (heapmem s') (q - HEADER_SIZE) \<and>
         take (words_of (heapmem s) b) (contents (heapmem s') (q - HEADER_SIZE)) = ?ws"
      using krealloc_move [OF inv b sz False] by blast
    show ?thesis
    proof (cases "q = 0")
      case True
      then have "heap_inv R s' L" "absmap (heapmem s') L = ?A" using q(2) absmap_untouched [OF inv, of "heapmem s'"] by auto
      then have "heap_abs R s' ?A" by (auto simp: heap_abs_iff)
      moreover have "heap_spec ?A (Realloc ?p sz) 0 ?A" using Ap by (rule realloc_fails)
      ultimately show ?thesis using q(1) True by blast
    next
      case nz: False
      define c where "c = q - HEADER_SIZE"
      have c: "q = c + HEADER_SIZE" "c \<notin> L" "heap_inv R s' (insert c (L - {b}))" "untouched (heapmem s) (heapmem s') (L - {b})"
        "align_up sz \<le> val (heapmem s') c" "take (length ?ws) (contents (heapmem s') c) = ?ws"
        using q(2) nz by (auto simp: c_def contents_def)
      have "unat sz \<le> 8 * length (contents (heapmem s') c)" using len [OF c(3)] as c(5) by (simp add: word_le_nat_alt)
      moreover have "?A q = None" using c(2) by (simp add: absmap_def c_def)
      ultimately have "heap_spec ?A (Realloc ?p sz) q ((?A(?p := None))(q \<mapsto> contents (heapmem s') c))"
        using realloc_moves [where A = ?A and p = ?p, OF Ap nz] c(6) by blast
      moreover have "absmap (heapmem s') (insert c (L - {b})) = (?A(?p := None))(q \<mapsto> contents (heapmem s') c)"
        using absmap_insert [of c "L - {b}"] absmap_untouched [OF heap_inv_subset [OF inv] c(4)] absmap_remove [of "heapmem s" L b] c(1,2) by auto
      then have "heap_abs R s' ((?A(?p := None))(q \<mapsto> contents (heapmem s') c))" using c(3) unfolding heap_abs_iff by metis
      ultimately show ?thesis using q(1) by blast
    qed
  qed
qed

text \<open>Every operation of a client against the abstract heap.\<close>

lemma heap_op_refines:
  assumes "heap_abs R s A" "heap_op_ok A x"
  shows "\<exists>r s' A'. run_heap_op x s = Some (r, s') \<and> heap_spec A x r A' \<and> heap_abs R s' A'"
proof -
  obtain L where L: "heap_inv R s L" "A = absmap (heapmem s) L" using assms(1) by (auto simp: heap_abs_iff)
  have live: "\<exists>b \<in> L. p = b + HEADER_SIZE" if "p \<in> dom A" for p
    using that L(2) by (auto simp: absmap_def dom_def intro: bexI [of _ "p - HEADER_SIZE"] split: if_splits)
  show ?thesis
  proof (cases x)
    case (Malloc sz)
    then show ?thesis using malloc_refines [OF L(1)] assms(2) L(2) by simp blast
  next
    case (Free p)
    show ?thesis
    proof (cases "p = 0")
      case True
      then show ?thesis using Free assms(1) free_null by (auto simp: kfree_def)
    next
      case False
      then obtain b where b: "b \<in> L" "p = b + HEADER_SIZE" using live [of p] assms(2) Free by auto
      then have "A p = Some (contents (heapmem s) b)" by (simp add: L(2) absmap_def)
      then show ?thesis using free_refines [OF L(1) b(1)] free_block [of A p] Free b(2) L(2) by auto
    qed
  next
    case (Realloc p sz)
    show ?thesis
    proof (cases "p = 0")
      case True
      then show ?thesis using malloc_refines [OF L(1), of sz] realloc_null Realloc assms(2) L(2) by (auto simp: krealloc_def) blast
    next
      case False
      then obtain b where "b \<in> L" "p = b + HEADER_SIZE" using live [of p] assms(2) Realloc by auto
      then show ?thesis using realloc_refines [OF L(1), of b sz] Realloc assms(2) L(2) by auto
    qed
  next
    case (Put p i y)
    then obtain ws where ws: "A p = Some ws" "i < length ws" using assms(2) by (auto split: option.splits)
    then obtain b where b: "b \<in> L" "p = b + HEADER_SIZE" "ws = contents (heapmem s) b" using that [of "p - HEADER_SIZE"] by (auto simp: L(2) absmap_def split: if_splits)
    have "i < words_of (heapmem s) b" using ws(2) b(3) by (simp add: contents_def)
    then show ?thesis using put_refines [OF L(1) b(1), of i y] put_word [where A = A and p = p, OF ws, of y] Put b L(2) by auto
  qed
qed

end
