(* ===== verification/Kmalloc_Init.thy ===== *)
theory Kmalloc_Init
  imports Kmalloc_Props
begin

text \<open>The start of the kernel heap. \<^verbatim>\<open>kmalloc_init\<close> reserves the page tables of the whole heap region, 32 tables of 512 pages,
  and leaves an empty arena: this is the first state of the invariant of \<^verbatim>\<open>Kmalloc_Inv\<close>. The theory also states when an
  allocation succeeds, and evaluates the heap on a machine of 128 frames.\<close>

section \<open>Reserving the tables of the region\<close>

definition heap_page :: "nat \<Rightarrow> u64" where
  "heap_page k = of_nat (HEAP_LO + 4096 * k)"

definition page_index :: "u64 \<Rightarrow> nat" where
  "page_index v = page_no v - 0xFFFFFFFF81000"

lemma heap_page:
  assumes "k < 16384"
  shows "heap_va (heap_page k)" "page_index (heap_page k) = k"
proof -
  have "unat (heap_page k) = HEAP_LO + 4096 * k" using assms unfolding heap_page_def by (simp only: unat_of_nat) simp
  then show "heap_va (heap_page k)" "page_index (heap_page k) = k" using assms by (simp_all add: heap_va_def page_index_def page_no_def)
qed

lemma page_index_less: "heap_va v \<Longrightarrow> page_index v < 16384"
  by (auto simp: heap_va_def page_index_def page_no_def)

lemma heap_table: "heap_va v \<Longrightarrow> take 3 (vpath v) = [511, 510, 8 + page_index v div 512]"
  by (simp add: vpath_heap page_index_def)

lemma table_edge:
  assumes "\<not> 512 dvd (k :: nat)"
  shows "(k + 512) div 512 = (k + 511) div 512" "k div 512 = (k - 1) div 512"
proof -
  define q r where "q = k div 512" and "r = k mod 512"
  have "k = 512 * q + r" "r < 512" "r \<noteq> 0" using assms by (simp_all add: q_def r_def dvd_eq_mod_eq_0)
  then have "k = 512 * q + r" "(r + 511) div 512 = 1" "r div 512 = 0" "(r - 1) div 512 = 0" "k - 1 = 512 * q + (r - 1)" by auto
  then show "(k + 512) div 512 = (k + 511) div 512" "k div 512 = (k - 1) div 512" by (simp_all add: add.assoc)
qed

text \<open>The state after the first \<open>k\<close> pages: their tables exist, and three frames are left for every table to come.\<close>

definition reserved :: "u64 set \<Rightarrow> 'a vmm_scheme \<Rightarrow> nat \<Rightarrow> nat \<Rightarrow> 'a vmm_scheme \<Rightarrow> bool" where
  "reserved R s m k t \<longleftrightarrow> extends s t R \<and> rest t = rest s \<and> room t (3 * (32 - (k + 511) div 512) + m) \<and>
     (\<forall>v. heap_va v \<longrightarrow> page_index v < k \<longrightarrow> tab (pmem t) (g_root_cr3 s) (take 3 (vpath v)) \<noteq> None)"

lemma reserved_step:
  assumes inv: "reserved R s m k t" and r: "g_root_cr3 s \<in> R" and sm: "\<And>v. heap_va v \<Longrightarrow> small s (g_root_cr3 s) v" and k: "k < 16384"
  shows "reserved R s m (Suc k) (snd (walk_pt t (g_root_cr3 t) (heap_page k) True False))"
proof -
  let ?r = "g_root_cr3 s" and ?p = "heap_page k"
  obtain res t' where w: "walk_pt t ?r ?p True False = (res, t')" by (cases "walk_pt t ?r ?p True False")
  have e: "extends s t R" and rm: "room t (3 * (32 - (k + 511) div 512) + m)" using inv by (auto simp: reserved_def)
  note p = heap_page [OF k]
  have smt: "small t ?r ?p" by (rule small_extends [OF sm [OF p(1)] e r])
  note W = walk_pt_extends [OF extendsD(1) [OF e] r smt w]
  have "res \<noteq> None \<and> room t' (3 * (32 - (Suc k + 511) div 512) + m)"
  proof (cases "512 dvd k")
    case True
    then obtain c where c: "k = 512 * c" by blast
    then have "c < 32" using k by simp
    then have n: "3 * (32 - (k + 511) div 512) + m = Suc (Suc (Suc (3 * (32 - (Suc k + 511) div 512) + m)))" by (simp add: c)
    show ?thesis using W(4) [OF TrueI rm [unfolded n]] .
  next
    case False
    then obtain j where j: "k = Suc j" by (cases k) auto
    have d: "(Suc k + 511) div 512 = (k + 511) div 512" "k div 512 = j div 512" using table_edge [OF False] j by simp_all
    have hj: "heap_va (heap_page j)" "page_index (heap_page j) = j" using heap_page [of j] k j by simp_all
    then have "tab (pmem t) ?r (take 3 (vpath (heap_page j))) \<noteq> None" using inv j by (simp add: reserved_def)
    moreover have "take 3 (vpath (heap_page j)) = take 3 (vpath ?p)" using hj p d(2) by (simp add: heap_table)
    ultimately obtain pt where pt: "tab (pmem t) ?r (take 3 (vpath ?p)) = Some pt" by auto
    have "res = Some (cell pt (idx 12 ?p), False)" "g_pmm t' = g_pmm t" by (rule walk_present [OF extendsD(1) [OF e] r smt pt w])+
    then show ?thesis using rm d(1) by (simp add: room_def)
  qed
  then obtain pte sp where res: "res = Some (pte, sp)" and rm': "room t' (3 * (32 - (Suc k + 511) div 512) + m)" by auto
  have "tab (pmem t') ?r (take 3 (vpath v)) \<noteq> None" if v: "heap_va v" "page_index v < Suc k" for v
  proof (cases "page_index v = k")
    case True
    then have "take 3 (vpath v) = take 3 (vpath ?p)" using v(1) p by (simp add: heap_table)
    then show ?thesis using W(2) [OF res] by auto
  next
    case False
    then obtain pt where "tab (pmem t) ?r (take 3 (vpath v)) = Some pt" using inv v by (auto simp: reserved_def)
    then show ?thesis using extendsD(6) [OF W(1) r, of "take 3 (vpath v)" pt] by simp
  qed
  then show ?thesis
    using extends_trans [OF e W(1)] rest_walk [OF w] rm' inv w extendsD(4) [OF e] by (simp add: reserved_def)
qed

lemma reserved_fold:
  assumes "reserved R s m 0 s" "g_root_cr3 s \<in> R" "\<And>v. heap_va v \<Longrightarrow> small s (g_root_cr3 s) v" "k \<le> 16384"
  shows "reserved R s m k (fold (\<lambda>k t. snd (walk_pt t (g_root_cr3 t) (heap_page k) True False)) [0..<k] s)"
  using assms(4) by (induction k) (use assms(1) reserved_step [OF _ assms(2,3)] in auto)

lemma reserve_heap:
  "vmm_reserve_tables VMM_KHEAP_BASE VMM_KHEAP_SIZE s = fold (\<lambda>k t. snd (walk_pt t (g_root_cr3 t) (heap_page k) True False)) [0..<16384] s"
  by (simp add: vmm_reserve_tables_def heap_page_def Let_def del: upt_rec_numeral)

section \<open>The empty heap\<close>

text \<open>What the boot code has set up when the heap starts: the kernel space is active and nothing is mapped in the heap region.\<close>

definition boot_ok :: "u64 set \<Rightarrow> 'a vmm_scheme \<Rightarrow> bool" where
  "boot_ok R s \<longleftrightarrow> spaces_ok s R \<and> g_root_cr3 s \<in> R \<and> g_cr3 s = g_root_cr3 s \<and>
     (\<forall>v. heap_va v \<longrightarrow> small s (g_root_cr3 s) v \<and> space s (g_root_cr3 s) v = None)"

lemma boot_ok_update [simp]:
  "boot_ok R (s\<lparr>g_free := a\<rparr>) = boot_ok R s" "boot_ok R (s\<lparr>g_arena_next := b\<rparr>) = boot_ok R s" "boot_ok R (s\<lparr>g_arena_bytes := c\<rparr>) = boot_ok R s"
  by (simp_all add: boot_ok_def spaces_ok_def small_def space_def busy_def table_page_def)

lemma reserve_kpages:
  assumes "boot_ok R s" "room s (96 + m)"
  defines "t \<equiv> vmm_reserve_tables VMM_KHEAP_BASE VMM_KHEAP_SIZE s"
  shows "kpages_ok R t" "rest t = rest s" "room t m"
proof -
  have ok: "spaces_ok s R" "g_root_cr3 s \<in> R" "g_cr3 s = g_root_cr3 s" "\<And>v. heap_va v \<Longrightarrow> small s (g_root_cr3 s) v" "\<And>v. heap_va v \<Longrightarrow> space s (g_root_cr3 s) v = None"
    using assms(1) by (auto simp: boot_ok_def)
  have "reserved R s m 0 s" using assms(2) extends_refl [OF ok(1)] by (simp add: reserved_def)
  then have res: "reserved R s m 16384 t" unfolding t_def reserve_heap by (rule reserved_fold [OF _ ok(2,4)]) simp_all
  then show "rest t = rest s" "room t m" by (simp_all add: reserved_def)
  have e: "extends s t R" using res by (simp add: reserved_def)
  note E = extendsD(1,3,4) [OF e]
  have "frame_of t v = None" if "heap_va v" for v using space_extends [OF e ok(2), of v] ok(5) [OF that] E(3) by (simp add: frame_of_def)
  moreover have "small t (g_root_cr3 s) v" if "heap_va v" for v by (rule small_extends [OF ok(4) [OF that] e ok(2)])
  moreover have "\<exists>pt. tab (pmem t) (g_root_cr3 s) (take 3 (vpath v)) = Some pt" if "heap_va v" for v
    using res page_index_less [OF that] that by (auto simp: reserved_def)
  ultimately show "kpages_ok R t" using E ok(2,3) by (simp add: kpages_ok_def)
qed

lemma init_inv:
  assumes "boot_ok R s" "g_large_free s = []" "room s (96 + m)"
  shows "heap_inv R (kmalloc_init s) {}" "room (kmalloc_init s) m" "g_arena_next (kmalloc_init s) = VMM_KHEAP_BASE"
proof -
  let ?s = "s\<lparr>g_free := 0, g_arena_next := VMM_KHEAP_BASE, g_arena_bytes := 0\<rparr>"
  have r: "rest (kmalloc_init s) = rest ?s" and k: "kpages_ok R (kmalloc_init s)" and m: "room (kmalloc_init s) m"
    unfolding kmalloc_init_def by (rule reserve_kpages; use assms in simp)+
  note h = rest_fields [OF r]
  show "room (kmalloc_init s) m" "g_arena_next (kmalloc_init s) = VMM_KHEAP_BASE" using m h by simp_all
  have "kinv R (kmalloc_init s) [] {}" using k h assms(2) by (simp add: kinv_def layout_def blocks_def)
  then show "heap_inv R (kmalloc_init s) {}" by (auto simp: heap_inv_def)
qed

lemma init_abs:
  assumes "boot_ok R s" "g_large_free s = []" "room s (96 + m)"
  shows "heap_abs R (kmalloc_init s) Map.empty"
proof -
  have "absmap f {} = Map.empty" for f by (rule ext) (simp add: absmap_def)
  then show ?thesis using init_inv(1) [OF assms] unfolding heap_abs_iff by metis
qed

text \<open>A machine of 128 frames, the frames from the third on free, with an empty root table.\<close>

definition sample_boot :: kheap where
  "sample_boot = \<lparr>g_pmm = sample_pool\<lparr>pm_total_frames := 128\<rparr>, pmem = (\<lambda>_. 0), g_cr3 = 4096, g_root_cr3 = 4096, g_mmio_next = VMM_MMIO_BASE,
     g_free = 4, g_arena_next = 0, g_arena_bytes = 9, g_large_free = []\<rparr>"

lemma sample_boot_ok: "boot_ok {4096} sample_boot" "room sample_boot (96 + 29)" "g_large_free sample_boot = []"
proof -
  have "page_no 4096 = 1" by (simp add: page_no_def)
  then have "spaces_ok sample_boot {4096}" using tab_flat [of "pmem sample_boot" 4096]
    by (auto simp: sample_boot_def spaces_ok_def aligned_def busy_def sample_pool_free ptr_ok_def split: if_splits)
  then show "boot_ok {4096} sample_boot"
    by (auto simp: boot_ok_def sample_boot_def small_def space_def vpath_def ptr_ok_def)
  have "free_frames (g_pmm sample_boot) = {3..<128}" by (auto simp: sample_boot_def free_frames_def sample_pool_free)
  then show "room sample_boot (96 + 29)" by (simp add: room_def)
  show "g_large_free sample_boot = []" by (simp add: sample_boot_def)
qed

lemmas sample_init = init_inv [OF sample_boot_ok(1,3,2)]

text \<open>\<^verbatim>\<open>kmalloc_init\<close> starts an empty heap: with the kernel space active, nothing mapped in the heap region, no recorded hole and 96
  frames to spare (three for each of the 32 page tables of the region), it returns in a state that satisfies the invariant with
  no live block and no mapped byte.\<close>

theorem kmalloc_init_empty:
  assumes "boot_ok R s" "g_large_free s = []" "room s (96 + m)"
  shows "heap_abs R (kmalloc_init s) Map.empty \<and> kmalloc_arena_bytes (kmalloc_init s) = 0 \<and> room (kmalloc_init s) m"
proof -
  note I = init_inv [OF assms]
  show ?thesis using I init_abs [OF assms] by (auto simp: kmalloc_arena_bytes_def heap_inv_def kinv_def)
qed

theorem kmalloc_init_empty_witness:
  "heap_abs {4096} (kmalloc_init sample_boot) Map.empty \<and> kmalloc_arena_bytes (kmalloc_init sample_boot) = 0 \<and> room (kmalloc_init sample_boot) 29"
  using kmalloc_init_empty [OF sample_boot_ok(1,3,2)] .

section \<open>Allocation, release and stores against the abstract heap\<close>

text \<open>C6. The kernel heap implements a map of disjoint blocks. Every call that respects the discipline of the clients returns
  without a fault and does what the abstract heap does: an allocation returns null and changes nothing, or a new pointer to a
  block of at least the requested size; a release removes its block; a reallocation keeps the words of the block, in place or at
  a new pointer; a store changes one word of one block. No other block changes.\<close>

theorem kheap_refines:
  assumes "heap_abs R s A" "heap_op_ok A x"
  shows "\<exists>r s' A'. run_heap_op x s = Some (r, s') \<and> heap_spec A x r A' \<and> heap_abs R s' A'"
  using heap_op_refines [OF assms] .

lemmas sample_abs = init_abs [OF sample_boot_ok(1,3,2)]

theorem kheap_refines_witness:
  "\<exists>p s A. run_heap_op (Malloc 100) (kmalloc_init sample_boot) = Some (p, s) \<and> heap_spec Map.empty (Malloc 100) p A \<and> heap_abs {4096} s A"
  using kheap_refines [OF sample_abs, of "Malloc 100"] by simp

lemma alloc_succeeds:
  assumes "heap_abs R s A" "unat sz \<le> 2 ^ 63" "room s (pages_for sz + m)" "unat (g_arena_next s) + 4096 * pages_for sz \<le> HEAP_HI"
  shows "\<exists>p ws s'. kmalloc sz s = Some (p, s') \<and> p \<noteq> 0 \<and> A p = None \<and> unat sz \<le> 8 * length ws \<and> heap_abs R s' (A(p \<mapsto> ws)) \<and>
    room s' m \<and> unat (g_arena_next s') \<le> unat (g_arena_next s) + 4096 * pages_for sz"
proof -
  obtain L where L: "heap_inv R s L" "A = absmap (heapmem s) L" using assms(1) by (auto simp: heap_abs_iff)
  obtain p s' A' where p: "kmalloc sz s = Some (p, s')" "heap_spec A (Malloc sz) p A'" "heap_abs R s' A'"
    and "progress (pages_for sz) s p s'" using malloc_refines [OF L(1) assms(2)] L(2) by blast
  then have g: "p \<noteq> 0" "room s' m" "unat (g_arena_next s') \<le> unat (g_arena_next s) + 4096 * pages_for sz"
    using assms(3,4) by (simp_all add: progress_def)
  from p(2) g(1) obtain ws where "A p = None" "unat sz \<le> 8 * length ws" "A' = A(p \<mapsto> ws)" by cases auto
  then show ?thesis using p g by blast
qed

text \<open>C8. An allocation succeeds when the frames and the arena suffice: with a free frame for every page the block needs with its
  header, and that much of the region not yet used, \<^verbatim>\<open>kmalloc\<close> returns a pointer that no live block has, to a block of at
  least the requested size, whatever the state of the free list and of the recorded holes, and uses no more frames and no more of the
  region than that, so that the next call can be judged the same way.\<close>

theorem kmalloc_succeeds:
  assumes "heap_abs R s A" "unat sz \<le> 2 ^ 63" "room s (pages_for sz + m)" "unat (g_arena_next s) + 4096 * pages_for sz \<le> HEAP_HI"
  shows "\<exists>p ws s'. kmalloc sz s = Some (p, s') \<and> p \<noteq> 0 \<and> A p = None \<and> unat sz \<le> 8 * length ws \<and> heap_abs R s' (A(p \<mapsto> ws)) \<and>
    room s' m \<and> unat (g_arena_next s') \<le> unat (g_arena_next s) + 4096 * pages_for sz"
  using alloc_succeeds [OF assms] .

lemma sample_arena: "g_arena_next (kmalloc_init sample_boot) = VMM_KHEAP_BASE" "n \<le> 29 \<Longrightarrow> room (kmalloc_init sample_boot) n"
  using sample_init(2,3) by (simp_all add: room_def)

lemma sample_sizes: "pages_for 8100 = 2" "pages_for 100 = 1"
  using block_size(6) [of 8100] block_size(6) [of 100] by (simp_all add: pages_for_def)

theorem kmalloc_succeeds_witness:
  "\<exists>p ws s. kmalloc 8100 (kmalloc_init sample_boot) = Some (p, s) \<and> p \<noteq> 0 \<and> 8100 \<le> 8 * length ws \<and> heap_abs {4096} s [p \<mapsto> ws] \<and> room s 27"
  using kmalloc_succeeds [OF sample_abs, of 8100 27] sample_arena(1) sample_arena(2) [of 29] sample_sizes by auto

lemma live_span:
  assumes "heap_inv R s L" "b \<in> L"
  shows "unat (b + HEADER_SIZE) = unat b + 24" "HEAP_LO \<le> unat b" "8 dvd unat b"
    "unat b + 24 + 8 * words_of (heapmem s) b \<le> unat b + snd (bspan (heapmem s) b)" "unat b + snd (bspan (heapmem s) b) \<le> unat (g_arena_next s)"
    "unat (g_arena_next s) \<le> HEAP_HI" "c \<in> L \<Longrightarrow> c \<noteq> b \<Longrightarrow> apart (bspan (heapmem s) b) (bspan (heapmem s) c)"
proof -
  obtain F where F: "kinv R s F L" using assms(1) by (auto simp: heap_inv_def)
  note B = kinvD(3) [OF F]
  have k: "blk (heapmem s) (unat (g_arena_next s)) b" using blocksD(4) [OF B] assms(2) by blast
  show "unat (b + HEADER_SIZE) = unat b + 24" by (rule blk_header(3) [OF k blocksD(2) [OF B]])
  show "HEAP_LO \<le> unat b" "8 dvd unat b" "unat b + snd (bspan (heapmem s) b) \<le> unat (g_arena_next s)" using k by (auto simp: blk_def)
  show "unat (g_arena_next s) \<le> HEAP_HI" by (rule blocksD(2) [OF B])
  show "unat b + 24 + 8 * words_of (heapmem s) b \<le> unat b + snd (bspan (heapmem s) b)"
    using blk_span [OF k] live_block(2) [OF assms] by simp
  show "apart (bspan (heapmem s) b) (bspan (heapmem s) c)" if "c \<in> L" "c \<noteq> b"
    using blocksD(5) [OF B, of b c] assms(2) that by auto
qed

lemma abs_blocks_disjoint:
  assumes "heap_abs R s A" "A p = Some ws"
  shows "A q = Some vs \<Longrightarrow> p \<noteq> q \<Longrightarrow> unat p + 8 * length ws + 24 \<le> unat q \<or> unat q + 8 * length vs + 24 \<le> unat p"
    "8 dvd unat p" "HEAP_LO + 24 \<le> unat p" "unat p + 8 * length ws \<le> HEAP_HI"
proof -
  obtain L where L: "heap_inv R s L" "A = absmap (heapmem s) L" using assms(1) by (auto simp: heap_abs_iff)
  have live: "\<exists>b \<in> L. r = b + HEADER_SIZE \<and> length xs = words_of (heapmem s) b" if "A r = Some xs" for r xs
    using that L(2) by (auto simp: absmap_def contents_def intro: bexI [of _ "r - HEADER_SIZE"] split: if_splits)
  obtain b where b: "b \<in> L" "p = b + HEADER_SIZE" "length ws = words_of (heapmem s) b" using live [OF assms(2)] by blast
  note P = live_span [OF L(1) b(1)]
  show "8 dvd unat p" "HEAP_LO + 24 \<le> unat p" "unat p + 8 * length ws \<le> HEAP_HI" using P(1-6) b(2,3) by simp_all
  assume q: "A q = Some vs" "p \<noteq> q"
  obtain c where c: "c \<in> L" "q = c + HEADER_SIZE" "length vs = words_of (heapmem s) c" using live [OF q(1)] by blast
  note Q = live_span [OF L(1) c(1)]
  have "apart (bspan (heapmem s) b) (bspan (heapmem s) c)" using P(7) [OF c(1)] q(2) b(2) c(2) by auto
  moreover have "fst (bspan (heapmem s) x) = unat x" for x by (simp add: bspan_def)
  ultimately show "unat p + 8 * length ws + 24 \<le> unat q \<or> unat q + 8 * length vs + 24 \<le> unat p"
    using P(1,2,4-6) Q(1,2,4,5) b(2,3) c(2,3) by (auto simp: apart_def)
qed

section \<open>Runs from boot on\<close>

text \<open>The books of a client: the pointers it holds and the sizes it asked for. What a call does to them, and the calls it may make.\<close>

type_synonym books = "u64 \<rightharpoonup> nat"

fun book :: "heap_op \<Rightarrow> u64 \<Rightarrow> books \<Rightarrow> books" where
  "book (Malloc sz) r M = (if r = 0 then M else M(r \<mapsto> unat sz))"
| "book (Free p) r M = M(p := None)"
| "book (Realloc p sz) r M = (if r = 0 then M else (M(p := None))(r \<mapsto> unat sz))"
| "book (Put p i x) r M = M"

fun call_ok :: "books \<Rightarrow> heap_op \<Rightarrow> bool" where
  "call_ok M (Malloc sz) \<longleftrightarrow> unat sz \<le> 2 ^ 63"
| "call_ok M (Free p) \<longleftrightarrow> p = 0 \<or> p \<in> dom M"
| "call_ok M (Realloc p sz) \<longleftrightarrow> unat sz \<le> 2 ^ 63 \<and> (p = 0 \<or> p \<in> dom M)"
| "call_ok M (Put p i x) \<longleftrightarrow> (case M p of None \<Rightarrow> False | Some n \<Rightarrow> 8 * i + 8 \<le> n)"

inductive heap_run :: "u64 set \<Rightarrow> 'a kheap_scheme \<Rightarrow> books \<Rightarrow> bool" for R where
  boot: "boot_ok R s \<Longrightarrow> g_large_free s = [] \<Longrightarrow> room s 96 \<Longrightarrow> heap_run R (kmalloc_init s) Map.empty"
| call: "heap_run R s M \<Longrightarrow> call_ok M x \<Longrightarrow> run_heap_op x s = Some (r, s') \<Longrightarrow> heap_run R s' (book x r M)"

text \<open>The books agree with the abstract heap: every pointer in them is that of a block that is large enough.\<close>

definition agree :: "books \<Rightarrow> aheap \<Rightarrow> bool" where
  "agree M A \<longleftrightarrow> (\<forall>p n. M p = Some n \<longrightarrow> (\<exists>ws. A p = Some ws \<and> n \<le> 8 * length ws))"

lemma agree_call: "agree M A \<Longrightarrow> call_ok M x \<Longrightarrow> heap_op_ok A x"
  by (cases x) (fastforce simp: agree_def dom_def split: option.splits)+

inductive_cases heap_specE:
  "heap_spec A (Malloc sz) r A'" "heap_spec A (Free p) r A'" "heap_spec A (Realloc p sz) r A'" "heap_spec A (Put p i x) r A'"

lemma agree_step:
  assumes "agree M A" "heap_spec A x r A'" "call_ok M x"
  shows "agree (book x r M) A'"
proof (cases x)
  case (Put p i y)
  then show ?thesis using assms by (fastforce simp: agree_def elim!: heap_specE)
qed (use assms in \<open>auto simp: agree_def split: if_splits elim!: heap_specE\<close>)

lemma heap_run_abs:
  assumes "heap_run R s M"
  shows "\<exists>A. heap_abs R s A \<and> agree M A"
  using assms
proof induction
  case (boot s)
  then show ?case using init_abs [of R s 0] by (auto simp: agree_def)
next
  case (call s M x r s')
  then obtain A where A: "heap_abs R s A" "agree M A" by blast
  then show ?case using heap_op_refines [OF A(1) agree_call [OF A(2) call.hyps(2)]] agree_step [OF A(2) _ call.hyps(2)] call.hyps(3) by auto
qed

text \<open>C7. From boot on, whatever sequence of allocations, releases, reallocations and stores the clients make with pointers they
  hold, the next such call returns without a page fault, no two blocks that are held overlap, and every one lies inside the
  heap region, short of the framebuffer mapping that follows it.\<close>

theorem kheap_run_safe:
  assumes "heap_run R s M"
  shows "(\<forall>x. call_ok M x \<longrightarrow> run_heap_op x s \<noteq> None) \<and>
    (\<forall>p q n k. M p = Some n \<and> M q = Some k \<and> p \<noteq> q \<longrightarrow> unat p + n \<le> unat q \<or> unat q + k \<le> unat p) \<and>
    (\<forall>p n. M p = Some n \<longrightarrow> HEAP_LO + 24 \<le> unat p \<and> unat p + n \<le> HEAP_HI)"
proof -
  obtain A where A: "heap_abs R s A" "agree M A" using heap_run_abs [OF assms] by blast
  have "run_heap_op x s \<noteq> None" if "call_ok M x" for x using heap_op_refines [OF A(1) agree_call [OF A(2) that]] by auto
  moreover have "unat p + n \<le> unat q \<or> unat q + k \<le> unat p" if m: "M p = Some n" "M q = Some k" "p \<noteq> q" for p q n k
  proof -
    obtain ws vs where "A p = Some ws" "A q = Some vs" "n \<le> 8 * length ws" "k \<le> 8 * length vs" using A(2) m(1,2) unfolding agree_def by metis
    then show ?thesis using abs_blocks_disjoint(1) [OF A(1), of p ws q vs] m(3) by auto
  qed
  moreover have "HEAP_LO + 24 \<le> unat p \<and> unat p + n \<le> HEAP_HI" if m: "M p = Some n" for p n
  proof -
    obtain ws where "A p = Some ws" "n \<le> 8 * length ws" using A(2) m unfolding agree_def by metis
    then show ?thesis using abs_blocks_disjoint(3,4) [OF A(1), of p ws] by auto
  qed
  ultimately show ?thesis by blast
qed

lemma sample_run: "\<exists>(s :: kheap) p q. heap_run {4096} s [p \<mapsto> 8100, q \<mapsto> 100] \<and> p \<noteq> q"
proof -
  have r0: "heap_run {4096} (kmalloc_init sample_boot) Map.empty"
    by (rule boot) (use sample_boot_ok in \<open>auto simp: room_def\<close>)
  obtain p ws and s :: kheap where s: "kmalloc 8100 (kmalloc_init sample_boot) = Some (p, s)" "p \<noteq> 0" "heap_abs {4096} s [p \<mapsto> ws]" "room s 27"
    "unat (g_arena_next s) \<le> HEAP_LO + 8192"
    using alloc_succeeds [OF sample_abs, of 8100 27, unfolded sample_sizes sample_arena(1)] sample_arena(2) [of 29] by (simp del: fun_upd_apply) metis
  obtain q and t :: kheap where t: "kmalloc 100 s = Some (q, t)" "q \<noteq> 0" "[p \<mapsto> ws] q = None"
    using alloc_succeeds [OF s(3), of 100 26, unfolded sample_sizes] s(4,5) by (simp del: fun_upd_apply) metis
  have r1: "heap_run {4096} s [p \<mapsto> 8100]" using call [OF r0, of "Malloc 8100" p s] s(1,2) by simp
  have "heap_run {4096} t [p \<mapsto> 8100, q \<mapsto> 100]" using call [OF r1, of "Malloc 100" q t] t(1,2) by simp
  then show ?thesis using t(3) by (metis fun_upd_same option.distinct(1))
qed

theorem kheap_run_safe_witness:
  "\<exists>(s :: kheap) p q. heap_run {4096} s [p \<mapsto> 8100, q \<mapsto> 100] \<and> run_heap_op (Free p) s \<noteq> None \<and>
     (unat p + 8100 \<le> unat q \<or> unat q + 100 \<le> unat p) \<and> unat q + 100 \<le> HEAP_HI"
proof -
  obtain s :: kheap and p q where w: "heap_run {4096} s [p \<mapsto> 8100, q \<mapsto> 100]" "p \<noteq> q" using sample_run by blast
  note S = kheap_run_safe [OF w(1)]
  have "call_ok [p \<mapsto> 8100, q \<mapsto> 100] (Free p)" "[p \<mapsto> 8100, q \<mapsto> 100] p = Some 8100" "[p \<mapsto> 8100, q \<mapsto> 100] q = Some 100" using w(2) by auto
  then have "run_heap_op (Free p) s \<noteq> None \<and> (unat p + 8100 \<le> unat q \<or> unat q + 100 \<le> unat p) \<and> unat q + 100 \<le> HEAP_HI" using S w(2) by blast
  then show ?thesis using w(1) by blast
qed

section \<open>Where the code falls short of its comments\<close>

text \<open>A block of whole pages starts at a page boundary, so its payload, behind a header of 24 bytes, is aligned to 8 bytes and not to the 16
  that \<^verbatim>\<open>kmalloc.h\<close> promises.\<close>

lemma large_payload_not_16_aligned:
  assumes "heap_inv R s L" "b \<in> L" "val (heapmem s) (b_pages b) \<noteq> 0"
  shows "unat (b + HEADER_SIZE) mod 16 = 8"
proof -
  obtain F where F: "kinv R s F L" using assms(1) by (auto simp: heap_inv_def)
  have "blk (heapmem s) (unat (g_arena_next s)) b" using blocksD(4) [OF kinvD(3) [OF F]] assms(2) by blast
  then have "4096 dvd unat b" using assms(3) by (simp add: blk_def aligned_def)
  then have "16 dvd unat b" by (rule dvd_trans [rotated]) simp
  then show ?thesis using live_span(1) [OF assms(1,2)] by (auto elim!: dvdE)
qed

text \<open>When a large allocation runs out of frames it returns null with the frames it already mapped still allocated: no frame is left
  free, although no block became live.\<close>

lemma alloc_exhausted:
  assumes "alloc_frame s = (z, s')" "pm_total_frames (g_pmm s) \<le> MAX_FRAMES" "room s 0"
  shows "if z = 0 then \<not> room s' 1 else room s' 0"
proof (cases "room s (Suc 0)")
  case True
  then show ?thesis using alloc_room [OF assms(1,2)] by auto
next
  case False
  have "finite (free_frames (g_pmm s))" by (simp add: free_frames_def)
  then have e: "free_frames (g_pmm s) = {}" using False assms(3) by (auto simp: room_def Suc_le_eq card_gt_0_iff)
  show ?thesis
  proof (cases rule: pmm_alloc_frame_cases [of "g_pmm s"])
    case (found i)
    then show ?thesis using e by (auto simp: free_frames_def)
  next
    case full
    then show ?thesis using assms(1) False by (auto simp: alloc_frame_def room_def)
  qed
qed

lemma map_pages_exhausted:
  assumes "kpages_ok R s" "\<And>i. i \<in> set is \<Longrightarrow> heap_va (va + of_nat i * PAGE_SIZE) \<and> aligned (va + of_nat i * PAGE_SIZE)"
    "room s 0" "map_pages va is s = (False, s')"
  shows "\<not> room s' 1"
  using assms
proof (induction "is" arbitrary: s)
  case (Cons i "is")
  obtain z s1 where al: "alloc_frame s = (z, s1)" by (cases "alloc_frame s")
  note A = alloc_exhausted [OF al spaces_ok_total [OF kpages_okD(1) [OF Cons.prems(1)]] Cons.prems(3)]
  show ?case
  proof (cases "z = 0")
    case True
    then show ?thesis using A al Cons.prems(4) by simp
  next
    case False
    let ?t = "snd (vmm_map_page s1 (va + of_nat i * PAGE_SIZE) z VMM_WRITE)"
    note M = map_page_step [OF Cons.prems(1) _ _ al False, of "va + of_nat i * PAGE_SIZE"]
    have "kpages_ok R ?t" "g_pmm ?t = g_pmm s1" using M(1,3) Cons.prems(2) by (simp_all add: page_frame_def)
    then show ?thesis using Cons.IH [of ?t] Cons.prems(2,4) A False al by (simp add: room_def)
  qed
qed simp

lemma large_failure_leaks:
  fixes s :: "'a kheap_scheme"
  assumes "heap_inv R s L" "g_large_free s = []" "room s 0" "unat sz \<le> 2 ^ 63" "block_size sz > 4072"
    "unat (g_arena_next s) + 4096 * pages_for sz \<le> HEAP_HI" "kmalloc sz s = Some (0, s')"
  shows "\<not> room s' 1"
proof -
  obtain F where F: "kinv R s F L" using assms(1) by (auto simp: heap_inv_def)
  note A = arenaD [OF F] and B = block_size [OF assms(4)]
  define pages where "pages = (block_size sz + HEADER_SIZE + PAGE_SIZE - 1) div PAGE_SIZE"
  have pn: "unat pages = pages_for sz" using pages_nat [OF B(1)] by (simp add: pages_def pages_for_def)
  have "4096 * unat pages < 2 ^ 64 - 2 ^ 26" using B(1) by (simp add: pn pages_for_def)
  then have fits: "arena_fits (g_arena_next s) pages" using arena_fits_nat [OF A(2,3)] assms(6) pn by simp
  have "scan P 0 0 = None" for P by (simp add: scan_None_iff)
  then have t: "large_free_take pages s = (0, s)" by (simp add: large_free_take_def assms(2))
  have "kmalloc_large (block_size sz) s = Some (0, s')" using assms(5,7) by (simp add: kmalloc_def kmalloc_unfold [of sz])
  note K = this [unfolded kmalloc_large_def, folded pages_def, unfolded Let_def t prod.case pn]
  obtain ok s1 where m: "map_pages (g_arena_next s) [0..<pages_for sz] s = (ok, s1)" by (cases "map_pages (g_arena_next s) [0..<pages_for sz] s")
  have "\<not> ok \<and> s' = s1" using K fits m payload_nonzero [OF A(2,3)] by (auto split: if_splits bind_splits)
  then show ?thesis
    using map_pages_exhausted [OF kinvD(1) [OF F] _ assms(3), of "[0..<pages_for sz]" "g_arena_next s" s'] page_range [OF A(1) assms(6) A(2)] m by simp
qed

end
