(* ===== verification/Ata.thy ===== *)
theory Ata
  imports TUS_Prelude
begin

text \<open>
  The polled ATA disk driver, \<^verbatim>\<open>kernel/drivers/ata/ata.c\<close>. The drive behind the ports is a
  parameter of the model: its answers to the probe are a value of type \<open>ata_probe\<close>, and for
  transfers it is a map from the 28-bit sector address the driver programs to the 512 bytes
  stored there, together with the addresses it answers with an error and whether it stays
  busy. Everything the driver itself decides (the checks, the splitting into commands of at
  most 128 sectors, the address registers, the early exits) is modelled as written.
\<close>

section \<open>State\<close>

abbreviation (input) ATA_MAX_DISKS :: nat where "ATA_MAX_DISKS \<equiv> 4"
abbreviation (input) ATA_SECTOR_SIZE :: nat where "ATA_SECTOR_SIZE \<equiv> 512"
abbreviation (input) ATA_MAX_CHUNK :: u32 where "ATA_MAX_CHUNK \<equiv> 128"
abbreviation (input) ENODEV :: int where "ENODEV \<equiv> 19"

record ata_disk =
  present :: bool
  atapi :: bool
  slave :: bool
  sectors :: u32
  disk_name :: string
  model :: "u8 list"
  media :: "u32 \<Rightarrow> u8 list"
  bad :: "u32 \<Rightarrow> bool"
  stuck :: bool

record ata_probe =
  pr_status :: u8
  pr_busy :: bool
  pr_mid :: u8
  pr_hi :: u8
  pr_drq :: bool
  pr_id :: "nat \<Rightarrow> u16"

section \<open>Identification\<close>

text \<open>The model string: byte-swapped pairs from words 27 to 46, then blanks and NULs are
  trimmed from the right.\<close>

fun trim_right :: "(u8 \<Rightarrow> bool) \<Rightarrow> u8 list \<Rightarrow> u8 list" where
  "trim_right p xs = rev (map (\<lambda>_. 0) (takeWhile p (rev xs)) @ dropWhile p (rev xs))"

definition ata_model :: "(nat \<Rightarrow> u16) \<Rightarrow> u8 list" where
  "ata_model idw =
     trim_right (\<lambda>c. c = 32 \<or> c = 0)
       (concat (map (\<lambda>i. [ucast (drop_bit 8 (idw (27 + i))), ucast (idw (27 + i) AND 0xFF)]) [0..<20])) @ [0]"

text \<open>The text of \<^verbatim>\<open>strcpy(d->model, "ATAPI device")\<close> over a zeroed array.\<close>

definition atapi_model :: "u8 list" where
  "atapi_model = map of_char ''ATAPI device'' @ replicate 29 0"

definition ata_identify :: "ata_probe \<Rightarrow> string \<Rightarrow> ata_disk \<Rightarrow> nat \<Rightarrow> ata_disk \<times> nat" where
  "ata_identify p name d cnt =
     (if pr_status p = 0 \<or> pr_status p = 0xFF then (d, cnt)
      else if pr_busy p then (d, cnt)
      else if pr_mid p = 0x14 \<and> pr_hi p = 0xEB then
        (d\<lparr>present := True, atapi := True, disk_name := take 7 name, model := atapi_model\<rparr>, cnt)
      else if pr_mid p \<noteq> 0 \<or> pr_hi p \<noteq> 0 then (d, cnt)
      else if \<not> pr_drq p then (d, cnt)
      else
        (let secs = (ucast (pr_id p 60) :: u32) OR push_bit 16 (ucast (pr_id p 61))
         in if secs = 0 then (d, cnt)
            else (d\<lparr>present := True, atapi := False, sectors := secs, disk_name := take 7 name,
                    model := ata_model (pr_id p)\<rparr>, cnt + 1)))"

definition ata_slot_names :: "string list" where
  "ata_slot_names = [''hda'', ''hdb'', ''hdc'', ''hdd'']"

text \<open>One pass over the four slots; \<open>probe i\<close> and \<open>drive i\<close> are the device found there.\<close>

definition ata_init_slot :: "(nat \<Rightarrow> ata_probe) \<Rightarrow> (nat \<Rightarrow> ata_disk) \<Rightarrow> nat \<Rightarrow>
    (nat \<Rightarrow> ata_disk) \<times> nat \<Rightarrow> (nat \<Rightarrow> ata_disk) \<times> nat" where
  "ata_init_slot probe drive i st =
     (let d0 = (drive i)\<lparr>present := False, atapi := False, slave := odd i, sectors := 0,
                         disk_name := [], model := replicate 41 0\<rparr>;
          (d, cnt) = ata_identify (probe i) (ata_slot_names ! i) d0 (snd st)
      in ((fst st)(i := d), cnt))"

definition ata_init :: "(nat \<Rightarrow> ata_probe) \<Rightarrow> (nat \<Rightarrow> ata_disk) \<Rightarrow> (nat \<Rightarrow> ata_disk) \<times> nat" where
  "ata_init probe drive = fold (ata_init_slot probe drive) [0..<ATA_MAX_DISKS] (drive, 0)"

definition ata_disk_at :: "(nat \<Rightarrow> ata_disk) \<Rightarrow> int \<Rightarrow> ata_disk option" where
  "ata_disk_at g_disks i = (if i < 0 \<or> i \<ge> int ATA_MAX_DISKS then None else Some (g_disks (nat i)))"

section \<open>Transfers\<close>

text \<open>The address the drive sees: three byte registers and the low nibble of the select register.\<close>

definition ata_address :: "u32 \<Rightarrow> u32" where
  "ata_address lba =
     ucast (ucast lba :: u8) OR push_bit 8 (ucast (ucast (drop_bit 8 lba) :: u8)) OR
     push_bit 16 (ucast (ucast (drop_bit 16 lba) :: u8)) OR push_bit 24 (drop_bit 24 lba AND 0x0F)"

fun read_chunk :: "ata_disk \<Rightarrow> u32 \<Rightarrow> nat \<Rightarrow> u8 list \<Rightarrow> int \<times> u8 list" where
  "read_chunk d a 0 acc = (0, acc)"
| "read_chunk d a (Suc n) acc =
     (if bad d a then (- EIO, acc) else read_chunk d (a + 1) n (acc @ media d a))"

fun write_chunk :: "ata_disk \<Rightarrow> u32 \<Rightarrow> nat \<Rightarrow> u8 list \<Rightarrow> int \<times> ata_disk" where
  "write_chunk d a 0 buf = (0, d)"
| "write_chunk d a (Suc n) buf =
     (if bad d a then (- EIO, d)
      else write_chunk (d\<lparr>media := (media d)(a := take ATA_SECTOR_SIZE buf)\<rparr>) (a + 1) n
             (drop ATA_SECTOR_SIZE buf))"

definition ata_chunk :: "u32 \<Rightarrow> u32" where
  "ata_chunk count = (if count > ATA_MAX_CHUNK then ATA_MAX_CHUNK else count)"

lemma ata_chunk_bounds: "count \<noteq> 0 \<Longrightarrow> 0 < ata_chunk count \<and> ata_chunk count \<le> count"
  by (auto simp: ata_chunk_def word_gt_0)

lemma ata_chunk_decreases: "count \<noteq> 0 \<Longrightarrow> unat (count - ata_chunk count) < unat count"
  using ata_chunk_bounds [of count] by (auto simp: unat_sub word_less_nat_alt word_le_nat_alt)

function ata_read_loop :: "ata_disk \<Rightarrow> u32 \<Rightarrow> u32 \<Rightarrow> u8 list \<Rightarrow> int \<times> u8 list" where
  "ata_read_loop d lba count acc =
     (if count = 0 then (0, acc)
      else if stuck d then (- EIO, acc)
      else
        (let chunk = ata_chunk count;
             (rc, acc') = read_chunk d (ata_address lba) (unat chunk) acc
         in if rc \<noteq> 0 then (rc, acc') else ata_read_loop d (lba + chunk) (count - chunk) acc'))"
  by pat_completeness auto
termination
  by (relation "measure (\<lambda>(d, lba, count, acc). unat count)") (auto intro: ata_chunk_decreases)

function ata_write_loop :: "ata_disk \<Rightarrow> u32 \<Rightarrow> u32 \<Rightarrow> u8 list \<Rightarrow> int \<times> ata_disk" where
  "ata_write_loop d lba count buf =
     (if count = 0 then (0, d)
      else if stuck d then (- EIO, d)
      else
        (let chunk = ata_chunk count;
             (rc, d') = write_chunk d (ata_address lba) (unat chunk) buf
         in if rc \<noteq> 0 then (rc, d')
            else ata_write_loop d' (lba + chunk) (count - chunk)
                   (drop (ATA_SECTOR_SIZE * unat chunk) buf)))"
  by pat_completeness auto
termination
  by (relation "measure (\<lambda>(d, lba, count, buf). unat count)") (auto intro: ata_chunk_decreases)

declare ata_read_loop.simps [simp del] ata_write_loop.simps [simp del]

text \<open>The checks before any command is issued: \<open>Some rc\<close> ends the call at once.\<close>

definition ata_check :: "(nat \<Rightarrow> ata_disk) \<Rightarrow> int \<Rightarrow> u32 \<Rightarrow> u32 \<Rightarrow> int option" where
  "ata_check g_disks i lba count =
     (if i < 0 \<or> i \<ge> int ATA_MAX_DISKS then Some (- ENODEV)
      else
        (let d = g_disks (nat i)
         in if \<not> present d \<or> atapi d then Some (- ENODEV)
            else if count = 0 then Some 0
            else if lba > sectors d \<or> count > sectors d - lba then Some (- EINVAL)
            else None))"

text \<open>A read fills a prefix of the caller's buffer; what it does not reach keeps its old bytes.\<close>

definition ata_read :: "(nat \<Rightarrow> ata_disk) \<Rightarrow> int \<Rightarrow> u32 \<Rightarrow> u32 \<Rightarrow> u8 list \<Rightarrow> int \<times> u8 list" where
  "ata_read g_disks i lba count buf =
     (case ata_check g_disks i lba count of
        Some rc \<Rightarrow> (rc, buf)
      | None \<Rightarrow>
          (let (rc, got) = ata_read_loop (g_disks (nat i)) lba count []
           in (rc, got @ drop (length got) buf)))"

definition ata_write ::
    "(nat \<Rightarrow> ata_disk) \<Rightarrow> int \<Rightarrow> u32 \<Rightarrow> u32 \<Rightarrow> u8 list \<Rightarrow> int \<times> (nat \<Rightarrow> ata_disk)" where
  "ata_write g_disks i lba count buf =
     (case ata_check g_disks i lba count of
        Some rc \<Rightarrow> (rc, g_disks)
      | None \<Rightarrow>
          (let (rc, d') = ata_write_loop (g_disks (nat i)) lba count buf
           in (rc, g_disks(nat i := d'))))"

section \<open>Healthy ranges\<close>

lemma ata_address_mask: "ata_address lba = take_bit 28 lba"
proof (rule bit_word_eqI)
  fix n assume n: "n < LENGTH(32)"
  have nib: "(0x0F :: u32) = mask 4" by (simp add: mask_eq_exp_minus_1)
  show "bit (ata_address lba) n \<longleftrightarrow> bit (take_bit 28 lba) n"
    unfolding ata_address_def nib using n
    by (cases "n < 8"; cases "n < 16"; cases "n < 24") (auto simp: bit_simps)
qed

lemma ata_address_id: "unat lba < 2 ^ 28 \<Longrightarrow> ata_address lba = lba"
  unfolding ata_address_mask by (subst word_unat_eq_iff) (simp add: unsigned_take_bit_eq take_bit_nat_eq_self)

definition sectors_of :: "(u32 \<Rightarrow> u8 list) \<Rightarrow> u32 \<Rightarrow> nat \<Rightarrow> u8 list" where
  "sectors_of m a n = concat (map (\<lambda>k. m (a + of_nat k)) [0..<n])"

text \<open>The medium after \<open>n\<close> sectors of \<open>buf\<close> were stored from address \<open>a\<close> on.\<close>

definition media_put :: "u32 \<Rightarrow> nat \<Rightarrow> u8 list \<Rightarrow> (u32 \<Rightarrow> u8 list) \<Rightarrow> u32 \<Rightarrow> u8 list" where
  "media_put a n buf m x =
     (if unat (x - a) < n then take ATA_SECTOR_SIZE (drop (ATA_SECTOR_SIZE * unat (x - a)) buf) else m x)"

definition ata_ready :: "ata_disk \<Rightarrow> nat \<Rightarrow> nat \<Rightarrow> bool" where
  "ata_ready d lba n \<longleftrightarrow>
     present d \<and> \<not> atapi d \<and> \<not> stuck d \<and> lba + n \<le> unat (sectors d) \<and> unat (sectors d) \<le> 2 ^ 28 \<and>
     (\<forall>k < n. \<not> bad d (of_nat (lba + k)))"

lemma sectors_of_Suc: "sectors_of m a (Suc n) = m a @ sectors_of m (a + 1) n"
  by (simp add: sectors_of_def upt_conv_Cons map_Suc_upt [symmetric] comp_def add.commute add.left_commute
      del: upt_Suc)

lemma sectors_of_add: "sectors_of m a (j + n) = sectors_of m a j @ sectors_of m (a + of_nat j) n"
  by (induction j arbitrary: a) (simp_all add: sectors_of_Suc, simp_all add: sectors_of_def ac_simps)

lemma read_chunk_good:
  "(\<And>k. k < n \<Longrightarrow> \<not> bad d (a + of_nat k)) \<Longrightarrow> read_chunk d a n acc = (0, acc @ sectors_of (media d) a n)"
proof (induction n arbitrary: a acc)
  case 0
  show ?case by (simp add: sectors_of_def)
next
  case (Suc n)
  have "\<not> bad d (a + 1 + of_nat k)" if "k < n" for k
    using Suc.prems [of "Suc k"] that by (simp add: ac_simps)
  moreover have "\<not> bad d a" using Suc.prems [of 0] by simp
  ultimately show ?case using Suc.IH [of "a + 1"] by (simp add: sectors_of_Suc)
qed

lemma media_put_Suc:
  assumes "n < 2 ^ 32"
  shows "media_put (a + 1) n (drop ATA_SECTOR_SIZE buf) (m(a := take ATA_SECTOR_SIZE buf)) =
    media_put a (Suc n) buf m"
proof (rule ext)
  fix x
  show "media_put (a + 1) n (drop ATA_SECTOR_SIZE buf) (m(a := take ATA_SECTOR_SIZE buf)) x =
    media_put a (Suc n) buf m x"
  proof (cases "x = a")
    case True
    have "unat (-1 :: u32) = 2 ^ 32 - 1" by (simp add: unsigned_minus_1_eq_mask mask_eq_exp_minus_1)
    then show ?thesis using True assms by (simp add: media_put_def)
  next
    case False
    then have pos: "0 < unat (x - a)" by (simp add: unat_gt_0)
    have "unat (x - (a + 1)) = unat (x - a) - 1"
      using False unat_minus_one [of "x - a"] by (simp add: diff_diff_add)
    with False pos show ?thesis
      by (auto simp: media_put_def drop_drop algebra_simps)
  qed
qed

lemma write_chunk_good:
  "n < 2 ^ 32 \<Longrightarrow> (\<And>k. k < n \<Longrightarrow> \<not> bad d (a + of_nat k)) \<Longrightarrow>
   write_chunk d a n buf = (0, d\<lparr>media := media_put a n buf (media d)\<rparr>)"
proof (induction n arbitrary: a d buf)
  case 0
  show ?case by (simp add: media_put_def)
next
  case (Suc n)
  let ?d = "d\<lparr>media := (media d)(a := take ATA_SECTOR_SIZE buf)\<rparr>"
  have "\<not> bad ?d (a + 1 + of_nat k)" if "k < n" for k
    using Suc.prems(2) [of "Suc k"] that by (simp add: ac_simps)
  then have "write_chunk ?d (a + 1) n (drop ATA_SECTOR_SIZE buf) =
      (0, ?d\<lparr>media := media_put (a + 1) n (drop ATA_SECTOR_SIZE buf) (media ?d)\<rparr>)"
    using Suc.IH [of ?d "a + 1" "drop ATA_SECTOR_SIZE buf"] Suc.prems(1)
    by (simp add: fun_upd_def)
  also have "\<dots> = (0, d\<lparr>media := media_put a (Suc n) buf (media d)\<rparr>)"
    using media_put_Suc [of n a buf "media d"] Suc.prems(1) by (simp del: fun_upd_apply)
  finally show ?case using Suc.prems(2) [of 0] by simp
qed

lemma ata_chunk_le: "unat (ata_chunk c) \<le> unat c"
  by (auto simp: ata_chunk_def word_less_nat_alt)

lemma ata_read_loop_good:
  assumes "unat lba + unat count \<le> 2 ^ 28" and "\<not> stuck d"
    and "\<And>k. k < unat count \<Longrightarrow> \<not> bad d (lba + of_nat k)"
  shows "ata_read_loop d lba count acc = (0, acc @ sectors_of (media d) lba (unat count))"
  using assms
proof (induction d lba count acc rule: ata_read_loop.induct)
  case (1 d lba count acc)
  show ?case
  proof (cases "count = 0")
    case True
    then show ?thesis by (simp add: ata_read_loop.simps sectors_of_def)
  next
    case False
    define c where "c = ata_chunk count"
    have c: "unat c \<le> unat count" by (simp add: c_def ata_chunk_le)
    have "0 < unat count" using False by (simp add: unat_gt_0)
    then have addr: "ata_address lba = lba" using "1.prems"(1) by (intro ata_address_id) simp
    have ch: "read_chunk d (ata_address lba) (unat c) acc = (0, acc @ sectors_of (media d) lba (unat c))"
      using "1.prems"(3) c unfolding addr by (intro read_chunk_good) auto
    have sub: "unat (count - c) = unat count - unat c"
      using c by (simp add: unat_sub word_le_nat_alt)
    have add: "unat (lba + c) = unat lba + unat c"
      using "1.prems"(1) c by (simp add: unat_word_ariths)
    have "ata_read_loop d (lba + c) (count - c) (acc @ sectors_of (media d) lba (unat c)) =
        (0, (acc @ sectors_of (media d) lba (unat c)) @ sectors_of (media d) (lba + c) (unat (count - c)))"
    proof (rule "1.IH" [OF False _ c_def ch [symmetric] refl])
      show "\<not> bad d (lba + c + of_nat k)" if "k < unat (count - c)" for k
        using "1.prems"(3) [of "unat c + k"] that sub by (simp add: ac_simps)
    qed (use "1.prems" sub add c in auto)
    moreover have "sectors_of (media d) lba (unat count) =
        sectors_of (media d) lba (unat c) @ sectors_of (media d) (lba + c) (unat (count - c))"
      using sectors_of_add [of "media d" lba "unat c" "unat (count - c)"] c sub by simp
    ultimately show ?thesis
      using False "1.prems"(2) ch by (simp add: ata_read_loop.simps [of d lba] c_def [symmetric] Let_def)
  qed
qed

lemma media_put_add:
  "j + n < 2 ^ 32 \<Longrightarrow>
   media_put (a + of_nat j) n (drop (ATA_SECTOR_SIZE * j) buf) (media_put a j buf m) = media_put a (j + n) buf m"
proof (induction j arbitrary: a buf m)
  case 0
  have "media_put a 0 buf m = m" by (rule ext) (simp add: media_put_def)
  then show ?case by simp
next
  case (Suc j)
  let ?m = "m(a := take ATA_SECTOR_SIZE buf)"
  have "media_put (a + 1 + of_nat j) n (drop (ATA_SECTOR_SIZE * j) (drop ATA_SECTOR_SIZE buf))
      (media_put (a + 1) j (drop ATA_SECTOR_SIZE buf) ?m) = media_put (a + 1) (j + n) (drop ATA_SECTOR_SIZE buf) ?m"
    using Suc.prems by (intro Suc.IH) simp
  then show ?case
    using media_put_Suc [of j a buf m] media_put_Suc [of "j + n" a buf m] Suc.prems
    by (simp add: ac_simps)
qed

lemma ata_write_loop_good:
  assumes "unat lba + unat count \<le> 2 ^ 28" and "\<not> stuck d"
    and "\<And>k. k < unat count \<Longrightarrow> \<not> bad d (lba + of_nat k)"
  shows "ata_write_loop d lba count buf = (0, d\<lparr>media := media_put lba (unat count) buf (media d)\<rparr>)"
  using assms
proof (induction d lba count buf rule: ata_write_loop.induct)
  case (1 d lba count buf)
  show ?case
  proof (cases "count = 0")
    case True
    have "media_put lba 0 buf (media d) = media d" by (rule ext) (simp add: media_put_def)
    with True show ?thesis by (simp add: ata_write_loop.simps)
  next
    case False
    define c where "c = ata_chunk count"
    let ?d = "d\<lparr>media := media_put lba (unat c) buf (media d)\<rparr>"
    let ?buf = "drop (ATA_SECTOR_SIZE * unat c) buf"
    have c: "unat c \<le> unat count" by (simp add: c_def ata_chunk_le)
    have "0 < unat count" using False by (simp add: unat_gt_0)
    then have addr: "ata_address lba = lba" using "1.prems"(1) by (intro ata_address_id) simp
    have ch: "write_chunk d (ata_address lba) (unat c) buf = (0, ?d)"
      using "1.prems"(1,3) c unfolding addr by (intro write_chunk_good) auto
    have sub: "unat (count - c) = unat count - unat c"
      using c by (simp add: unat_sub word_le_nat_alt)
    have add: "unat (lba + c) = unat lba + unat c"
      using "1.prems"(1) c by (simp add: unat_word_ariths)
    have "ata_write_loop ?d (lba + c) (count - c) ?buf =
        (0, ?d\<lparr>media := media_put (lba + c) (unat (count - c)) ?buf (media ?d)\<rparr>)"
    proof (rule "1.IH" [OF False _ c_def ch [symmetric] refl])
      show "\<not> bad ?d (lba + c + of_nat k)" if "k < unat (count - c)" for k
        using "1.prems"(3) [of "unat c + k"] that sub by (simp add: ac_simps)
    qed (use "1.prems" sub add c in auto)
    moreover have "media_put (lba + c) (unat (count - c)) ?buf (media_put lba (unat c) buf (media d)) =
        media_put lba (unat count) buf (media d)"
      using media_put_add [of "unat c" "unat (count - c)" lba buf "media d"] c sub "1.prems"(1) by simp
    ultimately show ?thesis
      using False "1.prems"(2) ch by (simp add: ata_write_loop.simps [of d lba] c_def [symmetric] Let_def)
  qed
qed

lemma sectors_of_media_put:
  "n < 2 ^ 32 \<Longrightarrow> length buf = ATA_SECTOR_SIZE * n \<Longrightarrow> sectors_of (media_put a n buf m) a n = buf"
proof (induction n arbitrary: a buf m)
  case 0
  then show ?case by (simp add: sectors_of_def)
next
  case (Suc n)
  have eq: "media_put a (Suc n) buf m = media_put (a + 1) n (drop ATA_SECTOR_SIZE buf) (m(a := take ATA_SECTOR_SIZE buf))"
    using Suc.prems(1) by (simp add: media_put_Suc)
  have hd: "media_put a (Suc n) buf m a = take ATA_SECTOR_SIZE buf" by (simp add: media_put_def)
  have "sectors_of (media_put a (Suc n) buf m) (a + 1) n = drop ATA_SECTOR_SIZE buf"
    unfolding eq using Suc.prems by (intro Suc.IH) simp_all
  with hd show ?case by (simp add: sectors_of_Suc)
qed

lemma ata_check_ready:
  assumes "i < ATA_MAX_DISKS" and "ata_ready (g i) (unat lba) (unat count)" and "count \<noteq> 0"
  shows "ata_check g (int i) lba count = None"
proof -
  have "unat lba + unat count \<le> unat (sectors (g i))" using assms(2) by (simp add: ata_ready_def)
  then have "lba \<le> sectors (g i)" "count \<le> sectors (g i) - lba"
    by (auto simp: word_le_nat_alt unat_sub)
  with assms show ?thesis by (auto simp: ata_check_def ata_ready_def Let_def)
qed

lemma ata_readyD:
  assumes "ata_ready d (unat lba) (unat count)"
  shows "unat lba + unat count \<le> 2 ^ 28" "\<not> stuck d" "\<And>k. k < unat count \<Longrightarrow> \<not> bad d (lba + of_nat k)"
  using assms by (auto simp: ata_ready_def)

lemma ata_write_good:
  assumes "i < ATA_MAX_DISKS" and "ata_ready (g i) (unat lba) (unat count)" and "count \<noteq> 0"
  shows "ata_write g (int i) lba count buf =
    (0, g(i := (g i)\<lparr>media := media_put lba (unat count) buf (media (g i))\<rparr>))"
  using ata_check_ready [of i g lba count, OF assms] ata_write_loop_good [OF ata_readyD [OF assms(2)]]
  by (simp add: ata_write_def)

lemma ata_read_good:
  assumes "i < ATA_MAX_DISKS" and "ata_ready (g i) (unat lba) (unat count)" and "count \<noteq> 0"
  shows "ata_read g (int i) lba count buf =
    (0, sectors_of (media (g i)) lba (unat count) @
        drop (length (sectors_of (media (g i)) lba (unat count))) buf)"
  using ata_check_ready [of i g lba count, OF assms] ata_read_loop_good [OF ata_readyD [OF assms(2)]]
  by (simp add: ata_read_def)

text \<open>One sector, the only size the filesystem uses.\<close>

lemma ata_read_one:
  assumes "i < ATA_MAX_DISKS" and "ata_ready (g i) (unat lba) 1" and "length (media (g i) lba) = ATA_SECTOR_SIZE"
    and "length buf = ATA_SECTOR_SIZE"
  shows "ata_read g (int i) lba 1 buf = (0, media (g i) lba)"
  using ata_read_good [of i g lba 1 buf] assms by (simp add: sectors_of_def)

lemma ata_write_one:
  assumes "i < ATA_MAX_DISKS" and "ata_ready (g i) (unat lba) 1" and "length buf = ATA_SECTOR_SIZE"
  shows "ata_write g (int i) lba 1 buf = (0, g(i := (g i)\<lparr>media := (media (g i))(lba := buf)\<rparr>))"
proof -
  have "media_put lba (unat (1 :: u32)) buf m = m(lba := buf)" for m
    using assms(3) by (auto simp: media_put_def fun_eq_iff unat_eq_zero)
  then show ?thesis using ata_write_good [of i g lba 1 buf] assms(1,2) by simp
qed

section \<open>Properties\<close>

text \<open>On a drive that is ready, holds the addressed range below its 28-bit capacity and reports
  no error there, \<^verbatim>\<open>ata_write\<close> followed by \<^verbatim>\<open>ata_read\<close> of the same range returns success and
  exactly the bytes written, whatever number of commands the transfer is split into, and every
  sector outside the range and every other drive keeps its contents.\<close>

theorem ata_write_read:
  assumes "i < ATA_MAX_DISKS" and "ata_ready (g i) (unat lba) (unat count)" and "count \<noteq> 0"
    and "length buf = ATA_SECTOR_SIZE * unat count" and "length old = length buf"
  shows "\<exists>g'. ata_write g (int i) lba count buf = (0, g') \<and>
      ata_read g' (int i) lba count old = (0, buf) \<and>
      (\<forall>x. unat (x - lba) \<ge> unat count \<longrightarrow> media (g' i) x = media (g i) x) \<and>
      (\<forall>j. j \<noteq> i \<longrightarrow> g' j = g j)"
proof -
  let ?g = "g(i := (g i)\<lparr>media := media_put lba (unat count) buf (media (g i))\<rparr>)"
  have n: "unat count < 2 ^ 32" using unsigned_less [of count] by simp
  have "ata_ready (?g i) (unat lba) (unat count)" using assms(2) by (simp add: ata_ready_def)
  from ata_read_good [of i ?g lba count, OF assms(1) this assms(3), of old]
  have "ata_read ?g (int i) lba count old = (0, buf)"
    using assms(4,5) n by (simp add: sectors_of_media_put)
  then show ?thesis
    by (intro exI [of _ ?g]) (simp add: ata_write_good [of i g lba count, OF assms(1-3)] media_put_def)
qed

text \<open>A drive with 1000 sectors, all zero.\<close>

definition sample_drive :: ata_disk where
  "sample_drive = \<lparr>present = True, atapi = False, slave = False, sectors = 1000, disk_name = ''hda'',
     model = [], media = (\<lambda>_. replicate 512 0), bad = (\<lambda>_. False), stuck = False\<rparr>"

theorem ata_write_read_witness:
  "\<exists>g'. ata_write (\<lambda>_. sample_drive) 1 300 200 (replicate 102400 7) = (0, g') \<and>
     ata_read g' 1 300 200 (replicate 102400 0) = (0, replicate 102400 7)"
  using ata_write_read [of 1 "\<lambda>_. sample_drive" 300 200 "replicate 102400 7" "replicate 102400 0"]
  by (auto simp: ata_ready_def sample_drive_def)

text \<open>A transfer that names a missing slot, a CD-ROM or sectors past the end of the disk fails
  with \<^verbatim>\<open>-ENODEV\<close> or \<^verbatim>\<open>-EINVAL\<close> and moves nothing; the range check cannot be defeated by the
  32-bit sum wrapping around.\<close>

theorem ata_rejects:
  assumes "i < 0 \<or> i \<ge> int ATA_MAX_DISKS \<or> \<not> present (g (nat i)) \<or> atapi (g (nat i)) \<or>
      count \<noteq> 0 \<and> unat lba + unat count > unat (sectors (g (nat i)))"
  shows "\<exists>rc \<in> {- ENODEV, - EINVAL}. ata_read g i lba count buf = (rc, buf) \<and>
      ata_write g i lba count data = (rc, g)"
proof -
  have "\<exists>rc \<in> {- ENODEV, - EINVAL}. ata_check g i lba count = Some rc"
  proof (cases "lba > sectors (g (nat i))")
    case False
    then have le: "unat lba \<le> unat (sectors (g (nat i)))" by (simp add: word_le_nat_alt not_less)
    then have "unat (sectors (g (nat i)) - lba) = unat (sectors (g (nat i))) - unat lba"
      by (simp add: unat_sub word_le_nat_alt)
    with assms le show ?thesis by (auto simp: ata_check_def Let_def word_less_nat_alt)
  next
    case True
    with assms show ?thesis by (auto simp: ata_check_def Let_def)
  qed
  then show ?thesis by (auto simp: ata_read_def ata_write_def)
qed

theorem ata_rejects_witness:
  "\<exists>rc \<in> {- 19, - 22}. ata_read (\<lambda>_. sample_drive) 0 999 4294967295 [1] = (rc, [1])"
  using ata_rejects [of 0 "\<lambda>_. sample_drive" 4294967295 999 "[1]" "[]"]
  by (auto simp: sample_drive_def)

end
