(* ===== verification/Wrf_Format.thy ===== *)
theory Wrf_Format
  imports TUS_Prelude
begin

text \<open>
  The on-disk format of WRF, \<^verbatim>\<open>include/wrf.h\<close>: the packed structures and their byte images,
  the CRC-32 every block and the superblock carry, and the layout computation shared by the
  formatter and the installer. The lemmas show that the byte images round-trip, that the
  CRC tells apart any two equally long images that differ in one byte, and that the layout
  divides the volume into consecutive regions that are large enough.
\<close>

lemma take_drop_tail: "n + k = m \<Longrightarrow> take n (drop k p) @ drop m p = drop k p"
  by (metis append_take_drop_id drop_drop)

lemma take_tail: "take n p @ drop n p = p"
  by simp

section \<open>Structures\<close>

abbreviation (input) WRF_MAGIC :: u32 where "WRF_MAGIC \<equiv> 0x31465257"
abbreviation (input) WRF_VERSION :: u32 where "WRF_VERSION \<equiv> 2"
abbreviation (input) WRF_BLOCK_SIZE :: nat where "WRF_BLOCK_SIZE \<equiv> 512"
abbreviation (input) WRF_ROOT_INO :: u32 where "WRF_ROOT_INO \<equiv> 1"
abbreviation (input) WRF_DIRECT :: nat where "WRF_DIRECT \<equiv> 12"
abbreviation (input) WRF_PART_TYPE :: u8 where "WRF_PART_TYPE \<equiv> 0xDA"
abbreviation (input) WRF_IFDIR :: u32 where "WRF_IFDIR \<equiv> 0x4000"
abbreviation (input) WRF_IFREG :: u32 where "WRF_IFREG \<equiv> 0x8000"
abbreviation (input) WRF_IFMT :: u32 where "WRF_IFMT \<equiv> 0xF000"
abbreviation (input) WRF_DT_REG :: u8 where "WRF_DT_REG \<equiv> 1"
abbreviation (input) WRF_DT_DIR :: u8 where "WRF_DT_DIR \<equiv> 2"
abbreviation (input) DIRENT_SIZE :: nat where "DIRENT_SIZE \<equiv> 72"
abbreviation (input) INODE_SIZE :: nat where "INODE_SIZE \<equiv> 128"

record wrf_superblock =
  magic :: u32
  version :: u32
  total_blocks :: u32
  inode_count :: u32
  inode_bitmap_lba :: u32
  inode_bitmap_blocks :: u32
  block_bitmap_lba :: u32
  block_bitmap_blocks :: u32
  inode_table_lba :: u32
  inode_table_blocks :: u32
  data_start_lba :: u32
  root_ino :: u32
  checksum_table_lba :: u32
  checksum_table_blocks :: u32
  generation :: u64
  sb_checksum :: u32
  sb_reserved :: "u8 list"

record wrf_inode =
  di_mode :: u32
  di_uid :: u32
  di_gid :: u32
  di_size :: u64
  di_atime :: u32
  di_mtime :: u32
  di_ctime :: u32
  di_nlink :: u32
  di_direct :: "u32 list"
  di_indirect :: u32
  di_dindirect :: u32
  di_reserved :: "u8 list"

record wrf_dirent =
  de_inode :: u32
  de_type :: u8
  de_reserved :: "u8 list"
  de_name :: "u8 list"

text \<open>The byte image of each packed structure, field by field, and the structure read back.\<close>

definition sb_bytes :: "wrf_superblock \<Rightarrow> u8 list" where
  "sb_bytes sb =
     le32 (magic sb) @ le32 (version sb) @ le32 (total_blocks sb) @ le32 (inode_count sb) @
     le32 (inode_bitmap_lba sb) @ le32 (inode_bitmap_blocks sb) @ le32 (block_bitmap_lba sb) @
     le32 (block_bitmap_blocks sb) @ le32 (inode_table_lba sb) @ le32 (inode_table_blocks sb) @
     le32 (data_start_lba sb) @ le32 (root_ino sb) @ le32 (checksum_table_lba sb) @
     le32 (checksum_table_blocks sb) @ le64 (generation sb) @ le32 (sb_checksum sb) @ sb_reserved sb"

definition sb_of_bytes :: "u8 list \<Rightarrow> wrf_superblock" where
  "sb_of_bytes p =
     \<lparr>magic = get_le32 (drop 0 p), version = get_le32 (drop 4 p), total_blocks = get_le32 (drop 8 p),
      inode_count = get_le32 (drop 12 p), inode_bitmap_lba = get_le32 (drop 16 p),
      inode_bitmap_blocks = get_le32 (drop 20 p), block_bitmap_lba = get_le32 (drop 24 p),
      block_bitmap_blocks = get_le32 (drop 28 p), inode_table_lba = get_le32 (drop 32 p),
      inode_table_blocks = get_le32 (drop 36 p), data_start_lba = get_le32 (drop 40 p),
      root_ino = get_le32 (drop 44 p), checksum_table_lba = get_le32 (drop 48 p),
      checksum_table_blocks = get_le32 (drop 52 p), generation = get_le64 (drop 56 p),
      sb_checksum = get_le32 (drop 64 p), sb_reserved = take 444 (drop 68 p)\<rparr>"

definition le32s :: "u32 list \<Rightarrow> u8 list" where
  "le32s ws = concat (map le32 ws)"

definition get_le32s :: "nat \<Rightarrow> u8 list \<Rightarrow> u32 list" where
  "get_le32s n p = map (\<lambda>i. get_le32 (drop (4 * i) p)) [0..<n]"

definition inode_bytes :: "wrf_inode \<Rightarrow> u8 list" where
  "inode_bytes di =
     le32 (di_mode di) @ le32 (di_uid di) @ le32 (di_gid di) @ le64 (di_size di) @ le32 (di_atime di) @
     le32 (di_mtime di) @ le32 (di_ctime di) @ le32 (di_nlink di) @ le32s (di_direct di) @
     le32 (di_indirect di) @ le32 (di_dindirect di) @ di_reserved di"

definition inode_of_bytes :: "u8 list \<Rightarrow> wrf_inode" where
  "inode_of_bytes p =
     \<lparr>di_mode = get_le32 (drop 0 p), di_uid = get_le32 (drop 4 p), di_gid = get_le32 (drop 8 p),
      di_size = get_le64 (drop 12 p), di_atime = get_le32 (drop 20 p), di_mtime = get_le32 (drop 24 p),
      di_ctime = get_le32 (drop 28 p), di_nlink = get_le32 (drop 32 p),
      di_direct = get_le32s WRF_DIRECT (drop 36 p), di_indirect = get_le32 (drop 84 p),
      di_dindirect = get_le32 (drop 88 p), di_reserved = take 36 (drop 92 p)\<rparr>"

definition dirent_bytes :: "wrf_dirent \<Rightarrow> u8 list" where
  "dirent_bytes de = le32 (de_inode de) @ [de_type de] @ de_reserved de @ de_name de"

definition dirent_of_bytes :: "u8 list \<Rightarrow> wrf_dirent" where
  "dirent_of_bytes p =
     \<lparr>de_inode = get_le32 p, de_type = p ! 4, de_reserved = take 3 (drop 5 p), de_name = take 64 (drop 8 p)\<rparr>"

text \<open>Field lengths the C declarations fix.\<close>

definition sb_wf :: "wrf_superblock \<Rightarrow> bool" where
  "sb_wf sb \<longleftrightarrow> length (sb_reserved sb) = 444"

definition inode_wf :: "wrf_inode \<Rightarrow> bool" where
  "inode_wf di \<longleftrightarrow> length (di_direct di) = WRF_DIRECT \<and> length (di_reserved di) = 36"

definition dirent_wf :: "wrf_dirent \<Rightarrow> bool" where
  "dirent_wf de \<longleftrightarrow> length (de_reserved de) = 3 \<and> length (de_name de) = 64"

lemma length_le32s [simp]: "length (le32s ws) = 4 * length ws"
  by (induction ws) (simp_all add: le32s_def)

lemma length_get_le32s [simp]: "length (get_le32s n p) = n"
  by (simp add: get_le32s_def)

lemma get_le32s_le32s: "get_le32s (length ws) (le32s ws @ r) = ws"
proof (induction ws)
  case Nil
  show ?case by (simp add: get_le32s_def)
next
  case (Cons w ws)
  have "get_le32s (length (w # ws)) (le32s (w # ws) @ r) =
      get_le32 (le32s (w # ws) @ r) # map (\<lambda>i. get_le32 (drop (4 * Suc i) (le32s (w # ws) @ r))) [0..<length ws]"
    unfolding get_le32s_def by (simp add: upt_conv_Cons map_Suc_upt [symmetric] comp_def del: upt_Suc)
  also have "\<dots> = w # get_le32s (length ws) (le32s ws @ r)"
    by (simp add: le32s_def get_le32s_def)
  finally show ?case using Cons.IH by simp
qed

lemma le32s_get_le32s: "length p = 4 * n \<Longrightarrow> le32s (get_le32s n p) = p"
proof (induction n arbitrary: p)
  case 0
  then show ?case by (simp add: le32s_def get_le32s_def)
next
  case (Suc n)
  have "get_le32s (Suc n) p = get_le32 p # get_le32s n (drop 4 p)"
    unfolding get_le32s_def by (simp add: upt_conv_Cons map_Suc_upt [symmetric] comp_def drop_drop
        add.commute del: upt_Suc)
  then have "le32s (get_le32s (Suc n) p) = take 4 p @ le32s (get_le32s n (drop 4 p))"
    using le32_get_le32_at [of 0 p] Suc.prems by (simp add: le32s_def)
  also have "\<dots> = p" using Suc.IH [of "drop 4 p"] Suc.prems by simp
  finally show ?case .
qed

lemma length_sb_bytes [simp]: "sb_wf sb \<Longrightarrow> length (sb_bytes sb) = WRF_BLOCK_SIZE"
  by (simp add: sb_bytes_def sb_wf_def)

lemma length_inode_bytes [simp]: "inode_wf di \<Longrightarrow> length (inode_bytes di) = INODE_SIZE"
  by (simp add: inode_bytes_def inode_wf_def)

lemma length_dirent_bytes [simp]: "dirent_wf de \<Longrightarrow> length (dirent_bytes de) = DIRENT_SIZE"
  by (simp add: dirent_bytes_def dirent_wf_def)

lemma sb_of_bytes_bytes [simp]: "sb_wf sb \<Longrightarrow> sb_of_bytes (sb_bytes sb) = sb"
  by (simp add: sb_bytes_def sb_of_bytes_def sb_wf_def)

lemma inode_of_bytes_bytes [simp]: "inode_wf di \<Longrightarrow> inode_of_bytes (inode_bytes di) = di"
  using get_le32s_le32s [of "di_direct di"]
  by (simp add: inode_bytes_def inode_of_bytes_def inode_wf_def)

lemma dirent_of_bytes_bytes [simp]: "dirent_wf de \<Longrightarrow> dirent_of_bytes (dirent_bytes de) = de"
  by (simp add: dirent_bytes_def dirent_of_bytes_def dirent_wf_def nth_append)

lemma inode_wf_of_bytes [simp]: "length p = INODE_SIZE \<Longrightarrow> inode_wf (inode_of_bytes p)"
  by (simp add: inode_wf_def inode_of_bytes_def)

lemma sb_wf_of_bytes [simp]: "length p = WRF_BLOCK_SIZE \<Longrightarrow> sb_wf (sb_of_bytes p)"
  by (simp add: sb_wf_def sb_of_bytes_def)

lemma sb_bytes_of_bytes: "length p = WRF_BLOCK_SIZE \<Longrightarrow> sb_bytes (sb_of_bytes p) = p"
  using le32_get_le32_at [of 0 p]
  by (simp add: sb_bytes_def sb_of_bytes_def le32_get_le32_at le64_get_le64_at take_drop_tail)

lemma inode_bytes_of_bytes: "length p = INODE_SIZE \<Longrightarrow> inode_bytes (inode_of_bytes p) = p"
proof -
  assume len: "length p = INODE_SIZE"
  have "get_le32s WRF_DIRECT (drop 36 p) = get_le32s WRF_DIRECT (take 48 (drop 36 p))"
    using len by (auto simp: get_le32s_def get_le32_def add.commute)
  then have "le32s (get_le32s WRF_DIRECT (drop 36 p)) = take 48 (drop 36 p)"
    using le32s_get_le32s [of "take 48 (drop 36 p)" WRF_DIRECT] len by simp
  then show ?thesis
    using len le32_get_le32_at [of 0 p]
    by (simp add: inode_bytes_def inode_of_bytes_def le32_get_le32_at le64_get_le64_at take_drop_tail)
qed

section \<open>CRC-32\<close>

definition crc_bit :: "u32 \<Rightarrow> u32" where
  "crc_bit crc = (let mask = - (crc AND 1) in drop_bit 1 crc XOR (0xEDB88320 AND mask))"

definition crc_byte :: "u32 \<Rightarrow> u8 \<Rightarrow> u32" where
  "crc_byte crc b = (crc_bit ^^ 8) (crc XOR ucast b)"

definition wrf_crc32 :: "u8 list \<Rightarrow> u32" where
  "wrf_crc32 data = foldl crc_byte 0xFFFFFFFF data XOR 0xFFFFFFFF"

lemma xor_right_cancel: "x XOR z = y XOR z \<longleftrightarrow> x = y" for x :: "'a::len word"
proof
  assume "x XOR z = y XOR z"
  then have "(x XOR z) XOR z = (y XOR z) XOR z" by simp
  then show "x = y" by (simp add: xor.assoc)
qed simp

lemma xor_left_cancel: "z XOR x = z XOR y \<longleftrightarrow> x = y" for x :: "'a::len word"
  using xor_right_cancel [of x z y] by (simp add: xor.commute)

lemma crc_bit_cases:
  "crc_bit x = (if bit x 0 then drop_bit 1 x XOR 0xEDB88320 else drop_bit 1 x)"
  by (auto simp: crc_bit_def Let_def and_one_eq odd_iff_mod_2_eq_one bit_0)

lemma crc_bit_top: "bit (crc_bit x) 31 \<longleftrightarrow> bit x 0"
  by (auto simp: crc_bit_cases bit_simps dest: bit_imp_le_length)

lemma crc_bit_inj: "crc_bit x = crc_bit y \<Longrightarrow> x = y"
proof -
  assume eq: "crc_bit x = crc_bit y"
  then have b0: "bit x 0 \<longleftrightarrow> bit y 0" by (metis crc_bit_top)
  with eq have "drop_bit 1 x = drop_bit 1 y"
    by (auto simp: crc_bit_cases xor_right_cancel split: if_splits)
  then have "bit x (Suc n) \<longleftrightarrow> bit y (Suc n)" for n
    by (metis bit_drop_bit_eq add.commute comp_apply plus_1_eq_Suc)
  with b0 show ?thesis by (metis bit_word_eqI not0_implies_Suc)
qed

lemma crc_step_inj: "crc_byte x a = crc_byte y b \<longleftrightarrow> x XOR ucast a = y XOR ucast b"
proof -
  have "inj crc_bit" by (rule injI) (rule crc_bit_inj)
  then have "inj (crc_bit ^^ 8)" by simp
  then show ?thesis by (simp add: crc_byte_def inj_eq)
qed

lemma crc_fold_inj: "foldl crc_byte x bs = foldl crc_byte y bs \<Longrightarrow> x = y"
proof (induction bs arbitrary: x y)
  case (Cons b bs)
  then have "crc_byte x b = crc_byte y b" by simp
  then show ?case by (simp add: crc_step_inj xor_right_cancel)
qed simp

text \<open>Two images that differ in one byte have different checksums.\<close>

lemma wrf_crc32_single_byte:
  assumes "k < length bs" and "b \<noteq> bs ! k"
  shows "wrf_crc32 (bs[k := b]) \<noteq> wrf_crc32 bs"
proof
  assume eq: "wrf_crc32 (bs[k := b]) = wrf_crc32 bs"
  let ?pre = "foldl crc_byte 0xFFFFFFFF (take k bs)"
  have split: "bs = take k bs @ bs ! k # drop (Suc k) bs" using assms(1) by (rule id_take_nth_drop)
  have upd: "bs[k := b] = take k bs @ b # drop (Suc k) bs" using assms(1) by (rule upd_conv_take_nth_drop)
  have orig: "foldl crc_byte 0xFFFFFFFF bs = foldl crc_byte (crc_byte ?pre (bs ! k)) (drop (Suc k) bs)"
    using arg_cong [OF split, of "foldl crc_byte 0xFFFFFFFF"] by simp
  have "foldl crc_byte 0xFFFFFFFF (bs[k := b]) = foldl crc_byte 0xFFFFFFFF bs"
    using eq by (simp add: wrf_crc32_def xor_right_cancel)
  then have "foldl crc_byte (crc_byte ?pre b) (drop (Suc k) bs) =
      foldl crc_byte (crc_byte ?pre (bs ! k)) (drop (Suc k) bs)"
    unfolding upd orig by simp
  then have "crc_byte ?pre b = crc_byte ?pre (bs ! k)" by (rule crc_fold_inj)
  then have "?pre XOR ucast b = ?pre XOR ucast (bs ! k)" by (simp add: crc_step_inj)
  then have "(ucast b :: u32) = ucast (bs ! k)" by (simp add: xor_left_cancel)
  then have "b = bs ! k" by (auto simp: bit_eq_iff bit_simps dest: bit_imp_le_length)
  with assms(2) show False by simp
qed

section \<open>Layout\<close>

definition wrf_sb_checksum :: "wrf_superblock \<Rightarrow> u32" where
  "wrf_sb_checksum sb = wrf_crc32 (sb_bytes (sb\<lparr>sb_checksum := 0\<rparr>))"

definition wrf_layout_inode_count :: "u32 \<Rightarrow> u32" where
  "wrf_layout_inode_count total_sectors =
     (let n = total_sectors div 8;
          n = (if n < 16 then 16 else n)
      in if n > 65536 then 65536 else n)"

definition wrf_compute_layout :: "u32 \<Rightarrow> wrf_superblock option" where
  "wrf_compute_layout total_sectors =
     (if total_sectors < 66 then None
      else
        let usable = total_sectors - 1;
            icount = wrf_layout_inode_count total_sectors;
            bits_per_sector = 4096;
            inodes_per_sector = 4;
            ib_lba = 1;
            ib_blocks = (icount + bits_per_sector - 1) div bits_per_sector;
            it_lba = ib_lba + ib_blocks;
            it_blocks = (icount + inodes_per_sector - 1) div inodes_per_sector;
            bb_lba = it_lba + it_blocks
        in if usable \<le> bb_lba then None
           else
             let remaining = usable - bb_lba;
                 bb_blocks = (remaining + bits_per_sector - 1) div bits_per_sector;
                 csum_entries_per_sector = 128;
                 ct_blocks = (remaining + csum_entries_per_sector - 1) div csum_entries_per_sector;
                 ct_lba = bb_lba + bb_blocks;
                 data_lba = ct_lba + ct_blocks
             in if data_lba \<ge> usable then None
                else
                  let sb = \<lparr>magic = WRF_MAGIC, version = WRF_VERSION, total_blocks = usable - data_lba,
                            inode_count = icount, inode_bitmap_lba = ib_lba, inode_bitmap_blocks = ib_blocks,
                            block_bitmap_lba = bb_lba, block_bitmap_blocks = bb_blocks,
                            inode_table_lba = it_lba, inode_table_blocks = it_blocks,
                            data_start_lba = data_lba, root_ino = WRF_ROOT_INO,
                            checksum_table_lba = ct_lba, checksum_table_blocks = ct_blocks,
                            generation = 1, sb_checksum = 0, sb_reserved = replicate 444 0\<rparr>
                  in Some (sb\<lparr>sb_checksum := wrf_sb_checksum sb\<rparr>))"

text \<open>What the rest of the system needs of a layout: consecutive regions, each large enough for
  what it describes, ending before the last sector of the volume. All sums are over the
  natural numbers, so none of them wraps.\<close>

definition layout_ok :: "nat \<Rightarrow> wrf_superblock \<Rightarrow> bool" where
  "layout_ok total_sectors sb \<longleftrightarrow>
     unat (inode_bitmap_lba sb) = 1 \<and>
     unat (inode_table_lba sb) = unat (inode_bitmap_lba sb) + unat (inode_bitmap_blocks sb) \<and>
     unat (block_bitmap_lba sb) = unat (inode_table_lba sb) + unat (inode_table_blocks sb) \<and>
     unat (checksum_table_lba sb) = unat (block_bitmap_lba sb) + unat (block_bitmap_blocks sb) \<and>
     unat (data_start_lba sb) = unat (checksum_table_lba sb) + unat (checksum_table_blocks sb) \<and>
     unat (data_start_lba sb) + unat (total_blocks sb) + 1 = total_sectors \<and>
     unat (inode_count sb) \<le> 4096 * unat (inode_bitmap_blocks sb) \<and>
     unat (inode_count sb) \<le> 4 * unat (inode_table_blocks sb) \<and>
     unat (total_blocks sb) \<le> 4096 * unat (block_bitmap_blocks sb) \<and>
     unat (total_blocks sb) \<le> 128 * unat (checksum_table_blocks sb) \<and>
     0 < unat (total_blocks sb) \<and> 16 \<le> unat (inode_count sb) \<and> unat (inode_count sb) \<le> 65536"

definition sb_valid :: "wrf_superblock \<Rightarrow> bool" where
  "sb_valid sb \<longleftrightarrow> magic sb = WRF_MAGIC \<and> version sb = WRF_VERSION \<and> wrf_sb_checksum sb = sb_checksum sb"

lemma u32_div: "unat (x div y) = unat x div unat y" for x y :: u32
  by (rule unat_div)

lemma u32_add: "unat x + unat y < 2 ^ 32 \<Longrightarrow> unat (x + y) = unat x + unat y" for x y :: u32
  by (simp add: unat_word_ariths)

lemma u32_sub: "unat y \<le> unat x \<Longrightarrow> unat (x - y) = unat x - unat y" for x y :: u32
  by (simp add: unat_sub word_le_nat_alt)

lemma u32_round_up:
  fixes x :: u32
  assumes "unat x + unat m < 2 ^ 32" and "0 < unat m"
  shows "unat ((x + m - 1) div m) = (unat x + unat m - 1) div unat m"
proof -
  have "unat (x + m - 1) = unat x + unat m - 1"
    using assms u32_add [of x m] u32_sub [of 1 "x + m"] by simp
  then show ?thesis by (simp add: u32_div)
qed

lemma wrf_layout_inode_count_bounds:
  "unat (wrf_layout_inode_count t) = min 65536 (max 16 (unat t div 8))"
  by (simp add: wrf_layout_inode_count_def Let_def u32_div word_less_nat_alt)

text \<open>The arithmetic of the layout on natural numbers.\<close>

definition layout_bb_lba :: "nat \<Rightarrow> nat" where
  "layout_bb_lba t = (let ic = min 65536 (max 16 (t div 8)) in 1 + (ic + 4095) div 4096 + (ic + 3) div 4)"

definition layout_data_lba :: "nat \<Rightarrow> nat" where
  "layout_data_lba t =
     (let rem = t - 1 - layout_bb_lba t in layout_bb_lba t + (rem + 4095) div 4096 + (rem + 127) div 128)"

lemma layout_fits:
  assumes "66 \<le> t"
  shows "layout_bb_lba t < t - 1" and "layout_data_lba t < t - 1"
proof -
  define ic where "ic = min 65536 (max 16 (t div 8))"
  have bb: "layout_bb_lba t = 1 + (ic + 4095) div 4096 + (ic + 3) div 4"
    by (simp add: layout_bb_lba_def ic_def Let_def)
  have ic: "ic \<le> 16 \<or> ic \<le> t div 8" by (auto simp: ic_def)
  then have small: "layout_bb_lba t \<le> 6 \<or> layout_bb_lba t \<le> 3 + t div 30"
  proof
    assume "ic \<le> 16"
    then have "layout_bb_lba t \<le> 6" unfolding bb by linarith
    then show ?thesis ..
  next
    assume "ic \<le> t div 8"
    then have "layout_bb_lba t \<le> 3 + t div 30" unfolding bb by linarith
    then show ?thesis ..
  qed
  then show lt: "layout_bb_lba t < t - 1" using assms by (elim disjE) linarith+
  define rem where "rem = t - 1 - layout_bb_lba t"
  have "(rem + 4095) div 4096 + (rem + 127) div 128 < rem"
  proof -
    have "60 \<le> rem + 1" using assms small unfolding rem_def by linarith
    then show ?thesis by linarith
  qed
  moreover have "layout_data_lba t = layout_bb_lba t + (rem + 4095) div 4096 + (rem + 127) div 128"
    by (simp only: layout_data_lba_def rem_def Let_def)
  ultimately show "layout_data_lba t < t - 1" using lt rem_def by linarith
qed

lemma sb_valid_checksummed:
  "magic sb = WRF_MAGIC \<Longrightarrow> version sb = WRF_VERSION \<Longrightarrow> sb_checksum sb = 0 \<Longrightarrow>
   sb_valid (sb\<lparr>sb_checksum := wrf_sb_checksum sb\<rparr>)"
  by (simp add: sb_valid_def wrf_sb_checksum_def)

lemma wrf_compute_layout_some:
  assumes "66 \<le> unat t"
  shows "\<exists>sb. wrf_compute_layout t = Some sb \<and> layout_ok (unat t) sb \<and> sb_valid sb \<and> sb_wf sb"
proof -
  have t32: "unat t < 2 ^ 32" using unsigned_less [of t] by simp
  define icount where "icount = wrf_layout_inode_count t"
  define ib_blocks where "ib_blocks = (icount + 4096 - 1) div 4096"
  define it_lba where "it_lba = 1 + ib_blocks"
  define it_blocks where "it_blocks = (icount + 4 - 1) div 4"
  define bb_lba where "bb_lba = it_lba + it_blocks"
  define remaining where "remaining = t - 1 - bb_lba"
  define bb_blocks where "bb_blocks = (remaining + 4096 - 1) div 4096"
  define ct_blocks where "ct_blocks = (remaining + 128 - 1) div 128"
  define ct_lba where "ct_lba = bb_lba + bb_blocks"
  define data_lba where "data_lba = ct_lba + ct_blocks"
  note fits = layout_fits [OF assms]
  have usable: "unat (t - 1) = unat t - 1" using assms u32_sub [of 1 t] by simp
  have ic: "unat icount = min 65536 (max 16 (unat t div 8))"
    by (simp add: icount_def wrf_layout_inode_count_bounds)
  have ic_le: "unat icount \<le> 65536" unfolding ic by simp
  have ib: "unat ib_blocks = (unat icount + 4095) div 4096"
    unfolding ib_blocks_def by (subst u32_round_up) (use ic_le in simp_all)
  have it: "unat it_blocks = (unat icount + 3) div 4"
    unfolding it_blocks_def by (subst u32_round_up) (use ic_le in simp_all)
  have small: "unat ib_blocks \<le> 17" "unat it_blocks \<le> 16385"
    using ic_le unfolding ib it by linarith+
  have itl: "unat it_lba = 1 + unat ib_blocks"
    using u32_add [of 1 ib_blocks] small by (simp add: it_lba_def)
  have bbl: "unat bb_lba = layout_bb_lba (unat t)"
  proof -
    have "unat bb_lba = unat it_lba + unat it_blocks"
      using u32_add [of it_lba it_blocks] itl small by (simp add: bb_lba_def)
    moreover have "layout_bb_lba (unat t) = 1 + (unat icount + 4095) div 4096 + (unat icount + 3) div 4"
      by (simp only: layout_bb_lba_def Let_def ic)
    ultimately show ?thesis using itl ib it by simp
  qed
  have rem: "unat remaining = unat t - 1 - layout_bb_lba (unat t)"
    using u32_sub [of bb_lba "t - 1"] usable bbl fits(1) by (simp add: remaining_def)
  have big: "unat remaining + 4096 < 2 ^ 32"
  proof (cases "unat t < 1000000")
    case False
    then have "17 + 16384 \<le> layout_bb_lba (unat t)" by (simp add: layout_bb_lba_def Let_def)
    then show ?thesis using rem t32 by simp
  qed (use rem in simp)
  have bb: "unat bb_blocks = (unat remaining + 4095) div 4096"
    unfolding bb_blocks_def by (subst u32_round_up) (use big in simp_all)
  have ct: "unat ct_blocks = (unat remaining + 127) div 128"
    unfolding ct_blocks_def by (subst u32_round_up) (use big in simp_all)
  have dl': "unat bb_lba + unat bb_blocks + unat ct_blocks = layout_data_lba (unat t)"
    using bb ct bbl rem by (simp add: layout_data_lba_def Let_def)
  then have ctl: "unat ct_lba = unat bb_lba + unat bb_blocks"
    using u32_add [of bb_lba bb_blocks] fits(2) t32 by (simp add: ct_lba_def)
  have dl: "unat data_lba = layout_data_lba (unat t)"
    using u32_add [of ct_lba ct_blocks] ctl dl' fits(2) t32 by (simp add: data_lba_def)
  have tot: "unat (t - 1 - data_lba) = unat t - 1 - unat data_lba"
    using u32_sub [of data_lba "t - 1"] dl usable fits(2) by simp
  define sb where "sb = \<lparr>magic = WRF_MAGIC, version = WRF_VERSION, total_blocks = t - 1 - data_lba,
       inode_count = icount, inode_bitmap_lba = 1, inode_bitmap_blocks = ib_blocks,
       block_bitmap_lba = bb_lba, block_bitmap_blocks = bb_blocks,
       inode_table_lba = it_lba, inode_table_blocks = it_blocks,
       data_start_lba = data_lba, root_ino = WRF_ROOT_INO,
       checksum_table_lba = ct_lba, checksum_table_blocks = ct_blocks,
       generation = 1, sb_checksum = 0, sb_reserved = replicate 444 0\<rparr>"
  have "\<not> t < 66" "\<not> t - 1 \<le> bb_lba" "\<not> t - 1 \<le> data_lba"
    using assms usable bbl dl fits by (simp_all add: word_less_nat_alt word_le_nat_alt)
  then have "wrf_compute_layout t = Some (sb\<lparr>sb_checksum := wrf_sb_checksum sb\<rparr>)"
    unfolding wrf_compute_layout_def Let_def icount_def [symmetric] ib_blocks_def [symmetric]
      it_lba_def [symmetric] it_blocks_def [symmetric] bb_lba_def [symmetric] remaining_def [symmetric]
      bb_blocks_def [symmetric] ct_blocks_def [symmetric] ct_lba_def [symmetric] data_lba_def [symmetric]
      sb_def [symmetric]
    by simp
  moreover have "layout_ok (unat t) (sb\<lparr>sb_checksum := wrf_sb_checksum sb\<rparr>)"
  proof -
    have le: "unat (t - 1 - data_lba) \<le> unat remaining"
      using dl' dl bbl rem tot by linarith
    have "unat (t - 1 - data_lba) \<le> 4096 * unat bb_blocks" "unat (t - 1 - data_lba) \<le> 128 * unat ct_blocks"
      using le unfolding bb ct by linarith+
    moreover have "unat icount \<le> 4096 * unat ib_blocks" "unat icount \<le> 4 * unat it_blocks"
      unfolding ib it by linarith+
    moreover have "unat bb_lba = unat it_lba + unat it_blocks"
      using u32_add [of it_lba it_blocks] itl small by (simp add: bb_lba_def)
    moreover have "unat data_lba = unat ct_lba + unat ct_blocks" using dl dl' ctl by linarith
    moreover have "unat data_lba + unat (t - 1 - data_lba) + 1 = unat t" "0 < unat (t - 1 - data_lba)"
      using tot dl fits(2) by linarith+
    moreover have "16 \<le> unat icount" unfolding ic by simp
    ultimately show ?thesis
      using itl ctl ic_le by (simp add: layout_ok_def sb_def)
  qed
  moreover have "sb_valid (sb\<lparr>sb_checksum := wrf_sb_checksum sb\<rparr>)"
    by (rule sb_valid_checksummed) (simp_all add: sb_def)
  moreover have "sb_wf (sb\<lparr>sb_checksum := wrf_sb_checksum sb\<rparr>)" by (simp add: sb_wf_def sb_def)
  ultimately show ?thesis by blast
qed

lemma sb_zeroed_bytes:
  "sb_wf sb \<Longrightarrow> sb_bytes (sb\<lparr>sb_checksum := 0\<rparr>) = take 64 (sb_bytes sb) @ [0, 0, 0, 0] @ drop 68 (sb_bytes sb)"
  by (simp add: sb_bytes_def sb_wf_def) (simp add: le32_def)

lemma sb_checksum_bytes: "sb_wf sb \<Longrightarrow> le32 (sb_checksum sb) = take 4 (drop 64 (sb_bytes sb))"
  by (simp add: sb_bytes_def sb_wf_def)

section \<open>Properties\<close>

text \<open>C26. \<^verbatim>\<open>wrf_compute_layout\<close> succeeds exactly for volumes of at least 66 sectors, and then no
  32-bit computation in it wraps: the superblock, both bitmaps, the inode table, the checksum
  table and the data blocks are consecutive regions, the data ends right before the last
  sector, where the backup superblock goes, every bitmap and table has room for all the
  objects it describes, and the superblock passes its own checksum.\<close>

theorem wrf_compute_layout_correct:
  "case wrf_compute_layout t of
     None \<Rightarrow> unat t < 66
   | Some sb \<Rightarrow> 66 \<le> unat t \<and> layout_ok (unat t) sb \<and> sb_valid sb \<and> sb_wf sb"
proof (cases "t < 66")
  case True
  then show ?thesis by (simp add: wrf_compute_layout_def word_less_nat_alt)
next
  case False
  then have "66 \<le> unat t" by (simp add: word_less_nat_alt not_less)
  with wrf_compute_layout_some [OF this] show ?thesis by auto
qed

text \<open>A superblock with one corrupted byte is never accepted as the one that was written: if
  the image of a valid superblock has any single byte changed, reading it back fails the
  magic, version or checksum test.\<close>

theorem sb_corruption_detected:
  assumes "sb_wf sb" and "sb_valid sb" and "k < WRF_BLOCK_SIZE" and "b \<noteq> sb_bytes sb ! k"
  shows "\<not> sb_valid (sb_of_bytes ((sb_bytes sb)[k := b]))"
proof
  let ?p = "(sb_bytes sb)[k := b]"
  let ?sb = "sb_of_bytes ?p"
  assume v: "sb_valid ?sb"
  have len: "length ?p = WRF_BLOCK_SIZE" using assms(1) by simp
  then have img: "sb_bytes ?sb = ?p" by (rule sb_bytes_of_bytes)
  define z where "z = (\<lambda>p :: u8 list. take 64 p @ [0, 0, 0, 0] @ drop 68 p)"
  have eq: "wrf_crc32 (z (sb_bytes sb)) = sb_checksum sb" "wrf_crc32 (z ?p) = sb_checksum ?sb"
    using assms(2) v assms(1) len sb_zeroed_bytes [of sb] sb_zeroed_bytes [of ?sb]
    unfolding img z_def by (simp_all add: sb_valid_def wrf_sb_checksum_def)
  show False
  proof (cases "64 \<le> k \<and> k < 68")
    case True
    have "z ?p = z (sb_bytes sb)" using True by (simp add: z_def)
    then have "sb_checksum ?sb = sb_checksum sb" using eq by simp
    then have "take 4 (drop 64 ?p) = take 4 (drop 64 (sb_bytes sb))"
      using sb_checksum_bytes [of sb] sb_checksum_bytes [of ?sb] len assms(1) unfolding img by simp
    then have "take 4 (drop 64 ?p) ! (k - 64) = take 4 (drop 64 (sb_bytes sb)) ! (k - 64)" by simp
    moreover have "k - 64 < 4" "64 + (k - 64) = k" using True by auto
    ultimately show False using assms by simp
  next
    case False
    then have "z ?p = (z (sb_bytes sb))[k := b]" using assms(1,3)
      by (intro nth_equalityI) (auto simp: z_def nth_append nth_list_update nth_Cons')
    moreover have "k < length (z (sb_bytes sb))" "b \<noteq> z (sb_bytes sb) ! k"
      using False assms by (auto simp: z_def nth_append)
    ultimately have "wrf_crc32 (z ?p) \<noteq> wrf_crc32 (z (sb_bytes sb))"
      by (metis wrf_crc32_single_byte)
    moreover have "sb_checksum ?sb = sb_checksum sb"
    proof -
      have "take 4 (drop 64 ?p) = take 4 (drop 64 (sb_bytes sb))"
        using False assms(1,3) by (intro nth_equalityI) auto
      then show ?thesis
        using sb_checksum_bytes [of sb] sb_checksum_bytes [of ?sb] len assms(1) unfolding img
        by (metis get_le32_exact sb_wf_of_bytes)
    qed
    ultimately show False using eq by simp
  qed
qed

text \<open>The superblock of a 100-sector volume.\<close>

definition sample_sb :: wrf_superblock where
  "sample_sb = the (wrf_compute_layout 100)"

theorem sb_corruption_detected_witness:
  "\<not> sb_valid (sb_of_bytes ((sb_bytes sample_sb)[0 := 0x58]))"
proof -
  have ok: "sb_wf sample_sb" "sb_valid sample_sb"
    using wrf_compute_layout_some [of 100] by (auto simp: sample_sb_def)
  then have "sb_bytes sample_sb ! 0 = ucast WRF_MAGIC"
    by (simp add: sb_bytes_def sb_valid_def le32_def)
  then show ?thesis using sb_corruption_detected [OF ok, of 0 "0x58"] by simp
qed

end
