(* ===== verification/Swap.thy ===== *)
theory Swap
  imports Vmm_Props Ata Wrf_Format
begin

text \<open>
  Disk-backed swap space, \<^verbatim>\<open>kernel/mm/swap.c\<close>: pages are written to the slots of a swap disk and their entries
  replaced by an encoding of the slot; the page fault handler reads them back. The state extends that of the
  virtual memory manager by the disks and the slot bitmap.
\<close>

section \<open>State\<close>

abbreviation (input) SWAP_MAGIC :: u32 where "SWAP_MAGIC \<equiv> 0x50415753"
abbreviation (input) SWAP_SECTORS_PER_SLOT :: u32 where "SWAP_SECTORS_PER_SLOT \<equiv> 8"
abbreviation (input) SWAP_PTE_MARKER :: u64 where "SWAP_PTE_MARKER \<equiv> 0x200"
abbreviation (input) SWAP_PTE_FLAGS_MASK :: u64 where "SWAP_PTE_FLAGS_MASK \<equiv> 6"
abbreviation (input) SWAP_PTE_SLOT_SHIFT :: nat where "SWAP_PTE_SLOT_SHIFT \<equiv> 12"

record swap = vmm +
  g_disks :: "nat \<Rightarrow> ata_disk"
  g_disk_count :: nat
  g_swap_disk :: int
  g_total_slots :: u32
  g_slot_bitmap :: bytes_array

text \<open>\<^verbatim>\<open>struct swap_header\<close> at the start of sector 0.\<close>

record swap_header =
  hdr_magic :: u32
  hdr_version :: u32
  hdr_total_slots :: u32
  hdr_reserved :: u32

definition swap_header_of :: "u8 list \<Rightarrow> swap_header" where
  "swap_header_of p = \<lparr>hdr_magic = get_le32 p, hdr_version = get_le32 (drop 4 p), hdr_total_slots = get_le32 (drop 8 p), hdr_reserved = get_le32 (drop 12 p)\<rparr>"

definition bitmap_test :: "bytes_array \<Rightarrow> nat \<Rightarrow> bool" where
  "bitmap_test bm slot \<longleftrightarrow> bm (slot div 8) AND push_bit (slot mod 8) 1 \<noteq> 0"

definition bitmap_set :: "bytes_array \<Rightarrow> nat \<Rightarrow> bytes_array" where
  "bitmap_set bm slot = bm(slot div 8 := bm (slot div 8) OR push_bit (slot mod 8) 1)"

definition bitmap_clear :: "bytes_array \<Rightarrow> nat \<Rightarrow> bytes_array" where
  "bitmap_clear bm slot = bm(slot div 8 := bm (slot div 8) AND NOT (push_bit (slot mod 8) 1))"

lemma bitmap_test_bit: "bitmap_test bm i \<longleftrightarrow> bit (bm (i div 8)) (i mod 8)"
  by (simp add: bitmap_test_def push_bit_eq_mult bitmap_simps)

interpretation slot: bitmap bitmap_test bitmap_set bitmap_clear
  by unfold_locales
    (auto simp: bitmap_test_bit bitmap_set_def bitmap_clear_def push_bit_eq_mult bitmap_simps dest: div_mod_8_eq)

section \<open>Finding a swap disk\<close>

text \<open>The body of the loop of \<^verbatim>\<open>swap_init\<close> for disk \<open>i\<close>; \<open>None\<close> is \<^verbatim>\<open>continue\<close>. \<open>junk\<close> is what the sector buffer
  holds before the read, \<open>no_mem i\<close> whether \<^verbatim>\<open>kmalloc\<close> fails for the bitmap.\<close>

definition swap_probe :: "u8 list \<Rightarrow> (int \<Rightarrow> bool) \<Rightarrow> int \<Rightarrow> 'a swap_scheme \<Rightarrow> 'a swap_scheme option" where
  "swap_probe junk no_mem i s =
     (case ata_disk_at (g_disks s) i of
        None \<Rightarrow> None
      | Some d \<Rightarrow>
          if \<not> present d \<or> atapi d then None
          else
            (case ata_read (g_disks s) i 0 1 junk of (rc, sector) \<Rightarrow>
               if rc \<noteq> 0 then None
               else
                 (let hdr = swap_header_of sector in
                  if hdr_magic hdr \<noteq> SWAP_MAGIC then None
                  else
                    (let max_slots = (sectors d - 1) div SWAP_SECTORS_PER_SLOT;
                         slots = (if hdr_total_slots hdr = 0 \<or> hdr_total_slots hdr > max_slots then max_slots else hdr_total_slots hdr)
                     in if slots = 0 then None
                        else if no_mem i then None
                        else Some (s\<lparr>g_swap_disk := i, g_total_slots := slots, g_slot_bitmap := (\<lambda>_. 0)\<rparr>)))))"

fun swap_init_loop :: "u8 list \<Rightarrow> (int \<Rightarrow> bool) \<Rightarrow> nat list \<Rightarrow> 'a swap_scheme \<Rightarrow> 'a swap_scheme" where
  "swap_init_loop junk no_mem [] s = s"
| "swap_init_loop junk no_mem (i # is) s =
     (case swap_probe junk no_mem (int i) s of Some s' \<Rightarrow> s' | None \<Rightarrow> swap_init_loop junk no_mem is s)"

definition swap_init :: "u8 list \<Rightarrow> (int \<Rightarrow> bool) \<Rightarrow> 'a swap_scheme \<Rightarrow> 'a swap_scheme" where
  "swap_init junk no_mem s = swap_init_loop junk no_mem [0..<min (g_disk_count s + 4) 8] s"

definition swap_available :: "'a swap_scheme \<Rightarrow> bool" where
  "swap_available s \<longleftrightarrow> g_swap_disk s \<ge> 0"

definition swap_get_stats :: "'a swap_scheme \<Rightarrow> u32 \<times> u32" where
  "swap_get_stats s = (g_total_slots s, of_nat (length (filter (bitmap_test (g_slot_bitmap s)) [0..<unat (g_total_slots s)])))"

section \<open>Eviction and page faults\<close>

definition alloc_slot :: "'a swap_scheme \<Rightarrow> int \<times> 'a swap_scheme" where
  "alloc_slot s =
     (case scan (\<lambda>i. \<not> bitmap_test (g_slot_bitmap s) i) 0 (unat (g_total_slots s)) of
        Some i \<Rightarrow> (sint (of_nat i :: u32), s\<lparr>g_slot_bitmap := bitmap_set (g_slot_bitmap s) i\<rparr>)
      | None \<Rightarrow> (- 1, s))"

text \<open>The bytes of a frame as the disk driver sees them, and a frame filled from bytes.\<close>

definition page_bytes :: "pmem \<Rightarrow> u64 \<Rightarrow> u8 list" where
  "page_bytes m phys = concat (map (\<lambda>j. le64 (m (cell phys j))) [0..<512])"

definition put_page :: "u64 \<Rightarrow> u8 list \<Rightarrow> 'a swap_scheme \<Rightarrow> 'a swap_scheme" where
  "put_page phys bs s =
     s\<lparr>pmem := (\<lambda>a. if page_no a = page_no phys then get_le64 (drop (8 * (unat a mod 4096 div 8)) bs) else pmem s a)\<rparr>"

definition swap_out_page :: "'a swap_scheme \<Rightarrow> u64 \<Rightarrow> u64 \<Rightarrow> u32 \<times> 'a swap_scheme" where
  "swap_out_page s cr3 virt0 =
     (if \<not> swap_available s then (0, s)
      else
        (let virt = virt0 AND NOT 0xFFF in
         case vmm_walk_pte s cr3 virt False of
           (None, s1) \<Rightarrow> (0, s1)
         | (Some pte, s1) \<Rightarrow>
             if pmem s1 pte AND VMM_PRESENT = 0 then (0, s1)
             else
               (let phys = pmem s1 pte AND PTE_ADDR_MASK;
                    orig_flags = pmem s1 pte AND SWAP_PTE_FLAGS_MASK
                in case alloc_slot s1 of (slot, s2) \<Rightarrow>
                     if slot < 0 then (0, s2)
                     else
                       (case ata_write (g_disks s2) (g_swap_disk s2) (of_int slot * SWAP_SECTORS_PER_SLOT + 1) SWAP_SECTORS_PER_SLOT
                               (page_bytes (pmem s2) phys) of (rc, g) \<Rightarrow>
                          let s3 = s2\<lparr>g_disks := g\<rparr> in
                          if rc \<noteq> 0 then (0, s3\<lparr>g_slot_bitmap := bitmap_clear (g_slot_bitmap s3) (nat slot)\<rparr>)
                          else
                            (of_int slot + 1,
                             free_frame phys
                               (store pte (SWAP_PTE_MARKER OR orig_flags OR push_bit SWAP_PTE_SLOT_SHIFT (ucast (of_int slot :: u32))) s3))))))"

definition swap_fault :: "'a swap_scheme \<Rightarrow> u64 \<Rightarrow> u64 \<Rightarrow> bool \<times> 'a swap_scheme" where
  "swap_fault s cr3 virt =
     (if \<not> swap_available s then (False, s)
      else
        (case vmm_walk_pte s cr3 (virt AND NOT 0xFFF) False of
           (None, s1) \<Rightarrow> (False, s1)
         | (Some pte, s1) \<Rightarrow>
             if pmem s1 pte AND VMM_PRESENT \<noteq> 0 \<or> pmem s1 pte AND SWAP_PTE_MARKER = 0 then (False, s1)
             else
               (let slot = ucast (drop_bit SWAP_PTE_SLOT_SHIFT (pmem s1 pte)) :: u32;
                    orig_flags = pmem s1 pte AND SWAP_PTE_FLAGS_MASK
                in case alloc_frame s1 of (phys, s2) \<Rightarrow>
                     if phys = 0 then (False, s2)
                     else
                       (case ata_read (g_disks s2) (g_swap_disk s2) (slot * SWAP_SECTORS_PER_SLOT + 1) SWAP_SECTORS_PER_SLOT
                               (page_bytes (pmem s2) phys) of (rc, dst) \<Rightarrow>
                          let s3 = put_page phys dst s2 in
                          if rc \<noteq> 0 then (False, free_frame phys s3)
                          else
                            (let s4 = store pte (phys OR VMM_PRESENT OR orig_flags) s3
                             in (True, s4\<lparr>g_slot_bitmap := bitmap_clear (g_slot_bitmap s4) (unat slot)\<rparr>))))))"

end
