(* ===== verification/Swap_Props.thy ===== *)
theory Swap_Props
  imports Swap
begin

text \<open>
  Swapping is transparent. The content of a page is what its frame holds, or what its slot on the disk holds when it
  is swapped out; \<open>swap_inv\<close> says that frames and slots belong to one page each. Evicting pages and handling faults
  keeps the invariant and the content of every page of every address space.
\<close>

section \<open>Walks that allocate nothing\<close>

definition upper_cell :: "u64 set \<Rightarrow> 'a vmm_scheme \<Rightarrow> u64 \<Rightarrow> bool" where
  "upper_cell R s a \<longleftrightarrow> (\<exists>r \<in> R. \<exists>q i t. idxs q \<and> i < 512 \<and> length q \<le> 2 \<and> tab (pmem s) r q = Some t \<and> a = cell t i)"

definition upper_only :: "u64 set \<Rightarrow> 'a vmm_scheme \<Rightarrow> 'a vmm_scheme \<Rightarrow> bool" where
  "upper_only R s s' \<longleftrightarrow> (\<exists>m. s' = s\<lparr>pmem := m\<rparr>) \<and> (\<forall>r q. tab (pmem s') r q = tab (pmem s) r q) \<and>
     (\<forall>a. pmem s' a AND PTE_PS = pmem s a AND PTE_PS) \<and> (\<forall>a. \<not> upper_cell R s a \<longrightarrow> pmem s' a = pmem s a)"

lemma upper_only_refl: "upper_only R s s"
  by (auto simp: upper_only_def intro: exI [of _ "pmem s"])

lemma upper_only_trans: "upper_only R s s1 \<Longrightarrow> upper_only R s1 s2 \<Longrightarrow> upper_only R s s2"
proof -
  assume 1: "upper_only R s s1" and 2: "upper_only R s1 s2"
  have "upper_cell R s1 a = upper_cell R s a" for a using 1 by (simp add: upper_cell_def upper_only_def)
  then show ?thesis using 1 2 by (auto simp: upper_only_def)
qed

lemma upper_only_flags:
  assumes r: "r \<in> R" and p: "idxs p" "i < 512" "length p \<le> 2" "tab (pmem s) r p = Some t"
    and e: "ptr_ok (pmem s (cell t i))" "ptr_ok e" "e AND PTE_ADDR_MASK = pmem s (cell t i) AND PTE_ADDR_MASK"
  shows "upper_only R s (store (cell t i) e s)"
proof -
  have "upper_cell R s (cell t i)" using r p by (auto simp: upper_cell_def)
  moreover have "tab ((pmem s)(cell t i := e)) r' q = tab (pmem s) r' q" for r' q using e by (rule flags_walk(1))
  ultimately show ?thesis using e by (auto simp: upper_only_def store_def ptr_ok_def)
qed

lemma upper_only_entry:
  assumes r: "r \<in> R" and p: "idxs (p @ [i])" "length p \<le> 2" "tab (pmem s) r p = Some t" and u: "tab (pmem s) r (p @ [i]) = Some u"
  shows "upper_only R s (clear_nx (cell t i) s)" "upper_only R s (set_user (cell t i) s)"
proof -
  have e: "ptr_ok (pmem s (cell t i))" using u p(3) by (simp add: tab_append split: if_splits)
  show "upper_only R s (clear_nx (cell t i) s)" "upper_only R s (set_user (cell t i) s)"
    unfolding clear_nx_def set_user_def using e p r
    by (intro upper_only_flags [of r R p]; simp add: ptr_ok_def flag_bits [simplified])+
qed


lemma upper_only_steps:
  assumes r: "r \<in> R" and i: "idxs [a, b, c]"
    and t: "tab (pmem s) r [a] = Some t1" "tab (pmem s) r [a, b] = Some t2" "tab (pmem s) r [a, b, c] = Some t3"
  defines "s' \<equiv> clear_nx (cell t2 c) (clear_nx (cell t1 b) (clear_nx (cell r a) s))"
  shows "upper_only R s s'" "upper_only R s (set_user (cell t2 c) (set_user (cell t1 b) (set_user (cell r a) s')))"
proof -
  have step: "upper_only R s (clear_nx (cell r a) s1) \<and> upper_only R s (set_user (cell r a) s1) \<and>
      upper_only R s (clear_nx (cell t1 b) s1) \<and> upper_only R s (set_user (cell t1 b) s1) \<and>
      upper_only R s (clear_nx (cell t2 c) s1) \<and> upper_only R s (set_user (cell t2 c) s1)" if g: "upper_only R s s1" for s1
  proof -
    have t': "tab (pmem s1) r [a] = Some t1" "tab (pmem s1) r [a, b] = Some t2" "tab (pmem s1) r [a, b, c] = Some t3"
      using t g unfolding upper_only_def by metis+
    note e = upper_only_entry [OF r]
    have "upper_only R s1 (clear_nx (cell r a) s1)" "upper_only R s1 (set_user (cell r a) s1)"
      "upper_only R s1 (clear_nx (cell t1 b) s1)" "upper_only R s1 (set_user (cell t1 b) s1)"
      "upper_only R s1 (clear_nx (cell t2 c) s1)" "upper_only R s1 (set_user (cell t2 c) s1)"
      using e [of "[]" a s1 r t1] e [of "[a]" b s1 t1 t2] e [of "[a, b]" c s1 t2 t3] i t' by (simp_all del: tab.simps(2))
    then show ?thesis using upper_only_trans [OF g] by blast
  qed
  show "upper_only R s s'" unfolding s'_def using step upper_only_refl by blast
  then show "upper_only R s (set_user (cell t2 c) (set_user (cell t1 b) (set_user (cell r a) s')))" using step by blast
qed

lemma walk_noalloc:
  assumes r: "r \<in> R" and sm: "small s r v" and w: "walk_pt s r v False user = (res, s')"
  shows "upper_only R s s'"
proof -
  let ?a = "idx 39 v" and ?b = "idx 30 v" and ?c = "idx 21 v"
  define t1 where "t1 = pmem s (cell r ?a) AND PTE_ADDR_MASK"
  define t2 where "t2 = pmem s (cell t1 ?b) AND PTE_ADDR_MASK"
  define t3 where "t3 = pmem s (cell t2 ?c) AND PTE_ADDR_MASK"
  have f: "table_fetch s e False = (if pmem s e AND VMM_PRESENT = 0 then 0 else pmem s e AND PTE_ADDR_MASK, s)" for e
    by (simp add: table_fetch_def)
  note S = smallD(1) [OF sm] smallD(2) [OF sm, of t1] smallD(3) [OF sm, of t2]
  show ?thesis
  proof (cases "pmem s (cell r ?a) AND VMM_PRESENT = 0 \<or> t1 = 0 \<or> pmem s (cell t1 ?b) AND VMM_PRESENT = 0 \<or> t2 = 0 \<or>
      pmem s (cell t2 ?c) AND VMM_PRESENT = 0 \<or> t3 = 0")
    case True
    then have "s' = s"
      using w S by (auto simp: walk_pt_def f split_entry_small Let_def ptr_ok_def t1_def [symmetric] t2_def [symmetric] t3_def [symmetric] split: if_splits)
    then show ?thesis by (simp add: upper_only_refl)
  next
    case False
    then have t: "tab (pmem s) r [?a] = Some t1" "tab (pmem s) r [?a, ?b] = Some t2" "tab (pmem s) r [?a, ?b, ?c] = Some t3"
      using S by (simp_all add: ptr_ok_def t1_def [symmetric] t2_def [symmetric] t3_def [symmetric])
    note U = upper_only_steps [OF r _ t]
    show ?thesis
      using w False S t U by (auto simp: walk_pt_def f split_entry_small Let_def t1_def [symmetric] t2_def [symmetric] t3_def [symmetric]
        simp del: tab.simps split: if_splits)
  qed
qed

lemma vpath_page: "vpath (v AND NOT 0xFFF) = vpath v"
proof -
  have m: "(0xFFF :: u64) = mask 12" by (simp add: mask_eq_exp_minus_1)
  have "drop_bit n (v AND NOT (mask 12)) = drop_bit n v" if "n \<ge> 12" for n
    by (rule bit_word_eqI) (use that in \<open>auto simp: bit_simps dest: bit_imp_le_length\<close>)
  then show ?thesis unfolding m vpath_def idx_def by simp
qed


section \<open>Pages and their content\<close>

definition leaf_cell :: "u64 set \<Rightarrow> 'a vmm_scheme \<Rightarrow> u64 \<Rightarrow> bool" where
  "leaf_cell R s c \<longleftrightarrow> (\<exists>r \<in> R. \<exists>q i t. idxs q \<and> i < 512 \<and> length q = 3 \<and> tab (pmem s) r q = Some t \<and> c = cell t i)"

lemma leaf_not_upper:
  assumes ok: "spaces_ok s R" and c: "leaf_cell R s c"
  shows "\<not> upper_cell R s c"
proof
  assume "upper_cell R s c"
  then obtain r q i t where u: "r \<in> R" "idxs q" "i < 512" "length q \<le> 2" "tab (pmem s) r q = Some t" "c = cell t i"
    by (auto simp: upper_cell_def)
  obtain r' q' i' t' where l: "r' \<in> R" "idxs q'" "i' < 512" "length q' = 3" "tab (pmem s) r' q' = Some t'" "c = cell t' i'"
    using c by (auto simp: leaf_cell_def)
  have "aligned t" "aligned t'" using spaces_okD(3) [OF ok u(1,2) _ u(5)] spaces_okD(3) [OF ok l(1,2) _ l(5)] u l by simp_all
  then have "t = t'" using cell_eq_iff [of t t' i i'] u l by simp
  then show False using spaces_okD(4) [OF ok u(1) l(1) u(2) l(2) _ _ u(5)] u l by simp
qed

lemma leaf_cell_table: "spaces_ok s R \<Longrightarrow> leaf_cell R s c \<Longrightarrow> table_page s R c"
  using table_page_cell [where s = s and R = R] spaces_okD(3) [of s R] by (auto simp: leaf_cell_def)

definition swapped :: "u64 \<Rightarrow> bool" where
  "swapped e \<longleftrightarrow> e AND VMM_PRESENT = 0 \<and> e AND SWAP_PTE_MARKER \<noteq> 0"

definition slot_of :: "u64 \<Rightarrow> nat" where
  "slot_of e = unat (ucast (drop_bit SWAP_PTE_SLOT_SHIFT e) :: u32)"

definition frame_words :: "pmem \<Rightarrow> u64 \<Rightarrow> u64 list" where
  "frame_words m f = map (\<lambda>j. m (cell f j)) [0..<512]"

definition disk_words :: "u8 list \<Rightarrow> u64 list" where
  "disk_words bs = map (\<lambda>j. get_le64 (drop (8 * j) bs)) [0..<512]"

definition swap_words :: "'a swap_scheme \<Rightarrow> nat \<Rightarrow> u64 list" where
  "swap_words s n = disk_words (sectors_of (media (g_disks s (nat (g_swap_disk s)))) (of_nat n * 8 + 1) 8)"

definition content :: "'a swap_scheme \<Rightarrow> u64 \<Rightarrow> u64 list option" where
  "content s c = (if pmem s c AND VMM_PRESENT \<noteq> 0 then Some (frame_words (pmem s) (pmem s c AND PTE_ADDR_MASK))
     else if swapped (pmem s c) then Some (swap_words s (slot_of (pmem s c))) else None)"

text \<open>Words and bytes.\<close>

lemma drop_concat_chunks:
  "(\<And>x. x \<in> set xs \<Longrightarrow> length (g x) = k) \<Longrightarrow> drop (k * n) (concat (map g xs)) = concat (map g (drop n xs))"
proof (induction n arbitrary: xs)
  case (Suc n)
  then show ?case by (cases xs) simp_all
qed simp

lemma disk_words_page_bytes: "disk_words (page_bytes m f) = frame_words m f"
proof -
  have "get_le64 (drop (8 * j) (page_bytes m f)) = m (cell f j)" if "j < 512" for j
  proof -
    have "drop (8 * j) (page_bytes m f) = concat (map (\<lambda>j. le64 (m (cell f j))) (drop j [0..<512]))"
      unfolding page_bytes_def by (rule drop_concat_chunks) simp
    also have "drop j [0..<512] = j # [Suc j..<512]" unfolding drop_upt using upt_conv_Cons [OF that] by (simp only: add_0)
    finally show ?thesis by simp
  qed
  then show ?thesis unfolding disk_words_def frame_words_def by (intro map_cong) (auto simp del: upt_rec_numeral)
qed

lemma length_page_bytes [simp]: "length (page_bytes m f) = 4096"
proof -
  have "length (concat (map (\<lambda>j. le64 (m (cell f j))) xs)) = 8 * length xs" for xs by (induction xs) simp_all
  from this [of "[0..<512]"] show ?thesis unfolding page_bytes_def by (simp only: length_upt)
qed

lemma put_page_words:
  assumes "aligned z"
  shows "frame_words (pmem (put_page z bs s)) z = disk_words bs"
proof -
  have "pmem (put_page z bs s) (cell z j) = get_le64 (drop (8 * j) bs)" if "j < 512" for j
  proof -
    have "unat (cell z j) mod 4096 div 8 = j" using unat_cell [OF assms that] assms that by (auto simp: aligned_def)
    then show ?thesis using assms that by (simp add: put_page_def)
  qed
  then show ?thesis unfolding frame_words_def disk_words_def by (intro map_cong) (auto simp del: upt_rec_numeral)
qed

lemma frame_words_cong: "(\<And>j. j < 512 \<Longrightarrow> m (cell f j) = m' (cell f j)) \<Longrightarrow> frame_words m f = frame_words m' f"
  unfolding frame_words_def by (intro map_cong) (auto simp del: upt_rec_numeral)

text \<open>The encoding of a swapped entry, and the entry that is put back.\<close>

lemma push_low: "(push_bit 12 x :: u64) AND 0xFFF = 0"
  by (simp add: low_bits take_bit_push_bit)

lemma swap_entry:
  fixes n :: nat and e :: u64
  assumes "n < 2 ^ 32"
  defines "e' \<equiv> SWAP_PTE_MARKER OR (e AND SWAP_PTE_FLAGS_MASK) OR push_bit SWAP_PTE_SLOT_SHIFT (ucast (of_nat n :: u32))"
  shows "swapped e'" "slot_of e' = n" "e' AND VMM_PRESENT = 0" "e' AND SWAP_PTE_FLAGS_MASK = e AND SWAP_PTE_FLAGS_MASK"
proof -
  define y :: u64 where "y = ucast (of_nat n :: u32)"
  have y: "push_bit 12 y AND 1 = 0" "push_bit 12 y AND 6 = 0" "push_bit 12 y AND 0x200 = 0"
    using arg_cong [OF push_low [of y], of "\<lambda>a. a AND 1"] arg_cong [OF push_low [of y], of "\<lambda>a. a AND 6"]
      arg_cong [OF push_low [of y], of "\<lambda>a. a AND 0x200"] by (simp_all add: and.assoc)
  have e': "e' = 0x200 OR (e AND 6) OR push_bit 12 y" by (simp add: e'_def y_def)
  show p: "e' AND VMM_PRESENT = 0" "e' AND SWAP_PTE_FLAGS_MASK = e AND SWAP_PTE_FLAGS_MASK"
    unfolding e' using y by (simp_all add: word_ao_dist and.assoc)
  have "e' AND 0x200 = 0x200" unfolding e' using y by (simp add: word_ao_dist and.assoc)
  then show "swapped e'" using p by (simp add: swapped_def)
  have "drop_bit 12 (push_bit 12 y) = y"
    unfolding y_def by (rule bit_word_eqI) (auto simp: bit_simps dest: bit_imp_le_length)
  then have "drop_bit 12 e' = y" unfolding e' by (simp del: drop_bit_push_bit)
  moreover have "(ucast (ucast x :: u64) :: u32) = x" for x by (rule bit_word_eqI) (auto simp: bit_simps dest: bit_imp_le_length)
  ultimately have "slot_of e' = unat (of_nat n :: u32)" by (simp only: slot_of_def y_def)
  then show "slot_of e' = n" using assms(1) by (simp add: unat_of_nat)
qed

lemma restored_entry:
  assumes "z AND PTE_ADDR_MASK = z"
  shows "(z OR VMM_PRESENT OR (e AND SWAP_PTE_FLAGS_MASK)) AND VMM_PRESENT \<noteq> 0"
    "(z OR VMM_PRESENT OR (e AND SWAP_PTE_FLAGS_MASK)) AND PTE_ADDR_MASK = z"
  using assms by (simp_all add: word_ao_dist and.assoc or_eq_0_iff)


section \<open>The invariant\<close>

definition swap_disk_ok :: "'a swap_scheme \<Rightarrow> bool" where
  "swap_disk_ok s \<longleftrightarrow> (\<exists>i < ATA_MAX_DISKS. g_swap_disk s = int i \<and> ata_ready (g_disks s i) 1 (8 * unat (g_total_slots s)) \<and>
     (\<forall>x. length (media (g_disks s i) x) = 512))"

text \<open>Every frame mapped by a leaf entry is in use, holds no table and is mapped once; every slot a swapped entry names
  exists, is marked and is named once.\<close>

definition frames_ok :: "u64 set \<Rightarrow> 'a vmm_scheme \<Rightarrow> bool" where
  "frames_ok R s \<longleftrightarrow>
     (\<forall>c. leaf_cell R s c \<longrightarrow> pmem s c AND VMM_PRESENT \<noteq> 0 \<longrightarrow>
        busy s (pmem s c AND PTE_ADDR_MASK) \<and> \<not> table_page s R (pmem s c AND PTE_ADDR_MASK)) \<and>
     (\<forall>c c'. leaf_cell R s c \<longrightarrow> leaf_cell R s c' \<longrightarrow> pmem s c AND VMM_PRESENT \<noteq> 0 \<longrightarrow> pmem s c' AND VMM_PRESENT \<noteq> 0 \<longrightarrow>
        pmem s c AND PTE_ADDR_MASK = pmem s c' AND PTE_ADDR_MASK \<longrightarrow> c = c')"

definition slots_used_ok :: "u64 set \<Rightarrow> 'a swap_scheme \<Rightarrow> bool" where
  "slots_used_ok R s \<longleftrightarrow>
     (\<forall>c. leaf_cell R s c \<longrightarrow> swapped (pmem s c) \<longrightarrow>
        slot_of (pmem s c) < unat (g_total_slots s) \<and> bitmap_test (g_slot_bitmap s) (slot_of (pmem s c))) \<and>
     (\<forall>c c'. leaf_cell R s c \<longrightarrow> leaf_cell R s c' \<longrightarrow> swapped (pmem s c) \<longrightarrow> swapped (pmem s c') \<longrightarrow>
        slot_of (pmem s c) = slot_of (pmem s c') \<longrightarrow> c = c')"

definition swap_inv :: "u64 set \<Rightarrow> 'a swap_scheme \<Rightarrow> bool" where
  "swap_inv R s \<longleftrightarrow> spaces_ok s R \<and> swap_disk_ok s \<and> frames_ok R s \<and> slots_used_ok R s"

lemma frames_okD:
  assumes "frames_ok R s" "leaf_cell R s c" "pmem s c AND VMM_PRESENT \<noteq> 0"
  shows "busy s (pmem s c AND PTE_ADDR_MASK)" "\<not> table_page s R (pmem s c AND PTE_ADDR_MASK)"
    "leaf_cell R s c' \<Longrightarrow> pmem s c' AND VMM_PRESENT \<noteq> 0 \<Longrightarrow> pmem s c AND PTE_ADDR_MASK = pmem s c' AND PTE_ADDR_MASK \<Longrightarrow> c = c'"
  using assms unfolding frames_ok_def by blast+

lemma slots_okD:
  assumes "slots_used_ok R s" "leaf_cell R s c" "swapped (pmem s c)"
  shows "slot_of (pmem s c) < unat (g_total_slots s)" "bitmap_test (g_slot_bitmap s) (slot_of (pmem s c))"
    "leaf_cell R s c' \<Longrightarrow> swapped (pmem s c') \<Longrightarrow> slot_of (pmem s c) = slot_of (pmem s c') \<Longrightarrow> c = c'"
  using assms unfolding slots_used_ok_def by blast+

text \<open>Steps that keep the tables: the invariant survives when the tables and the frames they map stay in use.\<close>

definition same_tables :: "u64 set \<Rightarrow> 'a vmm_scheme \<Rightarrow> 'b vmm_scheme \<Rightarrow> bool" where
  "same_tables R s s' \<longleftrightarrow> pm_total_frames (g_pmm s') = pm_total_frames (g_pmm s) \<and>
     (\<forall>r q. r \<in> R \<longrightarrow> idxs q \<longrightarrow> length q \<le> 3 \<longrightarrow> tab (pmem s') r q = tab (pmem s) r q)"

lemma same_tablesD:
  assumes "same_tables R s s'"
  shows "leaf_cell R s' c = leaf_cell R s c" "table_page s' R a = table_page s R a"
    "spaces_ok s R \<Longrightarrow> (\<And>a. table_page s R a \<Longrightarrow> busy s' a) \<Longrightarrow> spaces_ok s' R"
proof -
  have t: "tab (pmem s') r q = tab (pmem s) r q" if "r \<in> R" "idxs q" "length q \<le> 3" for r q
    using assms that by (simp add: same_tables_def)
  show "leaf_cell R s' c = leaf_cell R s c" by (simp add: leaf_cell_def t cong: conj_cong bex_cong)
  show "table_page s' R a = table_page s R a" by (simp add: table_page_def t cong: conj_cong bex_cong)
  assume ok: "spaces_ok s R" and b: "\<And>a. table_page s R a \<Longrightarrow> busy s' a"
  have "busy s' u" if "r \<in> R" "idxs q" "length q \<le> 3" "tab (pmem s) r q = Some u" for r q u
    using b that unfolding table_page_def by blast
  then show "spaces_ok s' R"
    unfolding spaces_ok_def using assms [unfolded same_tables_def] t spaces_okD(2-4) [OF ok] spaces_ok_total [OF ok] by (simp; blast)
qed


lemma upper_cell_table: "spaces_ok s R \<Longrightarrow> upper_cell R s a \<Longrightarrow> table_page s R a"
  using table_page_cell [where s = s and R = R] spaces_okD(3) [of s R] by (auto simp: upper_cell_def)

lemma frame_cells:
  assumes "aligned f" "j < 512"
  shows "table_page s R (cell f j) = table_page s R f" "busy s (cell f j) = busy s f"
  using assms by (simp_all add: table_page_def busy_def)

lemma table_page_cong: "page_no a = page_no b \<Longrightarrow> table_page s R a = table_page s R b"
  by (simp add: table_page_def)

lemma same_tables_page:
  assumes ok: "spaces_ok s R" and z: "\<not> busy s z"
    and s': "\<And>a. page_no a \<noteq> page_no z \<Longrightarrow> pmem s' a = pmem s a" "pm_total_frames (g_pmm s') = pm_total_frames (g_pmm s)"
  shows "same_tables R s s'"
proof -
  have cells: "pmem s' (cell u j) = pmem s (cell u j)"
    if "r \<in> R" "idxs q" "length q \<le> 3" "tab (pmem s) r q = Some u" "j < 512" for r q u j
  proof -
    have "page_no u \<noteq> page_no z" "aligned u" using spaces_okD(3) [OF ok that(1-4)] z by (auto simp: busy_def)
    then show ?thesis using that(5) by (simp add: s'(1))
  qed
  have "tab (pmem s') r q = tab (pmem s) r q" if "r \<in> R" "idxs q" "length q \<le> 3" for r q
    by (rule walk_agree; rule cells [OF that(1)]; use that in auto)
  then show ?thesis using s'(2) by (simp add: same_tables_def)
qed

lemma same_tables_trans: "same_tables R s s1 \<Longrightarrow> same_tables R s1 s2 \<Longrightarrow> same_tables R s s2"
  by (simp add: same_tables_def)

lemma inv_upper:
  assumes inv: "swap_inv R s" and u: "upper_only R s s1"
  shows "swap_inv R s1" "same_tables R s s1" "leaf_cell R s c \<Longrightarrow> pmem s1 c = pmem s c" "leaf_cell R s c \<Longrightarrow> content s1 c = content s c"
proof -
  obtain m where m: "s1 = s\<lparr>pmem := m\<rparr>" using u by (auto simp: upper_only_def)
  have ok: "spaces_ok s R" using inv by (simp add: swap_inv_def)
  show T: "same_tables R s s1" using u m by (simp add: upper_only_def same_tables_def)
  have b: "busy s1 a = busy s a" for a by (simp add: busy_def m)
  have leaf: "pmem s1 c = pmem s c" if "leaf_cell R s c" for c
    using u leaf_not_upper [OF ok that] by (simp add: upper_only_def)
  have data: "pmem s1 a = pmem s a" if "\<not> table_page s R a" for a
  proof -
    have "\<not> upper_cell R s a" using upper_cell_table [OF ok] that by blast
    then show ?thesis using u by (simp add: upper_only_def)
  qed
  show "leaf_cell R s c \<Longrightarrow> pmem s1 c = pmem s c" by (rule leaf)
  have ok1: "spaces_ok s1 R" by (rule same_tablesD(3) [OF T ok]) (simp add: b table_page_busy [OF ok])
  show "swap_inv R s1"
    using inv ok1 leaf unfolding swap_inv_def frames_ok_def slots_used_ok_def same_tablesD(1,2) [OF T] b
    by (simp add: swap_disk_ok_def m)
  show "content s1 c = content s c" if c: "leaf_cell R s c"
  proof -
    have "frame_words (pmem s1) (pmem s c AND PTE_ADDR_MASK) = frame_words (pmem s) (pmem s c AND PTE_ADDR_MASK)"
      if "pmem s c AND VMM_PRESENT \<noteq> 0"
      using inv c that frames_okD(2) [of R s c] by (intro frame_words_cong data) (simp add: swap_inv_def frame_cells)
    then show ?thesis using leaf [OF c] by (simp add: content_def swap_words_def m)
  qed
qed

lemma word_size_32: "LENGTH(32) = 32"
  by simp

lemma slot_lba:
  assumes "8 * n + 9 \<le> (2 :: nat) ^ 28"
  shows "unat (of_nat n * 8 + 1 :: u32) = 8 * n + 1"
proof -
  have "(of_nat n * 8 + 1 :: u32) = of_nat (8 * n + 1)" by simp
  also have "unat \<dots> = 8 * n + 1" using assms by (simp only: unat_of_nat) simp
  finally show ?thesis .
qed

lemma sectors_of_other_slot:
  assumes "8 * n + 9 \<le> (2 :: nat) ^ 28" "8 * i + 9 \<le> (2 :: nat) ^ 28" "n \<noteq> i"
  shows "sectors_of (media_put (of_nat i * 8 + 1) 8 buf m) (of_nat n * 8 + 1) 8 = sectors_of m (of_nat n * 8 + 1) 8"
proof -
  have "media_put (of_nat i * 8 + 1) 8 buf m (of_nat n * 8 + 1 + of_nat k) = m (of_nat n * 8 + 1 + of_nat k)" if k: "k < 8" for k
  proof -
    let ?x = "of_nat n * 8 + 1 + of_nat k :: u32" and ?l = "of_nat i * 8 + 1 :: u32"
    have "\<not> unat (?x - ?l) < 8"
    proof
      assume j: "unat (?x - ?l) < 8"
      have "?x = ?l + of_nat (unat (?x - ?l))" by simp
      moreover have "?x = of_nat (8 * n + 1 + k)" "?l + of_nat (unat (?x - ?l)) = of_nat (8 * i + 1 + unat (?x - ?l))" by simp_all
      ultimately have "(of_nat (8 * n + 1 + k) :: u32) = of_nat (8 * i + 1 + unat (?x - ?l))" by metis
      then have "(8 * n + 1 + k) mod 2 ^ 32 = (8 * i + 1 + unat (?x - ?l)) mod 2 ^ 32"
        by (metis unat_of_nat word_size_32)
      then have "8 * n + 1 + k = 8 * i + 1 + unat (?x - ?l)" using assms(1,2) k j by simp
      then show False using assms(3) k j by linarith
    qed
    then show ?thesis by (simp add: media_put_def)
  qed
  then show ?thesis unfolding sectors_of_def by (intro arg_cong [of _ _ concat] map_cong) (auto simp del: upt_rec_numeral)
qed


section \<open>Evicting a page\<close>

lemma free_frame_swap [simp]:
  "g_disks (free_frame f s) = g_disks s" "g_swap_disk (free_frame f s) = g_swap_disk s" "g_total_slots (free_frame f s) = g_total_slots s"
  "g_slot_bitmap (free_frame f s) = g_slot_bitmap s"
  by (simp_all add: free_frame_def)

text \<open>A store into a leaf entry keeps the tables.\<close>

lemma leaf_store_tables:
  assumes ok: "spaces_ok s R" and c: "leaf_cell R s c" and s': "pmem s' = (pmem s)(c := e)" "pm_total_frames (g_pmm s') = pm_total_frames (g_pmm s)"
  shows "same_tables R s s'"
proof -
  obtain r q i t where l: "r \<in> R" "idxs q" "i < 512" "length q = 3" "tab (pmem s) r q = Some t" "c = cell t i"
    using c by (auto simp: leaf_cell_def)
  show ?thesis
    using leaf_store(3) [OF ok l(1,2,4,5,3), where e = e] s' l(6) by (simp add: same_tables_def store_def)
qed

lemma other_frame:
  assumes ok: "spaces_ok s R" "frames_ok R s" and c: "leaf_cell R s c" "leaf_cell R s c'" "pmem s c' AND VMM_PRESENT \<noteq> 0"
  shows "frame_words ((pmem s)(c := e)) (pmem s c' AND PTE_ADDR_MASK) = frame_words (pmem s) (pmem s c' AND PTE_ADDR_MASK)"
proof (rule frame_words_cong)
  fix j :: nat assume "j < 512"
  then have "\<not> table_page s R (cell (pmem s c' AND PTE_ADDR_MASK) j)" using frames_okD(2) [OF ok(2) c(2,3)] by (simp add: frame_cells)
  then have "cell (pmem s c' AND PTE_ADDR_MASK) j \<noteq> c" using leaf_cell_table [OF ok(1) c(1)] by auto
  then show "((pmem s)(c := e)) (cell (pmem s c' AND PTE_ADDR_MASK) j) = pmem s (cell (pmem s c' AND PTE_ADDR_MASK) j)" by simp
qed

lemma evict_step:
  assumes inv: "swap_inv R s" and c: "leaf_cell R s c" "pmem s c AND VMM_PRESENT \<noteq> 0" and k: "g_swap_disk s = int k" "k < ATA_MAX_DISKS"
    and i: "i < unat (g_total_slots s)" "\<not> bitmap_test (g_slot_bitmap s) i"
  defines "f \<equiv> pmem s c AND PTE_ADDR_MASK"
  defines "s' \<equiv> free_frame f (store c (SWAP_PTE_MARKER OR (pmem s c AND SWAP_PTE_FLAGS_MASK) OR push_bit SWAP_PTE_SLOT_SHIFT (ucast (of_nat i :: u32)))
     (s\<lparr>g_slot_bitmap := bitmap_set (g_slot_bitmap s) i,
        g_disks := (g_disks s)(k := (g_disks s k)\<lparr>media := media_put (of_nat i * 8 + 1) 8 (page_bytes (pmem s) f) (media (g_disks s k))\<rparr>)\<rparr>))"
  shows "swap_inv R s'" "same_tables R s s'" "\<And>c'. leaf_cell R s c' \<Longrightarrow> content s' c' = content s c'"
    "pmem s' c AND VMM_PRESENT = 0" "\<And>c'. c' \<noteq> c \<Longrightarrow> pmem s' c' = pmem s c'"
proof -
  define e' where "e' = SWAP_PTE_MARKER OR (pmem s c AND SWAP_PTE_FLAGS_MASK) OR push_bit SWAP_PTE_SLOT_SHIFT (ucast (of_nat i :: u32))"
  have ok: "spaces_ok s R" "frames_ok R s" "slots_used_ok R s" "swap_disk_ok s" using inv by (simp_all add: swap_inv_def)
  have ready: "ata_ready (g_disks s k) 1 (8 * unat (g_total_slots s))" "length (media (g_disks s k) x) = 512" for x
    using ok(4) k by (auto simp: swap_disk_ok_def)
  have bound: "8 * n + 9 \<le> (2 :: nat) ^ 28" if "n < unat (g_total_slots s)" for n
    using ready(1) that by (simp add: ata_ready_def)
  have m: "pmem s' = (pmem s)(c := e')" "g_swap_disk s' = int k" "g_total_slots s' = g_total_slots s"
    "g_slot_bitmap s' = bitmap_set (g_slot_bitmap s) i" "pm_total_frames (g_pmm s') = pm_total_frames (g_pmm s)"
    "g_disks s' = (g_disks s)(k := (g_disks s k)\<lparr>media := media_put (of_nat i * 8 + 1) 8 (page_bytes (pmem s) f) (media (g_disks s k))\<rparr>)"
    using k by (simp_all add: s'_def e'_def store_def)
  note e' = swap_entry [of i "pmem s c", folded e'_def]
  have i32: "i < 2 ^ 32" using bound [OF i(1)] by simp
  show "pmem s' c AND VMM_PRESENT = 0" "\<And>c'. c' \<noteq> c \<Longrightarrow> pmem s' c' = pmem s c'" using e' i32 m by simp_all
  show T: "same_tables R s s'" by (rule leaf_store_tables [OF ok(1) c(1) m(1,5)])
  have fr: "busy s f" "\<not> table_page s R f" "aligned f" using frames_okD [OF ok(2) c] by (simp_all add: f_def)
  have b: "busy s' a" if "busy s a" "page_no a \<noteq> page_no f" for a
    unfolding s'_def by (rule busy_free) (use that in \<open>simp_all add: store_def busy_def\<close>)
  have tb: "busy s' a" if "table_page s R a" for a
    using b table_page_busy [OF ok(1) that] table_page_cong [of a f s R] that fr(2) by blast
  have sok: "spaces_ok s' R" by (rule same_tablesD(3) [OF T ok(1) tb])
  have f2: "page_no (pmem s c' AND PTE_ADDR_MASK) \<noteq> page_no f" if "leaf_cell R s c'" "pmem s c' AND VMM_PRESENT \<noteq> 0" "c' \<noteq> c" for c'
    using frames_okD(3) [OF ok(2) c that(1,2)] that(3) page_no_inj [OF aligned_mask [of "pmem s c'"] fr(3)] by (auto simp: f_def)
  have free: "slot_of (pmem s c') \<noteq> i" if "leaf_cell R s c'" "swapped (pmem s c')" for c'
    using slots_okD(2) [OF ok(3) that] i(2) by auto
  have disk: "swap_disk_ok s'"
    using k ready m by (auto simp: swap_disk_ok_def ata_ready_def media_put_def)
  have frames: "frames_ok R s'"
    unfolding frames_ok_def same_tablesD(1,2) [OF T] m(1) using e'(3) i32 b f2 frames_okD [OF ok(2)] by auto
  have slots: "slots_used_ok R s'"
    unfolding slots_used_ok_def same_tablesD(1) [OF T] m(1,3,4) using e'(2) i32 i(1) slots_okD [OF ok(3)] by (auto simp: slot.used_mark dest: free)
  show "swap_inv R s'" using sok disk frames slots by (simp add: swap_inv_def)
  show "content s' c' = content s c'" if c': "leaf_cell R s c'" for c'
  proof (cases "c' = c")
    case True
    have "swap_words s' i = disk_words (page_bytes (pmem s) f)"
      unfolding swap_words_def m(2,6) by (simp add: sectors_of_media_put)
    then show ?thesis using True c(2) e' i32 by (simp add: content_def m(1) swapped_def disk_words_page_bytes f_def)
  next
    case False
    have "swap_words s' n = swap_words s n" if "n < unat (g_total_slots s)" "n \<noteq> i" for n
      using sectors_of_other_slot [OF bound [OF that(1)] bound [OF i(1)] that(2)] k by (simp add: swap_words_def m(2,6))
    then show ?thesis
      using False other_frame [OF ok(1,2) c(1) c', of e'] slots_okD(1) [OF ok(3) c'] free [OF c'] by (auto simp: content_def m(1))
  qed
qed


section \<open>Reading a page back\<close>

lemma restore_step:
  assumes inv: "swap_inv R s" and c: "leaf_cell R s c" "swapped (pmem s c)" and k: "g_swap_disk s = int k" "k < ATA_MAX_DISKS"
    and al: "alloc_frame s = (z, s2)" "z \<noteq> 0"
  defines "bs \<equiv> sectors_of (media (g_disks s k)) (of_nat (slot_of (pmem s c)) * 8 + 1) 8"
  defines "s4 \<equiv> store c (z OR VMM_PRESENT OR (pmem s c AND SWAP_PTE_FLAGS_MASK)) (put_page z bs s2)"
  defines "s' \<equiv> s4\<lparr>g_slot_bitmap := bitmap_clear (g_slot_bitmap s4) (slot_of (pmem s c))\<rparr>"
  shows "swap_inv R s'" "same_tables R s s'" "\<And>c'. leaf_cell R s c' \<Longrightarrow> content s' c' = content s c'"
    "\<And>a. table_page s R a \<Longrightarrow> a \<noteq> c \<Longrightarrow> pmem s' a = pmem s a"
    "pmem s' c = z OR VMM_PRESENT OR (pmem s c AND SWAP_PTE_FLAGS_MASK)"
proof -
  define e' where "e' = z OR VMM_PRESENT OR (pmem s c AND SWAP_PTE_FLAGS_MASK)"
  have ok: "spaces_ok s R" "frames_ok R s" "slots_used_ok R s" "swap_disk_ok s" using inv by (simp_all add: swap_inv_def)
  note a = alloc_frame_spec [OF al(1) spaces_ok_total [OF ok(1)]]
  have z: "aligned z" "z AND PTE_ADDR_MASK = z" "\<not> busy s z" "busy s2 z" using a(7) al(2) by simp_all
  have sw: "g_disks s2 = g_disks s" "g_swap_disk s2 = g_swap_disk s" "g_total_slots s2 = g_total_slots s" "g_slot_bitmap s2 = g_slot_bitmap s"
    using al(1) by (auto simp: alloc_frame_def split: prod.splits)
  have m: "pmem s' = (pmem (put_page z bs s2))(c := e')" "g_swap_disk s' = g_swap_disk s" "g_total_slots s' = g_total_slots s"
    "g_slot_bitmap s' = bitmap_clear (g_slot_bitmap s) (slot_of (pmem s c))" "g_pmm s' = g_pmm s2" "g_disks s' = g_disks s"
    by (simp_all add: s'_def s4_def e'_def store_def put_page_def sw)
  have pz: "pmem (put_page z bs s2) x = pmem s x" if "page_no x \<noteq> page_no z" for x using that by (simp add: put_page_def a)
  have off: "page_no x \<noteq> page_no z" if "busy s x" for x using that z(3) by (auto simp: busy_def)
  have e: "e' AND VMM_PRESENT \<noteq> 0" "e' AND PTE_ADDR_MASK = z" using restored_entry [OF z(2)] by (simp_all add: e'_def)
  have tz: "page_no x \<noteq> page_no z" if "table_page s R x" for x using off table_page_busy [OF ok(1) that] .
  define s3 where "s3 = put_page z bs s2"
  have T3: "same_tables R s s3"
    by (rule same_tables_page [OF ok(1) z(3)]) (use pz a in \<open>simp_all add: s3_def put_page_def\<close>)
  have b: "busy s' x = busy s2 x" "busy s3 x = busy s2 x" for x by (simp_all add: busy_def m s3_def put_page_def)
  have sok3: "spaces_ok s3 R" by (rule same_tablesD(3) [OF T3 ok(1)]) (simp add: b a(6) table_page_busy [OF ok(1)])
  have T': "same_tables R s3 s'"
    by (rule leaf_store_tables [OF sok3, of c]) (use c same_tablesD(1) [OF T3] m in \<open>simp_all add: s3_def put_page_def\<close>)
  show T: "same_tables R s s'" by (rule same_tables_trans [OF T3 T'])
  have leaf: "pmem s' c' = (if c' = c then e' else pmem s c')" if "leaf_cell R s c'" for c'
    using pz tz leaf_cell_table [OF ok(1) that] by (simp add: m(1))
  show "\<And>a. table_page s R a \<Longrightarrow> a \<noteq> c \<Longrightarrow> pmem s' a = pmem s a"
    "pmem s' c = z OR VMM_PRESENT OR (pmem s c AND SWAP_PTE_FLAGS_MASK)" using pz tz by (simp_all add: m(1) e'_def)
  have sok: "spaces_ok s' R" by (rule same_tablesD(3) [OF T ok(1)]) (simp add: b a(6) table_page_busy [OF ok(1)])
  have nt: "\<not> table_page s R z" using tz by blast
  have f2: "pmem s c' AND PTE_ADDR_MASK \<noteq> z" if "leaf_cell R s c'" "pmem s c' AND VMM_PRESENT \<noteq> 0" for c'
    using frames_okD(1) [OF ok(2) that] z(3) by auto
  have frames: "frames_ok R s'"
    unfolding frames_ok_def same_tablesD(1,2) [OF T]
    using leaf e nt z(4) b(1) a(6) frames_okD [OF ok(2)] by (auto split: if_splits dest: f2)
  have ns: "\<not> swapped e'" using e(1) by (simp add: swapped_def)
  have slots: "slots_used_ok R s'"
    unfolding slots_used_ok_def same_tablesD(1) [OF T] m(3,4) slot.used_release
    using leaf ns slots_okD [OF ok(3)] c by (auto split: if_splits) 
  have "swap_disk_ok s'" using ok(4) m by (simp add: swap_disk_ok_def)
  then show "swap_inv R s'" using sok frames slots by (simp add: swap_inv_def)
  show "content s' c' = content s c'" if c': "leaf_cell R s c'" for c'
  proof (cases "c' = c")
    case True
    have "frame_words (pmem s') z = frame_words (pmem s3) z"
    proof (rule frame_words_cong)
      fix j :: nat assume "j < 512"
      then have "cell z j \<noteq> c" using tz [OF leaf_cell_table [OF ok(1) c(1)]] page_no_cell [OF z(1)] by auto
      then show "pmem s' (cell z j) = pmem s3 (cell z j)" by (simp add: m(1) s3_def)
    qed
    also have "\<dots> = swap_words s (slot_of (pmem s c))" unfolding s3_def put_page_words [OF z(1)] by (simp add: bs_def swap_words_def k(1))
    finally show ?thesis using True c e leaf [OF c'] by (simp add: content_def swapped_def)
  next
    case False
    have "frame_words (pmem s') (pmem s c' AND PTE_ADDR_MASK) = frame_words (pmem s) (pmem s c' AND PTE_ADDR_MASK)"
      if p: "pmem s c' AND VMM_PRESENT \<noteq> 0"
    proof (rule frame_words_cong)
      fix j :: nat assume j: "j < 512"
      have "busy s (cell (pmem s c' AND PTE_ADDR_MASK) j)" "\<not> table_page s R (cell (pmem s c' AND PTE_ADDR_MASK) j)"
        using frames_okD(1,2) [OF ok(2) c' p] j by (simp_all add: frame_cells)
      then show "pmem s' (cell (pmem s c' AND PTE_ADDR_MASK) j) = pmem s (cell (pmem s c' AND PTE_ADDR_MASK) j)"
        using off pz leaf_cell_table [OF ok(1) c(1)] by (auto simp: m(1))
    qed
    then show ?thesis using False leaf [OF c'] by (simp add: content_def swap_words_def m)
  qed
qed


section \<open>Transparency\<close>

text \<open>What every step keeps: the invariant, the set of pages, their content, and where large pages are.\<close>

definition transparent :: "u64 set \<Rightarrow> 'a swap_scheme \<Rightarrow> 'a swap_scheme \<Rightarrow> bool" where
  "transparent R s s' \<longleftrightarrow> swap_inv R s' \<and> same_tables R s s' \<and> (\<forall>c. leaf_cell R s c \<longrightarrow> content s' c = content s c) \<and>
     (\<forall>a. upper_cell R s a \<longrightarrow> pmem s' a AND PTE_PS = pmem s a AND PTE_PS)"

lemma transparent_trans: "transparent R s s1 \<Longrightarrow> transparent R s1 s2 \<Longrightarrow> transparent R s s2"
proof -
  assume 1: "transparent R s s1" and 2: "transparent R s1 s2"
  have t: "same_tables R s s1" "same_tables R s1 s2" using 1 2 by (simp_all add: transparent_def)
  have "upper_cell R s1 a = upper_cell R s a" for a
    using t(1) by (simp add: upper_cell_def same_tables_def cong: conj_cong bex_cong)
  then show ?thesis using 1 2 same_tables_trans [OF t] same_tablesD(1) [OF t(1)] by (auto simp: transparent_def)
qed

lemma transparent_upper:
  assumes "swap_inv R s" "upper_only R s s1"
  shows "transparent R s s1"
  using inv_upper [OF assms] assms(2) by (simp add: transparent_def upper_only_def)

lemma small_transparent:
  assumes "transparent R s s'" "r \<in> R" "small s r v"
  shows "small s' r v"
  unfolding small_def
proof (intro allI impI)
  fix q i w t assume q: "take 3 (vpath v) = q @ i # w" "tab (pmem s') r q = Some t"
  have "idxs (q @ i # w)" "length (q @ i # w) = 3" unfolding q(1) [symmetric] by (simp_all add: vpath_def)
  then have l: "idxs q" "i < 512" "length q \<le> 2" by simp_all
  then have t: "tab (pmem s) r q = Some t" using assms(1,2) q(2) by (simp add: transparent_def same_tables_def)
  then have "upper_cell R s (cell t i)" using assms(2) l by (auto simp: upper_cell_def)
  then show "pmem s' (cell t i) AND PTE_PS = 0" using assms(1,3) q(1) t unfolding transparent_def small_def by metis
qed


lemma walk_page:
  assumes inv: "swap_inv R s" and r: "r \<in> R" and sm: "small s r v" and w: "vmm_walk_pte s r (v AND NOT 0xFFF) False = (res, s1)"
  shows "transparent R s s1" "upper_only R s s1" "res = None \<Longrightarrow> s1 = s \<and> tab (pmem s) r (take 3 (vpath v)) = None"
    and "res = Some pte \<Longrightarrow> leaf_cell R s1 pte \<and> space s1 r v = leaf (pmem s1 pte) \<and>
      (\<exists>pt. tab (pmem s1) r (take 3 (vpath v)) = Some pt \<and> pte = cell pt (idx 12 v))"
    and "space s1 r v = space s r v"
proof -
  have sm': "small s r (v AND NOT 0xFFF)" using sm by (simp only: small_def vpath_page)
  have ok: "spaces_ok s R" using inv by (simp add: swap_inv_def)
  obtain x where x: "walk_pt s r (v AND NOT 0xFFF) False False = (x, s1)" "res = map_option fst x"
    using w by (auto simp: vmm_walk_pte_def split: prod.splits)
  show u: "upper_only R s s1" by (rule walk_noalloc [OF r sm' x(1)])
  then show "transparent R s s1" by (rule transparent_upper [OF inv])
  note W = walk_pt_extends [OF ok r sm' x(1), unfolded vpath_page]
  show "res = None \<Longrightarrow> s1 = s \<and> tab (pmem s) r (take 3 (vpath v)) = None" using W(3) x(2) by simp
  show "space s1 r v = space s r v" by (rule space_extends [OF W(1) r])
  have i: "idx 12 (v AND NOT 0xFFF) = idx 12 v" using vpath_page [of v] by (simp add: vpath_def)
  show "leaf_cell R s1 pte \<and> space s1 r v = leaf (pmem s1 pte) \<and>
      (\<exists>pt. tab (pmem s1) r (take 3 (vpath v)) = Some pt \<and> pte = cell pt (idx 12 v))" if res: "res = Some pte"
  proof -
    obtain pt where pt: "tab (pmem s1) r (take 3 (vpath v)) = Some pt" "pte = cell pt (idx 12 v)"
      using W(2) [of pte] res x(2) i by (cases x) auto
    moreover have "leaf_cell R s1 pte" unfolding leaf_cell_def using pt r idxs_take_vpath idx_less by metis
    ultimately show ?thesis using mmu_leaf [OF pt(1)] by (simp add: space_def)
  qed
qed

lemma slot_ready:
  assumes "ata_ready d 1 (8 * n)" "i < n"
  shows "ata_ready d (unat (of_nat i * 8 + 1 :: u32)) (unat (8 :: u32))" "i < 2 ^ 28"
proof -
  have b: "8 * i + 9 \<le> (2 :: nat) ^ 28" using assms by (simp add: ata_ready_def)
  then show "i < 2 ^ 28" by simp
  have "\<not> bad d (of_nat (8 * i + 1 + k))" if "k < 8" for k
  proof -
    have "8 * i + k < 8 * n" using assms(2) that by simp
    then have "\<not> bad d (of_nat (1 + (8 * i + k)))" using assms(1) unfolding ata_ready_def by blast
    then show ?thesis by (simp add: add.commute add.left_commute)
  qed
  then show "ata_ready d (unat (of_nat i * 8 + 1 :: u32)) (unat (8 :: u32))"
    using assms unfolding ata_ready_def slot_lba [OF b] by (simp add: add.assoc)
qed

lemma swap_out_keeps:
  assumes inv: "swap_inv R s" and r: "r \<in> R" and sm: "small s r v" and out: "swap_out_page s r v = (k, s')"
  shows "transparent R s s'" "k \<noteq> 0 \<Longrightarrow> space s r v \<noteq> None \<and> space s' r v = None"
    "space s r v = Some (l, e) \<Longrightarrow> page_no (e AND PTE_ADDR_MASK) \<noteq> 0 \<Longrightarrow> room s m \<Longrightarrow> room s' m"
    "space s r v \<noteq> None \<Longrightarrow> j < unat (g_total_slots s) \<Longrightarrow> \<not> bitmap_test (g_slot_bitmap s) j \<Longrightarrow> k \<noteq> 0"
proof -
  obtain n where n: "g_swap_disk s = int n" "n < ATA_MAX_DISKS" "ata_ready (g_disks s n) 1 (8 * unat (g_total_slots s))"
    using inv by (auto simp: swap_inv_def swap_disk_ok_def)
  then have av: "swap_available s" by (simp add: swap_available_def)
  obtain res s1 where w: "vmm_walk_pte s r (v AND NOT 0xFFF) False = (res, s1)" by (cases "vmm_walk_pte s r (v AND NOT 0xFFF) False")
  note W = walk_page [OF inv r sm w]
  have inv1: "swap_inv R s1" using W(1) by (simp add: transparent_def)
  have s1: "g_swap_disk s1 = int n" "g_disks s1 = g_disks s" "g_total_slots s1 = g_total_slots s" "g_slot_bitmap s1 = g_slot_bitmap s"
    "room s1 m = room s m"
    using W(2) n(1) by (auto simp: upper_only_def room_def)
  have "transparent R s s' \<and> (k \<noteq> 0 \<longrightarrow> space s r v \<noteq> None \<and> space s' r v = None) \<and>
    (space s r v = Some (l, e) \<longrightarrow> page_no (e AND PTE_ADDR_MASK) \<noteq> 0 \<longrightarrow> room s m \<longrightarrow> room s' m) \<and>
    (space s r v \<noteq> None \<longrightarrow> j < unat (g_total_slots s) \<longrightarrow> \<not> bitmap_test (g_slot_bitmap s) j \<longrightarrow> k \<noteq> 0)"
  proof (cases "\<exists>pte. res = Some pte \<and> pmem s1 pte AND VMM_PRESENT \<noteq> 0")
    case False
    then have "k = 0" "s' = s1" using out av w by (auto simp: swap_out_page_def Let_def split: option.splits if_splits)
    moreover have "space s r v = None"
      using False W(3,4,5) mmu_no_table [OF sm] by (cases res) (auto simp: leaf_def space_def)
    ultimately show ?thesis using W(1) s1(5) by simp
  next
    case True
    then obtain pte where pte: "res = Some pte" "pmem s1 pte AND VMM_PRESENT \<noteq> 0" by blast
    have leaf: "leaf_cell R s1 pte" using W(4) [OF pte(1)] by blast
    show ?thesis
    proof (cases "scan (\<lambda>i. \<not> bitmap_test (g_slot_bitmap s1) i) 0 (unat (g_total_slots s1))")
      case None
      then have "k = 0" "s' = s1" using out av w pte by (auto simp: swap_out_page_def Let_def alloc_slot_def)
      moreover have "bitmap_test (g_slot_bitmap s) j" if "j < unat (g_total_slots s)" using None that s1 by (simp add: scan_None_iff)
      ultimately show ?thesis using W(1) s1(5) by simp
    next
      case (Some i)
      have i: "i < unat (g_total_slots s1)" "\<not> bitmap_test (g_slot_bitmap s1) i" using slot.first_fit(2,3) [OF Some] .
      have rd: "ata_ready (g_disks s1 n) (unat (of_nat i * 8 + 1 :: u32)) (unat (8 :: u32))" "i < 2 ^ 28"
        using slot_ready [of "g_disks s1 n" "unat (g_total_slots s1)" i] n(3) i(1) s1 by simp_all
      have eq: "ata_write (g_disks s1) (int n) (of_nat i * 8 + 1) 8 buf =
          (0, (g_disks s1)(n := (g_disks s1 n)\<lparr>media := media_put (of_nat i * 8 + 1) 8 buf (media (g_disks s1 n))\<rparr>))" for buf
        using ata_write_good [of n "g_disks s1", OF n(2) rd(1)] by simp
      note E = evict_step [OF inv1 leaf pte(2) s1(1) n(2) i]
      have k: "k = of_nat i + 1" and s': "s' = free_frame (pmem s1 pte AND PTE_ADDR_MASK) (store pte (SWAP_PTE_MARKER OR (pmem s1 pte AND SWAP_PTE_FLAGS_MASK) OR push_bit SWAP_PTE_SLOT_SHIFT (ucast (of_nat i :: u32)))
         (s1\<lparr>g_slot_bitmap := bitmap_set (g_slot_bitmap s1) i,
            g_disks := (g_disks s1)(n := (g_disks s1 n)\<lparr>media := media_put (of_nat i * 8 + 1) 8 (page_bytes (pmem s1) (pmem s1 pte AND PTE_ADDR_MASK)) (media (g_disks s1 n))\<rparr>)\<rparr>))"
        using out av w pte Some sint_small [of i] rd(2) s1(1) eq by (auto simp: swap_out_page_def Let_def alloc_slot_def)
      note E = E [folded s']
      have "pmem s' a AND PTE_PS = pmem s1 a AND PTE_PS" if "upper_cell R s1 a" for a
        using E(5) [of a] leaf_not_upper [OF _ leaf] inv1 that by (cases "a = pte") (auto simp: swap_inv_def)
      then have "transparent R s1 s'" using E by (simp add: transparent_def)
      then have "transparent R s s'" by (rule transparent_trans [OF W(1)])
      moreover have "space s' r v = None"
      proof -
        obtain pt where pt: "tab (pmem s1) r (take 3 (vpath v)) = Some pt" "pte = cell pt (idx 12 v)" using W(4) [OF pte(1)] by blast
        then have "tab (pmem s') r (take 3 (vpath v)) = Some pt" using E(2) r by (simp add: same_tables_def)
        then show ?thesis using mmu_leaf [of s'] E(4) pt(2) by (simp add: space_def leaf_def)
      qed
      moreover have old: "space s r v = Some (0, pmem s1 pte)" using W(4) [OF pte(1)] pte(2) W(5) by (simp add: leaf_def)
      moreover have "k \<noteq> 0"
      proof
        assume "k = 0"
        then have "(of_nat (Suc i) :: u32) = of_nat 0" using k by (simp add: add.commute)
        then have "Suc i mod 2 ^ 32 = 0 mod 2 ^ 32" by (metis unat_of_nat word_size_32)
        then show False using rd(2) by simp
      qed
      moreover have "room s' m" if "page_no (pmem s1 pte AND PTE_ADDR_MASK) \<noteq> 0" "room s m"
        unfolding s' by (rule room_free [OF that(1)]) (use that(2) s1(5) in \<open>simp add: room_def store_def\<close>)
      ultimately show ?thesis by auto
    qed
  qed
  then show "transparent R s s'" "k \<noteq> 0 \<Longrightarrow> space s r v \<noteq> None \<and> space s' r v = None"
    "space s r v = Some (l, e) \<Longrightarrow> page_no (e AND PTE_ADDR_MASK) \<noteq> 0 \<Longrightarrow> room s m \<Longrightarrow> room s' m"
    "space s r v \<noteq> None \<Longrightarrow> j < unat (g_total_slots s) \<Longrightarrow> \<not> bitmap_test (g_slot_bitmap s) j \<Longrightarrow> k \<noteq> 0" by blast+
qed


lemma transparent_alloc:
  assumes inv: "swap_inv R s" and al: "alloc_frame s = (z, s')"
  shows "transparent R s s'"
proof -
  have ok: "spaces_ok s R" "frames_ok R s" "slots_used_ok R s" "swap_disk_ok s" using inv by (simp_all add: swap_inv_def)
  note a = alloc_frame_spec [OF al spaces_ok_total [OF ok(1)]]
  have sw: "g_disks s' = g_disks s" "g_swap_disk s' = g_swap_disk s" "g_total_slots s' = g_total_slots s" "g_slot_bitmap s' = g_slot_bitmap s"
    using al by (auto simp: alloc_frame_def split: prod.splits)
  have T: "same_tables R s s'" by (simp add: same_tables_def a)
  have "spaces_ok s' R" by (rule same_tablesD(3) [OF T ok(1)]) (simp add: a(6) table_page_busy [OF ok(1)])
  moreover have "frames_ok R s'"
    using ok(2) a(6) unfolding frames_ok_def same_tablesD(1,2) [OF T] a(1) by blast
  ultimately have "swap_inv R s'"
    using ok(3,4) by (simp add: swap_inv_def swap_disk_ok_def slots_used_ok_def same_tablesD(1) [OF T] a(1) sw)
  then show ?thesis using T by (simp add: transparent_def content_def swap_words_def a(1) sw)
qed

definition swapped_page :: "'a vmm_scheme \<Rightarrow> u64 \<Rightarrow> u64 \<Rightarrow> bool" where
  "swapped_page s r v \<longleftrightarrow> (case tab (pmem s) r (take 3 (vpath v)) of None \<Rightarrow> False | Some pt \<Rightarrow> swapped (pmem s (cell pt (idx 12 v))))"

lemma length_slot_bytes: "(\<And>x. length (m x) = 512) \<Longrightarrow> length (sectors_of m a 8) = 4096"
proof -
  assume l: "\<And>x. length (m x) = 512"
  have "length (sectors_of m a n) = 512 * n" for n a by (induction n arbitrary: a) (simp_all add: sectors_of_Suc l, simp add: sectors_of_def)
  then show ?thesis by simp
qed

lemma swap_fault_keeps:
  assumes inv: "swap_inv R s" and r: "r \<in> R" and sm: "small s r v" and f: "swap_fault s r v = (ok, s')"
  shows "transparent R s s'" "ok \<Longrightarrow> swapped_page s r v \<and> space s' r v \<noteq> None" "swapped_page s r v \<Longrightarrow> room s 1 \<Longrightarrow> ok"
proof -
  obtain n where n: "g_swap_disk s = int n" "n < ATA_MAX_DISKS" "ata_ready (g_disks s n) 1 (8 * unat (g_total_slots s))"
      "\<And>x. length (media (g_disks s n) x) = 512"
    using inv by (auto simp: swap_inv_def swap_disk_ok_def)
  then have av: "swap_available s" by (simp add: swap_available_def)
  obtain res s1 where w: "vmm_walk_pte s r (v AND NOT 0xFFF) False = (res, s1)" by (cases "vmm_walk_pte s r (v AND NOT 0xFFF) False")
  note W = walk_page [OF inv r sm w]
  have inv1: "swap_inv R s1" using W(1) by (simp add: transparent_def)
  have s1: "g_swap_disk s1 = int n" "g_disks s1 = g_disks s" "g_total_slots s1 = g_total_slots s" "room s1 k = room s k" for k
    using W(2) n(1) by (auto simp: upper_only_def room_def)
  have sp: "swapped_page s r v \<longleftrightarrow> (\<exists>pte. res = Some pte \<and> swapped (pmem s1 pte))"
  proof (cases res)
    case None
    then show ?thesis using W(3) by (simp add: swapped_page_def)
  next
    case (Some pte)
    then obtain pt where pt: "leaf_cell R s1 pte" "tab (pmem s1) r (take 3 (vpath v)) = Some pt" "pte = cell pt (idx 12 v)" using W(4) by blast
    have T: "same_tables R s s1" using W(1) by (simp add: transparent_def)
    have "pmem s1 pte = pmem s pte" using inv_upper(3) [OF inv W(2)] pt(1) same_tablesD(1) [OF T] by simp
    moreover have "tab (pmem s) r (take 3 (vpath v)) = Some pt" using T pt(2) r by (simp add: same_tables_def)
    ultimately show ?thesis using Some pt(3) by (simp add: swapped_page_def)
  qed
  have "transparent R s s' \<and> (ok \<longrightarrow> swapped_page s r v \<and> space s' r v \<noteq> None) \<and> (swapped_page s r v \<longrightarrow> room s 1 \<longrightarrow> ok)"
  proof (cases "swapped_page s r v")
    case False
    then have "\<not> ok" "s' = s1" using f av w sp by (auto simp: swap_fault_def swapped_def Let_def split: option.splits if_splits)
    then show ?thesis using W(1) False by simp
  next
    case True
    then obtain pte where pte: "res = Some pte" "swapped (pmem s1 pte)" using sp by blast
    have leaf: "leaf_cell R s1 pte" using W(4) [OF pte(1)] by blast
    obtain z s2 where al: "alloc_frame s1 = (z, s2)" by (cases "alloc_frame s1")
    show ?thesis
    proof (cases "z = 0")
      case z: True
      then have "\<not> ok" "s' = s2" using f av w pte al by (auto simp: swap_fault_def swapped_def Let_def)
      moreover have "\<not> room s 1" using alloc_room [OF al, of 0] z s1(4) spaces_ok_total [of s1 R] inv1 by (auto simp: swap_inv_def)
      ultimately show ?thesis using transparent_trans [OF W(1) transparent_alloc [OF inv1 al]] by simp
    next
      case z: False
      let ?i = "slot_of (pmem s1 pte)"
      have i: "?i < unat (g_total_slots s1)" using slots_okD(1) [OF _ leaf pte(2)] inv1 by (simp add: swap_inv_def)
      have rd: "ata_ready (g_disks s1 n) (unat (of_nat ?i * 8 + 1 :: u32)) (unat (8 :: u32))"
        using slot_ready [of "g_disks s1 n" "unat (g_total_slots s1)" ?i] n(3) i s1 by simp
      have sl: "(ucast (drop_bit SWAP_PTE_SLOT_SHIFT (pmem s1 pte)) :: u32) = of_nat ?i" by (simp add: slot_of_def)
      let ?bs = "sectors_of (media (g_disks s1 n)) (of_nat ?i * 8 + 1) 8"
      have "length ?bs = 4096" using n(4) s1(2) by (simp add: length_slot_bytes)
      then have rdq: "ata_read (g_disks s1) (int n) (of_nat ?i * 8 + 1) 8 (page_bytes m p) = (0, ?bs)" for m p
        using ata_read_good [of n "g_disks s1", OF n(2) rd] by simp
      have s2: "g_disks s2 = g_disks s1" "g_swap_disk s2 = g_swap_disk s1" "pmem s2 = pmem s1"
        using al by (auto simp: alloc_frame_def split: prod.splits)
      define s4 where "s4 = store pte (z OR VMM_PRESENT OR (pmem s1 pte AND SWAP_PTE_FLAGS_MASK)) (put_page z ?bs s2)"
      have o: "ok" "s' = s4\<lparr>g_slot_bitmap := bitmap_clear (g_slot_bitmap s4) ?i\<rparr>"
        using f av w pte al z sl rdq s1(1) s2 by (auto simp: swap_fault_def swapped_def Let_def s4_def slot_of_def)
      note E = restore_step [OF inv1 leaf pte(2) s1(1) n(2) al z, folded s4_def, folded o(2)]
      have "upper_cell R s1 a \<Longrightarrow> pmem s' a AND PTE_PS = pmem s1 a AND PTE_PS" for a
        using E(4) [of a] upper_cell_table [of s1 R a] leaf_not_upper [OF _ leaf] inv1 by (cases "a = pte") (auto simp: swap_inv_def)
      then have "transparent R s1 s'" using E by (simp add: transparent_def)
      then have "transparent R s s'" by (rule transparent_trans [OF W(1)])
      moreover have "space s' r v \<noteq> None"
      proof -
        obtain pt where pt: "tab (pmem s1) r (take 3 (vpath v)) = Some pt" "pte = cell pt (idx 12 v)" using W(4) [OF pte(1)] by blast
        then have "tab (pmem s') r (take 3 (vpath v)) = Some pt" using E(2) r by (simp add: same_tables_def)
        then show ?thesis
          using mmu_leaf [of s'] E(5) pt(2) restored_entry(1) [of z] alloc_frame_spec(7) [OF al _ z] spaces_ok_total [of s1 R] inv1
          by (simp add: space_def leaf_def swap_inv_def)
      qed
      ultimately show ?thesis using True o(1) by simp
    qed
  qed
  then show "transparent R s s'" "ok \<Longrightarrow> swapped_page s r v \<and> space s' r v \<noteq> None" "swapped_page s r v \<Longrightarrow> room s 1 \<Longrightarrow> ok" by blast+
qed


section \<open>Properties\<close>

text \<open>The content of the page at an address, wherever it is.\<close>

definition page_content :: "'a swap_scheme \<Rightarrow> u64 \<Rightarrow> u64 \<Rightarrow> u64 list option" where
  "page_content s r v = (case tab (pmem s) r (take 3 (vpath v)) of None \<Rightarrow> None | Some pt \<Rightarrow> content s (cell pt (idx 12 v)))"

lemma page_content_transparent:
  assumes "transparent R s s'" "r \<in> R"
  shows "page_content s' r v = page_content s r v"
proof -
  have t: "tab (pmem s') r (take 3 (vpath v)) = tab (pmem s) r (take 3 (vpath v))"
    using assms by (simp add: transparent_def same_tables_def)
  have "leaf_cell R s (cell pt (idx 12 v))" if "tab (pmem s) r (take 3 (vpath v)) = Some pt" for pt
    unfolding leaf_cell_def using assms(2) that idxs_take_vpath idx_less by metis
  then show ?thesis using assms(1) unfolding page_content_def t by (auto simp: transparent_def split: option.splits)
qed

datatype swap_op = Evict u64 u64 | Fault u64 u64

fun run_swap_op :: "swap_op \<Rightarrow> 'a swap_scheme \<Rightarrow> 'a swap_scheme" where
  "run_swap_op (Evict r v) s = snd (swap_out_page s r v)"
| "run_swap_op (Fault r v) s = snd (swap_fault s r v)"

fun swap_op_ok :: "u64 set \<Rightarrow> 'a vmm_scheme \<Rightarrow> swap_op \<Rightarrow> bool" where
  "swap_op_ok R s (Evict r v) \<longleftrightarrow> r \<in> R \<and> small s r v"
| "swap_op_ok R s (Fault r v) \<longleftrightarrow> r \<in> R \<and> small s r v"

lemma run_swap_op_transparent: "swap_inv R s \<Longrightarrow> swap_op_ok R s x \<Longrightarrow> transparent R s (run_swap_op x s)"
  using swap_out_keeps(1) [of R s] swap_fault_keeps(1) [of R s] by (cases x) (auto simp: prod_eq_iff)

lemma swap_op_ok_transparent: "transparent R s s' \<Longrightarrow> swap_op_ok R s x \<Longrightarrow> swap_op_ok R s' x"
  using small_transparent [of R s s'] by (cases x) auto

lemma transparent_refl: "swap_inv R s \<Longrightarrow> transparent R s s"
  by (simp add: transparent_def same_tables_def)

lemma run_swap_transparent: "swap_inv R s \<Longrightarrow> list_all (swap_op_ok R s) ops \<Longrightarrow> transparent R s (fold run_swap_op ops s)"
proof (induction ops arbitrary: s)
  case (Cons x ops)
  have t: "transparent R s (run_swap_op x s)" by (rule run_swap_op_transparent) (use Cons.prems in simp_all)
  have "list_all (swap_op_ok R (run_swap_op x s)) ops"
    using Cons.prems(2) swap_op_ok_transparent [OF t] by (auto simp: list_all_iff)
  then have "transparent R (run_swap_op x s) (fold run_swap_op ops (run_swap_op x s))"
    by (intro Cons.IH) (use t in \<open>simp_all add: transparent_def\<close>)
  then show ?case using transparent_trans [OF t] by simp
qed (simp add: transparent_refl)

text \<open>C4. Swapping is invisible: after any sequence of evictions and page faults in any address spaces, every page of every space
  has the content it had before, whether it is now in memory or on the disk, and no frame or slot is shared.\<close>

theorem swap_transparent:
  assumes "swap_inv R s" "list_all (swap_op_ok R s) ops"
  shows "swap_inv R (fold run_swap_op ops s) \<and> (\<forall>r v. r \<in> R \<longrightarrow> page_content (fold run_swap_op ops s) r v = page_content s r v)"
  using run_swap_transparent [OF assms] page_content_transparent [of R s "fold run_swap_op ops s"] by (auto simp: transparent_def)

lemma evicted_swapped:
  assumes "page_content s r v \<noteq> None" "space s r v = None"
  shows "swapped_page s r v"
proof -
  obtain pt where pt: "tab (pmem s) r (take 3 (vpath v)) = Some pt" "content s (cell pt (idx 12 v)) \<noteq> None"
    using assms(1) by (auto simp: page_content_def split: option.splits)
  then show ?thesis
    using assms(2) mmu_leaf [OF pt(1)] by (auto simp: swapped_page_def content_def space_def leaf_def split: if_splits)
qed

lemma mapped_content:
  assumes "small s r v" "space s r v \<noteq> None"
  shows "page_content s r v \<noteq> None"
proof -
  have "tab (pmem s) r (take 3 (vpath v)) \<noteq> None" using mmu_no_table [OF assms(1)] assms(2) unfolding space_def by blast
  then obtain pt where "tab (pmem s) r (take 3 (vpath v)) = Some pt" by blast
  then show ?thesis using assms(2) mmu_leaf [of s] by (auto simp: page_content_def content_def space_def leaf_def split: if_splits)
qed

text \<open>C5. A page that was evicted faults, and as soon as a frame is free the fault handler brings it back with the content it
  had.\<close>

theorem swap_roundtrip:
  assumes "swap_inv R s" "r \<in> R" "small s r v" "swap_out_page s r v = (k, s1)" "k \<noteq> 0"
    and "room s1 1" "swap_fault s1 r v = (ok, s2)"
  shows "space s r v \<noteq> None \<and> space s1 r v = None \<and> ok \<and> space s2 r v \<noteq> None \<and> page_content s2 r v = page_content s r v \<and> page_content s r v \<noteq> None"
proof -
  note O = swap_out_keeps [OF assms(1-4)]
  have inv1: "swap_inv R s1" using O(1) by (simp add: transparent_def)
  note F = swap_fault_keeps [OF inv1 assms(2) small_transparent [OF O(1) assms(2,3)] assms(7)]
  have c: "page_content s r v \<noteq> None" using mapped_content assms(3,5) O(2) by blast
  then have "swapped_page s1 r v" using evicted_swapped page_content_transparent [OF O(1) assms(2)] O(2) assms(5) by metis
  then show ?thesis using F assms(5,6) O(2) c page_content_transparent [OF O(1) assms(2)] page_content_transparent [OF F(1) assms(2)] by simp
qed


text \<open>A machine with one user page, at address 0, and a swap disk of 100 slots.\<close>

definition swap_mem :: pmem where
  "swap_mem = (\<lambda>_. 0)(0x1000 := 0x2007, 0x2000 := 0x3007, 0x3000 := 0x4007, 0x4000 := 0x5007, 0x5000 := 42)"

definition sample_swap :: swap where
  "sample_swap = \<lparr>g_pmm = \<lparr>pm_bitmap = (\<lambda>i. if i = 0 then 63 else 0), pm_total_frames = 16, pm_allocated_frames = 6, pm_hhdm_offset = 0, pm_last_hint = 6\<rparr>,
     pmem = swap_mem, g_cr3 = 0x1000, g_root_cr3 = 0x1000, g_mmio_next = VMM_MMIO_BASE,
     g_disks = (\<lambda>_. sample_drive), g_disk_count = 1, g_swap_disk = 0, g_total_slots = 100, g_slot_bitmap = (\<lambda>_. 0)\<rparr>"

lemma swap_mem_cell:
  assumes "i < 512"
  shows "swap_mem (cell 0x1000 i) = (if i = 0 then 0x2007 else 0)" "swap_mem (cell 0x2000 i) = (if i = 0 then 0x3007 else 0)"
    "swap_mem (cell 0x3000 i) = (if i = 0 then 0x4007 else 0)" "swap_mem (cell 0x4000 i) = (if i = 0 then 0x5007 else 0)"
proof -
  have al: "aligned 0x1000" "aligned 0x2000" "aligned 0x3000" "aligned 0x4000" "aligned 0x5000" by (simp_all add: aligned_def)
  have eq: "cell t i = u \<longleftrightarrow> t = u \<and> i = 0" if "aligned t" "aligned u" for t u
    using cell_eq_iff [OF that assms, of 0] by (simp add: cell_def)
  show "swap_mem (cell 0x1000 i) = (if i = 0 then 0x2007 else 0)" "swap_mem (cell 0x2000 i) = (if i = 0 then 0x3007 else 0)"
    "swap_mem (cell 0x3000 i) = (if i = 0 then 0x4007 else 0)" "swap_mem (cell 0x4000 i) = (if i = 0 then 0x5007 else 0)"
    using eq al by (simp_all add: swap_mem_def)
qed

lemma swap_mem_tab:
  assumes "idxs q" "length q \<le> 3"
  shows "tab swap_mem 0x1000 q = (if q = replicate (length q) 0 then Some (of_nat (0x1000 * Suc (length q))) else None)"
proof -
  have p: "ptr_ok 0x2007" "ptr_ok 0x3007" "ptr_ok 0x4007" "\<not> ptr_ok 0" by (simp_all add: ptr_ok_def)
  consider "q = []" | a where "q = [a]" | a b where "q = [a, b]" | a b c where "q = [a, b, c]"
    using assms(2) by (cases q; cases "tl q"; cases "tl (tl q)") (auto simp: neq_Nil_conv)
  then show ?thesis using assms(1) p by cases (simp_all add: swap_mem_cell)
qed

lemma sample_swap_fields [simp]:
  "pmem sample_swap = swap_mem" "g_disks sample_swap = (\<lambda>_. sample_drive)" "g_swap_disk sample_swap = 0"
  "g_total_slots sample_swap = 100" "g_slot_bitmap sample_swap = (\<lambda>_. 0)" "pm_total_frames (g_pmm sample_swap) = 16"
  by (simp_all add: sample_swap_def)

lemma sample_swap_free: "frame_is_free (pm_bitmap (g_pmm sample_swap)) i \<longleftrightarrow> i \<ge> 6"
proof -
  have "bit (63 :: 8 word) n \<longleftrightarrow> n < 6" for n
    using bit_mask_iff [of 6 n, where 'a = "8 word"] by (auto simp: mask_eq_exp_minus_1)
  then have "frame_is_free (pm_bitmap (g_pmm sample_swap)) i \<longleftrightarrow> \<not> (i div 8 = 0 \<and> i mod 8 < 6)"
    by (simp add: frame_is_free_bit sample_swap_def)
  then show ?thesis by auto
qed

lemma swap_mem_path:
  assumes "idxs q" "length q \<le> 3" "tab swap_mem 0x1000 q = Some t"
  shows "q = replicate (length q) 0" "t = of_nat (0x1000 * Suc (length q))" "page_no t = Suc (length q)"
proof -
  show q: "q = replicate (length q) 0" "t = of_nat (0x1000 * Suc (length q))"
    using assms swap_mem_tab [OF assms(1,2)] by (simp_all split: if_splits)
  have u: "n < 2 ^ 64 \<Longrightarrow> unat (of_nat n :: u64) = n" for n by (simp add: unat_of_nat)
  have "unat t = 0x1000 * Suc (length q)" unfolding q(2) by (rule u) (use assms(2) in simp)
  then show "page_no t = Suc (length q)" by (simp add: page_no_def)
qed

lemma sample_swap_leaf: "leaf_cell {0x1000} sample_swap c \<longleftrightarrow> (\<exists>i < 512. c = cell 0x4000 i)"
proof -
  have "tab swap_mem 0x1000 [0, 0, 0] = Some 0x4000" using swap_mem_tab [of "[0, 0, 0]"] by simp
  moreover have "t = 0x4000" if "idxs q" "length q = 3" "tab swap_mem 0x1000 q = Some t" for q t
    using swap_mem_path(2) [of q t] that by simp
  ultimately show ?thesis
    unfolding leaf_cell_def by (auto intro!: exI [of _ "[0, 0, 0]"])
qed

lemma sample_swap_table: "table_page sample_swap {0x1000} a \<longleftrightarrow> page_no a \<in> {1..4}"
proof
  assume "table_page sample_swap {0x1000} a"
  then show "page_no a \<in> {1..4}" using swap_mem_path(3) by (fastforce simp: table_page_def)
next
  assume a: "page_no a \<in> {1..4}"
  define q :: "nat list" where "q = replicate (page_no a - 1) 0"
  have q: "idxs q" "length q \<le> 3" "q = replicate (length q) 0" "Suc (length q) = page_no a" using a by (auto simp: q_def idxs_def)
  obtain t where t: "tab swap_mem 0x1000 q = Some t" using swap_mem_tab [OF q(1,2)] q(3) by auto
  then have "page_no t = page_no a" using swap_mem_path(3) [OF q(1,2) t] q(4) by simp
  then show "table_page sample_swap {0x1000} a" using q t by (auto simp: table_page_def)
qed

lemma sample_swap_spaces: "spaces_ok sample_swap {0x1000}"
proof -
  have 1: "t \<noteq> 0 \<and> busy sample_swap t" if "idxs q" "length q \<le> 3" "tab swap_mem 0x1000 q = Some t" for q t
    using swap_mem_path(3) [OF that] that(2) by (auto simp: busy_def sample_swap_free page_no_def)
  have 2: "p = q" if "idxs p" "length p \<le> 3" "tab swap_mem 0x1000 p = Some t" "idxs q" "length q \<le> 3" "tab swap_mem 0x1000 q = Some t" for p q t
    using swap_mem_path [OF that(1-3)] swap_mem_path [OF that(4-6)] by (metis Suc_inject)
  show ?thesis unfolding spaces_ok_def using 1 2 by (auto simp: aligned_def)
qed

lemma sample_swap_inv: "swap_inv {0x1000} sample_swap"
proof -
  have "swap_disk_ok sample_swap"
    unfolding swap_disk_ok_def by (rule exI [of _ 0]) (simp add: ata_ready_def sample_drive_def)
  moreover have "frames_ok {0x1000} sample_swap"
    unfolding frames_ok_def sample_swap_leaf sample_swap_table
    by (auto simp: swap_mem_cell busy_def sample_swap_free page_no_def split: if_splits)
  moreover have "slots_used_ok {0x1000} sample_swap"
    unfolding slots_used_ok_def sample_swap_leaf by (auto simp: swap_mem_cell swapped_def split: if_splits)
  ultimately show ?thesis using sample_swap_spaces by (simp add: swap_inv_def)
qed

lemma sample_swap_page:
  "small sample_swap 0x1000 v" "room sample_swap 10" "space sample_swap 0x1000 0 = Some (0, 0x5007)"
  "page_content sample_swap 0x1000 0 = Some (frame_words swap_mem 0x5000)"
proof -
  have "swap_mem (cell t i) AND PTE_PS = 0" for t i by (simp add: swap_mem_def)
  then show "small sample_swap 0x1000 v" by (simp add: small_def)
  have "free_frames (g_pmm sample_swap) = {6..<16}" by (auto simp: free_frames_def sample_swap_free)
  then show "room sample_swap 10" by (simp add: room_def)
  have v: "vpath 0 = [0, 0, 0, 0]" by (simp add: vpath_def idx_def)
  show "space sample_swap 0x1000 0 = Some (0, 0x5007)"
    by (simp add: space_def v swap_mem_cell ptr_ok_def leaf_def)
  show "page_content sample_swap 0x1000 0 = Some (frame_words swap_mem 0x5000)"
    by (simp add: page_content_def v swap_mem_cell ptr_ok_def content_def idx_def)
qed

theorem swap_transparent_witness:
  "page_content (fold run_swap_op [Evict 0x1000 0, Fault 0x1000 0x123, Evict 0x1000 0x456] sample_swap) 0x1000 0 =
     Some (frame_words swap_mem 0x5000)"
  using swap_transparent [of "{0x1000}" sample_swap "[Evict 0x1000 0, Fault 0x1000 0x123, Evict 0x1000 0x456]"]
  by (simp add: sample_swap_inv sample_swap_page)

theorem swap_roundtrip_witness:
  "\<exists>k s1 s2. swap_out_page sample_swap 0x1000 0 = (k, s1) \<and> space s1 0x1000 0 = None \<and> swap_fault s1 0x1000 0 = (True, s2) \<and>
     page_content s2 0x1000 0 = Some (frame_words swap_mem 0x5000)"
proof -
  obtain k s1 where out: "swap_out_page sample_swap 0x1000 0 = (k, s1)" by (cases "swap_out_page sample_swap 0x1000 0")
  obtain ok s2 where f: "swap_fault s1 0x1000 0 = (ok, s2)" by (cases "swap_fault s1 0x1000 0")
  note K = swap_out_keeps [OF sample_swap_inv _ sample_swap_page(1) out]
  have "k \<noteq> 0" using K(4) [of 0] sample_swap_page(3) by (simp add: bitmap_test_def)
  moreover have "room s1 1" using K(3) [OF _ sample_swap_page(3) _ sample_swap_page(2)] by (auto simp: page_no_def intro: room_mono)
  ultimately show ?thesis
    using swap_roundtrip [OF sample_swap_inv _ sample_swap_page(1) out _ _ f] out f sample_swap_page(4) by auto
qed

end
