(* ===== verification/Vmm_Fork.thy ===== *)
theory Vmm_Fork
  imports Vmm_Props
begin

text \<open>
  \<^verbatim>\<open>vmm_space_fork\<close>: the child has, for every 4 KiB page of the user half of the parent, a frame of its own with the
  same content, and nothing of the parent changes. The invariant of the four nested loops is \<open>copied\<close>, over the set
  of index paths already visited.
\<close>

section \<open>Addresses from indices\<close>

definition vaddr :: "nat \<Rightarrow> nat \<Rightarrow> nat \<Rightarrow> nat \<Rightarrow> u64" where
  "vaddr i4 i3 i2 i1 = ((push_bit 39 (of_nat i4) OR push_bit 30 (of_nat i3)) OR push_bit 21 (of_nat i2)) OR push_bit 12 (of_nat i1)"

lemma bit_index: "i < 512 \<Longrightarrow> bit (of_nat i :: u64) n \<Longrightarrow> n < 9"
proof (rule ccontr)
  assume i: "i < 512" "bit (of_nat i :: u64) n" "\<not> n < 9"
  have "take_bit 9 (of_nat i :: u64) = of_nat i" using i(1) by (simp add: word_unat_eq_iff take_bit_eq_mod unat_mod unat_of_nat)
  then have "bit (take_bit 9 (of_nat i :: u64)) n" using i(2) by simp
  then show False using i(3) by (simp add: bit_take_bit_iff)
qed

lemma index_field:
  assumes "i < 512"
  shows "n \<le> 55 \<Longrightarrow> drop_bit n (push_bit n (of_nat i :: u64)) AND mask 9 = of_nat i"
    and "n + 9 \<le> k \<Longrightarrow> drop_bit n (push_bit k (of_nat i :: u64)) AND mask 9 = 0"
    and "k + 9 \<le> n \<Longrightarrow> drop_bit n (push_bit k (of_nat i :: u64)) AND mask 9 = 0"
    and "n \<le> k \<Longrightarrow> push_bit k (of_nat i :: u64) AND mask n = 0"
  by (rule bit_word_eqI; use bit_index [OF assms] in \<open>force simp: bit_simps\<close>)+

lemma idx_vaddr:
  assumes "i4 < 512" "i3 < 512" "i2 < 512" "i1 < 512"
  shows "vpath (vaddr i4 i3 i2 i1) = [i4, i3, i2, i1]" "vaddr i4 i3 i2 i1 AND 0xFFF = 0"
proof -
  have m: "(0x1FF :: u64) = mask 9" "(0xFFF :: u64) = mask 12" by (simp_all add: mask_eq_exp_minus_1)
  have u: "unat (of_nat i :: u64) = i" if "i < 512" for i using that by (simp add: unat_of_nat)
  show "vpath (vaddr i4 i3 i2 i1) = [i4, i3, i2, i1]" "vaddr i4 i3 i2 i1 AND 0xFFF = 0"
    unfolding vpath_def idx_def m vaddr_def using assms
    by (simp_all add: word_ao_dist index_field u del: drop_bit_push_bit)
qed


section \<open>Steps that keep every other space\<close>

definition keeps :: "u64 set \<Rightarrow> u64 \<Rightarrow> 'a vmm_scheme \<Rightarrow> 'b vmm_scheme \<Rightarrow> bool" where
  "keeps R c s s' \<longleftrightarrow> spaces_ok s' (insert c R) \<and> same_mmu s s' R \<and> (\<forall>a. busy s a \<longrightarrow> busy s' a) \<and>
     (\<forall>r \<in> insert c R. \<forall>q t. idxs q \<longrightarrow> length q \<le> 3 \<longrightarrow> tab (pmem s) r q = Some t \<longrightarrow> tab (pmem s') r q = Some t) \<and>
     (\<forall>a. busy s a \<longrightarrow> \<not> table_page s (insert c R) a \<longrightarrow> \<not> table_page s' (insert c R) a \<and> pmem s' a = pmem s a)"

lemma keepsD:
  assumes "keeps R c s s'"
  shows "spaces_ok s' (insert c R)" "same_mmu s s' R" "busy s a \<Longrightarrow> busy s' a"
    "r \<in> insert c R \<Longrightarrow> idxs q \<Longrightarrow> length q \<le> 3 \<Longrightarrow> tab (pmem s) r q = Some t \<Longrightarrow> tab (pmem s') r q = Some t"
    "busy s a \<Longrightarrow> \<not> table_page s (insert c R) a \<Longrightarrow> \<not> table_page s' (insert c R) a \<and> pmem s' a = pmem s a"
  using assms unfolding keeps_def by blast+

lemma keeps_extends: "extends s s' (insert c R) \<Longrightarrow> keeps R c s s'"
  unfolding keeps_def using extendsD [of s s' "insert c R"] by (auto simp: same_mmu_def)

lemma keeps_refl: "spaces_ok s (insert c R) \<Longrightarrow> keeps R c s s"
  by (simp add: keeps_extends extends_refl)

lemma keeps_trans:
  assumes "keeps R c s s1" "keeps R c s1 s2"
  shows "keeps R c s s2"
proof -
  note 1 = keepsD [OF assms(1)] and 2 = keepsD [OF assms(2)]
  show ?thesis
    unfolding keeps_def using 2(1) same_mmu_trans [OF 1(2) 2(2)]
    by (auto intro: 2(3,4) 1(3,4) dest: 1(5) 2(5) simp: 1(3,5) 2(5))
qed

definition user_path :: "nat list \<Rightarrow> bool" where
  "user_path q \<longleftrightarrow> idxs q \<and> length q = 4 \<and> hd q < 256"

text \<open>No large pages in the user half of the child.\<close>

definition child_small :: "u64 \<Rightarrow> 'a vmm_scheme \<Rightarrow> bool" where
  "child_small c s \<longleftrightarrow> (\<forall>q i t. idxs q \<longrightarrow> i < 512 \<longrightarrow> hd (q @ [i]) < 256 \<longrightarrow> length q \<le> 2 \<longrightarrow> tab (pmem s) c q = Some t \<longrightarrow>
     pmem s (cell t i) AND PTE_PS = 0)"

lemma child_small_extends: "child_small c s \<Longrightarrow> extends s s' R \<Longrightarrow> c \<in> R \<Longrightarrow> child_small c s'"
  unfolding child_small_def using extendsD(7) [of s s' R c] by blast

lemma child_small_path: "child_small c s \<Longrightarrow> user_path (vpath v) \<Longrightarrow> small s c v"
  unfolding small_def
proof (intro allI impI)
  fix q i w t
  assume s: "child_small c s" "user_path (vpath v)" and q: "take 3 (vpath v) = q @ i # w" "tab (pmem s) c q = Some t"
  have "idxs (q @ i # w)" "length (q @ i # w) = 3" using idxs_take_vpath unfolding q(1) [symmetric] by blast+
  moreover have "hd (q @ [i]) = hd (vpath v)" using q(1) by (cases q) (auto simp: vpath_def)
  ultimately show "pmem s (cell t i) AND PTE_PS = 0" using s q(2) by (auto simp: child_small_def user_path_def)
qed

text \<open>Mapping a page in the user half of the child.\<close>

lemma map_child:
  assumes ok: "spaces_ok s (insert c R)" and c: "c \<notin> R" "child_small c s" and v: "user_path (vpath v)"
    and m: "vmm_map_page_in s c v phys flags = (rc, s')"
  shows "keeps R c s s' \<and> child_small c s' \<and>
    (rc = 0 \<longrightarrow> (\<forall>q. idxs q \<and> length q = 4 \<longrightarrow> mmu (pmem s') c q = (if q = vpath v then Some (0, (phys AND PTE_ADDR_MASK) OR flags OR VMM_PRESENT) else mmu (pmem s) c q))) \<and>
    (v AND 0xFFF = 0 \<longrightarrow> phys AND 0xFFF = 0 \<longrightarrow> (\<forall>n. room s (3 + n) \<longrightarrow> rc = 0 \<and> room s' n))"
proof (cases rule: map_page_in_spec [OF ok _ child_small_path [OF c(2) v] m, simplified])
  case 1
  then show ?thesis using keeps_extends child_small_extends [OF c(2) _ insertI1] room_mono [of s _ 3] by fastforce
next
  case (2 s1 pt)
  note ok1 = extendsD(1) [OF 2(2)]
  note L = leaf_store [OF ok1 insertI1 idxs_take_vpath 2(3) idx_less [of 12 v], where e = "(phys AND PTE_ADDR_MASK) OR flags OR VMM_PRESENT", folded 2(4)]
  have u: "tab (pmem s1) r (take 3 (vpath v)) \<noteq> Some pt" if "r \<in> R" for r
    using spaces_okD(4) [OF ok1, of r c "take 3 (vpath v)" "take 3 (vpath v)" pt] that c(1) v 2(3)
    by (auto simp: kernel_path_def user_path_def vpath_def)
  have "keeps R c s1 s'"
    unfolding keeps_def same_mmu_def using L u by (auto simp: busy_def 2(4) store_def)
  then have k: "keeps R c s s'" by (rule keeps_trans [OF keeps_extends [OF 2(2)]])
  have "child_small c s'"
    unfolding child_small_def
  proof (intro allI impI)
    fix q i t assume q: "idxs q" "i < 512" "hd (q @ [i]) < 256" "length q \<le> 2" "tab (pmem s') c q = Some t"
    have t: "tab (pmem s1) c q = Some t" using L(3) [of c q] q by simp
    have "t \<noteq> pt" using spaces_okD(4) [OF ok1, of c c q "take 3 (vpath v)" t] t q 2(3) by auto
    moreover have "aligned t" "aligned pt"
      using spaces_okD(3) [OF ok1 insertI1, of q t] spaces_okD(3) [OF ok1 insertI1, of "take 3 (vpath v)" pt] t q 2(3) by auto
    ultimately have "pmem s' (cell t i) = pmem s1 (cell t i)" using cell_eq_iff [of t pt i "idx 12 v"] q(2) by (simp add: 2(4) store_def)
    then show "pmem s' (cell t i) AND PTE_PS = 0"
      using child_small_extends [OF c(2) 2(2) insertI1] q t by (simp add: child_small_def)
  qed
  moreover have "room s' n" if "room s (3 + n)" for n
  proof -
    have "3 + n = Suc (Suc (Suc n))" by simp
    then have "room s (Suc (Suc (Suc n)))" using that by (simp only:)
    then show ?thesis using 2(7) [of n] unfolding 2(4) by simp
  qed
  ultimately show ?thesis
    using k L(2) [of c] 2(1,3) extendsD(2) [OF 2(2)] vpath_split [of v] by (simp add: same_mmu_def)
qed


section \<open>Copied pages\<close>

text \<open>A frame of the child: not in use before, in use now and not a table.\<close>

definition private_frame :: "u64 set \<Rightarrow> 'a vmm_scheme \<Rightarrow> 'b vmm_scheme \<Rightarrow> u64 \<Rightarrow> bool" where
  "private_frame R s0 s f \<longleftrightarrow> aligned f \<and> f AND PTE_ADDR_MASK = f \<and> \<not> busy s0 f \<and> busy s f \<and> \<not> table_page s R f"

definition page_copied :: "u64 set \<Rightarrow> u64 \<Rightarrow> u64 \<Rightarrow> 'a vmm_scheme \<Rightarrow> 'b vmm_scheme \<Rightarrow> nat list \<Rightarrow> bool" where
  "page_copied R src c s0 s q \<longleftrightarrow>
     (case mmu (pmem s0) src q of
        Some (0, e) \<Rightarrow> (\<exists>f. mmu (pmem s) c q = Some (0, f OR (e AND 0xFFF) OR VMM_PRESENT) \<and> private_frame (insert c R) s0 s f \<and>
          (\<forall>j < 512. pmem s (cell f j) = pmem s0 (cell (e AND PTE_ADDR_MASK) j)))
      | _ \<Rightarrow> mmu (pmem s) c q = None)"

lemma private_keeps: "private_frame (insert c R) s0 s f \<Longrightarrow> keeps R c s s' \<Longrightarrow> private_frame (insert c R) s0 s' f"
  using keepsD(3,5) [of R c s s' f] by (simp add: private_frame_def)

lemma frame_content:
  assumes "keeps R c s s'" "busy s f" "\<not> table_page s (insert c R) f" "aligned f" "j < 512"
  shows "pmem s' (cell f j) = pmem s (cell f j)"
proof -
  have "busy s (cell f j)" "\<not> table_page s (insert c R) (cell f j)"
    using assms(2-5) by (simp_all add: busy_def table_page_def)
  then show ?thesis using keepsD(5) [OF assms(1)] by simp
qed

lemma page_copied_keeps:
  assumes "page_copied R src c s0 s q" "keeps R c s s'" "mmu (pmem s') c q = mmu (pmem s) c q"
  shows "page_copied R src c s0 s' q"
proof -
  have "private_frame (insert c R) s0 s' f \<and> (\<forall>j < 512. pmem s' (cell f j) = pmem s (cell f j))"
    if "private_frame (insert c R) s0 s f" for f
    using private_keeps [OF that assms(2)] frame_content [OF assms(2)] that by (simp add: private_frame_def)
  then show ?thesis using assms(1,3) by (fastforce simp: page_copied_def split: option.splits prod.splits nat.splits)
qed

lemma copied_entry_frame: "f AND PTE_ADDR_MASK = f \<Longrightarrow> (f OR (e AND 0xFFF) OR VMM_PRESENT) AND PTE_ADDR_MASK = f"
  by (simp add: word_ao_dist and.assoc)

definition copied :: "u64 set \<Rightarrow> u64 \<Rightarrow> u64 \<Rightarrow> 'a vmm_scheme \<Rightarrow> 'b vmm_scheme \<Rightarrow> nat list set \<Rightarrow> bool" where
  "copied R src c s0 s D \<longleftrightarrow> keeps R c s0 s \<and> child_small c s \<and>
     (\<forall>q. user_path q \<longrightarrow> (if q \<in> D then page_copied R src c s0 s q else mmu (pmem s) c q = None)) \<and>
     (\<forall>q. idxs q \<longrightarrow> length q = 4 \<longrightarrow> \<not> user_path q \<longrightarrow> mmu (pmem s) c q = mmu (pmem s0) c q) \<and>
     (\<forall>q q' x x'. user_path q \<longrightarrow> user_path q' \<longrightarrow> mmu (pmem s) c q = Some (0, x) \<longrightarrow> mmu (pmem s) c q' = Some (0, x') \<longrightarrow>
        x AND PTE_ADDR_MASK = x' AND PTE_ADDR_MASK \<longrightarrow> q = q')"

lemma copiedD:
  assumes "copied R src c s0 s D"
  shows "keeps R c s0 s" "child_small c s" "user_path q \<Longrightarrow> q \<in> D \<Longrightarrow> page_copied R src c s0 s q"
    "user_path q \<Longrightarrow> q \<notin> D \<Longrightarrow> mmu (pmem s) c q = None"
    "idxs q \<Longrightarrow> length q = 4 \<Longrightarrow> \<not> user_path q \<Longrightarrow> mmu (pmem s) c q = mmu (pmem s0) c q"
    "user_path q \<Longrightarrow> user_path q' \<Longrightarrow> mmu (pmem s) c q = Some (0, x) \<Longrightarrow> mmu (pmem s) c q' = Some (0, x') \<Longrightarrow>
       x AND PTE_ADDR_MASK = x' AND PTE_ADDR_MASK \<Longrightarrow> q = q'"
  using assms unfolding copied_def by (blast, blast, metis, metis, blast, blast)

text \<open>A mapped page of the child has a frame that is in use.\<close>

lemma copied_busy:
  assumes "copied R src c s0 s D" "user_path q" "mmu (pmem s) c q = Some (l, x)"
  shows "l = 0 \<and> busy s (x AND PTE_ADDR_MASK)"
proof -
  have "page_copied R src c s0 s q" using copiedD(3,4) [OF assms(1,2)] assms(3) by (cases "q \<in> D") auto
  then show ?thesis
    using assms(3) by (auto simp: page_copied_def private_frame_def copied_entry_frame split: option.splits prod.splits nat.splits)
qed

text \<open>Pages with nothing to copy.\<close>

lemma copied_skip:
  assumes "copied R src c s0 s D" "\<And>q e. q \<in> Q \<Longrightarrow> user_path q \<Longrightarrow> mmu (pmem s0) src q \<noteq> Some (0, e)"
  shows "copied R src c s0 s (D \<union> Q)"
proof -
  have "page_copied R src c s0 s q" if "user_path q" "q \<in> Q" for q
    using copiedD(3,4) [OF assms(1) that(1)] assms(2) [OF that(2,1)]
    by (cases "q \<in> D") (auto simp: page_copied_def split: option.splits prod.splits nat.splits)
  then show ?thesis using assms(1) copiedD(3) [OF assms(1)] unfolding copied_def by auto
qed


section \<open>The loops\<close>

text \<open>What the parent's frames must be: in use and not tables.\<close>

definition data_ok :: "u64 set \<Rightarrow> u64 \<Rightarrow> 'a vmm_scheme \<Rightarrow> bool" where
  "data_ok R src s \<longleftrightarrow> (\<forall>q e. user_path q \<longrightarrow> mmu (pmem s) src q = Some (0, e) \<longrightarrow>
     busy s (e AND PTE_ADDR_MASK) \<and> \<not> table_page s R (e AND PTE_ADDR_MASK))"

lemma copy_frame_content:
  assumes "aligned z" "j < 512"
  shows "pmem (copy_frame z t s) (cell z j) = pmem s (cell t j)"
  using page_no_cell [OF assms] by (simp add: copy_frame_def) (simp add: cell_def)

lemma copy_page:
  assumes C: "copied R src c s0 s D" and c: "c \<notin> R" "src \<in> R" and d: "data_ok (insert c R) src s0"
    and v: "user_path (vpath v)" and e: "mmu (pmem s) src (vpath v) = Some (0, e)"
    and al: "alloc_frame s = (z, s1)" "z \<noteq> 0"
    and m: "vmm_map_page_in (copy_frame z (e AND PTE_ADDR_MASK) s1) c v z (e AND 0xFFF) = (rc, s')"
  shows "keeps R c s s' \<and> (rc = 0 \<longrightarrow> copied R src c s0 s' (insert (vpath v) D)) \<and>
    (v AND 0xFFF = 0 \<longrightarrow> (\<forall>n. room s (4 + n) \<longrightarrow> rc = 0 \<and> room s' n))"
proof -
  define s2 where "s2 = copy_frame z (e AND PTE_ADDR_MASK) s1"
  note k0 = copiedD(1) [OF C]
  note ok = keepsD(1) [OF k0]
  note a = alloc_frame_spec [OF al(1) spaces_ok_total [OF ok]]
  have z: "aligned z" "z AND PTE_ADDR_MASK = z" "\<not> busy s z" "busy s1 z" using a(7) al(2) by simp_all
  have g: "extends s s2 (insert c R)" "\<not> table_page s2 (insert c R) z"
    by (rule extends_page [OF ok z(3)]; simp add: s2_def copy_frame_def a busy_def [of s1, symmetric]; simp add: busy_def a(6) [unfolded busy_def])+
  have bz: "busy s2 z" using z(4) by (simp add: s2_def copy_frame_def busy_def)
  have e0: "mmu (pmem s0) src (vpath v) = Some (0, e)" using e keepsD(2) [OF k0] c(2) v by (simp add: same_mmu_def user_path_def)
  note M = map_child [OF extendsD(1) [OF g(1)] c(1) child_small_extends [OF copiedD(2) [OF C] g(1) insertI1] v m [folded s2_def]]
  have k2: "keeps R c s2 s'" using M by simp
  have k: "keeps R c s s'" by (rule keeps_trans [OF keeps_extends [OF g(1)] k2])
  have k0': "keeps R c s0 s'" by (rule keeps_trans [OF k0 k])
  have "copied R src c s0 s' (insert (vpath v) D)" if "rc = 0"
  proof -
    have N: "mmu (pmem s') c q = (if q = vpath v then Some (0, z OR (e AND 0xFFF) OR VMM_PRESENT) else mmu (pmem s) c q)"
      if "idxs q" "length q = 4" for q using M \<open>rc = 0\<close> extendsD(2) [OF g(1)] z(2) that by (simp add: same_mmu_def)
    have src: "busy s0 (e AND PTE_ADDR_MASK)" "\<not> table_page s0 (insert c R) (e AND PTE_ADDR_MASK)"
      using d v e0 by (auto simp: data_ok_def)
    have "pmem s' (cell z j) = pmem s0 (cell (e AND PTE_ADDR_MASK) j)" if "j < 512" for j
    proof -
      have "pmem s' (cell z j) = pmem s2 (cell z j)" by (rule frame_content [OF k2 bz g(2) z(1) that])
      also have "\<dots> = pmem s (cell (e AND PTE_ADDR_MASK) j)" by (simp add: s2_def copy_frame_content [OF z(1) that] a(1))
      also have "\<dots> = pmem s0 (cell (e AND PTE_ADDR_MASK) j)" by (rule frame_content [OF k0 src aligned_mask that])
      finally show ?thesis .
    qed
    moreover have "private_frame (insert c R) s0 s' z"
      using z keepsD(3) [OF k0, of z] keepsD(3,5) [OF k2, of z] bz g(2) by (auto simp: private_frame_def)
    ultimately have new: "page_copied R src c s0 s' (vpath v)" using e0 N [of "vpath v"] by (auto simp: page_copied_def)
    have old: "page_copied R src c s0 s' q" if "user_path q" "q \<in> D" "q \<noteq> vpath v" for q
      using page_copied_keeps [OF copiedD(3) [OF C that(1,2)] k] N [of q] that by (simp add: user_path_def)
    have fr: "x AND PTE_ADDR_MASK \<noteq> z" if "user_path q" "mmu (pmem s) c q = Some (0, x)" for q x
      using copied_busy [OF C that] z(3) by auto
    have inj: "q = q'" if q: "user_path q" "user_path q'" "mmu (pmem s') c q = Some (0, x)" "mmu (pmem s') c q' = Some (0, x')"
        "x AND PTE_ADDR_MASK = x' AND PTE_ADDR_MASK" for q q' x x'
    proof -
      have n: "idxs q" "length q = 4" "idxs q'" "length q' = 4" using q by (simp_all add: user_path_def)
      show ?thesis
        using q(3-5) fr [OF q(1)] fr [OF q(2)] copiedD(6) [OF C q(1,2)] copied_entry_frame [OF z(2)]
        unfolding N [OF n(1,2)] N [OF n(3,4)] by (auto split: if_splits)
    qed
    have each: "if q \<in> insert (vpath v) D then page_copied R src c s0 s' q else mmu (pmem s') c q = None" if "user_path q" for q
      using N [of q] copiedD(4) [OF C that] that new old [OF that] by (auto simp: user_path_def)
    have kern: "mmu (pmem s') c q = mmu (pmem s0) c q" if "idxs q" "length q = 4" "\<not> user_path q" for q
      using N [OF that(1,2)] copiedD(5) [OF C that] that(3) v by auto
    show ?thesis
      unfolding copied_def using k0' M [THEN conjunct2, THEN conjunct1] each kern inj by blast
  qed
  moreover have "rc = 0 \<and> room s' n" if "v AND 0xFFF = 0" "room s (4 + n)" for n
  proof -
    have "room s1 (3 + n)" using alloc_room [OF al(1) spaces_ok_total [OF ok], of "3 + n"] that(2) by simp
    then have "room s2 (3 + n)" by (simp add: room_def s2_def copy_frame_def)
    then show ?thesis using M that(1) z(1) by (simp add: aligned_and)
  qed
  ultimately show ?thesis using k by blast
qed


lemma keeps_alloc: "spaces_ok s (insert c R) \<Longrightarrow> alloc_frame s = (z, s') \<Longrightarrow> keeps R c s s'"
  by (rule keeps_extends [OF extends_alloc])

lemma copied_alloc: "copied R src c s0 s D \<Longrightarrow> spaces_ok s (insert c R)"
  by (rule keepsD(1) [OF copiedD(1)])

lemma copied_src_mmu: "copied R src c s0 s D \<Longrightarrow> src \<in> R \<Longrightarrow> user_path q \<Longrightarrow> mmu (pmem s) src q = mmu (pmem s0) src q"
  using keepsD(2) [OF copiedD(1)] by (fastforce simp: same_mmu_def user_path_def)

text \<open>The pages there are to copy.\<close>

definition user_pages :: "'a vmm_scheme \<Rightarrow> u64 \<Rightarrow> nat list set" where
  "user_pages s src = {q. user_path q \<and> (\<exists>e. mmu (pmem s) src q = Some (0, e))}"

lemma finite_user_pages: "finite (user_pages s src \<inter> X)"
proof -
  have "user_pages s src \<inter> X \<subseteq> {q. set q \<subseteq> {..<512} \<and> length q = 4}"
    by (auto simp: user_pages_def user_path_def idxs_def)
  then show ?thesis by (rule finite_subset) (simp add: finite_lists_length_eq)
qed

lemma fork_pt_copies:
  assumes c: "c \<notin> R" "src \<in> R" "data_ok (insert c R) src s0" and i: "i4 < 256" "i3 < 512" "i2 < 512"
    and hi: "hi = (push_bit 39 (of_nat i4) OR push_bit 30 (of_nat i3)) OR push_bit 21 (of_nat i2)"
  shows "copied R src c s0 s D \<Longrightarrow> tab (pmem s) src [i4, i3, i2] = Some pt \<Longrightarrow> set xs \<subseteq> {..<512} \<Longrightarrow>
    fork_pt s c pt hi xs = (ok, s') \<Longrightarrow> distinct xs \<Longrightarrow> keeps R c s s' \<and> (ok \<longrightarrow> copied R src c s0 s' (D \<union> {[i4, i3, i2, i1] | i1. i1 \<in> set xs})) \<and>
    (\<forall>n. room s (4 * card (user_pages s0 src \<inter> {[i4, i3, i2, i1] | i1. i1 \<in> set xs}) + n) \<longrightarrow> ok \<and> room s' n)"
proof (induction xs arbitrary: s D)
  case Nil
  then show ?case using keeps_refl [OF copied_alloc [OF Nil.prems(1)]] by (simp del: tab.simps)
next
  case (Cons j xs)
  let ?q = "[i4, i3, i2, j]" and ?e = "pmem s (cell pt j)"
  let ?P = "\<lambda>xs. user_pages s0 src \<inter> {[i4, i3, i2, i1] | i1. i1 \<in> set xs}"
  have q: "user_path ?q" "vpath (hi OR push_bit 12 (of_nat j)) = ?q" "(hi OR push_bit 12 (of_nat j)) AND 0xFFF = 0"
    using i Cons.prems(3) idx_vaddr [of i4 i3 i2 j] by (simp_all add: user_path_def hi vaddr_def)
  have e: "mmu (pmem s) src ?q = leaf ?e" using mmu_append [OF Cons.prems(2), of "[j]"] by (simp add: leaf_def)
  have D: "insert ?q D \<union> {[i4, i3, i2, i1] | i1. i1 \<in> set xs} = D \<union> {[i4, i3, i2, i1] | i1. i1 \<in> set (j # xs)}" by auto
  note ok = copied_alloc [OF Cons.prems(1)]
  have e0: "mmu (pmem s0) src ?q = leaf ?e" using e copied_src_mmu [OF Cons.prems(1) c(2) q(1)] by simp
  have d: "distinct xs" "j \<notin> set xs" using Cons.prems(5) by simp_all
  show ?case
  proof (cases "?e AND VMM_PRESENT = 0")
    case True
    then have n: "mmu (pmem s0) src ?q = None" using e0 by (simp add: leaf_def)
    then have "copied R src c s0 s (D \<union> {?q})" by (intro copied_skip [OF Cons.prems(1)]) auto
    moreover have "?P (j # xs) = ?P xs" using n by (auto simp: user_pages_def)
    ultimately show ?thesis using Cons.IH [of s "insert ?q D"] Cons.prems True d(1) unfolding D by simp
  next
    case False
    then have "?P (j # xs) = insert ?q (?P xs)" using e0 q(1) by (auto simp: user_pages_def leaf_def)
    moreover have "?q \<notin> ?P xs" using d(2) by auto
    ultimately have card: "card (?P (j # xs)) = Suc (card (?P xs))" by (simp add: finite_user_pages)
    obtain z s1 where al: "alloc_frame s = (z, s1)" by (cases "alloc_frame s")
    show ?thesis
    proof (cases "z = 0")
      case True
      then have "\<not> room s (4 * card (?P (j # xs)) + n)" for n
        using alloc_room [OF al spaces_ok_total [OF ok], of "3 + 4 * card (?P xs) + n"] card by (auto simp: add.assoc)
      then show ?thesis using keeps_alloc [OF ok al] al True False Cons.prems(4) by simp
    next
      case z: False
      obtain rc s2 where m: "vmm_map_page_in (copy_frame z (?e AND PTE_ADDR_MASK) s1) c (hi OR push_bit 12 (of_nat j)) z (?e AND 0xFFF) = (rc, s2)"
        by (cases "vmm_map_page_in (copy_frame z (?e AND PTE_ADDR_MASK) s1) c (hi OR push_bit 12 (of_nat j)) z (?e AND 0xFFF)")
      have P: "keeps R c s s2 \<and> (rc = 0 \<longrightarrow> copied R src c s0 s2 (insert ?q D)) \<and> (\<forall>n. room s (4 + n) \<longrightarrow> rc = 0 \<and> room s2 n)"
        using copy_page [OF Cons.prems(1) c _ _ al z m] q e False by (simp add: leaf_def)
      then have rm: "room s (4 * card (?P (j # xs)) + n) \<Longrightarrow> rc = 0 \<and> room s2 (4 * card (?P xs) + n)" for n
        unfolding card by (simp add: add.assoc)
      have t: "tab (pmem s2) src [i4, i3, i2] = Some pt"
        using keepsD(4) [OF P [THEN conjunct1], of src "[i4, i3, i2]" pt] c(2) i Cons.prems(2) by (simp del: tab.simps)
      show ?thesis
      proof (cases "rc = 0")
        case True
        note I = Cons.IH [OF _ t, of "insert ?q D", unfolded D]
        have "keeps R c s2 s' \<and> (ok \<longrightarrow> copied R src c s0 s' (D \<union> {[i4, i3, i2, i1] | i1. i1 \<in> set (j # xs)})) \<and>
            (\<forall>n. room s2 (4 * card (?P xs) + n) \<longrightarrow> ok \<and> room s' n)"
          using I P True Cons.prems(3,4) False al z m d(1) by simp
        then show ?thesis using P rm keeps_trans by blast
      next
        case rc: False
        then have "\<not> ok" "s' = s2" using Cons.prems(4) False al z m by simp_all
        then show ?thesis using P rc rm by blast
      qed
    qed
  qed
qed


text \<open>The three outer loops have the same shape: skip the entry, or run the inner loop on the table it points to.\<close>

definition below :: "nat list \<Rightarrow> nat list set" where
  "below p = {q. user_path q \<and> prefix p q}"

definition cover :: "nat list \<Rightarrow> nat list \<Rightarrow> nat list set" where
  "cover p xs = (\<Union>j \<in> set xs. below (p @ [j]))"

lemma cover_simps [simp]: "cover p [] = {}" "cover p (j # xs) = below (p @ [j]) \<union> cover p xs"
  by (simp_all add: cover_def)

lemma cover_all: "length p < 4 \<Longrightarrow> cover p [0..<512] = below p"
proof (intro equalityI subsetI)
  fix q assume "q \<in> cover p [0..<512]"
  then show "q \<in> below p" unfolding cover_def below_def by (blast dest: append_prefixD)
next
  fix q assume l: "length p < 4" and q: "q \<in> below p"
  then obtain w where w: "q = p @ w" "user_path q" by (auto simp: below_def prefix_def)
  then have "w \<noteq> []" using l by (auto simp: user_path_def)
  then obtain j w' where "w = j # w'" "j < 512" using w by (cases w) (auto simp: user_path_def)
  then show "q \<in> cover p [0..<512]" using w unfolding cover_def set_upt by (auto simp: below_def prefix_def)
qed

lemma pages_below:
  assumes "j \<notin> set xs"
  shows "card (user_pages s src \<inter> cover p (j # xs)) = card (user_pages s src \<inter> below (p @ [j])) + card (user_pages s src \<inter> cover p xs)"
proof -
  have "(user_pages s src \<inter> below (p @ [j])) \<inter> (user_pages s src \<inter> cover p xs) = {}"
    using assms by (auto simp: cover_def below_def prefix_def)
  then show ?thesis by (simp add: Int_Un_distrib card_Un_disjoint finite_user_pages)
qed

lemma skip_pages:
  assumes C: "copied R src c s0 s D" and c: "src \<in> R" and t: "tab (pmem s) src p = Some t" and l: "length p < 3"
    and e: "table_skip (pmem s (cell t j))" and q: "q \<in> below (p @ [j])"
  shows "mmu (pmem s0) src q \<noteq> Some (0, e')"
proof -
  obtain w where w: "q = p @ j # w" "w \<noteq> []" "user_path q" using q l by (fastforce simp: below_def prefix_def user_path_def)
  have "mmu (pmem s) src q = mmu (pmem s) t (j # w)" using w mmu_append [OF t] by simp
  then have "mmu (pmem s) src q \<noteq> Some (0, e')" using e w(2) by (auto simp: mmu_step table_skip_def split: if_splits)
  then show ?thesis using copied_src_mmu [OF C c w(3)] by simp
qed

definition copies :: "u64 set \<Rightarrow> u64 \<Rightarrow> u64 \<Rightarrow> 'a vmm_scheme \<Rightarrow> 'b vmm_scheme \<Rightarrow> nat list set \<Rightarrow> nat list set \<Rightarrow> bool \<Rightarrow> 'b vmm_scheme \<Rightarrow> bool" where
  "copies R src c s0 s D X ok s' \<longleftrightarrow> keeps R c s s' \<and> (ok \<longrightarrow> copied R src c s0 s' (D \<union> X)) \<and>
     (\<forall>n. room s (4 * card (user_pages s0 src \<inter> X) + n) \<longrightarrow> ok \<and> room s' n)"

lemma loop_copies:
  assumes c: "src \<in> R" and p: "length p < 3" "idxs p" and N: "N \<le> 512"
    and nil: "\<And>s. loop s [] = (True, s)"
    and cons: "\<And>s j xs. loop s (j # xs) = (if table_skip (pmem s (cell t j)) then loop s xs
      else case inner s j (pmem s (cell t j)) of (ok, s1) \<Rightarrow> if ok then loop s1 xs else (False, s1))"
    and inner: "\<And>s D j u ok s'. copied R src c s0 s D \<Longrightarrow> j < N \<Longrightarrow> tab (pmem s) src (p @ [j]) = Some (u AND PTE_ADDR_MASK) \<Longrightarrow>
      inner s j u = (ok, s') \<Longrightarrow> copies R src c s0 s D (below (p @ [j])) ok s'"
  shows "copied R src c s0 s D \<Longrightarrow> tab (pmem s) src p = Some t \<Longrightarrow> set xs \<subseteq> {..<N} \<Longrightarrow> distinct xs \<Longrightarrow> loop s xs = (ok, s') \<Longrightarrow>
    copies R src c s0 s D (cover p xs) ok s'"
proof (induction xs arbitrary: s D)
  case Nil
  then show ?case using nil keeps_refl [OF copied_alloc [OF Nil.prems(1)]] by (simp add: copies_def)
next
  case (Cons j xs)
  have D: "(D \<union> below (p @ [j])) \<union> cover p xs = D \<union> cover p (j # xs)" by auto
  let ?e = "pmem s (cell t j)"
  note card = pages_below [of j xs s0 src p]
  show ?case
  proof (cases "table_skip ?e")
    case True
    note sk = skip_pages [OF Cons.prems(1) c Cons.prems(2) p(1) True]
    have S: "copied R src c s0 s (D \<union> below (p @ [j]))" by (rule copied_skip [OF Cons.prems(1)]) (rule sk)
    have "user_pages s0 src \<inter> below (p @ [j]) = {}" using sk by (auto simp: user_pages_def)
    then have k: "card (user_pages s0 src \<inter> cover p (j # xs)) = card (user_pages s0 src \<inter> cover p xs)" using card Cons.prems(4) by simp
    have "copies R src c s0 s (D \<union> below (p @ [j])) (cover p xs) ok s'"
      using Cons.IH [OF S Cons.prems(2)] Cons.prems(3-5) True by (simp add: cons)
    then show ?thesis unfolding copies_def D k .
  next
    case False
    obtain ok1 s1 where i: "inner s j ?e = (ok1, s1)" by (cases "inner s j ?e")
    have "tab (pmem s) src (p @ [j]) = Some (?e AND PTE_ADDR_MASK)"
      using False Cons.prems(2) by (simp add: tab_append table_skip_def ptr_ok_def)
    then have I: "copies R src c s0 s D (below (p @ [j])) ok1 s1"
      using inner [OF Cons.prems(1) _ _ i] Cons.prems(3) by simp
    note I' = I [unfolded copies_def]
    have t: "tab (pmem s1) src p = Some t"
      using keepsD(4) [OF I' [THEN conjunct1], of src p t] c p Cons.prems(2) by simp
    have rm: "room s (4 * card (user_pages s0 src \<inter> cover p (j # xs)) + n) \<Longrightarrow> ok1 \<and> room s1 (4 * card (user_pages s0 src \<inter> cover p xs) + n)" for n
      using I' card Cons.prems(4) by (simp add: add.assoc)
    show ?thesis
    proof (cases ok1)
      case True
      then have "copies R src c s0 s1 (D \<union> below (p @ [j])) (cover p xs) ok s'"
        using Cons.IH [OF _ t, of "D \<union> below (p @ [j])"] I' Cons.prems(3-5) i False by (simp add: cons)
      then show ?thesis unfolding copies_def D using I' rm keeps_trans by blast
    next
      case F: False
      then have "\<not> ok" "s' = s1" using Cons.prems(5) i False by (simp_all add: cons)
      then show ?thesis unfolding copies_def using I' F rm by blast
    qed
  qed
qed

lemma below_pt:
  assumes "i4 < 256" "i3 < 512" "i2 < 512"
  shows "{[i4, i3, i2, i1] | i1. i1 \<in> set [0..<512]} = below [i4, i3, i2]"
proof -
  have "user_path q \<and> prefix [i4, i3, i2] q \<longleftrightarrow> (\<exists>i1. q = [i4, i3, i2, i1] \<and> i1 < 512)" for q
    using assms by (auto simp: user_path_def prefix_def length_Suc_conv numeral_eq_Suc)
  then show ?thesis unfolding below_def set_upt by auto
qed

lemma upt_512: "set [0..<512] \<subseteq> {..<512 :: nat}" "set [0..<256] \<subseteq> {..<256 :: nat}"
  unfolding set_upt by auto

lemma fork_pd_copies:
  assumes c: "c \<notin> R" "src \<in> R" "data_ok (insert c R) src s0" and i: "i4 < 256" "i3 < 512"
    and hi: "hi = push_bit 39 (of_nat i4) OR push_bit 30 (of_nat i3)"
    and C: "copied R src c s0 s D" "tab (pmem s) src [i4, i3] = Some pd" "fork_pd s c pd hi [0..<512] = (ok, s')"
  shows "copies R src c s0 s D (below [i4, i3]) ok s'"
proof -
  have "copies R src c s0 s D (cover [i4, i3] [0..<512]) ok s'"
  proof (rule loop_copies [where inner = "\<lambda>s j u. fork_pt s c (u AND PTE_ADDR_MASK) (hi OR push_bit 21 (of_nat j)) [0..<512]" and loop = "\<lambda>s. fork_pd s c pd hi" and t = pd and N = 512, OF c(2) _ _ _ _ _ _ C(1,2) upt_512(1) distinct_upt C(3)])
    fix s D j u ok s'
    assume a: "copied R src c s0 s D" "j < 512" "tab (pmem s) src ([i4, i3] @ [j]) = Some (u AND PTE_ADDR_MASK)" 
      "fork_pt s c (u AND PTE_ADDR_MASK) (hi OR push_bit 21 (of_nat j)) [0..<512] = (ok, s')"
    show "copies R src c s0 s D (below ([i4, i3] @ [j])) ok s'"
      using fork_pt_copies [OF c i a(2), of "hi OR push_bit 21 (of_nat j)" s D "u AND PTE_ADDR_MASK" "[0..<512]" ok s'] a upt_512(1)
      unfolding below_pt [OF i a(2)] hi copies_def by (simp del: tab.simps upt_rec_numeral)
  qed (use i in \<open>auto simp: Let_def simp del: upt_rec_numeral\<close>)
  then show ?thesis using cover_all [of "[i4, i3]"] by simp
qed


lemma fork_pdpt_copies:
  assumes c: "c \<notin> R" "src \<in> R" "data_ok (insert c R) src s0" and i: "i4 < 256" and hi: "hi = push_bit 39 (of_nat i4)"
    and C: "copied R src c s0 s D" "tab (pmem s) src [i4] = Some pdpt" "fork_pdpt s c pdpt hi [0..<512] = (ok, s')"
  shows "copies R src c s0 s D (below [i4]) ok s'"
proof -
  have "copies R src c s0 s D (cover [i4] [0..<512]) ok s'"
  proof (rule loop_copies [where inner = "\<lambda>s j u. fork_pd s c (u AND PTE_ADDR_MASK) (hi OR push_bit 30 (of_nat j)) [0..<512]"
        and loop = "\<lambda>s. fork_pdpt s c pdpt hi" and t = pdpt and N = 512, OF c(2) _ _ _ _ _ _ C(1,2) upt_512(1) distinct_upt C(3)])
    fix s D j u ok s'
    assume a: "copied R src c s0 s D" "j < 512" "tab (pmem s) src ([i4] @ [j]) = Some (u AND PTE_ADDR_MASK)"
      "fork_pd s c (u AND PTE_ADDR_MASK) (hi OR push_bit 30 (of_nat j)) [0..<512] = (ok, s')"
    show "copies R src c s0 s D (below ([i4] @ [j])) ok s'"
      using fork_pd_copies [OF c i a(2) _ a(1) _ a(4)] a(3) by (simp add: hi del: tab.simps upt_rec_numeral)
  qed (use i in \<open>auto simp: Let_def simp del: upt_rec_numeral\<close>)
  then show ?thesis using cover_all [of "[i4]"] by simp
qed

lemma fork_pml4_copies:
  assumes c: "c \<notin> R" "src \<in> R" "data_ok (insert c R) src s0"
    and C: "copied R src c s0 s D" "fork_pml4 s c src [0..<256] = (ok, s')"
  shows "copies R src c s0 s D (cover [] [0..<256]) ok s'"
proof (rule loop_copies [where inner = "\<lambda>s j u. fork_pdpt s c (u AND PTE_ADDR_MASK) (push_bit 39 (of_nat j)) [0..<512]"
      and loop = "\<lambda>s. fork_pml4 s c src" and t = src and N = 256, OF c(2) _ _ _ _ _ _ C(1) _ upt_512(2) distinct_upt C(2)])
  fix s D j u ok s'
  assume a: "copied R src c s0 s D" "j < 256" "tab (pmem s) src ([] @ [j]) = Some (u AND PTE_ADDR_MASK)"
    "fork_pdpt s c (u AND PTE_ADDR_MASK) (push_bit 39 (of_nat j)) [0..<512] = (ok, s')"
  show "copies R src c s0 s D (below ([] @ [j])) ok s'"
    using fork_pdpt_copies [OF c a(2) refl a(1) _ a(4)] a(3) by (simp del: tab.simps upt_rec_numeral)
qed (auto simp: Let_def simp del: upt_rec_numeral)

lemma cover_top: "user_path q \<Longrightarrow> q \<in> cover [] [0..<256]"
  unfolding cover_def set_upt below_def by (cases q) (auto simp: user_path_def prefix_def)

section \<open>The contract\<close>

text \<open>The family after cloning, as the loops see it.\<close>

lemma clone_family:
  assumes "spaces_ok s R" "g_root_cr3 s \<in> R" "vmm_space_clone s = (c, s1)" "c \<noteq> 0"
  shows "extends s s1 R" "spaces_ok s1 (insert c R)" "c \<notin> R"
    and "idxs q \<Longrightarrow> tab (pmem s1) c q = (if q = [] then Some c else if kernel_path q then tab (pmem s1) (g_root_cr3 s) q else None)"
    and "idxs q \<Longrightarrow> q \<noteq> [] \<Longrightarrow> mmu (pmem s1) c q = (if kernel_path q then mmu (pmem s1) (g_root_cr3 s) q else None)"
    and "busy s a \<Longrightarrow> \<not> table_page s R a \<Longrightarrow> busy s1 a \<and> \<not> table_page s1 (insert c R) a \<and> pmem s1 a = pmem s a"
    and "j < 256 \<Longrightarrow> pmem s1 (cell c j) = 0"
proof -
  note k = clone_spec [OF assms]
  show g: "extends s s1 R" by (rule k(1))
  show "spaces_ok s1 (insert c R)" by (rule clone_ok [OF extendsD(1) [OF k(1)] assms(2) k(5,3,4) assms(4) k(6)])
  show "c \<notin> R" using spaces_okD(3) [OF assms(1), of c "[]" c] k(2) by auto
  note T = clone_walk [of "pmem s1" c "g_root_cr3 s", OF k(6)]
  show t: "tab (pmem s1) c q = (if q = [] then Some c else if kernel_path q then tab (pmem s1) (g_root_cr3 s) q else None)" if "idxs q" for q
    using T(1) that by blast
  show "idxs q \<Longrightarrow> q \<noteq> [] \<Longrightarrow> mmu (pmem s1) c q = (if kernel_path q then mmu (pmem s1) (g_root_cr3 s) q else None)"
    using T(2) by blast
  show "pmem s1 (cell c j) = 0" if "j < 256" using k(6) [of j] that by simp
  show "busy s1 a \<and> \<not> table_page s1 (insert c R) a \<and> pmem s1 a = pmem s a" if a: "busy s a" "\<not> table_page s R a"
  proof -
    note D = extendsD(5,8) [OF g, of a] 
    have "page_no a \<noteq> page_no c" using a(1) k(2) by (auto simp: busy_def)
    moreover have "\<not> table_page s1 R a" using D a by simp
    ultimately have "\<not> table_page s1 (insert c R) a"
      using assms(2) t unfolding table_page_def by (auto split: if_splits)
    then show ?thesis using D a by simp
  qed
qed

lemma clone_copied:
  assumes "spaces_ok s R" "g_root_cr3 s \<in> R" "vmm_space_clone s = (c, s1)" "c \<noteq> 0"
  shows "copied R src c s1 s1 {}" and "data_ok R src s \<Longrightarrow> src \<in> R \<Longrightarrow> data_ok (insert c R) src s1"
proof -
  note F = clone_family [OF assms]
  have no: "mmu (pmem s1) c q = None" if "user_path q" for q
    using F(5) [of q] that by (cases q) (auto simp: user_path_def kernel_path_def)
  have "child_small c s1"
    unfolding child_small_def using F(4,7) by (auto simp: kernel_path_def split: if_splits)
  then show "copied R src c s1 s1 {}" using keeps_refl [OF F(2)] no by (simp add: copied_def)
  show "data_ok (insert c R) src s1" if "data_ok R src s" "src \<in> R"
    using that extendsD(2) [OF F(1)] F(6) by (simp add: data_ok_def same_mmu_def user_path_def)
qed

lemma user_path_vpath: "user_path (vpath v) \<longleftrightarrow> user_half v"
  by (simp add: user_path_def user_half_def) (simp add: vpath_def)

text \<open>A copy seen from the state before the clone.\<close>

lemma page_copied_clone:
  assumes "spaces_ok s R" "g_root_cr3 s \<in> R" "vmm_space_clone s = (c, s1)" "c \<noteq> 0" "data_ok R src s" "src \<in> R"
    and q: "page_copied R src c s1 s' q" "user_path q"
  shows "page_copied R src c s s' q"
proof -
  note F = clone_family [OF assms(1-4)]
  have m: "mmu (pmem s1) src q = mmu (pmem s) src q" using extendsD(2) [OF F(1)] assms(6) q(2) by (simp add: same_mmu_def user_path_def)
  have p: "private_frame (insert c R) s s' f" if "private_frame (insert c R) s1 s' f" for f
    using that extendsD(5) [OF F(1)] by (auto simp: private_frame_def)
  have d: "pmem s1 (cell (e AND PTE_ADDR_MASK) j) = pmem s (cell (e AND PTE_ADDR_MASK) j)" if e: "mmu (pmem s) src q = Some (0, e)" "j < 512" for e j
  proof -
    have "busy s (cell (e AND PTE_ADDR_MASK) j)" "\<not> table_page s R (cell (e AND PTE_ADDR_MASK) j)"
      using assms(5) q(2) e by (auto simp: data_ok_def busy_def table_page_def)
    then show ?thesis using F(6) by simp
  qed
  show ?thesis using q(1) p d unfolding page_copied_def m by (auto split: option.splits prod.splits nat.splits)
qed

lemma clone_room:
  assumes "spaces_ok s R" "vmm_space_clone s = (c, s1)" "room s (Suc n)"
  shows "c \<noteq> 0 \<and> room s1 n"
proof -
  obtain z s2 where al: "alloc_frame s = (z, s2)" by (cases "alloc_frame s")
  have z: "z \<noteq> 0" "room s2 n" using alloc_room [OF al spaces_ok_total [OF assms(1)] assms(3)] by simp_all
  have g: "g_pmm (fold (\<lambda>i s. store (cell y i) (pmem s (cell (g_root_cr3 s) i)) s) xs t) = g_pmm t" for xs y and t :: "'a vmm_scheme"
    by (induction xs arbitrary: t) (simp_all add: store_def)
  have "c = z" "g_pmm s1 = g_pmm s2"
    using assms(2) z(1) unfolding vmm_space_clone_def al by (auto simp: g zero_frame_def simp del: upt_rec_numeral)
  then show ?thesis using z by (simp add: room_def)
qed

text \<open>A page mapped in the kernel half after a space was cloned is visible from the clone, provided its page table existed
  when the space was cloned, which is what \<^verbatim>\<open>vmm_reserve_tables\<close> is for.\<close>

theorem kernel_mapping_visible:
  assumes "spaces_ok s R" "g_root_cr3 s \<in> R" "vmm_space_clone s = (c, s1)" "c \<noteq> 0"
    and t: "tab (pmem s) (g_root_cr3 s) (take 3 (vpath v)) \<noteq> None" and v: "\<not> user_half v" "v \<ge> KERNEL_HALF_BASE" "small s1 (g_root_cr3 s) v"
    and m: "vmm_map_page s1 v phys flags = (rc, s2)"
  shows "space s2 c v = space s2 (g_root_cr3 s) v \<and>
    (rc = 0 \<longrightarrow> space s2 c v = Some (0, (phys AND PTE_ADDR_MASK) OR flags OR VMM_PRESENT))"
proof -
  note F = clone_family [OF assms(1-4)]
  let ?p = "take 3 (vpath v)" and ?r = "g_root_cr3 s"
  have kp: "kernel_path ?p" using v(1) by (simp add: kernel_path_def user_half_def vpath_def)
  obtain pt where pt: "tab (pmem s) ?r ?p = Some pt" using t by auto
  have t1: "tab (pmem s1) ?r ?p = Some pt" using extendsD(6) [OF F(1) assms(2) _ _ pt] by simp
  then have tc: "tab (pmem s1) c ?p = Some pt" using F(4) [of ?p] kp by (simp add: kernel_path_def)
  have m': "vmm_map_page_in s1 ?r v phys flags = (rc, s2)"
    using m extendsD(4) [OF F(1)] v(2) by (simp add: vmm_map_page_def space_for_def)
  have r: "?r \<in> insert c R" using assms(2) by simp
  have eq: "space s1 c v = space s1 ?r v" using mmu_leaf [OF t1] mmu_leaf [OF tc] by (simp add: space_def)
  show ?thesis
  proof (cases rule: map_page_in_spec [OF F(2) r v(3) m'])
    case 1
    then show ?thesis using eq space_extends [OF 1(2)] r by simp
  next
    case (2 s3 pt')
    have s3: "tab (pmem s3) ?r ?p = Some pt" "tab (pmem s3) c ?p = Some pt"
      using extendsD(6) [OF 2(2) r _ _ t1] extendsD(6) [OF 2(2) insertI1 _ _ tc] by simp_all
    then have "pt' = pt" using 2(3) by simp
    note L = leaf_store(2) [OF extendsD(1) [OF 2(2)] r idxs_take_vpath 2(3) idx_less [of 12 v],
      where e = "(phys AND PTE_ADDR_MASK) OR flags OR VMM_PRESENT", folded 2(4)]
    show ?thesis
      using L [of ?r "vpath v"] L [of c "vpath v"] r s3 \<open>pt' = pt\<close> vpath_split [of v] by (simp add: space_def)
  qed
qed

definition sample_space :: "u64 \<times> vmm" where
  "sample_space = vmm_space_clone (snd sample_kernel_call)"

definition sample_shared_call :: "int \<times> vmm" where
  "sample_shared_call = vmm_map_page (snd sample_space) 0xFFFF800000001000 0x3000 3"

theorem kernel_mapping_visible_witness:
  "fst sample_shared_call = 0 \<and> space (snd sample_shared_call) (fst sample_space) 0xFFFF800000001000 = Some (0, 0x3003)"
proof -
  let ?v = "0xFFFF800000001000 :: u64"
  note k = sample_kernel
  have cl: "vmm_space_clone (snd sample_kernel_call) = (fst sample_space, snd sample_space)" by (simp add: sample_space_def)
  have r: "fst sample_space \<noteq> 0" "room (snd sample_space) 3" using clone_room [OF k(1) cl k(3), of 3] by simp_all
  note F = clone_family [OF k(1) _ cl r(1), unfolded k(2), simplified]
  have sm: "small (snd sample_space) 4096 ?v" by (rule small_extends [OF k(5) F(1)]) simp
  have "take 3 (vpath ?v) = take 3 (vpath 0xFFFF800000000000)" by (simp add: vpath_def idx_def)
  then have t: "tab (pmem (snd sample_kernel_call)) 4096 (take 3 (vpath ?v)) \<noteq> None"
    using mmu_no_table [OF k(5), of "0xFFFF800000000000"] k(4) by (auto simp: space_def)
  have u: "\<not> user_half ?v" by (simp add: user_half_def idx_def)
  have c: "vmm_map_page (snd sample_space) ?v 0x3000 3 = (fst sample_shared_call, snd sample_shared_call)" by (simp add: sample_shared_call_def)
  then have c': "vmm_map_page_in (snd sample_space) 4096 ?v 0x3000 3 = (fst sample_shared_call, snd sample_shared_call)"
    using extendsD(4) [OF F(1)] k(2) by (simp add: vmm_map_page_def space_for_def)
  have "fst sample_shared_call = 0" using map_page_in_space(6) [OF F(2) _ sm c'] r(2) by simp
  then show ?thesis using kernel_mapping_visible [OF k(1) _ cl r(1) _ u _ _ c, THEN conjunct2] t sm k(2) by simp
qed

text \<open>C2. Forking an address space. Whether or not it succeeds, no translation of an existing space changes and no frame that
  holds data is written. On success every 4 KiB page of the parent's user half is present in the child in a frame of
  its own, with the same content and the same low flags, no two pages of the child share a frame, nothing else is
  mapped in its user half and its kernel half is that of the root space. It succeeds when one frame, and four for each page to copy, are free.\<close>

theorem vmm_space_fork_copies:
  assumes "spaces_ok s R" "g_root_cr3 s \<in> R" "src \<in> R" "data_ok R src s" "vmm_space_fork s src = (c, s')"
  shows "(\<forall>r v. r \<in> R \<longrightarrow> space s' r v = space s r v) \<and>
    (\<forall>a. busy s a \<and> \<not> table_page s R a \<longrightarrow> pmem s' a = pmem s a) \<and>
    (c \<noteq> 0 \<longrightarrow> c \<notin> R \<and> spaces_ok s' (insert c R) \<and>
       (\<forall>v. if user_half v then page_copied R src c s s' (vpath v) else space s' c v = space s (g_root_cr3 s) v) \<and>
       (\<forall>v w x y. user_half v \<and> user_half w \<and> space s' c v = Some (0, x) \<and> space s' c w = Some (0, y) \<and>
          x AND PTE_ADDR_MASK = y AND PTE_ADDR_MASK \<longrightarrow> same_page v w)) \<and>
    (room s (4 * card (user_pages s src) + 1) \<longrightarrow> c \<noteq> 0)"
proof -
  obtain c1 s1 where cl: "vmm_space_clone s = (c1, s1)" by (cases "vmm_space_clone s")
  have rm: "c1 \<noteq> 0 \<and> room s1 (4 * card (user_pages s src))" if "room s (4 * card (user_pages s src) + 1)"
    using clone_room [OF assms(1) cl] that by simp
  show ?thesis
  proof (cases "c1 = 0")
    case True
    then have c: "c = 0" "s' = s1" using cl assms(5) by (simp_all add: vmm_space_fork_def)
    have "alloc_frame s = (0, s1)"
      using cl True unfolding vmm_space_clone_def
      by (cases "alloc_frame s") (simp del: upt_rec_numeral split: if_splits)
    then have "extends s s1 R" by (rule extends_alloc [OF assms(1)])
    then show ?thesis using c space_extends [of s s1 R] extendsD(8) [of s s1 R] rm True by auto
  next
    case c1: False
    note F = clone_family [OF assms(1,2) cl c1] and S = clone_copied [OF assms(1,2) cl c1]
    obtain ok s2 where f: "fork_pml4 s1 c1 src [0..<256] = (ok, s2)" by (cases "fork_pml4 s1 c1 src [0..<256]")
    note L = fork_pml4_copies [OF F(3) assms(3) S(2) [OF assms(4,3)] S(1) f, unfolded copies_def]
    have k: "keeps R c1 s1 s2" using L by blast
    have c: "c = (if ok then c1 else 0)" "s' = s2" using assms(5) cl c1 f by (auto simp: vmm_space_fork_def simp del: upt_rec_numeral split: if_splits)
    have same: "space s2 r v = space s r v" if "r \<in> R" for r v
      using keepsD(2) [OF k] space_extends [OF F(1) that] that by (simp add: space_def same_mmu_def)
    have data: "pmem s2 a = pmem s a" if "busy s a" "\<not> table_page s R a" for a
      using F(6) [OF that] keepsD(5) [OF k] by simp
    have "user_pages s1 src \<inter> cover [] [0..<256] = user_pages s src"
      using extendsD(2) [OF F(1)] assms(3) cover_top unfolding user_pages_def by (auto simp: same_mmu_def user_path_def simp del: upt_rec_numeral)
    then have live: "ok" if "room s (4 * card (user_pages s src) + 1)" using L rm [OF that] by (metis add.right_neutral)
    have ch: "copied R src c1 s1 s2 (cover [] [0..<256])" if ok using L that by (simp del: upt_rec_numeral)
    have "page_copied R src c1 s s2 (vpath v)" if ok "user_half v" for v
      using page_copied_clone [OF assms(1,2) cl c1 assms(4,3)] copiedD(3) [OF ch [OF that(1)]] cover_top that(2) user_path_vpath by blast
    moreover have "space s2 c1 v = space s (g_root_cr3 s) v" if ok "\<not> user_half v" for v
      using copiedD(5) [OF ch [OF that(1)], of "vpath v"] F(5) [of "vpath v"] space_extends [OF F(1) assms(2)] that(2)
      by (simp add: user_path_vpath space_def) (simp add: vpath_def kernel_path_def user_half_def)
    moreover have "same_page v w" if ok "user_half v" "user_half w" "space s2 c1 v = Some (0, x)" "space s2 c1 w = Some (0, y)"
       "x AND PTE_ADDR_MASK = y AND PTE_ADDR_MASK" for v w x y
      using copiedD(6) [OF ch [OF that(1)], of "vpath v" "vpath w" x y] that by (simp add: user_path_vpath space_def same_page_def)
    ultimately show ?thesis
      using same data F(3) keepsD(1) [OF k] c c1 live by auto
  qed
qed


lemma user_path_is_vpath: "user_path q \<Longrightarrow> \<exists>v. q = vpath v"
proof -
  assume q: "user_path q"
  then obtain a b c d where "q = [a, b, c, d]" by (auto simp: user_path_def length_Suc_conv numeral_eq_Suc)
  then show ?thesis using q idx_vaddr(1) [of a b c d] by (auto simp: user_path_def intro: exI [of _ "vaddr a b c d"])
qed

definition sample_fork_call :: "u64 \<times> vmm" where
  "sample_fork_call = vmm_space_fork (snd sample_map_call) 4096"

theorem vmm_space_fork_copies_witness:
  "fst sample_fork_call \<noteq> 0 \<and> space (snd sample_fork_call) 4096 0x400000 = Some (0, 0x2007) \<and>
   (\<exists>f. space (snd sample_fork_call) (fst sample_fork_call) 0x400000 = Some (0, f OR 7) \<and> \<not> busy (snd sample_map_call) f \<and>
     pmem (snd sample_fork_call) (cell f 0) = pmem (snd sample_map_call) (cell 0x2000 0))"
proof -
  have c: "vmm_space_fork (snd sample_map_call) 4096 = (fst sample_fork_call, snd sample_fork_call)" by (simp add: sample_fork_call_def)
  have m: "mmu (pmem (snd sample_map_call)) 4096 q = (if q = vpath 0x400000 then Some (0, 0x2007) else None)" if "user_path q" for q
    using user_path_is_vpath [OF that] sample_mapped(3) by (auto simp: space_def same_page_def)
  have d: "data_ok {4096} 4096 (snd sample_map_call)" using m sample_mapped(6,7) by (auto simp: data_ok_def split: if_splits)
  have "user_pages (snd sample_map_call) 4096 \<subseteq> {vpath 0x400000}" using m by (auto simp: user_pages_def split: if_splits)
  then have "card (user_pages (snd sample_map_call) 4096) \<le> 1" using card_mono [of "{vpath 0x400000}"] by fastforce
  then have r: "room (snd sample_map_call) (4 * card (user_pages (snd sample_map_call) 4096) + 1)" by (intro sample_mapped(4)) simp
  note T = vmm_space_fork_copies [OF sample_mapped(1) _ _ d c]
  have u: "user_half 0x400000" by (simp add: user_half_def idx_def)
  have n: "fst sample_fork_call \<noteq> 0" using T sample_mapped(5) r by simp
  then have "page_copied {4096} 4096 (fst sample_fork_call) (snd sample_map_call) (snd sample_fork_call) (vpath 0x400000)"
    using T sample_mapped(5) u by simp
  then obtain f where "space (snd sample_fork_call) (fst sample_fork_call) 0x400000 = Some (0, f OR 7)" "\<not> busy (snd sample_map_call) f"
      "pmem (snd sample_fork_call) (cell f 0) = pmem (snd sample_map_call) (cell 0x2000 0)"
    using m [of "vpath 0x400000"] u by (auto simp: page_copied_def private_frame_def user_path_vpath space_def)
  moreover have "space (snd sample_fork_call) 4096 0x400000 = Some (0, 0x2007)"
    using T sample_mapped(3,5) sample_pages by simp
  ultimately show ?thesis using n by blast
qed

end
