(* ===== verification/Byte_Ring.thy ===== *)
theory Byte_Ring
  imports TUS_Prelude
begin

text \<open>
  The ring buffer that pipes (\<^verbatim>\<open>vfs/vfs.c\<close>), pseudo-terminals (\<^verbatim>\<open>vfs/pty.c\<close>), Unix sockets
  (\<^verbatim>\<open>net/socket.c\<close>) and TCP connections (\<^verbatim>\<open>net/tcp.c\<close>) share: an array of fixed size, a read position and a
  byte count. Each of these files spells out the same two-part copies; they are stated here once, with the
  size as a parameter, and refined to a first-in first-out queue of bytes. The interface
  \<open>byte_channel\<close> is what the users rely on.
\<close>

section \<open>The ring\<close>

record byte_ring =
  rb_buf :: bytes_array
  rb_head :: nat
  rb_count :: nat

definition empty_ring :: byte_ring where
  "empty_ring = \<lparr>rb_buf = (\<lambda>_. 0), rb_head = 0, rb_count = 0\<rparr>"

text \<open>Copying \<open>n\<close> bytes out: in two parts when the run wraps past the end of the array.\<close>

definition ring_copy_out :: "nat \<Rightarrow> nat \<Rightarrow> 'a byte_ring_scheme \<Rightarrow> u8 list" where
  "ring_copy_out N n r =
     (let first = N - rb_head r
      in if n > first
         then array_get (rb_head r) first (rb_buf r) @ array_get 0 (n - first) (rb_buf r)
         else array_get (rb_head r) n (rb_buf r))"

definition ring_advance :: "nat \<Rightarrow> nat \<Rightarrow> 'a byte_ring_scheme \<Rightarrow> 'a byte_ring_scheme" where
  "ring_advance N n r = r\<lparr>rb_head := (rb_head r + n) mod N, rb_count := rb_count r - n\<rparr>"

definition ring_get :: "nat \<Rightarrow> nat \<Rightarrow> 'a byte_ring_scheme \<Rightarrow> u8 list \<times> 'a byte_ring_scheme" where
  "ring_get N n r = (ring_copy_out N n r, ring_advance N n r)"

text \<open>Copying bytes in behind the ones already buffered.\<close>

definition ring_put :: "nat \<Rightarrow> u8 list \<Rightarrow> 'a byte_ring_scheme \<Rightarrow> 'a byte_ring_scheme" where
  "ring_put N bs r =
     (let wpos = (rb_head r + rb_count r) mod N;
          first = N - wpos
      in r\<lparr>rb_buf := (if length bs > first
                       then array_put 0 (drop first bs) (array_put wpos (take first bs) (rb_buf r))
                       else array_put wpos bs (rb_buf r)),
           rb_count := rb_count r + length bs\<rparr>)"

section \<open>Refinement to a queue of bytes\<close>

definition ring_ok :: "nat \<Rightarrow> 'a byte_ring_scheme \<Rightarrow> bool" where
  "ring_ok N r \<longleftrightarrow> rb_head r < N \<and> rb_count r \<le> N"

definition ring_contents :: "nat \<Rightarrow> 'a byte_ring_scheme \<Rightarrow> u8 list" where
  "ring_contents N r = map (\<lambda>i. rb_buf r ((rb_head r + i) mod N)) [0..<rb_count r]"

lemma length_ring_contents [simp]: "length (ring_contents N r) = rb_count r"
  by (simp add: ring_contents_def)

lemma nth_ring_contents:
  "i < rb_count r \<Longrightarrow> ring_contents N r ! i = rb_buf r ((rb_head r + i) mod N)"
  by (simp add: ring_contents_def)

lemma wrap_index: "h < N \<Longrightarrow> i < N \<Longrightarrow> (h + i) mod N = (if h + i < N then h + i else h + i - N)"
  for h i N :: nat
  by (simp add: mod_if)

lemma ring_copy_out_contents:
  assumes "ring_ok N r" and "n \<le> rb_count r"
  shows "ring_copy_out N n r = take n (ring_contents N r)"
proof (rule nth_equalityI)
  show "length (ring_copy_out N n r) = length (take n (ring_contents N r))"
    using assms by (auto simp: ring_copy_out_def Let_def)
next
  fix i assume i: "i < length (ring_copy_out N n r)"
  then have "i < n" by (auto simp: ring_copy_out_def Let_def split: if_splits)
  with assms show "ring_copy_out N n r ! i = take n (ring_contents N r) ! i"
    by (auto simp: ring_copy_out_def Let_def ring_ok_def nth_ring_contents wrap_index nth_append
        add.commute)
qed

lemma ring_advance_contents:
  assumes "ring_ok N r" and "n \<le> rb_count r"
  shows "ring_contents N (ring_advance N n r) = drop n (ring_contents N r)"
proof (rule nth_equalityI)
  show "length (ring_contents N (ring_advance N n r)) = length (drop n (ring_contents N r))"
    by (simp add: ring_advance_def)
next
  fix i assume i: "i < length (ring_contents N (ring_advance N n r))"
  then have "i < rb_count r - n" by (simp add: ring_advance_def)
  then show "ring_contents N (ring_advance N n r) ! i = drop n (ring_contents N r) ! i"
    using assms by (simp add: ring_advance_def nth_ring_contents mod_add_left_eq add.assoc)
qed

lemma ring_advance_ok: "ring_ok N r \<Longrightarrow> ring_ok N (ring_advance N n r)"
  by (auto simp: ring_ok_def ring_advance_def intro: mod_less_divisor order.strict_trans1 [OF le0])

lemma ring_put_ok:
  "ring_ok N r \<Longrightarrow> rb_count r + length bs \<le> N \<Longrightarrow> ring_ok N (ring_put N bs r)"
  by (simp add: ring_ok_def ring_put_def Let_def)

text \<open>Where a byte lands: position \<open>j\<close> of the array holds the byte whose distance from the
  write position, going round, is below the number written.\<close>

lemma ring_put_buf:
  assumes "ring_ok N r" and "rb_count r + length bs \<le> N" and "i < N"
  defines "w \<equiv> (rb_head r + rb_count r) mod N"
  shows "rb_buf (ring_put N bs r) ((w + i) mod N) =
     (if i < length bs then bs ! i else rb_buf r ((w + i) mod N))"
proof -
  have w: "w < N" using assms by (auto simp: ring_ok_def)
  show ?thesis
    using assms w
    by (auto simp: ring_put_def Let_def w_def [symmetric] wrap_index array_put_def)
qed

lemma ring_put_contents:
  assumes ok: "ring_ok N r" and fits: "rb_count r + length bs \<le> N"
  shows "ring_contents N (ring_put N bs r) = ring_contents N r @ bs"
proof (rule nth_equalityI)
  show "length (ring_contents N (ring_put N bs r)) = length (ring_contents N r @ bs)"
    by (simp add: ring_put_def Let_def)
next
  let ?w = "(rb_head r + rb_count r) mod N"
  fix i assume "i < length (ring_contents N (ring_put N bs r))"
  then have i: "i < rb_count r + length bs" by (simp add: ring_put_def Let_def)
  have head: "rb_head (ring_put N bs r) = rb_head r"
    and cnt: "rb_count (ring_put N bs r) = rb_count r + length bs"
    by (simp_all add: ring_put_def Let_def)
  have pos: "0 < N" using ok by (auto simp: ring_ok_def)
  show "ring_contents N (ring_put N bs r) ! i = (ring_contents N r @ bs) ! i"
  proof (cases "i < rb_count r")
    case True
    have k: "(rb_head r + i) mod N = (?w + (N - rb_count r + i)) mod N"
    proof -
      have "(?w + (N - rb_count r + i)) mod N = (rb_head r + rb_count r + (N - rb_count r + i)) mod N"
        by (simp add: mod_add_left_eq)
      also have "rb_head r + rb_count r + (N - rb_count r + i) = rb_head r + i + N"
        using fits by simp
      finally show ?thesis by simp
    qed
    have "N - rb_count r + i < N" and "\<not> N - rb_count r + i < length bs"
      using True fits by simp_all
    then have "rb_buf (ring_put N bs r) ((rb_head r + i) mod N) = rb_buf r ((rb_head r + i) mod N)"
      unfolding k using ring_put_buf [OF ok fits, of "N - rb_count r + i"] by (simp only: if_False)
    with True i show ?thesis by (simp add: nth_ring_contents nth_append head cnt)
  next
    case False
    then obtain j where j: "i = rb_count r + j" "j < length bs"
      using i by (metis add_less_cancel_left le_iff_add not_less)
    have "(rb_head r + i) mod N = (?w + j) mod N"
      by (simp add: j(1) mod_add_left_eq add.assoc)
    moreover have "j < N" using j(2) fits by simp
    ultimately have "rb_buf (ring_put N bs r) ((rb_head r + i) mod N) = bs ! j"
      using ring_put_buf [OF ok fits] j(2) by simp
    with j i show ?thesis by (simp add: nth_ring_contents nth_append head cnt)
  qed
qed

section \<open>The channel interface\<close>

text \<open>\<open>accounted\<close>: every byte ever accepted has been delivered, in order, or is still stored.\<close>

definition accounted ::
  "('s \<Rightarrow> bool) \<Rightarrow> ('s \<Rightarrow> u8 list) \<Rightarrow> 's \<Rightarrow> u8 list \<Rightarrow> u8 list \<Rightarrow> bool" where
  "accounted ok stored s accepted delivered \<longleftrightarrow> ok s \<and> delivered @ stored s = accepted"

locale byte_channel =
  fixes ok :: "'s \<Rightarrow> bool"
    and stored :: "'s \<Rightarrow> u8 list"
    and cap :: nat
    and put :: "u8 list \<Rightarrow> 's \<Rightarrow> 's"
    and get :: "nat \<Rightarrow> 's \<Rightarrow> u8 list \<times> 's"
  assumes stored_cap: "ok s \<Longrightarrow> length (stored s) \<le> cap"
    and put_ok: "ok s \<Longrightarrow> length (stored s) + length bs \<le> cap \<Longrightarrow> ok (put bs s)"
    and put_stored: "ok s \<Longrightarrow> length (stored s) + length bs \<le> cap \<Longrightarrow> stored (put bs s) = stored s @ bs"
    and get_ok: "ok s \<Longrightarrow> n \<le> length (stored s) \<Longrightarrow> ok (snd (get n s))"
    and get_out: "ok s \<Longrightarrow> n \<le> length (stored s) \<Longrightarrow> fst (get n s) = take n (stored s)"
    and get_stored: "ok s \<Longrightarrow> n \<le> length (stored s) \<Longrightarrow> stored (snd (get n s)) = drop n (stored s)"
begin

lemma put_accounted:
  "accounted ok stored s a d \<Longrightarrow> length (stored s) + length bs \<le> cap \<Longrightarrow>
   accounted ok stored (put bs s) (a @ bs) d"
  by (auto simp: accounted_def put_ok put_stored)

lemma get_accounted:
  "accounted ok stored s a d \<Longrightarrow> n \<le> length (stored s) \<Longrightarrow>
   accounted ok stored (snd (get n s)) a (d @ fst (get n s))"
  by (simp add: accounted_def get_ok get_out get_stored)

lemma put_get_all:
  "ok s \<Longrightarrow> stored s = [] \<Longrightarrow> length bs \<le> cap \<Longrightarrow> fst (get (length bs) (put bs s)) = bs"
  using get_out [of "put bs s" "length bs"] put_ok [of s bs] put_stored [of s bs] by simp

end

interpretation ring: byte_channel "ring_ok N" "ring_contents N" N "ring_put N" "ring_get N" for N
  by unfold_locales
    (auto simp: ring_put_ok ring_put_contents ring_advance_ok ring_advance_contents
      ring_copy_out_contents ring_get_def, simp add: ring_ok_def)

section \<open>Blocking reads and writes\<close>

text \<open>
  A call that has to wait executes \<^verbatim>\<open>hlt()\<close>, other tasks run, and its loop looks again. The
  model returns at that point (\<open>Blocked\<close>, or \<open>WBlocked\<close> with the number of bytes already
  written); continuing the call is running it again from there, so an interleaving of
  several tasks is a sequence of such calls. What ends the wait differs between the three
  users (a write end, the other side of a terminal, a connected peer) and is the argument
  \<open>peer\<close>; it cannot change between two sleeps.
\<close>

datatype 'a blocking = Blocked | Done 'a

datatype write_result = WBlocked nat | WDone int

definition ring_read_loop ::
    "nat \<Rightarrow> bool \<Rightarrow> 'a byte_ring_scheme \<Rightarrow> nat \<Rightarrow> (int \<times> u8 list \<times> 'a byte_ring_scheme) blocking" where
  "ring_read_loop N peer r count =
     (if rb_count r = 0
      then (if \<not> peer then Done (0, [], r) else Blocked)
      else let n = (if count < rb_count r then count else rb_count r);
               (bs, r') = ring_get N n r
           in Done (int n, bs, r'))"

text \<open>One unfolding per turn of the loop; \<open>None\<close> would be a loop that never ends.\<close>

partial_function (option) ring_write_loop ::
    "nat \<Rightarrow> bool \<Rightarrow> int \<Rightarrow> 'a byte_ring_scheme \<Rightarrow> u8 list \<Rightarrow> nat \<Rightarrow>
     (write_result \<times> 'a byte_ring_scheme) option" where
  "ring_write_loop N peer err r buf tot =
     (if tot < length buf
      then if \<not> peer then Some (WDone (if tot > 0 then int tot else - err), r)
           else if rb_count r = N then Some (WBlocked tot, r)
           else let free = N - rb_count r;
                    n = (if length buf - tot < free then length buf - tot else free)
                in ring_write_loop N peer err (ring_put N (take n (drop tot buf)) r) buf (tot + n)
      else Some (WDone (int tot), r))"

text \<open>How many bytes of the buffer a finished or waiting call has accounted for.\<close>

fun write_upto :: "nat \<Rightarrow> write_result \<Rightarrow> nat" where
  "write_upto tot (WBlocked t) = t"
| "write_upto tot (WDone r) = (if r < 0 then tot else nat r)"

lemma ring_put_count [simp]: "rb_count (ring_put N bs r) = rb_count r + length bs"
  by (simp add: ring_put_def Let_def)

text \<open>The write loop always comes back, and says truthfully how far it got.\<close>

lemma ring_write_loop_returns:
  assumes "ring_ok N r" and "tot \<le> length buf" and "0 < err"
  shows "\<exists>res r'. ring_write_loop N peer err r buf tot = Some (res, r') \<and> ring_ok N r' \<and>
      tot \<le> write_upto tot res \<and> write_upto tot res \<le> length buf \<and>
      ring_contents N r' = ring_contents N r @ take (write_upto tot res - tot) (drop tot buf) \<and>
      byte_ring.more r' = byte_ring.more r \<and>
      (case res of
         WBlocked t \<Rightarrow> t < length buf \<and> rb_count r' = N \<and> peer
       | WDone v \<Rightarrow> v = int (length buf) \<or>
           \<not> peer \<and> r' = r \<and> v = (if tot > 0 then int tot else - err))"
  using assms
proof (induction "length buf - tot" arbitrary: r tot rule: less_induct)
  case less
  show ?case
  proof (cases "tot < length buf \<and> peer \<and> rb_count r \<noteq> N")
    case False
    with less.prems show ?thesis by (auto simp: ring_write_loop.simps [of N peer err r])
  next
    case True
    define n where "n = (if length buf - tot < N - rb_count r then length buf - tot else N - rb_count r)"
    define q where "q = ring_put N (take n (drop tot buf)) r"
    have cnt: "rb_count r < N" using True less.prems(1) by (simp add: ring_ok_def)
    then have n: "0 < n" "n \<le> length buf - tot" "n \<le> N - rb_count r"
      using True by (auto simp: n_def)
    have fits: "length (ring_contents N r) + length (take n (drop tot buf)) \<le> N"
      using n cnt by simp
    have q: "ring_ok N q" "ring_contents N q = ring_contents N r @ take n (drop tot buf)"
      "byte_ring.more q = byte_ring.more r"
      unfolding q_def using ring.put_ok [OF less.prems(1) fits]
        ring.put_stored [OF less.prems(1) fits] by (simp_all add: ring_put_def Let_def)
    have eq: "ring_write_loop N peer err r buf tot = ring_write_loop N peer err q buf (tot + n)"
      using True unfolding n_def q_def by (subst ring_write_loop.simps) (simp add: Let_def)
    have "length buf - (tot + n) < length buf - tot" "tot + n \<le> length buf"
      using n True by auto
    from less.hyps [OF this(1) q(1) this(2) less.prems(3)] obtain res r' where
      IH: "ring_write_loop N peer err q buf (tot + n) = Some (res, r')" "ring_ok N r'"
        "tot + n \<le> write_upto (tot + n) res" "write_upto (tot + n) res \<le> length buf"
        "ring_contents N r' = ring_contents N q @ take (write_upto (tot + n) res - (tot + n)) (drop (tot + n) buf)"
        "byte_ring.more r' = byte_ring.more q"
        "case res of
          WBlocked t \<Rightarrow> t < length buf \<and> rb_count r' = N \<and> peer
        | WDone v \<Rightarrow> v = int (length buf) \<or>
           \<not> peer \<and> r' = q \<and> v = (if tot + n > 0 then int (tot + n) else - err)"
      by blast
    have upto: "write_upto (tot + n) res = write_upto tot res"
      using IH(7) True n by (cases res) auto
    have "take n (drop tot buf) @ take (write_upto tot res - (tot + n)) (drop (tot + n) buf)
        = take (write_upto tot res - tot) (drop tot buf)"
      using IH(3) [unfolded upto]
      by (simp add: take_add [symmetric] add.commute drop_drop [symmetric] del: drop_drop)
    with IH q upto True eq show ?thesis
      by (intro exI [of _ res] exI [of _ r']) (auto split: write_result.splits)
  qed
qed

lemma ring_write_loop_SomeD:
  assumes "ring_write_loop N peer err r buf tot = Some (res, r')" and "ring_ok N r"
    and "tot \<le> length buf" and "0 < err"
  shows "ring_ok N r'"
    and "ring_contents N r' = ring_contents N r @ take (write_upto tot res - tot) (drop tot buf)"
    and "byte_ring.more r' = byte_ring.more r"
  using ring_write_loop_returns [OF assms(2-4), of peer] assms(1) by auto

text \<open>The three ways a write call can leave the loop, as one statement for its users.\<close>

lemma ring_write_loop_outcome:
  assumes "ring_ok N r" and "tot \<le> length buf" and "0 < err"
  shows "\<exists>res r'. ring_write_loop N peer err r buf tot = Some (res, r') \<and>
      (case res of
         WBlocked t \<Rightarrow> tot \<le> t \<and> t < length buf \<and> rb_count r' = N \<and> peer \<and>
           ring_contents N r' = ring_contents N r @ take (t - tot) (drop tot buf)
       | WDone v \<Rightarrow>
           v = int (length buf) \<and> ring_contents N r' = ring_contents N r @ drop tot buf \<or>
           \<not> peer \<and> r' = r \<and> v = (if tot > 0 then int tot else - err))"
proof -
  from ring_write_loop_returns [OF assms, of peer] obtain res r' where w:
    "ring_write_loop N peer err r buf tot = Some (res, r')" "tot \<le> write_upto tot res"
    "ring_contents N r' = ring_contents N r @ take (write_upto tot res - tot) (drop tot buf)"
    "case res of
         WBlocked t \<Rightarrow> t < length buf \<and> rb_count r' = N \<and> peer
       | WDone v \<Rightarrow> v = int (length buf) \<or>
           \<not> peer \<and> r' = r \<and> v = (if tot > 0 then int tot else - err)"
    by blast
  then show ?thesis
    by (intro exI [of _ res] exI [of _ r']) (cases res; auto split: if_splits)
qed

lemma ring_read_loop_Done:
  assumes "ring_read_loop N peer r n = Done (v, bs, r')" and "ring_ok N r"
  shows "v = int (min n (rb_count r))" and "bs = take n (ring_contents N r)"
    and "ring_ok N r'" and "ring_contents N r' = drop n (ring_contents N r)"
    and "byte_ring.more r' = byte_ring.more r"
    and "rb_count r = 0 \<Longrightarrow> \<not> peer"
proof -
  let ?k = "min n (rb_count r)"
  have k: "?k \<le> length (ring_contents N r)" by simp
  have eqs: "take ?k (ring_contents N r) = take n (ring_contents N r)"
    "drop ?k (ring_contents N r) = drop n (ring_contents N r)"
    by (auto simp: min_def)
  have "(v, bs, r') = (int ?k, ring_get N ?k r)"
  proof (cases "rb_count r = 0")
    case True
    have "ring_get N 0 r = ([], r)"
      using True assms(2)
      by (simp add: ring_get_def ring_copy_out_def ring_advance_def ring_ok_def array_get_def)
    with True assms(1) show ?thesis by (auto simp: ring_read_loop_def split: if_splits)
  next
    case False
    then have "Done (v, bs, r') = (let n = ?k; (bs, p') = ring_get N n r in Done (int n, bs, p'))"
      using assms(1) by (simp add: ring_read_loop_def min_def Let_def split: if_splits)
    then show ?thesis by (simp add: Let_def split: prod.splits)
  qed
  then have g: "v = int ?k" "bs = fst (ring_get N ?k r)" "r' = snd (ring_get N ?k r)"
    by (metis fst_conv snd_conv)+
  show "v = int ?k" by (rule g(1))
  show "bs = take n (ring_contents N r)" using g(2) ring.get_out [OF assms(2) k] eqs by simp
  show "ring_ok N r'" using g(3) ring.get_ok [OF assms(2) k] by simp
  show "ring_contents N r' = drop n (ring_contents N r)"
    using g(3) ring.get_stored [OF assms(2) k] eqs by simp
  show "byte_ring.more r' = byte_ring.more r" using g(3) by (simp add: ring_get_def ring_advance_def)
  show "\<not> peer" if "rb_count r = 0"
    using assms(1) that by (auto simp: ring_read_loop_def split: if_splits)
qed

lemma ring_read_loop_nonempty:
  "rb_count r \<noteq> 0 \<Longrightarrow> \<exists>v bs r'. ring_read_loop N peer r n = Done (v, bs, r')"
  by (simp add: ring_read_loop_def ring_get_def Let_def)

text \<open>A reader always makes room for a writer that sleeps on a full ring.\<close>

lemma ring_reader_frees_writer:
  assumes ok: "ring_ok N r" and full: "rb_count r = N" and n: "0 < n" and err: "0 < err"
    and tot: "tot < length buf"
  shows "\<exists>v bs r' res r''. ring_read_loop N p r n = Done (v, bs, r') \<and> 0 < v \<and>
     ring_write_loop N True err r' buf tot = Some (res, r'') \<and> tot < write_upto tot res"
proof -
  have pos: "0 < N" using ok by (auto simp: ring_ok_def)
  then obtain v bs r' where rd: "ring_read_loop N p r n = Done (v, bs, r')"
    using ring_read_loop_nonempty [of r N p n] full by auto
  note d = ring_read_loop_Done [OF rd ok]
  have v: "0 < v" using d(1) n full pos by simp
  have "length (ring_contents N r') = N - n" using d(4) full by simp
  then have cnt: "rb_count r' < N" using n pos by simp
  from ring_write_loop_returns [OF d(3) less_imp_le [OF tot] err, of True] obtain res r'' where w:
    "ring_write_loop N True err r' buf tot = Some (res, r'')" "tot \<le> write_upto tot res"
    "ring_contents N r'' = ring_contents N r' @ take (write_upto tot res - tot) (drop tot buf)"
    "case res of WBlocked t \<Rightarrow> t < length buf \<and> rb_count r'' = N \<and> True
      | WDone v \<Rightarrow> v = int (length buf) \<or>
          \<not> True \<and> r'' = r' \<and> v = (if tot > 0 then int tot else - err)"
    by blast
  have "tot \<noteq> write_upto tot res"
  proof
    assume e: "tot = write_upto tot res"
    then have same: "length (ring_contents N r'') = length (ring_contents N r')" using w(3) by simp
    show False using w(4) e same cnt tot by (cases res) auto
  qed
  with w(2) have "tot < write_upto tot res" by simp
  with rd v w(1) show ?thesis by blast
qed

end
