(* ===== verification/Pty.thy ===== *)
theory Pty
  imports Byte_Ring
begin

text \<open>
  Pseudo-terminals, \<^verbatim>\<open>kernel/vfs/pty.c\<close>: a pool of eight slots, each a pair of rings (one per
  direction) with flags for the two sides. The device operations of the master
  (\<^verbatim>\<open>/dev/ptmx\<close>) and of the slave (\<^verbatim>\<open>/dev/pts/N\<close>) act on one slot; the allocator hands out the
  lowest slot that is not in use. The creation of the device nodes (\<^verbatim>\<open>pty_init\<close>) belongs to
  the file tree and is not part of this theory.
\<close>

section \<open>State and operations\<close>

abbreviation (input) PTY_COUNT :: nat where "PTY_COUNT \<equiv> 8"
abbreviation (input) PTY_RING_SZ :: nat where "PTY_RING_SZ \<equiv> 4096"

abbreviation (input) TIOCGPTN :: u64 where "TIOCGPTN \<equiv> 0x80045430"
abbreviation (input) TIOCSPTLCK :: u64 where "TIOCSPTLCK \<equiv> 0x40045431"
abbreviation (input) TIOCGWINSZ :: u64 where "TIOCGWINSZ \<equiv> 0x5413"
abbreviation (input) TIOCSWINSZ :: u64 where "TIOCSWINSZ \<equiv> 0x5414"
abbreviation (input) TCGETS :: u64 where "TCGETS \<equiv> 0x5401"
abbreviation (input) TCSETS :: u64 where "TCSETS \<equiv> 0x5402"
abbreviation (input) TCSETSW :: u64 where "TCSETSW \<equiv> 0x5403"
abbreviation (input) TCSETSF :: u64 where "TCSETSF \<equiv> 0x5404"

record pty_slot =
  in_use :: bool
  master_open :: bool
  slave_open :: bool
  index :: u32
  m2s :: byte_ring
  s2m :: byte_ring
  win_rows :: u16
  win_cols :: u16

record pty_winsize =
  ws_row :: u16
  ws_col :: u16
  ws_xpixel :: u16
  ws_ypixel :: u16

text \<open>The object an \<^verbatim>\<open>ioctl\<close> argument points at, before and after the call; \<open>None\<close> is a null
  pointer.\<close>

datatype pty_arg = ArgIndex u32 | ArgWinsize pty_winsize | ArgTermios "u8 list"

definition ring_read :: "byte_ring \<Rightarrow> nat \<Rightarrow> bool \<Rightarrow> (int \<times> u8 list \<times> byte_ring) blocking" where
  "ring_read r count peer_open = ring_read_loop PTY_RING_SZ peer_open r count"

definition ring_write ::
    "byte_ring \<Rightarrow> u8 list \<Rightarrow> nat \<Rightarrow> bool \<Rightarrow> (write_result \<times> byte_ring) option" where
  "ring_write r buf written peer_open = ring_write_loop PTY_RING_SZ peer_open EINVAL r buf written"

definition pty_master_read :: "pty_slot \<Rightarrow> nat \<Rightarrow> (int \<times> u8 list \<times> pty_slot) blocking" where
  "pty_master_read s count =
     (case ring_read (s2m s) count (slave_open s) of
        Blocked \<Rightarrow> Blocked
      | Done (v, bs, r) \<Rightarrow> Done (v, bs, s\<lparr>s2m := r\<rparr>))"

definition pty_master_write ::
    "pty_slot \<Rightarrow> u8 list \<Rightarrow> nat \<Rightarrow> (write_result \<times> pty_slot) option" where
  "pty_master_write s buf written =
     map_option (\<lambda>(res, r). (res, s\<lparr>m2s := r\<rparr>)) (ring_write (m2s s) buf written (slave_open s))"

definition pty_slave_read :: "pty_slot \<Rightarrow> nat \<Rightarrow> (int \<times> u8 list \<times> pty_slot) blocking" where
  "pty_slave_read s count =
     (case ring_read (m2s s) count (master_open s) of
        Blocked \<Rightarrow> Blocked
      | Done (v, bs, r) \<Rightarrow> Done (v, bs, s\<lparr>m2s := r\<rparr>))"

definition pty_slave_write ::
    "pty_slot \<Rightarrow> u8 list \<Rightarrow> nat \<Rightarrow> (write_result \<times> pty_slot) option" where
  "pty_slave_write s buf written =
     map_option (\<lambda>(res, r). (res, s\<lparr>s2m := r\<rparr>)) (ring_write (s2m s) buf written (master_open s))"

definition pty_get_winsize :: "pty_slot \<Rightarrow> pty_winsize" where
  "pty_get_winsize s = \<lparr>ws_row = win_rows s, ws_col = win_cols s, ws_xpixel = 0, ws_ypixel = 0\<rparr>"

text \<open>The window-size requests behave alike on both sides; a request whose argument is not a
  window size cannot arise from the C types and leaves the slot alone.\<close>

definition pty_set_winsize :: "pty_slot \<Rightarrow> pty_arg \<Rightarrow> pty_slot" where
  "pty_set_winsize s a =
     (case a of ArgWinsize ws \<Rightarrow> s\<lparr>win_rows := ws_row ws, win_cols := ws_col ws\<rparr> | _ \<Rightarrow> s)"

definition pty_master_ioctl ::
    "pty_slot \<Rightarrow> u64 \<Rightarrow> pty_arg option \<Rightarrow> int \<times> pty_arg option \<times> pty_slot" where
  "pty_master_ioctl s request arg =
     (if request = TIOCGPTN then
        (case arg of None \<Rightarrow> (- EINVAL, arg, s) | Some _ \<Rightarrow> (0, Some (ArgIndex (index s)), s))
      else if request = TIOCSPTLCK then (0, arg, s)
      else if request = TIOCGWINSZ then
        (case arg of None \<Rightarrow> (- EINVAL, arg, s) | Some _ \<Rightarrow> (0, Some (ArgWinsize (pty_get_winsize s)), s))
      else if request = TIOCSWINSZ then
        (case arg of None \<Rightarrow> (- EINVAL, arg, s) | Some a \<Rightarrow> (0, arg, pty_set_winsize s a))
      else (- ENOTTY, arg, s))"

definition pty_slave_ioctl ::
    "pty_slot \<Rightarrow> u64 \<Rightarrow> pty_arg option \<Rightarrow> int \<times> pty_arg option \<times> pty_slot" where
  "pty_slave_ioctl s request arg =
     (if request = TCGETS then
        (0, (case arg of None \<Rightarrow> None | Some _ \<Rightarrow> Some (ArgTermios (replicate 60 0))), s)
      else if request = TCSETS \<or> request = TCSETSW \<or> request = TCSETSF then (0, arg, s)
      else if request = TIOCGWINSZ then
        (case arg of None \<Rightarrow> (- EINVAL, arg, s) | Some _ \<Rightarrow> (0, Some (ArgWinsize (pty_get_winsize s)), s))
      else if request = TIOCSWINSZ then
        (case arg of None \<Rightarrow> (- EINVAL, arg, s) | Some a \<Rightarrow> (0, arg, pty_set_winsize s a))
      else (- ENOTTY, arg, s))"

definition pty_master_poll :: "pty_slot \<Rightarrow> u16" where
  "pty_master_poll s =
     (if rb_count (s2m s) > 0 \<or> \<not> slave_open s then 1 else 0) OR
     (if rb_count (m2s s) < PTY_RING_SZ then 4 else 0)"

definition pty_slave_poll :: "pty_slot \<Rightarrow> u16" where
  "pty_slave_poll s =
     (if rb_count (m2s s) > 0 \<or> \<not> master_open s then 1 else 0) OR
     (if rb_count (s2m s) < PTY_RING_SZ then 4 else 0)"

definition pty_slave_open :: "pty_slot \<Rightarrow> pty_slot" where
  "pty_slave_open s = s\<lparr>slave_open := True\<rparr>"

definition pty_master_close :: "pty_slot \<Rightarrow> pty_slot" where
  "pty_master_close s =
     (let s1 = s\<lparr>master_open := False\<rparr>
      in if \<not> slave_open s1 then s1\<lparr>in_use := False\<rparr> else s1)"

definition pty_slave_close :: "pty_slot \<Rightarrow> pty_slot" where
  "pty_slave_close s =
     (let s1 = s\<lparr>slave_open := False\<rparr>
      in if \<not> master_open s1 then s1\<lparr>in_use := False\<rparr> else s1)"

text \<open>The slot \<^verbatim>\<open>pty_alloc_master\<close> prepares: zeroed, then the fields it sets.\<close>

definition pty_fresh_slot :: "nat \<Rightarrow> pty_slot" where
  "pty_fresh_slot i =
     \<lparr>in_use = True, master_open = True, slave_open = False, index = of_nat i,
      m2s = empty_ring, s2m = empty_ring, win_rows = 24, win_cols = 80\<rparr>"

definition pty_alloc_master :: "(nat \<Rightarrow> pty_slot) \<Rightarrow> nat option \<times> (nat \<Rightarrow> pty_slot)" where
  "pty_alloc_master g_pty =
     (case scan (\<lambda>i. \<not> in_use (g_pty i)) 0 PTY_COUNT of
        Some i \<Rightarrow> (Some i, g_pty(i := pty_fresh_slot i))
      | None \<Rightarrow> (None, g_pty))"

text \<open>The static pool before the first allocation.\<close>

definition pty_pool0 :: "nat \<Rightarrow> pty_slot" where
  "pty_pool0 i =
     \<lparr>in_use = False, master_open = False, slave_open = False, index = of_nat i,
      m2s = empty_ring, s2m = empty_ring, win_rows = 0, win_cols = 0\<rparr>"

section \<open>The life of the pool\<close>

lemma empty_ring_ok: "ring_ok PTY_RING_SZ empty_ring" "ring_contents PTY_RING_SZ empty_ring = []"
  by (simp_all add: empty_ring_def ring_ok_def ring_contents_def)

text \<open>Transfers touch the rings only.\<close>

definition pty_transfer :: "pty_slot \<Rightarrow> pty_slot \<Rightarrow> bool" where
  "pty_transfer s s' \<longleftrightarrow>
     (\<exists>n v bs. pty_master_read s n = Done (v, bs, s') \<or> pty_slave_read s n = Done (v, bs, s')) \<or>
     (\<exists>buf k res. pty_master_write s buf k = Some (res, s') \<or> pty_slave_write s buf k = Some (res, s'))"

lemma pty_read_flags:
  assumes "pty_master_read s n = Done (v, bs, s') \<or> pty_slave_read s n = Done (v, bs, s')"
  shows "in_use s' = in_use s \<and> master_open s' = master_open s \<and> slave_open s' = slave_open s"
  using assms by (auto simp: pty_master_read_def pty_slave_read_def split: blocking.splits)

lemma pty_write_flags:
  assumes "pty_master_write s buf k = Some (res, s') \<or> pty_slave_write s buf k = Some (res, s')"
  shows "in_use s' = in_use s \<and> master_open s' = master_open s \<and> slave_open s' = slave_open s"
  using assms by (auto simp: pty_master_write_def pty_slave_write_def)

lemma pty_transfer_flags:
  "pty_transfer s s' \<Longrightarrow> in_use s' = in_use s \<and> master_open s' = master_open s \<and> slave_open s' = slave_open s"
  unfolding pty_transfer_def using pty_read_flags pty_write_flags by blast

text \<open>A well-behaved history: a slave is opened only on a slot that a master has claimed.\<close>

inductive pty_life :: "(nat \<Rightarrow> pty_slot) \<Rightarrow> bool" where
  boot: "pty_life pty_pool0"
| alloc: "pty_life P \<Longrightarrow> pty_alloc_master P = (x, P') \<Longrightarrow> pty_life P'"
| open_slave: "pty_life P \<Longrightarrow> in_use (P i) \<Longrightarrow> pty_life (P(i := pty_slave_open (P i)))"
| close_master: "pty_life P \<Longrightarrow> master_open (P i) \<Longrightarrow> pty_life (P(i := pty_master_close (P i)))"
| close_slave: "pty_life P \<Longrightarrow> slave_open (P i) \<Longrightarrow> pty_life (P(i := pty_slave_close (P i)))"
| transfer: "pty_life P \<Longrightarrow> pty_transfer (P i) s' \<Longrightarrow> pty_life (P(i := s'))"

lemma pty_life_in_use: "pty_life P \<Longrightarrow> in_use (P i) \<longleftrightarrow> master_open (P i) \<or> slave_open (P i)"
proof (induction arbitrary: i rule: pty_life.induct)
  case boot
  show ?case by (simp add: pty_pool0_def)
next
  case (alloc P x P')
  then show ?case
    by (auto simp: pty_alloc_master_def pty_fresh_slot_def split: option.splits)
next
  case (transfer P j s')
  then show ?case using pty_transfer_flags [OF transfer.hyps(2)] by auto
qed (auto simp: pty_slave_open_def pty_master_close_def pty_slave_close_def Let_def)

section \<open>One direction as a channel\<close>

text \<open>All interleavings of a master that writes and a slave that reads one slot.\<close>

inductive pty_m2s_reach :: "pty_slot \<Rightarrow> u8 list \<Rightarrow> u8 list \<Rightarrow> bool" where
  fresh: "pty_m2s_reach (pty_fresh_slot i) [] []"
| slave_reads: "pty_m2s_reach s acc del \<Longrightarrow> pty_slave_read s n = Done (v, bs, s') \<Longrightarrow>
    pty_m2s_reach s' acc (del @ bs)"
| master_writes: "pty_m2s_reach s acc del \<Longrightarrow> k \<le> length buf \<Longrightarrow>
    pty_master_write s buf k = Some (res, s') \<Longrightarrow>
    pty_m2s_reach s' (acc @ take (write_upto k res - k) (drop k buf)) del"
| other: "pty_m2s_reach s acc del \<Longrightarrow> m2s s' = m2s s \<Longrightarrow> pty_m2s_reach s' acc del"

lemma pty_m2s_accounted:
  "pty_m2s_reach s acc del \<Longrightarrow>
   accounted (ring_ok PTY_RING_SZ) (ring_contents PTY_RING_SZ) (m2s s) acc del"
proof (induction rule: pty_m2s_reach.induct)
  case (fresh i)
  show ?case by (simp add: accounted_def pty_fresh_slot_def empty_ring_ok)
next
  case (slave_reads s acc del n v bs s')
  then obtain r where r: "ring_read_loop PTY_RING_SZ (master_open s) (m2s s) n = Done (v, bs, r)" "m2s s' = r"
    by (auto simp: pty_slave_read_def ring_read_def split: blocking.splits)
  have ok: "ring_ok PTY_RING_SZ (m2s s)" using slave_reads.IH by (simp add: accounted_def)
  from ring_read_loop_Done [OF r(1) ok] slave_reads.IH r(2) show ?case by (simp add: accounted_def)
next
  case (master_writes s acc del k buf res s')
  then obtain r where r: "ring_write_loop PTY_RING_SZ (slave_open s) EINVAL (m2s s) buf k = Some (res, r)"
      "m2s s' = r"
    by (auto simp: pty_master_write_def ring_write_def)
  have ok: "ring_ok PTY_RING_SZ (m2s s)" using master_writes.IH by (simp add: accounted_def)
  from ring_write_loop_SomeD [OF r(1) ok master_writes.hyps(2)] master_writes.IH r(2) show ?case
    by (auto simp: accounted_def)
next
  case (other s acc del s')
  then show ?case by simp
qed

section \<open>Properties\<close>

text \<open>Over any well-behaved history a slot counts as in use exactly while one of its two sides
  is open, so \<^verbatim>\<open>pty_alloc_master\<close> hands out a slot only when both sides are closed, and fails only
  when every one of the eight slots has an open side.\<close>

theorem pty_alloc_only_closed:
  assumes "pty_life P" and "pty_alloc_master P = (x, P')"
  shows "case x of
      Some i \<Rightarrow> i < PTY_COUNT \<and> \<not> master_open (P i) \<and> \<not> slave_open (P i) \<and> P' = P(i := pty_fresh_slot i)
    | None \<Rightarrow> P' = P \<and> (\<forall>i < PTY_COUNT. master_open (P i) \<or> slave_open (P i))"
  using assms(2) pty_life_in_use [OF assms(1)]
  by (auto simp: pty_alloc_master_def scan_None_iff dest: scan_SomeD split: option.splits)

lemma sample_pty_alloc: "pty_alloc_master pty_pool0 = (Some 0, pty_pool0(0 := pty_fresh_slot 0))"
  by (simp add: pty_alloc_master_def scan.simps pty_pool0_def)

theorem pty_alloc_only_closed_witness:
  "pty_life pty_pool0 \<and> pty_alloc_master pty_pool0 = (Some 0, pty_pool0(0 := pty_fresh_slot 0)) \<and>
   \<not> slave_open (pty_pool0 0)"
  using pty_alloc_only_closed [OF pty_life.boot sample_pty_alloc] sample_pty_alloc
  by (simp add: pty_life.boot)

text \<open>The master-to-slave direction of a terminal is a lossless first-in first-out byte stream
  under every interleaving of its two sides.\<close>

theorem pty_m2s_fifo:
  assumes "pty_m2s_reach s accepted delivered"
  shows "accepted = delivered @ ring_contents PTY_RING_SZ (m2s s) \<and> rb_count (m2s s) \<le> PTY_RING_SZ"
  using pty_m2s_accounted [OF assms] by (auto simp: accounted_def ring_ok_def)

lemma sample_pty_write:
  "pty_master_write ((pty_fresh_slot 0)\<lparr>slave_open := True\<rparr>) [104, 105] 0 =
     Some (WDone 2, (pty_fresh_slot 0)\<lparr>slave_open := True, m2s := ring_put PTY_RING_SZ [104, 105] empty_ring\<rparr>)"
  by (simp add: pty_master_write_def ring_write_def ring_write_loop.simps pty_fresh_slot_def
      empty_ring_def)

lemma sample_pty_open: "pty_m2s_reach ((pty_fresh_slot 0)\<lparr>slave_open := True\<rparr>) [] []"
  by (rule pty_m2s_reach.other [OF pty_m2s_reach.fresh [of 0]]) simp

theorem pty_m2s_fifo_witness:
  "[104, 105] = ring_contents PTY_RING_SZ (ring_put PTY_RING_SZ [104, 105] empty_ring)"
  using pty_m2s_fifo [OF pty_m2s_reach.master_writes [OF sample_pty_open _ sample_pty_write]]
  by simp

text \<open>Opening \<^verbatim>\<open>/dev/pts/0\<close> before any master claims the slot sets only its open flag; the slot
  stays free, the next \<^verbatim>\<open>/dev/ptmx\<close> claims it and clears the flag although that descriptor is
  still open, so the new master reads end of file at once and cannot write.\<close>

theorem pty_early_slave_forgotten:
  "let P = pty_pool0(0 := pty_slave_open (pty_pool0 0));
       (x, P') = pty_alloc_master P
   in slave_open (P 0) \<and> x = Some 0 \<and> \<not> slave_open (P' 0) \<and>
      pty_master_read (P' 0) 1 = Done (0, [], P' 0) \<and>
      pty_master_write (P' 0) [120] 0 = Some (WDone (- EINVAL), P' 0)"
  by (simp add: pty_alloc_master_def scan.simps pty_pool0_def pty_slave_open_def pty_fresh_slot_def
      pty_master_read_def pty_master_write_def ring_read_def ring_write_def ring_read_loop_def
      ring_write_loop.simps empty_ring_def)

end
