(* ===== verification/Vfs_Types.thy ===== *)
theory Vfs_Types
  imports TUS_Prelude
begin

text \<open>
  The data of the virtual file system, \<^verbatim>\<open>kernel/vfs/vfs.h\<close>: nodes and their types. Nodes refer to
  each other by address; a null pointer is \<open>None\<close>. The \<^verbatim>\<open>ops\<close> and \<^verbatim>\<open>priv\<close> pointers of a device
  node are opaque handles.
\<close>

datatype vtype = VFS_DIR | VFS_FILE | VFS_DEVICE | VFS_SOCKET | VFS_PIPE

type_synonym addr = nat

abbreviation (input) VFS_NAME_MAX :: nat where "VFS_NAME_MAX \<equiv> 64"
abbreviation (input) VFS_MAX_FDS :: nat where "VFS_MAX_FDS \<equiv> 64"
abbreviation (input) VFS_PATH_MAX :: nat where "VFS_PATH_MAX \<equiv> 256"

text \<open>The contents of a regular file: \<open>data\<close> is \<open>None\<close> while the C pointer is null; of the buffer
  only the indices below \<open>capacity\<close> are meaningful.\<close>

record vfs_node =
  nd_name :: string
  nd_type :: vtype
  nd_mode :: u32
  nd_uid :: u32
  nd_gid :: u32
  nd_data :: "bytes_array option"
  nd_size :: u64
  nd_capacity :: u64
  nd_ops :: "addr option"
  nd_priv :: "addr option"
  nd_parent :: "addr option"
  nd_sibling :: "addr option"
  nd_child :: "addr option"
  nd_open_refs :: int
  nd_unlinked :: bool
  nd_wrf_ino :: u32

text \<open>\<^verbatim>\<open>memset(node, 0, sizeof(*node))\<close>; the type is always set right after it.\<close>

definition zero_node :: vfs_node where
  "zero_node = \<lparr>nd_name = [], nd_type = VFS_FILE, nd_mode = 0, nd_uid = 0, nd_gid = 0, nd_data = None,
     nd_size = 0, nd_capacity = 0, nd_ops = None, nd_priv = None, nd_parent = None, nd_sibling = None,
     nd_child = None, nd_open_refs = 0, nd_unlinked = False, nd_wrf_ino = 0\<rparr>"

text \<open>C strings: the bytes of a name, and the text of a byte array up to its first NUL.\<close>

definition cbytes :: "string \<Rightarrow> u8 list" where
  "cbytes s = map (\<lambda>c. of_nat (of_char c)) s"

definition cstr :: "u8 list \<Rightarrow> string" where
  "cstr bs = map (\<lambda>b. char_of (unat b)) (takeWhile (\<lambda>b. b \<noteq> 0) bs)"

definition no_nul :: "string \<Rightarrow> bool" where
  "no_nul s \<longleftrightarrow> CHR 0x00 \<notin> set s"

lemma unat_char [simp]: "unat (of_nat (of_char c) :: u8) = of_char c"
  by (simp add: unat_of_nat of_char_mod_256)

lemma char_byte_zero: "(of_nat (of_char c) :: u8) = 0 \<longleftrightarrow> c = CHR 0x00"
proof -
  have "(of_nat (of_char c) :: u8) = 0 \<longleftrightarrow> (of_char c :: nat) = 0" by (metis unat_char unat_eq_zero)
  also have "\<dots> \<longleftrightarrow> (of_char c :: nat) = of_char (CHR 0x00)" by simp
  also have "\<dots> \<longleftrightarrow> c = CHR 0x00" by (rule of_char_eq_iff)
  finally show ?thesis .
qed

lemma length_cbytes [simp]: "length (cbytes s) = length s"
  by (simp add: cbytes_def)

lemma cstr_cbytes: "no_nul s \<Longrightarrow> cstr (cbytes s @ 0 # r) = s"
  by (induction s) (auto simp: cstr_def cbytes_def no_nul_def char_byte_zero)

end
