(* ===== verification/Vfs_Heap.thy ===== *)
theory Vfs_Heap
  imports Vfs_Types "HOL-Library.Monad_Syntax"
begin

text \<open>
  The pointer structure of the file tree, \<^verbatim>\<open>kernel/vfs/vfs.c\<close>: nodes in a heap, each directory with
  a singly linked list of children. Pointer loops are \<open>partial_function (option)\<close>, so \<open>None\<close> is a loop
  that never ends or a read through a dangling pointer; the lemmas below show that neither happens on a
  heap that is a \<open>tree\<close>. The tree is specified by a function \<open>kids\<close> from directories to child lists.
\<close>

type_synonym heap = "addr \<Rightarrow> vfs_node option"

section \<open>Pointer operations\<close>

text \<open>\<^verbatim>\<open>p->field = v\<close> through a pointer; reading or writing a free address is \<open>None\<close>.\<close>

definition upd_node :: "addr \<Rightarrow> (vfs_node \<Rightarrow> vfs_node) \<Rightarrow> heap \<Rightarrow> heap option" where
  "upd_node a f h = (case h a of None \<Rightarrow> None | Some n \<Rightarrow> Some (h(a \<mapsto> f n)))"

text \<open>The loop of \<^verbatim>\<open>dir_find\<close> over a sibling chain.\<close>

partial_function (option) sib_find :: "heap \<Rightarrow> string \<Rightarrow> addr option \<Rightarrow> addr option option" where
  "sib_find h name p =
     (case p of
        None \<Rightarrow> Some None
      | Some a \<Rightarrow>
          (case h a of
             None \<Rightarrow> None
           | Some n \<Rightarrow> if nd_name n = name then Some (Some a) else sib_find h name (nd_sibling n)))"

definition dir_find :: "heap \<Rightarrow> addr \<Rightarrow> string \<Rightarrow> addr option option" where
  "dir_find h dir name = do { d \<leftarrow> h dir; sib_find h name (nd_child d) }"

definition dir_attach :: "heap \<Rightarrow> addr \<Rightarrow> addr \<Rightarrow> heap option" where
  "dir_attach h dir node = do {
     h \<leftarrow> upd_node node (\<lambda>n. n\<lparr>nd_parent := Some dir\<rparr>) h;
     d \<leftarrow> h dir;
     h \<leftarrow> upd_node node (\<lambda>n. n\<lparr>nd_sibling := nd_child d\<rparr>) h;
     upd_node dir (\<lambda>d. d\<lparr>nd_child := Some node\<rparr>) h }"

text \<open>A pointer to a link field, \<^verbatim>\<open>struct vfs_node **link\<close>: the \<^verbatim>\<open>child\<close> field of a directory or the
  \<^verbatim>\<open>sibling\<close> field of a node.\<close>

datatype link = LChild addr | LSibling addr

fun link_get :: "heap \<Rightarrow> link \<Rightarrow> addr option option" where
  "link_get h (LChild a) = map_option nd_child (h a)"
| "link_get h (LSibling a) = map_option nd_sibling (h a)"

fun link_set :: "link \<Rightarrow> addr option \<Rightarrow> heap \<Rightarrow> heap option" where
  "link_set (LChild a) v h = upd_node a (\<lambda>n. n\<lparr>nd_child := v\<rparr>) h"
| "link_set (LSibling a) v h = upd_node a (\<lambda>n. n\<lparr>nd_sibling := v\<rparr>) h"

text \<open>\<^verbatim>\<open>while (*link != NULL) { if (p( *link)) ...; link = &( *link)->sibling; }\<close>\<close>

partial_function (option) find_link :: "heap \<Rightarrow> (addr \<Rightarrow> vfs_node \<Rightarrow> bool) \<Rightarrow> link \<Rightarrow> (link \<times> addr) option option" where
  "find_link h p l =
     (case link_get h l of
        None \<Rightarrow> None
      | Some None \<Rightarrow> Some None
      | Some (Some a) \<Rightarrow>
          (case h a of
             None \<Rightarrow> None
           | Some n \<Rightarrow> if p a n then Some (Some (l, a)) else find_link h p (LSibling a)))"

text \<open>The loop of \<^verbatim>\<open>vfs_rename\<close> that detaches one node: when the node is not in the chain nothing
  changes.\<close>

definition unlink_node :: "heap \<Rightarrow> addr \<Rightarrow> addr \<Rightarrow> heap option" where
  "unlink_node h dir node = do {
     r \<leftarrow> find_link h (\<lambda>a _. a = node) (LChild dir);
     case r of
       None \<Rightarrow> Some h
     | Some (l, a) \<Rightarrow> do { n \<leftarrow> h a; link_set l (nd_sibling n) h } }"

section \<open>Child lists\<close>

primrec chain :: "heap \<Rightarrow> addr option \<Rightarrow> addr list \<Rightarrow> bool" where
  "chain h p [] \<longleftrightarrow> p = None"
| "chain h p (a # as) \<longleftrightarrow> p = Some a \<and> (case h a of None \<Rightarrow> False | Some n \<Rightarrow> chain h (nd_sibling n) as)"

lemma chain_unique: "chain h p xs \<Longrightarrow> chain h p ys \<Longrightarrow> xs = ys"
proof (induction xs arbitrary: p ys)
  case Nil
  then show ?case by (cases ys) auto
next
  case (Cons a xs)
  then show ?case by (cases ys) (auto split: option.splits)
qed

lemma chain_append: "chain h p (xs @ ys) \<Longrightarrow> \<exists>q. chain h q ys"
  by (induction xs arbitrary: p) (auto split: option.splits)

lemma chain_distinct: "chain h p xs \<Longrightarrow> distinct xs"
proof (induction xs arbitrary: p)
  case (Cons a xs)
  have "a \<notin> set xs"
  proof
    assume "a \<in> set xs"
    then obtain ys zs where xs: "xs = ys @ a # zs" by (metis split_list)
    then obtain q where "chain h q (a # zs)" using Cons.prems chain_append [of h p "a # ys" "a # zs"] by auto
    then have "q = Some a" by simp
    then have "a # zs = a # xs" using \<open>chain h q (a # zs)\<close> Cons.prems by (intro chain_unique) auto
    then show False using xs by simp
  qed
  then show ?case using Cons by (auto split: option.splits)
qed simp

lemma chain_cong:
  "(\<And>a. a \<in> set xs \<Longrightarrow> map_option nd_sibling (h' a) = map_option nd_sibling (h a)) \<Longrightarrow> chain h' p xs = chain h p xs"
proof (induction xs arbitrary: p)
  case (Cons a xs)
  have "map_option nd_sibling (h' a) = map_option nd_sibling (h a)" using Cons.prems by simp
  then show ?case using Cons by (cases "h a"; cases "h' a") auto
qed simp

lemma chain_in_heap: "chain h p xs \<Longrightarrow> a \<in> set xs \<Longrightarrow> \<exists>n. h a = Some n"
  by (induction xs arbitrary: p) (auto split: option.splits)

text \<open>On a proper chain the search loop returns the first match.\<close>

lemma sib_find_chain:
  "chain h p xs \<Longrightarrow> sib_find h name p = Some (find (\<lambda>a. map_option nd_name (h a) = Some name) xs)"
proof (induction xs arbitrary: p)
  case Nil
  then show ?case by (simp add: sib_find.simps)
next
  case (Cons a xs)
  then obtain n where n: "h a = Some n" "chain h (nd_sibling n) xs" "p = Some a" by (auto split: option.splits)
  then show ?case using Cons.IH [OF n(2)] by (simp add: sib_find.simps [of h name "Some a"])
qed

text \<open>Where the link loop stops, and what cutting the node out leaves.\<close>

lemma find_link_chain:
  assumes "link_get h l = Some p" "chain h p (xs @ a # ys)" "h a = Some n" "P a n"
    and "\<And>b m. b \<in> set xs \<Longrightarrow> h b = Some m \<Longrightarrow> \<not> P b m"
  shows "find_link h P l = Some (Some (if xs = [] then l else LSibling (last xs), a))"
  using assms
proof (induction xs arbitrary: l p)
  case Nil
  then show ?case by (simp add: find_link.simps)
next
  case (Cons b xs)
  then obtain m where m: "h b = Some m" "chain h (nd_sibling m) (xs @ a # ys)" "p = Some b" by (auto split: option.splits)
  have "find_link h P l = find_link h P (LSibling b)"
    using m Cons.prems(1,5) by (simp add: find_link.simps [of h P l])
  also have "\<dots> = Some (Some (if xs = [] then LSibling b else LSibling (last xs), a))"
    using m Cons.prems by (intro Cons.IH) auto
  finally show ?case by simp
qed

lemma find_link_None:
  assumes "link_get h l = Some p" "chain h p xs" "\<And>b m. b \<in> set xs \<Longrightarrow> h b = Some m \<Longrightarrow> \<not> P b m"
  shows "find_link h P l = Some None"
  using assms
proof (induction xs arbitrary: l p)
  case Nil
  then show ?case by (simp add: find_link.simps)
next
  case (Cons b xs)
  then obtain m where m: "h b = Some m" "chain h (nd_sibling m) xs" "p = Some b" by (auto split: option.splits)
  then show ?case using Cons.prems(1,3) Cons.IH [of "LSibling b" "nd_sibling m"] by (simp add: find_link.simps [of h P l])
qed

lemma chain_cut_sibling:
  assumes "chain h p (xs @ b # a # ys)" "h a = Some n" "h b = Some m"
  shows "chain (h(b \<mapsto> m\<lparr>nd_sibling := nd_sibling n\<rparr>)) p (xs @ b # ys)"
  using assms
proof (induction xs arbitrary: p)
  case Nil
  have "b \<notin> set ys" using chain_distinct [OF Nil.prems(1)] by auto
  then have "chain (h(b \<mapsto> m\<lparr>nd_sibling := nd_sibling n\<rparr>)) (nd_sibling n) ys = chain h (nd_sibling n) ys"
    by (intro chain_cong) auto
  then show ?case using Nil by (simp add: fun_upd_def)
next
  case (Cons c xs)
  have "b \<noteq> c" using chain_distinct [OF Cons.prems(1)] by auto
  then show ?case using Cons by (auto split: option.splits)
qed

section \<open>The tree invariant\<close>

definition name_ok :: "string \<Rightarrow> bool" where
  "name_ok s \<longleftrightarrow> length s < VFS_NAME_MAX \<and> CHR 0x2F \<notin> set s"

definition name_of :: "heap \<Rightarrow> addr \<Rightarrow> string option" where
  "name_of h a = map_option nd_name (h a)"

definition tree :: "heap \<Rightarrow> addr \<Rightarrow> (addr \<Rightarrow> addr list) \<Rightarrow> bool" where
  "tree h r kids \<longleftrightarrow>
     (\<forall>a n. h a = Some n \<longrightarrow> chain h (nd_child n) (kids a) \<and> (nd_type n \<noteq> VFS_DIR \<longrightarrow> kids a = [])) \<and>
     (\<forall>a. h a = None \<longrightarrow> kids a = []) \<and>
     (\<forall>d c. c \<in> set (kids d) \<longrightarrow> (\<exists>m. h c = Some m \<and> nd_parent m = Some d \<and> name_ok (nd_name m))) \<and>
     (\<forall>d. inj_on (name_of h) (set (kids d))) \<and>
     (\<exists>n. h r = Some n \<and> nd_type n = VFS_DIR \<and> nd_parent n = None)"

lemma treeD:
  assumes "tree h r kids"
  shows "h a = Some n \<Longrightarrow> chain h (nd_child n) (kids a)"
    and "h a = Some n \<Longrightarrow> nd_type n \<noteq> VFS_DIR \<Longrightarrow> kids a = []"
    and "h a = None \<Longrightarrow> kids a = []"
    and "c \<in> set (kids d) \<Longrightarrow> \<exists>m. h c = Some m \<and> nd_parent m = Some d \<and> name_ok (nd_name m)"
    and "inj_on (name_of h) (set (kids d))"
    and "\<exists>n. h r = Some n \<and> nd_type n = VFS_DIR \<and> nd_parent n = None"
  using assms unfolding tree_def by blast+

lemma tree_one_parent: "tree h r kids \<Longrightarrow> c \<in> set (kids d) \<Longrightarrow> c \<in> set (kids d') \<Longrightarrow> d = d'"
  using treeD(4) by (metis option.inject)

lemma tree_root_no_kid: "tree h r kids \<Longrightarrow> r \<notin> set (kids d)"
  using treeD(4,6) by (metis option.distinct(1) option.inject)

lemma tree_kids_distinct: "tree h r kids \<Longrightarrow> distinct (kids d)"
  by (cases "h d") (auto simp: treeD(3) dest: treeD(1) chain_distinct)

lemma tree_kids_dir: "tree h r kids \<Longrightarrow> c \<in> set (kids d) \<Longrightarrow> \<exists>n. h d = Some n \<and> nd_type n = VFS_DIR"
  using treeD(2,3) by (metis empty_iff list.set(1) not_None_eq)

text \<open>\<^verbatim>\<open>dir_find\<close> on a tree is a total function: the child with that name.\<close>

lemma dir_find_tree:
  assumes "tree h r kids" "h d = Some n"
  shows "dir_find h d name = Some (find (\<lambda>a. name_of h a = Some name) (kids d))"
  using sib_find_chain [OF treeD(1) [OF assms]] assms(2) by (simp add: dir_find_def name_of_def)

lemma find_unique:
  "inj_on f (set xs) \<Longrightarrow> a \<in> set xs \<Longrightarrow> f a = v \<Longrightarrow> find (\<lambda>a. f a = v) xs = Some a"
  by (induction xs) (auto simp: inj_on_def)

lemma find_in: "find P xs = Some a \<Longrightarrow> a \<in> set xs \<and> P a"
  by (auto simp: find_Some_iff)

lemma dir_find_kid:
  assumes "tree h r kids" "h d = Some n" "c \<in> set (kids d)" "name_of h c = Some name"
  shows "dir_find h d name = Some (Some c)"
  using dir_find_tree [OF assms(1,2)] find_unique [OF treeD(5) [OF assms(1)] assms(3,4)] by simp

lemma dir_find_SomeD:
  assumes "tree h r kids" "dir_find h d name = Some (Some c)"
  shows "c \<in> set (kids d) \<and> name_of h c = Some name"
proof (cases "h d")
  case None
  then show ?thesis using assms(2) by (simp add: dir_find_def)
next
  case (Some n)
  then have "find (\<lambda>a. name_of h a = Some name) (kids d) = Some c"
    using dir_find_tree [OF assms(1) Some, of name] assms(2) by simp
  then show ?thesis by (rule find_in)
qed

lemma dir_find_NoneD:
  assumes "tree h r kids" "dir_find h d name = Some None" "c \<in> set (kids d)"
  shows "name_of h c \<noteq> Some name"
proof -
  obtain n where "h d = Some n" using assms(2) by (auto simp: dir_find_def bind_eq_Some_conv)
  then show ?thesis using dir_find_kid [OF assms(1) _ assms(3)] assms(2) by force
qed

section \<open>How the tree changes\<close>

text \<open>Updates that leave the name, the type and the three pointers of a node alone.\<close>

definition same_shape :: "vfs_node \<Rightarrow> vfs_node \<Rightarrow> bool" where
  "same_shape n m \<longleftrightarrow> nd_name m = nd_name n \<and> nd_type m = nd_type n \<and> nd_parent m = nd_parent n \<and>
     nd_sibling m = nd_sibling n \<and> nd_child m = nd_child n"

lemma tree_upd_shape:
  assumes t: "tree h r kids" and n: "h a = Some n" and s: "same_shape n m"
  shows "tree (h(a \<mapsto> m)) r kids"
proof -
  have ch: "chain (h(a \<mapsto> m)) p xs = chain h p xs" for p xs
    using n s by (intro chain_cong) (auto simp: same_shape_def)
  have nm: "name_of (h(a \<mapsto> m)) = name_of h" using n s by (auto simp: name_of_def same_shape_def fun_eq_iff)
  have kid: "\<exists>m'. (h(a \<mapsto> m)) c = Some m' \<and> nd_parent m' = Some d \<and> name_ok (nd_name m')" if "c \<in> set (kids d)" for c d
    using treeD(4) [OF t that] n s by (auto simp: same_shape_def)
  show ?thesis
    unfolding tree_def ch nm
    using treeD(1-3,5,6) [OF t] kid n s by (auto simp: same_shape_def split: if_splits)
qed

text \<open>A node no directory lists: it can be added, renamed, attached and freed.\<close>

definition orphan :: "(addr \<Rightarrow> addr list) \<Rightarrow> addr \<Rightarrow> bool" where
  "orphan kids a \<longleftrightarrow> (\<forall>d. a \<notin> set (kids d))"

lemma tree_fresh_orphan: "tree h r kids \<Longrightarrow> h a = None \<Longrightarrow> orphan kids a"
  unfolding orphan_def by (metis treeD(4) option.distinct(1))

lemma name_of_upd_orphan:
  "orphan kids a \<Longrightarrow> inj_on (name_of (h(a := v))) (set (kids d)) = inj_on (name_of h) (set (kids d))"
  by (rule inj_on_cong) (auto simp: orphan_def name_of_def)

lemma chain_upd_orphan:
  "orphan kids a \<Longrightarrow> chain (h(a := v)) p (kids d) = chain h p (kids d)"
  by (rule chain_cong) (auto simp: orphan_def)

lemma tree_add:
  assumes t: "tree h r kids" and a: "h a = None" and n: "nd_child n = None"
  shows "tree (h(a \<mapsto> n)) r kids"
proof -
  have o: "orphan kids a" by (rule tree_fresh_orphan [OF t a])
  have "kids a = []" using treeD(3) [OF t a] .
  then show ?thesis
    unfolding tree_def name_of_upd_orphan [OF o] chain_upd_orphan [OF o]
    using t a n o unfolding tree_def orphan_def by (auto simp: fun_upd_def)
qed

lemma tree_free:
  assumes t: "tree h r kids" and o: "orphan kids a" and k: "kids a = []" and "a \<noteq> r"
  shows "tree (h(a := None)) r kids"
  unfolding tree_def name_of_upd_orphan [OF o] chain_upd_orphan [OF o]
  using t o k \<open>a \<noteq> r\<close> unfolding tree_def orphan_def by (auto simp: fun_upd_def)

lemma tree_rename_orphan:
  assumes t: "tree h r kids" and o: "orphan kids a" and n: "h a = Some n"
  shows "tree (h(a \<mapsto> n\<lparr>nd_name := nm\<rparr>)) r kids"
  unfolding tree_def name_of_upd_orphan [OF o] chain_upd_orphan [OF o]
  using t o n unfolding tree_def orphan_def by (auto simp: fun_upd_def)

text \<open>\<^verbatim>\<open>dir_attach\<close> puts the node in front of the list; the directory may be the node itself.\<close>

definition attached :: "heap \<Rightarrow> addr \<Rightarrow> addr \<Rightarrow> vfs_node \<Rightarrow> vfs_node \<Rightarrow> heap" where
  "attached h d a dn n =
     (if d = a then h(a \<mapsto> n\<lparr>nd_parent := Some a, nd_sibling := nd_child n, nd_child := Some a\<rparr>)
      else h(a \<mapsto> n\<lparr>nd_parent := Some d, nd_sibling := nd_child dn\<rparr>, d \<mapsto> dn\<lparr>nd_child := Some a\<rparr>))"

lemma dir_attach_eq:
  "h d = Some dn \<Longrightarrow> h a = Some n \<Longrightarrow> dir_attach h d a = Some (attached h d a dn n)"
  by (auto simp: dir_attach_def upd_node_def attached_def)

lemma attached_sibling:
  assumes "h d = Some dn" "h a = Some n" "b \<noteq> a"
  shows "map_option nd_sibling (attached h d a dn n b) = map_option nd_sibling (h b)"
  using assms by (auto simp: attached_def)

lemma name_of_attached:
  assumes "h d = Some dn" "h a = Some n"
  shows "name_of (attached h d a dn n) = name_of h"
  using assms by (auto simp: attached_def name_of_def fun_eq_iff)

lemma attached_cases:
  assumes "attached h d a dn n b = Some m" "h d = Some dn" "h a = Some n"
  obtains m' where "h b = Some m'" "nd_type m = nd_type m'" "nd_name m = nd_name m'"
    "nd_child m = (if b = d then Some a else nd_child m')" "nd_parent m = (if b = a then Some d else nd_parent m')"
    "b = a \<Longrightarrow> nd_sibling m = nd_child dn"
  using assms that by (auto simp: attached_def split: if_splits)

lemma attached_dom: "h d = Some dn \<Longrightarrow> h a = Some n \<Longrightarrow> attached h d a dn n b = None \<longleftrightarrow> h b = None"
  by (auto simp: attached_def)

lemma tree_attach:
  assumes t: "tree h r kids" and d: "h d = Some dn" "nd_type dn = VFS_DIR" and a: "h a = Some n"
    and o: "orphan kids a" and ok: "name_ok (nd_name n)" and ne: "a \<noteq> r"
    and new: "\<And>c. c \<in> set (kids d) \<Longrightarrow> name_of h c \<noteq> Some (nd_name n)"
  shows "tree (attached h d a dn n) r (kids(d := a # kids d))"
proof -
  let ?h = "attached h d a dn n" and ?k = "kids(d := a # kids d)"
  have ch: "chain ?h p (kids b) = chain h p (kids b)" for p b
    using o by (intro chain_cong attached_sibling [OF d(1) a]) (auto simp: orphan_def)
  have an: "\<exists>m. ?h a = Some m \<and> nd_sibling m = nd_child dn" using d a by (auto simp: attached_def)
  show ?thesis
    unfolding tree_def
  proof (intro conjI allI impI)
    fix b m assume m: "?h b = Some m"
    then obtain m' where m': "h b = Some m'" "nd_type m = nd_type m'" "nd_child m = (if b = d then Some a else nd_child m')"
      using attached_cases [OF m d(1) a] by metis
    show "chain ?h (nd_child m) (?k b)"
      using m' treeD(1) [OF t m'(1)] an ch [of "nd_child dn" d] treeD(1) [OF t d(1)] ch [of "nd_child m'" b] by auto
    show "?k b = []" if "nd_type m \<noteq> VFS_DIR" using that m' d treeD(2) [OF t m'(1)] by auto
  next
    fix b assume "?h b = None"
    then show "?k b = []" using d a treeD(3) [OF t] by (auto simp: attached_dom)
  next
    fix e c assume c: "c \<in> set (?k e)"
    show "\<exists>m. ?h c = Some m \<and> nd_parent m = Some e \<and> name_ok (nd_name m)"
    proof (cases "c = a")
      case True
      then have "e = d" using c o by (auto simp: orphan_def split: if_splits)
      then show ?thesis using True d a ok by (auto simp: attached_def)
    next
      case False
      then obtain m where "h c = Some m" "nd_parent m = Some e" "name_ok (nd_name m)"
        using c treeD(4) [OF t, of c e] by (auto split: if_splits)
      then show ?thesis using False d a by (auto simp: attached_def)
    qed
  next
    fix e
    have "name_of h a = Some (nd_name n)" using a by (simp add: name_of_def)
    then have "inj_on (name_of h) (set (?k e))"
      using treeD(5) [OF t, of e] new by (auto dest: sym)
    then show "inj_on (name_of ?h) (set (?k e))" by (simp add: name_of_attached [OF d(1) a])
  next
    show "\<exists>n'. ?h r = Some n' \<and> nd_type n' = VFS_DIR \<and> nd_parent n' = None"
      using treeD(6) [OF t] d a ne by (auto simp: attached_def)
  qed
qed

text \<open>Cutting a child out of its list; only link fields change.\<close>

definition body :: "vfs_node \<Rightarrow> vfs_node" where
  "body n = n\<lparr>nd_sibling := None, nd_child := None\<rparr>"

lemma body_eqD:
  assumes "body m = body n"
  shows "nd_name m = nd_name n" "nd_type m = nd_type n" "nd_parent m = nd_parent n" "nd_open_refs m = nd_open_refs n"
    "nd_wrf_ino m = nd_wrf_ino n" "nd_unlinked m = nd_unlinked n" "nd_data m = nd_data n" "nd_mode m = nd_mode n"
    "nd_size m = nd_size n" "nd_uid m = nd_uid n" "nd_gid m = nd_gid n"
  using assms by (cases m, cases n, simp add: body_def)+

lemma name_of_body:
  assumes "\<And>b. map_option body (h' b) = map_option body (h b)"
  shows "name_of h' = name_of h"
proof
  fix b
  show "name_of h' b = name_of h b"
    using assms [of b] by (cases "h b"; cases "h' b") (auto simp: name_of_def dest: body_eqD(1))
qed

definition cut_link :: "addr \<Rightarrow> addr list \<Rightarrow> link" where
  "cut_link d xs = (if xs = [] then LChild d else LSibling (last xs))"

lemma cut_chain:
  assumes ch: "chain h (nd_child dn) (xs @ a # ys)" and d: "h d = Some dn" and a: "h a = Some n"
  obtains h' dn' where "link_set (cut_link d xs) (nd_sibling n) h = Some h'" "h' d = Some dn'"
    "chain h' (nd_child dn') (xs @ ys)" "\<And>b. map_option body (h' b) = map_option body (h b)"
    "\<And>b. b \<noteq> d \<Longrightarrow> map_option nd_child (h' b) = map_option nd_child (h b)"
    "\<And>b. b \<notin> set xs \<Longrightarrow> map_option nd_sibling (h' b) = map_option nd_sibling (h b)"
proof (cases xs rule: rev_cases)
  case Nil
  let ?h = "h(d \<mapsto> dn\<lparr>nd_child := nd_sibling n\<rparr>)"
  have "chain ?h (nd_sibling n) ys = chain h (nd_sibling n) ys" using d by (intro chain_cong) auto
  then have "chain ?h (nd_sibling n) ys" using ch a Nil by simp
  then show ?thesis using that [of ?h "dn\<lparr>nd_child := nd_sibling n\<rparr>"] d Nil
    by (simp add: cut_link_def upd_node_def body_def)
next
  case (snoc zs b)
  then obtain m where m: "h b = Some m" using chain_in_heap [OF ch, of b] by auto
  let ?m = "m\<lparr>nd_sibling := nd_sibling n\<rparr>"
  have c: "chain (h(b \<mapsto> ?m)) (nd_child dn) (zs @ b # ys)"
    using chain_cut_sibling [of h "nd_child dn" zs b a ys n m] ch snoc a m by simp
  let ?dn = "if d = b then ?m else dn"
  have "nd_child ?dn = nd_child dn" using d m by auto
  then show ?thesis using that [of "h(b \<mapsto> ?m)" ?dn] c d m snoc
    by (simp add: cut_link_def upd_node_def body_def)
qed

lemma tree_detach:
  assumes t: "tree h r kids" and k: "kids d = xs @ a # ys" and d: "h d = Some dn" and a: "h a = Some n"
  obtains h' where "link_set (cut_link d xs) (nd_sibling n) h = Some h'"
    "tree h' r (kids(d := xs @ ys))" "orphan (kids(d := xs @ ys)) a"
    "\<And>b. map_option body (h' b) = map_option body (h b)"
    "\<And>b. b \<noteq> d \<Longrightarrow> map_option nd_child (h' b) = map_option nd_child (h b)"
proof -
  have ch: "chain h (nd_child dn) (xs @ a # ys)" using treeD(1) [OF t d] k by simp
  obtain h' dn' where h': "link_set (cut_link d xs) (nd_sibling n) h = Some h'"
    and dn': "h' d = Some dn'" "chain h' (nd_child dn') (xs @ ys)"
    and bd: "\<And>b. map_option body (h' b) = map_option body (h b)"
    and cd: "\<And>b. b \<noteq> d \<Longrightarrow> map_option nd_child (h' b) = map_option nd_child (h b)"
    and sb: "\<And>b. b \<notin> set xs \<Longrightarrow> map_option nd_sibling (h' b) = map_option nd_sibling (h b)"
    by (rule cut_chain [OF ch d a]) (metis+)
  let ?k = "kids(d := xs @ ys)"
  have sub: "set (?k e) \<subseteq> set (kids e)" for e using k by auto
  have dist: "a \<notin> set (xs @ ys)" using tree_kids_distinct [OF t, of d] k by auto
  have orph: "orphan ?k a" unfolding orphan_def using dist tree_one_parent [OF t, of a d] k by auto
  have old: "\<exists>m. h b = Some m \<and> body m' = body m" if "h' b = Some m'" for b m'
    using bd [of b] that by (cases "h b") auto
  have new: "\<exists>m'. h' b = Some m' \<and> body m' = body m" if "h b = Some m" for b m
    using bd [of b] that by (cases "h' b") auto
  have nm: "name_of h' = name_of h" by (rule name_of_body) (rule bd)
  have "tree h' r ?k"
    unfolding tree_def
  proof (intro conjI allI impI)
    fix b m' assume m': "h' b = Some m'"
    then obtain m where m: "h b = Some m" "body m' = body m" using old by blast
    show "chain h' (nd_child m') (?k b)"
    proof (cases "b = d")
      case True
      then show ?thesis using dn' m' by simp
    next
      case False
      have "chain h' (nd_child m) (kids b) = chain h (nd_child m) (kids b)"
        using False tree_one_parent [OF t, of _ b d] k by (intro chain_cong sb) auto
      then show ?thesis using False treeD(1) [OF t m(1)] cd [OF False] m m' by simp
    qed
    show "?k b = []" if "nd_type m' \<noteq> VFS_DIR"
      using that treeD(2) [OF t m(1)] body_eqD(2) [OF m(2)] sub [of b] by simp
  next
    fix b assume "h' b = None"
    then have "h b = None" using bd [of b] by simp
    then show "?k b = []" using treeD(3) [OF t] sub [of b] by fastforce
  next
    fix e c assume "c \<in> set (?k e)"
    then obtain m where m: "h c = Some m" "nd_parent m = Some e" "name_ok (nd_name m)"
      using treeD(4) [OF t, of c e] sub by blast
    then show "\<exists>m. h' c = Some m \<and> nd_parent m = Some e \<and> name_ok (nd_name m)"
      using new [OF m(1)] body_eqD by metis
  next
    fix e
    show "inj_on (name_of h') (set (?k e))" unfolding nm using treeD(5) [OF t] sub inj_on_subset by blast
  next
    show "\<exists>n. h' r = Some n \<and> nd_type n = VFS_DIR \<and> nd_parent n = None"
      using treeD(6) [OF t] new body_eqD by metis
  qed
  then show ?thesis using that h' orph bd cd by blast
qed

section \<open>The abstract file system\<close>

text \<open>What the pointer structure stands for: every directory is a finite map from names to nodes.\<close>

type_synonym dirs = "addr \<Rightarrow> (string \<Rightarrow> addr option) option"

definition dir_at :: "heap \<Rightarrow> addr \<Rightarrow> bool" where
  "dir_at h d = (case h d of None \<Rightarrow> False | Some n \<Rightarrow> nd_type n = VFS_DIR)"

definition dirmap :: "heap \<Rightarrow> dirs" where
  "dirmap h d =
     (if dir_at h d then Some (\<lambda>name. case dir_find h d name of None \<Rightarrow> None | Some r \<Rightarrow> r) else None)"

fun awalk :: "dirs \<Rightarrow> addr \<Rightarrow> string list \<Rightarrow> addr option" where
  "awalk D a [] = Some a"
| "awalk D a (c # cs) =
     (case D a of None \<Rightarrow> None | Some m \<Rightarrow> (case m c of None \<Rightarrow> None | Some b \<Rightarrow> awalk D b cs))"

lemma dirmap_tree:
  assumes "tree h r kids"
  shows "dirmap h d = (if dir_at h d then Some (\<lambda>nm. find (\<lambda>a. name_of h a = Some nm) (kids d)) else None)"
  using dir_find_tree [OF assms] by (auto simp: dirmap_def dir_at_def split: option.splits)

lemma dirmap_SomeD:
  assumes "tree h r kids" "dirmap h d = Some m"
  shows "dir_at h d" "m nm = Some c \<longleftrightarrow> c \<in> set (kids d) \<and> name_of h c = Some nm"
proof -
  show dir: "dir_at h d" using assms(2) by (simp add: dirmap_def split: if_splits)
  have "m nm = find (\<lambda>a. name_of h a = Some nm) (kids d)"
    using assms(2) dir by (auto simp: dirmap_tree [OF assms(1)])
  then show "m nm = Some c \<longleftrightarrow> c \<in> set (kids d) \<and> name_of h c = Some nm"
    using find_unique [OF treeD(5) [OF assms(1), of d], of c "Some nm"]
      find_in [of "\<lambda>a. name_of h a = Some nm" "kids d" c] by auto
qed

lemma dirmap_eqI:
  assumes "tree h r kids" "dir_at h d" "\<And>nm c. m nm = Some c \<longleftrightarrow> c \<in> set (kids d) \<and> name_of h c = Some nm"
  shows "dirmap h d = Some m"
proof -
  obtain m' where m': "dirmap h d = Some m'" using assms(2) by (simp add: dirmap_def)
  have "m' nm = m nm" for nm
    using dirmap_SomeD(2) [OF assms(1) m', of nm] assms(3) [of nm] by (metis not_None_eq)
  then show ?thesis using m' by (simp add: fun_eq_iff)
qed

lemma dirmap_same:
  assumes "tree h r kids" "tree h' r kids'" "dir_at h' d = dir_at h d" "kids' d = kids d"
    and "\<And>c. c \<in> set (kids d) \<Longrightarrow> name_of h' c = name_of h c"
  shows "dirmap h' d = dirmap h d"
proof -
  have "find (\<lambda>a. name_of h' a = Some nm) (kids d) = find (\<lambda>a. name_of h a = Some nm) (kids d)" for nm
    using assms(5) by (intro find_cong) auto
  then show ?thesis using assms(3,4) by (simp add: dirmap_tree [OF assms(1)] dirmap_tree [OF assms(2)])
qed

lemma dirmap_shape:
  assumes "tree h r kids" "h a = Some n" "same_shape n m"
  shows "dirmap (h(a \<mapsto> m)) = dirmap h"
proof
  fix d show "dirmap (h(a \<mapsto> m)) d = dirmap h d"
    using assms by (intro dirmap_same [OF assms(1) tree_upd_shape [OF assms]])
      (auto simp: dir_at_def name_of_def same_shape_def)
qed

lemma dirmap_add:
  assumes t: "tree h r kids" and a: "h a = None" and n: "nd_child n = None"
  shows "dirmap (h(a \<mapsto> n)) = (dirmap h)(a := if nd_type n = VFS_DIR then Some Map.empty else None)"
proof
  fix d
  note t' = tree_add [OF t a n]
  show "dirmap (h(a \<mapsto> n)) d = ((dirmap h)(a := if nd_type n = VFS_DIR then Some Map.empty else None)) d"
  proof (cases "d = a")
    case True
    then show ?thesis using treeD(3) [OF t a] by (auto simp: dirmap_tree [OF t'] dir_at_def)
  next
    case False
    have "dirmap (h(a \<mapsto> n)) d = dirmap h d"
      using False tree_fresh_orphan [OF t a] by (intro dirmap_same [OF t t']) (auto simp: dir_at_def name_of_def orphan_def)
    then show ?thesis using False by simp
  qed
qed

lemma dirmap_orphan:
  assumes t: "tree h r kids" and o: "orphan kids a" and t': "tree (h(a := v)) r kids"
    and "v = None \<or> (\<exists>n m. h a = Some n \<and> v = Some m \<and> nd_type m = nd_type n)"
  shows "dirmap (h(a := v)) = (if v = None then (dirmap h)(a := None) else dirmap h)"
proof
  fix d
  have "dirmap (h(a := v)) d = dirmap h d" if "d \<noteq> a \<or> v \<noteq> None"
    using o that assms(4) by (intro dirmap_same [OF t t']) (auto simp: dir_at_def name_of_def orphan_def)
  moreover have "v = None \<Longrightarrow> dirmap (h(a := v)) a = None" by (simp add: dirmap_def dir_at_def)
  ultimately show "dirmap (h(a := v)) d = (if v = None then (dirmap h)(a := None) else dirmap h) d" by auto
qed

lemma dirmap_attach:
  assumes t: "tree h r kids" and d: "h d = Some dn" and m: "dirmap h d = Some m" and a: "h a = Some n"
    and t': "tree (attached h d a dn n) r (kids(d := a # kids d))" and o: "orphan kids a"
  shows "dirmap (attached h d a dn n) = (dirmap h)(d \<mapsto> m(nd_name n \<mapsto> a))"
proof
  fix e
  have dir: "dir_at (attached h d a dn n) e = dir_at h e" for e using d a by (auto simp: dir_at_def attached_def)
  have na: "name_of h a = Some (nd_name n)" using a by (simp add: name_of_def)
  have fresh: "m (nd_name n) \<noteq> Some c" if "c \<in> set (kids d)" for c
  proof
    assume "m (nd_name n) = Some c"
    then have "name_of h c = name_of h a" using dirmap_SomeD(2) [OF t m] na by simp
    then show False using treeD(5) [OF t', of d] that o by (auto simp: name_of_attached [OF d a] inj_on_def orphan_def)
  qed
  show "dirmap (attached h d a dn n) e = ((dirmap h)(d \<mapsto> m(nd_name n \<mapsto> a))) e"
  proof (cases "e = d")
    case True
    have "dirmap (attached h d a dn n) d = Some (m(nd_name n \<mapsto> a))"
      using dirmap_SomeD [OF t m] na fresh
      by (intro dirmap_eqI [OF t']) (auto simp: dir name_of_attached [OF d a])
    then show ?thesis using True by simp
  next
    case False
    have "dirmap (attached h d a dn n) e = dirmap h e"
      using False by (intro dirmap_same [OF t t' dir]) (auto simp: name_of_attached [OF d a])
    then show ?thesis using False by simp
  qed
qed

lemma dirmap_detach:
  assumes t: "tree h r kids" and k: "kids d = xs @ a # ys" and nm: "name_of h a = Some nm" and m: "dirmap h d = Some m"
    and t': "tree h' r (kids(d := xs @ ys))" and b: "\<And>b. map_option body (h' b) = map_option body (h b)"
  shows "dirmap h' = (dirmap h)(d \<mapsto> m(nm := None))"
proof
  fix e
  have names: "name_of h' = name_of h" by (rule name_of_body) (rule b)
  have dir: "dir_at h' e = dir_at h e" for e
    using b [of e] by (cases "h e"; cases "h' e") (auto simp: dir_at_def dest: body_eqD(2))
  have a: "a \<notin> set (xs @ ys)" using tree_kids_distinct [OF t, of d] k by auto
  show "dirmap h' e = ((dirmap h)(d \<mapsto> m(nm := None))) e"
  proof (cases "e = d")
    case True
    have "dirmap h' d = Some (m(nm := None))"
    proof (rule dirmap_eqI [OF t'])
      show "dir_at h' d" using dirmap_SomeD(1) [OF t m] dir by simp
      fix x c
      have "c \<in> set (xs @ ys) \<and> name_of h c = Some x \<longleftrightarrow> x \<noteq> nm \<and> c \<in> set (kids d) \<and> name_of h c = Some x"
        using a k nm treeD(5) [OF t, of d] by (auto simp: inj_on_def)
      then show "(m(nm := None)) x = Some c \<longleftrightarrow> c \<in> set ((kids(d := xs @ ys)) d) \<and> name_of h' c = Some x"
        using dirmap_SomeD(2) [OF t m, of x c] by (simp add: names)
    qed
    then show ?thesis using True by simp
  next
    case False
    have "dirmap h' e = dirmap h e" using False by (intro dirmap_same [OF t t' dir]) (auto simp: names)
    then show ?thesis using False by simp
  qed
qed

end
