(* ===== verification/Vfs_Path.thy ===== *)
theory Vfs_Path
  imports Vfs_Types
begin

text \<open>
  Path strings, \<^verbatim>\<open>kernel/vfs/vfs.c\<close>: splitting a path into directory and name, cutting it into
  components, and normalising it against a working directory. C strings are character lists
  without the terminator; the sizes of the fixed buffers are kept as bounds.
\<close>

named_theorems path_simps \<open>components of composed paths\<close>

abbreviation (input) slash :: char where "slash \<equiv> CHR 0x2F"

section \<open>Splitting off the last component\<close>

text \<open>The loop of \<^verbatim>\<open>path_split\<close> that remembers the last slash.\<close>

fun last_slash :: "nat \<Rightarrow> nat option \<Rightarrow> string \<Rightarrow> nat option" where
  "last_slash i sl [] = sl"
| "last_slash i sl (c # cs) = last_slash (Suc i) (if c = slash then Some i else sl) cs"

definition path_split :: "string \<Rightarrow> nat \<Rightarrow> nat \<Rightarrow> (string \<times> string) option" where
  "path_split path dir_size name_size =
     (case last_slash 0 None path of
        None \<Rightarrow> if length path \<ge> name_size then None else Some (''.'', path)
      | Some dlen \<Rightarrow>
          (let name = drop (Suc dlen) path
           in if dlen \<noteq> 0 \<and> dlen \<ge> dir_size then None
              else if length name = 0 \<or> length name \<ge> name_size then None
              else Some (if dlen = 0 then [slash] else take dlen path, name)))"

lemma last_slash_skip: "slash \<notin> set p \<Longrightarrow> last_slash i sl p = sl"
  by (induction p arbitrary: i sl) auto

lemma last_slash_append: "last_slash i sl (p @ q) = last_slash (i + length p) (last_slash i sl p) q"
  by (induction p arbitrary: i sl) auto

lemma last_slash_split: "slash \<notin> set q \<Longrightarrow> last_slash 0 None (p @ slash # q) = Some (length p)"
  by (simp add: last_slash_append last_slash_skip)

lemma path_cases:
  obtains (bare) "slash \<notin> set p" | (split) d q where "p = d @ slash # q" "slash \<notin> set q"
  by (metis split_list_last)

text \<open>What \<^verbatim>\<open>path_split\<close> returns on each shape of path.\<close>

lemma path_split_bare:
  "slash \<notin> set p \<Longrightarrow> path_split p ds ns = (if length p \<ge> ns then None else Some (''.'', p))"
  by (simp add: path_split_def last_slash_skip)

lemma path_split_slash:
  "slash \<notin> set q \<Longrightarrow> path_split (d @ slash # q) ds ns =
     (if d \<noteq> [] \<and> length d \<ge> ds \<or> q = [] \<or> length q \<ge> ns then None
      else Some (if d = [] then [slash] else d, q))"
  by (simp add: path_split_def last_slash_split Let_def)

lemma path_split_SomeE:
  assumes "path_split p ds ns = Some (d, name)"
  obtains (bare) "slash \<notin> set p" "d = ''.''" "name = p" "length name < ns"
  | (root) "p = slash # name" "d = [slash]" "slash \<notin> set name" "name \<noteq> []" "length name < ns"
  | (dir) "p = d @ slash # name" "d \<noteq> []" "slash \<notin> set name" "name \<noteq> []" "length name < ns" "length d < ds"
proof (cases rule: path_cases [of p])
  case bare
  then show ?thesis using assms that(1) by (auto simp: path_split_bare split: if_splits)
next
  case (split d' q)
  then show ?thesis using assms that(2,3) path_split_slash [of q d' ds ns] by (cases "d' = []") (auto split: if_splits)
qed

lemma path_split_name:
  "path_split p ds ns = Some (d, name) \<Longrightarrow> slash \<notin> set name \<and> length name < ns"
  by (elim path_split_SomeE) auto

section \<open>Components\<close>

text \<open>The scanning loop shared by \<^verbatim>\<open>vfs_path_resolve\<close> and \<^verbatim>\<open>vfs_lookup\<close>: skip slashes, take a
  component, repeat.\<close>

function segments :: "string \<Rightarrow> string list" where
  "segments p =
     (let s = dropWhile (\<lambda>c. c = slash) p
      in if s = [] then []
         else takeWhile (\<lambda>c. c \<noteq> slash) s # segments (dropWhile (\<lambda>c. c \<noteq> slash) s))"
  by pat_completeness auto
termination
proof (relation "measure length", goal_cases)
  case (2 p s)
  then obtain c cs where s: "s = c # cs" "c \<noteq> slash"
    by (metis (mono_tags, lifting) dropWhile_eq_Cons_conv neq_Nil_conv)
  have "length (dropWhile (\<lambda>c. c \<noteq> slash) s) \<le> length cs" using s by (simp add: length_dropWhile_le)
  also have "\<dots> < length s" using s by simp
  also have "\<dots> \<le> length p" using 2 by (simp add: length_dropWhile_le)
  finally show ?case by simp
qed simp

declare segments.simps [simp del]

lemma segments_Nil [simp, path_simps]: "segments [] = []"
  by (simp add: segments.simps)

lemma segments_slash [simp, path_simps]: "segments (slash # p) = segments p"
  by (subst (1 2) segments.simps) simp

lemma segments_last [path_simps]:
  assumes "slash \<notin> set n" "n \<noteq> []"
  shows "segments n = [n]"
proof -
  have d1: "dropWhile (\<lambda>c. c = slash) n = n" using assms by (cases n) auto
  have t1: "takeWhile (\<lambda>c. c \<noteq> slash) n = n" using assms by (auto simp: takeWhile_eq_all_conv)
  have d2: "dropWhile (\<lambda>c. c \<noteq> slash) n = []" using assms by (auto simp: dropWhile_eq_Nil_conv)
  show ?thesis by (subst segments.simps) (simp only: Let_def d1 t1 d2 segments_Nil assms(2) if_False)
qed

lemma segments_name [path_simps]:
  assumes "slash \<notin> set n" "n \<noteq> []"
  shows "segments (n @ slash # p) = n # segments p"
proof -
  have "dropWhile (\<lambda>c. c = slash) (n @ slash # p) = n @ slash # p"
    using assms by (cases n) auto
  moreover have "takeWhile (\<lambda>c. c \<noteq> slash) (n @ slash # p) = n"
    using assms by (auto simp: takeWhile_append takeWhile_eq_all_conv)
  moreover have "dropWhile (\<lambda>c. c \<noteq> slash) (n @ slash # p) = slash # p"
    using assms by (auto simp: dropWhile_append)
  ultimately show ?thesis by (subst segments.simps) (simp add: Let_def)
qed

lemma slash_first: "p = [] \<or> (\<exists>q. p = slash # q) \<or> (\<exists>n q. p = n @ slash # q \<and> slash \<notin> set n \<and> n \<noteq> []) \<or>
    (slash \<notin> set p \<and> p \<noteq> [])"
  by (cases "slash \<in> set p") (metis split_list_first append_Nil, auto)

lemma segments_induct [case_names Nil slash name last]:
  assumes "P []" "\<And>q. P q \<Longrightarrow> P (slash # q)"
    and "\<And>n q. slash \<notin> set n \<Longrightarrow> n \<noteq> [] \<Longrightarrow> P q \<Longrightarrow> P (n @ slash # q)"
    and "\<And>n. slash \<notin> set n \<Longrightarrow> n \<noteq> [] \<Longrightarrow> P n"
  shows "P p"
proof (induction "length p" arbitrary: p rule: less_induct)
  case less
  then show ?case using slash_first [of p] assms by auto
qed

lemma segments_append_slash [path_simps]: "segments (p @ slash # q) = segments p @ segments q"
  by (induction p rule: segments_induct) (simp_all add: path_simps)

lemma segments_ok: "s \<in> set (segments p) \<Longrightarrow> s \<noteq> [] \<and> slash \<notin> set s"
  by (induction p rule: segments_induct) (auto simp: path_simps)

text \<open>Splitting an absolute path separates the last component.\<close>

lemma path_split_absolute:
  assumes "take 1 path = [slash]" "path_split path ds ns = Some (dir, name)"
  shows "segments path = segments dir @ [name]" "take 1 dir = [slash]"
proof -
  have "segments path = segments dir @ [name] \<and> take 1 dir = [slash]"
    using assms(2)
  proof (cases rule: path_split_SomeE)
    case bare
    then show ?thesis using assms(1) by (cases path) auto
  next
    case root
    then show ?thesis by (simp add: segments_last)
  next
    case dir
    then show ?thesis using assms(1) by (cases dir) (auto simp: segments_append_slash segments_last)
  qed
  then show "segments path = segments dir @ [name]" "take 1 dir = [slash]" by auto
qed

text \<open>A list of components printed as an absolute path, and read back.\<close>

definition join_path :: "string list \<Rightarrow> string" where
  "join_path ss = (if ss = [] then [slash] else concat (map (\<lambda>s. slash # s) ss))"

definition seg_ok :: "string \<Rightarrow> bool" where
  "seg_ok s \<longleftrightarrow> s \<noteq> [] \<and> slash \<notin> set s"

lemma segments_seg_ok: "list_all seg_ok (segments p)"
  using segments_ok by (auto simp: list_all_iff seg_ok_def)

lemma segments_concat:
  "list_all seg_ok ss \<Longrightarrow> segments (concat (map (\<lambda>s. slash # s) ss)) = ss"
proof (induction ss)
  case (Cons s ss)
  then show ?case
    by (cases ss) (auto simp: seg_ok_def segments_last segments_name)
qed simp

lemma segments_join: "list_all seg_ok ss \<Longrightarrow> segments (join_path ss) = ss"
  by (auto simp: join_path_def segments_concat)

section \<open>Normalisation\<close>

text \<open>One component: \<^verbatim>\<open>.\<close> is dropped, \<^verbatim>\<open>..\<close> walks up, anything else is pushed while the
  32-entry array has room.\<close>

abbreviation (input) MAX_SEGS :: nat where "MAX_SEGS \<equiv> 32"
abbreviation (input) TMP_SIZE :: nat where "TMP_SIZE \<equiv> VFS_PATH_MAX + 32"

definition push_seg :: "string \<Rightarrow> string list \<Rightarrow> string list" where
  "push_seg s segs =
     (if s = ''.'' then segs
      else if s = ''..'' then butlast segs
      else if length segs < MAX_SEGS then segs @ [s]
      else segs)"

text \<open>The loop that rebuilds the path; \<open>left\<close> counts the bytes of the output buffer that remain.\<close>

fun rebuild :: "nat \<Rightarrow> nat \<Rightarrow> string list \<Rightarrow> string" where
  "rebuild left i [] = []"
| "rebuild left i (s # ss) =
     (if left > 1 then
        (let sep = (if i > 0 then [slash] else []);
             left1 = left - length sep;
             l = (if length s < left1 - 1 then length s else left1 - 1)
         in sep @ take l s @ rebuild (left1 - l) (Suc i) ss)
      else [])"

definition vfs_path_resolve :: "string \<Rightarrow> string \<Rightarrow> nat \<Rightarrow> string" where
  "vfs_path_resolve cwd inp outsz =
     (if take 1 inp = [slash] \<or> length cwd + 1 + length inp < TMP_SIZE then
        (let tmp = (if take 1 inp = [slash] then take (TMP_SIZE - 1) inp else cwd @ slash # inp);
             segs = fold push_seg (segments tmp) []
         in slash # rebuild (outsz - 1) 0 segs)
      else [slash])"

text \<open>The reference: the same stack without a limit.\<close>

definition norm_seg :: "string \<Rightarrow> string list \<Rightarrow> string list" where
  "norm_seg s st = (if s = ''.'' then st else if s = ''..'' then butlast st else st @ [s])"

definition norm_segs :: "string list \<Rightarrow> string list" where
  "norm_segs ss = fold norm_seg ss []"

definition abs_text :: "string \<Rightarrow> string \<Rightarrow> string" where
  "abs_text cwd inp = (if take 1 inp = [slash] then inp else cwd @ slash # inp)"

lemma push_norm_seg: "length st < MAX_SEGS \<Longrightarrow> push_seg s st = norm_seg s st"
  by (simp add: push_seg_def norm_seg_def)

lemma length_norm_seg: "length (norm_seg s st) \<le> Suc (length st)"
  using length_butlast [of st] by (auto simp: norm_seg_def)

lemma list_all_butlast: "list_all P xs \<Longrightarrow> list_all P (butlast xs)"
  by (auto simp: list_all_iff dest: in_set_butlastD)

lemma fold_push_norm:
  "length st + length ss \<le> MAX_SEGS \<Longrightarrow> fold push_seg ss st = fold norm_seg ss st"
proof (induction ss arbitrary: st)
  case (Cons s ss)
  then show ?case using length_norm_seg [of s st] by (simp add: push_norm_seg)
qed simp

lemma fold_norm_length: "length (fold norm_seg ss st) \<le> length st + length ss"
proof (induction ss arbitrary: st)
  case (Cons s ss)
  show ?case using order_trans [OF Cons.IH [of "norm_seg s st"]] length_norm_seg [of s st] by simp
qed simp

lemma fold_norm_keeps:
  "list_all P st \<Longrightarrow> list_all P ss \<Longrightarrow> list_all P (fold norm_seg ss st)"
proof (induction ss arbitrary: st)
  case (Cons s ss)
  have "list_all P (norm_seg s st)" using Cons.prems by (simp add: norm_seg_def list_all_butlast)
  then show ?case using Cons.IH Cons.prems by simp
qed simp

lemma fold_norm_no_dots:
  "list_all (\<lambda>s. s \<noteq> ''.'' \<and> s \<noteq> ''..'') st \<Longrightarrow> list_all (\<lambda>s. s \<noteq> ''.'' \<and> s \<noteq> ''..'') (fold norm_seg ss st)"
proof (induction ss arbitrary: st)
  case (Cons s ss)
  have "list_all (\<lambda>s. s \<noteq> ''.'' \<and> s \<noteq> ''..'') (norm_seg s st)"
    using Cons.prems by (simp add: norm_seg_def list_all_butlast)
  then show ?case using Cons.IH by simp
qed simp

lemma fold_norm_id:
  "list_all (\<lambda>s. s \<noteq> ''.'' \<and> s \<noteq> ''..'') ss \<Longrightarrow> fold norm_seg ss st = st @ ss"
  by (induction ss arbitrary: st) (auto simp: norm_seg_def)

lemma norm_segs_ok: "list_all seg_ok ss \<Longrightarrow> list_all seg_ok (norm_segs ss)"
  by (simp add: norm_segs_def fold_norm_keeps)

lemma norm_segs_no_dots: "list_all (\<lambda>s. s \<noteq> ''.'' \<and> s \<noteq> ''..'') (norm_segs ss)"
  by (simp add: norm_segs_def fold_norm_no_dots)

lemma norm_segs_idem: "norm_segs (norm_segs ss) = norm_segs ss"
  using norm_segs_no_dots [of ss] by (simp add: norm_segs_def fold_norm_id)

text \<open>Lengths: normalising never makes a path longer.\<close>

definition seg_cost :: "string list \<Rightarrow> nat" where
  "seg_cost ss = (\<Sum>s \<leftarrow> ss. Suc (length s))"

lemma seg_cost_simps [simp]: "seg_cost [] = 0" "seg_cost (s # ss) = Suc (length s) + seg_cost ss"
  "seg_cost (ss @ ts) = seg_cost ss + seg_cost ts"
  by (simp_all add: seg_cost_def)

lemma seg_cost_butlast: "seg_cost (butlast ss) \<le> seg_cost ss"
  by (induction ss) auto

lemma seg_cost_norm: "seg_cost (fold norm_seg ss st) \<le> seg_cost st + seg_cost ss"
proof (induction ss arbitrary: st)
  case (Cons s ss)
  have "seg_cost (norm_seg s st) \<le> seg_cost st + Suc (length s)"
    using seg_cost_butlast [of st] by (simp add: norm_seg_def)
  then show ?case using Cons.IH [of "norm_seg s st"] by simp
qed simp

lemma seg_cost_segments: "seg_cost (segments p) \<le> Suc (length p)"
  by (induction p rule: segments_induct) (simp_all add: path_simps)

lemma length_join: "ss \<noteq> [] \<Longrightarrow> length (join_path ss) = seg_cost ss"
  by (simp add: join_path_def seg_cost_def length_concat o_def)

text \<open>The rebuilding loop prints the components in full when they fit, and never more than the
  buffer holds.\<close>

lemma length_rebuild: "length (rebuild left i ss) \<le> left - 1"
proof (induction left i ss rule: rebuild.induct)
  case (2 left i s ss)
  show ?case
  proof (cases "left > 1")
    case True
    define sep where "sep = (if i > 0 then [slash] else [])"
    define l where "l = (if length s < left - length sep - 1 then length s else left - length sep - 1)"
    have "length sep \<le> 1" by (simp add: sep_def)
    moreover have "l \<le> left - length sep - 1" by (simp add: l_def)
    moreover have "length (rebuild (left - length sep - l) (Suc i) ss) \<le> left - length sep - l - 1"
      using "2.IH" [OF True sep_def refl l_def] by simp
    moreover have "rebuild left i (s # ss) = sep @ take l s @ rebuild (left - length sep - l) (Suc i) ss"
      using True by (simp add: Let_def sep_def l_def)
    moreover have "length (take l s) \<le> l" by simp
    ultimately show ?thesis using True by (simp only: length_append) linarith
  qed simp
qed simp

lemma rebuild_later: "seg_cost ss < left \<Longrightarrow> 0 < i \<Longrightarrow> rebuild left i ss = concat (map (\<lambda>s. slash # s) ss)"
  by (induction left i ss rule: rebuild.induct) (auto simp: Let_def)

lemma rebuild_first: "seg_cost ss \<le> left \<Longrightarrow> 1 < left \<Longrightarrow> slash # rebuild left 0 ss = join_path ss"
  by (cases ss) (auto simp: Let_def join_path_def rebuild_later)

section \<open>Properties\<close>

text \<open>\<^verbatim>\<open>vfs_path_resolve\<close> never overruns its output: for every working directory, every input
  and every buffer of at least two bytes, the result starts with a slash and fits with its
  terminator.\<close>

theorem vfs_path_resolve_bounded:
  assumes "2 \<le> outsz"
  shows "length (vfs_path_resolve cwd inp outsz) < outsz \<and> hd (vfs_path_resolve cwd inp outsz) = slash"
proof -
  have "Suc (length (rebuild (outsz - 1) 0 ss)) < outsz" for ss
    using assms length_rebuild [of "outsz - 1" 0 ss] by linarith
  then show ?thesis using assms by (simp add: vfs_path_resolve_def Let_def)
qed

theorem vfs_path_resolve_bounded_witness:
  "length (vfs_path_resolve ''/a'' ''b/../c'' 4) < 4 \<and> hd (vfs_path_resolve ''/a'' ''b/../c'' 4) = slash"
  by (rule vfs_path_resolve_bounded) simp

text \<open>C40. Within the limits of its buffers (fewer than 256 characters before normalisation, at most
  32 components) \<^verbatim>\<open>vfs_path_resolve\<close> computes the normal form of the path: the working directory
  is prefixed to a relative path, \<^verbatim>\<open>.\<close> and empty components vanish, \<^verbatim>\<open>..\<close> removes the component
  before it and stops at the root. The result reads back as exactly these components, contains no
  \<^verbatim>\<open>.\<close> or \<^verbatim>\<open>..\<close>, and resolving it again from any directory changes nothing.\<close>

theorem vfs_path_resolve_normal:
  assumes "length (abs_text cwd inp) < VFS_PATH_MAX - 1" and "length (segments (abs_text cwd inp)) \<le> MAX_SEGS"
  shows "let r = vfs_path_resolve cwd inp VFS_PATH_MAX; ss = norm_segs (segments (abs_text cwd inp))
     in r = join_path ss \<and> segments r = ss \<and> ''.'' \<notin> set ss \<and> ''..'' \<notin> set ss \<and>
        vfs_path_resolve cwd' r VFS_PATH_MAX = r"
proof -
  define ss where "ss = norm_segs (segments (abs_text cwd inp))"
  have res: "vfs_path_resolve c p VFS_PATH_MAX = join_path (norm_segs (segments (abs_text c p)))"
    if "length (abs_text c p) < VFS_PATH_MAX" "seg_cost (norm_segs (segments (abs_text c p))) < VFS_PATH_MAX"
      "length (segments (abs_text c p)) \<le> MAX_SEGS" for c p
  proof -
    have "vfs_path_resolve c p VFS_PATH_MAX = slash # rebuild (VFS_PATH_MAX - 1) 0 (fold push_seg (segments (abs_text c p)) [])"
      using that(1) by (auto simp: vfs_path_resolve_def abs_text_def Let_def)
    also have "\<dots> = slash # rebuild (VFS_PATH_MAX - 1) 0 (norm_segs (segments (abs_text c p)))"
      using that(3) by (simp add: fold_push_norm norm_segs_def)
    also have "\<dots> = join_path (norm_segs (segments (abs_text c p)))"
      using that(2) by (intro rebuild_first) auto
    finally show ?thesis .
  qed
  have cost: "seg_cost ss < VFS_PATH_MAX"
    using seg_cost_norm [of "segments (abs_text cwd inp)" "[]"] seg_cost_segments [of "abs_text cwd inp"] assms(1)
    by (simp add: ss_def norm_segs_def)
  have ok: "list_all seg_ok ss" by (simp add: ss_def norm_segs_ok segments_seg_ok)
  have len: "length ss \<le> MAX_SEGS"
    using fold_norm_length [of "segments (abs_text cwd inp)" "[]"] assms(2) by (simp add: ss_def norm_segs_def)
  have r: "vfs_path_resolve cwd inp VFS_PATH_MAX = join_path ss"
    using res [of cwd inp] assms cost by (simp add: ss_def)
  have abs: "abs_text cwd' (join_path ss) = join_path ss" by (cases ss) (simp_all add: abs_text_def join_path_def)
  have "length (join_path ss) < VFS_PATH_MAX" using cost by (cases "ss = []") (simp_all add: length_join, simp add: join_path_def)
  then have "vfs_path_resolve cwd' (join_path ss) VFS_PATH_MAX = join_path ss"
    using res [of cwd' "join_path ss"] abs cost len segments_join [OF ok] norm_segs_idem [of "segments (abs_text cwd inp)"]
    by (simp add: ss_def)
  then show ?thesis
    using r segments_join [OF ok] norm_segs_no_dots [of "segments (abs_text cwd inp)"]
    by (simp add: Let_def ss_def [symmetric] list_all_iff) auto
qed

theorem vfs_path_resolve_normal_witness:
  "vfs_path_resolve ''/home/u'' ''../x/./y'' VFS_PATH_MAX = ''/home/x/y''"
proof -
  have seg: "segments (abs_text ''/home/u'' ''../x/./y'') = [''home'', ''u'', ''..'', ''x'', ''.'', ''y'']"
    by (simp add: abs_text_def segments.simps)
  show ?thesis
    using vfs_path_resolve_normal [of "''/home/u''" "''../x/./y''" "[]"]
    by (simp only: seg) (simp add: abs_text_def Let_def norm_segs_def norm_seg_def join_path_def)
qed

end
