(* ===== verification/Wrf_Disk.thy ===== *)
theory Wrf_Disk
  imports Ata Wrf_Format
begin

text \<open>
  The lower half of the WRF driver, \<^verbatim>\<open>kernel/fs/wrf.c\<close>: the allocation bitmaps with their
  on-disk copies, the per-block checksum table, data blocks and the inode table, all of it
  single-sector transfers through the disk driver. The whole of it is refined to a volume:
  a map of blocks, a map of inodes and two sets of allocated numbers.
\<close>

section \<open>State\<close>

text \<open>The file-scope variables of the driver, the disks it talks to, the contents of an
  uninitialised 512-byte local array (what a failed read leaves in place) and the wall clock.\<close>

record wrf =
  g_disks :: "nat \<Rightarrow> ata_disk"
  g_mounted :: bool
  g_disk :: int
  g_sb :: wrf_superblock
  g_inode_bitmap :: bytes_array
  g_block_bitmap :: bytes_array
  g_csum_errors :: u32
  stack_junk :: "u8 list"
  rtc_now :: u64

definition disk_read :: "wrf \<Rightarrow> u32 \<Rightarrow> u8 list \<Rightarrow> u8 list" where
  "disk_read w lba buf = snd (ata_read (g_disks w) (g_disk w) lba 1 buf)"

definition disk_write :: "wrf \<Rightarrow> u32 \<Rightarrow> u8 list \<Rightarrow> wrf" where
  "disk_write w lba buf = w\<lparr>g_disks := snd (ata_write (g_disks w) (g_disk w) lba 1 buf)\<rparr>"

section \<open>Bitmaps\<close>

definition bit_test :: "bytes_array \<Rightarrow> nat \<Rightarrow> bool" where
  "bit_test bm i \<longleftrightarrow> drop_bit (i mod 8) (bm (i div 8)) AND 1 \<noteq> 0"

definition bit_set :: "bytes_array \<Rightarrow> nat \<Rightarrow> bytes_array" where
  "bit_set bm i = bm(i div 8 := bm (i div 8) OR push_bit (i mod 8) 1)"

definition bit_clear :: "bytes_array \<Rightarrow> nat \<Rightarrow> bytes_array" where
  "bit_clear bm i = bm(i div 8 := bm (i div 8) AND NOT (push_bit (i mod 8) 1))"

lemma bit_test_bit: "bit_test bm i \<longleftrightarrow> bit (bm (i div 8)) (i mod 8)"
  by (simp add: bit_test_def and_one_eq odd_iff_mod_2_eq_one [symmetric] bit_iff_odd_drop_bit)

interpretation bits: bitmap bit_test bit_set bit_clear
  by unfold_locales
    (auto simp: bit_test_bit bit_set_def bit_clear_def push_bit_eq_mult bitmap_simps dest: div_mod_8_eq)

definition flush_bitmap_sector :: "wrf \<Rightarrow> bytes_array \<Rightarrow> u32 \<Rightarrow> u32 \<Rightarrow> wrf" where
  "flush_bitmap_sector w bm b bitmap_lba =
     (let sector = b div 8 div of_nat WRF_BLOCK_SIZE
      in disk_write w (bitmap_lba + sector)
           (array_get (unat sector * WRF_BLOCK_SIZE) WRF_BLOCK_SIZE bm))"

section \<open>Checksummed data blocks\<close>

definition wrf_csum_read_entry :: "wrf \<Rightarrow> u32 \<Rightarrow> u32" where
  "wrf_csum_read_entry w blk =
     (let sector = disk_read w (checksum_table_lba (g_sb w) + blk div 128) (stack_junk w)
      in get_le32 (drop (unat (blk mod 128) * 4) sector))"

definition wrf_csum_write_entry :: "wrf \<Rightarrow> u32 \<Rightarrow> u32 \<Rightarrow> wrf" where
  "wrf_csum_write_entry w blk csum =
     (let lba = checksum_table_lba (g_sb w) + blk div 128;
          sector = disk_read w lba (stack_junk w)
      in disk_write w lba (splice (unat (blk mod 128) * 4) (le32 csum) sector))"

definition wrf_data_write :: "wrf \<Rightarrow> u32 \<Rightarrow> u8 list \<Rightarrow> wrf" where
  "wrf_data_write w blk sector =
     wrf_csum_write_entry (disk_write w (data_start_lba (g_sb w) + blk) sector) blk (wrf_crc32 sector)"

definition wrf_data_read :: "wrf \<Rightarrow> u32 \<Rightarrow> u8 list \<Rightarrow> bool \<times> u8 list \<times> wrf" where
  "wrf_data_read w blk buf =
     (let sector = disk_read w (data_start_lba (g_sb w) + blk) buf;
          stored = wrf_csum_read_entry w blk;
          actual = wrf_crc32 sector
      in if stored \<noteq> actual then (False, sector, w\<lparr>g_csum_errors := g_csum_errors w + 1\<rparr>)
         else (True, sector, w))"

section \<open>Allocation\<close>

text \<open>The results are the C functions' \<^verbatim>\<open>int32_t\<close>: a number, or -1.\<close>

definition wrf_inode_alloc :: "wrf \<Rightarrow> int \<times> wrf" where
  "wrf_inode_alloc w =
     (case scan (\<lambda>i. \<not> bit_test (g_inode_bitmap w) i) 1 (unat (inode_count (g_sb w))) of
        Some i \<Rightarrow>
          (let w1 = w\<lparr>g_inode_bitmap := bit_set (g_inode_bitmap w) i\<rparr>
           in (sint (of_nat i :: u32),
               flush_bitmap_sector w1 (g_inode_bitmap w1) (of_nat i) (inode_bitmap_lba (g_sb w))))
      | None \<Rightarrow> (- 1, w))"

definition wrf_inode_free_bit :: "wrf \<Rightarrow> u32 \<Rightarrow> wrf" where
  "wrf_inode_free_bit w ino =
     (let w1 = w\<lparr>g_inode_bitmap := bit_clear (g_inode_bitmap w) (unat ino)\<rparr>
      in flush_bitmap_sector w1 (g_inode_bitmap w1) ino (inode_bitmap_lba (g_sb w)))"

definition wrf_block_alloc :: "wrf \<Rightarrow> int \<times> wrf" where
  "wrf_block_alloc w =
     (case scan (\<lambda>i. \<not> bit_test (g_block_bitmap w) i) 0 (unat (total_blocks (g_sb w))) of
        Some i \<Rightarrow>
          (let w1 = w\<lparr>g_block_bitmap := bit_set (g_block_bitmap w) i\<rparr>;
               w2 = flush_bitmap_sector w1 (g_block_bitmap w1) (of_nat i) (block_bitmap_lba (g_sb w))
           in (sint (of_nat i :: u32), wrf_data_write w2 (of_nat i) (replicate WRF_BLOCK_SIZE 0)))
      | None \<Rightarrow> (- 1, w))"

definition wrf_block_free :: "wrf \<Rightarrow> u32 \<Rightarrow> wrf" where
  "wrf_block_free w blk =
     (let w1 = w\<lparr>g_block_bitmap := bit_clear (g_block_bitmap w) (unat blk)\<rparr>
      in flush_bitmap_sector w1 (g_block_bitmap w1) blk (block_bitmap_lba (g_sb w)))"

section \<open>Inode table\<close>

definition wrf_inode_read :: "wrf \<Rightarrow> u32 \<Rightarrow> wrf_inode" where
  "wrf_inode_read w ino =
     (let sector = disk_read w (inode_table_lba (g_sb w) + ino div 4) (stack_junk w)
      in inode_of_bytes (slice (unat (ino mod 4) * INODE_SIZE) INODE_SIZE sector))"

definition wrf_inode_write :: "wrf \<Rightarrow> u32 \<Rightarrow> wrf_inode \<Rightarrow> wrf" where
  "wrf_inode_write w ino di =
     (let lba = inode_table_lba (g_sb w) + ino div 4;
          sector = disk_read w lba (stack_junk w)
      in disk_write w lba (splice (unat (ino mod 4) * INODE_SIZE) (inode_bytes di) sector))"

section \<open>A healthy volume\<close>

definition vol_disk :: "wrf \<Rightarrow> ata_disk" where
  "vol_disk w = g_disks w (nat (g_disk w))"

definition sec :: "wrf \<Rightarrow> u32 \<Rightarrow> u8 list" where
  "sec w lba = media (vol_disk w) lba"

definition put_sec :: "wrf \<Rightarrow> u32 \<Rightarrow> u8 list \<Rightarrow> wrf" where
  "put_sec w lba s =
     w\<lparr>g_disks := (g_disks w)(nat (g_disk w) := (vol_disk w)\<lparr>media := (media (vol_disk w))(lba := s)\<rparr>)\<rparr>"

definition in_vol :: "wrf \<Rightarrow> u32 \<Rightarrow> bool" where
  "in_vol w lba \<longleftrightarrow> unat (inode_bitmap_lba (g_sb w)) \<le> unat lba \<and>
     unat lba < unat (data_start_lba (g_sb w)) + unat (total_blocks (g_sb w))"

text \<open>Regions in ascending order without overlap, each with room for what it describes.\<close>

definition sb_ordered :: "wrf_superblock \<Rightarrow> bool" where
  "sb_ordered sb \<longleftrightarrow>
     unat (inode_bitmap_lba sb) + unat (inode_bitmap_blocks sb) \<le> unat (inode_table_lba sb) \<and>
     unat (inode_table_lba sb) + unat (inode_table_blocks sb) \<le> unat (block_bitmap_lba sb) \<and>
     unat (block_bitmap_lba sb) + unat (block_bitmap_blocks sb) \<le> unat (checksum_table_lba sb) \<and>
     unat (checksum_table_lba sb) + unat (checksum_table_blocks sb) \<le> unat (data_start_lba sb) \<and>
     unat (inode_count sb) \<le> 4096 * unat (inode_bitmap_blocks sb) \<and>
     unat (inode_count sb) \<le> 4 * unat (inode_table_blocks sb) \<and>
     unat (total_blocks sb) \<le> 4096 * unat (block_bitmap_blocks sb) \<and>
     unat (total_blocks sb) \<le> 128 * unat (checksum_table_blocks sb)"

definition vol_ok :: "wrf \<Rightarrow> bool" where
  "vol_ok w \<longleftrightarrow>
     0 \<le> g_disk w \<and> g_disk w < 4 \<and> length (stack_junk w) = WRF_BLOCK_SIZE \<and> sb_ordered (g_sb w) \<and>
     present (vol_disk w) \<and> \<not> atapi (vol_disk w) \<and> \<not> stuck (vol_disk w) \<and>
     unat (sectors (vol_disk w)) \<le> 2 ^ 28 \<and>
     unat (data_start_lba (g_sb w)) + unat (total_blocks (g_sb w)) \<le> unat (sectors (vol_disk w)) \<and>
     (\<forall>lba. in_vol w lba \<longrightarrow> \<not> bad (vol_disk w) lba \<and> length (sec w lba) = WRF_BLOCK_SIZE)"

lemma put_sec_fields [simp]:
  "g_sb (put_sec w a s) = g_sb w" "g_inode_bitmap (put_sec w a s) = g_inode_bitmap w"
  "g_block_bitmap (put_sec w a s) = g_block_bitmap w" "stack_junk (put_sec w a s) = stack_junk w"
  "rtc_now (put_sec w a s) = rtc_now w" "g_disk (put_sec w a s) = g_disk w"
  "g_csum_errors (put_sec w a s) = g_csum_errors w" "g_mounted (put_sec w a s) = g_mounted w"
  by (simp_all add: put_sec_def)

lemma vol_disk_put_sec [simp]:
  "vol_disk (put_sec w a s) = (vol_disk w)\<lparr>media := (media (vol_disk w))(a := s)\<rparr>"
  by (simp add: put_sec_def vol_disk_def)

lemma sec_put_sec [simp]: "sec (put_sec w a s) b = (if b = a then s else sec w b)"
  by (simp add: sec_def)

lemma in_vol_put_sec [simp]: "in_vol (put_sec w a s) = in_vol w"
  by (simp add: in_vol_def fun_eq_iff)

lemma vol_ok_put_sec [intro]:
  "vol_ok w \<Longrightarrow> length s = WRF_BLOCK_SIZE \<Longrightarrow> vol_ok (put_sec w a s)"
  by (simp add: vol_ok_def)

lemma vol_ok_sec_length: "vol_ok w \<Longrightarrow> in_vol w lba \<Longrightarrow> length (sec w lba) = WRF_BLOCK_SIZE"
  by (simp add: vol_ok_def)

lemma vol_ready:
  assumes "vol_ok w" and "in_vol w lba"
  shows "ata_ready (g_disks w (nat (g_disk w))) (unat lba) 1"
  using assms by (auto simp: vol_ok_def ata_ready_def in_vol_def vol_disk_def)

lemma disk_read_ok:
  assumes "vol_ok w" and "in_vol w lba" and "length buf = WRF_BLOCK_SIZE"
  shows "disk_read w lba buf = sec w lba"
proof -
  have "int (nat (g_disk w)) = g_disk w" "nat (g_disk w) < 4" using assms(1) by (auto simp: vol_ok_def)
  then show ?thesis
    using ata_read_one [of "nat (g_disk w)" "g_disks w", OF _ vol_ready [OF assms(1,2)] _ assms(3)] vol_ok_sec_length [OF assms(1,2)]
    by (simp add: disk_read_def sec_def vol_disk_def)
qed

lemma disk_write_ok:
  assumes "vol_ok w" and "in_vol w lba" and "length s = WRF_BLOCK_SIZE"
  shows "disk_write w lba s = put_sec w lba s"
proof -
  have "int (nat (g_disk w)) = g_disk w" "nat (g_disk w) < 4" using assms(1) by (auto simp: vol_ok_def)
  then show ?thesis
    using ata_write_one [of "nat (g_disk w)" "g_disks w", OF _ vol_ready [OF assms(1,2)] assms(3)]
    by (simp add: disk_write_def put_sec_def vol_disk_def)
qed

lemma vol_ok_junk [simp]: "vol_ok w \<Longrightarrow> length (stack_junk w) = WRF_BLOCK_SIZE"
  by (simp add: vol_ok_def)

lemma vol_ok_ordered: "vol_ok w \<Longrightarrow> sb_ordered (g_sb w)"
  by (simp add: vol_ok_def)

section \<open>Where each object lives\<close>

definition valid_blk :: "wrf \<Rightarrow> u32 \<Rightarrow> bool" where
  "valid_blk w b \<longleftrightarrow> b < total_blocks (g_sb w)"

definition valid_ino :: "wrf \<Rightarrow> u32 \<Rightarrow> bool" where
  "valid_ino w i \<longleftrightarrow> i < inode_count (g_sb w)"

definition data_lba :: "wrf \<Rightarrow> u32 \<Rightarrow> u32" where
  "data_lba w b = data_start_lba (g_sb w) + b"

definition csum_lba :: "wrf \<Rightarrow> u32 \<Rightarrow> u32" where
  "csum_lba w b = checksum_table_lba (g_sb w) + b div 128"

definition ino_lba :: "wrf \<Rightarrow> u32 \<Rightarrow> u32" where
  "ino_lba w i = inode_table_lba (g_sb w) + i div 4"

definition ibm_lba :: "wrf \<Rightarrow> u32 \<Rightarrow> u32" where
  "ibm_lba w i = inode_bitmap_lba (g_sb w) + i div 8 div 512"

definition bbm_lba :: "wrf \<Rightarrow> u32 \<Rightarrow> u32" where
  "bbm_lba w b = block_bitmap_lba (g_sb w) + b div 8 div 512"

lemmas lba_defs = data_lba_def csum_lba_def ino_lba_def ibm_lba_def bbm_lba_def

lemma vol_bound: "vol_ok w \<Longrightarrow> unat (data_start_lba (g_sb w)) + unat (total_blocks (g_sb w)) \<le> 2 ^ 28"
  by (simp add: vol_ok_def)

lemma unat_data_lba:
  assumes "vol_ok w" "valid_blk w b"
  shows "unat (data_lba w b) = unat (data_start_lba (g_sb w)) + unat b"
  using assms vol_bound [OF assms(1)] unfolding data_lba_def valid_blk_def
  by (intro u32_add) (simp add: word_less_nat_alt)

lemma unat_csum_lba:
  assumes "vol_ok w" "valid_blk w b"
  shows "unat (csum_lba w b) = unat (checksum_table_lba (g_sb w)) + unat b div 128"
    and "unat b div 128 < unat (checksum_table_blocks (g_sb w))"
proof -
  show "unat b div 128 < unat (checksum_table_blocks (g_sb w))"
    using assms vol_ok_ordered [OF assms(1)]
    by (auto simp: sb_ordered_def valid_blk_def word_less_nat_alt)
  then show "unat (csum_lba w b) = unat (checksum_table_lba (g_sb w)) + unat b div 128"
    using vol_bound [OF assms(1)] vol_ok_ordered [OF assms(1)] u32_div [of b 128]
    unfolding csum_lba_def sb_ordered_def by (subst u32_add) auto
qed

lemma unat_ino_lba:
  assumes "vol_ok w" "valid_ino w i"
  shows "unat (ino_lba w i) = unat (inode_table_lba (g_sb w)) + unat i div 4"
    and "unat i div 4 < unat (inode_table_blocks (g_sb w))"
proof -
  show "unat i div 4 < unat (inode_table_blocks (g_sb w))"
    using assms vol_ok_ordered [OF assms(1)]
    by (auto simp: sb_ordered_def valid_ino_def word_less_nat_alt)
  then show "unat (ino_lba w i) = unat (inode_table_lba (g_sb w)) + unat i div 4"
    using vol_bound [OF assms(1)] vol_ok_ordered [OF assms(1)] u32_div [of i 4]
    unfolding ino_lba_def sb_ordered_def by (subst u32_add) auto
qed

lemma unat_bbm_lba:
  assumes "vol_ok w" "valid_blk w b"
  shows "unat (bbm_lba w b) = unat (block_bitmap_lba (g_sb w)) + unat b div 4096"
    and "unat b div 4096 < unat (block_bitmap_blocks (g_sb w))"
proof -
  have d: "unat (b div 8 div 512) = unat b div 4096"
    using u32_div [of "b div 8" 512] u32_div [of b 8] by (simp add: div_mult2_eq [symmetric])
  show "unat b div 4096 < unat (block_bitmap_blocks (g_sb w))"
    using assms vol_ok_ordered [OF assms(1)]
    by (auto simp: sb_ordered_def valid_blk_def word_less_nat_alt)
  then show "unat (bbm_lba w b) = unat (block_bitmap_lba (g_sb w)) + unat b div 4096"
    using vol_bound [OF assms(1)] vol_ok_ordered [OF assms(1)] d
    unfolding bbm_lba_def sb_ordered_def by (subst u32_add) auto
qed

lemma unat_ibm_lba:
  assumes "vol_ok w" "valid_ino w i"
  shows "unat (ibm_lba w i) = unat (inode_bitmap_lba (g_sb w)) + unat i div 4096"
    and "unat i div 4096 < unat (inode_bitmap_blocks (g_sb w))"
proof -
  have d: "unat (i div 8 div 512) = unat i div 4096"
    using u32_div [of "i div 8" 512] u32_div [of i 8] by (simp add: div_mult2_eq [symmetric])
  show "unat i div 4096 < unat (inode_bitmap_blocks (g_sb w))"
    using assms vol_ok_ordered [OF assms(1)]
    by (auto simp: sb_ordered_def valid_ino_def word_less_nat_alt)
  then show "unat (ibm_lba w i) = unat (inode_bitmap_lba (g_sb w)) + unat i div 4096"
    using vol_bound [OF assms(1)] vol_ok_ordered [OF assms(1)] d
    unfolding ibm_lba_def sb_ordered_def by (subst u32_add) auto
qed

lemma lba_in_vol:
  assumes "vol_ok w"
  shows "valid_blk w b \<Longrightarrow> in_vol w (data_lba w b)" "valid_blk w b \<Longrightarrow> in_vol w (csum_lba w b)"
    "valid_blk w b \<Longrightarrow> in_vol w (bbm_lba w b)" "valid_ino w i \<Longrightarrow> in_vol w (ino_lba w i)"
    "valid_ino w i \<Longrightarrow> in_vol w (ibm_lba w i)"
  using vol_ok_ordered [OF assms] unat_data_lba [OF assms] unat_csum_lba [OF assms] unat_bbm_lba [OF assms]
    unat_ino_lba [OF assms] unat_ibm_lba [OF assms]
  unfolding in_vol_def sb_ordered_def valid_blk_def word_less_nat_alt by fastforce+

lemma lba_region:
  assumes "vol_ok w"
  shows "valid_blk w b \<Longrightarrow> unat (data_start_lba (g_sb w)) \<le> unat (data_lba w b)"
    "valid_blk w b \<Longrightarrow> unat (checksum_table_lba (g_sb w)) \<le> unat (csum_lba w b)"
    "valid_blk w b \<Longrightarrow> unat (csum_lba w b) < unat (data_start_lba (g_sb w))"
    "valid_blk w b \<Longrightarrow> unat (block_bitmap_lba (g_sb w)) \<le> unat (bbm_lba w b)"
    "valid_blk w b \<Longrightarrow> unat (bbm_lba w b) < unat (checksum_table_lba (g_sb w))"
    "valid_ino w i \<Longrightarrow> unat (inode_table_lba (g_sb w)) \<le> unat (ino_lba w i)"
    "valid_ino w i \<Longrightarrow> unat (ino_lba w i) < unat (block_bitmap_lba (g_sb w))"
    "valid_ino w i \<Longrightarrow> unat (ibm_lba w i) < unat (inode_table_lba (g_sb w))"
  using vol_ok_ordered [OF assms] unat_data_lba [OF assms] unat_csum_lba [OF assms] unat_bbm_lba [OF assms]
    unat_ino_lba [OF assms] unat_ibm_lba [OF assms]
  unfolding sb_ordered_def by fastforce+

lemma lba_distinct:
  assumes "vol_ok w"
  shows "valid_blk w b \<Longrightarrow> valid_blk w c \<Longrightarrow> data_lba w b \<noteq> csum_lba w c"
    "valid_blk w b \<Longrightarrow> valid_blk w c \<Longrightarrow> data_lba w b \<noteq> bbm_lba w c"
    "valid_blk w b \<Longrightarrow> valid_ino w i \<Longrightarrow> data_lba w b \<noteq> ino_lba w i"
    "valid_blk w b \<Longrightarrow> valid_ino w i \<Longrightarrow> data_lba w b \<noteq> ibm_lba w i"
    "valid_blk w b \<Longrightarrow> valid_blk w c \<Longrightarrow> csum_lba w b \<noteq> bbm_lba w c"
    "valid_blk w b \<Longrightarrow> valid_ino w i \<Longrightarrow> csum_lba w b \<noteq> ino_lba w i"
    "valid_blk w b \<Longrightarrow> valid_ino w i \<Longrightarrow> csum_lba w b \<noteq> ibm_lba w i"
    "valid_blk w b \<Longrightarrow> valid_ino w i \<Longrightarrow> bbm_lba w b \<noteq> ino_lba w i"
    "valid_blk w b \<Longrightarrow> valid_ino w i \<Longrightarrow> bbm_lba w b \<noteq> ibm_lba w i"
    "valid_ino w i \<Longrightarrow> valid_ino w j \<Longrightarrow> ino_lba w i \<noteq> ibm_lba w j"
  using lba_region [OF assms] vol_ok_ordered [OF assms] unfolding sb_ordered_def
  by (metis (no_types, lifting) le_less_trans less_irrefl add_leD1 order_trans)+

end
