(* ===== verification/Wrf_Vol.thy ===== *)
theory Wrf_Vol
  imports Wrf_Disk
begin

text \<open>
  The volume a healthy disk represents: block contents, block checksums, inodes and the two
  sets of allocated numbers. Every low-level operation of the WRF driver is refined to an
  update of this volume, so the block-mapping code above it never has to look at sectors.
\<close>

section \<open>The abstract volume\<close>

record vol =
  vdata :: "u32 \<Rightarrow> u8 list"
  vsum :: "u32 \<Rightarrow> u32"
  vino :: "u32 \<Rightarrow> wrf_inode"
  vused :: "u32 \<Rightarrow> bool"
  viused :: "u32 \<Rightarrow> bool"

definition zero_inode :: wrf_inode where
  "zero_inode = inode_of_bytes (replicate INODE_SIZE 0)"

definition vol_of :: "wrf \<Rightarrow> vol" where
  "vol_of w =
     \<lparr>vdata = (\<lambda>b. if valid_blk w b then sec w (data_lba w b) else []),
      vsum = (\<lambda>b. if valid_blk w b then get_le32 (drop (unat (b mod 128) * 4) (sec w (csum_lba w b))) else 0),
      vino = (\<lambda>i. if valid_ino w i
                  then inode_of_bytes (slice (unat (i mod 4) * INODE_SIZE) INODE_SIZE (sec w (ino_lba w i)))
                  else zero_inode),
      vused = (\<lambda>b. bit_test (g_block_bitmap w) (unat b)),
      viused = (\<lambda>i. bit_test (g_inode_bitmap w) (unat i))\<rparr>"

text \<open>What no operation after the mount changes.\<close>

definition same_env :: "wrf \<Rightarrow> wrf \<Rightarrow> bool" where
  "same_env w w' \<longleftrightarrow> g_sb w' = g_sb w \<and> stack_junk w' = stack_junk w \<and> rtc_now w' = rtc_now w \<and>
     g_disk w' = g_disk w \<and> g_mounted w' = g_mounted w"

lemma same_env_refl [simp]: "same_env w w"
  by (simp add: same_env_def)

lemma same_env_trans [trans]: "same_env w w' \<Longrightarrow> same_env w' w'' \<Longrightarrow> same_env w w''"
  by (simp add: same_env_def)

lemma same_env_put_sec [simp]: "same_env w (put_sec w' a s) \<longleftrightarrow> same_env w w'"
  by (simp add: same_env_def)

lemma same_env_valid: "same_env w w' \<Longrightarrow> valid_blk w' = valid_blk w \<and> valid_ino w' = valid_ino w"
  by (simp add: same_env_def valid_blk_def valid_ino_def fun_eq_iff)

lemma put_sec_lba [simp]:
  "data_lba (put_sec w a s) = data_lba w" "csum_lba (put_sec w a s) = csum_lba w"
  "ino_lba (put_sec w a s) = ino_lba w" "ibm_lba (put_sec w a s) = ibm_lba w"
  "bbm_lba (put_sec w a s) = bbm_lba w" "valid_blk (put_sec w a s) = valid_blk w"
  "valid_ino (put_sec w a s) = valid_ino w"
  by (simp_all add: lba_defs valid_blk_def valid_ino_def fun_eq_iff)

lemma length_vdata: "vol_ok w \<Longrightarrow> valid_blk w b \<Longrightarrow> length (vdata (vol_of w) b) = WRF_BLOCK_SIZE"
  by (simp add: vol_of_def vol_ok_sec_length lba_in_vol)

lemma slot_bounds:
  "unat (b mod 128 :: u32) * 4 + 4 \<le> WRF_BLOCK_SIZE" "unat (i mod 4 :: u32) * INODE_SIZE + INODE_SIZE \<le> WRF_BLOCK_SIZE"
proof -
  have "unat (b mod 128 :: u32) < 128" "unat (i mod 4 :: u32) < 4" by (simp_all add: unat_mod)
  then show "unat (b mod 128 :: u32) * 4 + 4 \<le> WRF_BLOCK_SIZE"
    "unat (i mod 4 :: u32) * INODE_SIZE + INODE_SIZE \<le> WRF_BLOCK_SIZE" by linarith+
qed

lemma inode_wf_vino: "vol_ok w \<Longrightarrow> inode_wf (vino (vol_of w) i)"
  using slot_bounds(2) [of i]
  by (simp add: vol_of_def zero_inode_def vol_ok_sec_length lba_in_vol)

lemma get_le32_slice: "k + 4 \<le> length p \<Longrightarrow> get_le32 (drop k p) = get_le32 (slice k 4 p)"
  by (simp add: get_le32_def slice_def)

lemma word_div_mod_eq: "a div n = b div n \<Longrightarrow> a mod n = b mod n \<Longrightarrow> a = b" for a b n :: u32
  by (metis div_mult_mod_eq)

section \<open>Reading\<close>

lemma wrf_csum_read_entry_vol:
  "vol_ok w \<Longrightarrow> valid_blk w b \<Longrightarrow> wrf_csum_read_entry w b = vsum (vol_of w) b"
  by (simp add: wrf_csum_read_entry_def vol_of_def csum_lba_def [symmetric] disk_read_ok lba_in_vol Let_def)

lemma wrf_data_read_vol:
  assumes "vol_ok w" "valid_blk w b" "length buf = WRF_BLOCK_SIZE"
  shows "wrf_data_read w b buf =
    (let s = vdata (vol_of w) b; ok = (vsum (vol_of w) b = wrf_crc32 s)
     in (ok, s, if ok then w else w\<lparr>g_csum_errors := g_csum_errors w + 1\<rparr>))"
  using assms
  by (simp add: wrf_data_read_def wrf_csum_read_entry_vol data_lba_def [symmetric] disk_read_ok lba_in_vol
      Let_def) (simp add: vol_of_def)

lemma wrf_inode_read_vol:
  "vol_ok w \<Longrightarrow> valid_ino w i \<Longrightarrow> wrf_inode_read w i = vino (vol_of w) i"
  by (simp add: wrf_inode_read_def vol_of_def ino_lba_def [symmetric] disk_read_ok lba_in_vol Let_def)

lemma csum_errors_env [simp]:
  "valid_blk (w\<lparr>g_csum_errors := n\<rparr>) = valid_blk w" "valid_ino (w\<lparr>g_csum_errors := n\<rparr>) = valid_ino w"
  "data_lba (w\<lparr>g_csum_errors := n\<rparr>) = data_lba w" "csum_lba (w\<lparr>g_csum_errors := n\<rparr>) = csum_lba w"
  "ino_lba (w\<lparr>g_csum_errors := n\<rparr>) = ino_lba w" "sec (w\<lparr>g_csum_errors := n\<rparr>) = sec w"
  "in_vol (w\<lparr>g_csum_errors := n\<rparr>) = in_vol w" "vol_disk (w\<lparr>g_csum_errors := n\<rparr>) = vol_disk w"
  by (simp_all add: valid_blk_def valid_ino_def lba_defs sec_def vol_disk_def in_vol_def fun_eq_iff)

lemma csum_errors_vol [simp]:
  "vol_of (w\<lparr>g_csum_errors := n\<rparr>) = vol_of w" "vol_ok (w\<lparr>g_csum_errors := n\<rparr>) = vol_ok w"
  "same_env w' (w\<lparr>g_csum_errors := n\<rparr>) = same_env w' w"
  by (simp_all add: vol_of_def vol_ok_def same_env_def cong: if_cong)

section \<open>Writing\<close>

lemma wrf_csum_write_entry_ok:
  assumes "vol_ok w" "valid_blk w b"
  shows "wrf_csum_write_entry w b c =
    put_sec w (csum_lba w b) (splice (unat (b mod 128) * 4) (le32 c) (sec w (csum_lba w b)))"
  using assms slot_bounds(1) [of b]
  by (simp add: wrf_csum_write_entry_def csum_lba_def [symmetric] disk_read_ok disk_write_ok lba_in_vol Let_def
      vol_ok_sec_length)

lemma wrf_data_write_ok:
  assumes "vol_ok w" "valid_blk w b" "length s = WRF_BLOCK_SIZE"
  shows "wrf_data_write w b s =
    put_sec (put_sec w (data_lba w b) s) (csum_lba w b)
      (splice (unat (b mod 128) * 4) (le32 (wrf_crc32 s)) (sec w (csum_lba w b)))"
proof -
  have ok: "vol_ok (put_sec w (data_lba w b) s)" using assms by blast
  show ?thesis
    using wrf_csum_write_entry_ok [OF ok, of b "wrf_crc32 s"] assms lba_distinct(1) [OF assms(1,2,2)]
    by (simp add: wrf_data_write_def data_lba_def [symmetric] disk_write_ok lba_in_vol)
qed

lemma vsum_put_csum:
  assumes "vol_ok w" "valid_blk w b" "valid_blk w c"
  shows "get_le32 (drop (unat (c mod 128) * 4)
      (if csum_lba w c = csum_lba w b then splice (unat (b mod 128) * 4) (le32 v) (sec w (csum_lba w b))
       else sec w (csum_lba w c))) =
    (if c = b then v else get_le32 (drop (unat (c mod 128) * 4) (sec w (csum_lba w c))))"
proof -
  let ?S = "sec w (csum_lba w b)"
  have len: "length ?S = WRF_BLOCK_SIZE" using assms by (simp add: vol_ok_sec_length lba_in_vol)
  note bnd = slot_bounds(1) [of b] slot_bounds(1) [of c]
  have fit: "unat (b mod 128) * 4 + length (le32 v) \<le> length ?S" using bnd len by simp
  then have len': "length (splice (unat (b mod 128) * 4) (le32 v) ?S) = WRF_BLOCK_SIZE" using len by simp
  consider "csum_lba w c \<noteq> csum_lba w b" | "c = b" | "csum_lba w c = csum_lba w b" "c \<noteq> b" by blast
  then show ?thesis
  proof cases
    case 2
    have "get_le32 (drop (unat (b mod 128) * 4) (splice (unat (b mod 128) * 4) (le32 v) ?S)) =
        get_le32 (slice (unat (b mod 128) * 4) (length (le32 v)) (splice (unat (b mod 128) * 4) (le32 v) ?S))"
      using bnd len' by (simp add: get_le32_slice)
    also have "\<dots> = v" unfolding slice_splice_same [OF fit] by simp
    finally show ?thesis using 2 by simp
  next
    case 3
    have "c div 128 = b div 128" using 3(1) by (simp add: csum_lba_def)
    then have "unat (c mod 128) \<noteq> unat (b mod 128)"
      using 3(2) word_div_mod_eq [of c 128 b] by (metis unsigned_word_eqI)
    then have "unat (c mod 128) * 4 + 4 \<le> unat (b mod 128) * 4 \<or> unat (b mod 128) * 4 + 4 \<le> unat (c mod 128) * 4"
      by linarith
    then have "slice (unat (c mod 128) * 4) 4 (splice (unat (b mod 128) * 4) (le32 v) ?S) =
        slice (unat (c mod 128) * 4) 4 ?S"
      using bnd len by (intro slice_splice_disjoint) auto
    then show ?thesis using 3 bnd len len' by (simp add: get_le32_slice)
  qed auto
qed

lemma wrf_data_write_vol:
  assumes "vol_ok w" "valid_blk w b" "length s = WRF_BLOCK_SIZE"
  defines "w' \<equiv> wrf_data_write w b s"
  shows "vol_ok w'" and "same_env w w'"
    and "g_block_bitmap w' = g_block_bitmap w" "g_inode_bitmap w' = g_inode_bitmap w"
    and "vol_of w' = (vol_of w)\<lparr>vdata := (vdata (vol_of w))(b := s), vsum := (vsum (vol_of w))(b := wrf_crc32 s)\<rparr>"
proof -
  note eq = wrf_data_write_ok [OF assms(1-3), folded w'_def]
  note d = lba_distinct [OF assms(1)]
  have len: "length (splice (unat (b mod 128) * 4) (le32 (wrf_crc32 s)) (sec w (csum_lba w b))) = WRF_BLOCK_SIZE"
    using assms slot_bounds(1) [of b] by (simp add: vol_ok_sec_length lba_in_vol)
  then show "vol_ok w'" unfolding eq using assms by blast
  show "same_env w w'" "g_block_bitmap w' = g_block_bitmap w" "g_inode_bitmap w' = g_inode_bitmap w"
    unfolding eq by simp_all
  have "vdata (vol_of w') = (vdata (vol_of w))(b := s)"
    unfolding eq using assms(2) d(1) [OF _ assms(2)] by (auto simp: vol_of_def fun_eq_iff data_lba_def)
  moreover have "vsum (vol_of w') = (vsum (vol_of w))(b := wrf_crc32 s)"
  proof (rule ext)
    fix c
    show "vsum (vol_of w') c = ((vsum (vol_of w))(b := wrf_crc32 s)) c"
    proof (cases "valid_blk w c")
      case True
      then show ?thesis
        using vsum_put_csum [OF assms(1,2) True, of "wrf_crc32 s"] d(1) [OF assms(2) True] unfolding eq
        by (auto simp: vol_of_def split: if_splits)
    next
      case False
      then show ?thesis using assms(2) unfolding eq by (auto simp: vol_of_def)
    qed
  qed
  moreover have "vino (vol_of w') = vino (vol_of w)"
    unfolding eq using d(3) [OF assms(2), THEN not_sym] d(6) [OF assms(2), THEN not_sym] by (auto simp: vol_of_def fun_eq_iff)
  moreover have "vused (vol_of w') = vused (vol_of w)" "viused (vol_of w') = viused (vol_of w)"
    unfolding eq by (simp_all add: vol_of_def)
  ultimately show "vol_of w' = (vol_of w)\<lparr>vdata := (vdata (vol_of w))(b := s), vsum := (vsum (vol_of w))(b := wrf_crc32 s)\<rparr>"
    by simp
qed

lemma wrf_inode_write_ok:
  assumes "vol_ok w" "valid_ino w i" "inode_wf di"
  shows "wrf_inode_write w i di =
    put_sec w (ino_lba w i) (splice (unat (i mod 4) * INODE_SIZE) (inode_bytes di) (sec w (ino_lba w i)))"
  using assms slot_bounds(2) [of i]
  by (simp add: wrf_inode_write_def ino_lba_def [symmetric] disk_read_ok disk_write_ok lba_in_vol Let_def
      vol_ok_sec_length)

lemma vino_put_ino:
  assumes "vol_ok w" "valid_ino w i" "valid_ino w j" "inode_wf di"
  shows "inode_of_bytes (slice (unat (j mod 4) * INODE_SIZE) INODE_SIZE
      (if ino_lba w j = ino_lba w i
       then splice (unat (i mod 4) * INODE_SIZE) (inode_bytes di) (sec w (ino_lba w i))
       else sec w (ino_lba w j))) =
    (if j = i then di
     else inode_of_bytes (slice (unat (j mod 4) * INODE_SIZE) INODE_SIZE (sec w (ino_lba w j))))"
proof -
  let ?S = "sec w (ino_lba w i)"
  have len: "length ?S = WRF_BLOCK_SIZE" using assms by (simp add: vol_ok_sec_length lba_in_vol)
  note bnd = slot_bounds(2) [of i] slot_bounds(2) [of j]
  have fit: "unat (i mod 4) * INODE_SIZE + length (inode_bytes di) \<le> length ?S" using bnd len assms(4) by simp
  consider "ino_lba w j \<noteq> ino_lba w i" | "j = i" | "ino_lba w j = ino_lba w i" "j \<noteq> i" by blast
  then show ?thesis
  proof cases
    case 2
    then show ?thesis using slice_splice_same [OF fit] assms(4) by simp
  next
    case 3
    have "j div 4 = i div 4" using 3(1) by (simp add: ino_lba_def)
    then have "unat (j mod 4) \<noteq> unat (i mod 4)"
      using 3(2) word_div_mod_eq [of j 4 i] by (metis unsigned_word_eqI)
    then have "unat (j mod 4) * INODE_SIZE + INODE_SIZE \<le> unat (i mod 4) * INODE_SIZE \<or>
        unat (i mod 4) * INODE_SIZE + INODE_SIZE \<le> unat (j mod 4) * INODE_SIZE" by linarith
    then have "slice (unat (j mod 4) * INODE_SIZE) INODE_SIZE
          (splice (unat (i mod 4) * INODE_SIZE) (inode_bytes di) ?S) =
        slice (unat (j mod 4) * INODE_SIZE) INODE_SIZE ?S"
      using bnd len fit assms(4) by (intro slice_splice_disjoint) auto
    then show ?thesis using 3 by simp
  qed auto
qed

lemma wrf_inode_write_vol:
  assumes "vol_ok w" "valid_ino w i" "inode_wf di"
  defines "w' \<equiv> wrf_inode_write w i di"
  shows "vol_ok w'" and "same_env w w'"
    and "g_block_bitmap w' = g_block_bitmap w" "g_inode_bitmap w' = g_inode_bitmap w"
    and "vol_of w' = (vol_of w)\<lparr>vino := (vino (vol_of w))(i := di)\<rparr>"
proof -
  note eq = wrf_inode_write_ok [OF assms(1-3), folded w'_def]
  note d = lba_distinct [OF assms(1)]
  have len: "length (splice (unat (i mod 4) * INODE_SIZE) (inode_bytes di) (sec w (ino_lba w i))) = WRF_BLOCK_SIZE"
    using assms slot_bounds(2) [of i] by (simp add: vol_ok_sec_length lba_in_vol)
  then show "vol_ok w'" unfolding eq using assms by blast
  show "same_env w w'" "g_block_bitmap w' = g_block_bitmap w" "g_inode_bitmap w' = g_inode_bitmap w"
    unfolding eq by simp_all
  have "vino (vol_of w') = (vino (vol_of w))(i := di)"
  proof (rule ext)
    fix j
    show "vino (vol_of w') j = ((vino (vol_of w))(i := di)) j"
    proof (cases "valid_ino w j")
      case True
      then show ?thesis using vino_put_ino [OF assms(1,2) True assms(3)] unfolding eq
        by (auto simp: vol_of_def split: if_splits)
    next
      case False
      then show ?thesis using assms(2) unfolding eq by (auto simp: vol_of_def)
    qed
  qed
  moreover have "vdata (vol_of w') = vdata (vol_of w)" "vsum (vol_of w') = vsum (vol_of w)"
    unfolding eq using d(3) [OF _ assms(2)] d(6) [OF _ assms(2)] by (auto simp: vol_of_def fun_eq_iff)
  moreover have "vused (vol_of w') = vused (vol_of w)" "viused (vol_of w') = viused (vol_of w)"
    unfolding eq by (simp_all add: vol_of_def)
  ultimately show "vol_of w' = (vol_of w)\<lparr>vino := (vino (vol_of w))(i := di)\<rparr>" by simp
qed

section \<open>Allocation\<close>

lemma bitmap_env [simp]:
  "valid_blk (w\<lparr>g_block_bitmap := bm\<rparr>) = valid_blk w" "valid_ino (w\<lparr>g_block_bitmap := bm\<rparr>) = valid_ino w"
  "data_lba (w\<lparr>g_block_bitmap := bm\<rparr>) = data_lba w" "csum_lba (w\<lparr>g_block_bitmap := bm\<rparr>) = csum_lba w"
  "ino_lba (w\<lparr>g_block_bitmap := bm\<rparr>) = ino_lba w" "sec (w\<lparr>g_block_bitmap := bm\<rparr>) = sec w"
  "bbm_lba (w\<lparr>g_block_bitmap := bm\<rparr>) = bbm_lba w" "ibm_lba (w\<lparr>g_block_bitmap := bm\<rparr>) = ibm_lba w"
  "in_vol (w\<lparr>g_block_bitmap := bm\<rparr>) = in_vol w" "vol_disk (w\<lparr>g_block_bitmap := bm\<rparr>) = vol_disk w"
  "valid_blk (w\<lparr>g_inode_bitmap := bm\<rparr>) = valid_blk w" "valid_ino (w\<lparr>g_inode_bitmap := bm\<rparr>) = valid_ino w"
  "data_lba (w\<lparr>g_inode_bitmap := bm\<rparr>) = data_lba w" "csum_lba (w\<lparr>g_inode_bitmap := bm\<rparr>) = csum_lba w"
  "ino_lba (w\<lparr>g_inode_bitmap := bm\<rparr>) = ino_lba w" "sec (w\<lparr>g_inode_bitmap := bm\<rparr>) = sec w"
  "bbm_lba (w\<lparr>g_inode_bitmap := bm\<rparr>) = bbm_lba w" "ibm_lba (w\<lparr>g_inode_bitmap := bm\<rparr>) = ibm_lba w"
  "in_vol (w\<lparr>g_inode_bitmap := bm\<rparr>) = in_vol w" "vol_disk (w\<lparr>g_inode_bitmap := bm\<rparr>) = vol_disk w"
  by (simp_all add: valid_blk_def valid_ino_def lba_defs sec_def vol_disk_def in_vol_def fun_eq_iff)

lemma bitmap_vol [simp]:
  "vol_ok (w\<lparr>g_block_bitmap := bm\<rparr>) = vol_ok w" "vol_ok (w\<lparr>g_inode_bitmap := bm\<rparr>) = vol_ok w"
  "same_env w' (w\<lparr>g_block_bitmap := bm\<rparr>) = same_env w' w" "same_env w' (w\<lparr>g_inode_bitmap := bm\<rparr>) = same_env w' w"
  "vol_of (w\<lparr>g_block_bitmap := bm\<rparr>) = (vol_of w)\<lparr>vused := \<lambda>b. bit_test bm (unat b)\<rparr>"
  "vol_of (w\<lparr>g_inode_bitmap := bm\<rparr>) = (vol_of w)\<lparr>viused := \<lambda>i. bit_test bm (unat i)\<rparr>"
  by (simp_all add: vol_of_def vol_ok_def same_env_def cong: if_cong)

lemma bitmap_sector: "unat (b div 8 div 512 :: u32) = unat b div 4096"
  using u32_div [of "b div 8" 512] u32_div [of b 8] by (simp add: div_mult2_eq [symmetric])

text \<open>The sector of a bitmap that holds a bit.\<close>

definition bm_sector :: "bytes_array \<Rightarrow> u32 \<Rightarrow> u8 list" where
  "bm_sector bm b = array_get (unat b div 4096 * WRF_BLOCK_SIZE) WRF_BLOCK_SIZE bm"

lemma length_bm_sector [simp]: "length (bm_sector bm b) = WRF_BLOCK_SIZE"
  by (simp add: bm_sector_def)

lemma flush_block_bitmap:
  "vol_ok w \<Longrightarrow> valid_blk w b \<Longrightarrow>
   flush_bitmap_sector w bm b (block_bitmap_lba (g_sb w)) = put_sec w (bbm_lba w b) (bm_sector bm b)"
  using disk_write_ok [of w "bbm_lba w b" "bm_sector bm b"]
  by (simp add: flush_bitmap_sector_def bbm_lba_def [symmetric] lba_in_vol bitmap_sector
      bm_sector_def [symmetric] Let_def)

lemma flush_inode_bitmap:
  "vol_ok w \<Longrightarrow> valid_ino w i \<Longrightarrow>
   flush_bitmap_sector w bm i (inode_bitmap_lba (g_sb w)) = put_sec w (ibm_lba w i) (bm_sector bm i)"
  using disk_write_ok [of w "ibm_lba w i" "bm_sector bm i"]
  by (simp add: flush_bitmap_sector_def ibm_lba_def [symmetric] lba_in_vol bitmap_sector
      bm_sector_def [symmetric] Let_def)

lemma vol_of_put_bbm:
  "vol_ok w \<Longrightarrow> valid_blk w b \<Longrightarrow> vol_of (put_sec w (bbm_lba w b) s) = vol_of w"
  using lba_distinct(2,5) [of w] lba_distinct(8) [of w b, THEN not_sym] by (auto simp: vol_of_def fun_eq_iff)

lemma vol_of_put_ibm:
  "vol_ok w \<Longrightarrow> valid_ino w i \<Longrightarrow> vol_of (put_sec w (ibm_lba w i) s) = vol_of w"
  using lba_distinct(4,7,10) [of w] by (auto simp: vol_of_def fun_eq_iff)

lemma vused_vol_of: "vused (vol_of w) = (\<lambda>b. bit_test (g_block_bitmap w) (unat b))"
  "viused (vol_of w) = (\<lambda>i. bit_test (g_inode_bitmap w) (unat i))"
  by (simp_all add: vol_of_def)

lemma total_blocks_bound: "vol_ok w \<Longrightarrow> unat (total_blocks (g_sb w)) \<le> 2 ^ 28"
  using vol_bound [of w] by simp

text \<open>The lowest free block, if any: what \<^verbatim>\<open>wrf_block_alloc\<close> picks.\<close>

definition first_free_blk :: "wrf \<Rightarrow> nat option" where
  "first_free_blk w = scan (\<lambda>i. \<not> bit_test (g_block_bitmap w) i) 0 (unat (total_blocks (g_sb w)))"

lemma first_free_blkD:
  assumes "vol_ok w" "first_free_blk w = Some i"
  shows "valid_blk w (of_nat i)" "unat (of_nat i :: u32) = i" "sint (of_nat i :: u32) = int i" "i < 2 ^ 28"
    "\<not> vused (vol_of w) (of_nat i)"
proof -
  have lt: "i < unat (total_blocks (g_sb w))" and free: "\<not> bit_test (g_block_bitmap w) i"
    using assms(2) unfolding first_free_blk_def by (auto dest: scan_SomeD)
  then show small: "i < 2 ^ 28" using total_blocks_bound [OF assms(1)] by linarith
  then show u: "unat (of_nat i :: u32) = i" by (simp add: unat_of_nat)
  show "valid_blk w (of_nat i)" using lt u by (simp add: valid_blk_def word_less_nat_alt)
  show "sint (of_nat i :: u32) = int i" using small by (intro sint_small) simp
  show "\<not> vused (vol_of w) (of_nat i)" using free u by (simp add: vol_of_def)
qed

lemma bit_test_upd:
  fixes b :: u32
  shows "(\<lambda>c :: u32. bit_test (bit_set bm (unat b)) (unat c)) = (\<lambda>c. bit_test bm (unat c))(b := True)"
    and "(\<lambda>c :: u32. bit_test (bit_clear bm (unat b)) (unat c)) = (\<lambda>c. bit_test bm (unat c))(b := False)"
  by (auto simp: bits.used_mark bits.used_release fun_eq_iff word_unat_eq_iff)

lemma wrf_block_alloc_None:
  "first_free_blk w = None \<Longrightarrow> wrf_block_alloc w = (- 1, w)"
  by (simp add: wrf_block_alloc_def first_free_blk_def)

lemma wrf_block_alloc_Some:
  assumes "vol_ok w" "first_free_blk w = Some i"
  shows "\<exists>w'. wrf_block_alloc w = (int i, w') \<and> vol_ok w' \<and> same_env w w' \<and>
    g_inode_bitmap w' = g_inode_bitmap w \<and> g_block_bitmap w' = bit_set (g_block_bitmap w) i \<and>
    vol_of w' = (vol_of w)\<lparr>vused := (vused (vol_of w))(of_nat i := True),
       vdata := (vdata (vol_of w))(of_nat i := replicate WRF_BLOCK_SIZE 0),
       vsum := (vsum (vol_of w))(of_nat i := wrf_crc32 (replicate WRF_BLOCK_SIZE 0))\<rparr>"
proof -
  note D = first_free_blkD [OF assms]
  define bm where "bm = bit_set (g_block_bitmap w) i"
  define w1 where "w1 = w\<lparr>g_block_bitmap := bm\<rparr>"
  define w2 where "w2 = put_sec w1 (bbm_lba w (of_nat i)) (bm_sector bm (of_nat i))"
  have w1: "vol_ok w1" "valid_blk w1 (of_nat i)" using assms(1) D(1) by (simp_all add: w1_def)
  have fl: "flush_bitmap_sector w1 bm (of_nat i) (block_bitmap_lba (g_sb w)) = w2"
    using flush_block_bitmap [OF w1, of bm] by (simp add: w1_def w2_def)
  have w2: "vol_ok w2" "valid_blk w2 (of_nat i)" unfolding w2_def using w1 by (auto simp: w1_def)
  have v2: "vol_of w2 = (vol_of w)\<lparr>vused := (vused (vol_of w))(of_nat i := True)\<rparr>"
    using vol_of_put_bbm [OF w1, of "bm_sector bm (of_nat i)"] bit_test_upd(1) [of "g_block_bitmap w" "of_nat i"] D(2)
    by (simp add: w2_def w1_def bm_def vused_vol_of)
  note dw = wrf_data_write_vol [OF w2, of "replicate WRF_BLOCK_SIZE 0", simplified]
  have "wrf_block_alloc w = (int i, wrf_data_write w2 (of_nat i) (replicate WRF_BLOCK_SIZE 0))"
    using assms(2) fl D(3) by (simp add: wrf_block_alloc_def first_free_blk_def w1_def bm_def Let_def)
  moreover have "same_env w w2" by (simp add: w2_def w1_def)
  ultimately show ?thesis using dw v2 same_env_trans [OF _ dw(2), of w]
    by (intro exI [of _ "wrf_data_write w2 (of_nat i) (replicate WRF_BLOCK_SIZE 0)"])
      (simp add: w2_def w1_def bm_def)
qed

lemma wrf_block_free_vol:
  assumes "vol_ok w" "valid_blk w b"
  defines "w' \<equiv> wrf_block_free w b"
  shows "vol_ok w'" and "same_env w w'" and "g_inode_bitmap w' = g_inode_bitmap w"
    and "g_block_bitmap w' = bit_clear (g_block_bitmap w) (unat b)"
    and "vol_of w' = (vol_of w)\<lparr>vused := (vused (vol_of w))(b := False)\<rparr>"
proof -
  define w1 where "w1 = w\<lparr>g_block_bitmap := bit_clear (g_block_bitmap w) (unat b)\<rparr>"
  have w1: "vol_ok w1" "valid_blk w1 b" using assms(1,2) by (simp_all add: w1_def)
  have eq: "w' = put_sec w1 (bbm_lba w b) (bm_sector (g_block_bitmap w1) b)"
    using flush_block_bitmap [OF w1, of "g_block_bitmap w1"]
    by (simp add: w'_def wrf_block_free_def w1_def Let_def)
  show "vol_ok w'" unfolding eq using w1 by (simp add: vol_ok_put_sec)
  show "same_env w w'" "g_inode_bitmap w' = g_inode_bitmap w"
    "g_block_bitmap w' = bit_clear (g_block_bitmap w) (unat b)" unfolding eq by (simp_all add: w1_def)
  show "vol_of w' = (vol_of w)\<lparr>vused := (vused (vol_of w))(b := False)\<rparr>"
    using vol_of_put_bbm [OF w1, of "bm_sector (g_block_bitmap w1) b"] bit_test_upd(2) [of "g_block_bitmap w" b]
    unfolding eq by (simp add: w1_def vused_vol_of)
qed

lemma inode_count_bound:
  assumes "vol_ok w"
  shows "unat (inode_count (g_sb w)) \<le> 2 ^ 30"
  using vol_bound [OF assms] vol_ok_ordered [OF assms] unfolding sb_ordered_def by auto

definition first_free_ino :: "wrf \<Rightarrow> nat option" where
  "first_free_ino w = scan (\<lambda>i. \<not> bit_test (g_inode_bitmap w) i) 1 (unat (inode_count (g_sb w)))"

lemma first_free_inoD:
  assumes "vol_ok w" "first_free_ino w = Some i"
  shows "valid_ino w (of_nat i)" "unat (of_nat i :: u32) = i" "sint (of_nat i :: u32) = int i" "0 < i" "i < 2 ^ 30"
    "\<not> viused (vol_of w) (of_nat i)"
proof -
  have lt: "i < unat (inode_count (g_sb w))" and free: "\<not> bit_test (g_inode_bitmap w) i" and pos: "1 \<le> i"
    using assms(2) unfolding first_free_ino_def by (auto dest: scan_SomeD)
  then show small: "i < 2 ^ 30" using inode_count_bound [OF assms(1)] by linarith
  show "0 < i" using pos by simp
  show u: "unat (of_nat i :: u32) = i" using small by (simp add: unat_of_nat)
  show "valid_ino w (of_nat i)" using lt u by (simp add: valid_ino_def word_less_nat_alt)
  show "sint (of_nat i :: u32) = int i" using small by (intro sint_small) simp
  show "\<not> viused (vol_of w) (of_nat i)" using free u by (simp add: vused_vol_of)
qed

lemma wrf_inode_alloc_None: "first_free_ino w = None \<Longrightarrow> wrf_inode_alloc w = (- 1, w)"
  by (simp add: wrf_inode_alloc_def first_free_ino_def)

lemma wrf_inode_alloc_Some:
  assumes "vol_ok w" "first_free_ino w = Some i"
  shows "\<exists>w'. wrf_inode_alloc w = (int i, w') \<and> vol_ok w' \<and> same_env w w' \<and>
    g_block_bitmap w' = g_block_bitmap w \<and> g_inode_bitmap w' = bit_set (g_inode_bitmap w) i \<and>
    vol_of w' = (vol_of w)\<lparr>viused := (viused (vol_of w))(of_nat i := True)\<rparr>"
proof -
  note D = first_free_inoD [OF assms]
  define bm where "bm = bit_set (g_inode_bitmap w) i"
  define w1 where "w1 = w\<lparr>g_inode_bitmap := bm\<rparr>"
  define w2 where "w2 = put_sec w1 (ibm_lba w (of_nat i)) (bm_sector bm (of_nat i))"
  have w1: "vol_ok w1" "valid_ino w1 (of_nat i)" using assms(1) D(1) by (simp_all add: w1_def)
  have fl: "flush_bitmap_sector w1 bm (of_nat i) (inode_bitmap_lba (g_sb w)) = w2"
    using flush_inode_bitmap [OF w1, of bm] by (simp add: w1_def w2_def)
  have ok: "vol_ok w2" unfolding w2_def using w1 by (simp add: vol_ok_put_sec)
  have "vol_of w2 = (vol_of w)\<lparr>viused := (viused (vol_of w))(of_nat i := True)\<rparr>"
    using vol_of_put_ibm [OF w1, of "bm_sector bm (of_nat i)"] bit_test_upd(1) [of "g_inode_bitmap w" "of_nat i"] D(2)
    by (simp add: w2_def w1_def bm_def vused_vol_of)
  moreover have "wrf_inode_alloc w = (int i, w2)"
    using assms(2) fl D(3) by (simp add: wrf_inode_alloc_def first_free_ino_def w1_def bm_def Let_def)
  ultimately show ?thesis using ok by (intro exI [of _ w2]) (simp add: w2_def w1_def bm_def)
qed

lemma wrf_inode_free_bit_vol:
  assumes "vol_ok w" "valid_ino w i"
  defines "w' \<equiv> wrf_inode_free_bit w i"
  shows "vol_ok w'" and "same_env w w'" and "g_block_bitmap w' = g_block_bitmap w"
    and "g_inode_bitmap w' = bit_clear (g_inode_bitmap w) (unat i)"
    and "vol_of w' = (vol_of w)\<lparr>viused := (viused (vol_of w))(i := False)\<rparr>"
proof -
  define w1 where "w1 = w\<lparr>g_inode_bitmap := bit_clear (g_inode_bitmap w) (unat i)\<rparr>"
  have w1: "vol_ok w1" "valid_ino w1 i" using assms(1,2) by (simp_all add: w1_def)
  have eq: "w' = put_sec w1 (ibm_lba w i) (bm_sector (g_inode_bitmap w1) i)"
    using flush_inode_bitmap [OF w1, of "g_inode_bitmap w1"]
    by (simp add: w'_def wrf_inode_free_bit_def w1_def Let_def)
  show "vol_ok w'" unfolding eq using w1 by (simp add: vol_ok_put_sec)
  show "same_env w w'" "g_block_bitmap w' = g_block_bitmap w"
    "g_inode_bitmap w' = bit_clear (g_inode_bitmap w) (unat i)" unfolding eq by (simp_all add: w1_def)
  show "vol_of w' = (vol_of w)\<lparr>viused := (viused (vol_of w))(i := False)\<rparr>"
    using vol_of_put_ibm [OF w1, of "bm_sector (g_inode_bitmap w1) i"] bit_test_upd(2) [of "g_inode_bitmap w" i]
    unfolding eq by (simp add: w1_def vused_vol_of)
qed

section \<open>The bitmaps on disk\<close>

text \<open>The cached bitmaps and their sectors on disk agree.\<close>

definition synced :: "wrf \<Rightarrow> bool" where
  "synced w \<longleftrightarrow>
     (\<forall>b. valid_blk w b \<longrightarrow> sec w (bbm_lba w b) = bm_sector (g_block_bitmap w) b) \<and>
     (\<forall>i. valid_ino w i \<longrightarrow> sec w (ibm_lba w i) = bm_sector (g_inode_bitmap w) i)"

lemma bm_sector_other:
  assumes "unat c div 4096 \<noteq> unat b div 4096"
  shows "bm_sector (bit_set bm (unat b)) c = bm_sector bm c" "bm_sector (bit_clear bm (unat b)) c = bm_sector bm c"
proof -
  have "unat c div 4096 * 512 + k \<noteq> unat b div 8" if "k < 512" for k
  proof
    assume "unat c div 4096 * 512 + k = unat b div 8"
    then have "unat b div 8 div 512 = unat c div 4096" using that by (metis add.commute add_0 div_less div_mult_self3 zero_neq_numeral)
    then show False using assms by (simp add: div_mult2_eq [symmetric])
  qed
  then show "bm_sector (bit_set bm (unat b)) c = bm_sector bm c" "bm_sector (bit_clear bm (unat b)) c = bm_sector bm c"
    by (auto simp: bm_sector_def array_get_def bit_set_def bit_clear_def)
qed

lemma bbm_lba_eq: "vol_ok w \<Longrightarrow> valid_blk w b \<Longrightarrow> valid_blk w c \<Longrightarrow>
    bbm_lba w c = bbm_lba w b \<longleftrightarrow> unat c div 4096 = unat b div 4096"
  by (simp add: word_unat_eq_iff unat_bbm_lba(1))

lemma ibm_lba_eq: "vol_ok w \<Longrightarrow> valid_ino w b \<Longrightarrow> valid_ino w c \<Longrightarrow>
    ibm_lba w c = ibm_lba w b \<longleftrightarrow> unat c div 4096 = unat b div 4096"
  by (simp add: word_unat_eq_iff unat_ibm_lba(1))

lemma synced_put_bbm:
  assumes "vol_ok w" "synced w" "valid_blk w b"
    and "bm = bit_set (g_block_bitmap w) (unat b) \<or> bm = bit_clear (g_block_bitmap w) (unat b)"
  shows "synced (put_sec (w\<lparr>g_block_bitmap := bm\<rparr>) (bbm_lba w b) (bm_sector bm b))"
proof -
  have "bm_sector bm c = (if bbm_lba w c = bbm_lba w b then bm_sector bm b else sec w (bbm_lba w c))"
    if "valid_blk w c" for c
  proof (cases "unat c div 4096 = unat b div 4096")
    case True
    then show ?thesis using bbm_lba_eq [OF assms(1,3) that] by (simp add: bm_sector_def)
  next
    case False
    then have "bm_sector bm c = bm_sector (g_block_bitmap w) c" using assms(4) bm_sector_other by blast
    then show ?thesis using bbm_lba_eq [OF assms(1,3) that] False assms(2) that by (simp add: synced_def)
  qed
  moreover have "ibm_lba w i \<noteq> bbm_lba w b" if "valid_ino w i" for i
    using lba_distinct(9) [OF assms(1,3) that] by simp
  ultimately show ?thesis using assms(2) unfolding synced_def by simp
qed

lemma synced_put_ibm:
  assumes "vol_ok w" "synced w" "valid_ino w b"
    and "bm = bit_set (g_inode_bitmap w) (unat b) \<or> bm = bit_clear (g_inode_bitmap w) (unat b)"
  shows "synced (put_sec (w\<lparr>g_inode_bitmap := bm\<rparr>) (ibm_lba w b) (bm_sector bm b))"
proof -
  have "bm_sector bm c = (if ibm_lba w c = ibm_lba w b then bm_sector bm b else sec w (ibm_lba w c))"
    if "valid_ino w c" for c
  proof (cases "unat c div 4096 = unat b div 4096")
    case True
    then show ?thesis using ibm_lba_eq [OF assms(1,3) that] by (simp add: bm_sector_def)
  next
    case False
    then have "bm_sector bm c = bm_sector (g_inode_bitmap w) c" using assms(4) bm_sector_other by blast
    then show ?thesis using ibm_lba_eq [OF assms(1,3) that] False assms(2) that by (simp add: synced_def)
  qed
  moreover have "bbm_lba w c \<noteq> ibm_lba w b" if "valid_blk w c" for c
    using lba_distinct(9) [OF assms(1) that assms(3)] by simp
  ultimately show ?thesis using assms(2) unfolding synced_def by simp
qed

lemma synced_data_write:
  assumes "vol_ok w" "valid_blk w b" "length s = WRF_BLOCK_SIZE" "synced w"
  shows "synced (wrf_data_write w b s)"
proof -
  note d = lba_distinct [OF assms(1)]
  have "bbm_lba w c \<noteq> data_lba w b" "bbm_lba w c \<noteq> csum_lba w b" if "valid_blk w c" for c
    using d(2,5) [OF assms(2) that] by simp_all
  moreover have "ibm_lba w i \<noteq> data_lba w b" "ibm_lba w i \<noteq> csum_lba w b" if "valid_ino w i" for i
    using d(4,7) [OF assms(2) that] by simp_all
  ultimately show ?thesis using assms(4) unfolding wrf_data_write_ok [OF assms(1-3)] synced_def by simp
qed

lemma synced_inode_write:
  assumes "vol_ok w" "valid_ino w i" "inode_wf di" "synced w"
  shows "synced (wrf_inode_write w i di)"
proof -
  note d = lba_distinct [OF assms(1)]
  have "bbm_lba w c \<noteq> ino_lba w i" if "valid_blk w c" for c using d(8) [OF that assms(2)] by simp
  moreover have "ibm_lba w j \<noteq> ino_lba w i" if "valid_ino w j" for j using d(10) [OF assms(2) that] by simp
  ultimately show ?thesis using assms(4) unfolding wrf_inode_write_ok [OF assms(1-3)] synced_def by simp
qed

section \<open>The operations as volume updates\<close>

text \<open>One step of the driver on a healthy volume: it stays healthy, mounted as it was, and
  cached bitmaps that agreed with the disk still do.\<close>

definition evolves :: "wrf \<Rightarrow> wrf \<Rightarrow> bool" where
  "evolves w w' \<longleftrightarrow> vol_ok w \<and> vol_ok w' \<and> same_env w w' \<and> (synced w \<longrightarrow> synced w')"

lemma evolves_refl: "vol_ok w \<Longrightarrow> evolves w w"
  by (simp add: evolves_def)

lemma evolves_trans [trans]: "evolves w w' \<Longrightarrow> evolves w' w'' \<Longrightarrow> evolves w w''"
  unfolding evolves_def using same_env_trans by blast

lemma evolvesD:
  assumes "evolves w w'"
  shows "vol_ok w" "vol_ok w'" "g_sb w' = g_sb w" "stack_junk w' = stack_junk w" "rtc_now w' = rtc_now w"
    "valid_blk w' = valid_blk w" "valid_ino w' = valid_ino w" "synced w \<Longrightarrow> synced w'"
  using assms by (auto simp: evolves_def same_env_def valid_blk_def valid_ino_def fun_eq_iff)

lemma evolves_csum [simp]: "evolves w (w'\<lparr>g_csum_errors := n\<rparr>) = evolves w w'"
  by (simp add: evolves_def synced_def lba_defs)

lemma data_write_step:
  assumes "vol_ok w" "valid_blk w b" "length s = WRF_BLOCK_SIZE"
  shows "evolves w (wrf_data_write w b s)"
    and "vol_of (wrf_data_write w b s) =
      (vol_of w)\<lparr>vdata := (vdata (vol_of w))(b := s), vsum := (vsum (vol_of w))(b := wrf_crc32 s)\<rparr>"
  using wrf_data_write_vol [OF assms] synced_data_write [OF assms] assms(1)
  by (simp_all add: evolves_def)

lemma inode_write_step:
  assumes "vol_ok w" "valid_ino w i" "inode_wf di"
  shows "evolves w (wrf_inode_write w i di)"
    and "vol_of (wrf_inode_write w i di) = (vol_of w)\<lparr>vino := (vino (vol_of w))(i := di)\<rparr>"
  using wrf_inode_write_vol [OF assms] synced_inode_write [OF assms] assms(1)
  by (simp_all add: evolves_def)

lemma data_read_step:
  assumes "vol_ok w" "valid_blk w b" "length buf = WRF_BLOCK_SIZE"
  shows "\<exists>ok w'. wrf_data_read w b buf = (ok, vdata (vol_of w) b, w') \<and> evolves w w' \<and> vol_of w' = vol_of w \<and>
     g_block_bitmap w' = g_block_bitmap w \<and> g_inode_bitmap w' = g_inode_bitmap w \<and>
     g_disks w' = g_disks w \<and> (ok \<longleftrightarrow> vsum (vol_of w) b = wrf_crc32 (vdata (vol_of w) b)) \<and> (ok \<longrightarrow> w' = w)"
  using assms(1) by (simp add: wrf_data_read_vol [OF assms] Let_def evolves_refl)

lemma block_alloc_step:
  assumes "vol_ok w"
  obtains (full) "wrf_block_alloc w = (- 1, w)" "\<And>b. valid_blk w b \<Longrightarrow> vused (vol_of w) b"
  | (fresh) b w' where "wrf_block_alloc w = (int (unat b), w')" "unat b < 2 ^ 28" "valid_blk w b"
      "\<not> vused (vol_of w) b" "evolves w w'"
      "vol_of w' = (vol_of w)\<lparr>vused := (vused (vol_of w))(b := True),
         vdata := (vdata (vol_of w))(b := replicate WRF_BLOCK_SIZE 0),
         vsum := (vsum (vol_of w))(b := wrf_crc32 (replicate WRF_BLOCK_SIZE 0))\<rparr>"
proof (cases "first_free_blk w")
  case None
  then have "vused (vol_of w) b" if "valid_blk w b" for b
    using that by (auto simp: first_free_blk_def scan_None_iff vused_vol_of valid_blk_def word_less_nat_alt)
  then show ?thesis using full wrf_block_alloc_None [OF None] by blast
next
  case (Some i)
  note D = first_free_blkD [OF assms Some]
  obtain w' where w': "wrf_block_alloc w = (int i, w')" "vol_ok w'" "same_env w w'"
    "vol_of w' = (vol_of w)\<lparr>vused := (vused (vol_of w))(of_nat i := True),
       vdata := (vdata (vol_of w))(of_nat i := replicate WRF_BLOCK_SIZE 0),
       vsum := (vsum (vol_of w))(of_nat i := wrf_crc32 (replicate WRF_BLOCK_SIZE 0))\<rparr>"
    using wrf_block_alloc_Some [OF assms Some] by blast
  have "synced w'" if "synced w"
  proof -
    let ?bm = "bit_set (g_block_bitmap w) (unat (of_nat i :: u32))"
    let ?w = "put_sec (w\<lparr>g_block_bitmap := ?bm\<rparr>) (bbm_lba w (of_nat i)) (bm_sector ?bm (of_nat i))"
    have "synced ?w" by (rule synced_put_bbm [OF assms that D(1)]) simp
    moreover have "vol_ok ?w" "valid_blk ?w (of_nat i)" using assms D(1) by (simp_all add: vol_ok_put_sec)
    moreover have "w' = wrf_data_write ?w (of_nat i) (replicate WRF_BLOCK_SIZE 0)"
      using w'(1) Some D assms flush_block_bitmap [of "w\<lparr>g_block_bitmap := ?bm\<rparr>" "of_nat i" ?bm]
      by (simp add: wrf_block_alloc_def first_free_blk_def Let_def)
    ultimately show ?thesis using synced_data_write [of ?w] by simp
  qed
  then have "evolves w w'" using assms w' by (simp add: evolves_def)
  then show ?thesis using fresh [of "of_nat i" w'] w' D by simp
qed

lemma block_free_step:
  assumes "vol_ok w" "valid_blk w b"
  shows "evolves w (wrf_block_free w b)"
    and "vol_of (wrf_block_free w b) = (vol_of w)\<lparr>vused := (vused (vol_of w))(b := False)\<rparr>"
proof -
  have eq: "wrf_block_free w b = put_sec (w\<lparr>g_block_bitmap := bit_clear (g_block_bitmap w) (unat b)\<rparr>)
      (bbm_lba w b) (bm_sector (bit_clear (g_block_bitmap w) (unat b)) b)"
    using flush_block_bitmap [of "w\<lparr>g_block_bitmap := bit_clear (g_block_bitmap w) (unat b)\<rparr>" b] assms
    by (simp add: wrf_block_free_def Let_def)
  show "evolves w (wrf_block_free w b)"
    using wrf_block_free_vol [OF assms] synced_put_bbm [OF assms(1) _ assms(2)] assms(1)
    by (simp add: evolves_def eq)
  show "vol_of (wrf_block_free w b) = (vol_of w)\<lparr>vused := (vused (vol_of w))(b := False)\<rparr>"
    by (rule wrf_block_free_vol [OF assms])
qed

lemma inode_alloc_step:
  assumes "vol_ok w"
  obtains (full) "wrf_inode_alloc w = (- 1, w)" "\<And>i. valid_ino w i \<Longrightarrow> i \<noteq> 0 \<Longrightarrow> viused (vol_of w) i"
  | (fresh) i w' where "wrf_inode_alloc w = (int (unat i), w')" "i \<noteq> 0" "unat i < 2 ^ 30" "valid_ino w i"
      "\<not> viused (vol_of w) i" "evolves w w'"
      "vol_of w' = (vol_of w)\<lparr>viused := (viused (vol_of w))(i := True)\<rparr>"
proof (cases "first_free_ino w")
  case None
  then have "viused (vol_of w) i" if "valid_ino w i" "i \<noteq> 0" for i
    using that unat_gt_0 [of i]
    by (auto simp: first_free_ino_def scan_None_iff vused_vol_of valid_ino_def word_less_nat_alt)
  then show ?thesis using full wrf_inode_alloc_None [OF None] by blast
next
  case (Some i)
  note D = first_free_inoD [OF assms Some]
  obtain w' where w': "wrf_inode_alloc w = (int i, w')" "vol_ok w'" "same_env w w'"
    "vol_of w' = (vol_of w)\<lparr>viused := (viused (vol_of w))(of_nat i := True)\<rparr>"
    using wrf_inode_alloc_Some [OF assms Some] by blast
  have "synced w'" if "synced w"
  proof -
    let ?bm = "bit_set (g_inode_bitmap w) (unat (of_nat i :: u32))"
    let ?w = "put_sec (w\<lparr>g_inode_bitmap := ?bm\<rparr>) (ibm_lba w (of_nat i)) (bm_sector ?bm (of_nat i))"
    have "synced ?w" by (rule synced_put_ibm [OF assms that D(1)]) simp
    moreover have "w' = ?w"
      using w'(1) Some D assms flush_inode_bitmap [of "w\<lparr>g_inode_bitmap := ?bm\<rparr>" "of_nat i" ?bm]
      by (simp add: wrf_inode_alloc_def first_free_ino_def Let_def)
    ultimately show ?thesis by simp
  qed
  then have "evolves w w'" using assms w' by (simp add: evolves_def)
  then show ?thesis using fresh [of "of_nat i" w'] w' D by (simp add: word_unat_eq_iff)
qed

lemma inode_free_step:
  assumes "vol_ok w" "valid_ino w i"
  shows "evolves w (wrf_inode_free_bit w i)"
    and "vol_of (wrf_inode_free_bit w i) = (vol_of w)\<lparr>viused := (viused (vol_of w))(i := False)\<rparr>"
proof -
  have eq: "wrf_inode_free_bit w i = put_sec (w\<lparr>g_inode_bitmap := bit_clear (g_inode_bitmap w) (unat i)\<rparr>)
      (ibm_lba w i) (bm_sector (bit_clear (g_inode_bitmap w) (unat i)) i)"
    using flush_inode_bitmap [of "w\<lparr>g_inode_bitmap := bit_clear (g_inode_bitmap w) (unat i)\<rparr>" i] assms
    by (simp add: wrf_inode_free_bit_def Let_def)
  show "evolves w (wrf_inode_free_bit w i)"
    using wrf_inode_free_bit_vol [OF assms] synced_put_ibm [OF assms(1) _ assms(2)] assms(1)
    by (simp add: evolves_def eq)
  show "vol_of (wrf_inode_free_bit w i) = (vol_of w)\<lparr>viused := (viused (vol_of w))(i := False)\<rparr>"
    by (rule wrf_inode_free_bit_vol [OF assms])
qed

section \<open>Properties\<close>

text \<open>A 91-block volume on a 100-sector disk, everything zero.\<close>

definition sample_geometry :: wrf_superblock where
  "sample_geometry = \<lparr>magic = WRF_MAGIC, version = WRF_VERSION, total_blocks = 91, inode_count = 16,
     inode_bitmap_lba = 1, inode_bitmap_blocks = 1, block_bitmap_lba = 6, block_bitmap_blocks = 1,
     inode_table_lba = 2, inode_table_blocks = 4, data_start_lba = 8, root_ino = 1,
     checksum_table_lba = 7, checksum_table_blocks = 1, generation = 1, sb_checksum = 0,
     sb_reserved = replicate 444 0\<rparr>"

definition sample_vol :: wrf where
  "sample_vol = \<lparr>g_disks = (\<lambda>_. sample_drive), g_mounted = True, g_disk = 0, g_sb = sample_geometry,
     g_inode_bitmap = (\<lambda>_. 0), g_block_bitmap = (\<lambda>_. 0), g_csum_errors = 0,
     stack_junk = replicate 512 0xAA, rtc_now = 0\<rparr>"

lemma sample_vol_ok: "vol_ok sample_vol"
  by (simp add: vol_ok_def sample_vol_def sample_geometry_def sb_ordered_def vol_disk_def sec_def in_vol_def
      sample_drive_def)

lemma sample_valid: "valid_blk sample_vol b \<longleftrightarrow> b < 91" "valid_ino sample_vol i \<longleftrightarrow> i < 16"
  by (simp_all add: valid_blk_def valid_ino_def sample_vol_def sample_geometry_def)

lemma sample_synced: "synced sample_vol"
  by (auto simp: synced_def sample_vol_def bm_sector_def sec_def vol_disk_def sample_drive_def array_get_def
      map_replicate_const)

text \<open>A data block written with \<^verbatim>\<open>wrf_data_write\<close> reads back as the same 512 bytes with a
  matching checksum, and for every other block neither the contents nor the verdict of its
  checksum changes, even for blocks whose checksums share a table sector.\<close>

theorem wrf_data_roundtrip:
  assumes "vol_ok w" and "valid_blk w b" and "valid_blk w c" and "length s = WRF_BLOCK_SIZE"
    and "length buf = WRF_BLOCK_SIZE"
  defines "w' \<equiv> wrf_data_write w b s"
  shows "wrf_data_read w' b buf = (True, s, w') \<and>
    (c \<noteq> b \<longrightarrow> fst (wrf_data_read w' c buf) = fst (wrf_data_read w c buf) \<and>
      fst (snd (wrf_data_read w' c buf)) = fst (snd (wrf_data_read w c buf)))"
proof -
  note st = data_write_step [OF assms(1,2,4), folded w'_def]
  have ok: "vol_ok w'" "valid_blk w' b" "valid_blk w' c" using evolvesD [OF st(1)] assms by simp_all
  have "wrf_data_read w' b buf = (True, s, w')"
    using wrf_data_read_vol [OF ok(1,2) assms(5)] by (simp add: st(2))
  moreover have "fst (wrf_data_read w' c buf) = fst (wrf_data_read w c buf) \<and>
      fst (snd (wrf_data_read w' c buf)) = fst (snd (wrf_data_read w c buf))" if "c \<noteq> b"
    using wrf_data_read_vol [OF ok(1,3) assms(5)] wrf_data_read_vol [OF assms(1,3,5)] that
    by (simp add: st(2) Let_def)
  ultimately show ?thesis by blast
qed

theorem wrf_data_roundtrip_witness:
  "wrf_data_read (wrf_data_write sample_vol 3 (replicate 512 7)) 3 (replicate 512 0) =
     (True, replicate 512 7, wrf_data_write sample_vol 3 (replicate 512 7))"
  using wrf_data_roundtrip [of sample_vol 3 3 "replicate 512 7" "replicate 512 0"]
  by (simp add: sample_vol_ok sample_valid)

text \<open>C24. If one byte of a written block later changes on the medium, \<^verbatim>\<open>wrf_data_read\<close> reports the
  mismatch and counts it, and still hands out the bytes that are on the disk.\<close>

theorem wrf_corruption_detected:
  assumes "vol_ok w" and "valid_blk w b" and "length s = WRF_BLOCK_SIZE" and "length buf = WRF_BLOCK_SIZE"
    and "k < WRF_BLOCK_SIZE" and "x \<noteq> s ! k"
  defines "w' \<equiv> wrf_data_write w b s"
  shows "wrf_data_read (put_sec w' (data_lba w' b) (s[k := x])) b buf =
    (False, s[k := x], (put_sec w' (data_lba w' b) (s[k := x]))\<lparr>g_csum_errors := g_csum_errors w' + 1\<rparr>)"
proof -
  note st = data_write_step [OF assms(1-3), folded w'_def]
  let ?w = "put_sec w' (data_lba w' b) (s[k := x])"
  have ok: "vol_ok w'" "valid_blk w' b" using evolvesD [OF st(1)] assms by simp_all
  have ok': "vol_ok ?w" "valid_blk ?w b" using ok assms(3) by (simp_all add: vol_ok_put_sec)
  have "vsum (vol_of ?w) b = vsum (vol_of w') b"
    using lba_distinct(1) [OF ok(1,2,2)] ok(2) by (simp add: vol_of_def)
  then have "vsum (vol_of ?w) b = wrf_crc32 s" by (simp add: st(2))
  moreover have "vdata (vol_of ?w) b = s[k := x]" using ok(2) by (simp add: vol_of_def)
  moreover have "wrf_crc32 (s[k := x]) \<noteq> wrf_crc32 s"
    using assms(3,5,6) by (intro wrf_crc32_single_byte) auto
  ultimately show ?thesis using wrf_data_read_vol [OF ok' assms(4)] by (simp add: Let_def eq_commute)
qed

theorem wrf_corruption_detected_witness:
  "let w = wrf_data_write sample_vol 3 (replicate 512 7)
   in \<not> fst (wrf_data_read (put_sec w (data_lba w 3) ((replicate 512 7)[9 := 8])) 3 (replicate 512 0))"
  using wrf_corruption_detected [of sample_vol 3 "replicate 512 7" "replicate 512 0" 9 8]
  by (simp add: sample_vol_ok sample_valid Let_def)

text \<open>C25. \<^verbatim>\<open>wrf_block_alloc\<close> fails exactly when every block of the volume is allocated; otherwise it
  returns a block that was free, marks exactly that block, leaves it zero-filled with a
  matching checksum, touches no other block and no inode, and keeps the bitmap on disk equal
  to the cached one.\<close>

theorem wrf_block_alloc_correct:
  assumes "vol_ok w" and "synced w" and "wrf_block_alloc w = (r, w')"
  shows "vol_ok w' \<and> synced w' \<and>
    (if r < 0 then w' = w \<and> (\<forall>b. valid_blk w b \<longrightarrow> vused (vol_of w) b)
     else \<exists>b. r = int (unat b) \<and> valid_blk w b \<and> \<not> vused (vol_of w) b \<and>
       vused (vol_of w') = (vused (vol_of w))(b := True) \<and>
       vdata (vol_of w') = (vdata (vol_of w))(b := replicate WRF_BLOCK_SIZE 0) \<and>
       vsum (vol_of w') b = wrf_crc32 (vdata (vol_of w') b) \<and>
       vino (vol_of w') = vino (vol_of w))"
  using assms(1)
proof (cases rule: block_alloc_step)
  case full
  then show ?thesis using assms by auto
next
  case (fresh b v)
  then have "w' = v" "r = int (unat b)" using assms(3) by simp_all
  then show ?thesis using fresh assms(2) evolvesD [OF fresh(5)] by (auto intro!: exI [of _ b])
qed

theorem wrf_block_alloc_correct_witness:
  "\<exists>r w'. wrf_block_alloc sample_vol = (r, w') \<and> vol_ok w' \<and> synced w'"
  using wrf_block_alloc_correct [OF sample_vol_ok sample_synced surjective_pairing]
  by (intro exI [of _ "fst (wrf_block_alloc sample_vol)"] exI [of _ "snd (wrf_block_alloc sample_vol)"]) auto

end
