(* ===== verification/Wrf_File.thy ===== *)
theory Wrf_File
  imports Wrf_Vol
begin

text \<open>
  Block mapping and byte-level input and output of the WRF driver: \<^verbatim>\<open>wrf_bmap\<close> and \<^verbatim>\<open>wrf_raw_io\<close> of
  \<^verbatim>\<open>kernel/fs/wrf.c\<close>. An inode names its blocks through twelve direct pointers, an indirect
  block and a doubly indirect block; the places a pointer can be stored in are the
  \<open>slot\<close>s. The central lemmas show that filling a slot changes nothing a reader can see, and
  that a file is an array of bytes which a write updates exactly where it should.
\<close>

section \<open>Block mapping\<close>

abbreviation (input) PER_BLOCK :: nat where "PER_BLOCK \<equiv> 128"

text \<open>The pointers held in the inode itself.\<close>

datatype iptr = PDirect nat | PIndirect | PDindirect

fun get_iptr :: "wrf_inode \<Rightarrow> iptr \<Rightarrow> u32" where
  "get_iptr di (PDirect k) = di_direct di ! k"
| "get_iptr di PIndirect = di_indirect di"
| "get_iptr di PDindirect = di_dindirect di"

fun set_iptr :: "wrf_inode \<Rightarrow> iptr \<Rightarrow> u32 \<Rightarrow> wrf_inode" where
  "set_iptr di (PDirect k) v = di\<lparr>di_direct := (di_direct di)[k := v]\<rparr>"
| "set_iptr di PIndirect v = di\<lparr>di_indirect := v\<rparr>"
| "set_iptr di PDindirect v = di\<lparr>di_dindirect := v\<rparr>"

text \<open>Reads a pointer of the inode; with \<open>alloc\<close> a null pointer is first replaced by a fresh block
  and the inode written back. The result 0 means there is no block.\<close>

definition wrf_bmap_iptr :: "wrf \<Rightarrow> u32 \<Rightarrow> wrf_inode \<Rightarrow> iptr \<Rightarrow> bool \<Rightarrow> u32 \<times> wrf_inode \<times> wrf" where
  "wrf_bmap_iptr w ino inode p alloc =
     (if get_iptr inode p = 0 \<and> alloc then
        (let (blk, w1) = wrf_block_alloc w
         in if blk < 0 then (0, inode, w1)
            else
              (let inode1 = set_iptr inode p (of_int (blk + 1))
               in (get_iptr inode1 p, inode1, wrf_inode_write w1 ino inode1)))
      else (get_iptr inode p, inode, w))"

text \<open>The same for entry \<open>idx\<close> of the pointer table stored in block \<open>tblk\<close>.\<close>

definition wrf_bmap_entry :: "wrf \<Rightarrow> u32 \<Rightarrow> nat \<Rightarrow> bool \<Rightarrow> u32 \<times> wrf" where
  "wrf_bmap_entry w tblk idx alloc =
     (let (ok, sector, w1) = wrf_data_read w tblk (stack_junk w);
          table = get_le32s PER_BLOCK sector
      in if table ! idx = 0 \<and> alloc then
           (let (blk, w2) = wrf_block_alloc w1
            in if blk < 0 then (0, w2)
               else
                 (let table1 = table[idx := of_int (blk + 1)]
                  in (table1 ! idx, wrf_data_write w2 tblk (le32s table1))))
         else (table ! idx, w1))"

definition wrf_bmap :: "wrf \<Rightarrow> u32 \<Rightarrow> wrf_inode \<Rightarrow> u32 \<Rightarrow> bool \<Rightarrow> u32 \<times> wrf_inode \<times> wrf" where
  "wrf_bmap w ino inode lblk alloc =
     (if lblk < of_nat WRF_DIRECT then wrf_bmap_iptr w ino inode (PDirect (unat lblk)) alloc
      else
        let lblk1 = lblk - of_nat WRF_DIRECT
        in if lblk1 < of_nat PER_BLOCK then
             (let (v, inode1, w1) = wrf_bmap_iptr w ino inode PIndirect alloc
              in if v = 0 then (0, inode1, w1)
                 else (let (u, w2) = wrf_bmap_entry w1 (v - 1) (unat lblk1) alloc in (u, inode1, w2)))
           else
             let lblk2 = lblk1 - of_nat PER_BLOCK;
                 outer_idx = lblk2 div of_nat PER_BLOCK;
                 inner_idx = lblk2 mod of_nat PER_BLOCK
             in if outer_idx \<ge> of_nat PER_BLOCK then (0, inode, w)
                else
                  (let (v, inode1, w1) = wrf_bmap_iptr w ino inode PDindirect alloc
                   in if v = 0 then (0, inode1, w1)
                      else
                        (let (t, w2) = wrf_bmap_entry w1 (v - 1) (unat outer_idx) alloc
                         in if t = 0 then (0, inode1, w2)
                            else (let (u, w3) = wrf_bmap_entry w2 (t - 1) (unat inner_idx) alloc
                                  in (u, inode1, w3)))))"

section \<open>Byte input and output\<close>

text \<open>\<^verbatim>\<open>wrf_raw_io\<close> with \<^verbatim>\<open>do_write\<close> set and clear. \<open>done\<close> counts the bytes moved so far; positions
  are 64-bit sums and the block index is their quotient cut to 32 bits, as in the source.\<close>

definition io_chunk :: "u64 \<Rightarrow> nat \<Rightarrow> nat \<Rightarrow> nat" where
  "io_chunk pos don count =
     (let off = unat (pos + of_nat don) mod WRF_BLOCK_SIZE
      in min (WRF_BLOCK_SIZE - off) (count - don))"

lemma io_chunk_pos: "don < count \<Longrightarrow> 0 < io_chunk pos don count"
  by (simp add: io_chunk_def Let_def)

function wrf_write_loop ::
    "wrf \<Rightarrow> u32 \<Rightarrow> wrf_inode \<Rightarrow> u8 list \<Rightarrow> u64 \<Rightarrow> nat \<Rightarrow> nat \<times> wrf_inode \<times> wrf" where
  "wrf_write_loop w ino inode buf pos don =
     (if don < length buf then
        (let p = unat (pos + of_nat don);
             lblk = of_nat (p div WRF_BLOCK_SIZE);
             off = p mod WRF_BLOCK_SIZE;
             chunk = io_chunk pos don (length buf);
             (biased, inode1, w1) = wrf_bmap w ino inode lblk True
         in if biased = 0 then (don, inode1, w1)
            else
              (let blk = biased - 1;
                   (sector, w2) = (if chunk \<noteq> WRF_BLOCK_SIZE
                                   then (let (ok, s, v) = wrf_data_read w1 blk (stack_junk w1) in (s, v))
                                   else (stack_junk w1, w1));
                   w3 = wrf_data_write w2 blk (splice off (take chunk (drop don buf)) sector)
               in wrf_write_loop w3 ino inode1 buf pos (don + chunk)))
      else (don, inode, w))"
  by pat_completeness auto
termination
  by (relation "measure (\<lambda>(w, ino, inode, buf, pos, don). length buf - don)")
    (auto simp: io_chunk_def Let_def)

definition wrf_raw_write ::
    "wrf \<Rightarrow> u32 \<Rightarrow> wrf_inode \<Rightarrow> u8 list \<Rightarrow> u64 \<Rightarrow> nat \<times> wrf_inode \<times> wrf" where
  "wrf_raw_write w ino inode buf pos =
     (let (don, inode1, w1) = wrf_write_loop w ino inode buf pos 0
      in if pos + of_nat don > di_size inode1
         then (let inode2 = inode1\<lparr>di_size := pos + of_nat don\<rparr>
               in (don, inode2, wrf_inode_write w1 ino inode2))
         else (don, inode1, w1))"

function wrf_read_loop :: "wrf \<Rightarrow> u32 \<Rightarrow> wrf_inode \<Rightarrow> nat \<Rightarrow> u64 \<Rightarrow> u8 list \<Rightarrow> u8 list \<times> wrf" where
  "wrf_read_loop w ino inode count pos acc =
     (if length acc < count then
        (let p = unat (pos + of_nat (length acc));
             lblk = of_nat (p div WRF_BLOCK_SIZE);
             off = p mod WRF_BLOCK_SIZE;
             chunk = io_chunk pos (length acc) count;
             (biased, inode1, w1) = wrf_bmap w ino inode lblk False
         in if biased = 0 then wrf_read_loop w1 ino inode1 count pos (acc @ replicate chunk 0)
            else
              (let (ok, sector, w2) = wrf_data_read w1 (biased - 1) (stack_junk w1)
               in wrf_read_loop w2 ino inode1 count pos (acc @ array_get off chunk (\<lambda>i. sector ! i))))
      else (acc, w))"
  by pat_completeness auto
termination
  by (relation "measure (\<lambda>(w, ino, inode, count, pos, acc). count - length acc)")
    (auto simp: io_chunk_def Let_def)

definition wrf_raw_read :: "wrf \<Rightarrow> u32 \<Rightarrow> wrf_inode \<Rightarrow> nat \<Rightarrow> u64 \<Rightarrow> u8 list \<times> wrf" where
  "wrf_raw_read w ino inode count pos = wrf_read_loop w ino inode count pos []"

declare wrf_write_loop.simps [simp del] wrf_read_loop.simps [simp del]

section \<open>Pointer slots\<close>

datatype slot = SPtr iptr | SInd nat | SOut nat | SIn nat nat

fun slot_ok :: "slot \<Rightarrow> bool" where
  "slot_ok (SPtr (PDirect k)) \<longleftrightarrow> k < WRF_DIRECT"
| "slot_ok (SPtr PIndirect) \<longleftrightarrow> True"
| "slot_ok (SPtr PDindirect) \<longleftrightarrow> True"
| "slot_ok (SInd k) \<longleftrightarrow> k < PER_BLOCK"
| "slot_ok (SOut k) \<longleftrightarrow> k < PER_BLOCK"
| "slot_ok (SIn k j) \<longleftrightarrow> k < PER_BLOCK \<and> j < PER_BLOCK"

text \<open>The slot of the table a slot is an entry of, and its index there.\<close>

fun parent_of :: "slot \<Rightarrow> (slot \<times> nat) option" where
  "parent_of (SPtr p) = None"
| "parent_of (SInd k) = Some (SPtr PIndirect, k)"
| "parent_of (SOut k) = Some (SPtr PDindirect, k)"
| "parent_of (SIn k j) = Some (SOut k, j)"

definition entry :: "(u32 \<Rightarrow> u8 list) \<Rightarrow> u32 \<Rightarrow> nat \<Rightarrow> u32" where
  "entry V b k = get_le32 (drop (4 * k) (V b))"

definition deref :: "(u32 \<Rightarrow> u8 list) \<Rightarrow> u32 \<Rightarrow> nat \<Rightarrow> u32" where
  "deref V v k = (if v = 0 then 0 else entry V (v - 1) k)"

fun slot_val :: "(u32 \<Rightarrow> u8 list) \<Rightarrow> wrf_inode \<Rightarrow> slot \<Rightarrow> u32" where
  "slot_val V di (SPtr p) = get_iptr di p"
| "slot_val V di (SInd k) = deref V (di_indirect di) k"
| "slot_val V di (SOut k) = deref V (di_dindirect di) k"
| "slot_val V di (SIn k j) = deref V (deref V (di_dindirect di) k) j"

lemma slot_val_child: "parent_of t = Some (q, k) \<Longrightarrow> slot_val V di t = deref V (slot_val V di q) k"
  by (cases t) auto

lemma parent_of_inj: "parent_of t = Some x \<Longrightarrow> parent_of s = Some x \<Longrightarrow> s = t"
  by (cases t; cases s) auto

lemma parent_of_ok: "parent_of t = Some (q, k) \<Longrightarrow> slot_ok t \<Longrightarrow> slot_ok q \<and> k < PER_BLOCK"
  by (cases t) auto

lemma slot_parent_induct [consumes 1, case_names 1 2]:
  assumes ok: "slot_ok t"
    and steps: "\<And>p. slot_ok (SPtr p) \<Longrightarrow> P (SPtr p)"
      "\<And>t q k. slot_ok t \<Longrightarrow> parent_of t = Some (q, k) \<Longrightarrow> slot_ok q \<Longrightarrow> k < PER_BLOCK \<Longrightarrow> P q \<Longrightarrow> P t"
  shows "P t"
  using ok
proof (induction t)
  case (SPtr p)
  then show ?case by (rule steps(1))
next
  case (SInd k)
  then show ?case using steps(1) [of PIndirect] steps(2) [of "SInd k"] by simp
next
  case (SOut k)
  then show ?case using steps(1) [of PDindirect] steps(2) [of "SOut k"] by simp
next
  case (SIn k j)
  then have "P (SOut k)" using steps(1) [of PDindirect] steps(2) [of "SOut k"] by simp
  with SIn show ?case using steps(2) [of "SIn k j"] by simp
qed

lemma get_le32_zeros: "k < PER_BLOCK \<Longrightarrow> get_le32 (drop (4 * k) (replicate WRF_BLOCK_SIZE 0)) = 0"
  by (simp add: get_le32_def)

lemma get_le32s_nth: "k < n \<Longrightarrow> get_le32s n p ! k = get_le32 (drop (4 * k) p)"
  by (simp add: get_le32s_def)

lemma length_le32s_table [simp]: "length (le32s ((get_le32s PER_BLOCK p)[k := v])) = WRF_BLOCK_SIZE"
  by simp

lemma table_update:
  assumes "k < PER_BLOCK" "j < PER_BLOCK"
  shows "get_le32 (drop (4 * j) (le32s ((get_le32s PER_BLOCK p)[k := v]))) =
    (if j = k then v else get_le32 (drop (4 * j) p))"
proof -
  let ?t = "(get_le32s PER_BLOCK p)[k := v]"
  have "get_le32s PER_BLOCK (le32s ?t) = ?t" using get_le32s_le32s [of ?t "[]"] by simp
  then have "get_le32s PER_BLOCK (le32s ?t) ! j = ?t ! j" by simp
  then show ?thesis using assms by (simp add: get_le32s_nth nth_list_update)
qed

text \<open>Filling an empty slot \<open>s\<close> with the biased number of a block no slot refers to, in whatever way
  the pointer is stored, changes that slot and no other.\<close>

lemma fill_slot:
  assumes ptrs: "\<And>p. slot_ok (SPtr p) \<Longrightarrow> get_iptr di' p = (if SPtr p = s then v else get_iptr di p)"
    and tabs: "\<And>q k. slot_ok q \<Longrightarrow> k < PER_BLOCK \<Longrightarrow> slot_val V di q \<noteq> 0 \<Longrightarrow>
        entry V' (slot_val V di q - 1) k = (if parent_of s = Some (q, k) then v else entry V (slot_val V di q - 1) k)"
    and fresh: "V' (v - 1) = replicate WRF_BLOCK_SIZE 0" and v: "v \<noteq> 0"
    and empty: "slot_val V di s = 0" and par: "\<And>q k. parent_of s = Some (q, k) \<Longrightarrow> slot_val V di q \<noteq> 0"
    and t: "slot_ok t"
  shows "slot_val V' di' t = (if t = s then v else slot_val V di t)"
  using t
proof (induction rule: slot_parent_induct)
  case (1 p)
  then show ?case using ptrs by simp
next
  case (2 t q k)
  show ?case
  proof (cases "q = s")
    case True
    then have "t \<noteq> s" using 2(2) by (cases s) auto
    moreover have "slot_val V' di' t = entry V' (v - 1) k"
      using 2(2,5) True v by (simp add: slot_val_child deref_def)
    moreover have "entry V' (v - 1) k = 0" using fresh 2(4) get_le32_zeros by (simp add: entry_def)
    moreover have "slot_val V di t = 0" using 2(2) True empty by (simp add: slot_val_child deref_def)
    ultimately show ?thesis by simp
  next
    case False
    then have q: "slot_val V' di' q = slot_val V di q" using 2(5) by simp
    show ?thesis
    proof (cases "slot_val V di q = 0")
      case True
      then have "t \<noteq> s" using par 2(2) by auto
      then show ?thesis using 2(2) q True by (simp add: slot_val_child deref_def)
    next
      case nz: False
      have "parent_of s = Some (q, k) \<longleftrightarrow> t = s" using 2(2) parent_of_inj by auto
      then show ?thesis using 2(2) q nz tabs [OF 2(3,4) nz] by (simp add: slot_val_child deref_def)
    qed
  qed
qed

section \<open>Well-formed files\<close>

abbreviation val :: "wrf \<Rightarrow> wrf_inode \<Rightarrow> slot \<Rightarrow> u32" where
  "val w di s \<equiv> slot_val (vdata (vol_of w)) di s"

text \<open>Every pointer of the file leads to an allocated block of the volume, and no block is
  reached twice.\<close>

definition tree_ok :: "wrf \<Rightarrow> wrf_inode \<Rightarrow> bool" where
  "tree_ok w di \<longleftrightarrow> inode_wf di \<and>
     (\<forall>s. slot_ok s \<longrightarrow> val w di s \<noteq> 0 \<longrightarrow> valid_blk w (val w di s - 1) \<and> vused (vol_of w) (val w di s - 1)) \<and>
     (\<forall>s t. slot_ok s \<longrightarrow> slot_ok t \<longrightarrow> val w di s \<noteq> 0 \<longrightarrow> val w di s = val w di t \<longrightarrow> s = t)"

definition owned :: "wrf \<Rightarrow> wrf_inode \<Rightarrow> u32 set" where
  "owned w di = {val w di s - 1 | s. slot_ok s \<and> val w di s \<noteq> 0}"

abbreviation (input) MAX_BLOCKS :: nat where "MAX_BLOCKS \<equiv> 16524"

definition leaf :: "nat \<Rightarrow> slot" where
  "leaf l = (if l < 12 then SPtr (PDirect l) else if l < 140 then SInd (l - 12)
             else SIn ((l - 140) div PER_BLOCK) ((l - 140) mod PER_BLOCK))"

definition content :: "wrf \<Rightarrow> wrf_inode \<Rightarrow> nat \<Rightarrow> u8 list" where
  "content w di l =
     (let v = val w di (leaf l) in if v = 0 then replicate WRF_BLOCK_SIZE 0 else vdata (vol_of w) (v - 1))"

lemma leaf_ok: "l < MAX_BLOCKS \<Longrightarrow> slot_ok (leaf l)"
  by (auto simp: leaf_def)

lemma leaf_inj: "leaf l = leaf m \<Longrightarrow> l = m"
proof -
  assume eq: "leaf l = leaf m"
  then consider "l < 12" "m < 12" | "12 \<le> l" "l < 140" "12 \<le> m" "m < 140" | "140 \<le> l" "140 \<le> m"
    by (auto simp: leaf_def split: if_splits)
  then show ?thesis
  proof cases
    case 3
    then have "(l - 140) div 128 = (m - 140) div 128" "(l - 140) mod 128 = (m - 140) mod 128"
      using eq by (simp_all add: leaf_def)
    then have "l - 140 = m - 140" by (metis mod_div_decomp)
    with 3 show ?thesis by simp
  qed (use eq in \<open>auto simp: leaf_def\<close>)
qed

lemma leaf_no_child: "parent_of t \<noteq> Some (leaf l, k)"
  by (cases t) (auto simp: leaf_def split: if_splits)

lemma tree_okD:
  assumes "tree_ok w di" "slot_ok s" "val w di s \<noteq> 0"
  shows "valid_blk w (val w di s - 1)" "vused (vol_of w) (val w di s - 1)"
    "\<And>t. slot_ok t \<Longrightarrow> val w di s = val w di t \<Longrightarrow> s = t"
  using assms unfolding tree_ok_def by blast+

lemma tree_ok_inode_wf: "tree_ok w di \<Longrightarrow> inode_wf di"
  by (simp add: tree_ok_def)

text \<open>Every allocated block carries a matching checksum.\<close>

definition csums_ok :: "wrf \<Rightarrow> bool" where
  "csums_ok w \<longleftrightarrow> (\<forall>b. valid_blk w b \<longrightarrow> vused (vol_of w) b \<longrightarrow>
     vsum (vol_of w) b = wrf_crc32 (vdata (vol_of w) b))"

text \<open>The part of an inode that block mapping does not touch.\<close>

definition di_meta :: "wrf_inode \<Rightarrow> wrf_inode" where
  "di_meta di = di\<lparr>di_direct := [], di_indirect := 0, di_dindirect := 0\<rparr>"

text \<open>Growing a file: it may gain blocks, but what is stored in it stays, and so do the blocks and
  the inodes of everyone else.\<close>

definition grows :: "u32 \<Rightarrow> wrf \<Rightarrow> wrf_inode \<Rightarrow> wrf \<Rightarrow> wrf_inode \<Rightarrow> bool" where
  "grows ino w di w' di' \<longleftrightarrow>
     evolves w w' \<and> tree_ok w' di' \<and>
     (\<forall>l < MAX_BLOCKS. content w' di' l = content w di l) \<and>
     (\<forall>t. slot_ok t \<longrightarrow> val w di t \<noteq> 0 \<longrightarrow> val w' di' t = val w di t) \<and>
     (\<forall>c. vused (vol_of w) c \<longrightarrow> vused (vol_of w') c \<and>
        (c \<in> owned w di \<or> vdata (vol_of w') c = vdata (vol_of w) c)) \<and>
     (\<forall>c. c \<in> owned w' di' \<longrightarrow> c \<in> owned w di \<or> \<not> vused (vol_of w) c) \<and>
     (\<forall>j. j \<noteq> ino \<longrightarrow> vino (vol_of w') j = vino (vol_of w) j) \<and>
     (vino (vol_of w) ino = di \<longrightarrow> vino (vol_of w') ino = di') \<and>
     viused (vol_of w') = viused (vol_of w) \<and> di_meta di' = di_meta di \<and>
     (csums_ok w \<longrightarrow> csums_ok w')"

lemma grows_refl: "vol_ok w \<Longrightarrow> tree_ok w di \<Longrightarrow> grows ino w di w di"
  by (simp add: grows_def evolves_refl)

lemma growsD:
  assumes "grows ino w di w' di'"
  shows "evolves w w'" "tree_ok w' di'" "\<And>l. l < MAX_BLOCKS \<Longrightarrow> content w' di' l = content w di l"
    "\<And>t. slot_ok t \<Longrightarrow> val w di t \<noteq> 0 \<Longrightarrow> val w' di' t = val w di t"
    "\<And>c. vused (vol_of w) c \<Longrightarrow> vused (vol_of w') c"
    "\<And>c. vused (vol_of w) c \<Longrightarrow> c \<notin> owned w di \<Longrightarrow> vdata (vol_of w') c = vdata (vol_of w) c"
    "\<And>c. c \<in> owned w' di' \<Longrightarrow> c \<in> owned w di \<or> \<not> vused (vol_of w) c"
    "\<And>j. j \<noteq> ino \<Longrightarrow> vino (vol_of w') j = vino (vol_of w) j"
    "vino (vol_of w) ino = di \<Longrightarrow> vino (vol_of w') ino = di'"
    "viused (vol_of w') = viused (vol_of w)" "di_meta di' = di_meta di" "csums_ok w \<Longrightarrow> csums_ok w'"
  using assms unfolding grows_def by blast+

lemma grows_trans [trans]:
  assumes a: "grows ino w di w1 di1" and b: "grows ino w1 di1 w2 di2"
  shows "grows ino w di w2 di2"
proof -
  note A = growsD [OF a] and B = growsD [OF b]
  have frame: "c \<in> owned w di \<or> vdata (vol_of w2) c = vdata (vol_of w) c" if "vused (vol_of w) c" for c
    using A(5,6,7) B(6) that by metis
  have own: "c \<in> owned w di \<or> \<not> vused (vol_of w) c" if "c \<in> owned w2 di2" for c
    using A(5,7) B(7) that by blast
  have val: "val w2 di2 t = val w di t" if "slot_ok t" "val w di t \<noteq> 0" for t
    using A(4) [OF that] B(4) [OF that(1)] that(2) by simp
  show ?thesis
    unfolding grows_def using evolves_trans [OF A(1) B(1)] A B frame own val by auto
qed

lemma tree_unused:
  assumes "tree_ok w di" "\<not> vused (vol_of w) b" "slot_ok t" "val w di t \<noteq> 0"
  shows "val w di t - 1 \<noteq> b" "val w di t \<noteq> b + 1"
  using tree_okD(2) [OF assms(1,3,4)] assms(2) by auto

lemma tree_extend:
  assumes tree: "tree_ok w di" and wf: "inode_wf di'" and valid: "valid_blk w' = valid_blk w"
    and b: "valid_blk w b" "\<not> vused (vol_of w) b" "b + 1 \<noteq> 0"
    and used: "vused (vol_of w') = (vused (vol_of w))(b := True)"
    and vals: "\<And>t. slot_ok t \<Longrightarrow> val w' di' t = (if t = s then b + 1 else val w di t)"
  shows "tree_ok w' di'"
  unfolding tree_ok_def
proof (intro conjI allI impI)
  fix t assume t: "slot_ok t" "val w' di' t \<noteq> 0"
  show "valid_blk w' (val w' di' t - 1)" "vused (vol_of w') (val w' di' t - 1)"
    using t vals [OF t(1)] tree_okD(1,2) [OF tree t(1)] b used valid by (auto split: if_splits)
next
  fix t u assume t: "slot_ok t" "slot_ok u" "val w' di' t \<noteq> 0" "val w' di' t = val w' di' u"
  show "t = u"
    using t vals [OF t(1)] vals [OF t(2)] tree_okD(3) [OF tree t(1) _ t(2)]
      tree_unused(2) [OF tree b(2) t(1)] tree_unused(2) [OF tree b(2) t(2)]
    by (auto split: if_splits)
qed (rule wf)

lemma fill_grows:
  assumes tree: "tree_ok w di" and evo: "evolves w w'" and wf: "inode_wf di'"
    and b: "valid_blk w b" "\<not> vused (vol_of w) b" "b + 1 \<noteq> 0"
    and used: "vused (vol_of w') = (vused (vol_of w))(b := True)"
    and vals: "\<And>t. slot_ok t \<Longrightarrow> val w' di' t = (if t = s then b + 1 else val w di t)"
    and s: "slot_ok s" "val w di s = 0"
    and zero: "vdata (vol_of w') b = replicate WRF_BLOCK_SIZE 0"
    and same: "\<And>c. c \<noteq> b \<Longrightarrow> vdata (vol_of w') c = vdata (vol_of w) c \<or>
        (\<exists>q k t. slot_ok q \<and> val w di q = c + 1 \<and> val w di q \<noteq> 0 \<and> parent_of t = Some (q, k))"
    and ino: "\<And>j. j \<noteq> ino \<Longrightarrow> vino (vol_of w') j = vino (vol_of w) j"
      "vino (vol_of w) ino = di \<Longrightarrow> vino (vol_of w') ino = di'" "viused (vol_of w') = viused (vol_of w)"
    and meta: "di_meta di' = di_meta di" and sums: "csums_ok w \<Longrightarrow> csums_ok w'"
  shows "grows ino w di w' di'"
proof -
  have tree': "tree_ok w' di'"
    by (rule tree_extend [OF tree wf evolvesD(6) [OF evo] b used vals])
  have leafdata: "vdata (vol_of w') (val w di (leaf l) - 1) = vdata (vol_of w) (val w di (leaf l) - 1)"
    if l: "l < MAX_BLOCKS" "val w di (leaf l) \<noteq> 0" for l
  proof (rule ccontr)
    assume ne: "\<not> ?thesis"
    have "val w di (leaf l) - 1 \<noteq> b" using tree_unused(1) [OF tree b(2) leaf_ok [OF l(1)] l(2)] .
    with same ne obtain q k t where q: "slot_ok q" "val w di q = val w di (leaf l) - 1 + 1" "val w di q \<noteq> 0"
      "parent_of t = Some (q, k)" by blast
    then have "q = leaf l" using tree_okD(3) [OF tree q(1,3) leaf_ok [OF l(1)]] by simp
    then show False using q(4) leaf_no_child by blast
  qed
  have cont: "content w' di' l = content w di l" if "l < MAX_BLOCKS" for l
    using vals [OF leaf_ok [OF that]] leafdata [OF that] zero s(2) b(3)
    by (auto simp: content_def Let_def)
  have frame: "c \<in> owned w di \<or> vdata (vol_of w') c = vdata (vol_of w) c" if c: "vused (vol_of w) c" for c
  proof (rule disjCI)
    assume ne: "vdata (vol_of w') c \<noteq> vdata (vol_of w) c"
    have "c \<noteq> b" using b(2) c by auto
    with same ne obtain q where "slot_ok q" "val w di q = c + 1" "val w di q \<noteq> 0" by blast
    then show "c \<in> owned w di" unfolding owned_def by force
  qed
  have own: "c \<in> owned w di \<or> \<not> vused (vol_of w) c" if "c \<in> owned w' di'" for c
    using that b(2) vals unfolding owned_def by (fastforce split: if_splits)
  show ?thesis
    unfolding grows_def using evo tree' cont frame own used vals s(2) ino meta sums by auto
qed

section \<open>Correctness of the block mapping\<close>

definition disk_full :: "wrf \<Rightarrow> bool" where
  "disk_full w \<longleftrightarrow> (\<forall>b. valid_blk w b \<longrightarrow> vused (vol_of w) b)"

lemma bias: "of_int (int (unat b) + 1) = b + 1" for b :: u32
  by simp

lemma bias_nonzero: "unat b < 2 ^ 28 \<Longrightarrow> b + 1 \<noteq> 0" for b :: u32
proof
  assume "unat b < 2 ^ 28" "b + 1 = 0"
  then have "b = - 1" by (simp add: eq_neg_iff_add_eq_0)
  with \<open>unat b < 2 ^ 28\<close> show False by (simp add: unsigned_minus_1_eq_mask mask_eq_exp_minus_1)
qed

lemma csums_ok_alloc:
  assumes "csums_ok w" "valid_blk w' = valid_blk w"
    and "vused (vol_of w') = (vused (vol_of w))(b := True)"
    and "\<And>c. vused (vol_of w') c \<Longrightarrow> vsum (vol_of w') c = wrf_crc32 (vdata (vol_of w') c) \<or>
      vused (vol_of w) c \<and> vsum (vol_of w') c = vsum (vol_of w) c \<and> vdata (vol_of w') c = vdata (vol_of w) c"
  shows "csums_ok w'"
  using assms unfolding csums_ok_def by metis

lemma inode_wf_set_iptr [simp]: "inode_wf (set_iptr di p v) = inode_wf di"
  by (cases p) (simp_all add: inode_wf_def)

lemma di_meta_set_iptr [simp]: "di_meta (set_iptr di p v) = di_meta di"
  by (cases p) (simp_all add: di_meta_def)

lemma get_set_iptr:
  "inode_wf di \<Longrightarrow> slot_ok (SPtr p) \<Longrightarrow> slot_ok (SPtr q) \<Longrightarrow>
   get_iptr (set_iptr di p v) q = (if q = p then v else get_iptr di q)"
  by (cases p; cases q) (auto simp: inode_wf_def)

lemma bmap_iptr_grows:
  assumes ok: "vol_ok w" and tree: "tree_ok w di" and ino: "valid_ino w ino" and p: "slot_ok (SPtr p)"
    and run: "wrf_bmap_iptr w ino di p True = (v, di', w')"
  shows "grows ino w di w' di'" and "v = val w' di' (SPtr p)" and "v = 0 \<Longrightarrow> disk_full w'"
proof -
  have "grows ino w di w' di' \<and> v = val w' di' (SPtr p) \<and> (v = 0 \<longrightarrow> disk_full w')"
  proof (cases "get_iptr di p = 0")
    case False
    then show ?thesis using run ok tree by (auto simp: wrf_bmap_iptr_def grows_refl)
  next
    case True
    from ok show ?thesis
    proof (cases rule: block_alloc_step)
      case full
      then show ?thesis using run True ok tree by (simp add: wrf_bmap_iptr_def grows_refl disk_full_def)
    next
      case (fresh b w1)
      note b1 = bias_nonzero [OF fresh(2)]
      let ?di = "set_iptr di p (b + 1)"
      have wf: "inode_wf ?di" using tree by (simp add: tree_ok_def)
      have ino1: "vol_ok w1" "valid_ino w1 ino" using evolvesD [OF fresh(5)] ino by simp_all
      note iw = inode_write_step [OF ino1 wf]
      have get: "get_iptr ?di q = (if q = p then b + 1 else get_iptr di q)" if "slot_ok (SPtr q)" for q
        using get_set_iptr [OF tree_ok_inode_wf [OF tree] p that] .
      have res: "v = b + 1" "di' = ?di" "w' = wrf_inode_write w1 ino ?di"
        using run True fresh(1) get [OF p] by (auto simp: wrf_bmap_iptr_def Let_def)
      have v': "vol_of w' = (vol_of w)\<lparr>vused := (vused (vol_of w))(b := True),
         vdata := (vdata (vol_of w))(b := replicate WRF_BLOCK_SIZE 0),
         vsum := (vsum (vol_of w))(b := wrf_crc32 (replicate WRF_BLOCK_SIZE 0)),
         vino := (vino (vol_of w))(ino := ?di)\<rparr>"
        unfolding res iw(2) fresh(6) by simp
      have evo: "evolves w w'" unfolding res using evolves_trans [OF fresh(5) iw(1)] .
      have vals: "val w' ?di t = (if t = SPtr p then b + 1 else val w di t)" if "slot_ok t" for t
      proof (rule fill_slot [OF _ _ _ b1 _ _ that])
        show "get_iptr ?di q = (if SPtr q = SPtr p then b + 1 else get_iptr di q)" if "slot_ok (SPtr q)" for q
          using get [OF that] by simp
        show "entry (vdata (vol_of w')) (val w di q - 1) k =
            (if parent_of (SPtr p) = Some (q, k) then b + 1 else entry (vdata (vol_of w)) (val w di q - 1) k)"
          if "slot_ok q" "val w di q \<noteq> 0" for q k
          using tree_unused(1) [OF tree fresh(4) that] by (simp add: v' entry_def)
      qed (simp_all add: v' True)
      have "csums_ok w'" if "csums_ok w"
        by (rule csums_ok_alloc [OF that evolvesD(6) [OF evo], of b]) (auto simp: v')
      then have "grows ino w di w' ?di"
        using fill_grows [OF tree evo wf fresh(3,4) b1 _ vals p, of ino] True by (simp add: v')
      then show ?thesis using vals [OF p] b1 by (simp add: res)
    qed
  qed
  then show "grows ino w di w' di'" "v = val w' di' (SPtr p)" "v = 0 \<Longrightarrow> disk_full w'" by simp_all
qed

lemma bmap_entry_grows:
  assumes ok: "vol_ok w" and tree: "tree_ok w di" and s: "slot_ok s" "parent_of s = Some (q, k)"
    and x: "val w di q \<noteq> 0" and run: "wrf_bmap_entry w (val w di q - 1) k True = (v, w')"
  shows "grows ino w di w' di" and "v = val w' di s" and "v = 0 \<Longrightarrow> disk_full w'"
proof -
  let ?x = "val w di q - 1"
  have q: "slot_ok q" "k < PER_BLOCK" using parent_of_ok [OF s(2,1)] by simp_all
  have vx: "valid_blk w ?x" and ux: "vused (vol_of w) ?x" using tree_okD(1,2) [OF tree q(1) x] by simp_all
  obtain okf wr where rd: "wrf_data_read w ?x (stack_junk w) = (okf, vdata (vol_of w) ?x, wr)" "evolves w wr"
    "vol_of wr = vol_of w" using data_read_step [OF ok vx vol_ok_junk [OF ok]] by blast
  have okr: "vol_ok wr" "valid_blk wr = valid_blk w" using evolvesD [OF rd(2)] by simp_all
  have treer: "tree_ok wr di" using tree by (simp add: tree_ok_def rd(3) okr(2))
  have gr: "grows ino w di wr di"
    using rd(2,3) treer okr(2) by (simp add: grows_def content_def owned_def csums_ok_def Let_def)
  have sval: "val w di s = entry (vdata (vol_of w)) ?x k"
    using slot_val_child [OF s(2)] x by (simp add: deref_def)
  have tab: "get_le32s PER_BLOCK (vdata (vol_of w) ?x) ! k = val w di s"
    using get_le32s_nth [OF q(2)] by (simp add: sval entry_def)
  have "grows ino w di w' di \<and> v = val w' di s \<and> (v = 0 \<longrightarrow> disk_full w')"
  proof (cases "val w di s = 0")
    case False
    then have "v = val w di s" "w' = wr" using run rd(1) tab by (simp_all add: wrf_bmap_entry_def)
    then show ?thesis using gr False by (simp add: rd(3))
  next
    case True
    from okr(1) show ?thesis
    proof (cases rule: block_alloc_step)
      case full
      then have "v = 0" "w' = wr" using run rd(1) tab True by (simp_all add: wrf_bmap_entry_def)
      then show ?thesis using gr full True by (simp add: rd(3) disk_full_def)
    next
      case (fresh b w2)
      note b1 = bias_nonzero [OF fresh(2)]
      let ?t = "(get_le32s PER_BLOCK (vdata (vol_of w) ?x))[k := b + 1]"
      have ne: "?x \<noteq> b" using ux fresh(4) rd(3) by auto
      have w2: "vol_ok w2" "valid_blk w2 ?x" using evolvesD [OF fresh(5)] okr vx by simp_all
      note dw = data_write_step [OF w2, of "le32s ?t", simplified]
      have res: "v = b + 1" "w' = wrf_data_write w2 ?x (le32s ?t)"
        using run rd(1) tab True fresh(1) q(2) by (auto simp: wrf_bmap_entry_def Let_def)
      have v': "vol_of w' = (vol_of w)\<lparr>vused := (vused (vol_of w))(b := True),
         vdata := (vdata (vol_of w))(b := replicate WRF_BLOCK_SIZE 0, ?x := le32s ?t),
         vsum := (vsum (vol_of w))(b := wrf_crc32 (replicate WRF_BLOCK_SIZE 0), ?x := wrf_crc32 (le32s ?t))\<rparr>"
        unfolding res dw(2) fresh(6) rd(3) by simp
      have evo: "evolves w w'"
        unfolding res using evolves_trans [OF rd(2) evolves_trans [OF fresh(5) dw(1)]] .
      have free: "\<not> vused (vol_of w) b" "valid_blk w b" using fresh(3,4) rd(3) okr by simp_all
      have vals: "val w' di t = (if t = s then b + 1 else val w di t)" if "slot_ok t" for t
      proof (rule fill_slot [OF _ _ _ b1 True _ that])
        show "get_iptr di p = (if SPtr p = s then b + 1 else get_iptr di p)" for p using s(2) by auto
        show "vdata (vol_of w') (b + 1 - 1) = replicate WRF_BLOCK_SIZE 0" using ne by (simp add: v')
        show "val w di q' \<noteq> 0" if "parent_of s = Some (q', k')" for q' k' using that s(2) x by simp
        show "entry (vdata (vol_of w')) (val w di r - 1) j =
            (if parent_of s = Some (r, j) then b + 1 else entry (vdata (vol_of w)) (val w di r - 1) j)"
          if r: "slot_ok r" "j < PER_BLOCK" "val w di r \<noteq> 0" for r j
        proof (cases "val w di r - 1 = ?x")
          case True
          then have "val w di r = val w di q" by (metis diff_add_cancel)
          then have "r = q" using tree_okD(3) [OF tree r(1,3) q(1)] by simp
          then show ?thesis using s(2) table_update [OF q(2) r(2)] by (auto simp: v' entry_def)
        next
          case False
          then have "parent_of s \<noteq> Some (r, j)" using s(2) by auto
          then show ?thesis
            using False tree_unused(1) [OF tree free(1) r(1,3)] by (simp add: v' entry_def)
        qed
      qed
      have sums: "csums_ok w'" if "csums_ok w"
        by (rule csums_ok_alloc [OF that evolvesD(6) [OF evo], of b]) (auto simp: v')
      have same: "vdata (vol_of w') c = vdata (vol_of w) c \<or>
          (\<exists>q k t. slot_ok q \<and> val w di q = c + 1 \<and> val w di q \<noteq> 0 \<and> parent_of t = Some (q, k))" if "c \<noteq> b" for c
        using that q(1) x s(2) by (cases "c = ?x") (force simp: v')+
      have "grows ino w di w' di"
        using fill_grows [OF tree evo tree_ok_inode_wf [OF tree] free(2,1) b1 _ vals s(1) True _ same, of ino] sums ne
        by (simp add: v')
      then show ?thesis using vals [OF s(1)] b1 by (simp add: res)
    qed
  qed
  then show "grows ino w di w' di" "v = val w' di s" "v = 0 \<Longrightarrow> disk_full w'" by simp_all
qed

lemma leaf_cases:
  assumes "l < 2 ^ 32"
  shows "(of_nat l :: u32) < 12 \<longleftrightarrow> l < 12"
    and "12 \<le> l \<Longrightarrow> unat (of_nat l - 12 :: u32) = l - 12"
    and "140 \<le> l \<Longrightarrow> unat (of_nat l - 12 - 128 :: u32) = l - 140"
proof -
  have u: "unat (of_nat l :: u32) = l" using assms by (simp add: unat_of_nat)
  show "(of_nat l :: u32) < 12 \<longleftrightarrow> l < 12" by (simp add: word_less_nat_alt u)
  show e: "unat (of_nat l - 12 :: u32) = l - 12" if "12 \<le> l" using that u u32_sub [of 12 "of_nat l"] by simp
  show "unat (of_nat l - 12 - 128 :: u32) = l - 140" if "140 \<le> l"
    using that e u32_sub [of 128 "of_nat l - 12"] by simp
qed

lemma bmap_iptr_run:
  "wrf_bmap_iptr w ino di p False = (get_iptr di p, di, w)"
  by (simp add: wrf_bmap_iptr_def)

text \<open>With \<open>alloc\<close> the result is the biased block now stored for that part of the file; 0 is returned
  only past the largest file or when no block is free.\<close>

lemma wrf_bmap_alloc:
  assumes ok: "vol_ok w" and tree: "tree_ok w di" and ino: "valid_ino w ino" and l: "l < 2 ^ 32"
    and run: "wrf_bmap w ino di (of_nat l) True = (v, di', w')"
  shows "grows ino w di w' di'"
    and "l < MAX_BLOCKS \<Longrightarrow> v = val w' di' (leaf l)" and "v = 0 \<Longrightarrow> disk_full w' \<or> MAX_BLOCKS \<le> l"
    and "MAX_BLOCKS \<le> l \<Longrightarrow> v = 0"
proof -
  note lc = leaf_cases [OF l]
  have "grows ino w di w' di' \<and> (l < MAX_BLOCKS \<longrightarrow> v = val w' di' (leaf l)) \<and>
    (v = 0 \<longrightarrow> disk_full w' \<or> MAX_BLOCKS \<le> l) \<and> (MAX_BLOCKS \<le> l \<longrightarrow> v = 0)"
  proof -
    consider "l < 12" | "12 \<le> l" "l < 140" | "140 \<le> l" "l < MAX_BLOCKS" | "MAX_BLOCKS \<le> l" by linarith
    then show ?thesis
    proof cases
      case 1
      then have r: "wrf_bmap_iptr w ino di (PDirect l) True = (v, di', w')"
        using run l lc(1) by (simp add: wrf_bmap_def unat_of_nat)
      show ?thesis using bmap_iptr_grows [OF ok tree ino _ r] 1 by (simp add: leaf_def)
    next
      case 2
      have br: "(of_nat l - 12 :: u32) < 128" using lc(2) 2 by (simp add: word_less_nat_alt)
      obtain a di1 w1 where r1: "wrf_bmap_iptr w ino di PIndirect True = (a, di1, w1)" by (metis prod_cases3)
      have g1: "grows ino w di w1 di1" "a = val w1 di1 (SPtr PIndirect)" "a = 0 \<Longrightarrow> disk_full w1"
        using bmap_iptr_grows [OF ok tree ino _ r1] by simp_all
      show ?thesis
      proof (cases "a = 0")
        case True
        then have "v = 0" "di' = di1" "w' = w1"
          using run r1 br lc(1,2) 2 by (simp_all add: wrf_bmap_def)
        then show ?thesis using g1 2 True by (simp add: leaf_def deref_def)
      next
        case False
        then have r2: "wrf_bmap_entry w1 (val w1 di1 (SPtr PIndirect) - 1) (l - 12) True = (v, w')" and d: "di' = di1"
          using run r1 br lc(1,2) 2 g1(2) by (simp_all add: wrf_bmap_def split: prod.splits)
        note G = growsD [OF g1(1)]
        have s: "slot_ok (SInd (l - 12))" "parent_of (SInd (l - 12)) = Some (SPtr PIndirect, l - 12)"
          "val w1 di1 (SPtr PIndirect) \<noteq> 0" using 2 False g1(2) by auto
        note g2 = bmap_entry_grows [OF evolvesD(2) [OF G(1)] G(2) s r2]
        show ?thesis using grows_trans [OF g1(1) g2(1)] g2 2 d by (simp add: leaf_def)
      qed
    next
      case 3
      have nb: "\<not> (of_nat l - 12 :: u32) < 128" using lc(2) 3 by (simp add: word_less_nat_alt)
      let ?m = "of_nat l - 12 - 128 :: u32"
      have um: "unat (?m div 128) = (l - 140) div 128" "unat (?m mod 128) = (l - 140) mod 128"
        using lc(3) 3 by (simp_all add: unat_div unat_mod)
      have lt: "(l - 140) div 128 < 128" using 3 by linarith
      have out: "\<not> ?m div 128 \<ge> 128" using um lt by (simp add: word_le_nat_alt)
      let ?o = "SOut ((l - 140) div 128)"
      obtain a di1 w1 where r1: "wrf_bmap_iptr w ino di PDindirect True = (a, di1, w1)" by (metis prod_cases3)
      have g1: "grows ino w di w1 di1" "a = val w1 di1 (SPtr PDindirect)" "a = 0 \<Longrightarrow> disk_full w1"
        using bmap_iptr_grows [OF ok tree ino _ r1] by simp_all
      note G = growsD [OF g1(1)]
      show ?thesis
      proof (cases "a = 0")
        case True
        then have "v = 0" "di' = di1" "w' = w1"
          using run r1 nb out lc(1) 3 by (simp_all add: wrf_bmap_def Let_def)
        then show ?thesis using g1 3 True by (simp add: leaf_def deref_def)
      next
        case False
        obtain t w2 where r2: "wrf_bmap_entry w1 (val w1 di1 (SPtr PDindirect) - 1) ((l - 140) div 128) True = (t, w2)"
          by (metis prod.exhaust)
        have s: "slot_ok ?o" "parent_of ?o = Some (SPtr PDindirect, (l - 140) div 128)"
          "val w1 di1 (SPtr PDindirect) \<noteq> 0" using lt False g1(2) by auto
        note g2 = bmap_entry_grows [OF evolvesD(2) [OF G(1)] G(2) s r2]
        note g12 = grows_trans [OF g1(1) g2(1)]
        note H = growsD [OF g2(1)]
        show ?thesis
        proof (cases "t = 0")
          case True
          then have "v = 0" "di' = di1" "w' = w2"
            using run r1 r2 nb out lc(1) 3 False g1(2) um by (simp_all add: wrf_bmap_def Let_def)
          then show ?thesis using g12 g2 3 True by (auto simp: leaf_def deref_def)
        next
          case nz: False
          let ?s = "SIn ((l - 140) div 128) ((l - 140) mod 128)"
          have r3: "wrf_bmap_entry w2 (val w2 di1 ?o - 1) ((l - 140) mod 128) True = (v, w')" and d: "di' = di1"
            using run r1 r2 nb out lc(1) 3 False g1(2) um nz g2(2)
            by (simp_all add: wrf_bmap_def Let_def split: prod.splits)
          have s3: "slot_ok ?s" "parent_of ?s = Some (?o, (l - 140) mod 128)" "val w2 di1 ?o \<noteq> 0"
            using lt nz g2(2) by auto
          note g3 = bmap_entry_grows [OF evolvesD(2) [OF H(1)] H(2) s3 r3]
          show ?thesis using grows_trans [OF g12 g3(1)] g3 3 d by (simp add: leaf_def)
        qed
      qed
    next
      case 4
      have nb: "\<not> (of_nat l - 12 :: u32) < 128" using lc(2) 4 by (simp add: word_less_nat_alt)
      have "unat ((of_nat l - 12 - 128 :: u32) div 128) = (l - 140) div 128" using lc(3) 4 by (simp add: unat_div)
      then have "(of_nat l - 12 - 128 :: u32) div 128 \<ge> 128" using 4 by (simp add: word_le_nat_alt)
      then have "v = 0" "di' = di" "w' = w" using run nb lc(1) 4 by (simp_all add: wrf_bmap_def Let_def)
      then show ?thesis using 4 ok tree by (simp add: grows_refl)
    qed
  qed
  then show "grows ino w di w' di'" "l < MAX_BLOCKS \<Longrightarrow> v = val w' di' (leaf l)"
    "v = 0 \<Longrightarrow> disk_full w' \<or> MAX_BLOCKS \<le> l" "MAX_BLOCKS \<le> l \<Longrightarrow> v = 0" by blast+
qed

text \<open>Without \<open>alloc\<close> only the error counter can change.\<close>

lemma bmap_entry_read:
  assumes ok: "vol_ok w" and tree: "tree_ok w di" and s: "slot_ok s" "parent_of s = Some (q, k)"
    and x: "val w di q \<noteq> 0"
  shows "\<exists>w'. wrf_bmap_entry w (val w di q - 1) k False = (val w di s, w') \<and> evolves w w' \<and>
    vol_of w' = vol_of w \<and> g_disks w' = g_disks w"
proof -
  let ?x = "val w di q - 1"
  have q: "slot_ok q" "k < PER_BLOCK" using parent_of_ok [OF s(2,1)] by simp_all
  have vx: "valid_blk w ?x" using tree_okD(1) [OF tree q(1) x] by simp
  obtain okf wr where rd: "wrf_data_read w ?x (stack_junk w) = (okf, vdata (vol_of w) ?x, wr)" "evolves w wr"
    "vol_of wr = vol_of w" "g_disks wr = g_disks w" using data_read_step [OF ok vx vol_ok_junk [OF ok]] by blast
  have "get_le32s PER_BLOCK (vdata (vol_of w) ?x) ! k = val w di s"
    using get_le32s_nth [OF q(2)] slot_val_child [OF s(2)] x by (simp add: deref_def entry_def)
  then show ?thesis using rd by (simp add: wrf_bmap_entry_def)
qed

lemma tree_ok_same: "tree_ok w di \<Longrightarrow> vol_of w' = vol_of w \<Longrightarrow> valid_blk w' = valid_blk w \<Longrightarrow> tree_ok w' di"
  by (simp add: tree_ok_def)

lemma wrf_bmap_lookup:
  assumes ok: "vol_ok w" and tree: "tree_ok w di" and l: "l < 2 ^ 32"
  shows "\<exists>w'. wrf_bmap w ino di (of_nat l) False =
      (if l < MAX_BLOCKS then val w di (leaf l) else 0, di, w') \<and> evolves w w' \<and> vol_of w' = vol_of w \<and>
      g_disks w' = g_disks w"
proof -
  note lc = leaf_cases [OF l]
  consider "l < 12" | "12 \<le> l" "l < 140" | "140 \<le> l" "l < MAX_BLOCKS" | "MAX_BLOCKS \<le> l" by linarith
  then show ?thesis
  proof cases
    case 1
    then show ?thesis using l lc(1) ok by (simp add: wrf_bmap_def unat_of_nat bmap_iptr_run leaf_def evolves_refl)
  next
    case 2
    have br: "(of_nat l - 12 :: u32) < 128" using lc(2) 2 by (simp add: word_less_nat_alt)
    show ?thesis
    proof (cases "di_indirect di = 0")
      case True
      then show ?thesis using br lc(1) 2 ok by (simp add: wrf_bmap_def bmap_iptr_run leaf_def deref_def evolves_refl)
    next
      case False
      have "\<exists>w'. wrf_bmap_entry w (di_indirect di - 1) (l - 12) False = (val w di (SInd (l - 12)), w') \<and>
          evolves w w' \<and> vol_of w' = vol_of w \<and> g_disks w' = g_disks w"
        using bmap_entry_read [OF ok tree, of "SInd (l - 12)" "SPtr PIndirect" "l - 12"] 2 False by simp
      then show ?thesis using False br lc(1,2) 2 by (auto simp: wrf_bmap_def bmap_iptr_run leaf_def)
    qed
  next
    case 3
    have nb: "\<not> (of_nat l - 12 :: u32) < 128" using lc(2) 3 by (simp add: word_less_nat_alt)
    let ?m = "of_nat l - 12 - 128 :: u32"
    let ?a = "(l - 140) div 128" and ?b = "(l - 140) mod 128"
    have um: "unat (?m div 128) = ?a" "unat (?m mod 128) = ?b" using lc(3) 3 by (simp_all add: unat_div unat_mod)
    have lt: "?a < 128" using 3 by linarith
    have out: "\<not> ?m div 128 \<ge> 128" using um lt by (simp add: word_le_nat_alt)
    show ?thesis
    proof (cases "di_dindirect di = 0")
      case True
      then show ?thesis using nb out lc(1) 3 ok
        by (simp add: wrf_bmap_def bmap_iptr_run leaf_def deref_def evolves_refl Let_def)
    next
      case False
      obtain w1 where r1: "wrf_bmap_entry w (di_dindirect di - 1) ?a False = (val w di (SOut ?a), w1)" "evolves w w1"
        "vol_of w1 = vol_of w" "g_disks w1 = g_disks w"
        using bmap_entry_read [OF ok tree, of "SOut ?a" "SPtr PDindirect" ?a] lt False by auto
      show ?thesis
      proof (cases "val w di (SOut ?a) = 0")
        case True
        then show ?thesis using False nb out lc(1) 3 r1 um
          by (simp add: wrf_bmap_def bmap_iptr_run leaf_def deref_def Let_def)
      next
        case nz: False
        have t1: "tree_ok w1 di" using tree_ok_same [OF tree r1(3)] evolvesD [OF r1(2)] by simp
        obtain w2 where r2: "wrf_bmap_entry w1 (val w di (SOut ?a) - 1) ?b False = (val w di (SIn ?a ?b), w2)"
          "evolves w1 w2" "vol_of w2 = vol_of w" "g_disks w2 = g_disks w"
          using bmap_entry_read [OF evolvesD(2) [OF r1(2)] t1, of "SIn ?a ?b" "SOut ?a" ?b] lt nz r1(3,4) by auto
        show ?thesis using False nz nb out lc(1) 3 r1 r2 um evolves_trans [OF r1(2) r2(2)]
          by (simp add: wrf_bmap_def bmap_iptr_run leaf_def Let_def)
      qed
    qed
  next
    case 4
    have nb: "\<not> (of_nat l - 12 :: u32) < 128" using lc(2) 4 by (simp add: word_less_nat_alt)
    have "unat ((of_nat l - 12 - 128 :: u32) div 128) = (l - 140) div 128" using lc(3) 4 by (simp add: unat_div)
    then have "(of_nat l - 12 - 128 :: u32) div 128 \<ge> 128" using 4 by (simp add: word_le_nat_alt)
    then show ?thesis using nb lc(1) 4 ok by (simp add: wrf_bmap_def Let_def evolves_refl)
  qed
qed

section \<open>A file is an array of bytes\<close>

abbreviation (input) MAX_FILE :: nat where "MAX_FILE \<equiv> 8460288"

definition fbyte :: "wrf \<Rightarrow> wrf_inode \<Rightarrow> nat \<Rightarrow> u8" where
  "fbyte w di p = (if p < MAX_FILE then content w di (p div WRF_BLOCK_SIZE) ! (p mod WRF_BLOCK_SIZE) else 0)"

text \<open>What a step on one file guarantees for everything else.\<close>

definition fstep :: "u32 \<Rightarrow> wrf \<Rightarrow> wrf_inode \<Rightarrow> wrf \<Rightarrow> wrf_inode \<Rightarrow> bool" where
  "fstep ino w di w' di' \<longleftrightarrow>
     evolves w w' \<and> tree_ok w' di' \<and>
     (\<forall>c. vused (vol_of w) c \<longrightarrow> vused (vol_of w') c \<and>
        (c \<in> owned w di \<or> vdata (vol_of w') c = vdata (vol_of w) c)) \<and>
     (\<forall>c. c \<in> owned w' di' \<longrightarrow> c \<in> owned w di \<or> \<not> vused (vol_of w) c) \<and>
     (\<forall>j. j \<noteq> ino \<longrightarrow> vino (vol_of w') j = vino (vol_of w) j) \<and>
     (vino (vol_of w) ino = di \<longrightarrow> vino (vol_of w') ino = di') \<and>
     viused (vol_of w') = viused (vol_of w) \<and> (csums_ok w \<longrightarrow> csums_ok w')"

lemma grows_fstep: "grows ino w di w' di' \<Longrightarrow> fstep ino w di w' di'"
  unfolding grows_def fstep_def by blast

lemma fstep_refl: "vol_ok w \<Longrightarrow> tree_ok w di \<Longrightarrow> fstep ino w di w di"
  by (rule grows_fstep [OF grows_refl])

lemma fstepD:
  assumes "fstep ino w di w' di'"
  shows "evolves w w'" "tree_ok w' di'"
    "\<And>c. vused (vol_of w) c \<Longrightarrow> vused (vol_of w') c"
    "\<And>c. vused (vol_of w) c \<Longrightarrow> c \<notin> owned w di \<Longrightarrow> vdata (vol_of w') c = vdata (vol_of w) c"
    "\<And>c. c \<in> owned w' di' \<Longrightarrow> c \<in> owned w di \<or> \<not> vused (vol_of w) c"
    "\<And>j. j \<noteq> ino \<Longrightarrow> vino (vol_of w') j = vino (vol_of w) j"
    "vino (vol_of w) ino = di \<Longrightarrow> vino (vol_of w') ino = di'"
    "viused (vol_of w') = viused (vol_of w)" "csums_ok w \<Longrightarrow> csums_ok w'"
  using assms unfolding fstep_def by blast+

lemma fstep_trans [trans]:
  assumes a: "fstep ino w di w1 di1" and b: "fstep ino w1 di1 w2 di2"
  shows "fstep ino w di w2 di2"
proof -
  note A = fstepD [OF a] and B = fstepD [OF b]
  have frame: "c \<in> owned w di \<or> vdata (vol_of w2) c = vdata (vol_of w) c" if "vused (vol_of w) c" for c
    using A(3,4,5) B(4) that by metis
  have own: "c \<in> owned w di \<or> \<not> vused (vol_of w) c" if "c \<in> owned w2 di2" for c
    using A(3,5) B(5) that by blast
  show ?thesis unfolding fstep_def using evolves_trans [OF A(1) B(1)] A B frame own by auto
qed

lemma leaf_write:
  assumes ok: "vol_ok w" and tree: "tree_ok w di" and l: "l < MAX_BLOCKS" and v: "val w di (leaf l) \<noteq> 0"
    and len: "length s = WRF_BLOCK_SIZE"
  defines "w' \<equiv> wrf_data_write w (val w di (leaf l) - 1) s"
  shows "fstep ino w di w' di" and "\<And>m. m < MAX_BLOCKS \<Longrightarrow> content w' di m = (if m = l then s else content w di m)"
    and "\<And>t. slot_ok t \<Longrightarrow> val w' di t = val w di t"
proof -
  let ?b = "val w di (leaf l) - 1"
  note lo = leaf_ok [OF l]
  note T = tree_okD [OF tree lo v]
  note st = data_write_step [OF ok T(1) len, folded w'_def]
  show vals: "val w' di t = val w di t" if "slot_ok t" for t
    using that
  proof (induction rule: slot_parent_induct)
    case (1 p)
    then show ?case by simp
  next
    case (2 t q k)
    have "val w di q - 1 \<noteq> ?b" if "val w di q \<noteq> 0"
    proof
      assume "val w di q - 1 = ?b"
      then have "val w di q = val w di (leaf l)" by (metis diff_add_cancel)
      then have "leaf l = q" using T(3) [OF 2(3)] by simp
      then show False using 2(2) leaf_no_child by blast
    qed
    then show ?case using 2 by (simp add: slot_val_child deref_def entry_def st(2))
  qed
  have tree': "tree_ok w' di"
    using tree vals evolvesD(6) [OF st(1)] unfolding tree_ok_def by (simp add: st(2))
  have own: "owned w' di = owned w di" unfolding owned_def by (intro Collect_cong) (metis vals)
  have "?b \<in> owned w di" using lo v unfolding owned_def by blast
  moreover have "csums_ok w \<Longrightarrow> csums_ok w'"
    using evolvesD(6) [OF st(1)] by (simp add: csums_ok_def st(2))
  ultimately show "fstep ino w di w' di"
    unfolding fstep_def using st(1) tree' own by (auto simp: st(2))
  show "content w' di m = (if m = l then s else content w di m)" if m: "m < MAX_BLOCKS" for m
  proof (cases "m = l")
    case True
    then show ?thesis using vals [OF lo] v by (simp add: content_def st(2))
  next
    case False
    have "val w di (leaf m) - 1 \<noteq> ?b" if nz: "val w di (leaf m) \<noteq> 0"
    proof
      assume "val w di (leaf m) - 1 = ?b"
      then have "val w di (leaf l) = val w di (leaf m)" by (metis diff_add_cancel)
      then show False using T(3) [OF leaf_ok [OF m]] leaf_inj False by blast
    qed
    then show ?thesis using vals [OF leaf_ok [OF m]] False by (simp add: content_def st(2) Let_def)
  qed
qed

text \<open>Positions inside one block.\<close>

lemma div_mod_offset:
  fixes p i n :: nat
  assumes "p mod n + i < n"
  shows "(p + i) div n = p div n \<and> (p + i) mod n = p mod n + i"
proof -
  have "p + i = (p mod n + i) + p div n * n" by (simp add: mod_div_decomp)
  then show ?thesis using assms by (metis add_0_right div_less div_mult_self1 mod_less mod_mult_self1 not_less_zero)
qed

lemma io_chunk_block:
  assumes "unat pos + count \<le> 2 ^ 41" "don < count"
  defines "p \<equiv> unat pos + don"
  shows "unat (pos + of_nat don) = p" and "p div WRF_BLOCK_SIZE < 2 ^ 32"
    and "io_chunk pos don count = min (WRF_BLOCK_SIZE - p mod WRF_BLOCK_SIZE) (count - don)"
    and "\<And>i. i < io_chunk pos don count \<Longrightarrow> (p + i) div WRF_BLOCK_SIZE = p div WRF_BLOCK_SIZE \<and>
      (p + i) mod WRF_BLOCK_SIZE = p mod WRF_BLOCK_SIZE + i"
proof -
  have "unat (of_nat don :: u64) = don" using assms by (simp add: unat_of_nat)
  then show e: "unat (pos + of_nat don) = p"
    using assms by (simp add: unat_word_ariths p_def)
  show "p div WRF_BLOCK_SIZE < 2 ^ 32" using assms(1,2) unfolding p_def by (simp add: div_less_iff_less_mult)
  show c: "io_chunk pos don count = min (WRF_BLOCK_SIZE - p mod WRF_BLOCK_SIZE) (count - don)"
    by (simp add: io_chunk_def e Let_def)
  fix i assume "i < io_chunk pos don count"
  then have "p mod WRF_BLOCK_SIZE + i < WRF_BLOCK_SIZE" unfolding c by linarith
  then show "(p + i) div WRF_BLOCK_SIZE = p div WRF_BLOCK_SIZE \<and> (p + i) mod WRF_BLOCK_SIZE = p mod WRF_BLOCK_SIZE + i"
    by (rule div_mod_offset)
qed

lemma length_content: "vol_ok w \<Longrightarrow> tree_ok w di \<Longrightarrow> l < MAX_BLOCKS \<Longrightarrow> length (content w di l) = WRF_BLOCK_SIZE"
  using tree_okD(1) [OF _ leaf_ok] by (auto simp: content_def Let_def length_vdata)

lemma map_upt_add: "map f [a..<a + n] = map (\<lambda>i. f (a + i)) [0..<n]" for a n :: nat
  by (rule nth_equalityI) auto

lemma wrf_read_loop_correct:
  assumes "vol_ok w" "tree_ok w di" "unat pos + count \<le> 2 ^ 41" "length acc \<le> count"
    "wrf_read_loop w ino di count pos acc = (bs, w')"
  shows "bs = acc @ map (fbyte w di) [unat pos + length acc..<unat pos + count] \<and> evolves w w' \<and>
    vol_of w' = vol_of w \<and> g_disks w' = g_disks w"
  using assms
proof (induction "count - length acc" arbitrary: w acc rule: less_induct)
  case less
  show ?case
  proof (cases "length acc < count")
    case False
    then have "bs = acc" "w' = w" "length acc = count" using less.prems by (simp_all add: wrf_read_loop.simps)
    then show ?thesis using less.prems(1) by (simp add: evolves_refl)
  next
    case True
    let ?p = "unat pos + length acc"
    let ?l = "?p div WRF_BLOCK_SIZE" and ?off = "?p mod WRF_BLOCK_SIZE"
    let ?c = "io_chunk pos (length acc) count"
    note blk = io_chunk_block [OF less.prems(3) True]
    have c: "0 < ?c" "?c \<le> count - length acc" "?off + ?c \<le> WRF_BLOCK_SIZE"
      using io_chunk_pos [OF True, of pos] blk(3) by linarith+
    obtain w1 where bm: "wrf_bmap w ino di (of_nat ?l) False = (if ?l < MAX_BLOCKS then val w di (leaf ?l) else 0, di, w1)"
      "evolves w w1" "vol_of w1 = vol_of w" "g_disks w1 = g_disks w"
      using wrf_bmap_lookup [OF less.prems(1,2) blk(2), of ino] by blast
    define v where "v = (if ?l < MAX_BLOCKS then val w di (leaf ?l) else 0)"
    have w1: "vol_ok w1" "tree_ok w1 di" "valid_blk w1 = valid_blk w"
      using evolvesD [OF bm(2)] tree_ok_same [OF less.prems(2) bm(3)] by simp_all
    have "\<exists>w2 xs. wrf_read_loop w ino di count pos acc = wrf_read_loop w2 ino di count pos (acc @ xs) \<and>
        xs = map (fbyte w di) [?p..<?p + ?c] \<and> evolves w w2 \<and> vol_of w2 = vol_of w \<and> g_disks w2 = g_disks w"
    proof (cases "v = 0")
      case z: True
      have "fbyte w di (?p + i) = 0" if "i < ?c" for i
        using blk(4) [OF that] z by (auto simp: fbyte_def v_def content_def split: if_splits)
      then have "replicate ?c 0 = map (fbyte w di) [?p..<?p + ?c]"
        unfolding map_upt_add by (intro nth_equalityI) auto
      then show ?thesis using True bm z
        by (intro exI [of _ w1] exI [of _ "replicate ?c 0"])
          (simp add: wrf_read_loop.simps [of w] v_def [symmetric] blk(1) Let_def)
    next
      case nz: False
      have lv: "?l < MAX_BLOCKS" "v = val w di (leaf ?l)" using nz by (auto simp: v_def split: if_splits)
      have vb: "valid_blk w1 (v - 1)" using tree_okD(1) [OF less.prems(2) leaf_ok [OF lv(1)]] nz lv(2) w1(3) by simp
      obtain okf w2 where rd: "wrf_data_read w1 (v - 1) (stack_junk w1) = (okf, vdata (vol_of w1) (v - 1), w2)"
        "evolves w1 w2" "vol_of w2 = vol_of w1" "g_disks w2 = g_disks w1"
        using data_read_step [OF w1(1) vb vol_ok_junk [OF w1(1)]] by blast
      have pm: "?p + i < MAX_FILE" if "i < ?c" for i using blk(4) [OF that] lv(1) by linarith
      have cont: "content w di ?l = vdata (vol_of w) (v - 1)" using nz lv(2) by (simp add: content_def)
      have "array_get ?off ?c (\<lambda>i. vdata (vol_of w1) (v - 1) ! i) = map (fbyte w di) [?p..<?p + ?c]"
        unfolding map_upt_add
        by (intro nth_equalityI) (auto simp: fbyte_def pm blk(4) cont bm(3))
      then show ?thesis using True bm rd nz evolves_trans [OF bm(2) rd(2)]
        by (intro exI [of _ w2] exI [of _ "array_get ?off ?c (\<lambda>i. vdata (vol_of w1) (v - 1) ! i)"])
          (simp add: wrf_read_loop.simps [of w] v_def [symmetric] blk(1) Let_def)
    qed
    then obtain w2 xs where step: "wrf_read_loop w ino di count pos acc = wrf_read_loop w2 ino di count pos (acc @ xs)"
      "xs = map (fbyte w di) [?p..<?p + ?c]" "evolves w w2" "vol_of w2 = vol_of w" "g_disks w2 = g_disks w" by blast
    have lx: "length xs = ?c" using step(2) by simp
    have fb: "fbyte w2 di = fbyte w di" by (simp add: fbyte_def content_def step(4) fun_eq_iff Let_def)
    have w2: "vol_ok w2" "tree_ok w2 di" using evolvesD [OF step(3)] tree_ok_same [OF less.prems(2) step(4)] by simp_all
    have m: "count - length (acc @ xs) < count - length acc" "length (acc @ xs) \<le> count"
      "wrf_read_loop w2 ino di count pos (acc @ xs) = (bs, w')"
      using lx c True less.prems(5) step(1) by simp_all
    note less.hyps [OF m(1) w2 less.prems(3) m(2,3)]
    moreover have "xs @ map (fbyte w di) [unat pos + length (acc @ xs)..<unat pos + count] =
        map (fbyte w di) [?p..<unat pos + count]"
      using lx c(2) step(2) upt_add_eq_append [of ?p "?p + ?c" "unat pos + count - (?p + ?c)"] True
      by (simp add: map_append [symmetric] add.assoc del: map_append)
    ultimately show ?thesis using evolves_trans [OF step(3)] step(4,5) fb by simp
  qed
qed

lemma fbyte_grows: "grows ino w di w' di' \<Longrightarrow> fbyte w' di' = fbyte w di"
  using growsD(3) [of ino w di w' di'] by (auto simp: fbyte_def fun_eq_iff)

text \<open>Replacing part of one block, seen as bytes of the file.\<close>

lemma splice_fbyte:
  assumes l: "l < MAX_BLOCKS" "l = q div WRF_BLOCK_SIZE" and c: "q mod WRF_BLOCK_SIZE + c \<le> WRF_BLOCK_SIZE"
    and cont: "\<And>m. m < MAX_BLOCKS \<Longrightarrow>
      content w' di m = (if m = l then splice (q mod WRF_BLOCK_SIZE) data sector else content w di m)"
    and len: "length sector = WRF_BLOCK_SIZE" and sector: "c \<noteq> WRF_BLOCK_SIZE \<Longrightarrow> sector = content w di l"
    and data: "data = map f [0..<c]"
  shows "fbyte w' di p = (if q \<le> p \<and> p < q + c then f (p - q) else fbyte w di p)"
proof (cases "p div WRF_BLOCK_SIZE = l \<and> p < MAX_FILE")
  case False
  have "\<not> (q \<le> p \<and> p < q + c)"
  proof
    assume p: "q \<le> p \<and> p < q + c"
    then have "p div WRF_BLOCK_SIZE = l" using div_mod_offset [of q WRF_BLOCK_SIZE "p - q"] c l(2) by auto
    moreover have "p < MAX_FILE" using calculation l(1) by linarith
    ultimately show False using False by simp
  qed
  moreover have "fbyte w' di p = fbyte w di p"
    using False cont [of "p div WRF_BLOCK_SIZE"] by (auto simp: fbyte_def)
  ultimately show ?thesis by auto
next
  case True
  let ?off = "q mod WRF_BLOCK_SIZE" and ?i = "p mod WRF_BLOCK_SIZE"
  have e: "p = l * WRF_BLOCK_SIZE + ?i" "q = l * WRF_BLOCK_SIZE + ?off" using True l(2) by (metis div_mult_mod_eq)+
  have i: "?i < WRF_BLOCK_SIZE" by simp
  have "fbyte w' di p = splice ?off data sector ! ?i" using True l(1) cont [OF l(1)] by (simp add: fbyte_def)
  also have "\<dots> = (if ?off \<le> ?i \<and> ?i < ?off + c then data ! (?i - ?off) else sector ! ?i)"
    using c len data i by (subst nth_splice) auto
  also have "\<dots> = (if q \<le> p \<and> p < q + c then f (p - q) else fbyte w di p)"
  proof (cases "q \<le> p \<and> p < q + c")
    case in': True
    then have "?i - ?off = p - q" "?off \<le> ?i" "?i < ?off + c" "p - q < c" using e by linarith+
    then show ?thesis using in' data by simp
  next
    case out: False
    then have no: "\<not> (?off \<le> ?i \<and> ?i < ?off + c)" using e by linarith
    then have "c \<noteq> WRF_BLOCK_SIZE" using i c by auto
    then have "sector ! ?i = fbyte w di p" using sector True by (simp add: fbyte_def)
    then show ?thesis using no out by auto
  qed
  finally show ?thesis .
qed

lemma wrf_write_loop_correct:
  assumes "vol_ok w" "tree_ok w di" "valid_ino w ino" "unat pos + length buf \<le> 2 ^ 41" "don \<le> length buf"
    "wrf_write_loop w ino di buf pos don = (n, di', w')"
  shows "fstep ino w di w' di' \<and> di_meta di' = di_meta di \<and> don \<le> n \<and> n \<le> length buf \<and>
    (n = don \<or> unat pos + n \<le> MAX_FILE) \<and>
    (\<forall>p. fbyte w' di' p = (if unat pos + don \<le> p \<and> p < unat pos + n then buf ! (p - unat pos) else fbyte w di p)) \<and>
    (\<forall>t. slot_ok t \<longrightarrow> val w di t \<noteq> 0 \<longrightarrow> val w' di' t = val w di t) \<and>
    (\<forall>p. unat pos + don \<le> p \<and> p < unat pos + n \<longrightarrow> val w' di' (leaf (p div WRF_BLOCK_SIZE)) \<noteq> 0) \<and>
    (n < length buf \<longrightarrow> MAX_FILE \<le> unat pos + n \<or>
       disk_full w' \<and> val w' di' (leaf ((unat pos + n) div WRF_BLOCK_SIZE)) = 0)"
  using assms
proof (induction "length buf - don" arbitrary: w di don rule: less_induct)
  case less
  show ?case
  proof (cases "don < length buf")
    case False
    then have "n = don" "di' = di" "w' = w" using less.prems by (simp_all add: wrf_write_loop.simps)
    then show ?thesis using less.prems(1,2,5) False by (auto simp: fstep_refl)
  next
    case True
    let ?p = "unat pos + don"
    let ?l = "?p div WRF_BLOCK_SIZE" and ?off = "?p mod WRF_BLOCK_SIZE"
    let ?c = "io_chunk pos don (length buf)"
    note blk = io_chunk_block [OF less.prems(4) True]
    have c: "0 < ?c" "?c \<le> length buf - don" "?off + ?c \<le> WRF_BLOCK_SIZE"
      using io_chunk_pos [OF True, of pos] blk(3) by linarith+
    obtain v di1 w1 where bm: "wrf_bmap w ino di (of_nat ?l) True = (v, di1, w1)" by (metis prod_cases3)
    note B = wrf_bmap_alloc [OF less.prems(1-3) blk(2) bm]
    note G = growsD [OF B(1)]
    have w1: "vol_ok w1" "valid_ino w1 ino" using evolvesD [OF G(1)] less.prems(3) by simp_all
    show ?thesis
    proof (cases "v = 0")
      case z: True
      then have r: "n = don" "di' = di1" "w' = w1"
        using less.prems(6) True bm by (simp_all add: wrf_write_loop.simps [of w] blk(1) Let_def)
      have "MAX_FILE \<le> ?p \<or> disk_full w1 \<and> val w1 di1 (leaf ?l) = 0"
      proof (cases "MAX_BLOCKS \<le> ?l")
        case True
        then have "MAX_FILE \<le> ?p" by linarith
        then show ?thesis ..
      next
        case False
        then show ?thesis using B(2,3) z by simp
      qed
      then show ?thesis using G(4) grows_fstep [OF B(1)] G(11) fbyte_grows [OF B(1)] r True less.prems(5) by auto
    next
      case nz: False
      have l: "?l < MAX_BLOCKS" using B(4) nz by linarith
      have v: "v = val w1 di1 (leaf ?l)" using B(2) [OF l] .
      have vb: "valid_blk w1 (v - 1)" using tree_okD(1) [OF G(2) leaf_ok [OF l]] nz v by simp
      have cont1: "content w1 di1 ?l = vdata (vol_of w1) (v - 1)" using nz v by (simp add: content_def)
      obtain sector w2 where sec: "(if ?c \<noteq> WRF_BLOCK_SIZE
          then (let (ok, s, u) = wrf_data_read w1 (v - 1) (stack_junk w1) in (s, u)) else (stack_junk w1, w1)) = (sector, w2)"
        "evolves w1 w2" "vol_of w2 = vol_of w1" "length sector = WRF_BLOCK_SIZE"
        "?c \<noteq> WRF_BLOCK_SIZE \<longrightarrow> sector = content w1 di1 ?l"
        using data_read_step [OF w1(1) vb vol_ok_junk [OF w1(1)]] w1(1) length_vdata [OF w1(1) vb] cont1
        by (cases "?c = WRF_BLOCK_SIZE") (auto simp: evolves_refl)
      define data where "data = take ?c (drop don buf)"
      have ld: "length data = ?c" using c(2) by (simp add: data_def)
      define s where "s = splice ?off data sector"
      have ls: "length s = WRF_BLOCK_SIZE" using ld c(3) sec(4) by (simp add: s_def)
      have w2: "vol_ok w2" "tree_ok w2 di1" "valid_ino w2 ino"
        using evolvesD [OF sec(2)] tree_ok_same [OF G(2) sec(3)] w1 by simp_all
      have v2: "v = val w2 di1 (leaf ?l)" using v by (simp add: sec(3))
      define w3 where "w3 = wrf_data_write w2 (v - 1) s"
      note L = leaf_write [OF w2(1,2) l _ ls, folded v2, folded w3_def, OF nz]
      have step: "wrf_write_loop w ino di buf pos don = wrf_write_loop w3 ino di1 buf pos (don + ?c)"
        using True bm nz sec(1) by (simp add: wrf_write_loop.simps [of w] blk(1) Let_def w3_def s_def data_def)
      have same12: "fbyte w2 di1 = fbyte w1 di1" by (simp add: fbyte_def content_def sec(3) fun_eq_iff Let_def)
      have f12: "fstep ino w1 di1 w2 di1"
        using sec(2,3) w2(2) evolvesD [OF sec(2)] by (simp add: fstep_def owned_def csums_ok_def)
      have f13: "fstep ino w di w3 di1"
        using fstep_trans [OF grows_fstep [OF B(1)] fstep_trans [OF f12 L(1)]] .
      have data: "data = map (\<lambda>i. buf ! (don + i)) [0..<?c]"
        using c(2) less.prems(5) by (intro nth_equalityI) (auto simp: data_def)
      have fb3: "fbyte w3 di1 p = (if ?p \<le> p \<and> p < ?p + ?c then buf ! (p - unat pos) else fbyte w di p)" for p
      proof -
        have "sector = content w2 di1 ?l" if "?c \<noteq> WRF_BLOCK_SIZE"
          using sec(5) that by (simp add: content_def sec(3) Let_def)
        from splice_fbyte [OF l refl c(3) L(2) [unfolded s_def] sec(4) this data, of p]
        show ?thesis using same12 fbyte_grows [OF B(1)] by simp
      qed
      have m: "length buf - (don + ?c) < length buf - don" "don + ?c \<le> length buf"
        "wrf_write_loop w3 ino di1 buf pos (don + ?c) = (n, di', w')"
        using c True less.prems(6) step by simp_all
      have w3: "vol_ok w3" "tree_ok w3 di1" "valid_ino w3 ino"
        using fstepD [OF f13] evolvesD [of w w3] less.prems(3) by simp_all
      note IH = less.hyps [OF m(1) w3 less.prems(4) m(2,3)]
      have lim: "?p + ?c \<le> MAX_FILE"
      proof -
        have "(?p + (?c - 1)) div WRF_BLOCK_SIZE = ?l" using blk(4) [of "?c - 1"] c(1) by simp
        then show ?thesis using l c(1) by linarith
      qed
      have "fbyte w' di' p = (if ?p \<le> p \<and> p < unat pos + n then buf ! (p - unat pos) else fbyte w di p)" for p
        using IH fb3 [of p] by (auto simp: add.assoc)
      moreover have "val w' di' t = val w di t" if t: "slot_ok t" "val w di t \<noteq> 0" for t
      proof -
        have "val w3 di1 t = val w di t" using G(4) [OF t] L(3) [OF t(1)] by (simp add: sec(3))
        then show ?thesis using IH t by simp
      qed
      moreover have "val w' di' (leaf (p div WRF_BLOCK_SIZE)) \<noteq> 0" if p: "?p \<le> p" "p < unat pos + n" for p
      proof (cases "p < ?p + ?c")
        case True
        then have "p div WRF_BLOCK_SIZE = ?l" using blk(4) [of "p - ?p"] p(1) by auto
        moreover have "val w3 di1 (leaf ?l) \<noteq> 0" using L(3) [OF leaf_ok [OF l]] nz v2 by simp
        ultimately show ?thesis using IH leaf_ok [OF l] by auto
      next
        case False
        then show ?thesis using IH p by (simp add: add.assoc)
      qed
      ultimately show ?thesis using IH fstep_trans [OF f13] G(11) lim by auto
    qed
  qed
qed

lemma get_iptr_size [simp]: "get_iptr (di\<lparr>di_size := x\<rparr>) p = get_iptr di p"
  by (cases p) simp_all

lemma slot_val_size [simp]: "slot_val V (di\<lparr>di_size := x\<rparr>) s = slot_val V di s"
  by (cases s) simp_all

lemma size_irrelevant [simp]:
  "tree_ok w (di\<lparr>di_size := x\<rparr>) = tree_ok w di" "owned w (di\<lparr>di_size := x\<rparr>) = owned w di"
  "fbyte w (di\<lparr>di_size := x\<rparr>) = fbyte w di"
  by (simp_all add: tree_ok_def owned_def fbyte_def content_def inode_wf_def fun_eq_iff)

lemma inode_write_size:
  assumes "vol_ok w" "valid_ino w ino" "tree_ok w di"
  shows "fstep ino w di (wrf_inode_write w ino (di\<lparr>di_size := x\<rparr>)) (di\<lparr>di_size := x\<rparr>)"
    and "fbyte (wrf_inode_write w ino (di\<lparr>di_size := x\<rparr>)) d = fbyte w d"
    and "vused (vol_of (wrf_inode_write w ino (di\<lparr>di_size := x\<rparr>))) = vused (vol_of w)"
    and "val (wrf_inode_write w ino (di\<lparr>di_size := x\<rparr>)) (di\<lparr>di_size := x\<rparr>) = val w di"
proof -
  let ?di = "di\<lparr>di_size := x\<rparr>"
  have wf: "inode_wf ?di" using assms(3) by (simp add: tree_ok_def inode_wf_def)
  note st = inode_write_step [OF assms(1,2) wf]
  have "tree_ok (wrf_inode_write w ino ?di) di"
    using assms(3) evolvesD(6) [OF st(1)] by (simp add: tree_ok_def st(2))
  then show "fstep ino w di (wrf_inode_write w ino ?di) ?di"
    using st(1) evolvesD(6) [OF st(1)] by (simp add: fstep_def st(2)) (simp add: owned_def csums_ok_def st(2))
  show "fbyte (wrf_inode_write w ino ?di) d = fbyte w d"
    by (simp add: fbyte_def content_def st(2) fun_eq_iff Let_def)
  show "vused (vol_of (wrf_inode_write w ino ?di)) = vused (vol_of w)" by (simp add: st(2))
  show "val (wrf_inode_write w ino ?di) ?di = val w di" by (simp add: st(2) fun_eq_iff)
qed

lemma wrf_raw_write_correct:
  assumes "vol_ok w" "tree_ok w di" "valid_ino w ino" "unat pos + length buf \<le> 2 ^ 41"
    "wrf_raw_write w ino di buf pos = (n, di', w')"
  shows "fstep ino w di w' di'" "n \<le> length buf" "n = 0 \<or> unat pos + n \<le> MAX_FILE"
    "\<And>p. fbyte w' di' p = (if unat pos \<le> p \<and> p < unat pos + n then buf ! (p - unat pos) else fbyte w di p)"
    "n < length buf \<Longrightarrow> MAX_FILE \<le> unat pos + n \<or>
       disk_full w' \<and> val w' di' (leaf ((unat pos + n) div WRF_BLOCK_SIZE)) = 0"
    "di_size di' = max (di_size di) (pos + of_nat n)"
    "\<And>t. slot_ok t \<Longrightarrow> val w di t \<noteq> 0 \<Longrightarrow> val w' di' t = val w di t"
    "\<And>p. unat pos \<le> p \<Longrightarrow> p < unat pos + n \<Longrightarrow> val w' di' (leaf (p div WRF_BLOCK_SIZE)) \<noteq> 0"
proof -
  obtain don di1 w1 where lp: "wrf_write_loop w ino di buf pos 0 = (don, di1, w1)" by (metis prod_cases3)
  note L = wrf_write_loop_correct [OF assms(1-4) _ lp, simplified]
  have f: "fstep ino w di w1 di1" and meta: "di_meta di1 = di_meta di" using L by simp_all
  have sz: "di_size di1 = di_size di" using arg_cong [OF meta, of di_size] by (simp add: di_meta_def)
  have w1: "vol_ok w1" "tree_ok w1 di1" "valid_ino w1 ino"
    using fstepD(1,2) [OF f] evolvesD [of w w1] assms(3) by simp_all
  let ?di = "di1\<lparr>di_size := pos + of_nat don\<rparr>"
  note I = inode_write_size [OF w1(1,3,2), of "pos + of_nat don"]
  have all: "fstep ino w di w' di' \<and> n = don \<and> fbyte w' di' = fbyte w1 di1 \<and>
    vused (vol_of w') = vused (vol_of w1) \<and> di_size di' = max (di_size di) (pos + of_nat n) \<and>
    val w' di' = val w1 di1"
  proof (cases "pos + of_nat don > di_size di1")
    case True
    then have "n = don" "di' = ?di" "w' = wrf_inode_write w1 ino ?di"
      using assms(5) lp by (auto simp: wrf_raw_write_def Let_def)
    then show ?thesis using fstep_trans [OF f I(1)] I(3,4) True sz by (simp add: I(2))
  next
    case False
    then have "n = don" "di' = di1" "w' = w1" using assms(5) lp by (simp_all add: wrf_raw_write_def)
    then show ?thesis using f False sz by simp
  qed
  then have "valid_blk w' = valid_blk w1"
    using evolvesD(6) [OF fstepD(1)] f by metis
  with all L show "fstep ino w di w' di'" "n \<le> length buf" "n = 0 \<or> unat pos + n \<le> MAX_FILE"
    "\<And>p. fbyte w' di' p = (if unat pos \<le> p \<and> p < unat pos + n then buf ! (p - unat pos) else fbyte w di p)"
    "n < length buf \<Longrightarrow> MAX_FILE \<le> unat pos + n \<or>
       disk_full w' \<and> val w' di' (leaf ((unat pos + n) div WRF_BLOCK_SIZE)) = 0"
    "di_size di' = max (di_size di) (pos + of_nat n)"
    "\<And>t. slot_ok t \<Longrightarrow> val w di t \<noteq> 0 \<Longrightarrow> val w' di' t = val w di t"
    "\<And>p. unat pos \<le> p \<Longrightarrow> p < unat pos + n \<Longrightarrow> val w' di' (leaf (p div WRF_BLOCK_SIZE)) \<noteq> 0"
    by (simp_all add: disk_full_def)
qed

lemma wrf_raw_read_correct:
  assumes "vol_ok w" "tree_ok w di" "unat pos + count \<le> 2 ^ 41"
  shows "\<exists>w'. wrf_raw_read w ino di count pos = (map (fbyte w di) [unat pos..<unat pos + count], w') \<and>
    evolves w w' \<and> vol_of w' = vol_of w \<and> g_disks w' = g_disks w"
proof -
  obtain bs w' where "wrf_read_loop w ino di count pos [] = (bs, w')" by (metis prod.exhaust)
  with wrf_read_loop_correct [OF assms _ this] show ?thesis by (simp add: wrf_raw_read_def)
qed

section \<open>Properties\<close>


lemma sample_inode_zero: "wrf_inode_read sample_vol 2 = zero_inode"
proof -
  have "sec sample_vol lba = replicate 512 0" for lba
    by (simp add: sample_vol_def sec_def vol_disk_def sample_drive_def)
  then have "vino (vol_of sample_vol) 2 = zero_inode"
    by (simp add: sample_valid vol_of_def zero_inode_def slice_def)
  then show ?thesis using wrf_inode_read_vol [OF sample_vol_ok, of 2] by (simp add: sample_valid)
qed

lemma zero_inode_vals: "slot_ok s \<Longrightarrow> slot_val V zero_inode s = 0"
proof -
  assume s: "slot_ok s"
  have z: "get_iptr zero_inode p = 0" if "slot_ok (SPtr p)" for p
    using that by (cases p) (simp_all add: zero_inode_def inode_of_bytes_def get_le32s_def get_le32_def)
  then show ?thesis using z [of PIndirect] z [of PDindirect] s by (cases s) (simp_all add: deref_def)
qed

lemma tree_ok_zero: "tree_ok w zero_inode"
  by (simp add: tree_ok_def zero_inode_vals) (simp add: zero_inode_def)


text \<open>C21. Writing to one file never changes another: if two files share no block, then after a write
  to the first the inode of the second, its blocks and all its bytes are the same, both files
  are still well formed and still share no block.\<close>

theorem wrf_write_isolated:
  assumes "vol_ok w" and "valid_ino w ino" and "tree_ok w di" and "unat pos + length buf \<le> 2 ^ 41"
    and "wrf_raw_write w ino di buf pos = (n, di', w')"
    and "jno \<noteq> ino" and "tree_ok w dj" and "owned w di \<inter> owned w dj = {}"
  shows "vino (vol_of w') jno = vino (vol_of w) jno \<and> tree_ok w' dj \<and> fbyte w' dj = fbyte w dj \<and>
    owned w' dj = owned w dj \<and> owned w' di' \<inter> owned w' dj = {}"
proof -
  note F = fstepD [OF wrf_raw_write_correct(1) [OF assms(1,3,2,4,5)]]
  have own: "val w dj s - 1 \<notin> owned w di" "vused (vol_of w) (val w dj s - 1)"
    if "slot_ok s" "val w dj s \<noteq> 0" for s
    using assms(7,8) that tree_okD(2) [OF assms(7) that] unfolding owned_def by blast+
  have data: "vdata (vol_of w') (val w dj s - 1) = vdata (vol_of w) (val w dj s - 1)"
    if "slot_ok s" "val w dj s \<noteq> 0" for s using F(4) own [OF that] by blast
  have vals: "val w' dj t = val w dj t" if "slot_ok t" for t
    using that
  proof (induction rule: slot_parent_induct)
    case (2 t q k)
    then show ?case using data [OF 2(3)] by (simp add: slot_val_child deref_def entry_def)
  qed simp
  have "tree_ok w' dj"
    using assms(7) vals F(3) evolvesD(6) [OF F(1)] unfolding tree_ok_def by simp
  moreover have "content w' dj l = content w dj l" if "l < MAX_BLOCKS" for l
    using vals [OF leaf_ok [OF that]] data [OF leaf_ok [OF that]] by (simp add: content_def Let_def)
  then have "fbyte w' dj = fbyte w dj" by (auto simp: fbyte_def fun_eq_iff)
  moreover have owned: "owned w' dj = owned w dj" unfolding owned_def by (intro Collect_cong) (metis vals)
  moreover have "owned w' di' \<inter> owned w dj = {}"
    using F(5) own(2) assms(8) unfolding owned_def [of w dj] by blast
  ultimately show ?thesis using F(6) [OF assms(6)] by simp
qed

theorem wrf_write_isolated_witness:
  "\<exists>n di' w'. wrf_raw_write sample_vol 2 zero_inode [1, 2, 3] 510 = (n, di', w') \<and>
     vino (vol_of w') 3 = vino (vol_of sample_vol) 3"
proof -
  obtain n di' w' where run: "wrf_raw_write sample_vol 2 zero_inode [1, 2, 3] 510 = (n, di', w')"
    by (metis prod_cases3)
  have "owned sample_vol zero_inode = {}"
    by (auto simp: owned_def zero_inode_vals)
  then show ?thesis
    using wrf_write_isolated [OF sample_vol_ok _ tree_ok_zero _ run, of 3 zero_inode] run tree_ok_zero
    by (simp add: sample_valid)
qed

end
