(* ===== verification/Wrf.thy ===== *)
theory Wrf
  imports Wrf_File Vfs_Types
begin

text \<open>
  The upper half of the WRF driver, \<^verbatim>\<open>kernel/fs/wrf.c\<close>: directories, the hooks the virtual file
  system calls when a persistent node is created, moved, removed, read, written or truncated,
  and the scrubber. A directory is refined to a list of entries, and lookup, insertion and
  removal to operations on it.
\<close>

section \<open>Directories\<close>

text \<open>The scan of \<^verbatim>\<open>wrf_dir_find\<close>: a linear search for a live entry with the given name. Positions
  are natural numbers: the loop test \<^verbatim>\<open>pos + sizeof(de) <= di.size\<close> cannot wrap for any size that
  the volume can hold.\<close>

function wrf_dir_scan :: "wrf \<Rightarrow> u32 \<Rightarrow> wrf_inode \<Rightarrow> (wrf_dirent \<Rightarrow> bool) \<Rightarrow> nat \<Rightarrow> (nat \<times> wrf_dirent) option \<times> wrf" where
  "wrf_dir_scan w ino di p pos =
     (if pos + DIRENT_SIZE \<le> unat (di_size di) then
        (let (bs, w1) = wrf_raw_read w ino di DIRENT_SIZE (of_nat pos);
             de = dirent_of_bytes bs
         in if p de then (Some (pos, de), w1) else wrf_dir_scan w1 ino di p (pos + DIRENT_SIZE))
      else (None, w))"
  by pat_completeness auto
termination
  by (relation "measure (\<lambda>(w, ino, di, p, pos). unat (di_size di) - pos)") auto

declare wrf_dir_scan.simps [simp del]

definition wrf_dir_find :: "wrf \<Rightarrow> u32 \<Rightarrow> string \<Rightarrow> (nat \<times> u32) option \<times> wrf" where
  "wrf_dir_find w dir_ino name =
     (let di = wrf_inode_read w dir_ino;
          (r, w1) = wrf_dir_scan w dir_ino di (\<lambda>de. de_inode de \<noteq> 0 \<and> cstr (de_name de) = name) 0
      in (map_option (\<lambda>(pos, de). (pos, de_inode de)) r, w1))"

definition new_dirent :: "u32 \<Rightarrow> u8 \<Rightarrow> string \<Rightarrow> wrf_dirent" where
  "new_dirent child_ino type name =
     (let nlen = (if length name \<ge> 64 then 63 else length name)
      in \<lparr>de_inode = child_ino, de_type = type, de_reserved = replicate 3 0,
          de_name = take nlen (cbytes name) @ replicate (64 - nlen) 0\<rparr>)"

definition wrf_dir_append :: "wrf \<Rightarrow> u32 \<Rightarrow> u32 \<Rightarrow> u8 \<Rightarrow> string \<Rightarrow> wrf" where
  "wrf_dir_append w dir_ino child_ino type name =
     (let de = new_dirent child_ino type name;
          di = wrf_inode_read w dir_ino;
          (r, w1) = wrf_dir_scan w dir_ino di (\<lambda>cur. de_inode cur = 0) 0;
          pos = (case r of Some (pos, cur) \<Rightarrow> of_nat pos | None \<Rightarrow> di_size di);
          (n, di1, w2) = wrf_raw_write w1 dir_ino di (dirent_bytes de) pos
      in w2)"

definition tombstone :: wrf_dirent where
  "tombstone = dirent_of_bytes (replicate DIRENT_SIZE 0)"

definition wrf_dir_remove :: "wrf \<Rightarrow> u32 \<Rightarrow> string \<Rightarrow> wrf" where
  "wrf_dir_remove w dir_ino name =
     (case wrf_dir_find w dir_ino name of
        (None, w1) \<Rightarrow> w1
      | (Some (pos, c), w1) \<Rightarrow>
          (let di = wrf_inode_read w1 dir_ino;
               (n, di1, w2) = wrf_raw_write w1 dir_ino di (dirent_bytes tombstone) (of_nat pos)
           in w2))"

section \<open>Hooks of the virtual file system\<close>

definition wrf_dt :: "vfs_node \<Rightarrow> u8" where
  "wrf_dt node = (if nd_type node = VFS_DIR then WRF_DT_DIR else WRF_DT_REG)"

definition new_inode :: "wrf \<Rightarrow> vfs_node \<Rightarrow> wrf_inode" where
  "new_inode w node =
     (let now = ucast (rtc_now w)
      in zero_inode\<lparr>di_mode := (if nd_type node = VFS_DIR then WRF_IFDIR else WRF_IFREG) OR (nd_mode node AND 0xFFF),
           di_uid := nd_uid node, di_gid := nd_gid node, di_nlink := 1,
           di_atime := now, di_mtime := now, di_ctime := now\<rparr>)"

definition wrf_notify_create :: "wrf \<Rightarrow> vfs_node \<Rightarrow> vfs_node \<Rightarrow> vfs_node \<times> wrf" where
  "wrf_notify_create w dir node =
     (if nd_wrf_ino dir = 0 then (node, w)
      else
        (let (ino, w1) = wrf_inode_alloc w
         in if ino < 0 then (node, w1)
            else
              (let w2 = wrf_inode_write w1 (of_int ino) (new_inode w1 node);
                   node1 = node\<lparr>nd_wrf_ino := of_int ino\<rparr>
               in (node1, wrf_dir_append w2 (nd_wrf_ino dir) (of_int ino) (wrf_dt node1) (nd_name node1)))))"

definition wrf_notify_detach :: "wrf \<Rightarrow> vfs_node \<Rightarrow> vfs_node \<Rightarrow> wrf" where
  "wrf_notify_detach w dir node =
     (if nd_wrf_ino dir = 0 \<or> nd_wrf_ino node = 0 then w
      else wrf_dir_remove w (nd_wrf_ino dir) (nd_name node))"

definition wrf_notify_attach :: "wrf \<Rightarrow> vfs_node \<Rightarrow> vfs_node \<Rightarrow> wrf" where
  "wrf_notify_attach w dir node =
     (if nd_wrf_ino dir = 0 \<or> nd_wrf_ino node = 0 then w
      else wrf_dir_append w (nd_wrf_ino dir) (nd_wrf_ino node) (wrf_dt node) (nd_name node))"

text \<open>Freeing an inode: every block of the tree, then the inode.\<close>

definition free_ptr :: "u32 \<Rightarrow> wrf \<Rightarrow> wrf" where
  "free_ptr v w = (if v \<noteq> 0 then wrf_block_free w (v - 1) else w)"

definition free_table :: "u32 \<Rightarrow> wrf \<Rightarrow> wrf" where
  "free_table v w =
     (if v = 0 then w
      else
        (let (ok, sector, w1) = wrf_data_read w (v - 1) (stack_junk w)
         in wrf_block_free (fold free_ptr (get_le32s PER_BLOCK sector) w1) (v - 1)))"

definition free_dtable :: "u32 \<Rightarrow> wrf \<Rightarrow> wrf" where
  "free_dtable v w =
     (if v = 0 then w
      else
        (let (ok, sector, w1) = wrf_data_read w (v - 1) (stack_junk w)
         in wrf_block_free (fold free_table (get_le32s PER_BLOCK sector) w1) (v - 1)))"

definition wrf_notify_free :: "wrf \<Rightarrow> vfs_node \<Rightarrow> vfs_node \<times> wrf" where
  "wrf_notify_free w node =
     (if nd_wrf_ino node = 0 then (node, w)
      else
        (let di = wrf_inode_read w (nd_wrf_ino node);
             w1 = fold free_ptr (di_direct di) w;
             w2 = free_table (di_indirect di) w1;
             w3 = free_dtable (di_dindirect di) w2
         in (node\<lparr>nd_wrf_ino := 0\<rparr>, wrf_inode_free_bit w3 (nd_wrf_ino node))))"

definition wrf_file_read :: "wrf \<Rightarrow> vfs_node \<Rightarrow> nat \<Rightarrow> u64 \<Rightarrow> u8 list \<times> wrf" where
  "wrf_file_read w node count pos =
     (if pos \<ge> nd_size node then ([], w)
      else
        (let n = min count (unat (nd_size node - pos));
             di = wrf_inode_read w (nd_wrf_ino node)
         in wrf_raw_read w (nd_wrf_ino node) di n pos))"

definition wrf_file_write :: "wrf \<Rightarrow> vfs_node \<Rightarrow> u8 list \<Rightarrow> u64 \<Rightarrow> nat \<times> vfs_node \<times> wrf" where
  "wrf_file_write w node buf pos =
     (let di = wrf_inode_read w (nd_wrf_ino node);
          (n, di1, w1) = wrf_raw_write w (nd_wrf_ino node) di buf pos
      in (n, if n > 0 \<and> pos + of_nat n > nd_size node then node\<lparr>nd_size := pos + of_nat n\<rparr> else node, w1))"

definition wrf_truncate :: "wrf \<Rightarrow> vfs_node \<Rightarrow> u64 \<Rightarrow> int \<times> vfs_node \<times> wrf" where
  "wrf_truncate w node len =
     (let di = wrf_inode_read w (nd_wrf_ino node);
          di1 = di\<lparr>di_size := len, di_mtime := ucast (rtc_now w)\<rparr>
      in (0, node\<lparr>nd_size := len\<rparr>, wrf_inode_write w (nd_wrf_ino node) di1))"

section \<open>Scrubbing\<close>

text \<open>Every allocated block is read once; the counters are 32-bit.\<close>

definition scrub_block :: "u32 \<Rightarrow> u32 \<times> u32 \<times> wrf \<Rightarrow> u32 \<times> u32 \<times> wrf" where
  "scrub_block blk st =
     (case st of (checked, nbad, w) \<Rightarrow>
        if \<not> bit_test (g_block_bitmap w) (unat blk) then st
        else
          (let (ok, sector, w1) = wrf_data_read w blk (stack_junk w)
           in (checked + 1, if ok then nbad else nbad + 1, w1)))"

definition wrf_scrub :: "wrf \<Rightarrow> int \<times> wrf" where
  "wrf_scrub w =
     (if \<not> g_mounted w then (0, w)
      else
        (case fold scrub_block (map of_nat [0..<unat (total_blocks (g_sb w))]) (0, 0, w) of
           (checked, nbad, w1) \<Rightarrow> (sint nbad, w1)))"

section \<open>Lemmas\<close>

subsection \<open>Scrubbing\<close>

definition corrupt :: "wrf \<Rightarrow> u32 \<Rightarrow> bool" where
  "corrupt w b \<longleftrightarrow> vused (vol_of w) b \<and> vsum (vol_of w) b \<noteq> wrf_crc32 (vdata (vol_of w) b)"

lemma scrub_fold:
  assumes "vol_ok w" "\<forall>b \<in> set bs. valid_blk w b" "fold scrub_block bs (c, n, w) = (c', n', w')"
  shows "n' = n + of_nat (length (filter (corrupt w) bs)) \<and>
    c' = c + of_nat (length (filter (vused (vol_of w)) bs)) \<and> evolves w w' \<and> vol_of w' = vol_of w"
  using assms
proof (induction bs arbitrary: w c n)
  case Nil
  then show ?case by (simp add: evolves_refl)
next
  case (Cons b bs)
  obtain c1 n1 w1 where st: "scrub_block b (c, n, w) = (c1, n1, w1)" by (metis prod_cases3)
  have vb: "valid_blk w b" using Cons.prems(2) by simp
  have one: "evolves w w1 \<and> vol_of w1 = vol_of w \<and> n1 = n + (if corrupt w b then 1 else 0) \<and>
      c1 = c + (if vused (vol_of w) b then 1 else 0)"
  proof (cases "vused (vol_of w) b")
    case False
    then show ?thesis using st Cons.prems(1) by (auto simp: scrub_block_def vused_vol_of corrupt_def evolves_refl)
  next
    case True
    obtain ok w2 where rd: "wrf_data_read w b (stack_junk w) = (ok, vdata (vol_of w) b, w2)" "evolves w w2"
      "vol_of w2 = vol_of w" "ok \<longleftrightarrow> vsum (vol_of w) b = wrf_crc32 (vdata (vol_of w) b)"
      using data_read_step [OF Cons.prems(1) vb vol_ok_junk [OF Cons.prems(1)]] by blast
    then have "(c1, n1, w1) = (c + 1, if ok then n else n + 1, w2)"
      using st True by (simp add: scrub_block_def vused_vol_of)
    then show ?thesis using rd True by (simp add: corrupt_def)
  qed
  then have w1: "vol_ok w1" "\<forall>b \<in> set bs. valid_blk w1 b" and cw: "corrupt w1 = corrupt w"
    using evolvesD [of w w1] Cons.prems(2) by (auto simp: corrupt_def fun_eq_iff)
  from Cons.IH [OF w1, of c1 n1] Cons.prems(3) st one cw evolves_trans [of w w1 w']
  show ?case by (simp add: vused_vol_of(1) ac_simps)
qed

subsection \<open>Freeing\<close>

text \<open>Releasing a list of pointers clears their bits and nothing else.\<close>

definition frees :: "wrf \<Rightarrow> u32 set \<Rightarrow> wrf \<Rightarrow> bool" where
  "frees w B w' \<longleftrightarrow> evolves w w' \<and>
     vol_of w' = (vol_of w)\<lparr>vused := \<lambda>c. vused (vol_of w) c \<and> c \<notin> B\<rparr>"

lemma frees_refl: "vol_ok w \<Longrightarrow> frees w {} w"
  by (simp add: frees_def evolves_refl)

lemma frees_trans: "frees w B w1 \<Longrightarrow> frees w1 C w2 \<Longrightarrow> frees w (B \<union> C) w2"
  unfolding frees_def using evolves_trans by auto

lemma freesD:
  assumes "frees w B w'"
  shows "vol_ok w" "vol_ok w'" "valid_blk w' = valid_blk w" "valid_ino w' = valid_ino w"
    "vdata (vol_of w') = vdata (vol_of w)" "evolves w w'"
  using assms evolvesD [of w w'] by (auto simp: frees_def)

lemma frees_block: "vol_ok w \<Longrightarrow> valid_blk w b \<Longrightarrow> frees w {b} (wrf_block_free w b)"
  using block_free_step [of w b] by (auto simp: frees_def fun_eq_iff)

definition ptr_blocks :: "u32 list \<Rightarrow> u32 set" where
  "ptr_blocks vs = {v - 1 | v. v \<in> set vs \<and> v \<noteq> 0}"

lemma ptr_blocks_Cons: "ptr_blocks (v # vs) = (if v = 0 then {} else {v - 1}) \<union> ptr_blocks vs"
  by (auto simp: ptr_blocks_def)

lemma frees_ptrs:
  "vol_ok w \<Longrightarrow> \<forall>v \<in> set vs. v \<noteq> 0 \<longrightarrow> valid_blk w (v - 1) \<Longrightarrow> frees w (ptr_blocks vs) (fold free_ptr vs w)"
proof (induction vs arbitrary: w)
  case Nil
  then show ?case using frees_refl [of w] by (simp add: ptr_blocks_def)
next
  case (Cons v vs)
  have one: "frees w (if v = 0 then {} else {v - 1}) (free_ptr v w)"
    using Cons.prems frees_refl frees_block by (simp add: free_ptr_def)
  then have "frees (free_ptr v w) (ptr_blocks vs) (fold free_ptr vs (free_ptr v w))"
    using freesD [OF one] Cons.prems(2) by (intro Cons.IH) auto
  from frees_trans [OF one this] show ?case by (simp only: ptr_blocks_Cons fold_simps)
qed

definition table_of :: "wrf \<Rightarrow> u32 \<Rightarrow> u32 list" where
  "table_of w v = get_le32s PER_BLOCK (vdata (vol_of w) (v - 1))"

lemma frees_read:
  assumes "vol_ok w" "valid_blk w b" "wrf_data_read w b (stack_junk w) = (ok, sector, w1)"
  shows "frees w {} w1" "sector = vdata (vol_of w) b"
  using data_read_step [OF assms(1,2) vol_ok_junk [OF assms(1)]] assms(3) by (auto simp: frees_def)

lemma frees_table:
  assumes "vol_ok w" "v \<noteq> 0 \<longrightarrow> valid_blk w (v - 1) \<and> (\<forall>u \<in> set (table_of w v). u \<noteq> 0 \<longrightarrow> valid_blk w (u - 1))"
  shows "frees w (if v = 0 then {} else insert (v - 1) (ptr_blocks (table_of w v))) (free_table v w)"
proof (cases "v = 0")
  case True
  then show ?thesis using frees_refl [OF assms(1)] by (simp add: free_table_def)
next
  case False
  obtain ok sector w1 where rd: "wrf_data_read w (v - 1) (stack_junk w) = (ok, sector, w1)" by (metis prod_cases3)
  have vb: "valid_blk w (v - 1)" using assms(2) False by simp
  note R = frees_read [OF assms(1) vb rd]
  let ?w2 = "fold free_ptr (table_of w v) w1"
  have f2: "frees w1 (ptr_blocks (table_of w v)) ?w2"
    using freesD [OF R(1)] assms(2) False by (intro frees_ptrs) auto
  have f3: "frees ?w2 {v - 1} (wrf_block_free ?w2 (v - 1))"
    using freesD [OF f2] freesD [OF R(1)] vb by (intro frees_block) auto
  have "free_table v w = wrf_block_free ?w2 (v - 1)"
    using False rd R(2) by (simp add: free_table_def table_of_def)
  then show ?thesis using frees_trans [OF frees_trans [OF R(1) f2] f3] False by simp
qed

lemma frees_tables:
  assumes "vol_ok w" "\<forall>v \<in> set vs. v \<noteq> 0 \<longrightarrow> valid_blk w (v - 1) \<and>
      (\<forall>u \<in> set (table_of w v). u \<noteq> 0 \<longrightarrow> valid_blk w (u - 1))"
  shows "frees w (\<Union>v \<in> set vs. if v = 0 then {} else insert (v - 1) (ptr_blocks (table_of w v))) (fold free_table vs w)"
  using assms
proof (induction vs arbitrary: w)
  case Nil
  then show ?case using frees_refl [of w] by simp
next
  case (Cons v vs)
  have one: "frees w (if v = 0 then {} else insert (v - 1) (ptr_blocks (table_of w v))) (free_table v w)"
    using Cons.prems by (intro frees_table) auto
  have tab: "table_of (free_table v w) = table_of w" using freesD(5) [OF one] by (simp add: table_of_def fun_eq_iff)
  have "frees (free_table v w) (\<Union>u \<in> set vs. if u = 0 then {} else insert (u - 1) (ptr_blocks (table_of w u)))
      (fold free_table vs (free_table v w))"
    using Cons.IH [OF freesD(2) [OF one]] Cons.prems(2) tab freesD(3) [OF one] by simp
  from frees_trans [OF one this] show ?case by (simp only: list.set(2) UN_insert fold_simps)
qed

lemma set_table_of: "set (table_of w v) = {entry (vdata (vol_of w)) (v - 1) k | k. k < PER_BLOCK}"
  by (auto simp: table_of_def get_le32s_def entry_def)

text \<open>The pointers of a file, grouped the way \<^verbatim>\<open>wrf_notify_free\<close> visits them.\<close>

definition tree_blocks :: "wrf \<Rightarrow> wrf_inode \<Rightarrow> u32 set" where
  "tree_blocks w di = ptr_blocks (di_direct di) \<union>
     (if di_indirect di = 0 then {} else insert (di_indirect di - 1) (ptr_blocks (table_of w (di_indirect di)))) \<union>
     (if di_dindirect di = 0 then {}
      else insert (di_dindirect di - 1)
        (\<Union>v \<in> set (table_of w (di_dindirect di)). if v = 0 then {} else insert (v - 1) (ptr_blocks (table_of w v))))"

lemma ptr_blocks_table:
  "ptr_blocks (table_of w v) =
     {entry (vdata (vol_of w)) (v - 1) k - 1 | k. k < PER_BLOCK \<and> entry (vdata (vol_of w)) (v - 1) k \<noteq> 0}"
  by (auto simp: ptr_blocks_def set_table_of)

lemma owned_split:
  "owned w di =
     {get_iptr di p - 1 | p. slot_ok (SPtr p) \<and> get_iptr di p \<noteq> 0} \<union>
     {val w di (SInd k) - 1 | k. k < PER_BLOCK \<and> val w di (SInd k) \<noteq> 0} \<union>
     {val w di (SOut k) - 1 | k. k < PER_BLOCK \<and> val w di (SOut k) \<noteq> 0} \<union>
     {val w di (SIn k j) - 1 | k j. k < PER_BLOCK \<and> j < PER_BLOCK \<and> val w di (SIn k j) \<noteq> 0}"
  (is "_ = ?A \<union> ?B \<union> ?C \<union> ?D")
proof
  show "owned w di \<subseteq> ?A \<union> ?B \<union> ?C \<union> ?D"
  proof
    fix c assume "c \<in> owned w di"
    then obtain s where s: "slot_ok s" "val w di s \<noteq> 0" "c = val w di s - 1" by (auto simp: owned_def)
    then show "c \<in> ?A \<union> ?B \<union> ?C \<union> ?D" by (cases s) auto
  qed
  show "?A \<union> ?B \<union> ?C \<union> ?D \<subseteq> owned w di"
    unfolding owned_def by (auto intro: exI [of _ "SPtr _"] exI [of _ "SInd _"] exI [of _ "SOut _"] exI [of _ "SIn _ _"])
qed

lemma iptr_blocks:
  "inode_wf di \<Longrightarrow> {get_iptr di p - 1 | p. slot_ok (SPtr p) \<and> get_iptr di p \<noteq> 0} =
     ptr_blocks (di_direct di) \<union> (if di_indirect di = 0 then {} else {di_indirect di - 1}) \<union>
     (if di_dindirect di = 0 then {} else {di_dindirect di - 1})"
  (is "_ \<Longrightarrow> ?L = ?R")
proof
  assume wf: "inode_wf di"
  show "?L \<subseteq> ?R"
  proof
    fix c assume "c \<in> ?L"
    then obtain p where p: "slot_ok (SPtr p)" "get_iptr di p \<noteq> 0" "c = get_iptr di p - 1" by blast
    then show "c \<in> ?R" using wf by (cases p) (auto simp: ptr_blocks_def inode_wf_def)
  qed
  show "?R \<subseteq> ?L"
  proof
    fix c assume "c \<in> ?R"
    then consider k where "k < WRF_DIRECT" "di_direct di ! k \<noteq> 0" "c = di_direct di ! k - 1"
      | "di_indirect di \<noteq> 0" "c = di_indirect di - 1" | "di_dindirect di \<noteq> 0" "c = di_dindirect di - 1"
      using wf by (auto simp: ptr_blocks_def inode_wf_def in_set_conv_nth split: if_splits)
    then show "c \<in> ?L"
    proof cases
      case 1
      then show ?thesis by (auto intro!: exI [of _ "PDirect k"])
    next
      case 2
      then show ?thesis by (auto intro!: exI [of _ PIndirect])
    next
      case 3
      then show ?thesis by (auto intro!: exI [of _ PDindirect])
    qed
  qed
qed

lemma tree_blocks_owned:
  assumes "inode_wf di"
  shows "tree_blocks w di = owned w di"
proof -
  have ind: "(if di_indirect di = 0 then {} else ptr_blocks (table_of w (di_indirect di))) =
      {val w di (SInd k) - 1 | k. k < PER_BLOCK \<and> val w di (SInd k) \<noteq> 0}"
    by (auto simp: ptr_blocks_table deref_def)
  have out: "(if di_dindirect di = 0 then {} else {v - 1 | v. v \<in> set (table_of w (di_dindirect di)) \<and> v \<noteq> 0}) =
      {val w di (SOut k) - 1 | k. k < PER_BLOCK \<and> val w di (SOut k) \<noteq> 0}"
    by (auto simp: set_table_of deref_def)
  have inn: "(if di_dindirect di = 0 then {}
        else \<Union>v \<in> set (table_of w (di_dindirect di)). if v = 0 then {} else ptr_blocks (table_of w v)) =
      {val w di (SIn k j) - 1 | k j. k < PER_BLOCK \<and> j < PER_BLOCK \<and> val w di (SIn k j) \<noteq> 0}"
    by (auto simp: set_table_of ptr_blocks_table deref_def split: if_splits)
  show ?thesis
    unfolding owned_split iptr_blocks [OF assms] ind [symmetric] out [symmetric] inn [symmetric] tree_blocks_def
    by (auto split: if_splits)
qed

lemma tree_blocks_valid: "tree_ok w di \<Longrightarrow> b \<in> tree_blocks w di \<Longrightarrow> valid_blk w b"
  using tree_okD(1) [of w di] by (auto simp: tree_blocks_owned tree_ok_inode_wf owned_def)

lemma frees_dtable:
  assumes "vol_ok w" "v \<noteq> 0 \<longrightarrow> valid_blk w (v - 1) \<and> (\<forall>u \<in> set (table_of w v). u \<noteq> 0 \<longrightarrow> valid_blk w (u - 1) \<and>
      (\<forall>t \<in> set (table_of w u). t \<noteq> 0 \<longrightarrow> valid_blk w (t - 1)))"
  shows "frees w (if v = 0 then {}
      else insert (v - 1) (\<Union>u \<in> set (table_of w v). if u = 0 then {} else insert (u - 1) (ptr_blocks (table_of w u))))
    (free_dtable v w)"
proof (cases "v = 0")
  case True
  then show ?thesis using frees_refl [OF assms(1)] by (simp add: free_dtable_def)
next
  case False
  obtain ok sector w1 where rd: "wrf_data_read w (v - 1) (stack_junk w) = (ok, sector, w1)" by (metis prod_cases3)
  have vb: "valid_blk w (v - 1)" using assms(2) False by simp
  note R = frees_read [OF assms(1) vb rd]
  let ?w2 = "fold free_table (table_of w v) w1"
  let ?B = "\<Union>u \<in> set (table_of w v). if u = 0 then {} else insert (u - 1) (ptr_blocks (table_of w u))"
  have tab: "table_of w1 = table_of w" using freesD(5) [OF R(1)] by (simp add: table_of_def fun_eq_iff)
  have f2: "frees w1 ?B ?w2"
    using frees_tables [of w1 "table_of w v"] freesD [OF R(1)] assms(2) False tab by simp
  have f3: "frees ?w2 {v - 1} (wrf_block_free ?w2 (v - 1))"
    using freesD [OF f2] freesD [OF R(1)] vb by (intro frees_block) auto
  have "free_dtable v w = wrf_block_free ?w2 (v - 1)"
    using False rd R(2) by (simp add: free_dtable_def table_of_def)
  moreover have "{} \<union> ?B \<union> {v - 1} = insert (v - 1) ?B" by simp
  ultimately show ?thesis using frees_trans [OF frees_trans [OF R(1) f2] f3] False by (simp only: if_False)
qed

lemma notify_free_frees:
  assumes "vol_ok w" "valid_ino w ino" "tree_ok w di" "di = wrf_inode_read w ino" "nd_wrf_ino node = ino" "ino \<noteq> 0"
    "wrf_notify_free w node = (node', w')"
  shows "evolves w w'" "node' = node\<lparr>nd_wrf_ino := 0\<rparr>"
    "vol_of w' = (vol_of w)\<lparr>vused := \<lambda>c. vused (vol_of w) c \<and> c \<notin> owned w di,
       viused := (viused (vol_of w))(ino := False)\<rparr>"
proof -
  note valid = tree_blocks_valid [OF assms(3)]
  define w1 where "w1 = fold free_ptr (di_direct di) w"
  define w2 where "w2 = free_table (di_indirect di) w1"
  define w3 where "w3 = free_dtable (di_dindirect di) w2"
  have f1: "frees w (ptr_blocks (di_direct di)) w1"
    unfolding w1_def using valid assms(1) by (intro frees_ptrs) (auto simp: tree_blocks_def ptr_blocks_def)
  note D1 = freesD [OF f1]
  have t1: "table_of w1 = table_of w" using D1(5) by (simp add: table_of_def fun_eq_iff)
  have f2: "frees w1 (if di_indirect di = 0 then {}
      else insert (di_indirect di - 1) (ptr_blocks (table_of w (di_indirect di)))) w2"
    using frees_table [OF D1(2), of "di_indirect di"] valid
    unfolding w2_def t1 D1(3) by (simp add: tree_blocks_def ptr_blocks_def)
  note D2 = freesD [OF f2]
  have t2: "table_of w2 = table_of w" using D2(5) D1(5) by (simp add: table_of_def fun_eq_iff)
  have "di_dindirect di \<noteq> 0 \<longrightarrow> valid_blk w (di_dindirect di - 1) \<and>
      (\<forall>u \<in> set (table_of w (di_dindirect di)). u \<noteq> 0 \<longrightarrow> valid_blk w (u - 1) \<and>
        (\<forall>t \<in> set (table_of w u). t \<noteq> 0 \<longrightarrow> valid_blk w (t - 1)))"
  proof (intro impI conjI ballI)
    assume dd: "di_dindirect di \<noteq> 0"
    show "valid_blk w (di_dindirect di - 1)" using dd by (intro valid) (simp add: tree_blocks_def)
    fix u assume u: "u \<in> set (table_of w (di_dindirect di))" "u \<noteq> 0"
    show "valid_blk w (u - 1)" using dd u by (intro valid) (force simp: tree_blocks_def)
    fix t assume t: "t \<in> set (table_of w u)" "t \<noteq> 0"
    then have "t - 1 \<in> ptr_blocks (table_of w u)" by (auto simp: ptr_blocks_def)
    then show "valid_blk w (t - 1)" using dd u by (intro valid) (force simp: tree_blocks_def)
  qed
  then have f3: "frees w2 (if di_dindirect di = 0 then {}
      else insert (di_dindirect di - 1) (\<Union>u \<in> set (table_of w (di_dindirect di)).
        if u = 0 then {} else insert (u - 1) (ptr_blocks (table_of w u)))) w3"
    using frees_dtable [OF D2(2), of "di_dindirect di"] unfolding w3_def t2 D2(3) D1(3) by blast
  have f: "frees w (owned w di) w3"
    using frees_trans [OF frees_trans [OF f1 f2] f3]
    unfolding tree_blocks_owned [OF tree_ok_inode_wf [OF assms(3)], symmetric] tree_blocks_def .
  have ok3: "vol_ok w3" "valid_ino w3 ino" using freesD [OF f] assms(2) by simp_all
  have run: "w' = wrf_inode_free_bit w3 ino" "node' = node\<lparr>nd_wrf_ino := 0\<rparr>"
    using assms(4-7) unfolding w3_def w2_def w1_def by (simp_all add: wrf_notify_free_def Let_def)
  show "node' = node\<lparr>nd_wrf_ino := 0\<rparr>" by (rule run)
  note I = inode_free_step [OF ok3]
  show "evolves w w'" unfolding run(1) using evolves_trans [OF freesD(6) [OF f] I(1)] .
  show "vol_of w' = (vol_of w)\<lparr>vused := \<lambda>c. vused (vol_of w) c \<and> c \<notin> owned w di,
       viused := (viused (vol_of w))(ino := False)\<rparr>"
    unfolding run(1) I(2) using f by (simp add: frees_def)
qed

subsection \<open>Directories as lists of entries\<close>

definition dirent_at :: "wrf \<Rightarrow> wrf_inode \<Rightarrow> nat \<Rightarrow> wrf_dirent" where
  "dirent_at w di k = dirent_of_bytes (map (fbyte w di) [DIRENT_SIZE * k..<DIRENT_SIZE * k + DIRENT_SIZE])"

definition n_ents :: "wrf_inode \<Rightarrow> nat" where
  "n_ents di = unat (di_size di) div DIRENT_SIZE"

text \<open>A well-formed directory: whole entries, no holes.\<close>

definition dir_ok :: "wrf \<Rightarrow> wrf_inode \<Rightarrow> bool" where
  "dir_ok w di \<longleftrightarrow> tree_ok w di \<and> unat (di_size di) \<le> MAX_FILE \<and> unat (di_size di) mod DIRENT_SIZE = 0 \<and>
     (\<forall>p < unat (di_size di). val w di (leaf (p div WRF_BLOCK_SIZE)) \<noteq> 0)"

lemma dir_ok_same: "dir_ok w di \<Longrightarrow> vol_of w' = vol_of w \<Longrightarrow> valid_blk w' = valid_blk w \<Longrightarrow> dir_ok w' di"
  using tree_ok_same [of w di w'] by (simp add: dir_ok_def)

definition live :: "string \<Rightarrow> wrf_dirent \<Rightarrow> bool" where
  "live name de \<longleftrightarrow> de_inode de \<noteq> 0 \<and> cstr (de_name de) = name"

text \<open>What a lookup means: the inode of the first live entry with that name.\<close>

definition dir_lookup :: "wrf \<Rightarrow> wrf_inode \<Rightarrow> string \<Rightarrow> u32 option" where
  "dir_lookup w di name =
     map_option (\<lambda>k. de_inode (dirent_at w di k)) (scan (\<lambda>k. live name (dirent_at w di k)) 0 (n_ents di))"

lemma fbyte_vol: "vol_of w' = vol_of w \<Longrightarrow> fbyte w' di = fbyte w di"
  by (simp add: fbyte_def content_def fun_eq_iff Let_def)

lemma dir_ok_size: "dir_ok w di \<Longrightarrow> unat (di_size di) = DIRENT_SIZE * n_ents di \<and> DIRENT_SIZE * n_ents di \<le> MAX_FILE"
  by (auto simp: dir_ok_def n_ents_def)

lemma dirent_read:
  assumes "vol_ok w" "dir_ok w di" "k < n_ents di"
  obtains bs w1 where "wrf_raw_read w ino di DIRENT_SIZE (of_nat (DIRENT_SIZE * k)) = (bs, w1)"
    "dirent_of_bytes bs = dirent_at w di k" "evolves w w1" "vol_of w1 = vol_of w" "dirent_at w1 di = dirent_at w di"
proof -
  have small: "DIRENT_SIZE * k + DIRENT_SIZE \<le> MAX_FILE" using dir_ok_size [OF assms(2)] assms(3) by linarith
  then have u: "unat (of_nat (DIRENT_SIZE * k) :: u64) = DIRENT_SIZE * k" by (subst unat_of_nat) simp
  obtain w1 where rd: "wrf_raw_read w ino di DIRENT_SIZE (of_nat (DIRENT_SIZE * k)) =
      (map (fbyte w di) [DIRENT_SIZE * k..<DIRENT_SIZE * k + DIRENT_SIZE], w1)" "evolves w w1" "vol_of w1 = vol_of w"
    using wrf_raw_read_correct [OF assms(1), of di "of_nat (DIRENT_SIZE * k)" DIRENT_SIZE ino] assms(2) small
    unfolding u by (auto simp: dir_ok_def)
  have "dirent_at w1 di = dirent_at w di" by (intro ext) (simp add: dirent_at_def fbyte_vol [OF rd(3)])
  with rd that show ?thesis by (simp add: dirent_at_def)
qed

lemma wrf_dir_scan_correct:
  assumes "vol_ok w" "dir_ok w di" "wrf_dir_scan w ino di p (DIRENT_SIZE * k) = (r, w')"
  shows "r = map_option (\<lambda>j. (DIRENT_SIZE * j, dirent_at w di j)) (scan (\<lambda>j. p (dirent_at w di j)) k (n_ents di)) \<and>
    evolves w w' \<and> vol_of w' = vol_of w"
  using assms
proof (induction "n_ents di - k" arbitrary: w k rule: less_induct)
  case less
  note size = dir_ok_size [OF less.prems(2)]
  show ?case
  proof (cases "k < n_ents di")
    case False
    then have "\<not> DIRENT_SIZE * k + DIRENT_SIZE \<le> unat (di_size di)" using size by linarith
    then have "r = None" "w' = w" using less.prems(3) by (simp_all add: wrf_dir_scan.simps)
    then show ?thesis using False less.prems(1) by (simp add: scan.simps evolves_refl)
  next
    case True
    then have le: "DIRENT_SIZE * k + DIRENT_SIZE \<le> unat (di_size di)" using size by linarith
    obtain bs w1 where rd: "wrf_raw_read w ino di DIRENT_SIZE (of_nat (DIRENT_SIZE * k)) = (bs, w1)"
      "dirent_of_bytes bs = dirent_at w di k" "evolves w w1" "vol_of w1 = vol_of w" "dirent_at w1 di = dirent_at w di"
      by (rule dirent_read [OF less.prems(1,2) True])
    show ?thesis
    proof (cases "p (dirent_at w di k)")
      case hit: True
      then have "r = Some (DIRENT_SIZE * k, dirent_at w di k)" "w' = w1"
        using less.prems(3) le rd(1,2) by (simp_all add: wrf_dir_scan.simps [of w])
      then show ?thesis using hit True rd by (simp add: scan.simps [of _ k])
    next
      case miss: False
      then have "wrf_dir_scan w ino di p (DIRENT_SIZE * k) = wrf_dir_scan w1 ino di p (DIRENT_SIZE * k + DIRENT_SIZE)"
        using le rd(1,2) by (simp add: wrf_dir_scan.simps [of w])
      then have run: "wrf_dir_scan w1 ino di p (DIRENT_SIZE * Suc k) = (r, w')" using less.prems(3) by (simp add: add.commute)
      have ok1: "vol_ok w1" "dir_ok w1 di"
        using evolvesD [OF rd(3)] dir_ok_same [OF less.prems(2) rd(4)] by simp_all
      have dec: "n_ents di - Suc k < n_ents di - k" using True by simp
      from less.hyps [OF dec ok1 run] show ?thesis
        using miss True rd evolves_trans [OF rd(3)] by (simp add: scan.simps [of _ k])
    qed
  qed
qed

lemma wrf_dir_find_correct:
  assumes "vol_ok w" "valid_ino w ino" "di = wrf_inode_read w ino" "dir_ok w di" "wrf_dir_find w ino name = (r, w')"
  shows "r = map_option (\<lambda>j. (DIRENT_SIZE * j, de_inode (dirent_at w di j)))
      (scan (\<lambda>j. live name (dirent_at w di j)) 0 (n_ents di))"
    "evolves w w'" "vol_of w' = vol_of w"
proof -
  obtain x w1 where sc: "wrf_dir_scan w ino di (live name) 0 = (x, w1)" by (metis prod.exhaust)
  have eq: "(\<lambda>de. de_inode de \<noteq> 0 \<and> cstr (de_name de) = name) = live name" by (simp add: live_def fun_eq_iff)
  have "r = map_option (\<lambda>(pos, de). (pos, de_inode de)) x" "w' = w1"
    using assms(3,5) sc unfolding wrf_dir_find_def eq by (simp_all add: Let_def)
  then show "r = map_option (\<lambda>j. (DIRENT_SIZE * j, de_inode (dirent_at w di j)))
      (scan (\<lambda>j. live name (dirent_at w di j)) 0 (n_ents di))" "evolves w w'" "vol_of w' = vol_of w"
    using wrf_dir_scan_correct [OF assms(1,4), of ino "live name" 0 x w1] sc
    by (auto simp: option.map_comp comp_def)
qed

text \<open>Storing one whole entry at slot \<open>j\<close>.\<close>

lemma dirent_write:
  assumes "vol_ok w" "valid_ino w ino" "vino (vol_of w) ino = di" "dir_ok w di" "j \<le> n_ents di" "dirent_wf de"
    "DIRENT_SIZE * j + DIRENT_SIZE \<le> MAX_FILE" "pos = of_nat (DIRENT_SIZE * j)"
    "wrf_raw_write w ino di (dirent_bytes de) pos = (n, di', w')" "j = n_ents di \<longrightarrow> \<not> disk_full w'"
  shows "dir_ok w' di'" "n_ents di' = max (n_ents di) (Suc j)"
    "\<And>k. dirent_at w' di' k = (if k = j then de else dirent_at w di k)"
    "vol_ok w'" "vino (vol_of w') ino = di'" "evolves w w'"
proof -
  have u: "unat pos = DIRENT_SIZE * j" unfolding assms(8) using assms(7) by (subst unat_of_nat) simp
  have tree: "tree_ok w di" using assms(4) by (simp add: dir_ok_def)
  have lim: "unat pos + length (dirent_bytes de) \<le> 2 ^ 41" using assms(6,7) u by simp
  note W = wrf_raw_write_correct [OF assms(1) tree assms(2) lim assms(9)]
  note F = fstepD [OF W(1)]
  have old: "unat (di_size di) = DIRENT_SIZE * n_ents di" using assms(4) by (auto simp: dir_ok_def n_ents_def)
  have n: "n = DIRENT_SIZE"
  proof (rule ccontr)
    let ?p = "DIRENT_SIZE * j + n"
    assume "n \<noteq> DIRENT_SIZE"
    then have lt: "n < DIRENT_SIZE" "n < length (dirent_bytes de)" using W(2) assms(6) by simp_all
    then have p: "?p < MAX_FILE" using assms(7) by linarith
    then have z: "disk_full w'" "val w' di' (leaf (?p div WRF_BLOCK_SIZE)) = 0" using W(5) [OF lt(2)] u by auto
    then have "j < n_ents di" using assms(5,10) by linarith
    then have "DIRENT_SIZE * Suc j \<le> unat (di_size di)" unfolding old by (intro mult_le_mono2) simp
    then have "?p < unat (di_size di)" using lt(1) by simp
    then have nz: "val w di (leaf (?p div WRF_BLOCK_SIZE)) \<noteq> 0" using assms(4) by (simp add: dir_ok_def)
    have "?p div WRF_BLOCK_SIZE < MAX_BLOCKS" using p by linarith
    from W(7) [OF leaf_ok [OF this] nz] z(2) nz show False by simp
  qed
  show "vol_ok w'" "evolves w w'" using evolvesD [OF F(1)] F(1) by simp_all
  show "vino (vol_of w') ino = di'" using F(7) assms(3) by simp
  have "unat (pos + of_nat n) = DIRENT_SIZE * Suc j"
    using u n assms(7) by (simp add: unat_word_ariths)
  then have sz: "unat (di_size di') = max (unat (di_size di)) (DIRENT_SIZE * Suc j)"
    unfolding W(6) by (simp add: max_def word_le_nat_alt)
  show "n_ents di' = max (n_ents di) (Suc j)" using sz old unfolding n_ents_def by (simp add: max_def)
  have "val w' di' (leaf (p div WRF_BLOCK_SIZE)) \<noteq> 0" if p: "p < unat (di_size di')" for p
  proof (cases "p < unat (di_size di)")
    case True
    then have "p div WRF_BLOCK_SIZE < MAX_BLOCKS" using assms(4) by (simp add: dir_ok_def) linarith
    then show ?thesis using W(7) [OF leaf_ok] True assms(4) by (auto simp: dir_ok_def)
  next
    case False
    have "DIRENT_SIZE * j \<le> unat (di_size di)" unfolding old using assms(5) by simp
    then have "unat pos \<le> p" "p < unat pos + n" using p False sz u n by (auto simp: max_def split: if_splits)
    then show ?thesis by (rule W(8))
  qed
  then show "dir_ok w' di'"
    using F(2) sz assms(4,7) old by (simp add: dir_ok_def max_def)
  fix k
  have cases: "map (fbyte w' di') [DIRENT_SIZE * k..<DIRENT_SIZE * k + DIRENT_SIZE] =
      (if k = j then dirent_bytes de else map (fbyte w di) [DIRENT_SIZE * k..<DIRENT_SIZE * k + DIRENT_SIZE])"
  proof (cases "k = j")
    case True
    then show ?thesis using W(4) n u assms(6) by (auto intro!: nth_equalityI)
  next
    case False
    have "\<not> (DIRENT_SIZE * j \<le> p \<and> p < DIRENT_SIZE * j + DIRENT_SIZE)"
      if "DIRENT_SIZE * k \<le> p" "p < DIRENT_SIZE * k + DIRENT_SIZE" for p
      using that False by linarith
    then show ?thesis using W(4) n u False by auto
  qed
  then show "dirent_at w' di' k = (if k = j then de else dirent_at w di k)"
    using assms(6) by (simp add: dirent_at_def)
qed

lemma new_dirent_wf: "dirent_wf (new_dirent c t name)"
  by (simp add: dirent_wf_def new_dirent_def Let_def)

lemma new_dirent_live:
  assumes "c \<noteq> 0" "no_nul name" "length name < 64"
  shows "live m (new_dirent c t name) \<longleftrightarrow> m = name"
proof -
  have "replicate (64 - length name) 0 = 0 # replicate (63 - length name) (0 :: u8)"
    using assms(3) replicate_Suc [of "63 - length name" "0 :: u8"] by (simp add: Suc_diff_le [symmetric])
  then show ?thesis using assms cstr_cbytes [OF assms(2)] by (auto simp: live_def new_dirent_def Let_def)
qed

section \<open>Properties\<close>

text \<open>Removing a persistent file for good gives back exactly its own resources: every block its
  pointers reach, directly or through the index blocks, and its inode become free; no other
  block, no inode and no data on the volume changes, and the cached bitmaps still match the
  disk.\<close>

theorem wrf_free_reclaims:
  assumes "vol_ok w" and "synced w" and "valid_ino w (nd_wrf_ino node)" and "nd_wrf_ino node \<noteq> 0"
    and "di = wrf_inode_read w (nd_wrf_ino node)" and "tree_ok w di"
    and "wrf_notify_free w node = (node', w')"
  shows "nd_wrf_ino node' = 0 \<and> vol_ok w' \<and> synced w' \<and>
    (\<forall>c. vused (vol_of w') c \<longleftrightarrow> vused (vol_of w) c \<and> c \<notin> owned w di) \<and>
    (\<forall>j. viused (vol_of w') j \<longleftrightarrow> viused (vol_of w) j \<and> j \<noteq> nd_wrf_ino node) \<and>
    vdata (vol_of w') = vdata (vol_of w) \<and> vino (vol_of w') = vino (vol_of w)"
proof -
  note N = notify_free_frees [OF assms(1,3,6,5) refl assms(4,7)]
  show ?thesis using N(2) evolvesD(2,8) [OF N(1)] assms(2) by (auto simp: N(3))
qed

theorem wrf_free_reclaims_witness:
  "let node = zero_node\<lparr>nd_wrf_ino := 2\<rparr>; (node', w') = wrf_notify_free sample_vol node
   in nd_wrf_ino node' = 0 \<and> synced w' \<and> \<not> viused (vol_of w') 2"
proof -
  obtain node' w' where run: "wrf_notify_free sample_vol (zero_node\<lparr>nd_wrf_ino := 2\<rparr>) = (node', w')"
    by (metis prod.exhaust)
  show ?thesis
    using wrf_free_reclaims [OF sample_vol_ok sample_synced _ _ _ tree_ok_zero run] sample_inode_zero run
    by (simp add: sample_valid)
qed

text \<open>\<^verbatim>\<open>wrf_scrub\<close> returns exactly the number of allocated blocks whose contents do not match their
  stored checksum, and changes nothing on the volume.\<close>

theorem wrf_scrub_counts:
  assumes "vol_ok w" and "g_mounted w" and "wrf_scrub w = (r, w')"
  shows "r = int (card {b. valid_blk w b \<and> corrupt w b}) \<and> vol_of w' = vol_of w"
proof -
  let ?N = "unat (total_blocks (g_sb w))"
  let ?bs = "map of_nat [0..<?N] :: u32 list"
  have N: "?N \<le> 2 ^ 28" using total_blocks_bound [OF assms(1)] .
  have in_bs: "b \<in> set ?bs \<longleftrightarrow> valid_blk w b" for b
  proof
    assume "b \<in> set ?bs"
    then obtain i where "i < ?N" "b = of_nat i" by auto
    then show "valid_blk w b" using N by (simp add: valid_blk_def word_less_nat_alt unat_of_nat)
  next
    assume "valid_blk w b"
    then show "b \<in> set ?bs" by (auto simp: valid_blk_def word_less_nat_alt intro!: image_eqI [of _ _ "unat b"])
  qed
  have "inj_on (of_nat :: nat \<Rightarrow> u32) {0..<?N}"
    using N by (intro inj_onI) (simp add: word_of_nat_eq_iff take_bit_nat_eq_self)
  then have dist: "distinct ?bs" by (simp add: distinct_map)
  obtain c n v where f: "fold scrub_block ?bs (0, 0, w) = (c, n, v)" by (metis prod_cases3)
  have S: "n = of_nat (length (filter (corrupt w) ?bs))" "vol_of v = vol_of w"
    using scrub_fold [OF assms(1) _ f] in_bs by auto
  have set: "set (filter (corrupt w) ?bs) = {b. valid_blk w b \<and> corrupt w b}"
    unfolding set_filter using in_bs by blast
  then have "length (filter (corrupt w) ?bs) = card {b. valid_blk w b \<and> corrupt w b}"
    using distinct_card [OF distinct_filter [OF dist, of "corrupt w"]] by simp
  moreover have "length (filter (corrupt w) ?bs) < 2 ^ 31"
    using length_filter_le [of "corrupt w" ?bs] N by simp
  ultimately have "sint n = int (card {b. valid_blk w b \<and> corrupt w b})"
    unfolding S(1) by (simp only: sint_small)
  then show ?thesis using assms(2,3) f S(2) by (simp add: wrf_scrub_def)
qed

theorem wrf_scrub_counts_witness:
  "\<exists>w'. wrf_scrub sample_vol = (0, w')"
proof -
  obtain r w' where run: "wrf_scrub sample_vol = (r, w')" by (metis prod.exhaust)
  have none: "{b. valid_blk sample_vol b \<and> corrupt sample_vol b} = {}"
    by (simp add: corrupt_def vused_vol_of) (simp add: sample_vol_def bit_test_def)
  show ?thesis using wrf_scrub_counts [OF sample_vol_ok _ run] none run by (simp add: sample_vol_def)
qed

lemma scan_update:
  assumes "\<And>k. q k = (if k = j then b else p k)" "j < n'" "n \<le> n'" "\<And>k. n \<le> k \<Longrightarrow> k < n' \<Longrightarrow> k = j"
    and "\<not> b" and "j < n \<Longrightarrow> \<not> p j"
  shows "scan q 0 n' = scan p 0 n"
proof (cases "scan p 0 n")
  case None
  then have "scan q 0 n' = None" using assms unfolding scan_None_iff by (metis not_less)
  with None show ?thesis by simp
next
  case (Some i)
  then have "scan q 0 n' = Some i" using assms unfolding scan_Some_iff by (metis less_le_trans)
  with Some show ?thesis by simp
qed

lemma scan_found:
  assumes "\<And>k. q k = (if k = j then True else p k)" "j < n'" "n \<le> n'" "\<And>k. n \<le> k \<Longrightarrow> k < n' \<Longrightarrow> k = j" "scan p 0 n = None"
  shows "scan q 0 n' = Some j"
  unfolding scan_Some_iff
proof (intro conjI allI impI)
  show "\<not> q k" if k: "0 \<le> k \<and> k < j" for k
  proof -
    have "k < n" using assms(2,4) k by (metis less_irrefl less_trans not_less)
    then show ?thesis using assms(1,5) k by (auto simp: scan_None_iff)
  qed
qed (use assms in auto)

lemma wrf_dir_append_correct:
  assumes ok: "vol_ok w" "valid_ino w ino" and di: "di = wrf_inode_read w ino" "dir_ok w di"
    and room: "unat (di_size di) + DIRENT_SIZE \<le> MAX_FILE"
    and w': "w' = wrf_dir_append w ino c t name" "\<not> disk_full w'"
  obtains j di' where "di' = wrf_inode_read w' ino" "dir_ok w' di'" "j < n_ents di'" "n_ents di \<le> n_ents di'"
    "\<And>k. n_ents di \<le> k \<Longrightarrow> k < n_ents di' \<Longrightarrow> k = j"
    "\<And>k. dirent_at w' di' k = (if k = j then new_dirent c t name else dirent_at w di k)"
    "j < n_ents di \<Longrightarrow> de_inode (dirent_at w di j) = 0" "evolves w w'"
proof -
  obtain r w1 where sc: "wrf_dir_scan w ino di (\<lambda>cur. de_inode cur = 0) 0 = (r, w1)" by (metis prod.exhaust)
  have S: "r = map_option (\<lambda>j. (DIRENT_SIZE * j, dirent_at w di j)) (scan (\<lambda>j. de_inode (dirent_at w di j) = 0) 0 (n_ents di))"
    "evolves w w1" "vol_of w1 = vol_of w"
    using wrf_dir_scan_correct [OF ok(1) di(2), of ino _ 0 r w1] sc by auto
  define j where "j = (case scan (\<lambda>j. de_inode (dirent_at w di j) = 0) 0 (n_ents di) of Some j \<Rightarrow> j | None \<Rightarrow> n_ents di)"
  have size: "unat (di_size di) = DIRENT_SIZE * n_ents di" using di(2) by (auto simp: dir_ok_def n_ents_def)
  have j: "j \<le> n_ents di" "j < n_ents di \<Longrightarrow> de_inode (dirent_at w di j) = 0"
    by (auto simp: j_def split: option.splits dest: scan_SomeD)
  have pos: "(case r of Some (pos, cur) \<Rightarrow> of_nat pos | None \<Rightarrow> di_size di) = of_nat (DIRENT_SIZE * j)"
  proof (cases "scan (\<lambda>j. de_inode (dirent_at w di j) = 0) 0 (n_ents di)")
    case None
    have "of_nat (unat (di_size di)) = (of_nat (DIRENT_SIZE * n_ents di) :: u64)" unfolding size ..
    with None show ?thesis by (simp add: S(1) j_def)
  qed (simp add: S(1) j_def)
  obtain n di' w2 where wr: "wrf_raw_write w1 ino di (dirent_bytes (new_dirent c t name)) (of_nat (DIRENT_SIZE * j)) = (n, di', w2)"
    by (metis prod_cases3)
  have "w' = w2" using w'(1) sc wr pos unfolding wrf_dir_append_def Let_def di(1) [symmetric] by simp
  note ev = evolvesD [OF S(2)]
  have at: "dirent_at w1 di = dirent_at w di" by (intro ext) (simp add: dirent_at_def fbyte_vol [OF S(3)])
  have ok1: "dir_ok w1 di" using dir_ok_same [OF di(2) S(3) ev(6)] .
  have vi: "vino (vol_of w1) ino = di" using di(1) wrf_inode_read_vol [OF ok] S(3) by simp
  have lim: "DIRENT_SIZE * j + DIRENT_SIZE \<le> MAX_FILE" using j(1) room size by linarith
  have vi1: "valid_ino w1 ino" using ok(2) ev(7) by simp
  have full: "j = n_ents di \<longrightarrow> \<not> disk_full w2" using w'(2) \<open>w' = w2\<close> by simp
  note D = dirent_write [OF ev(2) vi1 vi ok1 j(1) new_dirent_wf lim refl wr full, folded \<open>w' = w2\<close>]
  show ?thesis
  proof (rule that [of di' j])
    show "di' = wrf_inode_read w' ino" using wrf_inode_read_vol [OF D(4)] D(5) evolvesD [OF D(6)] vi1 by simp
    show "k = j" if "n_ents di \<le> k" "k < n_ents di'" for k using that j(1) D(2) by simp
    show "evolves w w'" using evolves_trans [OF S(2) D(6)] .
  qed (use D at j in auto)
qed

text \<open>Adding an entry to a directory works like inserting into a map: on a volume with room left,
  after \<^verbatim>\<open>wrf_dir_append\<close> the new name leads to its inode, and every other name leads wherever it
  led before, whether the entry went into a freed slot or extended the directory.\<close>

theorem wrf_dir_insert_lookup:
  assumes "vol_ok w" and "valid_ino w ino" and "di = wrf_inode_read w ino" and "dir_ok w di"
    and "unat (di_size di) + DIRENT_SIZE \<le> MAX_FILE" and "no_nul name" and "length name < 64" and "c \<noteq> 0"
    and "dir_lookup w di name = None"
    and "w' = wrf_dir_append w ino c t name" and "\<not> disk_full w'"
  shows "dir_ok w' (wrf_inode_read w' ino) \<and>
    dir_lookup w' (wrf_inode_read w' ino) = (dir_lookup w di)(name := Some c)"
proof -
  obtain j di' where A: "di' = wrf_inode_read w' ino" "dir_ok w' di'" "j < n_ents di'" "n_ents di \<le> n_ents di'"
    "\<And>k. n_ents di \<le> k \<Longrightarrow> k < n_ents di' \<Longrightarrow> k = j"
    "\<And>k. dirent_at w' di' k = (if k = j then new_dirent c t name else dirent_at w di k)"
    "j < n_ents di \<Longrightarrow> de_inode (dirent_at w di j) = 0" "evolves w w'"
    by (rule wrf_dir_append_correct [OF assms(1-5,10,11)]) blast
  note new = new_dirent_live [OF assms(8,6,7)]
  have "dir_lookup w' di' m = ((dir_lookup w di)(name := Some c)) m" for m
  proof (cases "m = name")
    case True
    have "scan (\<lambda>k. live name (dirent_at w' di' k)) 0 (n_ents di') = Some j"
      by (rule scan_found [OF _ A(3,4,5), where p = "\<lambda>k. live name (dirent_at w di k)"])
        (use assms(9) in \<open>auto simp: A(6) new dir_lookup_def\<close>)
    then show ?thesis using True A(6) [of j] by (simp add: dir_lookup_def new_dirent_def Let_def)
  next
    case False
    have eq: "scan (\<lambda>k. live m (dirent_at w' di' k)) 0 (n_ents di') = scan (\<lambda>k. live m (dirent_at w di k)) 0 (n_ents di)"
    proof (rule scan_update [OF _ A(3,4,5), where b = False])
      show "j < n_ents di \<Longrightarrow> \<not> live m (dirent_at w di j)" using A(7) by (simp add: live_def)
    qed (use False in \<open>auto simp: A(6) new\<close>)
    have "dirent_at w' di' k = dirent_at w di k" if "live m (dirent_at w di k)" "k < n_ents di" for k
      using that A(6,7) by (auto simp: live_def)
    then show ?thesis using False eq
      by (auto simp: dir_lookup_def dest: scan_SomeD intro!: option.map_cong0 split: option.splits)
  qed
  then show ?thesis using A(1,2) by (auto simp: fun_eq_iff)
qed

text \<open>An empty directory on the sample volume.\<close>

lemma sample_dir_ok: "dir_ok sample_vol zero_inode" "n_ents zero_inode = 0" "di_size zero_inode = 0"
proof -
  show sz: "di_size zero_inode = 0"
    by (simp add: zero_inode_def inode_of_bytes_def get_le64_def get_le32_def)
  then show "dir_ok sample_vol zero_inode" "n_ents zero_inode = 0"
    by (simp_all add: dir_ok_def tree_ok_zero n_ents_def)
qed

lemma first_write_used:
  assumes ok: "vol_ok w" and ino: "valid_ino w ino" and buf: "0 < length buf" "length buf < 512"
    and run: "wrf_raw_write w ino zero_inode buf 0 = (n, di', w')"
  shows "\<exists>b. \<forall>c. vused (vol_of w') c \<longrightarrow> vused (vol_of w) c \<or> c = b"
proof -
  have z: "get_iptr zero_inode (PDirect 0) = 0" using zero_inode_vals [of "SPtr (PDirect 0)"] by simp
  have wf: "inode_wf (set_iptr zero_inode (PDirect 0) v)" for v
    unfolding inode_wf_set_iptr by (simp add: zero_inode_def)
  have wfs: "inode_wf ((set_iptr zero_inode (PDirect 0) v)\<lparr>di_size := x\<rparr>)" for v x
    using wf [of v] by (simp add: inode_wf_def)
  have len: "length (di_direct zero_inode) = 12" using wf [of 0] by (simp add: inode_wf_def)
  from ok show ?thesis
  proof (cases rule: block_alloc_step)
    case full
    then have "wrf_write_loop w ino zero_inode buf 0 0 = (0, zero_inode, w)"
      using z buf by (simp add: wrf_write_loop.simps [of w] wrf_bmap_def wrf_bmap_iptr_def)
    then have "w' = w" using run by (simp add: wrf_raw_write_def)
    then show ?thesis by simp
  next
    case (fresh b w1)
    let ?di = "set_iptr zero_inode (PDirect 0) (b + 1)"
    note e1 = evolvesD [OF fresh(5)]
    define w2 where "w2 = wrf_inode_write w1 ino ?di"
    have i1: "valid_ino w1 ino" using ino e1(7) by simp
    note st2 = inode_write_step [OF e1(2) i1 wf, of "b + 1", folded w2_def]
    note e2 = evolvesD [OF st2(1)]
    have vb: "valid_blk w2 b" using fresh(3) e1(6) e2(6) by simp
    obtain okf w3 where rd: "wrf_data_read w2 b (stack_junk w2) = (okf, vdata (vol_of w2) b, w3)" "evolves w2 w3"
      "vol_of w3 = vol_of w2" using data_read_step [OF e2(2) vb vol_ok_junk [OF e2(2)]] by blast
    note e3 = evolvesD [OF rd(2)]
    define s where "s = splice 0 (take (length buf) buf) (vdata (vol_of w2) b)"
    have ls: "length s = WRF_BLOCK_SIZE" using buf length_vdata [OF e2(2) vb] by (simp add: s_def)
    define w4 where "w4 = wrf_data_write w3 b s"
    have vb3: "valid_blk w3 b" using vb e3(6) by simp
    note st4 = data_write_step [OF e3(2) vb3 ls, folded w4_def]
    note e4 = evolvesD [OF st4(1)]
    have bm: "wrf_bmap w ino zero_inode 0 True = (b + 1, ?di, w2)"
      using z fresh(1) len by (simp add: wrf_bmap_def wrf_bmap_iptr_def w2_def Let_def)
    have ch: "io_chunk 0 0 (length buf) = length buf" using buf by (simp add: io_chunk_def)
    have "wrf_write_loop w ino zero_inode buf 0 0 = wrf_write_loop w4 ino ?di buf 0 (length buf)"
      using buf bm bias_nonzero [OF fresh(2)] rd(1)
      by (simp add: wrf_write_loop.simps [of w] ch w4_def s_def Let_def)
    then have lp: "wrf_write_loop w ino zero_inode buf 0 0 = (length buf, ?di, w4)"
      by (simp add: wrf_write_loop.simps [of w4])
    have i4: "valid_ino w4 ino" using i1 e2(7) e3(7) e4(7) by simp
    have "w' = w4 \<or> (\<exists>x. w' = wrf_inode_write w4 ino (?di\<lparr>di_size := x\<rparr>))"
      using run lp by (auto simp: wrf_raw_write_def Let_def split: if_splits)
    then have "vused (vol_of w') = vused (vol_of w4)"
      using inode_write_step(2) [OF e4(2) i4 wfs] by auto
    then show ?thesis by (auto simp: st4(2) rd(3) st2(2) fresh(6))
  qed
qed

theorem wrf_dir_insert_lookup_witness:
  "let w' = wrf_dir_append sample_vol 2 5 1 ''a'' in dir_lookup w' (wrf_inode_read w' 2) ''a'' = Some 5"
proof -
  obtain n di' w' where wr: "wrf_raw_write sample_vol 2 zero_inode (dirent_bytes (new_dirent 5 1 ''a'')) 0 = (n, di', w')"
    by (metis prod_cases3)
  have "wrf_dir_scan sample_vol 2 zero_inode (\<lambda>cur. de_inode cur = 0) 0 = (None, sample_vol)"
    by (simp add: wrf_dir_scan.simps sample_dir_ok)
  then have w': "wrf_dir_append sample_vol 2 5 1 ''a'' = w'"
    using wr by (simp add: wrf_dir_append_def sample_inode_zero sample_dir_ok Let_def)
  have free: "\<not> vused (vol_of sample_vol) c" for c by (simp add: vused_vol_of sample_vol_def bit_test_def)
  have len: "length (dirent_bytes (new_dirent 5 1 ''a'')) = 72" using new_dirent_wf by simp
  have ino2: "valid_ino sample_vol 2" by (simp add: sample_valid)
  have tree: "tree_ok sample_vol zero_inode" by (rule tree_ok_zero)
  have "\<not> disk_full w'"
  proof
    assume full: "disk_full w'"
    have ev: "evolves sample_vol w'"
      using fstepD(1) [OF wrf_raw_write_correct(1) [OF sample_vol_ok tree ino2 _ wr]] len by simp
    have "valid_blk w' 0" "valid_blk w' 1" using evolvesD(6) [OF ev] by (simp_all add: sample_valid)
    then have u: "vused (vol_of w') 0" "vused (vol_of w') 1" using full by (simp_all add: disk_full_def)
    obtain b where "\<forall>c. vused (vol_of w') c \<longrightarrow> c = b"
      using first_write_used [OF sample_vol_ok ino2 _ _ wr] len free by simp metis
    then have "(0 :: u32) = 1" using u by metis
    then show False by simp
  qed
  moreover have "dir_lookup sample_vol zero_inode ''a'' = None"
    by (simp add: dir_lookup_def sample_dir_ok scan.simps)
  ultimately have "dir_lookup w' (wrf_inode_read w' 2) = (dir_lookup sample_vol zero_inode)(''a'' := Some 5)"
    using wrf_dir_insert_lookup [OF sample_vol_ok ino2 sample_inode_zero [symmetric] sample_dir_ok(1), of "''a''" 5 w' 1]
    by (simp add: sample_dir_ok w' no_nul_def del: fun_upd_apply)
  then show ?thesis by (simp add: w' Let_def)
qed

lemma dirent_wf_of_bytes: "length p = DIRENT_SIZE \<Longrightarrow> dirent_wf (dirent_of_bytes p)"
  by (simp add: dirent_of_bytes_def dirent_wf_def)

lemma tombstone_dead: "de_inode tombstone = 0" "\<not> live m tombstone" "dirent_wf tombstone"
proof -
  show i: "de_inode tombstone = 0" by (simp add: tombstone_def dirent_of_bytes_def get_le32_def)
  then show "\<not> live m tombstone" by (simp add: live_def)
  show "dirent_wf tombstone" unfolding tombstone_def by (rule dirent_wf_of_bytes) simp
qed

lemma dir_lookup_vol:
  assumes "vol_of w' = vol_of w"
  shows "dir_lookup w' di = dir_lookup w di"
  by (intro ext) (simp add: dir_lookup_def dirent_at_def fbyte_vol [OF assms])

text \<open>Removing an entry works like deleting from a map: if no two live entries carry the name,
  then after \<^verbatim>\<open>wrf_dir_remove\<close> the name leads nowhere and every other name leads where it led
  before. It needs no free block, so it also works on a full volume.\<close>

theorem wrf_dir_remove_lookup:
  assumes "vol_ok w" and "valid_ino w ino" and "di = wrf_inode_read w ino" and "dir_ok w di"
    and "\<forall>i j. i < n_ents di \<and> j < n_ents di \<and> live name (dirent_at w di i) \<and> live name (dirent_at w di j) \<longrightarrow> i = j"
    and "w' = wrf_dir_remove w ino name"
  shows "dir_ok w' (wrf_inode_read w' ino) \<and>
    dir_lookup w' (wrf_inode_read w' ino) = (dir_lookup w di)(name := None)"
proof -
  obtain r w1 where find: "wrf_dir_find w ino name = (r, w1)" by (metis prod.exhaust)
  note F = wrf_dir_find_correct [OF assms(1-4) find]
  note e1 = evolvesD [OF F(2)]
  have v1: "valid_ino w1 ino" using assms(2) e1(7) by simp
  have ir1: "wrf_inode_read w1 ino = di"
    using wrf_inode_read_vol [OF e1(2) v1] wrf_inode_read_vol [OF assms(1,2)] assms(3) F(3) by simp
  have d1: "dir_ok w1 di" using dir_ok_same [OF assms(4) F(3) e1(6)] .
  have at1: "dirent_at w1 di = dirent_at w di" by (intro ext) (simp add: dirent_at_def fbyte_vol [OF F(3)])
  show ?thesis
  proof (cases "scan (\<lambda>j. live name (dirent_at w di j)) 0 (n_ents di)")
    case None
    then have "w' = w1" using assms(6) find F(1) by (simp add: wrf_dir_remove_def)
    moreover have "dir_lookup w di name = None" using None by (simp add: dir_lookup_def)
    ultimately show ?thesis using d1 ir1 dir_lookup_vol [OF F(3), of di] by (auto simp: fun_eq_iff)
  next
    case (Some j)
    then have j: "j < n_ents di" "live name (dirent_at w di j)" by (auto dest: scan_SomeD)
    obtain n di' w2 where wr: "wrf_raw_write w1 ino di (dirent_bytes tombstone) (of_nat (DIRENT_SIZE * j)) = (n, di', w2)"
      by (metis prod_cases3)
    have "w' = w2" using assms(6) find F(1) Some ir1 wr by (simp add: wrf_dir_remove_def Let_def)
    have vi: "vino (vol_of w1) ino = di" using wrf_inode_read_vol [OF e1(2) v1] ir1 by simp
    have sz: "unat (di_size di) = DIRENT_SIZE * n_ents di" "unat (di_size di) \<le> MAX_FILE"
      using assms(4) by (auto simp: dir_ok_def n_ents_def)
    have "DIRENT_SIZE * Suc j \<le> unat (di_size di)" unfolding sz(1) using j(1) by (intro mult_le_mono2) simp
    then have lim: "DIRENT_SIZE * j + DIRENT_SIZE \<le> MAX_FILE" using sz(2) by simp
    have full: "j = n_ents di \<longrightarrow> \<not> disk_full w2" using j(1) by simp
    note D = dirent_write [OF e1(2) v1 vi d1 less_imp_le [OF j(1)] tombstone_dead(3) lim refl wr full, folded \<open>w' = w2\<close>]
    have n: "n_ents di' = n_ents di" using D(2) j(1) by simp
    have ir: "wrf_inode_read w' ino = di'"
      using wrf_inode_read_vol [OF D(4)] D(5) evolvesD(7) [OF D(6)] v1 by simp
    have "dir_lookup w' di' m = ((dir_lookup w di)(name := None)) m" for m
    proof (cases "m = name")
      case True
      have "scan (\<lambda>k. live name (dirent_at w' di' k)) 0 (n_ents di') = None"
        using assms(5) j by (auto simp: scan_None_iff D(3) at1 n tombstone_dead)
      then show ?thesis using True by (simp add: dir_lookup_def)
    next
      case False
      have eq: "scan (\<lambda>k. live m (dirent_at w' di' k)) 0 (n_ents di') = scan (\<lambda>k. live m (dirent_at w di k)) 0 (n_ents di)"
        using j(2) False by (intro scan_update [where b = False and j = j])
          (auto simp: D(3) at1 n tombstone_dead live_def j(1))
      have "dirent_at w' di' k = dirent_at w di k" if "live m (dirent_at w di k)" for k
        using that False j(2) by (auto simp: D(3) at1 live_def)
      then show ?thesis using False eq
        by (auto simp: dir_lookup_def dest: scan_SomeD intro!: option.map_cong0 split: option.splits)
    qed
    then show ?thesis using ir D(1) by (auto simp: fun_eq_iff)
  qed
qed

theorem wrf_dir_remove_lookup_witness:
  "let w' = wrf_dir_remove sample_vol 2 ''a'' in dir_lookup w' (wrf_inode_read w' 2) ''a'' = None"
  using wrf_dir_remove_lookup [OF sample_vol_ok _ sample_inode_zero [symmetric] sample_dir_ok(1), of "''a''"]
  by (simp add: sample_valid sample_dir_ok Let_def)

text \<open>Truncating a file and growing it again does not clear it: after \<^verbatim>\<open>wrf_truncate\<close> to any length
  and then to a larger one, reading returns the bytes the file had before the first call. (For
  the file of a ramfs node, growing fills with zero bytes.)\<close>

theorem wrf_truncate_keeps_bytes:
  assumes "vol_ok w" and "valid_ino w (nd_wrf_ino node)" and "di = wrf_inode_read w (nd_wrf_ino node)"
    and "tree_ok w di" and "wrf_truncate w node a = (r1, node1, w1)" and "wrf_truncate w1 node1 b = (r2, node2, w2)"
    and "unat b \<le> 2 ^ 41" and "pos < b"
  shows "fst (wrf_file_read w2 node2 count pos) =
    map (fbyte w di) [unat pos..<unat pos + min count (unat b - unat pos)]"
proof -
  let ?ino = "nd_wrf_ino node"
  have step: "vol_ok v' \<and> valid_ino v' ?ino \<and> tree_ok v' (wrf_inode_read v' ?ino) \<and>
      fbyte v' (wrf_inode_read v' ?ino) = fbyte v (wrf_inode_read v ?ino) \<and> nd_wrf_ino nd' = ?ino \<and> nd_size nd' = x"
    if v: "vol_ok v" "valid_ino v ?ino" "tree_ok v (wrf_inode_read v ?ino)" "nd_wrf_ino nd = ?ino"
      "wrf_truncate v nd x = (r, nd', v')" for v nd x r nd' v'
  proof -
    let ?d = "wrf_inode_read v ?ino"
    let ?d' = "?d\<lparr>di_size := x, di_mtime := ucast (rtc_now v)\<rparr>"
    have wf: "inode_wf ?d'" using v(3) by (simp add: tree_ok_def inode_wf_def)
    have run: "v' = wrf_inode_write v ?ino ?d'" "nd' = nd\<lparr>nd_size := x\<rparr>"
      using v(4,5) by (simp_all add: wrf_truncate_def Let_def)
    note st = inode_write_step [OF v(1,2) wf, folded run(1)]
    note e = evolvesD [OF st(1)]
    have vi: "valid_ino v' ?ino" using e(7) v(2) by simp
    have ir: "wrf_inode_read v' ?ino = ?d'" using wrf_inode_read_vol [OF e(2) vi] by (simp add: st(2))
    have ptr: "get_iptr ?d' p = get_iptr ?d p" for p by (cases p) simp_all
    have sv: "slot_val V ?d' s = slot_val V ?d s" for V s by (cases s) (simp_all add: ptr)
    have "tree_ok v' ?d'" using v(3) wf e(6) unfolding tree_ok_def sv by (simp add: st(2))
    moreover have "fbyte v' ?d' = fbyte v ?d" by (simp add: fbyte_def content_def sv st(2) fun_eq_iff Let_def)
    ultimately show ?thesis using e(2) vi ir run(2) v(4) by simp
  qed
  note S1 = step [OF assms(1,2) _ refl assms(5)]
  have s1: "vol_ok w1" "valid_ino w1 ?ino" "tree_ok w1 (wrf_inode_read w1 ?ino)" "nd_wrf_ino node1 = ?ino"
    "fbyte w1 (wrf_inode_read w1 ?ino) = fbyte w di"
    using S1 assms(3,4) by simp_all
  note S2 = step [OF s1(1-4) assms(6)]
  define n where "n = min count (unat b - unat pos)"
  have lim: "unat pos + n \<le> 2 ^ 41" using assms(7,8) by (simp add: n_def word_less_nat_alt)
  have sub: "unat (b - pos) = unat b - unat pos" using assms(8) by (simp add: unat_sub word_le_nat_alt word_less_nat_alt)
  have "wrf_file_read w2 node2 count pos = wrf_raw_read w2 ?ino (wrf_inode_read w2 ?ino) n pos"
    using S2 assms(8) sub by (simp add: wrf_file_read_def n_def Let_def not_le [symmetric])
  moreover have "fst (wrf_raw_read w2 ?ino (wrf_inode_read w2 ?ino) n pos) =
      map (fbyte w2 (wrf_inode_read w2 ?ino)) [unat pos..<unat pos + n]"
    using wrf_raw_read_correct [OF _ _ lim, of w2 "wrf_inode_read w2 ?ino" ?ino] S2 by auto
  ultimately show ?thesis using S2 s1(5) by (simp add: n_def)
qed

theorem wrf_truncate_keeps_bytes_witness:
  "let node = zero_node\<lparr>nd_wrf_ino := 2\<rparr>; (r1, node1, w1) = wrf_truncate sample_vol node 0;
       (r2, node2, w2) = wrf_truncate w1 node1 10
   in fst (wrf_file_read w2 node2 4 3) = map (fbyte sample_vol zero_inode) [3, 4, 5, 6]"
proof -
  let ?node = "zero_node\<lparr>nd_wrf_ino := 2\<rparr>"
  obtain r1 node1 w1 where t1: "wrf_truncate sample_vol ?node 0 = (r1, node1, w1)" by (metis prod_cases3)
  obtain r2 node2 w2 where t2: "wrf_truncate w1 node1 10 = (r2, node2, w2)" by (metis prod_cases3)
  show ?thesis
    using wrf_truncate_keeps_bytes [OF sample_vol_ok _ _ tree_ok_zero t1 t2, of 3 4] t1 t2
    by (simp add: sample_valid sample_inode_zero upt_conv_Cons)
qed

end
