(* ===== verification/Vfs_Tree.thy ===== *)
theory Vfs_Tree
  imports Vfs_Heap Vfs_Path Wrf
begin

text \<open>
  The file tree and the path-taking operations of \<^verbatim>\<open>kernel/vfs/vfs.c\<close>: lookup, creation, removal,
  renaming, ownership and permissions. The state holds the node heap, the root, the WRF driver that
  persistent directories write through to, the task table and the allocator. An operation returns \<open>None\<close>
  when it would loop forever or follow a dangling pointer, and otherwise the value of the C function with the
  new state; a null pointer result is an inner \<open>None\<close>.
\<close>

section \<open>State\<close>

record task =
  t_pid :: u32
  t_euid :: u32
  t_egid :: u32
  t_cwd :: string
  t_fds :: "nat \<Rightarrow> addr option"

text \<open>\<^verbatim>\<open>kmalloc\<close> is seen through its contract: it returns a null pointer or the address of a block not in
  use. Addresses are handed out in order, and \<open>oom\<close> says which requests fail.\<close>

record vfs =
  nodes :: heap
  g_root :: "addr option"
  wfs :: wrf
  next_addr :: addr
  oom :: "addr \<Rightarrow> bool"
  g_tasks :: "nat \<Rightarrow> task"
  g_current :: "nat option"
  g_shell_session_uid :: u32
  g_shell_session_gid :: u32

definition sched_current :: "'a vfs_scheme \<Rightarrow> task option" where
  "sched_current s = map_option (g_tasks s) (g_current s)"

definition sched_session_ids :: "'a vfs_scheme \<Rightarrow> u32 \<times> u32" where
  "sched_session_ids s = (g_shell_session_uid s, g_shell_session_gid s)"

definition kmalloc :: "'a vfs_scheme \<Rightarrow> addr option \<times> 'a vfs_scheme" where
  "kmalloc s =
     (if oom s (next_addr s) then None else Some (next_addr s), s\<lparr>next_addr := Suc (next_addr s)\<rparr>)"

section \<open>Lookup\<close>

fun walk :: "heap \<Rightarrow> addr \<Rightarrow> string list \<Rightarrow> addr option option" where
  "walk h a [] = Some (Some a)"
| "walk h a (c # cs) =
     (if length c \<ge> VFS_NAME_MAX then Some None
      else do {
        n \<leftarrow> h a;
        if nd_type n \<noteq> VFS_DIR then Some None
        else do {
          r \<leftarrow> dir_find h a c;
          case r of None \<Rightarrow> Some None | Some b \<Rightarrow> walk h b cs } })"

definition lookup_path :: "'a vfs_scheme \<Rightarrow> string \<Rightarrow> string" where
  "lookup_path s path =
     (if take 1 path \<noteq> [slash] then
        vfs_path_resolve (case sched_current s of None \<Rightarrow> [slash] | Some t \<Rightarrow> t_cwd t) path VFS_PATH_MAX
      else path)"

definition vfs_lookup :: "'a vfs_scheme \<Rightarrow> string \<Rightarrow> addr option option" where
  "vfs_lookup s path =
     (let cs = segments (lookup_path s path)
      in if cs = [] then Some (g_root s)
         else do { r \<leftarrow> g_root s; walk (nodes s) r cs })"

section \<open>Identity and permissions\<close>

abbreviation (input) VFS_R_OK :: u32 where "VFS_R_OK \<equiv> 4"
abbreviation (input) VFS_W_OK :: u32 where "VFS_W_OK \<equiv> 2"

definition vfs_caller_ids :: "'a vfs_scheme \<Rightarrow> u32 \<times> u32" where
  "vfs_caller_ids s =
     (case sched_current s of
        None \<Rightarrow> (0, 0)
      | Some cur \<Rightarrow> if t_pid cur = 1 then sched_session_ids s else (t_euid cur, t_egid cur))"

definition vfs_access_ok :: "'a vfs_scheme \<Rightarrow> vfs_node \<Rightarrow> u32 \<Rightarrow> bool" where
  "vfs_access_ok s node want =
     (if sched_current s = None then True
      else
        (let (euid, egid) = vfs_caller_ids s
         in if euid = 0 then True
            else
              (let bits =
                 (if euid = nd_uid node then drop_bit 6 (nd_mode node) AND 7
                  else if egid = nd_gid node then drop_bit 3 (nd_mode node) AND 7
                  else nd_mode node AND 7)
               in bits AND want = want)))"

definition vfs_parent_of :: "'a vfs_scheme \<Rightarrow> string \<Rightarrow> addr option option" where
  "vfs_parent_of s path =
     (case path_split path 256 VFS_NAME_MAX of
        None \<Rightarrow> Some None
      | Some (dir_path, name) \<Rightarrow> vfs_lookup s dir_path)"

section \<open>Creation\<close>

text \<open>The common opening of the four \<^verbatim>\<open>vfs_create_*\<close> functions: the parent directory and the free name.\<close>

definition create_slot :: "'a vfs_scheme \<Rightarrow> string \<Rightarrow> (addr \<times> string) option option" where
  "create_slot s path =
     (case path_split path 256 VFS_NAME_MAX of
        None \<Rightarrow> Some None
      | Some (dir_path, name) \<Rightarrow> do {
          p \<leftarrow> vfs_lookup s dir_path;
          case p of
            None \<Rightarrow> Some None
          | Some parent \<Rightarrow> do {
              pn \<leftarrow> nodes s parent;
              if nd_type pn \<noteq> VFS_DIR then Some None
              else do {
                r \<leftarrow> dir_find (nodes s) parent name;
                Some (if r \<noteq> None then None else Some (parent, name)) } } })"

text \<open>Their common end: allocate, fill in, attach.\<close>

definition new_node :: "'a vfs_scheme \<Rightarrow> vfs_node \<Rightarrow> addr \<Rightarrow> (addr option \<times> 'a vfs_scheme) option" where
  "new_node s n parent =
     (case kmalloc s of
        (None, s1) \<Rightarrow> Some (None, s1)
      | (Some a, s1) \<Rightarrow> do {
          h \<leftarrow> dir_attach ((nodes s1)(a \<mapsto> n)) parent a;
          Some (Some a, s1\<lparr>nodes := h\<rparr>) })"

definition notify_create :: "'a vfs_scheme \<Rightarrow> addr \<Rightarrow> addr \<Rightarrow> 'a vfs_scheme option" where
  "notify_create s parent node = do {
     pn \<leftarrow> nodes s parent;
     n \<leftarrow> nodes s node;
     if nd_wrf_ino pn \<noteq> 0 then
       (case wrf_notify_create (wfs s) pn n of
          (n', w') \<Rightarrow> Some (s\<lparr>nodes := (nodes s)(node \<mapsto> n'), wfs := w'\<rparr>))
     else Some s }"

definition dir_node :: "'a vfs_scheme \<Rightarrow> string \<Rightarrow> vfs_node" where
  "dir_node s name =
     (case vfs_caller_ids s of (u, g) \<Rightarrow>
        zero_node\<lparr>nd_type := VFS_DIR, nd_mode := 0x1ED, nd_uid := u, nd_gid := g, nd_name := name\<rparr>)"

definition file_node :: "'a vfs_scheme \<Rightarrow> string \<Rightarrow> vfs_node" where
  "file_node s name =
     (case vfs_caller_ids s of (u, g) \<Rightarrow>
        zero_node\<lparr>nd_type := VFS_FILE, nd_mode := 0x1A4, nd_uid := u, nd_gid := g, nd_name := name\<rparr>)"

definition create_persistent ::
    "'a vfs_scheme \<Rightarrow> string \<Rightarrow> ('a vfs_scheme \<Rightarrow> string \<Rightarrow> vfs_node) \<Rightarrow> (addr option \<times> 'a vfs_scheme) option" where
  "create_persistent s path mk = do {
     slot \<leftarrow> create_slot s path;
     case slot of
       None \<Rightarrow> Some (None, s)
     | Some (parent, name) \<Rightarrow> do {
         (r, s1) \<leftarrow> new_node s (mk s name) parent;
         case r of
           None \<Rightarrow> Some (None, s1)
         | Some a \<Rightarrow> do { s2 \<leftarrow> notify_create s1 parent a; Some (Some a, s2) } } }"

definition vfs_create_dir :: "'a vfs_scheme \<Rightarrow> string \<Rightarrow> (addr option \<times> 'a vfs_scheme) option" where
  "vfs_create_dir s path = create_persistent s path dir_node"

definition vfs_create_file :: "'a vfs_scheme \<Rightarrow> string \<Rightarrow> (addr option \<times> 'a vfs_scheme) option" where
  "vfs_create_file s path = create_persistent s path file_node"

definition vfs_create_device ::
    "'a vfs_scheme \<Rightarrow> string \<Rightarrow> addr option \<Rightarrow> addr option \<Rightarrow> (addr option \<times> 'a vfs_scheme) option" where
  "vfs_create_device s path ops priv = do {
     slot \<leftarrow> create_slot s path;
     case slot of
       None \<Rightarrow> Some (None, s)
     | Some (parent, name) \<Rightarrow>
         new_node s (zero_node\<lparr>nd_type := VFS_DEVICE, nd_mode := 0x180, nd_ops := ops, nd_priv := priv, nd_name := name\<rparr>) parent }"

definition vfs_create_socket :: "'a vfs_scheme \<Rightarrow> string \<Rightarrow> addr option \<Rightarrow> (addr option \<times> 'a vfs_scheme) option" where
  "vfs_create_socket s path sock = do {
     slot \<leftarrow> create_slot s path;
     case slot of
       None \<Rightarrow> Some (None, s)
     | Some (parent, name) \<Rightarrow>
         new_node s (zero_node\<lparr>nd_type := VFS_SOCKET, nd_mode := 0x1B6, nd_priv := sock, nd_name := name\<rparr>) parent }"

section \<open>Removal and renaming\<close>

text \<open>What both do with a node that left its directory: drop the persistent entry, then free the node
  unless a descriptor still uses it.\<close>

definition drop_node :: "'a vfs_scheme \<Rightarrow> addr \<Rightarrow> addr \<Rightarrow> 'a vfs_scheme option" where
  "drop_node s parent victim = do {
     pn \<leftarrow> nodes s parent;
     n \<leftarrow> nodes s victim;
     let w1 = wrf_notify_detach (wfs s) pn n in
     if nd_open_refs n > 0 then
       Some (s\<lparr>nodes := (nodes s)(victim \<mapsto> n\<lparr>nd_unlinked := True\<rparr>), wfs := w1\<rparr>)
     else
       Some (s\<lparr>nodes := (nodes s)(victim := None), wfs := snd (wrf_notify_free w1 n)\<rparr>) }"

definition vfs_remove :: "'a vfs_scheme \<Rightarrow> string \<Rightarrow> (int \<times> 'a vfs_scheme) option" where
  "vfs_remove s path =
     (case path_split path 256 VFS_NAME_MAX of
        None \<Rightarrow> Some (-1, s)
      | Some (dir_path, name) \<Rightarrow> do {
          p \<leftarrow> vfs_lookup s dir_path;
          case p of
            None \<Rightarrow> Some (-1, s)
          | Some parent \<Rightarrow> do {
              pn \<leftarrow> nodes s parent;
              if nd_type pn \<noteq> VFS_DIR then Some (-1, s)
              else do {
                r \<leftarrow> find_link (nodes s) (\<lambda>a n. nd_name n = name) (LChild parent);
                case r of
                  None \<Rightarrow> Some (-1, s)
                | Some (l, victim) \<Rightarrow> do {
                    n \<leftarrow> nodes s victim;
                    if nd_type n = VFS_DIR \<and> nd_child n \<noteq> None then Some (-1, s)
                    else do {
                      h \<leftarrow> link_set l (nd_sibling n) (nodes s);
                      s2 \<leftarrow> drop_node (s\<lparr>nodes := h\<rparr>) parent victim;
                      Some (0, s2) } } } } })"

text \<open>The checks \<^verbatim>\<open>vfs_rename\<close> makes for each of its two paths: split, find the directory, ask for write
  permission on it.\<close>

definition parent_for_write :: "'a vfs_scheme \<Rightarrow> string \<Rightarrow> (int + addr \<times> string) option" where
  "parent_for_write s path =
     (case path_split path VFS_PATH_MAX VFS_NAME_MAX of
        None \<Rightarrow> Some (Inl (- EINVAL))
      | Some (dir, name) \<Rightarrow> do {
          p \<leftarrow> vfs_lookup s dir;
          case p of
            None \<Rightarrow> Some (Inl (- ENOENT))
          | Some parent \<Rightarrow> do {
              pn \<leftarrow> nodes s parent;
              Some (if nd_type pn \<noteq> VFS_DIR then Inl (- ENOENT)
                    else if \<not> vfs_access_ok s pn VFS_W_OK then Inl (- EACCES)
                    else Inr (parent, name)) } })"

text \<open>The destination that is replaced, and the move itself.\<close>

definition rename_replace :: "'a vfs_scheme \<Rightarrow> addr \<Rightarrow> addr \<Rightarrow> 'a vfs_scheme option" where
  "rename_replace s new_parent existing = do {
     h \<leftarrow> unlink_node (nodes s) new_parent existing;
     drop_node (s\<lparr>nodes := h\<rparr>) new_parent existing }"

definition rename_move :: "'a vfs_scheme \<Rightarrow> addr \<Rightarrow> addr \<Rightarrow> addr \<Rightarrow> string \<Rightarrow> (int \<times> 'a vfs_scheme) option" where
  "rename_move s node old_parent new_parent new_name = do {
     h \<leftarrow> unlink_node (nodes s) old_parent node;
     opn \<leftarrow> h old_parent;
     n \<leftarrow> h node;
     let w2 = wrf_notify_detach (wfs s) opn n in
     if length new_name \<ge> VFS_NAME_MAX then Some (- ENAMETOOLONG, s\<lparr>nodes := h, wfs := w2\<rparr>)
     else do {
       h2 \<leftarrow> upd_node node (\<lambda>n. n\<lparr>nd_name := new_name\<rparr>) h;
       h3 \<leftarrow> dir_attach h2 new_parent node;
       npn \<leftarrow> h3 new_parent;
       n3 \<leftarrow> h3 node;
       let w3 = (if nd_wrf_ino npn \<noteq> 0 \<and> nd_wrf_ino n3 \<noteq> 0 then wrf_notify_attach w2 npn n3 else w2) in
       Some (0, s\<lparr>nodes := h3, wfs := w3\<rparr>) } }"

definition vfs_rename :: "'a vfs_scheme \<Rightarrow> string option \<Rightarrow> string option \<Rightarrow> (int \<times> 'a vfs_scheme) option" where
  "vfs_rename s oldpath newpath =
     (case (oldpath, newpath) of
        (Some oldp, Some newp) \<Rightarrow> do {
          r \<leftarrow> vfs_lookup s oldp;
          case r of
            None \<Rightarrow> Some (- ENOENT, s)
          | Some node \<Rightarrow> do {
              old \<leftarrow> parent_for_write s oldp;
              case old of
                Inl e \<Rightarrow> Some (e, s)
              | Inr (old_parent, old_name) \<Rightarrow> do {
                  new \<leftarrow> parent_for_write s newp;
                  case new of
                    Inl e \<Rightarrow> Some (e, s)
                  | Inr (new_parent, new_name) \<Rightarrow> do {
                      ex \<leftarrow> dir_find (nodes s) new_parent new_name;
                      case ex of
                        None \<Rightarrow> rename_move s node old_parent new_parent new_name
                      | Some e \<Rightarrow>
                          if e = node then rename_move s node old_parent new_parent new_name
                          else do {
                            en \<leftarrow> nodes s e;
                            if nd_type en = VFS_DIR \<and> nd_child en \<noteq> None then Some (- ENOTEMPTY, s)
                            else do {
                              s1 \<leftarrow> rename_replace s new_parent e;
                              rename_move s1 node old_parent new_parent new_name } } } } } }
      | _ \<Rightarrow> Some (- EINVAL, s))"

section \<open>System calls on paths\<close>

text \<open>A null path is \<open>None\<close>. The node's fields are written in place.\<close>

definition upd_vnode :: "addr \<Rightarrow> (vfs_node \<Rightarrow> vfs_node) \<Rightarrow> 'a vfs_scheme \<Rightarrow> 'a vfs_scheme option" where
  "upd_vnode a f s = do { h \<leftarrow> upd_node a f (nodes s); Some (s\<lparr>nodes := h\<rparr>) }"

definition parent_writable :: "'a vfs_scheme \<Rightarrow> string \<Rightarrow> bool option" where
  "parent_writable s path = do {
     p \<leftarrow> vfs_parent_of s path;
     case p of None \<Rightarrow> Some True | Some a \<Rightarrow> do { pn \<leftarrow> nodes s a; Some (vfs_access_ok s pn VFS_W_OK) } }"

definition vfs_mkdir :: "'a vfs_scheme \<Rightarrow> string option \<Rightarrow> u32 \<Rightarrow> (int \<times> 'a vfs_scheme) option" where
  "vfs_mkdir s path mode =
     (case path of
        None \<Rightarrow> Some (- EINVAL, s)
      | Some p \<Rightarrow> do {
          ex \<leftarrow> vfs_lookup s p;
          if ex \<noteq> None then Some (- EEXIST, s)
          else do {
            ok \<leftarrow> parent_writable s p;
            if \<not> ok then Some (- EACCES, s)
            else do {
              (d, s1) \<leftarrow> vfs_create_dir s p;
              case d of
                None \<Rightarrow> Some (- ENOENT, s1)
              | Some a \<Rightarrow>
                  if mode \<noteq> 0 then do { s2 \<leftarrow> upd_vnode a (\<lambda>n. n\<lparr>nd_mode := mode\<rparr>) s1; Some (0, s2) }
                  else Some (0, s1) } } })"

definition vfs_unlink :: "'a vfs_scheme \<Rightarrow> string option \<Rightarrow> (int \<times> 'a vfs_scheme) option" where
  "vfs_unlink s path =
     (case path of
        None \<Rightarrow> Some (- EINVAL, s)
      | Some p \<Rightarrow> do {
          ex \<leftarrow> vfs_lookup s p;
          if ex = None then Some (- ENOENT, s)
          else do {
            ok \<leftarrow> parent_writable s p;
            if \<not> ok then Some (- EACCES, s)
            else do {
              (r, s1) \<leftarrow> vfs_remove s p;
              Some (if r \<noteq> 0 then - EISDIR else 0, s1) } } })"

definition vfs_chmod :: "'a vfs_scheme \<Rightarrow> string option \<Rightarrow> u32 \<Rightarrow> (int \<times> 'a vfs_scheme) option" where
  "vfs_chmod s path mode =
     (case path of
        None \<Rightarrow> Some (- EINVAL, s)
      | Some p \<Rightarrow> do {
          r \<leftarrow> vfs_lookup s p;
          case r of
            None \<Rightarrow> Some (- ENOENT, s)
          | Some a \<Rightarrow> do {
              n \<leftarrow> nodes s a;
              if (case sched_current s of None \<Rightarrow> False | Some cur \<Rightarrow> t_euid cur \<noteq> 0 \<and> t_euid cur \<noteq> nd_uid n)
              then Some (- EPERM, s)
              else do { s1 \<leftarrow> upd_vnode a (\<lambda>n. n\<lparr>nd_mode := mode\<rparr>) s; Some (0, s1) } } })"

definition vfs_chown :: "'a vfs_scheme \<Rightarrow> string option \<Rightarrow> u32 \<Rightarrow> u32 \<Rightarrow> (int \<times> 'a vfs_scheme) option" where
  "vfs_chown s path uid gid =
     (case path of
        None \<Rightarrow> Some (- EINVAL, s)
      | Some p \<Rightarrow> do {
          r \<leftarrow> vfs_lookup s p;
          case r of
            None \<Rightarrow> Some (- ENOENT, s)
          | Some a \<Rightarrow>
              if fst (vfs_caller_ids s) \<noteq> 0 then Some (- EPERM, s)
              else do { s1 \<leftarrow> upd_vnode a (\<lambda>n. n\<lparr>nd_uid := uid, nd_gid := gid\<rparr>) s; Some (0, s1) } })"

text \<open>The outputs of \<^verbatim>\<open>vfs_fstat\<close> and \<^verbatim>\<open>vfs_stat_path\<close>: size, mode, type and inode number.\<close>

type_synonym vstat = "u64 \<times> u32 \<times> vtype \<times> addr"

definition vfs_stat_path :: "'a vfs_scheme \<Rightarrow> string \<Rightarrow> (int + vstat) option" where
  "vfs_stat_path s path = do {
     r \<leftarrow> vfs_lookup s path;
     case r of
       None \<Rightarrow> Some (Inl (- ENOENT))
     | Some a \<Rightarrow> do { n \<leftarrow> nodes s a; Some (Inr (nd_size n, nd_mode n, nd_type n, a)) } }"

definition vfs_access_path :: "'a vfs_scheme \<Rightarrow> string \<Rightarrow> u32 \<Rightarrow> int option" where
  "vfs_access_path s path mode = do {
     r \<leftarrow> vfs_lookup s path;
     case r of
       None \<Rightarrow> Some (- ENOENT)
     | Some a \<Rightarrow> do {
         n \<leftarrow> nodes s a;
         Some (if mode \<noteq> 0 \<and> \<not> vfs_access_ok s n mode then - EACCES else 0) } }"

text \<open>\<^verbatim>\<open>vfs_node_path\<close>: at most 64 parents are followed; the names are then printed from the root down.\<close>

fun parent_chain :: "'a vfs_scheme \<Rightarrow> nat \<Rightarrow> addr option \<Rightarrow> string list \<Rightarrow> (addr option \<times> string list) option" where
  "parent_chain s k cur names =
     (if cur = None \<or> cur = g_root s then Some (cur, names)
      else (case k of
              0 \<Rightarrow> Some (cur, names)
            | Suc k' \<Rightarrow> do { n \<leftarrow> nodes s (the cur); parent_chain s k' (nd_parent n) (nd_name n # names) }))"

fun print_chain :: "nat \<Rightarrow> string list \<Rightarrow> string option" where
  "print_chain left [] = (if left < 1 then None else Some [])"
| "print_chain left (s # ss) =
     (if left > 1 then
        (if length s + 1 \<ge> left then None
         else map_option (\<lambda>r. slash # s @ r) (print_chain (left - 1 - length s) ss))
      else if left < 1 then None else Some [])"

definition vfs_node_path :: "'a vfs_scheme \<Rightarrow> addr \<Rightarrow> nat \<Rightarrow> string option option" where
  "vfs_node_path s node outsz =
     (if Some node = g_root s then Some (if outsz < 2 then None else Some [slash])
      else do {
        (cur, names) \<leftarrow> parent_chain s 64 (Some node) [];
        Some (if cur \<noteq> g_root s then None else print_chain outsz names) })"

section \<open>Boot\<close>

definition ensure_dir :: "'a vfs_scheme \<Rightarrow> string \<Rightarrow> 'a vfs_scheme option" where
  "ensure_dir s path = do {
     r \<leftarrow> vfs_lookup s path;
     case r of
       None \<Rightarrow> do { (a, s1) \<leftarrow> vfs_create_dir s path; Some s1 }
     | Some a \<Rightarrow> Some s }"

definition vfs_init :: "'a vfs_scheme \<Rightarrow> 'a vfs_scheme" where
  "vfs_init s =
     (case kmalloc s of
        (None, s1) \<Rightarrow> s1\<lparr>g_root := None\<rparr>
      | (Some a, s1) \<Rightarrow>
          s1\<lparr>g_root := Some a,
             nodes := (nodes s1)(a \<mapsto> zero_node\<lparr>nd_type := VFS_DIR, nd_mode := 0x1ED, nd_name := [slash]\<rparr>)\<rparr>)"

end
