(* ===== verification/Vfs_Inv.thy ===== *)
theory Vfs_Inv
  imports Vfs_Tree
begin

text \<open>
  The invariant of the file tree and its refinement to the abstract file system, a map from directories to
  maps from names to nodes. Every operation of \<open>Vfs_Tree\<close> is shown to return on a state with the invariant,
  to keep it, and to change the abstract file system as its name says.
\<close>

section \<open>Invariant\<close>

definition in_tree :: "addr \<Rightarrow> (addr \<Rightarrow> addr list) \<Rightarrow> addr \<Rightarrow> bool" where
  "in_tree r kids a \<longleftrightarrow> a = r \<or> \<not> orphan kids a"

text \<open>Beside the tree: addresses in use are below the allocator's next one, and a node marked unlinked is
  out of the tree and has no children.\<close>

definition heap_inv :: "heap \<Rightarrow> addr \<Rightarrow> (addr \<Rightarrow> addr list) \<Rightarrow> addr \<Rightarrow> bool" where
  "heap_inv h r kids nx \<longleftrightarrow> tree h r kids \<and> (\<forall>a. h a \<noteq> None \<longrightarrow> a < nx) \<and>
     (\<forall>a n. h a = Some n \<longrightarrow> nd_unlinked n \<longrightarrow> \<not> in_tree r kids a \<and> kids a = [])"

definition vfs_ok :: "'a vfs_scheme \<Rightarrow> bool" where
  "vfs_ok s \<longleftrightarrow> (\<exists>r kids. g_root s = Some r \<and> heap_inv (nodes s) r kids (next_addr s))"

lemma heap_invD:
  assumes "heap_inv h r kids nx"
  shows "tree h r kids" "h a = Some n \<Longrightarrow> a < nx" "nx \<le> a \<Longrightarrow> h a = None"
    "h a = Some n \<Longrightarrow> nd_unlinked n \<Longrightarrow> \<not> in_tree r kids a \<and> kids a = []"
  using assms unfolding heap_inv_def by (auto simp: not_less [symmetric])

lemma vfs_okE:
  assumes "vfs_ok s"
  obtains r kids where "g_root s = Some r" "heap_inv (nodes s) r kids (next_addr s)" "tree (nodes s) r kids"
  using assms by (auto simp: vfs_ok_def heap_inv_def)

lemma in_tree_node: "tree h r kids \<Longrightarrow> in_tree r kids a \<Longrightarrow> \<exists>n. h a = Some n"
  unfolding in_tree_def orphan_def by (metis treeD(4,6))

lemma in_tree_kid: "c \<in> set (kids d) \<Longrightarrow> in_tree r kids c"
  by (auto simp: in_tree_def orphan_def)

section \<open>Lookup\<close>

lemma dirmap_long: "tree h r kids \<Longrightarrow> dirmap h d = Some m \<Longrightarrow> VFS_NAME_MAX \<le> length c \<Longrightarrow> m c = None"
proof (rule ccontr)
  assume t: "tree h r kids" and m: "dirmap h d = Some m" and l: "VFS_NAME_MAX \<le> length c" and "m c \<noteq> None"
  then obtain b where "b \<in> set (kids d)" "name_of h b = Some c" using dirmap_SomeD(2) [OF t m] by blast
  then show False using treeD(4) [OF t] l by (force simp: name_of_def name_ok_def)
qed

lemma dir_find_dirmap:
  assumes "tree h r kids" "dirmap h d = Some m"
  shows "dir_find h d nm = Some (m nm)"
proof -
  obtain n where n: "h d = Some n" using dirmap_SomeD(1) [OF assms] by (auto simp: dir_at_def split: option.splits)
  then show ?thesis
    using dir_find_tree [OF assms(1) n] assms(2) dirmap_SomeD(1) [OF assms] by (simp add: dirmap_tree [OF assms(1)]) auto
qed

text \<open>The walk of \<^verbatim>\<open>vfs_lookup\<close> always returns, and returns what the abstract file system says.\<close>

lemma walk_tree:
  assumes "tree h r kids" "in_tree r kids a"
  shows "walk h a cs = Some (awalk (dirmap h) a cs)"
  using assms(2)
proof (induction cs arbitrary: a)
  case (Cons c cs)
  obtain n where n: "h a = Some n" using in_tree_node [OF assms(1) Cons.prems] by blast
  show ?case
  proof (cases "nd_type n = VFS_DIR")
    case False
    then have "dirmap h a = None" using n by (simp add: dirmap_def dir_at_def)
    then show ?thesis using n False by simp
  next
    case True
    then obtain m where m: "dirmap h a = Some m" using n by (simp add: dirmap_def dir_at_def)
    have "walk h b cs = Some (awalk (dirmap h) b cs)" if "m c = Some b" for b
      using that dirmap_SomeD(2) [OF assms(1) m] in_tree_kid by (intro Cons.IH) blast
    then show ?thesis
      using n True m dirmap_long [OF assms(1) m] dir_find_dirmap [OF assms(1) m, of c] by (auto split: option.splits)
  qed
qed simp

lemma awalk_in_tree:
  assumes "tree h r kids" "in_tree r kids a" "awalk (dirmap h) a cs = Some b"
  shows "in_tree r kids b"
  using assms(2,3)
proof (induction cs arbitrary: a)
  case (Cons c cs)
  then obtain m b' where "dirmap h a = Some m" "m c = Some b'" "awalk (dirmap h) b' cs = Some b"
    by (auto split: option.splits)
  then show ?case using Cons.IH dirmap_SomeD(2) [OF assms(1)] in_tree_kid by metis
qed simp

lemma awalk_append: "awalk D a (xs @ ys) = (case awalk D a xs of None \<Rightarrow> None | Some b \<Rightarrow> awalk D b ys)"
  by (induction xs arbitrary: a) (auto split: option.splits)

definition abs_lookup :: "'a vfs_scheme \<Rightarrow> string \<Rightarrow> addr option" where
  "abs_lookup s path =
     (case g_root s of None \<Rightarrow> None | Some r \<Rightarrow> awalk (dirmap (nodes s)) r (segments (lookup_path s path)))"

lemma vfs_lookup_eq:
  assumes "vfs_ok s"
  shows "vfs_lookup s path = Some (abs_lookup s path)"
proof -
  obtain r kids where r: "g_root s = Some r" "tree (nodes s) r kids" using assms by (elim vfs_okE)
  show ?thesis
    using r(1) walk_tree [OF r(2), of r] by (cases "segments (lookup_path s path)")
      (simp_all add: vfs_lookup_def abs_lookup_def in_tree_def Let_def del: walk.simps(2) awalk.simps(2))
qed

lemma abs_lookup_in_tree:
  assumes "g_root s = Some r" "tree (nodes s) r kids" "abs_lookup s path = Some a"
  shows "in_tree r kids a"
  using assms awalk_in_tree [OF assms(2), of r] by (simp add: abs_lookup_def in_tree_def)

lemma abs_lookup_node:
  assumes "vfs_ok s" "abs_lookup s path = Some a"
  obtains n where "nodes s a = Some n"
proof -
  obtain r kids where r: "g_root s = Some r" "tree (nodes s) r kids" using assms(1) by (elim vfs_okE)
  then show ?thesis using that in_tree_node [OF r(2)] abs_lookup_in_tree [OF r assms(2)] by blast
qed

text \<open>An absolute path is looked up as its directory, then the name in it.\<close>

lemma abs_lookup_split:
  assumes "take 1 path = [slash]" "path_split path ds ns = Some (dir, name)"
  shows "abs_lookup s path =
     (case abs_lookup s dir of None \<Rightarrow> None
      | Some d \<Rightarrow> (case dirmap (nodes s) d of None \<Rightarrow> None | Some m \<Rightarrow> m name))"
proof -
  have one: "awalk D d [nm] = (case D d of None \<Rightarrow> None | Some m \<Rightarrow> m nm)" for D d nm
    by (auto split: option.splits)
  note path_split_absolute [OF assms]
  then show ?thesis
    using assms(1) by (cases "g_root s") (simp_all add: abs_lookup_def lookup_path_def awalk_append one split: option.splits)
qed

section \<open>Steps that keep the invariant\<close>

lemma heap_inv_shape:
  assumes "heap_inv h r kids nx" "h a = Some n" "same_shape n m" "nd_unlinked m = nd_unlinked n"
  shows "heap_inv (h(a \<mapsto> m)) r kids nx"
  using assms tree_upd_shape [OF heap_invD(1) [OF assms(1)] assms(2,3)]
  unfolding heap_inv_def by (auto split: if_splits)

lemma heap_inv_add:
  assumes "heap_inv h r kids nx" "nd_child n = None" "\<not> nd_unlinked n" "nx \<le> a"
  shows "heap_inv (h(a \<mapsto> n)) r kids (Suc a)"
  using assms tree_add [OF heap_invD(1) [OF assms(1)] heap_invD(3) [OF assms(1,4)] assms(2)]
  unfolding heap_inv_def by (auto split: if_splits simp: less_Suc_eq)

lemma heap_inv_attach:
  assumes i: "heap_inv h r kids nx" and d: "h d = Some dn" "nd_type dn = VFS_DIR" "\<not> nd_unlinked dn"
    and a: "h a = Some n" "\<not> nd_unlinked n" and o: "orphan kids a" and "name_ok (nd_name n)" "a \<noteq> r"
    and "\<And>c. c \<in> set (kids d) \<Longrightarrow> name_of h c \<noteq> Some (nd_name n)"
  shows "heap_inv (attached h d a dn n) r (kids(d := a # kids d)) nx"
proof -
  have t: "tree (attached h d a dn n) r (kids(d := a # kids d))"
    using assms by (intro tree_attach heap_invD(1) [OF i]) auto
  have u: "\<not> in_tree r (kids(d := a # kids d)) b \<and> (kids(d := a # kids d)) b = []"
    if m: "attached h d a dn n b = Some m" "nd_unlinked m" for b m
  proof -
    have "b \<noteq> a" "b \<noteq> d" and hb: "h b = Some m" using m d a by (auto simp: attached_def split: if_splits)
    then show ?thesis using heap_invD(4) [OF i hb m(2)] by (auto simp: in_tree_def orphan_def)
  qed
  have "\<forall>b. attached h d a dn n b \<noteq> None \<longrightarrow> b < nx"
    using heap_invD(2) [OF i] by (auto simp: attached_dom [OF d(1) a(1)])
  then show ?thesis using t u by (auto simp: heap_inv_def)
qed

lemma heap_inv_detach:
  assumes i: "heap_inv h r kids nx" and a: "a \<in> set (kids d)" "h a = Some n" and d: "h d = Some dn"
  obtains h' xs ys where "kids d = xs @ a # ys" "link_set (cut_link d xs) (nd_sibling n) h = Some h'"
    "heap_inv h' r (kids(d := xs @ ys)) nx" "orphan (kids(d := xs @ ys)) a"
    "\<And>b. map_option body (h' b) = map_option body (h b)" "\<And>b. b \<noteq> d \<Longrightarrow> map_option nd_child (h' b) = map_option nd_child (h b)"
proof -
  obtain xs ys where k: "kids d = xs @ a # ys" using a(1) by (metis split_list)
  obtain h' where h': "link_set (cut_link d xs) (nd_sibling n) h = Some h'" "tree h' r (kids(d := xs @ ys))"
    "orphan (kids(d := xs @ ys)) a" "\<And>b. map_option body (h' b) = map_option body (h b)"
    "\<And>b. b \<noteq> d \<Longrightarrow> map_option nd_child (h' b) = map_option nd_child (h b)"
    by (rule tree_detach [OF heap_invD(1) [OF i] k d a(2)]) metis+
  have "heap_inv h' r (kids(d := xs @ ys)) nx"
    unfolding heap_inv_def
  proof (intro conjI allI impI)
    show "tree h' r (kids(d := xs @ ys))" by (rule h'(2))
    show "b < nx" if "h' b \<noteq> None" for b using that h'(4) [of b] heap_invD(2) [OF i, of b] by (cases "h b") auto
    fix b m assume m: "h' b = Some m" "nd_unlinked m"
    then obtain m' where m': "h b = Some m'" "body m = body m'" using h'(4) [of b] by (cases "h b") auto
    note u = heap_invD(4) [OF i m'(1)]
    show "\<not> in_tree r (kids(d := xs @ ys)) b" using u m(2) body_eqD(6) [OF m'(2)] k by (auto simp: in_tree_def orphan_def split: if_splits dest: spec [of _ d])
    show "(kids(d := xs @ ys)) b = []" using u m(2) body_eqD(6) [OF m'(2)] k by auto
  qed
  then show ?thesis using that k h' by blast
qed

text \<open>An orphan is marked, renamed or freed.\<close>

lemma heap_inv_mark:
  assumes i: "heap_inv h r kids nx" and "orphan kids a" "h a = Some n" "a \<noteq> r" "kids a = []"
  shows "heap_inv (h(a \<mapsto> n\<lparr>nd_unlinked := True\<rparr>)) r kids nx"
  using assms tree_upd_shape [OF heap_invD(1) [OF i] assms(3), of "n\<lparr>nd_unlinked := True\<rparr>"]
  unfolding heap_inv_def by (auto simp: same_shape_def in_tree_def split: if_splits)

lemma heap_inv_free:
  assumes i: "heap_inv h r kids nx" and "orphan kids a" "a \<noteq> r" "kids a = []"
  shows "heap_inv (h(a := None)) r kids nx"
  using assms tree_free [OF heap_invD(1) [OF i] assms(2) assms(4,3)] unfolding heap_inv_def by auto

lemma heap_inv_rename:
  assumes i: "heap_inv h r kids nx" and "orphan kids a" "h a = Some n"
  shows "heap_inv (h(a \<mapsto> n\<lparr>nd_name := nm\<rparr>)) r kids nx"
  using assms tree_rename_orphan [OF heap_invD(1) [OF i] assms(2,3)] unfolding heap_inv_def by (auto split: if_splits)

section \<open>Creation\<close>

definition abs_slot :: "'a vfs_scheme \<Rightarrow> string \<Rightarrow> (addr \<times> string) option" where
  "abs_slot s path =
     (case path_split path 256 VFS_NAME_MAX of
        None \<Rightarrow> None
      | Some (dir, name) \<Rightarrow>
          (case abs_lookup s dir of
             None \<Rightarrow> None
           | Some p \<Rightarrow>
               (case dirmap (nodes s) p of
                  None \<Rightarrow> None
                | Some m \<Rightarrow> if m name \<noteq> None then None else Some (p, name))))"

lemma dirmap_node:
  "nodes s p = Some n \<Longrightarrow> dirmap (nodes s) p = None \<longleftrightarrow> nd_type n \<noteq> VFS_DIR"
  by (simp add: dirmap_def dir_at_def)

lemma create_slot_eq:
  assumes "vfs_ok s"
  shows "create_slot s path = Some (abs_slot s path)"
proof -
  obtain r kids where r: "g_root s = Some r" "tree (nodes s) r kids" using assms by (elim vfs_okE)
  show ?thesis
  proof (cases "path_split path 256 VFS_NAME_MAX")
    case (Some dn)
    obtain dir name where dn: "dn = (dir, name)" by fastforce
    show ?thesis
    proof (cases "abs_lookup s dir")
      case None
      then show ?thesis using Some dn by (simp add: create_slot_def abs_slot_def vfs_lookup_eq [OF assms])
    next
      case p: (Some p)
      obtain n where n: "nodes s p = Some n" using abs_lookup_node [OF assms p] .
      show ?thesis
      proof (cases "dirmap (nodes s) p")
        case None
        then show ?thesis using Some dn p n dirmap_node [OF n]
          by (simp add: create_slot_def abs_slot_def vfs_lookup_eq [OF assms])
      next
        case m: (Some m)
        then show ?thesis using Some dn p n dirmap_node [OF n] dir_find_dirmap [OF r(2) m]
          by (simp add: create_slot_def abs_slot_def vfs_lookup_eq [OF assms])
      qed
    qed
  qed (simp add: create_slot_def abs_slot_def)
qed

lemma abs_slotE:
  assumes "abs_slot s path = Some (p, name)"
  obtains dir m where "path_split path 256 VFS_NAME_MAX = Some (dir, name)" "abs_lookup s dir = Some p"
    "dirmap (nodes s) p = Some m" "m name = None"
  using assms by (auto simp: abs_slot_def split: option.splits prod.splits if_splits)

text \<open>A successful creation adds one name to one directory; the new node itself is empty.\<close>

definition with_entry :: "dirs \<Rightarrow> addr \<Rightarrow> string \<Rightarrow> addr \<Rightarrow> bool \<Rightarrow> dirs" where
  "with_entry D p name a isdir =
     (\<lambda>d. if d = a then (if isdir then Some Map.empty else None)
          else if d = p then map_option (\<lambda>m. m(name \<mapsto> a)) (D p)
          else D d)"

lemma new_node_at:
  assumes ok: "vfs_ok s" and pn: "nodes s p = Some pn" "\<not> nd_unlinked pn"
    and m: "dirmap (nodes s) p = Some m" "m (nd_name n) = None" and nm: "name_ok (nd_name n)"
    and n: "nd_child n = None" "\<not> nd_unlinked n" and mem: "\<not> oom s (next_addr s)"
  obtains s' n' where "new_node s n p = Some (Some (next_addr s), s')" "vfs_ok s'" "nodes s (next_addr s) = None"
    "dirmap (nodes s') = with_entry (dirmap (nodes s)) p (nd_name n) (next_addr s) (nd_type n = VFS_DIR)"
    "nodes s' (next_addr s) = Some n'" "body n' = body (n\<lparr>nd_parent := Some p\<rparr>)"
    "\<And>b. b \<noteq> next_addr s \<Longrightarrow> map_option body (nodes s' b) = map_option body (nodes s b)"
    "s' = s\<lparr>nodes := nodes s', next_addr := Suc (next_addr s)\<rparr>"
proof -
  let ?a = "next_addr s"
  obtain r kids where r: "g_root s = Some r" and i: "heap_inv (nodes s) r kids ?a" and t: "tree (nodes s) r kids"
    using ok by (elim vfs_okE)
  have pd: "nd_type pn = VFS_DIR" using dirmap_SomeD(1) [OF t m(1)] pn by (simp add: dir_at_def)
  have fresh: "nodes s ?a = None" using heap_invD(3) [OF i] by simp
  then have pa: "p \<noteq> ?a" using pn by auto
  let ?h = "(nodes s)(?a \<mapsto> n)"
  have i1: "heap_inv ?h r kids (Suc ?a)" using n by (intro heap_inv_add [OF i]) auto
  note t1 = heap_invD(1) [OF i1]
  have o: "orphan kids ?a" by (rule tree_fresh_orphan [OF t fresh])
  have ra: "?a \<noteq> r" using treeD(6) [OF t] fresh by auto
  have new: "name_of ?h c \<noteq> Some (nd_name n)" if "c \<in> set (kids p)" for c
    using that dirmap_SomeD(2) [OF t m(1), of "nd_name n" c] m(2) o by (auto simp: name_of_def orphan_def)
  have pn1: "?h p = Some pn" and na: "?h ?a = Some n" using pn pa by auto
  let ?h' = "attached ?h p ?a pn n"
  have i2: "heap_inv ?h' r (kids(p := ?a # kids p)) (Suc ?a)"
    using pn pd n o ra nm new by (intro heap_inv_attach [OF i1 pn1 _ _ na]) (auto simp: fun_upd_def)
  have D1: "dirmap ?h = (dirmap (nodes s))(?a := if nd_type n = VFS_DIR then Some Map.empty else None)"
    by (rule dirmap_add [OF t fresh n(1)])
  have D2: "dirmap ?h' = (dirmap ?h)(p \<mapsto> m(nd_name n \<mapsto> ?a))"
    using dirmap_attach [OF t1 pn1 _ na heap_invD(1) [OF i2] o, of m] D1 m(1) pa by simp
  let ?s = "s\<lparr>nodes := ?h', next_addr := Suc ?a\<rparr>"
  have "new_node s n p = Some (Some ?a, ?s)"
    using mem by (simp add: new_node_def kmalloc_def dir_attach_eq [of ?h p pn ?a n, OF pn1 na])
  moreover have "vfs_ok ?s" using i2 r by (auto simp: vfs_ok_def)
  moreover have "dirmap ?h' = with_entry (dirmap (nodes s)) p (nd_name n) ?a (nd_type n = VFS_DIR)"
    unfolding D2 D1 using m(1) pa by (auto simp: with_entry_def fun_eq_iff)
  moreover have "\<exists>n'. ?h' ?a = Some n' \<and> body n' = body (n\<lparr>nd_parent := Some p\<rparr>)"
    using pa by (simp add: attached_def body_def)
  moreover have "map_option body (?h' b) = map_option body (nodes s b)" if "b \<noteq> ?a" for b
    using that pn pa by (simp add: attached_def body_def)
  ultimately show ?thesis using that [of ?s] fresh by auto
qed

lemma abs_slot_dir:
  assumes ok: "vfs_ok s" and slot: "abs_slot s path = Some (p, name)"
  obtains pn m where "nodes s p = Some pn" "\<not> nd_unlinked pn" "dirmap (nodes s) p = Some m" "m name = None" "name_ok name"
proof -
  obtain r kids where r: "g_root s = Some r" and i: "heap_inv (nodes s) r kids (next_addr s)" and t: "tree (nodes s) r kids"
    using ok by (elim vfs_okE)
  obtain dir m where sp: "path_split path 256 VFS_NAME_MAX = Some (dir, name)" and lk: "abs_lookup s dir = Some p"
    and m: "dirmap (nodes s) p = Some m" "m name = None" using slot by (elim abs_slotE)
  have pt: "in_tree r kids p" by (rule abs_lookup_in_tree [OF r t lk])
  obtain pn where pn: "nodes s p = Some pn"
    using dirmap_SomeD(1) [OF t m(1)] by (auto simp: dir_at_def split: option.splits)
  have "\<not> nd_unlinked pn" using heap_invD(4) [OF i pn] pt by auto
  moreover have "name_ok name" using path_split_name [OF sp] by (simp add: name_ok_def)
  ultimately show ?thesis using that pn m by blast
qed

lemma new_node_step:
  assumes ok: "vfs_ok s" and slot: "abs_slot s path = Some (p, name)"
    and n: "nd_name n = name" "nd_child n = None" "\<not> nd_unlinked n" and mem: "\<not> oom s (next_addr s)"
  obtains s' n' where "new_node s n p = Some (Some (next_addr s), s')" "vfs_ok s'" "nodes s (next_addr s) = None"
    "dirmap (nodes s') = with_entry (dirmap (nodes s)) p name (next_addr s) (nd_type n = VFS_DIR)"
    "nodes s' (next_addr s) = Some n'" "body n' = body (n\<lparr>nd_parent := Some p\<rparr>)"
    "\<And>b. b \<noteq> next_addr s \<Longrightarrow> map_option body (nodes s' b) = map_option body (nodes s b)"
    "s' = s\<lparr>nodes := nodes s', next_addr := Suc (next_addr s)\<rparr>"
proof -
  obtain pn m where pn: "nodes s p = Some pn" "\<not> nd_unlinked pn" "dirmap (nodes s) p = Some m" "m name = None" "name_ok name"
    by (rule abs_slot_dir [OF ok slot])
  from new_node_at [OF ok pn(1-3), of n] pn(4,5) n mem that show ?thesis by auto
qed

lemma new_node_oom: "oom s (next_addr s) \<Longrightarrow> new_node s n p = Some (None, s\<lparr>next_addr := Suc (next_addr s)\<rparr>)"
  by (simp add: new_node_def kmalloc_def)

lemma vfs_ok_next: "vfs_ok s \<Longrightarrow> vfs_ok (s\<lparr>next_addr := Suc (next_addr s)\<rparr>)"
  by (auto simp: vfs_ok_def heap_inv_def less_Suc_eq)

text \<open>Updates of a node's attributes.\<close>

lemma vfs_ok_shape:
  assumes "vfs_ok s" "nodes s a = Some n" "same_shape n m" "nd_unlinked m = nd_unlinked n"
  shows "vfs_ok (s\<lparr>nodes := (nodes s)(a \<mapsto> m)\<rparr>)" "dirmap ((nodes s)(a \<mapsto> m)) = dirmap (nodes s)"
proof -
  obtain r kids where r: "g_root s = Some r" "heap_inv (nodes s) r kids (next_addr s)" "tree (nodes s) r kids"
    using assms(1) by (elim vfs_okE)
  show "vfs_ok (s\<lparr>nodes := (nodes s)(a \<mapsto> m)\<rparr>)"
    using r heap_inv_shape [OF r(2) assms(2-4)] by (auto simp: vfs_ok_def)
  show "dirmap ((nodes s)(a \<mapsto> m)) = dirmap (nodes s)" by (rule dirmap_shape [OF r(3) assms(2,3)])
qed

lemma vfs_ok_wfs [simp]: "vfs_ok (s\<lparr>wfs := w\<rparr>) = vfs_ok s"
  by (simp add: vfs_ok_def)

lemma notify_create_shape:
  "wrf_notify_create w pn n = (n', w') \<Longrightarrow> same_shape n n' \<and> nd_unlinked n' = nd_unlinked n \<and> n' = n\<lparr>nd_wrf_ino := nd_wrf_ino n'\<rparr>"
  by (auto simp: wrf_notify_create_def same_shape_def Let_def split: if_splits prod.splits)

lemma notify_create_step:
  assumes ok: "vfs_ok s" and p: "nodes s p = Some pn" and a: "nodes s a = Some n"
  obtains s' i where "notify_create s p a = Some s'" "vfs_ok s'" "dirmap (nodes s') = dirmap (nodes s)"
    "nodes s' = (nodes s)(a \<mapsto> n\<lparr>nd_wrf_ino := i\<rparr>)" "s' = s\<lparr>nodes := nodes s', wfs := wfs s'\<rparr>"
proof (cases "nd_wrf_ino pn = 0")
  case True
  show ?thesis using that [of s "nd_wrf_ino n"] p a ok True by (simp add: notify_create_def fun_upd_idem)
next
  case False
  obtain n' w' where nc: "wrf_notify_create (wfs s) pn n = (n', w')" by fastforce
  note sh = notify_create_shape [OF nc]
  show ?thesis
    using that [of "s\<lparr>nodes := (nodes s)(a \<mapsto> n'), wfs := w'\<rparr>" "nd_wrf_ino n'"] vfs_ok_shape [OF ok a, of n'] sh p a False nc
    by (simp add: notify_create_def)
qed

lemma body_unlinked: "body n = body m \<Longrightarrow> body (n\<lparr>nd_unlinked := u\<rparr>) = body (m\<lparr>nd_unlinked := u\<rparr>)"
  by (cases n, cases m) (simp add: body_def)

lemma body_wrf_ino: "body n = body m \<Longrightarrow> body (n\<lparr>nd_wrf_ino := i\<rparr>) = body (m\<lparr>nd_wrf_ino := i\<rparr>)"
  by (cases n, cases m) (simp add: body_def)

text \<open>\<^verbatim>\<open>vfs_create_dir\<close> and \<^verbatim>\<open>vfs_create_file\<close>.\<close>

lemma create_persistent_step:
  assumes ok: "vfs_ok s" and slot: "abs_slot s path = Some (p, name)" and mem: "\<not> oom s (next_addr s)"
    and n: "nd_name (mk s name) = name" "nd_child (mk s name) = None" "\<not> nd_unlinked (mk s name)"
  obtains s' n' where "create_persistent s path mk = Some (Some (next_addr s), s')" "vfs_ok s'" "nodes s (next_addr s) = None"
    "dirmap (nodes s') = with_entry (dirmap (nodes s)) p name (next_addr s) (nd_type (mk s name) = VFS_DIR)"
    "nodes s' (next_addr s) = Some n'" "body n' = body ((mk s name)\<lparr>nd_parent := Some p, nd_wrf_ino := nd_wrf_ino n'\<rparr>)"
    "\<And>b. b \<noteq> next_addr s \<Longrightarrow> map_option body (nodes s' b) = map_option body (nodes s b)"
    "s' = s\<lparr>nodes := nodes s', next_addr := Suc (next_addr s), wfs := wfs s'\<rparr>"
proof -
  obtain s1 n1 where s1: "new_node s (mk s name) p = Some (Some (next_addr s), s1)" "vfs_ok s1" "nodes s (next_addr s) = None"
    "dirmap (nodes s1) = with_entry (dirmap (nodes s)) p name (next_addr s) (nd_type (mk s name) = VFS_DIR)"
    "nodes s1 (next_addr s) = Some n1" "body n1 = body ((mk s name)\<lparr>nd_parent := Some p\<rparr>)"
    "\<And>b. b \<noteq> next_addr s \<Longrightarrow> map_option body (nodes s1 b) = map_option body (nodes s b)"
    "s1 = s\<lparr>nodes := nodes s1, next_addr := Suc (next_addr s)\<rparr>"
    by (rule new_node_step [OF ok slot n mem]) metis+
  obtain pn where "nodes s p = Some pn" using slot abs_lookup_node [OF ok] by (elim abs_slotE) blast
  then obtain pn1 where pn1: "nodes s1 p = Some pn1" using s1(3) s1(7) [of p] by (cases "nodes s1 p"; cases "p = next_addr s") auto
  obtain s2 i where s2: "notify_create s1 p (next_addr s) = Some s2" "vfs_ok s2" "dirmap (nodes s2) = dirmap (nodes s1)"
    "nodes s2 = (nodes s1)(next_addr s \<mapsto> n1\<lparr>nd_wrf_ino := i\<rparr>)" "s2 = s1\<lparr>nodes := nodes s2, wfs := wfs s2\<rparr>"
    by (rule notify_create_step [OF s1(2) pn1 s1(5)])
  have b: "body (n1\<lparr>nd_wrf_ino := i\<rparr>) = body ((mk s name)\<lparr>nd_parent := Some p, nd_wrf_ino := i\<rparr>)"
    using body_wrf_ino [OF s1(6)] by simp
  have e: "s2 = s\<lparr>nodes := nodes s2, next_addr := Suc (next_addr s), wfs := wfs s2\<rparr>"
    by (subst s2(5), subst s1(8)) simp
  show ?thesis
    using that [of s2 "n1\<lparr>nd_wrf_ino := i\<rparr>"] s1 s2(1-4) b e slot by (simp add: create_persistent_def create_slot_eq [OF ok])
qed

section \<open>Removal\<close>

definition empty_node :: "dirs \<Rightarrow> addr \<Rightarrow> bool" where
  "empty_node D a \<longleftrightarrow> (case D a of None \<Rightarrow> True | Some m \<Rightarrow> m = Map.empty)"

lemma kids_Nil_iff:
  assumes t: "tree h r kids" and n: "h a = Some n"
  shows "kids a = [] \<longleftrightarrow> \<not> (nd_type n = VFS_DIR \<and> nd_child n \<noteq> None)" "kids a = [] \<longleftrightarrow> empty_node (dirmap h) a"
proof -
  have ch: "chain h (nd_child n) (kids a)" by (rule treeD(1) [OF t n])
  show "kids a = [] \<longleftrightarrow> \<not> (nd_type n = VFS_DIR \<and> nd_child n \<noteq> None)"
    using ch treeD(2) [OF t n] by (cases "kids a") auto
  show "kids a = [] \<longleftrightarrow> empty_node (dirmap h) a"
  proof (cases "kids a")
    case Nil
    then show ?thesis by (simp add: empty_node_def dirmap_tree [OF t] split: if_splits)
  next
    case (Cons c cs)
    then have "dir_at h a" using treeD(2) [OF t n] n by (auto simp: dir_at_def)
    then obtain m where m: "dirmap h a = Some m" by (simp add: dirmap_def)
    obtain mc where "h c = Some mc" using treeD(4) [OF t, of c a] Cons by auto
    then have "m (nd_name mc) = Some c" using dirmap_SomeD(2) [OF t m] Cons by (simp add: name_of_def)
    then show ?thesis using m Cons by (auto simp: empty_node_def)
  qed
qed

text \<open>Where the two unlinking loops stop.\<close>

lemma find_link_kid:
  assumes t: "tree h r kids" and d: "h d = Some dn" and k: "kids d = xs @ a # ys" and a: "h a = Some n" "P a n"
    and u: "\<And>b m. b \<in> set xs \<Longrightarrow> h b = Some m \<Longrightarrow> P b m \<Longrightarrow> False"
  shows "find_link h P (LChild d) = Some (Some (cut_link d xs, a))"
proof -
  have ch: "chain h (nd_child dn) (xs @ a # ys)" using treeD(1) [OF t d] k by simp
  show ?thesis unfolding cut_link_def
    by (rule find_link_chain [of h _ "nd_child dn" xs a ys n P]) (use ch d a u in auto)
qed

lemma find_link_name:
  assumes t: "tree h r kids" and d: "h d = Some dn" and k: "kids d = xs @ a # ys" and a: "h a = Some n"
  shows "find_link h (\<lambda>b m. nd_name m = nd_name n) (LChild d) = Some (Some (cut_link d xs, a))"
proof (rule find_link_kid [OF t d k a refl])
  fix b m assume "b \<in> set xs" "h b = Some m" "nd_name m = nd_name n"
  then have "name_of h b = name_of h a" "b \<in> set (kids d)" "a \<in> set (kids d)" using a k by (auto simp: name_of_def)
  then have "b = a" using treeD(5) [OF t, of d] by (auto simp: inj_on_def)
  then show False using \<open>b \<in> set xs\<close> k tree_kids_distinct [OF t, of d] by auto
qed

lemma unlink_node_kid:
  assumes t: "tree h r kids" and d: "h d = Some dn" and k: "kids d = xs @ a # ys" and a: "h a = Some n"
  shows "unlink_node h d a = link_set (cut_link d xs) (nd_sibling n) h"
proof -
  have "find_link h (\<lambda>b _. b = a) (LChild d) = Some (Some (cut_link d xs, a))"
    using k tree_kids_distinct [OF t, of d] by (intro find_link_kid [OF t d k a]) auto
  then show ?thesis using a by (simp add: unlink_node_def)
qed

text \<open>Taking a child out of its directory.\<close>

definition without_entry :: "dirs \<Rightarrow> addr \<Rightarrow> string \<Rightarrow> dirs" where
  "without_entry D p name = D(p := map_option (\<lambda>m. m(name := None)) (D p))"

lemma detach_step:
  assumes i: "heap_inv h r kids nx" and a: "a \<in> set (kids d)" "h a = Some n" and d: "h d = Some dn"
  obtains h' kids' l where "unlink_node h d a = Some h'"
    "find_link h (\<lambda>b m. nd_name m = nd_name n) (LChild d) = Some (Some (l, a))" "link_set l (nd_sibling n) h = Some h'"
    "heap_inv h' r kids' nx" "orphan kids' a" "kids a = [] \<Longrightarrow> kids' a = []"
    "dirmap h' = without_entry (dirmap h) d (nd_name n)"
    "\<And>b. map_option body (h' b) = map_option body (h b)"
    "\<And>b c. b \<noteq> a \<Longrightarrow> b \<in> set (kids c) \<Longrightarrow> b \<in> set (kids' c)"
proof -
  note t = heap_invD(1) [OF i]
  obtain h' xs ys where k: "kids d = xs @ a # ys" and l: "link_set (cut_link d xs) (nd_sibling n) h = Some h'"
    and i': "heap_inv h' r (kids(d := xs @ ys)) nx" and o: "orphan (kids(d := xs @ ys)) a"
    and b: "\<And>b. map_option body (h' b) = map_option body (h b)"
    by (rule heap_inv_detach [OF i a d]) metis+
  obtain m where m: "dirmap h d = Some m" using tree_kids_dir [OF t a(1)] by (auto simp: dirmap_def dir_at_def)
  have D: "dirmap h' = without_entry (dirmap h) d (nd_name n)"
    using dirmap_detach [OF t k _ m heap_invD(1) [OF i'] b] a(2) m by (simp add: name_of_def without_entry_def)
  have un: "unlink_node h d a = Some h'" using unlink_node_kid [OF t d k a(2)] l by simp
  show ?thesis using k by (intro that [OF un find_link_name [OF t d k a(2)] l i' o _ D b]) auto
qed

lemma drop_node_step:
  assumes i: "heap_inv (nodes s) r kids (next_addr s)" and o: "orphan kids v" and "v \<noteq> r" "kids v = []"
    and p: "nodes s p = Some pn" and n: "nodes s v = Some n"
  obtains s' where "drop_node s p v = Some s'" "heap_inv (nodes s') r kids (next_addr s')"
    "nodes s' = (nodes s)(v := if nd_open_refs n > 0 then Some (n\<lparr>nd_unlinked := True\<rparr>) else None)"
    "s' = s\<lparr>nodes := nodes s', wfs := wfs s'\<rparr>"
    "dirmap (nodes s') = (if nd_open_refs n > 0 then dirmap (nodes s) else (dirmap (nodes s))(v := None))"
proof (cases "nd_open_refs n > 0")
  case True
  let ?s = "s\<lparr>nodes := (nodes s)(v \<mapsto> n\<lparr>nd_unlinked := True\<rparr>), wfs := wrf_notify_detach (wfs s) pn n\<rparr>"
  have "dirmap (nodes ?s) = dirmap (nodes s)"
    using dirmap_shape [OF heap_invD(1) [OF i] n] by (simp add: same_shape_def)
  then show ?thesis
    using that [of ?s] True p n heap_inv_mark [OF i o n assms(3,4)] by (simp add: drop_node_def)
next
  case False
  let ?s = "s\<lparr>nodes := (nodes s)(v := None), wfs := snd (wrf_notify_free (wrf_notify_detach (wfs s) pn n) n)\<rparr>"
  have i': "heap_inv ((nodes s)(v := None)) r kids (next_addr s)" by (rule heap_inv_free [OF i o assms(3,4)])
  then have "dirmap (nodes ?s) = (dirmap (nodes s))(v := None)"
    using dirmap_orphan [OF heap_invD(1) [OF i] o heap_invD(1) [OF i']] by simp
  then show ?thesis using that [of ?s] False p n i' by (simp add: drop_node_def)
qed

lemma dirmap_kid:
  assumes t: "tree h r kids" and m: "dirmap h p = Some m" "m name = Some v"
  obtains n pn where "h v = Some n" "h p = Some pn" "nd_type pn = VFS_DIR" "nd_name n = name" "v \<in> set (kids p)" "v \<noteq> r"
proof -
  have v: "v \<in> set (kids p)" "name_of h v = Some name" using dirmap_SomeD(2) [OF t m(1)] m(2) by auto
  moreover obtain pn where "h p = Some pn" "nd_type pn = VFS_DIR"
    using dirmap_SomeD(1) [OF t m(1)] by (auto simp: dir_at_def split: option.splits)
  moreover have "v \<noteq> r" using tree_root_no_kid [OF t, of p] v(1) by auto
  ultimately show ?thesis using that by (auto simp: name_of_def)
qed

text \<open>The abstract effect of removing a node: its name goes, and the node with it unless it is open.\<close>

definition removed :: "'a vfs_scheme \<Rightarrow> addr \<Rightarrow> string \<Rightarrow> addr \<Rightarrow> vfs_node \<Rightarrow> dirs" where
  "removed s p name v n =
     (let D = without_entry (dirmap (nodes s)) p name in if nd_open_refs n > 0 then D else D(v := None))"

lemma vfs_remove_step:
  assumes ok: "vfs_ok s" and sp: "path_split path 256 VFS_NAME_MAX = Some (dir, name)" and lk: "abs_lookup s dir = Some p"
    and m: "dirmap (nodes s) p = Some m" "m name = Some v" and e: "empty_node (dirmap (nodes s)) v"
    and n: "nodes s v = Some n"
  obtains s' where "vfs_remove s path = Some (0, s')" "vfs_ok s'" "dirmap (nodes s') = removed s p name v n"
    "\<And>b. b \<noteq> v \<Longrightarrow> map_option body (nodes s' b) = map_option body (nodes s b)"
    "map_option body (nodes s' v) = (if nd_open_refs n > 0 then Some (body (n\<lparr>nd_unlinked := True\<rparr>)) else None)"
    "s' = s\<lparr>nodes := nodes s', wfs := wfs s'\<rparr>"
proof -
  obtain r kids where r: "g_root s = Some r" and i: "heap_inv (nodes s) r kids (next_addr s)" and t: "tree (nodes s) r kids"
    using ok by (elim vfs_okE)
  obtain pn where pn: "nodes s p = Some pn" "nd_type pn = VFS_DIR" and nm: "nd_name n = name" and v: "v \<in> set (kids p)" "v \<noteq> r"
    by (rule dirmap_kid [OF t m]) (use n in auto)
  have kv: "kids v = []" and ch: "\<not> (nd_type n = VFS_DIR \<and> nd_child n \<noteq> None)" using kids_Nil_iff [OF t n] e by auto
  obtain h' kids' l where fl: "find_link (nodes s) (\<lambda>b m. nd_name m = nd_name n) (LChild p) = Some (Some (l, v))"
    and ls: "link_set l (nd_sibling n) (nodes s) = Some h'" and i': "heap_inv h' r kids' (next_addr s)"
    and o: "orphan kids' v" and k': "kids' v = []" and D: "dirmap h' = without_entry (dirmap (nodes s)) p (nd_name n)"
    and b: "\<And>b. map_option body (h' b) = map_option body (nodes s b)"
    by (rule detach_step [OF i v(1) n pn(1)]) (use kv in metis)
  obtain n' where n': "h' v = Some n'" "body n' = body n" using b [of v] n by (cases "h' v") auto
  obtain pn' where pn': "h' p = Some pn'" using b [of p] pn by (cases "h' p") auto
  obtain s' where s': "drop_node (s\<lparr>nodes := h'\<rparr>) p v = Some s'" "heap_inv (nodes s') r kids' (next_addr s')"
    "nodes s' = h'(v := if nd_open_refs n' > 0 then Some (n'\<lparr>nd_unlinked := True\<rparr>) else None)"
    "s' = (s\<lparr>nodes := h'\<rparr>)\<lparr>nodes := nodes s', wfs := wfs s'\<rparr>"
    "dirmap (nodes s') = (if nd_open_refs n' > 0 then dirmap h' else (dirmap h')(v := None))"
    by (rule drop_node_step [of "s\<lparr>nodes := h'\<rparr>" r kids' v p pn' n']) (use i' o v k' pn' n' in simp_all)
  have refs: "nd_open_refs n' = nd_open_refs n" by (rule body_eqD(4) [OF n'(2)])
  have "vfs_remove s path = Some (0, s')"
    using sp lk pn fl nm n ch ls s'(1) by (simp add: vfs_remove_def vfs_lookup_eq [OF ok])
  moreover have "vfs_ok s'" using s'(2,4) r unfolding vfs_ok_def by (metis (no_types, lifting) vfs.select_convs(2) vfs.surjective vfs.update_convs(1,3))
  moreover have "dirmap (nodes s') = removed s p name v n" using s'(5) D refs nm by (simp add: removed_def Let_def)
  moreover have "map_option body (nodes s' b) = map_option body (nodes s b)" if "b \<noteq> v" for b using s'(3) that b by simp
  moreover have "map_option body (nodes s' v) = (if nd_open_refs n > 0 then Some (body (n\<lparr>nd_unlinked := True\<rparr>)) else None)"
    using s'(3) refs body_unlinked [OF n'(2)] by simp
  moreover have "s' = s\<lparr>nodes := nodes s', wfs := wfs s'\<rparr>" by (subst s'(4)) simp
  ultimately show ?thesis by (rule that)
qed

section \<open>Renaming\<close>

definition moved :: "dirs \<Rightarrow> addr \<Rightarrow> string \<Rightarrow> addr \<Rightarrow> string \<Rightarrow> addr \<Rightarrow> dirs" where
  "moved D op oname np nname a =
     (let D1 = without_entry D op oname in D1(np := map_option (\<lambda>m. m(nname \<mapsto> a)) (D1 np)))"

lemma dirmap_node_dir:
  "dirmap h d = Some m \<Longrightarrow> \<exists>n. h d = Some n \<and> nd_type n = VFS_DIR"
  by (auto simp: dirmap_def dir_at_def split: if_splits option.splits)

text \<open>The name a moved node takes is free once the node left its old directory.\<close>

lemma moved_name_free:
  assumes t: "tree h r kids" and mo: "dirmap h op = Some mo" "mo oname = Some a"
    and mn: "dirmap h np = Some mn" "mn nname = None \<or> mn nname = Some a"
  shows "\<exists>m. without_entry (dirmap h) op oname np = Some m \<and> m nname = None"
proof (cases "mn nname = None")
  case True
  then show ?thesis using mn(1) mo by (auto simp: without_entry_def)
next
  case False
  then have "mn nname = Some a" using mn(2) by (elim disjE) simp_all
  then have "a \<in> set (kids np)" "name_of h a = Some nname" using dirmap_SomeD(2) [OF t mn(1)] by auto
  moreover have "a \<in> set (kids op)" "name_of h a = Some oname" using mo dirmap_SomeD(2) [OF t mo(1)] by auto
  ultimately have "np = op" "nname = oname" using tree_one_parent [OF t] by auto
  then show ?thesis using mo by (simp add: without_entry_def)
qed

lemma rename_move_step:
  assumes ok: "vfs_ok s" and mo: "dirmap (nodes s) op = Some mo" "mo oname = Some a"
    and mn: "dirmap (nodes s) np = Some mn" "mn nname = None \<or> mn nname = Some a"
    and np: "nodes s np = Some npn" "\<not> nd_unlinked npn" and nm: "name_ok nname"
  obtains s' where "rename_move s a op np nname = Some (0, s')" "vfs_ok s'"
    "dirmap (nodes s') = moved (dirmap (nodes s)) op oname np nname a"
proof -
  obtain r kids where r: "g_root s = Some r" and i: "heap_inv (nodes s) r kids (next_addr s)" and t: "tree (nodes s) r kids"
    using ok by (elim vfs_okE)
  obtain n opn where n: "nodes s a = Some n" "nd_name n = oname" and opn: "nodes s op = Some opn" and a: "a \<in> set (kids op)" "a \<noteq> r"
    by (rule dirmap_kid [OF t mo])
  have nu: "\<not> nd_unlinked n" using heap_invD(4) [OF i n(1)] in_tree_kid [of a kids op r] a(1) by blast
  obtain h kids' where un: "unlink_node (nodes s) op a = Some h" and i1: "heap_inv h r kids' (next_addr s)"
    and o: "orphan kids' a" and D1: "dirmap h = without_entry (dirmap (nodes s)) op (nd_name n)"
    and b: "\<And>b. map_option body (h b) = map_option body (nodes s b)"
    by (rule detach_step [OF i a(1) n(1) opn]) metis
  obtain n1 where n1: "h a = Some n1" "body n1 = body n" using b [of a] n by (cases "h a") auto
  obtain opn1 where opn1: "h op = Some opn1" using b [of op] opn by (cases "h op") auto
  obtain np1 where np1: "h np = Some np1" "body np1 = body npn" using b [of np] np by (cases "h np") auto
  define h2 where "h2 = h(a \<mapsto> n1\<lparr>nd_name := nname\<rparr>)"
  have i2: "heap_inv h2 r kids' (next_addr s)" unfolding h2_def by (rule heap_inv_rename [OF i1 o n1(1)])
  note t2 = heap_invD(1) [OF i2]
  have D2: "dirmap h2 = without_entry (dirmap (nodes s)) op oname"
    using dirmap_orphan [OF heap_invD(1) [OF i1] o, of "Some (n1\<lparr>nd_name := nname\<rparr>)"] t2 n1 D1 n(2) by (simp add: h2_def)
  obtain m where m: "dirmap h2 np = Some m" "m nname = None" using moved_name_free [OF t mo mn] D2 by auto
  have a2: "h2 a = Some (n1\<lparr>nd_name := nname\<rparr>)" by (simp add: h2_def)
  obtain np2 where np2: "h2 np = Some np2" "nd_type np2 = VFS_DIR" using dirmap_node_dir [OF m(1)] by blast
  have npu: "\<not> nd_unlinked np2"
    using np2(1) np1 np(2) n1 body_eqD(6) [OF np1(2)] by (auto simp: h2_def split: if_splits)
  have a2u: "\<not> nd_unlinked (n1\<lparr>nd_name := nname\<rparr>)" using nu body_eqD(6) [OF n1(2)] by simp
  have new: "name_of h2 c \<noteq> Some nname" if "c \<in> set (kids' np)" for c
    using that dirmap_SomeD(2) [OF t2 m(1), of nname c] m(2) by auto
  let ?n2 = "n1\<lparr>nd_name := nname\<rparr>"
  let ?h3 = "attached h2 np a np2 ?n2"
  have i3: "heap_inv ?h3 r (kids'(np := a # kids' np)) (next_addr s)"
    using new nm a(2) by (intro heap_inv_attach [OF i2 np2 npu a2 a2u o]) auto
  have D3: "dirmap ?h3 = moved (dirmap (nodes s)) op oname np nname a"
    using dirmap_attach [OF t2 np2(1) m(1) a2 heap_invD(1) [OF i3] o] m(1) D2 by (simp add: moved_def Let_def)
  have att: "dir_attach h2 np a = Some ?h3" by (rule dir_attach_eq [OF np2(1) a2])
  have un2: "upd_node a (\<lambda>n. n\<lparr>nd_name := nname\<rparr>) h = Some h2" using n1 by (simp add: upd_node_def h2_def)
  obtain np3 n3 where n3: "?h3 np = Some np3" "?h3 a = Some n3"
    using attached_dom [OF np2(1) a2, of np] attached_dom [OF np2(1) a2, of a] np2 a2 by auto
  have "length nname < VFS_NAME_MAX" using nm by (simp add: name_ok_def)
  then obtain w where w: "rename_move s a op np nname = Some (0, s\<lparr>nodes := ?h3, wfs := w\<rparr>)"
    using un opn1 n1 un2 att n3 by (auto simp: rename_move_def Let_def)
  show ?thesis by (rule that [OF w]) (use i3 r D3 in \<open>auto simp: vfs_ok_def\<close>)
qed

lemma parent_for_write_eq:
  assumes ok: "vfs_ok s"
  shows "parent_for_write s path = Some
     (case path_split path VFS_PATH_MAX VFS_NAME_MAX of
        None \<Rightarrow> Inl (- EINVAL)
      | Some (dir, name) \<Rightarrow>
          (case abs_lookup s dir of
             None \<Rightarrow> Inl (- ENOENT)
           | Some p \<Rightarrow>
               (if dirmap (nodes s) p = None then Inl (- ENOENT)
                else if \<not> vfs_access_ok s (the (nodes s p)) VFS_W_OK then Inl (- EACCES)
                else Inr (p, name))))"
proof (cases "path_split path VFS_PATH_MAX VFS_NAME_MAX")
  case (Some dn)
  obtain dir name where dn: "dn = (dir, name)" by fastforce
  show ?thesis
  proof (cases "abs_lookup s dir")
    case None
    then show ?thesis using Some dn by (simp add: parent_for_write_def vfs_lookup_eq [OF ok])
  next
    case p: (Some p)
    obtain n where n: "nodes s p = Some n" using abs_lookup_node [OF ok p] .
    show ?thesis using Some dn p n dirmap_node [OF n] by (simp add: parent_for_write_def vfs_lookup_eq [OF ok])
  qed
qed (simp add: parent_for_write_def)

text \<open>What a rename does to the abstract file system; \<open>e\<close> is the node the new name had before.\<close>

definition replaced :: "'a vfs_scheme \<Rightarrow> addr \<Rightarrow> string \<Rightarrow> addr \<Rightarrow> addr option \<Rightarrow> dirs" where
  "replaced s np nname a e =
     (case e of
        None \<Rightarrow> dirmap (nodes s)
      | Some v \<Rightarrow> if v = a then dirmap (nodes s) else removed s np nname v (the (nodes s v)))"

lemma rename_replace_step:
  assumes ok: "vfs_ok s" and m: "dirmap (nodes s) p = Some m" "m name = Some v" and e: "empty_node (dirmap (nodes s)) v"
  obtains s' n where "rename_replace s p v = Some s'" "vfs_ok s'" "nodes s v = Some n" "dirmap (nodes s') = removed s p name v n"
    "\<And>b. b \<noteq> v \<Longrightarrow> map_option body (nodes s' b) = map_option body (nodes s b)"
proof -
  obtain r kids where r: "g_root s = Some r" and i: "heap_inv (nodes s) r kids (next_addr s)" and t: "tree (nodes s) r kids"
    using ok by (elim vfs_okE)
  obtain n pn where n: "nodes s v = Some n" and pn: "nodes s p = Some pn" and nm: "nd_name n = name"
    and v: "v \<in> set (kids p)" "v \<noteq> r" by (rule dirmap_kid [OF t m])
  have kv: "kids v = []" using kids_Nil_iff(2) [OF t n] e by simp
  obtain h' kids' where un: "unlink_node (nodes s) p v = Some h'" and i': "heap_inv h' r kids' (next_addr s)"
    and o: "orphan kids' v" and k': "kids' v = []" and D: "dirmap h' = without_entry (dirmap (nodes s)) p (nd_name n)"
    and b: "\<And>b. map_option body (h' b) = map_option body (nodes s b)"
    by (rule detach_step [OF i v(1) n pn(1)]) (use kv in metis)
  obtain n' where n': "h' v = Some n'" "body n' = body n" using b [of v] n by (cases "h' v") auto
  obtain pn' where pn': "h' p = Some pn'" using b [of p] pn by (cases "h' p") auto
  obtain s' where s': "drop_node (s\<lparr>nodes := h'\<rparr>) p v = Some s'" "heap_inv (nodes s') r kids' (next_addr s')"
    "nodes s' = h'(v := if nd_open_refs n' > 0 then Some (n'\<lparr>nd_unlinked := True\<rparr>) else None)"
    "s' = (s\<lparr>nodes := h'\<rparr>)\<lparr>nodes := nodes s', wfs := wfs s'\<rparr>"
    "dirmap (nodes s') = (if nd_open_refs n' > 0 then dirmap h' else (dirmap h')(v := None))"
    by (rule drop_node_step [of "s\<lparr>nodes := h'\<rparr>" r kids' v p pn' n']) (use i' o v k' pn' n' in simp_all)
  have "rename_replace s p v = Some s'" using un s'(1) by (simp add: rename_replace_def)
  moreover have "g_root s' = Some r" by (subst s'(4)) (simp add: r)
  then have "vfs_ok s'" using s'(2) by (auto simp: vfs_ok_def)
  moreover have "dirmap (nodes s') = removed s p name v n"
    using s'(5) D body_eqD(4) [OF n'(2)] nm by (simp add: removed_def Let_def)
  moreover have "map_option body (nodes s' b) = map_option body (nodes s b)" if "b \<noteq> v" for b using s'(3) that b by simp
  ultimately show ?thesis using that n by blast
qed

lemma removed_other:
  assumes "dirmap (nodes s) q = Some m" "q \<noteq> v"
  shows "removed s p name v n q = Some (if q = p then m(name := None) else m)"
  using assms by (auto simp: removed_def without_entry_def Let_def)

lemma vfs_rename_step:
  assumes ok: "vfs_ok s" and lk: "abs_lookup s oldp = Some a"
    and po: "parent_for_write s oldp = Some (Inr (op, oname))" and pn: "parent_for_write s newp = Some (Inr (np, nname))"
    and mo: "dirmap (nodes s) op = Some mo" "mo oname = Some a" and mn: "dirmap (nodes s) np = Some mn"
    and e: "mn nname = None \<or> mn nname = Some a \<or> empty_node (dirmap (nodes s)) (the (mn nname))"
  obtains s' where "vfs_rename s (Some oldp) (Some newp) = Some (0, s')" "vfs_ok s'"
    "dirmap (nodes s') = moved (replaced s np nname a (mn nname)) op oname np nname a"
proof -
  obtain r kids where r: "g_root s = Some r" and i: "heap_inv (nodes s) r kids (next_addr s)" and t: "tree (nodes s) r kids"
    using ok by (elim vfs_okE)
  obtain dir where sp: "path_split newp VFS_PATH_MAX VFS_NAME_MAX = Some (dir, nname)" and ld: "abs_lookup s dir = Some np"
    using pn by (auto simp: parent_for_write_eq [OF ok] split: option.splits if_splits)
  have nm: "name_ok nname" using path_split_name [OF sp] by (simp add: name_ok_def)
  obtain npn where npn: "nodes s np = Some npn" using abs_lookup_node [OF ok ld] .
  have npu: "\<not> nd_unlinked npn" using heap_invD(4) [OF i npn] abs_lookup_in_tree [OF r t ld] by blast
  have df: "dir_find (nodes s) np nname = Some (mn nname)" by (rule dir_find_dirmap [OF t mn])
  show ?thesis
  proof (cases "mn nname = None \<or> mn nname = Some a")
    case True
    obtain s' where s': "rename_move s a op np nname = Some (0, s')" "vfs_ok s'"
      "dirmap (nodes s') = moved (dirmap (nodes s)) op oname np nname a"
      by (rule rename_move_step [OF ok mo mn True npn npu nm])
    have "vfs_rename s (Some oldp) (Some newp) = Some (0, s')"
      using True lk po pn df s'(1) by (auto simp: vfs_rename_def vfs_lookup_eq [OF ok])
    then show ?thesis using that s' True by (auto simp: replaced_def)
  next
    case False
    then obtain v where v: "mn nname = Some v" "v \<noteq> a" by auto
    have ev: "empty_node (dirmap (nodes s)) v" using e v by simp
    obtain n where n: "nodes s v = Some n" using dirmap_kid [OF t mn v(1)] by metis
    obtain s1 where s1: "rename_replace s np v = Some s1" "vfs_ok s1" "dirmap (nodes s1) = removed s np nname v n"
      "\<And>b. b \<noteq> v \<Longrightarrow> map_option body (nodes s1 b) = map_option body (nodes s b)"
      by (rule rename_replace_step [OF ok mn v(1) ev]) (use n in auto)
    have vd: "op \<noteq> v" "np \<noteq> v" using ev mo mn v(1) by (auto simp: empty_node_def)
    obtain npn1 where npn1: "nodes s1 np = Some npn1" "body npn1 = body npn"
      using s1(4) [OF vd(2)] npn by (cases "nodes s1 np") auto
    have mo1: "dirmap (nodes s1) op = Some (if op = np then mo(nname := None) else mo)"
      using removed_other [OF mo(1) vd(1)] s1(3) by simp
    have mo2: "(if op = np then mo(nname := None) else mo) oname = Some a" using mo mn v by auto
    have mn1: "dirmap (nodes s1) np = Some (mn(nname := None))" using removed_other [OF mn vd(2)] s1(3) by simp
    have free: "(mn(nname := None)) nname = None \<or> (mn(nname := None)) nname = Some a" by simp
    have npu1: "\<not> nd_unlinked npn1" using npu body_eqD(6) [OF npn1(2)] by simp
    obtain s' where s': "rename_move s1 a op np nname = Some (0, s')" "vfs_ok s'"
      "dirmap (nodes s') = moved (dirmap (nodes s1)) op oname np nname a"
      by (rule rename_move_step [OF s1(2) mo1 mo2 mn1 free npn1(1) npu1 nm])
    have "\<not> (nd_type n = VFS_DIR \<and> nd_child n \<noteq> None)" using kids_Nil_iff [OF t n] ev by simp
    then have "vfs_rename s (Some oldp) (Some newp) = Some (0, s')"
      using v lk po pn df n s1(1) s'(1) by (auto simp: vfs_rename_def vfs_lookup_eq [OF ok])
    then show ?thesis using that s' v s1(3) n by (simp add: replaced_def)
  qed
qed

end
