(* ===== verification/Unix_Sock.thy ===== *)
theory Unix_Sock
  imports Vfs_Inv Byte_Ring
begin

text \<open>
  Unix domain sockets, the first half of \<^verbatim>\<open>kernel/net/socket.c\<close>. A socket owns the ring it receives into;
  writing copies into the peer's ring. Sockets live in a store of their own beside the file tree, because
  binding creates a node and the last close looks that node up again. The states and results follow the
  conventions of the file tree and of the pipes: \<open>None\<close> is a wild pointer or a loop without end, \<open>Blocked\<close> a
  call that went to sleep.
\<close>

section \<open>State\<close>

datatype usock_state = USOCK_NEW | USOCK_BOUND | USOCK_LISTENING | USOCK_CONNECTED

abbreviation (input) UNIX_BUF_SIZE :: nat where "UNIX_BUF_SIZE \<equiv> 4096"
abbreviation (input) UNIX_BACKLOG_MAX :: int where "UNIX_BACKLOG_MAX \<equiv> 8"
abbreviation (input) UNIX_PATH_MAX :: nat where "UNIX_PATH_MAX \<equiv> 108"
abbreviation (input) SOCK_STREAM :: u32 where "SOCK_STREAM \<equiv> 1"
abbreviation (input) SOCK_CLOEXEC :: u32 where "SOCK_CLOEXEC \<equiv> 0x80000"
abbreviation (input) SOCK_NONBLOCK :: u32 where "SOCK_NONBLOCK \<equiv> 0x800"

text \<open>The array \<^verbatim>\<open>backlog\<close> with its fill count \<^verbatim>\<open>backlog_n\<close> is the list of its used entries.\<close>

record unix_sock = byte_ring +
  us_state :: usock_state
  us_refs :: int
  us_shut_rd :: bool
  us_shut_wr :: bool
  us_peer :: "addr option"
  us_path :: string
  us_backlog :: "addr list"
  us_backlog_max :: int

record usk = vfs +
  socks :: "addr \<Rightarrow> unix_sock option"

definition upd_sock :: "addr \<Rightarrow> (unix_sock \<Rightarrow> unix_sock) \<Rightarrow> 'a usk_scheme \<Rightarrow> 'a usk_scheme option" where
  "upd_sock a f s = (case socks s a of None \<Rightarrow> None | Some k \<Rightarrow> Some (s\<lparr>socks := (socks s)(a \<mapsto> f k)\<rparr>))"

section \<open>Allocation and release\<close>

definition new_sock :: unix_sock where
  "new_sock = \<lparr>rb_buf = (\<lambda>_. 0), rb_head = 0, rb_count = 0, us_state = USOCK_NEW, us_refs = 1, us_shut_rd = False,
     us_shut_wr = False, us_peer = None, us_path = [], us_backlog = [], us_backlog_max = 0\<rparr>"

definition sock_alloc :: "'a usk_scheme \<Rightarrow> addr option \<times> 'a usk_scheme" where
  "sock_alloc s =
     (case kmalloc s of
        (None, s1) \<Rightarrow> (None, s1)
      | (Some a, s1) \<Rightarrow> (Some a, s1\<lparr>socks := (socks s1)(a \<mapsto> new_sock)\<rparr>))"

definition unix_sock_ref :: "addr \<Rightarrow> 'a usk_scheme \<Rightarrow> 'a usk_scheme option" where
  "unix_sock_ref a s = upd_sock a (\<lambda>k. k\<lparr>us_refs := us_refs k + 1\<rparr>) s"

text \<open>What the last reference does before the backlog is released: clear the address node, cut the peer
  loose.\<close>

definition release_name :: "addr \<Rightarrow> unix_sock \<Rightarrow> 'a usk_scheme \<Rightarrow> 'a usk_scheme option" where
  "release_name a k s =
     (if us_path k \<noteq> [] then do {
        r \<leftarrow> vfs_lookup s (us_path k);
        case r of
          None \<Rightarrow> Some s
        | Some na \<Rightarrow> do {
            n \<leftarrow> nodes s na;
            if nd_type n = VFS_SOCKET \<and> nd_priv n = Some a
            then Some (s\<lparr>nodes := (nodes s)(na \<mapsto> n\<lparr>nd_priv := None\<rparr>)\<rparr>)
            else Some s } }
      else Some s)"

definition release_peer :: "addr \<Rightarrow> unix_sock \<Rightarrow> 'a usk_scheme \<Rightarrow> 'a usk_scheme option" where
  "release_peer a k s =
     (case us_peer k of
        None \<Rightarrow> Some s
      | Some b \<Rightarrow> do {
          s1 \<leftarrow> upd_sock b (\<lambda>p. p\<lparr>us_peer := None\<rparr>) s;
          upd_sock a (\<lambda>p. p\<lparr>us_peer := None\<rparr>) s1 })"

text \<open>\<^verbatim>\<open>unix_sock_unref\<close> calls itself for every queued connection and frees the socket afterwards; the calls
  still to be made are a work list.\<close>

datatype unref_item = Unref addr | Free addr

partial_function (option) unref_run :: "unref_item list \<Rightarrow> 'a usk_scheme \<Rightarrow> 'a usk_scheme option" where
  "unref_run items s =
     (case items of
        [] \<Rightarrow> Some s
      | Free a # rest \<Rightarrow> unref_run rest (s\<lparr>socks := (socks s)(a := None)\<rparr>)
      | Unref a # rest \<Rightarrow>
          (case socks s a of
             None \<Rightarrow> None
           | Some k \<Rightarrow>
               (let s1 = s\<lparr>socks := (socks s)(a \<mapsto> k\<lparr>us_refs := us_refs k - 1\<rparr>)\<rparr>
                in if us_refs k - 1 > 0 then unref_run rest s1
                   else
                     (case do { s2 \<leftarrow> release_name a k s1; release_peer a k s2 } of
                        None \<Rightarrow> None
                      | Some s3 \<Rightarrow> unref_run (map Unref (us_backlog k) @ Free a # rest) s3))))"

definition unix_sock_unref :: "addr \<Rightarrow> 'a usk_scheme \<Rightarrow> 'a usk_scheme option" where
  "unix_sock_unref a s = unref_run [Unref a] s"

section \<open>Creation and naming\<close>

definition unix_sock_create :: "'a usk_scheme \<Rightarrow> int \<Rightarrow> u32 \<Rightarrow> int \<Rightarrow> (int + addr) \<times> 'a usk_scheme" where
  "unix_sock_create s domain type protocol =
     (if domain \<noteq> 1 then (Inl (- EAFNOSUPPORT), s)
      else if type AND SOCK_NONBLOCK \<noteq> 0 then (Inl (- EINVAL), s)
      else if type AND NOT SOCK_CLOEXEC \<noteq> SOCK_STREAM then (Inl (- EPROTONOSUPPORT), s)
      else if protocol \<noteq> 0 then (Inl (- EPROTONOSUPPORT), s)
      else
        (case sock_alloc s of
           (None, s1) \<Rightarrow> (Inl (- ENOMEM), s1)
         | (Some a, s1) \<Rightarrow> (Inr a, s1)))"

text \<open>A socket argument that is a null pointer is \<open>None\<close>, and so is a null path.\<close>

definition unix_sock_bind :: "'a usk_scheme \<Rightarrow> addr option \<Rightarrow> string option \<Rightarrow> (int \<times> 'a usk_scheme) option" where
  "unix_sock_bind s sk path =
     (case (sk, path) of
        (Some a, Some p) \<Rightarrow> do {
          k \<leftarrow> socks s a;
          if us_state k \<noteq> USOCK_NEW then Some (- EINVAL, s)
          else if length p = 0 then Some (- EINVAL, s)
          else if length p \<ge> UNIX_PATH_MAX then Some (- ENAMETOOLONG, s)
          else do {
            r \<leftarrow> vfs_lookup s p;
            if r \<noteq> None then Some (- EADDRINUSE, s)
            else do {
              (n, s1) \<leftarrow> vfs_create_socket s p (Some a);
              if n = None then Some (- ENOENT, s1)
              else do {
                s2 \<leftarrow> upd_sock a (\<lambda>k. k\<lparr>us_path := p, us_state := USOCK_BOUND\<rparr>) s1;
                Some (0, s2) } } } }
      | _ \<Rightarrow> Some (- EINVAL, s))"

definition unix_sock_listen :: "'a usk_scheme \<Rightarrow> addr option \<Rightarrow> int \<Rightarrow> (int \<times> 'a usk_scheme) option" where
  "unix_sock_listen s sk backlog =
     (case sk of
        None \<Rightarrow> Some (- EINVAL, s)
      | Some a \<Rightarrow> do {
          k \<leftarrow> socks s a;
          if us_state k = USOCK_CONNECTED then Some (- EISCONN, s)
          else if us_state k \<noteq> USOCK_BOUND \<and> us_state k \<noteq> USOCK_LISTENING then Some (- EDESTADDRREQ, s)
          else
            (let b1 = (if backlog < 1 then 1 else backlog);
                 b2 = (if b1 > UNIX_BACKLOG_MAX then UNIX_BACKLOG_MAX else b1)
             in do {
               s1 \<leftarrow> upd_sock a (\<lambda>k. k\<lparr>us_backlog_max := b2, us_state := USOCK_LISTENING\<rparr>) s;
               Some (0, s1) }) })"

definition unix_sock_getname :: "'a usk_scheme \<Rightarrow> addr option \<Rightarrow> nat \<Rightarrow> (int \<times> string) option" where
  "unix_sock_getname s sk sz =
     (case sk of
        None \<Rightarrow> Some (- EINVAL, [])
      | Some a \<Rightarrow>
          if sz = 0 then Some (- EINVAL, [])
          else do {
            k \<leftarrow> socks s a;
            let len = (if length (us_path k) \<ge> sz then sz - 1 else length (us_path k)) in
            Some (int len, take len (us_path k)) })"

section \<open>Connections\<close>

definition sock_link :: "addr \<Rightarrow> addr \<Rightarrow> 'a usk_scheme \<Rightarrow> 'a usk_scheme option" where
  "sock_link a b s = do {
     s \<leftarrow> upd_sock a (\<lambda>k. k\<lparr>us_peer := Some b\<rparr>) s;
     s \<leftarrow> upd_sock b (\<lambda>k. k\<lparr>us_peer := Some a\<rparr>) s;
     s \<leftarrow> upd_sock a (\<lambda>k. k\<lparr>us_state := USOCK_CONNECTED\<rparr>) s;
     upd_sock b (\<lambda>k. k\<lparr>us_state := USOCK_CONNECTED\<rparr>) s }"

text \<open>One turn of the loop of \<^verbatim>\<open>unix_sock_connect\<close>; \<open>Blocked\<close> is the full backlog, and the call continues
  with another turn.\<close>

definition connect_turn :: "'a usk_scheme \<Rightarrow> addr \<Rightarrow> string \<Rightarrow> (int \<times> 'a usk_scheme) blocking option" where
  "connect_turn s a path = do {
     r \<leftarrow> vfs_lookup s path;
     case r of
       None \<Rightarrow> Some (Done (- ENOENT, s))
     | Some na \<Rightarrow> do {
         n \<leftarrow> nodes s na;
         if nd_type n \<noteq> VFS_SOCKET then Some (Done (- ECONNREFUSED, s))
         else
           (case nd_priv n of
              None \<Rightarrow> Some (Done (- ECONNREFUSED, s))
            | Some l \<Rightarrow> do {
                lk \<leftarrow> socks s l;
                if us_state lk \<noteq> USOCK_LISTENING then Some (Done (- ECONNREFUSED, s))
                else if int (length (us_backlog lk)) < us_backlog_max lk then
                  (case sock_alloc s of
                     (None, s1) \<Rightarrow> Some (Done (- ENOMEM, s1))
                   | (Some srv, s1) \<Rightarrow> do {
                       s2 \<leftarrow> sock_link a srv s1;
                       s3 \<leftarrow> upd_sock l (\<lambda>k. k\<lparr>us_backlog := us_backlog k @ [srv]\<rparr>) s2;
                       Some (Done (0, s3)) })
                else Some Blocked }) } }"

definition unix_sock_connect ::
    "'a usk_scheme \<Rightarrow> addr option \<Rightarrow> string option \<Rightarrow> (int \<times> 'a usk_scheme) blocking option" where
  "unix_sock_connect s sk path =
     (case (sk, path) of
        (Some a, Some p) \<Rightarrow> do {
          k \<leftarrow> socks s a;
          if us_state k = USOCK_CONNECTED then Some (Done (- EISCONN, s))
          else if us_state k = USOCK_LISTENING then Some (Done (- EOPNOTSUPP, s))
          else if length p \<ge> UNIX_PATH_MAX then Some (Done (- ENAMETOOLONG, s))
          else connect_turn s a p }
      | _ \<Rightarrow> Some (Done (- EINVAL, s)))"

definition unix_sock_accept :: "'a usk_scheme \<Rightarrow> addr option \<Rightarrow> ((int + addr) \<times> 'a usk_scheme) blocking option" where
  "unix_sock_accept s sk =
     (case sk of
        None \<Rightarrow> Some (Done (Inl (- EINVAL), s))
      | Some a \<Rightarrow> do {
          k \<leftarrow> socks s a;
          if us_state k \<noteq> USOCK_LISTENING then Some (Done (Inl (- EINVAL), s))
          else
            (case us_backlog k of
               [] \<Rightarrow> Some Blocked
             | srv # rest \<Rightarrow> do {
                 s1 \<leftarrow> upd_sock a (\<lambda>k. k\<lparr>us_backlog := rest\<rparr>) s;
                 Some (Done (Inr srv, s1)) }) })"

definition unix_sock_pair :: "'a usk_scheme \<Rightarrow> ((int + addr \<times> addr) \<times> 'a usk_scheme) option" where
  "unix_sock_pair s =
     (case sock_alloc s of
        (x, s1) \<Rightarrow>
          (case sock_alloc s1 of
             (y, s2) \<Rightarrow>
               (case (x, y) of
                  (Some a, Some b) \<Rightarrow> do { s3 \<leftarrow> sock_link a b s2; Some (Inr (a, b), s3) }
                | _ \<Rightarrow>
                    (let free = (\<lambda>p t. case p of None \<Rightarrow> t | Some a \<Rightarrow> t\<lparr>socks := (socks t)(a := None)\<rparr>)
                     in Some (Inl (- ENOMEM), free y (free x s2))))))"

section \<open>Data transfer\<close>

text \<open>The part of \<^verbatim>\<open>unix_sock_read\<close> after its checks, which a sleeping reader re-enters: what ends the wait is
  this end being shut down, or the writer being gone.\<close>

definition sock_writer_alive :: "'a usk_scheme \<Rightarrow> unix_sock \<Rightarrow> bool option" where
  "sock_writer_alive s k =
     (if us_shut_rd k then Some False
      else (case us_peer k of
              None \<Rightarrow> Some False
            | Some b \<Rightarrow> do { p \<leftarrow> socks s b; Some (\<not> us_shut_wr p) }))"

definition sock_read_loop :: "'a usk_scheme \<Rightarrow> addr \<Rightarrow> nat \<Rightarrow> (int \<times> u8 list \<times> 'a usk_scheme) blocking option" where
  "sock_read_loop s a count = do {
     k \<leftarrow> socks s a;
     alive \<leftarrow> (if rb_count k = 0 then sock_writer_alive s k else Some True);
     Some (case ring_read_loop UNIX_BUF_SIZE alive k count of
             Blocked \<Rightarrow> Blocked
           | Done (v, bs, k') \<Rightarrow> Done (v, bs, s\<lparr>socks := (socks s)(a \<mapsto> k')\<rparr>)) }"

definition unix_sock_read ::
    "'a usk_scheme \<Rightarrow> addr option \<Rightarrow> nat \<Rightarrow> (int \<times> u8 list \<times> 'a usk_scheme) blocking option" where
  "unix_sock_read s sk count =
     (case sk of
        None \<Rightarrow> Some (Done (- EINVAL, [], s))
      | Some a \<Rightarrow> do {
          k \<leftarrow> socks s a;
          if us_state k \<noteq> USOCK_CONNECTED then Some (Done (- ENOTCONN, [], s))
          else if count = 0 then Some (Done (0, [], s))
          else sock_read_loop s a count })"

text \<open>The loop of \<^verbatim>\<open>unix_sock_write\<close> from byte \<open>tot\<close> on; the peer cannot change between two sleeps.\<close>

definition sock_write_loop :: "'a usk_scheme \<Rightarrow> addr \<Rightarrow> u8 list \<Rightarrow> nat \<Rightarrow> (write_result \<times> 'a usk_scheme) option" where
  "sock_write_loop s a buf tot = do {
     k \<leftarrow> socks s a;
     case us_peer k of
       None \<Rightarrow> Some (if tot < length buf then WDone (if tot > 0 then int tot else - EPIPE) else WDone (int tot), s)
     | Some b \<Rightarrow> do {
         p \<leftarrow> socks s b;
         (res, p') \<leftarrow> ring_write_loop UNIX_BUF_SIZE (\<not> us_shut_rd p) EPIPE p buf tot;
         Some (res, s\<lparr>socks := (socks s)(b \<mapsto> p')\<rparr>) } }"

definition unix_sock_write ::
    "'a usk_scheme \<Rightarrow> addr option \<Rightarrow> u8 list \<Rightarrow> (write_result \<times> 'a usk_scheme) option" where
  "unix_sock_write s sk buf =
     (case sk of
        None \<Rightarrow> Some (WDone (- EINVAL), s)
      | Some a \<Rightarrow> do {
          k \<leftarrow> socks s a;
          if us_state k \<noteq> USOCK_CONNECTED then Some (WDone (- ENOTCONN), s)
          else if us_shut_wr k then Some (WDone (- EPIPE), s)
          else sock_write_loop s a buf 0 })"

definition unix_sock_shutdown :: "'a usk_scheme \<Rightarrow> addr option \<Rightarrow> int \<Rightarrow> (int \<times> 'a usk_scheme) option" where
  "unix_sock_shutdown s sk how =
     (case sk of
        None \<Rightarrow> Some (- EINVAL, s)
      | Some a \<Rightarrow> do {
          k \<leftarrow> socks s a;
          if us_state k \<noteq> USOCK_CONNECTED then Some (- ENOTCONN, s)
          else if how \<noteq> 0 \<and> how \<noteq> 1 \<and> how \<noteq> 2 then Some (- EINVAL, s)
          else do {
            s1 \<leftarrow> upd_sock a (\<lambda>k. k\<lparr>us_shut_rd := us_shut_rd k \<or> how = 0 \<or> how = 2,
                                  us_shut_wr := us_shut_wr k \<or> how = 1 \<or> how = 2\<rparr>) s;
            Some (0, s1) } })"

section \<open>Readiness\<close>

abbreviation (input) POLLIN :: u16 where "POLLIN \<equiv> 1"
abbreviation (input) POLLOUT :: u16 where "POLLOUT \<equiv> 4"
abbreviation (input) POLLERR :: u16 where "POLLERR \<equiv> 8"
abbreviation (input) POLLHUP :: u16 where "POLLHUP \<equiv> 16"
abbreviation (input) POLLNVAL :: u16 where "POLLNVAL \<equiv> 32"

definition unix_sock_poll :: "'a usk_scheme \<Rightarrow> addr option \<Rightarrow> u16 option" where
  "unix_sock_poll s sk =
     (case sk of
        None \<Rightarrow> Some POLLNVAL
      | Some a \<Rightarrow> do {
          k \<leftarrow> socks s a;
          if us_state k = USOCK_LISTENING then Some (if us_backlog k \<noteq> [] then POLLIN else 0)
          else if us_state k \<noteq> USOCK_CONNECTED then Some POLLHUP
          else do {
            p \<leftarrow> (case us_peer k of None \<Rightarrow> Some None | Some b \<Rightarrow> do { p \<leftarrow> socks s b; Some (Some p) });
            let r0 = (if rb_count k > 0 \<or> us_shut_rd k then POLLIN else 0);
                r1 = (case p of None \<Rightarrow> r0 OR POLLIN OR POLLHUP | Some q \<Rightarrow> if us_shut_wr q then r0 OR POLLIN else r0);
                r2 = (if \<not> us_shut_wr k \<and> (case p of None \<Rightarrow> False | Some q \<Rightarrow> \<not> us_shut_rd q \<and> rb_count q < UNIX_BUF_SIZE)
                      then r1 OR POLLOUT else r1)
            in Some r2 } })"

section \<open>Invariant\<close>

text \<open>Peers point at each other, a queue holds fresh connected sockets nobody else refers to, every socket is
  in at most one queue, and the rings are in bounds.\<close>

definition peer_ok :: "(addr \<Rightarrow> unix_sock option) \<Rightarrow> addr \<Rightarrow> unix_sock \<Rightarrow> bool" where
  "peer_ok S a k \<longleftrightarrow>
     (\<forall>b. us_peer k = Some b \<longrightarrow> b \<noteq> a \<and> us_state k = USOCK_CONNECTED \<and> (\<exists>p. S b = Some p \<and> us_peer p = Some a))"

definition queue_ok :: "(addr \<Rightarrow> unix_sock option) \<Rightarrow> unix_sock \<Rightarrow> bool" where
  "queue_ok S k \<longleftrightarrow>
     (us_backlog k \<noteq> [] \<longrightarrow> us_state k = USOCK_LISTENING) \<and> distinct (us_backlog k) \<and>
     int (length (us_backlog k)) \<le> UNIX_BACKLOG_MAX \<and> us_backlog_max k \<le> UNIX_BACKLOG_MAX \<and>
     (\<forall>q \<in> set (us_backlog k). \<exists>p. S q = Some p \<and> us_refs p = 1 \<and> us_state p = USOCK_CONNECTED \<and> us_path p = [])"

definition socks_ok :: "(addr \<Rightarrow> unix_sock option) \<Rightarrow> addr \<Rightarrow> bool" where
  "socks_ok S nx \<longleftrightarrow>
     (\<forall>a k. S a = Some k \<longrightarrow> a < nx \<and> ring_ok UNIX_BUF_SIZE k \<and> us_refs k > 0 \<and> peer_ok S a k \<and> queue_ok S k) \<and>
     (\<forall>a b k l. S a = Some k \<longrightarrow> S b = Some l \<longrightarrow> a \<noteq> b \<longrightarrow> set (us_backlog k) \<inter> set (us_backlog l) = {})"

definition usk_ok :: "'a usk_scheme \<Rightarrow> bool" where
  "usk_ok s \<longleftrightarrow> vfs_ok s \<and> socks_ok (socks s) (next_addr s)"

definition queued :: "(addr \<Rightarrow> unix_sock option) \<Rightarrow> addr \<Rightarrow> bool" where
  "queued S q \<longleftrightarrow> (\<exists>a k. S a = Some k \<and> q \<in> set (us_backlog k))"

lemma socks_okD:
  assumes "socks_ok S nx" "S a = Some k"
  shows "a < nx" "ring_ok UNIX_BUF_SIZE k" "us_refs k > 0" "peer_ok S a k" "queue_ok S k"
  using assms unfolding socks_ok_def by blast+

lemma socks_ok_disjoint:
  "socks_ok S nx \<Longrightarrow> S a = Some k \<Longrightarrow> S b = Some l \<Longrightarrow> q \<in> set (us_backlog k) \<Longrightarrow> q \<in> set (us_backlog l) \<Longrightarrow> a = b"
  unfolding socks_ok_def by blast

section \<open>Closing\<close>

text \<open>What closing a set of sockets does to the store: they are gone, and their peers are alone.\<close>

definition bury :: "addr set \<Rightarrow> (addr \<Rightarrow> unix_sock option) \<Rightarrow> addr \<Rightarrow> unix_sock option" where
  "bury D S x =
     (if x \<in> D then None
      else map_option (\<lambda>k. if us_peer k \<in> Some ` D then k\<lparr>us_peer := None\<rparr> else k) (S x))"

lemma bury_bury: "bury B (bury A S) = bury (A \<union> B) S"
  by (rule ext) (auto simp: bury_def option.map_comp o_def image_Un intro!: option.map_cong)

lemma bury_SomeD:
  assumes "bury D S x = Some k'"
  obtains k where "S x = Some k" "x \<notin> D" "k' = (if us_peer k \<in> Some ` D then k\<lparr>us_peer := None\<rparr> else k)"
proof (cases "S x")
  case (Some k)
  show thesis by (rule that [OF Some]) (use assms Some in \<open>auto simp: bury_def split: if_splits\<close>)
qed (use assms in \<open>simp add: bury_def split: if_splits\<close>)

lemma bury_Some: "S x = Some k \<Longrightarrow> x \<notin> D \<Longrightarrow>
    bury D S x = Some (if us_peer k \<in> Some ` D then k\<lparr>us_peer := None\<rparr> else k)"
  by (simp add: bury_def)

text \<open>The invariant survives when no queue outside the set refers into it.\<close>

lemma socks_ok_bury:
  assumes ok: "socks_ok S nx" and q: "\<And>a k. S a = Some k \<Longrightarrow> a \<notin> D \<Longrightarrow> set (us_backlog k) \<inter> D = {}"
  shows "socks_ok (bury D S) nx"
  unfolding socks_ok_def
proof (intro conjI allI impI)
  fix a k' assume k': "bury D S a = Some k'"
  then obtain k where k: "S a = Some k" "a \<notin> D" "k' = (if us_peer k \<in> Some ` D then k\<lparr>us_peer := None\<rparr> else k)"
    by (rule bury_SomeD)
  note o = socks_okD [OF ok k(1)]
  show "a < nx" "us_refs k' > 0" using o k(3) by auto
  show "ring_ok UNIX_BUF_SIZE k'" using o(2) k(3) by (simp add: ring_ok_def)
  show "peer_ok (bury D S) a k'"
  proof (unfold peer_ok_def, intro allI impI)
    fix b assume b: "us_peer k' = Some b"
    then have kk: "k' = k" "b \<notin> D" using k(3) by (auto split: if_splits)
    then obtain p where p: "b \<noteq> a" "us_state k = USOCK_CONNECTED" "S b = Some p" "us_peer p = Some a"
      using o(4) b by (auto simp: peer_ok_def)
    then show "b \<noteq> a \<and> us_state k' = USOCK_CONNECTED \<and> (\<exists>p. bury D S b = Some p \<and> us_peer p = Some a)"
      using kk k(2) by (auto simp: bury_Some)
  qed
  have "\<exists>p. bury D S x = Some p \<and> us_refs p = 1 \<and> us_state p = USOCK_CONNECTED \<and> us_path p = []" if x: "x \<in> set (us_backlog k)" for x
  proof -
    obtain p where "S x = Some p" "us_refs p = 1" "us_state p = USOCK_CONNECTED" "us_path p = []"
      using o(5) x by (auto simp: queue_ok_def)
    moreover have "x \<notin> D" using q [OF k(1,2)] x by auto
    ultimately show ?thesis by (auto simp: bury_Some)
  qed
  then show "queue_ok (bury D S) k'" using o(5) k(3) by (auto simp: queue_ok_def)
next
  fix a b k l assume "bury D S a = Some k" "bury D S b = Some l" "a \<noteq> b"
  then show "set (us_backlog k) \<inter> set (us_backlog l) = {}"
    using ok by (elim bury_SomeD) (auto simp: socks_ok_def)
qed

text \<open>Cutting one socket loose by hand is burying it.\<close>

lemma release_peer_bury:
  assumes k: "socks s a = Some k0" "us_peer k0 = us_peer k" and p: "peer_ok (socks s) a k"
    and sym: "\<And>x m. socks s x = Some m \<Longrightarrow> us_peer m = Some a \<Longrightarrow> us_peer k = Some x"
  obtains s' where "release_peer a k s = Some s'" "(socks s')(a := None) = bury {a} (socks s)"
    "s' = s\<lparr>socks := socks s'\<rparr>" "socks s' a \<noteq> None"
    "\<And>x. x \<noteq> a \<Longrightarrow> us_peer k \<noteq> Some x \<Longrightarrow> socks s' x = socks s x"
proof (cases "us_peer k")
  case None
  have "(socks s)(a := None) = bury {a} (socks s)"
  proof
    fix x show "((socks s)(a := None)) x = bury {a} (socks s) x"
      using sym [of x] None by (cases "socks s x") (auto simp: bury_def)
  qed
  then show ?thesis using that [of s] None k by (simp add: release_peer_def)
next
  case (Some b)
  then obtain q where q: "b \<noteq> a" "socks s b = Some q" "us_peer q = Some a" using p by (auto simp: peer_ok_def)
  let ?s = "s\<lparr>socks := (socks s)(b \<mapsto> q\<lparr>us_peer := None\<rparr>, a \<mapsto> k0\<lparr>us_peer := None\<rparr>)\<rparr>"
  have "release_peer a k s = Some ?s" using Some q k by (simp add: release_peer_def upd_sock_def)
  moreover have "(socks ?s)(a := None) = bury {a} (socks s)"
  proof
    fix x show "((socks ?s)(a := None)) x = bury {a} (socks s) x"
      using sym [of x] Some q by (cases "socks s x") (auto simp: bury_def)
  qed
  ultimately show ?thesis using that [of ?s] Some by auto
qed

definition peers :: "(addr \<Rightarrow> unix_sock option) \<Rightarrow> bool" where
  "peers S \<longleftrightarrow> (\<forall>x m. S x = Some m \<longrightarrow> peer_ok S x m)"

lemma socks_ok_peers: "socks_ok S nx \<Longrightarrow> peers S"
  by (simp add: socks_ok_def peers_def)

lemma peers_sym: "peers S \<Longrightarrow> S a = Some k \<Longrightarrow> S x = Some m \<Longrightarrow> us_peer m = Some a \<Longrightarrow> us_peer k = Some x"
  unfolding peers_def peer_ok_def by force

lemma peers_bury:
  assumes "peers S"
  shows "peers (bury D S)"
  unfolding peers_def
proof (intro allI impI)
  fix a k' assume "bury D S a = Some k'"
  then obtain k where k: "S a = Some k" "a \<notin> D" "k' = (if us_peer k \<in> Some ` D then k\<lparr>us_peer := None\<rparr> else k)"
    by (rule bury_SomeD)
  have o: "peer_ok S a k" using assms k(1) by (simp add: peers_def)
  show "peer_ok (bury D S) a k'"
  proof (unfold peer_ok_def, intro allI impI)
    fix b assume b: "us_peer k' = Some b"
    then have kk: "k' = k" "b \<notin> D" using k(3) by (auto split: if_splits)
    then obtain p where p: "b \<noteq> a" "us_state k = USOCK_CONNECTED" "S b = Some p" "us_peer p = Some a"
      using o b by (auto simp: peer_ok_def)
    then show "b \<noteq> a \<and> us_state k' = USOCK_CONNECTED \<and> (\<exists>p. bury D S b = Some p \<and> us_peer p = Some a)"
      using kk k(2) by (auto simp: bury_Some)
  qed
qed

text \<open>Changing a reference count.\<close>

lemma peer_ok_refs: "peer_ok S a (k\<lparr>us_refs := r\<rparr>) = peer_ok S a k"
  by (simp add: peer_ok_def)

lemma refs_old:
  assumes "S a = Some k" "(S(a \<mapsto> k\<lparr>us_refs := r\<rparr>)) x = Some m'"
  obtains m where "S x = Some m" "m' = (if x = a then m\<lparr>us_refs := r\<rparr> else m)"
  using assms that by (cases "x = a") auto

lemma peers_refs:
  assumes p: "peers S" and k: "S a = Some k"
  shows "peers (S(a \<mapsto> k\<lparr>us_refs := r\<rparr>))"
  unfolding peers_def
proof (intro allI impI)
  fix x m' assume "(S(a \<mapsto> k\<lparr>us_refs := r\<rparr>)) x = Some m'"
  then obtain m where m: "S x = Some m" "m' = (if x = a then m\<lparr>us_refs := r\<rparr> else m)" by (rule refs_old [of S a k, OF k])
  have "peer_ok S x m" using p m(1) by (simp add: peers_def)
  then show "peer_ok (S(a \<mapsto> k\<lparr>us_refs := r\<rparr>)) x m'" using m(2) k by (auto simp: peer_ok_def)
qed

lemma socks_ok_refs:
  assumes ok: "socks_ok S nx" and k: "S a = Some k" and nq: "\<not> queued S a" and r: "r > 0"
  shows "socks_ok (S(a \<mapsto> k\<lparr>us_refs := r\<rparr>)) nx"
  unfolding socks_ok_def
proof (intro conjI allI impI)
  let ?S = "S(a \<mapsto> k\<lparr>us_refs := r\<rparr>)"
  fix x m' assume m': "?S x = Some m'"
  then obtain m where m: "S x = Some m" "m' = (if x = a then m\<lparr>us_refs := r\<rparr> else m)" by (rule refs_old [of S a k, OF k])
  note o = socks_okD [OF ok m(1)]
  show "x < nx" "ring_ok UNIX_BUF_SIZE m'" "us_refs m' > 0" using o m(2) r by (auto simp: ring_ok_def)
  show "peer_ok ?S x m'" using peers_refs [OF socks_ok_peers [OF ok] k] m' by (simp add: peers_def)
  have "a \<notin> set (us_backlog m)" using nq m(1) by (auto simp: queued_def)
  then show "queue_ok ?S m'" using o(5) m(2) by (auto simp: queue_ok_def)
next
  fix x y m l assume xy: "(S(a \<mapsto> k\<lparr>us_refs := r\<rparr>)) x = Some m" "(S(a \<mapsto> k\<lparr>us_refs := r\<rparr>)) y = Some l" "x \<noteq> y"
  obtain m0 where "S x = Some m0" "us_backlog m = us_backlog m0" by (rule refs_old [of S a k, OF k xy(1)]) auto
  moreover obtain l0 where "S y = Some l0" "us_backlog l = us_backlog l0" by (rule refs_old [of S a k, OF k xy(2)]) auto
  ultimately show "set (us_backlog m) \<inter> set (us_backlog l) = {}" using ok xy(3) by (auto simp: socks_ok_def)
qed

lemma bury_refs: "a \<in> D \<Longrightarrow> bury D (S(a \<mapsto> v)) = bury D S"
  by (auto simp: bury_def fun_eq_iff)

lemma unref_run_Free: "unref_run (Free a # rest) s = unref_run rest (s\<lparr>socks := (socks s)(a := None)\<rparr>)"
  by (simp add: unref_run.simps [of "Free a # rest"])

lemma unref_run_last:
  assumes "socks s a = Some k" "us_refs k \<le> 1"
    and "release_name a k (s\<lparr>socks := (socks s)(a \<mapsto> k\<lparr>us_refs := us_refs k - 1\<rparr>)\<rparr>) = Some s2" "release_peer a k s2 = Some s3"
  shows "unref_run (Unref a # rest) s = unref_run (map Unref (us_backlog k) @ Free a # rest) s3"
  using assms by (subst unref_run.simps) (simp add: Let_def)

lemma unref_run_queue:
  assumes "peers (socks s)" "distinct qs"
    and "\<And>q. q \<in> set qs \<Longrightarrow> \<exists>p. socks s q = Some p \<and> us_refs p = 1 \<and> us_path p = [] \<and> us_backlog p = []"
  shows "unref_run (map Unref qs @ rest) s = unref_run rest (s\<lparr>socks := bury (set qs) (socks s)\<rparr>)"
  using assms
proof (induction qs arbitrary: s)
  case Nil
  have "bury {} (socks s) = socks s" by (auto simp: bury_def fun_eq_iff option.map_id0 [unfolded id_def])
  then show ?case by simp
next
  case (Cons q qs)
  obtain p where p: "socks s q = Some p" "us_refs p = 1" "us_path p = []" "us_backlog p = []" using Cons.prems(3) by auto
  let ?s1 = "s\<lparr>socks := (socks s)(q \<mapsto> p\<lparr>us_refs := 0\<rparr>)\<rparr>"
  have pr: "peers (socks ?s1)" using peers_refs [OF Cons.prems(1) p(1)] by simp
  have "peer_ok (socks ?s1) q (p\<lparr>us_refs := 0\<rparr>)" using pr by (simp add: peers_def)
  then have po: "peer_ok (socks ?s1) q p" by (simp only: peer_ok_refs)
  have q1: "socks ?s1 q = Some (p\<lparr>us_refs := 0\<rparr>)" by simp
  have sym: "us_peer p = Some x" if "socks ?s1 x = Some m" "us_peer m = Some q" for x m
    using peers_sym [OF pr q1 that] by simp
  obtain s3 where s3: "release_peer q p ?s1 = Some s3" "(socks s3)(q := None) = bury {q} (socks ?s1)" "s3 = ?s1\<lparr>socks := socks s3\<rparr>"
    by (rule release_peer_bury [OF q1 _ po sym]) (simp, blast)
  have "unref_run (map Unref (q # qs) @ rest) s = unref_run (Free q # map Unref qs @ rest) s3"
    using unref_run_last [of s q p ?s1 s3 "map Unref qs @ rest"] p s3(1) by (simp add: release_name_def)
  also have "\<dots> = unref_run (map Unref qs @ rest) (s3\<lparr>socks := (socks s3)(q := None)\<rparr>)" by (rule unref_run_Free)
  also have "s3\<lparr>socks := (socks s3)(q := None)\<rparr> = s\<lparr>socks := bury {q} (socks s)\<rparr>"
    using s3(2) by (subst s3(3)) (simp add: bury_refs)
  also have "unref_run (map Unref qs @ rest) (s\<lparr>socks := bury {q} (socks s)\<rparr>) =
      unref_run rest (s\<lparr>socks := bury (set qs) (bury {q} (socks s))\<rparr>)"
  proof (subst Cons.IH)
    show "peers (socks (s\<lparr>socks := bury {q} (socks s)\<rparr>))" using peers_bury [OF Cons.prems(1)] by simp
    show "distinct qs" using Cons.prems(2) by simp
    fix x assume "x \<in> set qs"
    moreover from this obtain m where "socks s x = Some m" "us_refs m = 1" "us_path m = []" "us_backlog m = []"
      using Cons.prems(3) by auto
    moreover have "x \<noteq> q" using Cons.prems(2) calculation(1) by auto
    ultimately show "\<exists>p. socks (s\<lparr>socks := bury {q} (socks s)\<rparr>) x = Some p \<and> us_refs p = 1 \<and> us_path p = [] \<and> us_backlog p = []"
      by (auto simp: bury_Some)
  qed simp
  finally show ?case by (simp add: bury_bury)
qed

lemma vfs_ok_socks [simp]: "vfs_ok (s\<lparr>socks := S\<rparr>) = vfs_ok s"
  by (simp add: vfs_ok_def)

text \<open>Closing a socket may clear the \<^verbatim>\<open>priv\<close> field of its node, and no other field of any node.\<close>

definition no_priv :: "heap \<Rightarrow> heap" where
  "no_priv h b = map_option (\<lambda>n. n\<lparr>nd_priv := None\<rparr>) (h b)"

lemma no_priv_clear: "h a = Some n \<Longrightarrow> no_priv (h(a \<mapsto> n\<lparr>nd_priv := None\<rparr>)) = no_priv h"
  by (rule ext) (simp add: no_priv_def)

lemma release_name_step:
  assumes "vfs_ok s"
  obtains s' where "release_name a k s = Some s'" "vfs_ok s'" "socks s' = socks s" "s' = s\<lparr>nodes := nodes s'\<rparr>"
    "dirmap (nodes s') = dirmap (nodes s)" "no_priv (nodes s') = no_priv (nodes s)"
proof (cases "us_path k = []")
  case True
  then show ?thesis using that [of s] assms by (simp add: release_name_def)
next
  case False
  show ?thesis
  proof (cases "abs_lookup s (us_path k)")
    case None
    then show ?thesis using that [of s] assms False by (simp add: release_name_def vfs_lookup_eq)
  next
    case (Some na)
    obtain n where n: "nodes s na = Some n" by (rule abs_lookup_node [OF assms Some])
    have ok: "vfs_ok (s\<lparr>nodes := (nodes s)(na \<mapsto> n\<lparr>nd_priv := None\<rparr>)\<rparr>)"
      "dirmap ((nodes s)(na \<mapsto> n\<lparr>nd_priv := None\<rparr>)) = dirmap (nodes s)"
      using vfs_ok_shape [OF assms n, of "n\<lparr>nd_priv := None\<rparr>"] by (auto simp: same_shape_def)
    show ?thesis
    proof (cases "nd_type n = VFS_SOCKET \<and> nd_priv n = Some a")
      case True
      then show ?thesis
        using that [of "s\<lparr>nodes := (nodes s)(na \<mapsto> n\<lparr>nd_priv := None\<rparr>)\<rparr>"] ok n False Some no_priv_clear [of "nodes s", OF n]
        by (simp add: release_name_def vfs_lookup_eq [OF assms])
    next
      case no: False
      then have "release_name a k s = Some s" using n False Some by (auto simp: release_name_def vfs_lookup_eq [OF assms])
      then show ?thesis using that [of s] assms by simp
    qed
  qed
qed

text \<open>Dropping a reference: only the count changes while others remain, and with the last one the socket and
  every connection still queued on it are buried.\<close>

lemma unref_step:
  assumes ok: "usk_ok s" and k: "socks s a = Some k" and nq: "\<not> queued (socks s) a"
  obtains s' where "unix_sock_unref a s = Some s'" "usk_ok s'" "dirmap (nodes s') = dirmap (nodes s)"
    "socks s' = (if us_refs k > 1 then (socks s)(a \<mapsto> k\<lparr>us_refs := us_refs k - 1\<rparr>)
                 else bury (insert a (set (us_backlog k))) (socks s))"
    "s' = s\<lparr>nodes := nodes s', socks := socks s'\<rparr>" "no_priv (nodes s') = no_priv (nodes s)"
proof -
  have v: "vfs_ok s" and so: "socks_ok (socks s) (next_addr s)" using ok by (auto simp: usk_ok_def)
  note o = socks_okD [OF so k]
  let ?s1 = "s\<lparr>socks := (socks s)(a \<mapsto> k\<lparr>us_refs := us_refs k - 1\<rparr>)\<rparr>"
  show ?thesis
  proof (cases "us_refs k > 1")
    case True
    have "unix_sock_unref a s = Some ?s1"
      using True k by (simp add: unix_sock_unref_def unref_run.simps [of "[Unref a]"] unref_run.simps [of "[]"])
    moreover have "socks_ok (socks ?s1) (next_addr s)" using socks_ok_refs [OF so k nq, of "us_refs k - 1"] True by simp
    ultimately show ?thesis using that [of ?s1] v True by (simp add: usk_ok_def)
  next
    case False
    then have r: "us_refs k = 1" using o(3) by simp
    have v1: "vfs_ok ?s1" using v by simp
    obtain s2 where s2: "release_name a k ?s1 = Some s2" "vfs_ok s2" "socks s2 = socks ?s1" "s2 = ?s1\<lparr>nodes := nodes s2\<rparr>"
      "dirmap (nodes s2) = dirmap (nodes ?s1)" "no_priv (nodes s2) = no_priv (nodes ?s1)" by (rule release_name_step [OF v1])
    have pr: "peers (socks s2)" using peers_refs [OF socks_ok_peers [OF so] k] s2(3) by simp
    have a2: "socks s2 a = Some (k\<lparr>us_refs := us_refs k - 1\<rparr>)" using s2(3) by simp
    have "peer_ok (socks s2) a (k\<lparr>us_refs := us_refs k - 1\<rparr>)" using pr a2 by (simp add: peers_def)
    then have po: "peer_ok (socks s2) a k" by (simp only: peer_ok_refs)
    have sym: "us_peer k = Some x" if "socks s2 x = Some m" "us_peer m = Some a" for x m
      using peers_sym [OF pr a2 that] by simp
    obtain s3 where s3: "release_peer a k s2 = Some s3" "(socks s3)(a := None) = bury {a} (socks s2)" "s3 = s2\<lparr>socks := socks s3\<rparr>"
      by (rule release_peer_bury [OF a2 _ po sym]) (simp, blast)
    let ?qs = "us_backlog k"
    have run: "unix_sock_unref a s = unref_run (map Unref ?qs @ [Free a]) s3"
      using unref_run_last [OF k _ s2(1) s3(1), of "[]"] r by (simp add: unix_sock_unref_def)
    let ?S = "bury (insert a (set ?qs)) (socks s)"
    have fin: "unref_run (map Unref ?qs @ [Free a]) s3 = Some (s3\<lparr>socks := ?S\<rparr>)"
    proof (cases "?qs = []")
      case True
      then show ?thesis using s3(2) s2(3) by (simp add: unref_run_Free unref_run.simps [of "[]"] bury_refs)
    next
      case ne: False
      have np: "us_peer k = None" using o(4,5) ne by (cases "us_peer k") (auto simp: peer_ok_def queue_ok_def)
      then have s32: "s3 = s2" using s3(1) by (simp add: release_peer_def)
      have qa: "q \<noteq> a \<and> (\<exists>p. socks s2 q = Some p \<and> us_refs p = 1 \<and> us_path p = [] \<and> us_backlog p = [])" if q: "q \<in> set ?qs" for q
      proof -
        obtain p where p: "socks s q = Some p" "us_refs p = 1" "us_state p = USOCK_CONNECTED" "us_path p = []"
          using o(5) q by (auto simp: queue_ok_def)
        have "us_backlog p = []" using socks_okD(5) [OF so p(1)] p(3) by (auto simp: queue_ok_def)
        moreover have "q \<noteq> a" using nq k q by (auto simp: queued_def)
        ultimately show ?thesis using p s2(3) by simp
      qed
      have "distinct ?qs" using o(5) by (simp add: queue_ok_def)
      then have "unref_run (map Unref ?qs @ [Free a]) s2 = unref_run [Free a] (s2\<lparr>socks := bury (set ?qs) (socks s2)\<rparr>)"
        using pr qa by (intro unref_run_queue) auto
      also have "\<dots> = Some (s2\<lparr>socks := (bury (set ?qs) (socks s2))(a := None)\<rparr>)"
        by (simp add: unref_run_Free unref_run.simps [of "[]"])
      also have "(bury (set ?qs) (socks s2))(a := None) = ?S"
      proof
        fix x
        have "us_peer m \<noteq> Some a" if "socks s x = Some m" "x \<noteq> a" for m
          using sym [of x m] that np s2(3) by auto
        then show "((bury (set ?qs) (socks s2))(a := None)) x = ?S x"
          using s2(3) by (cases "socks s x") (auto simp: bury_def)
      qed
      finally show ?thesis using s32 by simp
    qed
    have "set (us_backlog l) \<inter> insert a (set ?qs) = {}" if "socks s b = Some l" "b \<notin> insert a (set ?qs)" for b l
      using that nq socks_ok_disjoint [OF so that(1) k] by (auto simp: queued_def)
    then have "socks_ok ?S (next_addr s)" by (intro socks_ok_bury [OF so]) auto
    moreover have nx: "next_addr s3 = next_addr s" "nodes s3 = nodes s2" by (subst s3(3), subst s2(4), simp)+
    moreover have "vfs_ok s3" using s2(2) s3(3) by (metis vfs_ok_socks)
    ultimately have "usk_ok (s3\<lparr>socks := ?S\<rparr>)" by (simp add: usk_ok_def)
    moreover have "s3\<lparr>socks := ?S\<rparr> = s\<lparr>nodes := nodes s2, socks := ?S\<rparr>" by (subst s3(3), subst s2(4)) simp
    ultimately show ?thesis
      using that [of "s3\<lparr>socks := ?S\<rparr>"] run fin False s2(5,6) nx(2) by simp
  qed
qed

section \<open>Other steps of the store\<close>

lemma socks_okI:
  assumes "\<And>a k. S a = Some k \<Longrightarrow> a < nx \<and> ring_ok UNIX_BUF_SIZE k \<and> us_refs k > 0 \<and> peer_ok S a k \<and> queue_ok S k"
    and "\<And>a b k l. S a = Some k \<Longrightarrow> S b = Some l \<Longrightarrow> a \<noteq> b \<Longrightarrow> set (us_backlog k) \<inter> set (us_backlog l) = {}"
  shows "socks_ok S nx"
  using assms unfolding socks_ok_def by blast

text \<open>One socket changes, but neither its peer nor its queue.\<close>

lemma socks_ok_upd:
  assumes ok: "socks_ok S nx" and k: "S a = Some k" and ring: "ring_ok UNIX_BUF_SIZE k'" and refs: "us_refs k' > 0"
    and peer: "us_peer k' = us_peer k" "us_peer k \<noteq> None \<Longrightarrow> us_state k' = USOCK_CONNECTED"
    and bl: "us_backlog k' = us_backlog k" "us_backlog_max k' \<le> UNIX_BACKLOG_MAX"
    "us_backlog k \<noteq> [] \<Longrightarrow> us_state k' = USOCK_LISTENING"
    and q: "queued S a \<Longrightarrow> us_refs k' = 1 \<and> us_state k' = USOCK_CONNECTED \<and> us_path k' = []"
  shows "socks_ok (S(a \<mapsto> k')) nx"
proof (rule socks_okI)
  let ?S = "S(a \<mapsto> k')"
  have sp: "us_peer m' = us_peer m" if "?S x = Some m'" "S x = Some m" for x m m' using that k peer(1) by (auto split: if_splits)
  fix x m' assume m': "?S x = Some m'"
  then obtain m where m: "S x = Some m" using k by (auto split: if_splits)
  note o = socks_okD [OF ok m]
  have new: "\<exists>p'. ?S b = Some p' \<and> us_peer p' = us_peer p" if "S b = Some p" for b p using that k peer(1) by (cases "b = a") auto
  have st: "us_peer m \<noteq> None \<Longrightarrow> us_state m' = USOCK_CONNECTED"
    using m' m k peer(2) o(4) by (auto simp: peer_ok_def split: if_splits)
  have pk: "peer_ok ?S x m'"
    unfolding peer_ok_def
  proof (intro allI impI)
    fix b assume "us_peer m' = Some b"
    then have b: "us_peer m = Some b" using sp [OF m' m] by simp
    then obtain p where p: "S b = Some p" "us_peer p = Some x" "b \<noteq> x" using o(4) by (auto simp: peer_ok_def)
    then show "b \<noteq> x \<and> us_state m' = USOCK_CONNECTED \<and> (\<exists>p. ?S b = Some p \<and> us_peer p = Some x)"
      using new [OF p(1)] st b by auto
  qed
  have "\<exists>p. ?S y = Some p \<and> us_refs p = 1 \<and> us_state p = USOCK_CONNECTED \<and> us_path p = []" if y: "y \<in> set (us_backlog m)" for y
    using o(5) y q m by (cases "y = a") (auto simp: queue_ok_def queued_def)
  moreover have "us_backlog m' = us_backlog m" "us_backlog_max m' \<le> UNIX_BACKLOG_MAX"
    "us_backlog m \<noteq> [] \<longrightarrow> us_state m' = USOCK_LISTENING"
    using o(5) m' m k bl by (auto simp: queue_ok_def split: if_splits)
  ultimately have "queue_ok ?S m'" using o(5) unfolding queue_ok_def by metis
  then show "x < nx \<and> ring_ok UNIX_BUF_SIZE m' \<and> us_refs m' > 0 \<and> peer_ok ?S x m' \<and> queue_ok ?S m'"
    using pk o(1,2,3) m' m k ring refs by (auto split: if_splits)
next
  fix x y m l assume "(S(a \<mapsto> k')) x = Some m" "(S(a \<mapsto> k')) y = Some l" "x \<noteq> y"
  then obtain m0 l0 where "S x = Some m0" "S y = Some l0" "us_backlog m = us_backlog m0" "us_backlog l = us_backlog l0"
    using k bl(1) by (cases "x = a"; cases "y = a") auto
  then show "set (us_backlog m) \<inter> set (us_backlog l) = {}" using ok \<open>x \<noteq> y\<close> by (auto simp: socks_ok_def)
qed

text \<open>A new socket, two sockets linked, a connection queued and taken.\<close>

lemma socks_ok_add:
  assumes ok: "socks_ok S nx" and "nx \<le> a"
  shows "socks_ok (S(a \<mapsto> new_sock)) (Suc a)"
proof -
  have fresh: "S a = None" using socks_okD(1) [OF ok] assms(2) by (cases "S a") fastforce+
  show ?thesis
  proof (rule socks_okI)
    fix x k assume k: "(S(a \<mapsto> new_sock)) x = Some k"
    show "x < Suc a \<and> ring_ok UNIX_BUF_SIZE k \<and> us_refs k > 0 \<and> peer_ok (S(a \<mapsto> new_sock)) x k \<and> queue_ok (S(a \<mapsto> new_sock)) k"
    proof (cases "x = a")
      case True
      then show ?thesis using k by (auto simp: new_sock_def ring_ok_def peer_ok_def queue_ok_def)
    next
      case False
      then have x: "S x = Some k" using k by simp
      note o = socks_okD [OF ok x]
      have "peer_ok (S(a \<mapsto> new_sock)) x k" using o(4) fresh by (auto simp: peer_ok_def)
      moreover have "queue_ok (S(a \<mapsto> new_sock)) k" using o(5) fresh by (auto simp: queue_ok_def)
      ultimately show ?thesis using o(1-3) assms(2) by auto
    qed
  next
    fix x y k l assume "(S(a \<mapsto> new_sock)) x = Some k" "(S(a \<mapsto> new_sock)) y = Some l" "x \<noteq> y"
    then show "set (us_backlog k) \<inter> set (us_backlog l) = {}"
      using ok by (cases "x = a"; cases "y = a") (auto simp: socks_ok_def new_sock_def)
  qed
qed

definition linked_sock :: "addr \<Rightarrow> unix_sock \<Rightarrow> unix_sock" where
  "linked_sock b k = k\<lparr>us_peer := Some b, us_state := USOCK_CONNECTED\<rparr>"

lemma sock_link_eq:
  assumes "socks s a = Some k" "socks s b = Some m" "a \<noteq> b"
  shows "sock_link a b s = Some (s\<lparr>socks := (socks s)(a \<mapsto> linked_sock b k, b \<mapsto> linked_sock a m)\<rparr>)"
  using assms by (simp add: sock_link_def upd_sock_def linked_sock_def fun_upd_twist)

lemma socks_ok_link:
  assumes ok: "socks_ok S nx" and k: "S a = Some k" "us_peer k = None" "us_backlog k = []"
    and m: "S b = Some m" "us_peer m = None" "us_backlog m = []" and ab: "a \<noteq> b"
  shows "socks_ok (S(a \<mapsto> linked_sock b k, b \<mapsto> linked_sock a m)) nx"
proof (rule socks_okI)
  let ?S = "S(a \<mapsto> linked_sock b k, b \<mapsto> linked_sock a m)"
  have other: "?S x = S x" if "x \<noteq> a" "x \<noteq> b" for x using that by simp
  fix x l' assume l': "?S x = Some l'"
  then obtain l where l: "S x = Some l" using k m by (auto split: if_splits)
  note o = socks_okD [OF ok l]
  have cases: "x = a \<and> l' = linked_sock b k \<or> x = b \<and> l' = linked_sock a m \<or> x \<noteq> a \<and> x \<noteq> b \<and> l' = l"
    using l' l by (auto split: if_splits)
  have nopeer: "us_peer l \<noteq> Some a \<and> us_peer l \<noteq> Some b" using o(4) k m by (auto simp: peer_ok_def)
  have "peer_ok ?S x l'" using cases o(4) nopeer k m ab by (auto simp: peer_ok_def linked_sock_def)
  moreover have "queue_ok ?S l'"
  proof -
    have ql: "us_backlog l' = us_backlog l" "us_backlog_max l' = us_backlog_max l" "us_backlog l \<noteq> [] \<longrightarrow> us_state l' = us_state l"
      using cases l k m by (auto simp: linked_sock_def)
    have "\<exists>p. ?S y = Some p \<and> us_refs p = 1 \<and> us_state p = USOCK_CONNECTED \<and> us_path p = []" if y: "y \<in> set (us_backlog l)" for y
      using o(5) y k m by (cases "y = a"; cases "y = b") (auto simp: queue_ok_def linked_sock_def)
    then show ?thesis using o(5) ql by (auto simp: queue_ok_def)
  qed
  moreover have "ring_ok UNIX_BUF_SIZE l'" "us_refs l' > 0"
    using cases o(2,3) l k m by (auto simp: linked_sock_def ring_ok_def)
  ultimately show "x < nx \<and> ring_ok UNIX_BUF_SIZE l' \<and> us_refs l' > 0 \<and> peer_ok ?S x l' \<and> queue_ok ?S l'" using o(1) by simp
next
  fix x y l l' assume xy: "(S(a \<mapsto> linked_sock b k, b \<mapsto> linked_sock a m)) x = Some l"
    "(S(a \<mapsto> linked_sock b k, b \<mapsto> linked_sock a m)) y = Some l'" "x \<noteq> y"
  have "\<exists>m0. S z = Some m0 \<and> us_backlog m0 = us_backlog l0" if "(S(a \<mapsto> linked_sock b k, b \<mapsto> linked_sock a m)) z = Some l0" for z l0
    using that k m by (auto simp: linked_sock_def split: if_splits)
  from this [OF xy(1)] this [OF xy(2)] show "set (us_backlog l) \<inter> set (us_backlog l') = {}"
    using ok xy(3) unfolding socks_ok_def by metis
qed

lemma socks_ok_queue:
  assumes ok: "socks_ok S nx" and k: "S l = Some k" "us_state k = USOCK_LISTENING"
    and d: "distinct qs" "int (length qs) \<le> UNIX_BACKLOG_MAX"
    and q: "\<And>q. q \<in> set qs \<Longrightarrow> q \<noteq> l \<and> (\<exists>p. S q = Some p \<and> us_refs p = 1 \<and> us_state p = USOCK_CONNECTED \<and> us_path p = [])"
    and dis: "\<And>a m. S a = Some m \<Longrightarrow> a \<noteq> l \<Longrightarrow> set qs \<inter> set (us_backlog m) = {}"
  shows "socks_ok (S(l \<mapsto> k\<lparr>us_backlog := qs\<rparr>)) nx"
proof (rule socks_okI)
  let ?S = "S(l \<mapsto> k\<lparr>us_backlog := qs\<rparr>)"
  fix x m' assume m': "?S x = Some m'"
  then obtain m where m: "S x = Some m" "m' = (if x = l then m\<lparr>us_backlog := qs\<rparr> else m)" using k by (cases "x = l") auto
  note o = socks_okD [OF ok m(1)]
  have "peer_ok ?S x m'" using o(4) m(2) k by (auto simp: peer_ok_def)
  moreover have "queue_ok ?S m'"
  proof (cases "x = l")
    case True
    then show ?thesis using m o(5) k d q by (auto simp: queue_ok_def)
  next
    case False
    then show ?thesis using m o(5) k by (auto simp: queue_ok_def)
  qed
  ultimately show "x < nx \<and> ring_ok UNIX_BUF_SIZE m' \<and> us_refs m' > 0 \<and> peer_ok ?S x m' \<and> queue_ok ?S m'"
    using o(1-3) m(2) by (auto simp: ring_ok_def)
next
  fix x y m m' assume xy: "(S(l \<mapsto> k\<lparr>us_backlog := qs\<rparr>)) x = Some m" "(S(l \<mapsto> k\<lparr>us_backlog := qs\<rparr>)) y = Some m'" "x \<noteq> y"
  then show "set (us_backlog m) \<inter> set (us_backlog m') = {}"
    using ok dis [of x m] dis [of y m'] by (cases "x = l"; cases "y = l") (auto simp: socks_ok_def)
qed

end
