(* ===== verification/Pipe.thy ===== *)
theory Pipe
  imports Byte_Ring
begin

text \<open>
  Anonymous pipes, \<^verbatim>\<open>struct vfs_pipe\<close>, \<^verbatim>\<open>pipe_read\<close> and \<^verbatim>\<open>pipe_write\<close> of \<^verbatim>\<open>kernel/vfs/vfs.c\<close>.
  Reads end when the last write end closes, writes fail when the last read end does; both
  are the ring loops of \<open>Byte_Ring\<close> with that condition.
\<close>

section \<open>State and operations\<close>

abbreviation (input) PIPE_BUF_SIZE :: nat where "PIPE_BUF_SIZE \<equiv> 32768"

record vfs_pipe = byte_ring +
  p_refs_r :: int
  p_refs_w :: int

definition pipe_read :: "vfs_pipe \<Rightarrow> nat \<Rightarrow> (int \<times> u8 list \<times> vfs_pipe) blocking" where
  "pipe_read p count = ring_read_loop PIPE_BUF_SIZE (p_refs_w p \<noteq> 0) p count"

definition pipe_write ::
    "vfs_pipe \<Rightarrow> u8 list \<Rightarrow> nat \<Rightarrow> (write_result \<times> vfs_pipe) option" where
  "pipe_write p buf tot = ring_write_loop PIPE_BUF_SIZE (p_refs_r p \<noteq> 0) EPIPE p buf tot"

text \<open>A fresh pipe, as \<^verbatim>\<open>vfs_pipe\<close> (the system call) makes it: one descriptor per end.\<close>

definition new_pipe :: vfs_pipe where
  "new_pipe = \<lparr>rb_buf = (\<lambda>_. 0), rb_head = 0, rb_count = 0, p_refs_r = 1, p_refs_w = 1\<rparr>"

abbreviation pipe_ok :: "vfs_pipe \<Rightarrow> bool" where
  "pipe_ok \<equiv> ring_ok PIPE_BUF_SIZE"

abbreviation pipe_contents :: "vfs_pipe \<Rightarrow> u8 list" where
  "pipe_contents \<equiv> ring_contents PIPE_BUF_SIZE"

section \<open>All interleavings\<close>

text \<open>
  Any number of tasks use the pipe, in any order: a read call runs until it returns or
  sleeps, a write call runs from any point of its buffer until it returns or sleeps, and
  descriptors of either end come and go. The two lists record the bytes accepted from
  writers and the bytes handed to readers.
\<close>

inductive pipe_reach :: "vfs_pipe \<Rightarrow> u8 list \<Rightarrow> u8 list \<Rightarrow> bool" where
  pcreate: "pipe_reach new_pipe [] []"
| pread: "pipe_reach p acc del \<Longrightarrow> pipe_read p n = Done (r, bs, p') \<Longrightarrow> pipe_reach p' acc (del @ bs)"
| pwrite: "pipe_reach p acc del \<Longrightarrow> tot \<le> length buf \<Longrightarrow> pipe_write p buf tot = Some (res, p') \<Longrightarrow>
    pipe_reach p' (acc @ take (write_upto tot res - tot) (drop tot buf)) del"
| prefs: "pipe_reach p acc del \<Longrightarrow> pipe_reach (p\<lparr>p_refs_r := r, p_refs_w := w\<rparr>) acc del"

lemma pipe_reach_accounted: "pipe_reach p acc del \<Longrightarrow> accounted pipe_ok pipe_contents p acc del"
proof (induction rule: pipe_reach.induct)
  case pcreate
  show ?case by (simp add: accounted_def new_pipe_def ring_ok_def ring_contents_def)
next
  case (pread p acc del n r bs p')
  then have ok: "pipe_ok p" by (simp add: accounted_def)
  note rd = ring_read_loop_Done [OF pread.hyps(2) [unfolded pipe_read_def] ok]
  from pread.IH rd show ?case by (simp add: accounted_def)
next
  case (pwrite p acc del tot buf res p')
  then have ok: "pipe_ok p" by (simp add: accounted_def)
  from ring_write_loop_SomeD [OF pwrite.hyps(3) [unfolded pipe_write_def] ok pwrite.hyps(2)] pwrite.IH
  show ?case by (auto simp: accounted_def)
next
  case (prefs p acc del r w)
  then show ?case by (simp add: accounted_def ring_ok_def ring_contents_def)
qed

section \<open>Properties\<close>


text \<open>A pipe of four bytes that two readers drain.\<close>

definition sample_pipe :: vfs_pipe where
  "sample_pipe = ring_put PIPE_BUF_SIZE [1, 2, 3, 4] new_pipe"

lemma sample_pipe_write: "pipe_write new_pipe [1, 2, 3, 4] 0 = Some (WDone 4, sample_pipe)"
  by (simp add: pipe_write_def ring_write_loop.simps new_pipe_def sample_pipe_def)

lemma sample_pipe_reach: "pipe_reach sample_pipe [1, 2, 3, 4] []"
  using pipe_reach.pwrite [OF pipe_reach.pcreate _ sample_pipe_write] by simp

lemma sample_pipe_read:
  "pipe_read sample_pipe 3 = Done (3, [1, 2, 3], ring_advance PIPE_BUF_SIZE 3 sample_pipe)"
  by (simp add: pipe_read_def ring_read_loop_def sample_pipe_def new_pipe_def ring_put_def ring_get_def Let_def
      ring_copy_out_def array_get_def array_put_def upt_rec)


text \<open>\<^verbatim>\<open>pipe_write\<close> always comes back: it returns the whole count, or goes to sleep with the ring
  exactly full while a read end is open, or, when no read end is open, stops where it is and
  returns the bytes written so far (\<^verbatim>\<open>-EPIPE\<close> when there are none).\<close>

theorem pipe_write_outcome:
  assumes "pipe_ok p" and "tot \<le> length buf"
  shows "\<exists>res p'. pipe_write p buf tot = Some (res, p') \<and>
      (case res of
         WBlocked t \<Rightarrow> tot \<le> t \<and> t < length buf \<and> rb_count p' = PIPE_BUF_SIZE \<and> p_refs_r p \<noteq> 0 \<and>
           pipe_contents p' = pipe_contents p @ take (t - tot) (drop tot buf)
       | WDone r \<Rightarrow>
           r = int (length buf) \<and> pipe_contents p' = pipe_contents p @ drop tot buf \<or>
           p_refs_r p = 0 \<and> p' = p \<and> r = (if tot > 0 then int tot else - EPIPE))"
proof -
  have "0 < EPIPE" by simp
  from ring_write_loop_outcome [OF assms this, of "p_refs_r p \<noteq> 0"] show ?thesis
    by (simp only: pipe_write_def not_not)
qed

theorem pipe_write_outcome_witness:
  "pipe_ok new_pipe \<and> (\<exists>res p'. pipe_write new_pipe [7] 0 = Some (res, p'))"
proof -
  have ok: "pipe_ok new_pipe" by (simp add: new_pipe_def ring_ok_def)
  show ?thesis using pipe_write_outcome [OF ok, of 0 "[7]"] ok by auto
qed

text \<open>A writer asleep on a full pipe cannot starve while someone reads: any read of at least one
  byte from a full pipe returns at once, and the writer continued after it gets at least one
  more byte into the pipe.\<close>

theorem pipe_reader_frees_writer:
  assumes ok: "pipe_ok p" and full: "rb_count p = PIPE_BUF_SIZE" and n: "0 < n"
    and tot: "tot < length buf" and readers: "p_refs_r p \<noteq> 0"
  shows "\<exists>r bs p' res p''. pipe_read p n = Done (r, bs, p') \<and> 0 < r \<and>
     pipe_write p' buf tot = Some (res, p'') \<and> tot < write_upto tot res"
proof -
  from ring_reader_frees_writer [OF ok full n _ tot, of EPIPE "p_refs_w p \<noteq> 0"]
  obtain r bs p' res p'' where w: "pipe_read p n = Done (r, bs, p')" "0 < r"
    "ring_write_loop PIPE_BUF_SIZE True EPIPE p' buf tot = Some (res, p'')" "tot < write_upto tot res"
    by (auto simp: pipe_read_def)
  have "byte_ring.more p' = byte_ring.more p"
    using ring_read_loop_Done(5) [OF w(1) [unfolded pipe_read_def] ok] .
  then have "p_refs_r p' = p_refs_r p" by (cases p; cases p') simp
  with w readers show ?thesis by (auto simp: pipe_write_def)
qed

definition full_pipe :: vfs_pipe where
  "full_pipe = new_pipe\<lparr>rb_count := PIPE_BUF_SIZE\<rparr>"

theorem pipe_reader_frees_writer_witness:
  "pipe_ok full_pipe \<and> rb_count full_pipe = PIPE_BUF_SIZE \<and>
   (\<exists>r bs p' res p''. pipe_read full_pipe 1 = Done (r, bs, p') \<and> 0 < r \<and>
     pipe_write p' [9, 9] 1 = Some (res, p'') \<and> 1 < write_upto 1 res)"
proof -
  have h: "pipe_ok full_pipe" "rb_count full_pipe = PIPE_BUF_SIZE" "p_refs_r full_pipe \<noteq> 0"
    by (simp_all add: full_pipe_def new_pipe_def ring_ok_def)
  show ?thesis using h pipe_reader_frees_writer [OF h(1,2) zero_less_one _ h(3), of 1 "[9, 9]"] by simp
qed

end
