(* ===== verification/Vfs_Fd.thy ===== *)
theory Vfs_Fd
  imports Unix_Sock Pipe
begin

text \<open>
  Open files and file descriptors, \<^verbatim>\<open>kernel/vfs/vfs.c\<close>. An open file refers to a node, a pipe, a Unix socket
  or an internet socket; descriptor tables of tasks refer to open files, which are reference counted.
  Device drivers and the internet protocols are reached through function pointers and are parameters here: they
  act on a state of their own, \<open>dev\<close>.
\<close>

section \<open>State\<close>

abbreviation (input) O_RDONLY :: u32 where "O_RDONLY \<equiv> 0"
abbreviation (input) O_WRONLY :: u32 where "O_WRONLY \<equiv> 1"
abbreviation (input) O_RDWR :: u32 where "O_RDWR \<equiv> 2"
abbreviation (input) O_CREAT :: u32 where "O_CREAT \<equiv> 0x40"
abbreviation (input) O_TRUNC :: u32 where "O_TRUNC \<equiv> 0x200"
abbreviation (input) O_APPEND :: u32 where "O_APPEND \<equiv> 0x400"
abbreviation (input) AF_UNIX :: int where "AF_UNIX \<equiv> 1"
abbreviation (input) AF_INET :: int where "AF_INET \<equiv> 2"

record vfs_file =
  f_node :: "addr option"
  f_pipe :: "addr option"
  f_sock :: "addr option"
  f_inet :: "addr option"
  f_domain :: int
  f_pos :: u64
  f_flags :: u32
  f_refs :: int
  f_readdir_node :: "addr option"
  f_readdir_index :: u64

text \<open>\<^verbatim>\<open>struct file_ops\<close>: a null function pointer is \<open>None\<close>. A write is
  described up to its return or its first sleep.\<close>

record 'd file_ops =
  fo_read :: "(addr option \<Rightarrow> nat \<Rightarrow> u64 \<Rightarrow> 'd \<Rightarrow> (int \<times> u8 list \<times> 'd) blocking) option"
  fo_write :: "(addr option \<Rightarrow> u8 list \<Rightarrow> u64 \<Rightarrow> 'd \<Rightarrow> write_result \<times> 'd) option"
  fo_ioctl :: "(addr option \<Rightarrow> u64 \<Rightarrow> addr option \<Rightarrow> 'd \<Rightarrow> int \<times> 'd) option"
  fo_poll :: "(addr option \<Rightarrow> 'd \<Rightarrow> u16) option"
  fo_close :: "(addr option \<Rightarrow> 'd \<Rightarrow> 'd) option"
  fo_open :: "(addr option \<Rightarrow> 'd \<Rightarrow> 'd) option"

text \<open>The calls into the internet protocols, and the pseudo terminal allocator of \<open>Pty\<close>, which returns the
  node of a free master.\<close>

record 'd ext_ops =
  in_unref :: "addr \<Rightarrow> 'd \<Rightarrow> 'd"
  in_poll :: "addr \<Rightarrow> 'd \<Rightarrow> u16"
  in_read :: "addr \<Rightarrow> nat \<Rightarrow> 'd \<Rightarrow> (int \<times> u8 list \<times> 'd) blocking"
  in_write :: "addr \<Rightarrow> u8 list \<Rightarrow> 'd \<Rightarrow> write_result \<times> 'd"
  ptmx_alloc :: "'d \<Rightarrow> addr option \<times> 'd"

text \<open>\<open>heap_junk\<close> is what freshly allocated memory happens to hold.\<close>

record 'd kern = usk +
  files :: "addr \<Rightarrow> vfs_file option"
  pipes :: "addr \<Rightarrow> vfs_pipe option"
  dev :: 'd
  dev_ops :: "addr \<Rightarrow> 'd file_ops"
  ext :: "'d ext_ops"
  heap_junk :: bytes_array

definition fd_table :: "('d, 'a) kern_scheme \<Rightarrow> (nat \<Rightarrow> addr option) option" where
  "fd_table s = map_option t_fds (sched_current s)"

text \<open>\<^verbatim>\<open>tbl[i] = v\<close> in the table of task \<open>t\<close>, and in the table of the current task.\<close>

definition set_slot :: "nat \<Rightarrow> nat \<Rightarrow> addr option \<Rightarrow> ('d, 'a) kern_scheme \<Rightarrow> ('d, 'a) kern_scheme" where
  "set_slot t i v s =
     s\<lparr>g_tasks := (g_tasks s)(t := (g_tasks s t)\<lparr>t_fds := (t_fds (g_tasks s t))(i := v)\<rparr>)\<rparr>"

definition set_fd :: "nat \<Rightarrow> addr option \<Rightarrow> ('d, 'a) kern_scheme \<Rightarrow> ('d, 'a) kern_scheme" where
  "set_fd i v s = (case g_current s of None \<Rightarrow> s | Some t \<Rightarrow> set_slot t i v s)"

definition upd_file :: "addr \<Rightarrow> (vfs_file \<Rightarrow> vfs_file) \<Rightarrow> ('d, 'a) kern_scheme \<Rightarrow> ('d, 'a) kern_scheme option" where
  "upd_file f g s = (case files s f of None \<Rightarrow> None | Some x \<Rightarrow> Some (s\<lparr>files := (files s)(f \<mapsto> g x)\<rparr>))"

definition upd_pipe :: "addr \<Rightarrow> (vfs_pipe \<Rightarrow> vfs_pipe) \<Rightarrow> ('d, 'a) kern_scheme \<Rightarrow> ('d, 'a) kern_scheme option" where
  "upd_pipe p g s = (case pipes s p of None \<Rightarrow> None | Some x \<Rightarrow> Some (s\<lparr>pipes := (pipes s)(p \<mapsto> g x)\<rparr>))"

section \<open>Reference counts\<close>

definition wr_end :: "vfs_file \<Rightarrow> bool" where
  "wr_end x \<longleftrightarrow> f_flags x AND O_WRONLY \<noteq> 0"

definition pipe_add :: "vfs_file \<Rightarrow> int \<Rightarrow> vfs_pipe \<Rightarrow> vfs_pipe" where
  "pipe_add x d p = (if wr_end x then p\<lparr>p_refs_w := p_refs_w p + d\<rparr> else p\<lparr>p_refs_r := p_refs_r p + d\<rparr>)"

definition file_ref :: "addr \<Rightarrow> ('d, 'a) kern_scheme \<Rightarrow> ('d, 'a) kern_scheme option" where
  "file_ref f s = do {
     x \<leftarrow> files s f;
     s1 \<leftarrow> upd_file f (\<lambda>x. x\<lparr>f_refs := f_refs x + 1\<rparr>) s;
     s2 \<leftarrow> (case f_pipe x of None \<Rightarrow> Some s1 | Some p \<Rightarrow> upd_pipe p (pipe_add x 1) s1);
     case f_sock x of None \<Rightarrow> Some s2 | Some k \<Rightarrow> unix_sock_ref k s2 }"

text \<open>What the last reference releases: the pipe when its other end is gone too, then the node.\<close>

definition release_pipe :: "vfs_file \<Rightarrow> ('d, 'a) kern_scheme \<Rightarrow> ('d, 'a) kern_scheme option" where
  "release_pipe x s =
     (case f_pipe x of
        None \<Rightarrow> Some s
      | Some p \<Rightarrow> do {
          q \<leftarrow> pipes s p;
          Some (if p_refs_r q = 0 \<and> p_refs_w q = 0 then s\<lparr>pipes := (pipes s)(p := None)\<rparr> else s) })"

definition dev_close :: "vfs_node \<Rightarrow> ('d, 'a) kern_scheme \<Rightarrow> ('d, 'a) kern_scheme" where
  "dev_close n s =
     (if nd_type n = VFS_DEVICE then
        (case nd_ops n of
           None \<Rightarrow> s
         | Some ops \<Rightarrow> (case fo_close (dev_ops s ops) of None \<Rightarrow> s | Some cl \<Rightarrow> s\<lparr>dev := cl (nd_priv n) (dev s)\<rparr>))
      else s)"

definition dev_open :: "vfs_node \<Rightarrow> ('d, 'a) kern_scheme \<Rightarrow> ('d, 'a) kern_scheme" where
  "dev_open n s =
     (if nd_type n = VFS_DEVICE then
        (case nd_ops n of
           None \<Rightarrow> s
         | Some ops \<Rightarrow> (case fo_open (dev_ops s ops) of None \<Rightarrow> s | Some op \<Rightarrow> s\<lparr>dev := op (nd_priv n) (dev s)\<rparr>))
      else s)"

definition release_node :: "vfs_file \<Rightarrow> ('d, 'a) kern_scheme \<Rightarrow> ('d, 'a) kern_scheme option" where
  "release_node x s =
     (case f_node x of
        None \<Rightarrow> Some s
      | Some a \<Rightarrow> do {
          n \<leftarrow> nodes s a;
          let n1 = n\<lparr>nd_open_refs := nd_open_refs n - 1\<rparr>;
              s1 = s\<lparr>nodes := (nodes s)(a \<mapsto> n1)\<rparr> in
          if nd_open_refs n1 = 0 then
            (let s2 = dev_close n1 s1
             in if nd_unlinked n1
                then Some (s2\<lparr>nodes := (nodes s2)(a := None), wfs := snd (wrf_notify_free (wfs s2) n1)\<rparr>)
                else Some s2)
          else Some s1 })"

definition file_unref :: "addr \<Rightarrow> ('d, 'a) kern_scheme \<Rightarrow> ('d, 'a) kern_scheme option" where
  "file_unref f s = do {
     x \<leftarrow> files s f;
     s1 \<leftarrow> (case f_pipe x of None \<Rightarrow> Some s | Some p \<Rightarrow> upd_pipe p (pipe_add x (-1)) s);
     s2 \<leftarrow> (case f_sock x of None \<Rightarrow> Some s1 | Some k \<Rightarrow> unix_sock_unref k s1);
     s3 \<leftarrow> upd_file f (\<lambda>x. x\<lparr>f_refs := f_refs x - 1\<rparr>) s2;
     if f_refs x - 1 = 0 then do {
       s4 \<leftarrow> release_pipe x s3;
       s5 \<leftarrow> release_node x s4;
       Some (s5\<lparr>files := (files s5)(f := None)\<rparr>) }
     else Some s3 }"

section \<open>Descriptors\<close>

definition fd_alloc :: "addr \<Rightarrow> ('d, 'a) kern_scheme \<Rightarrow> int \<times> ('d, 'a) kern_scheme" where
  "fd_alloc f s =
     (case fd_table s of
        None \<Rightarrow> (- EBADF, s)
      | Some tbl \<Rightarrow>
          (case scan (\<lambda>i. tbl i = None) 3 VFS_MAX_FDS of
             Some i \<Rightarrow> (int i, set_fd i (Some f) s)
           | None \<Rightarrow> (- ENOMEM, s)))"

definition fd_get :: "('d, 'a) kern_scheme \<Rightarrow> int \<Rightarrow> addr option" where
  "fd_get s fd =
     (case fd_table s of
        None \<Rightarrow> None
      | Some tbl \<Rightarrow> if fd < 0 \<or> fd \<ge> int VFS_MAX_FDS then None else tbl (nat fd))"

text \<open>The open file of a descriptor, for the calls that only use it.\<close>

definition fd_file :: "('d, 'a) kern_scheme \<Rightarrow> int \<Rightarrow> (addr \<times> vfs_file) option option" where
  "fd_file s fd =
     (case fd_get s fd of
        None \<Rightarrow> Some None
      | Some f \<Rightarrow> do { x \<leftarrow> files s f; Some (Some (f, x)) })"

definition blank_file :: vfs_file where
  "blank_file = \<lparr>f_node = None, f_pipe = None, f_sock = None, f_inet = None, f_domain = 0, f_pos = 0, f_flags = 0,
     f_refs = 1, f_readdir_node = None, f_readdir_index = 0\<rparr>"

definition alloc_file :: "vfs_file \<Rightarrow> ('d, 'a) kern_scheme \<Rightarrow> addr option \<times> ('d, 'a) kern_scheme" where
  "alloc_file x s =
     (case kmalloc s of
        (None, s1) \<Rightarrow> (None, s1)
      | (Some f, s1) \<Rightarrow> (Some f, s1\<lparr>files := (files s1)(f \<mapsto> x)\<rparr>))"

definition vfs_close :: "('d, 'a) kern_scheme \<Rightarrow> int \<Rightarrow> (int \<times> ('d, 'a) kern_scheme) option" where
  "vfs_close s fd =
     (case fd_get s fd of
        None \<Rightarrow> Some (- EBADF, s)
      | Some f \<Rightarrow> do { s1 \<leftarrow> file_unref f (set_fd (nat fd) None s); Some (0, s1) })"

definition vfs_fcntl_dupfd :: "('d, 'a) kern_scheme \<Rightarrow> int \<Rightarrow> int \<Rightarrow> (int \<times> ('d, 'a) kern_scheme) option" where
  "vfs_fcntl_dupfd s oldfd minfd =
     (case fd_get s oldfd of
        None \<Rightarrow> Some (- EBADF, s)
      | Some f \<Rightarrow>
          if minfd < 0 then Some (- EINVAL, s)
          else
            (case scan (\<lambda>i. (the (fd_table s)) i = None) (nat minfd) VFS_MAX_FDS of
               Some i \<Rightarrow> do { s1 \<leftarrow> file_ref f (set_fd i (Some f) s); Some (int i, s1) }
             | None \<Rightarrow> Some (- EMFILE, s)))"

definition vfs_dup :: "('d, 'a) kern_scheme \<Rightarrow> int \<Rightarrow> (int \<times> ('d, 'a) kern_scheme) option" where
  "vfs_dup s oldfd = vfs_fcntl_dupfd s oldfd 0"

definition vfs_dup2 :: "('d, 'a) kern_scheme \<Rightarrow> int \<Rightarrow> int \<Rightarrow> (int \<times> ('d, 'a) kern_scheme) option" where
  "vfs_dup2 s oldfd newfd =
     (case fd_get s oldfd of
        None \<Rightarrow> Some (- EBADF, s)
      | Some f \<Rightarrow>
          if newfd < 0 \<or> newfd \<ge> int VFS_MAX_FDS then Some (- EBADF, s)
          else if oldfd = newfd then Some (newfd, s)
          else do {
            s1 \<leftarrow> (case fd_get s newfd of None \<Rightarrow> Some s | Some g \<Rightarrow> file_unref g s);
            s2 \<leftarrow> file_ref f (set_fd (nat newfd) (Some f) s1);
            Some (newfd, s2) })"

text \<open>The blocks allocated by \<^verbatim>\<open>vfs_pipe\<close>; \<^verbatim>\<open>kfree\<close> of a null pointer does nothing.\<close>

definition free_file :: "addr option \<Rightarrow> ('d, 'a) kern_scheme \<Rightarrow> ('d, 'a) kern_scheme" where
  "free_file p s = (case p of None \<Rightarrow> s | Some f \<Rightarrow> s\<lparr>files := (files s)(f := None)\<rparr>)"

definition vfs_pipe_open :: "('d, 'a) kern_scheme \<Rightarrow> ((int + int \<times> int) \<times> ('d, 'a) kern_scheme)" where
  "vfs_pipe_open s =
     (if fd_table s = None then (Inl (- EBADF), s)
      else
        (case kmalloc s of
           (None, s1) \<Rightarrow> (Inl (- ENOMEM), s1)
         | (Some p, s1) \<Rightarrow>
             (let s2 = s1\<lparr>pipes := (pipes s1)(p \<mapsto> new_pipe)\<rparr>;
                  (r, s3) = alloc_file (blank_file\<lparr>f_pipe := Some p, f_flags := O_RDONLY\<rparr>) s2;
                  (w, s4) = alloc_file (blank_file\<lparr>f_pipe := Some p, f_flags := O_WRONLY\<rparr>) s3;
                  drop_all = (\<lambda>t. let u = free_file w (free_file r t) in u\<lparr>pipes := (pipes u)(p := None)\<rparr>)
              in case (r, w) of
                   (Some rfile, Some wfile) \<Rightarrow>
                     (let (a, s5) = fd_alloc rfile s4;
                          (b, s6) = fd_alloc wfile s5
                      in if a < 0 \<or> b < 0 then
                           (let s7 = (if a \<ge> 0 then set_fd (nat a) None s6 else s6);
                                s8 = (if b \<ge> 0 then set_fd (nat b) None s7 else s7)
                            in (Inl (- ENOMEM), drop_all s8))
                         else (Inr (a, b), s6))
                 | _ \<Rightarrow> (Inl (- ENOMEM), drop_all s4))))"

section \<open>Opening\<close>

text \<open>The end of \<^verbatim>\<open>vfs_open_mode\<close>: a new open file on the node, then a slot for it.\<close>

definition open_node :: "('d, 'a) kern_scheme \<Rightarrow> addr \<Rightarrow> u64 \<Rightarrow> u32 \<Rightarrow> bool \<Rightarrow> (int \<times> ('d, 'a) kern_scheme) option" where
  "open_node s a pos flags hook =
     (case alloc_file (blank_file\<lparr>f_node := Some a, f_pos := pos, f_flags := flags\<rparr>) s of
        (None, s1) \<Rightarrow> Some (- ENOMEM, s1)
      | (Some f, s1) \<Rightarrow> do {
          n \<leftarrow> nodes s1 a;
          let s2 = s1\<lparr>nodes := (nodes s1)(a \<mapsto> n\<lparr>nd_open_refs := nd_open_refs n + 1\<rparr>)\<rparr>;
              s3 = (if hook then dev_open n s2 else s2) in
          Some (fd_alloc f s3) })"

definition trunc_node :: "('d, 'a) kern_scheme \<Rightarrow> addr \<Rightarrow> ('d, 'a) kern_scheme option" where
  "trunc_node s a = do {
     n \<leftarrow> nodes s a;
     if nd_wrf_ino n \<noteq> 0 then
       (case wrf_truncate (wfs s) n 0 of (r, n1, w1) \<Rightarrow> Some (s\<lparr>nodes := (nodes s)(a \<mapsto> n1), wfs := w1\<rparr>))
     else Some (s\<lparr>nodes := (nodes s)(a \<mapsto> n\<lparr>nd_size := 0\<rparr>)\<rparr>) }"

text \<open>The node to open: created on demand, or checked for permission.\<close>

definition open_target ::
    "('d, 'a) kern_scheme \<Rightarrow> string \<Rightarrow> u32 \<Rightarrow> u32 \<Rightarrow> ((int + addr) \<times> ('d, 'a) kern_scheme) option" where
  "open_target s path flags mode = do {
     r \<leftarrow> vfs_lookup s path;
     case r of
       None \<Rightarrow>
         if flags AND O_CREAT = 0 then Some (Inl (- ENOENT), s)
         else do {
           ok \<leftarrow> parent_writable s path;
           if \<not> ok then Some (Inl (- EACCES), s)
           else do {
             (c, s1) \<leftarrow> vfs_create_file s path;
             case c of
               None \<Rightarrow> Some (Inl (- ENOENT), s1)
             | Some a \<Rightarrow> do { s2 \<leftarrow> upd_vnode a (\<lambda>n. n\<lparr>nd_mode := mode\<rparr>) s1; Some (Inr a, s2) } } }
     | Some a \<Rightarrow> do {
         n \<leftarrow> nodes s a;
         let wants_write = flags AND (O_WRONLY OR O_RDWR) \<noteq> 0;
             wants_read = flags AND O_WRONLY = 0 in
         Some (if (wants_read \<and> \<not> vfs_access_ok s n VFS_R_OK) \<or> (wants_write \<and> \<not> vfs_access_ok s n VFS_W_OK)
               then Inl (- EACCES) else Inr a, s) } }"

definition vfs_open_mode ::
    "('d, 'a) kern_scheme \<Rightarrow> string option \<Rightarrow> u32 \<Rightarrow> u32 \<Rightarrow> (int \<times> ('d, 'a) kern_scheme) option" where
  "vfs_open_mode s path flags mode =
     (case path of
        None \<Rightarrow> Some (- EINVAL, s)
      | Some p \<Rightarrow>
          if p = ''/dev/ptmx'' then
            (case ptmx_alloc (ext s) (dev s) of
               (None, d) \<Rightarrow> Some (- EMFILE, s\<lparr>dev := d\<rparr>)
             | (Some m, d) \<Rightarrow> open_node (s\<lparr>dev := d\<rparr>) m 0 flags False)
          else do {
            (t, s1) \<leftarrow> open_target s p flags mode;
            case t of
              Inl e \<Rightarrow> Some (e, s1)
            | Inr a \<Rightarrow> do {
                n \<leftarrow> nodes s1 a;
                if nd_type n = VFS_DIR \<and> flags AND (O_WRONLY OR O_RDWR) \<noteq> 0 then Some (- EISDIR, s1)
                else do {
                  s2 \<leftarrow> (if nd_type n = VFS_FILE \<and> flags AND O_TRUNC \<noteq> 0 then trunc_node s1 a else Some s1);
                  n2 \<leftarrow> nodes s2 a;
                  open_node s2 a (if flags AND O_APPEND \<noteq> 0 then nd_size n2 else 0) flags True } } })"

definition vfs_open :: "('d, 'a) kern_scheme \<Rightarrow> string option \<Rightarrow> u32 \<Rightarrow> (int \<times> ('d, 'a) kern_scheme) option" where
  "vfs_open s path flags = vfs_open_mode s path flags 0x1A4"

section \<open>Sockets\<close>

definition vfs_sock_install :: "('d, 'a) kern_scheme \<Rightarrow> addr option \<Rightarrow> (int \<times> ('d, 'a) kern_scheme) option" where
  "vfs_sock_install s sk =
     (case sk of
        None \<Rightarrow> Some (- EINVAL, s)
      | Some k \<Rightarrow>
          (case alloc_file (blank_file\<lparr>f_sock := Some k, f_domain := AF_UNIX, f_flags := O_RDWR\<rparr>) s of
             (None, s1) \<Rightarrow> do { s2 \<leftarrow> unix_sock_unref k s1; Some (- ENOMEM, s2) }
           | (Some f, s1) \<Rightarrow>
               (let (fd, s2) = fd_alloc f s1
                in if fd < 0 then do { s3 \<leftarrow> unix_sock_unref k (free_file (Some f) s2); Some (fd, s3) }
                   else Some (fd, s2))))"

definition in_drop :: "addr \<Rightarrow> ('d, 'a) kern_scheme \<Rightarrow> ('d, 'a) kern_scheme" where
  "in_drop k s = s\<lparr>dev := in_unref (ext s) k (dev s)\<rparr>"

definition vfs_inet_sock_install :: "('d, 'a) kern_scheme \<Rightarrow> addr option \<Rightarrow> int \<times> ('d, 'a) kern_scheme" where
  "vfs_inet_sock_install s sk =
     (case sk of
        None \<Rightarrow> (- EINVAL, s)
      | Some k \<Rightarrow>
          (case alloc_file (blank_file\<lparr>f_inet := Some k, f_domain := AF_INET, f_flags := O_RDWR\<rparr>) s of
             (None, s1) \<Rightarrow> (- ENOMEM, in_drop k s1)
           | (Some f, s1) \<Rightarrow>
               (let (fd, s2) = fd_alloc f s1
                in if fd < 0 then (fd, in_drop k (free_file (Some f) s2)) else (fd, s2))))"

definition vfs_fd_sock :: "('d, 'a) kern_scheme \<Rightarrow> int \<Rightarrow> addr option option" where
  "vfs_fd_sock s fd = do {
     r \<leftarrow> fd_file s fd;
     Some (case r of None \<Rightarrow> None | Some (f, x) \<Rightarrow> if f_domain x = AF_UNIX then f_sock x else None) }"

definition vfs_fd_inet_sock :: "('d, 'a) kern_scheme \<Rightarrow> int \<Rightarrow> addr option option" where
  "vfs_fd_inet_sock s fd = do {
     r \<leftarrow> fd_file s fd;
     Some (case r of None \<Rightarrow> None | Some (f, x) \<Rightarrow> if f_domain x = AF_INET then f_inet x else None) }"

definition vfs_fd_flags :: "('d, 'a) kern_scheme \<Rightarrow> int \<Rightarrow> int option" where
  "vfs_fd_flags s fd = do {
     r \<leftarrow> fd_file s fd;
     Some (case r of None \<Rightarrow> - EBADF | Some (f, x) \<Rightarrow> sint (f_flags x)) }"

definition vfs_fd_set_flags :: "('d, 'a) kern_scheme \<Rightarrow> int \<Rightarrow> u64 \<Rightarrow> (int \<times> ('d, 'a) kern_scheme) option" where
  "vfs_fd_set_flags s fd flags =
     (case fd_get s fd of
        None \<Rightarrow> Some (- EBADF, s)
      | Some f \<Rightarrow> do {
          s1 \<leftarrow> upd_file f (\<lambda>x. x\<lparr>f_flags := (f_flags x AND 3) OR ucast (flags AND NOT 3)\<rparr>) s;
          Some (0, s1) })"

section \<open>Readiness\<close>

definition pipe_ready :: "u32 \<Rightarrow> vfs_pipe \<Rightarrow> u16" where
  "pipe_ready flags p =
     (if flags AND 3 = O_WRONLY then
        (if p_refs_r p = 0 then POLLERR else if rb_count p < PIPE_BUF_SIZE then POLLOUT else 0)
      else
        (let ready = (if rb_count p > 0 then POLLIN else 0)
         in if p_refs_w p = 0 then ready OR (POLLIN OR POLLHUP) else ready))"

definition node_ready :: "('d, 'a) kern_scheme \<Rightarrow> vfs_node \<Rightarrow> u16" where
  "node_ready s n =
     (case nd_type n of
        VFS_DEVICE \<Rightarrow>
          (case nd_ops n of
             None \<Rightarrow> POLLIN OR POLLOUT
           | Some ops \<Rightarrow>
               (case fo_poll (dev_ops s ops) of None \<Rightarrow> POLLIN OR POLLOUT | Some pl \<Rightarrow> pl (nd_priv n) (dev s)))
      | VFS_DIR \<Rightarrow> POLLIN
      | VFS_SOCKET \<Rightarrow> 0
      | _ \<Rightarrow> POLLIN OR POLLOUT)"

definition vfs_poll :: "('d, 'a) kern_scheme \<Rightarrow> int \<Rightarrow> u16 \<Rightarrow> u16 option" where
  "vfs_poll s fd events = do {
     r \<leftarrow> fd_file s fd;
     case r of
       None \<Rightarrow> Some POLLNVAL
     | Some (f, x) \<Rightarrow> do {
         ready \<leftarrow>
           (case (f_sock x, f_inet x, f_pipe x) of
              (Some k, _, _) \<Rightarrow> unix_sock_poll s (Some k)
            | (None, Some k, _) \<Rightarrow> Some (in_poll (ext s) k (dev s))
            | (None, None, Some p) \<Rightarrow> map_option (pipe_ready (f_flags x)) (pipes s p)
            | (None, None, None) \<Rightarrow> do { a \<leftarrow> f_node x; n \<leftarrow> nodes s a; Some (node_ready s n) });
         Some (ready AND (events OR POLLERR OR POLLHUP OR POLLNVAL)) } }"

section \<open>Whole tables\<close>

text \<open>\<^verbatim>\<open>for (i = lo; i < VFS_MAX_FDS; i++)\<close> over the table of a task.\<close>

fun each :: "(nat \<Rightarrow> 's \<Rightarrow> 's option) \<Rightarrow> nat list \<Rightarrow> 's \<Rightarrow> 's option" where
  "each g [] s = Some s"
| "each g (i # is) s = do { s1 \<leftarrow> g i s; each g is s1 }"

definition close_slot :: "nat \<Rightarrow> nat \<Rightarrow> ('d, 'a) kern_scheme \<Rightarrow> ('d, 'a) kern_scheme option" where
  "close_slot t i s =
     (case t_fds (g_tasks s t) i of
        None \<Rightarrow> Some s
      | Some f \<Rightarrow> do { s1 \<leftarrow> file_unref f s; Some (set_slot t i None s1) })"

definition vfs_close_all_table :: "nat option \<Rightarrow> ('d, 'a) kern_scheme \<Rightarrow> ('d, 'a) kern_scheme option" where
  "vfs_close_all_table tbl s =
     (case tbl of None \<Rightarrow> Some s | Some t \<Rightarrow> each (close_slot t) [0..<VFS_MAX_FDS] s)"

definition vfs_close_all :: "('d, 'a) kern_scheme \<Rightarrow> ('d, 'a) kern_scheme option" where
  "vfs_close_all s = vfs_close_all_table (g_current s) s"

definition inherit_slot :: "nat \<Rightarrow> nat \<Rightarrow> nat \<Rightarrow> ('d, 'a) kern_scheme \<Rightarrow> ('d, 'a) kern_scheme option" where
  "inherit_slot dst src i s =
     (let s1 = set_slot dst i None s
      in case t_fds (g_tasks s1 src) i of
           None \<Rightarrow> Some s1
         | Some f \<Rightarrow> file_ref f (set_slot dst i (Some f) s1))"

definition vfs_fd_inherit :: "nat \<Rightarrow> nat \<Rightarrow> ('d, 'a) kern_scheme \<Rightarrow> ('d, 'a) kern_scheme option" where
  "vfs_fd_inherit dst src s = each (inherit_slot dst src) [0..<VFS_MAX_FDS] s"

end
