(* ===== verification/Vfs_Io.thy ===== *)
theory Vfs_Io
  imports Vfs_Fd
begin

text \<open>
  Reading, writing, positioning and listing through a descriptor, \<^verbatim>\<open>kernel/vfs/vfs.c\<close>. A call that can put the
  task to sleep returns \<open>Blocked\<close>, or the progress it has made; an access outside the buffer of a file, like
  a dangling pointer, makes the result \<open>None\<close>.
\<close>

section \<open>Regular files\<close>

text \<open>\<^verbatim>\<open>while (newcap < need) newcap *= 2\<close> on 64-bit words.\<close>

partial_function (option) grow_cap :: "u64 \<Rightarrow> u64 \<Rightarrow> u64 option" where
  "grow_cap newcap need = (if newcap < need then grow_cap (newcap * 2) need else Some newcap)"

text \<open>\<^verbatim>\<open>krealloc(data, newcap)\<close>: a null pointer, or a block that starts with the old contents.\<close>

definition krealloc ::
    "('d, 'a) kern_scheme \<Rightarrow> bytes_array option \<Rightarrow> u64 \<Rightarrow> bytes_array option \<times> ('d, 'a) kern_scheme" where
  "krealloc s data oldcap =
     (case kmalloc s of
        (None, s1) \<Rightarrow> (None, s1)
      | (Some a, s1) \<Rightarrow>
          (Some (\<lambda>i. case data of
                      Some d \<Rightarrow> if i < unat oldcap then d i else heap_junk s i
                    | None \<Rightarrow> heap_junk s i), s1))"

text \<open>The growth step shared by \<^verbatim>\<open>file_write\<close> and \<^verbatim>\<open>vfs_ftruncate\<close>; false when memory ran out.\<close>

definition reserve :: "('d, 'a) kern_scheme \<Rightarrow> addr \<Rightarrow> u64 \<Rightarrow> (bool \<times> ('d, 'a) kern_scheme) option" where
  "reserve s a need = do {
     n \<leftarrow> nodes s a;
     if need > nd_capacity n then do {
       newcap \<leftarrow> grow_cap (if nd_capacity n \<noteq> 0 then nd_capacity n else 64) need;
       case krealloc s (nd_data n) (nd_capacity n) of
         (None, s1) \<Rightarrow> Some (False, s1)
       | (Some fresh, s1) \<Rightarrow>
           Some (True, s1\<lparr>nodes := (nodes s1)(a \<mapsto> n\<lparr>nd_data := Some fresh, nd_capacity := newcap\<rparr>)\<rparr>) }
     else Some (True, s) }"

text \<open>\<^verbatim>\<open>memcpy\<close> into and out of the buffer of a node.\<close>

definition data_put :: "vfs_node \<Rightarrow> nat \<Rightarrow> u8 list \<Rightarrow> vfs_node option" where
  "data_put n off bs =
     (if bs = [] then Some n
      else
        (case nd_data n of
           None \<Rightarrow> None
         | Some d \<Rightarrow>
             if off + length bs \<le> unat (nd_capacity n) then Some (n\<lparr>nd_data := Some (array_put off bs d)\<rparr>) else None))"

definition data_get :: "vfs_node \<Rightarrow> nat \<Rightarrow> nat \<Rightarrow> u8 list option" where
  "data_get n off k =
     (if k = 0 then Some []
      else
        (case nd_data n of
           None \<Rightarrow> None
         | Some d \<Rightarrow> if off + k \<le> unat (nd_capacity n) then Some (array_get off k d) else None))"

definition put_node :: "addr \<Rightarrow> vfs_node \<Rightarrow> ('d, 'a) kern_scheme \<Rightarrow> ('d, 'a) kern_scheme" where
  "put_node a n s = s\<lparr>nodes := (nodes s)(a \<mapsto> n)\<rparr>"

definition advance :: "addr \<Rightarrow> u64 \<Rightarrow> ('d, 'a) kern_scheme \<Rightarrow> ('d, 'a) kern_scheme option" where
  "advance f k s = upd_file f (\<lambda>x. x\<lparr>f_pos := f_pos x + k\<rparr>) s"

definition file_read ::
    "('d, 'a) kern_scheme \<Rightarrow> addr \<Rightarrow> nat \<Rightarrow> (int \<times> u8 list \<times> ('d, 'a) kern_scheme) option" where
  "file_read s f count = do {
     x \<leftarrow> files s f;
     a \<leftarrow> f_node x;
     n \<leftarrow> nodes s a;
     if nd_wrf_ino n \<noteq> 0 then
       (case wrf_file_read (wfs s) n count (f_pos x) of
          (bs, w1) \<Rightarrow> do {
            s1 \<leftarrow> advance f (of_nat (length bs)) (s\<lparr>wfs := w1\<rparr>);
            Some (int (length bs), bs, s1) })
     else if f_pos x \<ge> nd_size n then Some (0, [], s)
     else do {
       let c = min count (unat (nd_size n - f_pos x));
       bs \<leftarrow> data_get n (unat (f_pos x)) c;
       s1 \<leftarrow> advance f (of_nat c) s;
       Some (int c, bs, s1) } }"

definition file_write ::
    "('d, 'a) kern_scheme \<Rightarrow> addr \<Rightarrow> u8 list \<Rightarrow> (int \<times> ('d, 'a) kern_scheme) option" where
  "file_write s f buf = do {
     x \<leftarrow> files s f;
     a \<leftarrow> f_node x;
     n \<leftarrow> nodes s a;
     if nd_wrf_ino n \<noteq> 0 then
       (case wrf_file_write (wfs s) n buf (f_pos x) of
          (k, n1, w1) \<Rightarrow> do {
            s1 \<leftarrow> advance f (of_nat k) (put_node a n1 (s\<lparr>wfs := w1\<rparr>));
            Some (int k, s1) })
     else do {
       let need = f_pos x + of_nat (length buf);
       (ok, s1) \<leftarrow> reserve s a need;
       if \<not> ok then Some (- ENOMEM, s1)
       else do {
         n1 \<leftarrow> nodes s1 a;
         n2 \<leftarrow> data_put n1 (unat (f_pos x)) buf;
         let n3 = (if need > nd_size n2 then n2\<lparr>nd_size := need\<rparr> else n2);
         s2 \<leftarrow> advance f (of_nat (length buf)) (put_node a n3 s1);
         Some (int (length buf), s2) } } }"

definition vfs_ftruncate :: "('d, 'a) kern_scheme \<Rightarrow> int \<Rightarrow> u64 \<Rightarrow> (int \<times> ('d, 'a) kern_scheme) option" where
  "vfs_ftruncate s fd len = do {
     r \<leftarrow> fd_file s fd;
     case r of
       None \<Rightarrow> Some (- EBADF, s)
     | Some (f, x) \<Rightarrow>
         (case f_node x of
            None \<Rightarrow> Some (- EBADF, s)
          | Some a \<Rightarrow> do {
              n \<leftarrow> nodes s a;
              if nd_type n \<noteq> VFS_FILE then Some (- EBADF, s)
              else if sint len < 0 then Some (- EINVAL, s)
              else if nd_wrf_ino n \<noteq> 0 then
                (case wrf_truncate (wfs s) n len of (e, n1, w1) \<Rightarrow> Some (e, put_node a n1 (s\<lparr>wfs := w1\<rparr>)))
              else if len < nd_size n then Some (0, put_node a (n\<lparr>nd_size := len\<rparr>) s)
              else do {
                (ok, s1) \<leftarrow> reserve s a len;
                if \<not> ok then Some (- ENOMEM, s1)
                else do {
                  n1 \<leftarrow> nodes s1 a;
                  if len > nd_size n1 then do {
                    n2 \<leftarrow> data_put n1 (unat (nd_size n1)) (replicate (unat (len - nd_size n1)) 0);
                    Some (0, put_node a (n2\<lparr>nd_size := len\<rparr>) s1) }
                  else Some (0, s1) } } }) }"

section \<open>Read and write\<close>

text \<open>A device call that returns \<open>n > 0\<close> moves the position by \<open>n\<close>.\<close>

definition dev_advance :: "addr \<Rightarrow> int \<Rightarrow> ('d, 'a) kern_scheme \<Rightarrow> ('d, 'a) kern_scheme option" where
  "dev_advance f r s = (if r > 0 then advance f (of_int r) s else Some s)"

definition dev_read ::
    "('d, 'a) kern_scheme \<Rightarrow> addr \<Rightarrow> vfs_file \<Rightarrow> vfs_node \<Rightarrow> nat \<Rightarrow>
     (int \<times> u8 list \<times> ('d, 'a) kern_scheme) blocking option" where
  "dev_read s f x n count =
     (case nd_ops n of
        None \<Rightarrow> Some (Done (- EIO, [], s))
      | Some ops \<Rightarrow>
          (case fo_read (dev_ops s ops) of
             None \<Rightarrow> Some (Done (- EIO, [], s))
           | Some rd \<Rightarrow>
               (case rd (nd_priv n) count (f_pos x) (dev s) of
                  Blocked \<Rightarrow> Some Blocked
                | Done (r, bs, d) \<Rightarrow> do { s1 \<leftarrow> dev_advance f r (s\<lparr>dev := d\<rparr>); Some (Done (r, bs, s1)) })))"

definition vfs_read ::
    "('d, 'a) kern_scheme \<Rightarrow> int \<Rightarrow> bool \<Rightarrow> nat \<Rightarrow> (int \<times> u8 list \<times> ('d, 'a) kern_scheme) blocking option" where
  "vfs_read s fd buf_null count = do {
     r \<leftarrow> fd_file s fd;
     case r of
       None \<Rightarrow> Some (Done (- EBADF, [], s))
     | Some (f, x) \<Rightarrow>
         if buf_null then Some (Done (- EINVAL, [], s))
         else if f_flags x AND 3 = O_WRONLY then Some (Done (- EBADF, [], s))
         else
           (case (f_sock x, f_inet x, f_pipe x) of
              (Some k, _, _) \<Rightarrow> unix_sock_read s (Some k) count
            | (None, Some k, _) \<Rightarrow>
                Some (case in_read (ext s) k count (dev s) of
                        Blocked \<Rightarrow> Blocked
                      | Done (e, bs, d) \<Rightarrow> Done (e, bs, s\<lparr>dev := d\<rparr>))
            | (None, None, Some p) \<Rightarrow> do {
                q \<leftarrow> pipes s p;
                Some (case pipe_read q count of
                        Blocked \<Rightarrow> Blocked
                      | Done (e, bs, q1) \<Rightarrow> Done (e, bs, s\<lparr>pipes := (pipes s)(p \<mapsto> q1)\<rparr>)) }
            | (None, None, None) \<Rightarrow> do {
                a \<leftarrow> f_node x;
                n \<leftarrow> nodes s a;
                case nd_type n of
                  VFS_FILE \<Rightarrow> map_option Done (file_read s f count)
                | VFS_DEVICE \<Rightarrow> dev_read s f x n count
                | _ \<Rightarrow> Some (Done (- EISDIR, [], s)) }) }"

definition dev_write ::
    "('d, 'a) kern_scheme \<Rightarrow> addr \<Rightarrow> vfs_file \<Rightarrow> vfs_node \<Rightarrow> u8 list \<Rightarrow>
     (write_result \<times> ('d, 'a) kern_scheme) option" where
  "dev_write s f x n buf =
     (case nd_ops n of
        None \<Rightarrow> Some (WDone (- EIO), s)
      | Some ops \<Rightarrow>
          (case fo_write (dev_ops s ops) of
             None \<Rightarrow> Some (WDone (- EIO), s)
           | Some wr \<Rightarrow>
               (case wr (nd_priv n) buf (f_pos x) (dev s) of
                  (WBlocked k, d) \<Rightarrow> Some (WBlocked k, s\<lparr>dev := d\<rparr>)
                | (WDone r, d) \<Rightarrow> do { s1 \<leftarrow> dev_advance f r (s\<lparr>dev := d\<rparr>); Some (WDone r, s1) })))"

text \<open>The call up to its return or its first sleep; the loops of pipes and sockets go on from there.\<close>

definition vfs_write ::
    "('d, 'a) kern_scheme \<Rightarrow> int \<Rightarrow> u8 list option \<Rightarrow> (write_result \<times> ('d, 'a) kern_scheme) option" where
  "vfs_write s fd buf = do {
     r \<leftarrow> fd_file s fd;
     case r of
       None \<Rightarrow> Some (WDone (- EBADF), s)
     | Some (f, x) \<Rightarrow>
         (case buf of
            None \<Rightarrow> Some (WDone (- EINVAL), s)
          | Some bs \<Rightarrow>
              if f_flags x AND 3 = O_RDONLY then Some (WDone (- EBADF), s)
              else
                (case (f_sock x, f_inet x, f_pipe x) of
                   (Some k, _, _) \<Rightarrow> unix_sock_write s (Some k) bs
                 | (None, Some k, _) \<Rightarrow>
                     (case in_write (ext s) k bs (dev s) of (e, d) \<Rightarrow> Some (e, s\<lparr>dev := d\<rparr>))
                 | (None, None, Some p) \<Rightarrow> do {
                     q \<leftarrow> pipes s p;
                     (e, q1) \<leftarrow> pipe_write q bs 0;
                     Some (e, s\<lparr>pipes := (pipes s)(p \<mapsto> q1)\<rparr>) }
                 | (None, None, None) \<Rightarrow> do {
                     a \<leftarrow> f_node x;
                     n \<leftarrow> nodes s a;
                     case nd_type n of
                       VFS_FILE \<Rightarrow> do { (e, s1) \<leftarrow> file_write s f bs; Some (WDone e, s1) }
                     | VFS_DEVICE \<Rightarrow> dev_write s f x n bs
                     | _ \<Rightarrow> Some (WDone (- EISDIR), s) })) }"

definition vfs_pread ::
    "('d, 'a) kern_scheme \<Rightarrow> int \<Rightarrow> bool \<Rightarrow> nat \<Rightarrow> u64 \<Rightarrow> (int \<times> u8 list \<times> ('d, 'a) kern_scheme) option" where
  "vfs_pread s fd buf_null count offset = do {
     r \<leftarrow> fd_file s fd;
     case r of
       None \<Rightarrow> Some (- EBADF, [], s)
     | Some (f, x) \<Rightarrow>
         if buf_null then Some (- EINVAL, [], s)
         else
           (case f_node x of
              None \<Rightarrow> Some (- EISDIR, [], s)
            | Some a \<Rightarrow> do {
                n \<leftarrow> nodes s a;
                if nd_type n \<noteq> VFS_FILE then Some (- EISDIR, [], s)
                else if nd_wrf_ino n \<noteq> 0 then
                  (case wrf_file_read (wfs s) n count offset of (bs, w1) \<Rightarrow> Some (int (length bs), bs, s\<lparr>wfs := w1\<rparr>))
                else if offset \<ge> nd_size n then Some (0, [], s)
                else do {
                  let c = min count (unat (nd_size n - offset));
                  bs \<leftarrow> data_get n (unat offset) c;
                  Some (int c, bs, s) } }) }"

section \<open>Position, attributes and control\<close>

abbreviation (input) SEEK_SET :: int where "SEEK_SET \<equiv> 0"
abbreviation (input) SEEK_CUR :: int where "SEEK_CUR \<equiv> 1"
abbreviation (input) SEEK_END :: int where "SEEK_END \<equiv> 2"

definition seekable :: "vfs_node \<Rightarrow> bool" where
  "seekable n \<longleftrightarrow> nd_type n = VFS_FILE \<or> nd_type n = VFS_DEVICE \<and> nd_size n > 0"

text \<open>The sum \<^verbatim>\<open>base + offset\<close> is one of 64-bit signed integers.\<close>

definition vfs_lseek ::
    "('d, 'a) kern_scheme \<Rightarrow> int \<Rightarrow> u64 \<Rightarrow> int \<Rightarrow> (int \<times> ('d, 'a) kern_scheme) option" where
  "vfs_lseek s fd offset whence = do {
     r \<leftarrow> fd_file s fd;
     case r of
       None \<Rightarrow> Some (- EBADF, s)
     | Some (f, x) \<Rightarrow>
         (case f_node x of
            None \<Rightarrow> Some (- ESPIPE, s)
          | Some a \<Rightarrow> do {
              n \<leftarrow> nodes s a;
              if \<not> seekable n then Some (- ESPIPE, s)
              else if whence \<notin> {SEEK_SET, SEEK_CUR, SEEK_END} then Some (- EINVAL, s)
              else
                (let base = (if whence = SEEK_SET then 0 else if whence = SEEK_CUR then f_pos x else nd_size n);
                     pos = base + offset
                 in if sint pos < 0 then Some (- EINVAL, s)
                    else do { s1 \<leftarrow> upd_file f (\<lambda>x. x\<lparr>f_pos := pos\<rparr>) s; Some (sint pos, s1) }) }) }"

definition vfs_fstat :: "('d, 'a) kern_scheme \<Rightarrow> int \<Rightarrow> (int + vstat) option" where
  "vfs_fstat s fd = do {
     r \<leftarrow> fd_file s fd;
     case r of
       None \<Rightarrow> Some (Inl (- EBADF))
     | Some (f, x) \<Rightarrow>
         (case (f_node x, f_pipe x) of
            (None, Some p) \<Rightarrow> Some (Inr (0, 0x180, VFS_PIPE, p))
          | (None, None) \<Rightarrow> Some (Inl (- EBADF))
          | (Some a, _) \<Rightarrow> do { n \<leftarrow> nodes s a; Some (Inr (nd_size n, nd_mode n, nd_type n, a)) }) }"

definition vfs_fchdir :: "('d, 'a) kern_scheme \<Rightarrow> int \<Rightarrow> nat \<Rightarrow> (int + string) option" where
  "vfs_fchdir s fd outsz = do {
     r \<leftarrow> fd_file s fd;
     case r of
       None \<Rightarrow> Some (Inl (- EBADF))
     | Some (f, x) \<Rightarrow>
         (case f_node x of
            None \<Rightarrow> Some (Inl (- EBADF))
          | Some a \<Rightarrow> do {
              n \<leftarrow> nodes s a;
              if nd_type n \<noteq> VFS_DIR then Some (Inl (- ENOTDIR))
              else do {
                p \<leftarrow> vfs_node_path s a outsz;
                Some (case p of None \<Rightarrow> Inl (- ENAMETOOLONG) | Some t \<Rightarrow> Inr t) } }) }"

definition vfs_ioctl ::
    "('d, 'a) kern_scheme \<Rightarrow> int \<Rightarrow> u64 \<Rightarrow> addr option \<Rightarrow> (int \<times> ('d, 'a) kern_scheme) option" where
  "vfs_ioctl s fd request arg = do {
     r \<leftarrow> fd_file s fd;
     case r of
       None \<Rightarrow> Some (- EBADF, s)
     | Some (f, x) \<Rightarrow>
         (case f_node x of
            None \<Rightarrow> Some (- ENOTTY, s)
          | Some a \<Rightarrow> do {
              n \<leftarrow> nodes s a;
              case (nd_type n, nd_ops n) of
                (VFS_DEVICE, Some ops) \<Rightarrow>
                  (case fo_ioctl (dev_ops s ops) of
                     None \<Rightarrow> Some (- ENOTTY, s)
                   | Some ic \<Rightarrow> (case ic (nd_priv n) request arg (dev s) of (e, d) \<Rightarrow> Some (e, s\<lparr>dev := d\<rparr>)))
              | _ \<Rightarrow> Some (- ENOTTY, s) }) }"

section \<open>Listing a directory\<close>

record vfs_dirent =
  de_name :: string
  de_type :: vtype
  de_size :: u32
  de_mode :: u32

abbreviation (input) DIRENT_SIZE :: nat where "DIRENT_SIZE \<equiv> 76"

definition dirent_of :: "vfs_node \<Rightarrow> vfs_dirent" where
  "dirent_of n = \<lparr>de_name = nd_name n, de_type = nd_type n, de_size = ucast (nd_size n), de_mode = nd_mode n\<rparr>"

text \<open>Skip \<open>k\<close> entries; then copy entries while there is room for one more.\<close>

fun dir_skip :: "heap \<Rightarrow> nat \<Rightarrow> addr option \<Rightarrow> addr option option" where
  "dir_skip h 0 p = Some p"
| "dir_skip h (Suc k) None = Some None"
| "dir_skip h (Suc k) (Some a) = do { n \<leftarrow> h a; dir_skip h k (nd_sibling n) }"

function dir_fill :: "heap \<Rightarrow> nat \<Rightarrow> nat \<Rightarrow> addr option \<Rightarrow> (vfs_dirent list \<times> addr option) option" where
  "dir_fill h written count p =
     (case p of
        None \<Rightarrow> Some ([], None)
      | Some a \<Rightarrow>
          if written + DIRENT_SIZE \<le> count then do {
            n \<leftarrow> h a;
            (ds, q) \<leftarrow> dir_fill h (written + DIRENT_SIZE) count (nd_sibling n);
            Some (dirent_of n # ds, q) }
          else Some ([], p))"
  by pat_completeness auto
termination
  by (relation "measure (\<lambda>(h, written, count, p). count - written)") auto

definition vfs_readdir ::
    "('d, 'a) kern_scheme \<Rightarrow> int \<Rightarrow> bool \<Rightarrow> nat \<Rightarrow> (int \<times> vfs_dirent list \<times> ('d, 'a) kern_scheme) option" where
  "vfs_readdir s fd buf_null count = do {
     r \<leftarrow> fd_file s fd;
     case r of
       None \<Rightarrow> Some (- EBADF, [], s)
     | Some (f, x) \<Rightarrow>
         (case f_node x of
            None \<Rightarrow> Some (- ENOTDIR, [], s)
          | Some a \<Rightarrow> do {
              n \<leftarrow> nodes s a;
              if nd_type n \<noteq> VFS_DIR then Some (- ENOTDIR, [], s)
              else if buf_null then Some (- EINVAL, [], s)
              else do {
                p \<leftarrow> (if f_pos x = 0 then Some (nd_child n)
                      else if f_pos x = f_readdir_index x then Some (f_readdir_node x)
                      else dir_skip (nodes s) (unat (f_pos x)) (nd_child n));
                (ds, q) \<leftarrow> dir_fill (nodes s) 0 count p;
                s1 \<leftarrow> upd_file f (\<lambda>x. x\<lparr>f_pos := f_pos x + of_nat (length ds), f_readdir_node := q,
                          f_readdir_index := f_pos x + of_nat (length ds)\<rparr>) s;
                Some (int (DIRENT_SIZE * length ds), ds, s1) } }) }"

section \<open>Start-up\<close>

text \<open>\<^verbatim>\<open>devices_init\<close> and \<^verbatim>\<open>procfs_init\<close> add nodes to the tree.\<close>

definition wire_std :: "addr \<Rightarrow> nat \<Rightarrow> ('d, 'a) kern_scheme \<Rightarrow> ('d, 'a) kern_scheme option" where
  "wire_std tty0 i s =
     (case alloc_file (blank_file\<lparr>f_node := Some tty0, f_flags := O_RDWR\<rparr>) s of
        (None, s1) \<Rightarrow> Some s1
      | (Some f, s1) \<Rightarrow> Some (if fd_table s1 = None then free_file (Some f) s1 else set_fd i (Some f) s1))"

definition vfs_devices_init ::
    "(('d, 'a) kern_scheme \<Rightarrow> ('d, 'a) kern_scheme option) \<Rightarrow>
     (('d, 'a) kern_scheme \<Rightarrow> ('d, 'a) kern_scheme option) \<Rightarrow>
     ('d, 'a) kern_scheme \<Rightarrow> ('d, 'a) kern_scheme option" where
  "vfs_devices_init devices_init procfs_init s0 = do {
     s1 \<leftarrow> ensure_dir s0 ''/dev'';
     s2 \<leftarrow> ensure_dir s1 ''/tmp'';
     s3 \<leftarrow> ensure_dir s2 ''/etc'';
     s4 \<leftarrow> ensure_dir s3 ''/boot'';
     t \<leftarrow> vfs_lookup s4 ''/tmp'';
     s5 \<leftarrow> (case t of None \<Rightarrow> Some s4 | Some a \<Rightarrow> upd_vnode a (\<lambda>n. n\<lparr>nd_mode := 0x3FF\<rparr>) s4);
     s6 \<leftarrow> devices_init s5;
     s7 \<leftarrow> procfs_init s6;
     tt \<leftarrow> vfs_lookup s7 ''/dev/tty0'';
     case tt of None \<Rightarrow> Some s7 | Some tty0 \<Rightarrow> each (wire_std tty0) [0..<3] s7 }"

end
