(* ===== verification/Vfs_Fd_Inv.thy ===== *)
theory Vfs_Fd_Inv
  imports Vfs_Io
begin

text \<open>
  The reference counts of open files, nodes, pipes and sockets agree with each other and with the descriptor
  tables. The ghost function \<open>R\<close> counts the references to every open file; the count of a pipe end, of a
  socket and of a node is the number of references, or of files, on it.
\<close>

section \<open>Counting references\<close>

definition refs_on :: "(addr \<Rightarrow> nat) \<Rightarrow> (addr \<Rightarrow> vfs_file option) \<Rightarrow> (vfs_file \<Rightarrow> bool) \<Rightarrow> nat" where
  "refs_on R F Q = (\<Sum>f \<in> dom F. if Q (the (F f)) then R f else 0)"

definition one :: "addr \<Rightarrow> nat" where
  "one f = 1"

lemma refs_split:
  assumes "finite (dom F)" "F f = Some x"
  shows "refs_on R F Q = (if Q x then R f else 0) + refs_on R (F(f := None)) Q"
proof -
  have "dom F = insert f (dom F - {f})" using assms(2) by auto
  then have "refs_on R F Q = (if Q x then R f else 0) + (\<Sum>g \<in> dom F - {f}. if Q (the (F g)) then R g else 0)"
    using assms sum.insert_remove [of "dom F" "\<lambda>g. if Q (the (F g)) then R g else 0" f] by (simp add: refs_on_def insert_absorb)
  also have "(\<Sum>g \<in> dom F - {f}. if Q (the (F g)) then R g else 0) = refs_on R (F(f := None)) Q"
    unfolding refs_on_def by (intro sum.cong) auto
  finally show ?thesis .
qed

lemma refs_on_rest [simp]: "refs_on (R(f := r)) (F(f := None)) Q = refs_on R (F(f := None)) Q"
  unfolding refs_on_def by (intro sum.cong) auto

lemma refs_on_upd:
  assumes "finite (dom F)"
  shows "refs_on (R(f := r)) (F(f \<mapsto> x)) Q = (if Q x then r else 0) + refs_on R (F(f := None)) Q"
  using refs_split [of "F(f \<mapsto> x)" f x "R(f := r)" Q] assms by (simp add: fun_upd_same)

lemma refs_on_absent: "F f = None \<Longrightarrow> refs_on R (F(f := None)) Q = refs_on R F Q"
  by (metis fun_upd_triv)

lemma refs_on_zero: "finite (dom F) \<Longrightarrow> refs_on R F Q = 0 \<Longrightarrow> F f = Some x \<Longrightarrow> R f \<noteq> 0 \<Longrightarrow> \<not> Q x"
  using refs_split [of F f x R Q] by auto

lemma refs_on_none: "(\<And>f x. F f = Some x \<Longrightarrow> \<not> Q x) \<Longrightarrow> refs_on R F Q = 0"
  unfolding refs_on_def by (intro sum.neutral) auto

section \<open>The invariant\<close>

text \<open>Exactly one of the four targets of an open file is set.\<close>

definition kind_ok :: "vfs_file \<Rightarrow> bool" where
  "kind_ok x \<longleftrightarrow>
     (f_node x \<noteq> None \<and> f_pipe x = None \<and> f_sock x = None \<and> f_inet x = None) \<or>
     (f_node x = None \<and> f_pipe x \<noteq> None \<and> f_sock x = None \<and> f_inet x = None) \<or>
     (f_node x = None \<and> f_pipe x = None \<and> f_sock x \<noteq> None \<and> f_inet x = None) \<or>
     (f_node x = None \<and> f_pipe x = None \<and> f_sock x = None \<and> f_inet x \<noteq> None)"

lemma kind_ok_refs [simp]: "kind_ok (x\<lparr>f_refs := r\<rparr>) = kind_ok x"
  by (simp add: kind_ok_def)

definition file_refs :: "(addr \<Rightarrow> nat) \<Rightarrow> (addr \<Rightarrow> vfs_file option) \<Rightarrow> addr \<Rightarrow> bool" where
  "file_refs R F nx \<longleftrightarrow>
     (\<forall>f x. F f = Some x \<longrightarrow> f < nx \<and> 0 < R f \<and> f_refs x = int (R f) \<and> kind_ok x) \<and>
     (\<forall>f. F f = None \<longrightarrow> R f = 0)"

definition on_node :: "addr \<Rightarrow> vfs_file \<Rightarrow> bool" where
  "on_node a x \<longleftrightarrow> f_node x = Some a"

definition on_sock :: "addr \<Rightarrow> vfs_file \<Rightarrow> bool" where
  "on_sock k x \<longleftrightarrow> f_sock x = Some k"

definition on_pipe :: "addr \<Rightarrow> bool \<Rightarrow> vfs_file \<Rightarrow> bool" where
  "on_pipe p w x \<longleftrightarrow> f_pipe x = Some p \<and> wr_end x = w"

text \<open>A node counts its open files, a pipe end and a socket the references to theirs; a queued connection has
  one reference of its own.\<close>

definition node_refs :: "(addr \<Rightarrow> vfs_file option) \<Rightarrow> heap \<Rightarrow> bool" where
  "node_refs F h \<longleftrightarrow>
     (\<forall>a. (case h a of None \<Rightarrow> 0 | Some n \<Rightarrow> nd_open_refs n) = int (refs_on one F (on_node a)))"

definition pipe_refs :: "(addr \<Rightarrow> nat) \<Rightarrow> (addr \<Rightarrow> vfs_file option) \<Rightarrow> (addr \<Rightarrow> vfs_pipe option) \<Rightarrow> addr \<Rightarrow> bool" where
  "pipe_refs R F P nx \<longleftrightarrow>
     (\<forall>p. case P p of
            None \<Rightarrow> (\<forall>w. refs_on R F (on_pipe p w) = 0)
          | Some q \<Rightarrow> p < nx \<and> pipe_ok q \<and> p_refs_r q = int (refs_on R F (on_pipe p False)) \<and>
              p_refs_w q = int (refs_on R F (on_pipe p True)) \<and> (p_refs_r q > 0 \<or> p_refs_w q > 0))"

definition sock_refs :: "(addr \<Rightarrow> nat) \<Rightarrow> (addr \<Rightarrow> vfs_file option) \<Rightarrow> (addr \<Rightarrow> unix_sock option) \<Rightarrow> bool" where
  "sock_refs R F S \<longleftrightarrow>
     (\<forall>k. case S k of
            None \<Rightarrow> refs_on R F (on_sock k) = 0
          | Some v \<Rightarrow> int (refs_on R F (on_sock k)) + (if queued S k then 1 else 0) \<le> us_refs v)"

definition refs_ok :: "(addr \<Rightarrow> nat) \<Rightarrow> ('d, 'a) kern_scheme \<Rightarrow> bool" where
  "refs_ok R s \<longleftrightarrow> usk_ok s \<and> file_refs R (files s) (next_addr s) \<and> node_refs (files s) (nodes s) \<and>
     pipe_refs R (files s) (pipes s) (next_addr s) \<and> sock_refs R (files s) (socks s)"

lemma file_refs_finite: "file_refs R F nx \<Longrightarrow> finite (dom F)"
  by (rule finite_subset [of _ "{..<nx}"]) (auto simp: file_refs_def)

lemma file_refsD:
  assumes "file_refs R F nx" "F f = Some x"
  shows "f < nx" "0 < R f" "f_refs x = int (R f)" "kind_ok x"
  using assms by (auto simp: file_refs_def)

lemma pipe_refsD:
  assumes "pipe_refs R F P nx" "P p = Some q"
  shows "p < nx" "pipe_ok q" "p_refs_r q = int (refs_on R F (on_pipe p False))" "p_refs_w q = int (refs_on R F (on_pipe p True))"
    "p_refs_r q > 0 \<or> p_refs_w q > 0"
  using assms(1) [unfolded pipe_refs_def, THEN spec, of p] assms(2) by auto

lemma pipe_refs_none: "pipe_refs R F P nx \<Longrightarrow> P p = None \<Longrightarrow> refs_on R F (on_pipe p w) = 0"
  unfolding pipe_refs_def by (drule spec [of _ p]) simp

lemma node_refs_none: "node_refs F h \<Longrightarrow> h a = None \<Longrightarrow> refs_on one F (on_node a) = 0"
  unfolding node_refs_def by (drule spec [of _ a]) simp

lemma node_refs_some: "node_refs F h \<Longrightarrow> h a = Some n \<Longrightarrow> nd_open_refs n = int (refs_on one F (on_node a))"
  unfolding node_refs_def by (drule spec [of _ a]) simp

lemma sock_refs_none: "sock_refs R F S \<Longrightarrow> S k = None \<Longrightarrow> refs_on R F (on_sock k) = 0"
  unfolding sock_refs_def by (drule spec [of _ k]) simp

lemma sock_refs_some:
  "sock_refs R F S \<Longrightarrow> S k = Some v \<Longrightarrow> int (refs_on R F (on_sock k)) + (if queued S k then 1 else 0) \<le> us_refs v"
  unfolding sock_refs_def by (drule spec [of _ k]) simp

text \<open>What an open file refers to exists.\<close>

lemma file_targets:
  assumes r: "refs_ok R s" and x: "files s f = Some x"
  shows "f_node x = Some a \<Longrightarrow> \<exists>n. nodes s a = Some n"
    "f_pipe x = Some p \<Longrightarrow> \<exists>q. pipes s p = Some q" "f_sock x = Some k \<Longrightarrow> \<exists>v. socks s k = Some v"
proof -
  have fr: "file_refs R (files s) (next_addr s)" using r by (simp add: refs_ok_def)
  note fin = file_refs_finite [OF fr] and pos = file_refsD(2) [OF fr x]
  note z = refs_on_zero [OF fin _ x]
  show "\<exists>n. nodes s a = Some n" if "f_node x = Some a"
    using z [of one "on_node a"] node_refs_none [of "files s" "nodes s" a] r that
    by (cases "nodes s a") (auto simp: refs_ok_def on_node_def one_def)
  show "\<exists>q. pipes s p = Some q" if "f_pipe x = Some p"
    using z [of R "on_pipe p (wr_end x)"] pipe_refs_none [of R "files s" "pipes s" "next_addr s" p "wr_end x"] r that pos
    by (cases "pipes s p") (auto simp: refs_ok_def on_pipe_def)
  show "\<exists>v. socks s k = Some v" if "f_sock x = Some k"
    using z [of R "on_sock k"] sock_refs_none [of R "files s" "socks s" k] r that pos
    by (cases "socks s k") (auto simp: refs_ok_def on_sock_def)
qed

section \<open>One reference more or less\<close>

text \<open>The four counts when file \<open>f\<close> gets \<open>r\<close> references, and is freed with the last one.\<close>

definition refile :: "(addr \<Rightarrow> vfs_file option) \<Rightarrow> addr \<Rightarrow> nat \<Rightarrow> addr \<Rightarrow> vfs_file option" where
  "refile F f r = F(f := if r = 0 then None else map_option (\<lambda>x. x\<lparr>f_refs := int r\<rparr>) (F f))"

lemma on_f_refs [simp]:
  "on_node a (x\<lparr>f_refs := r\<rparr>) = on_node a x" "on_sock k (x\<lparr>f_refs := r\<rparr>) = on_sock k x" "on_pipe p w (x\<lparr>f_refs := r\<rparr>) = on_pipe p w x"
  by (simp_all add: on_node_def on_sock_def on_pipe_def wr_end_def)

lemma refs_refile:
  assumes fin: "finite (dom F)" and x: "F f = Some x" and Q: "Q (x\<lparr>f_refs := int r\<rparr>) = Q x"
  shows "refs_on (R(f := r)) (refile F f r) Q + (if Q x then R f else 0) = refs_on R F Q + (if Q x then r else 0)"
  using refs_split [OF fin x, of R Q] refs_on_upd [OF fin, of R f r "x\<lparr>f_refs := int r\<rparr>" Q] x Q
  by (cases "r = 0") (simp_all add: refile_def)

lemma refs_refile_one:
  assumes fin: "finite (dom F)" and x: "F f = Some x" and Q: "Q (x\<lparr>f_refs := int r\<rparr>) = Q x"
  shows "refs_on one (refile F f r) Q = refs_on one F Q - (if Q x \<and> r = 0 then 1 else 0)"
  using refs_split [OF fin x, of one Q] refs_on_upd [OF fin, of one f 1 "x\<lparr>f_refs := int r\<rparr>" Q] x Q
  by (cases "r = 0") (simp_all add: refile_def fun_upd_idem one_def)

lemma refile_dom: "finite (dom F) \<Longrightarrow> finite (dom (refile F f r))"
  by (rule finite_subset [of _ "insert f (dom F)"]) (auto simp: refile_def split: if_splits)

lemma file_refs_refile:
  assumes fr: "file_refs R F nx" and x: "F f = Some x"
  shows "file_refs (R(f := r)) (refile F f r) nx"
  using assms unfolding file_refs_def by (auto simp: refile_def)

lemma node_refs_refile:
  assumes fr: "file_refs R F nx" and x: "F f = Some x" and nr: "node_refs F h" and r: "r \<noteq> 0"
  shows "node_refs (refile F f r) h"
proof -
  have "refs_on one (refile F f r) (on_node a) = refs_on one F (on_node a)" for a
    using refs_refile_one [OF file_refs_finite [OF fr] x, of "on_node a" r] r by simp
  then show ?thesis using nr by (simp add: node_refs_def)
qed

text \<open>The last reference to a file on node \<open>a\<close>.\<close>

lemma node_refs_drop:
  assumes fr: "file_refs R F nx" and x: "F f = Some x" and nr: "node_refs F h" and a: "f_node x = Some a" "h a = Some n"
  shows "node_refs (refile F f 0) (h(a \<mapsto> n\<lparr>nd_open_refs := nd_open_refs n - 1\<rparr>))"
    and "nd_open_refs n = 1 \<Longrightarrow> node_refs (refile F f 0) (h(a := None))" and "nd_open_refs n > 0"
proof -
  note fin = file_refs_finite [OF fr]
  have o: "refs_on one (refile F f 0) (on_node b) = refs_on one F (on_node b) - (if b = a then 1 else 0)" for b
    using refs_refile_one [OF fin x, of "on_node b" 0] a(1) by (auto simp: on_node_def)
  have pos: "refs_on one F (on_node a) > 0"
    using refs_split [OF fin x, of one "on_node a"] a(1) by (simp add: on_node_def one_def)
  note n = node_refs_some [OF nr a(2)]
  show "nd_open_refs n > 0" using n pos by simp
  show "node_refs (refile F f 0) (h(a \<mapsto> n\<lparr>nd_open_refs := nd_open_refs n - 1\<rparr>))"
    unfolding node_refs_def
  proof
    fix b show "(case (h(a \<mapsto> n\<lparr>nd_open_refs := nd_open_refs n - 1\<rparr>)) b of None \<Rightarrow> 0 | Some n \<Rightarrow> nd_open_refs n) =
        int (refs_on one (refile F f 0) (on_node b))"
      using nr [unfolded node_refs_def, THEN spec, of b] o [of b] n pos by (cases "b = a") (simp_all add: of_nat_diff)
  qed
  show "node_refs (refile F f 0) (h(a := None))" if "nd_open_refs n = 1"
    unfolding node_refs_def
  proof
    fix b show "(case (h(a := None)) b of None \<Rightarrow> 0 | Some n \<Rightarrow> nd_open_refs n) = int (refs_on one (refile F f 0) (on_node b))"
      using nr [unfolded node_refs_def, THEN spec, of b] o [of b] n that by (cases "b = a") simp_all
  qed
qed

lemma node_refs_off:
  assumes fr: "file_refs R F nx" and x: "F f = Some x" and nr: "node_refs F h" and a: "f_node x = None"
  shows "node_refs (refile F f 0) h"
proof -
  have "refs_on one (refile F f 0) (on_node b) = refs_on one F (on_node b)" for b
    using refs_refile_one [OF file_refs_finite [OF fr] x, of "on_node b" 0] a(1) by (auto simp: on_node_def)
  then show ?thesis using nr by (simp add: node_refs_def)
qed

text \<open>The pipe of file \<open>f\<close>, if it has one, after the change.\<close>

definition repipe :: "(addr \<Rightarrow> vfs_pipe option) \<Rightarrow> vfs_file \<Rightarrow> int \<Rightarrow> addr \<Rightarrow> vfs_pipe option" where
  "repipe P x d =
     (case f_pipe x of
        None \<Rightarrow> P
      | Some p \<Rightarrow> (let q = pipe_add x d (the (P p))
                  in P(p := if p_refs_r q = 0 \<and> p_refs_w q = 0 then None else Some q)))"

lemma pipe_add_refs:
  "p_refs_r (pipe_add x d q) = p_refs_r q + (if wr_end x then 0 else d)" "p_refs_w (pipe_add x d q) = p_refs_w q + (if wr_end x then d else 0)"
  "pipe_ok (pipe_add x d q) = pipe_ok q"
  by (simp_all add: pipe_add_def ring_ok_def)

lemma pipe_refs_refile:
  assumes fr: "file_refs R F nx" and x: "F f = Some x" and pr: "pipe_refs R F P nx"
    and P: "\<And>p. f_pipe x = Some p \<Longrightarrow> P p \<noteq> None"
  shows "pipe_refs (R(f := r)) (refile F f r) (repipe P x (int r - int (R f))) nx"
  unfolding pipe_refs_def
proof
  fix p
  note fin = file_refs_finite [OF fr]
  note c = refs_refile [OF fin x, of "on_pipe p w" r R for w]
  let ?R = "R(f := r)" and ?F = "refile F f r" and ?P = "repipe P x (int r - int (R f))"
  have cr: "int (refs_on ?R ?F (on_pipe p w)) = int (refs_on R F (on_pipe p w)) + (if on_pipe p w x then int r - int (R f) else 0)" for w
    using c [of w] by (auto split: if_splits)
  show "case ?P p of None \<Rightarrow> \<forall>w. refs_on ?R ?F (on_pipe p w) = 0
      | Some q \<Rightarrow> p < nx \<and> pipe_ok q \<and> p_refs_r q = int (refs_on ?R ?F (on_pipe p False)) \<and>
          p_refs_w q = int (refs_on ?R ?F (on_pipe p True)) \<and> (p_refs_r q > 0 \<or> p_refs_w q > 0)"
  proof (cases "f_pipe x = Some p")
    case False
    then have "refs_on ?R ?F (on_pipe p w) = refs_on R F (on_pipe p w)" for w using cr [of w] by (simp add: on_pipe_def)
    moreover have "?P p = P p" using False by (auto simp: repipe_def Let_def split: option.splits)
    ultimately show ?thesis using pr [unfolded pipe_refs_def, THEN spec, of p] by (simp cong: option.case_cong)
  next
    case True
    then obtain q where q: "P p = Some q" using P by blast
    note d = pipe_refsD [OF pr q]
    let ?q = "pipe_add x (int r - int (R f)) q"
    have e: "p_refs_r ?q = int (refs_on ?R ?F (on_pipe p False))" "p_refs_w ?q = int (refs_on ?R ?F (on_pipe p True))"
      using d(3,4) True cr [of False] cr [of True] by (simp_all add: pipe_add_refs on_pipe_def)
    have Pp: "?P p = (if p_refs_r ?q = 0 \<and> p_refs_w ?q = 0 then None else Some ?q)" using True q by (simp add: repipe_def Let_def)
    show ?thesis
    proof (cases "p_refs_r ?q = 0 \<and> p_refs_w ?q = 0")
      case True
      then have "refs_on ?R ?F (on_pipe p w) = 0" for w using e by (cases w) auto
      then show ?thesis using Pp True by simp
    next
      case False
      then show ?thesis using Pp d(1,2) e by (auto simp: pipe_add_refs(3))
    qed
  qed
qed

text \<open>Sockets: the counts of files and of queues bound the count of the socket.\<close>

lemma sock_refsI:
  assumes "\<And>k. S k = None \<Longrightarrow> refs_on R F (on_sock k) = 0"
    and "\<And>k v. S k = Some v \<Longrightarrow> int (refs_on R F (on_sock k)) + (if queued S k then 1 else 0) \<le> us_refs v"
  shows "sock_refs R F S"
  unfolding sock_refs_def
proof
  fix k show "case S k of None \<Rightarrow> refs_on R F (on_sock k) = 0
      | Some v \<Rightarrow> int (refs_on R F (on_sock k)) + (if queued S k then 1 else 0) \<le> us_refs v"
    using assms [of k] by (cases "S k") simp_all
qed

lemma refs_on_sock:
  assumes "finite (dom F)" "F f = Some x"
  shows "int (refs_on (R(f := r)) (refile F f r) (on_sock k)) =
     int (refs_on R F (on_sock k)) + (if f_sock x = Some k then int r - int (R f) else 0)"
  using refs_refile [OF assms, of "on_sock k" r R] by (auto simp: on_sock_def split: if_splits)

lemma sock_refs_off:
  assumes "finite (dom F)" "F f = Some x" "f_sock x = None" "sock_refs R F S"
  shows "sock_refs (R(f := r)) (refile F f r) S"
proof -
  have "refs_on (R(f := r)) (refile F f r) (on_sock k) = refs_on R F (on_sock k)" for k
    using refs_on_sock [OF assms(1,2), of R r k] assms(3) by simp
  then show ?thesis using sock_refs_none [OF assms(4)] sock_refs_some [OF assms(4)] by (intro sock_refsI) simp_all
qed

lemma queued_refs: "S k = Some v \<Longrightarrow> queued (S(k \<mapsto> v\<lparr>us_refs := r\<rparr>)) q = queued S q"
  by (auto simp: queued_def) (metis option.inject)

lemma queued_bury: "queued (bury D S) q \<Longrightarrow> queued S q"
  by (auto simp: queued_def elim!: bury_SomeD split: if_splits) blast+

lemma sock_refs_count:
  assumes "finite (dom F)" "F f = Some x" "f_sock x = Some k" "S k = Some v" "sock_refs R F S"
  shows "sock_refs (R(f := r)) (refile F f r) (S(k \<mapsto> v\<lparr>us_refs := us_refs v + (int r - int (R f))\<rparr>))"
proof (rule sock_refsI)
  let ?S = "S(k \<mapsto> v\<lparr>us_refs := us_refs v + (int r - int (R f))\<rparr>)"
  fix j
  have c: "int (refs_on (R(f := r)) (refile F f r) (on_sock j)) = int (refs_on R F (on_sock j)) + (if j = k then int r - int (R f) else 0)"
    using refs_on_sock [OF assms(1,2), of R r j] assms(3) by auto
  show "refs_on (R(f := r)) (refile F f r) (on_sock j) = 0" if "?S j = None"
    using c sock_refs_none [OF assms(5), of j] that by (auto split: if_splits)
  show "int (refs_on (R(f := r)) (refile F f r) (on_sock j)) + (if queued ?S j then 1 else 0) \<le> us_refs w" if "?S j = Some w" for w
    using c sock_refs_some [OF assms(5), of j] that assms(4) queued_refs [of S k v, OF assms(4)] by (auto split: if_splits)
qed

lemma open_sock_not_queued:
  assumes so: "socks_ok S nx" and F: "finite (dom F)" "F f = Some x" "R f > 0" "f_sock x = Some k" and sr: "sock_refs R F S" and v: "S k = Some v"
  shows "\<not> queued S k"
proof
  assume q: "queued S k"
  then obtain a l where "S a = Some l" "k \<in> set (us_backlog l)" by (auto simp: queued_def)
  then have "us_refs v = 1" using socks_okD(5) [OF so] v by (force simp: queue_ok_def)
  moreover have "refs_on R F (on_sock k) > 0" using refs_split [OF F(1,2), of R "on_sock k"] F by (simp add: on_sock_def)
  ultimately show False using sock_refs_some [OF sr v] q by simp
qed

text \<open>The last reference to socket \<open>k\<close> goes with the last reference to a file.\<close>

lemma sock_refs_bury:
  assumes so: "socks_ok S nx" and F: "finite (dom F)" "F f = Some x" "R f > 0" "f_sock x = Some k" and sr: "sock_refs R F S"
    and v: "S k = Some v" "us_refs v \<le> 1"
  shows "R f = 1" "sock_refs (R(f := 0)) (refile F f 0) (bury (insert k (set (us_backlog v))) S)"
proof -
  let ?D = "insert k (set (us_backlog v))"
  have "refs_on R F (on_sock k) \<ge> R f" using refs_split [OF F(1,2), of R "on_sock k"] F by (simp add: on_sock_def)
  then have r1: "R f = 1" and k1: "refs_on R F (on_sock k) = 1" using sock_refs_some [OF sr v(1)] v(2) F(3) by (auto split: if_splits)
  show "R f = 1" by (rule r1)
  have c: "int (refs_on (R(f := 0)) (refile F f 0) (on_sock j)) = int (refs_on R F (on_sock j)) - (if j = k then 1 else 0)" for j
    using refs_on_sock [OF F(1,2), of R 0 j] F(4) r1 by auto
  show "sock_refs (R(f := 0)) (refile F f 0) (bury ?D S)"
  proof (rule sock_refsI)
    fix j assume j: "bury ?D S j = None"
    consider "j = k" | "j \<noteq> k" "j \<in> set (us_backlog v)" | "j \<notin> ?D" "S j = None" using j by (auto simp: bury_def split: if_splits)
    then show "refs_on (R(f := 0)) (refile F f 0) (on_sock j) = 0"
    proof cases
      case 2
      then obtain p where p: "S j = Some p" "us_refs p = 1" using socks_okD(5) [OF so v(1)] by (auto simp: queue_ok_def)
      have "queued S j" using v(1) 2 by (auto simp: queued_def)
      then show ?thesis using sock_refs_some [OF sr p(1)] p(2) c [of j] 2 by simp
    qed (use c [of j] k1 sock_refs_none [OF sr] in auto)
  next
    fix j w assume w: "bury ?D S j = Some w"
    then obtain u where u: "S j = Some u" "j \<notin> ?D" "us_refs w = us_refs u" by (elim bury_SomeD) (auto split: if_splits)
    then show "int (refs_on (R(f := 0)) (refile F f 0) (on_sock j)) + (if queued (bury ?D S) j then 1 else 0) \<le> us_refs w"
      using sock_refs_some [OF sr u(1)] c [of j] queued_bury [of ?D S j] by (auto split: if_splits)
  qed
qed

section \<open>The invariant over the reference counting operations\<close>

lemma usk_ok_ext [simp]:
  fixes s :: "('d, 'a) kern_scheme"
  shows "usk_ok (s\<lparr>files := F\<rparr>) = usk_ok s" "usk_ok (s\<lparr>pipes := P\<rparr>) = usk_ok s" "usk_ok (s\<lparr>dev := d\<rparr>) = usk_ok s"
    "usk_ok (s\<lparr>wfs := w\<rparr>) = usk_ok s" "usk_ok (s\<lparr>g_tasks := T\<rparr>) = usk_ok s"
  by (simp_all add: usk_ok_def vfs_ok_def)

definition bump :: "(addr \<Rightarrow> vfs_pipe option) \<Rightarrow> vfs_file \<Rightarrow> int \<Rightarrow> addr \<Rightarrow> vfs_pipe option" where
  "bump P x d = (case f_pipe x of None \<Rightarrow> P | Some p \<Rightarrow> P(p \<mapsto> pipe_add x d (the (P p))))"

lemma pipe_bump:
  assumes "\<And>p. f_pipe x = Some p \<Longrightarrow> pipes s p \<noteq> None"
  shows "(case f_pipe x of None \<Rightarrow> Some s | Some p \<Rightarrow> upd_pipe p (pipe_add x d) s) = Some (s\<lparr>pipes := bump (pipes s) x d\<rparr>)"
  using assms by (auto simp: bump_def upd_pipe_def split: option.splits)

lemma repipe_bump:
  assumes fr: "file_refs R F nx" and x: "F f = Some x" and pr: "pipe_refs R F P nx" and P: "\<And>p. f_pipe x = Some p \<Longrightarrow> P p \<noteq> None"
    and d: "int (R f) + d > 0"
  shows "repipe P x d = bump P x d"
proof (cases "f_pipe x")
  case (Some p)
  then obtain q where q: "P p = Some q" using P by blast
  have "refs_on R F (on_pipe p (wr_end x)) \<ge> R f"
    using refs_split [OF file_refs_finite [OF fr] x, of R "on_pipe p (wr_end x)"] Some by (simp add: on_pipe_def)
  then have "\<not> (p_refs_r (pipe_add x d q) = 0 \<and> p_refs_w (pipe_add x d q) = 0)"
    using pipe_refsD(3,4) [OF pr q] d by (cases "wr_end x") (auto simp: pipe_add_refs)
  then show ?thesis using Some q by (auto simp: repipe_def bump_def Let_def)
qed (simp add: repipe_def bump_def)

lemma refs_okD:
  assumes "refs_ok R s"
  shows "usk_ok s" "file_refs R (files s) (next_addr s)" "node_refs (files s) (nodes s)"
    "pipe_refs R (files s) (pipes s) (next_addr s)" "sock_refs R (files s) (socks s)" "socks_ok (socks s) (next_addr s)" "finite (dom (files s))"
  using assms file_refs_finite by (auto simp: refs_ok_def usk_ok_def)

lemma file_ref_step:
  fixes s :: "('d, 'a) kern_scheme"
  assumes ok: "refs_ok R s" and x: "files s f = Some x"
  obtains s' where "file_ref f s = Some s'" "refs_ok (R(f := Suc (R f))) s'"
    "files s' = refile (files s) f (Suc (R f))" "s' = s\<lparr>files := files s', pipes := pipes s', socks := socks s'\<rparr>"
proof -
  note o = refs_okD [OF ok]
  have P: "pipes s p \<noteq> None" if "f_pipe x = Some p" for p using file_targets(2) [OF ok x that] by auto
  let ?F = "refile (files s) f (Suc (R f))"
  let ?s1 = "s\<lparr>files := ?F\<rparr>" and ?P = "bump (pipes s) x 1"
  have up: "upd_file f (\<lambda>x. x\<lparr>f_refs := f_refs x + 1\<rparr>) s = Some ?s1"
    using x file_refsD(3) [OF o(2) x] by (simp add: upd_file_def refile_def add.commute)
  have s2: "(case f_pipe x of None \<Rightarrow> Some ?s1 | Some p \<Rightarrow> upd_pipe p (pipe_add x 1) ?s1) = Some (?s1\<lparr>pipes := ?P\<rparr>)"
    using pipe_bump [of x ?s1 1] P by simp
  have pr: "pipe_refs (R(f := Suc (R f))) ?F ?P (next_addr s)"
    using pipe_refs_refile [OF o(2) x o(4) P, of "Suc (R f)"] repipe_bump [OF o(2) x o(4) P, of 1] by simp
  have nr: "node_refs ?F (nodes s)" using node_refs_refile [OF o(2) x o(3)] by simp
  show thesis
  proof (cases "f_sock x")
    case None
    let ?s' = "?s1\<lparr>pipes := ?P\<rparr>"
    have "refs_ok (R(f := Suc (R f))) ?s'"
      using o pr nr file_refs_refile [OF o(2) x] sock_refs_off [OF o(7) x None o(5)] by (simp add: refs_ok_def)
    then show thesis using that [of ?s'] x up s2 None by (simp add: file_ref_def)
  next
    case (Some k)
    obtain v where v: "socks s k = Some v" using file_targets(3) [OF ok x Some] by auto
    let ?S = "(socks s)(k \<mapsto> v\<lparr>us_refs := us_refs v + 1\<rparr>)"
    let ?s' = "?s1\<lparr>pipes := ?P, socks := ?S\<rparr>"
    have nq: "\<not> queued (socks s) k" by (rule open_sock_not_queued [OF o(6,7) x file_refsD(2) [OF o(2) x] Some o(5) v])
    have "socks_ok ?S (next_addr s)" using socks_ok_refs [OF o(6) v nq] socks_okD(3) [OF o(6) v] by simp
    moreover have "sock_refs (R(f := Suc (R f))) ?F ?S"
      using sock_refs_count [OF o(7) x Some v o(5), of "Suc (R f)"] by simp
    ultimately have "refs_ok (R(f := Suc (R f))) ?s'"
      using o(1) pr nr file_refs_refile [OF o(2) x] by (simp add: refs_ok_def usk_ok_def vfs_ok_def)
    moreover have "unix_sock_ref k (?s1\<lparr>pipes := ?P\<rparr>) = Some ?s'" using v by (simp add: unix_sock_ref_def upd_sock_def)
    ultimately show thesis using that [of ?s'] x up s2 Some by (simp add: file_ref_def)
  qed
qed

lemma node_refs_no_priv: "no_priv h' = no_priv h \<Longrightarrow> node_refs F h' = node_refs F h"
proof -
  assume e: "no_priv h' = no_priv h"
  have "(case h' a of None \<Rightarrow> 0 | Some n \<Rightarrow> nd_open_refs n) = (case h a of None \<Rightarrow> 0 | Some n \<Rightarrow> nd_open_refs n)" for a
    using fun_cong [OF e, of a] by (cases "h' a"; cases "h a") (auto simp: no_priv_def dest: arg_cong [of _ _ nd_open_refs])
  then show ?thesis by (simp add: node_refs_def)
qed

text \<open>The socket of a file that loses one reference.\<close>

lemma sock_drop:
  fixes s :: "('d, 'a) kern_scheme"
  assumes ok: "usk_ok s" and fr: "file_refs R F nx" and x: "F f = Some x" and sr: "sock_refs R F (socks s)"
  obtains s' where "(case f_sock x of None \<Rightarrow> Some s | Some k \<Rightarrow> unix_sock_unref k s) = Some s'" "usk_ok s'"
    "sock_refs (R(f := R f - 1)) (refile F f (R f - 1)) (socks s')" "no_priv (nodes s') = no_priv (nodes s)"
    "s' = s\<lparr>nodes := nodes s', socks := socks s'\<rparr>"
proof (cases "f_sock x")
  case None
  then show thesis using that [of s] ok sock_refs_off [OF file_refs_finite [OF fr] x None sr] by simp
next
  case (Some k)
  note fin = file_refs_finite [OF fr] and pos = file_refsD(2) [OF fr x]
  have so: "socks_ok (socks s) (next_addr s)" using ok by (simp add: usk_ok_def)
  obtain v where v: "socks s k = Some v"
    using refs_on_zero [OF fin _ x, of R "on_sock k"] sock_refs_none [OF sr, of k] Some pos
    by (cases "socks s k") (auto simp: on_sock_def)
  have nq: "\<not> queued (socks s) k" by (rule open_sock_not_queued [OF so fin x pos Some sr v])
  obtain s' where s': "unix_sock_unref k s = Some s'" "usk_ok s'"
    "socks s' = (if us_refs v > 1 then (socks s)(k \<mapsto> v\<lparr>us_refs := us_refs v - 1\<rparr>)
                 else bury (insert k (set (us_backlog v))) (socks s))"
    "s' = s\<lparr>nodes := nodes s', socks := socks s'\<rparr>" "no_priv (nodes s') = no_priv (nodes s)"
    by (rule unref_step [OF ok v nq])
  have "sock_refs (R(f := R f - 1)) (refile F f (R f - 1)) (socks s')"
  proof (cases "us_refs v > 1")
    case True
    then show ?thesis using s'(3) sock_refs_count [OF fin x Some v sr, of "R f - 1"] pos by (simp add: of_nat_diff)
  next
    case False
    then have "us_refs v \<le> 1" by simp
    from sock_refs_bury [OF so fin x pos Some sr v this] show ?thesis using s'(3) False by simp
  qed
  then show thesis using that [OF _ s'(2) _ s'(5,4)] s'(1) Some by simp
qed

lemma dev_close_simps [simp]:
  fixes s :: "('d, 'a) kern_scheme"
  shows "usk_ok (dev_close n s) = usk_ok s" "nodes (dev_close n s) = nodes s" "files (dev_close n s) = files s"
    "pipes (dev_close n s) = pipes s" "socks (dev_close n s) = socks s" "next_addr (dev_close n s) = next_addr s"
    "wfs (dev_close n s) = wfs s"
  by (simp_all add: dev_close_def split: option.split)

lemma dev_close_eq: "dev_close n s = s\<lparr>dev := dev (dev_close n s)\<rparr>"
  by (simp add: dev_close_def split: option.split)

text \<open>The node of a file that loses its last reference.\<close>

lemma node_drop:
  fixes s :: "('d, 'a) kern_scheme"
  assumes ok: "usk_ok s" and fr: "file_refs R F nx" and x: "F f = Some x" and nr: "node_refs F (nodes s)"
  obtains s' where "release_node x s = Some s'" "usk_ok s'" "node_refs (refile F f 0) (nodes s')"
    "s' = s\<lparr>nodes := nodes s', wfs := wfs s', dev := dev s'\<rparr>"
proof (cases "f_node x")
  case None
  then show thesis using that [of s] ok node_refs_off [OF fr x nr None] by (simp add: release_node_def)
next
  case (Some a)
  obtain n where n: "nodes s a = Some n"
    using refs_on_zero [OF file_refs_finite [OF fr] _ x, of one "on_node a"] node_refs_none [OF nr, of a] Some
    by (cases "nodes s a") (auto simp: on_node_def one_def)
  note d = node_refs_drop [OF fr x nr Some n]
  let ?n = "n\<lparr>nd_open_refs := nd_open_refs n - 1\<rparr>"
  let ?s1 = "s\<lparr>nodes := (nodes s)(a \<mapsto> ?n)\<rparr>"
  have v: "vfs_ok s" and so: "socks_ok (socks s) (next_addr s)" using ok by (auto simp: usk_ok_def)
  have ok1: "usk_ok ?s1" using vfs_ok_shape(1) [OF v n, of ?n] so by (simp add: same_shape_def usk_ok_def)
  let ?s2 = "dev_close ?n ?s1"
  consider "nd_open_refs n \<noteq> 1" | "nd_open_refs n = 1" "\<not> nd_unlinked n" | "nd_open_refs n = 1" "nd_unlinked n" by blast
  then show thesis
  proof cases
    case 1
    then show thesis using that [of ?s1] ok1 d(1) n Some by (simp add: release_node_def Let_def)
  next
    case 2
    have "?s2 = s\<lparr>nodes := (nodes s)(a \<mapsto> ?n), dev := dev ?s2\<rparr>" by (subst dev_close_eq) simp
    then show thesis using that [of ?s2] ok1 d(1) n Some 2 by (simp add: release_node_def Let_def)
  next
    case 3
    let ?s3 = "?s2\<lparr>nodes := (nodes s)(a := None), wfs := snd (wrf_notify_free (wfs s) ?n)\<rparr>"
    obtain r kids where r: "g_root s = Some r" "heap_inv (nodes s) r kids (next_addr s)" using v by (elim vfs_okE)
    have "\<not> in_tree r kids a \<and> kids a = []" by (rule heap_invD(4) [OF r(2) n 3(2)])
    then have "heap_inv ((nodes s)(a := None)) r kids (next_addr s)" using heap_inv_free [OF r(2), of a] by (simp add: in_tree_def)
    moreover have e: "?s3 = s\<lparr>nodes := (nodes s)(a := None), wfs := wfs ?s3, dev := dev ?s2\<rparr>" by (subst dev_close_eq) simp
    ultimately have "usk_ok ?s3" using so r(1) by (subst e) (auto simp: usk_ok_def vfs_ok_def)
    moreover have "release_node x s = Some ?s3" using n Some 3 by (simp add: release_node_def Let_def)
    ultimately show thesis using that [of ?s3] d(2) 3(1) e by simp
  qed
qed

lemma release_pipe_bump:
  assumes "\<And>p. f_pipe x = Some p \<Longrightarrow> P p \<noteq> None" "pipes s = bump P x d"
  shows "release_pipe x s = Some (s\<lparr>pipes := repipe P x d\<rparr>)"
  using assms by (auto simp: release_pipe_def repipe_def bump_def Let_def split: option.split)

lemma file_unref_step:
  fixes s :: "('d, 'a) kern_scheme"
  assumes ok: "refs_ok R s" and x: "files s f = Some x"
  obtains s' where "file_unref f s = Some s'" "refs_ok (R(f := R f - 1)) s'" "files s' = refile (files s) f (R f - 1)"
    "s' = s\<lparr>nodes := nodes s', wfs := wfs s', socks := socks s', files := files s', pipes := pipes s', dev := dev s'\<rparr>"
    "pipes s' = repipe (pipes s) x (-1)"
proof -
  note o = refs_okD [OF ok] and d = file_refsD [OF refs_okD(2) [OF ok] x]
  let ?F = "refile (files s) f (R f - 1)" and ?R = "R(f := R f - 1)"
  have P: "pipes s p \<noteq> None" if "f_pipe x = Some p" for p using file_targets(2) [OF ok x that] by auto
  let ?s1 = "s\<lparr>pipes := bump (pipes s) x (-1)\<rparr>"
  have s1: "(case f_pipe x of None \<Rightarrow> Some s | Some p \<Rightarrow> upd_pipe p (pipe_add x (-1)) s) = Some ?s1"
    using pipe_bump [of x s "-1"] P by simp
  obtain s2 where s2: "(case f_sock x of None \<Rightarrow> Some ?s1 | Some k \<Rightarrow> unix_sock_unref k ?s1) = Some s2" "usk_ok s2"
    "sock_refs ?R ?F (socks s2)" "no_priv (nodes s2) = no_priv (nodes ?s1)" "s2 = ?s1\<lparr>nodes := nodes s2, socks := socks s2\<rparr>"
    by (rule sock_drop [of ?s1, OF _ o(2) x]) (use o in simp_all)
  obtain h2 S2 where e2: "s2 = ?s1\<lparr>nodes := h2, socks := S2\<rparr>" using s2(5) by blast
  have f2: "files s2 = files s" "pipes s2 = bump (pipes s) x (-1)" "next_addr s2 = next_addr s" by (subst s2(5), simp)+
  have nr: "node_refs (files s) (nodes s2)" using o(3) node_refs_no_priv [OF s2(4)] by simp
  let ?s3 = "s2\<lparr>files := (files s)(f \<mapsto> x\<lparr>f_refs := f_refs x - 1\<rparr>)\<rparr>"
  have s3: "upd_file f (\<lambda>x. x\<lparr>f_refs := f_refs x - 1\<rparr>) s2 = Some ?s3" using x f2 by (simp add: upd_file_def)
  have fr: "file_refs ?R ?F (next_addr s)" by (rule file_refs_refile [OF o(2) x])
  have e1: "int (R f - 1) - int (R f) = -1" using d(2) by (simp add: of_nat_diff)
  have pr: "pipe_refs ?R ?F (repipe (pipes s) x (-1)) (next_addr s)"
    using pipe_refs_refile [OF o(2) x o(4) P, of "R f - 1"] unfolding e1 .
  show thesis
  proof (cases "R f = 1")
    case False
    have "repipe (pipes s) x (-1) = bump (pipes s) x (-1)" using repipe_bump [OF o(2) x o(4) P, of "-1"] d(2) False by simp
    moreover have F: "?F = (files s)(f \<mapsto> x\<lparr>f_refs := f_refs x - 1\<rparr>)" using d False x by (simp add: refile_def of_nat_diff)
    moreover have "node_refs ?F (nodes s2)" using node_refs_refile [OF o(2) x nr, of "R f - 1"] d(2) False by simp
    ultimately have g: "refs_ok ?R ?s3" "pipes ?s3 = repipe (pipes s) x (-1)" using s2(2,3) fr pr f2 by (simp_all add: refs_ok_def)
    have e: "?s3 = s\<lparr>nodes := nodes ?s3, wfs := wfs ?s3, socks := socks ?s3, files := files ?s3, pipes := pipes ?s3, dev := dev ?s3\<rparr>"
      unfolding e2 by simp
    have "file_unref f s = Some ?s3" using x s1 s2(1) s3 d(2,3) False by (simp add: file_unref_def)
    then show thesis by (rule that [OF _ g(1) _ e g(2)]) (use F in simp)
  next
    case True
    let ?s4 = "?s3\<lparr>pipes := repipe (pipes s) x (-1)\<rparr>"
    have s4: "release_pipe x ?s3 = Some ?s4" using release_pipe_bump [of x "pipes s" ?s3 "-1"] P f2 by simp
    obtain s5 where s5: "release_node x ?s4 = Some s5" "usk_ok s5" "node_refs (refile (files s) f 0) (nodes s5)"
      "s5 = ?s4\<lparr>nodes := nodes s5, wfs := wfs s5, dev := dev s5\<rparr>"
      by (rule node_drop [of ?s4, OF _ o(2) x]) (use s2(2) nr in simp_all)
    obtain h5 w5 d5 where e5: "s5 = ?s4\<lparr>nodes := h5, wfs := w5, dev := d5\<rparr>" using s5(4) by blast
    let ?s6 = "s5\<lparr>files := (files s5)(f := None)\<rparr>"
    have f5: "files s5 = (files s)(f \<mapsto> x\<lparr>f_refs := f_refs x - 1\<rparr>)" "pipes s5 = repipe (pipes s) x (-1)"
      "next_addr s5 = next_addr s" "socks s5 = socks s2" by (subst s5(4), simp add: f2)+
    have F: "files ?s6 = ?F" using f5 True by (simp add: refile_def)
    have g: "refs_ok ?R ?s6" unfolding refs_ok_def F using s5(2,3) s2(3) fr pr f5 True by simp
    have e: "?s6 = s\<lparr>nodes := nodes ?s6, wfs := wfs ?s6, socks := socks ?s6, files := files ?s6, pipes := pipes ?s6, dev := dev ?s6\<rparr>"
      unfolding e5 e2 by simp
    have "file_unref f s = Some ?s6" using x s1 s2(1) s3 s4 s5(1) d(3) True by (simp add: file_unref_def)
    then show thesis by (rule that [OF _ g F e]) (simp add: f5)
  qed
qed

section \<open>Descriptor tables\<close>

abbreviation fdtab :: "'a vfs_scheme \<Rightarrow> nat \<Rightarrow> nat \<Rightarrow> addr option" where
  "fdtab s t \<equiv> t_fds (g_tasks s t)"

definition slots :: "(nat \<Rightarrow> nat \<Rightarrow> addr option) \<Rightarrow> addr \<Rightarrow> (nat \<times> nat) set" where
  "slots T f = {(t, i). i < VFS_MAX_FDS \<and> T t i = Some f}"

text \<open>Every descriptor is one of the references to its open file, and only a file on a node can have others:
  \<^verbatim>\<open>vfs_open_mode\<close> does not take back its reference when the table is full.\<close>

definition slots_ok :: "(addr \<Rightarrow> nat) \<Rightarrow> (addr \<Rightarrow> vfs_file option) \<Rightarrow> (nat \<Rightarrow> nat \<Rightarrow> addr option) \<Rightarrow> bool" where
  "slots_ok R F T \<longleftrightarrow>
     (\<forall>f. finite (slots T f) \<and> card (slots T f) \<le> R f \<and>
        (card (slots T f) < R f \<longrightarrow> (\<exists>x. F f = Some x \<and> f_node x \<noteq> None)))"

definition kern_refs :: "(addr \<Rightarrow> nat) \<Rightarrow> ('d, 'a) kern_scheme \<Rightarrow> bool" where
  "kern_refs R s \<longleftrightarrow> refs_ok R s \<and> slots_ok R (files s) (fdtab s)"

definition kern_ok :: "('d, 'a) kern_scheme \<Rightarrow> bool" where
  "kern_ok s \<longleftrightarrow> (\<exists>R. kern_refs R s)"

lemma slots_upd:
  assumes "i < VFS_MAX_FDS"
  shows "slots (T(t := (T t)(i := v))) f = (if v = Some f then insert (t, i) (slots T f) else slots T f - {(t, i)})"
  using assms by (auto simp: slots_def split: if_splits)

lemma slots_card:
  assumes fin: "finite (slots T f)" and i: "i < VFS_MAX_FDS"
  shows "card (slots (T(t := (T t)(i := v))) f) + (if T t i = Some f then 1 else 0) = card (slots T f) + (if v = Some f then 1 else 0)"
proof -
  have m: "(t, i) \<in> slots T f \<longleftrightarrow> T t i = Some f" using i by (simp add: slots_def)
  show ?thesis
    using m fin card_gt_0_iff [of "slots T f"]
    by (cases "v = Some f"; cases "T t i = Some f") (auto simp: slots_upd [OF i] insert_absorb card_Diff_singleton)
qed

lemma slots_ok_move:
  assumes ok: "slots_ok R F T" and i: "i < VFS_MAX_FDS" and u: "T t i = u"
    and R: "\<And>f. R f + (if v = Some f then 1 else 0) = R' f + (if u = Some f then 1 else 0)"
    and F: "\<And>f x. F f = Some x \<Longrightarrow> R' f > 0 \<Longrightarrow> \<exists>x'. F' f = Some x' \<and> f_node x' = f_node x"
  shows "slots_ok R' F' (T(t := (T t)(i := v)))"
  unfolding slots_ok_def
proof (intro allI conjI impI)
  fix f
  let ?T = "T(t := (T t)(i := v))"
  have fin: "finite (slots T f)" and c: "card (slots T f) \<le> R f" using ok by (auto simp: slots_ok_def)
  note e = slots_card [OF fin i, of t v]
  show "finite (slots ?T f)" using fin by (simp add: slots_upd [OF i])
  show "card (slots ?T f) \<le> R' f" using R [of f] c e u by (auto split: if_splits)
  assume l: "card (slots ?T f) < R' f"
  then have "card (slots T f) < R f" using R [of f] e u by (auto split: if_splits)
  then obtain x where "F f = Some x" "f_node x \<noteq> None" using ok by (auto simp: slots_ok_def)
  then show "\<exists>x. F' f = Some x \<and> f_node x \<noteq> None" using F [of f x] l by auto
qed

lemma slot_used:
  assumes "slots_ok R F T" "T t i = Some f" "i < VFS_MAX_FDS"
  shows "R f > 0"
proof -
  have "(t, i) \<in> slots T f" using assms by (simp add: slots_def)
  then have "card (slots T f) > 0" using assms(1) by (auto simp: slots_ok_def card_gt_0_iff)
  then show ?thesis using assms(1) unfolding slots_ok_def by (metis less_le_trans)
qed

lemma slot_file:
  assumes k: "kern_refs R s" and f: "fdtab s t i = Some f" "i < VFS_MAX_FDS"
  obtains x where "files s f = Some x" "R f > 0"
proof -
  have "R f > 0" using k f by (auto simp: kern_refs_def intro: slot_used)
  moreover have "files s f = None \<longrightarrow> R f = 0" using k by (simp add: kern_refs_def refs_ok_def file_refs_def)
  ultimately show thesis using that by (cases "files s f") auto
qed

lemma fd_get_Some:
  "fd_get s fd = Some f \<longleftrightarrow> (\<exists>t. g_current s = Some t \<and> 0 \<le> fd \<and> fd < int VFS_MAX_FDS \<and> fdtab s t (nat fd) = Some f)"
  by (auto simp: fd_get_def fd_table_def sched_current_def split: option.splits)

text \<open>A descriptor never refers to a freed file.\<close>

lemma fd_file_total:
  assumes "kern_refs R s"
  obtains "fd_get s fd = None" "fd_file s fd = Some None"
  | f x where "fd_get s fd = Some f" "files s f = Some x" "fd_file s fd = Some (Some (f, x))" "R f > 0"
proof (cases "fd_get s fd")
  case None
  then show thesis using that(1) by (simp add: fd_file_def)
next
  case (Some f)
  then obtain t where "fdtab s t (nat fd) = Some f" "nat fd < VFS_MAX_FDS" by (auto simp: fd_get_Some)
  then obtain x where "files s f = Some x" "R f > 0" by (rule slot_file [OF assms])
  then show thesis using that(2) Some by (simp add: fd_file_def)
qed

lemma set_slot_simps [simp]:
  fixes s :: "('d, 'a) kern_scheme"
  shows "fdtab (set_slot t i v s) = (fdtab s)(t := (fdtab s t)(i := v))" "refs_ok R (set_slot t i v s) = refs_ok R s"
    "files (set_slot t i v s) = files s" "g_current (set_slot t i v s) = g_current s"
  by (auto simp: set_slot_def refs_ok_def usk_ok_def vfs_ok_def fun_eq_iff)

lemma fdtab_set_slot: "fdtab (set_slot t i v s) u j = (if u = t \<and> j = i then v else fdtab s u j)"
  by (simp add: set_slot_def)

lemma set_fd_slot: "g_current s = Some t \<Longrightarrow> set_fd i v s = set_slot t i v s"
  by (simp add: set_fd_def)

section \<open>A new file\<close>

lemma refs_on_new:
  assumes "finite (dom F)" "F f = None"
  shows "refs_on (R(f := r)) (F(f \<mapsto> x)) Q = (if Q x then r else 0) + refs_on R F Q"
    "refs_on one (F(f \<mapsto> x)) Q = (if Q x then 1 else 0) + refs_on one F Q"
proof -
  show *: "refs_on (R(f := r)) (F(f \<mapsto> x)) Q = (if Q x then r else 0) + refs_on R F Q" for R r
    using refs_on_upd [OF assms(1), of R f r x Q] refs_on_absent [of F f R Q] assms(2) by simp
  show "refs_on one (F(f \<mapsto> x)) Q = (if Q x then 1 else 0) + refs_on one F Q"
    using * [of one 1] by (simp add: fun_upd_idem one_def)
qed

lemma file_refs_fresh: "file_refs R F nx \<Longrightarrow> nx \<le> f \<Longrightarrow> F f = None"
  by (cases "F f") (fastforce simp: file_refs_def)+

lemma file_refs_new:
  assumes "file_refs R F nx" "nx \<le> f" "f_refs x = 1" "kind_ok x"
  shows "file_refs (R(f := 1)) (F(f \<mapsto> x)) (Suc f)"
  unfolding file_refs_def
proof (intro conjI allI impI)
  fix g y assume g: "(F(f \<mapsto> x)) g = Some y"
  show "g < Suc f" "0 < (R(f := 1)) g" "f_refs y = int ((R(f := 1)) g)" "kind_ok y"
    using g assms(2-4) file_refsD [OF assms(1), of g y] by (auto split: if_splits)
qed (use assms(1) in \<open>auto simp: file_refs_def split: if_splits\<close>)

lemma node_refs_new:
  assumes "file_refs R F nx" "nx \<le> f" "node_refs F h" "f_node x = None"
  shows "node_refs (F(f \<mapsto> x)) h"
  using assms refs_on_new(2) [OF file_refs_finite [OF assms(1)] file_refs_fresh [OF assms(1,2)], of x]
  by (simp add: node_refs_def on_node_def)

lemma node_refs_open:
  assumes "file_refs R F nx" "nx \<le> f" "node_refs F h" "f_node x = Some a" "h a = Some n"
  shows "node_refs (F(f \<mapsto> x)) (h(a \<mapsto> n\<lparr>nd_open_refs := nd_open_refs n + 1\<rparr>))"
  unfolding node_refs_def
proof
  fix b
  show "(case (h(a \<mapsto> n\<lparr>nd_open_refs := nd_open_refs n + 1\<rparr>)) b of None \<Rightarrow> 0 | Some n \<Rightarrow> nd_open_refs n) = int (refs_on one (F(f \<mapsto> x)) (on_node b))"
    using assms(3) [unfolded node_refs_def, THEN spec, of b] assms(4,5)
      refs_on_new(2) [OF file_refs_finite [OF assms(1)] file_refs_fresh [OF assms(1,2)], of x "on_node b"]
    by (cases "b = a") (simp_all add: on_node_def)
qed

lemma sock_refs_new:
  assumes "file_refs R F nx" "nx \<le> f" "sock_refs R F S" "f_sock x = None"
  shows "sock_refs (R(f := 1)) (F(f \<mapsto> x)) S"
  using assms refs_on_new(1) [OF file_refs_finite [OF assms(1)] file_refs_fresh [OF assms(1,2)], of R 1 x]
    sock_refs_none [OF assms(3)] sock_refs_some [OF assms(3)]
  by (intro sock_refsI) (simp_all add: on_sock_def)

lemma pipe_refs_new:
  assumes "file_refs R F nx" "nx \<le> f" "pipe_refs R F P nx" "f_pipe x = None"
  shows "pipe_refs (R(f := 1)) (F(f \<mapsto> x)) P (Suc f)"
  unfolding pipe_refs_def
proof
  fix p
  have "refs_on (R(f := 1)) (F(f \<mapsto> x)) (on_pipe p w) = refs_on R F (on_pipe p w)" for w
    using refs_on_new(1) [OF file_refs_finite [OF assms(1)] file_refs_fresh [OF assms(1,2)], of R 1 x "on_pipe p w"] assms(4)
    by (simp add: on_pipe_def)
  then show "case P p of None \<Rightarrow> \<forall>w. refs_on (R(f := 1)) (F(f \<mapsto> x)) (on_pipe p w) = 0
      | Some q \<Rightarrow> p < Suc f \<and> pipe_ok q \<and> p_refs_r q = int (refs_on (R(f := 1)) (F(f \<mapsto> x)) (on_pipe p False)) \<and>
          p_refs_w q = int (refs_on (R(f := 1)) (F(f \<mapsto> x)) (on_pipe p True)) \<and> (p_refs_r q > 0 \<or> p_refs_w q > 0)"
    using assms(3) [unfolded pipe_refs_def, THEN spec, of p] assms(2) by (cases "P p") auto
qed

lemma kern_refs_next:
  assumes "kern_refs R s" "next_addr s \<le> n"
  shows "kern_refs R (s\<lparr>next_addr := n\<rparr>)"
proof -
  have "usk_ok (s\<lparr>next_addr := n\<rparr>)" if "usk_ok s"
    using that assms(2) unfolding usk_ok_def vfs_ok_def heap_inv_def socks_ok_def by (auto intro: less_le_trans) (meson less_le_trans)+
  moreover have "file_refs R F n" if "file_refs R F (next_addr s)" for F
    using that assms(2) unfolding file_refs_def by (meson less_le_trans)
  moreover have "pipe_refs R F P n" if p: "pipe_refs R F P (next_addr s)" for F P
    unfolding pipe_refs_def
  proof
    fix p show "case P p of None \<Rightarrow> \<forall>w. refs_on R F (on_pipe p w) = 0
      | Some q \<Rightarrow> p < n \<and> pipe_ok q \<and> p_refs_r q = int (refs_on R F (on_pipe p False)) \<and>
          p_refs_w q = int (refs_on R F (on_pipe p True)) \<and> (p_refs_r q > 0 \<or> p_refs_w q > 0)"
      using p [unfolded pipe_refs_def, THEN spec, of p] assms(2) by (cases "P p") auto
  qed
  ultimately show ?thesis using assms(1) by (simp add: kern_refs_def refs_ok_def)
qed

end
