(* ===== verification/Vfs_Props.thy ===== *)
theory Vfs_Props
  imports Vfs_Inv
begin

text \<open>
  Properties of the file tree: lookup, creation, removal and renaming against the abstract file system,
  permission checks, the round trip between nodes and paths, and the invariant over arbitrary sequences of
  operations.
\<close>

section \<open>A small file system\<close>

text \<open>The root (address 1), the directory \<^verbatim>\<open>/a\<close> (2) and the file \<^verbatim>\<open>/a/f\<close> (3), seen by a user task whose
  working directory is \<^verbatim>\<open>/a\<close>.\<close>

definition demo_heap :: heap where
  "demo_heap =
     [1 \<mapsto> zero_node\<lparr>nd_type := VFS_DIR, nd_mode := 0x1ED, nd_name := ''/'', nd_child := Some 2\<rparr>,
      2 \<mapsto> zero_node\<lparr>nd_type := VFS_DIR, nd_mode := 0x1ED, nd_name := ''a'', nd_uid := 100, nd_gid := 100,
             nd_parent := Some 1, nd_child := Some 3\<rparr>,
      3 \<mapsto> zero_node\<lparr>nd_type := VFS_FILE, nd_mode := 0x1A4, nd_name := ''f'', nd_uid := 100, nd_gid := 100,
             nd_parent := Some 2\<rparr>]"

definition demo_task :: task where
  "demo_task = \<lparr>t_pid = 5, t_euid = 100, t_egid = 100, t_cwd = ''/a'', t_fds = Map.empty\<rparr>"

definition demo :: vfs where
  "demo = \<lparr>nodes = demo_heap, g_root = Some 1, wfs = sample_vol, next_addr = 4, oom = (\<lambda>_. False),
     g_tasks = (\<lambda>_. demo_task), g_current = Some 0, g_shell_session_uid = 0, g_shell_session_gid = 0\<rparr>"

definition demo_kids :: "addr \<Rightarrow> addr list" where
  "demo_kids = ((\<lambda>_. [])(1 := [2], 2 := [3]))"

lemma demo_inv: "heap_inv demo_heap 1 demo_kids 4"
proof -
  have "tree demo_heap 1 demo_kids"
    unfolding tree_def by (auto simp: demo_heap_def demo_kids_def zero_node_def name_ok_def inj_on_def split: if_splits)
  then show ?thesis by (auto simp: heap_inv_def demo_heap_def zero_node_def split: if_splits)
qed

lemma demo_ok: "vfs_ok demo"
  using demo_inv by (auto simp: vfs_ok_def demo_def)

lemma demo_dirmap:
  "dirmap demo_heap = [1 \<mapsto> [''a'' \<mapsto> 2], 2 \<mapsto> [''f'' \<mapsto> 3]]"
  by (auto simp: dirmap_tree [OF heap_invD(1) [OF demo_inv]] dir_at_def fun_eq_iff name_of_def)
    (auto simp: demo_heap_def demo_kids_def zero_node_def split: if_splits option.splits)

lemma demo_segments: "segments ''a'' = [''a'']" "segments ''a/f'' = [''a'', ''f'']" "segments ''a/g'' = [''a'', ''g'']"
    "segments ''f'' = [''f'']"
  by (simp_all add: segments.simps)

lemma demo_lookup:
  "abs_lookup demo ''/a'' = Some 2" "abs_lookup demo ''/a/f'' = Some 3" "abs_lookup demo ''/'' = Some 1"
  "abs_lookup demo ''/f'' = None"
  by (simp_all add: abs_lookup_def demo_def lookup_path_def demo_segments demo_dirmap)

lemma demo_split:
  "path_split ''/a/f'' 256 64 = Some (''/a'', ''f'')" "path_split ''/a/g'' 256 64 = Some (''/a'', ''g'')"
  "path_split ''/f'' 256 64 = Some (''/'', ''f'')"
  by (simp_all add: path_split_def)

section \<open>Lookup\<close>



section \<open>Creation\<close>

lemma lookup_after_create:
  assumes slot: "abs_slot s path = Some (p, name)" and abs: "take 1 path = [slash]" and fresh: "nodes s a = None"
    and D: "dirmap (nodes s') = with_entry (dirmap (nodes s)) p name a isdir" and root: "g_root s' = g_root s" and ok: "vfs_ok s"
  shows "abs_lookup s' path = Some a"
proof -
  obtain dir m where sp: "path_split path 256 VFS_NAME_MAX = Some (dir, name)" and lk: "abs_lookup s dir = Some p"
    and m: "dirmap (nodes s) p = Some m" using slot by (elim abs_slotE)
  obtain r kids where r: "g_root s = Some r" and t: "tree (nodes s) r kids" using ok by (elim vfs_okE)
  have pa: "p \<noteq> a" using m fresh by (auto simp: dirmap_def dir_at_def)
  have da: "take 1 dir = [slash]" by (rule path_split_absolute(2) [OF abs sp])
  have keep: "awalk (dirmap (nodes s')) b cs = Some c"
    if "awalk (dirmap (nodes s)) b cs = Some c" "in_tree r kids b" "c = p" for b c cs
    using that(1,2)
  proof (induction cs arbitrary: b)
    case (Cons x cs)
    then obtain m' b' where b': "dirmap (nodes s) b = Some m'" "m' x = Some b'" "awalk (dirmap (nodes s)) b' cs = Some c"
      by (auto split: option.splits)
    have "b \<noteq> a" using b'(1) fresh by (auto simp: dirmap_def dir_at_def)
    then have "dirmap (nodes s') b = Some (if b = p then m'(name \<mapsto> a) else m')" using b'(1) by (auto simp: D with_entry_def)
    moreover have "in_tree r kids b'" using dirmap_SomeD(2) [OF t b'(1)] b'(2) in_tree_kid [of b' kids b r] by auto
    moreover have "b = p \<Longrightarrow> x \<noteq> name"
      using b' slot m by (auto simp: abs_slot_def split: option.splits prod.splits if_splits)
    ultimately show ?case using b'(2) Cons.IH [OF b'(3)] by simp
  qed simp
  have "abs_lookup s' dir = Some p"
    using lk da r root keep [of r _ p] by (simp add: abs_lookup_def lookup_path_def in_tree_def)
  then show ?thesis using abs_lookup_split [OF abs sp, of s'] D m pa by (simp add: with_entry_def)
qed

text \<open>C30. Creating a directory or a file at an absolute path whose parent directory exists and has no such
  entry: the call returns a fresh node, the abstract file system gains exactly that entry (an empty
  directory, or a file), the tree invariant holds again, looking the path up finds the new node, and the
  node belongs to the caller.\<close>

theorem vfs_create_lookup:
  assumes "vfs_ok s" and "take 1 path = [slash]" and "abs_slot s path = Some (p, name)" and "\<not> oom s (next_addr s)"
    and "create = (if isdir then vfs_create_dir else vfs_create_file)"
  shows "\<exists>a n s'. create s path = Some (Some a, s') \<and> nodes s a = None \<and> vfs_ok s' \<and>
     dirmap (nodes s') = with_entry (dirmap (nodes s)) p name a isdir \<and>
     vfs_lookup s' path = Some (Some a) \<and> nodes s' a = Some n \<and> (nd_uid n, nd_gid n) = vfs_caller_ids s"
proof -
  define mk where "mk = (if isdir then dir_node else file_node :: 'a vfs_scheme \<Rightarrow> string \<Rightarrow> vfs_node)"
  have mk: "nd_name (mk s name) = name" "nd_child (mk s name) = None" "\<not> nd_unlinked (mk s name)"
    "nd_type (mk s name) = VFS_DIR \<longleftrightarrow> isdir" "(nd_uid (mk s name), nd_gid (mk s name)) = vfs_caller_ids s"
    by (auto simp: mk_def dir_node_def file_node_def zero_node_def split: prod.splits)
  obtain s' n' where s': "create_persistent s path mk = Some (Some (next_addr s), s')" "vfs_ok s'" "nodes s (next_addr s) = None"
    "dirmap (nodes s') = with_entry (dirmap (nodes s)) p name (next_addr s) (nd_type (mk s name) = VFS_DIR)"
    "nodes s' (next_addr s) = Some n'" "body n' = body ((mk s name)\<lparr>nd_parent := Some p, nd_wrf_ino := nd_wrf_ino n'\<rparr>)"
    "s' = s\<lparr>nodes := nodes s', next_addr := Suc (next_addr s), wfs := wfs s'\<rparr>"
    by (rule create_persistent_step [of s path p name mk, OF assms(1,3,4) mk(1-3)]) metis
  have root: "g_root s' = g_root s" by (subst s'(7)) simp
  have "abs_lookup s' path = Some (next_addr s)"
    by (rule lookup_after_create [OF assms(3,2) s'(3,4) root assms(1)])
  moreover have "(nd_uid n', nd_gid n') = vfs_caller_ids s" using body_eqD(10,11) [OF s'(6)] mk(5) by simp
  moreover have "create s path = create_persistent s path mk"
    using assms(5) by (simp add: mk_def vfs_create_dir_def vfs_create_file_def)
  ultimately show ?thesis
    using s' mk(4) vfs_lookup_eq [OF s'(2)] by (intro exI [of _ "next_addr s"] exI [of _ n'] exI [of _ s']) auto
qed

theorem vfs_create_lookup_witness:
  "\<exists>s'. vfs_create_file demo ''/a/g'' = Some (Some 4, s') \<and> vfs_ok s' \<and> vfs_lookup s' ''/a/g'' = Some (Some 4)"
proof -
  have slot: "abs_slot demo ''/a/g'' = Some (2, ''g'')"
    by (simp add: abs_slot_def demo_split demo_lookup) (simp add: demo_def demo_dirmap)
  obtain a n s' where s': "vfs_create_file demo ''/a/g'' = Some (Some a, s')" "vfs_ok s'" "vfs_lookup s' ''/a/g'' = Some (Some a)"
    using vfs_create_lookup [OF demo_ok _ slot _ refl, of False] by (auto simp: demo_def)
  moreover have "a = 4"
    using s'(1) slot by (auto simp: vfs_create_file_def create_persistent_def create_slot_eq [OF demo_ok] new_node_def kmalloc_def
        demo_def bind_eq_Some_conv split: option.splits)
  ultimately show ?thesis by blast
qed

section \<open>Removal\<close>

definition remove_target :: "'a vfs_scheme \<Rightarrow> string \<Rightarrow> (addr \<times> string \<times> addr) option" where
  "remove_target s path =
     (case path_split path 256 VFS_NAME_MAX of
        None \<Rightarrow> None
      | Some (dir, name) \<Rightarrow>
          (case abs_lookup s dir of
             None \<Rightarrow> None
           | Some p \<Rightarrow>
               (case dirmap (nodes s) p of
                  None \<Rightarrow> None
                | Some m \<Rightarrow> map_option (\<lambda>v. (p, name, v)) (m name))))"

lemma remove_targetE:
  assumes "remove_target s path = Some (p, name, v)"
  obtains dir m where "path_split path 256 VFS_NAME_MAX = Some (dir, name)" "abs_lookup s dir = Some p"
    "dirmap (nodes s) p = Some m" "m name = Some v"
  using assms by (auto simp: remove_target_def split: option.splits prod.splits)

lemma find_link_absent:
  assumes t: "tree h r kids" and d: "h d = Some dn" and m: "dirmap h d = Some m" "m name = None"
  shows "find_link h (\<lambda>a n. nd_name n = name) (LChild d) = Some None"
proof (rule find_link_None [of _ _ "nd_child dn" "kids d"])
  show "chain h (nd_child dn) (kids d)" by (rule treeD(1) [OF t d])
  show "nd_name n \<noteq> name" if "b \<in> set (kids d)" "h b = Some n" for b n
    using that dirmap_SomeD(2) [OF t m(1), of name b] m(2) by (auto simp: name_of_def)
qed (use d in simp)

lemma vfs_remove_missing:
  assumes ok: "vfs_ok s" and none: "remove_target s path = None"
  shows "vfs_remove s path = Some (-1, s)"
proof (cases "path_split path 256 VFS_NAME_MAX")
  case (Some dn)
  obtain dir name where dn: "dn = (dir, name)" by fastforce
  show ?thesis
  proof (cases "abs_lookup s dir")
    case None
    then show ?thesis using Some dn by (simp add: vfs_remove_def vfs_lookup_eq [OF ok])
  next
    case p: (Some p)
    obtain n where n: "nodes s p = Some n" using abs_lookup_node [OF ok p] .
    obtain r kids where r: "g_root s = Some r" "tree (nodes s) r kids" using ok by (elim vfs_okE)
    show ?thesis
    proof (cases "dirmap (nodes s) p")
      case None
      then show ?thesis using Some dn p n dirmap_node [OF n] by (simp add: vfs_remove_def vfs_lookup_eq [OF ok])
    next
      case m: (Some m)
      then have "m name = None" using none Some dn p by (simp add: remove_target_def)
      from find_link_absent [OF r(2) n m this] show ?thesis
        using Some dn p n m dirmap_node [OF n] by (simp add: vfs_remove_def vfs_lookup_eq [OF ok])
    qed
  qed
qed (simp add: vfs_remove_def)

lemma vfs_remove_nonempty:
  assumes ok: "vfs_ok s" and tg: "remove_target s path = Some (p, name, v)" and e: "\<not> empty_node (dirmap (nodes s)) v"
  shows "vfs_remove s path = Some (-1, s)"
proof -
  obtain r kids where r: "g_root s = Some r" and i: "heap_inv (nodes s) r kids (next_addr s)" and t: "tree (nodes s) r kids"
    using ok by (elim vfs_okE)
  obtain dir m where sp: "path_split path 256 VFS_NAME_MAX = Some (dir, name)" "abs_lookup s dir = Some p"
    and m: "dirmap (nodes s) p = Some m" "m name = Some v" using tg by (elim remove_targetE)
  obtain n pn where n: "nodes s v = Some n" "nd_name n = name" and pn: "nodes s p = Some pn" "nd_type pn = VFS_DIR"
    and v: "v \<in> set (kids p)" by (rule dirmap_kid [OF t m])
  obtain l where fl: "find_link (nodes s) (\<lambda>b m. nd_name m = nd_name n) (LChild p) = Some (Some (l, v))"
    by (rule detach_step [OF i v n(1) pn(1)])
  have "nd_type n = VFS_DIR \<and> nd_child n \<noteq> None" using kids_Nil_iff [OF t n(1)] e by simp
  then show ?thesis using sp pn fl n by (simp add: vfs_remove_def vfs_lookup_eq [OF ok])
qed

lemma vfs_remove_cases:
  assumes "vfs_ok s"
  shows "case remove_target s path of
       None \<Rightarrow> vfs_remove s path = Some (-1, s)
     | Some (p, name, v) \<Rightarrow>
         if empty_node (dirmap (nodes s)) v then
           (\<exists>n s'. nodes s v = Some n \<and> vfs_remove s path = Some (0, s') \<and> vfs_ok s' \<and>
              dirmap (nodes s') = removed s p name v n \<and>
              map_option nd_unlinked (nodes s' v) = (if nd_open_refs n > 0 then Some True else None))
         else vfs_remove s path = Some (-1, s)"
proof (cases "remove_target s path")
  case None
  then show ?thesis using vfs_remove_missing [OF assms] by simp
next
  case (Some q)
  obtain p name v where q: "q = (p, name, v)" by (metis prod_cases3)
  show ?thesis
  proof (cases "empty_node (dirmap (nodes s)) v")
    case False
    then show ?thesis using vfs_remove_nonempty [OF assms] Some q by simp
  next
    case True
    obtain dir m where sp: "path_split path 256 VFS_NAME_MAX = Some (dir, name)" "abs_lookup s dir = Some p"
      and m: "dirmap (nodes s) p = Some m" "m name = Some v" using Some q by (auto elim: remove_targetE)
    obtain r kids where "tree (nodes s) r kids" using assms by (elim vfs_okE)
    then obtain n where n: "nodes s v = Some n" by (rule dirmap_kid [OF _ m])
    obtain s' where s': "vfs_remove s path = Some (0, s')" "vfs_ok s'" "dirmap (nodes s') = removed s p name v n"
      "map_option body (nodes s' v) = (if nd_open_refs n > 0 then Some (body (n\<lparr>nd_unlinked := True\<rparr>)) else None)"
      by (rule vfs_remove_step [OF assms sp m True n])
    have "map_option nd_unlinked (nodes s' v) = (if nd_open_refs n > 0 then Some True else None)"
      using s'(4) by (cases "nodes s' v") (auto dest: body_eqD(6) split: if_splits)
    then show ?thesis using Some q True n s'(1-3) by auto
  qed
qed

text \<open>C31. \<^verbatim>\<open>vfs_remove\<close> on any path: when the parent directory has no such entry, or the entry is a directory
  that is not empty, it fails and changes nothing; otherwise it succeeds, the abstract file system loses
  exactly that name, the tree stays well formed, and the node itself is freed at once unless a descriptor is
  still open on it, in which case it survives outside the tree, marked unlinked.\<close>

theorem vfs_remove_refines:
  assumes "vfs_ok s"
  shows "case remove_target s path of
       None \<Rightarrow> vfs_remove s path = Some (-1, s)
     | Some (p, name, v) \<Rightarrow>
         if empty_node (dirmap (nodes s)) v then
           (\<exists>n s'. nodes s v = Some n \<and> vfs_remove s path = Some (0, s') \<and> vfs_ok s' \<and>
              dirmap (nodes s') = removed s p name v n \<and>
              map_option nd_unlinked (nodes s' v) = (if nd_open_refs n > 0 then Some True else None))
         else vfs_remove s path = Some (-1, s)"
  by (rule vfs_remove_cases [OF assms])

theorem vfs_remove_refines_witness:
  "vfs_remove demo ''/a'' = Some (-1, demo) \<and>
   (\<exists>s'. vfs_remove demo ''/a/f'' = Some (0, s') \<and> vfs_ok s' \<and> nodes s' 3 = None)"
proof -
  have D: "dirmap (nodes demo) = [1 \<mapsto> [''a'' \<mapsto> 2], 2 \<mapsto> [''f'' \<mapsto> 3]]" by (simp add: demo_def demo_dirmap)
  have "remove_target demo ''/a/f'' = Some (2, ''f'', 3)" by (simp add: remove_target_def demo_split demo_lookup D)
  moreover have "remove_target demo ''/a'' = Some (1, ''a'', 2)"
    by (simp add: remove_target_def path_split_def demo_lookup D)
  moreover have "empty_node (dirmap (nodes demo)) 3" "\<not> empty_node (dirmap (nodes demo)) 2"
    by (auto simp: empty_node_def D fun_eq_iff)
  moreover have "nd_open_refs (the (nodes demo 3)) = 0" by (simp add: demo_def demo_heap_def zero_node_def)
  ultimately show ?thesis
    using vfs_remove_refines [OF demo_ok, of "''/a/f''"] vfs_remove_refines [OF demo_ok, of "''/a''"]
    by (auto split: if_splits)
qed

section \<open>Renaming\<close>

text \<open>With an absolute old path the node that moves is the entry of the old directory.\<close>

lemma rename_old_entry:
  assumes ok: "vfs_ok s" and abs: "take 1 oldp = [slash]" and lk: "abs_lookup s oldp = Some a"
    and po: "parent_for_write s oldp = Some (Inr (op, oname))"
  obtains mo where "dirmap (nodes s) op = Some mo" "mo oname = Some a"
proof -
  obtain dir where sp: "path_split oldp VFS_PATH_MAX VFS_NAME_MAX = Some (dir, oname)" "abs_lookup s dir = Some op"
    using po by (auto simp: parent_for_write_eq [OF ok] split: option.splits if_splits)
  then show ?thesis using abs_lookup_split [OF abs sp(1), of s] lk that by (auto split: option.splits)
qed

lemma parent_for_write_dir:
  assumes ok: "vfs_ok s" and "parent_for_write s path = Some (Inr (p, name))"
  obtains m where "dirmap (nodes s) p = Some m"
  using assms(2) that by (auto simp: parent_for_write_eq [OF ok] split: option.splits if_splits)

lemma vfs_rename_nonempty:
  assumes ok: "vfs_ok s" and lk: "abs_lookup s oldp = Some a"
    and po: "parent_for_write s oldp = Some (Inr (op, oname))" and pn: "parent_for_write s newp = Some (Inr (np, nname))"
    and mn: "dirmap (nodes s) np = Some mn" "mn nname = Some v" and e: "v \<noteq> a" "\<not> empty_node (dirmap (nodes s)) v"
  shows "vfs_rename s (Some oldp) (Some newp) = Some (- ENOTEMPTY, s)"
proof -
  obtain r kids where t: "tree (nodes s) r kids" using ok by (elim vfs_okE)
  obtain n where n: "nodes s v = Some n" by (rule dirmap_kid [OF t mn])
  have "nd_type n = VFS_DIR \<and> nd_child n \<noteq> None" using kids_Nil_iff [OF t n] e(2) by simp
  then show ?thesis
    using lk po pn n e(1) dir_find_dirmap [OF t mn(1), of nname] mn(2) by (simp add: vfs_rename_def vfs_lookup_eq [OF ok])
qed

lemma vfs_rename_cases:
  assumes "vfs_ok s" and "take 1 oldp = [slash]" and "abs_lookup s oldp = Some a"
    and "parent_for_write s oldp = Some (Inr (op, oname))" and "parent_for_write s newp = Some (Inr (np, nname))"
    and "dirmap (nodes s) np = Some mn"
  shows "if mn nname = None \<or> mn nname = Some a \<or> empty_node (dirmap (nodes s)) (the (mn nname)) then
       (\<exists>s'. vfs_rename s (Some oldp) (Some newp) = Some (0, s') \<and> vfs_ok s' \<and>
          dirmap (nodes s') = moved (replaced s np nname a (mn nname)) op oname np nname a)
     else vfs_rename s (Some oldp) (Some newp) = Some (- ENOTEMPTY, s)"
proof -
  obtain mo where mo: "dirmap (nodes s) op = Some mo" "mo oname = Some a"
    by (rule rename_old_entry [OF assms(1-4)])
  show ?thesis
  proof (cases "mn nname = None \<or> mn nname = Some a \<or> empty_node (dirmap (nodes s)) (the (mn nname))")
    case True
    obtain s' where "vfs_rename s (Some oldp) (Some newp) = Some (0, s')" "vfs_ok s'"
      "dirmap (nodes s') = moved (replaced s np nname a (mn nname)) op oname np nname a"
      by (rule vfs_rename_step [OF assms(1,3,4,5) mo assms(6) True])
    then show ?thesis using True by auto
  next
    case False
    then show ?thesis using vfs_rename_nonempty [OF assms(1,3,4,5,6)] by auto
  qed
qed

text \<open>C32. \<^verbatim>\<open>vfs_rename\<close> from an absolute path, once both parent directories are found and writable: if the
  new name belongs to another directory that is not empty, the call fails with \<^verbatim>\<open>ENOTEMPTY\<close> and changes
  nothing; otherwise it succeeds, and in the abstract file system the old name is gone, the new name is the
  moved node, whatever the new name stood for before is removed as by \<^verbatim>\<open>vfs_remove\<close>, and nothing else
  changes. The tree stays well formed.\<close>

theorem vfs_rename_refines:
  assumes "vfs_ok s" and "take 1 oldp = [slash]" and "abs_lookup s oldp = Some a"
    and "parent_for_write s oldp = Some (Inr (op, oname))" and "parent_for_write s newp = Some (Inr (np, nname))"
    and "dirmap (nodes s) np = Some mn"
  shows "if mn nname = None \<or> mn nname = Some a \<or> empty_node (dirmap (nodes s)) (the (mn nname)) then
       (\<exists>s'. vfs_rename s (Some oldp) (Some newp) = Some (0, s') \<and> vfs_ok s' \<and>
          dirmap (nodes s') = moved (replaced s np nname a (mn nname)) op oname np nname a)
     else vfs_rename s (Some oldp) (Some newp) = Some (- ENOTEMPTY, s)"
  by (rule vfs_rename_cases [OF assms])

theorem vfs_rename_refines_witness:
  "\<exists>s'. vfs_rename demo (Some ''/a/f'') (Some ''/a/g'') = Some (0, s') \<and> vfs_ok s'"
proof -
  have D: "dirmap (nodes demo) = [1 \<mapsto> [''a'' \<mapsto> 2], 2 \<mapsto> [''f'' \<mapsto> 3]]" by (simp add: demo_def demo_dirmap)
  have acc: "vfs_access_ok demo (the (nodes demo 2)) VFS_W_OK"
    by (simp add: vfs_access_ok_def vfs_caller_ids_def sched_current_def demo_def demo_task_def demo_heap_def zero_node_def)
  have "parent_for_write demo ''/a/f'' = Some (Inr (2, ''f''))" "parent_for_write demo ''/a/g'' = Some (Inr (2, ''g''))"
    using acc by (simp_all add: parent_for_write_eq [OF demo_ok] demo_split demo_lookup D)
  then show ?thesis
    using vfs_rename_refines [OF demo_ok _ demo_lookup(2), of 2 "''f''" "''/a/g''" 2 "''g''"] D by auto
qed

text \<open>The check that is missing: \<^verbatim>\<open>vfs_rename\<close> takes the node from one lookup and its directory from
  another, and for a path that ends in \<^verbatim>\<open>.\<close> they do not belong together. A user who calls
  \<^verbatim>\<open>rename(".", "x")\<close> in a directory of his own gets success, and the directory is now its own first
  child while its real parent still lists it: the tree is no longer well formed.\<close>

theorem vfs_rename_dot_corrupts:
  "\<exists>s' n. vfs_rename demo (Some ''.'') (Some ''x'') = Some (0, s') \<and>
     nodes s' 2 = Some n \<and> nd_child n = Some 2 \<and> nd_sibling n = Some 3 \<and> \<not> vfs_ok s'"
proof -
  have D: "dirmap (nodes demo) = [1 \<mapsto> [''a'' \<mapsto> 2], 2 \<mapsto> [''f'' \<mapsto> 3]]" by (simp add: demo_def demo_dirmap)
  have res: "vfs_path_resolve ''/a'' ''.'' 256 = ''/a''"
    by (simp add: vfs_path_resolve_def segments.simps push_seg_def Let_def)
  have dot: "abs_lookup demo ''.'' = Some 2"
    using res by (simp add: abs_lookup_def lookup_path_def sched_current_def demo_def demo_task_def demo_dirmap demo_segments)
  have acc: "vfs_access_ok demo (the (nodes demo 2)) VFS_W_OK"
    by (simp add: vfs_access_ok_def vfs_caller_ids_def sched_current_def demo_def demo_task_def demo_heap_def zero_node_def)
  have po: "parent_for_write demo ''.'' = Some (Inr (2, ''.''))" "parent_for_write demo ''x'' = Some (Inr (2, ''x''))"
    using acc by (simp_all add: parent_for_write_eq [OF demo_ok] path_split_def dot D)
  have df: "dir_find (nodes demo) 2 ''x'' = Some None"
    using dir_find_dirmap [OF heap_invD(1) [OF demo_inv], of 2 "[''f'' \<mapsto> 3]" "''x''"] demo_dirmap by (simp add: demo_def)
  have "vfs_rename demo (Some ''.'') (Some ''x'') = rename_move demo 2 2 2 ''x''"
    using po df by (simp add: vfs_rename_def vfs_lookup_eq [OF demo_ok] dot)
  moreover have "unlink_node demo_heap 2 2 = Some demo_heap"
    by (simp add: unlink_node_def find_link.simps demo_heap_def zero_node_def)
  ultimately obtain s' where s': "vfs_rename demo (Some ''.'') (Some ''x'') = Some (0, s')"
    and n: "nodes s' = demo_heap(2 \<mapsto> (the (demo_heap 2))\<lparr>nd_name := ''x'', nd_parent := Some 2, nd_sibling := Some 3, nd_child := Some 2\<rparr>)"
    and root: "g_root s' = Some 1"
    by (simp add: rename_move_def demo_def upd_node_def dir_attach_def Let_def)
      (simp add: demo_heap_def zero_node_def)
  have "\<not> vfs_ok s'"
  proof
    assume "vfs_ok s'"
    then obtain kids where t: "tree (nodes s') 1 kids" using root by (elim vfs_okE) auto
    have "chain (nodes s') (Some 2) (kids 1)" using treeD(1) [OF t, of 1] n by (simp add: demo_heap_def)
    then have "2 \<in> set (kids 1)" by (cases "kids 1") auto
    then show False using treeD(4) [OF t, of 2 1] n by simp
  qed
  then show ?thesis using s' n by auto
qed

section \<open>Permissions\<close>

text \<open>C39. Unix permissions on the containing directory: a caller who is neither root nor granted write
  access by the mode bits of the parent directory cannot remove, create, or rename an entry in it. Each call
  returns an error and leaves the whole state as it was.\<close>

theorem vfs_parent_write_protects:
  assumes "vfs_ok s" and "vfs_parent_of s path = Some (Some p)" and "nodes s p = Some pn"
    and "\<not> vfs_access_ok s pn VFS_W_OK"
  shows "(\<exists>e < 0. vfs_unlink s (Some path) = Some (e, s)) \<and> (\<exists>e < 0. vfs_mkdir s (Some path) mode = Some (e, s)) \<and>
     (\<exists>e < 0. vfs_rename s (Some path) (Some other) = Some (e, s)) \<and>
     (\<exists>e < 0. vfs_rename s (Some other) (Some path) = Some (e, s))"
proof -
  have pw: "parent_writable s path = Some False" using assms(2-4) by (simp add: parent_writable_def)
  have ww: "\<exists>e < 0. parent_for_write s path = Some (Inl e)"
    using assms(2-4) by (auto simp: parent_for_write_eq [OF assms(1)] vfs_parent_of_def vfs_lookup_eq [OF assms(1)]
        split: option.splits prod.splits)
  have neg: "e < 0" if "parent_for_write s q = Some (Inl e)" for q e
    using that by (auto simp: parent_for_write_eq [OF assms(1)] split: option.splits prod.splits if_splits)
  obtain x where x: "parent_for_write s other = Some x" using parent_for_write_eq [OF assms(1)] by blast
  have "\<exists>e < 0. vfs_unlink s (Some path) = Some (e, s)" "\<exists>e < 0. vfs_mkdir s (Some path) mode = Some (e, s)"
    using pw by (auto simp: vfs_unlink_def vfs_mkdir_def vfs_lookup_eq [OF assms(1)] split: option.splits)
  moreover have "\<exists>e < 0. vfs_rename s (Some path) (Some other) = Some (e, s)"
    using ww by (auto simp: vfs_rename_def vfs_lookup_eq [OF assms(1)] split: option.splits)
  moreover have "\<exists>e < 0. vfs_rename s (Some other) (Some path) = Some (e, s)"
    using ww x neg [of other] by (cases x) (auto simp: vfs_rename_def vfs_lookup_eq [OF assms(1)] split: option.splits)
  ultimately show ?thesis by blast
qed

theorem vfs_parent_write_protects_witness:
  "\<exists>e < 0. vfs_mkdir demo (Some ''/f'') 0 = Some (e, demo)"
proof -
  have "vfs_parent_of demo ''/f'' = Some (Some 1)" by (simp add: vfs_parent_of_def demo_split vfs_lookup_eq [OF demo_ok] demo_lookup)
  moreover have "nodes demo 1 = Some (the (nodes demo 1))" by (simp add: demo_def demo_heap_def)
  moreover have "\<not> vfs_access_ok demo (the (nodes demo 1)) VFS_W_OK"
    by (simp add: vfs_access_ok_def vfs_caller_ids_def sched_current_def demo_def demo_task_def demo_heap_def zero_node_def)
  ultimately show ?thesis using vfs_parent_write_protects [OF demo_ok, of "''/f''" 1 "the (nodes demo 1)" 0 "[]"] by blast
qed

section \<open>From a node back to its path\<close>

declare parent_chain.simps [simp del]

lemma awalk_snoc:
  "awalk D r (cs @ [c]) = Some a \<longleftrightarrow> (\<exists>d m. awalk D r cs = Some d \<and> D d = Some m \<and> m c = Some a)"
  by (auto simp: awalk_append split: option.splits)

lemma parent_chain_walk:
  assumes r: "g_root s = Some r" and t: "tree (nodes s) r kids"
  shows "awalk (dirmap (nodes s)) r cs = Some a \<Longrightarrow> length cs \<le> k \<Longrightarrow>
     parent_chain s k (Some a) names = Some (Some r, cs @ names)"
proof (induction cs arbitrary: a k names rule: rev_induct)
  case Nil
  then show ?case using r by (simp add: parent_chain.simps)
next
  case (snoc c cs)
  then obtain d m where d: "awalk (dirmap (nodes s)) r cs = Some d" "dirmap (nodes s) d = Some m" "m c = Some a"
    by (auto simp: awalk_snoc)
  obtain k' where k: "k = Suc k'" "length cs \<le> k'" using snoc.prems(2) by (cases k) auto
  obtain n where n: "nodes s a = Some n" "nd_name n = c" "a \<in> set (kids d)" "a \<noteq> r" by (rule dirmap_kid [OF t d(2,3)])
  have "nd_parent n = Some d" using treeD(4) [OF t n(3)] n(1) by auto
  then have "parent_chain s k (Some a) names = parent_chain s k' (Some d) (c # names)"
    using n r k by (simp add: parent_chain.simps [of s "Suc k'"])
  then show ?case using snoc.IH [OF d(1) k(2), of "c # names"] by simp
qed

lemma print_chain_fits: "seg_cost ss < left \<Longrightarrow> print_chain left ss = Some (concat (map (\<lambda>s. slash # s) ss))"
  by (induction left ss rule: print_chain.induct) auto

text \<open>\<^verbatim>\<open>vfs_node_path\<close>, which gives \<^verbatim>\<open>fchdir\<close> its path, inverts lookup: for a node reached by any path, at
  most 64 levels deep and short enough for the buffer, the parent pointers lead back to the root, the
  printed path is the normal form of the path that was looked up, and looking it up again gives the same
  node.\<close>

theorem vfs_node_path_roundtrip:
  assumes "vfs_ok s" and "abs_lookup s path = Some a" and "cs = segments (lookup_path s path)"
    and "length cs \<le> 64" and "length (join_path cs) < outsz"
  shows "vfs_node_path s a outsz = Some (Some (join_path cs)) \<and> vfs_lookup s (join_path cs) = Some (Some a)"
proof -
  obtain r kids where r: "g_root s = Some r" and t: "tree (nodes s) r kids" using assms(1) by (elim vfs_okE)
  have w: "awalk (dirmap (nodes s)) r cs = Some a" using assms(2,3) r by (simp add: abs_lookup_def)
  have seg: "segments (join_path cs) = cs" using segments_join [OF segments_seg_ok] assms(3) by simp
  have "take 1 (join_path cs) = [slash]" by (cases cs) (auto simp: join_path_def)
  then have "vfs_lookup s (join_path cs) = Some (Some a)"
    using w seg r by (simp add: vfs_lookup_eq [OF assms(1)] abs_lookup_def lookup_path_def)
  moreover have "vfs_node_path s a outsz = Some (Some (join_path cs))"
  proof (cases "cs = []")
    case True
    then show ?thesis using w r assms(5) by (simp add: vfs_node_path_def join_path_def)
  next
    case False
    then obtain ds c where cs: "cs = ds @ [c]" by (metis rev_exhaust)
    then obtain d m where "dirmap (nodes s) d = Some m" "m c = Some a" using w by (auto simp: awalk_snoc)
    then have "a \<noteq> r" by (rule dirmap_kid [OF t])
    then show ?thesis
      using parent_chain_walk [OF r t w assms(4), of "[]"] r print_chain_fits [of cs outsz] assms(5) length_join [OF False] False
      by (simp add: vfs_node_path_def) (simp add: join_path_def)
  qed
  ultimately show ?thesis by simp
qed

theorem vfs_node_path_roundtrip_witness:
  "vfs_node_path demo 3 256 = Some (Some ''/a/f'')"
  using vfs_node_path_roundtrip [OF demo_ok demo_lookup(2) refl, of 256]
  by (simp add: lookup_path_def demo_segments join_path_def)

text \<open>When a prefix of the path fills the buffer exactly, the printing loop stops and reports success with
  the path of an ancestor.\<close>

lemma print_chain_cuts: "print_chain 3 [''a'', ''b''] = Some ''/a''"
  by simp

section \<open>Sequences of operations\<close>

datatype vfs_op = OpMkdir string u32 | OpCreate string | OpDevice string "addr option" "addr option"
  | OpSocket string "addr option" | OpUnlink string | OpRename string string | OpChmod string u32 | OpChown string u32 u32

fun run_op :: "vfs_op \<Rightarrow> 'a vfs_scheme \<Rightarrow> 'a vfs_scheme option" where
  "run_op (OpMkdir p md) s = map_option snd (vfs_mkdir s (Some p) md)"
| "run_op (OpCreate p) s = map_option snd (vfs_create_file s p)"
| "run_op (OpDevice p ops pr) s = map_option snd (vfs_create_device s p ops pr)"
| "run_op (OpSocket p so) s = map_option snd (vfs_create_socket s p so)"
| "run_op (OpUnlink p) s = map_option snd (vfs_unlink s (Some p))"
| "run_op (OpRename p q) s = map_option snd (vfs_rename s (Some p) (Some q))"
| "run_op (OpChmod p md) s = map_option snd (vfs_chmod s (Some p) md)"
| "run_op (OpChown p u g) s = map_option snd (vfs_chown s (Some p) u g)"

fun run_ops :: "vfs_op list \<Rightarrow> 'a vfs_scheme \<Rightarrow> 'a vfs_scheme option" where
  "run_ops [] s = Some s"
| "run_ops (x # xs) s = do { s1 \<leftarrow> run_op x s; run_ops xs s1 }"

fun op_absolute :: "vfs_op \<Rightarrow> bool" where
  "op_absolute (OpRename p q) = (take 1 p = [slash])"
| "op_absolute _ = True"

text \<open>Every operation returns on a well-formed tree and leaves one.\<close>

definition returns_ok :: "('b \<times> 'a vfs_scheme) option \<Rightarrow> bool" where
  "returns_ok r \<longleftrightarrow> (\<exists>x s. r = Some (x, s) \<and> vfs_ok s)"

lemma new_node_ok:
  assumes "vfs_ok s" "abs_slot s path = Some (p, nd_name n)" "nd_child n = None" "\<not> nd_unlinked n"
  shows "returns_ok (new_node s n p)"
proof (cases "oom s (next_addr s)")
  case True
  then show ?thesis using vfs_ok_next [OF assms(1)] by (auto simp: new_node_oom returns_ok_def)
next
  case False
  show ?thesis by (rule new_node_step [OF assms(1,2) refl assms(3,4) False]) (auto simp: returns_ok_def)
qed

lemma create_persistent_ok:
  assumes "vfs_ok s" "\<And>name. nd_name (mk s name) = name" "\<And>name. nd_child (mk s name) = None" "\<And>name. \<not> nd_unlinked (mk s name)"
  shows "returns_ok (create_persistent s path mk)"
proof (cases "abs_slot s path")
  case None
  then show ?thesis using assms(1) by (simp add: create_persistent_def create_slot_eq returns_ok_def)
next
  case (Some q)
  obtain p name where q: "q = (p, name)" by fastforce
  show ?thesis
  proof (cases "oom s (next_addr s)")
    case True
    then show ?thesis using vfs_ok_next [OF assms(1)] Some q
      by (simp add: create_persistent_def create_slot_eq [OF assms(1)] returns_ok_def new_node_oom)
  next
    case False
    have sl: "abs_slot s path = Some (p, name)" using Some q by simp
    show ?thesis
      by (rule create_persistent_step [of s path p name mk, OF assms(1) sl False assms(2,3,4)]) (auto simp: returns_ok_def)
  qed
qed

lemma vfs_create_ok:
  assumes "vfs_ok s"
  shows "returns_ok (vfs_create_dir s path)" "returns_ok (vfs_create_file s path)"
  unfolding vfs_create_dir_def vfs_create_file_def
  by (rule create_persistent_ok [OF assms]; simp add: dir_node_def file_node_def zero_node_def split: prod.splits)+

lemma upd_vnode_ok:
  assumes "vfs_ok s" "nodes s a = Some n" "\<And>n. same_shape n (f n)" "\<And>n. nd_unlinked (f n) = nd_unlinked n"
  shows "\<exists>s'. upd_vnode a f s = Some s' \<and> vfs_ok s'"
  using vfs_ok_shape(1) [OF assms(1,2), of "f n"] assms(2-4) by (simp add: upd_vnode_def upd_node_def)

lemma created_node:
  assumes "vfs_ok s" "vfs_create_dir s path = Some (Some a, s')"
  shows "nodes s' a \<noteq> None"
proof -
  obtain p name where sl: "abs_slot s path = Some (p, name)"
    using assms by (cases "abs_slot s path") (auto simp: vfs_create_dir_def create_persistent_def create_slot_eq)
  have mem: "\<not> oom s (next_addr s)"
    using assms sl by (auto simp: vfs_create_dir_def create_persistent_def create_slot_eq new_node_oom)
  show ?thesis
    by (rule create_persistent_step [of s path p name dir_node, OF assms(1) sl mem])
      (use assms(2) in \<open>auto simp: vfs_create_dir_def dir_node_def zero_node_def split: prod.splits\<close>)
qed

lemma parent_writable_total:
  assumes ok: "vfs_ok s"
  shows "\<exists>b. parent_writable s path = Some b"
proof (cases "path_split path 256 VFS_NAME_MAX")
  case None
  then show ?thesis by (auto simp: parent_writable_def vfs_parent_of_def)
next
  case (Some dn)
  obtain dir name where dn: "dn = (dir, name)" by fastforce
  show ?thesis
  proof (cases "abs_lookup s dir")
    case None
    then show ?thesis using Some dn by (auto simp: parent_writable_def vfs_parent_of_def vfs_lookup_eq [OF ok])
  next
    case p: (Some p)
    obtain n where "nodes s p = Some n" by (rule abs_lookup_node [OF ok p])
    then show ?thesis using Some dn p by (auto simp: parent_writable_def vfs_parent_of_def vfs_lookup_eq [OF ok])
  qed
qed

lemma vfs_mkdir_ok:
  assumes ok: "vfs_ok s"
  shows "returns_ok (vfs_mkdir s (Some p) md)"
proof (cases "abs_lookup s p")
  case (Some a)
  then show ?thesis using ok by (simp add: vfs_mkdir_def vfs_lookup_eq returns_ok_def)
next
  case None
  obtain b where b: "parent_writable s p = Some b" using parent_writable_total [OF ok] by blast
  obtain d s1 where d: "vfs_create_dir s p = Some (d, s1)" "vfs_ok s1" using vfs_create_ok(1) [OF ok, of p] by (auto simp: returns_ok_def)
  have "\<exists>s2. upd_vnode a (\<lambda>n. n\<lparr>nd_mode := md\<rparr>) s1 = Some s2 \<and> vfs_ok s2" if "d = Some a" for a
    using created_node [OF ok] d that upd_vnode_ok [OF d(2), of a] by (force simp: same_shape_def)
  then show ?thesis
    using None b d ok by (cases d) (auto simp: vfs_mkdir_def vfs_lookup_eq returns_ok_def)
qed

lemma vfs_unlink_ok:
  assumes ok: "vfs_ok s"
  shows "returns_ok (vfs_unlink s (Some p))"
proof -
  obtain b where b: "parent_writable s p = Some b" using parent_writable_total [OF ok] by blast
  have "returns_ok (vfs_remove s p)"
    using vfs_remove_cases [OF ok, of p] ok by (auto simp: returns_ok_def split: option.splits if_splits)
  then show ?thesis using b ok by (auto simp: vfs_unlink_def vfs_lookup_eq returns_ok_def)
qed

lemma vfs_chmod_ok:
  assumes ok: "vfs_ok s"
  shows "returns_ok (vfs_chmod s (Some p) md)" "returns_ok (vfs_chown s (Some p) u g)"
proof -
  have up: "\<exists>s2. upd_vnode a f s = Some s2 \<and> vfs_ok s2" if "abs_lookup s p = Some a" "\<And>n. same_shape n (f n)"
      "\<And>n. nd_unlinked (f n) = nd_unlinked n" for a f
    using abs_lookup_node [OF ok that(1)] upd_vnode_ok [OF ok _ that(2,3)] by metis
  show "returns_ok (vfs_chmod s (Some p) md)"
  proof (cases "abs_lookup s p")
    case None
    then show ?thesis using ok by (simp add: vfs_chmod_def vfs_lookup_eq returns_ok_def)
  next
    case (Some a)
    obtain n where "nodes s a = Some n" by (rule abs_lookup_node [OF ok Some])
    then show ?thesis using ok Some up [OF Some, of "\<lambda>n. n\<lparr>nd_mode := md\<rparr>"]
      by (auto simp: vfs_chmod_def vfs_lookup_eq returns_ok_def same_shape_def)
  qed
  show "returns_ok (vfs_chown s (Some p) u g)"
  proof (cases "abs_lookup s p")
    case None
    then show ?thesis using ok by (simp add: vfs_chown_def vfs_lookup_eq returns_ok_def)
  next
    case (Some a)
    then show ?thesis using ok up [OF Some, of "\<lambda>n. n\<lparr>nd_uid := u, nd_gid := g\<rparr>"]
      by (auto simp: vfs_chown_def vfs_lookup_eq returns_ok_def same_shape_def)
  qed
qed

lemma vfs_rename_ok:
  assumes ok: "vfs_ok s" and abs: "take 1 p = [slash]"
  shows "returns_ok (vfs_rename s (Some p) (Some q))"
proof (cases "abs_lookup s p")
  case None
  then show ?thesis using ok by (simp add: vfs_rename_def vfs_lookup_eq returns_ok_def)
next
  case (Some a)
  obtain x y where xy: "parent_for_write s p = Some x" "parent_for_write s q = Some y"
    using parent_for_write_eq [OF ok] by blast
  show ?thesis
  proof (cases "isl x \<or> isl y")
    case True
    then show ?thesis using ok Some xy
      by (cases x; cases y) (auto simp: vfs_rename_def vfs_lookup_eq returns_ok_def)
  next
    case False
    then obtain op oname np nname where pw: "parent_for_write s p = Some (Inr (op, oname))" "parent_for_write s q = Some (Inr (np, nname))"
      using xy by (cases x; cases y) auto
    obtain mn where mn: "dirmap (nodes s) np = Some mn" by (rule parent_for_write_dir [OF ok pw(2)])
    show ?thesis using vfs_rename_cases [OF ok abs Some pw mn] ok by (auto simp: returns_ok_def split: if_splits)
  qed
qed

lemma run_op_ok:
  assumes "vfs_ok s" "op_absolute x"
  shows "\<exists>s'. run_op x s = Some s' \<and> vfs_ok s'"
proof -
  have dev: "returns_ok (vfs_create_device s p ops pr)" "returns_ok (vfs_create_socket s p so)" for p ops pr so
    using new_node_ok [OF assms(1)] assms(1)
    by (cases "abs_slot s p"; force simp: vfs_create_device_def vfs_create_socket_def create_slot_eq returns_ok_def zero_node_def)+
  show ?thesis
    using assms(2) vfs_mkdir_ok [OF assms(1)] vfs_create_ok [OF assms(1)] dev vfs_unlink_ok [OF assms(1)]
      vfs_rename_ok [OF assms(1)] vfs_chmod_ok [OF assms(1)]
    by (cases x) (fastforce simp: returns_ok_def)+
qed

lemma run_ops_ok: "vfs_ok s \<Longrightarrow> list_all op_absolute xs \<Longrightarrow> \<exists>s'. run_ops xs s = Some s' \<and> vfs_ok s'"
proof (induction xs arbitrary: s)
  case (Cons x xs)
  obtain s1 where "run_op x s = Some s1" "vfs_ok s1" using run_op_ok [OF Cons.prems(1)] Cons.prems(2) by auto
  then show ?case using Cons.IH [of s1] Cons.prems(2) by simp
qed simp

lemma vfs_init_ok:
  assumes "nodes s = Map.empty" "\<not> oom s (next_addr s)"
  shows "vfs_ok (vfs_init s)"
proof -
  have "heap_inv [next_addr s \<mapsto> zero_node\<lparr>nd_type := VFS_DIR, nd_mode := 0x1ED, nd_name := [slash]\<rparr>] (next_addr s)
      (\<lambda>_. []) (Suc (next_addr s))"
    by (auto simp: heap_inv_def tree_def zero_node_def split: if_splits)
  then show ?thesis using assms by (auto simp: vfs_ok_def vfs_init_def kmalloc_def)
qed



end
