(* ===== verification/Unix_Props.thy ===== *)
theory Unix_Props
  imports Unix_Sock Vfs_Props
begin

text \<open>
  Properties of Unix domain sockets: closing, the byte stream between two ends, connection setup, and the
  invariant over every operation.
\<close>

section \<open>The operations keep the invariant\<close>

lemma ring_more_eqD:
  fixes k k' :: unix_sock
  assumes "byte_ring.more k' = byte_ring.more k"
  shows "us_state k' = us_state k" "us_refs k' = us_refs k" "us_peer k' = us_peer k" "us_path k' = us_path k"
    "us_backlog k' = us_backlog k" "us_backlog_max k' = us_backlog_max k" "us_shut_rd k' = us_shut_rd k" "us_shut_wr k' = us_shut_wr k"
  using assms by (cases k, cases k', simp)+

lemma queued_state:
  assumes "socks_ok S nx" "queued S a" "S a = Some k"
  shows "us_refs k = 1" "us_state k = USOCK_CONNECTED" "us_path k = []"
proof -
  obtain b l where "S b = Some l" "a \<in> set (us_backlog l)" using assms(2) by (auto simp: queued_def)
  then show "us_refs k = 1" "us_state k = USOCK_CONNECTED" "us_path k = []"
    using socks_okD(5) [OF assms(1)] assms(3) by (force simp: queue_ok_def)+
qed

lemma usk_ok_ring:
  assumes ok: "usk_ok s" and k: "socks s a = Some k" and r: "ring_ok UNIX_BUF_SIZE k'" and m: "byte_ring.more k' = byte_ring.more k"
  shows "usk_ok (s\<lparr>socks := (socks s)(a \<mapsto> k')\<rparr>)"
proof -
  have so: "socks_ok (socks s) (next_addr s)" using ok by (simp add: usk_ok_def)
  note o = socks_okD [OF so k] and q = queued_state [OF so _ k] and e = ring_more_eqD [OF m]
  have "socks_ok ((socks s)(a \<mapsto> k')) (next_addr s)"
    using o q e r by (intro socks_ok_upd [OF so k]) (auto simp: peer_ok_def queue_ok_def)
  then show ?thesis using ok by (simp add: usk_ok_def)
qed

lemma sock_read_step:
  assumes ok: "usk_ok s" and k: "socks s a = Some k"
  obtains (blocked) b p where "sock_read_loop s a count = Some Blocked" "rb_count k = 0" "\<not> us_shut_rd k"
      "us_peer k = Some b" "socks s b = Some p" "\<not> us_shut_wr p"
  | (got) k' where
      "sock_read_loop s a count = Some (Done (int (min count (rb_count k)), take count (ring_contents UNIX_BUF_SIZE k), s\<lparr>socks := (socks s)(a \<mapsto> k')\<rparr>))"
      "ring_contents UNIX_BUF_SIZE k' = drop count (ring_contents UNIX_BUF_SIZE k)" "byte_ring.more k' = byte_ring.more k"
      "usk_ok (s\<lparr>socks := (socks s)(a \<mapsto> k')\<rparr>)"
proof -
  have so: "socks_ok (socks s) (next_addr s)" using ok by (simp add: usk_ok_def)
  note o = socks_okD [OF so k]
  have "\<exists>alive. (if rb_count k = 0 then sock_writer_alive s k else Some True) = Some alive \<and>
      (rb_count k = 0 \<longrightarrow> alive \<longrightarrow> \<not> us_shut_rd k \<and> (\<exists>b p. us_peer k = Some b \<and> socks s b = Some p \<and> \<not> us_shut_wr p))"
  proof (cases "us_peer k")
    case None
    then show ?thesis by (cases "rb_count k = 0") (auto simp: sock_writer_alive_def)
  next
    case (Some b)
    then obtain p where "socks s b = Some p" using o(4) by (auto simp: peer_ok_def)
    then show ?thesis using Some by (cases "rb_count k = 0"; cases "us_shut_rd k") (auto simp: sock_writer_alive_def)
  qed
  then obtain alive where "(if rb_count k = 0 then sock_writer_alive s k else Some True) = Some alive \<and>
      (rb_count k = 0 \<longrightarrow> alive \<longrightarrow> \<not> us_shut_rd k \<and> (\<exists>b p. us_peer k = Some b \<and> socks s b = Some p \<and> \<not> us_shut_wr p))" ..
  note al = this [THEN conjunct1] and why = this [THEN conjunct2]
  show thesis
  proof (cases "ring_read_loop UNIX_BUF_SIZE alive k count")
    case Blocked
    then have "rb_count k = 0" "alive" by (auto simp: ring_read_loop_def Let_def split: if_splits prod.splits)
    then show thesis using blocked why k al Blocked by (auto simp: sock_read_loop_def)
  next
    case (Done x)
    obtain v bs k' where x: "x = (v, bs, k')" by (metis prod_cases3)
    note d = ring_read_loop_Done [OF Done [unfolded x] o(2)]
    show thesis using got [of k'] d usk_ok_ring [OF ok k d(3,5)] k al Done x by (simp add: sock_read_loop_def)
  qed
qed

lemma sock_write_step:
  assumes ok: "usk_ok s" and k: "socks s a = Some k" and b: "us_peer k = Some b" "socks s b = Some p" and t: "tot \<le> length buf"
  obtains res p' where "sock_write_loop s a buf tot = Some (res, s\<lparr>socks := (socks s)(b \<mapsto> p')\<rparr>)"
    "ring_write_loop UNIX_BUF_SIZE (\<not> us_shut_rd p) EPIPE p buf tot = Some (res, p')"
    "ring_contents UNIX_BUF_SIZE p' = ring_contents UNIX_BUF_SIZE p @ take (write_upto tot res - tot) (drop tot buf)"
    "byte_ring.more p' = byte_ring.more p" "usk_ok (s\<lparr>socks := (socks s)(b \<mapsto> p')\<rparr>)"
proof -
  have so: "socks_ok (socks s) (next_addr s)" using ok by (simp add: usk_ok_def)
  note o = socks_okD [OF so b(2)]
  obtain res p' where w: "ring_write_loop UNIX_BUF_SIZE (\<not> us_shut_rd p) EPIPE p buf tot = Some (res, p')"
    using ring_write_loop_returns [OF o(2) t, of EPIPE "\<not> us_shut_rd p"] by auto
  note d = ring_write_loop_SomeD [OF w o(2) t]
  show thesis
    by (rule that [OF _ w]) (use d usk_ok_ring [OF ok b(2)] k b w in \<open>auto simp: sock_write_loop_def\<close>)
qed

lemma usk_ok_upd:
  assumes ok: "usk_ok s" and "socks_ok S (next_addr s)"
  shows "usk_ok (s\<lparr>socks := S\<rparr>)"
  using assms by (simp add: usk_ok_def)

lemma unix_sock_listen_ok:
  assumes ok: "usk_ok s" and a: "socks s a = Some k"
  shows "\<exists>r s'. unix_sock_listen s (Some a) n = Some (r, s') \<and> usk_ok s'"
proof (cases "us_state k = USOCK_BOUND \<or> us_state k = USOCK_LISTENING")
  case False
  then show ?thesis using ok a by (cases "us_state k") (auto simp: unix_sock_listen_def)
next
  case True
  have so: "socks_ok (socks s) (next_addr s)" using ok by (simp add: usk_ok_def)
  note o = socks_okD [OF so a]
  have up: "socks_ok ((socks s)(a \<mapsto> k\<lparr>us_backlog_max := m, us_state := USOCK_LISTENING\<rparr>)) (next_addr s)" if "m \<le> UNIX_BACKLOG_MAX" for m
    using o queued_state [OF so _ a] True that
    by (intro socks_ok_upd [OF so a]) (auto simp: peer_ok_def queue_ok_def ring_ok_def)
  show ?thesis using ok a True usk_ok_upd [OF ok up] by (auto simp: unix_sock_listen_def upd_sock_def Let_def)
qed

lemma unix_sock_shutdown_ok:
  assumes ok: "usk_ok s" and a: "socks s a = Some k"
  shows "\<exists>r s'. unix_sock_shutdown s (Some a) how = Some (r, s') \<and> usk_ok s'"
proof -
  have so: "socks_ok (socks s) (next_addr s)" using ok by (simp add: usk_ok_def)
  note o = socks_okD [OF so a]
  have "socks_ok ((socks s)(a \<mapsto> k\<lparr>us_shut_rd := x, us_shut_wr := y\<rparr>)) (next_addr s)" for x y
    using o queued_state [OF so _ a] by (intro socks_ok_upd [OF so a]) (auto simp: peer_ok_def queue_ok_def ring_ok_def)
  then show ?thesis using ok a usk_ok_upd [OF ok] by (auto simp: unix_sock_shutdown_def upd_sock_def)
qed

lemma kmalloc_vfs_ok: "vfs_ok s \<Longrightarrow> kmalloc s = (r, s1) \<Longrightarrow> vfs_ok s1"
  using vfs_ok_next [of s] by (auto simp: kmalloc_def)

lemma socks_ok_next: "socks_ok S nx \<Longrightarrow> socks_ok S (Suc nx)"
  unfolding socks_ok_def by (meson less_SucI)

lemma sock_alloc_step:
  assumes ok: "usk_ok s"
  obtains (oom) s1 where "sock_alloc s = (None, s1)" "usk_ok s1" "socks s1 = socks s" "nodes s1 = nodes s"
  | (new) s1 where "sock_alloc s = (Some (next_addr s), s1)" "usk_ok s1" "socks s (next_addr s) = None"
      "socks s1 = (socks s)(next_addr s \<mapsto> new_sock)" "nodes s1 = nodes s"
proof (cases "oom s (next_addr s)")
  case True
  have "usk_ok (s\<lparr>next_addr := Suc (next_addr s)\<rparr>)"
    using ok vfs_ok_next [of s] socks_ok_next by (auto simp: usk_ok_def)
  then show thesis using oom True by (simp add: sock_alloc_def kmalloc_def)
next
  case False
  have so: "socks_ok (socks s) (next_addr s)" using ok by (simp add: usk_ok_def)
  let ?s1 = "s\<lparr>next_addr := Suc (next_addr s), socks := (socks s)(next_addr s \<mapsto> new_sock)\<rparr>"
  have "usk_ok ?s1" using ok vfs_ok_next [of s] socks_ok_add [OF so order_refl] by (auto simp: usk_ok_def)
  moreover have "socks s (next_addr s) = None" using socks_okD(1) [OF so] by (cases "socks s (next_addr s)") fastforce+
  ultimately show thesis using new False by (simp add: sock_alloc_def kmalloc_def)
qed

lemma unix_sock_pair_step:
  assumes ok: "usk_ok s"
  shows "\<exists>r s'. unix_sock_pair s = Some (r, s') \<and> usk_ok s' \<and>
     (\<forall>a b. r = Inr (a, b) \<longrightarrow> (\<exists>k m. socks s' a = Some k \<and> socks s' b = Some m \<and> us_peer k = Some b \<and> us_peer m = Some a \<and>
        ring_contents UNIX_BUF_SIZE k = [] \<and> ring_contents UNIX_BUF_SIZE m = []))"
proof -
  have gone: "usk_ok (t\<lparr>socks := (socks t)(a := None)\<rparr>)" if t: "usk_ok t" "socks t a = Some new_sock" "\<not> queued (socks t) a" for a and t :: "'a usk_scheme"
  proof -
    have so: "socks_ok (socks t) (next_addr t)" using t(1) by (simp add: usk_ok_def)
    have np: "us_peer m \<noteq> Some a" if "socks t x = Some m" for x m
      using peers_sym [OF socks_ok_peers [OF so] t(2) that] by (auto simp: new_sock_def)
    have "(socks t)(a := None) = bury {a} (socks t)"
    proof
      fix x show "((socks t)(a := None)) x = bury {a} (socks t) x"
        using np [of x] by (cases "socks t x") (auto simp: bury_def)
    qed
    moreover have "socks_ok (bury {a} (socks t)) (next_addr t)"
      using t(3) by (intro socks_ok_bury [OF so]) (auto simp: queued_def)
    ultimately show ?thesis using t(1) by (simp add: usk_ok_def)
  qed
  have nq: "\<not> queued (S(a \<mapsto> new_sock)) a" if "socks_ok S nx" "S a = None" for S a nx
    using that socks_okD(5) [OF that(1)] by (force simp: queued_def queue_ok_def new_sock_def split: if_splits)
  have so: "socks_ok (socks s) (next_addr s)" using ok by (simp add: usk_ok_def)
  show ?thesis
  proof (cases rule: sock_alloc_step [OF ok, case_names oom new])
    case (oom s1)
    show ?thesis
    proof (cases rule: sock_alloc_step [OF oom(2), case_names oom new])
      case o2: (oom s2)
      then show ?thesis using oom by (simp add: unix_sock_pair_def)
    next
      case (new s2)
      have "socks_ok (socks s1) (next_addr s1)" using oom(2) by (simp add: usk_ok_def)
      from nq [OF this new(3)] have "usk_ok (s2\<lparr>socks := (socks s2)(next_addr s1 := None)\<rparr>)"
        using new by (intro gone) auto
      then show ?thesis using oom new by (simp add: unix_sock_pair_def Let_def)
    qed
  next
    case (new s1)
    let ?a = "next_addr s"
    show ?thesis
    proof (cases rule: sock_alloc_step [OF new(2), case_names oom new])
      case (oom s2)
      have "\<not> queued (socks s2) ?a" using nq [OF so new(3)] new(4) oom(3) by simp
      then have "usk_ok (s2\<lparr>socks := (socks s2)(?a := None)\<rparr>)" using oom new by (intro gone) auto
      then show ?thesis using oom new by (simp add: unix_sock_pair_def Let_def)
    next
      case n2: (new s2)
      let ?b = "next_addr s1"
      have ab: "?a \<noteq> ?b" using n2(3) new(4) by auto
      have a2: "socks s2 ?a = Some new_sock" "socks s2 ?b = Some new_sock" using n2 new ab by auto
      have so2: "socks_ok (socks s2) (next_addr s2)" using n2(2) by (simp add: usk_ok_def)
      note l = sock_link_eq [OF a2 ab]
      have "usk_ok (s2\<lparr>socks := (socks s2)(?a \<mapsto> linked_sock ?b new_sock, ?b \<mapsto> linked_sock ?a new_sock)\<rparr>)"
        using a2 ab by (intro usk_ok_upd [OF n2(2)] socks_ok_link [OF so2]) (auto simp: new_sock_def)
      then show ?thesis using new n2 l ab
        by (auto simp: unix_sock_pair_def linked_sock_def new_sock_def ring_contents_def)
    qed
  qed
qed

lemma connect_step:
  assumes ok: "usk_ok s" and k: "socks s c = Some k" and con: "unix_sock_connect s (Some c) (Some p) = Some (Done (0, s1))"
  obtains l lk srv where "socks s l = Some lk" "us_state lk = USOCK_LISTENING" "l \<noteq> c" "socks s srv = None"
    "socks s1 = (socks s)(c \<mapsto> linked_sock srv k, srv \<mapsto> linked_sock c new_sock, l \<mapsto> lk\<lparr>us_backlog := us_backlog lk @ [srv]\<rparr>)"
    "usk_ok s1"
proof -
  have so: "socks_ok (socks s) (next_addr s)" and v: "vfs_ok s" using ok by (auto simp: usk_ok_def)
  note o = socks_okD [OF so k]
  have st: "us_state k \<noteq> USOCK_CONNECTED" "us_state k \<noteq> USOCK_LISTENING" and ct: "connect_turn s c p = Some (Done (0, s1))"
    using con k by (auto simp: unix_sock_connect_def split: if_splits)
  have free: "us_peer k = None" "us_backlog k = []" using o(4,5) st by (auto simp: peer_ok_def queue_ok_def)
  obtain na n l lk where na: "abs_lookup s p = Some na" "nodes s na = Some n" "nd_type n = VFS_SOCKET" "nd_priv n = Some l"
    and lk: "socks s l = Some lk" "us_state lk = USOCK_LISTENING" and room: "int (length (us_backlog lk)) < us_backlog_max lk"
    using ct by (auto simp: connect_turn_def vfs_lookup_eq [OF v] bind_eq_Some_conv split: option.splits if_splits)
  have lc: "l \<noteq> c" using lk k st by auto
  have lo: "queue_ok (socks s) lk" by (rule socks_okD(5) [OF so lk(1)])
  show thesis
  proof (cases rule: sock_alloc_step [OF ok, case_names oom new])
    case (oom s2)
    then show thesis using ct na lk room by (simp add: connect_turn_def vfs_lookup_eq [OF v])
  next
    case (new s2)
    let ?srv = "next_addr s"
    have ne: "c \<noteq> ?srv" "l \<noteq> ?srv" using new(3) k lk by auto
    have c2: "socks s2 c = Some k" "socks s2 ?srv = Some new_sock" using new(4) k ne by auto
    have so2: "socks_ok (socks s2) (next_addr s2)" using new(2) by (simp add: usk_ok_def)
    let ?S = "(socks s2)(c \<mapsto> linked_sock ?srv k, ?srv \<mapsto> linked_sock c new_sock)"
    have so3: "socks_ok ?S (next_addr s2)"
      using c2 free ne by (intro socks_ok_link [OF so2]) (auto simp: new_sock_def)
    have l3: "?S l = Some lk" using lk new(4) lc ne by simp
    have nq: "x \<noteq> ?srv" if "x \<in> set (us_backlog m)" "socks s y = Some m" for x y m
      using socks_okD(5) [OF so that(2)] that(1) new(3) by (auto simp: queue_ok_def)
    have so4: "socks_ok (?S(l \<mapsto> lk\<lparr>us_backlog := us_backlog lk @ [?srv]\<rparr>)) (next_addr s2)"
    proof (rule socks_ok_queue [OF so3 l3 lk(2)])
      show "distinct (us_backlog lk @ [?srv])" using lo nq [OF _ lk(1)] by (auto simp: queue_ok_def)
      show "int (length (us_backlog lk @ [?srv])) \<le> UNIX_BACKLOG_MAX" using lo room by (auto simp: queue_ok_def)
      fix q assume "q \<in> set (us_backlog lk @ [?srv])"
      then consider "q = ?srv" | "q \<in> set (us_backlog lk)" by auto
      then show "q \<noteq> l \<and> (\<exists>p. ?S q = Some p \<and> us_refs p = 1 \<and> us_state p = USOCK_CONNECTED \<and> us_path p = [])"
      proof cases
        case 1
        then show ?thesis using ne by (simp add: linked_sock_def new_sock_def)
      next
        case 2
        then obtain p where p: "socks s q = Some p" "us_refs p = 1" "us_state p = USOCK_CONNECTED" "us_path p = []"
          using lo by (auto simp: queue_ok_def)
        then have "q \<noteq> c" "q \<noteq> l" "q \<noteq> ?srv" using k st lk new(3) by auto
        then show ?thesis using p new(4) by simp
      qed
    next
      fix a m assume m: "?S a = Some m" "a \<noteq> l"
      have am: "us_backlog m = [] \<or> socks s a = Some m"
        using m(1) new(4) free by (auto simp: linked_sock_def new_sock_def split: if_splits)
      then show "set (us_backlog lk @ [?srv]) \<inter> set (us_backlog m) = {}"
        using nq [of ?srv m a] socks_ok_disjoint [OF so lk(1), of a m] m(2) by auto
    qed
    have s1: "s1 = s2\<lparr>socks := ?S(l \<mapsto> lk\<lparr>us_backlog := us_backlog lk @ [?srv]\<rparr>)\<rparr>"
      using ct na lk room new sock_link_eq [OF c2 ne(1)] l3
      by (simp add: connect_turn_def vfs_lookup_eq [OF v] upd_sock_def)
    have "usk_ok s1" using usk_ok_upd [OF new(2) so4] s1 by simp
    moreover have "socks s1 = (socks s)(c \<mapsto> linked_sock ?srv k, ?srv \<mapsto> linked_sock c new_sock, l \<mapsto> lk\<lparr>us_backlog := us_backlog lk @ [?srv]\<rparr>)"
      using s1 new(4) ne by (simp add: fun_upd_twist)
    ultimately show thesis using that [OF lk lc new(3)] by blast
  qed
qed

lemma accept_step:
  assumes ok: "usk_ok s" and l: "socks s l = Some lk" and b: "us_backlog lk = srv # rest"
  obtains s1 where "unix_sock_accept s (Some l) = Some (Done (Inr srv, s1))" "usk_ok s1"
    "socks s1 = (socks s)(l \<mapsto> lk\<lparr>us_backlog := rest\<rparr>)" "\<not> queued (socks s1) srv"
proof -
  have so: "socks_ok (socks s) (next_addr s)" using ok by (simp add: usk_ok_def)
  have lo: "queue_ok (socks s) lk" and st: "us_state lk = USOCK_LISTENING"
    using socks_okD(5) [OF so l] b by (auto simp: queue_ok_def)
  let ?S = "(socks s)(l \<mapsto> lk\<lparr>us_backlog := rest\<rparr>)"
  have "socks_ok ?S (next_addr s)"
  proof (rule socks_ok_queue [OF so l st])
    show "distinct rest" "int (length rest) \<le> UNIX_BACKLOG_MAX" using lo b by (auto simp: queue_ok_def)
    show "q \<noteq> l \<and> (\<exists>p. socks s q = Some p \<and> us_refs p = 1 \<and> us_state p = USOCK_CONNECTED \<and> us_path p = [])" if "q \<in> set rest" for q
      using lo b l st that by (auto simp: queue_ok_def)
    show "set rest \<inter> set (us_backlog m) = {}" if "socks s a = Some m" "a \<noteq> l" for a m
      using socks_ok_disjoint [OF so l that(1)] that(2) b by auto
  qed
  moreover have "\<not> queued ?S srv"
    using lo b socks_ok_disjoint [OF so l, of _ _ srv] by (auto simp: queued_def queue_ok_def split: if_splits)
  ultimately show thesis
    using that [of "s\<lparr>socks := ?S\<rparr>"] l b st usk_ok_upd [OF ok] by (simp add: unix_sock_accept_def upd_sock_def)
qed

section \<open>A small set of sockets\<close>

text \<open>Sockets 10 and 11 are a connected pair; 12 is a new socket; 13 listens. The file tree is the one of
  \<open>demo\<close>.\<close>

definition demo_socks :: "addr \<Rightarrow> unix_sock option" where
  "demo_socks = [10 \<mapsto> linked_sock 11 new_sock, 11 \<mapsto> linked_sock 10 new_sock, 12 \<mapsto> new_sock,
     13 \<mapsto> new_sock\<lparr>us_state := USOCK_LISTENING, us_path := ''/a/f'', us_backlog_max := 8\<rparr>]"

text \<open>Node 3 is the address of the listener, and the task's working directory is given.\<close>

definition demo_usk :: "string \<Rightarrow> usk" where
  "demo_usk cwd = \<lparr>nodes = demo_heap(3 \<mapsto> (the (demo_heap 3))\<lparr>nd_type := VFS_SOCKET, nd_priv := Some 13\<rparr>), g_root = Some 1, wfs = sample_vol,
     next_addr = 20, oom = (\<lambda>_. False), g_tasks = (\<lambda>_. demo_task\<lparr>t_cwd := cwd\<rparr>), g_current = Some 0,
     g_shell_session_uid = 0, g_shell_session_gid = 0, socks = demo_socks\<rparr>"

lemma demo_socks_ok: "socks_ok demo_socks 20"
proof (rule socks_okI)
  fix a k assume "demo_socks a = Some k"
  then show "a < 20 \<and> ring_ok UNIX_BUF_SIZE k \<and> us_refs k > 0 \<and> peer_ok demo_socks a k \<and> queue_ok demo_socks k"
    by (auto simp: demo_socks_def linked_sock_def new_sock_def ring_ok_def peer_ok_def queue_ok_def split: if_splits)
next
  fix a b k l assume "demo_socks a = Some k" "demo_socks b = Some l"
  then show "set (us_backlog k) \<inter> set (us_backlog l) = {}"
    by (auto simp: demo_socks_def linked_sock_def new_sock_def split: if_splits)
qed

lemma demo_usk_inv: "heap_inv (nodes (demo_usk cwd)) 1 demo_kids 20"
proof -
  have "tree (nodes (demo_usk cwd)) 1 demo_kids"
    unfolding tree_def
    by (auto simp: demo_usk_def demo_heap_def demo_kids_def zero_node_def name_ok_def inj_on_def split: if_splits)
  then show ?thesis by (auto simp: heap_inv_def demo_usk_def demo_heap_def zero_node_def split: if_splits)
qed

lemma demo_usk_ok: "usk_ok (demo_usk cwd)"
  using demo_usk_inv [of cwd] demo_socks_ok by (auto simp: usk_ok_def vfs_ok_def demo_usk_def)

lemma demo_usk_dirmap: "dirmap (nodes (demo_usk cwd)) = [1 \<mapsto> [''a'' \<mapsto> 2], 2 \<mapsto> [''f'' \<mapsto> 3]]"
  by (auto simp: dirmap_tree [OF heap_invD(1) [OF demo_usk_inv]] dir_at_def fun_eq_iff name_of_def)
    (auto simp: demo_usk_def demo_heap_def demo_kids_def zero_node_def split: if_splits option.splits)

lemma demo_usk_lookup: "abs_lookup (demo_usk cwd) ''/a/f'' = Some 3"
  using demo_usk_dirmap [of cwd] by (simp add: abs_lookup_def demo_usk_def lookup_path_def demo_segments)

section \<open>Closing\<close>

text \<open>Dropping a reference to a socket that is not waiting in a listener's queue always returns. While other
  references remain only the count changes. With the last one the socket is freed together with every
  connection still queued on it, no other socket points at freed memory, and an end whose peer was closed
  reads end-of-file once its buffer is empty and gets \<^verbatim>\<open>EPIPE\<close> on a write.\<close>

theorem unix_unref_closes:
  assumes "usk_ok s" and "socks s a = Some k" and "\<not> queued (socks s) a"
  shows "\<exists>s'. unix_sock_unref a s = Some s' \<and> usk_ok s' \<and> dirmap (nodes s') = dirmap (nodes s) \<and>
     socks s' = (if us_refs k > 1 then (socks s)(a \<mapsto> k\<lparr>us_refs := us_refs k - 1\<rparr>)
                 else bury (insert a (set (us_backlog k))) (socks s)) \<and>
     (\<forall>b p. us_refs k = 1 \<and> us_peer k = Some b \<and> socks s b = Some p \<longrightarrow>
        (\<forall>buf. buf \<noteq> [] \<longrightarrow> sock_write_loop s' b buf 0 = Some (WDone (- EPIPE), s')) \<and>
        (\<forall>n. rb_count p = 0 \<longrightarrow> (\<exists>s''. sock_read_loop s' b n = Some (Done (0, [], s'')))))"
proof -
  obtain s' where s': "unix_sock_unref a s = Some s'" "usk_ok s'" "dirmap (nodes s') = dirmap (nodes s)"
    "socks s' = (if us_refs k > 1 then (socks s)(a \<mapsto> k\<lparr>us_refs := us_refs k - 1\<rparr>)
                 else bury (insert a (set (us_backlog k))) (socks s))"
    by (rule unref_step [OF assms])
  have so: "socks_ok (socks s) (next_addr s)" using assms(1) by (simp add: usk_ok_def)
  note o = socks_okD [OF so assms(2)]
  have "(\<forall>buf. buf \<noteq> [] \<longrightarrow> sock_write_loop s' b buf 0 = Some (WDone (- EPIPE), s')) \<and>
      (\<forall>n. rb_count p = 0 \<longrightarrow> (\<exists>s''. sock_read_loop s' b n = Some (Done (0, [], s''))))"
    if b: "us_refs k = 1" "us_peer k = Some b" "socks s b = Some p" for b p
  proof -
    have ba: "b \<noteq> a" "us_peer p = Some a" "us_backlog k = []"
      using o(4,5) b by (auto simp: peer_ok_def queue_ok_def)
    then have "socks s' b = Some (p\<lparr>us_peer := None\<rparr>)" using s'(4) b by (simp add: bury_def)
    then show ?thesis
      by (auto simp: sock_write_loop_def sock_read_loop_def sock_writer_alive_def ring_read_loop_def)
  qed
  then show ?thesis using s' by blast
qed

theorem unix_unref_closes_witness:
  "\<exists>s'. unix_sock_unref 10 (demo_usk ''/'') = Some s' \<and> socks s' 10 = None \<and>
     sock_write_loop s' 11 [7] 0 = Some (WDone (- EPIPE), s')"
proof -
  have k: "socks (demo_usk ''/'') 10 = Some (linked_sock 11 new_sock)" by (simp add: demo_usk_def demo_socks_def)
  have q: "\<not> queued (socks (demo_usk ''/'')) 10"
    by (auto simp: queued_def demo_usk_def demo_socks_def linked_sock_def new_sock_def split: if_splits)
  have p: "us_refs (linked_sock 11 new_sock) = 1" "us_peer (linked_sock 11 new_sock) = Some 11"
      "socks (demo_usk ''/'') 11 = Some (linked_sock 10 new_sock)"
    by (simp_all add: linked_sock_def new_sock_def demo_usk_def demo_socks_def)
  from unix_unref_closes [OF demo_usk_ok k q] obtain s' where
    s': "unix_sock_unref 10 (demo_usk ''/'') = Some s'"
      "socks s' = bury (insert 10 (set (us_backlog (linked_sock 11 new_sock)))) (socks (demo_usk ''/''))"
      "sock_write_loop s' 11 [7] 0 = Some (WDone (- EPIPE), s')"
    using p by auto
  then show ?thesis by (auto simp: bury_def)
qed

section \<open>The stream between two ends\<close>

text \<open>All traffic between two connected sockets \<open>a\<close> and \<open>b\<close>, in any order: both ends write (each call from
  any point of its buffer until it returns or sleeps) and read, and either end may shut down its directions.
  The lists record what \<open>b\<close>'s ring accepted from \<open>a\<close> and what \<open>b\<close> was given.\<close>

inductive stream :: "addr \<Rightarrow> addr \<Rightarrow> usk \<Rightarrow> u8 list \<Rightarrow> u8 list \<Rightarrow> bool" for a b where
  start: "usk_ok s \<Longrightarrow> socks s a = Some k \<Longrightarrow> us_peer k = Some b \<Longrightarrow> socks s b = Some p \<Longrightarrow>
    ring_contents UNIX_BUF_SIZE p = [] \<Longrightarrow> stream a b s [] []"
| send: "stream a b s acc del \<Longrightarrow> tot \<le> length buf \<Longrightarrow> sock_write_loop s a buf tot = Some (res, s') \<Longrightarrow>
    stream a b s' (acc @ take (write_upto tot res - tot) (drop tot buf)) del"
| recv: "stream a b s acc del \<Longrightarrow> sock_read_loop s b n = Some (Done (v, bs, s')) \<Longrightarrow> stream a b s' acc (del @ bs)"
| send_back: "stream a b s acc del \<Longrightarrow> tot \<le> length buf \<Longrightarrow> sock_write_loop s b buf tot = Some (res, s') \<Longrightarrow>
    stream a b s' acc del"
| recv_back: "stream a b s acc del \<Longrightarrow> sock_read_loop s a n = Some (Done (v, bs, s')) \<Longrightarrow> stream a b s' acc del"
| shut: "stream a b s acc del \<Longrightarrow> c = a \<or> c = b \<Longrightarrow> unix_sock_shutdown s (Some c) how = Some (r, s') \<Longrightarrow> stream a b s' acc del"

definition stream_inv :: "addr \<Rightarrow> addr \<Rightarrow> usk \<Rightarrow> u8 list \<Rightarrow> u8 list \<Rightarrow> bool" where
  "stream_inv a b s acc del \<longleftrightarrow> usk_ok s \<and>
     (\<exists>k p. socks s a = Some k \<and> us_peer k = Some b \<and> socks s b = Some p \<and> us_peer p = Some a \<and> a \<noteq> b \<and>
        acc = del @ ring_contents UNIX_BUF_SIZE p)"

lemma stream_invariant: "stream a b s acc del \<Longrightarrow> stream_inv a b s acc del"
proof (induction rule: stream.induct)
  case (start s k p)
  have "socks_ok (socks s) (next_addr s)" using start(1) by (simp add: usk_ok_def)
  from socks_okD(4) [OF this start(2)] start show ?case by (auto simp: stream_inv_def peer_ok_def)
next
  case (send s acc del tot buf res s')
  then obtain k p where i: "usk_ok s" "socks s a = Some k" "us_peer k = Some b" "socks s b = Some p" "us_peer p = Some a"
    "a \<noteq> b" "acc = del @ ring_contents UNIX_BUF_SIZE p" by (auto simp: stream_inv_def)
  show ?case
    by (rule sock_write_step [OF i(1-4) send.hyps(2)]) (use i send.hyps(3) in \<open>auto simp: stream_inv_def dest: ring_more_eqD(3)\<close>)
next
  case (recv s acc del n v bs s')
  then obtain k p where i: "usk_ok s" "socks s a = Some k" "us_peer k = Some b" "socks s b = Some p" "us_peer p = Some a"
    "a \<noteq> b" "acc = del @ ring_contents UNIX_BUF_SIZE p" by (auto simp: stream_inv_def)
  show ?case
    by (cases rule: sock_read_step [OF i(1,4), of n, case_names blocked got])
      (use i recv.hyps(2) in \<open>auto simp: stream_inv_def dest: ring_more_eqD(3)\<close>)
next
  case (send_back s acc del tot buf res s')
  then obtain k p where i: "usk_ok s" "socks s a = Some k" "us_peer k = Some b" "socks s b = Some p" "us_peer p = Some a"
    "a \<noteq> b" "acc = del @ ring_contents UNIX_BUF_SIZE p" by (auto simp: stream_inv_def)
  show ?case
    by (rule sock_write_step [OF i(1,4,5,2) send_back.hyps(2)]) (use i send_back.hyps(3) in \<open>auto simp: stream_inv_def dest: ring_more_eqD(3)\<close>)
next
  case (recv_back s acc del n v bs s')
  then obtain k p where i: "usk_ok s" "socks s a = Some k" "us_peer k = Some b" "socks s b = Some p" "us_peer p = Some a"
    "a \<noteq> b" "acc = del @ ring_contents UNIX_BUF_SIZE p" by (auto simp: stream_inv_def)
  show ?case
    by (cases rule: sock_read_step [OF i(1,2), of n, case_names blocked got])
      (use i recv_back.hyps(2) in \<open>auto simp: stream_inv_def dest: ring_more_eqD(3)\<close>)
next
  case (shut s acc del c how r s')
  then obtain k p where i: "usk_ok s" "socks s a = Some k" "us_peer k = Some b" "socks s b = Some p" "us_peer p = Some a"
    "a \<noteq> b" "acc = del @ ring_contents UNIX_BUF_SIZE p" by (auto simp: stream_inv_def)
  have "usk_ok s'"
    using shut.hyps(2,3) unix_sock_shutdown_ok [OF i(1,2), of how] unix_sock_shutdown_ok [OF i(1,4), of how] by auto
  then show ?case using shut.hyps(2,3) i
    by (auto simp: stream_inv_def unix_sock_shutdown_def upd_sock_def ring_contents_def split: if_splits)
qed



section \<open>Connecting\<close>

text \<open>Connection setup: a \<^verbatim>\<open>connect\<close> that returns success has found a listening socket, made a fresh server
  end linked with the client in both directions, and put it last in that listener's queue without
  disturbing any other socket; when it is the only entry, the listener's next \<^verbatim>\<open>accept\<close> returns exactly that end
  without blocking, still linked with the client and referenced by no queue.\<close>

theorem unix_connect_accept:
  assumes "usk_ok s" and "socks s c = Some k" and "unix_sock_connect s (Some c) (Some p) = Some (Done (0, s1))"
  shows "\<exists>l lk srv. socks s l = Some lk \<and> us_state lk = USOCK_LISTENING \<and> socks s srv = None \<and> usk_ok s1 \<and>
     socks s1 = (socks s)(c \<mapsto> linked_sock srv k, srv \<mapsto> linked_sock c new_sock, l \<mapsto> lk\<lparr>us_backlog := us_backlog lk @ [srv]\<rparr>) \<and>
     (us_backlog lk = [] \<longrightarrow>
        (\<exists>s2. unix_sock_accept s1 (Some l) = Some (Done (Inr srv, s2)) \<and> usk_ok s2 \<and> \<not> queued (socks s2) srv \<and>
           socks s2 c = Some (linked_sock srv k) \<and> socks s2 srv = Some (linked_sock c new_sock)))"
proof -
  obtain l lk srv where l: "socks s l = Some lk" "us_state lk = USOCK_LISTENING" "l \<noteq> c" "socks s srv = None"
    "socks s1 = (socks s)(c \<mapsto> linked_sock srv k, srv \<mapsto> linked_sock c new_sock, l \<mapsto> lk\<lparr>us_backlog := us_backlog lk @ [srv]\<rparr>)"
    "usk_ok s1" by (rule connect_step [OF assms])
  have ne: "srv \<noteq> l" "srv \<noteq> c" using l(1,4) assms(2) by auto
  have "\<exists>s2. unix_sock_accept s1 (Some l) = Some (Done (Inr srv, s2)) \<and> usk_ok s2 \<and> \<not> queued (socks s2) srv \<and>
      socks s2 c = Some (linked_sock srv k) \<and> socks s2 srv = Some (linked_sock c new_sock)" if "us_backlog lk = []"
  proof -
    have l1: "socks s1 l = Some (lk\<lparr>us_backlog := us_backlog lk @ [srv]\<rparr>)" using l(5) by simp
    have b1: "us_backlog (lk\<lparr>us_backlog := us_backlog lk @ [srv]\<rparr>) = srv # []" using that by simp
    show ?thesis by (rule accept_step [OF l(6) l1 b1]) (use l(3,5) ne in auto)
  qed
  then show ?thesis using l by blast
qed

theorem unix_connect_accept_witness:
  "\<exists>s1. unix_sock_connect (demo_usk ''/'') (Some 12) (Some ''/a/f'') = Some (Done (0, s1)) \<and> usk_ok s1"
proof -
  have v: "vfs_ok (demo_usk ''/'')" using demo_usk_ok by (simp add: usk_ok_def)
  have k: "socks (demo_usk ''/'') 12 = Some new_sock" by (simp add: demo_usk_def demo_socks_def)
  have n: "nodes (demo_usk ''/'') 3 = Some ((the (demo_heap 3))\<lparr>nd_type := VFS_SOCKET, nd_priv := Some 13\<rparr>)"
    by (simp add: demo_usk_def)
  let ?d = "demo_usk ''/''" and ?l = "new_sock\<lparr>us_state := USOCK_LISTENING, us_path := ''/a/f'', us_backlog_max := 8\<rparr>"
  let ?d1 = "?d\<lparr>next_addr := 21, socks := (socks ?d)(20 \<mapsto> new_sock)\<rparr>"
  have l: "socks ?d 13 = Some ?l" by (simp add: demo_usk_def demo_socks_def)
  have al: "sock_alloc ?d = (Some 20, ?d1)" by (simp add: sock_alloc_def kmalloc_def demo_usk_def)
  have d1: "socks ?d1 12 = Some new_sock" "socks ?d1 20 = Some new_sock" "(12::addr) \<noteq> 20" using k by simp_all
  have st: "us_state new_sock = USOCK_NEW" "us_state ?l = USOCK_LISTENING" "us_backlog ?l = []" "us_backlog_max ?l = 8"
    by (simp_all add: new_sock_def)
  have "\<exists>s1. connect_turn ?d 12 ''/a/f'' = Some (Done (0, s1))"
    using n l st sock_link_eq [OF d1] by (simp add: connect_turn_def vfs_lookup_eq [OF v] demo_usk_lookup al upd_sock_def)
  then obtain s1 where con: "unix_sock_connect ?d (Some 12) (Some ''/a/f'') = Some (Done (0, s1))"
    using k st by (auto simp: unix_sock_connect_def)
  then show ?thesis using unix_connect_accept [OF demo_usk_ok k con] by blast
qed

text \<open>The name of a socket is looked up again when the socket is closed, relative to whoever closes it: if the
  path was relative and the working directory has changed since (here to \<^verbatim>\<open>/\<close>), the node keeps pointing at
  the freed socket, and the next \<^verbatim>\<open>connect\<close> to it follows a dangling pointer.\<close>

theorem unix_relative_name_dangles:
  "let s = (demo_usk ''/'')\<lparr>socks := demo_socks(13 \<mapsto> (the (demo_socks 13))\<lparr>us_path := ''f''\<rparr>)\<rparr>
   in usk_ok s \<and> (\<exists>s'. unix_sock_unref 13 s = Some s' \<and> unix_sock_connect s' (Some 12) (Some ''/a/f'') = None)"
proof -
  let ?k = "(the (demo_socks 13))\<lparr>us_path := ''f''\<rparr>"
  let ?s = "(demo_usk ''/'')\<lparr>socks := demo_socks(13 \<mapsto> ?k)\<rparr>"
  have "socks_ok (demo_socks(13 \<mapsto> ?k)) 20"
    by (rule socks_ok_upd [OF demo_socks_ok, of 13 "the (demo_socks 13)"])
      (auto simp: demo_socks_def linked_sock_def new_sock_def ring_ok_def queued_def split: if_splits)
  moreover have "next_addr (demo_usk ''/'') = 20" by (simp add: demo_usk_def)
  ultimately have ok: "usk_ok ?s" by (intro usk_ok_upd demo_usk_ok) simp
  have v: "vfs_ok ?s" using ok by (simp add: usk_ok_def)
  have res: "vfs_path_resolve ''/'' ''f'' 256 = ''/f''"
    by (simp add: vfs_path_resolve_def segments.simps push_seg_def Let_def)
  have none: "abs_lookup t ''f'' = None" if "nodes t = nodes ?s" "g_root t = g_root ?s" "g_tasks t = g_tasks ?s" "g_current t = g_current ?s" for t :: usk
    using that res demo_usk_dirmap [of "''/''"]
    by (simp add: abs_lookup_def lookup_path_def sched_current_def demo_usk_def demo_task_def demo_segments)
  let ?t = "?s\<lparr>socks := (socks ?s)(13 := None)\<rparr>"
  let ?s1 = "?s\<lparr>socks := (socks ?s)(13 \<mapsto> ?k\<lparr>us_refs := us_refs ?k - 1\<rparr>)\<rparr>"
  have rn: "release_name 13 ?k t = Some t" if "vfs_ok t" "abs_lookup t ''f'' = None" for t :: usk
    using that by (simp add: release_name_def vfs_lookup_eq)
  have rn: "release_name 13 ?k ?s1 = Some ?s1" using v by (intro rn none) simp_all
  have rp: "release_peer 13 ?k ?s1 = Some ?s1" by (simp add: release_peer_def demo_socks_def new_sock_def)
  have k13: "socks ?s 13 = Some ?k" by simp
  have "us_refs ?k \<le> 1" "us_backlog ?k = []" by (simp_all add: demo_socks_def new_sock_def)
  then have un: "unix_sock_unref 13 ?s = Some ?t"
    using unref_run_last [OF k13 _ rn rp, of "[]"]
    by (simp add: unix_sock_unref_def unref_run_Free unref_run.simps [of "[]"])
  have vt: "vfs_ok ?t" using v by simp
  have lk: "abs_lookup ?t ''/a/f'' = Some 3"
    using demo_usk_lookup [of "''/''"] by (simp add: abs_lookup_def lookup_path_def split: option.splits)
  have t: "socks ?t 12 = Some new_sock" "socks ?t 13 = None" by (simp_all add: demo_socks_def)
  have n: "nodes ?t 3 = Some ((the (demo_heap 3))\<lparr>nd_type := VFS_SOCKET, nd_priv := Some 13\<rparr>)" by (simp add: demo_usk_def)
  have "connect_turn u 12 ''/a/f'' = None" if "vfs_ok u" "abs_lookup u ''/a/f'' = Some 3" "socks u 13 = None"
      "nodes u 3 = Some ((the (demo_heap 3))\<lparr>nd_type := VFS_SOCKET, nd_priv := Some 13\<rparr>)" for u :: usk
    using that by (simp add: connect_turn_def vfs_lookup_eq)
  from this [OF vt lk t(2) n] have "unix_sock_connect ?t (Some 12) (Some ''/a/f'') = None"
    unfolding unix_sock_connect_def using t(1) by (simp add: new_sock_def)
  then show ?thesis using ok un by (simp add: Let_def)
qed

end
