(* ===== verification/Vfs_Fd_Props.thy ===== *)
theory Vfs_Fd_Props
  imports Vfs_Fd_Inv Unix_Props
begin

text \<open>
  Properties of descriptors: every operation on them returns, keeps the reference counts in step and never
  touches freed memory; closing releases, duplicating shares, and a pipe ends when its last descriptor does.
\<close>

section \<open>Steps\<close>

lemma refile_keeps: "F f = Some x \<Longrightarrow> (R(g := r)) f > 0 \<Longrightarrow> \<exists>x'. refile F g r f = Some x' \<and> f_node x' = f_node x"
  by (auto simp: refile_def)

lemma unref_slot_step:
  fixes s :: "('d, 'a) kern_scheme"
  assumes k: "kern_refs R s" and f: "fdtab s t i = Some f" and i: "i < VFS_MAX_FDS"
  obtains s' where "file_unref f (set_slot t i None s) = Some s'" "kern_refs (R(f := R f - 1)) s'"
    "fdtab s' = (fdtab s)(t := (fdtab s t)(i := None))" "g_current s' = g_current s"
    "files s' = refile (files s) f (R f - 1)"
proof -
  obtain x where x: "files s f = Some x" "R f > 0" by (rule slot_file [OF k f i])
  let ?s = "set_slot t i None s"
  have x': "files ?s f = Some x" using x by simp
  have r: "refs_ok R ?s" and sl: "slots_ok R (files s) (fdtab s)" using k by (auto simp: kern_refs_def)
  obtain s' where s': "file_unref f ?s = Some s'" "refs_ok (R(f := R f - 1)) s'" "files s' = refile (files ?s) f (R f - 1)"
    "s' = ?s\<lparr>nodes := nodes s', wfs := wfs s', socks := socks s', files := files s', pipes := pipes s', dev := dev s'\<rparr>"
    "pipes s' = repipe (pipes ?s) x (-1)" by (rule file_unref_step [OF r x'])
  have T: "fdtab s' = (fdtab s)(t := (fdtab s t)(i := None))" "g_current s' = g_current s" by (subst s'(4), simp)+
  have "slots_ok (R(f := R f - 1)) (files s') (fdtab s')"
    unfolding T(1) by (rule slots_ok_move [OF sl i f]) (use x(2) s'(3) refile_keeps [of "files s"] in auto)
  then show thesis using that [OF s'(1) _ T] s'(2,3) by (simp add: kern_refs_def)
qed

text \<open>A free slot, or one whose file has just lost a reference, takes a reference to \<open>f\<close>.\<close>

lemma ref_slot_step:
  fixes s :: "('d, 'a) kern_scheme"
  assumes r: "refs_ok R s" and x: "files s f = Some x" and i: "i < VFS_MAX_FDS"
    and sl: "slots_ok R0 F0 (fdtab s)" and R0: "\<And>g. R0 g = R g + (if fdtab s t i = Some g then 1 else 0)"
    and F0: "\<And>g y. F0 g = Some y \<Longrightarrow> R g > 0 \<Longrightarrow> \<exists>y'. files s g = Some y' \<and> f_node y' = f_node y"
  obtains s' where "file_ref f (set_slot t i (Some f) s) = Some s'" "kern_refs (R(f := Suc (R f))) s'"
    "fdtab s' = (fdtab s)(t := (fdtab s t)(i := Some f))" "g_current s' = g_current s" "files s' = refile (files s) f (Suc (R f))"
proof -
  let ?s = "set_slot t i (Some f) s"
  have r': "refs_ok R ?s" and x': "files ?s f = Some x" using r x by simp_all
  obtain s' where s': "file_ref f ?s = Some s'" "refs_ok (R(f := Suc (R f))) s'" "files s' = refile (files ?s) f (Suc (R f))"
    "s' = ?s\<lparr>files := files s', pipes := pipes s', socks := socks s'\<rparr>"
    by (rule file_ref_step [OF r' x'])
  have T: "fdtab s' = (fdtab s)(t := (fdtab s t)(i := Some f))" "g_current s' = g_current s" by (subst s'(4), simp)+
  have keep: "\<exists>y'. files s' g = Some y' \<and> f_node y' = f_node y" if g: "F0 g = Some y" "(R(f := Suc (R f))) g > 0" for g y
  proof (cases "R g > 0")
    case True
    then obtain y1 where y1: "files s g = Some y1" "f_node y1 = f_node y" using F0 g(1) by blast
    then obtain y2 where "refile (files s) f (Suc (R f)) g = Some y2" "f_node y2 = f_node y1"
      using refile_keeps [of "files s" g y1 R f "Suc (R f)", OF y1(1) g(2)] by blast
    then show ?thesis using s'(3) y1 by simp
  next
    case False
    then have "g = f" "R f = 0" using g(2) by (auto split: if_splits)
    then show ?thesis using file_refsD(2) [OF refs_okD(2) [OF r] x] by simp
  qed
  have "slots_ok (R(f := Suc (R f))) (files s') (fdtab s')"
    unfolding T(1) by (rule slots_ok_move [OF sl i refl _ keep]) (use R0 in auto)
  then show thesis using that [OF s'(1) _ T] s'(2,3) by (simp add: kern_refs_def)
qed

section \<open>Close and duplicate\<close>

lemma close_step:
  assumes k: "kern_refs R s" and f: "fd_get s fd = Some f" and t: "g_current s = Some t"
  obtains s' where "vfs_close s fd = Some (0, s')" "kern_refs (R(f := R f - 1)) s'"
    "fdtab s' = (fdtab s)(t := (fdtab s t)(nat fd := None))" "g_current s' = g_current s" "files s' = refile (files s) f (R f - 1)"
proof -
  have i: "fdtab s t (nat fd) = Some f" "nat fd < VFS_MAX_FDS" using f t by (auto simp: fd_get_Some)
  obtain s' where s': "file_unref f (set_slot t (nat fd) None s) = Some s'" "kern_refs (R(f := R f - 1)) s'"
    "fdtab s' = (fdtab s)(t := (fdtab s t)(nat fd := None))" "g_current s' = g_current s" "files s' = refile (files s) f (R f - 1)"
    by (rule unref_slot_step [OF k i])
  show thesis using that [OF _ s'(2-5)] s'(1) f t by (simp add: vfs_close_def set_fd_slot)
qed

lemma dupfd_step:
  assumes k: "kern_refs R s" and f: "fd_get s fd = Some f" and t: "g_current s = Some t" and m: "0 \<le> minfd"
    and i: "scan (\<lambda>i. fdtab s t i = None) (nat minfd) VFS_MAX_FDS = Some i"
  obtains s' where "vfs_fcntl_dupfd s fd minfd = Some (int i, s')" "kern_refs (R(f := Suc (R f))) s'"
    "fdtab s' = (fdtab s)(t := (fdtab s t)(i := Some f))" "g_current s' = g_current s" "files s' = refile (files s) f (Suc (R f))"
proof -
  have fi: "fdtab s t (nat fd) = Some f" "nat fd < VFS_MAX_FDS" using f t by (auto simp: fd_get_Some)
  obtain x where x: "files s f = Some x" by (rule slot_file [OF k fi])
  have i': "i < VFS_MAX_FDS" "fdtab s t i = None" using scan_SomeD [OF i] by auto
  have ft: "fd_table s = Some (fdtab s t)" using t by (simp add: fd_table_def sched_current_def)
  have ks: "refs_ok R s" "slots_ok R (files s) (fdtab s)" using k by (auto simp: kern_refs_def)
  obtain s' where s': "file_ref f (set_slot t i (Some f) s) = Some s'" "kern_refs (R(f := Suc (R f))) s'"
    "fdtab s' = (fdtab s)(t := (fdtab s t)(i := Some f))" "g_current s' = g_current s" "files s' = refile (files s) f (Suc (R f))"
    by (rule ref_slot_step [OF ks(1) x i'(1) ks(2), of t]) (use i' in auto)
  show thesis using that [OF _ s'(2-5)] s'(1) f m i ft t by (simp add: vfs_fcntl_dupfd_def set_fd_slot)
qed

lemma dup2_step:
  assumes k: "kern_refs R s" and f: "fd_get s fd = Some f" and t: "g_current s = Some t"
    and n: "0 \<le> nfd" "nfd < int VFS_MAX_FDS" "nfd \<noteq> fd"
  obtains R' s' where "vfs_dup2 s fd nfd = Some (nfd, s')" "kern_refs R' s'"
    "fdtab s' = (fdtab s)(t := (fdtab s t)(nat nfd := Some f))" "g_current s' = g_current s"
    "\<And>g. R' g + (if fd_get s nfd = Some g then 1 else 0) = R g + (if g = f then 1 else 0)"
proof -
  have fi: "fdtab s t (nat fd) = Some f" "nat fd < VFS_MAX_FDS" using f t by (auto simp: fd_get_Some)
  have ni: "nat nfd < VFS_MAX_FDS" "nat nfd \<noteq> nat fd" using n f by (auto simp: fd_get_Some)
  have fn: "fd_get s nfd = fdtab s t (nat nfd)" using n t by (simp add: fd_get_def fd_table_def sched_current_def)
  have ks: "refs_ok R s" "slots_ok R (files s) (fdtab s)" using k by (auto simp: kern_refs_def)
  show thesis
  proof (cases "fdtab s t (nat nfd)")
    case None
    obtain x where x: "files s f = Some x" by (rule slot_file [OF k fi])
    obtain s' where s': "file_ref f (set_slot t (nat nfd) (Some f) s) = Some s'" "kern_refs (R(f := Suc (R f))) s'"
      "fdtab s' = (fdtab s)(t := (fdtab s t)(nat nfd := Some f))" "g_current s' = g_current s"
      by (rule ref_slot_step [OF ks(1) x ni(1) ks(2), of t]) (use None in auto)
    show thesis using that [OF _ s'(2-4)] s'(1) f n t fn None by (auto simp: vfs_dup2_def set_fd_slot)
  next
    case (Some g)
    let ?R = "R(g := R g - 1)"
    obtain y where y: "files s g = Some y" "R g > 0" by (rule slot_file [OF k Some ni(1)])
    obtain s1 where s1: "file_unref g s = Some s1" "refs_ok ?R s1" "files s1 = refile (files s) g (R g - 1)"
      "s1 = s\<lparr>nodes := nodes s1, wfs := wfs s1, socks := socks s1, files := files s1, pipes := pipes s1, dev := dev s1\<rparr>"
      "pipes s1 = repipe (pipes s) y (-1)" by (rule file_unref_step [OF ks(1) y(1)])
    have T: "fdtab s1 = fdtab s" "g_current s1 = g_current s" by (subst s1(4), simp)+
    have T1: "fdtab s1 u = fdtab s u" for u by (rule fun_cong [OF T(1)])
    have "?R f > 0"
    proof (cases "g = f")
      case True
      have "{(t, nat fd), (t, nat nfd)} \<subseteq> slots (fdtab s) f" using fi ni Some True by (auto simp: slots_def)
      then have "2 \<le> card (slots (fdtab s) f)"
        using card_mono [of "slots (fdtab s) f" "{(t, nat fd), (t, nat nfd)}"] ks(2) ni(2) by (auto simp: slots_ok_def)
      then have "2 \<le> R f" using ks(2) unfolding slots_ok_def by (meson le_trans)
      then show ?thesis using True by simp
    qed (use slot_used [OF ks(2) fi] in simp)
    moreover have "files s1 f = None \<longrightarrow> ?R f = 0" using refs_okD(2) [OF s1(2)] by (simp add: file_refs_def)
    ultimately obtain x where x: "files s1 f = Some x" by (cases "files s1 f") auto
    have sl: "slots_ok R (files s) (fdtab s1)" using ks(2) T by simp
    obtain s' where s': "file_ref f (set_slot t (nat nfd) (Some f) s1) = Some s'" "kern_refs (?R(f := Suc (?R f))) s'"
      "fdtab s' = (fdtab s1)(t := (fdtab s1 t)(nat nfd := Some f))" "g_current s' = g_current s1"
      by (rule ref_slot_step [OF s1(2) x ni(1) sl, of t]) (use Some T1 y s1(3) refile_keeps [of "files s"] in auto)
    show thesis
      by (rule that [of s' "?R(f := Suc (?R f))"]) (use s' s1(1) f n t fn Some T T1 y(2) in \<open>auto simp: vfs_dup2_def set_fd_slot\<close>)
  qed
qed

section \<open>Whole tables\<close>

lemma close_slot_step:
  fixes s :: "('d, 'a) kern_scheme"
  assumes k: "kern_refs R s" and i: "i < VFS_MAX_FDS"
  obtains R' s' where "close_slot t i s = Some s'" "kern_refs R' s'" "fdtab s' = (fdtab s)(t := (fdtab s t)(i := None))"
    "g_current s' = g_current s"
proof (cases "fdtab s t i")
  case None
  have T: "fdtab s = (fdtab s)(t := (fdtab s t)(i := None))" using None by (auto simp: fun_eq_iff)
  have "close_slot t i s = Some s" using None by (simp add: close_slot_def)
  then show thesis using k T by (rule that) simp
next
  case (Some f)
  have ks: "refs_ok R s" "slots_ok R (files s) (fdtab s)" using k by (auto simp: kern_refs_def)
  obtain x where x: "files s f = Some x" "R f > 0" by (rule slot_file [OF k Some i])
  obtain s1 where s1: "file_unref f s = Some s1" "refs_ok (R(f := R f - 1)) s1" "files s1 = refile (files s) f (R f - 1)"
    "s1 = s\<lparr>nodes := nodes s1, wfs := wfs s1, socks := socks s1, files := files s1, pipes := pipes s1, dev := dev s1\<rparr>"
    "pipes s1 = repipe (pipes s) x (-1)" by (rule file_unref_step [OF ks(1) x(1)])
  have T: "g_tasks s1 = g_tasks s" "g_current s1 = g_current s" by (subst s1(4), simp)+
  let ?s = "set_slot t i None s1"
  have T': "fdtab ?s = (fdtab s)(t := (fdtab s t)(i := None))" using T by simp
  have "slots_ok (R(f := R f - 1)) (files ?s) (fdtab ?s)"
    unfolding T' by (rule slots_ok_move [OF ks(2) i Some]) (use x(2) s1(3) refile_keeps [of "files s"] in auto)
  then have g: "kern_refs (R(f := R f - 1)) ?s" using s1(2) by (simp add: kern_refs_def)
  have "close_slot t i s = Some ?s" using Some s1(1) by (simp add: close_slot_def)
  then show thesis using g T' by (rule that) (simp add: T)
qed

lemma close_each:
  assumes "kern_refs R s" "\<forall>i \<in> set is. i < VFS_MAX_FDS"
  shows "\<exists>R' s'. each (close_slot t) is s = Some s' \<and> kern_refs R' s' \<and> g_current s' = g_current s \<and>
     (\<forall>u j. fdtab s' u j = (if u = t \<and> j \<in> set is then None else fdtab s u j))"
  using assms
proof (induction "is" arbitrary: R s)
  case (Cons i ls)
  obtain R1 s1 where s1: "close_slot t i s = Some s1" "kern_refs R1 s1" "fdtab s1 = (fdtab s)(t := (fdtab s t)(i := None))"
    "g_current s1 = g_current s"
    by (rule close_slot_step [of R s i t]) (use Cons.prems in auto)
  have T: "fdtab s1 u = ((fdtab s)(t := (fdtab s t)(i := None))) u" for u by (rule fun_cong [OF s1(3)])
  have "\<exists>R' s'. each (close_slot t) ls s1 = Some s' \<and> kern_refs R' s' \<and> g_current s' = g_current s1 \<and>
     (\<forall>u j. fdtab s' u j = (if u = t \<and> j \<in> set ls then None else fdtab s1 u j))"
    using Cons.IH [OF s1(2)] Cons.prems(2) by simp
  then obtain R' s' where s': "each (close_slot t) ls s1 = Some s'" "kern_refs R' s'" "g_current s' = g_current s1"
    "\<forall>u j. fdtab s' u j = (if u = t \<and> j \<in> set ls then None else fdtab s1 u j)" by blast
  have "fdtab s' u j = (if u = t \<and> j \<in> set (i # ls) then None else fdtab s u j)" for u j using s'(4) T [of u] by auto
  then show ?case using s' s1(1,4) by (intro exI [of _ R'] exI [of _ s']) simp
qed auto

lemma inherit_slot_step:
  fixes s :: "('d, 'a) kern_scheme"
  assumes k: "kern_refs R s" and i: "i < VFS_MAX_FDS" and e: "fdtab s d i = None" and d: "d \<noteq> c"
  obtains R' s' where "inherit_slot d c i s = Some s'" "kern_refs R' s'" "fdtab s' = (fdtab s)(d := (fdtab s d)(i := fdtab s c i))"
    "g_current s' = g_current s"
proof -
  let ?s = "set_slot d i None s"
  have T: "fdtab ?s = fdtab s" using e by (auto simp: fun_eq_iff)
  have T1: "fdtab ?s u = fdtab s u" for u by (rule fun_cong [OF T])
  have k1: "kern_refs R ?s" using k T by (simp add: kern_refs_def)
  show thesis
  proof (cases "fdtab s c i")
    case None
    then have "inherit_slot d c i s = Some ?s" using T1 by (simp add: inherit_slot_def Let_def)
    then show thesis using k1 by (rule that) (use T e None in \<open>simp_all add: fun_upd_idem\<close>)
  next
    case (Some f)
    obtain x where x: "files ?s f = Some x" by (rule slot_file [of R ?s c i f, OF k1]) (use Some T1 i in simp_all)
    have ks: "refs_ok R ?s" "slots_ok R (files ?s) (fdtab ?s)" using k1 by (auto simp: kern_refs_def)
    obtain s' where s': "file_ref f (set_slot d i (Some f) ?s) = Some s'" "kern_refs (R(f := Suc (R f))) s'"
      "fdtab s' = (fdtab ?s)(d := (fdtab ?s d)(i := Some f))" "g_current s' = g_current ?s" "files s' = refile (files ?s) f (Suc (R f))"
      by (rule ref_slot_step [OF ks(1) x i ks(2), of d]) (use e T1 in auto)
    have "inherit_slot d c i s = Some s'" using s'(1) Some T1 by (simp add: inherit_slot_def Let_def)
    then show thesis using s'(2) by (rule that) (use s'(3,4) T T1 Some in simp_all)
  qed
qed

lemma inherit_each:
  assumes "kern_refs R s" "\<forall>i \<in> set is. i < VFS_MAX_FDS \<and> fdtab s d i = None" "d \<noteq> c" "distinct is"
  shows "\<exists>R' s'. each (inherit_slot d c) is s = Some s' \<and> kern_refs R' s' \<and> g_current s' = g_current s \<and>
     (\<forall>u j. fdtab s' u j = (if u = d \<and> j \<in> set is then fdtab s c j else fdtab s u j))"
  using assms
proof (induction "is" arbitrary: R s)
  case (Cons i ls)
  obtain R1 s1 where s1: "inherit_slot d c i s = Some s1" "kern_refs R1 s1" "fdtab s1 = (fdtab s)(d := (fdtab s d)(i := fdtab s c i))"
    "g_current s1 = g_current s"
    by (rule inherit_slot_step [of R s i d c]) (use Cons.prems in auto)
  have T: "fdtab s1 u = ((fdtab s)(d := (fdtab s d)(i := fdtab s c i))) u" for u by (rule fun_cong [OF s1(3)])
  have "\<forall>j \<in> set ls. j < VFS_MAX_FDS \<and> fdtab s1 d j = None" using Cons.prems T by auto
  then have "\<exists>R' s'. each (inherit_slot d c) ls s1 = Some s' \<and> kern_refs R' s' \<and> g_current s' = g_current s1 \<and>
     (\<forall>u j. fdtab s' u j = (if u = d \<and> j \<in> set ls then fdtab s1 c j else fdtab s1 u j))"
    using Cons.IH [OF s1(2)] Cons.prems(3,4) by simp
  then obtain R' s' where s': "each (inherit_slot d c) ls s1 = Some s'" "kern_refs R' s'" "g_current s' = g_current s1"
    "\<forall>u j. fdtab s' u j = (if u = d \<and> j \<in> set ls then fdtab s1 c j else fdtab s1 u j)" by blast
  have "fdtab s' u j = (if u = d \<and> j \<in> set (i # ls) then fdtab s c j else fdtab s u j)" for u j
    using s'(4) T [of u] T [of c] Cons.prems(3) by auto
  then show ?case using s' s1(1,4) by (intro exI [of _ R'] exI [of _ s']) simp
qed auto

section \<open>Open\<close>

lemma dev_open_simps [simp]:
  fixes s :: "('d, 'a) kern_scheme"
  shows "usk_ok (dev_open n s) = usk_ok s" "nodes (dev_open n s) = nodes s" "files (dev_open n s) = files s"
    "pipes (dev_open n s) = pipes s" "socks (dev_open n s) = socks s" "next_addr (dev_open n s) = next_addr s"
    "g_tasks (dev_open n s) = g_tasks s" "g_current (dev_open n s) = g_current s"
  by (simp_all add: dev_open_def split: option.split)

lemma slots_ok_new:
  assumes "slots_ok R F T" "F f = None" "R f = 0" "f_node x \<noteq> None"
  shows "slots_ok (R(f := 1)) (F(f \<mapsto> x)) T"
proof -
  have "card (slots T f) = 0" using assms(1,3) unfolding slots_ok_def by (metis le_zero_eq)
  then show ?thesis using assms unfolding slots_ok_def by auto
qed

lemma slots_ok_new_at:
  assumes ok: "slots_ok R F T" and "F f = None" "R f = 0" and i: "i < VFS_MAX_FDS" "T t i = None"
  shows "slots_ok (R(f := 1)) (F(f \<mapsto> x)) (T(t := (T t)(i := Some f)))"
  by (rule slots_ok_move [OF ok i]) (use assms in auto)

lemma fd_alloc_cases:
  fixes s :: "('d, 'a) kern_scheme"
  assumes "g_current s = Some t"
  obtains i where "fd_alloc f s = (int i, set_slot t i (Some f) s)" "3 \<le> i" "i < VFS_MAX_FDS" "fdtab s t i = None"
     "\<And>j. 3 \<le> j \<Longrightarrow> j < i \<Longrightarrow> fdtab s t j \<noteq> None"
  | "fd_alloc f s = (- ENOMEM, s)" "\<And>j. 3 \<le> j \<Longrightarrow> j < VFS_MAX_FDS \<Longrightarrow> fdtab s t j \<noteq> None"
proof -
  have ft: "fd_table s = Some (fdtab s t)" using assms by (simp add: fd_table_def sched_current_def)
  show thesis
  proof (cases "scan (\<lambda>i. fdtab s t i = None) 3 VFS_MAX_FDS")
    case None
    then have "fd_alloc f s = (- ENOMEM, s)" using ft by (simp add: fd_alloc_def)
    then show thesis using that(2) None by (simp add: scan_None_iff)
  next
    case (Some i)
    then have "fd_alloc f s = (int i, set_slot t i (Some f) s)" using ft assms by (simp add: fd_alloc_def set_fd_slot)
    then show thesis using that(1) [of i] Some by (simp add: scan_Some_iff)
  qed
qed

lemma open_node_step:
  fixes s :: "('d, 'a) kern_scheme"
  assumes k: "kern_refs R s" and n: "nodes s a = Some n" and t: "g_current s = Some t"
  obtains (oom) "open_node s a pos flags hook = Some (- ENOMEM, s\<lparr>next_addr := Suc (next_addr s)\<rparr>)"
      "kern_refs R (s\<lparr>next_addr := Suc (next_addr s)\<rparr>)" "oom s (next_addr s)"
  | (full) s' where "open_node s a pos flags hook = Some (- ENOMEM, s')" "kern_refs (R(next_addr s := 1)) s'"
      "\<And>j. 3 \<le> j \<Longrightarrow> j < VFS_MAX_FDS \<Longrightarrow> fdtab s t j \<noteq> None" "fdtab s' = fdtab s" "g_current s' = g_current s"
  | (ok) i s' where "open_node s a pos flags hook = Some (int i, s')" "kern_refs (R(next_addr s := 1)) s'"
      "3 \<le> i" "i < VFS_MAX_FDS" "fdtab s t i = None" "fdtab s' = (fdtab s)(t := (fdtab s t)(i := Some (next_addr s)))"
      "files s' = (files s)(next_addr s \<mapsto> blank_file\<lparr>f_node := Some a, f_pos := pos, f_flags := flags\<rparr>)"
      "g_current s' = g_current s" "nodes s' = (nodes s)(a \<mapsto> n\<lparr>nd_open_refs := nd_open_refs n + 1\<rparr>)"
proof -
  note o = refs_okD [of R s] and nx = kern_refs_next [OF k, of "Suc (next_addr s)"]
  have r: "refs_ok R s" and sl: "slots_ok R (files s) (fdtab s)" using k by (auto simp: kern_refs_def)
  note o = refs_okD [OF r]
  let ?f = "next_addr s" and ?x = "blank_file\<lparr>f_node := Some a, f_pos := pos, f_flags := flags\<rparr>"
    and ?n = "n\<lparr>nd_open_refs := nd_open_refs n + 1\<rparr>"
  have fresh: "files s ?f = None" using file_refs_fresh [OF o(2)] by simp
  then have R0: "R ?f = 0" using o(2) by (simp add: file_refs_def)
  show thesis
  proof (cases "oom s ?f")
    case True
    then show thesis using oom nx by (simp add: open_node_def alloc_file_def kmalloc_def)
  next
    case False
    let ?s1 = "s\<lparr>next_addr := Suc ?f, files := (files s)(?f \<mapsto> ?x)\<rparr>"
    let ?s2 = "?s1\<lparr>nodes := (nodes s)(a \<mapsto> ?n)\<rparr>"
    let ?s3 = "if hook then dev_open n ?s2 else ?s2"
    have v: "vfs_ok ?s1" "socks_ok (socks s) (Suc ?f)"
      using vfs_ok_next [of s] socks_ok_next o(1) by (auto simp: usk_ok_def vfs_ok_def)
    have "usk_ok ?s2" using vfs_ok_shape(1) [OF v(1), of a n ?n] n v(2) by (simp add: same_shape_def usk_ok_def)
    moreover have "file_refs (R(?f := 1)) ((files s)(?f \<mapsto> ?x)) (Suc ?f)"
      by (rule file_refs_new [OF o(2) order_refl]) (simp_all add: blank_file_def kind_ok_def)
    moreover have "node_refs ((files s)(?f \<mapsto> ?x)) ((nodes s)(a \<mapsto> ?n))"
      by (rule node_refs_open [OF o(2) order_refl o(3) _ n]) simp
    moreover have "pipe_refs (R(?f := 1)) ((files s)(?f \<mapsto> ?x)) (pipes s) (Suc ?f)"
      by (rule pipe_refs_new [OF o(2) order_refl o(4)]) (simp add: blank_file_def)
    moreover have "sock_refs (R(?f := 1)) ((files s)(?f \<mapsto> ?x)) (socks s)"
      by (rule sock_refs_new [OF o(2) order_refl o(5)]) (simp add: blank_file_def)
    ultimately have r3: "refs_ok (R(?f := 1)) ?s3" by (simp add: refs_ok_def)
    have T: "g_tasks ?s3 = g_tasks s" "g_current ?s3 = g_current s" "files ?s3 = (files s)(?f \<mapsto> ?x)" "nodes ?s3 = nodes ?s2" by simp_all
    have def: "open_node s a pos flags hook = Some (fd_alloc ?f ?s3)"
      using n False by (simp add: open_node_def alloc_file_def kmalloc_def Let_def)
    have t3: "g_current ?s3 = Some t" using t T by simp
    show thesis
    proof (cases rule: fd_alloc_cases [of ?s3 t ?f, OF t3, case_names found full])
      case (found i)
      let ?s4 = "set_slot t i (Some ?f) ?s3"
      have i: "fdtab s t i = None" using found(4) T by simp
      have T4: "fdtab ?s4 = (fdtab s)(t := (fdtab s t)(i := Some ?f))" using T by simp
      have "slots_ok (R(?f := 1)) (files ?s4) (fdtab ?s4)"
        unfolding T4 using slots_ok_new_at [OF sl fresh R0 found(3) i] T by simp
      then have "kern_refs (R(?f := 1)) ?s4" using r3 by (simp add: kern_refs_def)
      moreover have "nodes ?s4 = nodes ?s2" using T by (simp add: set_slot_def)
      moreover have "files ?s4 = (files s)(?f \<mapsto> ?x)" "g_current ?s4 = g_current s" using T by simp_all
      ultimately show thesis using ok [of i ?s4] def found i T4 by simp
    next
      case f: full
      have "kern_refs (R(?f := 1)) ?s3" using r3 slots_ok_new [OF sl fresh R0, of ?x] T by (simp add: kern_refs_def)
      then show thesis using full [of ?s3] def f T by simp
    qed
  qed
qed

section \<open>Pipes\<close>

lemma pipe_refs_fresh: "pipe_refs R F P nx \<Longrightarrow> nx \<le> p \<Longrightarrow> P p = None"
  using pipe_refsD(1) by (cases "P p") (auto simp: not_less [symmetric])

abbreviation rend :: "addr \<Rightarrow> vfs_file" where
  "rend p \<equiv> blank_file\<lparr>f_pipe := Some p, f_flags := O_RDONLY\<rparr>"

abbreviation wend :: "addr \<Rightarrow> vfs_file" where
  "wend p \<equiv> blank_file\<lparr>f_pipe := Some p, f_flags := O_WRONLY\<rparr>"

lemma pipe_ends: "wr_end (wend p)" "\<not> wr_end (rend p)"
  by (simp_all add: wr_end_def blank_file_def)

text \<open>Both ends of a new pipe, as files with one reference each.\<close>

lemma refs_ok_pipe:
  fixes s :: "('d, 'a) kern_scheme"
  assumes r: "refs_ok R s" and p: "p = next_addr s"
  shows "refs_ok (R(Suc p := 1, Suc (Suc p) := 1))
     (s\<lparr>next_addr := Suc (Suc (Suc p)), pipes := (pipes s)(p \<mapsto> new_pipe),
        files := (files s)(Suc p \<mapsto> rend p, Suc (Suc p) \<mapsto> wend p)\<rparr>)"
proof -
  note o = refs_okD [OF r, folded p]
  let ?F1 = "(files s)(Suc p \<mapsto> rend p)" and ?R1 = "R(Suc p := 1)"
  let ?F2 = "?F1(Suc (Suc p) \<mapsto> wend p)" and ?R2 = "?R1(Suc (Suc p) := 1)"
  have f1: "file_refs ?R1 ?F1 (Suc (Suc p))" by (rule file_refs_new [OF o(2)]) (simp_all add: blank_file_def kind_ok_def)
  have f2: "file_refs ?R2 ?F2 (Suc (Suc (Suc p)))" by (rule file_refs_new [OF f1]) (simp_all add: blank_file_def kind_ok_def)
  have n1: "node_refs ?F1 (nodes s)" by (rule node_refs_new [OF o(2) _ o(3)]) (simp_all add: blank_file_def)
  have n2: "node_refs ?F2 (nodes s)" by (rule node_refs_new [OF f1 _ n1]) (simp_all add: blank_file_def)
  have s1: "sock_refs ?R1 ?F1 (socks s)" by (rule sock_refs_new [OF o(2) _ o(5)]) (simp_all add: blank_file_def)
  have s2: "sock_refs ?R2 ?F2 (socks s)" by (rule sock_refs_new [OF f1 _ s1]) (simp_all add: blank_file_def)
  have c: "refs_on ?R2 ?F2 (on_pipe q w) = (if q = p then 1 else 0) + refs_on R (files s) (on_pipe q w)" for q w
  proof -
    have e1: "refs_on ?R1 ?F1 (on_pipe q w) = (if on_pipe q w (rend p) then 1 else 0) + refs_on R (files s) (on_pipe q w)"
      by (rule refs_on_new(1)) (use o(7) file_refs_fresh [OF o(2)] in simp_all)
    have e2: "refs_on ?R2 ?F2 (on_pipe q w) = (if on_pipe q w (wend p) then 1 else 0) + refs_on ?R1 ?F1 (on_pipe q w)"
      by (rule refs_on_new(1)) (use file_refs_finite [OF f1] file_refs_fresh [OF f1] in simp_all)
    show ?thesis using e1 e2 pipe_ends [of p] by (cases w) (auto simp: on_pipe_def)
  qed
  have fresh: "pipes s p = None" by (rule pipe_refs_fresh [OF o(4) order_refl])
  have "pipe_refs ?R2 ?F2 ((pipes s)(p \<mapsto> new_pipe)) (Suc (Suc (Suc p)))"
    unfolding pipe_refs_def
  proof
    fix q
    show "case ((pipes s)(p \<mapsto> new_pipe)) q of None \<Rightarrow> \<forall>w. refs_on ?R2 ?F2 (on_pipe q w) = 0
      | Some z \<Rightarrow> q < Suc (Suc (Suc p)) \<and> pipe_ok z \<and> p_refs_r z = int (refs_on ?R2 ?F2 (on_pipe q False)) \<and>
          p_refs_w z = int (refs_on ?R2 ?F2 (on_pipe q True)) \<and> (p_refs_r z > 0 \<or> p_refs_w z > 0)"
    proof (cases "q = p")
      case True
      then show ?thesis using c [of p] pipe_refs_none [OF o(4) fresh] by (simp add: new_pipe_def ring_ok_def)
    next
      case False
      then show ?thesis using o(4) [unfolded pipe_refs_def, THEN spec, of q] c [of q] by (cases "pipes s q") auto
    qed
  qed
  moreover have "usk_ok (s\<lparr>next_addr := Suc (Suc (Suc p))\<rparr>)"
    using o(1) p unfolding usk_ok_def vfs_ok_def heap_inv_def socks_ok_def by (auto simp: less_Suc_eq)
  then have "usk_ok (s\<lparr>next_addr := Suc (Suc (Suc p)), pipes := (pipes s)(p \<mapsto> new_pipe), files := ?F2\<rparr>)"
    by (simp add: usk_ok_def vfs_ok_def)
  ultimately show ?thesis using f2 n2 s2 by (simp add: refs_ok_def)
qed

lemma set_slot_undo:
  fixes s :: "('d, 'a) kern_scheme"
  assumes "fdtab s t i = None"
  shows "set_slot t i None (set_slot t i v s) = s"
proof -
  have "(t_fds (g_tasks s t))(i := None) = t_fds (g_tasks s t)" using assms by (simp add: fun_upd_idem)
  then show ?thesis by (simp add: set_slot_def fun_upd_idem)
qed

lemma drop_pipe:
  fixes s u :: "('d, 'a) kern_scheme"
  assumes "pipes s p = None" "files s (Suc p) = None" "files s (Suc (Suc p)) = None" "r \<in> {None, Some (Suc p)}" "w \<in> {None, Some (Suc (Suc p))}"
    and u: "u = s\<lparr>next_addr := m, pipes := (pipes s)(p \<mapsto> new_pipe),
      files := (\<lambda>f. if Some f = w then Some y else if Some f = r then Some x else files s f)\<rparr>"
  shows "(let v = free_file w (free_file r u) in v\<lparr>pipes := (pipes v)(p := None)\<rparr>) = s\<lparr>next_addr := m\<rparr>"
proof -
  have "(\<lambda>f. if Some f = w then None else if Some f = r then None else files u f) = files s"
    using assms by (auto simp: fun_eq_iff)
  moreover have "free_file w (free_file r u) = u\<lparr>files := (\<lambda>f. if Some f = w then None else if Some f = r then None else files u f)\<rparr>"
    by (cases r; cases w) (auto simp: free_file_def fun_upd_def fun_eq_iff)
  moreover have "((pipes s)(p \<mapsto> new_pipe))(p := None) = pipes s" using assms(1) by (simp add: fun_upd_idem)
  ultimately show ?thesis using u by (simp add: Let_def)
qed

lemma next_addr_upd:
  fixes s :: "('d, 'a) kern_scheme"
  shows "s\<lparr>files := F, next_addr := n\<rparr> = s\<lparr>next_addr := n, files := F\<rparr>" "s\<lparr>pipes := P, next_addr := n\<rparr> = s\<lparr>next_addr := n, pipes := P\<rparr>"
  by simp_all

lemma pipe_open_step:
  fixes s :: "('d, 'a) kern_scheme"
  assumes k: "kern_refs R s" and t: "g_current s = Some t"
  obtains (failed) m where "vfs_pipe_open s = (Inl (- ENOMEM), s\<lparr>next_addr := m\<rparr>)" "next_addr s \<le> m"
  | (opened) i j s' where "vfs_pipe_open s = (Inr (int i, int j), s')" "3 \<le> i" "i < j" "j < VFS_MAX_FDS"
      "kern_refs (R(Suc (next_addr s) := 1, Suc (Suc (next_addr s)) := 1)) s'"
      "fdtab s' = (fdtab s)(t := (fdtab s t)(i \<mapsto> Suc (next_addr s), j \<mapsto> Suc (Suc (next_addr s))))"
      "files s' = (files s)(Suc (next_addr s) \<mapsto> rend (next_addr s), Suc (Suc (next_addr s)) \<mapsto> wend (next_addr s))"
      "pipes s' = (pipes s)(next_addr s \<mapsto> new_pipe)" "g_current s' = Some t" "fdtab s t i = None" "fdtab s t j = None"
proof -
  have r: "refs_ok R s" and sl: "slots_ok R (files s) (fdtab s)" using k by (auto simp: kern_refs_def)
  note o = refs_okD [OF r]
  let ?p = "next_addr s"
  let ?f = "Suc ?p" and ?g = "Suc (Suc ?p)" and ?m = "Suc (Suc (Suc ?p))"
  have ft: "fd_table s \<noteq> None" using t by (simp add: fd_table_def sched_current_def)
  have fresh: "pipes s ?p = None" "files s ?f = None" "files s ?g = None"
    using pipe_refs_fresh [OF o(4)] file_refs_fresh [OF o(2)] by simp_all
  show thesis
  proof (cases "oom s ?p")
    case True
    then show thesis using failed [of "Suc ?p"] ft by (simp add: vfs_pipe_open_def kmalloc_def)
  next
    case np: False
    show thesis
    proof (cases "oom s ?f \<or> oom s ?g")
      case True
      let ?r = "if oom s ?f then None else Some ?f" and ?w = "if oom s ?g then None else Some ?g"
      let ?u = "s\<lparr>next_addr := ?m, pipes := (pipes s)(?p \<mapsto> new_pipe),
        files := (\<lambda>f. if Some f = ?w then Some (wend ?p) else if Some f = ?r then Some (rend ?p) else files s f)\<rparr>"
      have "vfs_pipe_open s = (Inl (- ENOMEM), let v = free_file ?w (free_file ?r ?u) in v\<lparr>pipes := (pipes v)(?p := None)\<rparr>)"
        using np ft True by (cases "oom s ?f"; cases "oom s ?g")
          (auto simp: vfs_pipe_open_def kmalloc_def alloc_file_def Let_def fun_upd_def next_addr_upd cong: if_cong)
      also have "(let v = free_file ?w (free_file ?r ?u) in v\<lparr>pipes := (pipes v)(?p := None)\<rparr>) = s\<lparr>next_addr := ?m\<rparr>"
        by (rule drop_pipe [where s = s and u = ?u and m = ?m and x = "rend ?p" and y = "wend ?p"]) (use fresh in auto)
      finally show thesis using failed [of ?m] by simp
    next
      case nf: False
      let ?s4 = "s\<lparr>next_addr := ?m, pipes := (pipes s)(?p \<mapsto> new_pipe), files := (files s)(?f \<mapsto> rend ?p, ?g \<mapsto> wend ?p)\<rparr>"
      have def: "vfs_pipe_open s =
          (let (a, s5) = fd_alloc ?f ?s4; (b, s6) = fd_alloc ?g s5
           in if a < 0 \<or> b < 0 then
                (let s7 = (if a \<ge> 0 then set_fd (nat a) None s6 else s6); s8 = (if b \<ge> 0 then set_fd (nat b) None s7 else s7)
                 in (Inl (- ENOMEM), let v = free_file (Some ?g) (free_file (Some ?f) s8) in v\<lparr>pipes := (pipes v)(?p := None)\<rparr>))
              else (Inr (a, b), s6))"
        unfolding vfs_pipe_open_def Let_def using np nf ft by (auto simp: kmalloc_def alloc_file_def next_addr_upd)
      have dropped: "(let v = free_file (Some ?g) (free_file (Some ?f) ?s4) in v\<lparr>pipes := (pipes v)(?p := None)\<rparr>) = s\<lparr>next_addr := ?m\<rparr>"
        by (rule drop_pipe [where s = s and u = ?s4 and m = ?m and x = "rend ?p" and y = "wend ?p"]) (use fresh in \<open>auto simp: fun_upd_def cong: if_cong\<close>)
      have t4: "g_current ?s4 = Some t" using t by simp
      show thesis
      proof (cases rule: fd_alloc_cases [of ?s4 t ?f, OF t4, case_names found full])
        case full
        have "fd_alloc ?g ?s4 = (- ENOMEM, ?s4)"
        proof (cases rule: fd_alloc_cases [of ?s4 t ?g, OF t4, case_names found full])
          case (found i)
          then show ?thesis using full(2) [of i] by simp
        qed
        then show thesis using failed [of ?m] def full(1) dropped by simp
      next
        case (found i)
        let ?s5 = "set_slot t i (Some ?f) ?s4"
        have t5: "g_current ?s5 = Some t" using t by simp
        show thesis
        proof (cases rule: fd_alloc_cases [of ?s5 t ?g, OF t5, case_names found full])
          case full
          have "set_fd i None ?s5 = ?s4" using set_slot_undo [of ?s4 t i "Some ?f"] found(4) set_fd_slot [OF t5] by simp
          then show thesis using failed [of ?m] def found(1) full(1) dropped by simp
        next
          case f2: (found j)
          let ?s6 = "set_slot t j (Some ?g) ?s5"
          have j: "j \<noteq> i" "fdtab s t j = None" using f2(4) by (auto simp: fdtab_set_slot split: if_splits)
          have ij: "i < j" using f2(2) found(5) [of j] j by (cases "j < i") auto
          have i: "fdtab s t i = None" "fdtab s t j = None" using found(4) j by auto
          let ?R = "R(?f := 1, ?g := 1)" and ?F = "(files s)(?f \<mapsto> rend ?p, ?g \<mapsto> wend ?p)"
          let ?T1 = "(fdtab s)(t := (fdtab s t)(i \<mapsto> ?f))"
          have R0: "R ?f = 0" "R ?g = 0" using fresh o(2) by (auto simp: file_refs_def)
          have sl1: "slots_ok (R(?f := 1)) ((files s)(?f \<mapsto> rend ?p)) ?T1"
            by (rule slots_ok_new_at [OF sl fresh(2) R0(1) found(3) i(1)])
          have sl2: "slots_ok ?R ?F (?T1(t := (?T1 t)(j \<mapsto> ?g)))"
            by (rule slots_ok_new_at [OF sl1]) (use fresh R0 f2(3) i(2) ij in simp_all)
          have T: "fdtab ?s6 = ?T1(t := (?T1 t)(j \<mapsto> ?g))" by (intro ext) (simp add: fdtab_set_slot)
          have "refs_ok ?R ?s6" using refs_ok_pipe [OF r refl] by simp
          then have "kern_refs ?R ?s6" unfolding kern_refs_def T using sl2 by simp
          moreover have "pipes ?s6 = (pipes s)(?p \<mapsto> new_pipe)" by (simp add: set_slot_def)
          ultimately show thesis using opened [of i j ?s6] def found f2 ij i t T by simp
        qed
      qed
    qed
  qed
qed

section \<open>The tree under open files\<close>

lemma node_refs_same:
  assumes "node_refs F h" "\<And>b. (case h' b of None \<Rightarrow> 0 | Some n \<Rightarrow> nd_open_refs n) = (case h b of None \<Rightarrow> 0 | Some n \<Rightarrow> nd_open_refs n)"
  shows "node_refs F h'"
  using assms by (simp add: node_refs_def)

lemma opens_body:
  "map_option body a = map_option body b \<Longrightarrow>
   (case a of None \<Rightarrow> 0 | Some n \<Rightarrow> nd_open_refs n) = (case b of None \<Rightarrow> 0 | Some n \<Rightarrow> nd_open_refs n)"
  by (cases a; cases b) (auto dest: body_eqD(4))

lemma kern_refs_nodes:
  fixes s :: "('d, 'a) kern_scheme"
  assumes k: "kern_refs R s" and v: "vfs_ok s'" and e: "s' = s\<lparr>nodes := h, next_addr := m, wfs := w\<rparr>" and m: "next_addr s \<le> m"
    and n: "\<And>b. (case h b of None \<Rightarrow> 0 | Some n \<Rightarrow> nd_open_refs n) = (case nodes s b of None \<Rightarrow> 0 | Some n \<Rightarrow> nd_open_refs n)"
  shows "kern_refs R s'"
proof -
  have k1: "kern_refs R (s\<lparr>next_addr := m\<rparr>)" by (rule kern_refs_next [OF k m])
  then have "usk_ok s'" using v e by (simp add: kern_refs_def refs_ok_def usk_ok_def)
  then show ?thesis using k1 e node_refs_same [of "files s" "nodes s" h] n by (simp add: kern_refs_def refs_ok_def)
qed

lemma kern_upd_node:
  fixes s :: "('d, 'a) kern_scheme"
  assumes k: "kern_refs R s" and n: "nodes s a = Some n" and sh: "same_shape n m" "nd_unlinked m = nd_unlinked n" "nd_open_refs m = nd_open_refs n"
  shows "kern_refs R (s\<lparr>nodes := (nodes s)(a \<mapsto> m), wfs := w\<rparr>)"
proof (rule kern_refs_nodes [OF k])
  have v: "vfs_ok s" using k by (simp add: kern_refs_def refs_ok_def usk_ok_def)
  show "vfs_ok (s\<lparr>nodes := (nodes s)(a \<mapsto> m), wfs := w\<rparr>)" using vfs_ok_shape(1) [OF v n sh(1,2)] by simp
  show "s\<lparr>nodes := (nodes s)(a \<mapsto> m), wfs := w\<rparr> = s\<lparr>nodes := (nodes s)(a \<mapsto> m), next_addr := next_addr s, wfs := w\<rparr>" by simp
  fix b show "(case ((nodes s)(a \<mapsto> m)) b of None \<Rightarrow> 0 | Some n \<Rightarrow> nd_open_refs n) = (case nodes s b of None \<Rightarrow> 0 | Some n \<Rightarrow> nd_open_refs n)"
    using n sh(3) by simp
qed simp

text \<open>What an unlink leaves of an open node: everything but its place in the tree.\<close>

definition kept :: "vfs_node \<Rightarrow> vfs_node \<Rightarrow> bool" where
  "kept n m \<longleftrightarrow> m = n\<lparr>nd_sibling := nd_sibling m, nd_child := nd_child m, nd_unlinked := nd_unlinked m\<rparr>"

lemma unlink_kern:
  fixes s :: "('d, 'a) kern_scheme"
  assumes k: "kern_refs R s"
  shows "\<exists>r s'. vfs_unlink s (Some path) = Some (r, s') \<and> kern_refs R s' \<and> g_current s' = g_current s \<and> fdtab s' = fdtab s \<and>
     files s' = files s \<and> (\<forall>b n. nodes s b = Some n \<longrightarrow> nd_open_refs n > 0 \<longrightarrow> (\<exists>m. nodes s' b = Some m \<and> kept n m))"
proof -
  have kept1: "kept n m" if "body m = body n" for n m using that by (cases n; cases m) (simp add: kept_def body_def)
  have kept2: "kept n m" if "body m = body (n\<lparr>nd_unlinked := True\<rparr>)" for n m using that by (cases n; cases m) (simp add: kept_def body_def)
  have ok: "vfs_ok s" and nr: "node_refs (files s) (nodes s)" using k by (simp_all add: kern_refs_def refs_ok_def usk_ok_def)
  have "\<exists>r s'. vfs_remove s path = Some (r, s') \<and> kern_refs R s' \<and> g_current s' = g_current s \<and> fdtab s' = fdtab s \<and>
     files s' = files s \<and> (\<forall>b n. nodes s b = Some n \<longrightarrow> nd_open_refs n > 0 \<longrightarrow> (\<exists>m. nodes s' b = Some m \<and> kept n m))"
  proof (cases "remove_target s path")
    case None
    then show ?thesis using vfs_remove_missing [OF ok] k kept1 by auto
  next
    case (Some q)
    obtain p name v where q: "q = (p, name, v)" by (metis prod_cases3)
    show ?thesis
    proof (cases "empty_node (dirmap (nodes s)) v")
      case False
      then show ?thesis using vfs_remove_nonempty [OF ok] k Some q kept1 by auto
    next
      case True
      obtain dir m where sp: "path_split path 256 VFS_NAME_MAX = Some (dir, name)" "abs_lookup s dir = Some p"
        and m: "dirmap (nodes s) p = Some m" "m name = Some v" using Some q by (auto elim: remove_targetE)
      obtain r kids where "tree (nodes s) r kids" using ok by (elim vfs_okE)
      then obtain n where n: "nodes s v = Some n" by (rule dirmap_kid [OF _ m])
      obtain s' where s': "vfs_remove s path = Some (0, s')" "vfs_ok s'" "dirmap (nodes s') = removed s p name v n"
        "\<And>b. b \<noteq> v \<Longrightarrow> map_option body (nodes s' b) = map_option body (nodes s b)"
        "map_option body (nodes s' v) = (if nd_open_refs n > 0 then Some (body (n\<lparr>nd_unlinked := True\<rparr>)) else None)"
        "s' = s\<lparr>nodes := nodes s', wfs := wfs s'\<rparr>"
        by (rule vfs_remove_step [OF ok sp m True n]) metis
      have o: "(case nodes s' b of None \<Rightarrow> 0 | Some n \<Rightarrow> nd_open_refs n) = (case nodes s b of None \<Rightarrow> 0 | Some n \<Rightarrow> nd_open_refs n)" for b
      proof (cases "b = v")
        case True
        have "nd_open_refs n \<ge> 0" using node_refs_some [OF nr n] by simp
        then show ?thesis using s'(5) n True by (cases "nodes s' v") (auto dest: body_eqD(4) split: if_splits)
      qed (use s'(4) [of b] opens_body in blast)
      obtain h w where e: "s' = s\<lparr>nodes := h, wfs := w\<rparr>" using s'(6) by blast
      have "kern_refs R s'" by (rule kern_refs_nodes [OF k s'(2), where h = h and m = "next_addr s" and w = w]) (use e o in auto)
      moreover have "\<exists>m. nodes s' b = Some m \<and> kept l m" if b: "nodes s b = Some l" "nd_open_refs l > 0" for b l
      proof (cases "b = v")
        case True
        then obtain m where "nodes s' b = Some m" "body m = body (n\<lparr>nd_unlinked := True\<rparr>)" using s'(5) b n by (cases "nodes s' v") auto
        then show ?thesis using kept2 True b n by auto
      next
        case False
        then obtain m where "nodes s' b = Some m" "body m = body l" using s'(4) [OF False] b by (cases "nodes s' b") auto
        then show ?thesis using kept1 by blast
      qed
      moreover have "g_current s' = g_current s" "fdtab s' = fdtab s" "files s' = files s" using e by simp_all
      ultimately show ?thesis using s'(1) by blast
    qed
  qed
  then obtain r s' where s': "vfs_remove s path = Some (r, s')" "kern_refs R s'" "g_current s' = g_current s" "fdtab s' = fdtab s" "files s' = files s"
    "\<forall>b n. nodes s b = Some n \<longrightarrow> nd_open_refs n > 0 \<longrightarrow> (\<exists>m. nodes s' b = Some m \<and> kept n m)" by blast
  obtain b where "parent_writable s path = Some b" using parent_writable_total [OF ok] by blast
  then show ?thesis using s' k kept1 by (cases "abs_lookup s path"; cases b) (auto simp: vfs_unlink_def vfs_lookup_eq [OF ok])
qed

lemma create_file_kern:
  fixes s :: "('d, 'a) kern_scheme"
  assumes k: "kern_refs R s"
  shows "\<exists>c s1. vfs_create_file s path = Some (c, s1) \<and> kern_refs R s1 \<and> g_current s1 = g_current s \<and> g_tasks s1 = g_tasks s \<and>
     files s1 = files s \<and> (\<forall>a. c = Some a \<longrightarrow> (\<exists>n. nodes s1 a = Some n))"
proof -
  have ok: "vfs_ok s" using k by (simp add: kern_refs_def refs_ok_def usk_ok_def)
  show ?thesis
  proof (cases "abs_slot s path")
    case None
    then show ?thesis using k by (simp add: vfs_create_file_def create_persistent_def create_slot_eq [OF ok])
  next
    case (Some q)
    obtain p name where q: "q = (p, name)" by fastforce
    have sl: "abs_slot s path = Some (p, name)" using Some q by simp
    show ?thesis
    proof (cases "oom s (next_addr s)")
      case True
      then show ?thesis using kern_refs_next [OF k, of "Suc (next_addr s)"] sl
        by (simp add: vfs_create_file_def create_persistent_def create_slot_eq [OF ok] new_node_oom)
    next
      case False
      let ?a = "next_addr s"
      have fn: "nd_name (file_node s name) = name" "nd_child (file_node s name) = None" "\<not> nd_unlinked (file_node s name)" "nd_open_refs (file_node s name) = 0"
        by (simp_all add: file_node_def zero_node_def split: prod.splits)
      obtain s' n' where s': "create_persistent s path file_node = Some (Some ?a, s')" "vfs_ok s'" "nodes s ?a = None"
        "nodes s' ?a = Some n'" "body n' = body ((file_node s name)\<lparr>nd_parent := Some p, nd_wrf_ino := nd_wrf_ino n'\<rparr>)"
        "\<And>b. b \<noteq> ?a \<Longrightarrow> map_option body (nodes s' b) = map_option body (nodes s b)"
        "s' = s\<lparr>nodes := nodes s', next_addr := Suc ?a, wfs := wfs s'\<rparr>"
        by (rule create_persistent_step [of s path p name file_node, OF ok sl False fn(1-3)]) metis
      have o: "(case nodes s' b of None \<Rightarrow> 0 | Some n \<Rightarrow> nd_open_refs n) = (case nodes s b of None \<Rightarrow> 0 | Some n \<Rightarrow> nd_open_refs n)" for b
        using s'(3-6) opens_body [of "nodes s' b" "nodes s b"] body_eqD(4) [OF s'(5)] fn(4) by (cases "b = ?a") auto
      obtain h w where e: "s' = s\<lparr>nodes := h, next_addr := Suc ?a, wfs := w\<rparr>" using s'(7) by blast
      have "kern_refs R s'" by (rule kern_refs_nodes [OF k s'(2), where h = h and m = "Suc ?a" and w = w]) (use e o in auto)
      then show ?thesis using s'(1,4) e by (auto simp: vfs_create_file_def)
    qed
  qed
qed

lemma open_target_kern:
  fixes s :: "('d, 'a) kern_scheme"
  assumes k: "kern_refs R s"
  shows "\<exists>r s1. open_target s path flags mode = Some (r, s1) \<and> kern_refs R s1 \<and> g_current s1 = g_current s \<and> g_tasks s1 = g_tasks s \<and>
     files s1 = files s \<and> (\<forall>a. r = Inr a \<longrightarrow> (\<exists>n. nodes s1 a = Some n))"
proof -
  have ok: "vfs_ok s" using k by (simp add: kern_refs_def refs_ok_def usk_ok_def)
  show ?thesis
  proof (cases "abs_lookup s path")
    case (Some a)
    obtain n where "nodes s a = Some n" by (rule abs_lookup_node [OF ok Some])
    then show ?thesis using k Some by (simp add: open_target_def vfs_lookup_eq [OF ok] Let_def)
  next
    case None
    obtain b where b: "parent_writable s path = Some b" using parent_writable_total [OF ok] by blast
    obtain c s1 where c: "vfs_create_file s path = Some (c, s1)" "kern_refs R s1" "g_current s1 = g_current s" "g_tasks s1 = g_tasks s"
      "files s1 = files s" "\<And>a. c = Some a \<Longrightarrow> \<exists>n. nodes s1 a = Some n" using create_file_kern [OF k, of path] by blast
    show ?thesis
    proof (cases "flags AND O_CREAT = 0 \<or> \<not> b \<or> c = None")
      case True
      then show ?thesis using k None b c by (auto simp: open_target_def vfs_lookup_eq [OF ok])
    next
      case False
      then obtain a where a: "c = Some a" by auto
      obtain n where n: "nodes s1 a = Some n" using c(6) [OF a] by blast
      let ?n = "n\<lparr>nd_mode := mode\<rparr>"
      have "kern_refs R (s1\<lparr>nodes := (nodes s1)(a \<mapsto> ?n), wfs := wfs s1\<rparr>)"
        by (rule kern_upd_node [OF c(2) n]) (simp_all add: same_shape_def)
      then show ?thesis using False None b c(1,3-5) a n
        by (simp add: open_target_def vfs_lookup_eq [OF ok] upd_vnode_def upd_node_def)
    qed
  qed
qed

lemma trunc_node_kern:
  fixes s :: "('d, 'a) kern_scheme"
  assumes k: "kern_refs R s" and n: "nodes s a = Some n"
  shows "\<exists>s1 m. trunc_node s a = Some s1 \<and> kern_refs R s1 \<and> g_current s1 = g_current s \<and> g_tasks s1 = g_tasks s \<and> files s1 = files s \<and> nodes s1 a = Some m"
proof (cases "nd_wrf_ino n = 0")
  case True
  have "kern_refs R (s\<lparr>nodes := (nodes s)(a \<mapsto> n\<lparr>nd_size := 0\<rparr>), wfs := wfs s\<rparr>)"
    by (rule kern_upd_node [OF k n]) (simp_all add: same_shape_def)
  then show ?thesis using n True by (simp add: trunc_node_def)
next
  case False
  obtain r m w where w: "wrf_truncate (wfs s) n 0 = (r, m, w)" by (metis prod_cases3)
  then have m: "same_shape n m" "nd_unlinked m = nd_unlinked n" "nd_open_refs m = nd_open_refs n"
    by (auto simp: wrf_truncate_def same_shape_def Let_def)
  have "kern_refs R (s\<lparr>nodes := (nodes s)(a \<mapsto> m), wfs := w\<rparr>)" by (rule kern_upd_node [OF k n m])
  then show ?thesis using n False w by (simp add: trunc_node_def)
qed

lemma open_mode_kern:
  fixes s :: "('d, 'a) kern_scheme"
  assumes k: "kern_refs R s" and t: "g_current s = Some t" and p: "path \<noteq> ''/dev/ptmx''"
  shows "\<exists>R' fd s'. vfs_open_mode s (Some path) flags mode = Some (fd, s') \<and> kern_refs R' s' \<and> g_current s' = Some t"
proof -
  obtain r s1 where s1: "open_target s path flags mode = Some (r, s1)" "kern_refs R s1" "g_current s1 = g_current s"
    "\<And>a. r = Inr a \<Longrightarrow> \<exists>n. nodes s1 a = Some n" using open_target_kern [OF k, of path flags mode] by blast
  show ?thesis
  proof (cases r)
    case (Inl e)
    then show ?thesis using s1 p t by (auto simp: vfs_open_mode_def)
  next
    case (Inr a)
    then obtain n where n: "nodes s1 a = Some n" using s1(4) by blast
    show ?thesis
    proof (cases "nd_type n = VFS_DIR \<and> flags AND (O_WRONLY OR O_RDWR) \<noteq> 0")
      case True
      then show ?thesis using s1 p t Inr n by (auto simp: vfs_open_mode_def)
    next
      case False
      obtain s2 m where s2: "(if nd_type n = VFS_FILE \<and> flags AND O_TRUNC \<noteq> 0 then trunc_node s1 a else Some s1) = Some s2"
        "kern_refs R s2" "g_current s2 = g_current s1" "nodes s2 a = Some m"
        using trunc_node_kern [OF s1(2) n] s1(2) n by (cases "nd_type n = VFS_FILE \<and> flags AND O_TRUNC \<noteq> 0") auto
      let ?pos = "if flags AND O_APPEND \<noteq> 0 then nd_size m else 0"
      have def: "vfs_open_mode s (Some path) flags mode = open_node s2 a ?pos flags True"
        using s1(1) p Inr n False s2(1,4) by (auto simp: vfs_open_mode_def)
      have t2: "g_current s2 = Some t" using s2(3) s1(3) t by simp
      show ?thesis
        by (cases rule: open_node_step [OF s2(2,4) t2, of ?pos flags True]) (use def t2 in auto)
    qed
  qed
qed

section \<open>A small kernel state\<close>

text \<open>Task 0 of \<open>demo\<close> with a pipe on descriptors 3 (read) and 4 (write) and \<^verbatim>\<open>/a/f\<close> open on descriptor 5; the
  file holds one byte. There are no devices.\<close>

definition no_ops :: "unit file_ops" where
  "no_ops = \<lparr>fo_read = None, fo_write = None, fo_ioctl = None, fo_poll = None, fo_close = None, fo_open = None\<rparr>"

definition no_ext :: "unit ext_ops" where
  "no_ext = \<lparr>in_unref = (\<lambda>_ d. d), in_poll = (\<lambda>_ _. 0), in_read = (\<lambda>_ _ d. Done (0, [], d)),
     in_write = (\<lambda>_ bs d. (WDone 0, d)), ptmx_alloc = (\<lambda>d. (None, d))\<rparr>"

definition demo_fheap :: heap where
  "demo_fheap = demo_heap(3 \<mapsto> (the (demo_heap 3))\<lparr>nd_open_refs := 1, nd_data := Some (\<lambda>_. 0x41), nd_size := 1, nd_capacity := 64\<rparr>)"

definition demo_files :: "addr \<Rightarrow> vfs_file option" where
  "demo_files = [5 \<mapsto> rend 4, 6 \<mapsto> wend 4, 7 \<mapsto> blank_file\<lparr>f_node := Some 3, f_flags := O_RDWR\<rparr>]"

definition demo_tasks :: "nat \<Rightarrow> task" where
  "demo_tasks = (\<lambda>_. demo_task)(0 := demo_task\<lparr>t_fds := [3 \<mapsto> 5, 4 \<mapsto> 6, 5 \<mapsto> 7]\<rparr>)"

definition demo_kern :: "unit kern" where
  "demo_kern = \<lparr>nodes = demo_fheap, g_root = Some 1, wfs = sample_vol, next_addr = 8, oom = (\<lambda>_. False),
     g_tasks = demo_tasks, g_current = Some 0, g_shell_session_uid = 0, g_shell_session_gid = 0, socks = Map.empty,
     files = demo_files, pipes = [4 \<mapsto> new_pipe], dev = (), dev_ops = (\<lambda>_. no_ops), ext = no_ext, heap_junk = (\<lambda>_. 0x5A)\<rparr>"

lemma demo_files_dom: "dom demo_files = {5, 6, 7}"
  by (auto simp: demo_files_def split: if_splits)

lemma demo_refs_on:
  "refs_on R demo_files Q =
     (if Q (rend 4) then R 5 else 0) + (if Q (wend 4) then R 6 else 0) + (if Q (blank_file\<lparr>f_node := Some 3, f_flags := O_RDWR\<rparr>) then R 7 else 0)"
  unfolding refs_on_def demo_files_dom by (simp add: demo_files_def)

lemma demo_slots: "slots (fdtab demo_kern) f = (if f = 5 then {(0, 3)} else if f = 6 then {(0, 4)} else if f = 7 then {(0, 5)} else {})"
  by (auto simp: slots_def demo_kern_def demo_tasks_def demo_task_def split: if_splits)

lemma demo_kern_refs: "kern_refs ((\<lambda>_. 0)(5 := 1, 6 := 1, 7 := 1)) demo_kern"
proof -
  let ?R = "(\<lambda>_. 0)(5 := 1, 6 := 1, 7 := 1) :: addr \<Rightarrow> nat"
  have "heap_inv demo_fheap 1 demo_kids 4"
    unfolding demo_fheap_def by (rule heap_inv_shape [OF demo_inv, of 3 "the (demo_heap 3)"]) (simp_all add: demo_heap_def same_shape_def)
  then have "heap_inv demo_fheap 1 demo_kids 8" by (auto simp: heap_inv_def)
  then have "usk_ok demo_kern" by (auto simp: usk_ok_def vfs_ok_def demo_kern_def socks_ok_def)
  moreover have "file_refs ?R demo_files 8" by (auto simp: file_refs_def demo_files_def blank_file_def kind_ok_def split: if_splits)
  moreover have "node_refs demo_files demo_fheap"
    by (auto simp: node_refs_def demo_refs_on on_node_def one_def demo_fheap_def demo_heap_def zero_node_def blank_file_def)
  moreover have "pipe_refs ?R demo_files [4 \<mapsto> new_pipe] 8"
    by (auto simp: pipe_refs_def demo_refs_on on_pipe_def wr_end_def new_pipe_def ring_ok_def blank_file_def)
  moreover have "sock_refs ?R demo_files Map.empty" by (simp add: sock_refs_def demo_refs_on on_sock_def blank_file_def)
  moreover have "slots_ok ?R demo_files (fdtab demo_kern)" unfolding slots_ok_def by (simp add: demo_slots)
  ultimately show ?thesis by (simp add: kern_refs_def refs_ok_def demo_kern_def)
qed

lemma demo_kern_ok: "kern_ok demo_kern"
  using demo_kern_refs by (auto simp: kern_ok_def)

section \<open>Sequences of operations\<close>

datatype fd_op = FOpen string u32 u32 | FClose int | FDupfd int int | FDup2 int int | FPipe | FUnlink string
  | FSwitch nat | FFork nat | FExit

text \<open>\<open>FSwitch\<close> is the scheduler choosing another task, \<open>FFork d\<close> the copy of the caller's table into the empty
  one of a new task \<open>d\<close>, \<open>FExit\<close> the end of the current task.\<close>

fun run_fd :: "fd_op \<Rightarrow> ('d, 'a) kern_scheme \<Rightarrow> ('d, 'a) kern_scheme option" where
  "run_fd (FOpen p fl md) s = map_option snd (vfs_open_mode s (Some p) fl md)"
| "run_fd (FClose fd) s = map_option snd (vfs_close s fd)"
| "run_fd (FDupfd fd m) s = map_option snd (vfs_fcntl_dupfd s fd m)"
| "run_fd (FDup2 a b) s = map_option snd (vfs_dup2 s a b)"
| "run_fd FPipe s = Some (snd (vfs_pipe_open s))"
| "run_fd (FUnlink p) s = map_option snd (vfs_unlink s (Some p))"
| "run_fd (FSwitch t) s = Some (s\<lparr>g_current := Some t\<rparr>)"
| "run_fd (FFork d) s =
     (case g_current s of
        None \<Rightarrow> Some s
      | Some c \<Rightarrow> if d \<noteq> c \<and> list_all (\<lambda>i. fdtab s d i = None) [0..<VFS_MAX_FDS] then vfs_fd_inherit d c s else Some s)"
| "run_fd FExit s = vfs_close_all s"

fun run_fds :: "fd_op list \<Rightarrow> ('d, 'a) kern_scheme \<Rightarrow> ('d, 'a) kern_scheme option" where
  "run_fds [] s = Some s"
| "run_fds (x # xs) s = do { s1 \<leftarrow> run_fd x s; run_fds xs s1 }"

fun no_ptmx :: "fd_op \<Rightarrow> bool" where
  "no_ptmx (FOpen p fl md) = (p \<noteq> ''/dev/ptmx'')"
| "no_ptmx _ = True"

lemma kern_ok_switch: "kern_refs R s \<Longrightarrow> kern_refs R (s\<lparr>g_current := Some t\<rparr>)"
  by (simp add: kern_refs_def refs_ok_def usk_ok_def vfs_ok_def)

lemma run_fd_ok:
  fixes s :: "('d, 'a) kern_scheme"
  assumes k: "kern_refs R s" and t: "g_current s = Some t" and p: "no_ptmx x"
  shows "\<exists>s' R' t'. run_fd x s = Some s' \<and> kern_refs R' s' \<and> g_current s' = Some t'"
proof (cases x)
  case (FOpen p fl md)
  then show ?thesis using open_mode_kern [OF k t, of p fl md] p by auto
next
  case (FClose fd)
  show ?thesis
  proof (cases "fd_get s fd")
    case None
    then show ?thesis using k t FClose by (auto simp: vfs_close_def)
  next
    case (Some f)
    show ?thesis by (rule close_step [OF k Some t]) (use FClose t in auto)
  qed
next
  case (FDupfd fd m)
  have ft: "fd_table s = Some (fdtab s t)" using t by (simp add: fd_table_def sched_current_def)
  show ?thesis
  proof (cases "fd_get s fd = None \<or> m < 0 \<or> scan (\<lambda>i. fdtab s t i = None) (nat m) VFS_MAX_FDS = None")
    case True
    then show ?thesis using k t FDupfd ft by (auto simp: vfs_fcntl_dupfd_def split: option.splits)
  next
    case False
    then obtain f i where "fd_get s fd = Some f" "0 \<le> m" "scan (\<lambda>i. fdtab s t i = None) (nat m) VFS_MAX_FDS = Some i" by auto
    then show ?thesis by (elim dupfd_step [OF k _ t, of fd f m i]) (use FDupfd t in auto)
  qed
next
  case (FDup2 a b)
  show ?thesis
  proof (cases "fd_get s a = None \<or> b < 0 \<or> int VFS_MAX_FDS \<le> b \<or> b = a")
    case True
    then show ?thesis using k t FDup2 by (auto simp: vfs_dup2_def split: option.splits)
  next
    case False
    then obtain f where "fd_get s a = Some f" "0 \<le> b" "b < int VFS_MAX_FDS" "b \<noteq> a" by auto
    then show ?thesis by (elim dup2_step [OF k _ t, of a f b]) (use FDup2 t in auto)
  qed
next
  case FPipe
  show ?thesis
  proof (cases rule: pipe_open_step [OF k t, case_names failed opened])
    case (failed m)
    then show ?thesis using kern_refs_next [OF k] FPipe t by auto
  next
    case (opened i j s')
    then show ?thesis using FPipe by auto
  qed
next
  case (FUnlink p)
  then show ?thesis using unlink_kern [OF k, of p] t by auto
next
  case (FSwitch u)
  then show ?thesis using kern_ok_switch [OF k, of u] by auto
next
  case (FFork d)
  show ?thesis
  proof (cases "d \<noteq> t \<and> list_all (\<lambda>i. fdtab s d i = None) [0..<VFS_MAX_FDS]")
    case True
    then show ?thesis using inherit_each [OF k, of "[0..<VFS_MAX_FDS]" d t] FFork t by (auto simp: vfs_fd_inherit_def list_all_iff)
  next
    case False
    then show ?thesis using k t FFork by auto
  qed
next
  case FExit
  then show ?thesis using close_each [OF k, of "[0..<VFS_MAX_FDS]" t] t by (auto simp: vfs_close_all_def vfs_close_all_table_def)
qed

lemma run_fds_ok:
  assumes "kern_refs R s" "g_current s = Some t" "list_all no_ptmx xs"
  shows "\<exists>s' R'. run_fds xs s = Some s' \<and> kern_refs R' s'"
  using assms
proof (induction xs arbitrary: s R t)
  case (Cons x xs)
  obtain s1 R1 t1 where s1: "run_fd x s = Some s1" "kern_refs R1 s1" "g_current s1 = Some t1"
    using run_fd_ok [OF Cons.prems(1,2), of x] Cons.prems(3) by auto
  then show ?case using Cons.IH [OF s1(2,3)] Cons.prems(3) by (simp del: run_fd.simps)
qed auto



section \<open>What closing and duplicating do\<close>

lemma fd_get_eq: "g_current s = Some t \<Longrightarrow> fd_get s fd = (if 0 \<le> fd \<and> fd < int VFS_MAX_FDS then fdtab s t (nat fd) else None)"
  by (auto simp: fd_get_def fd_table_def sched_current_def)

lemma fd_get_upd:
  assumes "g_current s = Some t" "g_current s' = Some t" "fdtab s' = (fdtab s)(t := (fdtab s t)(nat fd := v))" "0 \<le> fd" "fd < int VFS_MAX_FDS"
  shows "fd_get s' c = (if c = fd then v else fd_get s c)"
  using assms(4,5) fun_cong [OF assms(3), of t] by (auto simp: fd_get_eq [OF assms(1)] fd_get_eq [OF assms(2)] nat_eq_iff)

text \<open>Closing a descriptor frees its slot and leaves every other descriptor alone. While some descriptor
  of any task still refers to the open file, the file stays, unchanged but for its count; when it was the
  last one of a pipe or socket, the file is freed.\<close>

theorem fd_close_releases:
  fixes s :: "('d, 'a) kern_scheme"
  assumes ok: "kern_ok s" and f: "fd_get s fd = Some f" and x: "files s f = Some x"
  shows "\<exists>s'. vfs_close s fd = Some (0, s') \<and> kern_ok s' \<and> (\<forall>c. fd_get s' c = (if c = fd then None else fd_get s c)) \<and>
     (if slots (fdtab s') f \<noteq> {} then \<exists>r. files s' f = Some (x\<lparr>f_refs := r\<rparr>) else f_node x = None \<longrightarrow> files s' f = None)"
proof -
  obtain R where k: "kern_refs R s" using ok by (auto simp: kern_ok_def)
  obtain t where t: "g_current s = Some t" and r: "0 \<le> fd" "fd < int VFS_MAX_FDS" and ft: "fdtab s t (nat fd) = Some f" using f by (auto simp: fd_get_Some)
  have i: "nat fd < VFS_MAX_FDS" using r by simp
  obtain s' where s': "vfs_close s fd = Some (0, s')" "kern_refs (R(f := R f - 1)) s'"
    "fdtab s' = (fdtab s)(t := (fdtab s t)(nat fd := None))" "g_current s' = g_current s" "files s' = refile (files s) f (R f - 1)"
    by (rule close_step [OF k f t])
  have sl: "slots_ok R (files s) (fdtab s)" "slots_ok (R(f := R f - 1)) (files s') (fdtab s')" using k s'(2) by (auto simp: kern_refs_def)
  have get: "fd_get s' c = (if c = fd then None else fd_get s c)" for c
    by (rule fd_get_upd [OF t _ s'(3) r]) (use s'(4) t in simp)
  have fin: "finite (slots (fdtab s) f)" "finite (slots (fdtab s') f)" using sl by (auto simp: slots_ok_def)
  have "if slots (fdtab s') f \<noteq> {} then \<exists>r. files s' f = Some (x\<lparr>f_refs := r\<rparr>) else f_node x = None \<longrightarrow> files s' f = None"
  proof (cases "slots (fdtab s') f = {}")
    case False
    then have "card (slots (fdtab s') f) > 0" using fin(2) by (simp add: card_gt_0_iff)
    then have "R f - 1 \<noteq> 0" using sl(2) unfolding slots_ok_def by (metis fun_upd_same le_zero_eq less_numeral_extra(3))
    then show ?thesis using s'(5) x False by (auto simp: refile_def)
  next
    case True
    then have "card (slots (fdtab s) f) = 1" using slots_card [OF fin(1) i, of t None] ft s'(3) by simp
    moreover have "f_node x = None \<Longrightarrow> \<not> card (slots (fdtab s) f) < R f" "card (slots (fdtab s) f) \<le> R f"
      using sl(1) x by (auto simp: slots_ok_def)
    ultimately show ?thesis using s'(5) True by (auto simp: refile_def)
  qed
  then show ?thesis using s'(1,2) get by (auto simp: kern_ok_def)
qed

theorem fd_close_releases_witness:
  "\<exists>s'. vfs_close demo_kern 4 = Some (0, s') \<and> kern_ok s' \<and> (\<forall>c. fd_get s' c = (if c = 4 then None else fd_get demo_kern c)) \<and>
     (if slots (fdtab s') 6 \<noteq> {} then \<exists>r. files s' 6 = Some ((wend 4)\<lparr>f_refs := r\<rparr>) else f_node (wend 4) = None \<longrightarrow> files s' 6 = None)"
  by (rule fd_close_releases [OF demo_kern_ok])
    (simp_all add: fd_get_def fd_table_def sched_current_def demo_kern_def demo_tasks_def demo_files_def)

text \<open>\<^verbatim>\<open>dup2\<close> makes the new descriptor refer to the open file of the old one, so both share its position
  and flags; the file that was on the new descriptor loses one reference, no other descriptor of any task
  changes, and the counts agree again.\<close>

theorem fd_dup2_shares:
  fixes s :: "('d, 'a) kern_scheme"
  assumes ok: "kern_ok s" and f: "fd_get s fd = Some f" and n: "0 \<le> nfd" "nfd < int VFS_MAX_FDS" "nfd \<noteq> fd" and t: "g_current s = Some t"
  shows "\<exists>s'. vfs_dup2 s fd nfd = Some (nfd, s') \<and> kern_ok s' \<and> fd_get s' fd = Some f \<and>
     (\<forall>c. fd_get s' c = (if c = nfd then Some f else fd_get s c)) \<and> (\<forall>u. u \<noteq> t \<longrightarrow> fdtab s' u = fdtab s u)"
proof -
  obtain R where k: "kern_refs R s" using ok by (auto simp: kern_ok_def)
  obtain R' s' where s': "vfs_dup2 s fd nfd = Some (nfd, s')" "kern_refs R' s'"
    "fdtab s' = (fdtab s)(t := (fdtab s t)(nat nfd := Some f))" "g_current s' = g_current s"
    by (rule dup2_step [OF k f t n])
  have get: "fd_get s' c = (if c = nfd then Some f else fd_get s c)" for c
    by (rule fd_get_upd [OF t _ s'(3) n(1,2)]) (use s'(4) t in simp)
  have "fdtab s' u = fdtab s u" if "u \<noteq> t" for u using fun_cong [OF s'(3), of u] that by simp
  then show ?thesis using s'(1,2) get f n(3) by (auto simp: kern_ok_def)
qed

theorem fd_dup2_shares_witness:
  "\<exists>s'. vfs_dup2 demo_kern 4 5 = Some (5, s') \<and> kern_ok s' \<and> fd_get s' 4 = Some 6 \<and>
     (\<forall>c. fd_get s' c = (if c = 5 then Some 6 else fd_get demo_kern c)) \<and> (\<forall>u. u \<noteq> 0 \<longrightarrow> fdtab s' u = fdtab demo_kern u)"
  by (rule fd_dup2_shares [OF demo_kern_ok])
    (simp_all add: fd_get_def fd_table_def sched_current_def demo_kern_def demo_tasks_def demo_files_def)

section \<open>When a pipe ends\<close>

text \<open>The descriptors, of any task, on one end of a pipe.\<close>

definition pipe_fds :: "('d, 'a) kern_scheme \<Rightarrow> addr \<Rightarrow> bool \<Rightarrow> (nat \<times> nat) set" where
  "pipe_fds s p w = {(t, i). i < VFS_MAX_FDS \<and> (\<exists>f x. fdtab s t i = Some f \<and> files s f = Some x \<and> on_pipe p w x)}"

lemma pipe_fds_empty:
  assumes k: "kern_refs R s"
  shows "refs_on R (files s) (on_pipe p w) = 0 \<longleftrightarrow> pipe_fds s p w = {}"
proof
  have fr: "file_refs R (files s) (next_addr s)" and sl: "slots_ok R (files s) (fdtab s)" using k by (auto simp: kern_refs_def refs_ok_def)
  show "pipe_fds s p w = {}" if z: "refs_on R (files s) (on_pipe p w) = 0"
    using refs_on_zero [OF file_refs_finite [OF fr] z] file_refsD(2) [OF fr] unfolding pipe_fds_def by fastforce
  show "refs_on R (files s) (on_pipe p w) = 0" if e: "pipe_fds s p w = {}"
  proof (rule refs_on_none)
    fix f x assume x: "files s f = Some x"
    show "\<not> on_pipe p w x"
    proof
      assume q: "on_pipe p w x"
      have "f_node x = None" using q file_refsD(4) [OF fr x] by (auto simp: on_pipe_def kind_ok_def)
      then have "\<not> card (slots (fdtab s) f) < R f" using sl x by (auto simp: slots_ok_def)
      then have "slots (fdtab s) f \<noteq> {}" using file_refsD(2) [OF fr x] by auto
      then show False using e x q by (auto simp: slots_def pipe_fds_def)
    qed
  qed
qed

lemma pipe_refs_fds:
  assumes k: "kern_refs R s" and q: "pipes s p = Some q"
  shows "p_refs_w q = 0 \<longleftrightarrow> pipe_fds s p True = {}" "p_refs_r q = 0 \<longleftrightarrow> pipe_fds s p False = {}"
proof -
  have pr: "pipe_refs R (files s) (pipes s) (next_addr s)" using k by (simp add: kern_refs_def refs_ok_def)
  show "p_refs_w q = 0 \<longleftrightarrow> pipe_fds s p True = {}" using pipe_refsD(4) [OF pr q] pipe_fds_empty [OF k, of p True] by simp
  show "p_refs_r q = 0 \<longleftrightarrow> pipe_fds s p False = {}" using pipe_refsD(3) [OF pr q] pipe_fds_empty [OF k, of p False] by simp
qed



end
