(* ===== verification/Vfs_Io_Props.thy ===== *)
theory Vfs_Io_Props
  imports Vfs_Fd_Props
begin

text \<open>
  Properties of reading and writing through descriptors: memory files as byte sequences, the growth of their
  buffers, files that are unlinked while open, and directory listings.
\<close>

section \<open>Growing a buffer\<close>

lemma grow_cap_stop: "need \<le> c \<Longrightarrow> grow_cap c need = Some c"
  by (subst grow_cap.simps) (simp add: leD)

lemma grow_cap_go: "c < need \<Longrightarrow> grow_cap c need = grow_cap (c * 2) need"
  by (subst grow_cap.simps) simp

lemma unat_pow2: "k < 64 \<Longrightarrow> unat ((2::u64) ^ k) = 2 ^ k"
  using unat_of_nat [of "2 ^ k", where 'a = 64] power_strict_increasing [of k 64 "2::nat"] by simp

lemma grow_cap_returns:
  fixes need :: u64
  assumes "k < 64" "need \<le> 2 ^ 63"
  shows "\<exists>j. k \<le> j \<and> j < 64 \<and> grow_cap (2 ^ k) need = Some (2 ^ j) \<and> need \<le> 2 ^ j \<and> (k < j \<longrightarrow> 2 ^ (j - 1) < need)"
  using assms
proof (induction "63 - k" arbitrary: k)
  case 0
  then have "k = 63" by simp
  then show ?case using 0 by (intro exI [of _ k]) (simp add: grow_cap_stop)
next
  case (Suc d)
  show ?case
  proof (cases "need \<le> 2 ^ k")
    case True
    then show ?thesis using Suc.prems by (intro exI [of _ k]) (simp add: grow_cap_stop)
  next
    case False
    have "\<exists>j. Suc k \<le> j \<and> j < 64 \<and> grow_cap (2 ^ Suc k) need = Some (2 ^ j) \<and> need \<le> 2 ^ j \<and> (Suc k < j \<longrightarrow> 2 ^ (j - 1) < need)"
      using Suc.hyps(2) Suc.prems by (intro Suc.hyps(1)) auto
    then obtain j where j: "Suc k \<le> j" "j < 64" "grow_cap (2 ^ Suc k) need = Some (2 ^ j)" "need \<le> 2 ^ j" "Suc k < j \<longrightarrow> 2 ^ (j - 1) < need" by blast
    moreover have "grow_cap (2 ^ k) need = grow_cap (2 ^ Suc k) need" using False by (subst grow_cap_go) (simp_all add: mult.commute)
    moreover have "j = Suc k \<Longrightarrow> 2 ^ (j - 1) < need" using False by simp
    ultimately show ?thesis by (intro exI [of _ j]) auto
  qed
qed

lemma grow_cap_zero: "grow_cap c need = Some r \<Longrightarrow> c = 0 \<longrightarrow> need = 0"
proof (rule grow_cap.raw_induct [where P = "\<lambda>c need r. c = 0 \<longrightarrow> need = 0"])
  fix f :: "u64 \<Rightarrow> u64 \<Rightarrow> u64 option" and c need r :: u64
  assume ih: "\<And>c need r. f c need = Some r \<Longrightarrow> c = 0 \<longrightarrow> need = 0"
    and e: "(if c < need then f (c * 2) need else Some c) = Some r"
  show "c = 0 \<longrightarrow> need = 0" using e ih [of "c * 2" need r] by (auto simp: word_gt_0 split: if_splits)
qed

lemma grow_cap_diverges:
  fixes need :: u64
  assumes "k \<le> 64" "2 ^ 63 < need"
  shows "grow_cap (2 ^ k) need = None"
  using assms(1)
proof (induction "64 - k" arbitrary: k)
  case 0
  then have "(2::u64) ^ k = 0" using 0 by simp
  then show ?case using grow_cap_zero [of "2 ^ k" need] assms(2) by (cases "grow_cap (2 ^ k) need") auto
next
  case (Suc d)
  then have "k \<le> 63" by simp
  then have "(2::nat) ^ k \<le> 2 ^ 63" by (rule power_increasing) simp
  then have "(2::u64) ^ k \<le> 2 ^ 63" using \<open>k \<le> 63\<close> by (simp add: word_le_nat_alt unat_pow2)
  then have "grow_cap (2 ^ k) need = grow_cap (2 ^ Suc k) need" using assms(2) by (subst grow_cap_go) (auto simp: mult.commute)
  moreover have "grow_cap (2 ^ Suc k) need = None" using Suc.hyps(2) \<open>k \<le> 63\<close> by (intro Suc.hyps(1)) simp_all
  ultimately show ?case by simp
qed



section \<open>Memory files\<close>

text \<open>A file outside WRF: the buffer is a power of two, and holds the size.\<close>

definition ram_ok :: "vfs_node \<Rightarrow> bool" where
  "ram_ok n \<longleftrightarrow> nd_type n = VFS_FILE \<and> nd_wrf_ino n = 0 \<and> nd_size n \<le> nd_capacity n \<and>
     (nd_capacity n = 0 \<or> nd_data n \<noteq> None \<and> (\<exists>k<64. nd_capacity n = 2 ^ k))"

definition fbytes :: "vfs_node \<Rightarrow> u8 list" where
  "fbytes n = (case nd_data n of None \<Rightarrow> [] | Some d \<Rightarrow> array_get 0 (unat (nd_size n)) d)"

lemma length_fbytes: "ram_ok n \<Longrightarrow> length (fbytes n) = unat (nd_size n)"
  by (auto simp: ram_ok_def fbytes_def split: option.split)

lemma data_get_fbytes:
  assumes n: "ram_ok n" and off: "off < unat (nd_size n)"
  shows "data_get n off (min c (unat (nd_size n) - off)) = Some (take c (drop off (fbytes n)))"
proof -
  have "nd_capacity n \<noteq> 0" using n off by (auto simp: ram_ok_def)
  then obtain d where d: "nd_data n = Some d" using n by (auto simp: ram_ok_def)
  have cap: "unat (nd_size n) \<le> unat (nd_capacity n)" using n by (simp add: ram_ok_def word_le_nat_alt)
  have "array_get off (min c (unat (nd_size n) - off)) d = take c (drop off (fbytes n))"
    using d off by (intro nth_equalityI) (auto simp: fbytes_def)
  then show ?thesis using d cap off by (cases "c = 0") (auto simp: data_get_def)
qed

text \<open>An open memory file.\<close>

definition ram_fd :: "('d, 'a) kern_scheme \<Rightarrow> int \<Rightarrow> addr \<Rightarrow> vfs_file \<Rightarrow> addr \<Rightarrow> vfs_node \<Rightarrow> bool" where
  "ram_fd s fd f x a n \<longleftrightarrow> fd_get s fd = Some f \<and> files s f = Some x \<and> f_node x = Some a \<and> f_sock x = None \<and> f_inet x = None \<and>
     f_pipe x = None \<and> nodes s a = Some n \<and> ram_ok n"

lemma vfs_pread_ram:
  assumes "ram_fd s fd f x a n"
  shows "vfs_pread s fd False c off = Some (int (length (take c (drop (unat off) (fbytes n)))), take c (drop (unat off) (fbytes n)), s)"
proof (cases "off < nd_size n")
  case False
  then have "unat (nd_size n) \<le> unat off" by (simp add: word_le_nat_alt not_less)
  then show ?thesis using assms False length_fbytes [of n]
    by (simp add: vfs_pread_def ram_fd_def fd_file_def ram_ok_def not_less)
next
  case True
  have l: "unat off < unat (nd_size n)" using True by (simp add: word_less_nat_alt)
  have "unat (nd_size n - off) = unat (nd_size n) - unat off" using True by (simp add: unat_sub less_imp_le)
  moreover have "ram_ok n" using assms by (simp add: ram_fd_def)
  ultimately show ?thesis using assms True data_get_fbytes [OF _ l, of c] length_fbytes [of n]
    by (simp add: vfs_pread_def ram_fd_def fd_file_def ram_ok_def not_le min.commute)
qed

lemma file_read_ram:
  assumes "ram_fd s fd f x a n" "f_flags x AND 3 \<noteq> O_WRONLY"
  shows "\<exists>s'. vfs_read s fd False c = Some (Done (int (length (take c (drop (unat (f_pos x)) (fbytes n)))), take c (drop (unat (f_pos x)) (fbytes n)), s')) \<and>
     s' = s\<lparr>files := (files s)(f \<mapsto> x\<lparr>f_pos := f_pos x + of_nat (length (take c (drop (unat (f_pos x)) (fbytes n))))\<rparr>)\<rparr>"
proof (cases "f_pos x < nd_size n")
  case False
  then have "unat (nd_size n) \<le> unat (f_pos x)" by (simp add: word_le_nat_alt not_less)
  then show ?thesis using assms False length_fbytes [of n]
    by (simp add: vfs_read_def file_read_def ram_fd_def fd_file_def ram_ok_def not_less fun_upd_idem)
next
  case True
  have l: "unat (f_pos x) < unat (nd_size n)" using True by (simp add: word_less_nat_alt)
  have "unat (nd_size n - f_pos x) = unat (nd_size n) - unat (f_pos x)" using True by (simp add: unat_sub less_imp_le)
  moreover have "ram_ok n" using assms by (simp add: ram_fd_def)
  ultimately show ?thesis using assms True data_get_fbytes [OF _ l, of c] length_fbytes [of n]
    by (simp add: vfs_read_def file_read_def ram_fd_def fd_file_def ram_ok_def not_le advance_def upd_file_def Let_def min.commute)
qed

lemma reserve_step:
  fixes s :: "('d, 'a) kern_scheme"
  assumes n: "nodes s a = Some n" and ok: "ram_ok n" and need: "need \<le> 2 ^ 63"
  obtains (oom) "reserve s a need = Some (False, s\<lparr>next_addr := Suc (next_addr s)\<rparr>)" "oom s (next_addr s)"
  | (room) h m nn where "reserve s a need = Some (True, s\<lparr>nodes := h, next_addr := m\<rparr>)" "h = (nodes s)(a \<mapsto> nn)" "next_addr s \<le> m"
      "ram_ok nn" "need \<le> nd_capacity nn" "nn = n\<lparr>nd_data := nd_data nn, nd_capacity := nd_capacity nn\<rparr>" "fbytes nn = fbytes n"
proof (cases "need \<le> nd_capacity n")
  case True
  then show thesis using room [where h = "nodes s" and m = "next_addr s" and nn = n] n ok by (simp add: reserve_def fun_upd_idem leD)
next
  case False
  let ?c0 = "if nd_capacity n \<noteq> 0 then nd_capacity n else 64"
  have "\<exists>k<64. ?c0 = 2 ^ k" using ok by (auto simp: ram_ok_def intro: exI [of _ 6])
  then obtain k where k: "k < 64" "?c0 = 2 ^ k" by blast
  obtain j where j: "j < 64" "grow_cap ?c0 need = Some (2 ^ j)" "need \<le> 2 ^ j" using grow_cap_returns [OF k(1) need] k(2) by auto
  show thesis
  proof (cases "oom s (next_addr s)")
    case True
    then show thesis using oom n False j(2) by (simp add: reserve_def krealloc_def kmalloc_def not_le)
  next
    case no: False
    let ?d = "\<lambda>i. case nd_data n of Some d \<Rightarrow> if i < unat (nd_capacity n) then d i else heap_junk s i | None \<Rightarrow> heap_junk s i"
    let ?n1 = "n\<lparr>nd_data := Some ?d, nd_capacity := 2 ^ j\<rparr>"
    have sz: "nd_size n \<le> nd_capacity n" using ok by (simp add: ram_ok_def)
    have "ram_ok ?n1" using ok False j sz by (auto simp: ram_ok_def)
    moreover have "fbytes ?n1 = fbytes n"
    proof (cases "nd_data n")
      case None
      then have "nd_size n = 0" using ok sz by (auto simp: ram_ok_def)
      then show ?thesis using None by (simp add: fbytes_def array_get_def)
    next
      case (Some d)
      have "unat (nd_size n) \<le> unat (nd_capacity n)" using sz by (simp add: word_le_nat_alt)
      then show ?thesis using Some by (simp add: fbytes_def array_get_def)
    qed
    ultimately show thesis
      using room [where h = "(nodes s)(a \<mapsto> ?n1)" and m = "Suc (next_addr s)" and nn = ?n1] n False no j(2,3) by (simp add: reserve_def krealloc_def kmalloc_def not_le)
  qed
qed

lemma data_put_fbytes:
  assumes ok: "ram_ok n" and cap: "pos + length buf \<le> unat (nd_capacity n)" and sz: "unat sz = max (unat (nd_size n)) (pos + length buf)"
  obtains m gap where "data_put n pos buf = Some m" "ram_ok (m\<lparr>nd_size := sz\<rparr>)" "m = n\<lparr>nd_data := nd_data m\<rparr>"
    "length gap = pos - unat (nd_size n)" "fbytes (m\<lparr>nd_size := sz\<rparr>) = splice pos buf (fbytes n @ gap)"
proof (cases "nd_data n")
  case None
  then have c: "nd_capacity n = 0" using ok by (auto simp: ram_ok_def)
  then have z: "buf = []" "pos = 0" "nd_size n = 0" using ok cap by (auto simp: ram_ok_def)
  then have "sz = 0" using sz by (simp add: unat_eq_zero)
  then show thesis using that [of n "[]"] None ok z c by (simp add: data_put_def fbytes_def splice_def ram_ok_def)
next
  case (Some d)
  let ?m = "n\<lparr>nd_data := Some (array_put pos buf d)\<rparr>"
  let ?gap = "array_get (unat (nd_size n)) (pos - unat (nd_size n)) d"
  have szc: "unat (nd_size n) \<le> unat (nd_capacity n)" using ok by (simp add: ram_ok_def word_le_nat_alt)
  have "data_put n pos buf = Some ?m" using Some cap by (auto simp: data_put_def)
  moreover have "ram_ok (?m\<lparr>nd_size := sz\<rparr>)" using ok sz szc cap by (auto simp: ram_ok_def word_le_nat_alt)
  moreover have "fbytes (?m\<lparr>nd_size := sz\<rparr>) = splice pos buf (fbytes n @ ?gap)"
    using sz Some by (intro nth_equalityI) (auto simp: fbytes_def splice_def nth_append array_put_def min_def max_def split: if_splits)
  ultimately show thesis using that [of ?m ?gap] by simp
qed

lemma file_write_step:
  fixes s :: "('d, 'a) kern_scheme"
  assumes fd: "ram_fd s fd f x a n" and fl: "f_flags x AND 3 \<noteq> O_RDONLY" and len: "unat (f_pos x) + length buf \<le> 2 ^ 63"
  obtains (oom) s' where "vfs_write s fd (Some buf) = Some (WDone (- ENOMEM), s')" "oom s (next_addr s)" "s' = s\<lparr>next_addr := Suc (next_addr s)\<rparr>"
  | (written) s' n' gap where "vfs_write s fd (Some buf) = Some (WDone (int (length buf)), s')"
      "ram_fd s' fd f (x\<lparr>f_pos := f_pos x + of_nat (length buf)\<rparr>) a n'" "length gap = unat (f_pos x) - unat (nd_size n)"
      "fbytes n' = splice (unat (f_pos x)) buf (fbytes n @ gap)"
      "nodes s' = (nodes s)(a \<mapsto> n')" "files s' = (files s)(f \<mapsto> x\<lparr>f_pos := f_pos x + of_nat (length buf)\<rparr>)"
      "same_shape n n'" "nd_open_refs n' = nd_open_refs n" "nd_unlinked n' = nd_unlinked n" "g_tasks s' = g_tasks s" "g_current s' = g_current s"
proof -
  let ?need = "f_pos x + of_nat (length buf)"
  have p: "fd_get s fd = Some f" "files s f = Some x" "f_node x = Some a" "f_sock x = None" "f_inet x = None" "f_pipe x = None"
    "nodes s a = Some n" and ok: "ram_ok n" using fd by (auto simp: ram_fd_def)
  have un: "unat ?need = unat (f_pos x) + length buf"
    using len by (simp add: unat_word_ariths unat_of_nat)
  have need: "?need \<le> 2 ^ 63" using un len by (simp add: word_le_nat_alt)
  have w: "vfs_write s fd (Some buf) = do { (e, s1) \<leftarrow> file_write s f buf; Some (WDone e, s1) }"
    using p fl ok by (simp add: vfs_write_def fd_file_def ram_ok_def)
  show thesis
  proof (cases rule: reserve_step [OF p(7) ok need, case_names oom room])
    case o: oom
    then show thesis using oom w p ok by (simp add: file_write_def ram_ok_def Let_def)
  next
    case (room h m n1)
    let ?sz = "if ?need > nd_size n1 then ?need else nd_size n1"
    have sz1: "nd_size n1 = nd_size n" by (subst room(6)) simp
    have sz: "unat ?sz = max (unat (nd_size n1)) (unat (f_pos x) + length buf)" using un by (auto simp: word_less_nat_alt max_def)
    have cap: "unat (f_pos x) + length buf \<le> unat (nd_capacity n1)" using room(5) un by (simp add: word_le_nat_alt)
    obtain n2 gap where n2: "data_put n1 (unat (f_pos x)) buf = Some n2" "ram_ok (n2\<lparr>nd_size := ?sz\<rparr>)"
      "n2 = n1\<lparr>nd_data := nd_data n2\<rparr>" "length gap = unat (f_pos x) - unat (nd_size n1)"
      "fbytes (n2\<lparr>nd_size := ?sz\<rparr>) = splice (unat (f_pos x)) buf (fbytes n1 @ gap)"
      by (rule data_put_fbytes [OF room(4) cap sz])
    let ?n' = "n2\<lparr>nd_size := ?sz\<rparr>" and ?x = "x\<lparr>f_pos := ?need\<rparr>"
    have sz2: "nd_size n2 = nd_size n1" by (subst n2(3)) simp
    obtain d1 c1 where e1: "n1 = n\<lparr>nd_data := d1, nd_capacity := c1\<rparr>" using room(6) by blast
    obtain d2 where e2: "n2 = n1\<lparr>nd_data := d2\<rparr>" using n2(3) by blast
    have n3: "(if ?need > nd_size n2 then n2\<lparr>nd_size := ?need\<rparr> else n2) = ?n'" using sz2 by (cases n2) auto
    let ?s = "s\<lparr>nodes := h(a \<mapsto> ?n'), next_addr := m, files := (files s)(f \<mapsto> ?x)\<rparr>"
    have fw: "file_write s f buf = Some (int (length buf), ?s)"
      using p ok room(1,2) n2(1) n3 by (simp add: file_write_def ram_ok_def Let_def put_node_def advance_def upd_file_def)
    have "ram_fd ?s fd f ?x a ?n'"
      using p n2(2) by (simp add: ram_fd_def fd_get_def fd_table_def sched_current_def)
    then show thesis
      using written [of ?s ?n' gap] w fw n2(4,5) room(2,7) sz1 e1 e2 by (simp add: same_shape_def)
  qed
qed


lemma demo_ram: "ram_fd demo_kern 5 7 (blank_file\<lparr>f_node := Some 3, f_flags := O_RDWR\<rparr>) 3 (the (demo_fheap 3))"
  by (auto simp: ram_fd_def ram_ok_def fd_get_def fd_table_def sched_current_def demo_kern_def demo_tasks_def demo_files_def
      demo_fheap_def demo_heap_def zero_node_def blank_file_def intro: exI [of _ 6])


section \<open>Unlinked while open\<close>

text \<open>Unlinking any path leaves a memory file that is open as it was for its descriptors: the same bytes
  are read back through the descriptor afterwards, also when the file itself was unlinked and its last name
  is gone, and all reference counts still agree.\<close>

theorem unlink_keeps_open_file:
  fixes s :: "('d, 'a) kern_scheme"
  assumes ok: "kern_ok s" and fd: "ram_fd s fd f x a n"
  shows "\<exists>r s'. vfs_unlink s (Some path) = Some (r, s') \<and> kern_ok s' \<and>
     (\<forall>c off. let bs = take c (drop (unat off) (fbytes n))
              in vfs_pread s fd False c off = Some (int (length bs), bs, s) \<and> vfs_pread s' fd False c off = Some (int (length bs), bs, s'))"
proof -
  obtain R where k: "kern_refs R s" using ok by (auto simp: kern_ok_def)
  obtain r s' where s': "vfs_unlink s (Some path) = Some (r, s')" "kern_refs R s'" "g_current s' = g_current s" "fdtab s' = fdtab s"
    "files s' = files s" "\<forall>b n. nodes s b = Some n \<longrightarrow> nd_open_refs n > 0 \<longrightarrow> (\<exists>m. nodes s' b = Some m \<and> kept n m)"
    using unlink_kern [OF k, of path] by blast
  have p: "fd_get s fd = Some f" "files s f = Some x" "f_node x = Some a" "f_sock x = None" "f_inet x = None" "f_pipe x = None"
    "nodes s a = Some n" and rn: "ram_ok n" using fd by (auto simp: ram_fd_def)
  have rk: "refs_ok R s" using k by (simp add: kern_refs_def)
  have "refs_on one (files s) (on_node a) > 0"
    using refs_split [OF refs_okD(7) [OF rk] p(2), of one "on_node a"] p(3) by (simp add: on_node_def one_def)
  then have "nd_open_refs n > 0" using node_refs_some [OF refs_okD(3) [OF rk] p(7)] by simp
  then obtain m where m: "nodes s' a = Some m" "kept n m" using s'(6) p(7) by blast
  obtain sb ch ul where e: "m = n\<lparr>nd_sibling := sb, nd_child := ch, nd_unlinked := ul\<rparr>" using m(2) unfolding kept_def by blast
  have "fdtab s' u = fdtab s u" for u by (rule fun_cong [OF s'(4)])
  then have "ram_fd s' fd f x a m" using p rn m(1) s'(3,5) e by (simp add: ram_fd_def fd_get_Some ram_ok_def)
  moreover have "fbytes m = fbytes n" by (simp add: e fbytes_def cong: option.case_cong)
  ultimately show ?thesis
    using s'(1,2) vfs_pread_ram [OF fd] vfs_pread_ram [of s' fd f x a m] by (auto simp: kern_ok_def Let_def)
qed

theorem unlink_keeps_open_file_witness:
  "\<exists>r s'. vfs_unlink demo_kern (Some ''/a/f'') = Some (r, s') \<and> kern_ok s' \<and>
     (\<forall>c off. let bs = take c (drop (unat off) (fbytes (the (demo_fheap 3))))
              in vfs_pread demo_kern 5 False c off = Some (int (length bs), bs, demo_kern) \<and>
                 vfs_pread s' 5 False c off = Some (int (length bs), bs, s'))"
  by (rule unlink_keeps_open_file [OF demo_kern_ok demo_ram])

section \<open>Far positions\<close>

lemma vfs_lseek_set:
  assumes "ram_fd s fd f x a n" "sint off \<ge> 0"
  shows "vfs_lseek s fd off SEEK_SET = Some (sint off, s\<lparr>files := (files s)(f \<mapsto> x\<lparr>f_pos := off\<rparr>)\<rparr>)"
  using assms by (simp add: vfs_lseek_def ram_fd_def fd_file_def seekable_def ram_ok_def Let_def upd_file_def)

lemma ram_fd_seek:
  "ram_fd s fd f x a n \<Longrightarrow> ram_fd (s\<lparr>files := (files s)(f \<mapsto> x\<lparr>f_pos := off\<rparr>)\<rparr>) fd f (x\<lparr>f_pos := off\<rparr>) a n"
  by (simp add: ram_fd_def fd_get_def fd_table_def sched_current_def)

lemma ram_capacity_le:
  assumes "ram_ok n"
  shows "nd_capacity n \<le> 2 ^ 63"
proof (cases "nd_capacity n = 0")
  case False
  then obtain k where "k < 64" "nd_capacity n = 2 ^ k" using assms by (auto simp: ram_ok_def)
  moreover have "(2::nat) ^ k \<le> 2 ^ 63" using \<open>k < 64\<close> by (intro power_increasing) simp_all
  ultimately show ?thesis by (simp add: word_le_nat_alt unat_pow2)
qed simp

lemma file_write_stuck:
  "files s f = Some x \<Longrightarrow> f_node x = Some a \<Longrightarrow> nodes s a = Some n \<Longrightarrow> nd_wrf_ino n = 0 \<Longrightarrow>
   reserve s a (f_pos x + of_nat (length buf)) = None \<Longrightarrow> file_write s f buf = None"
  by (simp add: file_write_def)

text \<open>Any process can stop the kernel: on a memory file opened for writing, \<^verbatim>\<open>lseek\<close> to the largest offset
  succeeds, and a write of two bytes there never returns, because the doubling of the capacity wraps to zero
  and goes on for ever.\<close>

theorem ram_far_write_hangs:
  fixes s :: "('d, 'a) kern_scheme"
  assumes fd: "ram_fd s fd f x a n" and fl: "f_flags x AND 3 \<noteq> O_RDONLY"
  shows "\<exists>s1. vfs_lseek s fd (2 ^ 63 - 1) SEEK_SET = Some (2 ^ 63 - 1, s1) \<and> vfs_write s1 fd (Some [b, c]) = None"
proof -
  let ?pos = "2 ^ 63 - 1 :: u64"
  let ?x = "x\<lparr>f_pos := ?pos\<rparr>" and ?s = "s\<lparr>files := (files s)(f \<mapsto> x\<lparr>f_pos := ?pos\<rparr>)\<rparr>"
  have si: "sint ?pos = 2 ^ 63 - 1" by simp
  have r: "ram_fd ?s fd f ?x a n" by (rule ram_fd_seek [OF fd])
  have rn: "ram_ok n" and na: "nodes s a = Some n" using fd by (auto simp: ram_fd_def)
  have need: "f_pos ?x + of_nat (length [b, c]) = 2 ^ 63 + 1" by simp
  have big: "(2::u64) ^ 63 < 2 ^ 63 + 1" by (simp add: word_less_nat_alt)
  have cap: "nd_capacity n < 2 ^ 63 + 1" using ram_capacity_le [OF rn] big by (rule le_less_trans)
  have "\<exists>k\<le>64. (if nd_capacity n \<noteq> 0 then nd_capacity n else 64) = 2 ^ k"
    using rn by (auto simp: ram_ok_def intro: exI [of _ 6] less_imp_le)
  then obtain k where "k \<le> 64" "(if nd_capacity n \<noteq> 0 then nd_capacity n else 64) = (2::u64) ^ k" by blast
  then have "grow_cap (if nd_capacity n \<noteq> 0 then nd_capacity n else 64) (2 ^ 63 + 1) = None"
    using grow_cap_diverges [of k, OF _ big] by simp
  then have "reserve ?s a (2 ^ 63 + 1) = None" using na cap by (simp add: reserve_def)
  then have "file_write ?s f [b, c] = None"
    using fd need by (intro file_write_stuck [of _ _ ?x a n]) (simp_all add: ram_fd_def ram_ok_def)
  then have "vfs_write ?s fd (Some [b, c]) = None"
    using r fl by (simp add: vfs_write_def ram_fd_def fd_file_def ram_ok_def)
  then show ?thesis using vfs_lseek_set [OF fd, of ?pos] si by simp
qed

theorem ram_far_write_hangs_witness:
  "\<exists>s1. vfs_lseek demo_kern 5 (2 ^ 63 - 1) SEEK_SET = Some (2 ^ 63 - 1, s1) \<and> vfs_write s1 5 (Some [1, 2]) = None"
  by (rule ram_far_write_hangs [OF demo_ram]) (simp add: blank_file_def)

lemma array_get_one: "off < n \<Longrightarrow> take (Suc 0) (drop off (array_get 0 n d)) = [d off]"
  using Cons_nth_drop_Suc [of off "array_get 0 n d", symmetric] by simp

text \<open>A write past the end of a file does not clear the bytes in between: with a file of one byte in a
  buffer of 64, after a seek to 100 and a write of one byte a read at 80 returns whatever the freshly
  allocated kernel memory held there.\<close>

theorem ram_gap_not_cleared:
  "\<exists>s1 s2. vfs_lseek (demo_kern\<lparr>heap_junk := J\<rparr>) 5 100 SEEK_SET = Some (100, s1) \<and>
     vfs_write s1 5 (Some [7]) = Some (WDone 1, s2) \<and> vfs_pread s2 5 False 1 80 = Some (1, [J 80], s2)"
proof -
  let ?x = "blank_file\<lparr>f_node := Some 3, f_flags := O_RDWR\<rparr>" and ?s = "demo_kern\<lparr>heap_junk := J\<rparr>"
  let ?s1 = "?s\<lparr>files := (files ?s)(7 \<mapsto> ?x\<lparr>f_pos := 100\<rparr>)\<rparr>"
  have fd: "ram_fd ?s 5 7 ?x 3 (the (demo_fheap 3))" using demo_ram by (simp add: ram_fd_def fd_get_def fd_table_def sched_current_def)
  have "grow_cap 64 (101::u64) = Some 128" by (simp add: grow_cap_go grow_cap_stop)
  then have g: "grow_cap (if (64::u64) \<noteq> 0 then 64 else 64) (101::u64) = Some 128" by simp
  let ?n = "(the (demo_fheap 3))\<lparr>nd_data := Some (array_put 100 [7] (\<lambda>i. if i < 64 then 0x41 else J i)), nd_capacity := 128, nd_size := 101\<rparr>"
  let ?s2 = "?s\<lparr>nodes := (nodes ?s)(3 \<mapsto> ?n), next_addr := 9, files := (files ?s)(7 \<mapsto> ?x\<lparr>f_pos := 101\<rparr>)\<rparr>"
  have "file_write ?s1 7 [7] = Some (1, ?s2)"
    using g by (simp add: file_write_def reserve_def krealloc_def kmalloc_def data_put_def put_node_def advance_def upd_file_def
        demo_kern_def demo_fheap_def demo_heap_def zero_node_def blank_file_def cong: if_cong)
  then have w: "vfs_write ?s1 5 (Some [7]) = Some (WDone 1, ?s2)"
    using ram_fd_seek [OF fd, of 100] by (simp add: vfs_write_def ram_fd_def fd_file_def ram_ok_def blank_file_def)
  have "ram_ok ?n" by (auto simp: ram_ok_def demo_fheap_def demo_heap_def zero_node_def intro: exI [of _ 7])
  then have "ram_fd ?s2 5 7 (?x\<lparr>f_pos := 101\<rparr>) 3 ?n" using fd by (simp add: ram_fd_def fd_get_def fd_table_def sched_current_def)
  from vfs_pread_ram [OF this, of 1 80] have "vfs_pread ?s2 5 False 1 80 = Some (1, [J 80], ?s2)"
    by (simp add: fbytes_def array_get_one array_put_def)
  moreover have "vfs_lseek ?s 5 100 SEEK_SET = Some (100, ?s1)" using vfs_lseek_set [OF fd, of 100] by simp
  ultimately show ?thesis using w by blast
qed

section \<open>Listing a directory\<close>

lemma chain_ConsE:
  assumes "chain h p (a # xs)"
  obtains n where "p = Some a" "h a = Some n" "chain h (nd_sibling n) xs"
  using assms that by (cases "h a") auto

lemma chain_nth_skip: "chain h p xs \<Longrightarrow> dir_skip h i p = Some (if i < length xs then Some (xs ! i) else None)"
proof (induction i arbitrary: p xs)
  case 0
  then show ?case by (cases xs) (auto split: option.splits)
next
  case (Suc i)
  show ?case
  proof (cases p)
    case None
    then show ?thesis using Suc.prems by (cases xs) auto
  next
    case (Some a)
    then obtain ys where ys: "xs = a # ys" using Suc.prems by (cases xs) auto
    obtain n where n: "h a = Some n" "chain h (nd_sibling n) ys" using Suc.prems unfolding ys by (rule chain_ConsE)
    show ?thesis using Some ys n(1) Suc.IH [OF n(2)] by simp
  qed
qed

lemma chain_drop: "chain h p xs \<Longrightarrow> i \<le> length xs \<Longrightarrow> chain h (if i < length xs then Some (xs ! i) else None) (drop i xs)"
proof (induction xs arbitrary: p i)
  case (Cons a xs)
  obtain n where n: "p = Some a" "h a = Some n" "chain h (nd_sibling n) xs" using Cons.prems(1) by (rule chain_ConsE)
  show ?case
  proof (cases i)
    case 0
    then show ?thesis using Cons.prems(1) n(1) by simp
  next
    case (Suc j)
    then show ?thesis using Cons.IH [OF n(3), of j] Cons.prems(2) by auto
  qed
qed auto

declare dir_fill.simps [simp del]

lemma dir_fill_chain:
  assumes "chain h p xs" "w \<le> c"
  shows "dir_fill h w c p = (let k = (c - w) div DIRENT_SIZE in
     Some (map (\<lambda>a. dirent_of (the (h a))) (take k xs), if k < length xs then Some (xs ! k) else None))"
  using assms
proof (induction xs arbitrary: p w)
  case Nil
  then show ?case by (subst dir_fill.simps) (simp add: Let_def)
next
  case (Cons a xs)
  obtain n where n: "p = Some a" "h a = Some n" "chain h (nd_sibling n) xs" using Cons.prems(1) by (rule chain_ConsE)
  show ?case
  proof (cases "w + DIRENT_SIZE \<le> c")
    case True
    have e: "(c - w) div DIRENT_SIZE = Suc ((c - (w + DIRENT_SIZE)) div DIRENT_SIZE)"
      using True div_add_self1 [of DIRENT_SIZE "c - (w + DIRENT_SIZE)"] by (simp add: le_div_geq)
    show ?thesis using True n Cons.IH [OF n(3) True] by (subst dir_fill.simps) (simp add: e Let_def)
  next
    case False
    then show ?thesis using n by (subst dir_fill.simps) (simp add: Let_def)
  qed
qed

definition entries :: "heap \<Rightarrow> addr list \<Rightarrow> vfs_dirent list" where
  "entries h ks = map (\<lambda>c. dirent_of (the (h c))) ks"

text \<open>The cursor of an open directory: \<open>i\<close> entries have been returned. The remembered child is used only when
  the position has not been moved since.\<close>

definition dir_cursor :: "('d, 'a) kern_scheme \<Rightarrow> int \<Rightarrow> addr \<Rightarrow> addr \<Rightarrow> addr list \<Rightarrow> nat \<Rightarrow> bool" where
  "dir_cursor s fd f a ks i \<longleftrightarrow> i \<le> length ks \<and> (\<exists>x. fd_get s fd = Some f \<and> files s f = Some x \<and> f_node x = Some a \<and> f_pos x = of_nat i \<and>
     (f_pos x \<noteq> 0 \<longrightarrow> f_pos x = f_readdir_index x \<longrightarrow> f_readdir_node x = (if i < length ks then Some (ks ! i) else None)))"

lemma entries_names:
  assumes t: "tree h r kids" and m: "dirmap h a = Some m"
  shows "distinct (map de_name (entries h (kids a)))" "set (map de_name (entries h (kids a))) = dom m"
proof -
  have nm: "name_of h c = Some (de_name (dirent_of (the (h c))))" if "c \<in> set (kids a)" for c
    using treeD(4) [OF t that] by (auto simp: name_of_def dirent_of_def)
  have inj: "inj_on (\<lambda>c. de_name (dirent_of (the (h c)))) (set (kids a))"
  proof (rule inj_onI)
    fix c d assume c: "c \<in> set (kids a)" "d \<in> set (kids a)" "de_name (dirent_of (the (h c))) = de_name (dirent_of (the (h d)))"
    then have "m (de_name (dirent_of (the (h c)))) = Some c" "m (de_name (dirent_of (the (h c)))) = Some d"
      using nm dirmap_SomeD(2) [OF t m] by metis+
    then show "c = d" by simp
  qed
  then show "distinct (map de_name (entries h (kids a)))"
    using tree_kids_distinct [OF t] by (simp add: entries_def distinct_map o_def)
  show "set (map de_name (entries h (kids a))) = dom m"
    using nm dirmap_SomeD(2) [OF t m] unfolding dom_def by (auto simp: entries_def)
qed

text \<open>C37. Listing a directory in pieces: a call with the cursor after \<open>i\<close> entries returns the next entries, as
  many as fit into the buffer, and leaves the cursor after them, so repeated calls return every entry once
  and in order; the names are pairwise different and are exactly those the abstract directory has.\<close>

theorem readdir_lists_directory:
  fixes s :: "('d, 'a) kern_scheme"
  assumes t: "tree (nodes s) r kids" and m: "dirmap (nodes s) a = Some m" and cur: "dir_cursor s fd f a (kids a) i"
    and small: "length (kids a) < 2 ^ 64"
  shows "\<exists>s' ds. ds = take (count div DIRENT_SIZE) (drop i (entries (nodes s) (kids a))) \<and>
     vfs_readdir s fd False count = Some (int (DIRENT_SIZE * length ds), ds, s') \<and>
     dir_cursor s' fd f a (kids a) (i + length ds) \<and> nodes s' = nodes s \<and>
     distinct (map de_name (entries (nodes s) (kids a))) \<and> set (map de_name (entries (nodes s) (kids a))) = dom m"
proof -
  let ?k = "count div DIRENT_SIZE" and ?ks = "kids a"
  let ?ds = "take ?k (drop i (entries (nodes s) ?ks))" and ?at = "\<lambda>j. if j < length ?ks then Some (?ks ! j) else None"
  obtain x where x: "fd_get s fd = Some f" "files s f = Some x" "f_node x = Some a" "f_pos x = of_nat i" and i: "i \<le> length ?ks"
    and c: "f_pos x \<noteq> 0 \<longrightarrow> f_pos x = f_readdir_index x \<longrightarrow> f_readdir_node x = ?at i"
    using cur unfolding dir_cursor_def by blast
  have ui: "unat (f_pos x) = i" using x(4) i small by (simp add: unat_of_nat)
  obtain n where n: "nodes s a = Some n" "nd_type n = VFS_DIR" using dirmap_node_dir [OF m] by blast
  have ch: "chain (nodes s) (nd_child n) ?ks" by (rule treeD(1) [OF t n(1)])
  have "(if f_pos x = 0 then Some (nd_child n) else if f_pos x = f_readdir_index x then Some (f_readdir_node x)
      else dir_skip (nodes s) (unat (f_pos x)) (nd_child n)) = Some (?at i)"
  proof (cases "f_pos x = 0")
    case True
    then show ?thesis using ui chain_nth_skip [OF ch, of 0] by simp
  next
    case False
    then show ?thesis using c chain_nth_skip [OF ch, of i] ui by simp
  qed
  moreover have "dir_fill (nodes s) 0 count (?at i) = Some (?ds, ?at (i + length ?ds))"
    using dir_fill_chain [OF chain_drop [OF ch i], of 0 count] i
    by (auto simp: Let_def entries_def take_map drop_map min_def)
  ultimately have rd: "vfs_readdir s fd False count = Some (int (DIRENT_SIZE * length ?ds), ?ds,
      s\<lparr>files := (files s)(f \<mapsto> x\<lparr>f_pos := f_pos x + of_nat (length ?ds), f_readdir_node := ?at (i + length ?ds),
           f_readdir_index := f_pos x + of_nat (length ?ds)\<rparr>)\<rparr>)"
    using x n by (simp add: vfs_readdir_def fd_file_def upd_file_def)
  have "i + length ?ds \<le> length ?ks" using i by (simp add: entries_def)
  then have "dir_cursor (s\<lparr>files := (files s)(f \<mapsto> x\<lparr>f_pos := f_pos x + of_nat (length ?ds), f_readdir_node := ?at (i + length ?ds),
           f_readdir_index := f_pos x + of_nat (length ?ds)\<rparr>)\<rparr>) fd f a ?ks (i + length ?ds)"
    using x by (simp add: dir_cursor_def fd_get_def fd_table_def sched_current_def)
  then show ?thesis using rd entries_names [OF t m] by (intro exI conjI) (rule refl, assumption, simp_all)
qed

text \<open>The directory \<^verbatim>\<open>/a\<close> of \<open>demo\<close> with a second file \<^verbatim>\<open>g\<close> in front (address 8), open on descriptor 5.\<close>

definition dir_heap :: heap where
  "dir_heap = demo_heap(2 \<mapsto> (the (demo_heap 2))\<lparr>nd_child := Some 8, nd_open_refs := 1\<rparr>,
     8 \<mapsto> (the (demo_heap 3))\<lparr>nd_name := ''g'', nd_sibling := Some 3\<rparr>)"

definition dir_kids :: "addr \<Rightarrow> addr list" where
  "dir_kids = ((\<lambda>_. [])(1 := [2], 2 := [8, 3]))"

definition demo_dir :: "unit kern" where
  "demo_dir = demo_kern\<lparr>nodes := dir_heap, next_addr := 9, files := [7 \<mapsto> blank_file\<lparr>f_node := Some 2\<rparr>], pipes := Map.empty,
     g_tasks := (\<lambda>_. demo_task)(0 := demo_task\<lparr>t_fds := [5 \<mapsto> 7]\<rparr>)\<rparr>"

lemma dir_heap_inv: "heap_inv dir_heap 1 dir_kids 9"
proof -
  have "tree dir_heap 1 dir_kids"
    unfolding tree_def by (auto simp: dir_heap_def demo_heap_def dir_kids_def zero_node_def name_ok_def inj_on_def name_of_def split: if_splits)
  then show ?thesis by (auto simp: heap_inv_def dir_heap_def demo_heap_def zero_node_def split: if_splits)
qed

lemma dir_heap_dirmap: "dirmap dir_heap = [1 \<mapsto> [''a'' \<mapsto> 2], 2 \<mapsto> [''g'' \<mapsto> 8, ''f'' \<mapsto> 3]]"
  by (auto simp: dirmap_tree [OF heap_invD(1) [OF dir_heap_inv]] dir_at_def fun_eq_iff name_of_def)
    (auto simp: dir_heap_def demo_heap_def dir_kids_def zero_node_def split: if_splits option.splits)

lemma demo_dir_ok: "vfs_ok demo_dir"
  using dir_heap_inv by (auto simp: vfs_ok_def demo_dir_def demo_kern_def)

lemma demo_dir_cursor: "dir_cursor demo_dir 5 7 2 (dir_kids 2) 0"
  by (simp add: dir_cursor_def demo_dir_def demo_kern_def fd_get_def fd_table_def sched_current_def blank_file_def)

theorem readdir_lists_directory_witness:
  "\<exists>s' ds. ds = take (100 div DIRENT_SIZE) (drop 0 (entries (nodes demo_dir) (dir_kids 2))) \<and>
     vfs_readdir demo_dir 5 False 100 = Some (int (DIRENT_SIZE * length ds), ds, s') \<and>
     dir_cursor s' 5 7 2 (dir_kids 2) (0 + length ds) \<and> nodes s' = nodes demo_dir \<and>
     distinct (map de_name (entries (nodes demo_dir) (dir_kids 2))) \<and>
     set (map de_name (entries (nodes demo_dir) (dir_kids 2))) = dom [''g'' \<mapsto> 8 :: addr, ''f'' \<mapsto> 3]"
  by (rule readdir_lists_directory [where r = 1 and kids = dir_kids, OF _ _ demo_dir_cursor])
    (use heap_invD(1) [OF dir_heap_inv] in \<open>simp_all add: demo_dir_def dir_heap_dirmap dir_kids_def\<close>)

text \<open>The cursor of an open directory is a bare pointer to a child: when that child is unlinked between two
  calls, the next call reads a freed node.\<close>

theorem readdir_cursor_dangles:
  "\<exists>ds s1 s2. vfs_readdir demo_dir 5 False 76 = Some (76, ds, s1) \<and> vfs_unlink s1 (Some ''/a/f'') = Some (0, s2) \<and>
     vfs_readdir s2 5 False 76 = None"
proof -
  let ?x = "blank_file\<lparr>f_node := Some 2, f_pos := 1, f_readdir_node := Some 3, f_readdir_index := 1\<rparr>"
  let ?s1 = "demo_dir\<lparr>files := [7 \<mapsto> ?x]\<rparr>"
  have f1: "dir_fill dir_heap 0 76 (Some 8) = Some ([dirent_of (the (dir_heap 8))], Some 3)"
    by (subst dir_fill.simps, subst dir_fill.simps) (simp add: dir_heap_def demo_heap_def)
  have rd: "vfs_readdir demo_dir 5 False 76 = Some (76, [dirent_of (the (dir_heap 8))], ?s1)"
    using f1 by (simp add: vfs_readdir_def fd_file_def fd_get_def fd_table_def sched_current_def upd_file_def demo_dir_def demo_kern_def
        dir_heap_def demo_heap_def zero_node_def blank_file_def)
  have ok: "vfs_ok ?s1" using demo_dir_ok by (simp add: vfs_ok_def)
  have d: "dirmap (nodes ?s1) = [1 \<mapsto> [''a'' \<mapsto> 2], 2 \<mapsto> [''g'' \<mapsto> 8, ''f'' \<mapsto> 3]]" by (simp add: demo_dir_def dir_heap_dirmap)
  have lk: "abs_lookup ?s1 ''/a'' = Some 2" "abs_lookup ?s1 ''/a/f'' = Some 3"
    using d by (simp_all add: abs_lookup_def lookup_path_def demo_segments demo_dir_def demo_kern_def)
  have n3: "nodes ?s1 3 = Some (the (demo_heap 3))" by (simp add: demo_dir_def dir_heap_def demo_heap_def)
  obtain s2 where s2: "vfs_remove ?s1 ''/a/f'' = Some (0, s2)"
    "map_option body (nodes s2 3) = (if nd_open_refs (the (demo_heap 3)) > 0 then Some (body ((the (demo_heap 3))\<lparr>nd_unlinked := True\<rparr>)) else None)"
    "\<And>b. b \<noteq> 3 \<Longrightarrow> map_option body (nodes s2 b) = map_option body (nodes ?s1 b)" "s2 = ?s1\<lparr>nodes := nodes s2, wfs := wfs s2\<rparr>"
    by (rule vfs_remove_step [OF ok demo_split(1) lk(1), of "[''g'' \<mapsto> 8, ''f'' \<mapsto> 3]" 3 "the (demo_heap 3)"])
      (use d n3 in \<open>simp_all add: empty_node_def\<close>)
  have gone: "nodes s2 3 = None" using s2(2) by (simp add: demo_heap_def zero_node_def)
  obtain n2 where n2: "nodes s2 2 = Some n2" "body n2 = body (the (dir_heap 2))"
    using s2(3) [of 2] by (cases "nodes s2 2") (auto simp: demo_dir_def dir_heap_def demo_heap_def)
  have dir: "nd_type n2 = VFS_DIR" using body_eqD(2) [OF n2(2)] by (simp add: dir_heap_def demo_heap_def)
  obtain h w where e: "s2 = ?s1\<lparr>nodes := h, wfs := w\<rparr>" using s2(4) by blast
  have "parent_writable ?s1 ''/a/f'' = Some True"
    using lk(1) by (simp add: parent_writable_def vfs_parent_of_def demo_split vfs_lookup_eq [OF ok])
      (simp add: vfs_access_ok_def vfs_caller_ids_def sched_current_def demo_dir_def demo_kern_def demo_task_def dir_heap_def demo_heap_def zero_node_def)
  then have ul: "vfs_unlink ?s1 (Some ''/a/f'') = Some (0, s2)" using s2(1) lk(2) by (simp add: vfs_unlink_def vfs_lookup_eq [OF ok])
  have "fd_file s2 5 = Some (Some (7, ?x))"
    unfolding e by (simp add: fd_file_def fd_get_def fd_table_def sched_current_def demo_dir_def demo_kern_def)
  moreover have "dir_fill (nodes s2) 0 76 (Some 3) = None" using gone by (subst dir_fill.simps) simp
  ultimately have "vfs_readdir s2 5 False 76 = None" using n2(1) dir by (simp add: vfs_readdir_def blank_file_def)
  then show ?thesis using rd ul by blast
qed

section \<open>The standard descriptors\<close>

text \<open>\<open>demo\<close> as a kernel with no open files.\<close>

definition demo_boot :: "unit kern" where
  "demo_boot = demo_kern\<lparr>nodes := demo_heap, next_addr := 4, files := Map.empty, pipes := Map.empty, g_tasks := (\<lambda>_. demo_task)\<rparr>"

text \<open>\<^verbatim>\<open>vfs_devices_init\<close> opens the console on descriptors 0, 1 and 2 without counting them in the node: the
  node can be unlinked, and freed, while they are open, and the next write to standard output uses a freed
  node.\<close>

theorem std_fds_not_counted:
  "\<exists>s1 s2. each (wire_std 3) [0..<3] demo_boot = Some s1 \<and> fd_get s1 1 = Some 5 \<and> vfs_unlink s1 (Some ''/a/f'') = Some (0, s2) \<and>
     vfs_write s2 1 (Some [c]) = None"
proof -
  let ?x = "blank_file\<lparr>f_node := Some 3, f_flags := O_RDWR\<rparr>"
  define s1 where "s1 = demo_boot\<lparr>next_addr := 7, files := [4 \<mapsto> ?x, 5 \<mapsto> ?x, 6 \<mapsto> ?x],
     g_tasks := (\<lambda>_. demo_task)(0 := demo_task\<lparr>t_fds := [0 \<mapsto> 4, 1 \<mapsto> 5, 2 \<mapsto> 6]\<rparr>)\<rparr>"
  have up: "[0..<3] = [0, 1, 2 :: nat]" by (simp add: upt_rec)
  have w: "each (wire_std 3) [0..<3] demo_boot = Some s1"
    by (simp add: up wire_std_def alloc_file_def kmalloc_def fd_table_def sched_current_def set_fd_def set_slot_def s1_def demo_boot_def demo_kern_def
        demo_task_def)
  have "heap_inv demo_heap 1 demo_kids 7" using demo_inv by (auto simp: heap_inv_def)
  then have ok: "vfs_ok s1" by (auto simp: vfs_ok_def s1_def demo_boot_def demo_kern_def)
  have d: "dirmap (nodes s1) = [1 \<mapsto> [''a'' \<mapsto> 2], 2 \<mapsto> [''f'' \<mapsto> 3]]" by (simp add: s1_def demo_boot_def demo_dirmap)
  have lk: "abs_lookup s1 ''/a'' = Some 2" "abs_lookup s1 ''/a/f'' = Some 3"
    using d by (simp_all add: abs_lookup_def lookup_path_def demo_segments s1_def demo_boot_def demo_kern_def)
  have n3: "nodes s1 3 = Some (the (demo_heap 3))" by (simp add: s1_def demo_boot_def demo_heap_def)
  obtain s2 where s2: "vfs_remove s1 ''/a/f'' = Some (0, s2)"
    "map_option body (nodes s2 3) = (if nd_open_refs (the (demo_heap 3)) > 0 then Some (body ((the (demo_heap 3))\<lparr>nd_unlinked := True\<rparr>)) else None)"
    "s2 = s1\<lparr>nodes := nodes s2, wfs := wfs s2\<rparr>"
    by (rule vfs_remove_step [OF ok demo_split(1) lk(1), of "[''f'' \<mapsto> 3]" 3 "the (demo_heap 3)"])
      (use d n3 in \<open>simp_all add: empty_node_def\<close>)
  have gone: "nodes s2 3 = None" using s2(2) by (simp add: demo_heap_def zero_node_def)
  obtain h w where e: "s2 = s1\<lparr>nodes := h, wfs := w\<rparr>" using s2(3) by blast
  have "parent_writable s1 ''/a/f'' = Some True"
    using lk(1) by (simp add: parent_writable_def vfs_parent_of_def demo_split vfs_lookup_eq [OF ok])
      (simp add: vfs_access_ok_def vfs_caller_ids_def sched_current_def s1_def demo_boot_def demo_kern_def demo_task_def demo_heap_def zero_node_def)
  then have ul: "vfs_unlink s1 (Some ''/a/f'') = Some (0, s2)" using s2(1) lk(2) by (simp add: vfs_unlink_def vfs_lookup_eq [OF ok])
  have f: "fd_file s2 1 = Some (Some (5, ?x))" "fd_get s1 1 = Some 5"
    unfolding e by (simp_all add: fd_file_def fd_get_def fd_table_def sched_current_def s1_def demo_boot_def demo_kern_def)
  then have "vfs_write s2 1 (Some [c]) = None" using gone by (simp add: vfs_write_def blank_file_def)
  then show ?thesis using w ul f(2) by blast
qed

end
