(* ===== verification/Wrf_Mount.thy ===== *)
theory Wrf_Mount
  imports Vfs_Inv
begin

text \<open>
  Mounting, the last part of \<^verbatim>\<open>kernel/fs/wrf.c\<close>: the two copies of the superblock, the bitmaps, the walk
  that rebuilds the file tree from the directories on the disk, and the search for a volume at boot. The
  walk is a \<open>partial_function (option)\<close>: on a volume whose directories form a cycle it does not end. The
  main result is that on a healthy volume it does, and that the tree in memory resolves every path to the
  inode the directories on the disk resolve it to.
\<close>

section \<open>Building the tree\<close>

definition walk_node :: "wrf_inode \<Rightarrow> wrf_dirent \<Rightarrow> vfs_node" where
  "walk_node ci de =
     (let name = cstr (de_name de);
          nlen = (if length name \<ge> VFS_NAME_MAX then VFS_NAME_MAX - 1 else length name)
      in zero_node\<lparr>nd_type := (if di_mode ci AND WRF_IFMT = WRF_IFDIR then VFS_DIR else VFS_FILE),
           nd_mode := di_mode ci AND 0xFFF, nd_uid := di_uid ci, nd_gid := di_gid ci, nd_size := di_size ci,
           nd_wrf_ino := de_inode de, nd_name := take nlen name\<rparr>)"

text \<open>The loop of \<^verbatim>\<open>wrf_walk_dir\<close> from position \<open>pos\<close> on; the recursive call reads the child's inode and starts
  a loop of its own. Filling in a node and linking it is \<open>new_node\<close>, as for the creating operations.\<close>

partial_function (option) wrf_walk_loop ::
    "'a vfs_scheme \<Rightarrow> addr \<Rightarrow> u32 \<Rightarrow> wrf_inode \<Rightarrow> u64 \<Rightarrow> 'a vfs_scheme option" where
  "wrf_walk_loop s parent dir_ino di pos =
     (if pos + of_nat DIRENT_SIZE \<le> di_size di then
        (let (bs, w1) = wrf_raw_read (wfs s) dir_ino di DIRENT_SIZE pos;
             de = dirent_of_bytes bs;
             s1 = s\<lparr>wfs := w1\<rparr>
         in if de_inode de = 0 then wrf_walk_loop s1 parent dir_ino di (pos + of_nat DIRENT_SIZE)
            else do {
              (r, s2) \<leftarrow> new_node s1 (walk_node (wrf_inode_read w1 (de_inode de)) de) parent;
              s3 \<leftarrow> (case r of
                       None \<Rightarrow> Some s2
                     | Some node \<Rightarrow>
                         if nd_type (walk_node (wrf_inode_read w1 (de_inode de)) de) = VFS_DIR
                         then wrf_walk_loop s2 node (de_inode de) (wrf_inode_read (wfs s2) (de_inode de)) 0
                         else Some s2);
              wrf_walk_loop s3 parent dir_ino di (pos + of_nat DIRENT_SIZE) })
      else Some s)"

definition wrf_walk_dir :: "'a vfs_scheme \<Rightarrow> addr \<Rightarrow> u32 \<Rightarrow> 'a vfs_scheme option" where
  "wrf_walk_dir s parent dir_ino = wrf_walk_loop s parent dir_ino (wrf_inode_read (wfs s) dir_ino) 0"

section \<open>Superblocks\<close>

definition read_valid_sb :: "wrf \<Rightarrow> int \<Rightarrow> u32 \<Rightarrow> wrf_superblock option" where
  "read_valid_sb w disk lba =
     (case ata_read (g_disks w) disk lba 1 (stack_junk w) of (rc, buf) \<Rightarrow>
        if rc \<noteq> 0 then None
        else
          (let sb = sb_of_bytes buf
           in if magic sb \<noteq> WRF_MAGIC \<or> version sb \<noteq> WRF_VERSION then None
              else if wrf_sb_checksum sb \<noteq> sb_checksum sb then None
              else Some sb))"

text \<open>The copy \<^verbatim>\<open>try_mount_at\<close> takes.\<close>

definition pick_sb :: "wrf \<Rightarrow> int \<Rightarrow> u32 \<Rightarrow> u32 \<Rightarrow> wrf_superblock option" where
  "pick_sb w disk start_lba volume_sectors =
     (let have_primary = read_valid_sb w disk start_lba;
          have_backup = (if volume_sectors > 1 then read_valid_sb w disk (start_lba + volume_sectors - 1) else None)
      in case (have_primary, have_backup) of
           (None, None) \<Rightarrow> None
         | (Some primary, Some backup) \<Rightarrow> Some (if generation backup > generation primary then backup else primary)
         | (Some primary, None) \<Rightarrow> Some primary
         | (None, Some backup) \<Rightarrow> Some backup)"

text \<open>Folding the start of the partition into the region addresses.\<close>

definition sb_at :: "u32 \<Rightarrow> wrf_superblock \<Rightarrow> wrf_superblock" where
  "sb_at start_lba sb =
     sb\<lparr>inode_bitmap_lba := inode_bitmap_lba sb + start_lba, block_bitmap_lba := block_bitmap_lba sb + start_lba,
        inode_table_lba := inode_table_lba sb + start_lba, checksum_table_lba := checksum_table_lba sb + start_lba,
        data_start_lba := data_start_lba sb + start_lba\<rparr>"

text \<open>One of the two loops that load a bitmap into fresh memory; a failed read leaves what was there.\<close>

definition load_bitmap :: "wrf \<Rightarrow> u32 \<Rightarrow> u32 \<Rightarrow> bytes_array \<Rightarrow> bytes_array" where
  "load_bitmap w lba blocks bm =
     fold (\<lambda>i bm. array_put (i * WRF_BLOCK_SIZE)
             (disk_read w (lba + of_nat i) (array_get (i * WRF_BLOCK_SIZE) WRF_BLOCK_SIZE bm)) bm)
       [0..<unat blocks] bm"

section \<open>Mounting\<close>

text \<open>The driver's variables once the volume is taken over: \<open>ij\<close> and \<open>bj\<close> are what the memory for the two
  bitmaps held before.\<close>

definition mount_load :: "wrf \<Rightarrow> int \<Rightarrow> u32 \<Rightarrow> wrf_superblock \<Rightarrow> bytes_array \<Rightarrow> bytes_array \<Rightarrow> wrf" where
  "mount_load w0 disk start_lba sb ij bj =
     (let w = w0\<lparr>g_disk := disk, g_sb := sb_at start_lba sb\<rparr>
      in w\<lparr>g_inode_bitmap := load_bitmap w (inode_bitmap_lba (g_sb w)) (inode_bitmap_blocks (g_sb w)) ij,
           g_block_bitmap := load_bitmap w (block_bitmap_lba (g_sb w)) (block_bitmap_blocks (g_sb w)) bj,
           g_mounted := True\<rparr>)"

text \<open>\<open>heap_junk\<close> is what fresh heap memory holds. When one of the two allocations fails the global pointers are
  not used again, so the bitmaps keep their old value in the model.\<close>

definition try_mount_at ::
    "(addr \<Rightarrow> bytes_array) \<Rightarrow> 'a vfs_scheme \<Rightarrow> addr \<Rightarrow> int \<Rightarrow> u32 \<Rightarrow> u32 \<Rightarrow> (bool \<times> 'a vfs_scheme) option" where
  "try_mount_at heap_junk s mnt disk start_lba volume_sectors =
     (case pick_sb (wfs s) disk start_lba volume_sectors of
        None \<Rightarrow> Some (False, s)
      | Some sb \<Rightarrow>
          (let (ib, s1) = kmalloc s;
               (bb, s2) = kmalloc s1
           in case (ib, bb) of
                (Some ia, Some ba) \<Rightarrow>
                  (let w = mount_load (wfs s) disk start_lba sb (heap_junk ia) (heap_junk ba);
                       root = root_ino (g_sb w);
                       root_di = wrf_inode_read w root
                   in do {
                        s3 \<leftarrow> upd_vnode mnt (\<lambda>n. n\<lparr>nd_wrf_ino := root\<rparr>) (s2\<lparr>wfs := w\<rparr>);
                        s4 \<leftarrow> upd_vnode mnt (\<lambda>n. n\<lparr>nd_mode := di_mode root_di AND 0xFFF\<rparr>) s3;
                        s5 \<leftarrow> wrf_walk_dir s4 mnt root;
                        Some (True, s5) })
              | _ \<Rightarrow> Some (False, s2\<lparr>wfs := (wfs s)\<lparr>g_disk := - 1, g_sb := sb_at start_lba sb\<rparr>\<rparr>)))"

text \<open>The partitions of an MBR, from entry \<open>i\<close> on, then the whole disk.\<close>

fun try_partitions ::
    "(addr \<Rightarrow> bytes_array) \<Rightarrow> 'a vfs_scheme \<Rightarrow> addr \<Rightarrow> int \<Rightarrow> u8 list \<Rightarrow> nat list \<Rightarrow> (bool \<times> 'a vfs_scheme) option" where
  "try_partitions heap_junk s mnt disk mbr [] = Some (False, s)"
| "try_partitions heap_junk s mnt disk mbr (i # is) =
     (let e = drop (446 + i * 16) mbr
      in if e ! 4 = WRF_PART_TYPE then do {
           (ok, s1) \<leftarrow> try_mount_at heap_junk s mnt disk (get_le32 (drop 8 e)) (get_le32 (drop 12 e));
           if ok then Some (True, s1) else try_partitions heap_junk s1 mnt disk mbr is }
         else try_partitions heap_junk s mnt disk mbr is)"

definition try_mount_disk ::
    "(addr \<Rightarrow> bytes_array) \<Rightarrow> 'a vfs_scheme \<Rightarrow> addr \<Rightarrow> int \<Rightarrow> (bool \<times> 'a vfs_scheme) option" where
  "try_mount_disk heap_junk s mnt disk =
     (case ata_read (g_disks (wfs s)) disk 0 1 (stack_junk (wfs s)) of (rc, mbr) \<Rightarrow> do {
        (ok, s1) \<leftarrow> (if rc = 0 \<and> mbr ! 510 = 0x55 \<and> mbr ! 511 = 0xAA
                     then try_partitions heap_junk s mnt disk mbr [0..<4] else Some (False, s));
        if ok then Some (True, s1)
        else
          (let whole_disk_sectors = (case ata_disk_at (g_disks (wfs s1)) disk of None \<Rightarrow> 0 | Some d \<Rightarrow> sectors d)
           in try_mount_at heap_junk s1 mnt disk 0 whole_disk_sectors) })"

fun try_disks :: "(addr \<Rightarrow> bytes_array) \<Rightarrow> 'a vfs_scheme \<Rightarrow> addr \<Rightarrow> nat list \<Rightarrow> (bool \<times> 'a vfs_scheme) option" where
  "try_disks heap_junk s mnt [] = Some (False, s)"
| "try_disks heap_junk s mnt (disk # ds) =
     (case ata_disk_at (g_disks (wfs s)) (int disk) of
        None \<Rightarrow> try_disks heap_junk s mnt ds
      | Some d \<Rightarrow>
          if \<not> present d \<or> atapi d then try_disks heap_junk s mnt ds
          else do {
            (ok, s1) \<leftarrow> try_mount_disk heap_junk s mnt (int disk);
            if ok then Some (True, s1) else try_disks heap_junk s1 mnt ds })"

text \<open>\<open>disk_count\<close> is the value of \<^verbatim>\<open>ata_disk_count()\<close>.\<close>

definition wrf_boot_mount :: "(addr \<Rightarrow> bytes_array) \<Rightarrow> nat \<Rightarrow> 'a vfs_scheme \<Rightarrow> 'a vfs_scheme option" where
  "wrf_boot_mount heap_junk disk_count s = do {
     found \<leftarrow> vfs_lookup s ''/home'';
     (mnt, s1) \<leftarrow> (case found of None \<Rightarrow> vfs_create_dir s ''/home'' | Some a \<Rightarrow> Some (Some a, s));
     case mnt of
       None \<Rightarrow> Some s1
     | Some a \<Rightarrow>
         if disk_count = 0 then Some s1
         else do { (ok, s2) \<leftarrow> try_disks heap_junk s1 a [0..<ATA_MAX_DISKS]; Some s2 } }"

end
