(* ===== verification/Wrf_Mount_Props.thy ===== *)
theory Wrf_Mount_Props
  imports Wrf_Mount
begin

text \<open>
  Correctness of mounting. \<open>disk_walk\<close> resolves a path in the directories on the disk; \<open>mirrors\<close> says that the
  tree in memory below a node resolves every path to a node that carries the inode and the attributes found
  there. The walk of a volume whose directories are a finite tree ends and establishes \<open>mirrors\<close>.
\<close>

section \<open>The directories of a volume\<close>

definition is_dir :: "wrf_inode \<Rightarrow> bool" where
  "is_dir di \<longleftrightarrow> di_mode di AND WRF_IFMT = WRF_IFDIR"

fun disk_walk :: "wrf \<Rightarrow> u32 \<Rightarrow> string list \<Rightarrow> u32 option" where
  "disk_walk w i [] = Some i"
| "disk_walk w i (c # cs) =
     (if is_dir (vino (vol_of w) i)
      then (case dir_lookup w (vino (vol_of w) i) c of None \<Rightarrow> None | Some j \<Rightarrow> disk_walk w j cs)
      else None)"

text \<open>Directories nested at most \<open>n\<close> deep below inode \<open>i\<close>, with distinct names that fit a node.\<close>

definition entries_ok :: "(u32 \<Rightarrow> bool) \<Rightarrow> wrf \<Rightarrow> wrf_inode \<Rightarrow> bool" where
  "entries_ok P w di \<longleftrightarrow> is_dir di \<and> dir_ok w di \<and>
     (\<forall>k < n_ents di. de_inode (dirent_at w di k) \<noteq> 0 \<longrightarrow>
        valid_ino w (de_inode (dirent_at w di k)) \<and> name_ok (cstr (de_name (dirent_at w di k))) \<and>
        (is_dir (vino (vol_of w) (de_inode (dirent_at w di k))) \<longrightarrow> P (de_inode (dirent_at w di k))) \<and>
        (\<forall>j < k. \<not> live (cstr (de_name (dirent_at w di k))) (dirent_at w di j)))"

fun dirs_ok :: "nat \<Rightarrow> wrf \<Rightarrow> u32 \<Rightarrow> bool" where
  "dirs_ok 0 w i = False"
| "dirs_ok (Suc n) w i \<longleftrightarrow> valid_ino w i \<and> entries_ok (dirs_ok n w) w (vino (vol_of w) i)"

text \<open>Reading changes nothing the model of a volume sees.\<close>

definition same_vol :: "wrf \<Rightarrow> wrf \<Rightarrow> bool" where
  "same_vol w w' \<longleftrightarrow> evolves w w' \<and> vol_of w' = vol_of w"

lemma same_vol_refl: "vol_ok w \<Longrightarrow> same_vol w w"
  by (simp add: same_vol_def evolves_refl)

lemma same_vol_trans [trans]: "same_vol w w1 \<Longrightarrow> same_vol w1 w2 \<Longrightarrow> same_vol w w2"
  by (auto simp: same_vol_def intro: evolves_trans)

lemma same_volD:
  assumes "same_vol w w'"
  shows "vol_ok w'" "vol_of w' = vol_of w" "valid_ino w' = valid_ino w" "valid_blk w' = valid_blk w"
    "dirent_at w' = dirent_at w" "dir_ok w di \<Longrightarrow> dir_ok w' di"
proof -
  show v: "vol_ok w'" "vol_of w' = vol_of w" "valid_ino w' = valid_ino w" "valid_blk w' = valid_blk w"
    using assms evolvesD(2,6,7) [of w w'] unfolding same_vol_def by blast+
  show "dirent_at w' = dirent_at w" by (intro ext) (simp only: dirent_at_def fbyte_vol [OF v(2)])
  show "dir_ok w di \<Longrightarrow> dir_ok w' di" by (rule dir_ok_same [OF _ v(2,4)])
qed

section \<open>How the tree grows\<close>

text \<open>From \<open>s\<close> to \<open>s'\<close> only the directory \<open>p\<close> and new nodes changed, and new directories lead only to new nodes.\<close>

definition grown :: "'a vfs_scheme \<Rightarrow> addr \<Rightarrow> 'a vfs_scheme \<Rightarrow> bool" where
  "grown s p s' \<longleftrightarrow> vfs_ok s' \<and> next_addr s \<le> next_addr s' \<and> same_vol (wfs s) (wfs s') \<and>
     s' = s\<lparr>nodes := nodes s', next_addr := next_addr s', wfs := wfs s'\<rparr> \<and>
     (\<forall>d < next_addr s. d \<noteq> p \<longrightarrow> dirmap (nodes s') d = dirmap (nodes s) d) \<and>
     (\<forall>b < next_addr s. map_option body (nodes s' b) = map_option body (nodes s b)) \<and>
     (\<forall>d m nm b. next_addr s \<le> d \<longrightarrow> dirmap (nodes s') d = Some m \<longrightarrow> m nm = Some b \<longrightarrow> next_addr s \<le> b)"

lemma vfs_ok_dirmap:
  assumes "vfs_ok s" "dirmap (nodes s) d = Some m"
  shows "d < next_addr s" "m nm = Some b \<Longrightarrow> b < next_addr s"
proof -
  obtain r kids where i: "heap_inv (nodes s) r kids (next_addr s)" and t: "tree (nodes s) r kids"
    using assms(1) by (elim vfs_okE)
  show "d < next_addr s" using dirmap_SomeD(1) [OF t assms(2)] heap_invD(2) [OF i]
    by (auto simp: dir_at_def split: option.splits)
  show "b < next_addr s" if "m nm = Some b"
    using dirmap_SomeD(2) [OF t assms(2)] that treeD(4) [OF t] heap_invD(2) [OF i] by blast
qed

lemma grown_refl:
  assumes "vfs_ok s" "vol_ok (wfs s)"
  shows "grown s p s"
  using assms vfs_ok_dirmap(1) [OF assms(1)] by (auto simp: grown_def same_vol_refl not_less [symmetric])

lemma grownD:
  assumes "grown s p s'"
  shows "vfs_ok s'" "next_addr s \<le> next_addr s'" "same_vol (wfs s) (wfs s')" "oom s' = oom s"
    "d < next_addr s \<Longrightarrow> d \<noteq> p \<Longrightarrow> dirmap (nodes s') d = dirmap (nodes s) d"
    "b < next_addr s \<Longrightarrow> map_option body (nodes s' b) = map_option body (nodes s b)"
    "next_addr s \<le> d \<Longrightarrow> dirmap (nodes s') d = Some m \<Longrightarrow> m nm = Some b \<Longrightarrow> next_addr s \<le> b"
proof -
  obtain h a w where "s' = s\<lparr>nodes := h, next_addr := a, wfs := w\<rparr>" using assms unfolding grown_def by blast
  then show "oom s' = oom s" by simp
qed (use assms in \<open>unfold grown_def; blast\<close>)+

lemma grown_eq: "grown s p s' \<Longrightarrow> s' = s\<lparr>nodes := nodes s', next_addr := next_addr s', wfs := wfs s'\<rparr>"
  unfolding grown_def by blast

lemma grown_trans:
  assumes a: "grown s p s1" and b: "grown s1 q s2" and p: "p < next_addr s"
    and q: "q \<noteq> p \<Longrightarrow> next_addr s \<le> q"
    and qm: "\<And>m nm x. q \<noteq> p \<Longrightarrow> dirmap (nodes s2) q = Some m \<Longrightarrow> m nm = Some x \<Longrightarrow> next_addr s \<le> x"
  shows "grown s p s2"
  unfolding grown_def
proof (intro conjI allI impI)
  note A = grownD [OF a] and B = grownD [OF b]
  show "vfs_ok s2" "next_addr s \<le> next_addr s2" "same_vol (wfs s) (wfs s2)"
    using A(2,3) B(1-3) same_vol_trans by auto
  show "s2 = s\<lparr>nodes := nodes s2, next_addr := next_addr s2, wfs := wfs s2\<rparr>"
    by (subst grown_eq [OF b], subst grown_eq [OF a]) simp
  show "dirmap (nodes s2) d = dirmap (nodes s) d" if "d < next_addr s" "d \<noteq> p" for d
    using A(2) A(5) [OF that] B(5) [of d] that q by fastforce
  show "map_option body (nodes s2 x) = map_option body (nodes s x)" if "x < next_addr s" for x
    using A(2) A(6) [OF that] B(6) [of x] that by fastforce
  fix d m nm x assume d: "next_addr s \<le> d" "dirmap (nodes s2) d = Some m" "m nm = Some x"
  consider "d = q" | "d \<noteq> q" "d < next_addr s1" | "next_addr s1 \<le> d" by linarith
  then show "next_addr s \<le> x"
  proof cases
    case 1
    then show ?thesis using qm [of m nm x] d p by auto
  next
    case 2
    then show ?thesis using A(7) [OF d(1), of m] B(5) [of d] d by simp
  next
    case 3
    then show ?thesis using B(7) [OF 3 d(2,3)] A(2) by simp
  qed
qed

section \<open>The tree mirrors the disk\<close>

definition node_is :: "wrf \<Rightarrow> vfs_node \<Rightarrow> u32 \<Rightarrow> bool" where
  "node_is w n i \<longleftrightarrow> (let di = vino (vol_of w) i in
     nd_wrf_ino n = i \<and> nd_type n = (if is_dir di then VFS_DIR else VFS_FILE) \<and> nd_mode n = di_mode di AND 0xFFF \<and>
     nd_uid n = di_uid di \<and> nd_gid n = di_gid di \<and> nd_size n = di_size di)"

definition matched :: "'a vfs_scheme \<Rightarrow> wrf \<Rightarrow> addr option \<Rightarrow> u32 option \<Rightarrow> bool" where
  "matched s w b i \<longleftrightarrow>
     (case (b, i) of
        (None, None) \<Rightarrow> True
      | (Some a, Some j) \<Rightarrow> (case nodes s a of None \<Rightarrow> False | Some n \<Rightarrow> node_is w n j)
      | _ \<Rightarrow> False)"

definition mirrors :: "'a vfs_scheme \<Rightarrow> wrf \<Rightarrow> addr \<Rightarrow> u32 \<Rightarrow> bool" where
  "mirrors s w a i \<longleftrightarrow> (\<forall>c cs. matched s w (awalk (dirmap (nodes s)) a (c # cs)) (disk_walk w i (c # cs)))"

definition good :: "'a vfs_scheme \<Rightarrow> wrf \<Rightarrow> addr \<Rightarrow> u32 \<Rightarrow> bool" where
  "good s w a i \<longleftrightarrow> matched s w (Some a) (Some i) \<and> mirrors s w a i"

lemma good_walk: "good s w a i \<Longrightarrow> matched s w (awalk (dirmap (nodes s)) a cs) (disk_walk w i cs)"
  by (cases cs) (simp_all add: good_def mirrors_def)

lemma mirrors_file:
  assumes "dirmap (nodes s) a = None" "\<not> is_dir (vino (vol_of w) i)"
  shows "mirrors s w a i"
  using assms by (simp add: mirrors_def matched_def)

lemma mirrors_dir:
  assumes "dirmap (nodes s) a = Some m" "is_dir (vino (vol_of w) i)"
    and "\<And>nm. case dir_lookup w (vino (vol_of w) i) nm of
        None \<Rightarrow> m nm = None | Some j \<Rightarrow> \<exists>b. m nm = Some b \<and> good s w b j"
  shows "mirrors s w a i"
  unfolding mirrors_def
proof (intro allI)
  fix c cs
  show "matched s w (awalk (dirmap (nodes s)) a (c # cs)) (disk_walk w i (c # cs))"
    using assms(1,2) assms(3) [of c]
    by (cases "dir_lookup w (vino (vol_of w) i) c") (auto simp: matched_def [of s w None] dest: good_walk)
qed

lemma matched_body:
  assumes "matched s w b i" "\<And>a. b = Some a \<Longrightarrow> map_option body (nodes s' a) = map_option body (nodes s a)"
  shows "matched s' w b i"
proof (cases b)
  case None
  then show ?thesis using assms(1) by (simp add: matched_def)
next
  case (Some a)
  then obtain j n where j: "i = Some j" "nodes s a = Some n" "node_is w n j"
    using assms(1) by (auto simp: matched_def split: option.splits)
  then obtain n' where "nodes s' a = Some n'" "body n' = body n"
    using assms(2) [OF Some] by (cases "nodes s' a") auto
  then show ?thesis using j Some body_eqD [of n' n] by (auto simp: matched_def node_is_def)
qed

text \<open>A finished subtree is not touched by what is built after it.\<close>

lemma awalk_frame:
  assumes ok: "vfs_ok s" and g: "grown s p s'" and p: "p < lo" "lo \<le> a" "a < next_addr s"
    and cl: "\<And>d m nm b. lo \<le> d \<Longrightarrow> dirmap (nodes s) d = Some m \<Longrightarrow> m nm = Some b \<Longrightarrow> lo \<le> b"
  shows "awalk (dirmap (nodes s')) a cs = awalk (dirmap (nodes s)) a cs \<and>
    (\<forall>b. awalk (dirmap (nodes s)) a cs = Some b \<longrightarrow> b < next_addr s)"
  using p(2,3)
proof (induction cs arbitrary: a)
  case (Cons c cs)
  have D: "dirmap (nodes s') a = dirmap (nodes s) a" using grownD(5) [OF g, of a] Cons.prems p(1) by simp
  have "lo \<le> b \<and> b < next_addr s" if "dirmap (nodes s) a = Some m" "m c = Some b" for m b
    using cl [OF Cons.prems(1) that] vfs_ok_dirmap(2) [OF ok that] by simp
  then show ?case using D Cons.IH by (auto split: option.splits)
qed simp

lemma good_frame:
  assumes ok: "vfs_ok s" and g: "grown s p s'" and p: "p < lo" "lo \<le> a" and good: "good s w a i"
    and cl: "\<And>d m nm b. lo \<le> d \<Longrightarrow> dirmap (nodes s) d = Some m \<Longrightarrow> m nm = Some b \<Longrightarrow> lo \<le> b"
  shows "good s' w a i"
proof -
  have "\<exists>n. nodes s a = Some n" using good by (auto simp: good_def matched_def split: option.splits)
  then have a: "a < next_addr s" using ok heap_invD(2) by (elim vfs_okE) blast
  have fr: "awalk (dirmap (nodes s')) a cs = awalk (dirmap (nodes s)) a cs \<and>
      (\<forall>b. awalk (dirmap (nodes s)) a cs = Some b \<longrightarrow> b < next_addr s)" for cs
    by (rule awalk_frame [OF ok g p a]) (rule cl)
  have "matched s' w (awalk (dirmap (nodes s')) a cs) (disk_walk w i cs)" for cs
    using fr [of cs] grownD(6) [OF g] by (auto intro!: matched_body [OF good_walk [OF good]])
  with this [of "[]"] show ?thesis
    unfolding good_def mirrors_def by (simp del: awalk.simps(2) disk_walk.simps(2))
qed

section \<open>The walk\<close>

definition can_walk :: "wrf \<Rightarrow> 'a vfs_scheme \<Rightarrow> addr \<Rightarrow> bool" where
  "can_walk w s p \<longleftrightarrow> vfs_ok s \<and> same_vol w (wfs s) \<and> (\<forall>a. \<not> oom s a) \<and>
     (\<exists>pn. nodes s p = Some pn \<and> \<not> nd_unlinked pn)"

lemma can_walk_addr: "can_walk w s p \<Longrightarrow> p < next_addr s"
  unfolding can_walk_def using heap_invD(2) by (elim conjE vfs_okE) blast

lemma can_walk_grown:
  assumes "can_walk w s p" "grown s q s'"
  shows "can_walk w s' p"
proof -
  note g = grownD [OF assms(2)]
  obtain pn where pn: "nodes s p = Some pn" "\<not> nd_unlinked pn" using assms(1) by (auto simp: can_walk_def)
  then obtain pn' where "nodes s' p = Some pn'" "body pn' = body pn"
    using g(6) [OF can_walk_addr [OF assms(1)]] by (cases "nodes s' p") auto
  moreover have "same_vol w (wfs s')" using assms(1) g(3) same_vol_trans by (auto simp: can_walk_def)
  ultimately show ?thesis using assms(1) g(1,4) pn(2) body_eqD(6) [of pn' pn] by (simp add: can_walk_def)
qed

lemma walk_guard:
  assumes "dir_ok w di" "k \<le> n_ents di"
  shows "of_nat (DIRENT_SIZE * k) + of_nat DIRENT_SIZE \<le> di_size di \<longleftrightarrow> k < n_ents di"
    "of_nat (DIRENT_SIZE * k) + of_nat DIRENT_SIZE = (of_nat (DIRENT_SIZE * Suc k) :: u64)"
proof -
  show e: "of_nat (DIRENT_SIZE * k) + of_nat DIRENT_SIZE = (of_nat (DIRENT_SIZE * Suc k) :: u64)" by simp
  have sz: "unat (di_size di) = DIRENT_SIZE * n_ents di" "DIRENT_SIZE * n_ents di \<le> MAX_FILE"
    using dir_ok_size [OF assms(1)] by auto
  then have "DIRENT_SIZE * Suc k < 2 ^ 64" using assms(2) by simp
  then have "unat (of_nat (DIRENT_SIZE * Suc k) :: u64) = DIRENT_SIZE * Suc k" by (subst unat_of_nat) simp
  then show "of_nat (DIRENT_SIZE * k) + of_nat DIRENT_SIZE \<le> di_size di \<longleftrightarrow> k < n_ents di"
    unfolding e word_le_nat_alt using sz by auto
qed

lemma walk_loop_end:
  "dir_ok w di \<Longrightarrow> wrf_walk_loop s p ino di (of_nat (DIRENT_SIZE * n_ents di)) = Some s"
  by (subst wrf_walk_loop.simps) (simp only: walk_guard(1) [OF _ order_refl] less_irrefl if_False)

text \<open>One entry: nothing, or a node with what lies below it.\<close>

definition walk_entry :: "'a vfs_scheme \<Rightarrow> addr \<Rightarrow> wrf_dirent \<Rightarrow> 'a vfs_scheme option" where
  "walk_entry s p de =
     (if de_inode de = 0 then Some s
      else do {
        (r, s2) \<leftarrow> new_node s (walk_node (wrf_inode_read (wfs s) (de_inode de)) de) p;
        case r of
          None \<Rightarrow> Some s2
        | Some node \<Rightarrow>
            if nd_type (walk_node (wrf_inode_read (wfs s) (de_inode de)) de) = VFS_DIR
            then wrf_walk_dir s2 node (de_inode de) else Some s2 })"

lemma walk_loop_step:
  assumes ok: "same_vol w (wfs s)" "dir_ok w di" "k < n_ents di"
  obtains w1 where "same_vol (wfs s) w1"
    "wrf_walk_loop s p ino di (of_nat (DIRENT_SIZE * k)) =
       do { s3 \<leftarrow> walk_entry (s\<lparr>wfs := w1\<rparr>) p (dirent_at w di k); wrf_walk_loop s3 p ino di (of_nat (DIRENT_SIZE * Suc k)) }"
proof -
  note sv = same_volD [OF ok(1)]
  obtain bs w1 where rd: "wrf_raw_read (wfs s) ino di DIRENT_SIZE (of_nat (DIRENT_SIZE * k)) = (bs, w1)"
    "dirent_of_bytes bs = dirent_at (wfs s) di k" "evolves (wfs s) w1" "vol_of w1 = vol_of (wfs s)"
    by (rule dirent_read [OF sv(1) sv(6) [OF ok(2)] ok(3)])
  have k: "k \<le> n_ents di" using ok(3) by simp
  have "wrf_walk_loop s p ino di (of_nat (DIRENT_SIZE * k)) =
       do { s3 \<leftarrow> walk_entry (s\<lparr>wfs := w1\<rparr>) p (dirent_at w di k); wrf_walk_loop s3 p ino di (of_nat (DIRENT_SIZE * Suc k)) }"
    apply (subst wrf_walk_loop.simps)
    unfolding walk_guard(1) [OF ok(2) k]
    unfolding walk_guard(2) [OF ok(2) k] rd(1)
    using ok(3) by (auto simp: rd(2) sv(5) walk_entry_def wrf_walk_dir_def Let_def Option.bind_assoc case_prod_beta
        intro!: Option.bind_cong split: option.split)
  then show ?thesis using that [of w1] rd(3,4) by (simp add: same_vol_def)
qed

lemma walk_node_is:
  assumes "same_vol w (wfs s)" "valid_ino w (de_inode de)" "name_ok (cstr (de_name de))"
  defines "n \<equiv> walk_node (wrf_inode_read (wfs s) (de_inode de)) de"
  shows "node_is w n (de_inode de)" "nd_name n = cstr (de_name de)" "nd_child n = None" "\<not> nd_unlinked n"
    "nd_type n = VFS_DIR \<longleftrightarrow> is_dir (vino (vol_of w) (de_inode de))"
proof -
  have "wrf_inode_read (wfs s) (de_inode de) = vino (vol_of w) (de_inode de)"
    using wrf_inode_read_vol [of "wfs s" "de_inode de"] same_volD(1-3) [OF assms(1)] assms(2) by simp
  then show "node_is w n (de_inode de)" "nd_name n = cstr (de_name de)" "nd_child n = None" "\<not> nd_unlinked n"
    "nd_type n = VFS_DIR \<longleftrightarrow> is_dir (vino (vol_of w) (de_inode de))"
    using assms(3) by (simp_all add: n_def walk_node_def node_is_def zero_node_def is_dir_def name_ok_def Let_def)
qed

lemma new_node_grown:
  assumes ok: "vfs_ok s" "vol_ok (wfs s)" "dirmap (nodes s) p = Some m" "nodes s p = Some pn"
    and new: "dirmap (nodes s') = with_entry (dirmap (nodes s)) p nm (next_addr s) d" "vfs_ok s'"
      "\<And>b. b \<noteq> next_addr s \<Longrightarrow> map_option body (nodes s' b) = map_option body (nodes s b)"
      "s' = s\<lparr>nodes := nodes s', next_addr := Suc (next_addr s)\<rparr>"
  shows "grown s p s'" "dirmap (nodes s') p = Some (m(nm \<mapsto> next_addr s))"
    "dirmap (nodes s') (next_addr s) = (if d then Some Map.empty else None)" "next_addr s' = Suc (next_addr s)" "wfs s' = wfs s"
proof -
  obtain h where e: "s' = s\<lparr>nodes := h, next_addr := Suc (next_addr s)\<rparr>" using new(4) by blast
  have p: "p < next_addr s" using vfs_ok_dirmap(1) [OF ok(1,3)] .
  show D: "dirmap (nodes s') p = Some (m(nm \<mapsto> next_addr s))"
    "dirmap (nodes s') (next_addr s) = (if d then Some Map.empty else None)" "next_addr s' = Suc (next_addr s)" "wfs s' = wfs s"
    using p ok(3) unfolding new(1) by (simp_all add: with_entry_def) (simp_all add: e)
  have "next_addr s \<le> x" if "next_addr s \<le> b" "dirmap (nodes s') b = Some m'" "m' c = Some x" for b m' c x
    using that p vfs_ok_dirmap(1) [OF ok(1), of b m'] unfolding new(1) by (auto simp: with_entry_def split: if_splits)
  moreover have "dirmap (nodes s') b = dirmap (nodes s) b" if "b < next_addr s" "b \<noteq> p" for b
    using that unfolding new(1) by (simp add: with_entry_def)
  ultimately show "grown s p s'"
    unfolding grown_def using new(2,3) same_vol_refl [OF ok(2)] by (auto simp: D) (simp add: e)
qed

text \<open>What walking a directory into an empty node achieves.\<close>

definition walked :: "wrf \<Rightarrow> 'a vfs_scheme \<Rightarrow> addr \<Rightarrow> u32 \<Rightarrow> 'a vfs_scheme \<Rightarrow> bool" where
  "walked w s a i s' \<longleftrightarrow> grown s a s' \<and> mirrors s' w a i \<and>
     (\<forall>m nm b. dirmap (nodes s') a = Some m \<longrightarrow> m nm = Some b \<longrightarrow> next_addr s \<le> b)"

definition walkable :: "wrf \<Rightarrow> 'a itself \<Rightarrow> u32 \<Rightarrow> bool" where
  "walkable w T i \<longleftrightarrow> (\<forall>(s :: 'a vfs_scheme) a. can_walk w s a \<longrightarrow> dirmap (nodes s) a = Some Map.empty \<longrightarrow>
     (\<exists>s'. wrf_walk_dir s a i = Some s' \<and> walked w s a i s'))"

lemma walk_entry_correct:
  fixes s :: "'a vfs_scheme"
  assumes cw: "can_walk w s p" and D: "dirmap (nodes s) p = Some m"
    and de: "de_inode de \<noteq> 0" "valid_ino w (de_inode de)" "name_ok (cstr (de_name de))" "m (cstr (de_name de)) = None"
    and sub: "is_dir (vino (vol_of w) (de_inode de)) \<Longrightarrow> walkable w TYPE('a) (de_inode de)"
  shows "\<exists>s'. walk_entry s p de = Some s' \<and> grown s p s' \<and>
    dirmap (nodes s') p = Some (m(cstr (de_name de) \<mapsto> next_addr s)) \<and> good s' w (next_addr s) (de_inode de)"
proof -
  let ?i = "de_inode de" and ?nm = "cstr (de_name de)" and ?a = "next_addr s"
  define n where "n = walk_node (wrf_inode_read (wfs s) ?i) de"
  obtain pn where pn: "nodes s p = Some pn" "\<not> nd_unlinked pn" and ok: "vfs_ok s" and sv: "same_vol w (wfs s)"
    and mem: "\<not> oom s ?a" using cw by (auto simp: can_walk_def)
  note n = walk_node_is [OF sv de(2,3), folded n_def]
  have nn: "m (nd_name n) = None" "name_ok (nd_name n)" using n(2) de(3,4) by simp_all
  obtain s2 n' where s2: "new_node s n p = Some (Some ?a, s2)" "vfs_ok s2" "nodes s ?a = None"
    "dirmap (nodes s2) = with_entry (dirmap (nodes s)) p (nd_name n) ?a (nd_type n = VFS_DIR)"
    "nodes s2 ?a = Some n'" "body n' = body (n\<lparr>nd_parent := Some p\<rparr>)"
    "\<And>b. b \<noteq> ?a \<Longrightarrow> map_option body (nodes s2 b) = map_option body (nodes s b)"
    "s2 = s\<lparr>nodes := nodes s2, next_addr := Suc ?a\<rparr>"
    by (rule new_node_at [OF ok pn D nn n(3,4) mem]) metis+
  note g2 = new_node_grown [OF ok same_volD(1) [OF sv] D pn(1) s2(4,2,7,8), unfolded n(2)]
  have ni: "node_is w n' ?i" "\<not> nd_unlinked n'" using n(1,4) body_eqD [OF s2(6)] by (simp_all add: node_is_def Let_def)
  have m2: "matched s2 w (Some ?a) (Some ?i)" using ni(1) s2(5) by (simp add: matched_def)
  have p: "p < ?a" "p \<noteq> ?a" using can_walk_addr [OF cw] by simp_all
  have run: "walk_entry s p de = (if nd_type n = VFS_DIR then wrf_walk_dir s2 ?a ?i else Some s2)"
    using de(1) s2(1) by (simp add: walk_entry_def n_def)
  show ?thesis
  proof (cases "is_dir (vino (vol_of w) ?i)")
    case False
    then have "good s2 w ?a ?i" using m2 g2(3) n(5) by (auto simp: good_def intro!: mirrors_file)
    then show ?thesis using run False n(5) g2(1,2) by simp
  next
    case True
    have cw2: "can_walk w s2 ?a" using can_walk_grown [OF cw g2(1)] s2(5) ni(2) by (auto simp: can_walk_def)
    have "dirmap (nodes s2) ?a = Some Map.empty" using g2(3) n(5) True by simp
    then obtain s3 where s3: "wrf_walk_dir s2 ?a ?i = Some s3" "grown s2 ?a s3" "mirrors s3 w ?a ?i"
      "\<And>m' nm b. dirmap (nodes s3) ?a = Some m' \<Longrightarrow> m' nm = Some b \<Longrightarrow> next_addr s2 \<le> b"
      using sub [OF True] cw2 unfolding walkable_def walked_def by blast
    have "grown s p s3"
      using s3(4) g2(4) p by (intro grown_trans [OF g2(1) s3(2)]) force+
    moreover have "dirmap (nodes s3) p = Some (m(?nm \<mapsto> ?a))"
      using grownD(5) [OF s3(2), of p] g2(2,4) p by simp
    moreover have "matched s3 w (Some ?a) (Some ?i)"
      using grownD(6) [OF s3(2), of ?a] g2(4) by (intro matched_body [OF m2]) simp
    ultimately show ?thesis using run True n(5) s3(1,3) by (simp add: good_def)
  qed
qed

lemma walk_loop_correct:
  fixes s :: "'a vfs_scheme"
  assumes ents: "entries_ok P w di" and sub: "\<And>i. P i \<Longrightarrow> walkable w TYPE('a) i"
    and "can_walk w s p" "dirmap (nodes s) p = Some m" "k \<le> n_ents di"
    and "\<And>j. k \<le> j \<Longrightarrow> j < n_ents di \<Longrightarrow> de_inode (dirent_at w di j) \<noteq> 0 \<Longrightarrow> m (cstr (de_name (dirent_at w di j))) = None"
  shows "\<exists>s' m'. wrf_walk_loop s p ino di (of_nat (DIRENT_SIZE * k)) = Some s' \<and> grown s p s' \<and> dirmap (nodes s') p = Some m' \<and>
    (\<forall>nm. case scan (\<lambda>j. live nm (dirent_at w di j)) k (n_ents di) of
        None \<Rightarrow> m' nm = m nm
      | Some j \<Rightarrow> \<exists>b. m' nm = Some b \<and> next_addr s \<le> b \<and> good s' w b (de_inode (dirent_at w di j)))"
  using assms(3-)
proof (induction "n_ents di - k" arbitrary: s m k)
  case 0
  then have k: "k = n_ents di" by simp
  have dok: "dir_ok w di" using ents by (simp add: entries_ok_def)
  have "grown s p s" using "0.prems"(1) same_volD(1) by (auto simp: can_walk_def intro: grown_refl)
  then show ?case using "0.prems"(2) walk_loop_end [OF dok] k by (auto simp: scan.simps)
next
  case (Suc l)
  let ?de = "dirent_at w di k" and ?E = "\<lambda>j. dirent_at w di j"
  have k: "k < n_ents di" using Suc.hyps(2) by simp
  have dok: "dir_ok w di" using ents by (simp add: entries_ok_def)
  obtain w1 where w1: "same_vol (wfs s) w1" "wrf_walk_loop s p ino di (of_nat (DIRENT_SIZE * k)) =
      do { s3 \<leftarrow> walk_entry (s\<lparr>wfs := w1\<rparr>) p ?de; wrf_walk_loop s3 p ino di (of_nat (DIRENT_SIZE * Suc k)) }"
    by (rule walk_loop_step [OF _ dok k]) (use Suc.prems(1) in \<open>auto simp: can_walk_def\<close>)
  let ?s1 = "s\<lparr>wfs := w1\<rparr>"
  have ok: "vfs_ok s" "vol_ok (wfs s)" using Suc.prems(1) same_volD(1) by (auto simp: can_walk_def)
  have g1: "grown s q ?s1" for q using grown_refl [OF ok, of q] w1(1) by (simp add: grown_def)
  note cw1 = can_walk_grown [OF Suc.prems(1) g1]
  have l: "l = n_ents di - Suc k" "Suc k \<le> n_ents di" using Suc.hyps(2) k by simp_all
  have sc: "scan (\<lambda>j. live nm (?E j)) k (n_ents di) = (if live nm ?de then Some k else scan (\<lambda>j. live nm (?E j)) (Suc k) (n_ents di))" for nm
    using k by (simp add: scan.simps [of _ k])
  show ?case
  proof (cases "de_inode ?de = 0")
    case True
    have "walk_entry ?s1 p ?de = Some ?s1" using True by (simp add: walk_entry_def)
    then have run: "wrf_walk_loop s p ino di (of_nat (DIRENT_SIZE * k)) = wrf_walk_loop ?s1 p ino di (of_nat (DIRENT_SIZE * Suc k))"
      using w1(2) by simp
    have D1: "dirmap (nodes ?s1) p = Some m" using Suc.prems(2) by simp
    have free: "m (cstr (de_name (?E j))) = None" if "Suc k \<le> j" "j < n_ents di" "de_inode (?E j) \<noteq> 0" for j
      using Suc.prems(4) [of j] that by simp
    obtain s' m' where r: "wrf_walk_loop ?s1 p ino di (of_nat (DIRENT_SIZE * Suc k)) = Some s'" "grown ?s1 p s'" "dirmap (nodes s') p = Some m'"
      "\<And>nm. case scan (\<lambda>j. live nm (?E j)) (Suc k) (n_ents di) of None \<Rightarrow> m' nm = m nm
        | Some j \<Rightarrow> \<exists>b. m' nm = Some b \<and> next_addr ?s1 \<le> b \<and> good s' w b (de_inode (?E j))"
      using Suc.hyps(1) [OF l(1) cw1 D1 l(2) free] by blast
    have "grown s p s'" using grown_trans [OF g1 r(2)] can_walk_addr [OF Suc.prems(1)] by simp
    moreover have "\<not> live nm ?de" for nm using True by (simp add: live_def)
    then have "case scan (\<lambda>j. live nm (?E j)) k (n_ents di) of None \<Rightarrow> m' nm = m nm
        | Some j \<Rightarrow> \<exists>b. m' nm = Some b \<and> next_addr s \<le> b \<and> good s' w b (de_inode (?E j))" for nm
      using r(4) [of nm] sc [of nm] by (auto split: option.splits)
    ultimately show ?thesis using r(1,3) unfolding run by blast
  next
    case False
    let ?nm = "cstr (de_name ?de)" and ?a = "next_addr s"
    have de: "valid_ino w (de_inode ?de)" "name_ok ?nm" "is_dir (vino (vol_of w) (de_inode ?de)) \<Longrightarrow> P (de_inode ?de)"
      using ents k False by (auto simp: entries_ok_def)
    have mn: "m ?nm = None" using Suc.prems(4) [of k] k False by simp
    obtain s3 where s3: "walk_entry ?s1 p ?de = Some s3" "grown ?s1 p s3" "dirmap (nodes s3) p = Some (m(?nm \<mapsto> ?a))"
      "good s3 w ?a (de_inode ?de)"
      using walk_entry_correct [OF cw1 _ False de(1,2), of m] Suc.prems(2) mn de(3) sub by auto
    have g3: "grown s p s3" using grown_trans [OF g1 s3(2)] can_walk_addr [OF Suc.prems(1)] by simp
    have uniq: "?nm \<noteq> cstr (de_name (?E j))" if "k < j" "j < n_ents di" "de_inode (?E j) \<noteq> 0" for j
      using ents that False by (auto simp: entries_ok_def live_def)
    have free: "(m(?nm \<mapsto> ?a)) (cstr (de_name (?E j))) = None"
      if "Suc k \<le> j" "j < n_ents di" "de_inode (?E j) \<noteq> 0" for j
      using Suc.prems(4) [of j] uniq [of j] that by simp
    obtain s' m' where r: "wrf_walk_loop s3 p ino di (of_nat (DIRENT_SIZE * Suc k)) = Some s'" "grown s3 p s'" "dirmap (nodes s') p = Some m'"
      "\<And>nm. case scan (\<lambda>j. live nm (?E j)) (Suc k) (n_ents di) of None \<Rightarrow> m' nm = (m(?nm \<mapsto> ?a)) nm
        | Some j \<Rightarrow> \<exists>b. m' nm = Some b \<and> next_addr s3 \<le> b \<and> good s' w b (de_inode (?E j))"
      using Suc.hyps(1) [OF l(1) can_walk_grown [OF Suc.prems(1) g3] s3(3) l(2) free] by blast
    have g: "grown s p s'" using grown_trans [OF g3 r(2)] can_walk_addr [OF Suc.prems(1)] by simp
    have a: "good s' w ?a (de_inode ?de)"
      by (rule good_frame [OF grownD(1) [OF g3] r(2) can_walk_addr [OF Suc.prems(1)] order_refl s3(4)]) (rule grownD(7) [OF g3])
    have "case scan (\<lambda>j. live nm (?E j)) k (n_ents di) of None \<Rightarrow> m' nm = m nm
        | Some j \<Rightarrow> \<exists>b. m' nm = Some b \<and> ?a \<le> b \<and> good s' w b (de_inode (?E j))" for nm
    proof (cases "live nm ?de")
      case True
      then have nm: "nm = ?nm" by (simp add: live_def)
      have "scan (\<lambda>j. live nm (?E j)) (Suc k) (n_ents di) = None"
        unfolding scan_None_iff using uniq nm by (metis Suc_le_eq live_def)
      then show ?thesis using r(4) [of nm] sc [of nm] True nm a by simp
    next
      case miss: False
      then have "nm \<noteq> ?nm" using False by (simp add: live_def)
      then show ?thesis using r(4) [of nm] sc [of nm] miss grownD(2) [OF g3] by (auto split: option.splits)
    qed
    then show ?thesis using r(1,3) g w1(2) s3(1) by auto
  qed
qed

lemma dir_lookup_scan:
  "dir_lookup w di nm = map_option (\<lambda>j. de_inode (dirent_at w di j)) (scan (\<lambda>j. live nm (dirent_at w di j)) 0 (n_ents di))"
  by (simp add: dir_lookup_def)

lemma walkable_dirs: "dirs_ok n w i \<Longrightarrow> walkable w TYPE('a) i"
proof (induction n arbitrary: i)
  case (Suc n)
  let ?di = "vino (vol_of w) i"
  have ents: "entries_ok (dirs_ok n w) w ?di" and vi: "valid_ino w i" using Suc.prems by simp_all
  show ?case
    unfolding walkable_def
  proof (intro allI impI)
    fix s :: "'a vfs_scheme" and a
    assume cw: "can_walk w s a" and D: "dirmap (nodes s) a = Some Map.empty"
    then have sv: "same_vol w (wfs s)" by (simp add: can_walk_def)
    have di: "wrf_inode_read (wfs s) i = ?di"
      using wrf_inode_read_vol [of "wfs s" i] same_volD(1-3) [OF sv] vi by simp
    obtain s' m' where r: "wrf_walk_loop s a i ?di (of_nat (DIRENT_SIZE * 0)) = Some s'" "grown s a s'" "dirmap (nodes s') a = Some m'"
      "\<And>nm. case scan (\<lambda>j. live nm (dirent_at w ?di j)) 0 (n_ents ?di) of
          None \<Rightarrow> m' nm = None
        | Some j \<Rightarrow> \<exists>b. m' nm = Some b \<and> next_addr s \<le> b \<and> good s' w b (de_inode (dirent_at w ?di j))"
      using walk_loop_correct [OF ents Suc.IH cw D, of 0 i] by blast
    have "mirrors s' w a i"
      using ents r(4) by (intro mirrors_dir [OF r(3)]) (force simp: entries_ok_def dir_lookup_scan split: option.splits)+
    moreover have "next_addr s \<le> b" if "m' nm = Some b" for nm b
      using r(4) [of nm] that by (auto split: option.splits)
    ultimately show "\<exists>s'. wrf_walk_dir s a i = Some s' \<and> walked w s a i s'"
      using r(1-3) di by (auto simp: wrf_walk_dir_def walked_def)
  qed
qed simp

section \<open>Loading the bitmaps\<close>

lemma load_fold:
  assumes "vol_ok w" "\<And>i. i < n \<Longrightarrow> in_vol w (lba + of_nat i)"
  defines "step \<equiv> \<lambda>i bm. array_put (i * WRF_BLOCK_SIZE)
      (disk_read w (lba + of_nat i) (array_get (i * WRF_BLOCK_SIZE) WRF_BLOCK_SIZE bm)) bm"
  shows "i < n \<Longrightarrow> array_get (i * WRF_BLOCK_SIZE) WRF_BLOCK_SIZE (fold step [0..<n] bm) = sec w (lba + of_nat i)"
  using assms(2)
proof (induction n)
  case (Suc n)
  let ?b = "fold step [0..<n] bm" and ?s = "sec w (lba + of_nat n)"
  have iv: "in_vol w (lba + of_nat n)" using Suc.prems(2) by simp
  have len: "length ?s = WRF_BLOCK_SIZE" by (rule vol_ok_sec_length [OF assms(1) iv])
  have eq: "fold step [0..<Suc n] bm = array_put (n * WRF_BLOCK_SIZE) ?s ?b"
    using disk_read_ok [OF assms(1) iv] by (simp add: step_def)
  show ?case
  proof (cases "i = n")
    case True
    then show ?thesis unfolding eq using array_get_put_same [of "n * WRF_BLOCK_SIZE" ?s ?b] len by simp
  next
    case False
    then have "i < n" using Suc.prems(1) by simp
    moreover have "array_get (i * WRF_BLOCK_SIZE) WRF_BLOCK_SIZE (array_put (n * WRF_BLOCK_SIZE) ?s ?b) =
        array_get (i * WRF_BLOCK_SIZE) WRF_BLOCK_SIZE ?b"
      using \<open>i < n\<close> len by (intro array_get_put_disjoint) auto
    ultimately show ?thesis unfolding eq using Suc.IH Suc.prems(2) by simp
  qed
qed simp

text \<open>Two states of the driver on the same volume.\<close>

definition same_dev :: "wrf \<Rightarrow> wrf \<Rightarrow> bool" where
  "same_dev w w' \<longleftrightarrow> g_disks w' = g_disks w \<and> g_disk w' = g_disk w \<and> g_sb w' = g_sb w"

lemma same_devD:
  assumes "same_dev w w'"
  shows "sec w' = sec w" "in_vol w' = in_vol w" "valid_blk w' = valid_blk w" "valid_ino w' = valid_ino w"
    "bbm_lba w' = bbm_lba w" "ibm_lba w' = ibm_lba w" "vol_ok w \<Longrightarrow> length (stack_junk w') = WRF_BLOCK_SIZE \<Longrightarrow> vol_ok w'"
    "vdata (vol_of w') = vdata (vol_of w)" "vsum (vol_of w') = vsum (vol_of w)" "vino (vol_of w') = vino (vol_of w)"
proof -
  have v: "vol_disk w' = vol_disk w" using assms by (simp add: same_dev_def vol_disk_def)
  show l: "sec w' = sec w" "in_vol w' = in_vol w" "valid_blk w' = valid_blk w" "valid_ino w' = valid_ino w"
    "bbm_lba w' = bbm_lba w" "ibm_lba w' = ibm_lba w"
    using assms v by (auto simp: same_dev_def fun_eq_iff sec_def in_vol_def valid_blk_def valid_ino_def lba_defs)
  show "vol_ok w \<Longrightarrow> length (stack_junk w') = WRF_BLOCK_SIZE \<Longrightarrow> vol_ok w'"
    using assms v l(1,2) by (simp add: vol_ok_def same_dev_def)
  have "data_lba w' = data_lba w" "csum_lba w' = csum_lba w" "ino_lba w' = ino_lba w"
    using assms by (simp_all add: same_dev_def fun_eq_iff lba_defs)
  then show "vdata (vol_of w') = vdata (vol_of w)" "vsum (vol_of w') = vsum (vol_of w)" "vino (vol_of w') = vino (vol_of w)"
    using l by (simp_all add: vol_of_def cong: if_cong)
qed

lemma region_in_vol:
  assumes "vol_ok w" "i < n" "unat (inode_bitmap_lba (g_sb w)) \<le> unat lba" "unat lba + n \<le> unat (data_start_lba (g_sb w))"
  shows "in_vol w (lba + of_nat i)"
proof -
  have "unat (data_start_lba (g_sb w)) \<le> 2 ^ 28" using vol_bound [OF assms(1)] by simp
  then have i: "unat lba + i < 2 ^ 32" "i < 2 ^ 32" using assms(2,4) by simp_all
  then have "unat (of_nat i :: u32) = i" by (subst unat_of_nat) simp
  then have "unat (lba + of_nat i) = unat lba + i" using i u32_add [of lba "of_nat i"] by simp
  then show ?thesis using assms(2-4) by (simp add: in_vol_def)
qed

lemma load_bitmaps:
  assumes "vol_ok w"
  shows "valid_blk w b \<Longrightarrow>
      bm_sector (load_bitmap w (block_bitmap_lba (g_sb w)) (block_bitmap_blocks (g_sb w)) bm) b = sec w (bbm_lba w b)"
    "valid_ino w i \<Longrightarrow>
      bm_sector (load_bitmap w (inode_bitmap_lba (g_sb w)) (inode_bitmap_blocks (g_sb w)) bm) i = sec w (ibm_lba w i)"
proof -
  note ord = vol_ok_ordered [OF assms, unfolded sb_ordered_def]
  have sec: "of_nat (unat b div 4096) = b div 8 div 512" for b :: u32
    unfolding bitmap_sector [symmetric] by simp
  { assume "valid_blk w b"
    then show "bm_sector (load_bitmap w (block_bitmap_lba (g_sb w)) (block_bitmap_blocks (g_sb w)) bm) b = sec w (bbm_lba w b)"
      using load_fold [OF assms, of "unat (block_bitmap_blocks (g_sb w))" "block_bitmap_lba (g_sb w)" "unat b div 4096" bm]
        region_in_vol [OF assms, of _ "unat (block_bitmap_blocks (g_sb w))" "block_bitmap_lba (g_sb w)"]
        unat_bbm_lba(2) [OF assms] ord
      by (simp add: bm_sector_def load_bitmap_def bbm_lba_def sec) }
  { assume "valid_ino w i"
    then show "bm_sector (load_bitmap w (inode_bitmap_lba (g_sb w)) (inode_bitmap_blocks (g_sb w)) bm) i = sec w (ibm_lba w i)"
      using load_fold [OF assms, of "unat (inode_bitmap_blocks (g_sb w))" "inode_bitmap_lba (g_sb w)" "unat i div 4096" bm]
        region_in_vol [OF assms, of _ "unat (inode_bitmap_blocks (g_sb w))" "inode_bitmap_lba (g_sb w)"]
        unat_ibm_lba(2) [OF assms] ord
      by (simp add: bm_sector_def load_bitmap_def ibm_lba_def sec) }
qed

lemma bm_sector_bit:
  assumes "bm_sector bm b = bm_sector bm' b"
  shows "bit_test bm (unat b) = bit_test bm' (unat b)"
proof -
  have "bm_sector x b ! (unat b div 8 mod 512) = x (unat b div 8)" for x
  proof -
    have "unat b div 4096 = unat b div 8 div 512" by (simp add: div_mult2_eq [symmetric])
    then have "unat b div 4096 * 512 + unat b div 8 mod 512 = unat b div 8" by simp
    then show ?thesis by (simp add: bm_sector_def)
  qed
  then have "bm (unat b div 8) = bm' (unat b div 8)" using assms by metis
  then show ?thesis by (simp add: bit_test_def)
qed

text \<open>The same blocks, checksums and inodes, and the same allocation state for every valid number.\<close>

definition vol_agree :: "wrf \<Rightarrow> wrf \<Rightarrow> bool" where
  "vol_agree w w' \<longleftrightarrow> g_sb w' = g_sb w \<and> vdata (vol_of w') = vdata (vol_of w) \<and> vsum (vol_of w') = vsum (vol_of w) \<and>
     vino (vol_of w') = vino (vol_of w) \<and> (\<forall>b. valid_blk w b \<longrightarrow> vused (vol_of w') b = vused (vol_of w) b) \<and>
     (\<forall>i. valid_ino w i \<longrightarrow> viused (vol_of w') i = viused (vol_of w) i)"

lemma vol_agreeD:
  assumes "vol_agree w w'"
  shows "vino (vol_of w') = vino (vol_of w)" "valid_ino w' = valid_ino w" "dirent_at w' = dirent_at w"
    "dir_ok w di \<Longrightarrow> dir_ok w' di" "disk_walk w' = disk_walk w"
proof -
  have d: "vdata (vol_of w') = vdata (vol_of w)" "valid_blk w' = valid_blk w"
    using assms by (simp_all add: vol_agree_def valid_blk_def fun_eq_iff)
  show vi: "vino (vol_of w') = vino (vol_of w)" "valid_ino w' = valid_ino w"
    using assms by (simp_all add: vol_agree_def valid_ino_def fun_eq_iff)
  have "fbyte w' di = fbyte w di" for di by (simp add: fbyte_def content_def fun_eq_iff Let_def d(1))
  then show de: "dirent_at w' = dirent_at w" by (intro ext) (simp only: dirent_at_def)
  show "dir_ok w di \<Longrightarrow> dir_ok w' di" using assms by (simp add: dir_ok_def tree_ok_def d vol_agree_def)
  have "disk_walk w' i cs = disk_walk w i cs" for i cs
    by (induction cs arbitrary: i) (simp_all add: vi dir_lookup_def de cong: option.case_cong)
  then show "disk_walk w' = disk_walk w" by (simp add: fun_eq_iff)
qed

lemma dirs_ok_agree:
  assumes "vol_agree w w'"
  shows "dirs_ok n w i \<Longrightarrow> dirs_ok n w' i"
proof (induction n arbitrary: i)
  case (Suc n)
  note d = vol_agreeD [OF assms]
  show ?case using Suc by (simp add: entries_ok_def d)
qed simp

lemma mirrors_agree: "vol_agree w w' \<Longrightarrow> mirrors s w' a i \<longleftrightarrow> mirrors s w a i"
proof -
  assume a: "vol_agree w w'"
  have "matched s w' = matched s w"
    using vol_agreeD(1) [OF a] by (intro ext) (auto simp: matched_def node_is_def split: option.splits)
  then show ?thesis using vol_agreeD(5) [OF a] by (simp only: mirrors_def)
qed

text \<open>Mounting reads back the allocation state the driver left on the disk.\<close>

lemma mount_load_agree:
  fixes ij bj :: bytes_array
  assumes ok: "vol_ok w0" "synced w0" and dev: "g_disks w = g_disks w0" "length (stack_junk w) = WRF_BLOCK_SIZE"
    and sb: "sb_at start sb = g_sb w0"
  defines "w1 \<equiv> mount_load w (g_disk w0) start sb ij bj"
  shows "vol_agree w0 w1" "vol_ok w1" "synced w1" "g_mounted w1" "root_ino (g_sb w1) = root_ino sb"
proof -
  define v where "v = w\<lparr>g_disk := g_disk w0, g_sb := g_sb w0\<rparr>"
  have w1: "w1 = v\<lparr>g_inode_bitmap := load_bitmap v (inode_bitmap_lba (g_sb v)) (inode_bitmap_blocks (g_sb v)) ij,
       g_block_bitmap := load_bitmap v (block_bitmap_lba (g_sb v)) (block_bitmap_blocks (g_sb v)) bj, g_mounted := True\<rparr>"
    by (simp add: w1_def mount_load_def v_def sb Let_def)
  have sv: "same_dev w0 v" and sw: "same_dev w0 w1" using dev by (simp_all add: same_dev_def v_def w1)
  have vok: "vol_ok v" using same_devD(7) [OF sv ok(1)] dev(2) by (simp add: v_def)
  show "vol_ok w1" using same_devD(7) [OF sw ok(1)] dev(2) by (simp add: w1 v_def)
  show "g_mounted w1" by (simp add: w1)
  show "root_ino (g_sb w1) = root_ino sb" by (simp add: w1_def mount_load_def sb_at_def Let_def)
  note d = same_devD [OF sv] and e = same_devD [OF sw]
  have bm: "bm_sector (g_block_bitmap w1) b = sec w0 (bbm_lba w0 b)" if "valid_blk w0 b" for b
    using load_bitmaps(1) [OF vok, of b] that by (simp add: w1 d(1,3,5))
  have im: "bm_sector (g_inode_bitmap w1) i = sec w0 (ibm_lba w0 i)" if "valid_ino w0 i" for i
    using load_bitmaps(2) [OF vok, of i] that by (simp add: w1 d(1,4,6))
  show "synced w1" using bm im by (simp add: synced_def e)
  have "vused (vol_of w1) b = vused (vol_of w0) b" if "valid_blk w0 b" for b
    using bm_sector_bit [of "g_block_bitmap w1" b "g_block_bitmap w0"] bm [OF that] ok(2) that by (simp add: vol_of_def synced_def)
  moreover have "viused (vol_of w1) i = viused (vol_of w0) i" if "valid_ino w0 i" for i
    using bm_sector_bit [of "g_inode_bitmap w1" i "g_inode_bitmap w0"] im [OF that] ok(2) that by (simp add: vol_of_def synced_def)
  ultimately show "vol_agree w0 w1" using e sw by (simp add: vol_agree_def same_dev_def)
qed

section \<open>Superblock copies\<close>

text \<open>A copy of a superblock that can be read and is as it was written, and one that cannot be read or has one
  byte changed.\<close>

definition copy_intact :: "wrf \<Rightarrow> nat \<Rightarrow> u32 \<Rightarrow> wrf_superblock \<Rightarrow> bool" where
  "copy_intact w d lba sb \<longleftrightarrow> ata_ready (g_disks w d) (unat lba) 1 \<and> media (g_disks w d) lba = sb_bytes sb"

definition copy_damaged :: "wrf \<Rightarrow> nat \<Rightarrow> u32 \<Rightarrow> wrf_superblock \<Rightarrow> bool" where
  "copy_damaged w d lba sb \<longleftrightarrow> fst (ata_read (g_disks w) (int d) lba 1 (stack_junk w)) \<noteq> 0 \<or>
     ata_ready (g_disks w d) (unat lba) 1 \<and>
     (\<exists>k b. k < WRF_BLOCK_SIZE \<and> b \<noteq> sb_bytes sb ! k \<and> media (g_disks w d) lba = (sb_bytes sb)[k := b])"

lemma read_sb_ready:
  assumes "d < ATA_MAX_DISKS" "length (stack_junk w) = WRF_BLOCK_SIZE" "ata_ready (g_disks w d) (unat lba) 1"
    "length (media (g_disks w d) lba) = WRF_BLOCK_SIZE"
  shows "read_valid_sb w (int d) lba =
    (let sb = sb_of_bytes (media (g_disks w d) lba) in if sb_valid sb then Some sb else None)"
  using ata_read_one [of d "g_disks w" lba "stack_junk w"] assms by (auto simp: read_valid_sb_def sb_valid_def Let_def)

lemma read_sb_copy:
  assumes "d < ATA_MAX_DISKS" "length (stack_junk w) = WRF_BLOCK_SIZE" "sb_wf sb" "sb_valid sb"
  shows "copy_intact w d lba sb \<Longrightarrow> read_valid_sb w (int d) lba = Some sb"
    "copy_damaged w d lba sb \<Longrightarrow> read_valid_sb w (int d) lba = None"
proof -
  show "copy_intact w d lba sb \<Longrightarrow> read_valid_sb w (int d) lba = Some sb"
    using read_sb_ready [OF assms(1,2), of lba] assms(3,4) by (simp add: copy_intact_def)
  assume dam: "copy_damaged w d lba sb"
  show "read_valid_sb w (int d) lba = None"
  proof (cases "fst (ata_read (g_disks w) (int d) lba 1 (stack_junk w)) = 0")
    case False
    then show ?thesis by (auto simp: read_valid_sb_def split: prod.split)
  next
    case True
    then obtain k b where k: "ata_ready (g_disks w d) (unat lba) 1" "k < WRF_BLOCK_SIZE" "b \<noteq> sb_bytes sb ! k"
      "media (g_disks w d) lba = (sb_bytes sb)[k := b]" using dam by (auto simp: copy_damaged_def)
    then show ?thesis
      using read_sb_ready [OF assms(1,2) k(1)] sb_corruption_detected [OF assms(3,4) k(2,3)] assms(3) by simp
  qed
qed

section \<open>The search at boot\<close>

text \<open>The volumes the search considers, in order: for every disk its marked partitions, then the whole disk.\<close>

definition mbr_parts :: "wrf \<Rightarrow> nat \<Rightarrow> (u32 \<times> u32) list" where
  "mbr_parts w d =
     (case ata_read (g_disks w) (int d) 0 1 (stack_junk w) of (rc, mbr) \<Rightarrow>
        if rc = 0 \<and> mbr ! 510 = 0x55 \<and> mbr ! 511 = 0xAA
        then map (\<lambda>i. (get_le32 (drop (454 + i * 16) mbr), get_le32 (drop (458 + i * 16) mbr)))
               (filter (\<lambda>i. drop (446 + i * 16) mbr ! 4 = WRF_PART_TYPE) [0..<4])
        else [])"

definition disk_volumes :: "wrf \<Rightarrow> nat \<Rightarrow> (int \<times> u32 \<times> u32) list" where
  "disk_volumes w d =
     (if present (g_disks w d) \<and> \<not> atapi (g_disks w d)
      then map (Pair (int d)) (mbr_parts w d @ [(0, sectors (g_disks w d))]) else [])"

definition candidates :: "wrf \<Rightarrow> (int \<times> u32 \<times> u32) list" where
  "candidates w = concat (map (disk_volumes w) [0..<ATA_MAX_DISKS])"

definition has_sb :: "wrf \<Rightarrow> int \<times> u32 \<times> u32 \<Rightarrow> bool" where
  "has_sb w c = (case c of (d, a, n) \<Rightarrow> pick_sb w d a n \<noteq> None)"

definition mount_cand :: "(addr \<Rightarrow> bytes_array) \<Rightarrow> 'a vfs_scheme \<Rightarrow> addr \<Rightarrow> int \<times> u32 \<times> u32 \<Rightarrow> (bool \<times> 'a vfs_scheme) option" where
  "mount_cand heap_junk s mnt c = (case c of (d, a, n) \<Rightarrow> try_mount_at heap_junk s mnt d a n)"

fun first_cand ::
    "(addr \<Rightarrow> bytes_array) \<Rightarrow> 'a vfs_scheme \<Rightarrow> addr \<Rightarrow> (int \<times> u32 \<times> u32) list \<Rightarrow> (bool \<times> 'a vfs_scheme) option" where
  "first_cand heap_junk s mnt cs =
     (case find (has_sb (wfs s)) cs of None \<Rightarrow> Some (False, s) | Some c \<Rightarrow> mount_cand heap_junk s mnt c)"

declare first_cand.simps [simp del]

lemma mount_cand_cases:
  assumes "\<And>a. \<not> oom s a"
  shows "\<not> has_sb (wfs s) c \<Longrightarrow> mount_cand heap_junk s mnt c = Some (False, s)"
    "has_sb (wfs s) c \<Longrightarrow> mount_cand heap_junk s mnt c = None \<or> (\<exists>s'. mount_cand heap_junk s mnt c = Some (True, s'))"
  using assms
  by (auto simp: has_sb_def mount_cand_def try_mount_at_def kmalloc_def Let_def split: prod.splits Option.bind_splits)

lemma first_cand_Nil: "first_cand heap_junk s mnt [] = Some (False, s)"
  by (simp add: first_cand.simps)

lemma first_cand_Cons:
  "first_cand heap_junk s mnt (c # cs) = (if has_sb (wfs s) c then mount_cand heap_junk s mnt c else first_cand heap_junk s mnt cs)"
  by (simp add: first_cand.simps)

lemma mount_cand_then:
  assumes "\<And>a. \<not> oom s a"
  shows "do { (ok, s1) \<leftarrow> mount_cand heap_junk s mnt c; if ok then Some (True, s1) else f s1 } =
    (if has_sb (wfs s) c then mount_cand heap_junk s mnt c else f s)"
  using mount_cand_cases [OF assms, of c heap_junk mnt] by auto

lemma first_cand_then:
  assumes "\<And>a. \<not> oom s a"
  shows "do { (ok, s1) \<leftarrow> first_cand heap_junk s mnt xs; if ok then Some (True, s1) else f s1 } =
    (if \<exists>c \<in> set xs. has_sb (wfs s) c then first_cand heap_junk s mnt xs else f s)"
proof (induction xs)
  case (Cons c xs)
  then show ?case using mount_cand_then [OF assms, of heap_junk mnt c f] by (auto simp: first_cand_Cons)
qed (simp add: first_cand_Nil)

lemma first_cand_append:
  "first_cand heap_junk s mnt (xs @ ys) =
    (if \<exists>c \<in> set xs. has_sb (wfs s) c then first_cand heap_junk s mnt xs else first_cand heap_junk s mnt ys)"
  by (induction xs) (auto simp: first_cand_Cons)

lemma first_cand_one:
  "(\<And>a. \<not> oom s a) \<Longrightarrow> first_cand heap_junk s mnt [c] = mount_cand heap_junk s mnt c"
  using mount_cand_cases(1) [of s c heap_junk mnt] by (simp add: first_cand_Cons first_cand_Nil)

lemma try_partitions_cand:
  assumes "\<And>a. \<not> oom s a"
  shows "try_partitions heap_junk s mnt d mbr is = first_cand heap_junk s mnt
    (map (Pair d) (map (\<lambda>i. (get_le32 (drop (454 + i * 16) mbr), get_le32 (drop (458 + i * 16) mbr)))
       (filter (\<lambda>i. drop (446 + i * 16) mbr ! 4 = WRF_PART_TYPE) is)))"
proof (induction "is")
  case (Cons i "is")
  show ?case
  proof (cases "drop (446 + i * 16) mbr ! 4 = WRF_PART_TYPE")
    case True
    let ?c = "(d, get_le32 (drop (454 + i * 16) mbr), get_le32 (drop (458 + i * 16) mbr))"
    have e: "drop 8 (drop (446 + i * 16) mbr) = drop (454 + i * 16) mbr" "drop 12 (drop (446 + i * 16) mbr) = drop (458 + i * 16) mbr"
      by (simp_all add: add.commute)
    show ?thesis
      using mount_cand_then [OF assms, of heap_junk mnt ?c "\<lambda>s1. try_partitions heap_junk s1 mnt d mbr is"] True Cons.IH
      by (simp add: first_cand_Cons mount_cand_def e Let_def del: drop_drop)
  qed (use Cons.IH in \<open>simp add: Let_def\<close>)
qed (simp add: first_cand_Nil)

lemma try_mount_disk_cand:
  assumes mem: "\<And>a. \<not> oom s a" and d: "d < ATA_MAX_DISKS" "present (g_disks (wfs s) d)" "\<not> atapi (g_disks (wfs s) d)"
  shows "try_mount_disk heap_junk s mnt (int d) = first_cand heap_junk s mnt (disk_volumes (wfs s) d)"
proof -
  obtain rc mbr where rd: "ata_read (g_disks (wfs s)) (int d) 0 1 (stack_junk (wfs s)) = (rc, mbr)" by fastforce
  have at: "ata_disk_at (g_disks (wfs s)) (int d) = Some (g_disks (wfs s) d)" using d(1) by (simp add: ata_disk_at_def)
  define ps where "ps = map (Pair (int d)) (mbr_parts (wfs s) d)"
  have parts: "(if rc = 0 \<and> mbr ! 510 = 0x55 \<and> mbr ! 511 = 0xAA then try_partitions heap_junk s mnt (int d) mbr [0..<4]
      else Some (False, s)) = first_cand heap_junk s mnt ps"
    by (simp add: ps_def mbr_parts_def rd try_partitions_cand [OF mem] first_cand_Nil del: map_map)
  let ?f = "\<lambda>s1. try_mount_at heap_junk s1 mnt (int d) 0
      (case ata_disk_at (g_disks (wfs s1)) (int d) of None \<Rightarrow> 0 | Some d \<Rightarrow> sectors d)"
  have "try_mount_disk heap_junk s mnt (int d) =
      do { (ok, s1) \<leftarrow> first_cand heap_junk s mnt ps; if ok then Some (True, s1) else ?f s1 }"
    unfolding try_mount_disk_def rd prod.case parts [symmetric] Let_def ..
  also have "\<dots> = first_cand heap_junk s mnt (ps @ [(int d, 0, sectors (g_disks (wfs s) d))])"
    unfolding first_cand_then [OF mem] first_cand_append first_cand_one [OF mem] by (simp add: at mount_cand_def)
  finally show ?thesis using d by (simp add: disk_volumes_def ps_def)
qed

lemma try_disks_cand:
  assumes "\<And>a. \<not> oom s a" "\<And>d. d \<in> set ds \<Longrightarrow> d < ATA_MAX_DISKS"
  shows "try_disks heap_junk s mnt ds = first_cand heap_junk s mnt (concat (map (disk_volumes (wfs s)) ds))"
  using assms(2)
proof (induction ds)
  case (Cons d ds)
  let ?g = "g_disks (wfs s) d"
  have at: "ata_disk_at (g_disks (wfs s)) (int d) = Some ?g" using Cons.prems [of d] by (simp add: ata_disk_at_def)
  have IH: "try_disks heap_junk s mnt ds = first_cand heap_junk s mnt (concat (map (disk_volumes (wfs s)) ds))"
    using Cons by simp
  show ?case
  proof (cases "present ?g \<and> \<not> atapi ?g")
    case True
    then have "try_mount_disk heap_junk s mnt (int d) = first_cand heap_junk s mnt (disk_volumes (wfs s) d)"
      using Cons.prems by (intro try_mount_disk_cand assms(1)) auto
    then show ?thesis using True at IH
      by (simp add: first_cand_then [OF assms(1)] first_cand_append)
  next
    case False
    then show ?thesis using at IH by (auto simp: disk_volumes_def [of "wfs s" d])
  qed
qed (simp add: first_cand_Nil)

section \<open>Properties\<close>

text \<open>C22. Mounting a volume that was in use before restores it: the search for directories ends, the bitmaps and
  the inode and block contents are those of the volume before, the tree is well formed, and below the mount
  point every path resolves to a node with the inode number, type, permissions, owner and size that the
  directories on the disk give it, and to nothing when they have no such path.\<close>

theorem wrf_mount_restores:
  fixes s :: "'a vfs_scheme"
  assumes vol: "vol_ok w0" "synced w0" "dirs_ok n w0 (root_ino sb)"
    and dev: "g_disks (wfs s) = g_disks w0" "length (stack_junk (wfs s)) = WRF_BLOCK_SIZE"
    and sb: "pick_sb (wfs s) (g_disk w0) start sects = Some sb" "sb_at start sb = g_sb w0"
    and tree: "vfs_ok s" "nodes s mnt = Some nd" "\<not> nd_unlinked nd" "dirmap (nodes s) mnt = Some Map.empty"
    and mem: "\<And>a. \<not> oom s a"
  shows "\<exists>s'. try_mount_at heap_junk s mnt (g_disk w0) start sects = Some (True, s') \<and> vfs_ok s' \<and>
    g_mounted (wfs s') \<and> synced (wfs s') \<and> vol_agree w0 (wfs s') \<and> mirrors s' w0 mnt (root_ino sb) \<and>
    map_option nd_wrf_ino (nodes s' mnt) = Some (root_ino sb)"
proof -
  let ?nx = "next_addr s" and ?r = "root_ino sb"
  define w where "w = mount_load (wfs s) (g_disk w0) start sb (heap_junk ?nx) (heap_junk (Suc ?nx))"
  note L = mount_load_agree [OF vol(1,2) dev sb(2), of "heap_junk ?nx" "heap_junk (Suc ?nx)", folded w_def]
  define nd' where "nd' = nd\<lparr>nd_wrf_ino := ?r, nd_mode := di_mode (wrf_inode_read w ?r) AND 0xFFF\<rparr>"
  let ?s4 = "s\<lparr>next_addr := Suc (Suc ?nx), wfs := w, nodes := (nodes s)(mnt \<mapsto> nd')\<rparr>"
  have run: "try_mount_at heap_junk s mnt (g_disk w0) start sects =
      do { s5 \<leftarrow> wrf_walk_dir ?s4 mnt ?r; Some (True, s5) }"
    using sb(1) mem tree(2) L(5)
    by (simp add: try_mount_at_def kmalloc_def w_def [symmetric] upd_vnode_def upd_node_def Let_def nd'_def)
  have sh: "same_shape nd nd'" "nd_unlinked nd' = nd_unlinked nd" by (simp_all add: same_shape_def nd'_def)
  have "vfs_ok (s\<lparr>next_addr := Suc (Suc ?nx), wfs := w\<rparr>)" using vfs_ok_next [OF vfs_ok_next [OF tree(1)]] by simp
  note ns = vfs_ok_shape [OF this, of mnt nd nd']
  have cw: "can_walk w ?s4 mnt" and D: "dirmap (nodes ?s4) mnt = Some Map.empty"
    using ns tree sh mem same_vol_refl [OF L(2)] by (auto simp: can_walk_def)
  have "walkable w TYPE('a) ?r" by (rule walkable_dirs [OF dirs_ok_agree [OF L(1) vol(3)]])
  then obtain s5 where s5: "wrf_walk_dir ?s4 mnt ?r = Some s5" "grown ?s4 mnt s5" "mirrors s5 w mnt ?r"
    using cw D unfolding walkable_def walked_def by blast
  note g = grownD [OF s5(2)]
  have sv: "same_vol w (wfs s5)" using g(3) by simp
  have ev: "evolves w (wfs s5)" "vol_of (wfs s5) = vol_of w" using sv by (simp_all add: same_vol_def)
  have "vol_agree w0 (wfs s5)" using L(1) ev(2) evolvesD(3) [OF ev(1)] by (simp add: vol_agree_def)
  moreover have "map_option nd_wrf_ino (nodes s5 mnt) = Some ?r"
  proof -
    have "mnt < next_addr ?s4" using can_walk_addr [OF cw] .
    from g(6) [OF this] obtain n5 where "nodes s5 mnt = Some n5" "body n5 = body nd'" by (auto simp: map_option_eq_Some)
    with body_eqD(5) [OF this(2)] show ?thesis by (simp add: nd'_def)
  qed
  moreover have "synced (wfs s5)" using evolvesD(8) [OF ev(1) L(3)] .
  moreover have "g_mounted (wfs s5)" using ev(1) L(4) by (simp add: evolves_def same_env_def)
  ultimately show ?thesis using run s5(1,3) g(1) mirrors_agree [OF L(1), of s5 mnt ?r] by auto
qed

text \<open>C23. Two copies of the superblock protect a volume: as long as one of them can be read and is as it was
  written, \<^verbatim>\<open>try_mount_at\<close> finds it, whether the other one is unreadable or has any one byte changed. When both
  are intact the one with the higher generation is taken, the primary on a tie; when both are damaged the
  volume is refused.\<close>

theorem pick_sb_survives:
  assumes "d < ATA_MAX_DISKS" "length (stack_junk w) = WRF_BLOCK_SIZE" "1 < sects"
    and "sb_wf p" "sb_valid p" "sb_wf b" "sb_valid b"
    and "copy_intact w d start p \<or> copy_damaged w d start p"
    and "copy_intact w d (start + sects - 1) b \<or> copy_damaged w d (start + sects - 1) b"
  shows "pick_sb w (int d) start sects =
    (if copy_intact w d start p
     then (if copy_intact w d (start + sects - 1) b \<and> generation p < generation b then Some b else Some p)
     else (if copy_intact w d (start + sects - 1) b then Some b else None))"
  using read_sb_copy [OF assms(1,2,4,5), of start] read_sb_copy [OF assms(1,2,6,7), of "start + sects - 1"] assms(3,8,9)
  by (auto simp: pick_sb_def Let_def)

text \<open>At boot the disks are searched in order, on each disk first the partitions marked as WRF and then the whole
  disk, and the first volume with a usable superblock is mounted on \<^verbatim>\<open>/home\<close>; with none nothing changes.\<close>

theorem wrf_boot_mount_first:
  assumes "vfs_ok s" "abs_lookup s ''/home'' = Some mnt" "disk_count \<noteq> 0" "\<And>a. \<not> oom s a"
  shows "wrf_boot_mount heap_junk disk_count s =
    (case find (\<lambda>(d, a, n). pick_sb (wfs s) d a n \<noteq> None) (candidates (wfs s)) of
       None \<Rightarrow> Some s
     | Some (d, a, n) \<Rightarrow> map_option snd (try_mount_at heap_junk s mnt d a n))"
proof -
  have h: "has_sb (wfs s) = (\<lambda>(d, a, n). pick_sb (wfs s) d a n \<noteq> None)" by (simp add: has_sb_def fun_eq_iff)
  have "wrf_boot_mount heap_junk disk_count s = map_option snd (try_disks heap_junk s mnt [0..<ATA_MAX_DISKS])"
    using assms(2,3) vfs_lookup_eq [OF assms(1), of "''/home''"]
    by (cases "try_disks heap_junk s mnt [0..<ATA_MAX_DISKS]") (auto simp: wrf_boot_mount_def)
  also have "try_disks heap_junk s mnt [0..<ATA_MAX_DISKS] = first_cand heap_junk s mnt (candidates (wfs s))"
    unfolding candidates_def by (rule try_disks_cand [OF assms(4)]) simp
  finally show ?thesis
    by (auto simp: first_cand.simps h mount_cand_def split: option.split)
qed

section \<open>A small disk\<close>

text \<open>A disk with a root directory that holds the empty file \<^verbatim>\<open>f\<close>: the superblock in sectors 0 and 999, the two inodes in
  sector 2, the block bitmap in sector 6 and the directory in sector 8, the first data block.\<close>

definition disk_sb :: wrf_superblock where
  "disk_sb = sample_geometry\<lparr>sb_checksum := wrf_sb_checksum sample_geometry\<rparr>"

definition root_inode :: wrf_inode where
  "root_inode = zero_inode\<lparr>di_mode := 0x41ED, di_size := 72, di_direct := 1 # replicate 11 0\<rparr>"

definition f_inode :: wrf_inode where
  "f_inode = zero_inode\<lparr>di_mode := 0x81A4, di_uid := 100\<rparr>"

definition disk_media :: "u32 \<Rightarrow> u8 list" where
  "disk_media a =
     (if a = 0 \<or> a = 999 then sb_bytes disk_sb
      else if a = 2 then replicate 128 0 @ inode_bytes root_inode @ inode_bytes f_inode @ replicate 128 0
      else if a = 6 then 1 # replicate 511 0
      else if a = 8 then dirent_bytes (new_dirent 2 WRF_DT_REG ''f'') @ replicate 440 0
      else replicate 512 0)"

definition disk_wrf :: wrf where
  "disk_wrf = sample_vol\<lparr>g_disks := (\<lambda>_. sample_drive\<lparr>media := disk_media\<rparr>), g_sb := disk_sb,
     g_block_bitmap := (\<lambda>i. if i = 0 then 1 else 0)\<rparr>"

lemma inode_samples: "inode_wf root_inode" "inode_wf f_inode" "length (inode_bytes root_inode) = 128" "length (inode_bytes f_inode) = 128"
proof -
  have "inode_wf zero_inode" by (simp add: zero_inode_def)
  then show "inode_wf root_inode" "inode_wf f_inode" by (simp_all add: root_inode_def f_inode_def inode_wf_def)
  then show "length (inode_bytes root_inode) = 128" "length (inode_bytes f_inode) = 128" by simp_all
qed

lemma disk_sb_ok: "sb_wf disk_sb" "sb_valid disk_sb"
  by (simp_all add: disk_sb_def sb_wf_def sb_valid_def wrf_sb_checksum_def sample_geometry_def)

lemma length_disk_media: "length (disk_media a) = 512"
  using new_dirent_wf [of 2 WRF_DT_REG "''f''"] by (simp add: disk_media_def disk_sb_ok inode_samples)

lemma disk_wrf_ok: "vol_ok disk_wrf"
  by (simp add: vol_ok_def disk_wrf_def disk_sb_def sample_vol_def sample_geometry_def sb_ordered_def vol_disk_def sec_def
      in_vol_def sample_drive_def length_disk_media)

lemma disk_valid: "valid_blk disk_wrf b \<longleftrightarrow> b < 91" "valid_ino disk_wrf i \<longleftrightarrow> i < 16"
  by (simp_all add: valid_blk_def valid_ino_def disk_wrf_def disk_sb_def sample_geometry_def)

lemma disk_sec: "sec disk_wrf = disk_media"
  by (simp add: sec_def vol_disk_def disk_wrf_def sample_vol_def fun_eq_iff)

lemma disk_inodes: "vino (vol_of disk_wrf) 1 = root_inode" "vino (vol_of disk_wrf) 2 = f_inode"
proof -
  have l: "ino_lba disk_wrf 1 = 2" "ino_lba disk_wrf 2 = 2" by (simp_all add: ino_lba_def disk_wrf_def disk_sb_def sample_geometry_def)
  have "slice 128 128 (disk_media 2) = inode_bytes root_inode" "slice 256 128 (disk_media 2) = inode_bytes f_inode"
    by (simp_all add: disk_media_def slice_def inode_samples)
  then show "vino (vol_of disk_wrf) 1 = root_inode" "vino (vol_of disk_wrf) 2 = f_inode"
    using inode_samples by (simp_all add: vol_of_def disk_valid disk_sec l)
qed

lemma disk_synced: "synced disk_wrf"
proof -
  have b: "bbm_lba disk_wrf b = 6" if "b < 91" for b
  proof -
    have "unat b < 91" using that by (simp add: word_less_nat_alt)
    then have "unat (b div 8 div 512) = 0" by (simp add: bitmap_sector)
    then have "b div 8 div 512 = 0" by (simp add: unat_eq_zero)
    then show ?thesis by (simp add: bbm_lba_def disk_wrf_def disk_sb_def sample_geometry_def)
  qed
  have i: "ibm_lba disk_wrf i = 1" if "i < 16" for i
  proof -
    have "unat i < 16" using that by (simp add: word_less_nat_alt)
    then have "unat (i div 8 div 512) = 0" by (simp add: bitmap_sector)
    then have "i div 8 div 512 = 0" by (simp add: unat_eq_zero)
    then show ?thesis by (simp add: ibm_lba_def disk_wrf_def disk_sb_def sample_geometry_def)
  qed
  have s: "bm_sector (g_block_bitmap disk_wrf) b = 1 # replicate 511 0" if "b < 91" for b
  proof -
    have "unat b div 4096 = 0" using that by (simp add: word_less_nat_alt)
    then show ?thesis by (intro nth_equalityI) (auto simp: bm_sector_def disk_wrf_def nth_Cons')
  qed
  have z: "bm_sector (g_inode_bitmap disk_wrf) i = replicate 512 0" for i
    by (intro nth_equalityI) (auto simp: bm_sector_def disk_wrf_def sample_vol_def)
  show ?thesis by (simp add: synced_def disk_valid disk_sec b i s z) (simp add: disk_media_def)
qed

lemma root_vals: "slot_ok t \<Longrightarrow> slot_val V root_inode t = (if t = SPtr (PDirect 0) then 1 else 0)"
proof -
  assume t: "slot_ok t"
  have z: "di_indirect root_inode = 0" "di_dindirect root_inode = 0" "di_direct root_inode = 1 # replicate 11 0"
    by (simp_all add: root_inode_def zero_inode_def inode_of_bytes_def get_le32_def)
  show ?thesis
    using t z by (cases t rule: slot_ok.cases) (auto simp: deref_def nth_Cons')
qed

lemma disk_root: "dir_ok disk_wrf root_inode" "n_ents root_inode = 1" "dirent_at disk_wrf root_inode 0 = new_dirent 2 WRF_DT_REG ''f''"
proof -
  have u: "vused (vol_of disk_wrf) 0" by (simp add: vol_of_def bit_test_def disk_wrf_def)
  have sz: "di_size root_inode = 72" and d0: "di_direct root_inode ! 0 = 1" by (simp_all add: root_inode_def)
  then show "n_ents root_inode = 1" by (simp add: n_ents_def)
  have "tree_ok disk_wrf root_inode"
    unfolding tree_ok_def using u by (simp add: inode_samples root_vals disk_valid split: if_splits)
  moreover have "leaf (q div 512) = SPtr (PDirect 0)" if "q < 72" for q using that by (simp add: leaf_def)
  ultimately show "dir_ok disk_wrf root_inode" by (simp add: dir_ok_def sz d0)
  have len: "length (dirent_bytes (new_dirent 2 WRF_DT_REG ''f'')) = 72" using new_dirent_wf by simp
  have v: "vdata (vol_of disk_wrf) 0 = disk_media 8"
    by (simp add: vol_of_def disk_valid disk_sec data_lba_def) (simp add: disk_wrf_def disk_sb_def sample_geometry_def)
  have "fbyte disk_wrf root_inode q = dirent_bytes (new_dirent 2 WRF_DT_REG ''f'') ! q" if "q < 72" for q
    using that len by (simp add: fbyte_def content_def leaf_def d0 v disk_media_def nth_append)
  then have "map (fbyte disk_wrf root_inode) [0..<72] = dirent_bytes (new_dirent 2 WRF_DT_REG ''f'')"
    using len by (intro nth_equalityI) auto
  then show "dirent_at disk_wrf root_inode 0 = new_dirent 2 WRF_DT_REG ''f''"
    using new_dirent_wf by (simp add: dirent_at_def)
qed

lemma new_f: "de_inode (new_dirent 2 t ''f'') = 2" "cstr (de_name (new_dirent 2 t ''f'')) = ''f''"
  using cstr_cbytes [of "''f''" "replicate 62 0"] by (simp_all add: new_dirent_def no_nul_def replicate_Suc [symmetric])

lemma disk_dirs: "dirs_ok 1 disk_wrf 1"
proof -
  have "is_dir root_inode" "\<not> is_dir f_inode" by (simp_all add: is_dir_def root_inode_def f_inode_def)
  then have "entries_ok (dirs_ok 0 disk_wrf) disk_wrf root_inode"
    using disk_root by (simp add: entries_ok_def new_f disk_valid disk_inodes name_ok_def)
  then show ?thesis unfolding One_nat_def by (simp only: dirs_ok.simps disk_inodes) (simp add: disk_valid)
qed

text \<open>The kernel at boot: an empty \<^verbatim>\<open>/home\<close>, and nothing mounted yet.\<close>

definition boot_heap :: heap where
  "boot_heap =
     [1 \<mapsto> zero_node\<lparr>nd_type := VFS_DIR, nd_mode := 0x1ED, nd_name := ''/'', nd_child := Some 2\<rparr>,
      2 \<mapsto> zero_node\<lparr>nd_type := VFS_DIR, nd_mode := 0x1ED, nd_name := ''home'', nd_parent := Some 1\<rparr>]"

definition boot_wrf :: wrf where
  "boot_wrf = disk_wrf\<lparr>g_mounted := False, g_disk := - 1, g_sb := sample_geometry\<lparr>total_blocks := 0\<rparr>,
     g_block_bitmap := (\<lambda>_. 0)\<rparr>"

definition boot_vfs :: vfs where
  "boot_vfs = \<lparr>nodes = boot_heap, g_root = Some 1, wfs = boot_wrf, next_addr = 3, oom = (\<lambda>_. False),
     g_tasks = (\<lambda>_. \<lparr>t_pid = 0, t_euid = 0, t_egid = 0, t_cwd = ''/'', t_fds = Map.empty\<rparr>), g_current = Some 0,
     g_shell_session_uid = 0, g_shell_session_gid = 0\<rparr>"

lemma boot_inv: "heap_inv boot_heap 1 ((\<lambda>_. [])(1 := [2])) 3"
proof -
  have "tree boot_heap 1 ((\<lambda>_. [])(1 := [2]))"
    unfolding tree_def by (auto simp: boot_heap_def zero_node_def name_ok_def inj_on_def split: if_splits)
  then show ?thesis by (auto simp: heap_inv_def boot_heap_def zero_node_def split: if_splits)
qed

lemma boot_dirmap: "dirmap boot_heap = [1 \<mapsto> [''home'' \<mapsto> 2], 2 \<mapsto> Map.empty]"
  by (auto simp: dirmap_tree [OF heap_invD(1) [OF boot_inv]] dir_at_def fun_eq_iff name_of_def)
    (auto simp: boot_heap_def zero_node_def split: if_splits option.splits)

lemma boot_state:
  "vfs_ok boot_vfs" "abs_lookup boot_vfs ''/home'' = Some 2" "\<exists>nd. nodes boot_vfs 2 = Some nd \<and> \<not> nd_unlinked nd"
  "dirmap (nodes boot_vfs) 2 = Some Map.empty" "\<not> oom boot_vfs a" "wfs boot_vfs = boot_wrf"
proof -
  show "vfs_ok boot_vfs" using boot_inv by (auto simp: vfs_ok_def boot_vfs_def)
  have "segments ''home'' = [''home'']" by (simp add: segments.simps)
  then show "abs_lookup boot_vfs ''/home'' = Some 2"
    by (simp add: abs_lookup_def boot_vfs_def lookup_path_def boot_dirmap)
  show "dirmap (nodes boot_vfs) 2 = Some Map.empty" by (simp add: boot_vfs_def boot_dirmap)
  show "\<exists>nd. nodes boot_vfs 2 = Some nd \<and> \<not> nd_unlinked nd" by (simp add: boot_vfs_def boot_heap_def zero_node_def)
qed (simp_all add: boot_vfs_def)

lemma boot_wrf_simps: "g_disks boot_wrf = g_disks disk_wrf" "length (stack_junk disk_wrf) = 512" "stack_junk boot_wrf = stack_junk disk_wrf"
  "g_disks disk_wrf d = sample_drive\<lparr>media := disk_media\<rparr>"
  by (simp_all add: boot_wrf_def disk_wrf_def sample_vol_def)

lemma drive_ready: "unat (lba :: u32) < 1000 \<Longrightarrow> ata_ready (sample_drive\<lparr>media := m\<rparr>) (unat lba) 1"
  by (simp add: ata_ready_def sample_drive_def)

lemma boot_pick: "pick_sb boot_wrf 0 0 1000 = Some disk_sb"
proof -
  have "copy_intact boot_wrf 0 0 disk_sb" "copy_intact boot_wrf 0 999 disk_sb"
    using drive_ready [of 0] drive_ready [of 999] by (simp_all add: copy_intact_def boot_wrf_simps) (simp_all add: disk_media_def)
  then show ?thesis
    using read_sb_copy(1) [of 0 boot_wrf disk_sb] disk_sb_ok by (simp add: pick_sb_def boot_wrf_simps)
qed

theorem pick_sb_survives_witness:
  "pick_sb (boot_wrf\<lparr>g_disks := (\<lambda>_. sample_drive\<lparr>media := disk_media(0 := (sb_bytes disk_sb)[0 := 0x58])\<rparr>)\<rparr>) 0 0 1000 =
     Some disk_sb"
proof -
  let ?w = "boot_wrf\<lparr>g_disks := (\<lambda>_. sample_drive\<lparr>media := disk_media(0 := (sb_bytes disk_sb)[0 := 0x58])\<rparr>)\<rparr>"
  have "sb_bytes disk_sb ! 0 = ucast WRF_MAGIC"
    by (simp add: sb_bytes_def disk_sb_def sample_geometry_def le32_def)
  then have b0: "sb_bytes disk_sb ! 0 \<noteq> 0x58" "0x58 \<noteq> sb_bytes disk_sb ! 0" by simp_all
  then have ne: "(sb_bytes disk_sb)[0 := 0x58] \<noteq> sb_bytes disk_sb"
    using disk_sb_ok(1) by (metis length_sb_bytes nth_list_update_eq zero_less_numeral)
  have dam: "copy_damaged ?w 0 0 disk_sb"
    unfolding copy_damaged_def using drive_ready [of 0] b0(2)
    by (intro disjI2 conjI exI [of _ 0] exI [of _ "0x58"]) simp_all
  have int: "copy_intact ?w 0 (0 + 1000 - 1) disk_sb" "\<not> copy_intact ?w 0 0 disk_sb"
    using drive_ready [of 999] ne by (simp_all add: copy_intact_def disk_media_def)
  show ?thesis
    using pick_sb_survives [of 0 ?w 1000 disk_sb disk_sb 0] disk_sb_ok dam int by (simp add: boot_wrf_simps)
qed

theorem wrf_mount_restores_witness:
  "\<exists>s' a n. try_mount_at (\<lambda>_ _. 0xCC) boot_vfs 2 0 0 1000 = Some (True, s') \<and>
     awalk (dirmap (nodes s')) 2 [''f''] = Some a \<and> nodes s' a = Some n \<and> nd_wrf_ino n = 2 \<and> nd_uid n = 100"
proof -
  obtain nd where nd: "nodes boot_vfs 2 = Some nd" "\<not> nd_unlinked nd" using boot_state(3) by blast
  have root: "root_ino disk_sb = 1" "g_disk disk_wrf = 0" "sb_at 0 disk_sb = g_sb disk_wrf"
    by (simp_all add: disk_sb_def disk_wrf_def sample_vol_def sample_geometry_def sb_at_def)
  obtain s' where s': "try_mount_at (\<lambda>_ _. 0xCC) boot_vfs 2 0 0 1000 = Some (True, s')" "mirrors s' disk_wrf 2 1"
    using wrf_mount_restores [OF disk_wrf_ok disk_synced, of 1 disk_sb boot_vfs 0 1000 2 nd "\<lambda>_ _. 0xCC"] disk_dirs boot_state
      boot_pick nd root by (auto simp: boot_wrf_simps)
  have "dir_lookup disk_wrf root_inode ''f'' = Some 2"
    using disk_root(2,3) by (simp add: dir_lookup_def scan.simps live_def new_f)
  moreover have "is_dir root_inode" by (simp add: is_dir_def root_inode_def)
  ultimately have w: "disk_walk disk_wrf 1 [''f''] = Some 2" by (simp add: disk_inodes)
  have "matched s' disk_wrf (awalk (dirmap (nodes s')) 2 [''f'']) (disk_walk disk_wrf 1 [''f''])"
    using s'(2) unfolding mirrors_def by blast
  then show ?thesis
    using s'(1) disk_inodes(2) unfolding w
    by (auto simp: matched_def node_is_def f_inode_def simp del: awalk.simps(2) split: option.splits)
qed

theorem wrf_boot_mount_first_witness:
  "wrf_boot_mount (\<lambda>_ _. 0) 4 boot_vfs = map_option snd (try_mount_at (\<lambda>_ _. 0) boot_vfs 2 0 0 1000)"
proof -
  have "mbr_parts boot_wrf d = []" if "d < 4" for d
  proof -
    have "ata_read (g_disks boot_wrf) (int d) 0 1 (stack_junk boot_wrf) = (0, sb_bytes disk_sb)"
      using ata_read_one [of d "g_disks boot_wrf" 0 "stack_junk boot_wrf"] drive_ready [of 0] that disk_sb_ok(1)
      by (simp add: boot_wrf_simps) (simp add: disk_media_def)
    moreover have "sb_bytes disk_sb ! 510 = 0"
      by (simp add: sb_bytes_def disk_sb_def sample_geometry_def nth_append)
    ultimately show ?thesis by (simp add: mbr_parts_def)
  qed
  then have "find (\<lambda>(d, a, n). pick_sb boot_wrf d a n \<noteq> None) (candidates boot_wrf) = Some (0, 0, 1000)"
    using boot_pick by (simp add: candidates_def disk_volumes_def boot_wrf_simps upt_rec numeral_eq_Suc) (simp add: sample_drive_def)
  then show ?thesis
    using wrf_boot_mount_first [of boot_vfs 2 4 "\<lambda>_ _. 0"] boot_state by simp
qed

end
