(* ===== verification/Net_Wire.thy ===== *)
theory Net_Wire
  imports TUS_Prelude
begin

text \<open>
  What goes over the wire: the byte order helpers of \<^verbatim>\<open>kernel/net/netif.h\<close>, the Internet checksum of \<^verbatim>\<open>kernel/net/ip.c\<close> and the
  TCP header of \<^verbatim>\<open>kernel/net/ip.h\<close> as bytes, and the clock that the protocols read. The checksum is one's complement arithmetic, that is, arithmetic modulo 65535: a packet
  that carries its checksum sums to zero, and one that differs from it in a single byte does not.
\<close>

section \<open>Byte order\<close>

definition htons :: "u16 \<Rightarrow> u16" where
  "htons x = (push_bit 8 x OR drop_bit 8 x)"

definition htonl :: "u32 \<Rightarrow> u32" where
  "htonl x = (push_bit 24 (x AND 0xFF) OR push_bit 8 (x AND 0xFF00) OR (drop_bit 8 x AND 0xFF00) OR (drop_bit 24 x AND 0xFF))"

definition le16 :: "u16 \<Rightarrow> u8 list" where
  "le16 w = [ucast w, ucast (drop_bit 8 w)]"

definition get_le16 :: "u8 list \<Rightarrow> u16" where
  "get_le16 p = (ucast (p ! 0) OR push_bit 8 (ucast (p ! 1)))"

lemma length_le16 [simp]: "length (le16 w) = 2"
  by (simp add: le16_def)

lemma get_le16_le16 [simp]: "get_le16 (le16 w @ r) = w"
proof (rule bit_word_eqI)
  fix n assume "n < LENGTH(16)"
  then show "bit (get_le16 (le16 w @ r)) n \<longleftrightarrow> bit w n"
    by (cases "n < 8") (auto simp: get_le16_def le16_def bit_simps)
qed

lemma get_le16_exact [simp]: "get_le16 (le16 w) = w"
  using get_le16_le16 [of w "[]"] by simp

lemma htons_htons [simp]: "htons (htons x) = x"
proof (rule bit_word_eqI)
  fix n assume "n < LENGTH(16)"
  then show "bit (htons (htons x)) n \<longleftrightarrow> bit x n"
    by (cases "n < 8") (auto simp: htons_def bit_simps dest: bit_imp_le_length)
qed

lemma byte_masks: "(0xFF :: u32) = mask 8" "(0xFF00 :: u32) = push_bit 8 (mask 8)"
  by (simp_all add: mask_eq_exp_minus_1 push_bit_eq_mult)

lemma htonl_htonl [simp]: "htonl (htonl x) = x"
proof (rule bit_word_eqI)
  fix n assume "n < LENGTH(32)"
  then show "bit (htonl (htonl x)) n \<longleftrightarrow> bit x n"
    unfolding htonl_def byte_masks
    by (cases "n < 8"; cases "n < 16"; cases "n < 24") (auto simp: bit_simps dest: bit_imp_le_length)
qed

section \<open>The Internet checksum\<close>

fun checksum_partial :: "u8 list \<Rightarrow> u32 \<Rightarrow> u32" where
  "checksum_partial (a # b # p) acc = checksum_partial p (acc + (ucast a OR push_bit 8 (ucast b)))"
| "checksum_partial [a] acc = acc + ucast a"
| "checksum_partial [] acc = acc"

lemma fold_less:
  fixes acc :: u32
  assumes "drop_bit 16 acc \<noteq> 0"
  shows "unat ((acc AND 0xFFFF) + drop_bit 16 acc) = unat acc mod 65536 + unat acc div 65536" "unat acc mod 65536 + unat acc div 65536 < unat acc"
proof -
  have m: "acc AND 0xFFFF = take_bit 16 acc" by (simp add: take_bit_eq_mask mask_eq_exp_minus_1)
  have "unat (take_bit 16 acc) = unat acc mod 2 ^ 16" unfolding unsigned_take_bit_eq by (rule take_bit_eq_mod)
  then have l: "unat (take_bit 16 acc) = unat acc mod 65536" by simp
  have h: "unat (drop_bit 16 acc) = unat acc div 65536"
    using take_bit_nat_eq_self [OF unsigned_less [of acc]] unfolding unsigned_drop_bit_eq by (simp add: drop_bit_eq_div)
  have lt: "unat acc < 2 ^ 32" using unsigned_less [of acc] by simp
  then have "unat acc div 65536 < 65536" by (simp add: less_mult_imp_div_less)
  then show "unat ((acc AND 0xFFFF) + drop_bit 16 acc) = unat acc mod 65536 + unat acc div 65536"
    unfolding m by (simp add: unat_word_ariths l h)
  have "0 < unat acc div 65536" using assms h by (metis gr0I unat_eq_zero)
  moreover have "unat acc = 65536 * (unat acc div 65536) + unat acc mod 65536" by simp
  ultimately show "unat acc mod 65536 + unat acc div 65536 < unat acc" by linarith
qed

function fold_sum :: "u32 \<Rightarrow> u32" where
  "fold_sum acc = (if drop_bit 16 acc \<noteq> 0 then fold_sum ((acc AND 0xFFFF) + drop_bit 16 acc) else acc)"
  by pat_completeness auto
termination
  by (relation "measure unat") (simp_all add: fold_less del: unat_add_lem)

declare fold_sum.simps [simp del]

definition checksum_fold :: "u32 \<Rightarrow> u16" where
  "checksum_fold acc = ucast (NOT (fold_sum acc))"

definition net_checksum :: "u8 list \<Rightarrow> u16" where
  "net_checksum data = checksum_fold (checksum_partial data 0)"

text \<open>The pseudo header in front of a transport packet; the addresses are in network order already.\<close>

definition pseudo_header :: "u32 \<Rightarrow> u32 \<Rightarrow> u8 \<Rightarrow> nat \<Rightarrow> u8 list" where
  "pseudo_header src_ip dst_ip proto len = le32 src_ip @ le32 dst_ip @ [0, proto] @ le16 (htons (of_nat len))"

definition transport_checksum :: "u32 \<Rightarrow> u32 \<Rightarrow> u8 \<Rightarrow> u8 list \<Rightarrow> u8 list \<Rightarrow> u16" where
  "transport_checksum src_ip dst_ip proto h d =
     checksum_fold (checksum_partial d (checksum_partial h (checksum_partial (pseudo_header src_ip dst_ip proto (length h + length d)) 0)))"

section \<open>Arithmetic modulo 65535\<close>

fun csum :: "u8 list \<Rightarrow> nat" where
  "csum (a # b # p) = unat a + 256 * unat b + csum p"
| "csum [a] = unat a"
| "csum [] = 0"

lemma byte_less: "unat (a :: u8) < 256"
  using unsigned_less [of a] by simp

lemma unat_pair: "unat (ucast a OR push_bit 8 (ucast b) :: u32) = unat (a :: u8) + 256 * unat (b :: u8)"
proof -
  have "bit (ucast a :: u32) n \<Longrightarrow> \<not> bit (push_bit 8 (ucast b) :: u32) n" for n by (auto simp: bit_simps dest: bit_imp_le_length)
  then have "(ucast a OR push_bit 8 (ucast b) :: u32) = ucast a + push_bit 8 (ucast b)" by (intro disjunctive_add [symmetric]) auto
  moreover have "unat (push_bit 8 (ucast b) :: u32) = 256 * unat b" using byte_less [of b]
    by (simp add: push_bit_eq_mult unat_word_ariths unsigned_ucast_eq take_bit_nat_eq_self)
  ultimately show ?thesis using byte_less [of a] byte_less [of b]
    by (simp add: unat_word_ariths unsigned_ucast_eq take_bit_nat_eq_self)
qed

lemma checksum_partial_nat: "unat acc + csum p < 2 ^ 32 \<Longrightarrow> unat (checksum_partial p acc) = unat acc + csum p"
proof (induction p acc rule: checksum_partial.induct)
  case (1 a b p acc)
  have "unat (acc + (ucast a OR push_bit 8 (ucast b))) = unat acc + (unat a + 256 * unat b)"
    using 1(2) by (simp add: unat_word_ariths unat_pair)
  then show ?case using 1 by simp
next
  case (2 a acc)
  then show ?case using byte_less [of a] by (simp add: unat_word_ariths unsigned_ucast_eq take_bit_nat_eq_self)
qed simp

lemma csum_append: "even (length p) \<Longrightarrow> csum (p @ q) = csum p + csum q"
  by (induction p rule: csum.induct) auto

lemma csum_bound: "csum p \<le> 65535 * length p"
proof (induction p rule: csum.induct)
  case (1 a b p)
  then show ?case using byte_less [of a] byte_less [of b] by simp
next
  case (2 a)
  then show ?case using byte_less [of a] by simp
qed simp

lemma mod_65535: "(x mod 65536 + x div 65536) mod 65535 = x mod (65535 :: nat)"
proof -
  have "x = 65535 * (x div 65536) + (x mod 65536 + x div 65536)" using div_mult_mod_eq [of x 65536] by linarith
  moreover have "(65535 * (x div 65536) + (x mod 65536 + x div 65536)) mod 65535 = (x mod 65536 + x div 65536) mod 65535" by (rule mod_mult_self4)
  ultimately show ?thesis by metis
qed

lemma fold_sum_spec: "unat (fold_sum acc) < 65536 \<and> unat (fold_sum acc) mod 65535 = unat acc mod 65535 \<and> (fold_sum acc = 0 \<longleftrightarrow> acc = 0)"
proof (induction acc rule: fold_sum.induct)
  case (1 acc)
  show ?case
  proof (cases "drop_bit 16 acc = 0")
    case True
    then have "unat acc div 65536 = 0"
      using take_bit_nat_eq_self [OF unsigned_less [of acc]] arg_cong [OF True, of unat] unfolding unsigned_drop_bit_eq by (simp add: drop_bit_eq_div)
    then show ?thesis using True by (subst (1 2 3) fold_sum.simps) (simp add: div_eq_0_iff)
  next
    case False
    note L = fold_less [OF False]
    have "unat acc mod 65536 + unat acc div 65536 \<noteq> 0" using L(2) div_mult_mod_eq [of "unat acc" 65536] by auto
    then have "(acc AND 0xFFFF) + drop_bit 16 acc \<noteq> 0" using L(1) by (metis unsigned_0)
    moreover have "acc \<noteq> 0" using False by auto
    ultimately show ?thesis using 1 [OF False] False L(1) by (subst (1 2 3) fold_sum.simps) (simp add: mod_65535)
  qed
qed

text \<open>A sum folds to zero exactly when it is a positive multiple of 65535.\<close>

lemma checksum_fold_unat: "unat (checksum_fold acc) = 65535 - unat (fold_sum acc)"
proof -
  let ?f = "fold_sum acc"
  have lt: "unat ?f < 65536" using fold_sum_spec by blast
  have "NOT ?f = - 1 - ?f" by (simp add: not_eq_complement)
  moreover have "unat (- 1 - ?f) = unat (- 1 :: u32) - unat ?f" by (rule unat_sub) simp
  moreover have "unat (- 1 :: u32) = 65536 * 65535 + 65535" by (simp add: unsigned_minus_1_eq_mask mask_eq_exp_minus_1)
  ultimately have n: "unat (NOT ?f) = 65536 * 65535 + (65535 - unat ?f)" using lt by (simp only:)
  have "unat (ucast (NOT ?f) :: u16) = take_bit 16 (unat (NOT ?f))" by (simp add: unsigned_ucast_eq)
  also have "\<dots> = (65536 * 65535 + (65535 - unat ?f)) mod 2 ^ 16" unfolding n by (rule take_bit_eq_mod)
  also have "(2 :: nat) ^ 16 = 65536" by simp
  also have "(65536 * 65535 + (65535 - unat ?f)) mod 65536 = (65535 - unat ?f) mod 65536" by (rule mod_mult_self4)
  finally show ?thesis by (simp add: checksum_fold_def)
qed

lemma checksum_fold_zero: "checksum_fold acc = 0 \<longleftrightarrow> acc \<noteq> 0 \<and> 65535 dvd unat acc"
proof -
  note F = fold_sum_spec [of acc]
  have "checksum_fold acc = 0 \<longleftrightarrow> unat (fold_sum acc) = 65535" using F checksum_fold_unat [of acc] by (auto simp: unat_eq_0 [symmetric])
  also have "\<dots> \<longleftrightarrow> acc \<noteq> 0 \<and> 65535 dvd unat acc"
  proof
    assume "unat (fold_sum acc) = 65535"
    then show "acc \<noteq> 0 \<and> 65535 dvd unat acc" using F by (auto simp: dvd_eq_mod_eq_0 unat_eq_0 [symmetric])
  next
    assume a: "acc \<noteq> 0 \<and> 65535 dvd unat acc"
    then have "unat (fold_sum acc) mod 65535 = 0" "unat (fold_sum acc) \<noteq> 0" using F by (auto simp: unat_eq_0)
    then obtain k where "unat (fold_sum acc) = 65535 * k" "k \<noteq> 0" by (auto simp: mod_eq_0_iff_dvd elim!: dvdE)
    then show "unat (fold_sum acc) = 65535" using F by simp
  qed
  finally show ?thesis .
qed

text \<open>The sum a receiver checks, as a number.\<close>

definition wire_sum :: "u32 \<Rightarrow> u32 \<Rightarrow> u8 \<Rightarrow> u8 list \<Rightarrow> nat" where
  "wire_sum src_ip dst_ip proto p = csum (pseudo_header src_ip dst_ip proto (length p)) + csum p"

lemma length_pseudo [simp]: "length (pseudo_header src_ip dst_ip proto n) = 12"
  by (simp add: pseudo_header_def)

lemma transport_checksum_nat:
  assumes "even (length h) \<or> d = []" "length h + length d \<le> 60000"
  shows "transport_checksum src_ip dst_ip proto h d = checksum_fold (of_nat (wire_sum src_ip dst_ip proto (h @ d)))" 
    "wire_sum src_ip dst_ip proto (h @ d) < 2 ^ 32"
proof -
  let ?p = "pseudo_header src_ip dst_ip proto (length h + length d)"
  have b: "csum ?p \<le> 65535 * 12" "csum h \<le> 65535 * length h" "csum d \<le> 65535 * length d" using csum_bound [of ?p] csum_bound [of h] csum_bound [of d] by simp_all
  have "65535 * 12 + (65535 * length h + 65535 * length d) < 2 ^ 32" using assms(2) by simp
  then have lt: "csum ?p + csum h + csum d < 2 ^ 32" using b by linarith
  then have "unat (checksum_partial d (checksum_partial h (checksum_partial ?p 0))) = csum ?p + csum h + csum d"
    by (simp add: checksum_partial_nat)
  moreover have w: "wire_sum src_ip dst_ip proto (h @ d) = csum ?p + csum h + csum d" using assms(1) by (auto simp: wire_sum_def csum_append)
  ultimately have "checksum_partial d (checksum_partial h (checksum_partial ?p 0)) = of_nat (wire_sum src_ip dst_ip proto (h @ d))"
    by (metis of_nat_unat ucast_id)
  then show "transport_checksum src_ip dst_ip proto h d = checksum_fold (of_nat (wire_sum src_ip dst_ip proto (h @ d)))"
    by (simp add: transport_checksum_def)
  show "wire_sum src_ip dst_ip proto (h @ d) < 2 ^ 32" using w lt by simp
qed

lemma transport_checksum_zero:
  assumes "even (length h) \<or> d = []" "length h + length d \<le> 60000"
  shows "transport_checksum src_ip dst_ip proto h d = 0 \<longleftrightarrow>
    wire_sum src_ip dst_ip proto (h @ d) > 0 \<and> 65535 dvd wire_sum src_ip dst_ip proto (h @ d)"
proof -
  note T = transport_checksum_nat [OF assms]
  have "unat (of_nat (wire_sum src_ip dst_ip proto (h @ d)) :: u32) = wire_sum src_ip dst_ip proto (h @ d)"
    using T(2) [of src_ip dst_ip proto] by (simp add: unat_of_nat)
  then show ?thesis unfolding T(1) checksum_fold_zero by (auto simp: unat_eq_0 [symmetric])
qed

lemma csum_update: "i < length p \<Longrightarrow> csum (p[i := y]) + (if even i then 1 else 256) * unat (p ! i) = csum p + (if even i then 1 else 256) * unat y"
proof (induction p arbitrary: i rule: csum.induct)
  case (1 a b p)
  show ?case
  proof (cases "i < 2")
    case True
    then consider "i = 0" | "i = 1" by linarith
    then show ?thesis by cases simp_all
  next
    case False
    then obtain j where j: "i = Suc (Suc j)" by (metis Suc_1 add_2_eq_Suc le_Suc_ex not_less)
    then show ?thesis using 1(1) [of j] 1(2) by simp
  qed
qed auto

text \<open>A segment that passes the check fails it after any one of its bytes is changed.\<close>

lemma one_byte_detected:
  assumes ok: "transport_checksum src_ip dst_ip proto p [] = 0" and len: "length p \<le> 60000" and i: "i < length p" and y: "y \<noteq> p ! i"
  shows "transport_checksum src_ip dst_ip proto (p[i := y]) [] \<noteq> 0"
proof
  let ?S = "wire_sum src_ip dst_ip proto" and ?w = "if even i then 1 else 256 :: nat"
  assume "transport_checksum src_ip dst_ip proto (p[i := y]) [] = 0"
  then have d: "65535 dvd ?S (p[i := y])" "65535 dvd ?S p"
    using transport_checksum_zero [of "p[i := y]" "[]"] transport_checksum_zero [of p "[]"] ok len by simp_all
  have eq: "?S (p[i := y]) + ?w * unat (p ! i) = ?S p + ?w * unat y" using csum_update [OF i, of y] by (simp add: wire_sum_def)
  have "int 65535 dvd int (?S (p[i := y])) - int (?S p)" using d by (meson dvd_diff int_dvd_int_iff)
  moreover have "int (?S (p[i := y])) - int (?S p) = int ?w * (int (unat y) - int (unat (p ! i)))"
    using arg_cong [OF eq, of int] unfolding of_nat_add of_nat_mult by (simp only: right_diff_distrib)
  ultimately have "65535 dvd int ?w * (int (unat y) - int (unat (p ! i)))" by simp
  moreover have "\<bar>int ?w * (int (unat y) - int (unat (p ! i)))\<bar> < 65535"
  proof -
    have "\<bar>int ?w * (int a - int b)\<bar> < 65535" if "a < 256" "b < 256" for a b using that by (auto simp: abs_mult abs_if)
    then show ?thesis using byte_less [of y] byte_less [of "p ! i"] by blast
  qed
  ultimately have "int ?w * (int (unat y) - int (unat (p ! i))) = 0" using zdvd_imp_le by fastforce
  then show False using y by (auto simp: word_uint_eq_iff split: if_splits)
qed

section \<open>The TCP header\<close>

text \<open>\<^verbatim>\<open>struct tcp_header\<close>, its fields as they lie in memory.\<close>

record tcp_header =
  th_src_port :: u16
  th_dst_port :: u16
  th_seq :: u32
  th_ack :: u32
  th_offset_reserved :: u8
  th_flags :: u8
  th_window :: u16
  th_checksum :: u16
  th_urgent :: u16

abbreviation (input) TCP_HDR_LEN :: nat where "TCP_HDR_LEN \<equiv> 20"

definition tcp_header_bytes :: "tcp_header \<Rightarrow> u8 list" where
  "tcp_header_bytes th = le16 (th_src_port th) @ le16 (th_dst_port th) @ le32 (th_seq th) @ le32 (th_ack th) @
     [th_offset_reserved th, th_flags th] @ le16 (th_window th) @ le16 (th_checksum th) @ le16 (th_urgent th)"

definition tcp_header_of :: "u8 list \<Rightarrow> tcp_header" where
  "tcp_header_of p = \<lparr>th_src_port = get_le16 p, th_dst_port = get_le16 (drop 2 p), th_seq = get_le32 (drop 4 p), th_ack = get_le32 (drop 8 p),
     th_offset_reserved = p ! 12, th_flags = p ! 13, th_window = get_le16 (drop 14 p), th_checksum = get_le16 (drop 16 p), th_urgent = get_le16 (drop 18 p)\<rparr>"

lemma length_tcp_header [simp]: "length (tcp_header_bytes th) = TCP_HDR_LEN"
  by (simp add: tcp_header_bytes_def)

lemma drop_append_exact: "length xs = n \<Longrightarrow> drop n (xs @ ys) = ys"
  by simp

lemma tcp_header_roundtrip [simp]: "tcp_header_of (tcp_header_bytes th @ r) = th"
proof -
  have d: "drop 2 (le16 a @ r) = r" "drop 4 (le32 b @ r) = r" for a b r by simp_all
  let ?p = "tcp_header_bytes th @ r"
  have p2: "drop 2 ?p = le16 (th_dst_port th) @ le32 (th_seq th) @ le32 (th_ack th) @ [th_offset_reserved th, th_flags th] @ le16 (th_window th) @ le16 (th_checksum th) @ le16 (th_urgent th) @ r"
    by (simp add: tcp_header_bytes_def)
  have p4: "drop 4 ?p = le32 (th_seq th) @ le32 (th_ack th) @ [th_offset_reserved th, th_flags th] @ le16 (th_window th) @ le16 (th_checksum th) @ le16 (th_urgent th) @ r"
    by (simp add: tcp_header_bytes_def)
  have p8: "drop 8 ?p = le32 (th_ack th) @ [th_offset_reserved th, th_flags th] @ le16 (th_window th) @ le16 (th_checksum th) @ le16 (th_urgent th) @ r"
    by (simp add: tcp_header_bytes_def)
  have p12: "?p ! 12 = th_offset_reserved th" "?p ! 13 = th_flags th"
    by (simp_all add: tcp_header_bytes_def nth_append)
  have p14: "drop 14 ?p = le16 (th_window th) @ le16 (th_checksum th) @ le16 (th_urgent th) @ r" by (simp add: tcp_header_bytes_def)
  have p16: "drop 16 ?p = le16 (th_checksum th) @ le16 (th_urgent th) @ r" by (simp add: tcp_header_bytes_def)
  have p18: "drop 18 ?p = le16 (th_urgent th) @ r" by (simp add: tcp_header_bytes_def)
  have p0: "get_le16 ?p = th_src_port th" by (simp add: tcp_header_bytes_def)
  show ?thesis unfolding tcp_header_of_def p0 p2 p4 p8 p12 p14 p16 p18 by simp
qed

text \<open>Filling in the checksum makes the packet sum to zero.\<close>

lemma csum_le16: "csum (le16 c) = unat c"
proof -
  have h: "unat (drop_bit 8 c) = unat c div 256" using take_bit_nat_eq_self [OF unsigned_less [of c]] unfolding unsigned_drop_bit_eq by (simp add: drop_bit_eq_div)
  have "unat c < 256 * 256" using unsigned_less [of c] by simp
  then have "unat c div 256 < 256" by (rule less_mult_imp_div_less)
  then have "csum (le16 c) = unat c mod 256 + 256 * (unat c div 256)"
    by (simp add: le16_def unsigned_ucast_eq h take_bit_eq_mod)
  then show ?thesis by simp
qed

lemma csum_field: "even (length a) \<Longrightarrow> csum (a @ le16 c @ r) = csum (a @ le16 0 @ r) + unat c"
proof -
  assume e: "even (length a)"
  have "csum (a @ le16 c @ r) = csum a + (unat c + csum r)" for c using csum_append [OF e] csum_append [of "le16 c" r] csum_le16 by simp
  from this [of c] this [of 0] show ?thesis by simp
qed

lemma csum_header: "csum (tcp_header_bytes th @ r) = csum (tcp_header_bytes (th\<lparr>th_checksum := 0\<rparr>) @ r) + unat (th_checksum th)"
proof -
  let ?a = "le16 (th_src_port th) @ le16 (th_dst_port th) @ le32 (th_seq th) @ le32 (th_ack th) @ [th_offset_reserved th, th_flags th] @ le16 (th_window th)"
  have "tcp_header_bytes (th\<lparr>th_checksum := c\<rparr>) @ r = ?a @ le16 c @ le16 (th_urgent th) @ r" for c by (simp add: tcp_header_bytes_def)
  from this [of "th_checksum th"] this [of 0] show ?thesis using csum_field [of ?a "th_checksum th" "le16 (th_urgent th) @ r"] by simp
qed

lemma complement_dvd:
  fixes f t :: nat
  assumes "f mod 65535 = t mod 65535" "f < 65536"
  shows "65535 dvd t + (65535 - f)"
proof -
  have "(t + (65535 - f)) mod 65535 = (f + (65535 - f)) mod 65535" using mod_add_cong [OF assms(1) refl] by simp
  also have "f + (65535 - f) = 65535" using assms(2) by simp
  finally show ?thesis by (simp add: dvd_eq_mod_eq_0)
qed

lemma checksum_completes:
  assumes "S < 2 ^ 32"
  shows "65535 dvd S + unat (checksum_fold (of_nat S))" "0 < S + unat (checksum_fold (of_nat S))"
proof -
  have n: "unat (of_nat S :: u32) = S" using assms by (simp add: unat_of_nat)
  note F = fold_sum_spec [of "of_nat S"]
  have uc: "unat (checksum_fold (of_nat S)) = 65535 - unat (fold_sum (of_nat S))" by (rule checksum_fold_unat)
  have "unat (fold_sum (of_nat S)) mod 65535 = S mod 65535" "unat (fold_sum (of_nat S)) < 65536" using F unfolding n by blast+
  then show "65535 dvd S + unat (checksum_fold (of_nat S))" unfolding uc by (rule complement_dvd)
  show "0 < S + unat (checksum_fold (of_nat S))"
  proof (cases "S = 0")
    case True
    have "(of_nat S :: u32) = of_nat 0" by (rule arg_cong [OF True])
    then have "fold_sum (of_nat S) = 0" using F unfolding semiring_1_class.of_nat_0 by blast
    then have "unat (fold_sum (of_nat S)) = 0" unfolding unat_eq_0 .
    then show ?thesis unfolding uc by linarith
  qed simp
qed

lemma checksum_fills:
  fixes src_ip dst_ip proto
  assumes "even (length opt)" "length opt + length d \<le> 50000" "th_checksum th = 0"
  defines "c \<equiv> transport_checksum src_ip dst_ip proto (tcp_header_bytes th @ opt) d"
  shows "transport_checksum src_ip dst_ip proto (tcp_header_bytes (th\<lparr>th_checksum := c\<rparr>) @ opt @ d) [] = 0"
proof -
  let ?h = "tcp_header_bytes th @ opt" and ?p = "tcp_header_bytes (th\<lparr>th_checksum := c\<rparr>) @ opt @ d"
  let ?S = "wire_sum src_ip dst_ip proto (?h @ d)"
  have T: "c = checksum_fold (of_nat ?S)" "?S < 2 ^ 32"
    using transport_checksum_nat [of ?h d src_ip dst_ip proto] assms(1,2) by (simp_all add: c_def)
  have w: "wire_sum src_ip dst_ip proto ?p = ?S + unat c"
  proof -
    have "th\<lparr>th_checksum := 0\<rparr> = th" using assms(3) by simp
    then show ?thesis using csum_header [of "th\<lparr>th_checksum := c\<rparr>" "opt @ d"] by (simp add: wire_sum_def)
  qed
  show ?thesis using transport_checksum_zero [of ?p "[]" src_ip dst_ip proto] checksum_completes [OF T(2)] w assms(1,2) T(1) by simp
qed

text \<open>The checksum of a block on its own, as in the headers of IP and ICMP.\<close>

lemma net_checksum_zero: "length p \<le> 60000 \<Longrightarrow> net_checksum p = 0 \<longleftrightarrow> 0 < csum p \<and> 65535 dvd csum p"
proof -
  assume l: "length p \<le> 60000"
  have "65535 * length p < 2 ^ 32" using l by simp
  then have "csum p < 2 ^ 32" using csum_bound [of p] by linarith
  then have "unat (checksum_partial p 0) = csum p" by (simp add: checksum_partial_nat)
  then show ?thesis unfolding net_checksum_def checksum_fold_zero by (auto simp: unat_eq_0 [symmetric])
qed

lemma net_checksum_fills:
  assumes "even (length a)" "length a + 2 + length r \<le> 60000"
  shows "net_checksum (a @ le16 (net_checksum (a @ le16 0 @ r)) @ r) = 0"
proof -
  let ?S = "csum (a @ le16 0 @ r)"
  have "65535 * length (a @ le16 0 @ r) < 2 ^ 32" using assms(2) by simp
  then have S: "?S < 2 ^ 32" using csum_bound [of "a @ le16 0 @ r"] by linarith
  then have "unat (checksum_partial (a @ le16 0 @ r) 0) = ?S" by (simp add: checksum_partial_nat)
  then have "checksum_partial (a @ le16 0 @ r) 0 = of_nat ?S" by (metis of_nat_unat ucast_id)
  then have "net_checksum (a @ le16 0 @ r) = checksum_fold (of_nat ?S)" by (simp add: net_checksum_def)
  then have c: "csum (a @ le16 (net_checksum (a @ le16 0 @ r)) @ r) = ?S + unat (checksum_fold (of_nat ?S))"
    using csum_field [OF assms(1), of "net_checksum (a @ le16 0 @ r)" r] by (simp only:)
  have "length (a @ le16 (net_checksum (a @ le16 0 @ r)) @ r) \<le> 60000" using assms(2) by simp
  from net_checksum_zero [OF this] show ?thesis unfolding c using checksum_completes [OF S] by blast
qed

section \<open>Constants of the IP layer\<close>

abbreviation (input) IP_MAX_PAYLOAD :: nat where "IP_MAX_PAYLOAD \<equiv> 1480"
abbreviation (input) IP_PROTOCOL_ICMP :: u8 where "IP_PROTOCOL_ICMP \<equiv> 1"
abbreviation (input) IP_PROTOCOL_TCP :: u8 where "IP_PROTOCOL_TCP \<equiv> 6"
abbreviation (input) IP_PROTOCOL_UDP :: u8 where "IP_PROTOCOL_UDP \<equiv> 17"

section \<open>The clock\<close>

text \<open>The successive readings of \<^verbatim>\<open>pit_uptime_ms\<close>, and how many of them have been taken.\<close>

record net_clock =
  uptime :: "nat \<Rightarrow> u64"
  ticks :: nat

definition pit_uptime_ms :: "'a net_clock_scheme \<Rightarrow> u64 \<times> 'a net_clock_scheme" where
  "pit_uptime_ms w = (uptime w (ticks w), w\<lparr>ticks := Suc (ticks w)\<rparr>)"

end
