(* ===== verification/Tcp.thy ===== *)
theory Tcp
  imports Net_Wire Byte_Ring "HOL-Library.Monad_Syntax"
begin

text \<open>
  TCP, \<^verbatim>\<open>kernel/net/tcp.c\<close> and \<^verbatim>\<open>tcp.h\<close>: the protocol control block of a connection, what each call of an application, each
  arriving segment and each tick of the retransmission timer does to it, and the table of control blocks. A segment is the list of
  its bytes. The functions on one control block take it and the world (\<open>netw\<close>) and return both; those on the table dereference
  pointers, and are \<open>None\<close> where the code would follow a pointer that is not there.
\<close>

section \<open>The world below\<close>

text \<open>
  The interface, the clock (its successive readings), the time stamp counter, and the IP layer: whether the next packet can
  be sent, and the packets sent so far, each with its destination. \<open>ip_carry\<close> is \<^verbatim>\<open>ip_output\<close> as TCP sees it; theory \<open>Ip_Props\<close> shows that the
  code of \<^verbatim>\<open>ip_output\<close> does this. Resolving the address of the next hop may make it wait; segments that arrive while it waits
  are not modelled.
\<close>

record netw = net_clock +
  nif_up :: bool
  nif_ip :: u32
  tsc :: "nat \<Rightarrow> u32"
  isns :: nat
  link_ok :: "nat \<Rightarrow> bool"
  sends :: nat
  wire :: "(u32 \<times> u8 list) list"

definition ip_carry :: "u32 \<Rightarrow> u8 list \<Rightarrow> u8 list \<Rightarrow> 'a netw_scheme \<Rightarrow> bool \<times> 'a netw_scheme" where
  "ip_carry dst_ip h d w =
     (if \<not> nif_up w \<or> length h + length d > IP_MAX_PAYLOAD then (False, w)
      else if link_ok w (sends w) then (True, w\<lparr>sends := Suc (sends w), wire := wire w @ [(dst_ip, h @ d)]\<rparr>)
      else (False, w\<lparr>sends := Suc (sends w)\<rparr>))"

section \<open>Sequence numbers\<close>

definition seq_lt :: "u32 \<Rightarrow> u32 \<Rightarrow> bool" where "seq_lt a b \<longleftrightarrow> sint (a - b) < 0"
definition seq_leq :: "u32 \<Rightarrow> u32 \<Rightarrow> bool" where "seq_leq a b \<longleftrightarrow> sint (a - b) \<le> 0"
definition seq_gt :: "u32 \<Rightarrow> u32 \<Rightarrow> bool" where "seq_gt a b \<longleftrightarrow> sint (a - b) > 0"
definition seq_geq :: "u32 \<Rightarrow> u32 \<Rightarrow> bool" where "seq_geq a b \<longleftrightarrow> sint (a - b) \<ge> 0"

definition tcp_isn :: "'a netw_scheme \<Rightarrow> u32 \<times> 'a netw_scheme" where
  "tcp_isn w = (case pit_uptime_ms w of (ms, w) \<Rightarrow> (ucast (ms * 250000) XOR tsc w (isns w), w\<lparr>isns := Suc (isns w)\<rparr>))"

section \<open>Control blocks\<close>

abbreviation (input) TCP_RX_BUF_SIZE :: nat where "TCP_RX_BUF_SIZE \<equiv> 32768"
abbreviation (input) TCP_TX_BUF_SIZE :: nat where "TCP_TX_BUF_SIZE \<equiv> 32768"
abbreviation (input) TCP_MSS :: nat where "TCP_MSS \<equiv> 1460"
abbreviation (input) TCP_BACKLOG_MAX :: int where "TCP_BACKLOG_MAX \<equiv> 8"
abbreviation (input) TCP_PCB_MAX :: nat where "TCP_PCB_MAX \<equiv> 64"
abbreviation (input) TCP_RTO_MIN_MS :: u32 where "TCP_RTO_MIN_MS \<equiv> 200"
abbreviation (input) TCP_RTO_MAX_MS :: u32 where "TCP_RTO_MAX_MS \<equiv> 8000"
abbreviation (input) TCP_RETRIES_MAX :: int where "TCP_RETRIES_MAX \<equiv> 8"
abbreviation (input) TCP_CONNECT_TIMEOUT_MS :: u64 where "TCP_CONNECT_TIMEOUT_MS \<equiv> 10000"
abbreviation (input) TCP_TIME_WAIT_MS :: u64 where "TCP_TIME_WAIT_MS \<equiv> 5000"
abbreviation (input) TCP_FLAG_FIN :: u8 where "TCP_FLAG_FIN \<equiv> 1"
abbreviation (input) TCP_FLAG_SYN :: u8 where "TCP_FLAG_SYN \<equiv> 2"
abbreviation (input) TCP_FLAG_RST :: u8 where "TCP_FLAG_RST \<equiv> 4"
abbreviation (input) TCP_FLAG_PSH :: u8 where "TCP_FLAG_PSH \<equiv> 8"
abbreviation (input) TCP_FLAG_ACK :: u8 where "TCP_FLAG_ACK \<equiv> 16"

datatype tcp_state = CLOSED | LISTEN | SYN_SENT | SYN_RCVD | ESTABLISHED | FIN_WAIT1 | FIN_WAIT2 | CLOSING | TIME_WAIT | CLOSE_WAIT | LAST_ACK

type_synonym taddr = nat

text \<open>\<open>tp_rx\<close> and \<open>tp_tx\<close> are the two ring buffers; \<open>tp_backlog\<close> is the part of the backlog that is in use.\<close>

record tcp_pcb =
  tp_state :: tcp_state
  tp_local_ip :: u32
  tp_remote_ip :: u32
  tp_local_port :: u16
  tp_remote_port :: u16
  tp_snd_una :: u32
  tp_snd_nxt :: u32
  tp_iss :: u32
  tp_snd_wnd :: u16
  tp_rcv_nxt :: u32
  tp_irs :: u32
  tp_rx :: byte_ring
  tp_tx :: byte_ring
  tp_rto_deadline_ms :: u64
  tp_rto_ms :: u32
  tp_retries :: int
  tp_fin_queued :: bool
  tp_fin_sent :: bool
  tp_rx_fin :: bool
  tp_reset :: bool
  tp_orphaned :: bool
  tp_needs_ack :: bool
  tp_timer_deadline_ms :: u64
  tp_backlog_max :: int
  tp_backlog :: "taddr list"
  tp_parent :: "taddr option"

section \<open>Ring helpers\<close>

definition rx_free :: "tcp_pcb \<Rightarrow> nat" where
  "rx_free p = TCP_RX_BUF_SIZE - rb_count (tp_rx p)"

definition rx_append :: "tcp_pcb \<Rightarrow> u8 list \<Rightarrow> tcp_pcb" where
  "rx_append p data = p\<lparr>tp_rx := ring_put TCP_RX_BUF_SIZE data (tp_rx p)\<rparr>"

definition tx_peek :: "tcp_pcb \<Rightarrow> nat \<Rightarrow> nat \<Rightarrow> u8 list" where
  "tx_peek p off len = ring_copy_out TCP_TX_BUF_SIZE len ((tp_tx p)\<lparr>rb_head := (rb_head (tp_tx p) + off) mod TCP_TX_BUF_SIZE\<rparr>)"

definition tx_append :: "tcp_pcb \<Rightarrow> u8 list \<Rightarrow> tcp_pcb" where
  "tx_append p data = p\<lparr>tp_tx := ring_put TCP_TX_BUF_SIZE data (tp_tx p)\<rparr>"

definition tx_consume :: "tcp_pcb \<Rightarrow> nat \<Rightarrow> tcp_pcb" where
  "tx_consume p len =
     (let len = (if len > rb_count (tp_tx p) then rb_count (tp_tx p) else len)
      in p\<lparr>tp_tx := ring_advance TCP_TX_BUF_SIZE len (tp_tx p)\<rparr>)"

section \<open>Sending segments\<close>

definition mss_option :: "u8 list" where
  "mss_option = [2, 4, of_nat (TCP_MSS div 256), of_nat (TCP_MSS mod 256)]"

definition segment_header :: "tcp_pcb \<Rightarrow> u8 \<Rightarrow> u32 \<Rightarrow> bool \<Rightarrow> tcp_header" where
  "segment_header p flags seq with_mss =
     \<lparr>th_src_port = htons (tp_local_port p), th_dst_port = htons (tp_remote_port p), th_seq = htonl seq, th_ack = htonl (tp_rcv_nxt p),
      th_offset_reserved = push_bit 4 (of_nat ((if with_mss then 24 else TCP_HDR_LEN) div 4)), th_flags = flags,
      th_window = htons (if rx_free p > 0xFFFF then 0xFFFF else of_nat (rx_free p)), th_checksum = 0, th_urgent = 0\<rparr>"

definition tcp_send_segment ::
    "tcp_pcb \<Rightarrow> u8 \<Rightarrow> u32 \<Rightarrow> u8 list \<Rightarrow> bool \<Rightarrow> 'a netw_scheme \<Rightarrow> bool \<times> tcp_pcb \<times> 'a netw_scheme" where
  "tcp_send_segment p flags seq data with_mss w =
     (let th = segment_header p flags seq with_mss;
          opt = (if with_mss then mss_option else []);
          src = (if tp_local_ip p \<noteq> 0 then tp_local_ip p else nif_ip w);
          th = th\<lparr>th_checksum := transport_checksum src (tp_remote_ip p) IP_PROTOCOL_TCP (tcp_header_bytes th @ opt) data\<rparr>;
          (ok, w) = ip_carry (tp_remote_ip p) (tcp_header_bytes th @ opt) data w
      in (ok, p\<lparr>tp_needs_ack := False\<rparr>, w))"

definition tcp_send_reset :: "u32 \<Rightarrow> u16 \<Rightarrow> u16 \<Rightarrow> u32 \<Rightarrow> u32 \<Rightarrow> bool \<Rightarrow> 'a netw_scheme \<Rightarrow> 'a netw_scheme" where
  "tcp_send_reset dst_ip local_port remote_port seq ack ack_valid w =
     (let th = \<lparr>th_src_port = htons local_port, th_dst_port = htons remote_port,
                th_seq = (if ack_valid then htonl ack else 0), th_ack = (if ack_valid then 0 else htonl seq),
                th_offset_reserved = push_bit 4 (of_nat (TCP_HDR_LEN div 4)),
                th_flags = (if ack_valid then TCP_FLAG_RST else TCP_FLAG_RST OR TCP_FLAG_ACK),
                th_window = 0, th_checksum = 0, th_urgent = 0\<rparr>;
          th = th\<lparr>th_checksum := transport_checksum (nif_ip w) dst_ip IP_PROTOCOL_TCP (tcp_header_bytes th) []\<rparr>
      in snd (ip_carry dst_ip (tcp_header_bytes th) [] w))"

definition tcp_start_rto :: "tcp_pcb \<Rightarrow> 'a netw_scheme \<Rightarrow> tcp_pcb \<times> 'a netw_scheme" where
  "tcp_start_rto p w =
     (if tp_rto_deadline_ms p = 0
      then (case pit_uptime_ms w of (now, w) \<Rightarrow> (p\<lparr>tp_rto_deadline_ms := now + ucast (tp_rto_ms p), tp_retries := 0\<rparr>, w))
      else (p, w))"

lemma tcp_send_segment_pcb: "tcp_send_segment p flags seq data mss w = (ok, p', w') \<Longrightarrow> p' = p\<lparr>tp_needs_ack := False\<rparr>"
  by (auto simp: tcp_send_segment_def Let_def split: prod.splits)

lemma tcp_start_rto_pcb: "tcp_start_rto p w = (p', w') \<Longrightarrow> \<exists>d r. p' = p\<lparr>tp_rto_deadline_ms := d, tp_retries := r\<rparr>"
proof (cases "tp_rto_deadline_ms p = 0")
  case False
  assume "tcp_start_rto p w = (p', w')"
  then have "p' = p\<lparr>tp_rto_deadline_ms := tp_rto_deadline_ms p, tp_retries := tp_retries p\<rparr>" using False by (simp add: tcp_start_rto_def)
  then show ?thesis by blast
qed (auto simp: tcp_start_rto_def pit_uptime_ms_def)

text \<open>Pushing what the window allows. The loop ends because the bytes in flight stay below the window and every turn adds some.\<close>

definition in_flight :: "tcp_pcb \<Rightarrow> u32" where
  "in_flight p = tp_snd_nxt p - tp_snd_una p"

definition next_chunk :: "tcp_pcb \<Rightarrow> nat" where
  "next_chunk p =
     (let can_send = unat (tp_snd_wnd p) - unat (in_flight p);
          unsent = rb_count (tp_tx p) - unat (in_flight p);
          n = (if unsent < can_send then unsent else can_send)
      in if n > TCP_MSS then TCP_MSS else n)"

definition may_push :: "tcp_pcb \<Rightarrow> bool" where
  "may_push p \<longleftrightarrow> \<not> unat (in_flight p) \<ge> rb_count (tp_tx p) \<and> tp_snd_wnd p \<noteq> 0 \<and> \<not> unat (in_flight p) \<ge> unat (tp_snd_wnd p)"

lemma next_chunk: "may_push p \<Longrightarrow> 0 < next_chunk p \<and> unat (in_flight p) + next_chunk p \<le> unat (tp_snd_wnd p) \<and>
    unat (in_flight p) + next_chunk p \<le> rb_count (tp_tx p) \<and> next_chunk p \<le> TCP_MSS"
  by (auto simp: may_push_def next_chunk_def Let_def)

lemma next_chunk_flight: "may_push p \<Longrightarrow> unat (in_flight p + of_nat (next_chunk p)) = unat (in_flight p) + next_chunk p"
proof -
  assume "may_push p"
  note n = next_chunk [OF this]
  have "unat (tp_snd_wnd p) < 65536" using unsigned_less [of "tp_snd_wnd p"] by simp
  then show ?thesis using n by (simp add: unat_word_ariths unat_of_nat)
qed

function (sequential) output_loop :: "tcp_pcb \<Rightarrow> 'a netw_scheme \<Rightarrow> tcp_pcb \<times> 'a netw_scheme" where
  "output_loop p w =
     (if \<not> may_push p then (p, w)
      else
        (case tcp_send_segment p (TCP_FLAG_ACK OR TCP_FLAG_PSH) (tp_snd_nxt p) (tx_peek p (unat (in_flight p)) (next_chunk p)) False w of
           (ok, p1, w1) \<Rightarrow>
             if \<not> ok then (p1, w1)
             else
               (case tcp_start_rto (p1\<lparr>tp_snd_nxt := tp_snd_nxt p1 + of_nat (next_chunk p)\<rparr>) w1 of
                  (p2, w2) \<Rightarrow> output_loop p2 w2)))"
  by pat_completeness auto
termination
proof (relation "measure (\<lambda>(p, w). unat (tp_snd_wnd p) - unat (in_flight p))")
  fix p :: tcp_pcb and w w1 w2 :: "'a netw_scheme" and ok p1 p2 y
  assume a: "\<not> \<not> may_push p"
    and s: "(ok, y) = tcp_send_segment p (TCP_FLAG_ACK OR TCP_FLAG_PSH) (tp_snd_nxt p) (tx_peek p (unat (in_flight p)) (next_chunk p)) False w" "(p1, w1) = y"
    and r: "(p2, w2) = tcp_start_rto (p1\<lparr>tp_snd_nxt := tp_snd_nxt p1 + of_nat (next_chunk p)\<rparr>) w1"
  have p1: "p1 = p\<lparr>tp_needs_ack := False\<rparr>" using s tcp_send_segment_pcb by metis
  obtain d r where p2: "p2 = (p1\<lparr>tp_snd_nxt := tp_snd_nxt p1 + of_nat (next_chunk p)\<rparr>)\<lparr>tp_rto_deadline_ms := d, tp_retries := r\<rparr>"
    using tcp_start_rto_pcb [OF r [symmetric]] by blast
  have "in_flight p2 = in_flight p + of_nat (next_chunk p)" "tp_snd_wnd p2 = tp_snd_wnd p" by (simp_all add: p1 p2 in_flight_def)
  then show "((p2, w2), p, w) \<in> measure (\<lambda>(p, w). unat (tp_snd_wnd p) - unat (in_flight p))"
    using a next_chunk [of p] next_chunk_flight [of p] by auto
qed simp

declare output_loop.simps [simp del]

definition push_fin :: "tcp_pcb \<Rightarrow> 'a netw_scheme \<Rightarrow> tcp_pcb \<times> 'a netw_scheme" where
  "push_fin p w =
     (if tp_fin_queued p \<and> \<not> tp_fin_sent p \<and> tp_snd_nxt p = tp_snd_una p + of_nat (rb_count (tp_tx p))
      then (case tcp_send_segment p (TCP_FLAG_ACK OR TCP_FLAG_FIN) (tp_snd_nxt p) [] False w of
              (ok, p1, w1) \<Rightarrow>
                if ok then tcp_start_rto (p1\<lparr>tp_snd_nxt := tp_snd_nxt p1 + 1, tp_fin_sent := True\<rparr>) w1 else (p1, w1))
      else (p, w))"

definition tcp_output :: "tcp_pcb \<Rightarrow> 'a netw_scheme \<Rightarrow> tcp_pcb \<times> 'a netw_scheme" where
  "tcp_output p w =
     (if tp_state p \<noteq> ESTABLISHED \<and> tp_state p \<noteq> CLOSE_WAIT \<and> tp_state p \<noteq> FIN_WAIT1 \<and> tp_state p \<noteq> LAST_ACK then (p, w)
      else (case output_loop p w of (p, w) \<Rightarrow> push_fin p w))"

section \<open>Arriving segments\<close>

definition tcp_process_ack :: "tcp_pcb \<Rightarrow> u32 \<Rightarrow> 'a netw_scheme \<Rightarrow> tcp_pcb \<times> 'a netw_scheme" where
  "tcp_process_ack p ack w =
     (if seq_leq ack (tp_snd_una p) \<or> seq_gt ack (tp_snd_nxt p) then (p, w)
      else
        let acked = unat (ack - tp_snd_una p);
            data_acked = (if acked > rb_count (tp_tx p) then rb_count (tp_tx p) else acked);
            p = (tx_consume p data_acked)\<lparr>tp_snd_una := ack, tp_retries := 0, tp_rto_ms := TCP_RTO_MIN_MS, tp_rto_deadline_ms := 0\<rparr>
        in if tp_snd_una p \<noteq> tp_snd_nxt p then tcp_start_rto p w else (p, w))"

definition tcp_fin_acked :: "tcp_pcb \<Rightarrow> bool" where
  "tcp_fin_acked p \<longleftrightarrow> tp_fin_sent p \<and> tp_snd_una p = tp_snd_nxt p"

text \<open>The steps of \<^verbatim>\<open>tcp_input\<close> for a segment that belongs to a synchronised connection: trim what was received before, take the
  acknowledgement, the data, the FIN, and note when the own FIN is acknowledged.\<close>

definition trim_segment :: "u32 \<Rightarrow> u32 \<Rightarrow> u8 list \<Rightarrow> (u32 \<times> u8 list) option" where
  "trim_segment rcv_nxt seq data =
     (if seq_lt seq rcv_nxt then
        (let skip = unat (rcv_nxt - seq) in Some (rcv_nxt, if skip \<ge> length data then [] else drop skip data))
      else if seq_gt seq rcv_nxt then None
      else Some (seq, data))"

definition take_ack :: "u8 \<Rightarrow> u32 \<Rightarrow> tcp_pcb \<Rightarrow> 'a netw_scheme \<Rightarrow> tcp_pcb \<times> 'a netw_scheme" where
  "take_ack flags ack p w =
     (if flags AND TCP_FLAG_ACK \<noteq> 0 then
        (case tcp_process_ack p ack w of (p, w) \<Rightarrow>
           (if tp_state p = SYN_RCVD \<and> seq_geq ack (tp_iss p + 1) then p\<lparr>tp_state := ESTABLISHED\<rparr> else p, w))
      else (p, w))"

definition take_data :: "u8 list \<Rightarrow> tcp_pcb \<Rightarrow> tcp_pcb" where
  "take_data data p =
     (if data \<noteq> [] \<and> (tp_state p = ESTABLISHED \<or> tp_state p = FIN_WAIT1 \<or> tp_state p = FIN_WAIT2) then
        (let n = (if length data < rx_free p then length data else rx_free p);
             p = (if n > 0 then (rx_append p (take n data))\<lparr>tp_rcv_nxt := tp_rcv_nxt p + of_nat n\<rparr> else p)
         in p\<lparr>tp_needs_ack := True\<rparr>)
      else p)"

definition enter_time_wait :: "tcp_pcb \<Rightarrow> 'a netw_scheme \<Rightarrow> tcp_pcb \<times> 'a netw_scheme" where
  "enter_time_wait p w = (case pit_uptime_ms w of (now, w) \<Rightarrow> (p\<lparr>tp_state := TIME_WAIT, tp_timer_deadline_ms := now + TCP_TIME_WAIT_MS\<rparr>, w))"

definition take_fin :: "u8 \<Rightarrow> u32 \<Rightarrow> nat \<Rightarrow> tcp_pcb \<Rightarrow> 'a netw_scheme \<Rightarrow> tcp_pcb \<times> 'a netw_scheme" where
  "take_fin flags seq data_len p w =
     (if flags AND TCP_FLAG_FIN \<noteq> 0 \<and> seq + of_nat data_len = tp_rcv_nxt p then
        (let p = p\<lparr>tp_rcv_nxt := tp_rcv_nxt p + 1, tp_rx_fin := True, tp_needs_ack := True\<rparr>
         in case tp_state p of
              ESTABLISHED \<Rightarrow> (p\<lparr>tp_state := CLOSE_WAIT\<rparr>, w)
            | FIN_WAIT1 \<Rightarrow> (if tcp_fin_acked p then enter_time_wait p w else (p\<lparr>tp_state := CLOSING\<rparr>, w))
            | FIN_WAIT2 \<Rightarrow> enter_time_wait p w
            | _ \<Rightarrow> (p, w))
      else (p, w))"

definition own_fin_acked :: "tcp_pcb \<Rightarrow> 'a netw_scheme \<Rightarrow> tcp_pcb \<times> 'a netw_scheme" where
  "own_fin_acked p w =
     (if tcp_fin_acked p then
        (case tp_state p of
           FIN_WAIT1 \<Rightarrow> (p\<lparr>tp_state := FIN_WAIT2\<rparr>, w)
         | CLOSING \<Rightarrow> enter_time_wait p w
         | LAST_ACK \<Rightarrow> (p\<lparr>tp_state := CLOSED\<rparr>, w)
         | _ \<Rightarrow> (p, w))
      else (p, w))"

definition send_ack :: "tcp_pcb \<Rightarrow> 'a netw_scheme \<Rightarrow> tcp_pcb \<times> 'a netw_scheme" where
  "send_ack p w = (case tcp_send_segment p TCP_FLAG_ACK (tp_snd_nxt p) [] False w of (ok, p, w) \<Rightarrow> (p, w))"

definition synced_input :: "tcp_header \<Rightarrow> u8 list \<Rightarrow> tcp_pcb \<Rightarrow> 'a netw_scheme \<Rightarrow> tcp_pcb \<times> 'a netw_scheme" where
  "synced_input th data p w =
     (case trim_segment (tp_rcv_nxt p) (htonl (th_seq th)) data of
        None \<Rightarrow> send_ack p w
      | Some (seq, data) \<Rightarrow>
          (case take_ack (th_flags th) (htonl (th_ack th)) (p\<lparr>tp_snd_wnd := htons (th_window th)\<rparr>) w of (p, w) \<Rightarrow>
           case take_fin (th_flags th) seq (length data) (take_data data p) w of (p, w) \<Rightarrow>
           case own_fin_acked p w of (p, w) \<Rightarrow>
           case (if tp_needs_ack p then send_ack p w else (p, w)) of (p, w) \<Rightarrow>
           tcp_output p w))"

definition syn_sent_input :: "u32 \<Rightarrow> tcp_header \<Rightarrow> tcp_pcb \<Rightarrow> 'a netw_scheme \<Rightarrow> tcp_pcb \<times> 'a netw_scheme" where
  "syn_sent_input src_ip th p w =
     (if th_flags th AND TCP_FLAG_SYN \<noteq> 0 \<and> th_flags th AND TCP_FLAG_ACK \<noteq> 0 then
        (if htonl (th_ack th) \<noteq> tp_snd_nxt p then
           (p, tcp_send_reset src_ip (htons (th_dst_port th)) (htons (th_src_port th)) 0 (htonl (th_ack th)) True w)
         else
           send_ack (p\<lparr>tp_irs := htonl (th_seq th), tp_rcv_nxt := htonl (th_seq th) + 1, tp_snd_una := htonl (th_ack th),
             tp_snd_wnd := htons (th_window th), tp_rto_deadline_ms := 0, tp_state := ESTABLISHED\<rparr>) w)
      else (p, w))"

definition pcb_input :: "u32 \<Rightarrow> tcp_header \<Rightarrow> u8 list \<Rightarrow> tcp_pcb \<Rightarrow> 'a netw_scheme \<Rightarrow> tcp_pcb \<times> 'a netw_scheme" where
  "pcb_input src_ip th data p w =
     (if th_flags th AND TCP_FLAG_RST \<noteq> 0 then (p\<lparr>tp_reset := True, tp_state := CLOSED\<rparr>, w)
      else if tp_state p = SYN_SENT then syn_sent_input src_ip th p w
      else synced_input th data p w)"

section \<open>Calls on a connection\<close>

text \<open>A call that has to wait for the network returns \<open>WBlocked\<close> or \<open>Blocked\<close>; continuing it is running it again from there.\<close>

partial_function (option) send_loop ::
    "bool \<Rightarrow> u8 list \<Rightarrow> nat \<Rightarrow> tcp_pcb \<Rightarrow> 'a netw_scheme \<Rightarrow> (write_result \<times> tcp_pcb \<times> 'a netw_scheme) option" where
  "send_loop blocking buf written p w =
     (let fail = (\<lambda>e. Some (WDone (if written \<noteq> 0 then int written else - e), p, w)) in
      if written < length buf then
        if tp_reset p then fail ECONNRESET
        else if tp_state p \<noteq> ESTABLISHED \<and> tp_state p \<noteq> CLOSE_WAIT then fail EPIPE
        else if tp_fin_queued p then fail EPIPE
        else
          let space = TCP_TX_BUF_SIZE - rb_count (tp_tx p) in
          if space = 0 then
            (if \<not> blocking then fail EAGAIN
             else case tcp_output p w of (p, w) \<Rightarrow> Some (WBlocked written, p, w))
          else
            let n = (length buf - written) mod 2 ^ 32;
                n = (if n > space then space else n)
            in case tcp_output (tx_append p (take n (drop written buf))) w of (p, w) \<Rightarrow> send_loop blocking buf (written + n) p w
      else Some (WDone (int written), p, w))"

definition tcp_recv_pcb :: "nat \<Rightarrow> bool \<Rightarrow> tcp_pcb \<Rightarrow> 'a netw_scheme \<Rightarrow> (int \<times> u8 list \<times> tcp_pcb \<times> 'a netw_scheme) blocking" where
  "tcp_recv_pcb len blocking p w =
     (if len = 0 then Done (0, [], p, w)
      else if rb_count (tp_rx p) > 0 then
        (let n = (if rb_count (tp_rx p) < len then rb_count (tp_rx p) else len);
             (bs, r) = ring_get TCP_RX_BUF_SIZE n (tp_rx p);
             p = p\<lparr>tp_rx := r\<rparr>;
             (p, w) = (if tp_state p = ESTABLISHED \<and> n > 0 then send_ack p w else (p, w))
         in Done (int n, bs, p, w))
      else if tp_rx_fin p then Done (0, [], p, w)
      else if tp_reset p then Done (- ECONNRESET, [], p, w)
      else if tp_state p = CLOSED then Done (0, [], p, w)
      else if tp_state p \<noteq> ESTABLISHED \<and> tp_state p \<noteq> FIN_WAIT1 \<and> tp_state p \<noteq> FIN_WAIT2 \<and> tp_state p \<noteq> CLOSE_WAIT then Done (0, [], p, w)
      else if \<not> blocking then Done (- EAGAIN, [], p, w)
      else Blocked)"

definition shutdown_write_pcb :: "tcp_pcb \<Rightarrow> 'a netw_scheme \<Rightarrow> tcp_pcb \<times> 'a netw_scheme" where
  "shutdown_write_pcb p w =
     (if tp_fin_queued p then (p, w)
      else if tp_state p = ESTABLISHED then tcp_output (p\<lparr>tp_fin_queued := True, tp_state := FIN_WAIT1\<rparr>) w
      else if tp_state p = CLOSE_WAIT then tcp_output (p\<lparr>tp_fin_queued := True, tp_state := LAST_ACK\<rparr>) w
      else (p, w))"

text \<open>Opening a connection: the SYN; false when it could not be sent.\<close>

definition connect_pcb :: "u32 \<Rightarrow> u16 \<Rightarrow> tcp_pcb \<Rightarrow> 'a netw_scheme \<Rightarrow> bool \<times> tcp_pcb \<times> 'a netw_scheme" where
  "connect_pcb dst_ip dst_port p w =
     (case tcp_isn w of (isn, w1) \<Rightarrow>
      case tcp_send_segment
             (p\<lparr>tp_local_ip := nif_ip w1, tp_remote_ip := dst_ip, tp_remote_port := dst_port, tp_iss := isn, tp_snd_una := isn, tp_snd_nxt := isn,
                tp_rcv_nxt := 0, tp_state := SYN_SENT\<rparr>) TCP_FLAG_SYN isn [] True w1 of
        (ok, p, w) \<Rightarrow>
          if \<not> ok then (False, p\<lparr>tp_state := CLOSED\<rparr>, w)
          else (case tcp_start_rto (p\<lparr>tp_snd_nxt := tp_iss p + 1\<rparr>) w of (p, w) \<Rightarrow> (True, p, w)))"

section \<open>The timer of one connection\<close>

definition retransmit :: "tcp_pcb \<Rightarrow> 'a netw_scheme \<Rightarrow> tcp_pcb \<times> 'a netw_scheme" where
  "retransmit p w =
     snd (if tp_state p = SYN_SENT then tcp_send_segment p TCP_FLAG_SYN (tp_iss p) [] True w
      else if tp_state p = SYN_RCVD then tcp_send_segment p (TCP_FLAG_SYN OR TCP_FLAG_ACK) (tp_iss p) [] True w
      else if rb_count (tp_tx p) > 0 then
        (let n = (if rb_count (tp_tx p) < TCP_MSS then rb_count (tp_tx p) else TCP_MSS)
         in tcp_send_segment p (TCP_FLAG_ACK OR TCP_FLAG_PSH) (tp_snd_una p) (tx_peek p 0 n) False w)
      else if tp_fin_sent p then tcp_send_segment p (TCP_FLAG_ACK OR TCP_FLAG_FIN) (tp_snd_una p) [] False w
      else (True, p, w))"

definition expire_time_wait :: "u64 \<Rightarrow> tcp_pcb \<Rightarrow> tcp_pcb" where
  "expire_time_wait now p = (if tp_state p = TIME_WAIT \<and> now \<ge> tp_timer_deadline_ms p then p\<lparr>tp_state := CLOSED\<rparr> else p)"

definition timer_pcb :: "u64 \<Rightarrow> tcp_pcb \<Rightarrow> 'a netw_scheme \<Rightarrow> tcp_pcb \<times> 'a netw_scheme" where
  "timer_pcb now p w =
     (if tp_rto_deadline_ms p = 0 \<or> now < tp_rto_deadline_ms p then (p, w)
      else if tp_snd_una p = tp_snd_nxt p then (p\<lparr>tp_rto_deadline_ms := 0\<rparr>, w)
      else
        (let p = p\<lparr>tp_retries := tp_retries p + 1\<rparr> in
         if tp_retries p > TCP_RETRIES_MAX then (p\<lparr>tp_reset := True, tp_state := CLOSED, tp_rto_deadline_ms := 0\<rparr>, w)
         else
           (case retransmit p w of (p, w) \<Rightarrow>
              let ms = tp_rto_ms p * 2; ms = (if ms > TCP_RTO_MAX_MS then TCP_RTO_MAX_MS else ms)
              in (p\<lparr>tp_rto_ms := ms, tp_rto_deadline_ms := now + ucast ms\<rparr>, w))))"

section \<open>The table of control blocks\<close>

text \<open>\<open>t_pcbs\<close> is the table \<^verbatim>\<open>pcbs\<close>, \<open>t_heap\<close> the control blocks that are allocated, with their buffers. The kernel heap is seen through its
  contract: the \<open>k\<close>-th allocation fails or returns a new address, and a buffer starts with arbitrary bytes.\<close>

record tcp = netw +
  t_pcbs :: "taddr option list"
  t_heap :: "taddr \<Rightarrow> tcp_pcb option"
  t_next_port :: u16
  t_oom :: "nat \<Rightarrow> bool"
  t_next :: nat
  t_junk :: "nat \<Rightarrow> bytes_array"

definition get_pcb :: "taddr \<Rightarrow> 'a tcp_scheme \<Rightarrow> tcp_pcb option" where
  "get_pcb a s = t_heap s a"

definition set_pcb :: "taddr \<Rightarrow> tcp_pcb \<Rightarrow> 'a tcp_scheme \<Rightarrow> 'a tcp_scheme" where
  "set_pcb a p s = s\<lparr>t_heap := (t_heap s)(a \<mapsto> p)\<rparr>"

definition t_alloc :: "'a tcp_scheme \<Rightarrow> taddr option \<times> 'a tcp_scheme" where
  "t_alloc s = (if t_oom s (t_next s) then None else Some (t_next s), s\<lparr>t_next := Suc (t_next s)\<rparr>)"

definition tcp_pcb_free :: "taddr \<Rightarrow> 'a tcp_scheme \<Rightarrow> 'a tcp_scheme option" where
  "tcp_pcb_free a s = do {
     p \<leftarrow> get_pcb a s;
     let s = (case scan (\<lambda>i. t_pcbs s ! i = Some a) 0 TCP_PCB_MAX of Some i \<Rightarrow> s\<lparr>t_pcbs := (t_pcbs s)[i := None]\<rparr> | None \<Rightarrow> s);
     Some (s\<lparr>t_heap := (t_heap s)(a := None)\<rparr>)
   }"

definition fresh_pcb :: "bytes_array \<Rightarrow> bytes_array \<Rightarrow> tcp_pcb" where
  "fresh_pcb rx tx =
     \<lparr>tp_state = CLOSED, tp_local_ip = 0, tp_remote_ip = 0, tp_local_port = 0, tp_remote_port = 0, tp_snd_una = 0, tp_snd_nxt = 0, tp_iss = 0,
      tp_snd_wnd = of_nat TCP_MSS, tp_rcv_nxt = 0, tp_irs = 0, tp_rx = \<lparr>rb_buf = rx, rb_head = 0, rb_count = 0\<rparr>,
      tp_tx = \<lparr>rb_buf = tx, rb_head = 0, rb_count = 0\<rparr>, tp_rto_deadline_ms = 0, tp_rto_ms = TCP_RTO_MIN_MS, tp_retries = 0,
      tp_fin_queued = False, tp_fin_sent = False, tp_rx_fin = False, tp_reset = False, tp_orphaned = False, tp_needs_ack = False,
      tp_timer_deadline_ms = 0, tp_backlog_max = 0, tp_backlog = [], tp_parent = None\<rparr>"

definition tcp_pcb_new :: "'a tcp_scheme \<Rightarrow> taddr option \<times> 'a tcp_scheme" where
  "tcp_pcb_new s =
     (case scan (\<lambda>i. t_pcbs s ! i = None) 0 TCP_PCB_MAX of
        None \<Rightarrow> (None, s)
      | Some slot \<Rightarrow>
          (case t_alloc s of
             (None, s) \<Rightarrow> (None, s)
           | (Some a, s) \<Rightarrow>
               (case t_alloc s of (rx, s) \<Rightarrow>
                case t_alloc s of (tx, s) \<Rightarrow>
                case (rx, tx) of
                  (Some r, Some t) \<Rightarrow>
                    (Some a, (set_pcb a (fresh_pcb (t_junk s r) (t_junk s t)) s)\<lparr>t_pcbs := (t_pcbs s)[slot := Some a]\<rparr>)
                | _ \<Rightarrow> (None, s))))"

fun port_taken :: "u16 \<Rightarrow> taddr option list \<Rightarrow> 'a tcp_scheme \<Rightarrow> bool option" where
  "port_taken port [] s = Some False"
| "port_taken port (None # es) s = port_taken port es s"
| "port_taken port (Some a # es) s = do { p \<leftarrow> get_pcb a s; if tp_local_port p = port then Some True else port_taken port es s }"

definition tcp_port_taken :: "u16 \<Rightarrow> 'a tcp_scheme \<Rightarrow> bool option" where
  "tcp_port_taken port s = port_taken port (t_pcbs s) s"

abbreviation (input) TCP_EPHEMERAL_LOW :: nat where "TCP_EPHEMERAL_LOW \<equiv> 49152"
abbreviation (input) TCP_EPHEMERAL_HIGH :: nat where "TCP_EPHEMERAL_HIGH \<equiv> 65535"

fun alloc_port_loop :: "nat \<Rightarrow> 'a tcp_scheme \<Rightarrow> (u16 \<times> 'a tcp_scheme) option" where
  "alloc_port_loop 0 s = Some (0, s)"
| "alloc_port_loop (Suc tries) s = do {
     let port = t_next_port s;
     let nxt = t_next_port s + 1;
     let s = s\<lparr>t_next_port := (if unat nxt > TCP_EPHEMERAL_HIGH then of_nat TCP_EPHEMERAL_LOW else nxt)\<rparr>;
     taken \<leftarrow> tcp_port_taken port s;
     if \<not> taken then Some (port, s) else alloc_port_loop tries s
   }"

definition tcp_alloc_port :: "'a tcp_scheme \<Rightarrow> (u16 \<times> 'a tcp_scheme) option" where
  "tcp_alloc_port s = alloc_port_loop (TCP_EPHEMERAL_HIGH - TCP_EPHEMERAL_LOW + 1) s"

text \<open>The connection a segment belongs to; the last listener on the port when there is none.\<close>

fun lookup_from :: "u32 \<Rightarrow> u16 \<Rightarrow> u16 \<Rightarrow> taddr option \<Rightarrow> taddr option list \<Rightarrow> 'a tcp_scheme \<Rightarrow> taddr option option" where
  "lookup_from src_ip src_port dst_port listener [] s = Some listener"
| "lookup_from src_ip src_port dst_port listener (None # es) s = lookup_from src_ip src_port dst_port listener es s"
| "lookup_from src_ip src_port dst_port listener (Some a # es) s = do {
     p \<leftarrow> get_pcb a s;
     if tp_local_port p \<noteq> dst_port then lookup_from src_ip src_port dst_port listener es s
     else if tp_state p = LISTEN then lookup_from src_ip src_port dst_port (Some a) es s
     else if tp_remote_ip p = src_ip \<and> tp_remote_port p = src_port then Some (Some a)
     else lookup_from src_ip src_port dst_port listener es s
   }"

definition tcp_lookup :: "u32 \<Rightarrow> u16 \<Rightarrow> u16 \<Rightarrow> 'a tcp_scheme \<Rightarrow> taddr option option" where
  "tcp_lookup src_ip src_port dst_port s = lookup_from src_ip src_port dst_port None (t_pcbs s) s"

text \<open>Running a function on one control block.\<close>

definition on_pcb :: "taddr \<Rightarrow> (tcp_pcb \<Rightarrow> 'a tcp_scheme \<Rightarrow> tcp_pcb \<times> 'a tcp_scheme) \<Rightarrow> 'a tcp_scheme \<Rightarrow> 'a tcp_scheme option" where
  "on_pcb a f s = do { p \<leftarrow> get_pcb a s; case f p s of (p, s) \<Rightarrow> Some (set_pcb a p s) }"

section \<open>Connection setup\<close>

definition tcp_bind :: "taddr option \<Rightarrow> u32 \<Rightarrow> u16 \<Rightarrow> 'a tcp_scheme \<Rightarrow> (int \<times> 'a tcp_scheme) option" where
  "tcp_bind pcb ip port s =
     (case pcb of
        None \<Rightarrow> Some (- EINVAL, s)
      | Some a \<Rightarrow> do {
          p \<leftarrow> get_pcb a s;
          if tp_state p \<noteq> CLOSED then Some (- EINVAL, s)
          else do {
            (port, ok, s) \<leftarrow>
              (if port = 0 then do { (port, s) \<leftarrow> tcp_alloc_port s; Some (port, port \<noteq> 0, s) }
               else do { taken \<leftarrow> tcp_port_taken port s; Some (port, \<not> taken, s) });
            if \<not> ok then Some (- EADDRINUSE, s)
            else do { s \<leftarrow> on_pcb a (\<lambda>p s. (p\<lparr>tp_local_ip := ip, tp_local_port := port\<rparr>, s)) s; Some (0, s) }
          }
        })"

definition tcp_listen :: "taddr option \<Rightarrow> int \<Rightarrow> 'a tcp_scheme \<Rightarrow> (int \<times> 'a tcp_scheme) option" where
  "tcp_listen pcb backlog s =
     (case pcb of
        None \<Rightarrow> Some (- EINVAL, s)
      | Some a \<Rightarrow> do {
          p \<leftarrow> get_pcb a s;
          if tp_state p \<noteq> CLOSED then Some (- EINVAL, s)
          else if tp_local_port p = 0 then Some (- EDESTADDRREQ, s)
          else
            let b = (if backlog < 1 then 1 else backlog); b = (if b > TCP_BACKLOG_MAX then TCP_BACKLOG_MAX else b)
            in Some (0, set_pcb a (p\<lparr>tp_backlog_max := b, tp_state := LISTEN\<rparr>) s)
        })"

text \<open>\<^verbatim>\<open>tcp_connect\<close> up to its loop, one turn of the loop up to \<^verbatim>\<open>net_wait\<close>, and what follows \<^verbatim>\<open>net_wait\<close>. The first returns the deadline.\<close>

definition tcp_connect :: "taddr option \<Rightarrow> u32 \<Rightarrow> u16 \<Rightarrow> 'a tcp_scheme \<Rightarrow> ((int + u64) \<times> 'a tcp_scheme) option" where
  "tcp_connect pcb dst_ip dst_port s =
     (case pcb of
        None \<Rightarrow> Some (Inl (- EINVAL), s)
      | Some a \<Rightarrow> do {
          p \<leftarrow> get_pcb a s;
          if tp_state p = ESTABLISHED then Some (Inl (- EISCONN), s)
          else if tp_state p \<noteq> CLOSED then Some (Inl (- EINVAL), s)
          else if \<not> nif_up s then Some (Inl (- ENETDOWN), s)
          else do {
            (port, s) \<leftarrow> (if tp_local_port p = 0 then tcp_alloc_port s else Some (tp_local_port p, s));
            let s = set_pcb a (p\<lparr>tp_local_port := port\<rparr>) s;
            if port = 0 then Some (Inl (- EADDRINUSE), s)
            else
              (case connect_pcb dst_ip dst_port (p\<lparr>tp_local_port := port\<rparr>) s of (ok, p, s) \<Rightarrow>
                 let s = set_pcb a p s in
                 if \<not> ok then Some (Inl (- EHOSTUNREACH), s)
                 else (case pit_uptime_ms s of (now, s) \<Rightarrow> Some (Inr (now + TCP_CONNECT_TIMEOUT_MS), s)))
          }
        })"

definition connect_turn :: "taddr \<Rightarrow> u64 \<Rightarrow> 'a tcp_scheme \<Rightarrow> (int blocking \<times> 'a tcp_scheme) option" where
  "connect_turn a deadline s = do {
     p \<leftarrow> get_pcb a s;
     if tp_state p = SYN_SENT then
       (case pit_uptime_ms s of (now, s) \<Rightarrow>
          if now \<ge> deadline then Some (Done (- ETIMEDOUT), set_pcb a (p\<lparr>tp_state := CLOSED\<rparr>) s) else Some (Blocked, s))
     else Some (Done (if tp_state p = ESTABLISHED then 0 else - ECONNREFUSED), s)
   }"

definition connect_woken :: "taddr \<Rightarrow> u64 \<Rightarrow> 'a tcp_scheme \<Rightarrow> (int blocking \<times> 'a tcp_scheme) option" where
  "connect_woken a deadline s = do {
     p \<leftarrow> get_pcb a s;
     if tp_reset p then Some (Done (- ECONNREFUSED), set_pcb a (p\<lparr>tp_state := CLOSED\<rparr>) s) else connect_turn a deadline s
   }"

text \<open>The scan of the backlog: \<open>kept\<close> are the children passed over. It returns the child it accepts.\<close>

fun accept_scan :: "taddr \<Rightarrow> taddr list \<Rightarrow> taddr list \<Rightarrow> 'a tcp_scheme \<Rightarrow> (taddr option \<times> 'a tcp_scheme) option" where
  "accept_scan a kept [] s = Some (None, s)"
| "accept_scan a kept (c # cs) s = do {
     child \<leftarrow> get_pcb c s;
     if tp_state child = CLOSED \<or> tp_reset child then do {
       s \<leftarrow> on_pcb a (\<lambda>p s. (p\<lparr>tp_backlog := kept @ cs\<rparr>, s)) s;
       s \<leftarrow> on_pcb c (\<lambda>p s. (p\<lparr>tp_parent := None\<rparr>, s)) s;
       s \<leftarrow> tcp_pcb_free c s;
       accept_scan a kept cs s
     }
     else if tp_state child \<noteq> SYN_RCVD then do {
       s \<leftarrow> on_pcb a (\<lambda>p s. (p\<lparr>tp_backlog := kept @ cs\<rparr>, s)) s;
       s \<leftarrow> on_pcb c (\<lambda>p s. (p\<lparr>tp_parent := None\<rparr>, s)) s;
       Some (Some c, s)
     }
     else accept_scan a (kept @ [c]) cs s
   }"

definition tcp_accept :: "taddr option \<Rightarrow> bool \<Rightarrow> 'a tcp_scheme \<Rightarrow> ((int + taddr) blocking \<times> 'a tcp_scheme) option" where
  "tcp_accept pcb blocking s =
     (case pcb of
        None \<Rightarrow> Some (Done (Inl (- EINVAL)), s)
      | Some a \<Rightarrow> do {
          p \<leftarrow> get_pcb a s;
          if tp_state p \<noteq> LISTEN then Some (Done (Inl (- EINVAL)), s)
          else do {
            (r, s) \<leftarrow> accept_scan a [] (tp_backlog p) s;
            Some (case r of
              Some c \<Rightarrow> (Done (Inr c), s)
            | None \<Rightarrow> (if \<not> blocking then Done (Inl (- EAGAIN)) else Blocked, s))
          }
        })"

section \<open>Calls of the socket layer\<close>

definition tcp_send :: "taddr option \<Rightarrow> u8 list \<Rightarrow> nat \<Rightarrow> bool \<Rightarrow> 'a tcp_scheme \<Rightarrow> (write_result \<times> 'a tcp_scheme) option" where
  "tcp_send pcb buf written blocking s =
     (case pcb of
        None \<Rightarrow> Some (WDone (- EINVAL), s)
      | Some a \<Rightarrow> do {
          p \<leftarrow> get_pcb a s;
          (r, p, s) \<leftarrow> send_loop blocking buf written p s;
          Some (r, set_pcb a p s)
        })"

definition tcp_recv :: "taddr option \<Rightarrow> nat \<Rightarrow> bool \<Rightarrow> 'a tcp_scheme \<Rightarrow> ((int \<times> u8 list) blocking \<times> 'a tcp_scheme) option" where
  "tcp_recv pcb len blocking s =
     (case pcb of
        None \<Rightarrow> Some (Done (- EINVAL, []), s)
      | Some a \<Rightarrow> do {
          p \<leftarrow> get_pcb a s;
          Some (case tcp_recv_pcb len blocking p s of
            Blocked \<Rightarrow> (Blocked, s)
          | Done (r, bs, p, s) \<Rightarrow> (Done (r, bs), set_pcb a p s))
        })"

definition tcp_shutdown_write :: "taddr option \<Rightarrow> 'a tcp_scheme \<Rightarrow> (int \<times> 'a tcp_scheme) option" where
  "tcp_shutdown_write pcb s =
     (case pcb of
        None \<Rightarrow> Some (- EINVAL, s)
      | Some a \<Rightarrow> do { s \<leftarrow> on_pcb a shutdown_write_pcb s; Some (0, s) })"

fun free_children :: "taddr list \<Rightarrow> 'a tcp_scheme \<Rightarrow> 'a tcp_scheme option" where
  "free_children [] s = Some s"
| "free_children (c # cs) s = do {
     s \<leftarrow> on_pcb c (\<lambda>p s. (p\<lparr>tp_parent := None\<rparr>, s)) s;
     s \<leftarrow> tcp_pcb_free c s;
     free_children cs s
   }"

definition tcp_close :: "taddr option \<Rightarrow> 'a tcp_scheme \<Rightarrow> 'a tcp_scheme option" where
  "tcp_close pcb s =
     (case pcb of
        None \<Rightarrow> Some s
      | Some a \<Rightarrow> do {
          p \<leftarrow> get_pcb a s;
          if tp_state p = LISTEN then do { s \<leftarrow> free_children (tp_backlog p) s; tcp_pcb_free a s }
          else if tp_state p = CLOSED \<or> tp_reset p then tcp_pcb_free a s
          else do {
            s \<leftarrow> on_pcb a shutdown_write_pcb s;
            on_pcb a (\<lambda>p s. (p\<lparr>tp_orphaned := True\<rparr>, s)) s
          }
        })"

abbreviation (input) T_POLLIN :: u16 where "T_POLLIN \<equiv> 1"
abbreviation (input) T_POLLOUT :: u16 where "T_POLLOUT \<equiv> 4"
abbreviation (input) T_POLLERR :: u16 where "T_POLLERR \<equiv> 8"
abbreviation (input) T_POLLHUP :: u16 where "T_POLLHUP \<equiv> 16"

fun any_ready :: "taddr list \<Rightarrow> 'a tcp_scheme \<Rightarrow> bool option" where
  "any_ready [] s = Some False"
| "any_ready (c # cs) s = do { p \<leftarrow> get_pcb c s; r \<leftarrow> any_ready cs s; Some (tp_state p \<noteq> SYN_RCVD \<or> r) }"

definition tcp_poll :: "taddr option \<Rightarrow> 'a tcp_scheme \<Rightarrow> u16 option" where
  "tcp_poll pcb s =
     (case pcb of
        None \<Rightarrow> Some T_POLLERR
      | Some a \<Rightarrow> do {
          p \<leftarrow> get_pcb a s;
          if tp_state p = LISTEN then do { r \<leftarrow> any_ready (tp_backlog p) s; Some (if r then T_POLLIN else 0) }
          else
            Some ((if rb_count (tp_rx p) > 0 then T_POLLIN else 0) OR
                  (if tp_rx_fin p then T_POLLIN OR T_POLLHUP else 0) OR
                  (if tp_reset p then T_POLLERR OR T_POLLHUP else 0) OR
                  (if (tp_state p = ESTABLISHED \<or> tp_state p = CLOSE_WAIT) \<and> \<not> tp_fin_queued p \<and> rb_count (tp_tx p) < TCP_TX_BUF_SIZE
                   then T_POLLOUT else 0))
        })"

section \<open>The receive path and the timer\<close>

definition tcp_listen_input :: "taddr \<Rightarrow> u32 \<Rightarrow> tcp_header \<Rightarrow> 'a tcp_scheme \<Rightarrow> 'a tcp_scheme option" where
  "tcp_listen_input l src_ip th s = do {
     lp \<leftarrow> get_pcb l s;
     if th_flags th AND TCP_FLAG_SYN = 0 \<or> th_flags th AND TCP_FLAG_ACK \<noteq> 0 then Some s
     else if int (length (tp_backlog lp)) \<ge> tp_backlog_max lp then Some s
     else
       (case tcp_pcb_new s of
          (None, s) \<Rightarrow> Some s
        | (Some c, s) \<Rightarrow> do {
            child \<leftarrow> get_pcb c s;
            let (isn, s) = tcp_isn s;
            let child = child\<lparr>tp_local_ip := nif_ip s, tp_local_port := tp_local_port lp, tp_remote_ip := src_ip, tp_remote_port := htons (th_src_port th),
              tp_irs := htonl (th_seq th), tp_rcv_nxt := htonl (th_seq th) + 1, tp_iss := isn, tp_snd_una := isn, tp_snd_nxt := isn,
              tp_snd_wnd := htons (th_window th), tp_state := SYN_RCVD, tp_parent := Some l\<rparr>;
            let (ok, child, s) = tcp_send_segment child (TCP_FLAG_SYN OR TCP_FLAG_ACK) isn [] True s;
            if \<not> ok then tcp_pcb_free c (set_pcb c child s)
            else do {
              let (child, s) = tcp_start_rto (child\<lparr>tp_snd_nxt := tp_iss child + 1\<rparr>) s;
              on_pcb l (\<lambda>p s. (p\<lparr>tp_backlog := tp_backlog p @ [c]\<rparr>, s)) (set_pcb c child s)
            }
          })
   }"

definition tcp_input :: "u32 \<Rightarrow> u32 \<Rightarrow> u8 list \<Rightarrow> 'a tcp_scheme \<Rightarrow> 'a tcp_scheme option" where
  "tcp_input src_ip dst_ip segment s =
     (if length segment < TCP_HDR_LEN then Some s
      else
        let th = tcp_header_of segment; hlen = unat (drop_bit 4 (th_offset_reserved th)) * 4 in
        if hlen < TCP_HDR_LEN \<or> hlen > length segment then Some s
        else if transport_checksum src_ip dst_ip IP_PROTOCOL_TCP segment [] \<noteq> 0 then Some s
        else
          let src_port = htons (th_src_port th); dst_port = htons (th_dst_port th); data = drop hlen segment in
          do {
            r \<leftarrow> tcp_lookup src_ip src_port dst_port s;
            case r of
              None \<Rightarrow>
                Some (if th_flags th AND TCP_FLAG_RST = 0 then
                        tcp_send_reset src_ip dst_port src_port
                          (htonl (th_seq th) + of_nat (length data) + (if th_flags th AND (TCP_FLAG_SYN OR TCP_FLAG_FIN) \<noteq> 0 then 1 else 0))
                          (htonl (th_ack th)) (th_flags th AND TCP_FLAG_ACK \<noteq> 0) s
                      else s)
            | Some a \<Rightarrow> do {
                p \<leftarrow> get_pcb a s;
                if tp_state p = LISTEN then tcp_listen_input a src_ip th s else on_pcb a (pcb_input src_ip th data) s
              }
          })"

definition timer_slot :: "u64 \<Rightarrow> nat \<Rightarrow> 'a tcp_scheme \<Rightarrow> 'a tcp_scheme option" where
  "timer_slot now i s =
     (case t_pcbs s ! i of
        None \<Rightarrow> Some s
      | Some a \<Rightarrow> do {
          p \<leftarrow> get_pcb a s;
          let p = expire_time_wait now p;
          let s = set_pcb a p s;
          if tp_state p = CLOSED \<and> tp_orphaned p \<and> tp_parent p = None then tcp_pcb_free a s
          else on_pcb a (timer_pcb now) s
        })"

fun timer_loop :: "u64 \<Rightarrow> nat list \<Rightarrow> 'a tcp_scheme \<Rightarrow> 'a tcp_scheme option" where
  "timer_loop now [] s = Some s"
| "timer_loop now (i # is) s = do { s \<leftarrow> timer_slot now i s; timer_loop now is s }"

definition tcp_timer :: "'a tcp_scheme \<Rightarrow> 'a tcp_scheme option" where
  "tcp_timer s = (case pit_uptime_ms s of (now, s) \<Rightarrow> timer_loop now [0..<TCP_PCB_MAX] s)"

section \<open>Introspection\<close>

fun tcp_state_name :: "tcp_state \<Rightarrow> string" where
  "tcp_state_name CLOSED = ''CLOSED''"
| "tcp_state_name LISTEN = ''LISTEN''"
| "tcp_state_name SYN_SENT = ''SYN_SENT''"
| "tcp_state_name SYN_RCVD = ''SYN_RCVD''"
| "tcp_state_name ESTABLISHED = ''ESTABLISHED''"
| "tcp_state_name FIN_WAIT1 = ''FIN_WAIT1''"
| "tcp_state_name FIN_WAIT2 = ''FIN_WAIT2''"
| "tcp_state_name CLOSING = ''CLOSING''"
| "tcp_state_name TIME_WAIT = ''TIME_WAIT''"
| "tcp_state_name CLOSE_WAIT = ''CLOSE_WAIT''"
| "tcp_state_name LAST_ACK = ''LAST_ACK''"

record tcp_conn_info =
  ci_state :: tcp_state
  ci_local_ip :: u32
  ci_remote_ip :: u32
  ci_local_port :: u16
  ci_remote_port :: u16
  ci_rx_queued :: nat
  ci_tx_queued :: nat

fun tcp_dump :: "nat \<Rightarrow> taddr option list \<Rightarrow> 'a tcp_scheme \<Rightarrow> tcp_conn_info list option" where
  "tcp_dump m [] s = Some []"
| "tcp_dump m (e # es) s =
     (if m = 0 then Some []
      else case e of
        None \<Rightarrow> tcp_dump m es s
      | Some a \<Rightarrow> do {
          p \<leftarrow> get_pcb a s;
          r \<leftarrow> tcp_dump (m - 1) es s;
          Some (\<lparr>ci_state = tp_state p, ci_local_ip = tp_local_ip p, ci_remote_ip = tp_remote_ip p, ci_local_port = tp_local_port p,
            ci_remote_port = tp_remote_port p, ci_rx_queued = rb_count (tp_rx p), ci_tx_queued = rb_count (tp_tx p)\<rparr> # r)
        })"

end
