(* ===== verification/Tcp_Stream.thy ===== *)
theory Tcp_Stream
  imports Tcp
begin

text \<open>
  The byte stream of a TCP connection. Two control blocks, each run by its own host, are connected by a network that may lose, duplicate,
  delay and reorder segments: the segments that one side has sent so far are kept, and any of them may arrive at any time. The sender may
  also be given arbitrary segments from anywhere. Whatever happens, the bytes the receiver hands to its application are a prefix
  of the bytes the sender's application has written, and the end of the stream is reported only after all of them.
\<close>

section \<open>Segments on the wire\<close>

definition hdr_len :: "tcp_header \<Rightarrow> nat" where
  "hdr_len th = unat (drop_bit 4 (th_offset_reserved th)) * 4"

definition seg_seq :: "u8 list \<Rightarrow> u32" where "seg_seq b = htonl (th_seq (tcp_header_of b))"
definition seg_flags :: "u8 list \<Rightarrow> u8" where "seg_flags b = th_flags (tcp_header_of b)"
definition seg_data :: "u8 list \<Rightarrow> u8 list" where "seg_data b = drop (hdr_len (tcp_header_of b)) b"

lemma length_mss [simp]: "length mss_option = 4"
  by (simp add: mss_option_def)

lemma hdr_len_segment: "hdr_len ((segment_header p flags seq mss)\<lparr>th_checksum := c\<rparr>) = (if mss then 24 else 20)"
  by (simp add: hdr_len_def segment_header_def)

lemma send_segment_wire:
  assumes "tcp_send_segment p flags seq data mss w = (ok, p', w')"
  obtains (sent) b where "ok" "wire w' = wire w @ [(tp_remote_ip p, b)]" "seg_seq b = seq" "seg_flags b = flags" "seg_data b = data"
  | (kept) "\<not> ok" "wire w' = wire w"
proof -
  define th where "th = segment_header p flags seq mss"
  define opt where "opt = (if mss then mss_option else [])"
  define c where "c = transport_checksum (if tp_local_ip p \<noteq> 0 then tp_local_ip p else nif_ip w) (tp_remote_ip p) IP_PROTOCOL_TCP (tcp_header_bytes th @ opt) data"
  define b where "b = tcp_header_bytes (th\<lparr>th_checksum := c\<rparr>) @ opt @ data"
  have io: "ip_carry (tp_remote_ip p) (tcp_header_bytes (th\<lparr>th_checksum := c\<rparr>) @ opt) data w = (ok, w')"
    using assms by (auto simp: tcp_send_segment_def Let_def th_def [symmetric] opt_def [symmetric] c_def [symmetric] split: prod.splits)
  have h: "tcp_header_of b = th\<lparr>th_checksum := c\<rparr>" by (simp add: b_def)
  have "hdr_len (th\<lparr>th_checksum := c\<rparr>) = 20 + length opt" unfolding th_def hdr_len_segment by (simp add: opt_def)
  then have d: "seg_data b = data" by (simp add: seg_data_def h) (simp add: b_def)
  have "seg_seq b = seq" "seg_flags b = flags" by (simp_all add: seg_seq_def seg_flags_def h) (simp_all add: th_def segment_header_def)
  then show thesis using io d sent [of b] kept by (auto simp: ip_carry_def b_def split: if_splits)
qed

section \<open>The sending side\<close>

abbreviation tx_bytes :: "tcp_pcb \<Rightarrow> u8 list" where
  "tx_bytes p \<equiv> ring_contents TCP_TX_BUF_SIZE (tp_tx p)"

abbreviation rx_bytes :: "tcp_pcb \<Rightarrow> u8 list" where
  "rx_bytes p \<equiv> ring_contents TCP_RX_BUF_SIZE (tp_rx p)"

text \<open>\<open>base\<close> is the sequence number of the first byte of the stream \<open>S\<close>. The send buffer holds what follows the first \<open>u\<close> bytes, and the
  oldest unacknowledged number is that of its first byte, until the FIN is acknowledged as well.\<close>

definition snd_inv :: "u32 \<Rightarrow> u8 list \<Rightarrow> tcp_pcb \<Rightarrow> bool" where
  "snd_inv base S p \<longleftrightarrow> ring_ok TCP_TX_BUF_SIZE (tp_tx p) \<and> (tp_fin_sent p \<longrightarrow> tp_fin_queued p) \<and>
     (\<exists>u \<le> length S. tx_bytes p = drop u S \<and>
        (tp_snd_una p = base + of_nat u \<and>
           (if tp_fin_sent p then unat (in_flight p) = rb_count (tp_tx p) + 1 else unat (in_flight p) \<le> rb_count (tp_tx p)) \<or>
         tp_fin_sent p \<and> u = length S \<and> in_flight p = 0))"

text \<open>A segment carries a piece of the stream at its place, or is a FIN at the end of the stream, or carries nothing.\<close>

definition piece :: "u32 \<Rightarrow> u8 list \<Rightarrow> u8 list \<Rightarrow> bool" where
  "piece base S b \<longleftrightarrow> (\<exists>k. seg_seq b = base + of_nat k \<and> k + length (seg_data b) \<le> length S \<and> seg_data b = take (length (seg_data b)) (drop k S))"

definition sent_ok :: "u32 \<Rightarrow> u8 list \<Rightarrow> bool \<Rightarrow> u8 list \<Rightarrow> bool" where
  "sent_ok base S fin b \<longleftrightarrow> (seg_data b \<noteq> [] \<longrightarrow> piece base S b \<and> seg_flags b AND TCP_FLAG_FIN = 0) \<and>
     (seg_flags b AND TCP_FLAG_FIN \<noteq> 0 \<longrightarrow> fin \<and> seg_seq b = base + of_nat (length S))"

definition out_inv :: "u32 \<Rightarrow> u8 list \<Rightarrow> tcp_pcb \<Rightarrow> 'a netw_scheme \<Rightarrow> bool" where
  "out_inv base S p w \<longleftrightarrow> snd_inv base S p \<and> (\<forall>e \<in> set (wire w). sent_ok base S (tp_fin_queued p) (snd e))"

lemma snd_inv_cong:
  assumes "tp_tx p' = tp_tx p" "tp_snd_una p' = tp_snd_una p" "tp_snd_nxt p' = tp_snd_nxt p" "tp_fin_sent p' = tp_fin_sent p" "tp_fin_queued p' = tp_fin_queued p"
  shows "snd_inv base S p' = snd_inv base S p"
  by (simp add: snd_inv_def in_flight_def assms)

lemma out_inv_cong:
  assumes "out_inv base S p w" "tp_tx p' = tp_tx p" "tp_snd_una p' = tp_snd_una p" "tp_snd_nxt p' = tp_snd_nxt p" "tp_fin_sent p' = tp_fin_sent p"
    "tp_fin_queued p' = tp_fin_queued p" "wire w' = wire w"
  shows "out_inv base S p' w'"
  using assms snd_inv_cong [OF assms(2-6)] by (simp add: out_inv_def)

text \<open>A part of the send buffer, as a part of the stream.\<close>

lemma tx_peek_contents:
  assumes "ring_ok TCP_TX_BUF_SIZE (tp_tx p)" "off + n \<le> rb_count (tp_tx p)" "0 < n"
  shows "tx_peek p off n = take n (drop off (tx_bytes p))"
proof -
  let ?r = "tp_tx p" and ?N = "TCP_TX_BUF_SIZE"
  let ?q = "?r\<lparr>rb_head := (rb_head ?r + off) mod ?N\<rparr>" and ?a = "ring_advance ?N off ?r"
  have ok: "ring_ok ?N ?a" by (rule ring_advance_ok [OF assms(1)])
  have "ring_copy_out ?N n ?q = ring_copy_out ?N n ?a" by (simp add: ring_copy_out_def ring_advance_def Let_def)
  also have "\<dots> = take n (ring_contents ?N ?a)" by (rule ring_copy_out_contents [OF ok]) (use assms(2) in \<open>simp add: ring_advance_def\<close>)
  also have "ring_contents ?N ?a = drop off (tx_bytes p)" by (rule ring_advance_contents [OF assms(1)]) (use assms(2) in simp)
  finally show ?thesis by (simp add: tx_peek_def)
qed

lemma piece_seq: "seg_seq b = base + of_nat k \<Longrightarrow> seg_data b = take n (drop k S) \<Longrightarrow> k + n \<le> length S \<Longrightarrow> piece base S b"
  unfolding piece_def by (rule exI [of _ k]) simp

lemma out_inv_sends:
  assumes inv: "out_inv base S p w" and s: "tcp_send_segment p flags seq data mss w = (ok, p', w')"
    and new: "\<And>b. seg_seq b = seq \<Longrightarrow> seg_flags b = flags \<Longrightarrow> seg_data b = data \<Longrightarrow> sent_ok base S (tp_fin_queued p) b"
  shows "out_inv base S p' w'"
proof -
  have p': "p' = p\<lparr>tp_needs_ack := False\<rparr>" by (rule tcp_send_segment_pcb [OF s])
  have i: "snd_inv base S p'" using inv snd_inv_cong [of p' p base S] by (simp add: out_inv_def p')
  from s show ?thesis
    by (cases rule: send_segment_wire) (use inv i new p' in \<open>auto simp: out_inv_def\<close>)
qed

lemma out_inv_start_rto: "out_inv base S p w \<Longrightarrow> tcp_start_rto p w = (p', w') \<Longrightarrow> out_inv base S p' w'"
  by (rule out_inv_cong [of base S p w]) (auto simp: tcp_start_rto_def pit_uptime_ms_def split: if_splits)

lemma send_ack_out: "out_inv base S p w \<Longrightarrow> send_ack p w = (p', w') \<Longrightarrow> out_inv base S p' w'"
  by (auto simp: send_ack_def sent_ok_def split: prod.splits elim!: out_inv_sends)

text \<open>Data in flight ends where the buffer ends.\<close>

lemma snd_inv_cases:
  assumes "snd_inv base S p"
  obtains (going) u where "u \<le> length S" "tx_bytes p = drop u S" "rb_count (tp_tx p) = length S - u" "tp_snd_una p = base + of_nat u"
      "if tp_fin_sent p then unat (in_flight p) = rb_count (tp_tx p) + 1 else unat (in_flight p) \<le> rb_count (tp_tx p)"
  | (acked) "tp_fin_sent p" "tp_fin_queued p" "tx_bytes p = []" "rb_count (tp_tx p) = 0" "in_flight p = 0"
proof -
  obtain u where u: "u \<le> length S" "tx_bytes p = drop u S"
    "tp_snd_una p = base + of_nat u \<and> (if tp_fin_sent p then unat (in_flight p) = rb_count (tp_tx p) + 1 else unat (in_flight p) \<le> rb_count (tp_tx p)) \<or>
     tp_fin_sent p \<and> u = length S \<and> in_flight p = 0" and q: "tp_fin_sent p \<longrightarrow> tp_fin_queued p"
    using assms unfolding snd_inv_def by blast
  have l: "rb_count (tp_tx p) = length S - u" using arg_cong [OF u(2), of length] by simp
  show thesis using u(3)
  proof
    assume "tp_snd_una p = base + of_nat u \<and> (if tp_fin_sent p then unat (in_flight p) = rb_count (tp_tx p) + 1 else unat (in_flight p) \<le> rb_count (tp_tx p))"
    then show thesis using going [OF u(1,2) l] by blast
  next
    assume "tp_fin_sent p \<and> u = length S \<and> in_flight p = 0"
    then show thesis using acked q u(2) l by simp
  qed
qed

lemma output_loop_out: "out_inv base S p w \<Longrightarrow> output_loop p w = (p', w') \<Longrightarrow> out_inv base S p' w'"
proof (induction p w arbitrary: p' w' rule: output_loop.induct)
  case (1 p w)
  show ?case
  proof (cases "may_push p")
    case False
    then show ?thesis using 1(2,3) by (subst (asm) output_loop.simps) simp
  next
    case True
    let ?n = "next_chunk p"
    let ?d = "tx_peek p (unat (in_flight p)) ?n"
    note n = next_chunk [OF True]
    have inv: "snd_inv base S p" using 1(2) by (simp add: out_inv_def)
    then have ok: "ring_ok TCP_TX_BUF_SIZE (tp_tx p)" by (simp add: snd_inv_def)
    obtain sent p1 w1 where s: "tcp_send_segment p (TCP_FLAG_ACK OR TCP_FLAG_PSH) (tp_snd_nxt p) ?d False w = (sent, p1, w1)" by (metis prod_cases3)
    have nf: "unat (in_flight p) < rb_count (tp_tx p)" using True by (simp add: may_push_def)
    obtain u where u: "u \<le> length S" "tx_bytes p = drop u S" "rb_count (tp_tx p) = length S - u" "tp_snd_una p = base + of_nat u" "\<not> tp_fin_sent p"
      using inv nf by (cases rule: snd_inv_cases) (auto split: if_splits)
    have d: "?d = take ?n (drop (u + unat (in_flight p)) S)" using tx_peek_contents [OF ok, of "unat (in_flight p)" ?n] n u(2) by (simp add: add.commute)
    have "tp_snd_nxt p = base + of_nat (u + unat (in_flight p))" using u(4) by (simp add: in_flight_def)
    then have out1: "out_inv base S p1 w1"
      by (intro out_inv_sends [OF 1(2) s]) (use d n u(3) in \<open>auto simp: sent_ok_def intro!: piece_seq [of _ _ "u + unat (in_flight p)" ?n]\<close>)
    have p1: "p1 = p\<lparr>tp_needs_ack := False\<rparr>" by (rule tcp_send_segment_pcb [OF s])
    show ?thesis
    proof (cases sent)
      case False
      then show ?thesis using 1(3) True s out1 by (subst (asm) output_loop.simps) simp
    next
      case True
      let ?p = "p1\<lparr>tp_snd_nxt := tp_snd_nxt p1 + of_nat ?n\<rparr>"
      have "in_flight ?p = in_flight p + of_nat ?n" by (simp add: in_flight_def p1)
      then have "unat (in_flight ?p) \<le> rb_count (tp_tx p)" using next_chunk_flight [OF \<open>may_push p\<close>] n by simp
      then have "snd_inv base S ?p" using ok u unfolding snd_inv_def by (auto simp: p1 intro!: exI [of _ u])
      then have o2: "out_inv base S ?p w1" using out1 by (simp add: out_inv_def)
      obtain p2 w2 where r: "tcp_start_rto ?p w1 = (p2, w2)" by (cases "tcp_start_rto ?p w1")
      have "output_loop p2 w2 = (p', w')" using 1(3) \<open>may_push p\<close> s True r by (subst (asm) output_loop.simps) simp
      then show ?thesis using 1(1) [OF _ s [symmetric] refl _ r [symmetric]] \<open>may_push p\<close> True out_inv_start_rto [OF o2 r] by simp
    qed
  qed
qed

lemma push_fin_out:
  assumes inv: "out_inv base S p w" and f: "push_fin p w = (p', w')"
  shows "out_inv base S p' w'"
proof (cases "tp_fin_queued p \<and> \<not> tp_fin_sent p \<and> tp_snd_nxt p = tp_snd_una p + of_nat (rb_count (tp_tx p))")
  case False
  then show ?thesis using inv f by (auto simp: push_fin_def)
next
  case True
  obtain ok p1 w1 where s: "tcp_send_segment p (TCP_FLAG_ACK OR TCP_FLAG_FIN) (tp_snd_nxt p) [] False w = (ok, p1, w1)" by (metis prod_cases3)
  have i: "snd_inv base S p" using inv by (simp add: out_inv_def)
  then have rk: "ring_ok TCP_TX_BUF_SIZE (tp_tx p)" by (simp add: snd_inv_def)
  obtain u where u: "u \<le> length S" "tx_bytes p = drop u S" "rb_count (tp_tx p) = length S - u" "tp_snd_una p = base + of_nat u"
    using i True by (cases rule: snd_inv_cases) auto
  have nx: "tp_snd_nxt p = base + of_nat (length S)" using True u(1,3,4) by (simp add: of_nat_diff)
  have out1: "out_inv base S p1 w1"
    by (rule out_inv_sends [OF inv s]) (use nx True in \<open>simp add: sent_ok_def\<close>)
  have p1: "p1 = p\<lparr>tp_needs_ack := False\<rparr>" by (rule tcp_send_segment_pcb [OF s])
  let ?p = "p1\<lparr>tp_snd_nxt := tp_snd_nxt p1 + 1, tp_fin_sent := True\<rparr>"
  have "in_flight ?p = of_nat (rb_count (tp_tx p) + 1)" using True by (simp add: in_flight_def p1)
  moreover have "rb_count (tp_tx p) \<le> 32768" using rk by (simp add: ring_ok_def)
  ultimately have "unat (in_flight ?p) = rb_count (tp_tx p) + 1" by (simp add: unat_of_nat del: of_nat_add of_nat_Suc)
  then have "snd_inv base S ?p" using rk u True unfolding snd_inv_def by (auto simp: p1 intro!: exI [of _ u])
  then have "out_inv base S ?p w1" using out1 by (simp add: out_inv_def p1)
  then show ?thesis using f True s out1 out_inv_start_rto [of base S ?p w1 p' w'] by (auto simp: push_fin_def split: if_splits)
qed

lemma tcp_output_out: "out_inv base S p w \<Longrightarrow> tcp_output p w = (p', w') \<Longrightarrow> out_inv base S p' w'"
  by (auto simp: tcp_output_def split: if_splits prod.splits intro: push_fin_out output_loop_out)

section \<open>Signed comparison of sequence numbers\<close>

lemma sint_u32:
  fixes d :: u32
  shows "sint d \<ge> 0 \<longleftrightarrow> unat d < 2 ^ 31" "sint d > 0 \<longleftrightarrow> 0 < unat d \<and> unat d < 2 ^ 31"
proof -
  have u: "uint d = sint d mod 2 ^ 32" unfolding uint_sint take_bit_eq_mod by simp
  have r: "- (2 ^ 31) \<le> sint d" "sint d < 2 ^ 31" using sint_ge [of d] sint_lt [of d] by simp_all
  have n: "unat d < 2 ^ 31 \<longleftrightarrow> uint d < 2 ^ 31" unfolding nat_int_comparison(2) by simp
  show g: "sint d \<ge> 0 \<longleftrightarrow> unat d < 2 ^ 31"
  proof (cases "sint d \<ge> 0")
    case True
    then show ?thesis using u r n by simp
  next
    case False
    have "sint d mod 2 ^ 32 = (sint d + 2 ^ 32) mod 2 ^ 32" by simp
    also have "\<dots> = sint d + 2 ^ 32" using False r by (intro mod_pos_pos_trivial) simp_all
    finally show ?thesis using False r u n by simp
  qed
  have "sint d = 0 \<longleftrightarrow> unat d = 0" using u by (auto simp: unat_eq_0 uint_0_iff)
  then show "sint d > 0 \<longleftrightarrow> 0 < unat d \<and> unat d < 2 ^ 31" using g by linarith
qed

lemma ack_in_flight:
  fixes ack una nxt :: u32
  assumes "\<not> seq_leq ack una" "\<not> seq_gt ack nxt" "unat (nxt - una) < 2 ^ 31"
  shows "0 < unat (ack - una)" "unat (ack - una) \<le> unat (nxt - una)"
proof -
  let ?d = "ack - una" and ?f = "nxt - una"
  have d: "0 < unat ?d" "unat ?d < 2 ^ 31" using assms(1) sint_u32(2) [of ?d] by (simp_all add: seq_leq_def not_le)
  then show "0 < unat ?d" by simp
  show "unat ?d \<le> unat ?f"
  proof (rule ccontr)
    assume "\<not> unat ?d \<le> unat ?f"
    then have lt: "unat ?f < unat ?d" by simp
    then have "unat (?d - ?f) = unat ?d - unat ?f" by (intro unat_sub) (simp add: word_le_nat_alt)
    then have "sint (?d - ?f) > 0" using d(2) lt sint_u32(2) [of "?d - ?f"] by simp
    then show False using assms(2) by (simp add: seq_gt_def)
  qed
qed

section \<open>Acknowledgements\<close>

lemma tx_consume_contents:
  assumes "ring_ok TCP_TX_BUF_SIZE (tp_tx p)" "n \<le> rb_count (tp_tx p)"
  shows "tx_bytes (tx_consume p n) = drop n (tx_bytes p)" "ring_ok TCP_TX_BUF_SIZE (tp_tx (tx_consume p n))" "rb_count (tp_tx (tx_consume p n)) = rb_count (tp_tx p) - n"
  using assms by (simp_all add: tx_consume_def Let_def ring_advance_contents ring_advance_ok) (simp add: ring_advance_def)

lemma tx_consume_fields [simp]:
  "tp_snd_una (tx_consume p n) = tp_snd_una p" "tp_snd_nxt (tx_consume p n) = tp_snd_nxt p" "tp_fin_sent (tx_consume p n) = tp_fin_sent p"
  "tp_fin_queued (tx_consume p n) = tp_fin_queued p" "tp_rx (tx_consume p n) = tp_rx p" "tp_rcv_nxt (tx_consume p n) = tp_rcv_nxt p"
  "tp_state (tx_consume p n) = tp_state p" "tp_rx_fin (tx_consume p n) = tp_rx_fin p" "tp_reset (tx_consume p n) = tp_reset p"
  by (simp_all add: tx_consume_def Let_def)

lemma process_ack_out:
  assumes inv: "out_inv base S p w" and a: "tcp_process_ack p ack w = (p', w')"
  shows "out_inv base S p' w'"
proof (cases "seq_leq ack (tp_snd_una p) \<or> seq_gt ack (tp_snd_nxt p)")
  case True
  then show ?thesis using inv a by (simp add: tcp_process_ack_def)
next
  case False
  have i: "snd_inv base S p" using inv by (simp add: out_inv_def)
  then have rk: "ring_ok TCP_TX_BUF_SIZE (tp_tx p)" by (simp add: snd_inv_def)
  then have c: "rb_count (tp_tx p) \<le> 32768" by (simp add: ring_ok_def)
  define d where "d = unat (ack - tp_snd_una p)"
  define n where "n = (if d > rb_count (tp_tx p) then rb_count (tp_tx p) else d)"
  define q where "q = (tx_consume p n)\<lparr>tp_snd_una := ack, tp_retries := 0, tp_rto_ms := TCP_RTO_MIN_MS, tp_rto_deadline_ms := 0\<rparr>"
  have "unat (in_flight p) \<le> 32769" using i c by (cases rule: snd_inv_cases) (auto split: if_splits)
  then have d: "0 < d" "d \<le> unat (in_flight p)"
    using ack_in_flight [of ack "tp_snd_una p" "tp_snd_nxt p"] False by (simp_all add: d_def in_flight_def)
  have nc: "n \<le> rb_count (tp_tx p)" by (simp add: n_def)
  note C = tx_consume_contents [OF rk nc]
  have fl: "in_flight q = in_flight p - (ack - tp_snd_una p)" by (simp add: q_def in_flight_def)
  then have ufl: "unat (in_flight q) = unat (in_flight p) - d" using d(2) unat_sub [of "ack - tp_snd_una p" "in_flight p"] by (simp add: d_def word_le_nat_alt)
  have "snd_inv base S q" using i
  proof (cases rule: snd_inv_cases)
    case (going u)
    show ?thesis
    proof (cases "d \<le> rb_count (tp_tx p)")
      case True
      then have n: "n = d" by (simp add: n_def)
      have "ack = base + of_nat (u + d)" using going(4) by (simp add: d_def)
      moreover have "u + d \<le> length S" using True going(1,3) by simp
      moreover have "tx_bytes (tx_consume p n) = drop (u + d) S" using C(1) going(2) n by (simp add: add.commute)
      moreover have "tp_fin_sent p \<longrightarrow> tp_fin_queued p" using i by (simp add: snd_inv_def)
      moreover have "unat (in_flight q) = unat (in_flight p) - d" "rb_count (tp_tx q) = rb_count (tp_tx p) - d" using ufl C(3) n by (simp_all add: q_def)
      then have "if tp_fin_sent q then unat (in_flight q) = rb_count (tp_tx q) + 1 else unat (in_flight q) \<le> rb_count (tp_tx q)"
        using going(5) d True by (auto simp: q_def split: if_splits)
      ultimately show ?thesis using C(2) unfolding snd_inv_def by (auto simp: q_def intro!: exI [of _ "u + d"])
    next
      case False
      then have f: "tp_fin_sent p" "d = rb_count (tp_tx p) + 1" "n = rb_count (tp_tx p)" using going(5) d(2) by (auto simp: n_def split: if_splits)
      then have "unat (in_flight q) = 0" using ufl going(5) by simp
      then have "in_flight q = 0" by (simp add: unat_eq_0)
      moreover have "tx_bytes (tx_consume p n) = drop (length S) S" using C(1) f(3) by simp
      ultimately show ?thesis using C(2) f(1) i unfolding snd_inv_def by (auto simp: q_def)
    qed
  next
    case acked
    then show ?thesis using d by simp
  qed
  then have "out_inv base S q w" using inv by (simp add: out_inv_def q_def)
  moreover have "tcp_process_ack p ack w = (if tp_snd_una q \<noteq> tp_snd_nxt q then tcp_start_rto q w else (q, w))"
    using False by (simp add: tcp_process_ack_def Let_def d_def n_def q_def)
  ultimately show ?thesis using a out_inv_start_rto [of base S q w] by (auto split: if_splits)
qed

section \<open>Every step of the sender keeps its invariant\<close>

lemma take_ack_out: "out_inv base S p w \<Longrightarrow> take_ack flags ack p w = (p', w') \<Longrightarrow> out_inv base S p' w'"
  by (auto simp: take_ack_def split: if_splits prod.splits dest!: process_ack_out [of base S p w] elim!: out_inv_cong)

lemma take_data_fields [simp]:
  "tp_tx (take_data data p) = tp_tx p" "tp_snd_una (take_data data p) = tp_snd_una p" "tp_snd_nxt (take_data data p) = tp_snd_nxt p"
  "tp_fin_sent (take_data data p) = tp_fin_sent p" "tp_fin_queued (take_data data p) = tp_fin_queued p" "tp_state (take_data data p) = tp_state p"
  "tp_rx_fin (take_data data p) = tp_rx_fin p" "tp_reset (take_data data p) = tp_reset p"
  by (simp_all add: take_data_def rx_append_def Let_def)

lemma take_data_out: "out_inv base S p w \<Longrightarrow> out_inv base S (take_data data p) w"
  by (erule out_inv_cong) simp_all

lemma take_fin_out: "out_inv base S p w \<Longrightarrow> take_fin flags seq n p w = (p', w') \<Longrightarrow> out_inv base S p' w'"
  by (erule out_inv_cong)
    (auto simp: take_fin_def Let_def enter_time_wait_def pit_uptime_ms_def split: if_splits tcp_state.splits)

lemma own_fin_acked_out: "out_inv base S p w \<Longrightarrow> own_fin_acked p w = (p', w') \<Longrightarrow> out_inv base S p' w'"
  by (erule out_inv_cong)
    (auto simp: own_fin_acked_def enter_time_wait_def pit_uptime_ms_def split: if_splits tcp_state.splits)

lemma synced_input_out:
  assumes "out_inv base S p w" "synced_input th data p w = (p', w')"
  shows "out_inv base S p' w'"
proof (cases "trim_segment (tp_rcv_nxt p) (htonl (th_seq th)) data")
  case None
  then show ?thesis using assms send_ack_out [of base S p w] by (simp add: synced_input_def)
next
  case (Some x)
  obtain seq d where x: "x = (seq, d)" by (cases x)
  obtain p1 w1 where 1: "take_ack (th_flags th) (htonl (th_ack th)) (p\<lparr>tp_snd_wnd := htons (th_window th)\<rparr>) w = (p1, w1)" by fastforce
  obtain p2 w2 where 2: "take_fin (th_flags th) seq (length d) (take_data d p1) w1 = (p2, w2)" by fastforce
  obtain p3 w3 where 3: "own_fin_acked p2 w2 = (p3, w3)" by fastforce
  obtain p4 w4 where 4: "(if tp_needs_ack p3 then send_ack p3 w3 else (p3, w3)) = (p4, w4)" by fastforce
  have "out_inv base S (p\<lparr>tp_snd_wnd := htons (th_window th)\<rparr>) w" using assms(1) by (rule out_inv_cong) simp_all
  then have "out_inv base S p3 w3" using take_ack_out [OF _ 1] take_data_out take_fin_out [OF _ 2] own_fin_acked_out [OF _ 3] by blast
  then have "out_inv base S p4 w4" using 4 send_ack_out [of base S p3 w3] by (auto split: if_splits)
  then show ?thesis using assms(2) Some x 1 2 3 4 tcp_output_out by (simp add: synced_input_def)
qed

lemma pcb_input_out:
  assumes "out_inv base S p w" "tp_state p \<noteq> SYN_SENT" "pcb_input src_ip th data p w = (p', w')"
  shows "out_inv base S p' w'"
  using assms synced_input_out [OF assms(1), of th data] out_inv_cong [OF assms(1), of "p\<lparr>tp_reset := True, tp_state := CLOSED\<rparr>" w]
  by (auto simp: pcb_input_def split: if_splits)

lemma tx_append_inv:
  assumes i: "snd_inv base S p" and q: "\<not> tp_fin_queued p" and n: "rb_count (tp_tx p) + length bs \<le> TCP_TX_BUF_SIZE"
  shows "snd_inv base (S @ bs) (tx_append p bs)"
proof -
  have rk: "ring_ok TCP_TX_BUF_SIZE (tp_tx p)" and f: "\<not> tp_fin_sent p" using i q by (auto simp: snd_inv_def)
  note C = ring_put_contents [OF rk n] and K = ring_put_ok [OF rk n]
  from i show ?thesis
  proof (cases rule: snd_inv_cases)
    case (going u)
    then show ?thesis using C K f q unfolding snd_inv_def by (auto simp: tx_append_def in_flight_def intro!: exI [of _ u])
  qed (use q in simp)
qed

lemma sent_ok_append: "sent_ok base S False b \<Longrightarrow> sent_ok base (S @ bs) fin b"
  by (fastforce simp: sent_ok_def piece_def)

lemma tx_append_out:
  assumes "out_inv base S p w" "\<not> tp_fin_queued p" "rb_count (tp_tx p) + length bs \<le> TCP_TX_BUF_SIZE"
  shows "out_inv base (S @ bs) (tx_append p bs) w"
  using assms tx_append_inv [of base S p bs] sent_ok_append [of base S _ bs False]
  by (auto simp: out_inv_def tx_append_def)

lemma shutdown_write_out:
  assumes "out_inv base S p w" "shutdown_write_pcb p w = (p', w')"
  shows "out_inv base S p' w'"
proof -
  have "out_inv base S (p\<lparr>tp_fin_queued := True, tp_state := st\<rparr>) w" if "\<not> tp_fin_queued p" for st
    using assms(1) that by (auto simp: out_inv_def snd_inv_def sent_ok_def in_flight_def)
  then have "out_inv base S p' w'" if "\<not> tp_fin_queued p" "tcp_output (p\<lparr>tp_fin_queued := True, tp_state := st\<rparr>) w = (p', w')" for st
    using tcp_output_out that by blast
  then show ?thesis using assms by (auto simp: shutdown_write_pcb_def split: if_splits)
qed

lemma recv_out:
  assumes "out_inv base S p w" "tcp_recv_pcb len blocking p w = Done (r, bs, p', w')"
  shows "out_inv base S p' w'"
proof -
  have q: "out_inv base S (p\<lparr>tp_rx := x\<rparr>) w" for x using assms(1) by (rule out_inv_cong) simp_all
  then have "out_inv base S p' w'" if "send_ack (p\<lparr>tp_rx := x\<rparr>) w = (p', w')" for x using send_ack_out that by blast
  then show ?thesis using assms q by (auto simp: tcp_recv_pcb_def ring_get_def Let_def split: if_splits prod.splits)
qed

lemma retransmit_out:
  assumes inv: "out_inv base S p w" and st: "tp_state p \<noteq> SYN_SENT" "tp_state p \<noteq> SYN_RCVD" and ne: "tp_snd_una p \<noteq> tp_snd_nxt p" and r: "retransmit p w = (p', w')"
  shows "out_inv base S p' w'"
proof -
  have i: "snd_inv base S p" using inv by (simp add: out_inv_def)
  then have rk: "ring_ok TCP_TX_BUF_SIZE (tp_tx p)" by (simp add: snd_inv_def)
  let ?n = "if rb_count (tp_tx p) < TCP_MSS then rb_count (tp_tx p) else TCP_MSS"
  consider (data) "rb_count (tp_tx p) > 0" | (fin) "rb_count (tp_tx p) = 0" "tp_fin_sent p" | (none) "rb_count (tp_tx p) = 0" "\<not> tp_fin_sent p" by blast
  then show ?thesis
  proof cases
    case data
    obtain u where u: "u \<le> length S" "tx_bytes p = drop u S" "rb_count (tp_tx p) = length S - u" "tp_snd_una p = base + of_nat u"
      using i by (cases rule: snd_inv_cases) (blast, use data in simp)
    have d: "tx_peek p 0 ?n = take ?n (drop u S)" using tx_peek_contents [OF rk, of 0 ?n] data u(2) by simp
    obtain ok where s: "tcp_send_segment p (TCP_FLAG_ACK OR TCP_FLAG_PSH) (tp_snd_una p) (tx_peek p 0 ?n) False w = (ok, p', w')"
      using r st data by (auto simp: retransmit_def Let_def) (metis prod.collapse)+
    show ?thesis
      by (rule out_inv_sends [OF inv s]) (use d u in \<open>auto simp: sent_ok_def intro!: piece_seq [of _ _ u ?n]\<close>)
  next
    case fin
    obtain ok where s: "tcp_send_segment p (TCP_FLAG_ACK OR TCP_FLAG_FIN) (tp_snd_una p) [] False w = (ok, p', w')"
      using r st fin by (auto simp: retransmit_def Let_def) (metis prod.collapse)+
    show ?thesis using i
    proof (cases rule: snd_inv_cases)
      case (going u)
      then have "tp_snd_una p = base + of_nat (length S)" "tp_fin_queued p" using fin i by (auto simp: snd_inv_def)
      then show ?thesis by (intro out_inv_sends [OF inv s]) (simp add: sent_ok_def)
    next
      case acked
      then show ?thesis using ne by (simp add: in_flight_def)
    qed
  next
    case none
    then show ?thesis using r st inv by (simp add: retransmit_def)
  qed
qed

lemma timer_out:
  assumes inv: "out_inv base S p w" and st: "tp_state p \<noteq> SYN_SENT" "tp_state p \<noteq> SYN_RCVD" and t: "timer_pcb now p w = (p', w')"
  shows "out_inv base S p' w'"
proof (cases "tp_rto_deadline_ms p = 0 \<or> now < tp_rto_deadline_ms p \<or> tp_snd_una p = tp_snd_nxt p \<or> tp_retries p + 1 > TCP_RETRIES_MAX")
  case True
  with inv t show ?thesis by (elim out_inv_cong) (auto simp: timer_pcb_def Let_def split: if_splits)
next
  case False
  let ?p = "p\<lparr>tp_retries := tp_retries p + 1\<rparr>"
  obtain p1 w1 where r: "retransmit ?p w = (p1, w1)" by fastforce
  have "out_inv base S ?p w" using inv by (rule out_inv_cong) simp_all
  then have "out_inv base S p1 w1" using retransmit_out [OF _ _ _ _ r] st False by simp
  then show ?thesis by (rule out_inv_cong) (use t False r in \<open>auto simp: timer_pcb_def Let_def\<close>)
qed

lemma expire_out: "out_inv base S p w \<Longrightarrow> out_inv base S (expire_time_wait now p) w"
  by (erule out_inv_cong) (simp_all add: expire_time_wait_def)

text \<open>Writing: the stream grows by the bytes the call accepted.\<close>

lemma send_loop_out:
  assumes "send_loop blocking buf written p w = Some (r, p', w')" "out_inv base S p w" "written \<le> length buf" "length buf < 2 ^ 32"
  shows "out_inv base (S @ take (write_upto written r - written) (drop written buf)) p' w' \<and> written \<le> write_upto written r \<and>
    (0 < written \<longrightarrow> (\<forall>v. r = WDone v \<longrightarrow> 0 \<le> v))"
  using assms
proof (induction "length buf - written" arbitrary: written S p w rule: less_induct)
  case less
  have stay: "out_inv base (S @ take (write_upto written r - written) (drop written buf)) p' w' \<and> written \<le> write_upto written r \<and>
      (0 < written \<longrightarrow> (\<forall>v. r = WDone v \<longrightarrow> 0 \<le> v))"
    if "r = WDone (if written \<noteq> 0 then int written else - e) \<or> r = WDone (int written) \<or> r = WBlocked written" "0 < e" "out_inv base S p' w'" for e
    using that by (auto split: if_splits)
  show ?case
  proof (cases "written < length buf \<and> \<not> tp_reset p \<and> (tp_state p = ESTABLISHED \<or> tp_state p = CLOSE_WAIT) \<and> \<not> tp_fin_queued p")
    case False
    then have "(r, p', w') = (WDone (int written), p, w) \<or> (\<exists>e > 0. (r, p', w') = (WDone (if written \<noteq> 0 then int written else - e), p, w))"
      using less.prems(1) by (subst (asm) send_loop.simps) (auto simp: Let_def split: if_splits)
    then show ?thesis using stay [of 1] stay less.prems(2) by auto
  next
    case True
    let ?space = "TCP_TX_BUF_SIZE - rb_count (tp_tx p)"
    have rk: "rb_count (tp_tx p) \<le> TCP_TX_BUF_SIZE" using less.prems(2) by (simp add: out_inv_def snd_inv_def ring_ok_def)
    show ?thesis
    proof (cases "?space = 0")
      case full: True
      obtain p1 w1 where o: "tcp_output p w = (p1, w1)" by fastforce
      have "(r, p', w') = (WDone (if written \<noteq> 0 then int written else - EAGAIN), p, w) \<or> (r, p', w') = (WBlocked written, p1, w1)"
        using less.prems(1) True full o by (subst (asm) send_loop.simps) (auto simp: Let_def split: if_splits)
      then show ?thesis using stay [of EAGAIN] less.prems(2) tcp_output_out [OF less.prems(2) o] by auto
    next
      case False
      define n where "n = (if length buf - written > ?space then ?space else length buf - written)"
      let ?bs = "take n (drop written buf)"
      have m: "(length buf - written) mod 4294967296 = length buf - written" using less.prems(4) by simp
      have n: "0 < n" "written + n \<le> length buf" "length ?bs = n" "rb_count (tp_tx p) + length ?bs \<le> TCP_TX_BUF_SIZE"
        using True False rk by (auto simp: n_def)
      obtain p1 w1 where o: "tcp_output (tx_append p ?bs) w = (p1, w1)" by fastforce
      have "send_loop blocking buf written p w = (case tcp_output (tx_append p ?bs) w of (p, w) \<Rightarrow> send_loop blocking buf (written + n) p w)"
        using True False by (subst send_loop.simps) (auto simp: Let_def n_def m)
      then have rec: "send_loop blocking buf (written + n) p1 w1 = Some (r, p', w')" using less.prems(1) o by simp
      have "out_inv base (S @ ?bs) p1 w1" using tcp_output_out [OF tx_append_out [OF less.prems(2) _ n(4)] o] True by simp
      then have I: "out_inv base ((S @ ?bs) @ take (write_upto (written + n) r - (written + n)) (drop (written + n) buf)) p' w'"
        "written + n \<le> write_upto (written + n) r" "\<forall>v. r = WDone v \<longrightarrow> 0 \<le> v"
        using less.hyps [OF _ rec] n True less.prems(4) by (auto simp del: append_assoc)
      have w: "write_upto (written + n) r = write_upto written r" using I(3) by (cases r) auto
      have "take (write_upto written r - written) (drop written buf) = ?bs @ take (write_upto written r - (written + n)) (drop (written + n) buf)"
        using I(2) w take_add [of n "write_upto written r - (written + n)" "drop written buf"] n(2) by (simp add: add.commute)
      then show ?thesis using I w by simp
    qed
  qed
qed

section \<open>The receiving side\<close>

text \<open>What the receiving side of a control block consists of, whether the own side is closed and the connection reset; most functions leave it alone.\<close>

definition rview :: "tcp_pcb \<Rightarrow> byte_ring \<times> u32 \<times> bool \<times> bool \<times> bool \<times> tcp_state" where
  "rview p = (tp_rx p, tp_rcv_nxt p, tp_rx_fin p, tp_fin_queued p, tp_reset p, tp_state p)"

lemma rview_segment: "tcp_send_segment p flags seq data mss w = (ok, p', w') \<Longrightarrow> rview p' = rview p"
  by (drule tcp_send_segment_pcb) (simp add: rview_def)

lemma rview_rto: "tcp_start_rto p w = (p', w') \<Longrightarrow> rview p' = rview p"
  by (auto simp: rview_def dest!: tcp_start_rto_pcb)

lemma rview_send_ack: "send_ack p w = (p', w') \<Longrightarrow> rview p' = rview p"
  by (auto simp: send_ack_def split: prod.splits dest: rview_segment)

lemma rview_output_loop: "output_loop p w = (p', w') \<Longrightarrow> rview p' = rview p"
proof (induction p w arbitrary: p' w' rule: output_loop.induct)
  case (1 p w)
  show ?case
  proof (cases "may_push p")
    case False
    then show ?thesis using 1(2) by (subst (asm) output_loop.simps) simp
  next
    case True
    obtain sent p1 w1 where s: "tcp_send_segment p (TCP_FLAG_ACK OR TCP_FLAG_PSH) (tp_snd_nxt p) (tx_peek p (unat (in_flight p)) (next_chunk p)) False w = (sent, p1, w1)"
      by (metis prod_cases3)
    obtain p2 w2 where r: "tcp_start_rto (p1\<lparr>tp_snd_nxt := tp_snd_nxt p1 + of_nat (next_chunk p)\<rparr>) w1 = (p2, w2)" by fastforce
    have v: "rview p1 = rview p" "rview p2 = rview p1" using rview_segment [OF s] rview_rto [OF r] by (simp_all add: rview_def)
    show ?thesis
    proof (cases sent)
      case False
      then show ?thesis using 1(2) True s v by (subst (asm) output_loop.simps) simp
    next
      case sent: True
      then have "output_loop p2 w2 = (p', w')" using 1(2) True s r by (subst (asm) output_loop.simps) simp
      then show ?thesis using 1(1) [OF _ s [symmetric] refl _ r [symmetric]] True sent v by simp
    qed
  qed
qed

lemma rview_push_fin: "push_fin p w = (p', w') \<Longrightarrow> rview p' = rview p"
  by (auto simp: push_fin_def split: if_splits prod.splits dest!: rview_segment rview_rto) (simp_all add: rview_def)

lemma rview_output: "tcp_output p w = (p', w') \<Longrightarrow> rview p' = rview p"
  by (auto simp: tcp_output_def split: if_splits prod.splits dest!: rview_output_loop rview_push_fin)

lemma rview_process_ack: "tcp_process_ack p ack w = (p', w') \<Longrightarrow> rview p' = rview p"
  by (auto simp: tcp_process_ack_def Let_def split: if_splits dest!: rview_rto) (simp_all add: rview_def)

lemma rview_retransmit: "retransmit p w = (p', w') \<Longrightarrow> rview p' = rview p"
  by (auto simp: retransmit_def Let_def split: if_splits) (metis rview_segment prod.collapse snd_conv)+

lemma rview_send_loop:
  assumes "send_loop blocking buf written p w = Some y"
  shows "rview (fst (snd y)) = rview p"
proof (rule send_loop.raw_induct [where P = "\<lambda>blocking buf written p w y. rview (fst (snd y)) = rview p", OF _ assms])
  fix f :: "bool \<Rightarrow> u8 list \<Rightarrow> nat \<Rightarrow> tcp_pcb \<Rightarrow> 'a netw_scheme \<Rightarrow> (write_result \<times> tcp_pcb \<times> 'a netw_scheme) option"
    and blocking buf written p w y
  assume ih: "\<And>blocking buf written p w y. f blocking buf written p w = Some y \<Longrightarrow> rview (fst (snd y)) = rview p"
  assume body: "(let fail = (\<lambda>e. Some (WDone (if written \<noteq> 0 then int written else - e), p, w)) in
      if written < length buf then
        if tp_reset p then fail ECONNRESET
        else if tp_state p \<noteq> ESTABLISHED \<and> tp_state p \<noteq> CLOSE_WAIT then fail EPIPE
        else if tp_fin_queued p then fail EPIPE
        else
          let space = TCP_TX_BUF_SIZE - rb_count (tp_tx p) in
          if space = 0 then
            (if \<not> blocking then fail EAGAIN
             else case tcp_output p w of (p, w) \<Rightarrow> Some (WBlocked written, p, w))
          else
            let n = (length buf - written) mod 2 ^ 32;
                n = (if n > space then space else n)
            in case tcp_output (tx_append p (take n (drop written buf))) w of (p, w) \<Rightarrow> f blocking buf (written + n) p w
      else Some (WDone (int written), p, w)) = Some y"
  have a: "rview (tx_append p bs) = rview p" for bs by (simp add: tx_append_def rview_def)
  have "rview (fst (snd y)) = rview p" if o: "tcp_output (tx_append p bs) w = (p1, w1)" and "f blocking buf k p1 w1 = Some y" for bs k p1 w1
    using ih [OF that(2)] rview_output [OF o] a by simp
  moreover have "rview (fst (tcp_output p w)) = rview p" by (rule rview_output [of p w _ "snd (tcp_output p w)"]) simp
  ultimately show "rview (fst (snd y)) = rview p" using body by (auto simp: Let_def split: if_splits prod.splits)
qed

text \<open>States in which data is accepted, and in which the handshake is over.\<close>

definition receiving :: "tcp_state \<Rightarrow> bool" where
  "receiving st \<longleftrightarrow> st = ESTABLISHED \<or> st = FIN_WAIT1 \<or> st = FIN_WAIT2"

definition handshake_done :: "tcp_state \<Rightarrow> bool" where
  "handshake_done st \<longleftrightarrow> st \<noteq> LISTEN \<and> st \<noteq> SYN_SENT \<and> st \<noteq> SYN_RCVD"

text \<open>\<open>D\<close> are the bytes handed to the application. With what the receive buffer holds they are the first \<open>r\<close> bytes of the stream, and the next
  number expected is that of the following byte; after the FIN they are the whole stream, and no data is accepted any more. Only the FIN or a reset ends
  the receiving.\<close>

definition rcv_inv :: "u32 \<Rightarrow> u8 list \<Rightarrow> bool \<Rightarrow> u8 list \<Rightarrow> tcp_pcb \<Rightarrow> bool" where
  "rcv_inv base S fin D p \<longleftrightarrow> ring_ok TCP_RX_BUF_SIZE (tp_rx p) \<and> handshake_done (tp_state p) \<and>
     (receiving (tp_state p) \<or> tp_rx_fin p \<or> tp_reset p) \<and>
     (\<exists>r \<le> length S. D @ rx_bytes p = take r S \<and>
        (if tp_rx_fin p then r = length S \<and> fin \<and> \<not> receiving (tp_state p) else tp_rcv_nxt p = base + of_nat r))"

lemma rcv_inv_view: "rview p' = rview p \<Longrightarrow> rcv_inv base S fin D p' = rcv_inv base S fin D p"
  by (simp add: rcv_inv_def rview_def)

text \<open>A change of state that does not reopen the receiving side, and closes it only by a reset.\<close>

lemma rcv_inv_state:
  assumes "rcv_inv base S fin D p" "tp_rx p' = tp_rx p" "tp_rcv_nxt p' = tp_rcv_nxt p" "tp_rx_fin p' = tp_rx_fin p"
    "handshake_done (tp_state p')" "receiving (tp_state p') \<Longrightarrow> receiving (tp_state p)"
    "receiving (tp_state p) \<Longrightarrow> receiving (tp_state p') \<or> tp_reset p'" "tp_reset p \<Longrightarrow> tp_reset p'"
  shows "rcv_inv base S fin D p'"
  using assms by (auto simp: rcv_inv_def split: if_splits)

lemma rcv_inv_append:
  assumes "rcv_inv base S False D p"
  shows "rcv_inv base (S @ bs) fin D p"
proof -
  obtain r where "r \<le> length S" "D @ rx_bytes p = take r S" "tp_rcv_nxt p = base + of_nat r" "\<not> tp_rx_fin p"
    using assms by (auto simp: rcv_inv_def split: if_splits)
  then show ?thesis using assms unfolding rcv_inv_def by (simp, intro exI [of _ r]) simp
qed

lemma rcv_inv_fin: "rcv_inv base S fin D p \<Longrightarrow> (fin \<Longrightarrow> fin') \<Longrightarrow> rcv_inv base S fin' D p"
  by (auto simp: rcv_inv_def split: if_splits)

text \<open>What is left of a segment of the stream after trimming starts at the number expected.\<close>

lemma seq_compare:
  fixes base :: u32
  assumes "k < 2 ^ 31" "r < 2 ^ 31"
  shows "seq_lt (base + of_nat k) (base + of_nat r) \<longleftrightarrow> k < r" "seq_gt (base + of_nat k) (base + of_nat r) \<longleftrightarrow> r < k"
    "base + of_nat k = base + (of_nat r :: u32) \<longleftrightarrow> k = r" "k \<le> r \<Longrightarrow> unat ((base + of_nat r) - (base + of_nat k)) = r - k"
proof -
  have u: "unat (of_nat n :: u32) = n" if "n < 2 ^ 31" for n using that by (simp add: unat_of_nat)
  have le: "unat (of_nat b - of_nat a :: u32) = b - a" if "a \<le> b" "b < 2 ^ 31" for a b
    using that u unat_sub [of "of_nat a :: u32" "of_nat b"] by (simp add: word_le_nat_alt)
  have e: "(base + of_nat a) - (base + of_nat b) = (of_nat a - of_nat b :: u32)" for a b by simp
  have d: "sint (of_nat a - of_nat b :: u32) = int a - int b" if "a < 2 ^ 31" "b < 2 ^ 31" for a b
  proof -
    have "(of_nat a - of_nat b :: u32) = of_int (int a - int b)" by simp
    moreover have "sint (of_int (int a - int b) :: u32) = signed_take_bit 31 (int a - int b)" by (simp only: signed_of_int) simp
    moreover have "signed_take_bit 31 (int a - int b) = int a - int b" using that by (intro signed_take_bit_int_eq_self) simp_all
    ultimately show ?thesis by simp
  qed
  show "seq_lt (base + of_nat k) (base + of_nat r) \<longleftrightarrow> k < r" "seq_gt (base + of_nat k) (base + of_nat r) \<longleftrightarrow> r < k"
    using d [OF assms] by (simp_all add: seq_lt_def seq_gt_def e)
  show "base + of_nat k = base + (of_nat r :: u32) \<longleftrightarrow> k = r" using u assms by (metis add_left_cancel)
  show "k \<le> r \<Longrightarrow> unat ((base + of_nat r) - (base + of_nat k)) = r - k" using le assms by simp
qed

lemma trim_sent:
  assumes ok: "sent_ok base S fin b" and t: "trim_segment (base + of_nat r) (seg_seq b) (seg_data b) = Some (seq, d)"
    and r: "r \<le> length S" and S: "length S < 2 ^ 31"
  obtains m where "d = take m (drop r S)" "r + m \<le> length S"
    "seg_flags b AND TCP_FLAG_FIN \<noteq> 0 \<Longrightarrow> d = [] \<and> fin \<and> seq = base + of_nat (length S)"
proof (cases "seg_data b = []")
  case True
  have d: "d = []" using t True by (auto simp: trim_segment_def split: if_splits)
  have "fin \<and> seq = base + of_nat (length S)" if f: "seg_flags b AND TCP_FLAG_FIN \<noteq> 0"
  proof -
    have q: "fin" "seg_seq b = base + of_nat (length S)" using ok f by (auto simp: sent_ok_def)
    moreover have "\<not> seq_lt (seg_seq b) (base + of_nat r)" using q r S seq_compare(1) [of "length S" r base] by simp
    ultimately show ?thesis using t by (auto simp: trim_segment_def split: if_splits)
  qed
  then show thesis using that [of 0] d r by simp
next
  case False
  let ?n = "length (seg_data b)"
  obtain k where k: "seg_seq b = base + of_nat k" "k + ?n \<le> length S" "seg_data b = take ?n (drop k S)" and nf: "seg_flags b AND TCP_FLAG_FIN = 0"
    using ok False by (auto simp: sent_ok_def piece_def)
  have b: "k < 2 ^ 31" "r < 2 ^ 31" using k(2) r S by simp_all
  note cmp = seq_compare [OF b, of base]
  have kr: "k \<le> r" using t cmp(1,2) k(1) by (auto simp: trim_segment_def split: if_splits)
  have d: "d = drop (r - k) (seg_data b)" using t cmp kr k(1) by (auto simp: trim_segment_def Let_def split: if_splits)
  have e: "drop (r - k) (seg_data b) = take (?n - (r - k)) (drop r S)"
    using k(3) kr by (metis drop_drop drop_take le_add_diff_inverse2)
  show thesis
  proof (rule that [of "?n - (r - k)"])
    show "d = take (?n - (r - k)) (drop r S)" using d e by simp
    show "r + (?n - (r - k)) \<le> length S" using k(2) kr r by simp
  qed (use nf in simp)
qed

text \<open>An open receiving side that has got the first \<open>r\<close> bytes.\<close>

definition rcv_at :: "u32 \<Rightarrow> u8 list \<Rightarrow> u8 list \<Rightarrow> nat \<Rightarrow> tcp_pcb \<Rightarrow> bool" where
  "rcv_at base S D r p \<longleftrightarrow> ring_ok TCP_RX_BUF_SIZE (tp_rx p) \<and> r \<le> length S \<and> D @ rx_bytes p = take r S \<and> tp_rcv_nxt p = base + of_nat r"

lemma take_data_rcv:
  assumes at: "rcv_at base S D r p" and d: "d = take m (drop r S)" "r + m \<le> length S"
  obtains r' where "rcv_at base S D r' (take_data d p)" "d = [] \<Longrightarrow> r' = r"
proof (cases "d \<noteq> [] \<and> receiving (tp_state p) \<and> 0 < rx_free p")
  case False
  then have "tp_rx (take_data d p) = tp_rx p" "tp_rcv_nxt (take_data d p) = tp_rcv_nxt p" by (auto simp: take_data_def receiving_def Let_def)
  then have "rcv_at base S D r (take_data d p)" using at by (simp add: rcv_at_def)
  then show thesis using that by blast
next
  case True
  define n where "n = (if length d < rx_free p then length d else rx_free p)"
  let ?bs = "take n d"
  have n: "0 < n" "n \<le> length d" "n \<le> rx_free p" using True by (auto simp: n_def)
  have l: "length ?bs = n" "length d = m" using n(2) d by simp_all
  have rk: "ring_ok TCP_RX_BUF_SIZE (tp_rx p)" using at by (simp add: rcv_at_def)
  have room: "rb_count (tp_rx p) + length ?bs \<le> TCP_RX_BUF_SIZE" using rk n(3) l(1) by (auto simp: rx_free_def ring_ok_def)
  have q: "tp_rx (take_data d p) = ring_put TCP_RX_BUF_SIZE ?bs (tp_rx p)" "tp_rcv_nxt (take_data d p) = tp_rcv_nxt p + of_nat n"
    using True n(1) by (auto simp: take_data_def receiving_def Let_def n_def rx_append_def)
  have "?bs = take n (drop r S)" using n(2) l(2) d(1) by simp
  then have "D @ ring_contents TCP_RX_BUF_SIZE (ring_put TCP_RX_BUF_SIZE ?bs (tp_rx p)) = take (r + n) S"
    using at ring_put_contents [OF rk room] take_add [of r n S] by (simp add: rcv_at_def flip: append_assoc)
  then have "rcv_at base S D (r + n) (take_data d p)"
    using at q ring_put_ok [OF rk room] n(2) l(2) d(2) by (simp add: rcv_at_def)
  then show thesis using that True by blast
qed

lemma take_ack_rview: "handshake_done (tp_state p) \<Longrightarrow> take_ack flags ack p w = (p', w') \<Longrightarrow> rview p' = rview p"
  by (auto simp: take_ack_def handshake_done_def split: if_splits prod.splits dest!: rview_process_ack) (simp_all add: rview_def)

lemma take_fin_stays: "\<not> receiving (tp_state p) \<Longrightarrow> take_fin flags seq n p w = (p', w') \<Longrightarrow>
    tp_rx p' = tp_rx p \<and> tp_state p' = tp_state p \<and> tp_reset p' = tp_reset p \<and> (tp_rx_fin p \<longrightarrow> tp_rx_fin p')"
  by (auto simp: take_fin_def receiving_def Let_def split: if_splits tcp_state.splits)

lemma take_fin_taken:
  assumes "take_fin flags seq n p w = (p', w')" "handshake_done (tp_state p)"
  shows "tp_rx p' = tp_rx p \<and> handshake_done (tp_state p') \<and> tp_fin_queued p' = tp_fin_queued p \<and>
    (if flags AND TCP_FLAG_FIN \<noteq> 0 \<and> seq + of_nat n = tp_rcv_nxt p then tp_rx_fin p' \<and> \<not> receiving (tp_state p') else rview p' = rview p)"
  using assms by (auto simp: take_fin_def receiving_def handshake_done_def Let_def enter_time_wait_def pit_uptime_ms_def split: if_splits tcp_state.splits)

lemma own_fin_acked_state:
  assumes "own_fin_acked p w = (p', w')" "rcv_inv base S fin D p"
  shows "rcv_inv base S fin D p'"
proof (rule rcv_inv_state [OF assms(2)])
  have "handshake_done (tp_state p)" using assms(2) by (simp add: rcv_inv_def)
  then show "handshake_done (tp_state p')"
    using assms(1) by (auto simp: own_fin_acked_def enter_time_wait_def pit_uptime_ms_def handshake_done_def split: if_splits tcp_state.splits)
qed (use assms(1) in \<open>auto simp: own_fin_acked_def enter_time_wait_def pit_uptime_ms_def receiving_def split: if_splits tcp_state.splits\<close>)

lemma input_tail_rcv:
  assumes i: "rcv_inv base S fin D p2"
    and 3: "own_fin_acked p2 w2 = (p3, w3)" and 4: "(if tp_needs_ack p3 then send_ack p3 w3 else (p3, w3)) = (p4, w4)" and 5: "tcp_output p4 w4 = (p', w')"
  shows "rcv_inv base S fin D p'"
proof -
  have "rview p4 = rview p3" using 4 rview_send_ack [of p3 w3] by (auto split: if_splits)
  then show ?thesis using own_fin_acked_state [OF 3 i] rview_output [OF 5] rcv_inv_view by metis
qed

lemma rcv_inv_cases:
  assumes "rcv_inv base S fin D p"
  obtains (live) r where "\<not> tp_rx_fin p" "rcv_at base S D r p" "handshake_done (tp_state p)" "receiving (tp_state p) \<or> tp_reset p"
  | (ended) "tp_rx_fin p" "\<not> receiving (tp_state p)" "handshake_done (tp_state p)"
proof (cases "tp_rx_fin p")
  case True
  then show thesis using assms ended by (auto simp: rcv_inv_def)
next
  case False
  then obtain r where "rcv_at base S D r p" using assms by (auto simp: rcv_inv_def rcv_at_def)
  then show thesis using live False assms by (auto simp: rcv_inv_def)
qed

lemma take_segment_rcv:
  assumes inv: "rcv_inv base S fin D p" and S: "length S < 2 ^ 31" and ok: "sent_ok base S fin b"
    and t: "trim_segment (tp_rcv_nxt p) (seg_seq b) (seg_data b) = Some (seq, d)" and v: "rview p1 = rview p"
    and f: "take_fin (seg_flags b) seq (length d) (take_data d p1) w1 = (p2, w2)"
  shows "rcv_inv base S fin D p2"
proof -
  have inv1: "rcv_inv base S fin D p1" using inv v rcv_inv_view by blast
  from inv1 show ?thesis
  proof (cases rule: rcv_inv_cases)
    case ended
    then have "take_data d p1 = p1" by (auto simp: take_data_def receiving_def)
    then show ?thesis using take_fin_stays [OF ended(2), of "seg_flags b" seq "length d" w1 p2 w2] f inv1 ended by (auto simp: rcv_inv_def)
  next
    case (live r)
    have r: "r \<le> length S" "tp_rcv_nxt p = base + of_nat r" using live(2) v by (simp_all add: rcv_at_def rview_def)
    obtain m where m: "d = take m (drop r S)" "r + m \<le> length S" "seg_flags b AND TCP_FLAG_FIN \<noteq> 0 \<Longrightarrow> d = [] \<and> fin \<and> seq = base + of_nat (length S)"
      using trim_sent [OF ok _ r(1) S] t r(2) by metis
    obtain r' where r': "rcv_at base S D r' (take_data d p1)" "d = [] \<Longrightarrow> r' = r" using take_data_rcv [OF live(2) m(1,2)] by blast
    have g: "handshake_done (tp_state (take_data d p1))" using live by simp
    note F = take_fin_taken [OF f g]
    show ?thesis
    proof (cases "seg_flags b AND TCP_FLAG_FIN \<noteq> 0 \<and> seq + of_nat (length d) = tp_rcv_nxt (take_data d p1)")
      case True
      then have "base + of_nat (length S) = base + (of_nat r' :: u32)" "fin" using m(3) r'(1) by (auto simp: rcv_at_def)
      moreover have "r' \<le> length S" using r'(1) by (simp add: rcv_at_def)
      ultimately have "r' = length S" "fin" using seq_compare(3) [of "length S" r' base] S by simp_all
      then show ?thesis using F True r'(1) by (auto simp: rcv_inv_def rcv_at_def)
    next
      case False
      then have "rview p2 = rview (take_data d p1)" using F by (simp split: if_splits)
      moreover have "rcv_inv base S fin D (take_data d p1)" using r'(1) live g by (auto simp: rcv_inv_def rcv_at_def)
      ultimately show ?thesis using rcv_inv_view by blast
    qed
  qed
qed

lemma synced_input_rcv:
  assumes inv: "rcv_inv base S fin D p" and S: "length S < 2 ^ 31" and ok: "sent_ok base S fin b"
    and s: "synced_input (tcp_header_of b) (seg_data b) p w = (p', w')"
  shows "rcv_inv base S fin D p'"
proof (cases "trim_segment (tp_rcv_nxt p) (seg_seq b) (seg_data b)")
  case None
  then have "send_ack p w = (p', w')" using s by (simp add: synced_input_def seg_seq_def)
  then show ?thesis using inv rview_send_ack rcv_inv_view by blast
next
  case (Some x)
  obtain seq d where x: "x = (seq, d)" by (cases x)
  let ?th = "tcp_header_of b"
  let ?p = "p\<lparr>tp_snd_wnd := htons (th_window ?th)\<rparr>"
  obtain p1 w1 where 1: "take_ack (th_flags ?th) (htonl (th_ack ?th)) ?p w = (p1, w1)" by fastforce
  obtain p2 w2 where 2: "take_fin (seg_flags b) seq (length d) (take_data d p1) w1 = (p2, w2)" by fastforce
  obtain p3 w3 where 3: "own_fin_acked p2 w2 = (p3, w3)" by fastforce
  obtain p4 w4 where 4: "(if tp_needs_ack p3 then send_ack p3 w3 else (p3, w3)) = (p4, w4)" by fastforce
  have "handshake_done (tp_state ?p)" using inv by (simp add: rcv_inv_def)
  from take_ack_rview [OF this 1] have "rview p1 = rview p" by (simp add: rview_def)
  then have "rcv_inv base S fin D p2" using take_segment_rcv [OF inv S ok _ _ 2] Some x by simp
  moreover have "tcp_output p4 w4 = (p', w')" using s Some x 1 2 3 4 by (simp add: synced_input_def seg_seq_def seg_flags_def)
  ultimately show ?thesis using input_tail_rcv 3 4 by blast
qed

lemma pcb_input_rcv:
  assumes inv: "rcv_inv base S fin D p" and S: "length S < 2 ^ 31" and ok: "sent_ok base S fin b"
    and s: "pcb_input src_ip (tcp_header_of b) (seg_data b) p w = (p', w')"
  shows "rcv_inv base S fin D p'"
proof (cases "seg_flags b AND TCP_FLAG_RST \<noteq> 0")
  case True
  then have "p' = p\<lparr>tp_reset := True, tp_state := CLOSED\<rparr>" using s by (simp add: pcb_input_def seg_flags_def)
  then show ?thesis using inv by (elim rcv_inv_state) (simp_all add: handshake_done_def receiving_def)
next
  case False
  have "tp_state p \<noteq> SYN_SENT" using inv by (auto simp: rcv_inv_def handshake_done_def)
  then show ?thesis using s False synced_input_rcv [OF inv S ok] by (simp add: pcb_input_def seg_flags_def)
qed

lemma recv_rcv:
  assumes inv: "rcv_inv base S fin D p" and g: "tcp_recv_pcb len blocking p w = Done (n, bs, p', w')"
  shows "rcv_inv base S fin (D @ bs) p'"
proof (cases "0 < len \<and> 0 < rb_count (tp_rx p)")
  case False
  then have "p' = p" "bs = []" using g by (auto simp: tcp_recv_pcb_def Let_def split: if_splits)
  then show ?thesis using inv by simp
next
  case True
  define k where "k = (if rb_count (tp_rx p) < len then rb_count (tp_rx p) else len)"
  obtain r where G: "ring_get TCP_RX_BUF_SIZE k (tp_rx p) = (bs, r)" and v: "rview p' = rview (p\<lparr>tp_rx := r\<rparr>)"
    using g True by (auto simp: tcp_recv_pcb_def Let_def k_def split: if_splits prod.splits dest: rview_send_ack)
  have rk: "ring_ok TCP_RX_BUF_SIZE (tp_rx p)" and k: "k \<le> rb_count (tp_rx p)" using inv by (simp_all add: rcv_inv_def k_def)
  have "bs @ ring_contents TCP_RX_BUF_SIZE r = rx_bytes p" "ring_ok TCP_RX_BUF_SIZE r"
    using ring_copy_out_contents [OF rk k] ring_advance_contents [OF rk k] ring_advance_ok [OF rk] G
    by (auto simp: ring_get_def) (metis append_take_drop_id)
  then have "rcv_inv base S fin (D @ bs) (p\<lparr>tp_rx := r\<rparr>)" using inv by (auto simp: rcv_inv_def split: if_splits)
  then show ?thesis using v rcv_inv_view by blast
qed

lemma shutdown_rcv:
  assumes "rcv_inv base S fin D p" "shutdown_write_pcb p w = (p', w')"
  shows "rcv_inv base S fin D p'"
proof -
  have "rcv_inv base S fin D p'" if "tcp_output (p\<lparr>tp_fin_queued := True, tp_state := st\<rparr>) w = (p', w')"
    and "st = FIN_WAIT1 \<and> tp_state p = ESTABLISHED \<or> st = LAST_ACK \<and> tp_state p = CLOSE_WAIT" for st
  proof -
    have "rcv_inv base S fin D (p\<lparr>tp_fin_queued := True, tp_state := st\<rparr>)"
      using assms(1) by (rule rcv_inv_state) (use that(2) in \<open>auto simp: handshake_done_def receiving_def\<close>)
    then show ?thesis using rview_output [OF that(1)] rcv_inv_view by blast
  qed
  then show ?thesis using assms by (auto simp: shutdown_write_pcb_def split: if_splits)
qed

lemma rcv_inv_closed: "rcv_inv base S fin D p \<Longrightarrow> rview p' = (tp_rx p, tp_rcv_nxt p, tp_rx_fin p, tp_fin_queued p, True, CLOSED) \<Longrightarrow> rcv_inv base S fin D p'"
  by (erule rcv_inv_state) (simp_all add: rview_def handshake_done_def receiving_def)

lemma timer_view:
  assumes t: "timer_pcb now p w = (p', w')"
  shows "rview p' = rview p \<or> rview p' = (tp_rx p, tp_rcv_nxt p, tp_rx_fin p, tp_fin_queued p, True, CLOSED)"
proof -
  obtain q w1 where q: "retransmit (p\<lparr>tp_retries := tp_retries p + 1\<rparr>) w = (q, w1)" by fastforce
  then have v: "rview q = rview p" using rview_retransmit [OF q] by (simp add: rview_def)
  consider "p' = p" | "p' = p\<lparr>tp_rto_deadline_ms := 0\<rparr>" | "p' = p\<lparr>tp_retries := tp_retries p + 1, tp_reset := True, tp_state := CLOSED, tp_rto_deadline_ms := 0\<rparr>"
    | ms where "p' = q\<lparr>tp_rto_ms := ms, tp_rto_deadline_ms := now + ucast ms\<rparr>"
    using t q unfolding timer_pcb_def Let_def by (simp only: split: if_split_asm) (auto simp: prod_eq_iff)
  then show ?thesis using v by cases (simp_all add: rview_def)
qed

lemma timer_rcv: "rcv_inv base S fin D p \<Longrightarrow> timer_pcb now p w = (p', w') \<Longrightarrow> rcv_inv base S fin D p'"
  using timer_view rcv_inv_view rcv_inv_closed by blast

lemma expire_rcv: "rcv_inv base S fin D p \<Longrightarrow> rcv_inv base S fin D (expire_time_wait now p)"
  by (cases "tp_state p = TIME_WAIT \<and> now \<ge> tp_timer_deadline_ms p") (auto simp: expire_time_wait_def handshake_done_def receiving_def elim: rcv_inv_state)

text \<open>A connection whose handshake is over does not go back to it, whatever arrives.\<close>

lemma handshake_view: "rview p' = rview p \<Longrightarrow> handshake_done (tp_state p) \<Longrightarrow> handshake_done (tp_state p') \<and> tp_fin_queued p' = tp_fin_queued p"
  by (simp add: rview_def)

lemma handshake_input:
  assumes h: "handshake_done (tp_state p)" and s: "pcb_input src_ip th data p w = (p', w')"
  shows "handshake_done (tp_state p') \<and> tp_fin_queued p' = tp_fin_queued p"
proof (cases "th_flags th AND TCP_FLAG_RST \<noteq> 0")
  case True
  then show ?thesis using s by (auto simp: pcb_input_def handshake_done_def)
next
  case False
  then have s: "synced_input th data p w = (p', w')" using h s by (auto simp: pcb_input_def handshake_done_def)
  show ?thesis
  proof (cases "trim_segment (tp_rcv_nxt p) (htonl (th_seq th)) data")
    case None
    then have "send_ack p w = (p', w')" using s by (simp add: synced_input_def)
    from handshake_view [OF rview_send_ack [OF this] h] show ?thesis .
  next
    case (Some x)
    obtain seq d where x: "x = (seq, d)" by (cases x)
    let ?p = "p\<lparr>tp_snd_wnd := htons (th_window th)\<rparr>"
    obtain p1 w1 where 1: "take_ack (th_flags th) (htonl (th_ack th)) ?p w = (p1, w1)" by fastforce
    obtain p2 w2 where 2: "take_fin (th_flags th) seq (length d) (take_data d p1) w1 = (p2, w2)" by fastforce
    obtain p3 w3 where 3: "own_fin_acked p2 w2 = (p3, w3)" by fastforce
    obtain p4 w4 where 4: "(if tp_needs_ack p3 then send_ack p3 w3 else (p3, w3)) = (p4, w4)" by fastforce
    have "handshake_done (tp_state p1) \<and> tp_fin_queued p1 = tp_fin_queued p" using take_ack_rview [OF _ 1] h by (simp add: rview_def)
    then have "handshake_done (tp_state p2) \<and> tp_fin_queued p2 = tp_fin_queued p" using take_fin_taken [OF 2] by simp
    then have "handshake_done (tp_state p3) \<and> tp_fin_queued p3 = tp_fin_queued p" using 3
      by (auto simp: own_fin_acked_def enter_time_wait_def pit_uptime_ms_def handshake_done_def split: if_splits tcp_state.splits)
    moreover have "rview p4 = rview p3" using 4 rview_send_ack [of p3 w3] by (auto split: if_splits)
    moreover have "tcp_output p4 w4 = (p', w')" using s Some x 1 2 3 4 by (simp add: synced_input_def)
    ultimately show ?thesis using rview_output [of p4 w4 p' w'] by (simp add: rview_def)
  qed
qed

lemma handshake_recv:
  "handshake_done (tp_state p) \<Longrightarrow> tcp_recv_pcb len blocking p w = Done (n, bs, p', w') \<Longrightarrow> handshake_done (tp_state p') \<and> tp_fin_queued p' = tp_fin_queued p"
  by (auto simp: tcp_recv_pcb_def Let_def rview_def split: if_splits prod.splits dest!: rview_send_ack)

lemma handshake_shutdown:
  "handshake_done (tp_state p) \<Longrightarrow> shutdown_write_pcb p w = (p', w') \<Longrightarrow> handshake_done (tp_state p') \<and> (tp_fin_queued p \<longrightarrow> tp_fin_queued p')"
  by (auto simp: shutdown_write_pcb_def rview_def handshake_done_def split: if_splits dest!: rview_output)

lemma handshake_timer:
  "handshake_done (tp_state p) \<Longrightarrow> timer_pcb now p w = (p', w') \<Longrightarrow> handshake_done (tp_state p') \<and> tp_fin_queued p' = tp_fin_queued p"
  by (auto dest!: timer_view simp: rview_def handshake_done_def)

lemma handshake_expire:
  "handshake_done (tp_state p) \<Longrightarrow> handshake_done (tp_state (expire_time_wait now p)) \<and> tp_fin_queued (expire_time_wait now p) = tp_fin_queued p"
  by (simp add: expire_time_wait_def handshake_done_def)

lemma handshake_not_syn: "handshake_done st \<Longrightarrow> st \<noteq> SYN_SENT" "handshake_done st \<Longrightarrow> st \<noteq> SYN_RCVD"
  by (auto simp: handshake_done_def)

section \<open>The connection\<close>

text \<open>Two connected control blocks \<open>A\<close> and \<open>B\<close>, each with the world of its host, seen as a channel from \<open>A\<close> to \<open>B\<close>: \<open>S\<close> are the bytes that writes at
  \<open>A\<close> have accepted, \<open>D\<close> those that reads at \<open>B\<close> have returned, and \<open>base\<close> is the sequence number of the first byte. Everything that \<open>A\<close> has ever
  sent can arrive at \<open>B\<close>, any number of times and in any order, or never; what arrives at \<open>A\<close> is not restricted at all.\<close>

definition opened :: "u32 \<Rightarrow> tcp_pcb \<Rightarrow> 'a netw_scheme \<Rightarrow> tcp_pcb \<Rightarrow> bool" where
  "opened base A wA B \<longleftrightarrow>
     tp_state A = ESTABLISHED \<and> rb_head (tp_tx A) < TCP_TX_BUF_SIZE \<and> rb_count (tp_tx A) = 0 \<and> \<not> tp_fin_queued A \<and> \<not> tp_fin_sent A \<and>
     tp_snd_una A = base \<and> tp_snd_nxt A = base \<and>
     (\<forall>e \<in> set (wire wA). seg_data (snd e) = [] \<and> seg_flags (snd e) AND TCP_FLAG_FIN = 0) \<and>
     tp_state B = ESTABLISHED \<and> rb_head (tp_rx B) < TCP_RX_BUF_SIZE \<and> rb_count (tp_rx B) = 0 \<and> \<not> tp_rx_fin B \<and> tp_rcv_nxt B = base"

text \<open>What a control block does besides writing, reading and taking segments.\<close>

inductive own_step :: "tcp_pcb \<Rightarrow> 'a netw_scheme \<Rightarrow> tcp_pcb \<Rightarrow> 'a netw_scheme \<Rightarrow> bool" where
  shut: "shutdown_write_pcb p w = (p', w') \<Longrightarrow> own_step p w p' w'"
| timer: "timer_pcb now p w = (p', w') \<Longrightarrow> own_step p w p' w'"
| expire: "own_step p w (expire_time_wait now p) w"

inductive tcp_conn :: "u32 \<Rightarrow> u8 list \<Rightarrow> tcp_pcb \<Rightarrow> 'a netw_scheme \<Rightarrow> u8 list \<Rightarrow> tcp_pcb \<Rightarrow> 'a netw_scheme \<Rightarrow> bool" for base where
  start: "opened base A wA B \<Longrightarrow> tcp_conn base [] A wA [] B wB"
| a_write: "tcp_conn base S A wA D B wB \<Longrightarrow> send_loop blocking buf written A wA = Some (r, A', wA') \<Longrightarrow> written \<le> length buf \<Longrightarrow>
    length buf < 2 ^ 32 \<Longrightarrow> tcp_conn base (S @ take (write_upto written r - written) (drop written buf)) A' wA' D B wB"
| a_read: "tcp_conn base S A wA D B wB \<Longrightarrow> tcp_recv_pcb len blocking A wA = Done (n, bs, A', wA') \<Longrightarrow> tcp_conn base S A' wA' D B wB"
| a_input: "tcp_conn base S A wA D B wB \<Longrightarrow> pcb_input src_ip th data A wA = (A', wA') \<Longrightarrow> tcp_conn base S A' wA' D B wB"
| a_own: "tcp_conn base S A wA D B wB \<Longrightarrow> own_step A wA A' wA' \<Longrightarrow> tcp_conn base S A' wA' D B wB"
| b_write: "tcp_conn base S A wA D B wB \<Longrightarrow> send_loop blocking buf written B wB = Some (r, B', wB') \<Longrightarrow> tcp_conn base S A wA D B' wB'"
| b_read: "tcp_conn base S A wA D B wB \<Longrightarrow> tcp_recv_pcb len blocking B wB = Done (n, bs, B', wB') \<Longrightarrow> tcp_conn base S A wA (D @ bs) B' wB'"
| b_input: "tcp_conn base S A wA D B wB \<Longrightarrow> (dst_ip, b) \<in> set (wire wA) \<Longrightarrow>
    pcb_input src_ip (tcp_header_of b) (seg_data b) B wB = (B', wB') \<Longrightarrow> tcp_conn base S A wA D B' wB'"
| b_own: "tcp_conn base S A wA D B wB \<Longrightarrow> own_step B wB B' wB' \<Longrightarrow> tcp_conn base S A wA D B' wB'"

lemma own_step_out:
  "own_step p w p' w' \<Longrightarrow> out_inv base S p w \<Longrightarrow> handshake_done (tp_state p) \<Longrightarrow>
    out_inv base S p' w' \<and> handshake_done (tp_state p') \<and> (tp_fin_queued p \<longrightarrow> tp_fin_queued p')"
proof (induction rule: own_step.induct)
  case (shut p w p' w')
  then show ?case using shutdown_write_out [OF _ shut(1)] handshake_shutdown [OF _ shut(1)] by blast
next
  case (timer now p w p' w')
  then show ?case using timer_out [OF _ _ _ timer(1)] handshake_timer [OF _ timer(1)] handshake_not_syn by blast
next
  case (expire p w now)
  then show ?case using expire_out handshake_expire by blast
qed

lemma own_step_rcv: "own_step p w p' w' \<Longrightarrow> rcv_inv base S fin D p \<Longrightarrow> rcv_inv base S fin D p'"
  by (induction rule: own_step.induct) (auto intro: shutdown_rcv timer_rcv expire_rcv)

lemma send_loop_fin: "tp_fin_queued p \<Longrightarrow> send_loop blocking buf written p w = Some (r, p', w') \<Longrightarrow> p' = p \<and> w' = w \<and> write_upto written r = written"
  by (subst (asm) send_loop.simps) (auto simp: Let_def split: if_splits)

lemma opened_inv:
  assumes "opened base A wA B"
  shows "out_inv base [] A wA \<and> handshake_done (tp_state A) \<and> rcv_inv base [] (tp_fin_queued A) [] B"
  using assms by (auto simp: opened_def out_inv_def snd_inv_def sent_ok_def rcv_inv_def in_flight_def ring_ok_def ring_contents_def handshake_done_def receiving_def)

lemma tcp_conn_inv:
  "tcp_conn base S A wA D B wB \<Longrightarrow> length S < 2 ^ 31 \<Longrightarrow>
    out_inv base S A wA \<and> handshake_done (tp_state A) \<and> rcv_inv base S (tp_fin_queued A) D B"
proof (induction rule: tcp_conn.induct)
  case (start A wA B wB)
  then show ?case using opened_inv by blast
next
  case (a_write S A wA D B wB blocking buf written r A' wA')
  let ?bs = "take (write_upto written r - written) (drop written buf)"
  have I: "out_inv base S A wA" "handshake_done (tp_state A)" "rcv_inv base S (tp_fin_queued A) D B" using a_write.IH a_write.prems by simp_all
  have o: "out_inv base (S @ ?bs) A' wA'" using send_loop_out [OF a_write.hyps(2) I(1) a_write.hyps(3,4)] by blast
  have h: "handshake_done (tp_state A')" using handshake_view [OF _ I(2)] rview_send_loop [OF a_write.hyps(2)] by simp
  show ?case
  proof (cases "tp_fin_queued A")
    case True
    then show ?thesis using send_loop_fin [OF True a_write.hyps(2)] I by simp
  next
    case False
    then show ?thesis using o h rcv_inv_append [of base S D B] I(3) by simp
  qed
next
  case (a_read S A wA D B wB len blocking n bs A' wA')
  then show ?case using recv_out [OF _ a_read.hyps(2)] handshake_recv [OF _ a_read.hyps(2)] by simp
next
  case (a_input S A wA D B wB src_ip th data A' wA')
  then show ?case using pcb_input_out [OF _ _ a_input.hyps(2)] handshake_input [OF _ a_input.hyps(2)] handshake_not_syn(1) by simp
next
  case (a_own S A wA D B wB A' wA')
  then show ?case using own_step_out [of A wA A' wA' base S] rcv_inv_fin by blast
next
  case (b_write S A wA D B wB blocking buf written r B' wB')
  have "rview B' = rview B" using rview_send_loop [OF b_write.hyps(2)] by simp
  from rcv_inv_view [OF this] show ?case using b_write.IH b_write.prems by simp
next
  case (b_read S A wA D B wB len blocking n bs B' wB')
  then show ?case using recv_rcv by blast
next
  case (b_input S A wA D B wB dst_ip b src_ip B' wB')
  have I: "out_inv base S A wA" "rcv_inv base S (tp_fin_queued A) D B" using b_input.IH b_input.prems by simp_all
  have "sent_ok base S (tp_fin_queued A) b" using I(1) b_input.hyps(2) by (force simp: out_inv_def)
  then show ?case using pcb_input_rcv [OF I(2) b_input.prems _ b_input.hyps(3)] b_input.IH b_input.prems by blast
next
  case (b_own S A wA D B wB B' wB')
  then show ?case using own_step_rcv by blast
qed

end
