(* ===== verification/Tcp_Props.thy ===== *)
theory Tcp_Props
  imports Tcp_Stream
begin

text \<open>
  What TCP promises to its users: the properties of the byte stream that follow from the invariant of \<open>Tcp_Stream\<close>, and what the receive path
  does with the segments that the other side has built.
\<close>

section \<open>The byte stream\<close>

text \<open>C9. In whatever order the segments of a connection are sent, lost, delayed, repeated and swapped, and whatever arrives at the sender: the
  bytes that the receiver has handed out, followed by those in its buffer, are a prefix of the bytes that the sender has accepted. When the
  receiver has seen the FIN, they are all of them and the sender has closed its side. The sequence numbers must not have gone half way around.\<close>

theorem tcp_stream_prefix:
  assumes "tcp_conn base S A wA D B wB" "length S < 2 ^ 31"
  shows "\<exists>rest. S = D @ ring_contents TCP_RX_BUF_SIZE (tp_rx B) @ rest \<and> (tp_rx_fin B \<longrightarrow> rest = [] \<and> tp_fin_queued A)"
proof -
  have "rcv_inv base S (tp_fin_queued A) D B" using tcp_conn_inv [OF assms] by blast
  then obtain r where "r \<le> length S" "D @ rx_bytes B = take r S" "tp_rx_fin B \<Longrightarrow> r = length S \<and> tp_fin_queued A"
    by (auto simp: rcv_inv_def split: if_splits)
  then have "S = D @ rx_bytes B @ drop r S" "tp_rx_fin B \<longrightarrow> drop r S = [] \<and> tp_fin_queued A"
    by (metis append_assoc append_take_drop_id, simp)
  then show ?thesis by blast
qed

text \<open>A connection on which the sender writes three bytes and the receiver has read one of them.\<close>

definition idle_pcb :: "u32 \<Rightarrow> u32 \<Rightarrow> tcp_pcb" where
  "idle_pcb nxt rcv = (fresh_pcb (\<lambda>_. 0) (\<lambda>_. 0))\<lparr>tp_state := ESTABLISHED, tp_local_ip := 1, tp_remote_ip := 2, tp_local_port := 80, tp_remote_port := 5000,
     tp_snd_una := nxt, tp_snd_nxt := nxt, tp_iss := nxt - 1, tp_rcv_nxt := rcv, tp_irs := rcv - 1\<rparr>"

definition idle_net :: netw where
  "idle_net = \<lparr>uptime = (\<lambda>_. 5), ticks = 0, nif_up = True, nif_ip = 1, tsc = (\<lambda>_. 0), isns = 0, link_ok = (\<lambda>_. True), sends = 0, wire = []\<rparr>"

lemma idle_opened: "opened nxt (idle_pcb nxt rcv) idle_net (idle_pcb nxt' nxt)"
  by (simp add: opened_def idle_pcb_def idle_net_def fresh_pcb_def)

definition sample_bytes :: "u8 list" where "sample_bytes = [7, 8, 9]"

definition sample_seg :: "u8 list" where
  "sample_seg = (let th = segment_header (idle_pcb 100 500) (TCP_FLAG_ACK OR TCP_FLAG_PSH) 100 False
     in tcp_header_bytes (th\<lparr>th_checksum := transport_checksum 1 2 IP_PROTOCOL_TCP (tcp_header_bytes th) sample_bytes\<rparr>) @ sample_bytes)"

lemma sample_send:
  "tcp_send_segment ((idle_pcb 100 500)\<lparr>tp_tx := r\<rparr>) (TCP_FLAG_ACK OR TCP_FLAG_PSH) 100 sample_bytes False idle_net =
     (True, (idle_pcb 100 500)\<lparr>tp_tx := r\<rparr>, idle_net\<lparr>sends := 1, wire := [(2, sample_seg)]\<rparr>)"
proof -
  have h: "segment_header ((idle_pcb 100 500)\<lparr>tp_tx := r\<rparr>) f q m = segment_header (idle_pcb 100 500) f q m" for f q m
    by (simp add: segment_header_def rx_free_def idle_pcb_def fresh_pcb_def)
  show ?thesis unfolding tcp_send_segment_def h
    by (simp add: Let_def ip_carry_def sample_seg_def idle_net_def sample_bytes_def idle_pcb_def) (simp add: fresh_pcb_def)
qed

lemma sample_tx: "tx_bytes (tx_append (idle_pcb 100 500) sample_bytes) = sample_bytes"
  by (simp add: tx_append_def ring_put_contents ring_ok_def idle_pcb_def fresh_pcb_def sample_bytes_def) (simp add: ring_contents_def)

lemma sample_write:
  obtains A wA where "send_loop False sample_bytes 0 (idle_pcb 100 500) idle_net = Some (WDone 3, A, wA)" "wire wA = [(2, sample_seg)]"
proof -
  define p where "p = tx_append (idle_pcb 100 500) sample_bytes"
  have r: "p = (idle_pcb 100 500)\<lparr>tp_tx := tp_tx p\<rparr>" by (simp add: p_def tx_append_def)
  have c: "rb_count (tp_tx p) = 3" using arg_cong [OF sample_tx, of length] by (simp add: p_def sample_bytes_def)
  have f: "tp_state p = ESTABLISHED" "tp_snd_wnd p = 1460" "in_flight p = 0" "tp_snd_nxt p = 100" "tp_snd_una p = 100" "\<not> tp_fin_queued p"
    "tp_rto_deadline_ms p = 0" "tp_rto_ms p = 200"
    by (simp_all add: p_def tx_append_def idle_pcb_def fresh_pcb_def in_flight_def)
  have m: "may_push p" "next_chunk p = 3" by (simp_all add: may_push_def next_chunk_def f c)
  have rk: "ring_ok TCP_TX_BUF_SIZE (tp_tx p)" using ring_put_ok by (simp add: p_def tx_append_def idle_pcb_def fresh_pcb_def sample_bytes_def ring_ok_def ring_put_def Let_def)
  have "tx_peek p 0 3 = sample_bytes" using tx_peek_contents [OF rk, of 0 3] c sample_tx by (simp add: p_def [symmetric])
  then have s: "tcp_send_segment p (TCP_FLAG_ACK OR TCP_FLAG_PSH) (tp_snd_nxt p) (tx_peek p (unat (in_flight p)) (next_chunk p)) False idle_net =
      (True, p, idle_net\<lparr>sends := 1, wire := [(2, sample_seg)]\<rparr>)"
    using sample_send [of "tp_tx p"] r by (simp add: f m)
  obtain d where q: "tcp_start_rto (p\<lparr>tp_snd_nxt := 103\<rparr>) (idle_net\<lparr>sends := 1, wire := [(2, sample_seg)]\<rparr>) =
      (p\<lparr>tp_snd_nxt := 103, tp_rto_deadline_ms := d, tp_retries := 0\<rparr>, idle_net\<lparr>ticks := 1, sends := 1, wire := [(2, sample_seg)]\<rparr>)"
    by (simp add: tcp_start_rto_def pit_uptime_ms_def f idle_net_def)
  let ?A = "p\<lparr>tp_snd_nxt := 103, tp_rto_deadline_ms := d, tp_retries := 0\<rparr>" and ?w = "idle_net\<lparr>ticks := 1, sends := 1, wire := [(2, sample_seg)]\<rparr>"
  have "\<not> may_push ?A" using c f by (simp add: may_push_def in_flight_def)
  then have "output_loop p idle_net = (?A, ?w)" using m s q f by (subst output_loop.simps, simp) (subst output_loop.simps, simp)
  then have o: "tcp_output p idle_net = (?A, ?w)" using f by (simp add: tcp_output_def push_fin_def)
  have "send_loop False sample_bytes 0 (idle_pcb 100 500) idle_net = (case tcp_output p idle_net of (p, w) \<Rightarrow> send_loop False sample_bytes 3 p w)"
    by (subst send_loop.simps) (simp add: idle_pcb_def fresh_pcb_def sample_bytes_def p_def)
  also have "\<dots> = Some (WDone 3, ?A, ?w)" unfolding o by (simp, subst send_loop.simps) (simp add: sample_bytes_def)
  finally show thesis using that by simp
qed

lemma sample_receive:
  obtains B wB B' wB' where "pcb_input 1 (tcp_header_of sample_seg) (seg_data sample_seg) (idle_pcb 500 100) idle_net = (B, wB)"
    "tcp_recv_pcb 1 False B wB = Done (1, [7], B', wB')" "rx_bytes B' = [8, 9]"
proof -
  let ?b = "idle_pcb 500 100"
  define th where "th = tcp_header_of sample_seg"
  have h: "htonl (th_seq th) = 100" "th_flags th = TCP_FLAG_ACK OR TCP_FLAG_PSH" "htonl (th_ack th) = 500" "drop_bit 4 (th_offset_reserved th) = 5"
    unfolding th_def sample_seg_def Let_def tcp_header_roundtrip by (simp_all add: segment_header_def idle_pcb_def)
  have d: "seg_data sample_seg = sample_bytes" using h(4) by (simp add: seg_data_def hdr_len_def th_def) (simp add: sample_seg_def Let_def)
  define q where "q = take_data sample_bytes (?b\<lparr>tp_snd_wnd := htons (th_window th)\<rparr>)"
  obtain p4 w4 where 4: "send_ack q idle_net = (p4, w4)" by fastforce
  obtain B wB where 5: "tcp_output p4 w4 = (B, wB)" by fastforce
  have "take_ack (th_flags th) 500 (?b\<lparr>tp_snd_wnd := x\<rparr>) idle_net = (?b\<lparr>tp_snd_wnd := x\<rparr>, idle_net)" for x
    by (simp add: take_ack_def tcp_process_ack_def seq_leq_def idle_pcb_def fresh_pcb_def)
  moreover have "trim_segment (tp_rcv_nxt ?b) 100 sample_bytes = Some (100, sample_bytes)"
    by (simp add: trim_segment_def seq_lt_def seq_gt_def idle_pcb_def)
  moreover have "take_fin (th_flags th) 100 n q idle_net = (q, idle_net)" for n by (simp add: take_fin_def h(2))
  moreover have "own_fin_acked q idle_net = (q, idle_net)" by (simp add: own_fin_acked_def tcp_fin_acked_def q_def idle_pcb_def fresh_pcb_def)
  moreover have "tp_needs_ack q" by (simp add: q_def take_data_def Let_def sample_bytes_def idle_pcb_def fresh_pcb_def)
  ultimately have "synced_input th sample_bytes ?b idle_net = (B, wB)" using 4 5 by (simp add: synced_input_def h q_def)
  then have i: "pcb_input 1 th sample_bytes ?b idle_net = (B, wB)" by (simp add: pcb_input_def h(2) idle_pcb_def)
  have v: "rview B = rview q" using rview_output [OF 5] rview_send_ack [OF 4] by simp
  have q: "rb_buf (tp_rx q) 0 = 7" "rb_buf (tp_rx q) 1 = 8" "rb_buf (tp_rx q) 2 = 9" "rb_count (tp_rx q) = 3" "rb_head (tp_rx q) = 0"
    by (simp_all add: q_def take_data_def rx_append_def ring_put_def array_put_def rx_free_def Let_def sample_bytes_def idle_pcb_def fresh_pcb_def)
  show thesis
  proof (cases "tcp_recv_pcb 1 False B wB")
    case Blocked
    then show thesis using v q by (auto simp: tcp_recv_pcb_def rview_def Let_def split: prod.splits)
  next
    case (Done y)
    obtain n bs B' wB' where y: "y = (n, bs, B', wB')" by (cases y)
    have "n = 1 \<and> bs = [7] \<and> tp_rx B' = ring_advance TCP_RX_BUF_SIZE 1 (tp_rx q)"
      using Done y v q by (auto simp: tcp_recv_pcb_def rview_def Let_def ring_get_def ring_copy_out_def array_get_def split: prod.splits if_splits dest!: rview_send_ack)
    then show thesis using that [OF _ _ ] i d q Done y by (simp add: th_def ring_contents_def ring_advance_def numeral_2_eq_2)
  qed
qed

theorem tcp_stream_prefix_witness:
  "\<exists>A wA B (wB :: netw). tcp_conn 100 [7, 8, 9] A wA [7] B wB \<and> ring_contents TCP_RX_BUF_SIZE (tp_rx B) = [8, 9] \<and>
     (\<exists>rest. [7, 8, 9] = [7] @ ring_contents TCP_RX_BUF_SIZE (tp_rx B) @ rest)"
proof -
  obtain A wA where s: "send_loop False sample_bytes 0 (idle_pcb 100 500) idle_net = Some (WDone 3, A, wA)" "wire wA = [(2, sample_seg)]"
    by (rule sample_write)
  obtain B wB B' wB' where b: "pcb_input 1 (tcp_header_of sample_seg) (seg_data sample_seg) (idle_pcb 500 100) idle_net = (B, wB)"
    "tcp_recv_pcb 1 False B wB = Done (1, [7], B', wB')" "rx_bytes B' = [8, 9]" by (rule sample_receive)
  have "tcp_conn 100 [] (idle_pcb 100 500) idle_net [] (idle_pcb 500 100) idle_net" using idle_opened by (rule tcp_conn.start)
  from tcp_conn.a_write [OF this s(1)] have "tcp_conn 100 [7, 8, 9] A wA [] (idle_pcb 500 100) idle_net" by (simp add: sample_bytes_def)
  from tcp_conn.b_input [OF this _ b(1), of 2] have "tcp_conn 100 [7, 8, 9] A wA [] B wB" using s(2) by simp
  from tcp_conn.b_read [OF this b(2)] have c: "tcp_conn 100 [7, 8, 9] A wA [7] B' wB'" by simp
  have "\<exists>rest. [7, 8, 9] = [7] @ rx_bytes B' @ rest" using tcp_stream_prefix [OF c] by auto
  then show ?thesis using c b(3) by blast
qed

text \<open>C10. A read that reports the end of the stream does so only after it has delivered every byte that the sender has accepted, and only when the
  sender has closed its side: a connection that was reset or timed out is reported as an error instead.\<close>

theorem tcp_eof_complete:
  assumes "tcp_conn base S A wA D B wB" "length S < 2 ^ 31" "0 < len" "tcp_recv_pcb len blocking B wB = Done (0, bs, B', wB')"
  shows "D = S \<and> tp_fin_queued A \<and> bs = []"
proof -
  have I: "rcv_inv base S (tp_fin_queued A) D B" using tcp_conn_inv [OF assms(1,2)] by blast
  then have c: "receiving (tp_state B) \<or> tp_rx_fin B \<or> tp_reset B" by (simp add: rcv_inv_def)
  have e: "rb_count (tp_rx B) = 0" "bs = []" using assms(3,4) by (auto simp: tcp_recv_pcb_def Let_def split: if_splits prod.splits)
  have "tp_rx_fin B"
  proof (rule ccontr)
    assume n: "\<not> tp_rx_fin B"
    then have "\<not> tp_reset B" using assms(3,4) e by (auto simp: tcp_recv_pcb_def)
    then show False using assms(3,4) e n c by (auto simp: tcp_recv_pcb_def receiving_def split: if_splits)
  qed
  moreover have "rx_bytes B = []" using e(1) by (simp add: ring_contents_def)
  ultimately show ?thesis using I e by (auto simp: rcv_inv_def)
qed

definition sample_fin :: "u8 list" where
  "sample_fin = (let th = segment_header (idle_pcb 100 500) (TCP_FLAG_ACK OR TCP_FLAG_FIN) 100 False
     in tcp_header_bytes (th\<lparr>th_checksum := transport_checksum 1 2 IP_PROTOCOL_TCP (tcp_header_bytes th) []\<rparr>))"

lemma sample_shutdown:
  obtains A wA where "shutdown_write_pcb (idle_pcb 100 500) idle_net = (A, wA)" "wire wA = [(2, sample_fin)]" "tp_fin_queued A"
proof -
  define p where "p = (idle_pcb 100 500)\<lparr>tp_fin_queued := True, tp_state := FIN_WAIT1\<rparr>"
  have f: "tp_snd_nxt p = 100" "tp_snd_una p = 100" "rb_count (tp_tx p) = 0" "\<not> tp_fin_sent p" "tp_fin_queued p" "tp_rto_deadline_ms p = 0"
    "tp_local_ip p = 1" "tp_remote_ip p = 2" "tp_state p = FIN_WAIT1"
    by (simp_all add: p_def idle_pcb_def fresh_pcb_def)
  have h: "segment_header p f q m = segment_header (idle_pcb 100 500) f q m" for f q m
    by (simp add: p_def segment_header_def rx_free_def idle_pcb_def fresh_pcb_def)
  have s: "tcp_send_segment p (TCP_FLAG_ACK OR TCP_FLAG_FIN) 100 [] False idle_net = (True, p\<lparr>tp_needs_ack := False\<rparr>, idle_net\<lparr>sends := 1, wire := [(2, sample_fin)]\<rparr>)"
    unfolding tcp_send_segment_def h by (simp add: Let_def ip_carry_def sample_fin_def idle_net_def f)
  have "\<not> may_push p" by (simp add: may_push_def f)
  then have "output_loop p idle_net = (p, idle_net)" by (subst output_loop.simps) simp
  then have "tcp_output p idle_net = push_fin p idle_net" using f by (simp add: tcp_output_def)
  moreover have "push_fin p idle_net = tcp_start_rto (p\<lparr>tp_needs_ack := False, tp_snd_nxt := 101, tp_fin_sent := True\<rparr>) (idle_net\<lparr>sends := 1, wire := [(2, sample_fin)]\<rparr>)"
    using s f by (simp add: push_fin_def)
  moreover have "shutdown_write_pcb (idle_pcb 100 500) idle_net = tcp_output p idle_net"
    by (simp add: shutdown_write_pcb_def p_def) (simp add: idle_pcb_def fresh_pcb_def)
  ultimately have "shutdown_write_pcb (idle_pcb 100 500) idle_net = (A, wA) \<Longrightarrow> wire wA = [(2, sample_fin)] \<and> tp_fin_queued A" for A wA
    using f by (auto simp: tcp_start_rto_def pit_uptime_ms_def)
  then show thesis using that [OF prod.collapse [symmetric]] by (metis prod.collapse)
qed

lemma sample_fin_input:
  obtains B wB where "pcb_input 1 (tcp_header_of sample_fin) (seg_data sample_fin) (idle_pcb 500 100) idle_net = (B, wB)"
    "tcp_recv_pcb 5 False B wB = Done (0, [], B, wB)"
proof -
  let ?b = "idle_pcb 500 100"
  define th where "th = tcp_header_of sample_fin"
  have r: "tcp_header_of (tcp_header_bytes t) = t" for t using tcp_header_roundtrip [of t "[]"] by simp
  have h: "htonl (th_seq th) = 100" "th_flags th = TCP_FLAG_ACK OR TCP_FLAG_FIN" "htonl (th_ack th) = 500" "drop_bit 4 (th_offset_reserved th) = 5"
    unfolding th_def sample_fin_def Let_def r by (simp_all add: segment_header_def idle_pcb_def)
  have d: "seg_data sample_fin = []" using h(4) by (simp add: seg_data_def hdr_len_def th_def) (simp add: sample_fin_def Let_def)
  define q where "q = ?b\<lparr>tp_snd_wnd := htons (th_window th), tp_rcv_nxt := 101, tp_rx_fin := True, tp_needs_ack := True, tp_state := CLOSE_WAIT\<rparr>"
  obtain p4 w4 where 4: "send_ack q idle_net = (p4, w4)" by fastforce
  obtain B wB where 5: "tcp_output p4 w4 = (B, wB)" by fastforce
  have "take_ack (th_flags th) 500 (?b\<lparr>tp_snd_wnd := x\<rparr>) idle_net = (?b\<lparr>tp_snd_wnd := x\<rparr>, idle_net)" for x
    by (simp add: take_ack_def tcp_process_ack_def seq_leq_def idle_pcb_def fresh_pcb_def)
  moreover have "trim_segment (tp_rcv_nxt ?b) 100 [] = Some (100, [])"
    by (simp add: trim_segment_def seq_lt_def seq_gt_def idle_pcb_def)
  moreover have "take_fin (th_flags th) 100 0 (take_data [] (?b\<lparr>tp_snd_wnd := htons (th_window th)\<rparr>)) idle_net = (q, idle_net)"
    by (simp add: take_fin_def take_data_def h(2) q_def idle_pcb_def)
  moreover have "own_fin_acked q idle_net = (q, idle_net)" by (simp add: own_fin_acked_def tcp_fin_acked_def q_def idle_pcb_def fresh_pcb_def)
  moreover have "tp_needs_ack q" by (simp add: q_def)
  ultimately have "synced_input th [] ?b idle_net = (B, wB)" using 4 5 by (simp add: synced_input_def h)
  then have i: "pcb_input 1 th [] ?b idle_net = (B, wB)" by (simp add: pcb_input_def h(2) idle_pcb_def)
  have "rview B = rview q" using rview_output [OF 5] rview_send_ack [OF 4] by simp
  then have "tp_rx_fin B" "rb_count (tp_rx B) = 0" by (simp_all add: rview_def q_def idle_pcb_def fresh_pcb_def)
  then show thesis using that [of B wB] i d by (simp add: th_def tcp_recv_pcb_def)
qed

theorem tcp_eof_complete_witness:
  "\<exists>A wA B (wB :: netw). tcp_conn 100 [] A wA [] B wB \<and> tcp_recv_pcb 5 False B wB = Done (0, [], B, wB) \<and> tp_fin_queued A"
proof -
  obtain A wA where a: "shutdown_write_pcb (idle_pcb 100 500) idle_net = (A, wA)" "wire wA = [(2, sample_fin)]" "tp_fin_queued A" by (rule sample_shutdown)
  obtain B wB where b: "pcb_input 1 (tcp_header_of sample_fin) (seg_data sample_fin) (idle_pcb 500 100) idle_net = (B, wB)"
    "tcp_recv_pcb 5 False B wB = Done (0, [], B, wB)" by (rule sample_fin_input)
  have "tcp_conn 100 [] (idle_pcb 100 500) idle_net [] (idle_pcb 500 100) idle_net" using idle_opened by (rule tcp_conn.start)
  from tcp_conn.a_own [OF this own_step.shut [OF a(1)]] have "tcp_conn 100 [] A wA [] (idle_pcb 500 100) idle_net" .
  from tcp_conn.b_input [OF this _ b(1), of 2] have c: "tcp_conn 100 [] A wA [] B wB" using a(2) by simp
  have "tp_fin_queued A" using tcp_eof_complete [OF c _ _ b(2)] by simp
  then show ?thesis using c b(2) by blast
qed

section \<open>From one host to the other\<close>

lemma segment_built:
  assumes s: "tcp_send_segment p flags seq data mss w = (True, p', w')" and l: "tp_local_ip p \<noteq> 0"
  obtains b c where "wire w' = wire w @ [(tp_remote_ip p, b)]" "tcp_header_of b = (segment_header p flags seq mss)\<lparr>th_checksum := c\<rparr>" "seg_data b = data"
    "transport_checksum (tp_local_ip p) (tp_remote_ip p) IP_PROTOCOL_TCP b [] = 0" "hdr_len (tcp_header_of b) = (if mss then 24 else 20)"
    "length b = (if mss then 24 else 20) + length data" "length b \<le> IP_MAX_PAYLOAD"
proof -
  define th where "th = segment_header p flags seq mss"
  define opt where "opt = (if mss then mss_option else [])"
  define c where "c = transport_checksum (tp_local_ip p) (tp_remote_ip p) IP_PROTOCOL_TCP (tcp_header_bytes th @ opt) data"
  define b where "b = tcp_header_bytes (th\<lparr>th_checksum := c\<rparr>) @ opt @ data"
  have "ip_carry (tp_remote_ip p) (tcp_header_bytes (th\<lparr>th_checksum := c\<rparr>) @ opt) data w = (True, w')"
    using s l by (auto simp: tcp_send_segment_def Let_def th_def [symmetric] opt_def [symmetric] c_def [symmetric] split: prod.splits)
  then have w: "wire w' = wire w @ [(tp_remote_ip p, b)]" "length b \<le> IP_MAX_PAYLOAD" by (auto simp: ip_carry_def b_def split: if_splits)
  have h: "tcp_header_of b = th\<lparr>th_checksum := c\<rparr>" by (simp add: b_def)
  have o: "length opt = (if mss then 4 else 0)" by (simp add: opt_def)
  have hl: "hdr_len (th\<lparr>th_checksum := c\<rparr>) = (if mss then 24 else 20)" unfolding th_def by (rule hdr_len_segment)
  then have d: "seg_data b = data" using o by (simp add: seg_data_def h) (simp add: b_def opt_def)
  have lb: "length b = (if mss then 24 else 20) + length data" using o by (simp add: b_def)
  have "transport_checksum (tp_local_ip p) (tp_remote_ip p) IP_PROTOCOL_TCP b [] = 0"
    unfolding b_def c_def by (rule checksum_fills) (use o w(2) lb in \<open>simp_all add: th_def segment_header_def split: if_splits\<close>)
  then show thesis using that [OF w(1) _ d _ _ lb w(2)] h hl th_def by simp
qed

text \<open>C12. A segment that one side has built and the network carries unchanged passes every check of the receive path of the other side, and its data
  reaches the connection it is meant for.\<close>

theorem tcp_segment_accepted:
  assumes "tcp_send_segment p flags seq data mss w = (True, p', w')" "tp_local_ip p \<noteq> 0"
    "tcp_lookup (tp_local_ip p) (tp_local_port p) (tp_remote_port p) s = Some (Some a)" "get_pcb a s = Some q" "tp_state q \<noteq> LISTEN"
  shows "\<exists>b. wire w' = wire w @ [(tp_remote_ip p, b)] \<and> seg_flags b = flags \<and> seg_seq b = seq \<and> seg_data b = data \<and>
    tcp_input (tp_local_ip p) (tp_remote_ip p) b s = on_pcb a (pcb_input (tp_local_ip p) (tcp_header_of b) data) s"
proof -
  obtain b c where b: "wire w' = wire w @ [(tp_remote_ip p, b)]" "tcp_header_of b = (segment_header p flags seq mss)\<lparr>th_checksum := c\<rparr>" "seg_data b = data"
    "transport_checksum (tp_local_ip p) (tp_remote_ip p) IP_PROTOCOL_TCP b [] = 0" "hdr_len (tcp_header_of b) = (if mss then 24 else 20)"
    "length b = (if mss then 24 else 20) + length data" "length b \<le> IP_MAX_PAYLOAD"
    using segment_built [OF assms(1,2)] by metis
  have f: "seg_flags b = flags" "seg_seq b = seq" "htons (th_src_port (tcp_header_of b)) = tp_local_port p" "htons (th_dst_port (tcp_header_of b)) = tp_remote_port p"
    by (simp_all add: seg_flags_def seg_seq_def b(2)) (simp_all add: segment_header_def)
  have l: "\<not> length b < 20" "\<not> hdr_len (tcp_header_of b) < 20" "\<not> hdr_len (tcp_header_of b) > length b" using b(5,6) by simp_all
  have "tcp_input (tp_local_ip p) (tp_remote_ip p) b s = on_pcb a (pcb_input (tp_local_ip p) (tcp_header_of b) (seg_data b)) s"
    using l b(4) assms(3-5) f(3,4) by (simp add: tcp_input_def Let_def hdr_len_def [symmetric] seg_data_def)
  then show ?thesis using b(1,3) f by blast
qed

text \<open>C13. A segment of which one byte was changed on the way is dropped, wherever the byte lies: header, options or data.\<close>

theorem tcp_segment_corrupt:
  assumes "tcp_send_segment p flags seq data mss w = (True, p', w')" "tp_local_ip p \<noteq> 0"
  shows "\<exists>b. wire w' = wire w @ [(tp_remote_ip p, b)] \<and>
    (\<forall>i y. i < length b \<longrightarrow> y \<noteq> b ! i \<longrightarrow> tcp_input (tp_local_ip p) (tp_remote_ip p) (b[i := y]) s = Some s)"
proof -
  obtain b c where b: "wire w' = wire w @ [(tp_remote_ip p, b)]" "transport_checksum (tp_local_ip p) (tp_remote_ip p) IP_PROTOCOL_TCP b [] = 0" "length b \<le> IP_MAX_PAYLOAD"
    using segment_built [OF assms] by metis
  have "tcp_input (tp_local_ip p) (tp_remote_ip p) (b[i := y]) s = Some s" if "i < length b" "y \<noteq> b ! i" for i y
    using one_byte_detected [OF b(2) _ that] b(3) by (simp add: tcp_input_def Let_def)
  then show ?thesis using b(1) by blast
qed

text \<open>A table with one established connection, back to the one of \<open>idle_pcb\<close>.\<close>

definition sample_table :: tcp where
  "sample_table = \<lparr>uptime = (\<lambda>_. 5), ticks = 0, nif_up = True, nif_ip = 2, tsc = (\<lambda>_. 0), isns = 0, link_ok = (\<lambda>_. True), sends = 0, wire = [],
     t_pcbs = None # Some 9 # replicate 62 None,
     t_heap = [9 \<mapsto> (idle_pcb 500 100)\<lparr>tp_local_ip := 2, tp_remote_ip := 1, tp_local_port := 5000, tp_remote_port := 80\<rparr>],
     t_next_port = 49152, t_oom = (\<lambda>_. False), t_next = 10, t_junk = (\<lambda>_ _. 0)\<rparr>"

lemma sample_lookup: "tcp_lookup 1 80 5000 sample_table = Some (Some 9)" "get_pcb 9 sample_table = Some ((idle_pcb 500 100)\<lparr>tp_local_ip := 2, tp_remote_ip := 1, tp_local_port := 5000, tp_remote_port := 80\<rparr>)"
  by (simp_all add: tcp_lookup_def sample_table_def get_pcb_def idle_pcb_def)

lemma sample_sent: "\<exists>w'. tcp_send_segment (idle_pcb 100 500) (TCP_FLAG_ACK OR TCP_FLAG_PSH) 100 sample_bytes False idle_net = (True, idle_pcb 100 500, w')"
  using sample_send [of "tp_tx (idle_pcb 100 500)"] by simp

theorem tcp_segment_accepted_witness:
  "\<exists>b. seg_data b = [7, 8, 9] \<and> tcp_input 1 2 b sample_table = on_pcb 9 (pcb_input 1 (tcp_header_of b) [7, 8, 9]) sample_table"
proof -
  obtain w' where s: "tcp_send_segment (idle_pcb 100 500) (TCP_FLAG_ACK OR TCP_FLAG_PSH) 100 sample_bytes False idle_net = (True, idle_pcb 100 500, w')"
    using sample_sent by blast
  have f: "tp_local_ip (idle_pcb 100 500) = 1" "tp_local_port (idle_pcb 100 500) = 80" "tp_remote_port (idle_pcb 100 500) = 5000" "tp_remote_ip (idle_pcb 100 500) = 2"
    "tp_state ((idle_pcb 500 100)\<lparr>tp_local_ip := 2, tp_remote_ip := 1, tp_local_port := 5000, tp_remote_port := 80\<rparr>) \<noteq> LISTEN"
    by (simp_all add: idle_pcb_def)
  show ?thesis using tcp_segment_accepted [OF s, of sample_table 9, unfolded f(1-4), OF _ sample_lookup f(5)] by (auto simp: sample_bytes_def)
qed

theorem tcp_segment_corrupt_witness:
  "\<exists>b. length b = 23 \<and> tcp_input 1 2 (b[20 := b ! 20 + 1]) sample_table = Some sample_table"
proof -
  obtain w' where s: "tcp_send_segment (idle_pcb 100 500) (TCP_FLAG_ACK OR TCP_FLAG_PSH) 100 sample_bytes False idle_net = (True, idle_pcb 100 500, w')"
    using sample_sent by blast
  have f: "tp_local_ip (idle_pcb 100 500) = 1" "tp_remote_ip (idle_pcb 100 500) = 2" by (simp_all add: idle_pcb_def)
  obtain b where b: "wire w' = wire idle_net @ [(2, b)]" "\<forall>i y. i < length b \<longrightarrow> y \<noteq> b ! i \<longrightarrow> tcp_input 1 2 (b[i := y]) sample_table = Some sample_table"
    using tcp_segment_corrupt [OF s, of sample_table, unfolded f] by auto
  obtain b' where "wire w' = wire idle_net @ [(2, b')]" "length b' = 23"
    using segment_built [OF s, unfolded f] by (auto simp: sample_bytes_def)
  then show ?thesis using b by auto
qed

section \<open>Writing returns\<close>

lemma send_loop_returns: "length buf < 2 ^ 32 \<Longrightarrow> \<exists>y. send_loop blocking buf written p w = Some y"
proof (induction "length buf - written" arbitrary: written p w rule: less_induct)
  case less
  show ?case
  proof (cases "written < length buf \<and> \<not> tp_reset p \<and> (tp_state p = ESTABLISHED \<or> tp_state p = CLOSE_WAIT) \<and> \<not> tp_fin_queued p \<and> TCP_TX_BUF_SIZE - rb_count (tp_tx p) \<noteq> 0")
    case False
    then show ?thesis by (subst send_loop.simps) (auto simp: Let_def split: prod.splits)
  next
    case True
    let ?space = "TCP_TX_BUF_SIZE - rb_count (tp_tx p)"
    define n where "n = (if length buf - written > ?space then ?space else length buf - written)"
    have m: "(length buf - written) mod 4294967296 = length buf - written" using less.prems by simp
    obtain p1 w1 where o: "tcp_output (tx_append p (take n (drop written buf))) w = (p1, w1)" by fastforce
    have "send_loop blocking buf written p w = send_loop blocking buf (written + n) p1 w1"
      using True o by (subst send_loop.simps) (auto simp: Let_def n_def m)
    moreover have "length buf - (written + n) < length buf - written" using True by (auto simp: n_def)
    ultimately show ?thesis using less.hyps less.prems by metis
  qed
qed

text \<open>A call that writes fewer than \<open>2 ^ 32\<close> bytes returns, or stops to wait for room in the buffer.\<close>

theorem tcp_send_returns:
  assumes "get_pcb a s = Some p" "length buf < 2 ^ 32"
  shows "\<exists>r s'. tcp_send (Some a) buf written blocking s = Some (r, s')"
proof -
  obtain r p' s' where "send_loop blocking buf written p s = Some (r, p', s')" using send_loop_returns [OF assms(2)] by (metis prod_cases3)
  then show ?thesis using assms(1) by (simp add: tcp_send_def)
qed

theorem tcp_send_returns_witness: "\<exists>r s'. tcp_send (Some 9) [1, 2] 0 True sample_table = Some (r, s')"
  by (rule tcp_send_returns [OF sample_lookup(2)]) simp

section \<open>The handshake\<close>

lemma segment_out:
  assumes "nif_up w" "\<forall>k. link_ok w k" "length data \<le> TCP_MSS - 4"
  obtains b c where "tcp_send_segment p flags seq data mss w = (True, p\<lparr>tp_needs_ack := False\<rparr>, w\<lparr>sends := Suc (sends w), wire := wire w @ [(tp_remote_ip p, b)]\<rparr>)"
    "tcp_header_of b = (segment_header p flags seq mss)\<lparr>th_checksum := c\<rparr>" "seg_data b = data" "seg_flags b = flags"
proof -
  define th where "th = segment_header p flags seq mss"
  define opt where "opt = (if mss then mss_option else [])"
  define c where "c = transport_checksum (if tp_local_ip p \<noteq> 0 then tp_local_ip p else nif_ip w) (tp_remote_ip p) IP_PROTOCOL_TCP (tcp_header_bytes th @ opt) data"
  define b where "b = tcp_header_bytes (th\<lparr>th_checksum := c\<rparr>) @ opt @ data"
  have o: "length opt \<le> 4" by (simp add: opt_def)
  have "ip_carry (tp_remote_ip p) (tcp_header_bytes (th\<lparr>th_checksum := c\<rparr>) @ opt) data w = (True, w\<lparr>sends := Suc (sends w), wire := wire w @ [(tp_remote_ip p, b)]\<rparr>)"
    using assms o by (simp add: ip_carry_def b_def)
  then have s: "tcp_send_segment p flags seq data mss w = (True, p\<lparr>tp_needs_ack := False\<rparr>, w\<lparr>sends := Suc (sends w), wire := wire w @ [(tp_remote_ip p, b)]\<rparr>)"
    by (simp add: tcp_send_segment_def Let_def th_def [symmetric] opt_def [symmetric] c_def [symmetric])
  have h: "tcp_header_of b = th\<lparr>th_checksum := c\<rparr>" by (simp add: b_def)
  have "hdr_len (th\<lparr>th_checksum := c\<rparr>) = 20 + length opt" unfolding th_def hdr_len_segment by (simp add: opt_def)
  then have d: "seg_data b = data" by (simp add: seg_data_def h) (simp add: b_def)
  have "seg_flags b = flags" by (simp add: seg_flags_def h th_def segment_header_def)
  then show thesis using that [OF s] d h th_def by simp
qed

text \<open>A new control block, a connection request, and the answer to it.\<close>

definition fresh_rings :: "tcp_pcb \<Rightarrow> bool" where
  "fresh_rings p \<longleftrightarrow> rb_head (tp_rx p) = 0 \<and> rb_count (tp_rx p) = 0 \<and> rb_head (tp_tx p) = 0 \<and> rb_count (tp_tx p) = 0 \<and>
     \<not> tp_fin_queued p \<and> \<not> tp_fin_sent p \<and> \<not> tp_rx_fin p \<and> \<not> tp_needs_ack p"

definition quiet :: "u8 list \<Rightarrow> bool" where
  "quiet b \<longleftrightarrow> seg_data b = [] \<and> seg_flags b AND TCP_FLAG_FIN = 0"

lemma connect_sends_syn:
  assumes w: "nif_up w" "\<forall>k. link_ok w k" "wire w = []" and p: "fresh_rings p"
  obtains A w1 b isn where "connect_pcb dst_ip dst_port p w = (True, A, w1)" "wire w1 = [(dst_ip, b)]" "quiet b"
    "nif_up w1" "\<forall>k. link_ok w1 k" "nif_ip w1 = nif_ip w"
    "fresh_rings A" "tp_state A = SYN_SENT" "tp_iss A = isn" "tp_snd_una A = isn" "tp_snd_nxt A = isn + 1" "tp_remote_ip A = dst_ip"
    "th_flags (tcp_header_of b) = TCP_FLAG_SYN" "htonl (th_seq (tcp_header_of b)) = isn"
proof -
  obtain isn w0 where i: "tcp_isn w = (isn, w0)" by fastforce
  have w0: "nif_up w0" "\<forall>k. link_ok w0 k" "wire w0 = []" "nif_ip w0 = nif_ip w" using i w by (auto simp: tcp_isn_def pit_uptime_ms_def)
  define q where "q = p\<lparr>tp_local_ip := nif_ip w0, tp_remote_ip := dst_ip, tp_remote_port := dst_port, tp_iss := isn, tp_snd_una := isn, tp_snd_nxt := isn,
    tp_rcv_nxt := 0, tp_state := SYN_SENT\<rparr>"
  obtain b c where b: "tcp_send_segment q TCP_FLAG_SYN isn [] True w0 = (True, q\<lparr>tp_needs_ack := False\<rparr>, w0\<lparr>sends := Suc (sends w0), wire := wire w0 @ [(tp_remote_ip q, b)]\<rparr>)"
    "tcp_header_of b = (segment_header q TCP_FLAG_SYN isn True)\<lparr>th_checksum := c\<rparr>" "seg_data b = []" "seg_flags b = TCP_FLAG_SYN"
    using segment_out [OF w0(1,2), of "[]"] by (metis list.size(3) zero_le)
  obtain A w1 where r: "tcp_start_rto (q\<lparr>tp_needs_ack := False, tp_snd_nxt := isn + 1\<rparr>) (w0\<lparr>sends := Suc (sends w0), wire := [(dst_ip, b)]\<rparr>) = (A, w1)" by fastforce
  obtain d k where A: "A = q\<lparr>tp_needs_ack := False, tp_snd_nxt := isn + 1, tp_rto_deadline_ms := d, tp_retries := k\<rparr>" using tcp_start_rto_pcb [OF r] by blast
  have w1: "wire w1 = [(dst_ip, b)]" "nif_up w1" "\<forall>k. link_ok w1 k" "nif_ip w1 = nif_ip w"
    using r w0 by (auto simp: tcp_start_rto_def pit_uptime_ms_def split: if_splits)
  have "connect_pcb dst_ip dst_port p w = (True, A, w1)"
    using b(1) r by (simp add: connect_pcb_def i q_def [symmetric]) (simp add: q_def w0)
  then show thesis using w1 b p that [of A w1 b isn]
    by (simp add: quiet_def) (simp add: A q_def fresh_rings_def segment_header_def)
qed

lemma pcb_new_ok:
  fixes s :: "'a tcp_scheme"
  assumes "scan (\<lambda>i. t_pcbs s ! i = None) 0 TCP_PCB_MAX = Some slot" "\<forall>k. \<not> t_oom s k"
  shows "tcp_pcb_new s = (Some (t_next s), s\<lparr>t_next := t_next s + 3, t_pcbs := (t_pcbs s)[slot := Some (t_next s)],
    t_heap := (t_heap s)(t_next s \<mapsto> fresh_pcb (t_junk s (t_next s + 1)) (t_junk s (t_next s + 2)))\<rparr>)"
  using assms by (simp add: tcp_pcb_new_def t_alloc_def set_pcb_def numeral_2_eq_2 numeral_3_eq_3)

lemma listen_answers:
  fixes s :: "'a tcp_scheme"
  assumes s: "nif_up s" "\<forall>k. link_ok s k" "wire s = []" and new: "scan (\<lambda>i. t_pcbs s ! i = None) 0 TCP_PCB_MAX = Some slot" "\<forall>k. \<not> t_oom s k"
    and l: "get_pcb l s = Some lp" "l < t_next s" "int (length (tp_backlog lp)) < tp_backlog_max lp" and th: "th_flags th = TCP_FLAG_SYN"
  obtains s1 C b isn where "tcp_listen_input l src_ip th s = Some s1" "wire s1 = [(src_ip, b)]" "quiet b" "nif_up s1" "\<forall>k. link_ok s1 k"
    "get_pcb (t_next s) s1 = Some C" "get_pcb l s1 = Some (lp\<lparr>tp_backlog := tp_backlog lp @ [t_next s]\<rparr>)"
    "fresh_rings C" "tp_state C = SYN_RCVD" "tp_iss C = isn" "tp_snd_una C = isn" "tp_snd_nxt C = isn + 1" "tp_rcv_nxt C = htonl (th_seq th) + 1" "tp_remote_ip C = src_ip"
    "th_flags (tcp_header_of b) = TCP_FLAG_SYN OR TCP_FLAG_ACK" "htonl (th_seq (tcp_header_of b)) = isn" "htonl (th_ack (tcp_header_of b)) = htonl (th_seq th) + 1"
proof -
  let ?c = "t_next s"
  define child where "child = fresh_pcb (t_junk s (t_next s + 1)) (t_junk s (t_next s + 2))"
  define s0 where "s0 = s\<lparr>t_next := t_next s + 3, t_pcbs := (t_pcbs s)[slot := Some (t_next s)], t_heap := (t_heap s)(?c \<mapsto> child)\<rparr>"
  have n: "tcp_pcb_new s = (Some ?c, s0)" using pcb_new_ok [OF new] by (simp add: s0_def child_def)
  obtain isn s2 where i: "tcp_isn s0 = (isn, s2)" by fastforce
  have s2: "nif_up s2" "\<forall>k. link_ok s2 k" "wire s2 = []" "t_heap s2 = (t_heap s)(?c \<mapsto> child)" using i s by (auto simp: tcp_isn_def pit_uptime_ms_def s0_def)
  define q where "q = child\<lparr>tp_local_ip := nif_ip s2, tp_local_port := tp_local_port lp, tp_remote_ip := src_ip, tp_remote_port := htons (th_src_port th),
    tp_irs := htonl (th_seq th), tp_rcv_nxt := htonl (th_seq th) + 1, tp_iss := isn, tp_snd_una := isn, tp_snd_nxt := isn,
    tp_snd_wnd := htons (th_window th), tp_state := SYN_RCVD, tp_parent := Some l\<rparr>"
  obtain b c where b: "tcp_send_segment q (TCP_FLAG_SYN OR TCP_FLAG_ACK) isn [] True s2 = (True, q\<lparr>tp_needs_ack := False\<rparr>, s2\<lparr>sends := Suc (sends s2), wire := wire s2 @ [(tp_remote_ip q, b)]\<rparr>)"
    "tcp_header_of b = (segment_header q (TCP_FLAG_SYN OR TCP_FLAG_ACK) isn True)\<lparr>th_checksum := c\<rparr>" "seg_data b = []" "seg_flags b = TCP_FLAG_SYN OR TCP_FLAG_ACK"
    using segment_out [OF s2(1,2), of "[]"] by (metis list.size(3) zero_le)
  let ?s3 = "s2\<lparr>sends := Suc (sends s2), wire := [(src_ip, b)]\<rparr>"
  obtain C s4 where r: "tcp_start_rto (q\<lparr>tp_needs_ack := False, tp_snd_nxt := isn + 1\<rparr>) ?s3 = (C, s4)" by fastforce
  obtain d k where C: "C = q\<lparr>tp_needs_ack := False, tp_snd_nxt := isn + 1, tp_rto_deadline_ms := d, tp_retries := k\<rparr>" using tcp_start_rto_pcb [OF r] by blast
  have s4: "wire s4 = [(src_ip, b)]" "nif_up s4" "\<forall>k. link_ok s4 k" "t_heap s4 = (t_heap s)(?c \<mapsto> child)"
    using r s2 by (auto simp: tcp_start_rto_def pit_uptime_ms_def split: if_splits)
  let ?s5 = "set_pcb l (lp\<lparr>tp_backlog := tp_backlog lp @ [?c]\<rparr>) (set_pcb ?c C s4)"
  have nc: "l \<noteq> ?c" using l(2) by simp
  have "tcp_listen_input l src_ip th s = Some ?s5"
    using l(1,3) nc n i b(1) r s4(4) th
    by (simp add: tcp_listen_input_def get_pcb_def s0_def child_def [symmetric] q_def [symmetric] on_pcb_def set_pcb_def)
      (simp add: q_def s2)
  moreover have "get_pcb ?c ?s5 = Some C" "get_pcb l ?s5 = Some (lp\<lparr>tp_backlog := tp_backlog lp @ [?c]\<rparr>)" using nc by (simp_all add: get_pcb_def set_pcb_def)
  moreover have "wire ?s5 = [(src_ip, b)]" "nif_up ?s5" "\<forall>k. link_ok ?s5 k" using s4 by (simp_all add: set_pcb_def)
  ultimately show thesis using b that [of ?s5 b C isn]
    by (simp add: quiet_def) (simp add: C q_def child_def fresh_pcb_def fresh_rings_def segment_header_def)
qed

definition idle :: "tcp_pcb \<Rightarrow> u32 \<Rightarrow> u32 \<Rightarrow> bool" where
  "idle p nxt rcv \<longleftrightarrow> fresh_rings p \<and> tp_state p = ESTABLISHED \<and> tp_snd_una p = nxt \<and> tp_snd_nxt p = nxt \<and> tp_rcv_nxt p = rcv"

lemma synack_opens:
  assumes w: "nif_up w" "\<forall>k. link_ok w k" and A: "fresh_rings A" "tp_state A = SYN_SENT" "tp_snd_nxt A = isn + 1"
    and th: "th_flags th = TCP_FLAG_SYN OR TCP_FLAG_ACK" "htonl (th_ack th) = isn + 1"
  obtains A' w' b where "pcb_input src_ip th data A w = (A', w')" "idle A' (isn + 1) (htonl (th_seq th) + 1)" "tp_iss A' = tp_iss A"
    "wire w' = wire w @ [(tp_remote_ip A, b)]" "quiet b" "th_flags (tcp_header_of b) = TCP_FLAG_ACK"
    "htonl (th_seq (tcp_header_of b)) = isn + 1" "htonl (th_ack (tcp_header_of b)) = htonl (th_seq th) + 1"
proof -
  define q where "q = A\<lparr>tp_irs := htonl (th_seq th), tp_rcv_nxt := htonl (th_seq th) + 1, tp_snd_una := isn + 1, tp_snd_wnd := htons (th_window th),
    tp_rto_deadline_ms := 0, tp_state := ESTABLISHED\<rparr>"
  obtain b c where b: "tcp_send_segment q TCP_FLAG_ACK (tp_snd_nxt q) [] False w = (True, q\<lparr>tp_needs_ack := False\<rparr>, w\<lparr>sends := Suc (sends w), wire := wire w @ [(tp_remote_ip q, b)]\<rparr>)"
    "tcp_header_of b = (segment_header q TCP_FLAG_ACK (tp_snd_nxt q) False)\<lparr>th_checksum := c\<rparr>" "seg_data b = []" "seg_flags b = TCP_FLAG_ACK"
    using segment_out [OF w, of "[]"] by (metis list.size(3) zero_le)
  have "pcb_input src_ip th data A w = send_ack q w" using A th by (simp add: pcb_input_def syn_sent_input_def q_def)
  then have "pcb_input src_ip th data A w = (q\<lparr>tp_needs_ack := False\<rparr>, w\<lparr>sends := Suc (sends w), wire := wire w @ [(tp_remote_ip q, b)]\<rparr>)"
    using b(1) by (simp add: send_ack_def)
  then show thesis using that b A by (simp add: quiet_def) (simp add: q_def idle_def fresh_rings_def segment_header_def)
qed

lemma ack_opens:
  fixes w :: "'a netw_scheme"
  assumes C: "fresh_rings C" "tp_state C = SYN_RCVD" "tp_iss C = isn" "tp_snd_una C = isn" "tp_snd_nxt C = isn + 1"
    and th: "th_flags th = TCP_FLAG_ACK" "htonl (th_ack th) = isn + 1" "htonl (th_seq th) = tp_rcv_nxt C"
  obtains C' where "pcb_input src_ip th [] C w = (C', w)" "idle C' (isn + 1) (tp_rcv_nxt C)" "tp_iss C' = isn"
proof -
  let ?p = "C\<lparr>tp_snd_wnd := htons (th_window th)\<rparr>"
  define q where "q = (tx_consume ?p 0)\<lparr>tp_snd_una := isn + 1, tp_retries := 0, tp_rto_ms := TCP_RTO_MIN_MS, tp_rto_deadline_ms := 0, tp_state := ESTABLISHED\<rparr>"
  have t: "trim_segment (tp_rcv_nxt C) (htonl (th_seq th)) [] = Some (tp_rcv_nxt C, [])" by (simp add: trim_segment_def th seq_lt_def seq_gt_def)
  have "tp_iss (tx_consume p n) = tp_iss p" for p n by (simp add: tx_consume_def Let_def)
  then have a: "take_ack TCP_FLAG_ACK (isn + 1) ?p w = (q, w)"
    using C by (simp add: take_ack_def tcp_process_ack_def Let_def seq_leq_def seq_gt_def seq_geq_def fresh_rings_def q_def)
  have e: "rb_head (tp_tx q) = 0" "rb_count (tp_tx q) = 0" using C(1) by (simp_all add: q_def tx_consume_def ring_advance_def fresh_rings_def)
  have i: "idle q (isn + 1) (tp_rcv_nxt C)" "tp_iss q = isn" "\<not> tp_needs_ack q"
    using C e by (simp_all add: idle_def fresh_rings_def) (simp_all add: q_def tx_consume_def Let_def)
  have d: "take_data [] q = q" "take_fin TCP_FLAG_ACK x n q w = (q, w)" "own_fin_acked q w = (q, w)" for x n
    using i by (simp_all add: take_data_def take_fin_def own_fin_acked_def tcp_fin_acked_def idle_def fresh_rings_def)
  have "\<not> may_push q" using e by (simp add: may_push_def)
  then have o: "tcp_output q w = (q, w)" using i by (simp add: tcp_output_def, subst output_loop.simps) (simp add: push_fin_def idle_def fresh_rings_def)
  have "pcb_input src_ip th [] C w = (q, w)" using C(2) th t a d o i(3) by (simp add: pcb_input_def synced_input_def)
  then show thesis using that i by blast
qed

text \<open>C11. When the network carries every segment and the server has memory, a free slot and room in its backlog, the three segments of the handshake
  open the connection: the listener gets a child in its backlog, both sides end up established, and each expects the sequence number that the other
  sends next, so that the byte streams in both directions start.\<close>

theorem tcp_handshake:
  fixes w :: "'a netw_scheme" and s :: "'b tcp_scheme"
  assumes "nif_up w" "\<forall>k. link_ok w k" "wire w = []" "nif_up s" "\<forall>k. link_ok s k" "wire s = []" "\<forall>k. \<not> t_oom s k"
    "scan (\<lambda>i. t_pcbs s ! i = None) 0 TCP_PCB_MAX = Some slot"
    "get_pcb l s = Some lp" "l < t_next s" "int (length (tp_backlog lp)) < tp_backlog_max lp"
  shows "\<exists>A w1 syn s1 C synack A' w2 ack C' s2.
    connect_pcb (nif_ip s) (tp_local_port lp) ((fresh_pcb rx tx)\<lparr>tp_local_port := port\<rparr>) w = (True, A, w1) \<and> wire w1 = [(nif_ip s, syn)] \<and>
    tcp_listen_input l (nif_ip w) (tcp_header_of syn) s = Some s1 \<and> wire s1 = [(nif_ip w, synack)] \<and>
    get_pcb l s1 = Some (lp\<lparr>tp_backlog := tp_backlog lp @ [t_next s]\<rparr>) \<and> get_pcb (t_next s) s1 = Some C \<and>
    pcb_input (nif_ip s) (tcp_header_of synack) (seg_data synack) A w1 = (A', w2) \<and> wire w2 = [(nif_ip s, syn), (nif_ip s, ack)] \<and>
    pcb_input (nif_ip w) (tcp_header_of ack) (seg_data ack) C s1 = (C', s2) \<and>
    opened (tp_iss A' + 1) A' w2 C' \<and> opened (tp_iss C' + 1) C' s2 A'"
proof -
  have f: "fresh_rings ((fresh_pcb rx tx)\<lparr>tp_local_port := port\<rparr>)" by (simp add: fresh_rings_def fresh_pcb_def)
  obtain A w1 syn i where A: "connect_pcb (nif_ip s) (tp_local_port lp) ((fresh_pcb rx tx)\<lparr>tp_local_port := port\<rparr>) w = (True, A, w1)"
    "wire w1 = [(nif_ip s, syn)]" "quiet syn" "nif_up w1" "\<forall>k. link_ok w1 k" "nif_ip w1 = nif_ip w"
    "fresh_rings A" "tp_state A = SYN_SENT" "tp_iss A = i" "tp_snd_una A = i" "tp_snd_nxt A = i + 1" "tp_remote_ip A = nif_ip s"
    "th_flags (tcp_header_of syn) = TCP_FLAG_SYN" "htonl (th_seq (tcp_header_of syn)) = i"
    by (rule connect_sends_syn [OF assms(1-3) f])
  obtain s1 C synack j where C: "tcp_listen_input l (nif_ip w) (tcp_header_of syn) s = Some s1" "wire s1 = [(nif_ip w, synack)]" "quiet synack" "nif_up s1" "\<forall>k. link_ok s1 k"
    "get_pcb (t_next s) s1 = Some C" "get_pcb l s1 = Some (lp\<lparr>tp_backlog := tp_backlog lp @ [t_next s]\<rparr>)"
    "fresh_rings C" "tp_state C = SYN_RCVD" "tp_iss C = j" "tp_snd_una C = j" "tp_snd_nxt C = j + 1" "tp_rcv_nxt C = i + 1" "tp_remote_ip C = nif_ip w"
    "th_flags (tcp_header_of synack) = TCP_FLAG_SYN OR TCP_FLAG_ACK" "htonl (th_seq (tcp_header_of synack)) = j" "htonl (th_ack (tcp_header_of synack)) = i + 1"
    unfolding A(14) [symmetric] by (rule listen_answers [OF assms(4-6,8,7,9-11) A(13)])
  obtain A' w2 ack where A': "pcb_input (nif_ip s) (tcp_header_of synack) (seg_data synack) A w1 = (A', w2)" "idle A' (i + 1) (j + 1)" "tp_iss A' = i"
    "wire w2 = wire w1 @ [(nif_ip s, ack)]" "quiet ack" "th_flags (tcp_header_of ack) = TCP_FLAG_ACK"
    "htonl (th_seq (tcp_header_of ack)) = i + 1" "htonl (th_ack (tcp_header_of ack)) = j + 1"
    using synack_opens [OF A(4,5,7,8,11) C(15,17)] unfolding C(16) A(9,12) by metis
  obtain C' where C': "pcb_input (nif_ip w) (tcp_header_of ack) [] C s1 = (C', s1)" "idle C' (j + 1) (i + 1)" "tp_iss C' = j"
    using ack_opens [OF C(8-12) A'(6,8)] unfolding A'(7) C(13) by metis
  have d: "seg_data ack = []" using A'(5) by (simp add: quiet_def)
  have w2: "wire w2 = [(nif_ip s, syn), (nif_ip s, ack)]" using A'(4) A(2) by simp
  have "opened (tp_iss A' + 1) A' w2 C'" "opened (tp_iss C' + 1) C' s1 A'"
    using A'(2,3,5) C'(2,3) A(3) C(2,3) w2 by (simp_all add: opened_def idle_def fresh_rings_def quiet_def)
  then show ?thesis using A(1,2) C(1,2,6,7) A'(1) w2 C'(1) d by metis
qed

definition sample_listener :: tcp_pcb where
  "sample_listener = (fresh_pcb (\<lambda>_. 0) (\<lambda>_. 0))\<lparr>tp_state := LISTEN, tp_local_port := 80, tp_backlog_max := 4\<rparr>"

definition sample_server :: tcp where
  "sample_server = sample_table\<lparr>t_heap := [9 \<mapsto> sample_listener]\<rparr>"

theorem tcp_handshake_witness:
  "\<exists>(A :: tcp_pcb) (w :: netw) C (s :: tcp) iss. opened (iss + 1) A w C \<and> get_pcb 9 s = Some (sample_listener\<lparr>tp_backlog := [10]\<rparr>)"
proof -
  have l: "get_pcb 9 sample_server = Some sample_listener" "9 < t_next sample_server" "t_next sample_server = 10"
    by (simp_all add: sample_server_def sample_table_def get_pcb_def)
  have b: "int (length (tp_backlog sample_listener)) < tp_backlog_max sample_listener" "tp_backlog sample_listener = []"
    by (simp_all add: sample_listener_def fresh_pcb_def)
  have c: "scan (\<lambda>i. t_pcbs sample_server ! i = None) 0 TCP_PCB_MAX = Some 0"
    by (subst scan.simps) (simp add: sample_server_def sample_table_def)
  have n: "nif_up idle_net" "\<forall>k. link_ok idle_net k" "wire idle_net = []" "nif_up sample_server" "\<forall>k. link_ok sample_server k" "wire sample_server = []"
    "\<forall>k. \<not> t_oom sample_server k"
    by (simp_all add: idle_net_def sample_server_def sample_table_def)
  show ?thesis using tcp_handshake [OF n c l(1,2) b(1), where rx = "\<lambda>_. 0" and tx = "\<lambda>_. 0" and port = 5000] unfolding l(3) b(2) append_Nil by blast
qed

end
