(* ===== verification/Ip.thy ===== *)
theory Ip
  imports Net_Wire "HOL-Library.Monad_Syntax"
begin

text \<open>
  Ethernet, ARP, IPv4 and ICMP: \<^verbatim>\<open>kernel/net/ip.c\<close> with the headers of \<^verbatim>\<open>ip.h\<close>. A frame is the list of its bytes. The driver is seen
  through \<^verbatim>\<open>netif_send\<close>: it takes a frame or refuses it. The transports above, UDP, TCP and IPv6, are arguments of the receive path.
  Waiting for an answer to an ARP request is waiting for the network: what the frames that arrive meanwhile do to the ARP cache is
  part of the world.
\<close>

section \<open>State\<close>

abbreviation (input) NETIF_MTU :: nat where "NETIF_MTU \<equiv> 1500"
abbreviation (input) ETH_HDR_LEN :: nat where "ETH_HDR_LEN \<equiv> 14"
abbreviation (input) ETH_TYPE_IP :: u16 where "ETH_TYPE_IP \<equiv> 0x0800"
abbreviation (input) ETH_TYPE_ARP :: u16 where "ETH_TYPE_ARP \<equiv> 0x0806"
abbreviation (input) ETH_TYPE_IPV6 :: u16 where "ETH_TYPE_IPV6 \<equiv> 0x86DD"
abbreviation (input) ARP_CACHE_SIZE :: nat where "ARP_CACHE_SIZE \<equiv> 32"
abbreviation (input) ARP_ENTRY_TTL_MS :: u64 where "ARP_ENTRY_TTL_MS \<equiv> 300000"
abbreviation (input) ARP_HW_ETHERNET :: u16 where "ARP_HW_ETHERNET \<equiv> 1"
abbreviation (input) ARP_OP_REQUEST :: u16 where "ARP_OP_REQUEST \<equiv> 1"
abbreviation (input) ARP_OP_REPLY :: u16 where "ARP_OP_REPLY \<equiv> 2"
abbreviation (input) ICMP_ECHO_REQUEST :: u8 where "ICMP_ECHO_REQUEST \<equiv> 8"
abbreviation (input) ICMP_ECHO_REPLY :: u8 where "ICMP_ECHO_REPLY \<equiv> 0"

text \<open>A hardware address is six bytes.\<close>

type_synonym mac = "48 word"

definition mac_bytes :: "mac \<Rightarrow> u8 list" where
  "mac_bytes m = [ucast m, ucast (drop_bit 8 m), ucast (drop_bit 16 m), ucast (drop_bit 24 m), ucast (drop_bit 32 m), ucast (drop_bit 40 m)]"

definition mac_of :: "u8 list \<Rightarrow> mac" where
  "mac_of p = (ucast (p ! 0) OR push_bit 8 (ucast (p ! 1)) OR push_bit 16 (ucast (p ! 2)) OR push_bit 24 (ucast (p ! 3)) OR
     push_bit 32 (ucast (p ! 4)) OR push_bit 40 (ucast (p ! 5)))"

lemma length_mac [simp]: "length (mac_bytes m) = 6"
  by (simp add: mac_bytes_def)

lemma mac_of_bytes [simp]: "mac_of (mac_bytes m @ r) = m"
proof (rule bit_word_eqI)
  fix n assume "n < LENGTH(48)"
  then show "bit (mac_of (mac_bytes m @ r)) n \<longleftrightarrow> bit m n"
    by (cases "n < 8"; cases "n < 16"; cases "n < 24"; cases "n < 32"; cases "n < 40") (auto simp: mac_of_def mac_bytes_def bit_simps)
qed

record netif =
  if_up :: bool
  if_mac :: mac
  if_ip :: u32
  if_netmask :: u32
  if_gateway :: u32
  if_dns :: u32

record arp_entry =
  ae_ip :: u32
  ae_mac :: mac
  ae_added_ms :: u64
  ae_valid :: bool

record ping_slot =
  ps_waiting :: bool
  ps_got_reply :: bool
  ps_from_ip :: u32
  ps_id :: u16
  ps_seq :: u16
  ps_sent_ms :: u64
  ps_reply_ms :: u64

text \<open>\<open>frames\<close> are the frames that were sent, \<open>drv_ok\<close> whether the driver takes the next one, \<open>waits\<close> what happens to the ARP cache
  during each wait.\<close>

record ipnet = net_clock +
  g_netif :: netif
  arp_cache :: "arp_entry list"
  ip_id_counter :: u16
  g_ping :: ping_slot
  drv_ok :: "nat \<Rightarrow> bool"
  drv_sends :: nat
  frames :: "u8 list list"
  waits :: "nat \<Rightarrow> arp_entry list \<Rightarrow> arp_entry list"
  waited :: nat

definition netif_send :: "u8 list \<Rightarrow> 'a ipnet_scheme \<Rightarrow> bool \<times> 'a ipnet_scheme" where
  "netif_send frame s =
     (let s' = s\<lparr>drv_sends := Suc (drv_sends s)\<rparr>
      in if drv_ok s (drv_sends s) then (True, s'\<lparr>frames := frames s @ [frame]\<rparr>) else (False, s'))"

definition net_wait :: "'a ipnet_scheme \<Rightarrow> 'a ipnet_scheme" where
  "net_wait s = s\<lparr>arp_cache := waits s (waited s) (arp_cache s), waited := Suc (waited s)\<rparr>"

section \<open>Headers\<close>

record ip_header =
  ih_version_ihl :: u8
  ih_dscp_ecn :: u8
  ih_length :: u16
  ih_id :: u16
  ih_flags_offset :: u16
  ih_ttl :: u8
  ih_protocol :: u8
  ih_checksum :: u16
  ih_src_ip :: u32
  ih_dst_ip :: u32

abbreviation (input) IP_HDR_LEN :: nat where "IP_HDR_LEN \<equiv> 20"

definition ip_header_bytes :: "ip_header \<Rightarrow> u8 list" where
  "ip_header_bytes h = [ih_version_ihl h, ih_dscp_ecn h] @ le16 (ih_length h) @ le16 (ih_id h) @ le16 (ih_flags_offset h) @
     [ih_ttl h, ih_protocol h] @ le16 (ih_checksum h) @ le32 (ih_src_ip h) @ le32 (ih_dst_ip h)"

definition ip_header_of :: "u8 list \<Rightarrow> ip_header" where
  "ip_header_of p = \<lparr>ih_version_ihl = p ! 0, ih_dscp_ecn = p ! 1, ih_length = get_le16 (drop 2 p), ih_id = get_le16 (drop 4 p),
     ih_flags_offset = get_le16 (drop 6 p), ih_ttl = p ! 8, ih_protocol = p ! 9, ih_checksum = get_le16 (drop 10 p),
     ih_src_ip = get_le32 (drop 12 p), ih_dst_ip = get_le32 (drop 16 p)\<rparr>"

record icmp_header =
  ic_type :: u8
  ic_code :: u8
  ic_checksum :: u16
  ic_id :: u16
  ic_seq :: u16

abbreviation (input) ICMP_HDR_LEN :: nat where "ICMP_HDR_LEN \<equiv> 8"

definition icmp_header_bytes :: "icmp_header \<Rightarrow> u8 list" where
  "icmp_header_bytes h = [ic_type h, ic_code h] @ le16 (ic_checksum h) @ le16 (ic_id h) @ le16 (ic_seq h)"

definition icmp_header_of :: "u8 list \<Rightarrow> icmp_header" where
  "icmp_header_of p = \<lparr>ic_type = p ! 0, ic_code = p ! 1, ic_checksum = get_le16 (drop 2 p), ic_id = get_le16 (drop 4 p), ic_seq = get_le16 (drop 6 p)\<rparr>"

record arp_header =
  ar_hw_type :: u16
  ar_proto_type :: u16
  ar_hw_len :: u8
  ar_proto_len :: u8
  ar_opcode :: u16
  ar_src_mac :: mac
  ar_src_ip :: u32
  ar_dst_mac :: mac
  ar_dst_ip :: u32

abbreviation (input) ARP_HDR_LEN :: nat where "ARP_HDR_LEN \<equiv> 28"

definition arp_header_bytes :: "arp_header \<Rightarrow> u8 list" where
  "arp_header_bytes h = le16 (ar_hw_type h) @ le16 (ar_proto_type h) @ [ar_hw_len h, ar_proto_len h] @ le16 (ar_opcode h) @
     mac_bytes (ar_src_mac h) @ le32 (ar_src_ip h) @ mac_bytes (ar_dst_mac h) @ le32 (ar_dst_ip h)"

definition arp_header_of :: "u8 list \<Rightarrow> arp_header" where
  "arp_header_of p = \<lparr>ar_hw_type = get_le16 p, ar_proto_type = get_le16 (drop 2 p), ar_hw_len = p ! 4, ar_proto_len = p ! 5,
     ar_opcode = get_le16 (drop 6 p), ar_src_mac = mac_of (drop 8 p), ar_src_ip = get_le32 (drop 14 p),
     ar_dst_mac = mac_of (drop 18 p), ar_dst_ip = get_le32 (drop 24 p)\<rparr>"

text \<open>Reading a header back from its bytes.\<close>

lemma length_ip_header [simp]: "length (ip_header_bytes h) = IP_HDR_LEN"
  by (simp add: ip_header_bytes_def)

lemma ip_header_roundtrip [simp]: "ip_header_of (ip_header_bytes h @ r) = h"
proof -
  let ?p = "ip_header_bytes h @ r"
  have "drop 2 ?p = le16 (ih_length h) @ drop 4 ?p" "drop 4 ?p = le16 (ih_id h) @ drop 6 ?p" "drop 6 ?p = le16 (ih_flags_offset h) @ drop 8 ?p"
    "drop 10 ?p = le16 (ih_checksum h) @ drop 12 ?p" "drop 12 ?p = le32 (ih_src_ip h) @ drop 16 ?p" "drop 16 ?p = le32 (ih_dst_ip h) @ r"
    by (simp_all add: ip_header_bytes_def)
  moreover have "?p ! 0 = ih_version_ihl h" "?p ! 1 = ih_dscp_ecn h" "?p ! 8 = ih_ttl h" "?p ! 9 = ih_protocol h"
    by (simp_all add: ip_header_bytes_def nth_append)
  ultimately show ?thesis unfolding ip_header_of_def by (metis get_le16_le16 get_le32_le32 ip_header.surjective old.unit.exhaust)
qed

lemma length_icmp_header [simp]: "length (icmp_header_bytes h) = ICMP_HDR_LEN"
  by (simp add: icmp_header_bytes_def)

lemma icmp_header_roundtrip [simp]: "icmp_header_of (icmp_header_bytes h @ r) = h"
proof -
  let ?p = "icmp_header_bytes h @ r"
  have d: "drop 2 ?p = le16 (ic_checksum h) @ drop 4 ?p" "drop 4 ?p = le16 (ic_id h) @ drop 6 ?p" "drop 6 ?p = le16 (ic_seq h) @ r"
    by (simp_all add: icmp_header_bytes_def)
  have e: "?p ! 0 = ic_type h" "?p ! 1 = ic_code h" by (simp_all add: icmp_header_bytes_def)
  show ?thesis unfolding icmp_header_of_def e by (subst d(1), subst d(2), subst d(3)) simp
qed

section \<open>Link layer\<close>

definition eth_broadcast :: mac where "eth_broadcast = 0xFFFFFFFFFFFF"

definition eth_send :: "mac \<Rightarrow> u16 \<Rightarrow> u8 list \<Rightarrow> u8 list \<Rightarrow> 'a ipnet_scheme \<Rightarrow> bool \<times> 'a ipnet_scheme" where
  "eth_send dst_mac ethertype h d s =
     (if \<not> if_up (g_netif s) then (False, s)
      else if length h + length d > NETIF_MTU then (False, s)
      else netif_send (mac_bytes dst_mac @ mac_bytes (if_mac (g_netif s)) @ le16 (htons ethertype) @ h @ d) s)"

section \<open>ARP\<close>

text \<open>The loop of \<^verbatim>\<open>arp_cache_add\<close>: \<open>Inl\<close> is the entry of the address itself, \<open>Inr\<close> the slot to take, a free one or else the oldest.\<close>

fun arp_place :: "u32 \<Rightarrow> arp_entry list \<Rightarrow> nat list \<Rightarrow> nat option \<Rightarrow> nat \<Rightarrow> nat + nat" where
  "arp_place ip c [] free_slot oldest = Inr (case free_slot of Some i \<Rightarrow> i | None \<Rightarrow> oldest)"
| "arp_place ip c (i # is) free_slot oldest =
     (if ae_valid (c ! i) \<and> ae_ip (c ! i) = ip then Inl i
      else arp_place ip c is (if \<not> ae_valid (c ! i) \<and> free_slot = None then Some i else free_slot)
             (if ae_added_ms (c ! i) < ae_added_ms (c ! oldest) then i else oldest))"

definition arp_cache_add :: "u32 \<Rightarrow> mac \<Rightarrow> 'a ipnet_scheme \<Rightarrow> 'a ipnet_scheme" where
  "arp_cache_add ip mac s =
     (case arp_place ip (arp_cache s) [0..<ARP_CACHE_SIZE] None 0 of
        Inl i \<Rightarrow> (case pit_uptime_ms s of (now, s) \<Rightarrow> s\<lparr>arp_cache := (arp_cache s)[i := (arp_cache s ! i)\<lparr>ae_mac := mac, ae_added_ms := now\<rparr>]\<rparr>)
      | Inr i \<Rightarrow> (case pit_uptime_ms s of (now, s) \<Rightarrow>
                   s\<lparr>arp_cache := (arp_cache s)[i := \<lparr>ae_ip = ip, ae_mac = mac, ae_added_ms = now, ae_valid = True\<rparr>]\<rparr>))"

fun arp_find :: "u32 \<Rightarrow> arp_entry list \<Rightarrow> nat list \<Rightarrow> nat option" where
  "arp_find ip c [] = None"
| "arp_find ip c (i # is) = (if \<not> ae_valid (c ! i) \<or> ae_ip (c ! i) \<noteq> ip then arp_find ip c is else Some i)"

definition arp_cache_lookup :: "u32 \<Rightarrow> 'a ipnet_scheme \<Rightarrow> mac option \<times> 'a ipnet_scheme" where
  "arp_cache_lookup ip s =
     (case pit_uptime_ms s of (now, s) \<Rightarrow>
      case arp_find ip (arp_cache s) [0..<ARP_CACHE_SIZE] of
        None \<Rightarrow> (None, s)
      | Some i \<Rightarrow>
          if now - ae_added_ms (arp_cache s ! i) > ARP_ENTRY_TTL_MS
          then (None, s\<lparr>arp_cache := (arp_cache s)[i := (arp_cache s ! i)\<lparr>ae_valid := False\<rparr>]\<rparr>)
          else (Some (ae_mac (arp_cache s ! i)), s))"

fun arp_cache_dump :: "nat \<Rightarrow> arp_entry list \<Rightarrow> (u32 \<times> mac) list" where
  "arp_cache_dump m [] = []"
| "arp_cache_dump m (e # es) =
     (if m = 0 then [] else if \<not> ae_valid e then arp_cache_dump m es else (ae_ip e, ae_mac e) # arp_cache_dump (m - 1) es)"

definition arp_send :: "u16 \<Rightarrow> mac \<Rightarrow> u32 \<Rightarrow> mac \<Rightarrow> 'a ipnet_scheme \<Rightarrow> bool \<times> 'a ipnet_scheme" where
  "arp_send opcode target_mac target_ip dst_mac s =
     eth_send dst_mac ETH_TYPE_ARP
       (arp_header_bytes \<lparr>ar_hw_type = htons ARP_HW_ETHERNET, ar_proto_type = htons ETH_TYPE_IP, ar_hw_len = 6, ar_proto_len = 4, ar_opcode = htons opcode,
          ar_src_mac = if_mac (g_netif s), ar_src_ip = if_ip (g_netif s), ar_dst_mac = target_mac, ar_dst_ip = target_ip\<rparr>) [] s"

text \<open>The loop of \<^verbatim>\<open>arp_resolve\<close>; it ends when the clock does reach the deadline.\<close>

partial_function (option) arp_loop :: "u32 \<Rightarrow> u64 \<Rightarrow> u64 \<Rightarrow> 'a ipnet_scheme \<Rightarrow> (mac option \<times> 'a ipnet_scheme) option" where
  "arp_loop ip deadline next_retry s =
     (case pit_uptime_ms s of (now, s1) \<Rightarrow>
      if \<not> now < deadline then Some (None, s1)
      else
        (case pit_uptime_ms s1 of (now, s2) \<Rightarrow>
         case (if now \<ge> next_retry then
                 (case pit_uptime_ms (snd (arp_send ARP_OP_REQUEST 0 ip eth_broadcast s2)) of (t, s3) \<Rightarrow> (t + 250, s3))
               else (next_retry, s2)) of (next_retry, s4) \<Rightarrow>
         case arp_cache_lookup ip (net_wait s4) of (r, s5) \<Rightarrow>
         if r \<noteq> None then Some (r, s5) else arp_loop ip deadline next_retry s5))"

definition arp_resolve :: "u32 \<Rightarrow> u32 \<Rightarrow> 'a ipnet_scheme \<Rightarrow> (mac option \<times> 'a ipnet_scheme) option" where
  "arp_resolve ip timeout_ms s =
     (case arp_cache_lookup ip s of (r, s) \<Rightarrow>
      if r \<noteq> None then Some (r, s)
      else if ip = 0xFFFFFFFF \<or> ip = (if_ip (g_netif s) OR NOT (if_netmask (g_netif s))) then Some (Some eth_broadcast, s)
      else (case pit_uptime_ms s of (now, s) \<Rightarrow> arp_loop ip (now + ucast timeout_ms) 0 s))"

definition arp_input :: "arp_header \<Rightarrow> 'a ipnet_scheme \<Rightarrow> 'a ipnet_scheme" where
  "arp_input arp s =
     (if htons (ar_hw_type arp) \<noteq> ARP_HW_ETHERNET \<or> htons (ar_proto_type arp) \<noteq> ETH_TYPE_IP \<or> ar_hw_len arp \<noteq> 6 \<or> ar_proto_len arp \<noteq> 4 then s
      else
        let op = htons (ar_opcode arp);
            s = (if ar_dst_ip arp = if_ip (g_netif s) \<or> op = ARP_OP_REPLY then arp_cache_add (ar_src_ip arp) (ar_src_mac arp) s else s)
        in if op = ARP_OP_REQUEST \<and> ar_dst_ip arp = if_ip (g_netif s)
           then snd (arp_send ARP_OP_REPLY (ar_src_mac arp) (ar_src_ip arp) (ar_src_mac arp) s) else s)"

section \<open>IPv4\<close>

definition ip_next_hop :: "u32 \<Rightarrow> 'a ipnet_scheme \<Rightarrow> u32" where
  "ip_next_hop dst_ip s =
     (let n = g_netif s in
      if dst_ip AND if_netmask n = (if_ip n AND if_netmask n) then dst_ip else if if_gateway n \<noteq> 0 then if_gateway n else dst_ip)"

definition ip_packet :: "u32 \<Rightarrow> u32 \<Rightarrow> u16 \<Rightarrow> u8 \<Rightarrow> nat \<Rightarrow> ip_header" where
  "ip_packet src_ip dst_ip ident proto n =
     (let ip = \<lparr>ih_version_ihl = 0x45, ih_dscp_ecn = 0, ih_length = htons (of_nat (IP_HDR_LEN + n)), ih_id = htons ident, ih_flags_offset = htons 0x4000,
                ih_ttl = 64, ih_protocol = proto, ih_checksum = 0, ih_src_ip = src_ip, ih_dst_ip = dst_ip\<rparr>
      in ip\<lparr>ih_checksum := net_checksum (ip_header_bytes ip)\<rparr>)"

definition ip_output :: "u32 \<Rightarrow> u8 \<Rightarrow> u8 list \<Rightarrow> u8 list \<Rightarrow> 'a ipnet_scheme \<Rightarrow> (bool \<times> 'a ipnet_scheme) option" where
  "ip_output dst_ip proto h d s =
     (if \<not> if_up (g_netif s) then Some (False, s)
      else if length h + length d > IP_MAX_PAYLOAD then Some (False, s)
      else do {
        let payload = ip_header_bytes (ip_packet (if_ip (g_netif s)) dst_ip (ip_id_counter s) proto (length h + length d)) @ h @ d;
        let s = s\<lparr>ip_id_counter := ip_id_counter s + 1\<rparr>;
        (r, s) \<leftarrow> arp_resolve (ip_next_hop dst_ip s) 1000 s;
        case r of None \<Rightarrow> Some (False, s) | Some mac \<Rightarrow> Some (eth_send mac ETH_TYPE_IP payload [] s)
      })"

section \<open>ICMP\<close>

definition icmp_packet :: "u8 \<Rightarrow> u16 \<Rightarrow> u16 \<Rightarrow> u8 list \<Rightarrow> icmp_header" where
  "icmp_packet ty ident seq data =
     (let icmp = \<lparr>ic_type = ty, ic_code = 0, ic_checksum = 0, ic_id = ident, ic_seq = seq\<rparr>
      in icmp\<lparr>ic_checksum := checksum_fold (checksum_partial data (checksum_partial (icmp_header_bytes icmp) 0))\<rparr>)"

definition icmp_send_echo :: "u32 \<Rightarrow> u16 \<Rightarrow> u16 \<Rightarrow> u8 list \<Rightarrow> 'a ipnet_scheme \<Rightarrow> (bool \<times> 'a ipnet_scheme) option" where
  "icmp_send_echo dst_ip ident seq data s =
     (case pit_uptime_ms s of (now, s) \<Rightarrow>
      ip_output dst_ip IP_PROTOCOL_ICMP (icmp_header_bytes (icmp_packet ICMP_ECHO_REQUEST (htons ident) (htons seq) data)) data
        (s\<lparr>g_ping := (g_ping s)\<lparr>ps_waiting := True, ps_got_reply := False, ps_from_ip := dst_ip, ps_id := ident, ps_seq := seq, ps_sent_ms := now\<rparr>\<rparr>))"

text \<open>One turn of the loop of \<^verbatim>\<open>icmp_wait_reply\<close>, up to \<^verbatim>\<open>net_wait\<close>.\<close>

definition icmp_wait_turn :: "u32 \<Rightarrow> u16 \<Rightarrow> u16 \<Rightarrow> u64 \<Rightarrow> 'a ipnet_scheme \<Rightarrow> int option \<times> 'a ipnet_scheme" where
  "icmp_wait_turn from_ip ident seq deadline s =
     (case pit_uptime_ms s of (now, s) \<Rightarrow>
      let pg = g_ping s in
      if \<not> now < deadline then (Some (- 1), s\<lparr>g_ping := pg\<lparr>ps_waiting := False\<rparr>\<rparr>)
      else if ps_got_reply pg \<and> ps_id pg = ident \<and> ps_seq pg = seq \<and> ps_from_ip pg = from_ip
      then (Some (sint (ps_reply_ms pg - ps_sent_ms pg)), s\<lparr>g_ping := pg\<lparr>ps_waiting := False\<rparr>\<rparr>)
      else (None, s))"

definition icmp_input :: "u32 \<Rightarrow> u8 list \<Rightarrow> 'a ipnet_scheme \<Rightarrow> 'a ipnet_scheme option" where
  "icmp_input src_ip payload s =
     (if length payload < ICMP_HDR_LEN then Some s
      else
        let icmp = icmp_header_of payload; data = drop ICMP_HDR_LEN payload in
        if ic_type icmp = ICMP_ECHO_REQUEST then
          do { (r, s) \<leftarrow> ip_output src_ip IP_PROTOCOL_ICMP (icmp_header_bytes (icmp_packet ICMP_ECHO_REPLY (ic_id icmp) (ic_seq icmp) data)) data s; Some s }
        else if ic_type icmp = ICMP_ECHO_REPLY \<and> ps_waiting (g_ping s) \<and> htons (ic_id icmp) = ps_id (g_ping s) \<and> htons (ic_seq icmp) = ps_seq (g_ping s) then
          (case pit_uptime_ms s of (now, s) \<Rightarrow> Some (s\<lparr>g_ping := (g_ping s)\<lparr>ps_got_reply := True, ps_reply_ms := now\<rparr>\<rparr>))
        else Some s)"

section \<open>Receive dispatch\<close>

text \<open>\<open>udp\<close>, \<open>tcp\<close> and \<open>ipv6\<close> stand for \<^verbatim>\<open>udp_input\<close>, \<^verbatim>\<open>tcp_input\<close> and \<^verbatim>\<open>ipv6_input\<close>.\<close>

type_synonym 's transport = "u32 \<Rightarrow> u32 \<Rightarrow> u8 list \<Rightarrow> 's \<Rightarrow> 's option"

definition ip_dispatch :: "'a ipnet_scheme transport \<Rightarrow> 'a ipnet_scheme transport \<Rightarrow> u8 \<Rightarrow> u32 \<Rightarrow> u32 \<Rightarrow> u8 list \<Rightarrow> 'a ipnet_scheme \<Rightarrow> 'a ipnet_scheme option" where
  "ip_dispatch udp tcp proto src_ip dst_ip payload s =
     (if proto = IP_PROTOCOL_ICMP then icmp_input src_ip payload s
      else if proto = IP_PROTOCOL_UDP then udp src_ip dst_ip payload s
      else if proto = IP_PROTOCOL_TCP then tcp src_ip dst_ip payload s
      else Some s)"

definition ip_input :: "'a ipnet_scheme transport \<Rightarrow> 'a ipnet_scheme transport \<Rightarrow> u8 list \<Rightarrow> 'a ipnet_scheme \<Rightarrow> 'a ipnet_scheme option" where
  "ip_input udp tcp packet s =
     (if length packet < IP_HDR_LEN then Some s
      else
        let ip = ip_header_of packet in
        if drop_bit 4 (ih_version_ihl ip) \<noteq> 4 then Some s
        else
          let ihl = unat (ih_version_ihl ip AND 0x0F) * 4; len = unat (htons (ih_length ip)) in
          if ihl < IP_HDR_LEN \<or> ihl > length packet then Some s
          else if len < ihl \<or> len > length packet then Some s
          else if ih_dst_ip ip \<noteq> if_ip (g_netif s) \<and> ih_dst_ip ip \<noteq> 0xFFFFFFFF \<and> ih_dst_ip ip \<noteq> (if_ip (g_netif s) OR NOT (if_netmask (g_netif s))) then Some s
          else if net_checksum (take ihl packet) \<noteq> 0 then Some s
          else if htons (ih_flags_offset ip) AND 0x2000 \<noteq> 0 \<or> htons (ih_flags_offset ip) AND 0x1FFF \<noteq> 0 then Some s
          else ip_dispatch udp tcp (ih_protocol ip) (ih_src_ip ip) (ih_dst_ip ip) (take (len - ihl) (drop ihl packet)) s)"

definition eth_input ::
    "'a ipnet_scheme transport \<Rightarrow> 'a ipnet_scheme transport \<Rightarrow> (u8 list \<Rightarrow> 'a ipnet_scheme \<Rightarrow> 'a ipnet_scheme option) \<Rightarrow>
     u8 list \<Rightarrow> 'a ipnet_scheme \<Rightarrow> 'a ipnet_scheme option" where
  "eth_input udp tcp ipv6 frame s =
     (if length frame < ETH_HDR_LEN then Some s
      else
        let ty = htons (get_le16 (drop 12 frame)); payload = drop ETH_HDR_LEN frame in
        if ty = ETH_TYPE_ARP then (if length payload \<ge> ARP_HDR_LEN then Some (arp_input (arp_header_of payload) s) else Some s)
        else if ty = ETH_TYPE_IP then ip_input udp tcp payload s
        else if ty = ETH_TYPE_IPV6 then ipv6 payload s
        else Some s)"

end
