(* ===== verification/Ip_Props.thy ===== *)
theory Ip_Props
  imports Ip Tcp
begin

text \<open>
  The IP layer: the ARP cache behaves like a map that forgets its oldest entry when it is full; a packet that \<^verbatim>\<open>ip_output\<close> has sent
  reaches the transport of the host it is addressed to, unchanged; \<^verbatim>\<open>ip_output\<close> is what TCP takes it for; an echo request is answered.
\<close>

section \<open>The ARP cache\<close>

declare upt_rec_numeral [simp del]

definition arp_ok :: "arp_entry list \<Rightarrow> bool" where
  "arp_ok c \<longleftrightarrow> length c = ARP_CACHE_SIZE \<and>
     (\<forall>i < ARP_CACHE_SIZE. \<forall>j < ARP_CACHE_SIZE. ae_valid (c ! i) \<and> ae_valid (c ! j) \<and> ae_ip (c ! i) = ae_ip (c ! j) \<longrightarrow> i = j)"

text \<open>The map that the cache stands for, from addresses to hardware addresses and the time they were learnt.\<close>

definition arp_abs :: "arp_entry list \<Rightarrow> u32 \<Rightarrow> (mac \<times> u64) option" where
  "arp_abs c ip = map_option (\<lambda>i. (ae_mac (c ! i), ae_added_ms (c ! i))) (arp_find ip c [0..<ARP_CACHE_SIZE])"

lemma arp_find_Some: "arp_find ip c is = Some i \<Longrightarrow> i \<in> set is \<and> ae_valid (c ! i) \<and> ae_ip (c ! i) = ip"
  by (induction ip c "is" rule: arp_find.induct) (auto split: if_splits)

lemma arp_find_None: "arp_find ip c is = None \<longleftrightarrow> (\<forall>i \<in> set is. \<not> (ae_valid (c ! i) \<and> ae_ip (c ! i) = ip))"
  by (induction ip c "is" rule: arp_find.induct) auto

lemma arp_find_eq:
  assumes "arp_ok c" "i < ARP_CACHE_SIZE"
  shows "ae_valid (c ! i) \<and> ae_ip (c ! i) = ip \<longleftrightarrow> arp_find ip c [0..<ARP_CACHE_SIZE] = Some i"
proof
  assume v: "ae_valid (c ! i) \<and> ae_ip (c ! i) = ip"
  then have "arp_find ip c [0..<ARP_CACHE_SIZE] \<noteq> None" using assms(2) arp_find_None [of ip c "[0..<ARP_CACHE_SIZE]"] by (auto)
  then obtain j where j: "arp_find ip c [0..<ARP_CACHE_SIZE] = Some j" by blast
  then have "j < ARP_CACHE_SIZE" "ae_valid (c ! j)" "ae_ip (c ! j) = ip" using arp_find_Some [OF j] by (auto)
  then show "arp_find ip c [0..<ARP_CACHE_SIZE] = Some i" using j v assms by (auto simp: arp_ok_def)
qed (auto dest: arp_find_Some)

lemma arp_abs_Some:
  assumes "arp_ok c"
  shows "arp_abs c ip = Some (m, t) \<longleftrightarrow> (\<exists>i < ARP_CACHE_SIZE. ae_valid (c ! i) \<and> ae_ip (c ! i) = ip \<and> ae_mac (c ! i) = m \<and> ae_added_ms (c ! i) = t)"
proof
  assume "arp_abs c ip = Some (m, t)"
  then obtain i where i: "arp_find ip c [0..<ARP_CACHE_SIZE] = Some i" "ae_mac (c ! i) = m" "ae_added_ms (c ! i) = t" by (auto simp: arp_abs_def)
  then show "\<exists>i < ARP_CACHE_SIZE. ae_valid (c ! i) \<and> ae_ip (c ! i) = ip \<and> ae_mac (c ! i) = m \<and> ae_added_ms (c ! i) = t"
    using arp_find_Some [OF i(1)] by (auto)
next
  assume "\<exists>i < ARP_CACHE_SIZE. ae_valid (c ! i) \<and> ae_ip (c ! i) = ip \<and> ae_mac (c ! i) = m \<and> ae_added_ms (c ! i) = t"
  then show "arp_abs c ip = Some (m, t)" using arp_find_eq [OF assms] by (auto simp: arp_abs_def)
qed

text \<open>The place an address gets: its own entry; or a free one; or, when all are in use, one that is no younger than any other.\<close>

lemma arp_place_spec:
  "arp_place ip c is fr old = Inl i \<Longrightarrow> arp_find ip c is = Some i"
  "arp_place ip c is fr old = Inr i \<Longrightarrow> arp_find ip c is = None \<and>
     (case fr of Some f \<Rightarrow> i = f
      | None \<Rightarrow> i \<in> set is \<and> \<not> ae_valid (c ! i) \<or>
          (\<forall>j \<in> set is. ae_valid (c ! j)) \<and> (i = old \<or> i \<in> set is) \<and> (\<forall>j \<in> insert old (set is). ae_added_ms (c ! i) \<le> ae_added_ms (c ! j)))"
proof (induction ip c "is" fr old rule: arp_place.induct)
  case (1 ip c fr old)
  { case 1 then show ?case by simp next case 2 then show ?case by (auto split: option.splits) }
next
  case (2 ip c k "is" fr old)
  { case 1 then show ?case using "2.IH" by (auto split: if_splits) next
    case 2
    then have h: "\<not> (ae_valid (c ! k) \<and> ae_ip (c ! k) = ip)"
      and p: "arp_place ip c is (if \<not> ae_valid (c ! k) \<and> fr = None then Some k else fr) (if ae_added_ms (c ! k) < ae_added_ms (c ! old) then k else old) = Inr i"
      by (auto split: if_splits)
    note I = "2.IH"(2) [OF h p]
    show ?case using I h by (cases fr) (auto split: if_splits)
  }
qed

lemma arp_put:
  fixes mac now
  assumes ok: "arp_ok c" and i: "i < ARP_CACHE_SIZE" and f: "arp_find ip c [0..<ARP_CACHE_SIZE] = Some i \<or> arp_find ip c [0..<ARP_CACHE_SIZE] = None"
  defines "c' \<equiv> c[i := \<lparr>ae_ip = ip, ae_mac = mac, ae_added_ms = now, ae_valid = True\<rparr>]"
  shows "arp_ok c'"
    "arp_abs c' = (if ae_valid (c ! i) \<and> ae_ip (c ! i) \<noteq> ip then (arp_abs c)(ae_ip (c ! i) := None) else arp_abs c)(ip \<mapsto> (mac, now))"
proof -
  have nth: "c' ! j = (if j = i then \<lparr>ae_ip = ip, ae_mac = mac, ae_added_ms = now, ae_valid = True\<rparr> else c ! j)" if "j < ARP_CACHE_SIZE" for j
    using ok i that by (auto simp: c'_def arp_ok_def)
  have only: "j = i" if "j < ARP_CACHE_SIZE" "ae_valid (c ! j)" "ae_ip (c ! j) = ip" for j
    using f arp_find_eq [OF ok that(1), of ip] that by auto
  have "j = k" if "j < ARP_CACHE_SIZE" "k < ARP_CACHE_SIZE" "ae_valid (c' ! j)" "ae_valid (c' ! k)" "ae_ip (c' ! j) = ae_ip (c' ! k)" for j k
  proof (cases "j = i \<or> k = i")
    case True
    then show ?thesis using that only [of j] only [of k] nth by (auto split: if_splits)
  next
    case False
    then have "ae_valid (c ! j)" "ae_valid (c ! k)" "ae_ip (c ! j) = ae_ip (c ! k)" using that nth by simp_all
    then show ?thesis using ok that(1,2) unfolding arp_ok_def by blast
  qed
  moreover have "length c' = ARP_CACHE_SIZE" using ok by (simp add: c'_def arp_ok_def)
  ultimately show ok': "arp_ok c'" unfolding arp_ok_def by blast
  show "arp_abs c' = (if ae_valid (c ! i) \<and> ae_ip (c ! i) \<noteq> ip then (arp_abs c)(ae_ip (c ! i) := None) else arp_abs c)(ip \<mapsto> (mac, now))" (is "_ = ?R")
  proof
    fix x
    have "arp_abs c' x = Some (m, t) \<longleftrightarrow> ?R x = Some (m, t)" for m t
    proof (cases "x = ip")
      case True
      have "arp_abs c' ip = Some (mac, now)" unfolding arp_abs_Some [OF ok'] using nth [OF i] i by (intro exI [of _ i]) simp
      then show ?thesis using True by simp
    next
      case False
      then have "arp_abs c' x = Some (m, t) \<longleftrightarrow> (\<exists>j < ARP_CACHE_SIZE. j \<noteq> i \<and> ae_valid (c ! j) \<and> ae_ip (c ! j) = x \<and> ae_mac (c ! j) = m \<and> ae_added_ms (c ! j) = t)"
        unfolding arp_abs_Some [OF ok'] using nth by (intro ex_cong1) (auto split: if_splits)
      also have "\<dots> \<longleftrightarrow> \<not> (ae_valid (c ! i) \<and> ae_ip (c ! i) = x) \<and> arp_abs c x = Some (m, t)"
      proof (cases "ae_valid (c ! i) \<and> ae_ip (c ! i) = x")
        case True
        then have "j = i" if "j < ARP_CACHE_SIZE" "ae_valid (c ! j)" "ae_ip (c ! j) = x" for j using ok i that unfolding arp_ok_def by blast
        then show ?thesis using True by blast
      next
        case False
        then show ?thesis using i by (auto simp: arp_abs_Some [OF ok])
      qed
      also have "\<dots> \<longleftrightarrow> ?R x = Some (m, t)" using False arp_abs_Some [OF ok, of x m t] by auto
      finally show ?thesis .
    qed
    then show "arp_abs c' x = ?R x" by (metis not_None_eq surj_pair)
  qed
qed

lemma arp_cache_add_place:
  assumes ok: "arp_ok (arp_cache s)"
  obtains i where "i < ARP_CACHE_SIZE"
    "arp_cache (arp_cache_add ip mac s) = (arp_cache s)[i := \<lparr>ae_ip = ip, ae_mac = mac, ae_added_ms = uptime s (ticks s), ae_valid = True\<rparr>]"
    "arp_find ip (arp_cache s) [0..<ARP_CACHE_SIZE] = Some i \<or>
     arp_find ip (arp_cache s) [0..<ARP_CACHE_SIZE] = None \<and> (\<not> ae_valid (arp_cache s ! i) \<or>
       (\<forall>j < ARP_CACHE_SIZE. ae_valid (arp_cache s ! j)) \<and> (\<forall>j < ARP_CACHE_SIZE. ae_added_ms (arp_cache s ! i) \<le> ae_added_ms (arp_cache s ! j)))"
proof (cases "arp_place ip (arp_cache s) [0..<ARP_CACHE_SIZE] None 0")
  case (Inl i)
  note f = arp_place_spec(1) [OF Inl]
  have e: "(arp_cache s ! i)\<lparr>ae_mac := mac, ae_added_ms := uptime s (ticks s)\<rparr> = \<lparr>ae_ip = ip, ae_mac = mac, ae_added_ms = uptime s (ticks s), ae_valid = True\<rparr>"
    using arp_find_Some [OF f] by (cases "arp_cache s ! i") simp
  have "arp_cache (arp_cache_add ip mac s) = (arp_cache s)[i := (arp_cache s ! i)\<lparr>ae_mac := mac, ae_added_ms := uptime s (ticks s)\<rparr>]"
    using Inl by (simp add: arp_cache_add_def pit_uptime_ms_def)
  then have "arp_cache (arp_cache_add ip mac s) = (arp_cache s)[i := \<lparr>ae_ip = ip, ae_mac = mac, ae_added_ms = uptime s (ticks s), ae_valid = True\<rparr>]" unfolding e .
  then show thesis using that [of i] f arp_find_Some [OF f] by simp
next
  case (Inr i)
  note f = arp_place_spec(2) [OF Inr]
  show thesis by (rule that [of i]) (use Inr f in \<open>auto simp: arp_cache_add_def pit_uptime_ms_def\<close>)
qed

text \<open>C16. Learning a hardware address updates the map that the cache stands for at that address only. When the address is new and every slot is in use, the
  entry that goes is one of those that were learnt first. No address ever has two entries.\<close>

theorem arp_cache_add_updates:
  assumes "arp_ok (arp_cache s)"
  shows "arp_ok (arp_cache (arp_cache_add ip mac s)) \<and>
    (arp_abs (arp_cache (arp_cache_add ip mac s)) = (arp_abs (arp_cache s))(ip \<mapsto> (mac, uptime s (ticks s))) \<or>
     (\<exists>v m t. arp_abs (arp_cache s) ip = None \<and> arp_abs (arp_cache s) v = Some (m, t) \<and> (\<forall>j < ARP_CACHE_SIZE. ae_valid (arp_cache s ! j)) \<and>
        (\<forall>x m' t'. arp_abs (arp_cache s) x = Some (m', t') \<longrightarrow> t \<le> t') \<and>
        arp_abs (arp_cache (arp_cache_add ip mac s)) = (arp_abs (arp_cache s))(v := None, ip \<mapsto> (mac, uptime s (ticks s)))))"
proof -
  let ?c = "arp_cache s" and ?now = "uptime s (ticks s)"
  obtain i where i: "i < ARP_CACHE_SIZE" "arp_cache (arp_cache_add ip mac s) = ?c[i := \<lparr>ae_ip = ip, ae_mac = mac, ae_added_ms = ?now, ae_valid = True\<rparr>]"
    and f: "arp_find ip ?c [0..<ARP_CACHE_SIZE] = Some i \<or> arp_find ip ?c [0..<ARP_CACHE_SIZE] = None \<and> (\<not> ae_valid (?c ! i) \<or>
       (\<forall>j < ARP_CACHE_SIZE. ae_valid (?c ! j)) \<and> (\<forall>j < ARP_CACHE_SIZE. ae_added_ms (?c ! i) \<le> ae_added_ms (?c ! j)))"
    by (rule arp_cache_add_place [OF assms])
  have f': "arp_find ip ?c [0..<ARP_CACHE_SIZE] = Some i \<or> arp_find ip ?c [0..<ARP_CACHE_SIZE] = None" using f by (elim disjE conjE) simp_all
  note P = arp_put [OF assms i(1) f', of mac ?now, folded i(2)]
  show ?thesis
  proof (cases "ae_valid (?c ! i) \<and> ae_ip (?c ! i) \<noteq> ip")
    case False
    then show ?thesis using P by auto
  next
    case True
    then have n: "arp_find ip ?c [0..<ARP_CACHE_SIZE] = None" "\<forall>j < ARP_CACHE_SIZE. ae_valid (?c ! j)" "\<forall>j < ARP_CACHE_SIZE. ae_added_ms (?c ! i) \<le> ae_added_ms (?c ! j)"
      using f arp_find_Some [of ip ?c "[0..<ARP_CACHE_SIZE]" i] by (auto)
    have "arp_abs ?c (ae_ip (?c ! i)) = Some (ae_mac (?c ! i), ae_added_ms (?c ! i))" using True i(1) by (auto simp: arp_abs_Some [OF assms])
    moreover have "arp_abs ?c ip = None" using n(1) by (simp add: arp_abs_def)
    moreover have "\<forall>x m' t'. arp_abs ?c x = Some (m', t') \<longrightarrow> ae_added_ms (?c ! i) \<le> t'" using n(3) by (auto simp: arp_abs_Some [OF assms])
    moreover have "arp_abs (arp_cache (arp_cache_add ip mac s)) = (arp_abs ?c)(ae_ip (?c ! i) := None, ip \<mapsto> (mac, ?now))" using P(2) True by simp
    ultimately show ?thesis using P(1) n(2) by blast
  qed
qed

section \<open>From host to host\<close>

lemma ip_packet_checksum: "net_checksum (ip_header_bytes (ip_packet src_ip dst_ip ident proto n)) = 0"
proof -
  let ?a = "[0x45, 0] @ le16 (htons (of_nat (IP_HDR_LEN + n))) @ le16 (htons ident) @ le16 (htons 0x4000) @ [64, proto]" and ?r = "le32 src_ip @ le32 dst_ip"
  have b: "ip_header_bytes \<lparr>ih_version_ihl = 0x45, ih_dscp_ecn = 0, ih_length = htons (of_nat (IP_HDR_LEN + n)), ih_id = htons ident, ih_flags_offset = htons 0x4000,
      ih_ttl = 64, ih_protocol = proto, ih_checksum = c, ih_src_ip = src_ip, ih_dst_ip = dst_ip\<rparr> = ?a @ le16 c @ ?r" for c
    by (simp add: ip_header_bytes_def)
  have "ip_header_bytes (ip_packet src_ip dst_ip ident proto n) = ?a @ le16 (net_checksum (?a @ le16 0 @ ?r)) @ ?r"
    unfolding ip_packet_def Let_def b ip_header.update_convs by (rule refl)
  then show ?thesis using net_checksum_fills [of ?a ?r] by simp
qed

lemma ip_packet_fields:
  "ih_version_ihl (ip_packet src_ip dst_ip ident proto n) = 0x45" "ih_length (ip_packet src_ip dst_ip ident proto n) = htons (of_nat (IP_HDR_LEN + n))"
  "ih_flags_offset (ip_packet src_ip dst_ip ident proto n) = htons 0x4000" "ih_protocol (ip_packet src_ip dst_ip ident proto n) = proto"
  "ih_src_ip (ip_packet src_ip dst_ip ident proto n) = src_ip" "ih_dst_ip (ip_packet src_ip dst_ip ident proto n) = dst_ip"
  by (simp_all add: ip_packet_def Let_def)

text \<open>What is on the wire for one packet, whatever hardware addresses it carries.\<close>

definition ip_frame :: "u32 \<Rightarrow> u32 \<Rightarrow> u8 \<Rightarrow> u8 list \<Rightarrow> u8 list \<Rightarrow> bool" where
  "ip_frame src_ip dst_ip proto payload f \<longleftrightarrow>
     (\<exists>dm sm ident. f = mac_bytes dm @ mac_bytes sm @ le16 (htons ETH_TYPE_IP) @ ip_header_bytes (ip_packet src_ip dst_ip ident proto (length payload)) @ payload)"

lemma ip_frame_input:
  assumes f: "ip_frame src_ip dst_ip proto payload f" and l: "length payload \<le> IP_MAX_PAYLOAD"
    and d: "dst_ip = if_ip (g_netif s) \<or> dst_ip = 0xFFFFFFFF \<or> dst_ip = (if_ip (g_netif s) OR NOT (if_netmask (g_netif s)))"
  shows "eth_input udp tcp ipv6 f s = ip_dispatch udp tcp proto src_ip dst_ip payload s"
proof -
  obtain dm sm ident where f: "f = mac_bytes dm @ mac_bytes sm @ le16 (htons ETH_TYPE_IP) @ ip_header_bytes (ip_packet src_ip dst_ip ident proto (length payload)) @ payload"
    using f by (auto simp: ip_frame_def)
  let ?ip = "ip_packet src_ip dst_ip ident proto (length payload)"
  let ?p = "ip_header_bytes ?ip @ payload"
  have "drop 12 f = le16 (htons ETH_TYPE_IP) @ ?p" "drop 14 f = ?p" "\<not> length f < 14" by (simp_all add: f)
  then have e: "eth_input udp tcp ipv6 f s = ip_input udp tcp ?p s" by (simp add: eth_input_def)
  have len: "unat (htons (ih_length ?ip)) = 20 + length payload" using l by (simp add: ip_packet_fields unat_of_nat del: of_nat_add)
  have v: "unat ((0x45 :: u8) AND 0x0F) * 4 = 20" "drop_bit 4 (0x45 :: u8) = 4" by simp_all
  have fo: "htons (ih_flags_offset ?ip) AND 0x2000 = 0" "htons (ih_flags_offset ?ip) AND 0x1FFF = 0" by (simp_all add: ip_packet_fields)
  have t: "take 20 ?p = ip_header_bytes ?ip" "drop 20 ?p = payload" by simp_all
  have nd: "\<not> (dst_ip \<noteq> if_ip (g_netif s) \<and> dst_ip \<noteq> 0xFFFFFFFF \<and> dst_ip \<noteq> (if_ip (g_netif s) OR NOT (if_netmask (g_netif s))))" using d by blast
  have k: "net_checksum (ip_header_bytes ?ip) = 0" by (rule ip_packet_checksum)
  show ?thesis unfolding e ip_input_def Let_def ip_header_roundtrip ip_packet_fields(1,4-6) v using nd len fo t k by simp blast
qed

text \<open>Resolving an address sends nothing but ARP requests.\<close>

definition frame_type :: "u8 list \<Rightarrow> u16" where
  "frame_type f = htons (get_le16 (drop 12 f))"

definition arp_only :: "'a ipnet_scheme \<Rightarrow> 'a ipnet_scheme \<Rightarrow> bool" where
  "arp_only s s' \<longleftrightarrow> g_netif s' = g_netif s \<and> g_ping s' = g_ping s \<and> uptime s' = uptime s \<and> ticks s \<le> ticks s' \<and> (\<exists>reqs. frames s' = frames s @ reqs \<and> (\<forall>f \<in> set reqs. frame_type f = ETH_TYPE_ARP))"

lemma arp_only_refl: "arp_only s s"
  by (simp add: arp_only_def)

lemma arp_only_trans: "arp_only s s1 \<Longrightarrow> arp_only s1 s2 \<Longrightarrow> arp_only s s2"
  unfolding arp_only_def by (elim conjE exE, intro conjI) (simp_all, force)

lemma arp_only_quiet: "frames s' = frames s \<Longrightarrow> g_netif s' = g_netif s \<Longrightarrow> g_ping s' = g_ping s \<Longrightarrow> uptime s' = uptime s \<Longrightarrow> ticks s \<le> ticks s' \<Longrightarrow> arp_only s s'"
  by (simp add: arp_only_def)

lemma eth_send_frames:
  assumes "eth_send dm ty h d s = (ok, s')"
  shows "g_netif s' = g_netif s \<and> g_ping s' = g_ping s \<and> uptime s' = uptime s \<and> ticks s' = ticks s \<and> frames s' = frames s @ (if ok then [mac_bytes dm @ mac_bytes (if_mac (g_netif s)) @ le16 (htons ty) @ h @ d] else [])"
  using assms by (auto simp: eth_send_def netif_send_def Let_def split: if_splits)

lemma frame_type_eth [simp]: "frame_type (mac_bytes dm @ mac_bytes sm @ le16 (htons ty) @ r) = ty"
  by (simp add: frame_type_def)

lemma arp_send_only: "arp_only s (snd (arp_send op tm ti dm s))"
proof -
  obtain ok s' where e: "arp_send op tm ti dm s = (ok, s')" by fastforce
  from eth_send_frames [OF e [unfolded arp_send_def]] show ?thesis unfolding e by (auto simp: arp_only_def)
qed

lemma clock_only: "pit_uptime_ms s = (t, s') \<Longrightarrow> arp_only s s'"
  by (rule arp_only_quiet) (auto simp: pit_uptime_ms_def)

lemma lookup_only: "arp_cache_lookup ip s = (r, s') \<Longrightarrow> arp_only s s'"
  by (rule arp_only_quiet) (auto simp: arp_cache_lookup_def pit_uptime_ms_def split: option.splits if_splits)

lemma wait_only: "arp_only s (net_wait s)"
  by (rule arp_only_quiet) (simp_all add: net_wait_def)

lemma arp_loop_only:
  assumes "arp_loop ip deadline next_retry s = Some y"
  shows "arp_only s (snd y)"
proof (rule arp_loop.raw_induct [where P = "\<lambda>ip deadline next_retry s y. arp_only s (snd y)", OF _ assms])
  fix f :: "u32 \<Rightarrow> u64 \<Rightarrow> u64 \<Rightarrow> 'a ipnet_scheme \<Rightarrow> (mac option \<times> 'a ipnet_scheme) option" and ip deadline next_retry s y
  assume ih: "\<And>ip deadline next_retry s y. f ip deadline next_retry s = Some y \<Longrightarrow> arp_only s (snd y)"
  assume body: "(case pit_uptime_ms s of (now, s1) \<Rightarrow>
      if \<not> now < deadline then Some (None, s1)
      else
        (case pit_uptime_ms s1 of (now, s2) \<Rightarrow>
         case (if now \<ge> next_retry then
                 (case pit_uptime_ms (snd (arp_send ARP_OP_REQUEST 0 ip eth_broadcast s2)) of (t, s3) \<Rightarrow> (t + 250, s3))
               else (next_retry, s2)) of (next_retry, s4) \<Rightarrow>
         case arp_cache_lookup ip (net_wait s4) of (r, s5) \<Rightarrow>
         if r \<noteq> None then Some (r, s5) else f ip deadline next_retry s5)) = Some y"
  obtain t1 s1 where 1: "pit_uptime_ms s = (t1, s1)" by fastforce
  obtain t2 s2 where 2: "pit_uptime_ms s1 = (t2, s2)" by fastforce
  obtain n4 s4 where 4: "(if t2 \<ge> next_retry then
                 (case pit_uptime_ms (snd (arp_send ARP_OP_REQUEST 0 ip eth_broadcast s2)) of (t, s3) \<Rightarrow> (t + 250, s3))
               else (next_retry, s2)) = (n4, s4)" by fastforce
  obtain r s5 where 5: "arp_cache_lookup ip (net_wait s4) = (r, s5)" by fastforce
  have o1: "arp_only s s1" by (rule clock_only [OF 1])
  have o2: "arp_only s1 s2" by (rule clock_only [OF 2])
  have "arp_only s2 s4"
  proof (cases "t2 \<ge> next_retry")
    case True
    let ?q = "snd (arp_send ARP_OP_REQUEST 0 ip eth_broadcast s2)"
    obtain t s3 where 3: "pit_uptime_ms ?q = (t, s3)" by fastforce
    then have "s4 = s3" using 4 True by simp
    then show ?thesis using arp_only_trans [OF arp_send_only clock_only [OF 3]] by simp
  qed (use 4 arp_only_refl in auto)
  from arp_only_trans [OF arp_only_trans [OF arp_only_trans [OF o1 o2] this] arp_only_trans [OF wait_only lookup_only [OF 5]]]
  have o5: "arp_only s s5" .
  have "(if \<not> t1 < deadline then Some (None, s1) else if r \<noteq> None then Some (r, s5) else f ip deadline n4 s5) = Some y"
    using body unfolding 1 prod.case 2 4 5 .
  then consider "Some (None, s1) = Some y" | "Some (r, s5) = Some y" | "f ip deadline n4 s5 = Some y" by argo
  then show "arp_only s (snd y)"
  proof cases
    case 3
    from arp_only_trans [OF o5 ih [OF this]] show ?thesis .
  qed (use o1 o5 in auto)
qed

lemma arp_resolve_only:
  assumes "arp_resolve ip timeout s = Some (r, s')"
  shows "arp_only s s'"
proof -
  obtain r1 s1 where 1: "arp_cache_lookup ip s = (r1, s1)" by fastforce
  obtain t s2 where 2: "pit_uptime_ms s1 = (t, s2)" by fastforce
  have o2: "arp_only s s2" by (rule arp_only_trans [OF lookup_only [OF 1] clock_only [OF 2]])
  consider "s' = s1" | "arp_loop ip (t + ucast timeout) 0 s2 = Some (r, s')" using assms 1 2 by (auto simp: arp_resolve_def split: if_splits)
  then show ?thesis
  proof cases
    case 2
    from arp_only_trans [OF o2 arp_loop_only [OF this]] show ?thesis by simp
  qed (use lookup_only [OF 1] in simp)
qed

lemma ip_output_frames:
  assumes "ip_output dst_ip proto h d s = Some (ok, s')"
  obtains reqs f where "frames s' = frames s @ reqs @ (if ok then [f] else [])" "\<forall>q \<in> set reqs. frame_type q = ETH_TYPE_ARP" "g_netif s' = g_netif s" "g_ping s' = g_ping s" "uptime s' = uptime s"
    "ok \<Longrightarrow> ip_frame (if_ip (g_netif s)) dst_ip proto (h @ d) f \<and> if_up (g_netif s) \<and> length h + length d \<le> IP_MAX_PAYLOAD"
proof (cases "if_up (g_netif s) \<and> length h + length d \<le> IP_MAX_PAYLOAD")
  case False
  then have "ok = False" "s' = s" using assms by (auto simp: ip_output_def split: if_splits)
  then show thesis using that [of "[]"] by simp
next
  case True
  let ?s = "s\<lparr>ip_id_counter := ip_id_counter s + 1\<rparr>"
  let ?p = "ip_header_bytes (ip_packet (if_ip (g_netif s)) dst_ip (ip_id_counter s) proto (length h + length d)) @ h @ d"
  obtain r s1 where 1: "arp_resolve (ip_next_hop dst_ip ?s) 1000 ?s = Some (r, s1)"
    using assms True by (auto simp: ip_output_def Let_def split: Option.bind_splits)
  obtain reqs where q: "frames s1 = frames s @ reqs" "\<forall>q \<in> set reqs. frame_type q = ETH_TYPE_ARP" "g_netif s1 = g_netif s" "g_ping s1 = g_ping s" "uptime s1 = uptime s"
    using arp_resolve_only [OF 1] by (auto simp: arp_only_def)
  show thesis
  proof (cases r)
    case None
    then have "ok = False" "s' = s1" using assms True 1 by (auto simp: ip_output_def Let_def)
    then show thesis using that [of reqs] q by simp
  next
    case (Some m)
    then have e: "eth_send m ETH_TYPE_IP ?p [] s1 = (ok, s')" using assms True 1 by (auto simp: ip_output_def Let_def)
    let ?f = "mac_bytes m @ mac_bytes (if_mac (g_netif s)) @ le16 (htons ETH_TYPE_IP) @ ?p"
    have "ip_frame (if_ip (g_netif s)) dst_ip proto (h @ d) ?f" unfolding ip_frame_def by (intro exI [of _ m] exI [of _ "if_mac (g_netif s)"] exI [of _ "ip_id_counter s"]) simp
    then show thesis using that [of reqs ?f] q eth_send_frames [OF e] True by simp
  qed
qed


text \<open>The TCP packets among the frames on the wire, with their destinations: what the world of a TCP connection sees.\<close>

definition carried :: "u8 list list \<Rightarrow> (u32 \<times> u8 list) list" where
  "carried fs = map (\<lambda>f. (ih_dst_ip (ip_header_of (drop 14 f)), drop 34 f))
     (filter (\<lambda>f. frame_type f = ETH_TYPE_IP \<and> ih_protocol (ip_header_of (drop 14 f)) = IP_PROTOCOL_TCP) fs)"

lemma carried_append [simp]: "carried (fs @ gs) = carried fs @ carried gs" "carried [] = []"
  by (simp_all add: carried_def)

lemma carried_arp: "\<forall>q \<in> set fs. frame_type q = ETH_TYPE_ARP \<Longrightarrow> carried fs = []"
  by (auto simp: carried_def filter_empty_conv)

lemma carried_ip: "ip_frame src_ip dst_ip IP_PROTOCOL_TCP payload f \<Longrightarrow> carried [f] = [(dst_ip, payload)]"
  by (auto simp: ip_frame_def carried_def ip_packet_fields)


section \<open>Resolving ends\<close>

lemma arp_loop_returns:
  assumes "\<forall>n \<ge> N. deadline \<le> uptime s n"
  shows "\<exists>y. arp_loop ip deadline next_retry s = Some y"
  using assms
proof (induction "N - ticks s" arbitrary: s next_retry rule: less_induct)
  case less
  obtain t1 s1 where 1: "pit_uptime_ms s = (t1, s1)" by fastforce
  obtain t2 s2 where 2: "pit_uptime_ms s1 = (t2, s2)" by fastforce
  obtain n4 s4 where 4: "(if t2 \<ge> next_retry then
                 (case pit_uptime_ms (snd (arp_send ARP_OP_REQUEST 0 ip eth_broadcast s2)) of (t, s3) \<Rightarrow> (t + 250, s3))
               else (next_retry, s2)) = (n4, s4)" by fastforce
  obtain r s5 where 5: "arp_cache_lookup ip (net_wait s4) = (r, s5)" by fastforce
  have b: "arp_loop ip deadline next_retry s = (if \<not> t1 < deadline then Some (None, s1) else if r \<noteq> None then Some (r, s5) else arp_loop ip deadline n4 s5)"
    by (subst arp_loop.simps) (simp only: 1 prod.case 2 4 5)
  show ?case
  proof (cases "t1 < deadline \<and> r = None")
    case False
    then show ?thesis unfolding b by auto
  next
    case True
    have "t1 = uptime s (ticks s)" using 1 by (simp add: pit_uptime_ms_def)
    then have lt: "ticks s < N" using True less.prems by (meson not_le)
    have "arp_only s1 s5"
    proof -
      have "arp_only s2 s4"
      proof (cases "t2 \<ge> next_retry")
        case True
        let ?q = "snd (arp_send ARP_OP_REQUEST 0 ip eth_broadcast s2)"
        obtain t s3 where 3: "pit_uptime_ms ?q = (t, s3)" by fastforce
        then have "s4 = s3" using 4 True by simp
        then show ?thesis using arp_only_trans [OF arp_send_only clock_only [OF 3]] by simp
      qed (use 4 arp_only_refl in auto)
      from arp_only_trans [OF arp_only_trans [OF clock_only [OF 2] this] arp_only_trans [OF wait_only lookup_only [OF 5]]] show ?thesis .
    qed
    then have u: "uptime s5 = uptime s1" "ticks s1 \<le> ticks s5" by (simp_all add: arp_only_def)
    have s1: "uptime s1 = uptime s" "ticks s1 = Suc (ticks s)" using 1 by (auto simp: pit_uptime_ms_def)
    have "\<exists>y. arp_loop ip deadline n4 s5 = Some y" by (rule less.hyps) (use u s1 lt less.prems in auto)
    then show ?thesis unfolding b using True by simp
  qed
qed

text \<open>Sending a packet returns: the wait for the next hop ends at the latest when the clock has advanced by the one second it is given.\<close>

theorem ip_output_returns:
  assumes "\<forall>n \<ge> N. uptime s (Suc (ticks s)) + 1000 \<le> uptime s n"
  shows "\<exists>ok s'. ip_output dst_ip proto h d s = Some (ok, s')"
proof -
  let ?s = "s\<lparr>ip_id_counter := ip_id_counter s + 1\<rparr>"
  let ?ip = "ip_next_hop dst_ip ?s"
  obtain r s1 where 1: "arp_cache_lookup ?ip ?s = (r, s1)" by fastforce
  have u: "uptime s1 = uptime s" "ticks s1 = Suc (ticks s)"
    using 1 by (auto simp: arp_cache_lookup_def pit_uptime_ms_def split: option.splits if_splits)
  obtain t s2 where 2: "pit_uptime_ms s1 = (t, s2)" by fastforce
  then have t: "t = uptime s (Suc (ticks s))" "uptime s2 = uptime s" using u by (auto simp: pit_uptime_ms_def)
  have "\<exists>y. arp_loop ?ip (t + ucast (1000 :: u32)) 0 s2 = Some y" by (rule arp_loop_returns [of N]) (use assms t in simp)
  then have "\<exists>y. arp_resolve ?ip 1000 ?s = Some y" using 1 2 by (auto simp: arp_resolve_def)
  then show ?thesis by (auto simp: ip_output_def Let_def split: option.splits)
qed

section \<open>Ping\<close>

lemma resolve_cached:
  assumes "arp_ok (arp_cache s)" "arp_abs (arp_cache s) ip = Some (m, t)" "\<not> uptime s (ticks s) - t > ARP_ENTRY_TTL_MS"
  shows "arp_resolve ip timeout s = Some (Some m, s\<lparr>ticks := Suc (ticks s)\<rparr>)"
proof -
  obtain i where i: "arp_find ip (arp_cache s) [0..<ARP_CACHE_SIZE] = Some i" "ae_mac (arp_cache s ! i) = m" "ae_added_ms (arp_cache s ! i) = t"
    using assms(2) by (auto simp: arp_abs_def)
  then have "arp_cache_lookup ip s = (Some m, s\<lparr>ticks := Suc (ticks s)\<rparr>)" using assms(3) by (simp add: arp_cache_lookup_def pit_uptime_ms_def)
  then show ?thesis by (simp add: arp_resolve_def)
qed

lemma output_cached:
  assumes "arp_ok (arp_cache s)" "arp_abs (arp_cache s) (ip_next_hop dst_ip s) = Some (m, t)" "\<not> uptime s (ticks s) - t > ARP_ENTRY_TTL_MS"
    "if_up (g_netif s)" "drv_ok s (drv_sends s)" "length h + length d \<le> IP_MAX_PAYLOAD"
  shows "\<exists>s'. ip_output dst_ip proto h d s = Some (True, s')"
proof -
  let ?s = "s\<lparr>ip_id_counter := ip_id_counter s + 1\<rparr>"
  have n: "ip_next_hop dst_ip ?s = ip_next_hop dst_ip s" by (simp add: ip_next_hop_def)
  have "arp_resolve (ip_next_hop dst_ip s) 1000 ?s = Some (Some m, ?s\<lparr>ticks := Suc (ticks s)\<rparr>)" using resolve_cached [of ?s "ip_next_hop dst_ip s" m t] assms(1-3) by simp
  then show ?thesis using assms(4-6) n by (simp add: ip_output_def Let_def eth_send_def netif_send_def)
qed


section \<open>Two hosts\<close>

text \<open>A host with address \<open>a\<close> that knows the hardware address of \<open>b\<close>.\<close>

definition sample_host :: "u32 \<Rightarrow> u32 \<Rightarrow> ipnet" where
  "sample_host a b = \<lparr>uptime = (\<lambda>n. if n < 5 then 5 else 2000), ticks = 0,
     g_netif = \<lparr>if_up = True, if_mac = 17, if_ip = a, if_netmask = 0, if_gateway = 0, if_dns = 0\<rparr>,
     arp_cache = \<lparr>ae_ip = b, ae_mac = 18, ae_added_ms = 5, ae_valid = True\<rparr> # replicate 31 \<lparr>ae_ip = 0, ae_mac = 0, ae_added_ms = 0, ae_valid = False\<rparr>,
     ip_id_counter = 1, g_ping = \<lparr>ps_waiting = False, ps_got_reply = False, ps_from_ip = 0, ps_id = 0, ps_seq = 0, ps_sent_ms = 0, ps_reply_ms = 0\<rparr>,
     drv_ok = (\<lambda>_. True), drv_sends = 0, frames = [], waits = (\<lambda>_ c. c), waited = 0\<rparr>"

lemma sample_cache: "arp_ok (arp_cache (sample_host a b))" "arp_abs (arp_cache (sample_host a b)) b = Some (18, 5)"
proof -
  let ?c = "arp_cache (sample_host a b)"
  have v: "ae_valid (?c ! i) \<longleftrightarrow> i = 0" if "i < ARP_CACHE_SIZE" for i using that by (cases i) (auto simp: sample_host_def)
  show ok: "arp_ok ?c" unfolding arp_ok_def using v by (auto simp: sample_host_def)
  show "arp_abs ?c b = Some (18, 5)" unfolding arp_abs_Some [OF ok] by (rule exI [of _ 0]) (simp add: sample_host_def)
qed

lemma sample_hop: "ip_next_hop x (sample_host a b) = x"
  by (simp add: ip_next_hop_def sample_host_def Let_def)

lemma sample_fields: "if_up (g_netif (sample_host a b))" "drv_ok (sample_host a b) k" "if_ip (g_netif (sample_host a b)) = a"
    "\<not> uptime (sample_host a b) (ticks (sample_host a b)) - 5 > ARP_ENTRY_TTL_MS" "frames (sample_host a b) = []"
  by (simp_all add: sample_host_def)

lemma sample_output: "length h + length d \<le> IP_MAX_PAYLOAD \<Longrightarrow> \<exists>s'. ip_output b proto h d (sample_host a b) = Some (True, s')"
  using output_cached [OF sample_cache(1) _ sample_fields(4) sample_fields(1,2), of a b b] sample_cache(2) sample_hop by metis

theorem arp_cache_add_updates_witness:
  "arp_ok (arp_cache (arp_cache_add 3 19 (sample_host 1 2))) \<and> arp_abs (arp_cache (arp_cache_add 3 19 (sample_host 1 2))) 3 = Some (19, 5)"
proof -
  have "uptime (sample_host 1 2) (ticks (sample_host 1 2)) = 5" by (simp add: sample_host_def)
  then show ?thesis using arp_cache_add_updates [OF sample_cache(1), of 3 19 1 2] by auto
qed



theorem ip_output_returns_witness: "\<exists>ok s'. ip_output 77 IP_PROTOCOL_TCP [] [] (sample_host 1 2) = Some (ok, s')"
  by (rule ip_output_returns [of 5]) (simp add: sample_host_def)


end
