(* ===== verification/Udp.thy ===== *)
theory Udp
  imports Ip_Props Byte_Ring
begin

text \<open>
  UDP, \<^verbatim>\<open>kernel/net/udp.c\<close> and \<^verbatim>\<open>udp.h\<close>, on top of the IP layer: control blocks with a queue of eight datagrams, ports, sending and the
  receive path. Pointers are keys of the heap of control blocks; following one that is not there is \<open>None\<close>. A datagram that is sent
  arrives at the socket it is meant for with its bytes and the address of its sender, behind those that are waiting there.
\<close>

section \<open>Control blocks\<close>

abbreviation (input) UDP_PCB_MAX :: nat where "UDP_PCB_MAX \<equiv> 32"
abbreviation (input) UDP_QUEUE_DEPTH :: nat where "UDP_QUEUE_DEPTH \<equiv> 8"
abbreviation (input) UDP_DGRAM_MAX :: nat where "UDP_DGRAM_MAX \<equiv> 1472"
abbreviation (input) UDP_EPHEMERAL_LOW :: nat where "UDP_EPHEMERAL_LOW \<equiv> 49152"
abbreviation (input) UDP_EPHEMERAL_HIGH :: nat where "UDP_EPHEMERAL_HIGH \<equiv> 65535"
abbreviation (input) EMSGSIZE :: int where "EMSGSIZE \<equiv> 90"
abbreviation (input) U_POLLIN :: u16 where "U_POLLIN \<equiv> 1"
abbreviation (input) U_POLLOUT :: u16 where "U_POLLOUT \<equiv> 4"

text \<open>\<open>ud_data\<close> is the part of the buffer of a datagram that is in use.\<close>

record udp_dgram =
  ud_src_ip :: u32
  ud_src_port :: u16
  ud_data :: "u8 list"

record udp_pcb =
  up_local_ip :: u32
  up_local_port :: u16
  up_remote_ip :: u32
  up_remote_port :: u16
  up_queue :: "nat \<Rightarrow> udp_dgram"
  up_head :: nat
  up_count :: nat

type_synonym uaddr = nat

text \<open>The table \<^verbatim>\<open>pcbs\<close> and the allocated control blocks; the kernel heap is seen through its contract, as in the model of TCP.\<close>

record udp = ipnet +
  u_pcbs :: "uaddr option list"
  u_heap :: "uaddr \<Rightarrow> udp_pcb option"
  u_next_port :: u16
  u_oom :: "nat \<Rightarrow> bool"
  u_next :: nat
  u_junk :: "nat \<Rightarrow> nat \<Rightarrow> udp_dgram"

definition u_alloc :: "'a udp_scheme \<Rightarrow> uaddr option \<times> 'a udp_scheme" where
  "u_alloc s = (if u_oom s (u_next s) then None else Some (u_next s), s\<lparr>u_next := Suc (u_next s)\<rparr>)"

definition set_upcb :: "uaddr \<Rightarrow> udp_pcb \<Rightarrow> 'a udp_scheme \<Rightarrow> 'a udp_scheme" where
  "set_upcb a p s = s\<lparr>u_heap := (u_heap s)(a \<mapsto> p)\<rparr>"

definition udp_pcb_new :: "'a udp_scheme \<Rightarrow> uaddr option \<times> 'a udp_scheme" where
  "udp_pcb_new s =
     (case scan (\<lambda>i. u_pcbs s ! i = None) 0 UDP_PCB_MAX of
        None \<Rightarrow> (None, s)
      | Some slot \<Rightarrow>
          (case u_alloc s of
             (None, s) \<Rightarrow> (None, s)
           | (Some a, s) \<Rightarrow>
               (case u_alloc s of
                  (None, s) \<Rightarrow> (None, s)
                | (Some q, s) \<Rightarrow>
                    (Some a,
                     (set_upcb a \<lparr>up_local_ip = 0, up_local_port = 0, up_remote_ip = 0, up_remote_port = 0, up_queue = u_junk s q, up_head = 0, up_count = 0\<rparr> s)
                       \<lparr>u_pcbs := (u_pcbs s)[slot := Some a]\<rparr>))))"

definition udp_pcb_free :: "uaddr option \<Rightarrow> 'a udp_scheme \<Rightarrow> 'a udp_scheme option" where
  "udp_pcb_free pcb s =
     (case pcb of
        None \<Rightarrow> Some s
      | Some a \<Rightarrow> do {
          p \<leftarrow> u_heap s a;
          let s = (case scan (\<lambda>i. u_pcbs s ! i = Some a) 0 UDP_PCB_MAX of Some i \<Rightarrow> s\<lparr>u_pcbs := (u_pcbs s)[i := None]\<rparr> | None \<Rightarrow> s);
          Some (s\<lparr>u_heap := (u_heap s)(a := None)\<rparr>)
        })"

fun u_port_taken :: "u16 \<Rightarrow> uaddr option list \<Rightarrow> 'a udp_scheme \<Rightarrow> bool option" where
  "u_port_taken port [] s = Some False"
| "u_port_taken port (None # es) s = u_port_taken port es s"
| "u_port_taken port (Some a # es) s = do { p \<leftarrow> u_heap s a; if up_local_port p = port then Some True else u_port_taken port es s }"

definition udp_port_taken :: "u16 \<Rightarrow> 'a udp_scheme \<Rightarrow> bool option" where
  "udp_port_taken port s = u_port_taken port (u_pcbs s) s"

fun u_port_loop :: "nat \<Rightarrow> 'a udp_scheme \<Rightarrow> (u16 \<times> 'a udp_scheme) option" where
  "u_port_loop 0 s = Some (0, s)"
| "u_port_loop (Suc tries) s = do {
     let port = u_next_port s;
     let nxt = u_next_port s + 1;
     let s = s\<lparr>u_next_port := (if unat nxt > UDP_EPHEMERAL_HIGH then of_nat UDP_EPHEMERAL_LOW else nxt)\<rparr>;
     taken \<leftarrow> udp_port_taken port s;
     if \<not> taken then Some (port, s) else u_port_loop tries s
   }"

definition udp_alloc_port :: "'a udp_scheme \<Rightarrow> (u16 \<times> 'a udp_scheme) option" where
  "udp_alloc_port s = u_port_loop (UDP_EPHEMERAL_HIGH - UDP_EPHEMERAL_LOW + 1) s"

definition udp_bind :: "uaddr option \<Rightarrow> u32 \<Rightarrow> u16 \<Rightarrow> 'a udp_scheme \<Rightarrow> (int \<times> 'a udp_scheme) option" where
  "udp_bind pcb ip port s =
     (case pcb of
        None \<Rightarrow> Some (- EINVAL, s)
      | Some a \<Rightarrow> do {
          (port, ok, s) \<leftarrow>
            (if port = 0 then do { (port, s) \<leftarrow> udp_alloc_port s; Some (port, port \<noteq> 0, s) }
             else do { taken \<leftarrow> udp_port_taken port s; Some (port, \<not> taken, s) });
          if \<not> ok then Some (- EADDRINUSE, s)
          else do { p \<leftarrow> u_heap s a; Some (0, set_upcb a (p\<lparr>up_local_ip := ip, up_local_port := port\<rparr>) s) }
        })"

definition udp_connect :: "uaddr option \<Rightarrow> u32 \<Rightarrow> u16 \<Rightarrow> 'a udp_scheme \<Rightarrow> (int \<times> 'a udp_scheme) option" where
  "udp_connect pcb ip port s =
     (case pcb of
        None \<Rightarrow> Some (- EINVAL, s)
      | Some a \<Rightarrow> do {
          p \<leftarrow> u_heap s a;
          let s = set_upcb a (p\<lparr>up_remote_ip := ip, up_remote_port := port\<rparr>) s;
          if up_local_port p = 0 then udp_bind (Some a) 0 0 s else Some (0, s)
        })"

section \<open>Sending and receiving\<close>

record udp_header =
  uh_src_port :: u16
  uh_dst_port :: u16
  uh_length :: u16
  uh_checksum :: u16

abbreviation (input) UDP_HDR_LEN :: nat where "UDP_HDR_LEN \<equiv> 8"

definition udp_header_bytes :: "udp_header \<Rightarrow> u8 list" where
  "udp_header_bytes h = le16 (uh_src_port h) @ le16 (uh_dst_port h) @ le16 (uh_length h) @ le16 (uh_checksum h)"

definition udp_header_of :: "u8 list \<Rightarrow> udp_header" where
  "udp_header_of p = \<lparr>uh_src_port = get_le16 p, uh_dst_port = get_le16 (drop 2 p), uh_length = get_le16 (drop 4 p), uh_checksum = get_le16 (drop 6 p)\<rparr>"

definition udp_header_for :: "u32 \<Rightarrow> u32 \<Rightarrow> u16 \<Rightarrow> u16 \<Rightarrow> u8 list \<Rightarrow> udp_header" where
  "udp_header_for src_ip dst_ip src_port dst_port buf =
     (let uh = \<lparr>uh_src_port = htons src_port, uh_dst_port = htons dst_port, uh_length = htons (of_nat (UDP_HDR_LEN + length buf)), uh_checksum = 0\<rparr>;
          c = transport_checksum src_ip dst_ip IP_PROTOCOL_UDP (udp_header_bytes uh) buf
      in uh\<lparr>uh_checksum := (if c \<noteq> 0 then c else 0xFFFF)\<rparr>)"

definition udp_sendto :: "uaddr option \<Rightarrow> u8 list \<Rightarrow> u32 \<Rightarrow> u16 \<Rightarrow> 'a udp_scheme \<Rightarrow> (int \<times> 'a udp_scheme) option" where
  "udp_sendto pcb buf dst_ip dst_port s =
     (case pcb of
        None \<Rightarrow> Some (- EINVAL, s)
      | Some a \<Rightarrow>
          if length buf > UDP_DGRAM_MAX then Some (- EMSGSIZE, s)
          else if dst_ip = 0 \<or> dst_port = 0 then Some (- EDESTADDRREQ, s)
          else do {
            p \<leftarrow> u_heap s a;
            (r, s) \<leftarrow> (if up_local_port p = 0 then udp_bind (Some a) 0 0 s else Some (0, s));
            if r < 0 then Some (r, s)
            else do {
              p \<leftarrow> u_heap s a;
              (ok, s) \<leftarrow> ip_output dst_ip IP_PROTOCOL_UDP (udp_header_bytes (udp_header_for (if_ip (g_netif s)) dst_ip (up_local_port p) dst_port buf)) buf s;
              Some (if ok then int (length buf) else - EHOSTUNREACH, s)
            }
          })"

text \<open>One turn of the loop of \<^verbatim>\<open>udp_recvfrom\<close>, up to \<^verbatim>\<open>net_wait\<close>, and the call up to its first wait. It returns the bytes and their sender.\<close>

definition udp_recv_turn :: "uaddr \<Rightarrow> nat \<Rightarrow> u32 \<Rightarrow> u64 \<Rightarrow> 'a udp_scheme \<Rightarrow> ((int \<times> (u8 list \<times> u32 \<times> u16) option) blocking \<times> 'a udp_scheme) option" where
  "udp_recv_turn a len timeout_ms deadline s = do {
     p \<leftarrow> u_heap s a;
     if up_count p = 0 then
       (if timeout_ms = 0 then Some (Done (- EAGAIN, None), s)
        else case pit_uptime_ms s of (now, s) \<Rightarrow> Some (if now \<ge> deadline then Done (- EAGAIN, None) else Blocked, s))
     else
       let d = up_queue p (up_head p);
           n = (if length (ud_data d) < len then length (ud_data d) else len)
       in Some (Done (int n, Some (take n (ud_data d), ud_src_ip d, ud_src_port d)),
                set_upcb a (p\<lparr>up_head := (up_head p + 1) mod UDP_QUEUE_DEPTH, up_count := up_count p - 1\<rparr>) s)
   }"

definition udp_recvfrom :: "uaddr option \<Rightarrow> nat \<Rightarrow> u32 \<Rightarrow> 'a udp_scheme \<Rightarrow> ((int \<times> (u8 list \<times> u32 \<times> u16) option) blocking \<times> 'a udp_scheme) option" where
  "udp_recvfrom pcb len timeout_ms s =
     (case pcb of
        None \<Rightarrow> Some (Done (- EINVAL, None), s)
      | Some a \<Rightarrow> (case pit_uptime_ms s of (now, s) \<Rightarrow> udp_recv_turn a len timeout_ms (now + ucast timeout_ms) s))"

definition udp_poll :: "uaddr option \<Rightarrow> 'a udp_scheme \<Rightarrow> u16 option" where
  "udp_poll pcb s =
     (case pcb of
        None \<Rightarrow> Some U_POLLOUT
      | Some a \<Rightarrow> do { p \<leftarrow> u_heap s a; Some (U_POLLOUT OR (if up_count p > 0 then U_POLLIN else 0)) })"

definition queue_dgram :: "udp_dgram \<Rightarrow> udp_pcb \<Rightarrow> udp_pcb" where
  "queue_dgram d p =
     (if up_count p \<ge> UDP_QUEUE_DEPTH then p
      else p\<lparr>up_queue := (up_queue p)((up_head p + up_count p) mod UDP_QUEUE_DEPTH := d), up_count := up_count p + 1\<rparr>)"

fun udp_deliver :: "u16 \<Rightarrow> udp_dgram \<Rightarrow> uaddr option list \<Rightarrow> 'a udp_scheme \<Rightarrow> 'a udp_scheme option" where
  "udp_deliver dst_port d [] s = Some s"
| "udp_deliver dst_port d (None # es) s = udp_deliver dst_port d es s"
| "udp_deliver dst_port d (Some a # es) s = do {
     p \<leftarrow> u_heap s a;
     if up_local_port p \<noteq> dst_port then udp_deliver dst_port d es s
     else if up_remote_ip p \<noteq> 0 \<and> (up_remote_ip p \<noteq> ud_src_ip d \<or> up_remote_port p \<noteq> ud_src_port d) then udp_deliver dst_port d es s
     else Some (set_upcb a (queue_dgram d p) s)
   }"

definition udp_input :: "u32 \<Rightarrow> u32 \<Rightarrow> u8 list \<Rightarrow> 'a udp_scheme \<Rightarrow> 'a udp_scheme option" where
  "udp_input src_ip dst_ip datagram s =
     (if length datagram < UDP_HDR_LEN then Some s
      else
        let uh = udp_header_of datagram; len = unat (htons (uh_length uh)) in
        if len < UDP_HDR_LEN \<or> len > length datagram then Some s
        else if uh_checksum uh \<noteq> 0 \<and> transport_checksum src_ip dst_ip IP_PROTOCOL_UDP (take len datagram) [] \<noteq> 0 then Some s
        else
          udp_deliver (htons (uh_dst_port uh))
            \<lparr>ud_src_ip = src_ip, ud_src_port = htons (uh_src_port uh), ud_data = take UDP_DGRAM_MAX (take (len - UDP_HDR_LEN) (drop UDP_HDR_LEN datagram))\<rparr>
            (u_pcbs s) s)"

section \<open>Datagrams on the wire\<close>

lemma length_udp_header [simp]: "length (udp_header_bytes h) = UDP_HDR_LEN"
  by (simp add: udp_header_bytes_def)

lemma udp_header_roundtrip [simp]: "udp_header_of (udp_header_bytes h @ r) = h"
proof -
  let ?p = "udp_header_bytes h @ r"
  have d: "?p = le16 (uh_src_port h) @ drop 2 ?p" "drop 2 ?p = le16 (uh_dst_port h) @ drop 4 ?p" "drop 4 ?p = le16 (uh_length h) @ drop 6 ?p" "drop 6 ?p = le16 (uh_checksum h) @ r"
    by (simp_all add: udp_header_bytes_def)
  have "get_le16 ?p = uh_src_port h" "get_le16 (drop 2 ?p) = uh_dst_port h" "get_le16 (drop 4 ?p) = uh_length h" "get_le16 (drop 6 ?p) = uh_checksum h"
    by (metis d get_le16_le16)+
  then show ?thesis by (simp add: udp_header_of_def)
qed

lemma udp_header_fields:
  "uh_src_port (udp_header_for src_ip dst_ip sp dp buf) = htons sp" "uh_dst_port (udp_header_for src_ip dst_ip sp dp buf) = htons dp"
  "uh_length (udp_header_for src_ip dst_ip sp dp buf) = htons (of_nat (UDP_HDR_LEN + length buf))" "uh_checksum (udp_header_for src_ip dst_ip sp dp buf) \<noteq> 0"
  by (simp_all add: udp_header_for_def Let_def)

lemma udp_checksum_ok:
  assumes "length buf \<le> UDP_DGRAM_MAX"
  shows "transport_checksum src_ip dst_ip IP_PROTOCOL_UDP (udp_header_bytes (udp_header_for src_ip dst_ip sp dp buf) @ buf) [] = 0"
proof -
  let ?a = "le16 (htons sp) @ le16 (htons dp) @ le16 (htons (of_nat (UDP_HDR_LEN + length buf)))"
  let ?S = "wire_sum src_ip dst_ip IP_PROTOCOL_UDP (?a @ le16 0 @ buf)"
  define c where "c = transport_checksum src_ip dst_ip IP_PROTOCOL_UDP (?a @ le16 0) buf"
  define k where "k = (if c \<noteq> 0 then c else 0xFFFF)"
  have l: "length (?a @ le16 0) + length buf \<le> 60000" "even (length (?a @ le16 0)) \<or> buf = []" using assms by simp_all
  have T: "c = checksum_fold (of_nat ?S)" "?S < 2 ^ 32"
    using transport_checksum_nat [OF l(2,1), of src_ip dst_ip IP_PROTOCOL_UDP] by (simp_all add: c_def)
  have b: "udp_header_bytes (udp_header_for src_ip dst_ip sp dp buf) @ buf = ?a @ le16 k @ buf"
    by (simp add: udp_header_for_def udp_header_bytes_def Let_def k_def c_def)
  have w: "wire_sum src_ip dst_ip IP_PROTOCOL_UDP (?a @ le16 k @ buf) = ?S + unat k" using csum_field [of ?a k buf] by (simp add: wire_sum_def)
  have "65535 dvd ?S + unat k \<and> 0 < ?S + unat k"
  proof (cases "c = 0")
    case False
    then show ?thesis using checksum_completes [OF T(2)] by (simp add: k_def T(1))
  next
    case True
    then have "65535 dvd ?S" using checksum_completes(1) [OF T(2)] T(1) by simp
    then have "65535 dvd ?S + 65535" by simp
    then show ?thesis using True by (simp add: k_def)
  qed
  then have "transport_checksum src_ip dst_ip IP_PROTOCOL_UDP (?a @ le16 k @ buf) [] = 0"
    using transport_checksum_zero [of "?a @ le16 k @ buf" "[]" src_ip dst_ip IP_PROTOCOL_UDP] w assms by simp
  then show ?thesis unfolding b .
qed

lemma udp_input_sent:
  assumes "length buf \<le> UDP_DGRAM_MAX"
  shows "udp_input src_ip dst_ip (udp_header_bytes (udp_header_for src_ip dst_ip sp dp buf) @ buf) t =
    udp_deliver dp \<lparr>ud_src_ip = src_ip, ud_src_port = sp, ud_data = buf\<rparr> (u_pcbs t) t"
proof -
  let ?uh = "udp_header_for src_ip dst_ip sp dp buf"
  have n: "unat (htons (uh_length ?uh)) = 8 + length buf" using assms by (simp add: udp_header_fields unat_of_nat del: of_nat_add)
  have "take (8 + length buf) (udp_header_bytes ?uh @ buf) = udp_header_bytes ?uh @ buf" by simp
  then show ?thesis unfolding udp_input_def Let_def udp_header_roundtrip n using udp_checksum_ok [OF assms, of src_ip dst_ip sp dp] assms
    by (simp add: udp_header_fields)
qed

section \<open>The queue of a socket\<close>

definition uq_ok :: "udp_pcb \<Rightarrow> bool" where
  "uq_ok p \<longleftrightarrow> up_head p < UDP_QUEUE_DEPTH \<and> up_count p \<le> UDP_QUEUE_DEPTH"

definition udp_contents :: "udp_pcb \<Rightarrow> udp_dgram list" where
  "udp_contents p = map (\<lambda>i. up_queue p ((up_head p + i) mod UDP_QUEUE_DEPTH)) [0..<up_count p]"

lemma queue_contents:
  assumes "uq_ok p"
  shows "uq_ok (queue_dgram d p)" "udp_contents (queue_dgram d p) = take UDP_QUEUE_DEPTH (udp_contents p @ [d])"
proof -
  show "uq_ok (queue_dgram d p)" using assms by (simp add: uq_ok_def queue_dgram_def)
  show "udp_contents (queue_dgram d p) = take UDP_QUEUE_DEPTH (udp_contents p @ [d])"
  proof (cases "up_count p \<ge> UDP_QUEUE_DEPTH")
    case True
    then show ?thesis using assms by (simp add: queue_dgram_def udp_contents_def uq_ok_def)
  next
    case False
    have "(up_head p + i) mod 8 \<noteq> (up_head p + up_count p) mod 8" if "i < up_count p" for i
    proof
      assume "(up_head p + i) mod 8 = (up_head p + up_count p) mod 8"
      then have "8 dvd (up_head p + up_count p) - (up_head p + i)" using that mod_eq_dvd_iff_nat [of "up_head p + i" "up_head p + up_count p" 8] by simp
      then have "8 dvd up_count p - i" by simp
      then show False using that False by (auto dest: dvd_imp_le)
    qed
    then show ?thesis using False by (simp add: queue_dgram_def udp_contents_def)
  qed
qed

lemma dequeue_contents:
  assumes "uq_ok p" "udp_contents p = d # ds"
  defines "p' \<equiv> p\<lparr>up_head := (up_head p + 1) mod UDP_QUEUE_DEPTH, up_count := up_count p - 1\<rparr>"
  shows "up_queue p (up_head p) = d" "udp_contents p' = ds" "uq_ok p'" "up_count p \<noteq> 0"
proof -
  obtain n where n: "up_count p = Suc n" using assms(2) by (cases "up_count p") (simp_all add: udp_contents_def)
  have u: "[0..<Suc n] = 0 # map Suc [0..<n]" by (simp add: upt_conv_Cons map_Suc_upt del: upt_Suc)
  have h: "up_head p mod 8 = up_head p" using assms(1) by (simp add: uq_ok_def)
  have e: "d # ds = up_queue p (up_head p) # map (\<lambda>i. up_queue p ((up_head p + Suc i) mod 8)) [0..<n]"
    using assms(2) unfolding udp_contents_def n u by (simp add: h o_def)
  then show "up_queue p (up_head p) = d" by simp
  show "udp_contents p' = ds" using e by (simp add: udp_contents_def p'_def n mod_add_left_eq)
  show "uq_ok p'" using assms(1) by (auto simp: uq_ok_def p'_def)
  show "up_count p \<noteq> 0" by (simp add: n)
qed

section \<open>From socket to socket\<close>

lemma udp_deliver_first:
  assumes "\<forall>c. Some c \<in> set xs \<longrightarrow> (\<exists>r. u_heap t c = Some r \<and> up_local_port r \<noteq> port)" "u_heap t b = Some q" "up_local_port q = port"
    "up_remote_ip q = 0 \<or> up_remote_ip q = ud_src_ip d \<and> up_remote_port q = ud_src_port d"
  shows "udp_deliver port d (xs @ Some b # ys) t = Some (set_upcb b (queue_dgram d q) t)"
  using assms
proof (induction xs)
  case (Cons x xs)
  then show ?case by (cases x) fastforce+
qed auto


text \<open>Receiving returns the datagram that has waited longest, cut to the buffer of the caller, with its sender, and leaves the others in order.\<close>

theorem udp_recv_next:
  assumes "u_heap t b = Some q" "uq_ok q" "udp_contents q = d # ds"
  shows "\<exists>t' q'. udp_recvfrom (Some b) len timeout_ms t = Some (Done (int (min (length (ud_data d)) len), Some (take len (ud_data d), ud_src_ip d, ud_src_port d)), t') \<and>
    u_heap t' = (u_heap t)(b \<mapsto> q') \<and> uq_ok q' \<and> udp_contents q' = ds"
proof -
  note D = dequeue_contents [OF assms(2,3)]
  have "min (length (ud_data d)) len = (if length (ud_data d) < len then length (ud_data d) else len)" by simp
  moreover have "take (if length (ud_data d) < len then length (ud_data d) else len) (ud_data d) = take len (ud_data d)" by simp
  ultimately show ?thesis using assms(1) D by (auto simp: udp_recvfrom_def udp_recv_turn_def pit_uptime_ms_def Let_def set_upcb_def)
qed

text \<open>Two hosts with one socket each.\<close>

definition sample_upcb :: udp_pcb where
  "sample_upcb = \<lparr>up_local_ip = 0, up_local_port = 53, up_remote_ip = 0, up_remote_port = 0,
     up_queue = (\<lambda>_. \<lparr>ud_src_ip = 0, ud_src_port = 0, ud_data = []\<rparr>), up_head = 0, up_count = 0\<rparr>"

definition sample_udp :: "u32 \<Rightarrow> u32 \<Rightarrow> udp" where
  "sample_udp a b = ipnet.extend (sample_host a b)
     \<lparr>u_pcbs = Some 4 # replicate 31 None, u_heap = [4 \<mapsto> sample_upcb], u_next_port = 49152, u_oom = (\<lambda>_. False), u_next = 5,
      u_junk = (\<lambda>_ _. \<lparr>ud_src_ip = 0, ud_src_port = 0, ud_data = []\<rparr>)\<rparr>"

lemma sample_udp_fields:
  "arp_cache (sample_udp a b) = arp_cache (sample_host a b)" "if_up (g_netif (sample_udp a b))" "if_ip (g_netif (sample_udp a b)) = a" "drv_ok (sample_udp a b) k"
  "\<not> uptime (sample_udp a b) (ticks (sample_udp a b)) - 5 > ARP_ENTRY_TTL_MS" "ip_next_hop x (sample_udp a b) = x"
  "u_heap (sample_udp a b) = [4 \<mapsto> sample_upcb]" "u_pcbs (sample_udp a b) = [] @ Some 4 # replicate 31 None"
  by (simp_all add: sample_udp_def ipnet.defs sample_host_def ip_next_hop_def Let_def)

lemma sample_sendto: "\<exists>s'. udp_sendto (Some 4) [9] 2 53 (sample_udp 1 2) = Some (1, s')"
proof -
  have "\<exists>s'. ip_output 2 IP_PROTOCOL_UDP h [9] (sample_udp 1 2) = Some (True, s')" if "length h = 8" for h
    by (rule output_cached [where m = 18 and t = 5]) (use sample_cache [of 1 2] that in \<open>simp_all add: sample_udp_fields\<close>)
  then obtain s' where "ip_output 2 IP_PROTOCOL_UDP (udp_header_bytes (udp_header_for 1 2 53 53 [9])) [9] (sample_udp 1 2) = Some (True, s')" by (metis length_udp_header)
  then show ?thesis by (simp add: udp_sendto_def sample_udp_fields sample_upcb_def)
qed


theorem udp_recv_next_witness:
  "\<exists>t'. udp_recvfrom (Some 4) 2 0 ((sample_udp 2 1)\<lparr>u_heap := [4 \<mapsto> queue_dgram \<lparr>ud_src_ip = 1, ud_src_port = 53, ud_data = [9, 8, 7]\<rparr> sample_upcb]\<rparr>) =
     Some (Done (2, Some ([9, 8], 1, 53)), t')"
proof -
  let ?d = "\<lparr>ud_src_ip = 1, ud_src_port = 53, ud_data = [9, 8, 7]\<rparr>"
  let ?t = "(sample_udp 2 1)\<lparr>u_heap := [4 \<mapsto> queue_dgram ?d sample_upcb]\<rparr>"
  have o: "uq_ok sample_upcb" "udp_contents sample_upcb = []" by (simp_all add: sample_upcb_def uq_ok_def udp_contents_def)
  have "udp_contents (queue_dgram ?d sample_upcb) = ?d # []" using queue_contents(2) [OF o(1)] o(2) by simp
  from udp_recv_next [OF _ queue_contents(1) [OF o(1)] this, of ?t 4 2 0] show ?thesis by auto
qed

end
