(* ===== verification/Netif.thy ===== *)
theory Netif
  imports Ip
begin

text \<open>
  The receive queue of the interface and its configuration, \<^verbatim>\<open>kernel/net/netif.c\<close>. The interrupt handler of the card fills the queue at
  any time, also while \<^verbatim>\<open>net_poll\<close> is working on a frame: no frame that was accepted is lost, repeated or overwritten, and the stack
  sees them in the order in which they came.
\<close>

abbreviation (input) NETIF_FRAME_MAX :: nat where "NETIF_FRAME_MAX \<equiv> 1522"
abbreviation (input) NETIF_RX_QUEUE :: nat where "NETIF_RX_QUEUE \<equiv> 64"

text \<open>\<open>rx_queue\<close> are the slots, each the bytes of a frame.\<close>

record netq =
  rx_queue :: "nat \<Rightarrow> u8 list"
  rx_head :: nat
  rx_tail :: nat
  rx_queued_total :: u64
  rx_dropped_total :: u64

definition netif_rx :: "u8 list \<Rightarrow> netq \<Rightarrow> netq" where
  "netif_rx frame q =
     (if length frame < 14 \<or> length frame > NETIF_FRAME_MAX then q\<lparr>rx_dropped_total := rx_dropped_total q + 1\<rparr>
      else
        let tail = rx_tail q; nxt = (tail + 1) mod NETIF_RX_QUEUE in
        if nxt = rx_head q then q\<lparr>rx_dropped_total := rx_dropped_total q + 1\<rparr>
        else q\<lparr>rx_queue := (rx_queue q)(tail := frame), rx_tail := nxt, rx_queued_total := rx_queued_total q + 1\<rparr>)"

text \<open>The loop of \<^verbatim>\<open>net_poll\<close>: the frame it hands to \<^verbatim>\<open>eth_input\<close> next, and what it does when \<^verbatim>\<open>eth_input\<close> has returned.\<close>

definition poll_take :: "netq \<Rightarrow> u8 list option" where
  "poll_take q = (if rx_head q \<noteq> rx_tail q then Some (rx_queue q (rx_head q)) else None)"

definition poll_done :: "netq \<Rightarrow> netq" where
  "poll_done q = q\<lparr>rx_head := (rx_head q + 1) mod NETIF_RX_QUEUE\<rparr>"

text \<open>The whole loop, when the handler returns each time and no frame comes in meanwhile.\<close>

partial_function (option) net_poll :: "(u8 list \<Rightarrow> 's \<Rightarrow> 's option) \<Rightarrow> nat \<Rightarrow> netq \<Rightarrow> 's \<Rightarrow> (nat \<times> netq \<times> 's) option" where
  "net_poll eth processed q s =
     (case poll_take q of
        None \<Rightarrow> Some (processed, q, s)
      | Some f \<Rightarrow> Option.bind (eth f s) (\<lambda>s. net_poll eth (processed + 1) (poll_done q) s))"

definition netif_get_stats :: "netq \<Rightarrow> u64 \<times> u64" where
  "netif_get_stats q = (rx_queued_total q, rx_dropped_total q)"

text \<open>\<open>rtl8139\<close> and \<open>e1000\<close> are what the probes of the two drivers find: no card, or one with this hardware address.\<close>

definition net_init :: "mac option \<Rightarrow> mac option \<Rightarrow> int \<times> netif" where
  "net_init rtl8139 e1000 =
     (let n = \<lparr>if_up = False, if_mac = 0, if_ip = htonl 0x0A00020F, if_netmask = htonl 0xFFFFFF00, if_gateway = htonl 0x0A000202, if_dns = htonl 0x0A000203\<rparr>
      in case rtl8139 of
           Some m \<Rightarrow> (0, n\<lparr>if_mac := m, if_up := True\<rparr>)
         | None \<Rightarrow> (case e1000 of Some m \<Rightarrow> (0, n\<lparr>if_mac := m, if_up := True\<rparr>) | None \<Rightarrow> (- 1, n)))"

section \<open>The queue\<close>

definition rq_ok :: "netq \<Rightarrow> bool" where
  "rq_ok q \<longleftrightarrow> rx_head q < NETIF_RX_QUEUE \<and> rx_tail q < NETIF_RX_QUEUE"

definition rq_count :: "netq \<Rightarrow> nat" where
  "rq_count q = (rx_tail q + NETIF_RX_QUEUE - rx_head q) mod NETIF_RX_QUEUE"

definition rq_contents :: "netq \<Rightarrow> u8 list list" where
  "rq_contents q = map (\<lambda>i. rx_queue q ((rx_head q + i) mod NETIF_RX_QUEUE)) [0..<rq_count q]"

definition rx_accepts :: "u8 list \<Rightarrow> netq \<Rightarrow> bool" where
  "rx_accepts f q \<longleftrightarrow> 14 \<le> length f \<and> length f \<le> NETIF_FRAME_MAX \<and> (rx_tail q + 1) mod NETIF_RX_QUEUE \<noteq> rx_head q"

lemma rq_count_lt: "rq_count q < NETIF_RX_QUEUE"
  by (simp add: rq_count_def)

lemma rq_count_eq:
  assumes "rq_ok q"
  shows "rq_count q = (if rx_head q \<le> rx_tail q then rx_tail q - rx_head q else rx_tail q + NETIF_RX_QUEUE - rx_head q)"
proof (cases "rx_head q \<le> rx_tail q")
  case True
  then have "rx_tail q + NETIF_RX_QUEUE - rx_head q = (rx_tail q - rx_head q) + NETIF_RX_QUEUE" by simp
  then have "rq_count q = (rx_tail q - rx_head q) mod NETIF_RX_QUEUE" by (simp only: rq_count_def mod_add_self2)
  moreover have "rx_tail q - rx_head q < NETIF_RX_QUEUE" using assms unfolding rq_ok_def by linarith
  ultimately show ?thesis using True by simp
next
  case False
  then have "rx_tail q + NETIF_RX_QUEUE - rx_head q < NETIF_RX_QUEUE" using assms unfolding rq_ok_def by linarith
  then show ?thesis using False by (simp add: rq_count_def)
qed

lemma next_slot: "i < NETIF_RX_QUEUE \<Longrightarrow> (i + 1) mod NETIF_RX_QUEUE = (if i = NETIF_RX_QUEUE - 1 then 0 else i + 1)"
  by (cases "i = NETIF_RX_QUEUE - 1") simp_all

lemma rq_tail: "rq_ok q \<Longrightarrow> (rx_head q + rq_count q) mod NETIF_RX_QUEUE = rx_tail q"
  by (auto simp: rq_count_eq) (auto simp: rq_ok_def)

lemma rq_full: "rq_ok q \<Longrightarrow> (rx_tail q + 1) mod NETIF_RX_QUEUE = rx_head q \<longleftrightarrow> rq_count q = NETIF_RX_QUEUE - 1"
  by (subst next_slot) (auto simp: rq_count_eq, auto simp: rq_ok_def)

lemma rx_contents:
  assumes "rq_ok q"
  shows "rq_ok (netif_rx f q)" "rq_contents (netif_rx f q) = rq_contents q @ (if rx_accepts f q then [f] else [])"
    "rx_queued_total (netif_rx f q) = rx_queued_total q + (if rx_accepts f q then 1 else 0)" "rx_head (netif_rx f q) = rx_head q"
proof -
  show "rq_ok (netif_rx f q)" "rx_head (netif_rx f q) = rx_head q" "rx_queued_total (netif_rx f q) = rx_queued_total q + (if rx_accepts f q then 1 else 0)"
    using assms by (auto simp: rq_ok_def netif_rx_def Let_def rx_accepts_def)
  show "rq_contents (netif_rx f q) = rq_contents q @ (if rx_accepts f q then [f] else [])"
  proof (cases "rx_accepts f q")
    case False
    then have "rx_queue (netif_rx f q) = rx_queue q" "rx_head (netif_rx f q) = rx_head q" "rx_tail (netif_rx f q) = rx_tail q"
      by (auto simp: netif_rx_def Let_def rx_accepts_def)
    then show ?thesis using False by (simp add: rq_contents_def rq_count_def)
  next
    case True
    then have q': "rx_queue (netif_rx f q) = (rx_queue q)(rx_tail q := f)" "rx_head (netif_rx f q) = rx_head q" "rx_tail (netif_rx f q) = (rx_tail q + 1) mod NETIF_RX_QUEUE"
      by (auto simp: netif_rx_def Let_def rx_accepts_def)
    have n: "rq_count q \<noteq> NETIF_RX_QUEUE - 1" using True rq_full [OF assms] by (simp add: rx_accepts_def)
    have c: "rq_count (netif_rx f q) = Suc (rq_count q)"
    proof -
      have ok': "rq_ok (netif_rx f q)" using assms q' by (simp add: rq_ok_def)
      have t: "rx_tail (netif_rx f q) = (if rx_tail q = NETIF_RX_QUEUE - 1 then 0 else rx_tail q + 1)"
        using assms next_slot [of "rx_tail q"] unfolding q' rq_ok_def by simp
      have "rx_tail (netif_rx f q) \<noteq> rx_head q" using True unfolding q' rx_accepts_def by blast
      then show ?thesis using n assms unfolding rq_count_eq [OF ok'] rq_count_eq [OF assms] t q'(2) rq_ok_def by (auto split: if_splits)
    qed
    have "(rx_head q + i) mod NETIF_RX_QUEUE \<noteq> rx_tail q" if "i < rq_count q" for i
    proof
      assume "(rx_head q + i) mod NETIF_RX_QUEUE = rx_tail q"
      then have "(rx_head q + i) mod NETIF_RX_QUEUE = (rx_head q + rq_count q) mod NETIF_RX_QUEUE" using rq_tail [OF assms] by simp
      then have "NETIF_RX_QUEUE dvd (rx_head q + rq_count q) - (rx_head q + i)" using that mod_eq_dvd_iff_nat [of "rx_head q + i" "rx_head q + rq_count q" NETIF_RX_QUEUE] by simp
      then show False using that rq_count_lt [of q] by (auto dest!: dvd_imp_le)
    qed
    then show ?thesis using True rq_tail [OF assms] by (simp add: rq_contents_def q' c)
  qed
qed

lemma poll_contents:
  assumes "rq_ok q"
  shows "poll_take q = (case rq_contents q of [] \<Rightarrow> None | f # _ \<Rightarrow> Some f)" "rq_ok (poll_done q)"
    "rx_head q \<noteq> rx_tail q \<Longrightarrow> rq_contents (poll_done q) = tl (rq_contents q)"
proof -
  have e: "rx_head q = rx_tail q \<longleftrightarrow> rq_count q = 0" using assms by (auto simp: rq_count_eq) (auto simp: rq_ok_def)
  have h: "rx_head q mod 64 = rx_head q" using assms by (simp add: rq_ok_def)
  show "rq_ok (poll_done q)" using assms by (simp add: rq_ok_def poll_done_def)
  show "poll_take q = (case rq_contents q of [] \<Rightarrow> None | f # _ \<Rightarrow> Some f)"
    using e h by (cases "rq_count q") (simp_all add: poll_take_def rq_contents_def upt_conv_Cons del: upt_Suc)
  assume ne: "rx_head q \<noteq> rx_tail q"
  then obtain n where n: "rq_count q = Suc n" using e by (cases "rq_count q") auto
  have u: "[0..<Suc n] = 0 # map Suc [0..<n]" by (simp add: upt_conv_Cons map_Suc_upt del: upt_Suc)
  have "rq_count (poll_done q) = n"
  proof -
    have ok': "rq_ok (poll_done q)" using assms by (simp add: rq_ok_def poll_done_def)
    have t: "rx_head (poll_done q) = (if rx_head q = NETIF_RX_QUEUE - 1 then 0 else rx_head q + 1)" "rx_tail (poll_done q) = rx_tail q"
      using assms next_slot [of "rx_head q"] unfolding rq_ok_def by (simp_all add: poll_done_def)
    show ?thesis using n ne assms unfolding rq_count_eq [OF ok'] rq_count_eq [OF assms] t rq_ok_def by (auto split: if_splits)
  qed
  then show "rq_contents (poll_done q) = tl (rq_contents q)"
    unfolding rq_contents_def n u by (simp add: poll_done_def o_def mod_add_left_eq)
qed

section \<open>The interrupt handler and the stack\<close>

text \<open>The queue while interrupts come in between: \<open>accepted\<close> are the frames that \<^verbatim>\<open>netif_rx\<close> has taken, \<open>handled\<close> those that were handed to \<^verbatim>\<open>eth_input\<close>, and
  \<open>busy\<close> says that \<^verbatim>\<open>eth_input\<close> is at work on the last of them, reading it in its slot.\<close>

inductive rx_run :: "netq \<Rightarrow> u8 list list \<Rightarrow> u8 list list \<Rightarrow> bool \<Rightarrow> bool" where
  start: "rq_ok q \<Longrightarrow> rx_head q = rx_tail q \<Longrightarrow> rx_queued_total q = 0 \<Longrightarrow> rx_run q [] [] False"
| interrupt: "rx_run q accepted handled busy \<Longrightarrow> rx_run (netif_rx f q) (accepted @ (if rx_accepts f q then [f] else [])) handled busy"
| take_frame: "rx_run q accepted handled False \<Longrightarrow> poll_take q = Some f \<Longrightarrow> rx_run q accepted (handled @ [f]) True"
| done_frame: "rx_run q accepted handled True \<Longrightarrow> rx_run (poll_done q) accepted handled False"

lemma rx_run_inv:
  "rx_run q accepted handled busy \<Longrightarrow> rq_ok q \<and> rx_queued_total q = of_nat (length accepted) \<and>
     (if busy then handled \<noteq> [] \<and> accepted = butlast handled @ rq_contents q \<and> rq_contents q \<noteq> [] \<and> hd (rq_contents q) = last handled
      else accepted = handled @ rq_contents q)"
proof (induction rule: rx_run.induct)
  case (start q)
  then show ?case by (simp add: rq_contents_def rq_count_eq)
next
  case (interrupt q accepted handled busy f)
  then show ?case using rx_contents [of q f] by (cases busy) auto
next
  case (take_frame q accepted handled f)
  then show ?case using poll_contents(1) [of q] by (auto split: list.splits)
next
  case (done_frame q accepted handled)
  then have ok: "rq_ok q" and ne: "rq_contents q \<noteq> []" by auto
  then have "poll_take q \<noteq> None" using poll_contents(1) [OF ok] by (auto split: list.splits)
  then have "rx_head q \<noteq> rx_tail q" by (auto simp: poll_take_def)
  then have c: "rq_contents (poll_done q) = tl (rq_contents q)" by (rule poll_contents(3) [OF ok])
  have "handled @ tl (rq_contents q) = butlast handled @ rq_contents q"
    using done_frame.IH ne by (metis append_assoc append_butlast_last_id append_Cons append_Nil list.collapse)
  then show ?case using done_frame.IH c poll_contents(2) [OF ok] by (simp add: poll_done_def)
qed


text \<open>Draining the queue runs the handler on the waiting frames in order.\<close>

fun run_frames :: "(u8 list \<Rightarrow> 's \<Rightarrow> 's option) \<Rightarrow> u8 list list \<Rightarrow> 's \<Rightarrow> 's option" where
  "run_frames eth [] s = Some s"
| "run_frames eth (f # fs) s = Option.bind (eth f s) (run_frames eth fs)"

lemma net_poll_drains: "rq_ok q \<Longrightarrow> run_frames eth (rq_contents q) s = Some s' \<Longrightarrow>
    \<exists>q'. net_poll eth n q s = Some (n + rq_count q, q', s') \<and> rq_contents q' = []"
proof (induction "rq_contents q" arbitrary: q n s)
  case Nil
  then have "rq_count q = 0" by (simp add: rq_contents_def)
  then show ?case using Nil poll_contents(1) [OF Nil.prems(1)] by (subst net_poll.simps) auto
next
  case (Cons f fs)
  have t: "poll_take q = Some f" using poll_contents(1) [OF Cons.prems(1)] Cons.hyps(2) by (metis list.simps(5))
  then have "rx_head q \<noteq> rx_tail q" by (auto simp: poll_take_def)
  then have c: "rq_contents (poll_done q) = fs" using poll_contents(3) [OF Cons.prems(1)] Cons.hyps(2) by (metis list.sel(3))
  have n: "rq_count q = Suc (rq_count (poll_done q))"
    using arg_cong [OF c, of length] arg_cong [OF Cons.hyps(2), of length] by (simp add: rq_contents_def)
  obtain s1 where s1: "eth f s = Some s1" "run_frames eth fs s1 = Some s'" using Cons.prems(2) Cons.hyps(2) [symmetric] by (auto simp: Option.bind_eq_Some_conv)
  have "\<exists>q'. net_poll eth (n + 1) (poll_done q) s1 = Some (n + 1 + rq_count (poll_done q), q', s') \<and> rq_contents q' = []"
    by (rule Cons.hyps(1)) (use c s1 poll_contents(2) [OF Cons.prems(1)] in auto)
  then show ?case using t s1 n by (subst net_poll.simps) simp
qed


end
